(* ===== verification/Prelude.thy ===== *)
theory Prelude
  imports Main "HOL-Library.Word"
begin

text \<open>
  Shared vocabulary of the development: the C integer types as words, error codes as a
  datatype, results as sums, and the generic facts on lists, words and sums that the
  component theories rewrite with.  The collections \<open>wire_simps\<close>, \<open>ring_simps\<close> and
  \<open>inv_defs\<close> are filled by the component theories.
\<close>

unbundle bit_operations_syntax

named_theorems wire_simps "equations of the wire-format readers and writers"
named_theorems ring_simps "facts on byte rings and their abstraction"
named_theorems inv_defs "definitions of the state invariants"

section \<open>Types\<close>

type_synonym u8 = "8 word"
type_synonym u16 = "16 word"
type_synonym u32 = "32 word"
type_synonym u64 = "64 word"
type_synonym bytes = "u8 list"

text \<open>
  The negative \<open>errno\<close> values the modelled functions return.  \<open>EOther n\<close> stands for an
  \<open>errno\<close> value that a system call reported and the code only passes on.
\<close>

datatype errno =
    EBADMSG | EPROTOTYPE | EOVERFLOW | ENOMEM | ENOTSUP | EPROTONOSUPPORT
  | EINVAL | EBUSY | EIO | ENODATA | EFBIG | ENAMETOOLONG | EINTR | EOther nat

type_synonym 'a result = "errno + 'a"

text \<open>\<open>SIZE_MAX\<close> of the 64-bit targets the program is built for.\<close>

definition size_max :: nat where
  "size_max = 2 ^ 64 - 1"

section \<open>Sums\<close>

lemma case_sum_Inr_iff:
  "(case x of Inl e \<Rightarrow> Inl e | Inr y \<Rightarrow> f y) = Inr z \<longleftrightarrow> (\<exists>y. x = Inr y \<and> f y = Inr z)"
  by (cases x) auto

lemma case_sum_Inl_iff:
  "(case x of Inl e \<Rightarrow> Inl e | Inr y \<Rightarrow> f y) = Inl z \<longleftrightarrow> x = Inl z \<or> (\<exists>y. x = Inr y \<and> f y = Inl z)"
  by (cases x) auto

section \<open>Lists\<close>

lemma take_length_diff_append [simp]: "take (length (xs @ ys) - length ys) (xs @ ys) = xs"
  by simp

lemma list_update_take_drop:
  "i < length xs \<Longrightarrow> xs[i := y] = take i xs @ y # drop (Suc i) xs"
  by (simp add: upd_conv_take_nth_drop)

lemma sum_list_map_filter_split:
  "sum_list (map f xs) = sum_list (map f (filter P xs)) + sum_list (map f (filter (\<lambda>x. \<not> P x) xs))"
  for f :: "'a \<Rightarrow> nat"
  by (induction xs) auto

lemma length_filter_split:
  "length xs = length (filter P xs) + length (filter (\<lambda>x. \<not> P x) xs)"
  by (induction xs) auto

lemma sorted_wrt_dropWhile: "sorted_wrt R xs \<Longrightarrow> sorted_wrt R (dropWhile P xs)"
  by (induction xs) auto

section \<open>Words\<close>

lemma word_less_pow_bitI:
  fixes v :: "'a::len word"
  assumes "unat v < 2 ^ k" and "k \<le> n"
  shows "\<not> bit v n"
proof -
  have "unat v < 2 ^ n"
    using assms by (meson less_le_trans power_increasing one_le_numeral)
  then have "\<not> bit (unat v) n"
    by (simp add: bit_iff_odd)
  then show ?thesis
    by (metis bit_imp_le_length bit_unsigned_iff possible_bit_nat)
qed

lemma unat_drop_bit_div: "unat (drop_bit n w) = unat w div 2 ^ n" for w :: "'a::len word"
  by (metis drop_bit_eq_div unat_drop_bit_eq)

lemma word_diff_mono: "a \<le> b \<Longrightarrow> b \<le> w \<Longrightarrow> w - b \<le> w - a" for a b w :: "'a::len word"
  by (simp add: word_le_nat_alt unat_sub)

lemma unat_lt_64: "unat v < 2 ^ 64" for v :: u64
  using unsigned_less [of v] by simp

lemma unat_of_nat_64: "n < 2 ^ 64 \<Longrightarrow> unat (of_nat n :: u64) = n"
  by (simp add: unsigned_of_nat take_bit_nat_eq_self)

lemma uint_scast_pos:
  fixes w :: "32 word"
  assumes "0 \<le> sint w"
  shows "uint (scast w :: 64 word) = sint w"
proof -
  have lt: "sint w < 2 ^ 31"
    using sint_less [of w] by simp
  have "uint (word_of_int (sint w) :: 64 word) = sint w mod 2 ^ 64"
    by (subst uint_word_of_int) simp
  also have "\<dots> = sint w"
    using assms lt by (intro mod_pos_pos_trivial) simp_all
  finally show ?thesis
    by (simp only: scast_eq)
qed
section \<open>Object representation\<close>

text \<open>
  The bytes of an integer in memory, least significant byte first, as on every target the program
  is built for (x86-64, arm64, loongarch64).
\<close>

fun le_bytes :: "nat \<Rightarrow> 'a::len word \<Rightarrow> bytes" where
  "le_bytes 0 w = []"
| "le_bytes (Suc n) w = ucast w # le_bytes n (drop_bit 8 w)"

fun le_word :: "bytes \<Rightarrow> 'a::len word" where
  "le_word [] = 0"
| "le_word (b # bs) = ucast b OR push_bit 8 (le_word bs)"

lemma length_le_bytes [simp]: "length (le_bytes n w) = n"
  by (induction n arbitrary: w) auto

lemma le_word_le_bytes: "le_word (le_bytes n w) = take_bit (8 * n) w" for w :: "'a::len word"
proof (induction n arbitrary: w)
  case 0
  then show ?case by simp
next
  case (Suc n)
  have "ucast (ucast w :: u8) OR push_bit 8 (take_bit (8 * n) (drop_bit 8 w)) = take_bit (8 * Suc n) w"
    by (rule bit_word_eqI) (auto simp: bit_simps)
  with Suc show ?case by simp
qed

lemma le_word_32: "le_word (le_bytes 4 w) = w" for w :: u32
  by (simp add: le_word_le_bytes take_bit_word_eq_self)

lemma le_word_64: "le_word (le_bytes 8 w) = w" for w :: u64
  by (simp add: le_word_le_bytes take_bit_word_eq_self)

lemma add_mod_wrap: "a < c \<Longrightarrow> b \<le> c \<Longrightarrow> (a + b) mod c = (if a + b < c then a + b else a + b - c)"
  for a b c :: nat
  by (simp add: mod_if)

text \<open>\<open>memcpy\<close> into and out of a block of memory; \<open>None\<close> is an access outside the block.\<close>

definition memcpy_to :: "bytes \<Rightarrow> nat \<Rightarrow> bytes \<Rightarrow> bytes option" where
  "memcpy_to buf off d =
     (if off + length d \<le> length buf then Some (take off buf @ d @ drop (off + length d) buf) else None)"

definition memcpy_from :: "bytes \<Rightarrow> nat \<Rightarrow> nat \<Rightarrow> bytes option" where
  "memcpy_from buf off n = (if off + n \<le> length buf then Some (take n (drop off buf)) else None)"

lemma memcpy_to_nth:
  "memcpy_to buf off d = Some buf' \<Longrightarrow>
     length buf' = length buf \<and>
     (\<forall>j < length buf. buf' ! j = (if off \<le> j \<and> j < off + length d then d ! (j - off) else buf ! j))"
  by (auto simp: memcpy_to_def nth_append split: if_splits)

end
