(* ===== verification/Interfaces.thy ===== *)
theory Interfaces
  imports Prelude
begin

text \<open>
  Interfaces that several components implement, with the consequences their clients use.
\<close>

section \<open>Bounded keyed stores\<close>

text \<open>
  A store of at most \<open>cap\<close> records, each found by its key: an update of a known key, or of a new one
  while there is room, changes that key's record and nothing else; a new key without room changes
  no record.  The remaining operations \<open>aux\<close> change no record.
\<close>

locale keyed_store =
  fixes inv :: "'s \<Rightarrow> bool"
    and key_ok :: "'s \<Rightarrow> 'k \<Rightarrow> bool"
    and view :: "'s \<Rightarrow> 'k \<Rightarrow> 'r option"
    and cap :: "'s \<Rightarrow> nat"
    and aux :: "'a \<Rightarrow> 's \<Rightarrow> 's"
    and upd :: "'k \<Rightarrow> 'i \<Rightarrow> 's \<Rightarrow> 's"
    and app :: "'k \<Rightarrow> 'i \<Rightarrow> 'r option \<Rightarrow> 'r"
  assumes finite_view: "inv s \<Longrightarrow> finite (dom (view s))"
    and aux_law: "inv s \<Longrightarrow>
          inv (aux a s) \<and> cap (aux a s) = cap s \<and> key_ok (aux a s) = key_ok s \<and> view (aux a s) = view s"
    and upd_frame: "inv s \<Longrightarrow> key_ok s k \<Longrightarrow>
          inv (upd k i s) \<and> cap (upd k i s) = cap s \<and> key_ok (upd k i s) = key_ok s"
    and upd_view: "inv s \<Longrightarrow> key_ok s k \<Longrightarrow>
          view (upd k i s) = (if k \<notin> dom (view s) \<and> cap s \<le> card (dom (view s)) then view s
                              else (view s)(k \<mapsto> app k i (view s k)))"
begin

lemma run_keeps:
  assumes "inv s" and "\<forall>(k, i) \<in> Inr -` set xs. key_ok s k"
  shows "inv (fold (case_sum aux (case_prod upd)) xs s) \<and> cap (fold (case_sum aux (case_prod upd)) xs s) = cap s \<and>
         dom (view s) \<subseteq> dom (view (fold (case_sum aux (case_prod upd)) xs s))"
  using assms
proof (induction xs arbitrary: s)
  case Nil
  then show ?case by simp
next
  case (Cons x xs)
  define s1 where "s1 = case_sum aux (case_prod upd) x s"
  have s1: "inv s1 \<and> cap s1 = cap s \<and> key_ok s1 = key_ok s \<and> dom (view s) \<subseteq> dom (view s1)"
  proof (cases x)
    case (Inl a)
    then show ?thesis
      using aux_law Cons.prems(1) by (simp add: s1_def)
  next
    case (Inr p)
    then obtain k i where x: "x = Inr (k, i)"
      by (cases p) auto
    then have "key_ok s k"
      using Cons.prems(2) by auto
    then show ?thesis
      using upd_frame [of s k i] upd_view [of s k i] Cons.prems(1) x by (auto simp: s1_def)
  qed
  have k1: "\<forall>(k, i) \<in> Inr -` set xs. key_ok s1 k"
    using Cons.prems(2) s1 by auto
  have "fold (case_sum aux (case_prod upd)) (x # xs) s = fold (case_sum aux (case_prod upd)) xs s1"
    by (simp add: s1_def)
  with Cons.IH [OF _ k1] s1 show ?case
    by (metis (no_types, lifting) subset_trans)
qed

text \<open>
  While all keys fit, the record of a key is the fold of the updates of that key alone: no other
  operation disturbs it, and none of its updates is lost.
\<close>

lemma run_view:
  assumes "inv s" and "\<forall>(k, i) \<in> Inr -` set xs. key_ok s k"
    and "card (dom (view s) \<union> fst ` (Inr -` set xs)) \<le> cap s"
  shows "view (fold (case_sum aux (case_prod upd)) xs s) k =
         fold (\<lambda>i r. Some (app k i r)) [i. Inr (k', i) \<leftarrow> xs, k' = k] (view s k)"
  using assms
proof (induction xs arbitrary: s)
  case Nil
  then show ?case by simp
next
  case (Cons x xs)
  show ?case
  proof (cases x)
    case (Inl a)
    then show ?thesis
      using Cons.IH [of "aux a s"] Cons.prems aux_law [of s a] by (simp add: vimage_def)
  next
    case (Inr p)
    obtain k' i where p: "p = (k', i)"
      by (cases p)
    have ok: "key_ok s k'"
      using Cons.prems(2) Inr p by auto
    have u: "inv (upd k' i s)" "cap (upd k' i s) = cap s" "key_ok (upd k' i s) = key_ok s"
      using upd_frame [OF Cons.prems(1) ok] by auto
    have keys: "fst ` (Inr -` set (x # xs)) = insert k' (fst ` (Inr -` set xs))"
      using Inr p by force
    have fin: "finite (dom (view s) \<union> fst ` (Inr -` set (x # xs)))"
      using finite_view [OF Cons.prems(1)] by (simp add: finite_vimageI)
    have lt: "card (dom (view s)) < cap s" if "k' \<notin> dom (view s)"
    proof -
      have "card (insert k' (dom (view s))) \<le> card (dom (view s) \<union> fst ` (Inr -` set (x # xs)))"
        by (rule card_mono [OF fin]) (unfold keys, auto)
      then show ?thesis
        using Cons.prems(3) that finite_view [OF Cons.prems(1)] by simp
    qed
    have v: "view (upd k' i s) = (view s)(k' \<mapsto> app k' i (view s k'))"
      using upd_view [OF Cons.prems(1) ok, of i] lt by (cases "k' \<in> dom (view s)") (simp_all del: domIff)
    have "dom (view (upd k' i s)) \<union> fst ` (Inr -` set xs) = dom (view s) \<union> fst ` (Inr -` set (x # xs))"
      unfolding v keys by auto
    then have c: "card (dom (view (upd k' i s)) \<union> fst ` (Inr -` set xs)) \<le> cap (upd k' i s)"
      using Cons.prems(3) u by simp
    have "\<forall>(k2, i2) \<in> Inr -` set xs. key_ok (upd k' i s) k2"
      using Cons.prems(2) u by auto
    then show ?thesis
      using Cons.IH [OF u(1) _ c] Inr p v by simp
  qed
qed

text \<open>A store that is full stays full, and keys without a record get none.\<close>

lemma run_full:
  assumes "inv s" and "\<forall>(k, i) \<in> Inr -` set xs. key_ok s k" and "cap s \<le> card (dom (view s))" and "view s k = None"
  shows "view (fold (case_sum aux (case_prod upd)) xs s) k = None \<and>
         cap s \<le> card (dom (view (fold (case_sum aux (case_prod upd)) xs s)))"
  using assms
proof (induction xs arbitrary: s)
  case Nil
  then show ?case by simp
next
  case (Cons x xs)
  show ?case
  proof (cases x)
    case (Inl a)
    then show ?thesis
      using Cons.IH [of "aux a s"] Cons.prems aux_law [of s a] by (simp add: vimage_def)
  next
    case (Inr p)
    obtain k' i where p: "p = (k', i)"
      by (cases p)
    have ok: "key_ok s k'"
      using Cons.prems(2) Inr p by auto
    have u: "inv (upd k' i s)" "cap (upd k' i s) = cap s" "key_ok (upd k' i s) = key_ok s"
      using upd_frame [OF Cons.prems(1) ok] by auto
    have v: "view (upd k' i s) k = None" "dom (view (upd k' i s)) = dom (view s)"
      using upd_view [OF Cons.prems(1) ok, of i] Cons.prems(3,4) by (auto simp: dom_def)
    have "\<forall>(k2, i2) \<in> Inr -` set xs. key_ok (upd k' i s) k2"
      using Cons.prems(2) u by auto
    then show ?thesis
      using Cons.IH [OF u(1)] Inr p u v Cons.prems(3) by simp
  qed
qed

text \<open>Without any bound on the keys: a record has all the updates of its key, and only a full store has no record of a key.\<close>

lemma run_view_any:
  assumes "inv s" and "\<forall>(k, i) \<in> Inr -` set xs. key_ok s k"
  shows "view (fold (case_sum aux (case_prod upd)) xs s) k =
           fold (\<lambda>i r. Some (app k i r)) [i. Inr (k', i) \<leftarrow> xs, k' = k] (view s k) \<or>
         view s k = None \<and> view (fold (case_sum aux (case_prod upd)) xs s) k = None \<and>
           cap s \<le> card (dom (view (fold (case_sum aux (case_prod upd)) xs s)))"
  using assms
proof (induction xs arbitrary: s)
  case Nil
  then show ?case by simp
next
  case (Cons x xs)
  show ?case
  proof (cases x)
    case (Inl a)
    then show ?thesis
      using Cons.IH [of "aux a s"] Cons.prems aux_law [of s a] by (simp add: vimage_def)
  next
    case (Inr p)
    obtain k' i where p: "p = (k', i)"
      by (cases p)
    have ok: "key_ok s k'"
      using Cons.prems(2) Inr p by auto
    have u: "inv (upd k' i s)" "cap (upd k' i s) = cap s" "key_ok (upd k' i s) = key_ok s"
      using upd_frame [OF Cons.prems(1) ok] by auto
    have ks: "\<forall>(k2, i2) \<in> Inr -` set xs. key_ok (upd k' i s) k2"
      using Cons.prems(2) u by auto
    have run: "fold (case_sum aux (case_prod upd)) (x # xs) s = fold (case_sum aux (case_prod upd)) xs (upd k' i s)"
      using Inr p by simp
    note v = upd_view [OF Cons.prems(1) ok, of i]
    consider "k' \<noteq> k" "view (upd k' i s) k = view s k" | "k' = k" "view (upd k' i s) k = Some (app k i (view s k))"
      | "k' = k" "view s k = None" "view (upd k' i s) = view s" "cap s \<le> card (dom (view s))"
      using v by (cases "k' = k") (auto split: if_splits)
    then show ?thesis
    proof cases
      case 3
      then show ?thesis
        using run_full [OF u(1) ks, of k] u(2) unfolding run by simp
    qed (use Cons.IH [OF u(1) ks] u(2) Inr p run in auto)
  qed
qed

end

section \<open>Append-only buffers\<close>

text \<open>
  A growing buffer whose failure is sticky: an append adds the bytes or fails for good.  Clients
  chain appends without looking and check once at the end.
\<close>

locale append_buffer =
  fixes ok :: "'s \<Rightarrow> bool"
    and good :: "'s \<Rightarrow> bool"
    and dat :: "'s \<Rightarrow> bytes"
    and app :: "bytes \<Rightarrow> 's \<Rightarrow> 's"
  assumes app_ok: "ok s \<Longrightarrow> ok (app d s)"
    and app_good: "ok s \<Longrightarrow> good (app d s) \<Longrightarrow> good s \<and> dat (app d s) = dat s @ d"
begin

lemma chain:
  assumes "ok s" and "good (fold app ds s)"
  shows "ok (fold app ds s) \<and> good s \<and> dat (fold app ds s) = dat s @ concat ds"
  using assms
proof (induction ds arbitrary: s)
  case Nil
  then show ?case by simp
next
  case (Cons d ds)
  have "ok (app d s)"
    using app_ok Cons.prems(1) .
  then have "ok (fold app ds (app d s)) \<and> good (app d s) \<and> dat (fold app ds (app d s)) = dat (app d s) @ concat ds"
    using Cons.IH Cons.prems(2) by simp
  then show ?case
    using app_good [OF Cons.prems(1), of d] by simp
qed

end

end
