(* ===== verification/Wire.thy ===== *)
theory Wire
  imports Interfaces
begin

text \<open>
  The protobuf wire format as \<^verbatim>\<open>src/src/perfetto_trim.c\<close> reads and writes it: varints, wire
  fields and the growing output buffer.  A pair of C pointers \<open>cursor, end\<close> is the list of the
  bytes between them; advancing the cursor is dropping a prefix.
\<close>

section \<open>Varints\<close>

text \<open>
  The loop of \<open>decode_varint\<close>: \<open>shift\<close> and \<open>result\<close> are its local variables.  The result holds
  the value and the bytes after it (\<open>*value\<close> and \<open>*next\<close>).
\<close>

fun decode_varint_loop :: "nat \<Rightarrow> u64 \<Rightarrow> bytes \<Rightarrow> (u64 \<times> bytes) result" where
  "decode_varint_loop shift result [] = Inl EBADMSG"
| "decode_varint_loop shift result (byte # cursor) =
     (if \<not> shift < 64 then Inl EBADMSG
      else if shift = 63 \<and> byte > 1 then Inl EBADMSG
      else let result = result OR push_bit shift (ucast (byte AND 0x7f)) in
        if byte AND 0x80 = 0 then Inr (result, cursor)
        else decode_varint_loop (shift + 7) result cursor)"

definition decode_varint :: "bytes \<Rightarrow> (u64 \<times> bytes) result" where
  "decode_varint bs = decode_varint_loop 0 0 bs"

text \<open>The \<open>do \<dots> while (value)\<close> loop that fills \<open>encoded\<close> in \<open>buffer_varint\<close>.\<close>

function encode_varint :: "u64 \<Rightarrow> bytes" where
  "encode_varint v =
     (let encoded = ucast (v AND 0x7f); v' = drop_bit 7 v in
      if v' \<noteq> 0 then (encoded OR 0x80) # encode_varint v' else [encoded])"
  by pat_completeness auto
termination
proof (relation "measure unat")
  fix v v' :: u64 and x :: u8
  assume "v' = drop_bit 7 v" and "v' \<noteq> 0"
  then have "unat v' \<noteq> 0" and "unat v' = unat v div 2 ^ 7"
    by (simp add: unat_eq_zero, simp only: unat_drop_bit_div)
  then have "unat v' < unat v" by simp
  then show "(v', v) \<in> measure unat" by simp
qed simp

declare encode_varint.simps [simp del]

section \<open>Wire fields\<close>

text \<open>
  \<open>struct wire_field\<close>: \<open>raw\<close> is the range from \<open>start\<close> to \<open>end\<close>, \<open>payload\<close> the range of
  \<open>payload_size\<close> bytes at \<open>payload\<close>.  \<open>number\<close> and \<open>wire\<close> are \<open>unsigned int\<close>: assigning the
  64-bit \<open>key >> 3\<close> to \<open>number\<close> truncates.
\<close>

record wire_field =
  raw :: bytes
  payload :: bytes
  key :: u64
  val :: u64
  number :: u32
  wire :: u32

definition mk_field :: "bytes \<Rightarrow> bytes \<Rightarrow> u64 \<Rightarrow> u64 \<Rightarrow> bytes \<Rightarrow> wire_field \<times> bytes" where
  "mk_field start position k v pl =
     (\<lparr>raw = take (length start - length position) start, payload = pl, key = k, val = v,
       number = ucast (drop_bit 3 k), wire = ucast (k AND 7)\<rparr>, position)"

definition next_field :: "bytes \<Rightarrow> (wire_field \<times> bytes) result" where
  "next_field cursor =
     (case decode_varint cursor of
        Inl e \<Rightarrow> Inl EBADMSG
      | Inr (k, position) \<Rightarrow>
          if k = 0 then Inl EBADMSG
          else let w = (ucast (k AND 7) :: u32) in
            if w = 0 then
              (case decode_varint position of
                 Inl e \<Rightarrow> Inl e
               | Inr (v, position) \<Rightarrow> Inr (mk_field cursor position k v []))
            else if w = 1 then
              (if length position < 8 then Inl EBADMSG
               else Inr (mk_field cursor (drop 8 position) k 0 []))
            else if w = 2 then
              (case decode_varint position of
                 Inl e \<Rightarrow> Inl EBADMSG
               | Inr (len, position) \<Rightarrow>
                   if unat len > length position then Inl EBADMSG
                   else Inr (mk_field cursor (drop (unat len) position) k 0
                               (take (unat len) position)))
            else if w = 5 then
              (if length position < 4 then Inl EBADMSG
               else Inr (mk_field cursor (drop 4 position) k 0 []))
            else Inl EPROTOTYPE)"

section \<open>The output buffer\<close>

text \<open>
  \<open>struct byte_buffer\<close>; \<open>size\<close> is the length of \<open>buf_data\<close>.  Whether \<open>realloc\<close> can serve a
  request is the allocator \<open>mem\<close>, a predicate on the number of bytes requested.
\<close>

type_synonym allocator = "nat \<Rightarrow> bool"

record byte_buffer =
  buf_data :: bytes
  buf_capacity :: nat

definition empty_buffer :: byte_buffer where
  "empty_buffer = \<lparr>buf_data = [], buf_capacity = 0\<rparr>"

text \<open>
  The doubling loop of \<open>buffer_reserve\<close>.  It is never entered with capacity 0 (the caller
  replaces 0 by 4096); that case is closed off to make the function total.
\<close>

function grow_capacity :: "nat \<Rightarrow> nat \<Rightarrow> nat \<Rightarrow> nat result" where
  "grow_capacity capacity sz extra =
     (if capacity = 0 then Inl EOVERFLOW
      else if capacity - sz < extra then
        (if capacity > size_max div 2 then Inl EOVERFLOW
         else grow_capacity (capacity * 2) sz extra)
      else Inr capacity)"
  by pat_completeness auto
termination
  by (relation "measure (\<lambda>(capacity, sz, extra). size_max - capacity)")
    (auto simp: size_max_def)

declare grow_capacity.simps [simp del]

definition buffer_reserve :: "allocator \<Rightarrow> byte_buffer \<Rightarrow> nat \<Rightarrow> byte_buffer result" where
  "buffer_reserve mem buffer extra =
     (let sz = length (buf_data buffer) in
      if extra \<le> buf_capacity buffer - sz then Inr buffer
      else case grow_capacity (if buf_capacity buffer \<noteq> 0 then buf_capacity buffer else 4096)
                  sz extra of
          Inl e \<Rightarrow> Inl e
        | Inr capacity \<Rightarrow>
            if \<not> mem capacity then Inl ENOMEM
            else Inr (buffer\<lparr>buf_capacity := capacity\<rparr>))"

definition buffer_append :: "allocator \<Rightarrow> byte_buffer \<Rightarrow> bytes \<Rightarrow> byte_buffer result" where
  "buffer_append mem buffer data =
     (if length data = 0 then Inr buffer
      else case buffer_reserve mem buffer (length data) of
          Inl e \<Rightarrow> Inl e
        | Inr buffer \<Rightarrow> Inr (buffer\<lparr>buf_data := buf_data buffer @ data\<rparr>))"

definition buffer_varint :: "allocator \<Rightarrow> byte_buffer \<Rightarrow> u64 \<Rightarrow> byte_buffer result" where
  "buffer_varint mem buffer v = buffer_append mem buffer (encode_varint v)"

definition buffer_field :: "allocator \<Rightarrow> byte_buffer \<Rightarrow> wire_field \<Rightarrow> byte_buffer result" where
  "buffer_field mem buffer field = buffer_append mem buffer (raw field)"

section \<open>Varints: round trip and bounds\<close>

lemma byte_cont_flag: "(ucast (v AND 0x7f) OR 0x80 :: u8) AND 0x80 \<noteq> 0" for v :: u64
proof -
  have "bit ((ucast (v AND 0x7f) OR 0x80 :: u8) AND 0x80) 7"
    by (simp add: bit_simps)
  then show ?thesis by (metis bit_0_eq bot_apply bot_bool_def)
qed

lemma low7_mask: "(0x7f :: 'a::len word) = mask 7"
  by (simp add: mask_eq_exp_minus_1)

lemma bit_flag: "bit (0x80 :: int) n \<longleftrightarrow> n = 7"
proof -
  have "(0x80 :: int) = 2 ^ 7" by simp
  then have "bit (0x80 :: int) n = bit (2 ^ 7 :: int) n" by (rule arg_cong)
  also have "\<dots> \<longleftrightarrow> n = 7" unfolding bit_exp_iff by auto
  finally show ?thesis .
qed

lemma byte_last_flag: "(ucast (v AND 0x7f) :: u8) AND 0x80 = 0" for v :: u64
  unfolding low7_mask by (rule bit_word_eqI) (auto simp: bit_simps bit_flag)

lemma byte_low7_last: "ucast ((ucast (v AND 0x7f) :: u8) AND 0x7f) = v AND 0x7f" for v :: u64
  unfolding low7_mask by (rule bit_word_eqI) (auto simp: bit_simps)

lemma byte_low7_cont:
  "ucast ((ucast (v AND 0x7f) OR 0x80 :: u8) AND 0x7f) = v AND 0x7f" for v :: u64
  unfolding low7_mask by (rule bit_word_eqI) (auto simp: bit_simps bit_flag)

lemma push_bit_split7:
  "push_bit s (v AND 0x7f) OR push_bit (s + 7) (drop_bit 7 v) = push_bit s v" for v :: u64
proof (rule bit_word_eqI)
  fix n assume "n < LENGTH(64)"
  moreover have "s + 7 \<le> n \<Longrightarrow> 7 + (n - (s + 7)) = n - s" by simp
  ultimately show "bit (push_bit s (v AND 0x7f) OR push_bit (s + 7) (drop_bit 7 v)) n = bit (push_bit s v) n"
    unfolding low7_mask by (cases "s + 7 \<le> n") (auto simp: bit_simps)
qed

lemma decode_encode_loop:
  assumes "s < 64" and "s mod 7 = 0" and "unat v < 2 ^ (64 - s)"
  shows "decode_varint_loop s r (encode_varint v @ rest) = Inr (r OR push_bit s v, rest)"
  using assms
proof (induction v arbitrary: s r rule: encode_varint.induct)
  case (1 v)
  let ?b = "ucast (v AND 0x7f) :: u8"
  show ?case
  proof (cases "drop_bit 7 v = 0")
    case True
    have "\<not> (s = 63 \<and> ?b > 1)"
    proof
      assume "s = 63 \<and> ?b > 1"
      with "1.prems"(3) have "unat v < 2" by simp
      then have "v = 0 \<or> v = 1" by (auto simp: less_2_cases_iff word_unat_eq_iff)
      with \<open>s = 63 \<and> ?b > 1\<close> show False by auto
    qed
    moreover have "push_bit s (v AND 0x7f) = push_bit s v"
      using push_bit_split7 [of s v] True by simp
    ultimately show ?thesis
      using "1.prems" True
      by (simp add: encode_varint.simps [of v] byte_last_flag byte_low7_last Let_def)
  next
    case False
    have "unat v \<ge> 2 ^ 7"
      using False by (metis div_eq_0_iff linorder_not_less unat_drop_bit_div unat_eq_zero)
    with "1.prems"(3) have "(2::nat) ^ 7 < 2 ^ (64 - s)" by linarith
    then have s: "s + 7 < 64" by (metis less_diff_conv add.commute one_less_numeral_iff power_strict_increasing_iff semiring_norm(76))
    have "64 - s = 7 + (64 - (s + 7))" using s by simp
    then have "(2::nat) ^ (64 - s) = 2 ^ 7 * 2 ^ (64 - (s + 7))" by (simp only: power_add)
    then have "unat (drop_bit 7 v) < 2 ^ (64 - (s + 7))"
      using "1.prems"(3) by (simp add: unat_drop_bit_div less_mult_imp_div_less mult.commute)
    then have IH: "decode_varint_loop (s + 7) r' (encode_varint (drop_bit 7 v) @ rest) =
        Inr (r' OR push_bit (s + 7) (drop_bit 7 v), rest)" for r'
      using "1.IH" [OF refl refl] False s "1.prems"(2) by simp
    have "(r OR push_bit s (v AND 0x7f)) OR push_bit (s + 7) (drop_bit 7 v) = r OR push_bit s v"
      by (simp only: or.assoc push_bit_split7)
    then show ?thesis
      using s False
      by (simp add: encode_varint.simps [of v] byte_cont_flag byte_low7_cont Let_def IH
          del: push_bit_and)
  qed
qed


lemma decode_encode_varint: "decode_varint (encode_varint v @ rest) = Inr (v, rest)"
  using decode_encode_loop [of 0 v 0 rest] unat_lt_64 [of v] by (simp add: decode_varint_def)

lemma encode_varint_nonempty: "encode_varint v \<noteq> []"
  by (subst encode_varint.simps) (simp add: Let_def)

lemma encode_varint_length:
  "unat v < 2 ^ (7 * k) \<Longrightarrow> 0 < k \<Longrightarrow> length (encode_varint v) \<le> k"
proof (induction v arbitrary: k rule: encode_varint.induct)
  case (1 v)
  show ?case
  proof (cases "drop_bit 7 v = 0")
    case True
    then show ?thesis using "1.prems" by (subst encode_varint.simps) (simp add: Let_def)
  next
    case False
    have "\<not> unat v < 2 ^ 7"
      using False by (metis div_eq_0_iff unat_drop_bit_div unat_eq_zero)
    with "1.prems" obtain j where k: "k = Suc j" "0 < j"
      by (metis gr0_implies_Suc mult.right_neutral neq0_conv One_nat_def)
    have "unat (drop_bit 7 v) < 2 ^ (7 * j)"
      using "1.prems"(1) by (simp add: k(1) unat_drop_bit_div power_add less_mult_imp_div_less mult.commute)
    then have "length (encode_varint (drop_bit 7 v)) \<le> j"
      using "1.IH" [OF refl refl] False k(2) by simp
    then show ?thesis using False k(1) by (subst encode_varint.simps) (simp add: Let_def)
  qed
qed

lemma encode_varint_length_10: "length (encode_varint v) \<le> 10"
  using encode_varint_length [of v 10] unat_lt_64 [of v] by (simp add: order_less_trans)

lemma decode_varint_loop_split:
  assumes "decode_varint_loop s r bs = Inr (v, rest)"
  shows "\<exists>c. bs = c @ rest \<and> c \<noteq> [] \<and> s + 7 * length c \<le> 70"
  using assms
proof (induction s r bs rule: decode_varint_loop.induct)
  case (1 shift result)
  then show ?case by simp
next
  case (2 s r b bs)
  show ?case
  proof (cases "b AND 0x80 = 0")
    case True
    with "2.prems" show ?thesis by (auto simp: Let_def split: if_splits intro!: exI [of _ "[b]"])
  next
    case False
    with "2.prems" have "decode_varint_loop (s + 7) (r OR push_bit s (ucast (b AND 0x7f))) bs = Inr (v, rest)"
      and "s < 64" by (auto simp: Let_def split: if_splits)
    with "2.IH" False "2.prems" obtain c where "bs = c @ rest" "c \<noteq> []" "s + 7 + 7 * length c \<le> 70"
      by (auto simp: Let_def split: if_splits)
    then show ?thesis by (intro exI [of _ "b # c"]) auto
  qed
qed

lemma decode_varint_split:
  assumes "decode_varint bs = Inr (v, rest)"
  obtains c where "bs = c @ rest" and "c \<noteq> []" and "length c \<le> 10"
proof -
  from decode_varint_loop_split [OF assms [unfolded decode_varint_def]]
  show ?thesis using that by auto
qed

lemma decode_varint_error: "decode_varint_loop s r bs = Inl e \<Longrightarrow> e = EBADMSG"
  by (induction s r bs rule: decode_varint_loop.induct) (auto simp: Let_def split: if_splits)

section \<open>Fields\<close>

lemma decode_varint_loop_suffix:
  "decode_varint_loop s r (c @ rest) = Inr (v, rest) \<Longrightarrow> c \<noteq> [] \<Longrightarrow>
   decode_varint_loop s r (c @ rest') = Inr (v, rest')"
proof (induction c arbitrary: s r)
  case Nil
  then show ?case by simp
next
  case (Cons b c)
  show ?case
  proof (cases "b AND 0x80 = 0")
    case True
    with Cons.prems show ?thesis by (auto simp: Let_def split: if_splits)
  next
    case False
    with Cons.prems have d: "decode_varint_loop (s + 7) (r OR push_bit s (ucast (b AND 0x7f))) (c @ rest) = Inr (v, rest)"
      by (auto simp: Let_def split: if_splits)
    have "c \<noteq> []"
      using decode_varint_loop_split [OF d] by auto
    with d have "decode_varint_loop (s + 7) (r OR push_bit s (ucast (b AND 0x7f))) (c @ rest') = Inr (v, rest')"
      by (rule Cons.IH)
    with False Cons.prems show ?thesis by (auto simp: Let_def split: if_splits)
  qed
qed

lemma decode_varint_suffix:
  "decode_varint (c @ rest) = Inr (v, rest) \<Longrightarrow> decode_varint (c @ rest') = Inr (v, rest')"
  unfolding decode_varint_def
  by (metis append_Nil decode_varint_loop_split decode_varint_loop_suffix self_append_conv2)

text \<open>
  What a successful read consists of: the key varint, then a body whose shape the wire type
  selects.  \<open>field_body\<close> relates a field to the bytes after its key.
\<close>

definition field_body :: "wire_field \<Rightarrow> bytes \<Rightarrow> bool" where
  "field_body f body \<longleftrightarrow>
     (wire f = 0 \<and> payload f = [] \<and> decode_varint body = Inr (val f, []) \<or>
      wire f = 1 \<and> payload f = [] \<and> val f = 0 \<and> length body = 8 \<or>
      wire f = 2 \<and> val f = 0 \<and> (\<exists>l n. body = l @ payload f \<and> decode_varint l = Inr (n, []) \<and>
         unat n = length (payload f)) \<or>
      wire f = 5 \<and> payload f = [] \<and> val f = 0 \<and> length body = 4)"

definition valid_field :: "wire_field \<Rightarrow> bool" where
  "valid_field f \<longleftrightarrow>
     (\<exists>k body. raw f = k @ body \<and> decode_varint k = Inr (key f, []) \<and> key f \<noteq> 0 \<and>
        number f = ucast (drop_bit 3 (key f)) \<and> wire f = ucast (key f AND 7) \<and>
        field_body f body)"

lemma decode_varint_prefix:
  assumes "decode_varint bs = Inr (v, rest)"
  obtains c where "bs = c @ rest" and "decode_varint c = Inr (v, [])" and "c \<noteq> []"
  using decode_varint_split [OF assms] decode_varint_suffix assms
  by (metis append_Nil2)

lemma next_field_valid:
  assumes "next_field bs = Inr (f, rest)"
  shows "bs = raw f @ rest \<and> valid_field f"
proof -
  from assms obtain k p where k: "decode_varint bs = Inr (k, p)" and k0: "k \<noteq> 0"
    by (auto simp: next_field_def split: sum.splits prod.splits if_splits)
  from k obtain ck where ck: "bs = ck @ p" "decode_varint ck = Inr (k, [])"
    by (rule decode_varint_prefix)
  have mk: "f = fst (mk_field bs rest k v pl) \<Longrightarrow> p = body @ rest \<Longrightarrow>
      field_body f body \<Longrightarrow> ?thesis" for v pl body
    using ck k0 by (auto simp: mk_field_def valid_field_def)
  consider "(ucast (k AND 7) :: u32) = 0" | "(ucast (k AND 7) :: u32) = 1"
    | "(ucast (k AND 7) :: u32) = 2" | "(ucast (k AND 7) :: u32) = 5"
    using assms k k0 by (auto simp: next_field_def Let_def split: if_splits)
  then show ?thesis
  proof cases
    case 1
    with assms k k0 obtain v where v: "decode_varint p = Inr (v, rest)" "f = fst (mk_field bs rest k v [])"
      by (auto simp: next_field_def Let_def mk_field_def split: sum.splits prod.splits)
    from v(1) obtain c where "p = c @ rest" "decode_varint c = Inr (v, [])"
      by (rule decode_varint_prefix)
    with 1 v(2) show ?thesis by (intro mk) (auto simp: field_body_def mk_field_def)
  next
    case 2
    with assms k k0 have "rest = drop 8 p" "8 \<le> length p" "f = fst (mk_field bs rest k 0 [])"
      by (auto simp: next_field_def Let_def mk_field_def not_less split: if_splits)
    with 2 show ?thesis by (intro mk [of 0 "[]" "take 8 p"]) (auto simp: field_body_def mk_field_def)
  next
    case 3
    with assms k k0 obtain n q where n: "decode_varint p = Inr (n, q)" "unat n \<le> length q"
        "rest = drop (unat n) q" "f = fst (mk_field bs rest k 0 (take (unat n) q))"
      by (auto simp: next_field_def Let_def mk_field_def not_less split: sum.splits prod.splits if_splits)
    from n(1) obtain c where "p = c @ q" "decode_varint c = Inr (n, [])"
      by (rule decode_varint_prefix)
    with 3 n show ?thesis
      by (intro mk [of 0 "take (unat n) q" "c @ take (unat n) q"]) (auto simp: field_body_def mk_field_def)
  next
    case 4
    with assms k k0 have "rest = drop 4 p" "4 \<le> length p" "f = fst (mk_field bs rest k 0 [])"
      by (auto simp: next_field_def Let_def mk_field_def not_less split: if_splits)
    with 4 show ?thesis by (intro mk [of 0 "[]" "take 4 p"]) (auto simp: field_body_def mk_field_def)
  qed
qed

lemma next_field_raw:
  assumes "valid_field f"
  shows "next_field (raw f @ rest) = Inr (f, rest)"
proof -
  from assms obtain k body where f: "raw f = k @ body" "decode_varint k = Inr (key f, [])" "key f \<noteq> 0"
      "number f = ucast (drop_bit 3 (key f))" "wire f = ucast (key f AND 7)" "field_body f body"
    by (auto simp: valid_field_def)
  have k: "decode_varint (k @ xs) = Inr (key f, xs)" for xs
    using decode_varint_suffix [of k "[]"] f(2) by simp
  have eq: "fst (mk_field (k @ body @ rest) rest (key f) (val f) (payload f)) = f"
    using f by (cases f) (simp add: mk_field_def)
  have eqs: "mk_field (k @ body @ rest) rest (key f) (val f) (payload f) = (f, rest)"
    using eq by (simp add: mk_field_def)
  from f(6) show ?thesis
    unfolding field_body_def
  proof (elim disjE conjE exE)
    assume w: "wire f = 0" "payload f = []" "decode_varint body = Inr (val f, [])"
    then have "decode_varint (body @ rest) = Inr (val f, rest)"
      using decode_varint_suffix [of body "[]"] by simp
    with w f k eqs show ?thesis by (simp add: next_field_def Let_def)
  next
    assume "wire f = 1" "payload f = []" "val f = 0" "length body = 8"
    with f k eqs show ?thesis by (simp add: next_field_def Let_def)
  next
    fix l n
    assume w: "wire f = 2" "val f = 0" "body = l @ payload f" "decode_varint l = Inr (n, [])"
      "unat n = length (payload f)"
    then have "decode_varint (body @ rest) = Inr (n, payload f @ rest)"
      using decode_varint_suffix [of l "[]"] by simp
    with w f k eqs show ?thesis by (simp add: next_field_def Let_def)
  next
    assume "wire f = 5" "payload f = []" "val f = 0" "length body = 4"
    with f k eqs show ?thesis by (simp add: next_field_def Let_def)
  qed
qed

lemma valid_field_nonempty: "valid_field f \<Longrightarrow> raw f \<noteq> []"
  by (auto simp: valid_field_def decode_varint_def)

lemma next_field_shorter: "next_field bs = Inr (f, rest) \<Longrightarrow> length rest < length bs"
  using next_field_valid valid_field_nonempty by fastforce

lemma next_field_errors: "next_field bs = Inl e \<Longrightarrow> e = EBADMSG \<or> e = EPROTOTYPE"
  by (auto simp: next_field_def Let_def decode_varint_def
      split: sum.splits prod.splits if_splits dest: decode_varint_error)

text \<open>
  A field of length-delimited type rebuilt from its key and a payload, in the canonical
  encoding that the writers use.
\<close>

definition delimited_field :: "u64 \<Rightarrow> bytes \<Rightarrow> wire_field" where
  "delimited_field k pl =
     \<lparr>raw = encode_varint k @ encode_varint (of_nat (length pl)) @ pl, payload = pl, key = k,
      val = 0, number = ucast (drop_bit 3 k), wire = ucast (k AND 7)\<rparr>"

lemma delimited_field_valid:
  assumes "k \<noteq> 0" and "(ucast (k AND 7) :: u32) = 2" and "length pl < 2 ^ 64"
  shows "valid_field (delimited_field k pl)"
proof -
  have "decode_varint (encode_varint n) = Inr (n, [])" for n
    using decode_encode_varint [of n "[]"] by simp
  moreover have "unat (of_nat (length pl) :: u64) = length pl"
    using assms(3) by (simp add: unat_of_nat_64)
  ultimately show ?thesis
    using assms(1,2) unfolding valid_field_def field_body_def delimited_field_def
    by (intro exI [of _ "encode_varint k"] exI [of _ "encode_varint (of_nat (length pl)) @ pl"]) auto
qed

section \<open>Messages as lists of fields\<close>

text \<open>
  The specification the readers are compared with: a message is read field by field until the
  bytes are used up.
\<close>

function parse_fields :: "bytes \<Rightarrow> wire_field list result" where
  "parse_fields bs =
     (if bs = [] then Inr []
      else case next_field bs of
          Inl e \<Rightarrow> Inl e
        | Inr (f, rest) \<Rightarrow>
            (case parse_fields rest of Inl e \<Rightarrow> Inl e | Inr fs \<Rightarrow> Inr (f # fs)))"
  by pat_completeness auto
termination
  by (relation "measure length") (auto dest: next_field_shorter)

declare parse_fields.simps [simp del]

lemma parse_fields_Nil [simp]: "parse_fields [] = Inr []"
  by (simp add: parse_fields.simps)

lemma parse_fields_raw:
  "valid_field f \<Longrightarrow> parse_fields (raw f @ bs) =
     (case parse_fields bs of Inl e \<Rightarrow> Inl e | Inr fs \<Rightarrow> Inr (f # fs))"
  using valid_field_nonempty [of f]
  by (subst parse_fields.simps) (simp add: next_field_raw)

theorem parse_fields_iff:
  "parse_fields bs = Inr fs \<longleftrightarrow> bs = concat (map raw fs) \<and> list_all valid_field fs"
proof
  assume "parse_fields bs = Inr fs"
  then show "bs = concat (map raw fs) \<and> list_all valid_field fs"
  proof (induction bs arbitrary: fs rule: parse_fields.induct)
    case (1 bs)
    show ?case
    proof (cases "bs = []")
      case True
      with "1.prems" show ?thesis by simp
    next
      case False
      with "1.prems" obtain f rest gs where n: "next_field bs = Inr (f, rest)"
          and g: "parse_fields rest = Inr gs" "fs = f # gs"
        by (auto simp: parse_fields.simps [of bs] split: sum.splits prod.splits)
      from "1.IH" [OF False n refl g(1)] next_field_valid [OF n] g(2) show ?thesis by simp
    qed
  qed
next
  assume "bs = concat (map raw fs) \<and> list_all valid_field fs"
  then show "parse_fields bs = Inr fs"
    by (induction fs arbitrary: bs) (auto simp: parse_fields_raw)
qed

section \<open>The output buffer holds what was appended\<close>

definition buffer_ok :: "byte_buffer \<Rightarrow> bool" where
  [inv_defs]: "buffer_ok b \<longleftrightarrow> length (buf_data b) \<le> buf_capacity b"

lemma empty_buffer_ok [simp]: "buffer_ok empty_buffer"
  by (simp add: buffer_ok_def empty_buffer_def)

lemma buf_data_empty [simp]: "buf_data empty_buffer = []"
  by (simp add: empty_buffer_def)

lemma grow_capacity_fits:
  "grow_capacity c s e = Inr c' \<Longrightarrow> s \<le> c \<Longrightarrow> s + e \<le> c' \<and> c \<le> c'"
proof (induction c s e rule: grow_capacity.induct)
  case (1 c s e)
  show ?case
  proof (cases "c = 0 \<or> c - s < e \<and> c > size_max div 2")
    case True
    with "1.prems" show ?thesis by (auto simp: grow_capacity.simps [of c])
  next
    case False
    with "1" show ?thesis by (fastforce simp: grow_capacity.simps [of c] split: if_splits)
  qed
qed

lemma grow_capacity_total:
  "0 < c \<Longrightarrow> s \<le> c \<Longrightarrow> s + e \<le> 2 ^ 63 \<Longrightarrow> \<exists>c'. grow_capacity c s e = Inr c'"
proof (induction c s e rule: grow_capacity.induct)
  case (1 c s e)
  show ?case
  proof (cases "c - s < e")
    case True
    with "1.prems" have "c \<le> size_max div 2" by (simp add: size_max_def)
    with True "1" show ?thesis by (simp add: grow_capacity.simps [of c])
  next
    case False
    with "1.prems" show ?thesis by (simp add: grow_capacity.simps [of c])
  qed
qed

lemma buffer_append_ok:
  assumes "buffer_append mem b d = Inr b'" and "buffer_ok b"
  shows "buf_data b' = buf_data b @ d \<and> buffer_ok b'"
proof (cases "d = []")
  case True
  with assms show ?thesis by (simp add: buffer_append_def)
next
  case False
  with assms obtain r where r: "buffer_reserve mem b (length d) = Inr r"
      "b' = r\<lparr>buf_data := buf_data r @ d\<rparr>"
    by (auto simp: buffer_append_def split: sum.splits)
  have "buf_data r = buf_data b \<and> length (buf_data b) + length d \<le> buf_capacity r"
    using r(1) assms(2) unfolding buffer_reserve_def Let_def
    by (auto simp: buffer_ok_def split: if_splits sum.splits dest!: grow_capacity_fits)
  with r(2) show ?thesis by (simp add: buffer_ok_def)
qed

lemma buffer_append_succeeds:
  assumes "buffer_ok b" and "\<forall>n. mem n" and "length (buf_data b) + length d \<le> 2 ^ 63"
  obtains b' where "buffer_append mem b d = Inr b'"
proof -
  have "\<exists>c'. grow_capacity (if buf_capacity b \<noteq> 0 then buf_capacity b else 4096)
          (length (buf_data b)) (length d) = Inr c'"
    using assms by (intro grow_capacity_total) (auto simp: buffer_ok_def)
  then have "\<exists>b'. buffer_append mem b d = Inr b'"
    using assms(2) unfolding buffer_append_def buffer_reserve_def Let_def by auto
  then show ?thesis using that by blast
qed

lemma buffer_append_errors: "buffer_append mem b d = Inl e \<Longrightarrow> e = EOVERFLOW \<or> e = ENOMEM"
proof -
  have "grow_capacity c s x = Inl e \<Longrightarrow> e = EOVERFLOW" for c s x
    by (induction c s x rule: grow_capacity.induct)
      (auto simp: grow_capacity.simps split: if_splits)
  then show "buffer_append mem b d = Inl e \<Longrightarrow> e = EOVERFLOW \<or> e = ENOMEM"
    by (auto simp: buffer_append_def buffer_reserve_def Let_def split: if_splits sum.splits)
qed

definition append_result :: "allocator \<Rightarrow> bytes \<Rightarrow> byte_buffer result \<Rightarrow> byte_buffer result" where
  "append_result mem d r = (case r of Inl e \<Rightarrow> Inl e | Inr b \<Rightarrow> buffer_append mem b d)"

interpretation trim_buffer: append_buffer
  "case_sum (\<lambda>_. True) buffer_ok" "case_sum (\<lambda>_. False) (\<lambda>_. True)" "case_sum (\<lambda>_. []) buf_data" "append_result mem"
  by unfold_locales (auto simp: append_result_def dest: buffer_append_ok split: sum.splits)

section \<open>Properties\<close>

text \<open>
  Encoding a 64-bit value as a varint takes between 1 and 10 bytes (the size of the C array
  \<open>encoded\<close>), and decoding the bytes, followed by anything, gives the value and what follows.
\<close>

lemma varint_roundtrip:
  "decode_varint (encode_varint v @ rest) = Inr (v, rest) \<and>
   1 \<le> length (encode_varint v) \<and> length (encode_varint v) \<le> 10"
  using decode_encode_varint encode_varint_length_10 encode_varint_nonempty [of v]
  by (simp add: Suc_leI)

text \<open>
  \<open>next_field\<close> reads a field exactly when the input starts with a well-formed field; it then
  consumes the bytes of that field and nothing else, and never returns a field that reaches past
  the end of the input.
\<close>

lemma next_field_exact:
  "next_field bs = Inr (f, rest) \<longleftrightarrow> valid_field f \<and> bs = raw f @ rest"
  using next_field_valid next_field_raw by blast

end
