(* ===== verification/ProtoWriter.thy ===== *)
theory ProtoWriter
  imports Wire
begin

text \<open>
  The protobuf writer of the exporter (\<open>perfetto_export.c\<close>, \<open>proto_*\<close>): a growing buffer whose failure
  is sticky, and one function per kind of field.  What it writes is what the trimmer's reader
  (theory \<^verbatim>\<open>Wire\<close>) reads.
\<close>

section \<open>The buffer\<close>

record proto_buffer =
  pb_data :: bytes
  pb_capacity :: nat
  pb_failed :: bool

definition proto_empty :: proto_buffer where
  "proto_empty = \<lparr>pb_data = [], pb_capacity = 0, pb_failed = False\<rparr>"

definition proto_free :: "proto_buffer \<Rightarrow> proto_buffer" where
  "proto_free b = proto_empty"

text \<open>The doubling loop is that of the trimmer's buffer, from a first capacity of 256.\<close>

definition proto_reserve :: "allocator \<Rightarrow> nat \<Rightarrow> proto_buffer \<Rightarrow> bool \<times> proto_buffer" where
  "proto_reserve mem extra b =
     (if pb_failed b then (False, b)
      else if extra \<le> pb_capacity b - length (pb_data b) then (True, b)
      else case grow_capacity (if pb_capacity b \<noteq> 0 then pb_capacity b else 256) (length (pb_data b)) extra of
        Inl e \<Rightarrow> (False, b\<lparr>pb_failed := True\<rparr>)
      | Inr capacity \<Rightarrow>
          if \<not> mem capacity then (False, b\<lparr>pb_failed := True\<rparr>)
          else (True, b\<lparr>pb_capacity := capacity\<rparr>))"

definition proto_bytes :: "allocator \<Rightarrow> bytes \<Rightarrow> proto_buffer \<Rightarrow> proto_buffer" where
  "proto_bytes mem d b =
     (case proto_reserve mem (length d) b of
        (False, b1) \<Rightarrow> b1
      | (True, b1) \<Rightarrow> b1\<lparr>pb_data := pb_data b1 @ d\<rparr>)"

section \<open>Fields\<close>

definition proto_varint :: "allocator \<Rightarrow> u64 \<Rightarrow> proto_buffer \<Rightarrow> proto_buffer" where
  "proto_varint mem v = proto_bytes mem (encode_varint v)"

definition proto_key :: "u32 \<Rightarrow> u8 \<Rightarrow> u64" where
  "proto_key field w = push_bit 3 (ucast field) OR ucast w"

definition proto_tag :: "allocator \<Rightarrow> u32 \<Rightarrow> u8 \<Rightarrow> proto_buffer \<Rightarrow> proto_buffer" where
  "proto_tag mem field w = proto_varint mem (proto_key field w)"

definition proto_uint :: "allocator \<Rightarrow> u32 \<Rightarrow> u64 \<Rightarrow> proto_buffer \<Rightarrow> proto_buffer" where
  "proto_uint mem field v b = proto_varint mem v (proto_tag mem field 0 b)"

definition proto_fixed64 :: "allocator \<Rightarrow> u32 \<Rightarrow> u64 \<Rightarrow> proto_buffer \<Rightarrow> proto_buffer" where
  "proto_fixed64 mem field v b = proto_bytes mem (le_bytes 8 v) (proto_tag mem field 1 b)"

text \<open>A C string is the bytes before its terminator; a null pointer counts as empty.\<close>

definition proto_string :: "allocator \<Rightarrow> u32 \<Rightarrow> bytes option \<Rightarrow> proto_buffer \<Rightarrow> proto_buffer" where
  "proto_string mem field str b =
     (let s = (case str of None \<Rightarrow> [] | Some s \<Rightarrow> s) in
      proto_bytes mem s (proto_varint mem (of_nat (length s)) (proto_tag mem field 2 b)))"

definition proto_message :: "allocator \<Rightarrow> u32 \<Rightarrow> proto_buffer \<Rightarrow> proto_buffer \<Rightarrow> proto_buffer" where
  "proto_message mem field msg b =
     (if pb_failed msg then b\<lparr>pb_failed := True\<rparr>
      else proto_bytes mem (pb_data msg) (proto_varint mem (of_nat (length (pb_data msg))) (proto_tag mem field 2 b)))"

section \<open>The buffer holds what was appended\<close>

definition proto_ok :: "proto_buffer \<Rightarrow> bool" where
  [inv_defs]: "proto_ok b \<longleftrightarrow> length (pb_data b) \<le> pb_capacity b"

lemma proto_empty_ok [simp]: "proto_ok proto_empty" "pb_data proto_empty = []" "\<not> pb_failed proto_empty"
  by (simp_all add: proto_ok_def proto_empty_def)

lemma proto_bytes_ok:
  assumes "proto_ok b"
  shows "proto_ok (proto_bytes mem d b)"
    and "\<not> pb_failed (proto_bytes mem d b) \<Longrightarrow> \<not> pb_failed b \<and> pb_data (proto_bytes mem d b) = pb_data b @ d"
proof -
  have fits: "length (pb_data b) + length d \<le> c" if
      "grow_capacity (if pb_capacity b \<noteq> 0 then pb_capacity b else 256) (length (pb_data b)) (length d) = Inr c" for c
    using grow_capacity_fits [OF that] assms by (auto simp: proto_ok_def split: if_splits)
  show "proto_ok (proto_bytes mem d b)"
    using assms fits by (auto simp: proto_bytes_def proto_reserve_def proto_ok_def split: sum.splits if_splits)
  show "\<not> pb_failed b \<and> pb_data (proto_bytes mem d b) = pb_data b @ d" if "\<not> pb_failed (proto_bytes mem d b)"
    using that by (auto simp: proto_bytes_def proto_reserve_def split: sum.splits if_splits)
qed

interpretation proto: append_buffer proto_ok "\<lambda>b. \<not> pb_failed b" pb_data "proto_bytes mem"
  by unfold_locales (use proto_bytes_ok in auto)

text \<open>With memory available and messages below 2^63 bytes, writing never fails.\<close>

lemma proto_bytes_succeeds:
  assumes "proto_ok b" and "\<not> pb_failed b" and "\<forall>n. mem n" and "length (pb_data b) + length d \<le> 2 ^ 63"
  shows "\<not> pb_failed (proto_bytes mem d b)"
proof (cases "length d \<le> pb_capacity b - length (pb_data b)")
  case True
  then show ?thesis
    using assms(2) by (simp add: proto_bytes_def proto_reserve_def)
next
  case False
  then obtain c where "grow_capacity (if pb_capacity b \<noteq> 0 then pb_capacity b else 256) (length (pb_data b)) (length d) = Inr c"
    using assms grow_capacity_total [of "if pb_capacity b \<noteq> 0 then pb_capacity b else 256" "length (pb_data b)" "length d"]
    by (cases "pb_capacity b = 0") (auto simp: proto_ok_def)
  then show ?thesis
    using assms False by (simp add: proto_bytes_def proto_reserve_def)
qed

section \<open>What the writers append\<close>

datatype proto_field =
    PUint u32 u64
  | PFixed64 u32 u64
  | PBytes u32 bytes

fun field_chunks :: "proto_field \<Rightarrow> bytes list" where
  "field_chunks (PUint f v) = [encode_varint (proto_key f 0), encode_varint v]"
| "field_chunks (PFixed64 f v) = [encode_varint (proto_key f 1), le_bytes 8 v]"
| "field_chunks (PBytes f d) = [encode_varint (proto_key f 2), encode_varint (of_nat (length d)), d]"

definition field_bytes :: "proto_field \<Rightarrow> bytes" where
  "field_bytes x = concat (field_chunks x)"

lemma writers_fold:
  "proto_uint mem f v b = fold (proto_bytes mem) (field_chunks (PUint f v)) b"
  "proto_fixed64 mem f v b = fold (proto_bytes mem) (field_chunks (PFixed64 f v)) b"
  "proto_string mem f s b = fold (proto_bytes mem) (field_chunks (PBytes f (case s of None \<Rightarrow> [] | Some s \<Rightarrow> s))) b"
  "\<not> pb_failed msg \<Longrightarrow> proto_message mem f msg b = fold (proto_bytes mem) (field_chunks (PBytes f (pb_data msg))) b"
  by (simp_all add: proto_uint_def proto_fixed64_def proto_string_def proto_message_def proto_tag_def proto_varint_def Let_def)

definition writes :: "(proto_buffer \<Rightarrow> proto_buffer) \<Rightarrow> bytes \<Rightarrow> bool" where
  "writes w d \<longleftrightarrow> (\<forall>b. proto_ok b \<longrightarrow> proto_ok (w b) \<and>
     (\<not> pb_failed (w b) \<longrightarrow> \<not> pb_failed b \<and> pb_data (w b) = pb_data b @ d))"

lemma writes_fold: "writes (fold (proto_bytes mem) ds) (concat ds)"
proof -
  have ok: "proto_ok (fold (proto_bytes mem) ds b)" if "proto_ok b" for b
    using that by (induction ds arbitrary: b) (simp_all add: proto_bytes_ok(1))
  show ?thesis
    unfolding writes_def
  proof (intro allI impI conjI)
    fix b assume b: "proto_ok b"
    show "proto_ok (fold (proto_bytes mem) ds b)"
      using ok b .
    assume "\<not> pb_failed (fold (proto_bytes mem) ds b)"
    then show "\<not> pb_failed b" "pb_data (fold (proto_bytes mem) ds b) = pb_data b @ concat ds"
      using proto.chain [OF b] by blast+
  qed
qed

lemma writes_field [simp, intro]:
  "writes (proto_uint mem f v) (field_bytes (PUint f v))"
  "writes (proto_fixed64 mem f v) (field_bytes (PFixed64 f v))"
  "writes (proto_string mem f s) (field_bytes (PBytes f (case s of None \<Rightarrow> [] | Some s \<Rightarrow> s)))"
  using writes_fold [of mem "field_chunks (PUint f v)"] writes_fold [of mem "field_chunks (PFixed64 f v)"]
    writes_fold [of mem "field_chunks (PBytes f (case s of None \<Rightarrow> [] | Some s \<Rightarrow> s))"]
  unfolding writes_def field_bytes_def writers_fold by blast+

lemma writes_message:
  assumes "proto_ok b"
  shows "proto_ok (proto_message mem f msg b) \<and>
    (\<not> pb_failed (proto_message mem f msg b) \<longrightarrow>
       \<not> pb_failed b \<and> \<not> pb_failed msg \<and> pb_data (proto_message mem f msg b) = pb_data b @ field_bytes (PBytes f (pb_data msg)))"
proof (cases "pb_failed msg")
  case True
  then show ?thesis
    using assms by (simp add: proto_message_def proto_ok_def)
next
  case False
  then show ?thesis
    using assms writes_fold [of mem "field_chunks (PBytes f (pb_data msg))"]
    by (simp add: writers_fold(4) writes_def field_bytes_def)
qed

lemma writes_comp: "writes w d \<Longrightarrow> writes w' d' \<Longrightarrow> writes (\<lambda>b. w' (w b)) (d @ d')"
  unfolding writes_def by (metis append.assoc)

section \<open>The reader reads what the writer wrote\<close>

lemma key_bits:
  "ucast (drop_bit 3 (proto_key f w)) = f" if "w < 8"
proof -
  have w: "\<not> bit w n" if "3 \<le> n" for n
    using \<open>w < 8\<close> that by (intro word_less_pow_bitI [of _ 3]) (auto simp: word_less_nat_alt)
  show ?thesis
    unfolding proto_key_def by (rule bit_word_eqI) (use w in \<open>auto simp: bit_simps\<close>)
qed

lemma key_wire:
  "proto_key f w AND 7 = ucast w" if "w < 8"
proof -
  have w: "\<not> bit w n" if "3 \<le> n" for n
    using \<open>w < 8\<close> that by (intro word_less_pow_bitI [of _ 3]) (auto simp: word_less_nat_alt)
  have m: "(7 :: u64) = mask 3"
    by (simp add: mask_eq_exp_minus_1)
  show ?thesis
    unfolding proto_key_def m by (rule bit_word_eqI) (use w in \<open>auto simp: bit_simps not_le [symmetric]\<close>)
qed

lemma key_nonzero: "f \<noteq> 0 \<Longrightarrow> w < 8 \<Longrightarrow> proto_key f w \<noteq> 0"
  using key_bits [of w f] by auto

fun field_of :: "proto_field \<Rightarrow> wire_field" where
  "field_of (PUint f v) = \<lparr>raw = field_bytes (PUint f v), payload = [], key = proto_key f 0, val = v, number = f, wire = 0\<rparr>"
| "field_of (PFixed64 f v) = \<lparr>raw = field_bytes (PFixed64 f v), payload = [], key = proto_key f 1, val = 0, number = f, wire = 1\<rparr>"
| "field_of (PBytes f d) = \<lparr>raw = field_bytes (PBytes f d), payload = d, key = proto_key f 2, val = 0, number = f, wire = 2\<rparr>"

fun field_writable :: "proto_field \<Rightarrow> bool" where
  "field_writable (PUint f v) = (f \<noteq> 0)"
| "field_writable (PFixed64 f v) = (f \<noteq> 0)"
| "field_writable (PBytes f d) = (f \<noteq> 0 \<and> length d < 2 ^ 64)"

lemma field_of_valid: "field_writable x \<Longrightarrow> valid_field (field_of x)"
proof -
  have dec: "decode_varint (encode_varint n) = Inr (n, [])" for n
    using decode_encode_varint [of n "[]"] by simp
  show "valid_field (field_of x)" if "field_writable x"
  proof (cases x)
    case (PUint f v)
    then show ?thesis
      using that key_bits [of 0 f] key_wire [of 0 f] key_nonzero [of f 0] dec unfolding valid_field_def
      by (intro exI [of _ "encode_varint (proto_key f 0)"] exI [of _ "encode_varint v"])
         (auto simp: field_bytes_def field_body_def)
  next
    case (PFixed64 f v)
    then show ?thesis
      using that key_bits [of 1 f] key_wire [of 1 f] key_nonzero [of f 1] dec unfolding valid_field_def
      by (intro exI [of _ "encode_varint (proto_key f 1)"] exI [of _ "le_bytes 8 v"])
         (auto simp: field_bytes_def field_body_def)
  next
    case (PBytes f d)
    then show ?thesis
      using that key_bits [of 2 f] key_wire [of 2 f] key_nonzero [of f 2] dec unat_of_nat_64 [of "length d"]
      unfolding valid_field_def
      by (intro exI [of _ "encode_varint (proto_key f 2)"] exI [of _ "encode_varint (of_nat (length d)) @ d"])
         (auto simp: field_bytes_def field_body_def)
  qed
qed

lemma raw_field_of [simp]: "raw (field_of x) = field_bytes x"
  by (cases x) simp_all

lemma parse_written:
  assumes "list_all field_writable xs"
  shows "parse_fields (concat (map field_bytes xs)) = Inr (map field_of xs)"
  unfolding parse_fields_iff using assms by (auto simp: list_all_iff field_of_valid comp_def)

end
