(* ===== verification/ExportIdentity.thy ===== *)
theory ExportIdentity
  imports Prelude
begin

text \<open>
  Identifiers and text helpers of the exporter (\<open>perfetto_export.c\<close>): FNV hashes of socket, packet
  and flow keys, names of directions and TCP states, and the escaping of strings for JSON.
\<close>

section \<open>Hashes and identifiers\<close>

definition hash_step :: "u64 \<Rightarrow> u8 \<Rightarrow> u64" where
  "hash_step h b = (h XOR ucast b) * 1099511628211"

definition hash_bytes :: "u64 \<Rightarrow> bytes \<Rightarrow> u64" where
  "hash_bytes h d = foldl hash_step h d"

definition hash_start :: "u64 \<Rightarrow> u64" where
  "hash_start salt = 1469598103934665603 XOR salt"

text \<open>A C string is the list of its bytes without the terminator.\<close>

definition cstr :: "string \<Rightarrow> bytes" where
  "cstr s = map (\<lambda>c. of_nat (of_char c)) s"

definition native_uuid :: "u64 \<Rightarrow> bytes \<Rightarrow> u64 \<Rightarrow> u64 \<Rightarrow> u64" where
  "native_uuid salt kind first second =
     (let h = hash_bytes (hash_bytes (hash_bytes (hash_start salt) kind) (le_bytes 8 first)) (le_bytes 8 second) in
      if h \<noteq> 0 then h else 1)"

definition object_id :: "u64 \<Rightarrow> bytes \<Rightarrow> u64 \<Rightarrow> u64" where
  "object_id salt kind key = hash_bytes (hash_bytes (hash_start salt) kind) (le_bytes 8 key)"

definition socket_instance_id :: "u64 \<Rightarrow> u64 \<Rightarrow> u32 \<Rightarrow> u64" where
  "socket_instance_id salt key generation =
     hash_bytes (hash_bytes (hash_bytes (hash_start salt) (cstr ''socket'')) (le_bytes 8 key)) (le_bytes 4 generation)"

text \<open>The owner's socket where it is known, else the event's own key.\<close>

definition detail_socket_instance_id :: "u64 \<Rightarrow> u64 \<Rightarrow> u32 \<Rightarrow> u64 \<Rightarrow> u32 \<Rightarrow> u64" where
  "detail_socket_instance_id salt owner_key owner_generation event_key event_generation =
     socket_instance_id salt (if owner_key \<noteq> 0 then owner_key else event_key)
       (if owner_key \<noteq> 0 then owner_generation else event_generation)"

definition timespec_to_ns :: "u64 \<Rightarrow> u64 \<Rightarrow> u64" where
  "timespec_to_ns sec nsec = sec * 1000000000 + nsec"

definition ETH_P_IP :: u16 where "ETH_P_IP = 0x0800"
definition ETH_P_IPV6 :: u16 where "ETH_P_IPV6 = 0x86dd"

text \<open>
  A packet's headers.  The address union is its two readings: four-byte and sixteen-byte addresses,
  in memory order.
\<close>

record packet_headers =
  ph_proto_l3 :: u16
  ph_proto_l4 :: u8
  ph_saddr4 :: bytes
  ph_daddr4 :: bytes
  ph_saddr6 :: bytes
  ph_daddr6 :: bytes
  ph_sport :: u16
  ph_dport :: u16
  ph_ts :: u64

definition ipv6_is_v4_mapped :: "bytes \<Rightarrow> bool" where
  "ipv6_is_v4_mapped a \<longleftrightarrow> take 12 a = [0, 0, 0, 0, 0, 0, 0, 0, 0, 0, 0xff, 0xff]"

text \<open>The protocol and the two addresses that are hashed.\<close>

definition hash_endpoints :: "packet_headers \<Rightarrow> u16 \<times> bytes \<times> bytes" where
  "hash_endpoints p =
     (if ph_proto_l3 p = ETH_P_IPV6
      then if ipv6_is_v4_mapped (ph_saddr6 p) \<and> ipv6_is_v4_mapped (ph_daddr6 p)
           then (ETH_P_IP, take 4 (drop 12 (ph_saddr6 p)), take 4 (drop 12 (ph_daddr6 p)))
           else (ph_proto_l3 p, take 16 (ph_saddr6 p), take 16 (ph_daddr6 p))
      else (ph_proto_l3 p, take 4 (ph_saddr4 p), take 4 (ph_daddr4 p)))"

definition packet_flow_hash :: "u64 \<Rightarrow> packet_headers \<Rightarrow> bool \<Rightarrow> u64" where
  "packet_flow_hash salt p bw =
     (case hash_endpoints p of (proto_l3, source, dest) \<Rightarrow>
        let h1 = hash_bytes (hash_start salt) (le_bytes 2 proto_l3);
            h2 = hash_bytes h1 (le_bytes 1 (ph_proto_l4 p));
            h3 = hash_bytes h2 (if bw then dest else source);
            h4 = hash_bytes h3 (if bw then source else dest);
            h5 = hash_bytes h4 (le_bytes 2 (if bw then ph_dport p else ph_sport p)) in
        hash_bytes h5 (le_bytes 2 (if bw then ph_sport p else ph_dport p)))"

definition packet_flow_id :: "u64 \<Rightarrow> packet_headers \<Rightarrow> u64" where
  "packet_flow_id salt p =
     (let forward = packet_flow_hash salt p False; backward = packet_flow_hash salt p True in
      if forward < backward then forward else backward)"

definition packet_id :: "u64 \<Rightarrow> packet_headers \<Rightarrow> u64 \<Rightarrow> u32 \<Rightarrow> u64" where
  "packet_id salt p key generation =
     (let h = object_id salt (cstr ''packet'') key in
      if generation = 0 then hash_bytes h (le_bytes 8 (ph_ts p)) else hash_bytes h (le_bytes 4 generation))"

text \<open>A socket's flow: its protocol, addresses and ports in the headers of an otherwise empty packet.\<close>

definition socket_flow_id :: "u64 \<Rightarrow> packet_headers \<Rightarrow> u64" where
  "socket_flow_id salt sock = packet_flow_id salt (sock\<lparr>ph_ts := 0\<rparr>)"

section \<open>Text\<close>

definition direction_name :: "u8 \<Rightarrow> string" where
  "direction_name d = (if d = 1 then ''tx'' else if d = 2 then ''rx'' else ''unknown'')"

definition tcp_state_names :: "string list" where
  "tcp_state_names = [''UNKNOWN'', ''ESTABLISHED'', ''SYN_SENT'', ''SYN_RECV'', ''FIN_WAIT1'', ''FIN_WAIT2'',
     ''TIME_WAIT'', ''CLOSE'', ''CLOSE_WAIT'', ''LAST_ACK'', ''LISTEN'', ''CLOSING'']"

definition tcp_state_name :: "int \<Rightarrow> string" where
  "tcp_state_name state =
     (if state < 0 \<or> int (length tcp_state_names) \<le> state then ''UNKNOWN'' else tcp_state_names ! nat state)"

text \<open>
  The escaping loop: \<open>out\<close> is what has been written so far, \<open>n\<close> the size of the destination.
\<close>

fun json_escape_loop :: "nat \<Rightarrow> bytes \<Rightarrow> bytes \<Rightarrow> bytes" where
  "json_escape_loop n out [] = out"
| "json_escape_loop n out (ch # src) =
     (if length out + 1 < n
      then if (ch = 0x22 \<or> ch = 0x5c) \<and> length out + 2 < n then json_escape_loop n (out @ [0x5c, ch]) src
           else if 0x20 \<le> ch then json_escape_loop n (out @ [ch]) src
           else json_escape_loop n out src
      else out)"

text \<open>\<open>None\<close>: a destination of size zero is left alone; otherwise the string written before its terminator.\<close>

definition json_escape :: "bytes option \<Rightarrow> nat \<Rightarrow> bytes option" where
  "json_escape source n =
     (if n = 0 then None
      else Some (json_escape_loop n [] (case source of None \<Rightarrow> [] | Some s \<Rightarrow> s)))"

section \<open>Flow identifiers\<close>

definition swap_headers :: "packet_headers \<Rightarrow> packet_headers" where
  "swap_headers p = p\<lparr>ph_saddr4 := ph_daddr4 p, ph_daddr4 := ph_saddr4 p, ph_saddr6 := ph_daddr6 p,
     ph_daddr6 := ph_saddr6 p, ph_sport := ph_dport p, ph_dport := ph_sport p\<rparr>"

lemma hash_endpoints_swap:
  "hash_endpoints (swap_headers p) = (case hash_endpoints p of (proto, s, d) \<Rightarrow> (proto, d, s))"
  by (auto simp: hash_endpoints_def swap_headers_def)

lemma packet_flow_hash_swap: "packet_flow_hash salt (swap_headers p) bw = packet_flow_hash salt p (\<not> bw)"
  by (simp add: packet_flow_hash_def hash_endpoints_swap split: prod.splits) (simp add: swap_headers_def)

text \<open>
  A flow has one identifier for both directions: swapping source and destination (addresses and
  ports) does not change it.  An IPv6 packet between two IPv4-mapped addresses has the identifier of
  the IPv4 packet between those addresses, and the identifier of a socket is that of its packets.
\<close>

lemma packet_flow_id_symmetric:
  assumes "length a = 4" and "length b = 4"
  shows "packet_flow_id salt (swap_headers p) = packet_flow_id salt p \<and>
         packet_flow_id salt
           (p\<lparr>ph_proto_l3 := ETH_P_IPV6, ph_saddr6 := [0, 0, 0, 0, 0, 0, 0, 0, 0, 0, 0xff, 0xff] @ a,
              ph_daddr6 := [0, 0, 0, 0, 0, 0, 0, 0, 0, 0, 0xff, 0xff] @ b\<rparr>) =
         packet_flow_id salt (p\<lparr>ph_proto_l3 := ETH_P_IP, ph_saddr4 := a, ph_daddr4 := b\<rparr>) \<and>
         socket_flow_id salt p = packet_flow_id salt p"
proof -
  have "packet_flow_id salt (swap_headers p) = packet_flow_id salt p"
    by (auto simp: packet_flow_id_def packet_flow_hash_swap Let_def)
  moreover have "packet_flow_hash salt (p\<lparr>ph_ts := 0\<rparr>) bw = packet_flow_hash salt p bw" for bw
    by (simp add: packet_flow_hash_def hash_endpoints_def)
  moreover have "hash_endpoints (p\<lparr>ph_proto_l3 := ETH_P_IPV6, ph_saddr6 := [0, 0, 0, 0, 0, 0, 0, 0, 0, 0, 0xff, 0xff] @ a,
              ph_daddr6 := [0, 0, 0, 0, 0, 0, 0, 0, 0, 0, 0xff, 0xff] @ b\<rparr>) =
      hash_endpoints (p\<lparr>ph_proto_l3 := ETH_P_IP, ph_saddr4 := a, ph_daddr4 := b\<rparr>)"
    using assms by (simp add: hash_endpoints_def ipv6_is_v4_mapped_def ETH_P_IP_def ETH_P_IPV6_def)
  then have "packet_flow_hash salt (p\<lparr>ph_proto_l3 := ETH_P_IPV6, ph_saddr6 := [0, 0, 0, 0, 0, 0, 0, 0, 0, 0, 0xff, 0xff] @ a,
              ph_daddr6 := [0, 0, 0, 0, 0, 0, 0, 0, 0, 0, 0xff, 0xff] @ b\<rparr>) bw =
      packet_flow_hash salt (p\<lparr>ph_proto_l3 := ETH_P_IP, ph_saddr4 := a, ph_daddr4 := b\<rparr>) bw" for bw
    by (simp add: packet_flow_hash_def)
  ultimately show ?thesis
    by (simp add: packet_flow_id_def socket_flow_id_def)
qed

definition identity_demo :: packet_headers where
  "identity_demo = \<lparr>ph_proto_l3 = ETH_P_IP, ph_proto_l4 = 6, ph_saddr4 = [10, 0, 0, 1], ph_daddr4 = [10, 0, 0, 2],
     ph_saddr6 = [], ph_daddr6 = [], ph_sport = 80, ph_dport = 4242, ph_ts = 7\<rparr>"

section \<open>JSON strings\<close>

text \<open>The reader's side: the content of a JSON string literal, and the text it stands for.\<close>

fun json_text :: "bytes \<Rightarrow> bytes option" where
  "json_text [] = Some []"
| "json_text (c # cs) =
     (if c = 0x5c
      then (case cs of
              [] \<Rightarrow> None
            | d # ds \<Rightarrow> if d = 0x22 \<or> d = 0x5c then map_option (Cons d) (json_text ds) else None)
      else if c = 0x22 \<or> c < 0x20 then None
      else map_option (Cons c) (json_text cs))"

lemma json_text_append: "json_text xs = Some a \<Longrightarrow> json_text (xs @ ys) = map_option ((@) a) (json_text ys)"
proof (induction xs arbitrary: a rule: json_text.induct)
  case 1
  then show ?case by (simp add: option.map_ident)
next
  case (2 c cs)
  show ?case
  proof (cases "c = 0x5c")
    case True
    then obtain d ds b where "cs = d # ds" "d = 0x22 \<or> d = 0x5c" "json_text ds = Some b" "a = d # b"
      using "2.prems" by (auto split: list.splits if_splits)
    then show ?thesis
      using "2.IH"(1) [OF True, of d ds b] True by (cases "json_text ys") auto
  next
    case False
    then obtain b where "\<not> (c = 0x22 \<or> c < 0x20)" "json_text cs = Some b" "a = c # b"
      using "2.prems" by (auto split: if_splits)
    then show ?thesis
      using "2.IH"(2) [OF False, of b] False by (cases "json_text ys") auto
  qed
qed

lemma json_escape_loop_bound: "length out < n \<Longrightarrow> length (json_escape_loop n out src) < n"
  by (induction n out src rule: json_escape_loop.induct) auto

lemma json_escape_loop_text:
  assumes "length out + 2 * length src < n" and "json_text out = Some a"
  shows "json_text (json_escape_loop n out src) = Some (a @ filter (\<lambda>c. 0x20 \<le> c) src)"
  using assms
proof (induction src arbitrary: out a)
  case Nil
  then show ?case by simp
next
  case (Cons ch src)
  consider (esc) "ch = 0x22 \<or> ch = 0x5c" | (plain) "\<not> (ch = 0x22 \<or> ch = 0x5c)" "0x20 \<le> ch" | (ctl) "\<not> 0x20 \<le> ch"
    by blast
  then show ?case
  proof cases
    case esc
    then have "json_text (out @ [0x5c, ch]) = Some (a @ [ch])"
      using json_text_append [OF Cons.prems(2), of "[0x5c, ch]"] by auto
    then show ?thesis
      using Cons.IH [of "out @ [0x5c, ch]" "a @ [ch]"] Cons.prems(1) esc by auto
  next
    case plain
    then have "json_text (out @ [ch]) = Some (a @ [ch])"
      using json_text_append [OF Cons.prems(2), of "[ch]"] by auto
    then show ?thesis
      using Cons.IH [of "out @ [ch]" "a @ [ch]"] Cons.prems(1) plain by auto
  next
    case ctl
    moreover have "\<not> (ch = 0x22 \<or> ch = 0x5c)"
      using ctl by auto
    ultimately show ?thesis
      using Cons.IH [of out a] Cons.prems by auto
  qed
qed

text \<open>
  Escaping into a destination of \<open>n\<close> bytes never writes more than \<open>n - 1\<close> bytes before the
  terminator, and when the destination has room for the worst case (two bytes per source byte), the
  result is the content of a valid JSON string that reads back as the source without its control
  characters.
\<close>

lemma json_escape_correct:
  assumes "0 < n"
  shows "\<exists>r. json_escape (Some s) n = Some r \<and> length r < n \<and>
           (2 * length s < n \<longrightarrow> json_text r = Some (filter (\<lambda>c. 0x20 \<le> c) s))"
  using assms json_escape_loop_bound [of "[]" n s] json_escape_loop_text [of "[]" s n "[]"]
  by (simp add: json_escape_def)

lemma json_escape_loop_plain:
  assumes "\<forall>c \<in> set s. 0x20 \<le> c \<and> c \<noteq> 0x22 \<and> c \<noteq> 0x5c" and "length out + length s + 1 < n"
  shows "json_escape_loop n out (s @ rest) = json_escape_loop n (out @ s) rest"
  using assms
proof (induction s arbitrary: out)
  case Nil
  then show ?case by simp
next
  case (Cons c s)
  then show ?case
    using Cons.IH [of "out @ [c]"] by simp
qed

lemma json_text_quote:
  assumes "\<forall>c \<in> set s. 0x20 \<le> c \<and> c \<noteq> 0x22 \<and> c \<noteq> 0x5c"
  shows "json_text (s @ [0x22]) = None"
  using assms by (induction s) auto

text \<open>
  Truncation can break the JSON: when a quote (or a backslash) falls on the last free byte of the
  destination, it is written without its backslash, so the result is not the content of a JSON
  string.
\<close>

lemma json_escape_truncation:
  assumes "\<forall>c \<in> set s. 0x20 \<le> c \<and> c \<noteq> 0x22 \<and> c \<noteq> 0x5c"
  shows "json_escape (Some (s @ [0x22])) (length s + 2) = Some (s @ [0x22]) \<and> json_text (s @ [0x22]) = None"
  using json_escape_loop_plain [OF assms, of "[]" "length s + 2" "[0x22]"] json_text_quote [OF assms]
  by (simp add: json_escape_def)

text \<open>
  Track identifiers are never zero, the value the exporter uses for no track, and the name of a
  TCP state is total: every value outside the table is reported as unknown.
\<close>

theorem native_uuid_nonzero:
  "native_uuid salt kind a b \<noteq> 0 \<and>
   (tcp_state_name state = ''UNKNOWN'' \<longleftrightarrow> state \<le> 0 \<or> 12 \<le> state)"
proof -
  have "tcp_state_name state = ''UNKNOWN'' \<longleftrightarrow> state \<le> 0 \<or> 12 \<le> state"
  proof (cases "state \<le> 0 \<or> 12 \<le> state")
    case True
    then show ?thesis
      by (auto simp: tcp_state_name_def tcp_state_names_def)
  next
    case False
    then have "state = 1 \<or> state = 2 \<or> state = 3 \<or> state = 4 \<or> state = 5 \<or> state = 6 \<or> state = 7 \<or>
        state = 8 \<or> state = 9 \<or> state = 10 \<or> state = 11"
      by presburger
    then show ?thesis
      by (auto simp: tcp_state_name_def tcp_state_names_def)
  qed
  then show ?thesis
    by (simp add: native_uuid_def Let_def)
qed

end
