(* ===== verification/NativeExport.thy ===== *)
theory NativeExport
  imports ProtoWriter ExportIdentity
begin

text \<open>
  The native trace of the exporter (\<open>perfetto_export.c\<close>): packets go straight to the file, or, in ring
  mode, to a persistent prefix and a window of timestamped packets bounded in time and bytes; track
  descriptors are written once per track; events carry annotations encoded in place.
\<close>

section \<open>Queues of packets\<close>

record native_packet =
  np_addr :: nat
  np_ts :: u64
  np_data :: bytes

text \<open>The list from \<open>head\<close>, the address \<open>tail\<close> points to, and the byte count.\<close>

record native_queue =
  nq_list :: "native_packet list"
  nq_tail :: "nat option"
  nq_bytes :: nat

definition native_queue_empty :: native_queue where
  "native_queue_empty = \<lparr>nq_list = [], nq_tail = None, nq_bytes = 0\<rparr>"

definition native_packet_queue_free :: "native_queue \<Rightarrow> native_queue" where
  "native_packet_queue_free q = native_queue_empty"

datatype track_kind =
    NATIVE_TRACK_PROCESS | NATIVE_TRACK_THREAD | NATIVE_TRACK_SOCKET | NATIVE_TRACK_SOCKET_PACKETS
  | NATIVE_TRACK_FLOW | NATIVE_TRACK_CONNECT | NATIVE_TRACK_SYSCALL | NATIVE_TRACK_GLOBAL

record native_track =
  nt_uuid :: u64
  nt_object :: u64
  nt_kind :: track_kind
  nt_active :: bool

text \<open>
  The exporter's state for the native trace.  \<open>ns_file\<close> is the content of the open file, which takes
  at most \<open>ns_limit\<close> bytes; \<open>ns_next\<close> is the next address \<open>malloc\<close> returns; \<open>ns_wild\<close> records a write
  through a dangling tail pointer.
\<close>

record native_state =
  ns_file :: "bytes option"
  ns_limit :: nat
  ns_failed :: bool
  ns_window :: u64
  ns_latest :: u64
  ns_truncated :: bool
  ns_persistent :: native_queue
  ns_ring :: native_queue
  ns_sequence_started :: bool
  ns_tracks :: "native_track list"
  ns_track_capacity :: nat
  ns_salt :: u64
  ns_trace_tags :: bool
  ns_next :: nat
  ns_wild :: bool

definition NATIVE_RING_MAX_BYTES :: nat where
  "NATIVE_RING_MAX_BYTES = 67108864"

definition NATIVE_PACKET_SEQUENCE_ID :: u64 where
  "NATIVE_PACKET_SEQUENCE_ID = 0xa11e7001"

definition packet_sizeof :: nat where
  "packet_sizeof = 24"

text \<open>Appending through the tail pointer; the first result is \<open>False\<close> when the pointer dangles.\<close>

definition link_at_tail :: "native_packet \<Rightarrow> native_queue \<Rightarrow> bool \<times> native_packet list" where
  "link_at_tail p q =
     (case nq_tail q of
        None \<Rightarrow> (True, [p])
      | Some a \<Rightarrow>
          (case find (\<lambda>x. np_addr x = a) (nq_list q) of
             None \<Rightarrow> (False, nq_list q)
           | Some t \<Rightarrow> (True, takeWhile (\<lambda>x. np_addr x \<noteq> a) (nq_list q) @ [t, p])))"

definition native_packet_queue_append ::
    "allocator \<Rightarrow> nat \<Rightarrow> bytes \<Rightarrow> u64 \<Rightarrow> native_queue \<Rightarrow> (bool \<times> native_queue) option" where
  "native_packet_queue_append mem addr trace ts q =
     (if size_max - packet_sizeof < length trace then None
      else if \<not> mem (packet_sizeof + length trace) then None
      else if size_max - nq_bytes q < length trace then None
      else let p = \<lparr>np_addr = addr, np_ts = ts, np_data = trace\<rparr>; (sane, l) = link_at_tail p q in
        Some (sane, q\<lparr>nq_list := l, nq_tail := Some addr, nq_bytes := nq_bytes q + length trace\<rparr>))"

text \<open>\<open>fwrite\<close>: the number of bytes the file took.\<close>

definition native_fwrite :: "bytes \<Rightarrow> native_state \<Rightarrow> nat \<times> native_state" where
  "native_fwrite d st =
     (case ns_file st of
        None \<Rightarrow> (0, st)
      | Some c \<Rightarrow> let w = take (ns_limit st - length c) d in (length w, st\<lparr>ns_file := Some (c @ w)\<rparr>))"

fun native_queue_write_loop :: "native_packet list \<Rightarrow> native_state \<Rightarrow> bool \<times> native_state" where
  "native_queue_write_loop [] st = (True, st)"
| "native_queue_write_loop (p # ps) st =
     (case native_fwrite (np_data p) st of
        (n, st1) \<Rightarrow> if n \<noteq> length (np_data p) then (False, st1) else native_queue_write_loop ps st1)"

definition native_packet_queue_write :: "native_queue \<Rightarrow> native_state \<Rightarrow> bool \<times> native_state" where
  "native_packet_queue_write q = native_queue_write_loop (nq_list q)"

definition native_ring_cutoff :: "native_state \<Rightarrow> u64" where
  "native_ring_cutoff st = (if ns_window st < ns_latest st then ns_latest st - ns_window st else 0)"

fun native_evict_loop :: "u64 \<Rightarrow> native_packet list \<Rightarrow> native_state \<Rightarrow> native_state" where
  "native_evict_loop cutoff [] st = st"
| "native_evict_loop cutoff (p # ps) st =
     (let r = ns_ring st in
      if np_ts p < cutoff \<or> NATIVE_RING_MAX_BYTES < nq_bytes r
      then native_evict_loop cutoff ps
             (st\<lparr>ns_truncated := (ns_truncated st \<or> NATIVE_RING_MAX_BYTES < nq_bytes r),
                 ns_ring := r\<lparr>nq_list := ps, nq_tail := (if ps = [] then None else nq_tail r),
                              nq_bytes := nq_bytes r - length (np_data p)\<rparr>\<rparr>)
      else st)"

definition native_ring_evict :: "native_state \<Rightarrow> native_state" where
  "native_ring_evict st = native_evict_loop (native_ring_cutoff st) (nq_list (ns_ring st)) st"

text \<open>\<open>previous\<close> of the loop is the last entry kept so far.\<close>

fun native_prune_loop :: "u64 \<Rightarrow> native_packet option \<Rightarrow> native_packet list \<Rightarrow> nat \<Rightarrow> native_packet list \<times> native_packet option \<times> nat" where
  "native_prune_loop cutoff previous [] n = ([], previous, n)"
| "native_prune_loop cutoff previous (p # ps) n =
     (if np_ts p < cutoff then native_prune_loop cutoff previous ps (n - length (np_data p))
      else case native_prune_loop cutoff (Some p) ps n of (l, t, m) \<Rightarrow> (p # l, t, m))"

definition native_ring_prune_all :: "native_state \<Rightarrow> native_state" where
  "native_ring_prune_all st =
     (case native_prune_loop (native_ring_cutoff st) None (nq_list (ns_ring st)) (nq_bytes (ns_ring st)) of
        (l, t, n) \<Rightarrow> st\<lparr>ns_ring := \<lparr>nq_list = l, nq_tail = map_option np_addr t, nq_bytes = n\<rparr>\<rparr>)"

section \<open>Writing a packet\<close>

definition native_write_packet_at :: "allocator \<Rightarrow> proto_buffer \<Rightarrow> u64 \<Rightarrow> native_state \<Rightarrow> native_state" where
  "native_write_packet_at mem packet ts st =
     (if ns_file st = None \<or> ns_failed st then st
      else let trace = proto_message mem 1 packet proto_empty in
        if pb_failed trace then st\<lparr>ns_failed := True\<rparr>
        else if ns_window st = 0
        then (case native_fwrite (pb_data trace) st of
                (n, st1) \<Rightarrow> if n \<noteq> length (pb_data trace) then st1\<lparr>ns_failed := True\<rparr> else st1)
        else if ts \<noteq> 0 \<and> ns_window st < ns_latest st \<and> ts < ns_latest st - ns_window st then st
        else if ts \<noteq> 0
        then (case native_packet_queue_append mem (ns_next st) (pb_data trace) ts (ns_ring st) of
                None \<Rightarrow> st\<lparr>ns_failed := True\<rparr>
              | Some (sane, q) \<Rightarrow>
                  native_ring_evict
                    (st\<lparr>ns_ring := q, ns_next := ns_next st + 1, ns_wild := (ns_wild st \<or> \<not> sane),
                        ns_latest := (if ns_latest st < ts then ts else ns_latest st)\<rparr>))
        else (case native_packet_queue_append mem (ns_next st) (pb_data trace) ts (ns_persistent st) of
                None \<Rightarrow> st\<lparr>ns_failed := True\<rparr>
              | Some (sane, q) \<Rightarrow>
                  st\<lparr>ns_persistent := q, ns_next := ns_next st + 1, ns_wild := (ns_wild st \<or> \<not> sane)\<rparr>))"

definition native_write_packet :: "allocator \<Rightarrow> proto_buffer \<Rightarrow> native_state \<Rightarrow> native_state" where
  "native_write_packet mem packet st = native_write_packet_at mem packet 0 st"

text \<open>The end of the capture: prune, then write the prefix and the window.\<close>

definition native_finish :: "native_state \<Rightarrow> native_state" where
  "native_finish st =
     (if ns_window st = 0 then st
      else let st1 = native_ring_prune_all st in
        case native_packet_queue_write (ns_persistent st1) st1 of
          (False, st2) \<Rightarrow> st2\<lparr>ns_failed := True\<rparr>
        | (True, st2) \<Rightarrow>
            (case native_packet_queue_write (ns_ring st1) st2 of
               (False, st3) \<Rightarrow> st3\<lparr>ns_failed := True\<rparr>
             | (True, st3) \<Rightarrow> st3))"

definition native_sequence_packet :: "allocator \<Rightarrow> proto_buffer \<Rightarrow> native_state \<Rightarrow> proto_buffer \<times> native_state" where
  "native_sequence_packet mem packet st =
     (let p1 = proto_uint mem 10 NATIVE_PACKET_SEQUENCE_ID packet in
      if \<not> ns_sequence_started st then (proto_uint mem 13 1 p1, st\<lparr>ns_sequence_started := True\<rparr>) else (p1, st))"

section \<open>Queues stay well formed\<close>

definition queue_tail :: "native_packet list \<Rightarrow> nat option" where
  "queue_tail l = (if l = [] then None else Some (np_addr (last l)))"

definition queue_ok :: "nat \<Rightarrow> native_queue \<Rightarrow> bool" where
  "queue_ok next q \<longleftrightarrow>
     nq_tail q = queue_tail (nq_list q) \<and> nq_bytes q = sum_list (map (\<lambda>p. length (np_data p)) (nq_list q)) \<and>
     distinct (map np_addr (nq_list q)) \<and> (\<forall>p \<in> set (nq_list q). np_addr p < next)"

lemma link_at_tail_ok:
  assumes "queue_ok next q"
  shows "link_at_tail p q = (True, nq_list q @ [p])"
proof (cases "nq_list q = []")
  case True
  then show ?thesis
    using assms by (simp add: link_at_tail_def queue_ok_def queue_tail_def)
next
  case False
  then obtain b t where l: "nq_list q = b @ [t]"
    by (cases "nq_list q" rule: rev_cases) auto
  have "\<forall>y\<in>set b. np_addr y \<noteq> np_addr t"
    using assms by (auto simp: queue_ok_def l) (metis image_eqI)
  then show ?thesis
    using assms l by (simp add: link_at_tail_def queue_ok_def queue_tail_def find_dropWhile dropWhile_append2 takeWhile_append2)
qed

lemma queue_append_ok:
  assumes "queue_ok next q" and "native_packet_queue_append mem next d ts q = Some (sane, q')"
  shows "sane \<and> nq_list q' = nq_list q @ [\<lparr>np_addr = next, np_ts = ts, np_data = d\<rparr>] \<and> queue_ok (Suc next) q'"
  using assms link_at_tail_ok [OF assms(1)]
  by (auto simp: native_packet_queue_append_def Let_def queue_ok_def queue_tail_def split: if_splits intro: less_SucI)

lemma queue_ok_mono: "queue_ok n q \<Longrightarrow> n \<le> m \<Longrightarrow> queue_ok m q"
  by (auto simp: queue_ok_def)

text \<open>Eviction drops entries from the front only, and without overflow only those before the cut-off.\<close>

lemma evict_loop_ok:
  assumes "queue_ok next (ns_ring st)"
  shows "\<exists>k \<le> length (nq_list (ns_ring st)). \<exists>r tr.
     native_evict_loop cutoff (nq_list (ns_ring st)) st = st\<lparr>ns_ring := r, ns_truncated := tr\<rparr> \<and>
     nq_list r = drop k (nq_list (ns_ring st)) \<and> queue_ok next r \<and> nq_bytes r \<le> NATIVE_RING_MAX_BYTES \<and>
     (ns_truncated st \<longrightarrow> tr) \<and> (\<not> tr \<longrightarrow> (\<forall>p \<in> set (take k (nq_list (ns_ring st))). np_ts p < cutoff))"
  using assms
proof (induction "nq_list (ns_ring st)" arbitrary: st)
  case Nil
  then have "nq_bytes (ns_ring st) = 0"
    by (simp add: queue_ok_def)
  with Nil show ?case
    by (intro exI [of _ 0] conjI exI [of _ "ns_ring st"] exI [of _ "ns_truncated st"]) (simp_all add: Nil(1) [symmetric])
next
  case (Cons p ps)
  note l = Cons(2) [symmetric]
  show ?case
  proof (cases "np_ts p < cutoff \<or> NATIVE_RING_MAX_BYTES < nq_bytes (ns_ring st)")
    case True
    let ?tr = "ns_truncated st \<or> NATIVE_RING_MAX_BYTES < nq_bytes (ns_ring st)"
    let ?r = "ns_ring st\<lparr>nq_list := ps, nq_tail := (if ps = [] then None else nq_tail (ns_ring st)),
                nq_bytes := nq_bytes (ns_ring st) - length (np_data p)\<rparr>"
    let ?st = "st\<lparr>ns_truncated := ?tr, ns_ring := ?r\<rparr>"
    have ok: "queue_ok next (ns_ring ?st)"
      using Cons.prems l by (auto simp: queue_ok_def queue_tail_def)
    have ps: "ps = nq_list (ns_ring ?st)"
      by simp
    obtain k r tr where k: "k \<le> length ps" "native_evict_loop cutoff ps ?st = ?st\<lparr>ns_ring := r, ns_truncated := tr\<rparr>"
        "nq_list r = drop k ps" "queue_ok next r" "nq_bytes r \<le> NATIVE_RING_MAX_BYTES" "?tr \<longrightarrow> tr"
        "\<not> tr \<longrightarrow> (\<forall>p \<in> set (take k ps). np_ts p < cutoff)"
      using Cons(1) [OF ps ok] by auto
    have "native_evict_loop cutoff (nq_list (ns_ring st)) st = native_evict_loop cutoff ps ?st"
      using True by (simp add: l Let_def)
    then show ?thesis
      using k True l
      by (intro exI [of _ "Suc k"] conjI exI [of _ r] exI [of _ tr]) auto
  next
    case False
    then show ?thesis
      using Cons.prems l
      by (intro exI [of _ 0] conjI exI [of _ "ns_ring st"] exI [of _ "ns_truncated st"]) (auto simp: Let_def)
  qed
qed

lemma prune_loop_ok:
  "native_prune_loop cutoff previous l n =
     (filter (\<lambda>p. cutoff \<le> np_ts p) l,
      (case filter (\<lambda>p. cutoff \<le> np_ts p) l of [] \<Rightarrow> previous | _ \<Rightarrow> Some (last (filter (\<lambda>p. cutoff \<le> np_ts p) l))),
      n - sum_list (map (\<lambda>p. length (np_data p)) (filter (\<lambda>p. np_ts p < cutoff) l)))"
  by (induction cutoff previous l n rule: native_prune_loop.induct)
     (auto simp: not_less not_le split: list.splits)

section \<open>The retained window\<close>

definition native_frame :: "proto_buffer \<Rightarrow> bytes" where
  "native_frame b = field_bytes (PBytes 1 (pb_data b))"

definition packet_view :: "native_packet \<Rightarrow> u64 \<times> bytes" where
  "packet_view p = (np_ts p, np_data p)"

definition native_run :: "allocator \<Rightarrow> (proto_buffer \<times> u64) list \<Rightarrow> native_state \<Rightarrow> native_state" where
  "native_run mem ops = fold (\<lambda>(b, ts). native_write_packet_at mem b ts) ops"

text \<open>What was written with a timestamp, and the rest, in the order of the calls.\<close>

definition timed :: "(proto_buffer \<times> u64) list \<Rightarrow> (u64 \<times> bytes) list" where
  "timed ops = [(ts, native_frame b). (b, ts) \<leftarrow> ops, ts \<noteq> 0]"

definition untimed :: "(proto_buffer \<times> u64) list \<Rightarrow> bytes list" where
  "untimed ops = [native_frame b. (b, ts) \<leftarrow> ops, ts = 0]"

definition in_window :: "u64 \<Rightarrow> (u64 \<times> bytes) list \<Rightarrow> (u64 \<times> bytes) list" where
  "in_window c l = filter (\<lambda>x. c \<le> fst x) l"

lemma in_window_trans: "c \<le> c' \<Longrightarrow> in_window c l = in_window c l' \<Longrightarrow> in_window c' l = in_window c' l'"
proof -
  assume c: "c \<le> c'" and eq: "in_window c l = in_window c l'"
  have "in_window c' l = in_window c' (in_window c l)" for l
    using c by (auto simp: in_window_def intro!: filter_cong)
  with eq show ?thesis
    by metis
qed

lemma in_window_append [simp]: "in_window c (l @ l') = in_window c l @ in_window c l'"
  by (simp add: in_window_def)

lemma in_window_drop:
  assumes "\<forall>p \<in> set (take k l). np_ts p < c"
  shows "in_window c (map packet_view (drop k l)) = in_window c (map packet_view l)"
proof -
  have "in_window c (map packet_view (take k l)) = []"
    using assms by (auto simp: in_window_def packet_view_def filter_empty_conv)
  then show ?thesis
    by (metis append_Nil append_take_drop_id in_window_append map_append)
qed

text \<open>The invariant of ring mode.\<close>

definition ring_inv :: "native_state \<Rightarrow> (proto_buffer \<times> u64) list \<Rightarrow> bool" where
  "ring_inv st ops \<longleftrightarrow>
     ns_window st \<noteq> 0 \<and> ns_file st = Some [] \<and> \<not> ns_wild st \<and>
     queue_ok (ns_next st) (ns_ring st) \<and> queue_ok (ns_next st) (ns_persistent st) \<and>
     nq_bytes (ns_ring st) \<le> NATIVE_RING_MAX_BYTES \<and>
     (\<not> ns_failed st \<longrightarrow>
        map np_data (nq_list (ns_persistent st)) = untimed ops \<and>
        (\<not> ns_truncated st \<longrightarrow>
           in_window (native_ring_cutoff st) (map packet_view (nq_list (ns_ring st))) =
           in_window (native_ring_cutoff st) (timed ops)))"

lemma cutoff_mono: "a \<le> b \<Longrightarrow> (if w < a then a - w else 0) \<le> (if w < b then b - w else 0)" for a b w :: u64
  by (auto simp: word_le_nat_alt unat_sub word_less_nat_alt)

lemma ring_inv_step:
  assumes inv: "ring_inv st ops"
  shows "ring_inv (native_write_packet_at mem b ts st) (ops @ [(b, ts)])"
proof -
  let ?st' = "native_write_packet_at mem b ts st"
  have base: "ns_window st \<noteq> 0" "ns_file st = Some []" "\<not> ns_wild st" "queue_ok (ns_next st) (ns_ring st)"
      "queue_ok (ns_next st) (ns_persistent st)" "nq_bytes (ns_ring st) \<le> NATIVE_RING_MAX_BYTES"
    using inv by (auto simp: ring_inv_def)
  have failed: "ring_inv (st\<lparr>ns_failed := True\<rparr>) ops'" for ops'
    using base by (simp add: ring_inv_def)
  define trace where "trace = proto_message mem 1 b proto_empty"
  have data: "pb_data trace = native_frame b" if "\<not> pb_failed trace"
    using that writes_message [of proto_empty mem 1 b] by (simp add: trace_def native_frame_def)
  consider (frozen) "ns_failed st" | (bad) "\<not> ns_failed st" "pb_failed trace"
    | (late) "\<not> ns_failed st" "\<not> pb_failed trace" "ts \<noteq> 0" "ns_window st < ns_latest st" "ts < ns_latest st - ns_window st"
    | (stamped) "\<not> ns_failed st" "\<not> pb_failed trace" "ts \<noteq> 0" "\<not> (ns_window st < ns_latest st \<and> ts < ns_latest st - ns_window st)"
    | (plain) "\<not> ns_failed st" "\<not> pb_failed trace" "ts = 0"
    by blast
  then show ?thesis
  proof cases
    case frozen
    then show ?thesis
      using base by (simp add: native_write_packet_at_def ring_inv_def)
  next
    case bad
    then have "?st' = st\<lparr>ns_failed := True\<rparr>"
      using base by (simp add: native_write_packet_at_def trace_def [symmetric] Let_def)
    then show ?thesis
      using failed by simp
  next
    case late
    then have "?st' = st"
      using base by (simp add: native_write_packet_at_def trace_def [symmetric] Let_def)
    moreover have "in_window (native_ring_cutoff st) [(ts, native_frame b)] = []"
      using late by (simp add: in_window_def native_ring_cutoff_def)
    ultimately show ?thesis
      using inv late by (simp add: ring_inv_def timed_def untimed_def)
  next
    case plain
    show ?thesis
    proof (cases "native_packet_queue_append mem (ns_next st) (pb_data trace) ts (ns_persistent st)")
      case None
      then have "?st' = st\<lparr>ns_failed := True\<rparr>"
        using base plain by (simp add: native_write_packet_at_def trace_def [symmetric] Let_def)
      then show ?thesis
        using failed by simp
    next
      case (Some r)
      obtain sane q where r: "r = (sane, q)"
        by (cases r)
      have q: "sane" "nq_list q = nq_list (ns_persistent st) @ [\<lparr>np_addr = ns_next st, np_ts = ts, np_data = native_frame b\<rparr>]"
          "queue_ok (Suc (ns_next st)) q"
        using queue_append_ok [OF base(5), of mem "pb_data trace" ts sane q] Some r data [OF plain(2)] by auto
      have "?st' = st\<lparr>ns_persistent := q, ns_next := Suc (ns_next st), ns_wild := False\<rparr>"
        using base plain Some r q(1) by (simp add: native_write_packet_at_def trace_def [symmetric] Let_def)
      moreover have "native_ring_cutoff (st\<lparr>ns_persistent := q, ns_next := Suc (ns_next st), ns_wild := False\<rparr>) = native_ring_cutoff st"
        by (simp add: native_ring_cutoff_def)
      moreover have "timed (ops @ [(b, ts)]) = timed ops" "untimed (ops @ [(b, ts)]) = untimed ops @ [native_frame b]"
        using plain(3) by (simp_all add: timed_def untimed_def)
      ultimately show ?thesis
        using inv plain q queue_ok_mono [OF base(4), of "Suc (ns_next st)"] by (simp add: ring_inv_def)
    qed
  next
    case stamped
    show ?thesis
    proof (cases "native_packet_queue_append mem (ns_next st) (pb_data trace) ts (ns_ring st)")
      case None
      then have "?st' = st\<lparr>ns_failed := True\<rparr>"
        using base stamped by (auto simp: native_write_packet_at_def trace_def [symmetric] Let_def)
      then show ?thesis
        using failed by simp
    next
      case (Some r)
      obtain sane q where r: "r = (sane, q)"
        by (cases r)
      have q: "sane" "nq_list q = nq_list (ns_ring st) @ [\<lparr>np_addr = ns_next st, np_ts = ts, np_data = native_frame b\<rparr>]"
          "queue_ok (Suc (ns_next st)) q"
        using queue_append_ok [OF base(4), of mem "pb_data trace" ts sane q] Some r data [OF stamped(2)] by auto
      define latest where "latest = (if ns_latest st < ts then ts else ns_latest st)"
      define st1 where "st1 = st\<lparr>ns_ring := q, ns_next := Suc (ns_next st), ns_wild := False, ns_latest := latest\<rparr>"
      have st': "?st' = native_ring_evict st1"
        using base stamped Some r q(1)
        by (auto simp: native_write_packet_at_def trace_def [symmetric] Let_def st1_def latest_def)
      have q1: "queue_ok (Suc (ns_next st)) (ns_ring st1)"
        using q(3) by (simp add: st1_def)
      obtain k r' tr where ev: "native_ring_evict st1 = st1\<lparr>ns_ring := r', ns_truncated := tr\<rparr>"
          "nq_list r' = drop k (nq_list q)" "queue_ok (Suc (ns_next st)) r'" "nq_bytes r' \<le> NATIVE_RING_MAX_BYTES"
          "ns_truncated st \<longrightarrow> tr" "\<not> tr \<longrightarrow> (\<forall>p \<in> set (take k (nq_list q)). np_ts p < native_ring_cutoff st1)"
        using evict_loop_ok [OF q1, of "native_ring_cutoff st1"] by (auto simp: native_ring_evict_def st1_def)
      have cut: "native_ring_cutoff st \<le> native_ring_cutoff st1"
        using cutoff_mono [of "ns_latest st" latest "ns_window st"] by (auto simp: native_ring_cutoff_def st1_def latest_def)
      have "in_window (native_ring_cutoff st1) (map packet_view (nq_list r')) =
          in_window (native_ring_cutoff st1) (timed (ops @ [(b, ts)]))" if "\<not> tr"
      proof -
        have "in_window (native_ring_cutoff st1) (map packet_view (nq_list r')) =
            in_window (native_ring_cutoff st1) (map packet_view (nq_list q))"
          using ev(2,6) that in_window_drop by simp
        moreover have "in_window (native_ring_cutoff st) (map packet_view (nq_list (ns_ring st))) =
            in_window (native_ring_cutoff st) (timed ops)"
          using inv stamped(1) ev(5) that by (auto simp: ring_inv_def)
        then have "in_window (native_ring_cutoff st1) (map packet_view (nq_list (ns_ring st))) =
            in_window (native_ring_cutoff st1) (timed ops)"
          by (rule in_window_trans [OF cut])
        ultimately show ?thesis
          using q(2) stamped(3) by (simp add: timed_def packet_view_def)
      qed
      moreover have "native_ring_cutoff (st1\<lparr>ns_ring := r', ns_truncated := t\<rparr>) = native_ring_cutoff st1" for t
        by (simp add: native_ring_cutoff_def)
      moreover have "untimed (ops @ [(b, ts)]) = untimed ops"
        using stamped(3) by (simp add: untimed_def)
      moreover have "ns_window st1 = ns_window st" "ns_file st1 = Some []" "\<not> ns_wild st1" "ns_next st1 = Suc (ns_next st)"
          "ns_persistent st1 = ns_persistent st" "ns_failed st1 = ns_failed st"
        using base by (simp_all add: st1_def)
      ultimately show ?thesis
        using inv stamped(1) ev(3,4) queue_ok_mono [OF base(5), of "Suc (ns_next st)"]
        unfolding st' ev(1) ring_inv_def by simp
    qed
  qed
qed

lemma ring_inv_run:
  "ring_inv st ops0 \<Longrightarrow> ring_inv (native_run mem ops st) (ops0 @ ops)"
proof (induction ops arbitrary: st ops0)
  case Nil
  then show ?case by (simp add: native_run_def)
next
  case (Cons x ops)
  then show ?case
    using ring_inv_step [of st ops0 mem "fst x" "snd x"] Cons.IH [of "native_write_packet_at mem (fst x) (snd x) st" "ops0 @ [x]"]
    by (cases x) (simp add: native_run_def)
qed

definition native_ring_start :: "nat \<Rightarrow> u64 \<Rightarrow> native_state" where
  "native_ring_start limit window =
     \<lparr>ns_file = Some [], ns_limit = limit, ns_failed = False, ns_window = window, ns_latest = 0, ns_truncated = False,
      ns_persistent = native_queue_empty, ns_ring = native_queue_empty, ns_sequence_started = False, ns_tracks = [],
      ns_track_capacity = 0, ns_salt = 0, ns_trace_tags = False, ns_next = 0, ns_wild = False\<rparr>"

lemma ring_inv_start: "window \<noteq> 0 \<Longrightarrow> ring_inv (native_ring_start limit window) []"
  by (auto simp: ring_inv_def native_ring_start_def queue_ok_def native_queue_empty_def queue_tail_def timed_def untimed_def in_window_def)

lemma native_queue_write_ok:
  assumes "ns_file st = Some c"
  shows "\<exists>w. snd (native_queue_write_loop ps st) = st\<lparr>ns_file := Some (c @ w)\<rparr> \<and>
     (fst (native_queue_write_loop ps st) \<longrightarrow> w = concat (map np_data ps))"
  using assms
proof (induction ps arbitrary: st c)
  case Nil
  then show ?case by (intro exI [of _ "[]"]) simp
next
  case (Cons p ps)
  define w1 where "w1 = take (ns_limit st - length c) (np_data p)"
  have f: "native_fwrite (np_data p) st = (length w1, st\<lparr>ns_file := Some (c @ w1)\<rparr>)"
    using Cons.prems by (simp add: native_fwrite_def w1_def Let_def)
  show ?case
  proof (cases "length w1 = length (np_data p)")
    case True
    then have "w1 = np_data p"
      by (simp add: w1_def)
    obtain w where w: "snd (native_queue_write_loop ps (st\<lparr>ns_file := Some (c @ w1)\<rparr>)) =
          st\<lparr>ns_file := Some ((c @ w1) @ w)\<rparr>"
        "fst (native_queue_write_loop ps (st\<lparr>ns_file := Some (c @ w1)\<rparr>)) \<longrightarrow> w = concat (map np_data ps)"
      using Cons.IH [of "st\<lparr>ns_file := Some (c @ w1)\<rparr>" "c @ w1"] by auto
    then show ?thesis
      using True f \<open>w1 = np_data p\<close> by (intro exI [of _ "w1 @ w"]) simp
  next
    case False
    then show ?thesis
      using f by (intro exI [of _ w1]) simp
  qed
qed

lemma native_ring_file:
  assumes "window \<noteq> 0" and "st = native_run mem ops (native_ring_start limit window)"
  shows "\<not> ns_wild st \<and> nq_bytes (ns_ring st) \<le> NATIVE_RING_MAX_BYTES \<and>
         (\<not> ns_failed (native_finish st) \<longrightarrow> \<not> ns_truncated st \<longrightarrow>
            ns_file (native_finish st) =
              Some (concat (untimed ops) @ concat (map snd (in_window (native_ring_cutoff st) (timed ops)))))"
proof -
  have inv: "ring_inv st ops"
    using ring_inv_run [OF ring_inv_start [OF assms(1), of limit], of mem ops] assms(2) by simp
  define r where "r = nq_list (ns_ring (native_ring_prune_all st))"
  define st1 where "st1 = native_ring_prune_all st"
  have r: "r = filter (\<lambda>p. native_ring_cutoff st \<le> np_ts p) (nq_list (ns_ring st))"
    by (simp add: r_def native_ring_prune_all_def prune_loop_ok)
  have st1: "ns_file st1 = Some []" "ns_persistent st1 = ns_persistent st" "ns_failed st1 = ns_failed st"
      "nq_list (ns_ring st1) = r"
    using inv by (simp_all add: st1_def r_def ring_inv_def native_ring_prune_all_def prune_loop_ok)
  obtain w2 where w2: "snd (native_packet_queue_write (ns_persistent st) st1) = st1\<lparr>ns_file := Some w2\<rparr>"
      "fst (native_packet_queue_write (ns_persistent st) st1) \<longrightarrow> w2 = concat (map np_data (nq_list (ns_persistent st)))"
    using native_queue_write_ok [OF st1(1)] by (auto simp: native_packet_queue_write_def)
  obtain w3 where w3: "snd (native_packet_queue_write (ns_ring st1) (st1\<lparr>ns_file := Some w2\<rparr>)) = st1\<lparr>ns_file := Some (w2 @ w3)\<rparr>"
      "fst (native_packet_queue_write (ns_ring st1) (st1\<lparr>ns_file := Some w2\<rparr>)) \<longrightarrow> w3 = concat (map np_data r)"
    using native_queue_write_ok [of "st1\<lparr>ns_file := Some w2\<rparr>" w2 "nq_list (ns_ring st1)"] st1(4)
    by (auto simp: native_packet_queue_write_def)
  have fin: "native_finish st =
      (if fst (native_packet_queue_write (ns_persistent st) st1)
       then if fst (native_packet_queue_write (ns_ring st1) (st1\<lparr>ns_file := Some w2\<rparr>))
            then st1\<lparr>ns_file := Some (w2 @ w3)\<rparr>
            else st1\<lparr>ns_file := Some (w2 @ w3), ns_failed := True\<rparr>
       else st1\<lparr>ns_file := Some w2, ns_failed := True\<rparr>)"
    using w2(1) w3(1) inv st1(2)
    by (auto simp: native_finish_def st1_def [symmetric] Let_def ring_inv_def split_beta split: bool.splits prod.splits)
  have "ns_file (native_finish st) =
      Some (concat (untimed ops) @ concat (map snd (in_window (native_ring_cutoff st) (timed ops))))"
    if ok: "\<not> ns_failed (native_finish st)" "\<not> ns_truncated st"
  proof -
    have f: "fst (native_packet_queue_write (ns_persistent st) st1)"
        "fst (native_packet_queue_write (ns_ring st1) (st1\<lparr>ns_file := Some w2\<rparr>))" "\<not> ns_failed st"
      using ok(1) st1(3) by (auto simp: fin split: if_splits)
    have "map packet_view r = in_window (native_ring_cutoff st) (map packet_view (nq_list (ns_ring st)))"
      by (simp add: r in_window_def filter_map packet_view_def comp_def)
    also have "\<dots> = in_window (native_ring_cutoff st) (timed ops)"
      using inv f(3) ok(2) by (simp add: ring_inv_def)
    finally have "map np_data r = map snd (in_window (native_ring_cutoff st) (timed ops))"
      by (metis (no_types, lifting) list.map_comp map_eq_conv comp_apply packet_view_def snd_conv)
    moreover have "map np_data (nq_list (ns_persistent st)) = untimed ops"
      using inv f(3) by (simp add: ring_inv_def)
    ultimately show ?thesis
      using f w2(2) w3(2) by (simp add: fin)
  qed
  then show ?thesis
    using inv by (simp add: ring_inv_def)
qed

text \<open>
  C14. The ring keeps exactly the requested window.  In ring mode, if no write failed, the finished
  file consists of the packets without timestamp, in order, followed by timestamped packets in
  order; unless the byte limit forced a truncation (which is reported), these are exactly the packets
  whose timestamp is not older than the newest one by more than the window.  The ring never holds
  more than its byte limit, and its tail pointer never dangles.
\<close>

theorem native_ring_window_exact:
  assumes "window \<noteq> 0" and "st = native_run mem ops (native_ring_start limit window)"
  shows "\<not> ns_wild st \<and> nq_bytes (ns_ring st) \<le> NATIVE_RING_MAX_BYTES \<and>
         (\<not> ns_failed (native_finish st) \<longrightarrow> \<not> ns_truncated st \<longrightarrow>
            ns_file (native_finish st) =
              Some (concat (untimed ops) @ concat (map snd (in_window (native_ring_cutoff st) (timed ops)))))"
  by (rule native_ring_file [OF assms])

definition native_demo_packet :: "u8 \<Rightarrow> proto_buffer" where
  "native_demo_packet b = proto_empty\<lparr>pb_data := [b], pb_capacity := 1\<rparr>"

text \<open>A descriptor, two events outside the window of the third, and one that arrives late.\<close>

definition native_demo_ops :: "(proto_buffer \<times> u64) list" where
  "native_demo_ops = [(native_demo_packet 1, 0), (native_demo_packet 2, 10), (native_demo_packet 3, 12),
     (native_demo_packet 4, 100), (native_demo_packet 5, 20), (native_demo_packet 6, 97)]"

definition native_demo_state :: native_state where
  "native_demo_state = native_run (\<lambda>_. True) native_demo_ops (native_ring_start 1000 5)"

lemma native_demo_trace:
  "proto_message (\<lambda>_. True) 1 (native_demo_packet b) proto_empty = \<lparr>pb_data = [10, 1, b], pb_capacity = 256, pb_failed = False\<rparr>"
proof -
  have "encode_varint (proto_key 1 2) = [10]" "encode_varint 1 = [1]"
    by code_simp+
  then show ?thesis
    by (simp add: proto_message_def native_demo_packet_def proto_tag_def proto_varint_def proto_bytes_def
          proto_reserve_def proto_empty_def grow_capacity.simps)
qed

theorem native_ring_window_exact_witness:
  "ns_file (native_finish native_demo_state) =
     Some (native_frame (native_demo_packet 1) @ native_frame (native_demo_packet 4) @ native_frame (native_demo_packet 6))"
proof -
  have "\<not> ns_failed (native_finish native_demo_state)" "\<not> ns_truncated native_demo_state"
      "native_ring_cutoff native_demo_state = 95"
    by (simp_all add: native_demo_state_def native_run_def native_demo_ops_def native_ring_start_def native_write_packet_at_def
          native_demo_trace native_packet_queue_append_def link_at_tail_def native_queue_empty_def native_ring_evict_def
          native_ring_cutoff_def NATIVE_RING_MAX_BYTES_def native_finish_def native_ring_prune_all_def
          native_packet_queue_write_def native_fwrite_def size_max_def packet_sizeof_def Let_def)
  then have "ns_file (native_finish native_demo_state) =
      Some (concat (untimed native_demo_ops) @ concat (map snd (in_window 95 (timed native_demo_ops))))"
    using native_ring_window_exact [of 5 native_demo_state "\<lambda>_. True" native_demo_ops 1000]
    by (simp add: native_demo_state_def)
  then show ?thesis
    by (simp add: untimed_def timed_def native_demo_ops_def in_window_def)
qed

section \<open>Annotations and events\<close>

text \<open>The loops that count the continuation bytes of a length.\<close>

fun varint_extra :: "nat \<Rightarrow> nat" where
  "varint_extra n = (if 128 \<le> n then 1 + varint_extra (n div 128) else 0)"

declare varint_extra.simps [simp del]

definition native_annotation_string :: "allocator \<Rightarrow> bytes \<Rightarrow> bytes option \<Rightarrow> proto_buffer \<Rightarrow> proto_buffer" where
  "native_annotation_string mem name str ev =
     (let text = (case str of None \<Rightarrow> [] | Some s \<Rightarrow> s);
          n = 4 + length name + length text + varint_extra (length name) + varint_extra (length text) in
      proto_string mem 6 (Some text)
        (proto_string mem 10 (Some name) (proto_varint mem (of_nat n) (proto_tag mem 4 2 ev))))"

text \<open>Decimal digits, written backwards from the end of a 32-byte array.\<close>

function decimal_loop :: "u64 \<Rightarrow> bytes \<Rightarrow> bytes" where
  "decimal_loop v out =
     (let out1 = (of_nat (48 + unat v mod 10) :: u8) # out in
      if v div 10 = 0 then out1 else decimal_loop (v div 10) out1)"
  by auto
termination
proof (relation "measure (\<lambda>(v, out). unat v)")
  fix v :: u64 and out out1 :: bytes
  assume "v div 10 \<noteq> 0"
  then have "unat v \<noteq> 0"
    by (auto simp: unat_eq_zero)
  then show "((v div 10, out1), v, out) \<in> measure (\<lambda>(v, out). unat v)"
    by (simp add: unat_div)
qed simp

declare decimal_loop.simps [simp del]

definition native_annotation_uint :: "allocator \<Rightarrow> bytes \<Rightarrow> u64 \<Rightarrow> proto_buffer \<Rightarrow> proto_buffer" where
  "native_annotation_uint mem name v ev = native_annotation_string mem name (Some (decimal_loop v [])) ev"

text \<open>The argument is the two's complement representation of the signed value.\<close>

definition native_annotation_int :: "allocator \<Rightarrow> bytes \<Rightarrow> u64 \<Rightarrow> proto_buffer \<Rightarrow> proto_buffer" where
  "native_annotation_int mem name v ev =
     (let neg = sint v < 0; magnitude = (if neg then 0 - v else v); digits = decimal_loop magnitude [] in
      native_annotation_string mem name (Some (if neg then 45 # digits else digits)) ev)"

definition native_annotation_bool :: "allocator \<Rightarrow> bytes \<Rightarrow> bool \<Rightarrow> proto_buffer \<Rightarrow> proto_buffer" where
  "native_annotation_bool mem name v ev =
     native_annotation_string mem name (Some (if v then cstr ''true'' else cstr ''false'')) ev"

definition hex_digit :: "nat \<Rightarrow> u8" where
  "hex_digit n = cstr ''0123456789abcdef'' ! n"

definition hex_id :: "u64 \<Rightarrow> bytes" where
  "hex_id v = map (\<lambda>i. hex_digit (unat (drop_bit (4 * (15 - i)) v AND 15))) [0..<16]"

definition native_annotation_id :: "allocator \<Rightarrow> bytes \<Rightarrow> u64 \<Rightarrow> proto_buffer \<Rightarrow> proto_buffer" where
  "native_annotation_id mem name v ev = native_annotation_string mem name (Some (hex_id v)) ev"

definition native_event_start :: "allocator \<Rightarrow> u32 \<Rightarrow> u64 \<Rightarrow> bytes option \<Rightarrow> bytes option \<Rightarrow> proto_buffer \<Rightarrow> proto_buffer" where
  "native_event_start mem type uuid name category ev =
     (let e1 = proto_uint mem 11 uuid (proto_uint mem 9 (ucast type) ev);
          e2 = (if name \<noteq> None \<and> name \<noteq> Some [] then proto_string mem 23 name e1 else e1) in
      if category \<noteq> None \<and> category \<noteq> Some [] then proto_string mem 22 category e2 else e2)"

definition native_event_flow :: "allocator \<Rightarrow> bool \<Rightarrow> u64 \<Rightarrow> bool \<Rightarrow> proto_buffer \<Rightarrow> proto_buffer" where
  "native_event_flow mem trace_tags flow_id terminating ev =
     (if flow_id = 0 \<or> trace_tags then ev else proto_fixed64 mem (if terminating then 48 else 47) flow_id ev)"

definition native_event_correlation :: "allocator \<Rightarrow> u64 \<Rightarrow> proto_buffer \<Rightarrow> proto_buffer" where
  "native_event_correlation mem correlation_id ev =
     (if correlation_id \<noteq> 0 then proto_uint mem 52 correlation_id ev else ev)"

definition native_event_write :: "allocator \<Rightarrow> u64 \<Rightarrow> proto_buffer \<Rightarrow> native_state \<Rightarrow> native_state" where
  "native_event_write mem ts ev st =
     (case native_sequence_packet mem proto_empty st of
        (p, st1) \<Rightarrow>
          native_write_packet_at mem (proto_message mem 11 ev (proto_uint mem 58 3 (proto_uint mem 8 ts p))) ts st1)"

definition native_slice ::
    "allocator \<Rightarrow> u64 \<Rightarrow> u64 \<Rightarrow> u32 \<Rightarrow> bytes option \<Rightarrow> bytes \<Rightarrow> u64 \<Rightarrow> bool \<Rightarrow> native_state \<Rightarrow> native_state" where
  "native_slice mem ts uuid type name category flow_id terminating st =
     (if ns_trace_tags st \<and> category = cstr ''anettrace.socket'' then st
      else let e1 = native_event_start mem type uuid name (Some category) proto_empty;
               e2 = native_event_flow mem (ns_trace_tags st) flow_id terminating e1;
               e3 = (if category = cstr ''anettrace.socket'' then native_annotation_id mem (cstr ''socket_id'') flow_id e2 else e2) in
        native_event_write mem ts e3 st)"

text \<open>The hand-computed length of an annotation is the length of the message it announces.\<close>

lemma encode_varint_len: "n < 2 ^ 64 \<Longrightarrow> length (encode_varint (of_nat n)) = 1 + varint_extra n"
proof (induction n rule: varint_extra.induct)
  case (1 n)
  have u: "unat (of_nat n :: u64) = n"
    using "1.prems" by (simp add: unat_of_nat_64)
  have d: "drop_bit 7 (of_nat n :: u64) = of_nat (n div 128)"
  proof -
    have "unat (drop_bit 7 (of_nat n :: u64)) = n div 128"
      using u by (simp add: unat_drop_bit_div)
    then show ?thesis
      using unat_of_nat_64 [of "n div 128"] "1.prems" by (simp add: word_unat_eq_iff)
  qed
  have z: "(of_nat (n div 128) :: u64) = 0 \<longleftrightarrow> n < 128"
    using unat_of_nat_64 [of "n div 128"] "1.prems" by (auto simp: unat_eq_zero [symmetric] div_eq_0_iff simp del: unat_eq_zero)
  show ?case
  proof (cases "128 \<le> n")
    case True
    then have "length (encode_varint (of_nat (n div 128))) = 1 + varint_extra (n div 128)"
      using 1 by simp
    then show ?thesis
      using True d z by (subst encode_varint.simps) (simp add: Let_def varint_extra.simps [of n])
  next
    case False
    then show ?thesis
      using d z by (subst encode_varint.simps) (simp add: Let_def varint_extra.simps [of n])
  qed
qed

definition annotation_fields :: "bytes \<Rightarrow> bytes \<Rightarrow> proto_field list" where
  "annotation_fields name text = [PBytes 10 name, PBytes 6 text]"

lemma annotation_length:
  assumes "length name < 2 ^ 64" and "length text < 2 ^ 64"
  shows "length (concat (map field_bytes (annotation_fields name text))) =
    4 + length name + length text + varint_extra (length name) + varint_extra (length text)"
proof -
  have "encode_varint (proto_key 10 2) = [82]" "encode_varint (proto_key 6 2) = [50]"
    by code_simp+
  then show ?thesis
    using assms by (simp add: annotation_fields_def field_bytes_def encode_varint_len)
qed

lemma writes_bytes: "writes (proto_bytes mem d) d"
  by (auto simp: writes_def proto_bytes_ok)

text \<open>
  Annotations written in place are well-formed nested messages: whenever the event buffer does
  not fail, the annotation adds exactly one field 4 whose payload is the message with the name as
  field 10 and the text as field 6; the length announced before the nested fields are written is the
  length they turn out to have.
\<close>

lemma native_annotation_exact:
  assumes "proto_ok ev" and "length name + length text < 2 ^ 63"
    and "\<not> pb_failed (native_annotation_string mem name (Some text) ev)"
  shows "pb_data (native_annotation_string mem name (Some text) ev) =
           pb_data ev @ field_bytes (PBytes 4 (concat (map field_bytes (annotation_fields name text)))) \<and>
         parse_fields (concat (map field_bytes (annotation_fields name text))) =
           Inr (map field_of (annotation_fields name text))"
proof -
  define n where "n = 4 + length name + length text + varint_extra (length name) + varint_extra (length text)"
  have n: "length (concat (map field_bytes (annotation_fields name text))) = n"
    using assms(2) by (simp add: n_def annotation_length)
  have w: "writes (\<lambda>b. proto_string mem 6 (Some text) (proto_string mem 10 (Some name)
        (proto_varint mem (of_nat n) (proto_tag mem 4 2 b))))
      (((encode_varint (proto_key 4 2) @ encode_varint (of_nat n)) @ field_bytes (PBytes 10 name)) @ field_bytes (PBytes 6 text))"
    using writes_field(3) [of mem 10 "Some name"] writes_field(3) [of mem 6 "Some text"]
    by (intro writes_comp) (simp_all add: proto_tag_def proto_varint_def writes_bytes)
  have "pb_data (native_annotation_string mem name (Some text) ev) = pb_data ev @
      (((encode_varint (proto_key 4 2) @ encode_varint (of_nat n)) @ field_bytes (PBytes 10 name)) @ field_bytes (PBytes 6 text))"
    using w assms(1,3) by (simp add: writes_def native_annotation_string_def Let_def n_def)
  then have "pb_data (native_annotation_string mem name (Some text) ev) =
      pb_data ev @ field_bytes (PBytes 4 (concat (map field_bytes (annotation_fields name text))))"
    using n by (simp add: field_bytes_def annotation_fields_def)
  moreover have "list_all field_writable (annotation_fields name text)"
    using assms(2) by (simp add: annotation_fields_def)
  ultimately show ?thesis
    using parse_written by blast
qed

section \<open>Numbers as text\<close>

definition digits_value :: "bytes \<Rightarrow> nat" where
  "digits_value ds = foldl (\<lambda>a d. a * 10 + (unat d - 48)) 0 ds"

definition is_digit :: "u8 \<Rightarrow> bool" where
  "is_digit d \<longleftrightarrow> 48 \<le> unat d \<and> unat d \<le> 57"

lemma digit_byte: "unat (of_nat (48 + n mod 10) :: u8) = 48 + n mod 10"
proof -
  have "n mod 10 < 10"
    by simp
  then have "48 + n mod 10 < 2 ^ 8"
    by simp
  then show ?thesis
    by (subst unsigned_of_nat) (simp add: take_bit_nat_eq_self)
qed

lemma decimal_loop_append: "decimal_loop v out = decimal_loop v [] @ out"
proof (induction "unat v" arbitrary: v out rule: less_induct)
  case less
  let ?d = "of_nat (48 + unat v mod 10) :: u8"
  show ?case
  proof (cases "v div 10 = 0")
    case True
    then show ?thesis
      by (simp add: decimal_loop.simps [of v])
  next
    case False
    have "unat v \<noteq> 0"
      using False by (auto simp: unat_eq_zero)
    then have lt: "unat (v div 10) < unat v"
      by (simp add: unat_div)
    have "decimal_loop v out = decimal_loop (v div 10) (?d # out)" "decimal_loop v [] = decimal_loop (v div 10) [?d]"
      using False by (simp_all add: decimal_loop.simps [of v] Let_def)
    then show ?thesis
      using less [OF lt, of "?d # out"] less [OF lt, of "[?d]"] by simp
  qed
qed

lemma decimal_loop_digits:
  "digits_value (decimal_loop v []) = unat v \<and> list_all is_digit (decimal_loop v []) \<and>
   (\<forall>k. unat v < 10 ^ Suc k \<longrightarrow> length (decimal_loop v []) \<le> Suc k)"
proof (induction "unat v" arbitrary: v rule: less_induct)
  case less
  let ?d = "of_nat (48 + unat v mod 10) :: u8"
  have d: "is_digit ?d" "unat ?d - 48 = unat v mod 10"
  proof -
    have "unat v mod 10 < 10"
      by simp
    then show "is_digit ?d" "unat ?d - 48 = unat v mod 10"
      using digit_byte [of "unat v"] by (auto simp: is_digit_def)
  qed
  have dv: "unat (v div 10) = unat v div 10"
    by (simp add: unat_div)
  show ?case
  proof (cases "v div 10 = 0")
    case True
    then have "unat v div 10 = 0"
      using dv by simp
    moreover have "decimal_loop v [] = [?d]"
      using True by (simp add: decimal_loop.simps [of v])
    ultimately show ?thesis
      using d by (simp add: digits_value_def div_eq_0_iff)
  next
    case False
    then have "0 < unat v div 10"
      using dv by (metis gr0I unat_eq_zero)
    then have lt: "unat (v div 10) < unat v"
      using dv by simp
    have eq: "decimal_loop v [] = decimal_loop (v div 10) [] @ [?d]"
      using False decimal_loop_append [of "v div 10" "[?d]"] by (subst decimal_loop.simps) (simp add: Let_def)
    have "length (decimal_loop v []) \<le> Suc k" if "unat v < 10 ^ Suc k" for k
    proof (cases k)
      case 0
      then show ?thesis
        using that \<open>0 < unat v div 10\<close> by simp
    next
      case (Suc j)
      then have "unat (v div 10) < 10 ^ Suc j"
        using that dv by (simp add: less_mult_imp_div_less mult.commute)
      then show ?thesis
        using less [OF lt] Suc eq by simp
    qed
    moreover have "digits_value (decimal_loop v []) = unat v"
      using less [OF lt] d(2) dv by (simp add: eq digits_value_def)
    ultimately show ?thesis
      using less [OF lt] d(1) eq by simp
  qed
qed

text \<open>
  Numbers in annotations are exact and fit their arrays: the decimal text of an unsigned value
  has at most 20 digits and reads back as the value; the text of a signed value, the smallest one
  included, is a minus sign exactly for negative values followed by the digits of its magnitude; both
  fit the 32-byte array with its terminator.
\<close>

lemma native_annotation_numbers:
  "digits_value (decimal_loop v []) = unat v \<and> list_all is_digit (decimal_loop v []) \<and>
   length (decimal_loop v []) \<le> 20 \<and>
   (let neg = sint v < 0; digits = decimal_loop (if neg then 0 - v else v) [] in
    (if neg then - int (digits_value digits) else int (digits_value digits)) = sint v \<and>
    length (if neg then 45 # digits else digits) < 32)"
proof -
  have len: "length (decimal_loop w []) \<le> 20" for w
  proof -
    have "unat w < 10 ^ Suc 19"
      using unat_lt_64 [of w] by simp
    then show ?thesis
      using decimal_loop_digits [of w] by fastforce
  qed
  have mag: "int (unat (if sint v < 0 then 0 - v else v)) = \<bar>sint v\<bar>"
  proof -
    have r: "0 \<le> uint v" "uint v < 2 ^ 64"
      using uint_bounded [of v] by simp_all
    have "take_bit 64 (uint v) = uint v"
      by (rule take_bit_int_eq_self) (use r in simp_all)
    then have s: "sint v = uint v - 2 ^ 64 * of_bool (bit (uint v) 63)"
      by (simp add: sint_uint signed_take_bit_eq_take_bit_minus)
    show ?thesis
    proof (cases "sint v < 0")
      case True
      have "uint v \<noteq> 0"
        using True by (auto simp: s)
      then have "uint (0 - v) = 2 ^ 64 - uint v"
        using r by (simp add: uint_word_ariths zmod_zminus1_eq_if)
      moreover have "sint v = uint v - 2 ^ 64"
        using True s r by (cases "bit (uint v) 63") simp_all
      ultimately show ?thesis
        using True r by simp
    next
      case False
      then have "sint v = uint v"
        using s r by (cases "bit (uint v) 63") simp_all
      then show ?thesis
        using False r by simp
    qed
  qed
  have "length (decimal_loop (if sint v < 0 then 0 - v else v) []) \<le> 20"
    by (rule len)
  then show ?thesis
    using decimal_loop_digits [of v] len [of v] mag decimal_loop_digits [of "0 - v"]
    by (auto simp: Let_def)
qed

end
