(* ===== verification/NativeTracks.thy ===== *)
theory NativeTracks
  imports NativeExport
begin

text \<open>
  The tracks of the native trace (\<open>perfetto_export.c\<close>): a table searched by identifier, grown by
  doubling, and the descriptor packet written when a track is first requested.  Pointers into the
  table are indices; the code copies the identifier of a parent before the table can move.
\<close>

section \<open>The table\<close>

definition track_sizeof :: nat where
  "track_sizeof = 24"

fun find_track_loop :: "u64 \<Rightarrow> nat \<Rightarrow> native_track list \<Rightarrow> nat option" where
  "find_track_loop uuid i [] = None"
| "find_track_loop uuid i (t # ts) = (if nt_uuid t = uuid then Some i else find_track_loop uuid (Suc i) ts)"

definition native_find_track :: "u64 \<Rightarrow> native_state \<Rightarrow> nat option" where
  "native_find_track uuid st = find_track_loop uuid 0 (ns_tracks st)"

definition native_add_track :: "allocator \<Rightarrow> u64 \<Rightarrow> u64 \<Rightarrow> track_kind \<Rightarrow> native_state \<Rightarrow> nat option \<times> native_state" where
  "native_add_track mem uuid object kind st =
     (let count = length (ns_tracks st);
          grow = (count = ns_track_capacity st);
          capacity = (if ns_track_capacity st \<noteq> 0 then ns_track_capacity st * 2 else 64) in
      if grow \<and> \<not> mem (capacity * track_sizeof) then (None, st\<lparr>ns_failed := True\<rparr>)
      else (Some count,
            st\<lparr>ns_track_capacity := (if grow then capacity else ns_track_capacity st),
               ns_tracks := ns_tracks st @ [\<lparr>nt_uuid = uuid, nt_object = object, nt_kind = kind, nt_active = False\<rparr>]\<rparr>))"

definition native_descriptor ::
    "allocator \<Rightarrow> u64 \<Rightarrow> bytes \<Rightarrow> u64 \<Rightarrow> track_kind \<Rightarrow> u32 \<Rightarrow> u32 \<Rightarrow> native_state \<Rightarrow> native_state" where
  "native_descriptor mem uuid name parent_uuid kind tgid tid st =
     (case native_sequence_packet mem proto_empty st of
        (packet, st1) \<Rightarrow>
          let d1 = proto_string mem 2 (Some name) (proto_uint mem 1 uuid proto_empty);
              d2 = (if parent_uuid \<noteq> 0 then proto_uint mem 5 parent_uuid d1 else d1);
              d3 = (if kind = NATIVE_TRACK_PROCESS
                    then proto_message mem 3
                           (proto_string mem 6 (Some name) (proto_uint mem 1 (ucast tgid) proto_empty)) d2
                    else if kind = NATIVE_TRACK_THREAD
                    then proto_message mem 4
                           (proto_string mem 5 (Some name)
                              (proto_uint mem 2 (ucast tid) (proto_uint mem 1 (ucast tgid) proto_empty))) d2
                    else d2) in
          native_write_packet mem (proto_message mem 60 d3 packet) st1)"

section \<open>Requesting a track\<close>

text \<open>\<open>snprintf\<close> of \<open>"<prefix>%u"\<close> and \<open>"<prefix>%08llx"\<close>; both fit the 32-byte arrays.\<close>

definition print_u :: "string \<Rightarrow> u32 \<Rightarrow> bytes" where
  "print_u prefix v = cstr prefix @ decimal_loop (ucast v) []"

definition print_low32 :: "string \<Rightarrow> u64 \<Rightarrow> bytes" where
  "print_low32 prefix v = cstr prefix @ drop 8 (hex_id (v AND 0xffffffff))"

definition task_or :: "bytes option \<Rightarrow> bytes \<Rightarrow> bytes" where
  "task_or task fallback = (if task = None \<or> task = Some [] then fallback else the task)"

definition native_process_track :: "allocator \<Rightarrow> u32 \<Rightarrow> bytes option \<Rightarrow> native_state \<Rightarrow> nat option \<times> native_state" where
  "native_process_track mem tgid task st =
     (let uuid = native_uuid (ns_salt st) (cstr ''process'') (ucast tgid) 0 in
      case native_find_track uuid st of
        Some i \<Rightarrow> (Some i, st)
      | None \<Rightarrow>
          let name = task_or task (print_u ''pid '' tgid) in
          (case native_add_track mem uuid (ucast tgid) NATIVE_TRACK_PROCESS st of
             (None, st1) \<Rightarrow> (None, st1)
           | (Some i, st1) \<Rightarrow> (Some i, native_descriptor mem uuid name 0 NATIVE_TRACK_PROCESS tgid 0 st1)))"

definition native_thread_track ::
    "allocator \<Rightarrow> u32 \<Rightarrow> u32 \<Rightarrow> bytes option \<Rightarrow> native_state \<Rightarrow> nat option \<times> native_state" where
  "native_thread_track mem tgid tid task st =
     (let uuid = native_uuid (ns_salt st) (cstr ''thread'') (ucast tgid) (ucast tid) in
      case native_find_track uuid st of
        Some i \<Rightarrow> (Some i, st)
      | None \<Rightarrow>
          (case native_process_track mem tgid task st of
             (None, st1) \<Rightarrow> (None, st1)
           | (Some process, st1) \<Rightarrow>
               let parent_uuid = nt_uuid (ns_tracks st1 ! process);
                   name = task_or task (print_u ''tid '' tid) in
               (case native_add_track mem uuid (push_bit 32 (ucast tgid) OR ucast tid) NATIVE_TRACK_THREAD st1 of
                  (None, st2) \<Rightarrow> (None, st2)
                | (Some i, st2) \<Rightarrow>
                    (Some i, native_descriptor mem uuid name parent_uuid NATIVE_TRACK_THREAD tgid tid st2))))"

definition native_socket_track ::
    "allocator \<Rightarrow> u64 \<Rightarrow> u32 \<Rightarrow> bytes option \<Rightarrow> native_state \<Rightarrow> nat option \<times> native_state" where
  "native_socket_track mem socket_id tgid task st =
     (let uuid = native_uuid (ns_salt st) (cstr ''socket'') socket_id 0 in
      case native_find_track uuid st of
        Some i \<Rightarrow> (Some i, st)
      | None \<Rightarrow>
          (case (if tgid \<noteq> 0 then native_process_track mem tgid task st else (Some 0, st)) of
             (None, st1) \<Rightarrow> (None, st1)
           | (Some process, st1) \<Rightarrow>
               let parent_uuid = (if tgid \<noteq> 0 then nt_uuid (ns_tracks st1 ! process) else 0);
                   name = print_low32 ''socket '' socket_id in
               (case native_add_track mem uuid socket_id NATIVE_TRACK_SOCKET st1 of
                  (None, st2) \<Rightarrow> (None, st2)
                | (Some i, st2) \<Rightarrow>
                    (Some i, native_descriptor mem uuid name parent_uuid NATIVE_TRACK_SOCKET tgid 0 st2))))"

definition native_connect_track ::
    "allocator \<Rightarrow> u64 \<Rightarrow> u32 \<Rightarrow> u32 \<Rightarrow> bytes option \<Rightarrow> native_state \<Rightarrow> nat option \<times> native_state" where
  "native_connect_track mem attempt_id tgid tid task st =
     (let uuid = native_uuid (ns_salt st) (cstr ''connect'') attempt_id 0 in
      case native_find_track uuid st of
        Some i \<Rightarrow> (Some i, st)
      | None \<Rightarrow>
          (case native_thread_track mem tgid tid task st of
             (None, st1) \<Rightarrow> (None, st1)
           | (Some thread, st1) \<Rightarrow>
               let parent_uuid = nt_uuid (ns_tracks st1 ! thread);
                   name = print_low32 ''connect '' attempt_id in
               (case native_add_track mem uuid attempt_id NATIVE_TRACK_CONNECT st1 of
                  (None, st2) \<Rightarrow> (None, st2)
                | (Some i, st2) \<Rightarrow>
                    (Some i, native_descriptor mem uuid name parent_uuid NATIVE_TRACK_CONNECT tgid tid st2))))"

definition native_global_track :: "allocator \<Rightarrow> native_state \<Rightarrow> nat option \<times> native_state" where
  "native_global_track mem st =
     (let uuid = native_uuid (ns_salt st) (cstr ''global'') 0 0 in
      case native_find_track uuid st of
        Some i \<Rightarrow> (Some i, st)
      | None \<Rightarrow>
          (case native_add_track mem uuid 0 NATIVE_TRACK_GLOBAL st of
             (None, st1) \<Rightarrow> (None, st1)
           | (Some i, st1) \<Rightarrow>
               (Some i, native_descriptor mem uuid (cstr ''Anettrace metadata'') 0 NATIVE_TRACK_GLOBAL 0 0 st1)))"

section \<open>What a descriptor writes\<close>

text \<open>A buffer that holds \<open>d\<close> unless an allocation failed.\<close>

definition built :: "proto_buffer \<Rightarrow> bytes \<Rightarrow> bool" where
  "built b d \<longleftrightarrow> proto_ok b \<and> (\<not> pb_failed b \<longrightarrow> pb_data b = d)"

lemma built_empty [simp, intro]: "built proto_empty []"
  by (simp add: built_def)

lemma built_writes: "writes w x \<Longrightarrow> built b d \<Longrightarrow> built (w b) (d @ x)"
  unfolding built_def writes_def by auto

lemma built_message:
  "built msg m \<Longrightarrow> built b d \<Longrightarrow> built (proto_message mem f msg b) (d @ field_bytes (PBytes f m))"
  using writes_message [of b mem f msg] unfolding built_def by auto

lemmas built_field [intro] =
  built_writes [OF writes_field(1)] built_writes [OF writes_field(3) [of _ _ "Some s" for s], simplified]

record track_desc =
  td_uuid :: u64
  td_name :: bytes
  td_parent :: u64
  td_kind :: track_kind
  td_tgid :: u32
  td_tid :: u32

definition owner_fields :: "track_desc \<Rightarrow> proto_field list" where
  "owner_fields d =
     (if td_kind d = NATIVE_TRACK_PROCESS
      then [PBytes 3 (concat (map field_bytes [PUint 1 (ucast (td_tgid d)), PBytes 6 (td_name d)]))]
      else if td_kind d = NATIVE_TRACK_THREAD
      then [PBytes 4 (concat (map field_bytes [PUint 1 (ucast (td_tgid d)), PUint 2 (ucast (td_tid d)), PBytes 5 (td_name d)]))]
      else [])"

definition desc_fields :: "track_desc \<Rightarrow> proto_field list" where
  "desc_fields d =
     [PUint 1 (td_uuid d), PBytes 2 (td_name d)] @ (if td_parent d \<noteq> 0 then [PUint 5 (td_parent d)] else []) @ owner_fields d"

definition desc_packet :: "bool \<Rightarrow> track_desc \<Rightarrow> proto_field list" where
  "desc_packet first d =
     PUint 10 NATIVE_PACKET_SEQUENCE_ID # (if first then [PUint 13 1] else []) @ [PBytes 60 (concat (map field_bytes (desc_fields d)))]"

definition desc_frame :: "bool \<Rightarrow> track_desc \<Rightarrow> bytes" where
  "desc_frame first d = field_bytes (PBytes 1 (concat (map field_bytes (desc_packet first d))))"

definition untimed_output :: "native_state \<Rightarrow> bytes" where
  "untimed_output st =
     (if ns_window st = 0 then the (ns_file st) else concat (map np_data (nq_list (ns_persistent st))))"

text \<open>What every step of the track code keeps of the state.\<close>

definition output_ok :: "native_state \<Rightarrow> bool" where
  "output_ok st \<longleftrightarrow> ns_file st \<noteq> None \<and> queue_ok (ns_next st) (ns_persistent st)"

definition track_frame :: "native_state \<Rightarrow> native_state \<Rightarrow> bool" where
  "track_frame st st' \<longleftrightarrow> ns_salt st' = ns_salt st \<and> ns_tracks st' = ns_tracks st \<and>
     ns_track_capacity st' = ns_track_capacity st \<and> (output_ok st \<longrightarrow> output_ok st') \<and> (ns_failed st \<longrightarrow> ns_failed st')"

lemma write_packet_output:
  assumes "output_ok st" and "built packet d"
  shows "track_frame st (native_write_packet mem packet st) \<and>
     ns_sequence_started (native_write_packet mem packet st) = ns_sequence_started st \<and>
     (\<not> ns_failed (native_write_packet mem packet st) \<longrightarrow>
        untimed_output (native_write_packet mem packet st) = untimed_output st @ field_bytes (PBytes 1 d))"
proof -
  define trace where "trace = proto_message mem 1 packet proto_empty"
  have t: "built trace (field_bytes (PBytes 1 d))"
    using built_message [OF assms(2) built_empty, of mem 1] by (simp add: trace_def)
  obtain c where c: "ns_file st = Some c"
    using assms(1) by (auto simp: output_ok_def)
  have q: "queue_ok (ns_next st) (ns_persistent st)"
    using assms(1) by (simp add: output_ok_def)
  consider (stop) "ns_failed st" | (broken) "\<not> ns_failed st" "pb_failed trace"
    | (direct) "\<not> ns_failed st" "\<not> pb_failed trace" "ns_window st = 0"
    | (ring) "\<not> ns_failed st" "\<not> pb_failed trace" "ns_window st \<noteq> 0"
    by blast
  then show ?thesis
  proof cases
    case ring
    then show ?thesis
      using c q t queue_append_ok [OF q, of mem]
      by (auto simp: native_write_packet_def native_write_packet_at_def trace_def [symmetric] Let_def track_frame_def
          output_ok_def untimed_output_def built_def split: option.splits)
  qed (use c q t in \<open>auto simp: native_write_packet_def native_write_packet_at_def trace_def [symmetric] Let_def
          track_frame_def output_ok_def untimed_output_def built_def native_fwrite_def split: prod.splits\<close>)
qed

lemma descriptor_output:
  assumes "output_ok st"
  shows "track_frame st (native_descriptor mem uuid name parent kind tgid tid st) \<and>
     ns_sequence_started (native_descriptor mem uuid name parent kind tgid tid st) \<and>
     (\<not> ns_failed (native_descriptor mem uuid name parent kind tgid tid st) \<longrightarrow>
        untimed_output (native_descriptor mem uuid name parent kind tgid tid st) =
        untimed_output st @ desc_frame (\<not> ns_sequence_started st) \<lparr>td_uuid = uuid, td_name = name, td_parent = parent,
          td_kind = kind, td_tgid = tgid, td_tid = tid\<rparr>)"
proof -
  define d where "d = \<lparr>td_uuid = uuid, td_name = name, td_parent = parent, td_kind = kind, td_tgid = tgid, td_tid = tid\<rparr>"
  obtain packet st1 where seq: "native_sequence_packet mem proto_empty st = (packet, st1)"
    by fastforce
  define d3 where "d3 =
     (let d1 = proto_string mem 2 (Some name) (proto_uint mem 1 uuid proto_empty);
          d2 = (if parent \<noteq> 0 then proto_uint mem 5 parent d1 else d1) in
      if kind = NATIVE_TRACK_PROCESS
      then proto_message mem 3 (proto_string mem 6 (Some name) (proto_uint mem 1 (ucast tgid) proto_empty)) d2
      else if kind = NATIVE_TRACK_THREAD
      then proto_message mem 4 (proto_string mem 5 (Some name)
             (proto_uint mem 2 (ucast tid) (proto_uint mem 1 (ucast tgid) proto_empty))) d2
      else d2)"
  have st1: "track_frame st st1" "output_ok st1" "ns_sequence_started st1" "untimed_output st1 = untimed_output st"
    using seq assms by (auto simp: native_sequence_packet_def Let_def track_frame_def output_ok_def untimed_output_def split: if_splits)
  have p: "built packet (concat (map field_bytes (PUint 10 NATIVE_PACKET_SEQUENCE_ID # (if ns_sequence_started st then [] else [PUint 13 1]))))"
    using seq built_field(1) [OF built_empty, of mem 10 NATIVE_PACKET_SEQUENCE_ID]
      built_field(1) [OF built_field(1) [OF built_empty, of mem 10 NATIVE_PACKET_SEQUENCE_ID], of mem 13 1]
    by (auto simp: native_sequence_packet_def Let_def split: if_splits)
  have d1: "built (proto_string mem 2 (Some name) (proto_uint mem 1 uuid proto_empty))
      (concat (map field_bytes [PUint 1 uuid, PBytes 2 name]))"
    using built_field(2) [OF built_field(1) [OF built_empty, of mem 1 uuid], of mem 2 name] by simp
  have d2: "built (if parent \<noteq> 0 then proto_uint mem 5 parent (proto_string mem 2 (Some name) (proto_uint mem 1 uuid proto_empty))
        else proto_string mem 2 (Some name) (proto_uint mem 1 uuid proto_empty))
      (concat (map field_bytes ([PUint 1 uuid, PBytes 2 name] @ (if parent \<noteq> 0 then [PUint 5 parent] else []))))"
    using d1 built_field(1) [OF d1, of mem 5 parent] by simp
  have op: "built (proto_string mem 6 (Some name) (proto_uint mem 1 (ucast tgid) proto_empty))
      (concat (map field_bytes [PUint 1 (ucast tgid), PBytes 6 name]))"
    using built_field(2) [OF built_field(1) [OF built_empty, of mem 1 "ucast tgid"], of mem 6 name] by simp
  have ot: "built (proto_string mem 5 (Some name) (proto_uint mem 2 (ucast tid) (proto_uint mem 1 (ucast tgid) proto_empty)))
      (concat (map field_bytes [PUint 1 (ucast tgid), PUint 2 (ucast tid), PBytes 5 name]))"
    using built_field(2) [OF built_field(1) [OF built_field(1) [OF built_empty, of mem 1 "ucast tgid"], of mem 2 "ucast tid"], of mem 5 name]
    by simp
  have d3: "built d3 (concat (map field_bytes (desc_fields d)))"
    using d2 built_message [OF op d2, of mem 3] built_message [OF ot d2, of mem 4]
    by (cases "parent = 0"; cases kind) (simp_all add: d3_def Let_def desc_fields_def owner_fields_def d_def)
  have "built (proto_message mem 60 d3 packet) (concat (map field_bytes (desc_packet (\<not> ns_sequence_started st) d)))"
    using built_message [OF d3 p, of mem 60] by (cases "ns_sequence_started st") (simp_all add: desc_packet_def)
  moreover have "native_descriptor mem uuid name parent kind tgid tid st = native_write_packet mem (proto_message mem 60 d3 packet) st1"
    using seq by (simp add: native_descriptor_def d3_def Let_def)
  ultimately show ?thesis
    using write_packet_output [OF st1(2), of "proto_message mem 60 d3 packet" _ mem] st1
    unfolding d_def [symmetric] desc_frame_def track_frame_def by (metis (no_types, lifting))
qed


section \<open>The table and the descriptors agree\<close>

text \<open>
  Parents come first, and the links follow the identifiers: a thread hangs below its process, a
  connection attempt below its thread, a socket below its process or nothing.
\<close>

definition parent_ok :: "u64 \<Rightarrow> track_desc \<Rightarrow> bool" where
  "parent_ok salt d \<longleftrightarrow>
     (case td_kind d of
        NATIVE_TRACK_THREAD \<Rightarrow> td_parent d = native_uuid salt (cstr ''process'') (ucast (td_tgid d)) 0
      | NATIVE_TRACK_CONNECT \<Rightarrow>
          td_parent d = native_uuid salt (cstr ''thread'') (ucast (td_tgid d)) (ucast (td_tid d))
      | NATIVE_TRACK_SOCKET \<Rightarrow>
          td_parent d = (if td_tgid d = 0 then 0 else native_uuid salt (cstr ''process'') (ucast (td_tgid d)) 0)
      | _ \<Rightarrow> td_parent d = 0)"

definition desc_uuids :: "track_desc list \<Rightarrow> u64 set" where
  "desc_uuids ds = td_uuid ` set ds"

definition track_inv :: "native_state \<Rightarrow> track_desc list \<Rightarrow> bool" where
  "track_inv st ds \<longleftrightarrow>
     output_ok st \<and> length (ns_tracks st) \<le> ns_track_capacity st \<and>
     map nt_uuid (ns_tracks st) = map td_uuid ds \<and> map nt_kind (ns_tracks st) = map td_kind ds \<and>
     distinct (map td_uuid ds) \<and> list_all (parent_ok (ns_salt st)) ds \<and>
     (\<forall>i < length ds. td_parent (ds ! i) \<noteq> 0 \<longrightarrow> td_parent (ds ! i) \<in> desc_uuids (take i ds)) \<and>
     ns_sequence_started st = (ds \<noteq> []) \<and>
     untimed_output st = concat (map (\<lambda>i. desc_frame (i = 0) (ds ! i)) [0..<length ds])"

lemma find_track_loop_None: "find_track_loop u i ts = None \<longleftrightarrow> u \<notin> nt_uuid ` set ts"
  by (induction ts arbitrary: i) auto

lemma find_track_loop_Some:
  "find_track_loop u i ts = Some j \<Longrightarrow> i \<le> j \<and> j - i < length ts \<and> nt_uuid (ts ! (j - i)) = u"
proof (induction ts arbitrary: i)
  case (Cons t ts)
  then show ?case
    by (auto split: if_splits simp: nth_Cons' Suc_diff_le dest!: Cons.IH [of "Suc i"])
qed simp

lemma find_track_inv:
  assumes "track_inv st ds"
  shows "native_find_track u st = None \<longleftrightarrow> u \<notin> desc_uuids ds"
    and "native_find_track u st = Some i \<Longrightarrow> i < length (ns_tracks st) \<and> nt_uuid (ns_tracks st ! i) = u \<and> u \<in> desc_uuids ds"
proof -
  have s: "nt_uuid ` set (ns_tracks st) = desc_uuids ds"
    using assms unfolding track_inv_def desc_uuids_def by (metis list.set_map)
  show "native_find_track u st = None \<longleftrightarrow> u \<notin> desc_uuids ds"
    unfolding native_find_track_def find_track_loop_None s ..
  assume "native_find_track u st = Some i"
  from find_track_loop_Some [OF this [unfolded native_find_track_def]]
  show "i < length (ns_tracks st) \<and> nt_uuid (ns_tracks st ! i) = u \<and> u \<in> desc_uuids ds"
    using s by auto
qed

definition new_track ::
    "allocator \<Rightarrow> u64 \<Rightarrow> bytes \<Rightarrow> u64 \<Rightarrow> track_kind \<Rightarrow> u32 \<Rightarrow> u32 \<Rightarrow> u64 \<Rightarrow> native_state \<Rightarrow> nat option \<times> native_state" where
  "new_track mem uuid name parent kind tgid tid object st =
     (case native_add_track mem uuid object kind st of
        (None, st1) \<Rightarrow> (None, st1)
      | (Some i, st1) \<Rightarrow> (Some i, native_descriptor mem uuid name parent kind tgid tid st1))"

text \<open>
  The outcome of a request: either the export has failed, or the request returned the track of the
  identifier and the table was extended by descriptors.
\<close>

definition track_result :: "native_state \<Rightarrow> track_desc list \<Rightarrow> u64 \<Rightarrow> u64 set \<Rightarrow> nat option \<times> native_state \<Rightarrow> bool" where
  "track_result st ds uuid U r \<longleftrightarrow>
     ns_salt (snd r) = ns_salt st \<and> output_ok (snd r) \<and> (ns_failed st \<longrightarrow> ns_failed (snd r)) \<and>
     (ns_failed (snd r) \<or>
      (\<exists>ds' i. track_inv (snd r) (ds @ ds') \<and> desc_uuids ds' \<subseteq> U \<and> fst r = Some i \<and> i < length (ns_tracks (snd r)) \<and>
         nt_uuid (ns_tracks (snd r) ! i) = uuid \<and> uuid \<in> desc_uuids (ds @ ds')))"

lemma track_result_found:
  "track_inv st ds \<Longrightarrow> native_find_track u st = Some i \<Longrightarrow> track_result st ds u U (Some i, st)"
  using find_track_inv(2) [of st ds u i] unfolding track_result_def
  by (intro conjI impI disjI2 exI [of _ "[]"] exI [of _ i]) (simp_all add: track_inv_def desc_uuids_def)

lemma track_inv_new:
  assumes inv: "track_inv st ds" and new: "td_uuid d \<notin> desc_uuids ds"
    and par: "td_parent d = 0 \<or> td_parent d \<in> desc_uuids ds" "parent_ok (ns_salt st) d"
    and st': "ns_salt st' = ns_salt st" "output_ok st'" "length (ns_tracks st') \<le> ns_track_capacity st'"
      "ns_sequence_started st'"
      "ns_tracks st' = ns_tracks st @ [t]" "nt_uuid t = td_uuid d" "nt_kind t = td_kind d"
      "untimed_output st' = untimed_output st @ desc_frame (ds = []) d"
  shows "track_inv st' (ds @ [d])"
proof -
  have m: "map (\<lambda>i. desc_frame (i = 0) ((ds @ [d]) ! i)) [0..<length ds] = map (\<lambda>i. desc_frame (i = 0) (ds ! i)) [0..<length ds]"
    by (auto simp: nth_append)
  have out: "untimed_output st' = concat (map (\<lambda>i. desc_frame (i = 0) ((ds @ [d]) ! i)) [0..<length (ds @ [d])])"
    using st'(8) inv by (auto simp: track_inv_def m simp del: map_eq_conv)
  have parents: "td_parent ((ds @ [d]) ! i) \<in> desc_uuids (take i (ds @ [d]))"
    if "i < length (ds @ [d])" "td_parent ((ds @ [d]) ! i) \<noteq> 0" for i
  proof (cases "i = length ds")
    case True
    then show ?thesis
      using that par by simp
  next
    case False
    then have "i < length ds"
      using that by simp
    then show ?thesis
      using that inv by (simp add: nth_append track_inv_def)
  qed
  show ?thesis
    using inv new par st' out parents unfolding track_inv_def by (simp add: desc_uuids_def)
qed

lemma new_track_result:
  assumes ok: "output_ok st"
    and inv: "\<not> ns_failed st \<Longrightarrow> track_inv st ds \<and> uuid \<notin> desc_uuids ds \<and> (parent = 0 \<or> parent \<in> desc_uuids ds) \<and>
      parent_ok (ns_salt st) \<lparr>td_uuid = uuid, td_name = name, td_parent = parent, td_kind = kind, td_tgid = tgid, td_tid = tid\<rparr>"
  shows "track_result st ds uuid {uuid} (new_track mem uuid name parent kind tgid tid object st)"
proof (cases "fst (native_add_track mem uuid object kind st)")
  case None
  then show ?thesis
    using ok by (auto simp: new_track_def native_add_track_def Let_def track_result_def output_ok_def split: if_splits)
next
  case (Some i)
  define t where "t = \<lparr>nt_uuid = uuid, nt_object = object, nt_kind = kind, nt_active = False\<rparr>"
  define d where "d = \<lparr>td_uuid = uuid, td_name = name, td_parent = parent, td_kind = kind, td_tgid = tgid, td_tid = tid\<rparr>"
  obtain st1 where add: "native_add_track mem uuid object kind st = (Some i, st1)"
    using Some by (metis prod.collapse)
  have st1: "i = length (ns_tracks st)" "ns_tracks st1 = ns_tracks st @ [t]" "ns_salt st1 = ns_salt st" "output_ok st1"
      "untimed_output st1 = untimed_output st" "ns_sequence_started st1 = ns_sequence_started st" "ns_failed st1 = ns_failed st"
      "length (ns_tracks st) \<le> ns_track_capacity st \<Longrightarrow> length (ns_tracks st1) \<le> ns_track_capacity st1"
    using add ok by (auto simp: native_add_track_def Let_def t_def output_ok_def untimed_output_def split: if_splits)
  define st2 where "st2 = native_descriptor mem uuid name parent kind tgid tid st1"
  have st2: "ns_salt st2 = ns_salt st" "output_ok st2" "ns_failed st \<Longrightarrow> ns_failed st2" "ns_tracks st2 = ns_tracks st @ [t]"
      "ns_track_capacity st2 = ns_track_capacity st1" "ns_sequence_started st2"
      "\<not> ns_failed st2 \<Longrightarrow> untimed_output st2 = untimed_output st @ desc_frame (\<not> ns_sequence_started st) d"
    using descriptor_output [OF st1(4), of mem uuid name parent kind tgid tid] st1
    by (simp_all add: track_frame_def st2_def d_def)
  have r: "new_track mem uuid name parent kind tgid tid object st = (Some i, st2)"
    by (simp add: new_track_def add st2_def)
  show ?thesis
  proof (cases "ns_failed st2")
    case True
    then show ?thesis
      using st2 by (simp add: r track_result_def)
  next
    case False
    then have "\<not> ns_failed st"
      using st2(3) by blast
    from inv [OF this] have inv': "track_inv st ds" "td_uuid d \<notin> desc_uuids ds" "td_parent d = 0 \<or> td_parent d \<in> desc_uuids ds"
        "parent_ok (ns_salt st) d"
      by (simp_all add: d_def)
    have "track_inv st2 (ds @ [d])"
      by (rule track_inv_new [OF inv', of st2 t]) (use False st2 st1 inv'(1) in \<open>simp_all add: track_inv_def t_def d_def\<close>)
    moreover have "desc_uuids [d] \<subseteq> {uuid}" "uuid \<in> desc_uuids (ds @ [d])"
      by (simp_all add: desc_uuids_def d_def)
    moreover have "nt_uuid (ns_tracks st2 ! i) = uuid" "i < length (ns_tracks st2)"
      using st1(1) st2(4) by (simp_all add: t_def)
    ultimately show ?thesis
      using st2 unfolding r track_result_def fst_conv snd_conv by blast
  qed
qed

text \<open>A child is requested after its parent.\<close>

lemma child_track_result:
  assumes par: "track_result st ds p U (Some j, st1)" and new: "uuid \<notin> desc_uuids ds" "uuid \<notin> U"
    and ok: "parent_ok (ns_salt st) \<lparr>td_uuid = uuid, td_name = name, td_parent = p, td_kind = kind, td_tgid = tgid, td_tid = tid\<rparr>"
  shows "track_result st ds uuid (insert uuid U) (new_track mem uuid name (nt_uuid (ns_tracks st1 ! j)) kind tgid tid object st1)"
proof (cases "ns_failed st1")
  case True
  then have "track_result st1 ds uuid {uuid} (new_track mem uuid name (nt_uuid (ns_tracks st1 ! j)) kind tgid tid object st1)"
    using par by (intro new_track_result) (simp_all add: track_result_def)
  then show ?thesis
    using True par by (simp add: track_result_def)
next
  case False
  then obtain ds' where d: "track_inv st1 (ds @ ds')" "desc_uuids ds' \<subseteq> U" "nt_uuid (ns_tracks st1 ! j) = p" "p \<in> desc_uuids (ds @ ds')"
      "ns_salt st1 = ns_salt st" "output_ok st1"
    using par by (auto simp: track_result_def)
  have "uuid \<notin> desc_uuids (ds @ ds')"
    using new d(2) by (auto simp: desc_uuids_def)
  then have r: "track_result st1 (ds @ ds') uuid {uuid} (new_track mem uuid name (nt_uuid (ns_tracks st1 ! j)) kind tgid tid object st1)"
    using d ok by (intro new_track_result) simp_all
  define r where "r = new_track mem uuid name (nt_uuid (ns_tracks st1 ! j)) kind tgid tid object st1"
  show ?thesis
  proof (cases "ns_failed (snd r)")
    case True
    then show ?thesis
      using r d(5) unfolding r_def [symmetric] by (simp add: track_result_def)
  next
    case fine: False
    then obtain es i where e: "track_inv (snd r) (ds @ ds' @ es)" "desc_uuids es \<subseteq> {uuid}" "fst r = Some i"
        "i < length (ns_tracks (snd r))" "nt_uuid (ns_tracks (snd r) ! i) = uuid" "uuid \<in> desc_uuids (ds @ ds' @ es)"
      using r unfolding r_def [symmetric] by (auto simp: track_result_def)
    have "desc_uuids (ds' @ es) \<subseteq> insert uuid U"
      using e(2) d(2) by (auto simp: desc_uuids_def)
    moreover have "ns_salt (snd r) = ns_salt st" "output_ok (snd r)" "\<not> ns_failed st"
      using r d(5) False par unfolding r_def [symmetric] by (auto simp: track_result_def)
    ultimately show ?thesis
      using e unfolding r_def [symmetric] track_result_def
      by (intro conjI impI disjI2 exI [of _ "ds' @ es"] exI [of _ i]) simp_all
  qed
qed

section \<open>Every request\<close>

text \<open>The operations are the common pattern: look up, then the parent, then the new track.\<close>

lemma process_track_result:
  assumes "track_inv st ds" and u: "u = native_uuid (ns_salt st) (cstr ''process'') (ucast tgid) 0"
  shows "track_result st ds u {u} (native_process_track mem tgid task st)"
proof (cases "native_find_track u st")
  case (Some i)
  then show ?thesis
    using track_result_found [OF assms(1) Some] by (simp add: native_process_track_def u)
next
  case None
  have "native_process_track mem tgid task st =
      new_track mem u (task_or task (print_u ''pid '' tgid)) 0 NATIVE_TRACK_PROCESS tgid 0 (ucast tgid) st"
    using None by (simp add: native_process_track_def new_track_def u [symmetric] Let_def)
  then show ?thesis
    using assms None find_track_inv(1) [OF assms(1), of u] new_track_result [of st ds u 0]
    by (simp add: track_inv_def parent_ok_def)
qed

lemma thread_track_result:
  assumes "track_inv st ds" and p: "p = native_uuid (ns_salt st) (cstr ''process'') (ucast tgid) 0"
    and u: "u = native_uuid (ns_salt st) (cstr ''thread'') (ucast tgid) (ucast tid)" and "u \<noteq> p"
  shows "track_result st ds u {u, p} (native_thread_track mem tgid tid task st)"
proof (cases "native_find_track u st")
  case (Some i)
  then show ?thesis
    using track_result_found [OF assms(1) Some] by (simp add: native_thread_track_def u)
next
  case None
  have par: "track_result st ds p {p} (native_process_track mem tgid task st)"
    by (rule process_track_result [OF assms(1) p])
  obtain j st1 where pt: "native_process_track mem tgid task st = (j, st1)"
    by fastforce
  show ?thesis
  proof (cases j)
    case None': None
    then show ?thesis
      using None par pt by (auto simp: native_thread_track_def track_result_def u [symmetric] Let_def)
  next
    case (Some i)
    have "native_thread_track mem tgid tid task st =
        new_track mem u (task_or task (print_u ''tid '' tid)) (nt_uuid (ns_tracks st1 ! i)) NATIVE_TRACK_THREAD tgid tid
          (push_bit 32 (ucast tgid) OR ucast tid) st1"
      using None Some pt by (simp add: native_thread_track_def new_track_def u [symmetric] Let_def)
    then show ?thesis
      using child_track_result [of st ds p "{p}" i st1 u] par pt Some None find_track_inv(1) [OF assms(1), of u] assms(4)
      by (simp add: parent_ok_def p)
  qed
qed

lemma socket_track_result:
  assumes "track_inv st ds" and p: "p = native_uuid (ns_salt st) (cstr ''process'') (ucast tgid) 0"
    and u: "u = native_uuid (ns_salt st) (cstr ''socket'') sid 0" and "u \<noteq> p"
  shows "track_result st ds u {u, p} (native_socket_track mem sid tgid task st)"
proof (cases "native_find_track u st")
  case (Some i)
  then show ?thesis
    using track_result_found [OF assms(1) Some] by (simp add: native_socket_track_def u)
next
  case None
  have new: "u \<notin> desc_uuids ds"
    using None find_track_inv(1) [OF assms(1), of u] by simp
  show ?thesis
  proof (cases "tgid = 0")
    case True
    have "native_socket_track mem sid tgid task st =
        new_track mem u (print_low32 ''socket '' sid) 0 NATIVE_TRACK_SOCKET tgid 0 sid st"
      using None True by (simp add: native_socket_track_def new_track_def u [symmetric] Let_def)
    moreover have "track_result st ds u {u} (new_track mem u (print_low32 ''socket '' sid) 0 NATIVE_TRACK_SOCKET tgid 0 sid st)"
      using assms(1) new True by (intro new_track_result) (simp_all add: track_inv_def parent_ok_def)
    ultimately show ?thesis
      unfolding track_result_def by auto
  next
    case False
    have par: "track_result st ds p {p} (native_process_track mem tgid task st)"
      by (rule process_track_result [OF assms(1) p])
    obtain j st1 where pt: "native_process_track mem tgid task st = (j, st1)"
      by fastforce
    show ?thesis
    proof (cases j)
      case None': None
      then show ?thesis
        using None par pt False by (auto simp: native_socket_track_def track_result_def u [symmetric] Let_def)
    next
      case (Some i)
      have "native_socket_track mem sid tgid task st =
          new_track mem u (print_low32 ''socket '' sid) (nt_uuid (ns_tracks st1 ! i)) NATIVE_TRACK_SOCKET tgid 0 sid st1"
        using None Some pt False by (simp add: native_socket_track_def new_track_def u [symmetric] Let_def)
      then show ?thesis
        using child_track_result [of st ds p "{p}" i st1 u] par pt Some new assms(4) False
        by (simp add: parent_ok_def p)
    qed
  qed
qed

lemma connect_track_result:
  assumes "track_inv st ds" and p: "p = native_uuid (ns_salt st) (cstr ''process'') (ucast tgid) 0"
    and t: "t = native_uuid (ns_salt st) (cstr ''thread'') (ucast tgid) (ucast tid)"
    and u: "u = native_uuid (ns_salt st) (cstr ''connect'') aid 0" and d: "distinct [u, t, p]"
  shows "track_result st ds u {u, t, p} (native_connect_track mem aid tgid tid task st)"
proof (cases "native_find_track u st")
  case (Some i)
  then show ?thesis
    using track_result_found [OF assms(1) Some] by (simp add: native_connect_track_def u)
next
  case None
  have par: "track_result st ds t {t, p} (native_thread_track mem tgid tid task st)"
    by (rule thread_track_result [OF assms(1) p t]) (use d in simp)
  obtain j st1 where pt: "native_thread_track mem tgid tid task st = (j, st1)"
    by fastforce
  show ?thesis
  proof (cases j)
    case None': None
    then show ?thesis
      using None par pt by (auto simp: native_connect_track_def track_result_def u [symmetric] Let_def)
  next
    case (Some i)
    have "native_connect_track mem aid tgid tid task st =
        new_track mem u (print_low32 ''connect '' aid) (nt_uuid (ns_tracks st1 ! i)) NATIVE_TRACK_CONNECT tgid tid aid st1"
      using None Some pt by (simp add: native_connect_track_def new_track_def u [symmetric] Let_def)
    then show ?thesis
      using child_track_result [of st ds t "{t, p}" i st1 u] par pt Some None find_track_inv(1) [OF assms(1), of u] d
      by (simp add: parent_ok_def t)
  qed
qed

lemma global_track_result:
  assumes "track_inv st ds" and u: "u = native_uuid (ns_salt st) (cstr ''global'') 0 0"
  shows "track_result st ds u {u} (native_global_track mem st)"
proof (cases "native_find_track u st")
  case (Some i)
  then show ?thesis
    using track_result_found [OF assms(1) Some] by (simp add: native_global_track_def u)
next
  case None
  have "native_global_track mem st = new_track mem u (cstr ''Anettrace metadata'') 0 NATIVE_TRACK_GLOBAL 0 0 0 st"
    using None by (simp add: native_global_track_def new_track_def u [symmetric] Let_def)
  then show ?thesis
    using assms None find_track_inv(1) [OF assms(1), of u] new_track_result [of st ds u 0]
    by (simp add: track_inv_def parent_ok_def)
qed

section \<open>Sequences of requests\<close>

datatype track_request =
    Process_request u32 "bytes option"
  | Thread_request u32 u32 "bytes option"
  | Socket_request u64 u32 "bytes option"
  | Connect_request u64 u32 u32 "bytes option"
  | Global_request

fun request_track :: "allocator \<Rightarrow> track_request \<Rightarrow> native_state \<Rightarrow> nat option \<times> native_state" where
  "request_track mem (Process_request tgid task) st = native_process_track mem tgid task st"
| "request_track mem (Thread_request tgid tid task) st = native_thread_track mem tgid tid task st"
| "request_track mem (Socket_request sid tgid task) st = native_socket_track mem sid tgid task st"
| "request_track mem (Connect_request aid tgid tid task) st = native_connect_track mem aid tgid tid task st"
| "request_track mem Global_request st = native_global_track mem st"

text \<open>The identifiers a request may create, its own first.\<close>

fun request_uuids :: "u64 \<Rightarrow> track_request \<Rightarrow> u64 list" where
  "request_uuids salt (Process_request tgid task) = [native_uuid salt (cstr ''process'') (ucast tgid) 0]"
| "request_uuids salt (Thread_request tgid tid task) =
     [native_uuid salt (cstr ''thread'') (ucast tgid) (ucast tid), native_uuid salt (cstr ''process'') (ucast tgid) 0]"
| "request_uuids salt (Socket_request sid tgid task) =
     [native_uuid salt (cstr ''socket'') sid 0, native_uuid salt (cstr ''process'') (ucast tgid) 0]"
| "request_uuids salt (Connect_request aid tgid tid task) =
     [native_uuid salt (cstr ''connect'') aid 0, native_uuid salt (cstr ''thread'') (ucast tgid) (ucast tid),
      native_uuid salt (cstr ''process'') (ucast tgid) 0]"
| "request_uuids salt Global_request = [native_uuid salt (cstr ''global'') 0 0]"

definition track_run :: "allocator \<Rightarrow> track_request list \<Rightarrow> native_state \<Rightarrow> native_state" where
  "track_run mem rs st = fold (\<lambda>r st. snd (request_track mem r st)) rs st"

definition track_start :: "nat \<Rightarrow> u64 \<Rightarrow> u64 \<Rightarrow> native_state" where
  "track_start limit window salt = (native_ring_start limit window)\<lparr>ns_salt := salt\<rparr>"

lemma request_result:
  assumes "track_inv st ds" and "distinct (request_uuids (ns_salt st) r)"
  shows "\<exists>U. track_result st ds (hd (request_uuids (ns_salt st) r)) U (request_track mem r st)"
proof (cases r)
  case (Process_request tgid task)
  then show ?thesis
    using process_track_result [OF assms(1) refl] by auto
next
  case (Thread_request tgid tid task)
  then show ?thesis
    using thread_track_result [OF assms(1) refl refl] assms(2) by simp blast
next
  case (Socket_request sid tgid task)
  then show ?thesis
    using socket_track_result [OF assms(1) refl refl] assms(2) by simp blast
next
  case (Connect_request aid tgid tid task)
  then show ?thesis
    using connect_track_result [OF assms(1) refl refl refl] assms(2) by simp blast
next
  case Global_request
  then show ?thesis
    using global_track_result [OF assms(1) refl] by auto
qed

lemma write_packet_failed: "ns_failed st \<Longrightarrow> native_write_packet mem p st = st"
  by (simp add: native_write_packet_def native_write_packet_at_def)

lemma descriptor_failed: "ns_failed st \<Longrightarrow> ns_failed (native_descriptor mem u n p k g t st)"
  by (auto simp: native_descriptor_def native_sequence_packet_def Let_def write_packet_failed)

lemma add_track_failed: "ns_failed st \<Longrightarrow> ns_failed (snd (native_add_track mem u ob k st))"
  by (auto simp: native_add_track_def Let_def)

lemma process_failed: "ns_failed st \<Longrightarrow> ns_failed (snd (native_process_track mem g task st))"
  using add_track_failed [of st mem]
  by (auto simp: native_process_track_def Let_def split: option.splits prod.splits intro!: descriptor_failed) (metis snd_conv)+

lemma thread_failed: "ns_failed st \<Longrightarrow> ns_failed (snd (native_thread_track mem g t task st))"
  using process_failed [of st mem g task] add_track_failed [of _ mem]
  by (auto simp: native_thread_track_def Let_def split: option.splits prod.splits intro!: descriptor_failed) (metis snd_conv)+

lemma request_failed: "ns_failed st \<Longrightarrow> ns_failed (snd (request_track mem r st))"
proof (cases r)
  case (Socket_request sid tgid task)
  moreover assume "ns_failed st"
  ultimately show ?thesis
    using process_failed [of st mem tgid task] add_track_failed [of _ mem]
    by (auto simp: native_socket_track_def Let_def split: option.splits prod.splits if_splits intro!: descriptor_failed) (metis snd_conv)+
next
  case (Connect_request aid tgid tid task)
  moreover assume "ns_failed st"
  ultimately show ?thesis
    using thread_failed [of st mem tgid tid task] add_track_failed [of _ mem]
    by (auto simp: native_connect_track_def Let_def split: option.splits prod.splits intro!: descriptor_failed) (metis snd_conv)+
next
  case Global_request
  moreover assume "ns_failed st"
  ultimately show ?thesis
    using add_track_failed [of st mem]
    by (auto simp: native_global_track_def Let_def split: option.splits prod.splits intro!: descriptor_failed) (metis snd_conv)+
qed (auto simp: process_failed thread_failed)

lemma run_failed: "ns_failed st \<Longrightarrow> ns_failed (track_run mem rs st)"
  unfolding track_run_def by (induction rs arbitrary: st) (auto simp: request_failed)

lemma track_run_inv:
  assumes "track_inv st ds" and "\<forall>r \<in> set rs. distinct (request_uuids (ns_salt st) r)"
    and "\<not> ns_failed (track_run mem rs st)"
  shows "\<exists>ds'. track_inv (track_run mem rs st) (ds @ ds') \<and> ns_salt (track_run mem rs st) = ns_salt st \<and>
     (\<forall>r \<in> set rs. hd (request_uuids (ns_salt st) r) \<in> desc_uuids (ds @ ds'))"
  using assms
proof (induction rs arbitrary: st ds)
  case Nil
  then show ?case
    by (intro exI [of _ "[]"]) (simp add: track_run_def)
next
  case (Cons r rs)
  define st1 where "st1 = snd (request_track mem r st)"
  have run: "track_run mem (r # rs) st = track_run mem rs st1"
    by (simp add: track_run_def st1_def)
  have fine: "\<not> ns_failed st1"
    using run_failed [of st1 mem rs] Cons.prems(3) run by auto
  obtain U where "track_result st ds (hd (request_uuids (ns_salt st) r)) U (request_track mem r st)"
    using request_result [OF Cons.prems(1)] Cons.prems(2) by fastforce
  then obtain ds1 where d1: "track_inv st1 (ds @ ds1)" "ns_salt st1 = ns_salt st"
      "hd (request_uuids (ns_salt st) r) \<in> desc_uuids (ds @ ds1)"
    using fine by (auto simp: track_result_def st1_def)
  obtain ds2 where d2: "track_inv (track_run mem rs st1) ((ds @ ds1) @ ds2)" "ns_salt (track_run mem rs st1) = ns_salt st1"
      "\<forall>r \<in> set rs. hd (request_uuids (ns_salt st1) r) \<in> desc_uuids ((ds @ ds1) @ ds2)"
    using Cons.IH [OF d1(1)] Cons.prems(2,3) d1(2) run by auto
  show ?case
    using d1 d2 unfolding run by (intro exI [of _ "ds1 @ ds2"]) (auto simp: desc_uuids_def)
qed

lemma request_found:
  assumes "native_find_track (hd (request_uuids (ns_salt st) r)) st = Some i"
  shows "request_track mem r st = (Some i, st)"
  using assms
  by (cases r) (simp_all add: native_process_track_def native_thread_track_def native_socket_track_def native_connect_track_def
      native_global_track_def)

lemma track_inv_start: "track_inv (track_start limit window salt) []"
  by (simp add: track_inv_def track_start_def native_ring_start_def output_ok_def queue_ok_def native_queue_empty_def
      queue_tail_def untimed_output_def)

text \<open>
  C15. Tracks are described exactly once.  After any sequence of track requests on a fresh exporter,
  with or without a ring window, if nothing failed: the table holds the described tracks with
  distinct identifiers; each parent is described before its children, and is the process of a thread
  or owned socket and the thread of a connection attempt; the untimed output consists of one
  descriptor packet per track, in order, with the first one opening the sequence; and repeating any
  of the requests returns its track and writes nothing.  The hypothesis excludes a collision of the
  hashes within one request.
\<close>

theorem native_tracks_described_once:
  assumes "\<forall>r \<in> set rs. distinct (request_uuids salt r)"
    and "st = track_run mem rs (track_start limit window salt)" and "\<not> ns_failed st"
  shows "\<exists>ds. map nt_uuid (ns_tracks st) = map td_uuid ds \<and> map nt_kind (ns_tracks st) = map td_kind ds \<and>
     distinct (map td_uuid ds) \<and> list_all (parent_ok salt) ds \<and>
     (\<forall>i < length ds. td_parent (ds ! i) \<noteq> 0 \<longrightarrow> td_parent (ds ! i) \<in> desc_uuids (take i ds)) \<and>
     untimed_output st = concat (map (\<lambda>i. desc_frame (i = 0) (ds ! i)) [0..<length ds]) \<and>
     (\<forall>r \<in> set rs. \<exists>i. request_track mem' r st = (Some i, st) \<and> i < length (ns_tracks st) \<and>
        nt_uuid (ns_tracks st ! i) = hd (request_uuids salt r))"
proof -
  let ?st = "track_start limit window salt"
  have "ns_salt ?st = salt"
    by (simp add: track_start_def)
  then obtain ds where ds: "track_inv st ds" "ns_salt st = salt" "\<forall>r \<in> set rs. hd (request_uuids salt r) \<in> desc_uuids ds"
    using track_run_inv [OF track_inv_start [of limit window salt], of rs mem] assms by auto
  have "\<exists>i. request_track mem' r st = (Some i, st) \<and> i < length (ns_tracks st) \<and>
        nt_uuid (ns_tracks st ! i) = hd (request_uuids salt r)" if r: "r \<in> set rs" for r
  proof -
    obtain i where i: "native_find_track (hd (request_uuids salt r)) st = Some i"
      using find_track_inv(1) [OF ds(1)] ds(3) r by (metis not_None_eq)
    then show ?thesis
      using find_track_inv(2) [OF ds(1) i] request_found [of st r i mem'] ds(2) by auto
  qed
  then show ?thesis
    using ds unfolding track_inv_def by (intro exI [of _ ds]) simp
qed

definition track_demo :: "track_request list" where
  "track_demo = [Socket_request 7 42 None, Thread_request 42 43 (Some (cstr ''curl'')), Global_request]"


theorem native_tracks_described_once_witness:
  "\<exists>ds. map nt_uuid (ns_tracks (track_run (\<lambda>_. True) track_demo (track_start 4096 0 5))) = map td_uuid ds \<and>
     map td_kind ds = [NATIVE_TRACK_PROCESS, NATIVE_TRACK_SOCKET, NATIVE_TRACK_THREAD, NATIVE_TRACK_GLOBAL] \<and>
     list_all (parent_ok 5) ds"
proof -
  have d: "\<forall>r \<in> set track_demo. distinct (request_uuids 5 r)"
    unfolding track_demo_def by code_simp
  have f: "\<not> ns_failed (track_run (\<lambda>_. True) track_demo (track_start 4096 0 5))"
    unfolding track_demo_def by code_simp
  have k: "map nt_kind (ns_tracks (track_run (\<lambda>_. True) track_demo (track_start 4096 0 5))) =
      [NATIVE_TRACK_PROCESS, NATIVE_TRACK_SOCKET, NATIVE_TRACK_THREAD, NATIVE_TRACK_GLOBAL]"
    unfolding track_demo_def by code_simp
  show ?thesis
    using native_tracks_described_once [OF d refl f, of "\<lambda>_. True"] unfolding k by metis
qed

end
