(* ===== verification/FlowTable.thy ===== *)
theory FlowTable
  imports NativeTracks
begin

text \<open>
  The flow table of the exporter (\<open>perfetto_export.c\<close>, the functions \<open>flow_*\<close>): events of sockets
  and packets are attributed to flows by tuple, network namespace, time and socket; a flow is
  announced when it is first seen and its totals are written when it ends.  A pointer into the table
  is an index; the code keeps none across a reallocation.
\<close>

section \<open>Strings and JSON lines\<close>

text \<open>A fixed-size array read or copied as a C string; \<open>snprintf\<close> into \<open>n\<close> bytes.\<close>

definition strncpy :: "nat \<Rightarrow> bytes \<Rightarrow> bytes" where
  "strncpy n s = take n (takeWhile (\<lambda>b. b \<noteq> 0) s)"

definition snprintf :: "nat \<Rightarrow> bytes \<Rightarrow> bytes" where
  "snprintf n s = take (n - 1) s"

lemma length_cstr [simp]: "length (cstr s) = length s"
  by (simp add: cstr_def)

lemma cstr_inject [simp]: "cstr s = cstr t \<longleftrightarrow> s = t"
proof
  have inj: "(of_nat (of_char c) :: u8) = of_nat (of_char d) \<Longrightarrow> c = d" for c d
  proof -
    assume e: "(of_nat (of_char c) :: u8) = of_nat (of_char d)"
    have lt: "(of_char x :: nat) < 256" for x
      by (rule nat_of_char_less_256)
    have "unat (of_nat (of_char x) :: u8) = of_char x" for x
      using lt [of x] by (simp add: unsigned_of_nat take_bit_nat_eq_self)
    then have "(of_char c :: nat) = of_char d"
      using e by metis
    then show "c = d"
      by (simp only: of_char_eq_iff)
  qed
  assume "cstr s = cstr t"
  then show "s = t"
    unfolding cstr_def by (induction s arbitrary: t) (auto dest: inj)
qed simp

lemma take_cstr: "take n (cstr s) = cstr (take n s)"
  by (simp add: cstr_def take_map)

definition print_num :: "u64 \<Rightarrow> bytes" where
  "print_num v = decimal_loop v []"

text \<open>
  A line of the event file: the keys and conversions of one \<open>fprintf\<close> format with their arguments.
  \<open>JText\<close> is \<open>"%s"\<close>, \<open>JNum\<close> is \<open>%u\<close> or \<open>%llu\<close>, \<open>JInt\<close> is \<open>%d\<close> or \<open>%lld\<close> (the argument is the two's
  complement of the value), \<open>JId\<close> is \<open>"%016llx"\<close> and \<open>JBool\<close> is \<open>%s\<close> of \<open>true\<close> or \<open>false\<close>.
\<close>

datatype json_value = JText bytes | JNum u64 | JInt u64 | JId u64 | JBool bool

type_synonym json_line = "(string \<times> json_value) list"

definition PERFETTO_SCHEMA :: string where
  "PERFETTO_SCHEMA = ''anettrace.perfetto.v1''"

definition print_quoted :: "bytes \<Rightarrow> bytes" where
  "print_quoted s = 0x22 # s @ [0x22]"

fun print_value :: "json_value \<Rightarrow> bytes" where
  "print_value (JText s) = print_quoted s"
| "print_value (JNum v) = print_num v"
| "print_value (JInt v) = (if sint v < 0 then 45 # print_num (0 - v) else print_num v)"
| "print_value (JId v) = print_quoted (hex_id v)"
| "print_value (JBool b) = (if b then cstr ''true'' else cstr ''false'')"

fun print_members :: "json_line \<Rightarrow> bytes" where
  "print_members [] = []"
| "print_members [(k, v)] = print_quoted (cstr k) @ [0x3a] @ print_value v"
| "print_members ((k, v) # m # ms) = print_quoted (cstr k) @ [0x3a] @ print_value v @ [0x2c] @ print_members (m # ms)"

definition print_line :: "json_line \<Rightarrow> bytes" where
  "print_line l = [0x7b] @ print_members l @ [0x7d, 0x0a]"

definition json_head :: "string \<Rightarrow> u64 \<Rightarrow> json_line" where
  "json_head kind ts =
     [(''schema'', JText (cstr PERFETTO_SCHEMA)), (''type'', JText (cstr kind)), (''ts_ns'', JNum ts)]"

section \<open>Events, configuration and state\<close>

definition IPPROTO_ICMP :: u8 where "IPPROTO_ICMP = 1"
definition IPPROTO_TCP :: u8 where "IPPROTO_TCP = 6"
definition IPPROTO_UDP :: u8 where "IPPROTO_UDP = 17"
definition IPPROTO_ICMPV6 :: u8 where "IPPROTO_ICMPV6 = 58"

definition PACKET_DIRECTION_TX :: u8 where "PACKET_DIRECTION_TX = 1"
definition PACKET_DIRECTION_RX :: u8 where "PACKET_DIRECTION_RX = 2"

text \<open>A probed function: its name, whether the drop or the free analyzer handles it, its custom-free mark.\<close>

record trace_info =
  ti_name :: bytes
  ti_drop :: bool
  ti_free :: bool
  ti_cfree :: bool

definition trace_named :: "string list \<Rightarrow> trace_info \<Rightarrow> bool" where
  "trace_named names t \<longleftrightarrow> list_ex (\<lambda>n. ti_name t = cstr n) names"

text \<open>
  The fields of \<open>detail_event_t\<close> that are read here.  \<open>fd_pkt\<close> and \<open>fd_ske\<close> are the two readings of
  the header union; both begin with the time stamp.  Ports are in network order.
\<close>

record flow_detail =
  fd_func :: u16
  fd_key :: u64
  fd_key_generation :: u32
  fd_pkt :: packet_headers
  fd_ske :: packet_headers
  fd_tid :: u32
  fd_tgid :: u32
  fd_uid :: u32
  fd_task :: bytes
  fd_netns :: u32
  fd_owner_tid :: u32
  fd_owner_tgid :: u32
  fd_owner_uid :: u32
  fd_owner_socket_key :: u64
  fd_owner_socket_generation :: u32
  fd_direction :: u8
  fd_owner_valid :: bool
  fd_io_start_ts :: u64
  fd_syscall_start_ts :: u64
  fd_io_tid :: u32
  fd_io_tgid :: u32
  fd_io_offset :: u32
  fd_io_bytes :: u32
  fd_io_role :: u8
  fd_io_multiple :: bool

text \<open>What the table uses from outside: the allocator, \<open>inet_ntop\<close>, the table of probes and two options.\<close>

record flow_config =
  fc_mem :: allocator
  fc_ntop4 :: "bytes \<Rightarrow> bytes"
  fc_ntop6 :: "bytes \<Rightarrow> bytes"
  fc_get_trace :: "u16 \<Rightarrow> trace_info option"
  fc_trace_detail :: bool
  fc_connect_diagnostics :: bool

record flow_state =
  fs_id :: u64
  fs_tuple_id :: u64
  fs_end_ts :: u64
  fs_netns :: u32
  fs_first_ts :: u64
  fs_last_ts :: u64
  fs_tx_bytes :: u64
  fs_rx_bytes :: u64
  fs_tx_packets :: u64
  fs_rx_packets :: u64
  fs_socket_id :: u64
  fs_linked_socket_id :: u64
  fs_native_track_uuid :: u64
  fs_owner_tid :: u32
  fs_owner_tgid :: u32
  fs_owner_uid :: u32
  fs_display_index :: u32
  fs_local_port :: u16
  fs_remote_port :: u16
  fs_protocol :: u8
  fs_local_addr :: bytes
  fs_remote_addr :: bytes
  fs_task :: bytes
  fs_active :: bool
  fs_closed :: bool
  fs_owner_valid :: bool
  fs_socket_ambiguous :: bool

definition flow_zero :: flow_state where
  "flow_zero =
     \<lparr>fs_id = 0, fs_tuple_id = 0, fs_end_ts = 0, fs_netns = 0, fs_first_ts = 0, fs_last_ts = 0, fs_tx_bytes = 0,
      fs_rx_bytes = 0, fs_tx_packets = 0, fs_rx_packets = 0, fs_socket_id = 0, fs_linked_socket_id = 0,
      fs_native_track_uuid = 0, fs_owner_tid = 0, fs_owner_tgid = 0, fs_owner_uid = 0, fs_display_index = 0,
      fs_local_port = 0, fs_remote_port = 0, fs_protocol = 0, fs_local_addr = [], fs_remote_addr = [], fs_task = [],
      fs_active = False, fs_closed = False, fs_owner_valid = False, fs_socket_ambiguous = False\<rparr>"

text \<open>
  The exporter's state as far as flows are concerned.  \<open>fx_json\<close> holds the lines written to the event
  file, \<open>None\<close> when there is none.
\<close>

record flow_export =
  fx_flows :: "flow_state list"
  fx_capacity :: nat
  fx_serial :: u64
  fx_ambiguous :: bool
  fx_tcp_count :: u32
  fx_udp_count :: u32
  fx_dns_count :: u32
  fx_json :: "json_line list option"
  fx_native :: native_state

definition flow_sizeof :: nat where
  "flow_sizeof = 240"

definition put_flow :: "nat \<Rightarrow> flow_state \<Rightarrow> flow_export \<Rightarrow> flow_export" where
  "put_flow i f st = st\<lparr>fx_flows := (fx_flows st)[i := f]\<rparr>"

definition put_json :: "json_line \<Rightarrow> flow_export \<Rightarrow> flow_export" where
  "put_json l st = st\<lparr>fx_json := map_option (\<lambda>ls. ls @ [l]) (fx_json st)\<rparr>"

section \<open>Which probe\<close>

definition trace_is_rx_read :: "trace_info option \<Rightarrow> bool" where
  "trace_is_rx_read t \<longleftrightarrow>
     (case t of None \<Rightarrow> False | Some t \<Rightarrow> trace_named [''tcp_recvmsg'', ''udp_recvmsg'', ''udpv6_recvmsg''] t)"

definition trace_is_tx_write :: "trace_info option \<Rightarrow> bool" where
  "trace_is_tx_write t \<longleftrightarrow>
     (case t of None \<Rightarrow> False | Some t \<Rightarrow> trace_named [''tcp_sendmsg'', ''udp_sendmsg'', ''udpv6_sendmsg''] t)"

definition trace_is_io :: "trace_info option \<Rightarrow> bool" where
  "trace_is_io t \<longleftrightarrow> trace_is_rx_read t \<or> trace_is_tx_write t"

definition flow_packet_supported :: "packet_headers \<Rightarrow> trace_info option \<Rightarrow> bool" where
  "flow_packet_supported p t \<longleftrightarrow>
     (ph_proto_l4 p = IPPROTO_TCP \<or> ph_proto_l4 p = IPPROTO_UDP) \<and>
     \<not> (case t of None \<Rightarrow> False
        | Some t \<Rightarrow> trace_named [''tcp_skb_entail'', ''skb_entail'', ''udp_send_skb'', ''udp_v6_send_skb''] t) \<and>
     (ph_sport p \<noteq> 0 \<or> ph_dport p \<noteq> 0)"

definition socket_trace_terminal :: "trace_info \<Rightarrow> bool" where
  "socket_trace_terminal t \<longleftrightarrow> trace_named [''tcp_v4_destroy_sock'', ''udp_destroy_sock'', ''udpv6_destroy_sock''] t"

definition packet_trace_terminal :: "trace_info option \<Rightarrow> bool" where
  "packet_trace_terminal t \<longleftrightarrow> (case t of None \<Rightarrow> False | Some t \<Rightarrow> ti_drop t \<or> ti_free t \<or> ti_cfree t)"

definition flow_packet_anchor :: "flow_config \<Rightarrow> trace_info \<Rightarrow> u8 \<Rightarrow> u8 \<Rightarrow> bool" where
  "flow_packet_anchor cfg t protocol direction \<longleftrightarrow>
     (if protocol \<noteq> IPPROTO_TCP \<and> protocol \<noteq> IPPROTO_UDP then False
      else if direction = PACKET_DIRECTION_TX
      then if protocol = IPPROTO_TCP \<and> (fc_trace_detail cfg \<or> fc_connect_diagnostics cfg)
           then trace_named [''__tcp_transmit_skb''] t
           else trace_named [''ip_output'', ''ip6_output''] t
      else if direction = PACKET_DIRECTION_RX
      then if protocol = IPPROTO_TCP then trace_named [''tcp_v4_rcv'', ''tcp_v6_rcv''] t
           else trace_named [''udp_rcv'', ''udpv6_rcv''] t
      else False)"

definition flow_socket_supported :: "packet_headers \<Rightarrow> bool" where
  "flow_socket_supported s \<longleftrightarrow>
     (ph_proto_l3 s = ETH_P_IP \<or> ph_proto_l3 s = ETH_P_IPV6) \<and> ph_sport s \<noteq> 0 \<and> ph_dport s \<noteq> 0 \<and>
     (ph_proto_l4 s = IPPROTO_TCP \<or> ph_proto_l4 s = IPPROTO_UDP)"

text \<open>The ICMP type is the first byte of the ports.\<close>

definition packet_is_icmp :: "packet_headers \<Rightarrow> bool" where
  "packet_is_icmp p \<longleftrightarrow> ph_proto_l4 p = IPPROTO_ICMP \<or> ph_proto_l4 p = IPPROTO_ICMPV6"

definition packet_is_icmp_echo :: "packet_headers \<Rightarrow> bool" where
  "packet_is_icmp_echo p \<longleftrightarrow>
     (let type = (ucast (ph_sport p) :: u8) in
      ph_proto_l4 p = IPPROTO_ICMP \<and> (type = 8 \<or> type = 0) \<or>
      ph_proto_l4 p = IPPROTO_ICMPV6 \<and> (type = 128 \<or> type = 129))"

section \<open>Searching the table\<close>

fun find_loop :: "('a \<Rightarrow> bool) \<Rightarrow> nat \<Rightarrow> 'a list \<Rightarrow> nat option" where
  "find_loop p i [] = None"
| "find_loop p i (f # fs) = (if p f then Some i else find_loop p (Suc i) fs)"

definition flow_find :: "u64 \<Rightarrow> flow_export \<Rightarrow> nat option" where
  "flow_find fid st = find_loop (\<lambda>f. fs_active f \<and> fs_id f = fid) 0 (fx_flows st)"

definition flow_find_any :: "u64 \<Rightarrow> flow_export \<Rightarrow> nat option" where
  "flow_find_any fid st = find_loop (\<lambda>f. fs_id f = fid) 0 (fx_flows st)"

text \<open>A loop that returns at the second hit: \<open>found\<close> is the first one.\<close>

fun unique_loop :: "(flow_state \<Rightarrow> bool) \<Rightarrow> nat option \<Rightarrow> nat \<Rightarrow> flow_state list \<Rightarrow> nat option" where
  "unique_loop p found i [] = found"
| "unique_loop p found i (f # fs) =
     (if \<not> p f then unique_loop p found (Suc i) fs
      else if found \<noteq> None then None else unique_loop p (Some i) (Suc i) fs)"

definition flow_find_by_socket :: "u64 \<Rightarrow> u8 \<Rightarrow> flow_export \<Rightarrow> nat option" where
  "flow_find_by_socket socket_id protocol st =
     (if socket_id = 0 then None
      else unique_loop (\<lambda>f. fs_active f \<and> fs_socket_id f = socket_id \<and> (protocol = 0 \<or> fs_protocol f = protocol))
             None 0 (fx_flows st))"

definition flow_find_destroyed :: "u64 \<Rightarrow> u64 \<Rightarrow> u32 \<Rightarrow> u64 \<Rightarrow> flow_export \<Rightarrow> nat option" where
  "flow_find_destroyed tuple_id socket_id netns ts st =
     (if socket_id = 0 then None
      else unique_loop
             (\<lambda>f. \<not> fs_active f \<and> fs_closed f \<and> fs_socket_id f = socket_id \<and> fs_tuple_id f = tuple_id \<and>
                  fs_netns f = netns \<and> fs_first_ts f \<le> ts \<and> fs_end_ts f \<le> ts)
             None 0 (fx_flows st))"

definition flow_alive_at :: "u64 \<Rightarrow> flow_state \<Rightarrow> bool" where
  "flow_alive_at ts f \<longleftrightarrow>
     fs_first_ts f \<le> ts \<and> (fs_active f \<or> ts \<le> (if fs_end_ts f \<noteq> 0 then fs_end_ts f else fs_last_ts f))"

record lookup_hits =
  lh_candidate :: "nat option"
  lh_candidates :: nat
  lh_exact :: "nat option"
  lh_exacts :: nat

fun lookup_loop :: "u64 \<Rightarrow> u64 \<Rightarrow> u32 \<Rightarrow> u64 \<Rightarrow> nat \<Rightarrow> flow_state list \<Rightarrow> lookup_hits \<Rightarrow> lookup_hits" where
  "lookup_loop tuple_id socket_id netns ts i [] h = h"
| "lookup_loop tuple_id socket_id netns ts i (f # fs) h =
     lookup_loop tuple_id socket_id netns ts (Suc i) fs
       (if fs_tuple_id f \<noteq> tuple_id \<or> fs_netns f \<noteq> netns \<or> \<not> flow_alive_at ts f then h
        else if socket_id \<noteq> 0 \<and> fs_socket_id f = socket_id
        then h\<lparr>lh_exact := Some i, lh_exacts := Suc (lh_exacts h)\<rparr>
        else if socket_id \<noteq> 0 \<and> fs_socket_id f \<noteq> 0 then h
        else h\<lparr>lh_candidate := Some i, lh_candidates := Suc (lh_candidates h)\<rparr>)"

definition flow_lookup :: "u64 \<Rightarrow> u64 \<Rightarrow> u32 \<Rightarrow> u64 \<Rightarrow> flow_export \<Rightarrow> nat option \<times> flow_export" where
  "flow_lookup tuple_id socket_id netns ts st =
     (let h = lookup_loop tuple_id socket_id netns ts 0 (fx_flows st)
                \<lparr>lh_candidate = None, lh_candidates = 0, lh_exact = None, lh_exacts = 0\<rparr>;
          st1 = st\<lparr>fx_ambiguous := False\<rparr> in
      if lh_exacts h = 1 then (lh_exact h, st1)
      else let ambiguous = (lh_exacts h > 1 \<or> lh_candidates h > 1) in
        (if ambiguous then None else lh_candidate h, st1\<lparr>fx_ambiguous := ambiguous\<rparr>))"

section \<open>Creating a flow\<close>

definition flow_add :: "flow_config \<Rightarrow> u64 \<Rightarrow> flow_export \<Rightarrow> nat option \<times> flow_export" where
  "flow_add cfg fid st =
     (let count = length (fx_flows st);
          grow = (count = fx_capacity st);
          capacity = (if fx_capacity st \<noteq> 0 then fx_capacity st * 2 else 32) in
      if grow \<and> \<not> fc_mem cfg (capacity * flow_sizeof) then (None, st)
      else (Some count,
            st\<lparr>fx_capacity := (if grow then capacity else fx_capacity st),
               fx_flows := fx_flows st @ [flow_zero\<lparr>fs_id := fid, fs_active := True\<rparr>]\<rparr>))"

definition flow_create :: "flow_config \<Rightarrow> u64 \<Rightarrow> u64 \<Rightarrow> u32 \<Rightarrow> u64 \<Rightarrow> flow_export \<Rightarrow> nat option \<times> flow_export" where
  "flow_create cfg tuple_id socket_id netns ts st =
     (let serial = fx_serial st + 1;
          fid = hash_bytes (hash_bytes (hash_bytes tuple_id (le_bytes 8 socket_id)) (le_bytes 4 netns)) (le_bytes 8 serial) in
      case flow_add cfg fid (st\<lparr>fx_serial := serial\<rparr>) of
        (None, st1) \<Rightarrow> (None, st1)
      | (Some i, st1) \<Rightarrow>
          (Some i, put_flow i ((fx_flows st1 ! i)\<lparr>fs_tuple_id := tuple_id, fs_socket_id := socket_id, fs_netns := netns,
                                                  fs_first_ts := ts, fs_last_ts := ts\<rparr>) st1))"

section \<open>Labels\<close>

definition flow_label_prefix :: "u8 \<Rightarrow> u16 \<Rightarrow> u16 \<Rightarrow> string" where
  "flow_label_prefix protocol local_port remote_port =
     (if protocol = IPPROTO_TCP then ''tcp''
      else if protocol = IPPROTO_UDP \<and> (local_port = 53 \<or> remote_port = 53) then ''dns''
      else if protocol = IPPROTO_UDP then ''udp''
      else ''flow'')"

definition flow_assign_display_index :: "nat \<Rightarrow> flow_export \<Rightarrow> flow_export" where
  "flow_assign_display_index i st =
     (let f = fx_flows st ! i in
      if fs_display_index f \<noteq> 0 then st
      else if fs_protocol f = IPPROTO_TCP
      then put_flow i (f\<lparr>fs_display_index := fx_tcp_count st + 1\<rparr>) (st\<lparr>fx_tcp_count := fx_tcp_count st + 1\<rparr>)
      else if fs_local_port f = 53 \<or> fs_remote_port f = 53
      then put_flow i (f\<lparr>fs_display_index := fx_dns_count st + 1\<rparr>) (st\<lparr>fx_dns_count := fx_dns_count st + 1\<rparr>)
      else put_flow i (f\<lparr>fs_display_index := fx_udp_count st + 1\<rparr>) (st\<lparr>fx_udp_count := fx_udp_count st + 1\<rparr>))"

definition format_flow_label :: "flow_state \<Rightarrow> nat \<Rightarrow> bytes" where
  "format_flow_label f n =
     snprintf n (cstr (flow_label_prefix (fs_protocol f) (fs_local_port f) (fs_remote_port f)) @ cstr ''-'' @
                 print_num (ucast (fs_display_index f)))"

definition ntohs :: "u16 \<Rightarrow> u16" where
  "ntohs w = push_bit 8 w OR drop_bit 8 w"

definition format_packet_flow_label :: "u64 \<Rightarrow> packet_headers \<Rightarrow> nat \<Rightarrow> flow_export \<Rightarrow> bytes" where
  "format_packet_flow_label flow_id p n st =
     (if packet_is_icmp p then snprintf n (if ph_proto_l4 p = IPPROTO_ICMP then cstr ''icmp'' else cstr ''icmpv6'')
      else case flow_find_any flow_id st of
             Some i \<Rightarrow> format_flow_label (fx_flows st ! i) n
           | None \<Rightarrow> snprintf n (cstr (flow_label_prefix (ph_proto_l4 p) (ntohs (ph_sport p)) (ntohs (ph_dport p))) @ cstr ''-0''))"

definition format_known_flow_label :: "u64 \<Rightarrow> nat \<Rightarrow> flow_export \<Rightarrow> bytes" where
  "format_known_flow_label flow_id n st =
     (case flow_find_any flow_id st of None \<Rightarrow> [] | Some i \<Rightarrow> format_flow_label (fx_flows st ! i) n)"

definition flow_protocol_name :: "flow_state \<Rightarrow> string" where
  "flow_protocol_name f =
     (if fs_protocol f = IPPROTO_UDP \<and> (fs_local_port f = 53 \<or> fs_remote_port f = 53) then ''udp-dns''
      else if fs_protocol f = IPPROTO_UDP then ''udp'' else ''tcp'')"

definition packet_addresses :: "flow_config \<Rightarrow> packet_headers \<Rightarrow> bytes \<times> bytes" where
  "packet_addresses cfg p =
     (if ph_proto_l3 p = ETH_P_IP then (fc_ntop4 cfg (take 4 (ph_saddr4 p)), fc_ntop4 cfg (take 4 (ph_daddr4 p)))
      else if ph_proto_l3 p = ETH_P_IPV6
      then (if ipv6_is_v4_mapped (ph_saddr6 p) then fc_ntop4 cfg (take 4 (drop 12 (ph_saddr6 p)))
            else fc_ntop6 cfg (take 16 (ph_saddr6 p)),
            if ipv6_is_v4_mapped (ph_daddr6 p) then fc_ntop4 cfg (take 4 (drop 12 (ph_daddr6 p)))
            else fc_ntop6 cfg (take 16 (ph_daddr6 p)))
      else ([], []))"

definition packet_socket_id :: "flow_detail \<Rightarrow> flow_export \<Rightarrow> u64" where
  "packet_socket_id d st =
     (if fd_owner_socket_key d \<noteq> 0
      then socket_instance_id (ns_salt (fx_native st)) (fd_owner_socket_key d) (fd_owner_socket_generation d) else 0)"

definition event_socket_id :: "flow_detail \<Rightarrow> flow_export \<Rightarrow> u64" where
  "event_socket_id d st =
     detail_socket_instance_id (ns_salt (fx_native st)) (fd_owner_socket_key d) (fd_owner_socket_generation d)
       (fd_key d) (fd_key_generation d)"

text \<open>The identifiers of the call that submitted a packet, of its system call, and of the socket.\<close>

definition call_uuid :: "flow_export \<Rightarrow> string \<Rightarrow> u32 \<Rightarrow> u32 \<Rightarrow> u64 \<Rightarrow> u64" where
  "call_uuid st kind tgid tid ts =
     native_uuid (ns_salt (fx_native st)) (cstr kind) (push_bit 32 (ucast tgid) OR ucast tid) ts"

definition packet_submission_ids :: "flow_detail \<Rightarrow> flow_export \<Rightarrow> u64 \<times> u64 \<times> u64" where
  "packet_submission_ids d st =
     (if \<not> fd_io_multiple d \<and> fd_io_start_ts d \<noteq> 0 \<and> fd_io_role d \<noteq> 0
      then (call_uuid st ''io-call'' (fd_io_tgid d) (fd_io_tid d) (fd_io_start_ts d),
            if fd_syscall_start_ts d \<noteq> 0
            then call_uuid st ''syscall-call'' (fd_io_tgid d) (fd_io_tid d) (fd_syscall_start_ts d) else 0,
            packet_socket_id d st)
      else (0, 0, packet_socket_id d st))"

definition detail_flow_id :: "flow_config \<Rightarrow> flow_detail \<Rightarrow> bool \<Rightarrow> flow_export \<Rightarrow> u64 \<times> flow_export" where
  "detail_flow_id cfg d socket st =
     (let t = fc_get_trace cfg (fd_func d) in
      if \<not> socket \<and> \<not> flow_packet_supported (fd_pkt d) t then (0, st)
      else
        let socket_id = (if socket then event_socket_id d st else packet_socket_id d st);
            salt = ns_salt (fx_native st);
            tuple = (if socket then socket_flow_id salt (fd_ske d) else packet_flow_id salt (fd_pkt d));
            ts = ph_ts (fd_pkt d) in
        (case flow_lookup tuple socket_id (fd_netns d) ts st of
           (found, st1) \<Rightarrow>
             let found1 = (if \<not> socket \<and> found = None \<and> \<not> fx_ambiguous st1 \<and> packet_trace_terminal t
                           then flow_find_destroyed (packet_flow_id salt (fd_pkt d)) socket_id (fd_netns d) ts st1 else found);
                 found2 = (if socket \<and> found1 = None \<and> \<not> fx_ambiguous st1 \<and>
                              (case t of None \<Rightarrow> False | Some t \<Rightarrow> socket_trace_terminal t)
                           then flow_find_by_socket socket_id (ph_proto_l4 (fd_ske d)) st1 else found1) in
             (case found2 of None \<Rightarrow> 0 | Some i \<Rightarrow> fs_id (fx_flows st1 ! i), st1)))"

section \<open>Announcing a flow\<close>

text \<open>UTF-8 of the separator \<open>" \<cdot> "\<close>.\<close>

definition middle_dot :: bytes where
  "middle_dot = [0x20, 0xc2, 0xb7, 0x20]"

text \<open>Annotations are appended to an event in order.\<close>

datatype annotation = AId string u64 | AText string bytes | AUint string u64 | AInt string u64 | ABool string bool

fun add_annotation :: "allocator \<Rightarrow> annotation \<Rightarrow> proto_buffer \<Rightarrow> proto_buffer" where
  "add_annotation mem (AId k v) ev = native_annotation_id mem (cstr k) v ev"
| "add_annotation mem (AText k s) ev = native_annotation_string mem (cstr k) (Some s) ev"
| "add_annotation mem (AUint k v) ev = native_annotation_uint mem (cstr k) v ev"
| "add_annotation mem (AInt k v) ev = native_annotation_int mem (cstr k) v ev"
| "add_annotation mem (ABool k b) ev = native_annotation_bool mem (cstr k) b ev"

definition json_task :: "bytes \<Rightarrow> bytes" where
  "json_task task = the (json_escape (Some task) 64)"

definition exports_native :: "flow_export \<Rightarrow> bool" where
  "exports_native st \<longleftrightarrow> ns_file (fx_native st) \<noteq> None \<and> \<not> ns_trace_tags (fx_native st)"

definition owner_tgid_or :: "flow_state \<Rightarrow> u32" where
  "owner_tgid_or f = (if fs_owner_valid f then fs_owner_tgid f else 0)"

definition owner_task_or :: "flow_state \<Rightarrow> bytes option" where
  "owner_task_or f = (if fs_owner_valid f then Some (fs_task f) else None)"

definition native_flow_track :: "flow_config \<Rightarrow> flow_state \<Rightarrow> native_state \<Rightarrow> nat option \<times> native_state" where
  "native_flow_track cfg f ns =
     (let mem = fc_mem cfg; uuid = native_uuid (ns_salt ns) (cstr ''flow'') (fs_id f) 0 in
      case native_find_track uuid ns of
        Some i \<Rightarrow> (Some i, ns)
      | None \<Rightarrow>
          (case (if fs_socket_id f \<noteq> 0
                 then native_socket_track mem (fs_socket_id f) (owner_tgid_or f) (owner_task_or f) ns
                 else native_process_track mem (fs_owner_tgid f) (Some (fs_task f)) ns) of
             (None, ns1) \<Rightarrow> (None, ns1)
           | (Some parent, ns1) \<Rightarrow>
               let parent_uuid = nt_uuid (ns_tracks ns1 ! parent);
                   name = snprintf 160
                     (format_flow_label f 16 @ cstr '' '' @ cstr (flow_protocol_name f) @ cstr '' '' @
                      fs_local_addr f @ cstr '':'' @ print_num (ucast (fs_local_port f)) @ cstr '' -> '' @
                      fs_remote_addr f @ cstr '':'' @ print_num (ucast (fs_remote_port f))) in
               (case native_add_track mem uuid (fs_id f) NATIVE_TRACK_FLOW ns1 of
                  (None, ns2) \<Rightarrow> (None, ns2)
                | (Some i, ns2) \<Rightarrow>
                    (Some i, native_descriptor mem uuid name parent_uuid NATIVE_TRACK_FLOW (fs_owner_tgid f) 0 ns2))))"

definition link_line :: "flow_state \<Rightarrow> u64 \<Rightarrow> json_line" where
  "link_line f ts = json_head ''socket_flow_link'' ts @
     [(''socket_id'', JId (fs_socket_id f)), (''flow_id'', JId (fs_id f)), (''flow_tag'', JText (format_flow_label f 16)),
      (''owner_tid'', JNum (ucast (fs_owner_tid f))), (''owner_tgid'', JNum (ucast (fs_owner_tgid f))),
      (''owner_uid'', JNum (ucast (fs_owner_uid f))), (''task'', JText (json_task (fs_task f))),
      (''evidence'', JText (cstr ''socket_instance''))]"

definition link_event :: "flow_config \<Rightarrow> flow_state \<Rightarrow> u64 \<Rightarrow> bool \<Rightarrow> proto_buffer" where
  "link_event cfg f uuid tags =
     (let mem = fc_mem cfg; tag = format_flow_label f 16 in
      fold (add_annotation mem)
        [AId ''socket_id'' (fs_socket_id f), AId ''flow_id'' (fs_id f), AText ''flow_tag'' tag,
         AText ''evidence'' (cstr ''socket_instance'')]
        (native_event_flow mem tags (fs_id f) False
          (native_event_flow mem tags (fs_socket_id f) False
            (native_event_start mem 3 uuid (Some (snprintf 64 (cstr ''socket associated'' @ middle_dot @ tag)))
               (Some (cstr ''anettrace.socket.flow'')) proto_empty))))"

definition flow_link_socket :: "flow_config \<Rightarrow> nat \<Rightarrow> u64 \<Rightarrow> flow_export \<Rightarrow> flow_export" where
  "flow_link_socket cfg i ts st =
     (let f = fx_flows st ! i in
      if fs_socket_id f = 0 \<or> fs_linked_socket_id f = fs_socket_id f then st
      else
        let f1 = f\<lparr>fs_linked_socket_id := fs_socket_id f\<rparr>;
            st1 = put_json (link_line f1 ts) (put_flow i f1 st) in
        if \<not> exports_native st1 then st1
        else (case native_socket_track (fc_mem cfg) (fs_socket_id f1) (owner_tgid_or f1) (owner_task_or f1) (fx_native st1) of
                (None, ns) \<Rightarrow> st1\<lparr>fx_native := ns\<rparr>
              | (Some socket, ns) \<Rightarrow>
                  st1\<lparr>fx_native := native_event_write (fc_mem cfg) ts
                         (link_event cfg f1 (nt_uuid (ns_tracks ns ! socket)) (ns_trace_tags ns)) ns\<rparr>))"

definition start_line :: "flow_state \<Rightarrow> json_line" where
  "start_line f = json_head ''flow_start'' (fs_first_ts f) @
     [(''flow_id'', JId (fs_id f)), (''flow_tag'', JText (format_flow_label f 16)),
      (''protocol'', JText (cstr (flow_protocol_name f))), (''socket_id'', JId (fs_socket_id f)),
      (''owner_tid'', JNum (ucast (fs_owner_tid f))), (''owner_tgid'', JNum (ucast (fs_owner_tgid f))),
      (''owner_uid'', JNum (ucast (fs_owner_uid f))), (''task'', JText (json_task (fs_task f))),
      (''local_addr'', JText (fs_local_addr f)), (''local_port'', JNum (ucast (fs_local_port f))),
      (''remote_addr'', JText (fs_remote_addr f)), (''remote_port'', JNum (ucast (fs_remote_port f))),
      (''netns'', JNum (ucast (fs_netns f))), (''tuple_id'', JId (fs_tuple_id f)),
      (''start_reason'', JText (cstr ''first_observed''))]"

definition start_event :: "flow_config \<Rightarrow> flow_state \<Rightarrow> u64 \<Rightarrow> bool \<Rightarrow> proto_buffer" where
  "start_event cfg f uuid tags =
     (let mem = fc_mem cfg; tag = format_flow_label f 16 in
      fold (add_annotation mem)
        [AId ''flow_id'' (fs_id f), AText ''flow_tag'' tag, AText ''protocol'' (cstr (flow_protocol_name f)),
         AUint ''netns'' (ucast (fs_netns f)), AId ''tuple_id'' (fs_tuple_id f),
         AText ''start_reason'' (cstr ''first_observed''), AId ''socket_id'' (fs_socket_id f),
         AUint ''owner_tid'' (ucast (fs_owner_tid f)), AUint ''owner_tgid'' (ucast (fs_owner_tgid f)),
         AUint ''owner_uid'' (ucast (fs_owner_uid f)), AText ''local_addr'' (fs_local_addr f),
         AUint ''local_port'' (ucast (fs_local_port f)), AText ''remote_addr'' (fs_remote_addr f),
         AUint ''remote_port'' (ucast (fs_remote_port f))]
        (native_event_correlation mem (fs_id f)
          (native_event_flow mem tags (fs_id f) False
            (native_event_start mem 1 uuid (Some tag) (Some (cstr ''anettrace.flow'')) proto_empty))))"

definition flow_emit_start :: "flow_config \<Rightarrow> nat \<Rightarrow> flow_export \<Rightarrow> flow_export" where
  "flow_emit_start cfg i st =
     (let st1 = flow_link_socket cfg i (fs_first_ts (fx_flows st ! i)) st;
          f = fx_flows st1 ! i;
          st2 = put_json (start_line f) st1 in
      if \<not> exports_native st2 then st2
      else (case native_flow_track cfg f (fx_native st2) of
              (None, ns) \<Rightarrow> st2\<lparr>fx_native := ns\<rparr>
            | (Some track, ns) \<Rightarrow>
                let f1 = f\<lparr>fs_native_track_uuid := nt_uuid (ns_tracks ns ! track)\<rparr> in
                (put_flow i f1 st2)
                  \<lparr>fx_native := native_event_write (fc_mem cfg) (fs_first_ts f1)
                                  (start_event cfg f1 (fs_native_track_uuid f1) (ns_trace_tags ns)) ns\<rparr>))"

section \<open>Ending a flow\<close>

definition end_line :: "flow_state \<Rightarrow> u64 \<Rightarrow> string \<Rightarrow> bool \<Rightarrow> json_line" where
  "end_line f end_ts reason incomplete = json_head ''flow_end'' end_ts @
     [(''first_ts_ns'', JNum (fs_first_ts f)), (''last_ts_ns'', JNum (fs_last_ts f)),
      (''duration_ns'', JNum (end_ts - fs_first_ts f)), (''flow_id'', JId (fs_id f)),
      (''flow_tag'', JText (format_flow_label f 16)), (''protocol'', JText (cstr (flow_protocol_name f))),
      (''socket_id'', JId (fs_socket_id f)), (''byte_scope'', JText (cstr ''application_payload'')),
      (''tx_bytes'', JNum (fs_tx_bytes f)), (''rx_bytes'', JNum (fs_rx_bytes f)),
      (''tx_packets'', JNum (fs_tx_packets f)), (''rx_packets'', JNum (fs_rx_packets f)),
      (''owner_tid'', JNum (ucast (fs_owner_tid f))), (''owner_tgid'', JNum (ucast (fs_owner_tgid f))),
      (''owner_uid'', JNum (ucast (fs_owner_uid f))), (''task'', JText (json_task (fs_task f))),
      (''local_addr'', JText (fs_local_addr f)), (''local_port'', JNum (ucast (fs_local_port f))),
      (''remote_addr'', JText (fs_remote_addr f)), (''remote_port'', JNum (ucast (fs_remote_port f))),
      (''end_reason'', JText (cstr reason)), (''incomplete'', JBool incomplete)]"

definition end_event :: "flow_config \<Rightarrow> flow_state \<Rightarrow> u64 \<Rightarrow> string \<Rightarrow> bool \<Rightarrow> bool \<Rightarrow> proto_buffer" where
  "end_event cfg f end_ts reason incomplete tags =
     (let mem = fc_mem cfg in
      fold (add_annotation mem)
        [AId ''flow_id'' (fs_id f), AText ''protocol'' (cstr (flow_protocol_name f)),
         AId ''socket_id'' (fs_socket_id f), AText ''byte_scope'' (cstr ''application_payload''),
         AUint ''duration_ns'' (end_ts - fs_first_ts f), AUint ''tx_bytes'' (fs_tx_bytes f),
         AUint ''rx_bytes'' (fs_rx_bytes f), AUint ''tx_packets'' (fs_tx_packets f),
         AUint ''rx_packets'' (fs_rx_packets f), AUint ''owner_tid'' (ucast (fs_owner_tid f)),
         AUint ''owner_tgid'' (ucast (fs_owner_tgid f)), AUint ''owner_uid'' (ucast (fs_owner_uid f)),
         AText ''local_addr'' (fs_local_addr f), AUint ''local_port'' (ucast (fs_local_port f)),
         AText ''remote_addr'' (fs_remote_addr f), AUint ''remote_port'' (ucast (fs_remote_port f)),
         AText ''end_reason'' (cstr reason), ABool ''incomplete'' incomplete]
        (native_event_correlation mem (fs_id f)
          (native_event_flow mem tags (fs_id f) True
            (native_event_start mem 2 (fs_native_track_uuid f) None (Some (cstr ''anettrace.flow'')) proto_empty))))"

definition flow_end_time :: "flow_state \<Rightarrow> u64 \<Rightarrow> u64" where
  "flow_end_time f end_ts =
     (let t1 = (if end_ts < fs_last_ts f then fs_last_ts f else end_ts) in
      if t1 < fs_first_ts f then fs_first_ts f else t1)"

definition flow_finish :: "flow_config \<Rightarrow> nat \<Rightarrow> u64 \<Rightarrow> string \<Rightarrow> bool \<Rightarrow> flow_export \<Rightarrow> flow_export" where
  "flow_finish cfg i end_ts reason incomplete st =
     (let f = fx_flows st ! i in
      if \<not> fs_active f then st
      else
        let t = flow_end_time f end_ts;
            st1 = put_json (end_line f t reason incomplete) st;
            st2 = (if exports_native st1 \<and> fs_native_track_uuid f \<noteq> 0
                   then st1\<lparr>fx_native := native_event_write (fc_mem cfg) t
                              (end_event cfg f t reason incomplete (ns_trace_tags (fx_native st1))) (fx_native st1)\<rparr>
                   else st1) in
        put_flow i (f\<lparr>fs_end_ts := t, fs_active := False, fs_closed := (\<not> incomplete \<and> reason = ''socket_destroy'')\<rparr>) st2)"

section \<open>Events\<close>

definition flow_set_owner :: "flow_detail \<Rightarrow> u64 \<Rightarrow> flow_state \<Rightarrow> flow_state" where
  "flow_set_owner d socket_id f =
     (let f1 = (if socket_id \<noteq> 0
                then f\<lparr>fs_socket_ambiguous := (fs_socket_ambiguous f \<or> (fs_socket_id f \<noteq> 0 \<and> fs_socket_id f \<noteq> socket_id)),
                       fs_socket_id := socket_id\<rparr>
                else f);
          f2 = (if fd_owner_valid d
                then f1\<lparr>fs_task := (if \<not> fs_owner_valid f1 \<or> fs_owner_tgid f1 \<noteq> fd_owner_tgid d then [] else fs_task f1),
                        fs_owner_valid := True, fs_owner_tid := fd_owner_tid d, fs_owner_tgid := fd_owner_tgid d,
                        fs_owner_uid := fd_owner_uid d\<rparr>
                else if fs_owner_tgid f1 = 0
                then f1\<lparr>fs_owner_tid := fd_tid d, fs_owner_tgid := fd_tgid d, fs_owner_uid := fd_uid d\<rparr>
                else f1) in
      if fs_task f2 = [] \<and> (fs_owner_tgid f2 = 0 \<or> fs_owner_tgid f2 = fd_tgid d)
      then f2\<lparr>fs_task := strncpy 15 (fd_task d)\<rparr> else f2)"

text \<open>A flow that is already known: its last time, its owner and, once, its socket.\<close>

definition flow_touch :: "flow_config \<Rightarrow> nat \<Rightarrow> flow_detail \<Rightarrow> u64 \<Rightarrow> u64 \<Rightarrow> flow_export \<Rightarrow> flow_export" where
  "flow_touch cfg i d socket_id ts st =
     (let f = fx_flows st ! i;
          f1 = (if fs_last_ts f < ts then f\<lparr>fs_last_ts := ts\<rparr> else f) in
      flow_link_socket cfg i ts (put_flow i (flow_set_owner d socket_id f1) st))"

text \<open>A flow just created: its end points, its label, its owner and its announcement.\<close>

definition flow_open ::
    "flow_config \<Rightarrow> nat \<Rightarrow> flow_detail \<Rightarrow> u64 \<Rightarrow> u64 \<Rightarrow> u8 \<Rightarrow> bytes \<times> u16 \<Rightarrow> bytes \<times> u16 \<Rightarrow> flow_export \<Rightarrow> flow_export" where
  "flow_open cfg i d socket_id ts protocol local remote st =
     (let st1 = put_flow i ((fx_flows st ! i)\<lparr>fs_first_ts := ts, fs_last_ts := ts, fs_protocol := protocol,
                  fs_local_addr := fst local, fs_remote_addr := fst remote,
                  fs_local_port := snd local, fs_remote_port := snd remote\<rparr>) st;
          st2 = flow_assign_display_index i st1 in
      flow_emit_start cfg i (put_flow i (flow_set_owner d socket_id (fx_flows st2 ! i)) st2))"

definition flow_from_socket :: "flow_config \<Rightarrow> flow_detail \<Rightarrow> u64 \<Rightarrow> flow_export \<Rightarrow> nat option \<times> flow_export" where
  "flow_from_socket cfg d ts st =
     (let sock = fd_ske d; socket_id = event_socket_id d st in
      if \<not> flow_socket_supported sock then (None, st)
      else
        let fid = socket_flow_id (ns_salt (fx_native st)) sock in
        (case flow_lookup fid socket_id (fd_netns d) ts st of
           (Some i, st1) \<Rightarrow> (Some i, flow_touch cfg i d socket_id ts st1)
         | (None, st1) \<Rightarrow>
             if fx_ambiguous st1 then (None, st1)
             else (case flow_create cfg fid socket_id (fd_netns d) ts st1 of
                     (None, st2) \<Rightarrow> (None, st2)
                   | (Some i, st2) \<Rightarrow>
                       (case packet_addresses cfg sock of (source, dest) \<Rightarrow>
                          (Some i, flow_open cfg i d socket_id ts (ph_proto_l4 sock)
                             (source, ntohs (ph_sport sock)) (dest, ntohs (ph_dport sock)) st2)))))"

definition count_packet :: "flow_config \<Rightarrow> nat \<Rightarrow> flow_detail \<Rightarrow> trace_info \<Rightarrow> flow_export \<Rightarrow> flow_export" where
  "count_packet cfg i d t st =
     (let f = fx_flows st ! i in
      if flow_packet_anchor cfg t (ph_proto_l4 (fd_pkt d)) (fd_direction d)
      then if fd_direction d = PACKET_DIRECTION_TX then put_flow i (f\<lparr>fs_tx_packets := fs_tx_packets f + 1\<rparr>) st
           else if fd_direction d = PACKET_DIRECTION_RX then put_flow i (f\<lparr>fs_rx_packets := fs_rx_packets f + 1\<rparr>) st
           else st
      else st)"

definition flow_from_packet :: "flow_config \<Rightarrow> flow_detail \<Rightarrow> trace_info \<Rightarrow> flow_export \<Rightarrow> nat option \<times> flow_export" where
  "flow_from_packet cfg d t st =
     (let p = fd_pkt d; socket_id = packet_socket_id d st in
      if \<not> flow_packet_supported p (Some t) then (None, st)
      else
        let fid = packet_flow_id (ns_salt (fx_native st)) p in
        (case flow_lookup fid socket_id (fd_netns d) (ph_ts p) st of
           (found, st1) \<Rightarrow>
             if found = None \<and> fx_ambiguous st1 then (None, st1)
             else if packet_trace_terminal (Some t)
             then (if found \<noteq> None then found else flow_find_destroyed fid socket_id (fd_netns d) (ph_ts p) st1, st1)
             else (case found of
                     Some i \<Rightarrow> (Some i, count_packet cfg i d t (flow_touch cfg i d socket_id (ph_ts p) st1))
                   | None \<Rightarrow>
                       (case flow_create cfg fid socket_id (fd_netns d) (ph_ts p) st1 of
                          (None, st2) \<Rightarrow> (None, st2)
                        | (Some i, st2) \<Rightarrow>
                            (case packet_addresses cfg p of (source, dest) \<Rightarrow>
                               let from_source = (strncpy 45 source, ntohs (ph_sport p));
                                   from_dest = (strncpy 45 dest, ntohs (ph_dport p));
                                   rx = (fd_direction d = PACKET_DIRECTION_RX) in
                               (Some i, count_packet cfg i d t
                                  (flow_open cfg i d socket_id (ph_ts p) (ph_proto_l4 p)
                                     (if rx then from_dest else from_source) (if rx then from_source else from_dest) st2)))))))"

section \<open>Destruction, expiry and the end of the capture\<close>

definition each_flow :: "(nat \<Rightarrow> flow_state \<Rightarrow> flow_export \<Rightarrow> flow_export) \<Rightarrow> flow_export \<Rightarrow> flow_export" where
  "each_flow step st = fold (\<lambda>i st. step i (fx_flows st ! i) st) [0..<length (fx_flows st)] st"

definition destroy_socket :: "flow_config \<Rightarrow> u64 \<Rightarrow> u64 \<Rightarrow> flow_export \<Rightarrow> flow_export" where
  "destroy_socket cfg socket_id ts st =
     each_flow (\<lambda>i f st. if fs_socket_id f = socket_id then flow_finish cfg i ts ''socket_destroy'' False st else st) st"

definition UDP_FLOW_IDLE_NS :: u64 where
  "UDP_FLOW_IDLE_NS = 30000000000"

definition expire_flows :: "flow_config \<Rightarrow> u64 \<Rightarrow> flow_export \<Rightarrow> flow_export" where
  "expire_flows cfg now st =
     each_flow (\<lambda>i f st. if fs_active f \<and> fs_protocol f = IPPROTO_UDP \<and> fs_last_ts f + UDP_FLOW_IDLE_NS \<le> now
                         then flow_finish cfg i (fs_last_ts f + UDP_FLOW_IDLE_NS) ''idle_timeout'' True st else st) st"

definition finish_flows :: "flow_config \<Rightarrow> u64 \<Rightarrow> flow_export \<Rightarrow> flow_export" where
  "finish_flows cfg end_ts st = each_flow (\<lambda>i f st. flow_finish cfg i end_ts ''trace_end'' True st) st"

section \<open>Operations\<close>

text \<open>A finished read or write: the bytes it moved are charged to its flow.\<close>

definition flow_account :: "nat \<Rightarrow> u64 \<Rightarrow> u64 \<Rightarrow> bool \<Rightarrow> flow_export \<Rightarrow> flow_export" where
  "flow_account i ts n tx st =
     (let f = fx_flows st ! i; f1 = (if fs_last_ts f < ts then f\<lparr>fs_last_ts := ts\<rparr> else f) in
      put_flow i (if n = 0 then f1
                  else if tx then f1\<lparr>fs_tx_bytes := fs_tx_bytes f1 + n\<rparr>
                  else f1\<lparr>fs_rx_bytes := fs_rx_bytes f1 + n\<rparr>) st)"

text \<open>
  What reaches the table: socket and packet events, finished calls, queries of other exporters, the
  destruction of a socket, ticks and the end of the capture.  \<open>Op_other\<close> stands for everything else
  the exporter does: it writes lines of other types and changes the native trace.
\<close>

datatype flow_op =
    Op_socket flow_detail u64
  | Op_packet flow_detail trace_info
  | Op_account nat u64 u64 bool
  | Op_query flow_detail bool
  | Op_destroy u64 u64
  | Op_expire u64
  | Op_finish u64
  | Op_other native_state "json_line list"

fun flow_step :: "flow_config \<Rightarrow> flow_op \<Rightarrow> flow_export \<Rightarrow> flow_export" where
  "flow_step cfg (Op_socket d ts) st = snd (flow_from_socket cfg d ts st)"
| "flow_step cfg (Op_packet d t) st = snd (flow_from_packet cfg d t st)"
| "flow_step cfg (Op_account i ts n tx) st =
     (if i < length (fx_flows st) \<and> fs_active (fx_flows st ! i) then flow_account i ts n tx st else st)"
| "flow_step cfg (Op_query d socket) st = snd (detail_flow_id cfg d socket st)"
| "flow_step cfg (Op_destroy socket_id ts) st = destroy_socket cfg socket_id ts st"
| "flow_step cfg (Op_expire now) st = expire_flows cfg now st"
| "flow_step cfg (Op_finish end_ts) st = finish_flows cfg end_ts st"
| "flow_step cfg (Op_other ns ls) st = st\<lparr>fx_native := ns, fx_json := map_option (\<lambda>l. l @ ls) (fx_json st)\<rparr>"

definition flow_run :: "flow_config \<Rightarrow> flow_op list \<Rightarrow> flow_export \<Rightarrow> flow_export" where
  "flow_run cfg ops st = fold (flow_step cfg) ops st"

definition flow_start :: "native_state \<Rightarrow> flow_export" where
  "flow_start ns =
     \<lparr>fx_flows = [], fx_capacity = 0, fx_serial = 0, fx_ambiguous = False, fx_tcp_count = 0, fx_udp_count = 0,
      fx_dns_count = 0, fx_json = Some [], fx_native = ns\<rparr>"

end
