(* ===== verification/FlowMoves.thy ===== *)
theory FlowMoves
  imports FlowTable
begin

text \<open>
  How the flow table moves.  The searches of the table as lists of hits; the lines of the event file
  by kind; \<open>flow_move\<close>, the five ways in which table and event file change together (nothing of the
  flows, a touch, a socket link, an opened flow, an ended flow); and the proof that every operation of
  the exporter on flows is a sequence of such moves.
\<close>

section \<open>Systems of moves\<close>

text \<open>
  Operations refine a system of moves when each, applied to a sound state, is a sequence of moves and
  leaves the state sound.  Then so is every run, and what each move keeps, every run keeps.
\<close>

locale move_system =
  fixes move :: "'s \<Rightarrow> 's \<Rightarrow> bool" and step :: "'o \<Rightarrow> 's \<Rightarrow> 's" and op_fine :: "'o \<Rightarrow> bool" and sound :: "'s \<Rightarrow> bool"
  assumes step_sound: "sound s \<Longrightarrow> op_fine op \<Longrightarrow> move\<^sup>*\<^sup>* s (step op s) \<and> sound (step op s)"
begin

lemma steps_move: "sound s \<Longrightarrow> list_all op_fine ops \<Longrightarrow> move\<^sup>*\<^sup>* s (fold step ops s) \<and> sound (fold step ops s)"
proof (induction ops arbitrary: s)
  case (Cons op ops)
  then show ?case
    using step_sound [of s op] Cons.IH [of "step op s"] by (auto intro: rtranclp_trans)
qed simp

lemma moves_keep: "move\<^sup>*\<^sup>* s t \<Longrightarrow> (\<And>s t. move s t \<Longrightarrow> keeps s \<Longrightarrow> keeps t) \<Longrightarrow> keeps s \<Longrightarrow> keeps t"
  by (induction rule: rtranclp_induct) blast+

lemma steps_keep:
  "sound s \<Longrightarrow> list_all op_fine ops \<Longrightarrow> (\<And>s t. move s t \<Longrightarrow> keeps s \<Longrightarrow> keeps t) \<Longrightarrow> keeps s \<Longrightarrow> keeps (fold step ops s)"
  using steps_move moves_keep by blast

end

section \<open>Searches\<close>

definition hits :: "('a \<Rightarrow> bool) \<Rightarrow> 'a list \<Rightarrow> nat list" where
  "hits p xs = filter (\<lambda>i. p (xs ! i)) [0..<length xs]"

lemma hits_from:
  "filter (\<lambda>j. p ((x # xs) ! (j - i))) [i..<i + length (x # xs)] =
     (if p x then [i] else []) @ filter (\<lambda>j. p (xs ! (j - Suc i))) [Suc i..<Suc i + length xs]"
proof -
  have "[i..<i + length (x # xs)] = i # [Suc i..<Suc i + length xs]"
    by (subst upt_conv_Cons) simp_all
  moreover have "filter (\<lambda>j. p ((x # xs) ! (j - i))) [Suc i..<Suc i + length xs] =
      filter (\<lambda>j. p (xs ! (j - Suc i))) [Suc i..<Suc i + length xs]"
    by (rule filter_cong) (auto simp: nth_Cons')
  ultimately show ?thesis
    by simp
qed

lemma hits_iff [simp]: "i \<in> set (hits p xs) \<longleftrightarrow> i < length xs \<and> p (xs ! i)"
  by (auto simp: hits_def)

lemma hits_empty: "hits p xs = [] \<longleftrightarrow> (\<forall>x \<in> set xs. \<not> p x)"
  unfolding hits_def filter_empty_conv all_set_conv_all_nth by simp

lemma distinct_hits [simp]: "distinct (hits p xs)"
  by (simp add: hits_def)

lemma hits_shift: "filter (\<lambda>j. p (xs ! (j - i))) [i..<i + length xs] = map ((+) i) (hits p xs)"
proof -
  have "[i..<i + length xs] = map ((+) i) [0..<length xs]"
    by (rule nth_equalityI) simp_all
  then show ?thesis
    by (simp add: hits_def filter_map o_def)
qed

lemma unique_loop_found:
  "unique_loop p (Some k) i fs = (if list_ex p fs then None else Some k)"
  by (induction fs arbitrary: i) auto

lemma unique_loop_hits_from:
  "unique_loop p None i fs =
     (case filter (\<lambda>j. p (fs ! (j - i))) [i..<i + length fs] of [j] \<Rightarrow> Some j | _ \<Rightarrow> None)"
proof (induction fs arbitrary: i)
  case Nil
  then show ?case by simp
next
  case (Cons f fs)
  have "list_ex p fs \<longleftrightarrow> filter (\<lambda>j. p (fs ! (j - Suc i))) [Suc i..<Suc i + length fs] \<noteq> []"
    unfolding hits_shift map_is_Nil_conv hits_empty by (simp add: list_ex_iff)
  then show ?case
    using Cons.IH [of "Suc i"] unfolding hits_from
    by (auto simp: unique_loop_found split: list.split)
qed

text \<open>A search that gives up at the second hit returns the only hit.\<close>

lemma unique_loop_hits: "unique_loop p None 0 fs = (case hits p fs of [i] \<Rightarrow> Some i | _ \<Rightarrow> None)"
  using unique_loop_hits_from [of p 0 fs] by (simp add: hits_def)

lemma find_loop_Some: "find_loop p i fs = Some j \<Longrightarrow> i \<le> j \<and> j - i < length fs \<and> p (fs ! (j - i))"
proof (induction fs arbitrary: i)
  case (Cons f fs)
  then show ?case
    by (auto split: if_splits simp: nth_Cons' Suc_diff_le dest!: Cons.IH [of "Suc i"])
qed simp

definition lookup_match :: "u64 \<Rightarrow> u32 \<Rightarrow> u64 \<Rightarrow> flow_state \<Rightarrow> bool" where
  "lookup_match tuple netns ts f \<longleftrightarrow> fs_tuple_id f = tuple \<and> fs_netns f = netns \<and> flow_alive_at ts f"

definition lookup_exact :: "u64 \<Rightarrow> u64 \<Rightarrow> u32 \<Rightarrow> u64 \<Rightarrow> flow_state \<Rightarrow> bool" where
  "lookup_exact tuple sid netns ts f \<longleftrightarrow> lookup_match tuple netns ts f \<and> sid \<noteq> 0 \<and> fs_socket_id f = sid"

definition lookup_candidate :: "u64 \<Rightarrow> u64 \<Rightarrow> u32 \<Rightarrow> u64 \<Rightarrow> flow_state \<Rightarrow> bool" where
  "lookup_candidate tuple sid netns ts f \<longleftrightarrow> lookup_match tuple netns ts f \<and> (sid = 0 \<or> fs_socket_id f = 0)"

lemma lookup_loop_from:
  "lookup_loop tuple sid netns ts i fs h =
     (let E = filter (\<lambda>j. lookup_exact tuple sid netns ts (fs ! (j - i))) [i..<i + length fs];
          C = filter (\<lambda>j. lookup_candidate tuple sid netns ts (fs ! (j - i))) [i..<i + length fs] in
      \<lparr>lh_candidate = (if C = [] then lh_candidate h else Some (last C)), lh_candidates = lh_candidates h + length C,
       lh_exact = (if E = [] then lh_exact h else Some (last E)), lh_exacts = lh_exacts h + length E\<rparr>)"
proof (induction fs arbitrary: i h)
  case Nil
  then show ?case by simp
next
  case (Cons f fs)
  show ?case
    unfolding lookup_loop.simps Cons.IH Let_def hits_from
    by (simp add: lookup_exact_def lookup_candidate_def lookup_match_def)
qed

text \<open>
  A lookup prefers the only flow of the event's socket; without one it takes the only flow whose
  socket, or whose event's socket, is unknown; several of either kind are ambiguous.
\<close>

lemma flow_lookup_hits:
  "flow_lookup tuple sid netns ts st =
     (case hits (lookup_exact tuple sid netns ts) (fx_flows st) of
        [i] \<Rightarrow> (Some i, st\<lparr>fx_ambiguous := False\<rparr>)
      | [] \<Rightarrow> (case hits (lookup_candidate tuple sid netns ts) (fx_flows st) of
                 [] \<Rightarrow> (None, st\<lparr>fx_ambiguous := False\<rparr>)
               | [i] \<Rightarrow> (Some i, st\<lparr>fx_ambiguous := False\<rparr>)
               | _ \<Rightarrow> (None, st\<lparr>fx_ambiguous := True\<rparr>))
      | _ \<Rightarrow> (None, st\<lparr>fx_ambiguous := True\<rparr>))"
proof -
  define E where "E = hits (lookup_exact tuple sid netns ts) (fx_flows st)"
  define C where "C = hits (lookup_candidate tuple sid netns ts) (fx_flows st)"
  have l: "lookup_loop tuple sid netns ts 0 (fx_flows st) \<lparr>lh_candidate = None, lh_candidates = 0, lh_exact = None, lh_exacts = 0\<rparr> =
      \<lparr>lh_candidate = (if C = [] then None else Some (last C)), lh_candidates = length C,
       lh_exact = (if E = [] then None else Some (last E)), lh_exacts = length E\<rparr>"
    unfolding lookup_loop_from Let_def E_def C_def hits_def by simp
  show ?thesis
    unfolding flow_lookup_def l E_def [symmetric] C_def [symmetric]
    by (cases E rule: remdups_adj.cases; cases C rule: remdups_adj.cases) simp_all
qed

lemma flow_lookup_frame: "flow_lookup tuple sid netns ts st = (r, st1) \<Longrightarrow> \<exists>b. st1 = st\<lparr>fx_ambiguous := b\<rparr>"
  unfolding flow_lookup_hits by (auto split: list.splits)

lemma flow_lookup_Some:
  assumes "flow_lookup tuple sid netns ts st = (Some i, st1)"
  shows "i < length (fx_flows st) \<and> lookup_match tuple netns ts (fx_flows st ! i) \<and>
         (sid = 0 \<or> fs_socket_id (fx_flows st ! i) = 0 \<or> fs_socket_id (fx_flows st ! i) = sid)"
proof -
  have "i \<in> set (hits (lookup_exact tuple sid netns ts) (fx_flows st)) \<or>
        i \<in> set (hits (lookup_candidate tuple sid netns ts) (fx_flows st))"
    using assms unfolding flow_lookup_hits by (auto split: list.splits simp del: hits_iff)
  then show ?thesis
    unfolding hits_iff lookup_exact_def lookup_candidate_def by auto
qed

lemma flow_lookup_None:
  assumes "flow_lookup tuple sid netns ts st = (None, st1)" and "\<not> fx_ambiguous st1" and "f \<in> set (fx_flows st)"
  shows "\<not> lookup_exact tuple sid netns ts f \<and> \<not> lookup_candidate tuple sid netns ts f"
proof -
  have "hits (lookup_exact tuple sid netns ts) (fx_flows st) = [] \<and> hits (lookup_candidate tuple sid netns ts) (fx_flows st) = []"
    using assms(1,2) unfolding flow_lookup_hits by (auto split: list.splits)
  then show ?thesis
    using assms(3) unfolding hits_empty by auto
qed

section \<open>Lines\<close>

definition line_kind :: "json_line \<Rightarrow> string \<Rightarrow> bool" where
  "line_kind l k \<longleftrightarrow> map_of l ''type'' = Some (JText (cstr k))"

definition flow_line :: "json_line \<Rightarrow> bool" where
  "flow_line l \<longleftrightarrow> line_kind l ''flow_start'' \<or> line_kind l ''flow_end'' \<or> line_kind l ''socket_flow_link''"

text \<open>The lines that are not of flows, and among them those of protocol calls.\<close>

definition plain_line :: "json_line \<Rightarrow> bool" where
  "plain_line l \<longleftrightarrow> \<not> flow_line l"

definition io_line :: "json_line \<Rightarrow> bool" where
  "io_line l \<longleftrightarrow> line_kind l ''tx_write_start'' \<or> line_kind l ''rx_read_start'' \<or> line_kind l ''tx_write_end'' \<or>
     line_kind l ''rx_read_end'' \<or> line_kind l ''io_complete''"

definition flow_ident :: "flow_state \<Rightarrow> json_value list" where
  "flow_ident f =
     [JId (fs_id f), JText (format_flow_label f 16), JText (cstr (flow_protocol_name f)), JText (fs_local_addr f),
      JNum (ucast (fs_local_port f)), JText (fs_remote_addr f), JNum (ucast (fs_remote_port f))]"

definition line_ident :: "json_line \<Rightarrow> json_value list" where
  "line_ident l = map (\<lambda>k. the (map_of l k))
     [''flow_id'', ''flow_tag'', ''protocol'', ''local_addr'', ''local_port'', ''remote_addr'', ''remote_port'']"

lemma start_line_view:
  "line_kind (start_line f) k \<longleftrightarrow> cstr k = cstr ''flow_start''" "line_ident (start_line f) = flow_ident f"
  by (auto simp: line_kind_def line_ident_def flow_ident_def start_line_def json_head_def)

lemma end_line_view:
  "line_kind (end_line f t r inc) k \<longleftrightarrow> cstr k = cstr ''flow_end''" "line_ident (end_line f t r inc) = flow_ident f"
  by (auto simp: line_kind_def line_ident_def flow_ident_def end_line_def json_head_def)

lemma link_line_view:
  "line_kind (link_line f t) k \<longleftrightarrow> cstr k = cstr ''socket_flow_link''"
  by (auto simp: line_kind_def link_line_def json_head_def)

lemma kinds_distinct [simp]:
  "cstr ''flow_start'' \<noteq> cstr ''flow_end''" "cstr ''flow_end'' \<noteq> cstr ''flow_start''"
  "cstr ''flow_start'' \<noteq> cstr ''socket_flow_link''" "cstr ''socket_flow_link'' \<noteq> cstr ''flow_start''"
  "cstr ''flow_end'' \<noteq> cstr ''socket_flow_link''" "cstr ''socket_flow_link'' \<noteq> cstr ''flow_end''"
  by (simp_all add: cstr_def)

section \<open>Moves\<close>

text \<open>What no event changes of a flow, and how its times and its socket may change.\<close>

definition same_flow :: "flow_state \<Rightarrow> flow_state \<Rightarrow> bool" where
  "same_flow f g \<longleftrightarrow>
     flow_ident g = flow_ident f \<and> fs_tuple_id g = fs_tuple_id f \<and> fs_netns g = fs_netns f \<and>
     fs_first_ts g = fs_first_ts f \<and> fs_display_index g = fs_display_index f \<and> fs_protocol g = fs_protocol f \<and>
     fs_local_port g = fs_local_port f \<and> fs_remote_port g = fs_remote_port f \<and>
     fs_active g = fs_active f \<and> fs_closed g = fs_closed f \<and> fs_end_ts g = fs_end_ts f \<and>
     fs_socket_ambiguous g = fs_socket_ambiguous f \<and> fs_linked_socket_id g = fs_linked_socket_id f \<and>
     (fs_socket_id g = fs_socket_id f \<or> fs_socket_id f = 0) \<and> fs_last_ts f \<le> fs_last_ts g \<and>
     (fs_last_ts g = fs_last_ts f \<or> fs_active f \<or> fs_last_ts g \<le> (if fs_end_ts f \<noteq> 0 then fs_end_ts f else fs_last_ts f))"

definition same_counts :: "flow_export \<Rightarrow> flow_export \<Rightarrow> bool" where
  "same_counts st st' \<longleftrightarrow>
     fx_tcp_count st' = fx_tcp_count st \<and> fx_udp_count st' = fx_udp_count st \<and> fx_dns_count st' = fx_dns_count st"

definition json_adds :: "json_line list \<Rightarrow> flow_export \<Rightarrow> flow_export \<Rightarrow> bool" where
  "json_adds new st st' \<longleftrightarrow> fx_json st' = map_option (\<lambda>ls. ls @ new) (fx_json st)"

text \<open>The class of a flow names the counter its label is drawn from.\<close>

datatype flow_class = Tcp_flow | Dns_flow | Udp_flow

definition label_class :: "flow_state \<Rightarrow> flow_class" where
  "label_class f =
     (if fs_protocol f = IPPROTO_TCP then Tcp_flow
      else if fs_local_port f = 53 \<or> fs_remote_port f = 53 then Dns_flow else Udp_flow)"

fun class_count :: "flow_class \<Rightarrow> flow_export \<Rightarrow> u32" where
  "class_count Tcp_flow st = fx_tcp_count st"
| "class_count Dns_flow st = fx_dns_count st"
| "class_count Udp_flow st = fx_udp_count st"

text \<open>A flow as it enters the table.\<close>

definition new_flow :: "flow_state \<Rightarrow> bool" where
  "new_flow f \<longleftrightarrow>
     fs_active f \<and> \<not> fs_closed f \<and> fs_end_ts f = 0 \<and> fs_first_ts f = fs_last_ts f \<and> \<not> fs_socket_ambiguous f \<and>
     fs_linked_socket_id f = fs_socket_id f \<and> (fs_protocol f = IPPROTO_TCP \<or> fs_protocol f = IPPROTO_UDP)"

inductive flow_move :: "(json_line \<Rightarrow> bool) \<Rightarrow> flow_export \<Rightarrow> flow_export \<Rightarrow> bool" for q where
  quiet: "fx_flows st' = fx_flows st \<Longrightarrow> same_counts st st' \<Longrightarrow> json_adds new st st' \<Longrightarrow>
     list_all q new \<Longrightarrow> flow_move q st st'"
| touch: "i < length (fx_flows st) \<Longrightarrow> same_flow (fx_flows st ! i) g \<Longrightarrow> fx_flows st' = (fx_flows st)[i := g] \<Longrightarrow>
     same_counts st st' \<Longrightarrow> fx_json st' = fx_json st \<Longrightarrow> flow_move q st st'"
| link: "i < length (fx_flows st) \<Longrightarrow> f = fx_flows st ! i \<Longrightarrow> fs_socket_id f \<noteq> 0 \<Longrightarrow>
     fs_linked_socket_id f \<noteq> fs_socket_id f \<Longrightarrow>
     fx_flows st' = (fx_flows st)[i := f\<lparr>fs_linked_socket_id := fs_socket_id f\<rparr>] \<Longrightarrow> same_counts st st' \<Longrightarrow>
     json_adds [link_line f ts] st st' \<Longrightarrow> flow_move q st st'"
| opened: "new_flow f \<Longrightarrow> fs_display_index f = class_count (label_class f) st + 1 \<Longrightarrow>
     fx_flows st' = fx_flows st @ [f] \<Longrightarrow>
     (\<And>c. class_count c st' = class_count c st + (if c = label_class f then 1 else 0)) \<Longrightarrow>
     json_adds ((if fs_socket_id f \<noteq> 0 then [link_line f (fs_first_ts f)] else []) @ [start_line f]) st st' \<Longrightarrow>
     flow_move q st st'"
| finish: "i < length (fx_flows st) \<Longrightarrow> f = fx_flows st ! i \<Longrightarrow> fs_active f \<Longrightarrow> t = flow_end_time f e \<Longrightarrow>
     fx_flows st' = (fx_flows st)[i := f\<lparr>fs_end_ts := t, fs_active := False,
                       fs_closed := (\<not> incomplete \<and> reason = ''socket_destroy'')\<rparr>] \<Longrightarrow>
     same_counts st st' \<Longrightarrow> json_adds [end_line f t reason incomplete] st st' \<Longrightarrow> flow_move q st st'"

lemma put_flow_sel [simp]:
  "fx_flows (put_flow i f st) = (fx_flows st)[i := f]" "fx_json (put_flow i f st) = fx_json st"
  "fx_native (put_flow i f st) = fx_native st" "class_count c (put_flow i f st) = class_count c st"
  "fx_tcp_count (put_flow i f st) = fx_tcp_count st" "fx_udp_count (put_flow i f st) = fx_udp_count st"
  "fx_dns_count (put_flow i f st) = fx_dns_count st" "fx_ambiguous (put_flow i f st) = fx_ambiguous st"
  by (cases c; simp add: put_flow_def)+

lemma put_json_sel [simp]:
  "fx_flows (put_json l st) = fx_flows st" "fx_json (put_json l st) = map_option (\<lambda>ls. ls @ [l]) (fx_json st)"
  "fx_native (put_json l st) = fx_native st" "class_count c (put_json l st) = class_count c st"
  "fx_tcp_count (put_json l st) = fx_tcp_count st" "fx_udp_count (put_json l st) = fx_udp_count st"
  "fx_dns_count (put_json l st) = fx_dns_count st" "fx_ambiguous (put_json l st) = fx_ambiguous st"
  by (cases c; simp add: put_json_def)+

lemma put_flow_native: "put_flow i f (st\<lparr>fx_native := ns\<rparr>) = (put_flow i f st)\<lparr>fx_native := ns\<rparr>"
  by (cases st) (simp add: put_flow_def)

lemma class_count_native [simp]:
  "class_count c (st\<lparr>fx_native := ns\<rparr>) = class_count c st" "class_count c (st\<lparr>fx_ambiguous := b\<rparr>) = class_count c st"
  "class_count c (st\<lparr>fx_serial := s\<rparr>) = class_count c st"
  "class_count c (st\<lparr>fx_capacity := k, fx_flows := fs\<rparr>) = class_count c st"
  by (cases c; simp)+

section \<open>The parts of an operation\<close>

text \<open>
  Linking, announcing and ending a flow change the table and the event file as stated and, beside
  that, only the native trace.
\<close>

lemma flow_link_effect:
  "\<exists>ns. flow_link_socket cfg i ts st =
     (let f = fx_flows st ! i in
      if fs_socket_id f = 0 \<or> fs_linked_socket_id f = fs_socket_id f then st
      else put_json (link_line f ts) (put_flow i (f\<lparr>fs_linked_socket_id := fs_socket_id f\<rparr>) st))\<lparr>fx_native := ns\<rparr>"
proof -
  have l: "link_line (f\<lparr>fs_linked_socket_id := s\<rparr>) ts = link_line f ts" for f s
    by (simp add: link_line_def format_flow_label_def)
  show ?thesis
  proof (cases "fs_socket_id (fx_flows st ! i) = 0 \<or> fs_linked_socket_id (fx_flows st ! i) = fs_socket_id (fx_flows st ! i)")
    case True
    then have "flow_link_socket cfg i ts st = st\<lparr>fx_native := fx_native st\<rparr>"
      by (auto simp: flow_link_socket_def Let_def)
    then show ?thesis
      unfolding Let_def if_P [OF True] ..
  next
    case False
    define st1 where "st1 = put_json (link_line (fx_flows st ! i) ts)
      (put_flow i ((fx_flows st ! i)\<lparr>fs_linked_socket_id := fs_socket_id (fx_flows st ! i)\<rparr>) st)"
    have "\<exists>ns. flow_link_socket cfg i ts st = st1\<lparr>fx_native := ns\<rparr>"
      unfolding flow_link_socket_def Let_def if_not_P [OF False] l st1_def [symmetric]
      by (auto split: option.splits prod.splits intro: exI [of _ "fx_native st1"])
    then show ?thesis
      unfolding Let_def if_not_P [OF False] st1_def .
  qed
qed

lemma flow_emit_effect:
  "\<exists>ns u. flow_emit_start cfg i st =
     (let st1 = flow_link_socket cfg i (fs_first_ts (fx_flows st ! i)) st; f = fx_flows st1 ! i in
      put_flow i (f\<lparr>fs_native_track_uuid := u\<rparr>) (put_json (start_line f) st1))\<lparr>fx_native := ns\<rparr>"
proof -
  define st1 where "st1 = flow_link_socket cfg i (fs_first_ts (fx_flows st ! i)) st"
  define f where "f = fx_flows st1 ! i"
  define st2 where "st2 = put_json (start_line f) st1"
  have same: "put_flow i (f\<lparr>fs_native_track_uuid := fs_native_track_uuid f\<rparr>) st2 = st2"
    by (simp add: put_flow_def st2_def f_def)
  have "\<exists>ns u. flow_emit_start cfg i st = (put_flow i (f\<lparr>fs_native_track_uuid := u\<rparr>) st2)\<lparr>fx_native := ns\<rparr>"
  proof (cases "exports_native st2")
    case False
    then have "flow_emit_start cfg i st = (put_flow i (f\<lparr>fs_native_track_uuid := fs_native_track_uuid f\<rparr>) st2)\<lparr>fx_native := fx_native st2\<rparr>"
      unfolding same by (simp add: flow_emit_start_def Let_def st1_def [symmetric] f_def [symmetric] st2_def [symmetric])
    then show ?thesis
      by blast
  next
    case True
    obtain t ns where t: "native_flow_track cfg f (fx_native st2) = (t, ns)"
      by (cases "native_flow_track cfg f (fx_native st2)")
    show ?thesis
    proof (cases t)
      case None
      then have "flow_emit_start cfg i st = (put_flow i (f\<lparr>fs_native_track_uuid := fs_native_track_uuid f\<rparr>) st2)\<lparr>fx_native := ns\<rparr>"
        unfolding same using True t
        by (simp add: flow_emit_start_def Let_def st1_def [symmetric] f_def [symmetric] st2_def [symmetric])
      then show ?thesis
        by blast
    next
      case (Some k)
      then show ?thesis
        using True t
        by (auto simp: flow_emit_start_def Let_def st1_def [symmetric] f_def [symmetric] st2_def [symmetric])
    qed
  qed
  then show ?thesis
    unfolding Let_def st1_def [symmetric] f_def [symmetric] st2_def [symmetric] .
qed

lemma flow_finish_effect:
  "\<exists>ns. flow_finish cfg i e reason incomplete st =
     (let f = fx_flows st ! i; t = flow_end_time f e in
      if \<not> fs_active f then st
      else put_flow i (f\<lparr>fs_end_ts := t, fs_active := False, fs_closed := (\<not> incomplete \<and> reason = ''socket_destroy'')\<rparr>)
             (put_json (end_line f t reason incomplete) st))\<lparr>fx_native := ns\<rparr>"
proof (cases "fs_active (fx_flows st ! i)")
  case True
  define st1 where "st1 = put_json (end_line (fx_flows st ! i) (flow_end_time (fx_flows st ! i) e) reason incomplete) st"
  have "\<exists>ns. (if b then st1\<lparr>fx_native := ns0\<rparr> else st1) = st1\<lparr>fx_native := ns\<rparr>" for b ns0
    by (auto intro: exI [of _ "fx_native st1"])
  then show ?thesis
    using True unfolding flow_finish_def Let_def st1_def [symmetric] by (simp flip: put_flow_native) metis
qed (auto simp: flow_finish_def intro: exI [of _ "fx_native st"])

section \<open>Every operation is a sequence of moves\<close>

lemma same_counts_iff: "same_counts st st' \<longleftrightarrow> (\<forall>c. class_count c st' = class_count c st)"
  unfolding same_counts_def by (metis (full_types) class_count.simps flow_class.exhaust)

lemma json_adds_refl [simp]: "json_adds [] st st' \<longleftrightarrow> fx_json st' = fx_json st"
  by (simp add: json_adds_def option.map_ident)

lemma flow_ident_cong:
  "fs_id g = fs_id f \<Longrightarrow> fs_display_index g = fs_display_index f \<Longrightarrow> fs_protocol g = fs_protocol f \<Longrightarrow>
   fs_local_port g = fs_local_port f \<Longrightarrow> fs_remote_port g = fs_remote_port f \<Longrightarrow>
   fs_local_addr g = fs_local_addr f \<Longrightarrow> fs_remote_addr g = fs_remote_addr f \<Longrightarrow> flow_ident g = flow_ident f"
  by (simp add: flow_ident_def format_flow_label_def flow_protocol_name_def)

lemma move_quiet: "fx_flows st' = fx_flows st \<Longrightarrow> same_counts st st' \<Longrightarrow> fx_json st' = fx_json st \<Longrightarrow> flow_move q st st'"
  by (rule quiet [of st' st "[]"]) simp_all

lemma link_moves:
  assumes "i < length (fx_flows st)"
  shows "(flow_move q)\<^sup>*\<^sup>* st (flow_link_socket cfg i ts st)"
proof -
  define f where "f = fx_flows st ! i"
  obtain ns where e: "flow_link_socket cfg i ts st =
      (if fs_socket_id f = 0 \<or> fs_linked_socket_id f = fs_socket_id f then st
       else put_json (link_line f ts) (put_flow i (f\<lparr>fs_linked_socket_id := fs_socket_id f\<rparr>) st))\<lparr>fx_native := ns\<rparr>"
    using flow_link_effect [of cfg i ts st] unfolding f_def Let_def by blast
  show ?thesis
  proof (cases "fs_socket_id f = 0 \<or> fs_linked_socket_id f = fs_socket_id f")
    case True
    then have "flow_move q st (flow_link_socket cfg i ts st)"
      unfolding e if_P [OF True] by (intro move_quiet) (simp_all add: same_counts_def)
    then show ?thesis ..
  next
    case False
    have "flow_move q st (flow_link_socket cfg i ts st)"
      unfolding e if_not_P [OF False]
      by (rule link [OF assms f_def]) (use False in \<open>simp_all add: same_counts_def json_adds_def\<close>)
    then show ?thesis ..
  qed
qed

lemma flow_set_owner_keeps:
  "fs_id (flow_set_owner d sid f) = fs_id f" "fs_tuple_id (flow_set_owner d sid f) = fs_tuple_id f"
  "fs_netns (flow_set_owner d sid f) = fs_netns f" "fs_first_ts (flow_set_owner d sid f) = fs_first_ts f"
  "fs_last_ts (flow_set_owner d sid f) = fs_last_ts f" "fs_end_ts (flow_set_owner d sid f) = fs_end_ts f"
  "fs_display_index (flow_set_owner d sid f) = fs_display_index f" "fs_protocol (flow_set_owner d sid f) = fs_protocol f"
  "fs_local_port (flow_set_owner d sid f) = fs_local_port f" "fs_remote_port (flow_set_owner d sid f) = fs_remote_port f"
  "fs_local_addr (flow_set_owner d sid f) = fs_local_addr f" "fs_remote_addr (flow_set_owner d sid f) = fs_remote_addr f"
  "fs_active (flow_set_owner d sid f) = fs_active f" "fs_closed (flow_set_owner d sid f) = fs_closed f"
  "fs_linked_socket_id (flow_set_owner d sid f) = fs_linked_socket_id f"
  "fs_tx_packets (flow_set_owner d sid f) = fs_tx_packets f" "fs_rx_packets (flow_set_owner d sid f) = fs_rx_packets f"
  "fs_tx_bytes (flow_set_owner d sid f) = fs_tx_bytes f" "fs_rx_bytes (flow_set_owner d sid f) = fs_rx_bytes f"
  "fs_native_track_uuid (flow_set_owner d sid f) = fs_native_track_uuid f"
  "fs_socket_id (flow_set_owner d sid f) = (if sid \<noteq> 0 then sid else fs_socket_id f)"
  "fs_socket_ambiguous (flow_set_owner d sid f) =
     (fs_socket_ambiguous f \<or> (sid \<noteq> 0 \<and> fs_socket_id f \<noteq> 0 \<and> fs_socket_id f \<noteq> sid))"
  by (simp_all add: flow_set_owner_def Let_def)

lemma touch_moves:
  assumes "i < length (fx_flows st)" and "flow_alive_at ts (fx_flows st ! i)"
    and "sid = 0 \<or> fs_socket_id (fx_flows st ! i) = 0 \<or> fs_socket_id (fx_flows st ! i) = sid"
  shows "(flow_move q)\<^sup>*\<^sup>* st (flow_touch cfg i d sid ts st)"
proof -
  define f where "f = fx_flows st ! i"
  define g where "g = flow_set_owner d sid (if fs_last_ts f < ts then f\<lparr>fs_last_ts := ts\<rparr> else f)"
  have "same_flow f g"
    using assms(2,3) unfolding same_flow_def g_def f_def [symmetric]
    by (auto simp: flow_set_owner_keeps flow_alive_at_def intro!: flow_ident_cong split: if_splits)
  then have m: "flow_move q st (put_flow i g st)"
    using assms(1) unfolding f_def by (intro touch [of i st g]) (simp_all add: same_counts_def)
  have "flow_touch cfg i d sid ts st = flow_link_socket cfg i ts (put_flow i g st)"
    by (simp add: flow_touch_def Let_def f_def g_def)
  moreover have "(flow_move q)\<^sup>*\<^sup>* (put_flow i g st) (flow_link_socket cfg i ts (put_flow i g st))"
    using assms(1) by (intro link_moves) simp
  ultimately show ?thesis
    using m by (metis converse_rtranclp_into_rtranclp)
qed

lemma same_flow_refl [simp]: "same_flow f f"
  by (simp add: same_flow_def)

lemma count_moves:
  assumes "i < length (fx_flows st)"
  shows "(flow_move q)\<^sup>*\<^sup>* st (count_packet cfg i d t st)"
proof -
  have tx: "flow_move q st (put_flow i ((fx_flows st ! i)\<lparr>fs_tx_packets := n\<rparr>) st)" for n
    by (rule touch [OF assms, where g = "(fx_flows st ! i)\<lparr>fs_tx_packets := n\<rparr>"])
      (auto simp: same_flow_def same_counts_def intro!: flow_ident_cong)
  have "flow_move q st (put_flow i ((fx_flows st ! i)\<lparr>fs_rx_packets := n\<rparr>) st)" for n
    by (rule touch [OF assms, where g = "(fx_flows st ! i)\<lparr>fs_rx_packets := n\<rparr>"])
      (auto simp: same_flow_def same_counts_def intro!: flow_ident_cong)
  with tx show ?thesis
    by (auto simp: count_packet_def Let_def)
qed

lemma account_moves:
  assumes "i < length (fx_flows st)" and "fs_active (fx_flows st ! i)"
  shows "flow_move q st (flow_account i ts n tx st)"
  using assms unfolding flow_account_def Let_def
  by (intro touch [OF assms(1)]) (auto simp: same_flow_def same_counts_def intro!: flow_ident_cong)

lemma finish_moves:
  assumes "i < length (fx_flows st)"
  shows "(flow_move q)\<^sup>*\<^sup>* st (flow_finish cfg i e reason incomplete st)"
proof -
  define f where "f = fx_flows st ! i"
  define t where "t = flow_end_time f e"
  obtain ns where e: "flow_finish cfg i e reason incomplete st =
      (if \<not> fs_active f then st
       else put_flow i (f\<lparr>fs_end_ts := t, fs_active := False, fs_closed := (\<not> incomplete \<and> reason = ''socket_destroy'')\<rparr>)
              (put_json (end_line f t reason incomplete) st))\<lparr>fx_native := ns\<rparr>"
    using flow_finish_effect [of cfg i e reason incomplete st] unfolding f_def t_def Let_def by blast
  have "flow_move q st (flow_finish cfg i e reason incomplete st)"
  proof (cases "fs_active f")
    case False
    then show ?thesis
      unfolding e by (intro move_quiet) (simp_all add: same_counts_def)
  next
    case True
    show ?thesis
      unfolding e
      by (rule finish [OF assms f_def True t_def]) (use True in \<open>simp_all add: same_counts_def json_adds_def\<close>)
  qed
  then show ?thesis ..
qed

lemma each_flow_moves:
  assumes "\<And>i st. i < length (fx_flows st) \<Longrightarrow> (flow_move q)\<^sup>*\<^sup>* st (step i (fx_flows st ! i) st)"
    and "\<And>i st. length (fx_flows (step i (fx_flows st ! i) st)) = length (fx_flows st)"
  shows "(flow_move q)\<^sup>*\<^sup>* st (each_flow step st)"
proof -
  have "(flow_move q)\<^sup>*\<^sup>* st (fold (\<lambda>i st. step i (fx_flows st ! i) st) is st)"
    if "\<forall>i \<in> set is. i < length (fx_flows st)" for "is" st
    using that
  proof (induction "is" arbitrary: st)
    case (Cons i "is")
    then show ?case
      using assms(1) [of i st] Cons.IH [of "step i (fx_flows st ! i) st"] assms(2) [of i st]
      by (auto intro: rtranclp_trans)
  qed simp
  then show ?thesis
    by (simp add: each_flow_def)
qed

lemma flow_finish_length [simp]: "length (fx_flows (flow_finish cfg i e reason incomplete st)) = length (fx_flows st)"
  using flow_finish_effect [of cfg i e reason incomplete st] by (auto simp: Let_def)

lemma class_count_fields [simp]:
  "class_count c (st\<lparr>fx_capacity := k\<rparr>) = class_count c st" "class_count c (st\<lparr>fx_flows := fs\<rparr>) = class_count c st"
  by (cases c; simp)+

lemma flow_create_Some:
  assumes "flow_create cfg tup sid netns ts st = (Some i, st2)"
  shows "i = length (fx_flows st) \<and> fx_json st2 = fx_json st \<and> (\<forall>c. class_count c st2 = class_count c st) \<and>
     fx_native st2 = fx_native st \<and> fx_ambiguous st2 = fx_ambiguous st \<and>
     (\<exists>fid. fx_flows st2 = fx_flows st @ [flow_zero\<lparr>fs_id := fid, fs_active := True, fs_tuple_id := tup, fs_socket_id := sid,
                              fs_netns := netns, fs_first_ts := ts, fs_last_ts := ts\<rparr>])"
  using assms by (auto simp: flow_create_def flow_add_def Let_def nth_append put_flow_def split: if_splits)

lemma flow_create_None:
  assumes "flow_create cfg tup sid netns ts st = (None, st2)"
  shows "st2 = st\<lparr>fx_serial := fx_serial st + 1\<rparr>"
  using assms by (auto simp: flow_create_def flow_add_def Let_def split: if_splits)

lemma assign_index_effect:
  assumes "fs_display_index (fx_flows st ! i) = 0" and "i < length (fx_flows st)"
  defines "f \<equiv> fx_flows st ! i"
  shows "fx_flows (flow_assign_display_index i st) = (fx_flows st)[i := f\<lparr>fs_display_index := class_count (label_class f) st + 1\<rparr>]"
    and "class_count c (flow_assign_display_index i st) = class_count c st + (if c = label_class f then 1 else 0)"
    and "fx_json (flow_assign_display_index i st) = fx_json st"
    and "fx_native (flow_assign_display_index i st) = fx_native st"
    and "fx_ambiguous (flow_assign_display_index i st) = fx_ambiguous st"
  using assms by (cases c; simp add: flow_assign_display_index_def Let_def label_class_def)+

lemma flow_open_effect:
  assumes "i < length (fx_flows st)" and "fx_flows st ! i = z" and "fs_display_index z = 0"
    and "fs_socket_id z = sid" and "\<not> fs_socket_ambiguous z" and "fs_linked_socket_id z = 0"
    and st'_def: "st' = flow_open cfg i d sid ts protocol local remote st"
  shows "\<exists>f. fx_flows st' = (fx_flows st)[i := f] \<and> fs_id f = fs_id z \<and> fs_tuple_id f = fs_tuple_id z \<and> fs_netns f = fs_netns z \<and>
     fs_active f = fs_active z \<and> fs_closed f = fs_closed z \<and> fs_end_ts f = fs_end_ts z \<and>
     fs_first_ts f = ts \<and> fs_last_ts f = ts \<and> fs_protocol f = protocol \<and>
     fs_local_addr f = fst local \<and> fs_local_port f = snd local \<and> fs_remote_addr f = fst remote \<and> fs_remote_port f = snd remote \<and>
     fs_tx_packets f = fs_tx_packets z \<and> fs_rx_packets f = fs_rx_packets z \<and>
     fs_tx_bytes f = fs_tx_bytes z \<and> fs_rx_bytes f = fs_rx_bytes z \<and>
     fs_socket_id f = sid \<and> fs_linked_socket_id f = sid \<and> \<not> fs_socket_ambiguous f \<and>
     fs_display_index f = class_count (label_class f) st + 1 \<and>
     (\<forall>c. class_count c st' = class_count c st + (if c = label_class f then 1 else 0)) \<and>
     json_adds ((if sid \<noteq> 0 then [link_line f ts] else []) @ [start_line f]) st st'"
proof -
  define f1 where "f1 = z\<lparr>fs_first_ts := ts, fs_last_ts := ts, fs_protocol := protocol, fs_local_addr := fst local,
      fs_remote_addr := fst remote, fs_local_port := snd local, fs_remote_port := snd remote\<rparr>"
  define st1 where "st1 = put_flow i f1 st"
  have s1: "fx_flows st1 ! i = f1" "i < length (fx_flows st1)" "fs_display_index f1 = 0"
    using assms(1,3) by (simp_all add: st1_def f1_def)
  define f2 where "f2 = f1\<lparr>fs_display_index := class_count (label_class f1) st + 1\<rparr>"
  define st2 where "st2 = flow_assign_display_index i st1"
  have st2: "fx_flows st2 = (fx_flows st)[i := f2]" "fx_json st2 = fx_json st"
      "\<And>c. class_count c st2 = class_count c st + (if c = label_class f1 then 1 else 0)"
    using assign_index_effect [of st1 i] s1 unfolding st2_def [symmetric]
    by (simp_all add: st1_def f2_def)
  define f3 where "f3 = flow_set_owner d sid f2"
  define st3 where "st3 = put_flow i f3 st2"
  have st3: "fx_flows st3 = (fx_flows st)[i := f3]" "fx_json st3 = fx_json st"
      "\<And>c. class_count c st3 = class_count c st + (if c = label_class f1 then 1 else 0)"
    by (simp_all add: st3_def st2)
  have f3: "fs_id f3 = fs_id z" "fs_tuple_id f3 = fs_tuple_id z" "fs_netns f3 = fs_netns z" "fs_active f3 = fs_active z"
      "fs_closed f3 = fs_closed z" "fs_end_ts f3 = fs_end_ts z" "fs_first_ts f3 = ts" "fs_last_ts f3 = ts" "fs_protocol f3 = protocol"
      "fs_local_addr f3 = fst local" "fs_local_port f3 = snd local" "fs_remote_addr f3 = fst remote" "fs_remote_port f3 = snd remote"
      "fs_tx_packets f3 = fs_tx_packets z" "fs_rx_packets f3 = fs_rx_packets z" "fs_tx_bytes f3 = fs_tx_bytes z"
      "fs_rx_bytes f3 = fs_rx_bytes z" "fs_socket_id f3 = sid" "fs_linked_socket_id f3 = 0" "\<not> fs_socket_ambiguous f3"
      "fs_display_index f3 = class_count (label_class f1) st + 1"
    using assms(4,5,6) by (simp_all add: f3_def f2_def f1_def flow_set_owner_keeps)
  have cls: "label_class f3 = label_class f1"
    by (simp add: label_class_def f3 f1_def)
  define f4 where "f4 = f3\<lparr>fs_linked_socket_id := sid\<rparr>"
  define st4 where "st4 = flow_link_socket cfg i ts st3"
  have i3: "fx_flows st3 ! i = f3"
    using assms(1) by (simp add: st3)
  obtain ns where "st4 = (if sid = 0 then st3 else put_json (link_line f3 ts) (put_flow i f4 st3))\<lparr>fx_native := ns\<rparr>"
    using flow_link_effect [of cfg i ts st3] f3 unfolding st4_def [symmetric] i3 Let_def f4_def by (auto split: if_splits)
  moreover have "sid = 0 \<Longrightarrow> f4 = f3"
    using f3(19) by (simp add: f4_def)
  ultimately have st4: "fx_flows st4 = (fx_flows st)[i := f4]"
      "json_adds (if sid \<noteq> 0 then [link_line f3 ts] else []) st st4"
      "\<And>c. class_count c st4 = class_count c st + (if c = label_class f1 then 1 else 0)"
    using assms(1) by (auto simp: st3 json_adds_def option.map_ident split: if_splits)
  obtain u ns where "flow_emit_start cfg i st3 =
      (put_flow i (f4\<lparr>fs_native_track_uuid := u\<rparr>) (put_json (start_line f4) st4))\<lparr>fx_native := ns\<rparr>"
    using flow_emit_effect [of cfg i st3] assms(1) unfolding i3 f3 st4_def [symmetric] Let_def by (auto simp: st4)
  moreover have "st' = flow_emit_start cfg i st3"
  proof -
    have "st' = flow_emit_start cfg i (put_flow i (flow_set_owner d sid (fx_flows st2 ! i)) st2)"
      by (simp only: st'_def flow_open_def Let_def assms(2) st2_def st1_def f1_def)
    moreover have "fx_flows st2 ! i = f2"
      using assms(1) by (simp add: st2)
    ultimately show ?thesis
      by (simp only: st3_def f3_def)
  qed
  ultimately have e: "st' = (put_flow i (f4\<lparr>fs_native_track_uuid := u\<rparr>) (put_json (start_line f4) st4))\<lparr>fx_native := ns\<rparr>"
    by simp
  define f where "f = f4\<lparr>fs_native_track_uuid := u\<rparr>"
  have lines: "start_line f4 = start_line f" "link_line f3 ts = link_line f ts"
    by (simp_all add: f_def f4_def start_line_def link_line_def format_flow_label_def flow_protocol_name_def)
  have "fx_flows st' = (fx_flows st)[i := f]"
    by (simp add: e f_def st4)
  moreover have "label_class f = label_class f1"
  proof -
    have "label_class f = label_class f3"
      by (simp add: f_def f4_def label_class_def)
    with cls show ?thesis
      by simp
  qed
  moreover have "json_adds ((if sid \<noteq> 0 then [link_line f ts] else []) @ [start_line f]) st st'"
    using st4(2) unfolding e lines by (simp add: json_adds_def option.map_comp o_def)
  ultimately show ?thesis
    using f3 st4(3) by (intro exI [of _ f]) (simp add: f_def f4_def e)
qed

lemma flow_link_length [simp]: "length (fx_flows (flow_link_socket cfg i ts st)) = length (fx_flows st)"
  using flow_link_effect [of cfg i ts st] by (auto simp: Let_def)

lemma flow_touch_length [simp]: "length (fx_flows (flow_touch cfg i d sid ts st)) = length (fx_flows st)"
  by (simp add: flow_touch_def Let_def)

lemma create_open_effect:
  assumes "flow_create cfg tup sid netns ts0 st = (Some i, st2)"
    and "protocol = IPPROTO_TCP \<or> protocol = IPPROTO_UDP"
    and st'_def: "st' = flow_open cfg i d sid ts protocol local remote st2"
  shows "i = length (fx_flows st) \<and> (\<exists>f. fx_flows st' = fx_flows st @ [f] \<and> new_flow f \<and>
     fs_tuple_id f = tup \<and> fs_netns f = netns \<and> fs_socket_id f = sid \<and> fs_first_ts f = ts \<and>
     fs_tx_packets f = 0 \<and> fs_rx_packets f = 0 \<and> fs_tx_bytes f = 0 \<and> fs_rx_bytes f = 0 \<and>
     fs_display_index f = class_count (label_class f) st + 1 \<and>
     (\<forall>c. class_count c st' = class_count c st + (if c = label_class f then 1 else 0)) \<and>
     json_adds ((if fs_socket_id f \<noteq> 0 then [link_line f (fs_first_ts f)] else []) @ [start_line f]) st st')"
proof -
  from flow_create_Some [OF assms(1)] obtain fid where
    c: "i = length (fx_flows st)" "fx_json st2 = fx_json st" "\<And>c. class_count c st2 = class_count c st" and
    fl: "fx_flows st2 = fx_flows st @ [flow_zero\<lparr>fs_id := fid, fs_active := True, fs_tuple_id := tup, fs_socket_id := sid,
                              fs_netns := netns, fs_first_ts := ts0, fs_last_ts := ts0\<rparr>]"
    by auto
  define z where "z = flow_zero\<lparr>fs_id := fid, fs_active := True, fs_tuple_id := tup, fs_socket_id := sid,
                 fs_netns := netns, fs_first_ts := ts0, fs_last_ts := ts0\<rparr>"
  have i: "i < length (fx_flows st2)" "fx_flows st2 ! i = z"
    by (simp_all add: fl c(1) z_def)
  have zf: "fs_display_index z = 0" "fs_socket_id z = sid" "\<not> fs_socket_ambiguous z" "fs_linked_socket_id z = 0"
      "fs_active z" "\<not> fs_closed z" "fs_end_ts z = 0" "fs_tuple_id z = tup" "fs_netns z = netns"
      "fs_tx_packets z = 0" "fs_rx_packets z = 0" "fs_tx_bytes z = 0" "fs_rx_bytes z = 0"
    by (simp_all add: z_def flow_zero_def)
  have u: "(fx_flows st2)[length (fx_flows st) := f] = fx_flows st @ [f]" for f
    by (simp add: fl)
  show ?thesis
    by (rule conjI [OF c(1)], rule ex_forward [OF flow_open_effect [OF i zf(1-4) st'_def]])
      (use assms(2) c zf in \<open>simp add: u new_flow_def json_adds_def\<close>)
qed

lemma create_open_move:
  assumes "flow_create cfg tup sid netns ts0 st = (Some i, st2)"
    and "protocol = IPPROTO_TCP \<or> protocol = IPPROTO_UDP"
  shows "flow_move q st (flow_open cfg i d sid ts protocol local remote st2) \<and>
         i < length (fx_flows (flow_open cfg i d sid ts protocol local remote st2))"
  using create_open_effect [OF assms refl, of d ts local remote] by (auto intro: opened)

lemma lookup_quiet: "flow_lookup tup sid netns ts st = (r, st1) \<Longrightarrow> flow_move q st st1"
  by (drule flow_lookup_frame) (auto intro!: move_quiet simp: same_counts_def)

lemma create_None_quiet: "flow_create cfg tup sid netns ts st = (None, st2) \<Longrightarrow> flow_move q st st2"
  using flow_create_None [of cfg tup sid netns ts st st2] by (intro move_quiet) (simp_all add: same_counts_def)

lemma lookup_same_flows: "flow_lookup tup sid netns ts st = (r, st1) \<Longrightarrow> fx_flows st1 = fx_flows st"
  by (drule flow_lookup_frame) auto

text \<open>The cases of an event: nothing is done, a known flow is touched, or a new one is opened.\<close>

definition socket_lookup :: "flow_detail \<Rightarrow> u64 \<Rightarrow> flow_export \<Rightarrow> nat option \<times> flow_export" where
  "socket_lookup d ts st =
     flow_lookup (socket_flow_id (ns_salt (fx_native st)) (fd_ske d)) (event_socket_id d st) (fd_netns d) ts st"

definition packet_lookup :: "flow_detail \<Rightarrow> flow_export \<Rightarrow> nat option \<times> flow_export" where
  "packet_lookup d st =
     flow_lookup (packet_flow_id (ns_salt (fx_native st)) (fd_pkt d)) (packet_socket_id d st) (fd_netns d) (ph_ts (fd_pkt d)) st"

lemma flow_from_socket_cases:
  obtains (skip) st1 where "flow_from_socket cfg d ts st = (None, st1)" "fx_flows st1 = fx_flows st" "(flow_move q)\<^sup>*\<^sup>* st st1"
  | (touch) i st1 where "socket_lookup d ts st = (Some i, st1)"
      "flow_from_socket cfg d ts st = (Some i, flow_touch cfg i d (event_socket_id d st) ts st1)"
  | (create) st1 i st2 protocol local remote where "socket_lookup d ts st = (None, st1)" "\<not> fx_ambiguous st1"
      "flow_create cfg (socket_flow_id (ns_salt (fx_native st)) (fd_ske d)) (event_socket_id d st) (fd_netns d) ts st1 = (Some i, st2)"
      "protocol = IPPROTO_TCP \<or> protocol = IPPROTO_UDP"
      "flow_from_socket cfg d ts st = (Some i, flow_open cfg i d (event_socket_id d st) ts protocol local remote st2)"
proof (cases "flow_socket_supported (fd_ske d)")
  case False
  then show ?thesis
    using skip [of st] by (simp add: flow_from_socket_def Let_def)
next
  case True
  obtain r st1 where l: "socket_lookup d ts st = (r, st1)"
    by (cases "socket_lookup d ts st")
  note q = r_into_rtranclp [where r = "flow_move q", OF lookup_quiet [OF l [unfolded socket_lookup_def]]] lookup_same_flows [OF l [unfolded socket_lookup_def]]
  show ?thesis
  proof (cases r)
    case (Some i)
    then show ?thesis
      using touch [of i st1] True l by (simp add: flow_from_socket_def Let_def socket_lookup_def)
  next
    case None
    show ?thesis
    proof (cases "fx_ambiguous st1")
      case True
      then show ?thesis
        using skip [of st1] \<open>flow_socket_supported (fd_ske d)\<close> l None q
        by (simp add: flow_from_socket_def Let_def socket_lookup_def)
    next
      case False
      obtain r2 st2 where c: "flow_create cfg (socket_flow_id (ns_salt (fx_native st)) (fd_ske d)) (event_socket_id d st) (fd_netns d) ts st1 = (r2, st2)"
        by (cases "flow_create cfg (socket_flow_id (ns_salt (fx_native st)) (fd_ske d)) (event_socket_id d st) (fd_netns d) ts st1")
      show ?thesis
      proof (cases r2)
        case None
        have m: "(flow_move q)\<^sup>*\<^sup>* st st2"
          using q(1) create_None_quiet [OF c [unfolded None]] by (rule rtranclp.rtrancl_into_rtrancl)
        from None show ?thesis
          using skip [of st2] True False l c \<open>r = None\<close> q m flow_create_None [OF c [unfolded None]]
          by (simp add: flow_from_socket_def Let_def socket_lookup_def)
      next
        case (Some i)
        obtain source dest where a: "packet_addresses cfg (fd_ske d) = (source, dest)"
          by (cases "packet_addresses cfg (fd_ske d)")
        have "flow_from_socket cfg d ts st = (Some i, flow_open cfg i d (event_socket_id d st) ts (ph_proto_l4 (fd_ske d))
            (source, ntohs (ph_sport (fd_ske d))) (dest, ntohs (ph_dport (fd_ske d))) st2)"
          using True False l c Some \<open>r = None\<close> a by (simp add: flow_from_socket_def Let_def socket_lookup_def)
        moreover have "ph_proto_l4 (fd_ske d) = IPPROTO_TCP \<or> ph_proto_l4 (fd_ske d) = IPPROTO_UDP"
          using True by (auto simp: flow_socket_supported_def)
        ultimately show ?thesis
          using create False l c Some \<open>r = None\<close> by blast
      qed
    qed
  qed
qed

lemma flow_from_packet_cases:
  obtains (skip) r st1 where "flow_from_packet cfg d t st = (r, st1)" "fx_flows st1 = fx_flows st" "(flow_move q)\<^sup>*\<^sup>* st st1"
      "r = None \<or> packet_trace_terminal (Some t)"
  | (touch) i st1 where "packet_lookup d st = (Some i, st1)" "\<not> packet_trace_terminal (Some t)"
      "flow_from_packet cfg d t st =
         (Some i, count_packet cfg i d t (flow_touch cfg i d (packet_socket_id d st) (ph_ts (fd_pkt d)) st1))"
  | (create) st1 i st2 protocol local remote where "packet_lookup d st = (None, st1)" "\<not> fx_ambiguous st1"
      "\<not> packet_trace_terminal (Some t)"
      "flow_create cfg (packet_flow_id (ns_salt (fx_native st)) (fd_pkt d)) (packet_socket_id d st) (fd_netns d) (ph_ts (fd_pkt d)) st1 =
         (Some i, st2)"
      "protocol = IPPROTO_TCP \<or> protocol = IPPROTO_UDP"
      "flow_from_packet cfg d t st =
         (Some i, count_packet cfg i d t (flow_open cfg i d (packet_socket_id d st) (ph_ts (fd_pkt d)) protocol local remote st2))"
proof (cases "flow_packet_supported (fd_pkt d) (Some t)")
  case False
  then show ?thesis
    using skip [of None st] by (simp add: flow_from_packet_def Let_def)
next
  case True
  obtain r st1 where l: "packet_lookup d st = (r, st1)"
    by (cases "packet_lookup d st")
  note q = r_into_rtranclp [where r = "flow_move q", OF lookup_quiet [OF l [unfolded packet_lookup_def]]] lookup_same_flows [OF l [unfolded packet_lookup_def]]
  show ?thesis
  proof (cases "(r = None \<and> fx_ambiguous st1) \<or> packet_trace_terminal (Some t)")
    case True
    then have "snd (flow_from_packet cfg d t st) = st1 \<and> (fst (flow_from_packet cfg d t st) = None \<or> packet_trace_terminal (Some t))"
      using \<open>flow_packet_supported (fd_pkt d) (Some t)\<close> l by (auto simp: flow_from_packet_def Let_def packet_lookup_def)
    then show ?thesis
      using skip [of "fst (flow_from_packet cfg d t st)" st1] q by (cases "flow_from_packet cfg d t st") auto
  next
    case False
    show ?thesis
    proof (cases r)
      case (Some i)
      then show ?thesis
        using touch [of i st1] True False l by (simp add: flow_from_packet_def Let_def packet_lookup_def)
    next
      case None
      obtain r2 st2 where c: "flow_create cfg (packet_flow_id (ns_salt (fx_native st)) (fd_pkt d)) (packet_socket_id d st) (fd_netns d)
          (ph_ts (fd_pkt d)) st1 = (r2, st2)"
        by (cases "flow_create cfg (packet_flow_id (ns_salt (fx_native st)) (fd_pkt d)) (packet_socket_id d st) (fd_netns d)
          (ph_ts (fd_pkt d)) st1")
      show ?thesis
      proof (cases r2)
        case None
        have m: "(flow_move q)\<^sup>*\<^sup>* st st2"
          using q(1) create_None_quiet [OF c [unfolded None]] by (rule rtranclp.rtrancl_into_rtrancl)
        from None show ?thesis
          using skip [of None st2] True False l c \<open>r = None\<close> q m flow_create_None [OF c [unfolded None]]
          by (simp add: flow_from_packet_def Let_def packet_lookup_def)
      next
        case (Some i)
        obtain source dest where a: "packet_addresses cfg (fd_pkt d) = (source, dest)"
          by (cases "packet_addresses cfg (fd_pkt d)")
        have "\<exists>local remote. flow_from_packet cfg d t st = (Some i, count_packet cfg i d t
            (flow_open cfg i d (packet_socket_id d st) (ph_ts (fd_pkt d)) (ph_proto_l4 (fd_pkt d)) local remote st2))"
          using True False l c Some \<open>r = None\<close> a by (simp add: flow_from_packet_def Let_def packet_lookup_def) blast
        moreover have "ph_proto_l4 (fd_pkt d) = IPPROTO_TCP \<or> ph_proto_l4 (fd_pkt d) = IPPROTO_UDP"
          using True by (auto simp: flow_packet_supported_def)
        ultimately show ?thesis
          using create False l c Some \<open>r = None\<close> by blast
      qed
    qed
  qed
qed

lemma lookup_touch_moves:
  assumes "flow_lookup tup sid netns ts st = (Some i, st1)"
  shows "(flow_move q)\<^sup>*\<^sup>* st (flow_touch cfg i d sid ts st1) \<and> i < length (fx_flows st1)"
proof -
  have "(flow_move q)\<^sup>*\<^sup>* st1 (flow_touch cfg i d sid ts st1)"
    using flow_lookup_Some [OF assms] unfolding lookup_match_def
    by (intro touch_moves) (simp_all add: lookup_same_flows [OF assms])
  then show ?thesis
    using lookup_quiet [OF assms] flow_lookup_Some [OF assms] lookup_same_flows [OF assms]
    by (auto intro: converse_rtranclp_into_rtranclp)
qed

lemma lookup_open_moves:
  assumes "flow_lookup tup sid netns ts st = (None, st1)" and "flow_create cfg tup sid netns ts st1 = (Some i, st2)"
    and "protocol = IPPROTO_TCP \<or> protocol = IPPROTO_UDP"
  shows "(flow_move q)\<^sup>*\<^sup>* st (flow_open cfg i d sid ts protocol local remote st2) \<and>
         i < length (fx_flows (flow_open cfg i d sid ts protocol local remote st2))"
  using lookup_quiet [OF assms(1)] create_open_move [OF assms(2,3)] by (meson r_into_rtranclp rtranclp.rtrancl_into_rtrancl)

lemma socket_moves: "(flow_move q)\<^sup>*\<^sup>* st (snd (flow_from_socket cfg d ts st))"
proof (cases rule: flow_from_socket_cases [of cfg d ts st])
  case (touch i st1)
  then show ?thesis
    using lookup_touch_moves unfolding socket_lookup_def by auto
next
  case (create st1 i st2 protocol local remote)
  then show ?thesis
    using lookup_open_moves unfolding socket_lookup_def by auto
qed simp

lemma packet_moves: "(flow_move q)\<^sup>*\<^sup>* st (snd (flow_from_packet cfg d t st))"
proof (cases rule: flow_from_packet_cases [of cfg d t st])
  case (touch i st1)
  then show ?thesis
    using lookup_touch_moves [of _ _ _ _ st i st1] count_moves unfolding packet_lookup_def
    by (metis (no_types, lifting) flow_touch_length rtranclp_trans snd_conv)
next
  case (create st1 i st2 protocol local remote)
  then show ?thesis
    using lookup_open_moves [OF create(1) [unfolded packet_lookup_def] create(4,5)] count_moves
    by (metis (no_types, lifting) rtranclp_trans snd_conv)
qed simp

fun op_lines :: "(json_line \<Rightarrow> bool) \<Rightarrow> flow_op \<Rightarrow> bool" where
  "op_lines q (Op_other ns ls) = list_all q ls"
| "op_lines q _ = True"

text \<open>The other exporters write no lines of flows.\<close>

abbreviation op_ok :: "flow_op \<Rightarrow> bool" where
  "op_ok \<equiv> op_lines plain_line"

lemma query_moves: "(flow_move q)\<^sup>*\<^sup>* st (snd (detail_flow_id cfg d socket st))"
proof -
  have "(flow_move q)\<^sup>*\<^sup>* st (snd (flow_lookup tup sid netns ts st))" for tup sid netns ts
    using lookup_quiet [of tup sid netns ts st] by (metis prod.collapse r_into_rtranclp)
  then show ?thesis
    unfolding detail_flow_id_def Let_def by (auto split: prod.splits) (metis snd_conv)+
qed

lemma step_moves: "op_lines q op \<Longrightarrow> (flow_move q)\<^sup>*\<^sup>* st (flow_step cfg op st)"
proof (cases op)
  case (Op_destroy sid ts)
  have "(flow_move q)\<^sup>*\<^sup>* st (each_flow (\<lambda>i f st. if fs_socket_id f = sid then flow_finish cfg i ts ''socket_destroy'' False st else st) st)"
    by (rule each_flow_moves) (auto intro: finish_moves)
  then show ?thesis
    by (simp add: Op_destroy destroy_socket_def)
next
  case (Op_expire now)
  have "(flow_move q)\<^sup>*\<^sup>* st (each_flow (\<lambda>i f st. if fs_active f \<and> fs_protocol f = IPPROTO_UDP \<and> fs_last_ts f + UDP_FLOW_IDLE_NS \<le> now
      then flow_finish cfg i (fs_last_ts f + UDP_FLOW_IDLE_NS) ''idle_timeout'' True st else st) st)"
    by (rule each_flow_moves) (auto intro: finish_moves)
  then show ?thesis
    by (simp add: Op_expire expire_flows_def)
next
  case (Op_finish e)
  have "(flow_move q)\<^sup>*\<^sup>* st (each_flow (\<lambda>i f st. flow_finish cfg i e ''trace_end'' True st) st)"
    by (rule each_flow_moves) (auto intro: finish_moves)
  then show ?thesis
    by (simp add: Op_finish finish_flows_def)
next
  case (Op_other ns ls)
  assume "op_lines q op"
  then have "flow_move q st (flow_step cfg op st)"
    unfolding Op_other by (intro quiet [of _ _ ls]) (simp_all add: same_counts_def json_adds_def)
  then show ?thesis ..
qed (auto intro: socket_moves packet_moves query_moves account_moves)

interpretation flow_system: move_system "flow_move q" "flow_step cfg" "op_lines q" "\<lambda>_. True" for q cfg
  by unfold_locales (simp add: step_moves)

lemma run_moves: "list_all (op_lines q) ops \<Longrightarrow> (flow_move q)\<^sup>*\<^sup>* st (flow_run cfg ops st)"
  unfolding flow_run_def using flow_system.steps_move by blast

end
