(* ===== verification/FlowLife.thy ===== *)
theory FlowLife
  imports FlowMoves "HOL-Library.Multiset"
begin

text \<open>
  The life of a flow.  The books the table keeps with the lines of the event file, preserved by every
  move: each flow has one start line, each ended flow one end line, each linked flow one link line, the
  display numbers of each class are consecutive.
\<close>

section \<open>Labels\<close>

definition class_prefix :: "flow_class \<Rightarrow> string" where
  "class_prefix c = (case c of Tcp_flow \<Rightarrow> ''tcp'' | Dns_flow \<Rightarrow> ''dns'' | Udp_flow \<Rightarrow> ''udp'')"

lemma unat_ucast_32: "unat (ucast v :: u64) = unat v" for v :: u32
  using unsigned_less [of v, where 'a = nat] by (simp add: unsigned_ucast_eq take_bit_nat_eq_self)

lemma print_num_u32: "length (print_num (ucast (v :: u32))) \<le> 10"
proof -
  have "unat (ucast v :: u64) < 10 ^ Suc 9"
    using unsigned_less [of v, where 'a = nat] by (simp add: unat_ucast_32)
  then show ?thesis
    using decimal_loop_digits [of "ucast v"] unfolding print_num_def by fastforce
qed

lemma flow_label_text:
  assumes "fs_protocol f = IPPROTO_TCP \<or> fs_protocol f = IPPROTO_UDP"
  shows "format_flow_label f 16 = cstr (class_prefix (label_class f)) @ cstr ''-'' @ print_num (ucast (fs_display_index f))"
proof -
  have p: "flow_label_prefix (fs_protocol f) (fs_local_port f) (fs_remote_port f) = class_prefix (label_class f)"
    using assms by (auto simp: flow_label_prefix_def class_prefix_def label_class_def IPPROTO_TCP_def IPPROTO_UDP_def)
  have "length (class_prefix (label_class f)) = 3"
    by (simp add: class_prefix_def split: flow_class.split)
  then show ?thesis
    using print_num_u32 [of "fs_display_index f"] unfolding format_flow_label_def snprintf_def p by simp
qed

lemma flow_label_inject:
  assumes "fs_protocol f = IPPROTO_TCP \<or> fs_protocol f = IPPROTO_UDP"
    and "fs_protocol g = IPPROTO_TCP \<or> fs_protocol g = IPPROTO_UDP"
    and "format_flow_label f 16 = format_flow_label g 16"
  shows "label_class f = label_class g \<and> fs_display_index f = fs_display_index g"
proof -
  have len: "length (class_prefix c) = 3" for c
    by (simp add: class_prefix_def split: flow_class.split)
  have e: "cstr (class_prefix (label_class f)) = cstr (class_prefix (label_class g)) \<and>
      print_num (ucast (fs_display_index f)) = print_num (ucast (fs_display_index g))"
    using assms(3) unfolding flow_label_text [OF assms(1)] flow_label_text [OF assms(2)] by (simp add: len)
  have "label_class f = label_class g"
    using e by (simp add: class_prefix_def split: flow_class.splits)
  moreover have "unat (ucast (fs_display_index f) :: u64) = unat (ucast (fs_display_index g) :: u64)"
    using e decimal_loop_digits unfolding print_num_def by metis
  then have "fs_display_index f = fs_display_index g"
    by (simp add: word_unat_eq_iff unat_ucast_32)
  ultimately show ?thesis
    by simp
qed

section \<open>The books\<close>

definition lines_of :: "string \<Rightarrow> json_line list \<Rightarrow> json_line list" where
  "lines_of k ls = filter (\<lambda>l. line_kind l k) ls"

definition line_num :: "json_line \<Rightarrow> string \<Rightarrow> u64" where
  "line_num l k = (case map_of l k of Some (JNum v) \<Rightarrow> v | _ \<Rightarrow> 0)"

text \<open>The times of an end line: the flow's first and last time, its end, and the duration between.\<close>

definition well_timed :: "json_line \<Rightarrow> bool" where
  "well_timed l \<longleftrightarrow>
     line_num l ''first_ts_ns'' \<le> line_num l ''last_ts_ns'' \<and> line_num l ''last_ts_ns'' \<le> line_num l ''ts_ns'' \<and>
     unat (line_num l ''duration_ns'') = unat (line_num l ''ts_ns'') - unat (line_num l ''first_ts_ns'')"

definition link_view :: "json_line \<Rightarrow> json_value list" where
  "link_view l = map (\<lambda>k. the (map_of l k)) [''flow_id'', ''flow_tag'', ''socket_id'']"

definition flow_link :: "flow_state \<Rightarrow> json_value list" where
  "flow_link f = [JId (fs_id f), JText (format_flow_label f 16), JId (fs_linked_socket_id f)]"

text \<open>What holds of every flow of the table.\<close>

definition flow_ok :: "flow_state \<Rightarrow> bool" where
  "flow_ok f \<longleftrightarrow>
     (fs_protocol f = IPPROTO_TCP \<or> fs_protocol f = IPPROTO_UDP) \<and> fs_first_ts f \<le> fs_last_ts f \<and>
     (fs_active f \<or> fs_last_ts f \<le> fs_end_ts f) \<and> \<not> fs_socket_ambiguous f \<and>
     (fs_linked_socket_id f = 0 \<or> fs_linked_socket_id f = fs_socket_id f)"

definition of_class :: "flow_class \<Rightarrow> flow_state list \<Rightarrow> flow_state list" where
  "of_class c fs = filter (\<lambda>f. label_class f = c) fs"

definition numbered :: "flow_export \<Rightarrow> bool" where
  "numbered st \<longleftrightarrow>
     (\<forall>c. class_count c st = of_nat (length (of_class c (fx_flows st))) \<and>
          map fs_display_index (of_class c (fx_flows st)) =
            map (\<lambda>k. of_nat (Suc k)) [0..<length (of_class c (fx_flows st))])"

definition booked :: "flow_state list \<Rightarrow> json_line list \<Rightarrow> bool" where
  "booked fs ls \<longleftrightarrow>
     map line_ident (lines_of ''flow_start'' ls) = map flow_ident fs \<and>
     mset (map line_ident (lines_of ''flow_end'' ls)) = mset (map flow_ident (filter (\<lambda>f. \<not> fs_active f) fs)) \<and>
     mset (map link_view (lines_of ''socket_flow_link'' ls)) =
       mset (map flow_link (filter (\<lambda>f. fs_linked_socket_id f \<noteq> 0) fs)) \<and>
     list_all well_timed (lines_of ''flow_end'' ls)"

definition flow_books :: "flow_export \<Rightarrow> bool" where
  "flow_books st \<longleftrightarrow>
     list_all flow_ok (fx_flows st) \<and> numbered st \<and> (case fx_json st of None \<Rightarrow> True | Some ls \<Rightarrow> booked (fx_flows st) ls)"

lemma lines_of_append [simp]: "lines_of k (ls @ ms) = lines_of k ls @ lines_of k ms"
  by (simp add: lines_of_def)

lemma lines_of_flow [simp]:
  "lines_of k [] = []" "lines_of k [start_line f] = (if k = ''flow_start'' then [start_line f] else [])"
  "lines_of k [end_line f t r inc] = (if k = ''flow_end'' then [end_line f t r inc] else [])"
  "lines_of k [link_line f ts] = (if k = ''socket_flow_link'' then [link_line f ts] else [])"
  by (simp_all add: lines_of_def start_line_view end_line_view link_line_view)

lemma lines_of_quiet:
  assumes "list_all plain_line ls"
  shows "lines_of ''flow_start'' ls = []" "lines_of ''flow_end'' ls = []" "lines_of ''socket_flow_link'' ls = []"
  using assms by (auto simp: lines_of_def plain_line_def flow_line_def filter_empty_conv list_all_iff)

lemma mset_filter_update:
  assumes "i < length xs"
  shows "mset (map h (filter p (xs[i := y]))) + (if p (xs ! i) then {# h (xs ! i) #} else {#}) =
         mset (map h (filter p xs)) + (if p y then {# h y #} else {#})"
proof -
  have e: "xs[i := y] = take i xs @ y # drop (Suc i) xs"
    using assms by (rule upd_conv_take_nth_drop)
  have "xs = take i xs @ xs ! i # drop (Suc i) xs"
    using assms by (rule id_take_nth_drop)
  then have "mset (map h (filter p xs)) = mset (map h (filter p (take i xs @ xs ! i # drop (Suc i) xs)))"
    by simp
  then show ?thesis
    unfolding e by simp
qed

lemma map_filter_update:
  assumes "i < length xs" and "h y = h (xs ! i)" and "p y = p (xs ! i)"
  shows "map h (filter p (xs[i := y])) = map h (filter p xs)"
proof -
  have e: "xs[i := y] = take i xs @ y # drop (Suc i) xs"
    using assms(1) by (rule upd_conv_take_nth_drop)
  have "xs = take i xs @ xs ! i # drop (Suc i) xs"
    using assms(1) by (rule id_take_nth_drop)
  then have "map h (filter p xs) = map h (filter p (take i xs @ xs ! i # drop (Suc i) xs))"
    by simp
  then show ?thesis
    unfolding e using assms(2,3) by simp
qed

lemma map_update_same: "i < length xs \<Longrightarrow> h y = h (xs ! i) \<Longrightarrow> map h (xs[i := y]) = map h xs"
  using map_filter_update [of i xs h y "\<lambda>_. True"] by simp

lemma numbered_update:
  assumes "numbered st" and "i < length (fx_flows st)" and "fx_flows st' = (fx_flows st)[i := g]" and "same_counts st st'"
    and "label_class g = label_class (fx_flows st ! i)" and "fs_display_index g = fs_display_index (fx_flows st ! i)"
  shows "numbered st'"
proof -
  have "map fs_display_index (of_class c (fx_flows st')) = map fs_display_index (of_class c (fx_flows st))" for c
    using assms unfolding of_class_def by (simp add: map_filter_update)
  moreover from this have "length (of_class c (fx_flows st')) = length (of_class c (fx_flows st))" for c
    using map_eq_imp_length_eq by blast
  ultimately show ?thesis
    using assms(1,4) by (simp add: numbered_def same_counts_iff)
qed

lemma of_class_append [simp]: "of_class c (fs @ gs) = of_class c fs @ of_class c gs"
  by (simp add: of_class_def)

lemma numbered_open:
  assumes "numbered st" and "fx_flows st' = fx_flows st @ [f]" and "fs_display_index f = class_count (label_class f) st + 1"
    and "\<And>c. class_count c st' = class_count c st + (if c = label_class f then 1 else 0)"
  shows "numbered st'"
  unfolding numbered_def
proof (intro allI)
  fix c
  have n: "class_count c st = of_nat (length (of_class c (fx_flows st)))"
      "map fs_display_index (of_class c (fx_flows st)) = map (\<lambda>k. of_nat (Suc k)) [0..<length (of_class c (fx_flows st))]"
    using assms(1) unfolding numbered_def by blast+
  have "of_class c [f] = (if c = label_class f then [f] else [])"
    by (simp add: of_class_def)
  then show "class_count c st' = of_nat (length (of_class c (fx_flows st'))) \<and>
      map fs_display_index (of_class c (fx_flows st')) = map (\<lambda>k. of_nat (Suc k)) [0..<length (of_class c (fx_flows st'))]"
    using n assms(2-4) by (auto simp: add.commute)
qed

lemma label_class_cong:
  "fs_protocol g = fs_protocol f \<Longrightarrow> fs_local_port g = fs_local_port f \<Longrightarrow> fs_remote_port g = fs_remote_port f \<Longrightarrow>
   label_class g = label_class f"
  by (simp add: label_class_def)

lemma flow_link_cong:
  "flow_ident g = flow_ident f \<Longrightarrow> fs_linked_socket_id g = fs_linked_socket_id f \<Longrightarrow> flow_link g = flow_link f"
  by (simp add: flow_link_def flow_ident_def)

lemma booked_update:
  assumes "booked fs ls" and "i < length fs" and "flow_ident g = flow_ident (fs ! i)"
    and "mset (map line_ident (lines_of ''flow_end'' new)) =
         (if fs_active (fs ! i) \<and> \<not> fs_active g then {# flow_ident g #} else {#})"
    and "\<not> fs_active (fs ! i) \<longrightarrow> \<not> fs_active g"
    and "mset (map link_view (lines_of ''socket_flow_link'' new)) =
         (if fs_linked_socket_id (fs ! i) = 0 \<and> fs_linked_socket_id g \<noteq> 0 then {# flow_link g #} else {#})"
    and "fs_linked_socket_id (fs ! i) \<noteq> 0 \<longrightarrow> fs_linked_socket_id g = fs_linked_socket_id (fs ! i)"
    and "lines_of ''flow_start'' new = []" and "list_all well_timed (lines_of ''flow_end'' new)"
  shows "booked (fs[i := g]) (ls @ new)"
proof -
  have "map flow_ident (fs[i := g]) = map flow_ident fs"
    using assms(2,3) by (rule map_update_same)
  moreover have "mset (map flow_ident (filter (\<lambda>f. \<not> fs_active f) (fs[i := g]))) =
      mset (map flow_ident (filter (\<lambda>f. \<not> fs_active f) fs)) + mset (map line_ident (lines_of ''flow_end'' new))"
    using mset_filter_update [OF assms(2), of flow_ident "\<lambda>f. \<not> fs_active f" g] assms(3-5) by (auto split: if_splits)
  moreover have "flow_link g = flow_link (fs ! i)" if "fs_linked_socket_id (fs ! i) \<noteq> 0"
    using that assms(3,7) by (intro flow_link_cong) auto
  then have "mset (map flow_link (filter (\<lambda>f. fs_linked_socket_id f \<noteq> 0) (fs[i := g]))) =
      mset (map flow_link (filter (\<lambda>f. fs_linked_socket_id f \<noteq> 0) fs)) + mset (map link_view (lines_of ''socket_flow_link'' new))"
    using mset_filter_update [OF assms(2), of flow_link "\<lambda>f. fs_linked_socket_id f \<noteq> 0" g] assms(6,7) by (auto split: if_splits)
  ultimately show ?thesis
    using assms(1,8,9) by (simp add: booked_def)
qed

lemma end_line_timed:
  assumes "fs_first_ts f \<le> fs_last_ts f"
  shows "well_timed (end_line f (flow_end_time f e) reason inc)"
    and "fs_last_ts f \<le> flow_end_time f e"
proof -
  have t: "fs_first_ts f \<le> flow_end_time f e" "fs_last_ts f \<le> flow_end_time f e"
    using assms by (auto simp: flow_end_time_def Let_def)
  then show "fs_last_ts f \<le> flow_end_time f e"
    by simp
  show "well_timed (end_line f (flow_end_time f e) reason inc)"
    using assms t by (simp add: well_timed_def line_num_def end_line_def json_head_def unat_sub)
qed

lemma link_line_link:
  "link_view (link_line f ts) = [JId (fs_id f), JText (format_flow_label f 16), JId (fs_socket_id f)]"
  by (simp add: link_view_def link_line_def json_head_def)

lemma books_json:
  assumes "flow_books st" and "list_all flow_ok (fx_flows st')" and "numbered st'" and "json_adds new st st'"
    and "\<And>ls. booked (fx_flows st) ls \<Longrightarrow> booked (fx_flows st') (ls @ new)"
  shows "flow_books st'"
  using assms by (auto simp: flow_books_def json_adds_def split: option.splits)

lemma all_update: "list_all P xs \<Longrightarrow> P y \<Longrightarrow> list_all P (xs[i := y])"
  using set_update_subset_insert [of xs i y] by (auto simp: list_all_iff)

lemma flow_move_books:
  assumes "flow_move plain_line st st'" and "flow_books st"
  shows "flow_books st'"
  using assms
proof (induction rule: flow_move.induct)
  case (quiet st' st new)
  then have "numbered st'"
    by (simp add: flow_books_def numbered_def same_counts_iff)
  with quiet show ?case
    by (intro books_json [of st st' new]) (simp_all add: flow_books_def booked_def lines_of_quiet)
next
  case (touch i st g st')
  have ok: "flow_ok (fx_flows st ! i)"
    using touch by (simp add: flow_books_def list_all_length)
  have "flow_ok g"
    using ok touch(2) by (auto simp: flow_ok_def same_flow_def split: if_splits)
  moreover have "numbered st'"
    using touch by (intro numbered_update [of st i st' g]) (auto simp: flow_books_def same_flow_def intro!: label_class_cong)
  moreover have "booked ((fx_flows st)[i := g]) (ls @ [])" if "booked (fx_flows st) ls" for ls
    using touch(2) by (intro booked_update [OF that touch(1)]) (auto simp: same_flow_def)
  ultimately show ?case
    using touch by (intro books_json [of st st' "[]"]) (auto simp: flow_books_def intro: all_update)
next
  case (link i st f st' ts)
  define g where "g = f\<lparr>fs_linked_socket_id := fs_socket_id f\<rparr>"
  have ok: "flow_ok f"
    using link by (simp add: flow_books_def list_all_length)
  have i: "flow_ident g = flow_ident f"
    by (rule flow_ident_cong) (simp_all add: g_def)
  have "flow_ok g"
    using ok by (simp add: flow_ok_def g_def)
  moreover have "numbered st'"
    using link by (intro numbered_update [of st i st' g]) (auto simp: flow_books_def g_def intro!: label_class_cong)
  moreover have "link_view (link_line f ts) = flow_link g"
    by (simp add: link_line_link flow_link_def g_def format_flow_label_def)
  then have "booked ((fx_flows st)[i := g]) (ls @ [link_line f ts])" if "booked (fx_flows st) ls" for ls
    using ok link(2-4) i by (intro booked_update [OF that link(1)]) (auto simp: g_def flow_ok_def)
  ultimately show ?case
    using link by (intro books_json [of st st' "[link_line f ts]"]) (auto simp: flow_books_def g_def intro: all_update)
next
  case (opened f st st')
  have "flow_ok f"
    using opened(1) by (auto simp: new_flow_def flow_ok_def)
  moreover have "numbered st'"
    using opened by (intro numbered_open [of st st' f]) (auto simp: flow_books_def)
  moreover have "booked (fx_flows st @ [f]) (ls @ (if fs_socket_id f \<noteq> 0 then [link_line f (fs_first_ts f)] else []) @ [start_line f])"
    if "booked (fx_flows st) ls" for ls
    using that opened(1) by (auto simp: booked_def new_flow_def start_line_view link_line_link flow_link_def)
  ultimately show ?case
    using opened by (intro books_json [OF _ _ _ opened(5)]) (auto simp: flow_books_def)
next
  case (finish i st f t e st' incomplete reason)
  define g where "g = f\<lparr>fs_end_ts := t, fs_active := False, fs_closed := (\<not> incomplete \<and> reason = ''socket_destroy'')\<rparr>"
  have ok: "flow_ok f"
    using finish by (simp add: flow_books_def list_all_length)
  have t: "well_timed (end_line f t reason incomplete)" "fs_last_ts f \<le> t"
    using ok end_line_timed [of f e] finish(4) by (auto simp: flow_ok_def)
  have i: "flow_ident g = flow_ident f"
    by (rule flow_ident_cong) (simp_all add: g_def)
  have "flow_ok g"
    using ok t by (simp add: flow_ok_def g_def)
  moreover have "numbered st'"
    using finish by (intro numbered_update [of st i st' g]) (auto simp: flow_books_def g_def intro!: label_class_cong)
  moreover have "booked ((fx_flows st)[i := g]) (ls @ [end_line f t reason incomplete])" if "booked (fx_flows st) ls" for ls
    using finish(2,3) i t by (intro booked_update [OF that finish(1)]) (auto simp: g_def end_line_view)
  ultimately show ?case
    using finish by (intro books_json [of st st' "[end_line f t reason incomplete]"]) (auto simp: flow_books_def g_def intro: all_update)
qed

lemma flow_moves_books: "(flow_move plain_line)\<^sup>*\<^sup>* st st' \<Longrightarrow> flow_books st \<Longrightarrow> flow_books st'"
  by (induction rule: rtranclp_induct) (auto intro: flow_move_books)

lemma flow_start_books: "flow_books (flow_start ns)"
proof -
  have "numbered (flow_start ns)"
    unfolding numbered_def
  proof (intro allI)
    show "class_count c (flow_start ns) = of_nat (length (of_class c (fx_flows (flow_start ns)))) \<and>
        map fs_display_index (of_class c (fx_flows (flow_start ns))) =
          map (\<lambda>k. of_nat (Suc k)) [0..<length (of_class c (fx_flows (flow_start ns)))]" for c
      by (cases c) (simp_all add: flow_start_def of_class_def)
  qed
  then show ?thesis
    by (simp add: flow_books_def flow_start_def booked_def)
qed

section \<open>What a move leaves alone\<close>

text \<open>How a flow may differ from what it was before.\<close>

definition flow_evolves :: "flow_state \<Rightarrow> flow_state \<Rightarrow> bool" where
  "flow_evolves f g \<longleftrightarrow>
     flow_ident g = flow_ident f \<and> fs_tuple_id g = fs_tuple_id f \<and> fs_netns g = fs_netns f \<and>
     fs_first_ts g = fs_first_ts f \<and> (fs_socket_id g = fs_socket_id f \<or> fs_socket_id f = 0) \<and>
     fs_last_ts f \<le> fs_last_ts g \<and> (fs_active g \<longrightarrow> fs_active f)"

lemma flow_evolves_trans: "flow_evolves f g \<Longrightarrow> flow_evolves g h \<Longrightarrow> flow_evolves f h"
  by (auto simp: flow_evolves_def)

lemma flow_move_evolves:
  assumes "flow_move plain_line st st'" and "i < length (fx_flows st)"
  shows "i < length (fx_flows st') \<and> flow_evolves (fx_flows st ! i) (fx_flows st' ! i)"
  using assms
proof (induction rule: flow_move.induct)
  case (link j st f st' ts)
  then show ?case
    by (cases "i = j") (auto simp: flow_evolves_def nth_list_update intro!: flow_ident_cong)
next
  case (touch j st g st')
  then show ?case
    by (cases "i = j") (auto simp: flow_evolves_def same_flow_def)
next
  case (finish j st f t e st' incomplete reason)
  then show ?case
    by (cases "i = j") (auto simp: flow_evolves_def nth_list_update intro!: flow_ident_cong)
qed (auto simp: flow_evolves_def nth_append)

lemma flow_moves_evolve:
  "(flow_move plain_line)\<^sup>*\<^sup>* st st' \<Longrightarrow> i < length (fx_flows st) \<Longrightarrow>
   i < length (fx_flows st') \<and> flow_evolves (fx_flows st ! i) (fx_flows st' ! i)"
proof (induction rule: rtranclp_induct)
  case base
  then show ?case
    by (simp add: flow_evolves_def)
next
  case (step st1 st2)
  then show ?case
    using flow_move_evolves [OF step(2), of i] flow_evolves_trans by blast
qed

section \<open>The end of the capture\<close>

lemma flow_finish_inactive:
  "i < length (fx_flows st) \<Longrightarrow> \<not> fs_active (fx_flows (flow_finish cfg i e reason incomplete st) ! i)"
  using flow_finish_effect [of cfg i e reason incomplete st] by (auto simp: Let_def split: if_splits)

lemma finish_flows_inactive: "f \<in> set (fx_flows (finish_flows cfg e st)) \<Longrightarrow> \<not> fs_active f"
proof -
  define step where "step i st = flow_finish cfg i e ''trace_end'' True st" for i st
  have len: "length (fx_flows (fold step is st)) = length (fx_flows st)" for "is" st
    by (induction "is" arbitrary: st) (simp_all add: step_def)
  have keep: "\<not> fs_active (fx_flows (fold step is st) ! j)"
    if "\<forall>i \<in> set is. i < length (fx_flows st)" "j < length (fx_flows st)" "j \<in> set is \<or> \<not> fs_active (fx_flows st ! j)" for "is" j st
    using that
  proof (induction "is" arbitrary: st)
    case (Cons i "is")
    have l: "length (fx_flows (step i st)) = length (fx_flows st)"
      by (simp add: step_def)
    have "flow_evolves (fx_flows st ! j) (fx_flows (step i st) ! j)"
      using flow_moves_evolve [OF finish_moves [of i st plain_line cfg e "''trace_end''" True], of j] Cons.prems by (simp add: step_def)
    moreover have "\<not> fs_active (fx_flows (step i st) ! i)"
      using Cons.prems by (simp add: step_def flow_finish_inactive)
    ultimately have "j \<in> set is \<or> \<not> fs_active (fx_flows (step i st) ! j)"
      using Cons.prems(3) by (auto simp: flow_evolves_def)
    then show ?case
      using Cons.IH [of "step i st"] Cons.prems(1,2) l by simp
  qed simp
  assume "f \<in> set (fx_flows (finish_flows cfg e st))"
  moreover have "finish_flows cfg e st = fold step [0..<length (fx_flows st)] st"
    by (simp add: finish_flows_def each_flow_def step_def [abs_def])
  ultimately show ?thesis
    using keep [of "[0..<length (fx_flows st)]" st] len by (auto simp: in_set_conv_nth)
qed

section \<open>Books and labels\<close>

lemma run_books: "list_all op_ok ops \<Longrightarrow> flow_books (flow_run cfg ops (flow_start ns))"
  using flow_moves_books [OF run_moves flow_start_books] .

lemma run_json: "fx_json st \<noteq> None \<Longrightarrow> list_all op_ok ops \<Longrightarrow> fx_json (flow_run cfg ops st) \<noteq> None"
proof -
  have m: "(flow_move plain_line)\<^sup>*\<^sup>* s s' \<Longrightarrow> fx_json s \<noteq> None \<Longrightarrow> fx_json s' \<noteq> None" for s s'
    by (induction rule: rtranclp_induct) (auto elim!: flow_move.cases simp: json_adds_def)
  show "fx_json st \<noteq> None \<Longrightarrow> list_all op_ok ops \<Longrightarrow> fx_json (flow_run cfg ops st) \<noteq> None"
    using m [OF run_moves] by blast
qed

lemma numbered_distinct:
  assumes "numbered st" and "length (fx_flows st) < 2 ^ 32"
  shows "distinct (map fs_display_index (of_class c (fx_flows st)))"
proof -
  define n where "n = length (of_class c (fx_flows st))"
  have n: "n < 2 ^ 32"
    using assms(2) length_filter_le [of "\<lambda>f. label_class f = c" "fx_flows st"] unfolding n_def of_class_def by linarith
  have "inj_on (\<lambda>k. of_nat (Suc k) :: u32) {0..<n}"
  proof (rule inj_onI)
    fix a b
    assume ab: "a \<in> {0..<n}" "b \<in> {0..<n}" "(of_nat (Suc a) :: u32) = of_nat (Suc b)"
    have "unat (of_nat (Suc k) :: u32) = Suc k" if "k \<in> {0..<n}" for k
      using that n by (subst unsigned_of_nat) (simp add: take_bit_nat_eq_self)
    then show "a = b"
      using ab by (metis Suc_inject)
  qed
  then show ?thesis
    using assms(1) unfolding numbered_def n_def by (simp add: distinct_map)
qed

lemma labels_distinct:
  assumes "numbered st" and "list_all flow_ok (fx_flows st)" and "length (fx_flows st) < 2 ^ 32"
  shows "distinct (map (\<lambda>f. format_flow_label f 16) (fx_flows st))"
proof -
  have "format_flow_label (fx_flows st ! i) 16 \<noteq> format_flow_label (fx_flows st ! j) 16"
    if "i < j" "j < length (fx_flows st)" for i j
  proof
    let ?f = "fx_flows st ! i" and ?g = "fx_flows st ! j"
    assume e: "format_flow_label ?f 16 = format_flow_label ?g 16"
    have "label_class ?f = label_class ?g \<and> fs_display_index ?f = fs_display_index ?g"
      using assms(2) that by (intro flow_label_inject [OF _ _ e]) (auto simp: list_all_length flow_ok_def)
    moreover have "fx_flows st = take j (fx_flows st) @ ?g # drop (Suc j) (fx_flows st)"
      using that(2) by (rule id_take_nth_drop)
    then have "of_class c (fx_flows st) = of_class c (take j (fx_flows st)) @ of_class c (?g # drop (Suc j) (fx_flows st))" for c
      by (metis of_class_append)
    then have "distinct (map fs_display_index (of_class c (take j (fx_flows st))) @
        map fs_display_index (of_class c (?g # drop (Suc j) (fx_flows st))))" for c
      using numbered_distinct [OF assms(1,3), of c] by (metis map_append)
    moreover have "?f \<in> set (of_class (label_class ?f) (take j (fx_flows st)))"
      using that unfolding of_class_def by (auto simp: in_set_conv_nth intro!: exI [of _ i])
    moreover have "?g \<in> set (of_class (label_class ?g) (?g # drop (Suc j) (fx_flows st)))"
      by (simp add: of_class_def)
    ultimately show False
      by (metis (no_types, lifting) disjoint_iff distinct_append image_eqI list.set_map)
  qed
  then show ?thesis
    unfolding distinct_conv_nth length_map
    by (metis (no_types, lifting) linorder_neqE_nat nth_map)
qed

definition line_tag :: "json_line \<Rightarrow> json_value" where
  "line_tag l = the (map_of l ''flow_tag'')"

lemma line_tags:
  "line_tag = (\<lambda>l. line_ident l ! Suc 0)" "line_tag = (\<lambda>l. link_view l ! Suc 0)"
  "flow_ident f ! Suc 0 = JText (format_flow_label f 16)" "flow_link f ! Suc 0 = JText (format_flow_label f 16)"
  by (auto simp: line_tag_def line_ident_def link_view_def flow_ident_def flow_link_def)

text \<open>
  C16. The event file tells the life of every flow.  Whatever events, calls, destructions and ticks
  reach the exporter, the flow start lines carry distinct labels and each flow end line has the
  identity of a flow that was started, none twice; the times of an end line are ordered and its
  duration is exact; a flow is linked to its socket at most once.  After the end of the capture every
  start has exactly one end.
\<close>

theorem flow_lifecycle:
  assumes "list_all op_ok ops" and "length (fx_flows (flow_run cfg ops (flow_start ns))) < 2 ^ 32"
    and "fx_json (flow_run cfg ops (flow_start ns)) = Some ls"
  shows "distinct (map line_tag (lines_of ''flow_start'' ls)) \<and>
     mset (map line_ident (lines_of ''flow_end'' ls)) \<subseteq># mset (map line_ident (lines_of ''flow_start'' ls)) \<and>
     list_all well_timed (lines_of ''flow_end'' ls) \<and> distinct (map line_tag (lines_of ''socket_flow_link'' ls)) \<and>
     (ops \<noteq> [] \<and> (\<exists>e. last ops = Op_finish e) \<longrightarrow>
        mset (map line_ident (lines_of ''flow_end'' ls)) = mset (map line_ident (lines_of ''flow_start'' ls)))"
proof -
  define st where "st = flow_run cfg ops (flow_start ns)"
  have books: "list_all flow_ok (fx_flows st)" "numbered st" "booked (fx_flows st) ls"
    using run_books [OF assms(1), of cfg ns] assms(3) by (simp_all add: flow_books_def st_def)
  have starts: "map line_ident (lines_of ''flow_start'' ls) = map flow_ident (fx_flows st)"
    and ends: "mset (map line_ident (lines_of ''flow_end'' ls)) = mset (map flow_ident (filter (\<lambda>f. \<not> fs_active f) (fx_flows st)))"
    and links: "mset (map link_view (lines_of ''socket_flow_link'' ls)) =
      mset (map flow_link (filter (\<lambda>f. fs_linked_socket_id f \<noteq> 0) (fx_flows st)))"
    using books(3) unfolding booked_def by blast+
  have d: "distinct (map (\<lambda>f. format_flow_label f 16) (fx_flows st))"
    using labels_distinct books(1,2) assms(2) unfolding st_def by blast
  have "map line_tag (lines_of ''flow_start'' ls) = map (\<lambda>f. JText (format_flow_label f 16)) (fx_flows st)"
    using arg_cong [OF starts, of "map (\<lambda>v. v ! 1)"] by (simp add: line_tags(1,3) o_def)
  then have 1: "distinct (map line_tag (lines_of ''flow_start'' ls))"
    using d by (simp add: distinct_map inj_on_def)
  have "mset (map line_tag (lines_of ''socket_flow_link'' ls)) =
      mset (map (\<lambda>f. JText (format_flow_label f 16)) (filter (\<lambda>f. fs_linked_socket_id f \<noteq> 0) (fx_flows st)))"
    using arg_cong [OF links, of "image_mset (\<lambda>v. v ! 1)"] by (simp add: line_tags(2,4) multiset.map_comp o_def)
  then have 2: "distinct (map line_tag (lines_of ''socket_flow_link'' ls))"
    using d mset_eq_imp_distinct_iff by (fastforce simp: distinct_map inj_on_def)
  have 3: "mset (map line_ident (lines_of ''flow_end'' ls)) \<subseteq># mset (map line_ident (lines_of ''flow_start'' ls))"
    unfolding ends starts by (simp add: image_mset_subseteq_mono)
  have 4: "mset (map line_ident (lines_of ''flow_end'' ls)) = mset (map line_ident (lines_of ''flow_start'' ls))"
    if "ops \<noteq> []" "last ops = Op_finish e" for e
  proof -
    have "st = finish_flows cfg e (flow_run cfg (butlast ops) (flow_start ns))"
      unfolding st_def flow_run_def using that by (subst append_butlast_last_id [OF that(1), symmetric]) simp
    then have "filter (\<lambda>f. \<not> fs_active f) (fx_flows st) = fx_flows st"
      using finish_flows_inactive by (auto intro: filter_True)
    then show ?thesis
      unfolding ends starts by simp
  qed
  have "list_all well_timed (lines_of ''flow_end'' ls)"
    using books(3) by (simp add: booked_def)
  with 1 2 3 4 show ?thesis
    by blast
qed


definition lifecycle_detail :: flow_detail where
  "lifecycle_detail =
     \<lparr>fd_func = 0, fd_key = 0, fd_key_generation = 0,
      fd_pkt = \<lparr>ph_proto_l3 = ETH_P_IP, ph_proto_l4 = IPPROTO_UDP, ph_saddr4 = [10, 0, 0, 1], ph_daddr4 = [10, 0, 0, 2],
                 ph_saddr6 = [], ph_daddr6 = [], ph_sport = 1, ph_dport = 2, ph_ts = 100\<rparr>,
      fd_ske = \<lparr>ph_proto_l3 = 0, ph_proto_l4 = 0, ph_saddr4 = [], ph_daddr4 = [], ph_saddr6 = [], ph_daddr6 = [],
                 ph_sport = 0, ph_dport = 0, ph_ts = 100\<rparr>,
      fd_tid = 7, fd_tgid = 7, fd_uid = 0, fd_task = [0x61], fd_netns = 1, fd_owner_tid = 0, fd_owner_tgid = 0,
      fd_owner_uid = 0, fd_owner_socket_key = 0, fd_owner_socket_generation = 0, fd_direction = PACKET_DIRECTION_TX,
      fd_owner_valid = False, fd_io_start_ts = 0, fd_syscall_start_ts = 0, fd_io_tid = 0, fd_io_tgid = 0, fd_io_offset = 0,
      fd_io_bytes = 0, fd_io_role = 0,
      fd_io_multiple = False\<rparr>"

definition lifecycle_config :: flow_config where
  "lifecycle_config =
     \<lparr>fc_mem = \<lambda>_. True, fc_ntop4 = \<lambda>a. a, fc_ntop6 = \<lambda>a. a, fc_get_trace = \<lambda>_. None,
      fc_trace_detail = False, fc_connect_diagnostics = False\<rparr>"

definition lifecycle_trace :: "string \<Rightarrow> trace_info" where
  "lifecycle_trace name = \<lparr>ti_name = cstr name, ti_drop = False, ti_free = False, ti_cfree = False\<rparr>"

definition lifecycle_demo :: flow_export where
  "lifecycle_demo =
     flow_run lifecycle_config [Op_packet lifecycle_detail (lifecycle_trace ''ip_output''), Op_finish 200]
       (flow_start ((native_ring_start 0 0)\<lparr>ns_file := None\<rparr>))"

lemma flow_assign_length [simp]: "length (fx_flows (flow_assign_display_index i st)) = length (fx_flows st)"
  by (simp add: flow_assign_display_index_def Let_def)

lemma flow_open_length [simp]:
  "length (fx_flows (flow_open cfg i d sid ts protocol local remote st)) = length (fx_flows st)"
proof -
  have "length (fx_flows (flow_emit_start cfg i st)) = length (fx_flows st)" for st
    using flow_emit_effect [of cfg i st] by (auto simp: Let_def)
  then show ?thesis
    by (simp add: flow_open_def Let_def)
qed

lemma count_packet_length [simp]: "length (fx_flows (count_packet cfg i d t st)) = length (fx_flows st)"
  by (simp add: count_packet_def Let_def)

lemma finish_flows_length [simp]: "length (fx_flows (finish_flows cfg e st)) = length (fx_flows st)"
proof -
  have "length (fx_flows (fold (\<lambda>i. flow_finish cfg i e ''trace_end'' True) is st)) = length (fx_flows st)" for "is"
    by (induction "is" arbitrary: st) simp_all
  then show ?thesis
    by (simp add: finish_flows_def each_flow_def)
qed

lemma first_packet:
  assumes "flow_packet_supported (fd_pkt d) (Some t)" and "\<not> packet_trace_terminal (Some t)"
    and "fx_flows st = []" and "\<And>n. fc_mem cfg n"
  shows "length (fx_flows (snd (flow_from_packet cfg d t st))) = 1"
proof -
  have l: "flow_lookup tup sid netns ts st = (None, st\<lparr>fx_ambiguous := False\<rparr>)" for tup sid netns ts
    using assms(3) by (simp add: flow_lookup_def Let_def)
  have "\<exists>st2. flow_create cfg tup sid netns ts (st\<lparr>fx_ambiguous := False\<rparr>) = (Some 0, st2) \<and> length (fx_flows st2) = 1" for tup sid netns ts
    using assms(3,4) by (simp add: flow_create_def flow_add_def Let_def)
  then obtain st2 where c: "flow_create cfg (packet_flow_id (ns_salt (fx_native st)) (fd_pkt d)) (packet_socket_id d st)
      (fd_netns d) (ph_ts (fd_pkt d)) (st\<lparr>fx_ambiguous := False\<rparr>) = (Some 0, st2)" "length (fx_flows st2) = 1"
    by metis
  then show ?thesis
    using assms(1,2) by (simp add: flow_from_packet_def Let_def l split: prod.split)
qed

lemma lifecycle_demo_flows: "length (fx_flows lifecycle_demo) = 1"
proof -
  have "flow_packet_supported (fd_pkt lifecycle_detail) (Some (lifecycle_trace ''ip_output''))"
      "\<not> packet_trace_terminal (Some (lifecycle_trace ''ip_output''))"
    by (simp_all add: flow_packet_supported_def packet_trace_terminal_def trace_named_def lifecycle_detail_def lifecycle_trace_def)
  then show ?thesis
    unfolding lifecycle_demo_def flow_run_def by (simp add: first_packet flow_start_def lifecycle_config_def)
qed

theorem flow_lifecycle_witness:
  "\<exists>ls. fx_json lifecycle_demo = Some ls \<and> length (lines_of ''flow_start'' ls) = 1 \<and>
     mset (map line_ident (lines_of ''flow_end'' ls)) = mset (map line_ident (lines_of ''flow_start'' ls))"
proof -
  obtain ls where ls: "fx_json lifecycle_demo = Some ls"
    using run_json [of "flow_start ((native_ring_start 0 0)\<lparr>ns_file := None\<rparr>)"] unfolding lifecycle_demo_def
    by (fastforce simp: flow_start_def)
  have "mset (map line_ident (lines_of ''flow_end'' ls)) = mset (map line_ident (lines_of ''flow_start'' ls))"
    using flow_lifecycle [of "[Op_packet lifecycle_detail (lifecycle_trace ''ip_output''), Op_finish 200]" lifecycle_config
        "(native_ring_start 0 0)\<lparr>ns_file := None\<rparr>" ls] ls lifecycle_demo_flows
    by (simp add: lifecycle_demo_def)
  moreover have "length (lines_of ''flow_start'' ls) = 1"
  proof -
    have "flow_books lifecycle_demo"
      unfolding lifecycle_demo_def by (rule run_books) simp
    then have "map line_ident (lines_of ''flow_start'' ls) = map flow_ident (fx_flows lifecycle_demo)"
      using ls by (simp add: flow_books_def booked_def)
    then show ?thesis
      using lifecycle_demo_flows map_eq_imp_length_eq by metis
  qed
  ultimately show ?thesis
    using ls by blast
qed

end
