(* ===== verification/FlowAttribution.thy ===== *)
theory FlowAttribution
  imports FlowLife
begin

text \<open>
  Which flow an event belongs to.  The flow an event is charged to is one of its connection, alive at
  the event and never of another socket; when the lookup is decided; what happens to an event older
  than its flow; and what the counters of a flow add up to.
\<close>

section \<open>Attribution\<close>

lemma flow_touch_effect:
  assumes "i < length (fx_flows st)"
  shows "\<exists>l. fx_flows (flow_touch cfg i d sid ts st) = (fx_flows st)[i :=
     (flow_set_owner d sid (let f = fx_flows st ! i in if fs_last_ts f < ts then f\<lparr>fs_last_ts := ts\<rparr> else f))\<lparr>fs_linked_socket_id := l\<rparr>]"
proof -
  define g where "g = flow_set_owner d sid (let f = fx_flows st ! i in if fs_last_ts f < ts then f\<lparr>fs_last_ts := ts\<rparr> else f)"
  define st1 where "st1 = put_flow i g st"
  have g: "fx_flows st1 ! i = g"
    using assms by (simp add: st1_def)
  have "flow_touch cfg i d sid ts st = flow_link_socket cfg i ts st1"
    by (simp add: flow_touch_def Let_def st1_def g_def)
  moreover have "\<exists>l. fx_flows (flow_link_socket cfg i ts st1) = (fx_flows st1)[i := g\<lparr>fs_linked_socket_id := l\<rparr>]"
  proof (cases "fs_socket_id g = 0 \<or> fs_linked_socket_id g = fs_socket_id g")
    case True
    then have "fx_flows (flow_link_socket cfg i ts st1) = fx_flows st1"
      using flow_link_effect [of cfg i ts st1] unfolding g Let_def by auto
    then have "fx_flows (flow_link_socket cfg i ts st1) = (fx_flows st1)[i := g\<lparr>fs_linked_socket_id := fs_linked_socket_id g\<rparr>]"
      using assms by (simp add: st1_def)
    then show ?thesis ..
  next
    case False
    then have "fx_flows (flow_link_socket cfg i ts st1) = (fx_flows st1)[i := g\<lparr>fs_linked_socket_id := fs_socket_id g\<rparr>]"
      using flow_link_effect [of cfg i ts st1] unfolding g Let_def by auto
    then show ?thesis ..
  qed
  ultimately show ?thesis
    unfolding g_def [symmetric] by (simp add: st1_def)
qed

text \<open>An event's flow after the event: its tuple, name space, time and, where known, socket.\<close>

definition attributed :: "u64 \<Rightarrow> u64 \<Rightarrow> u32 \<Rightarrow> u64 \<Rightarrow> flow_state \<Rightarrow> bool" where
  "attributed tup sid netns ts f \<longleftrightarrow>
     fs_tuple_id f = tup \<and> fs_netns f = netns \<and> fs_first_ts f \<le> ts \<and> ts \<le> fs_last_ts f \<and> (sid \<noteq> 0 \<longrightarrow> fs_socket_id f = sid)"

lemma touch_attributed:
  assumes "flow_lookup tup sid netns ts st = (Some i, st1)"
  shows "i < length (fx_flows st1) \<and> attributed tup sid netns ts (fx_flows (flow_touch cfg i d sid ts st1) ! i)"
proof -
  have s: "i < length (fx_flows st1)" "lookup_match tup netns ts (fx_flows st1 ! i)"
      "sid = 0 \<or> fs_socket_id (fx_flows st1 ! i) = 0 \<or> fs_socket_id (fx_flows st1 ! i) = sid"
    using flow_lookup_Some [OF assms] by (simp_all add: lookup_same_flows [OF assms])
  obtain l where l: "fx_flows (flow_touch cfg i d sid ts st1) = (fx_flows st1)[i :=
     (flow_set_owner d sid (let f = fx_flows st1 ! i in if fs_last_ts f < ts then f\<lparr>fs_last_ts := ts\<rparr> else f))\<lparr>fs_linked_socket_id := l\<rparr>]"
    using flow_touch_effect [OF s(1)] by blast
  show ?thesis
    using s unfolding l by (auto simp: attributed_def Let_def flow_set_owner_keeps lookup_match_def flow_alive_at_def)
qed

lemma open_attributed:
  assumes "flow_create cfg tup sid netns ts st = (Some i, st2)" and "protocol = IPPROTO_TCP \<or> protocol = IPPROTO_UDP"
  shows "attributed tup sid netns ts (fx_flows (flow_open cfg i d sid ts protocol local remote st2) ! i) \<and>
         i < length (fx_flows (flow_open cfg i d sid ts protocol local remote st2))"
  using create_open_effect [OF assms refl, of d ts local remote] by (auto simp: attributed_def new_flow_def nth_append simp del: flow_open_length)

lemma count_attributed:
  "i < length (fx_flows st) \<Longrightarrow> attributed tup sid netns ts (fx_flows (count_packet cfg i d t st) ! i) = attributed tup sid netns ts (fx_flows st ! i)"
  by (simp add: count_packet_def Let_def attributed_def)

lemma packet_attributed:
  assumes "flow_from_packet cfg d t st = (Some i, st1)" and "\<not> packet_trace_terminal (Some t)"
  shows "i < length (fx_flows st1) \<and>
     attributed (packet_flow_id (ns_salt (fx_native st)) (fd_pkt d)) (packet_socket_id d st) (fd_netns d) (ph_ts (fd_pkt d)) (fx_flows st1 ! i)"
proof (cases rule: flow_from_packet_cases [where q = plain_line, of cfg d t st])
  case (skip r st2)
  then show ?thesis
    using assms by simp
next
  case (touch j st2)
  then show ?thesis
    using assms(1) touch_attributed [OF touch(1) [unfolded packet_lookup_def], of cfg d] by (simp add: count_attributed)
next
  case (create st2 j st3 protocol local remote)
  then show ?thesis
    using assms(1) open_attributed [OF create(4,5), of d local remote] by (simp add: count_attributed)
qed

lemma attributed_evolves:
  "attributed tup sid netns ts f \<Longrightarrow> flow_evolves f g \<Longrightarrow> attributed tup sid netns ts g"
  by (auto simp: attributed_def flow_evolves_def intro: order_trans)

text \<open>Any packet, also one that ends a trace, which claims nothing: its flow is one of its connection and never of another socket.\<close>

definition flow_admits :: "u64 \<Rightarrow> u64 \<Rightarrow> u32 \<Rightarrow> u64 \<Rightarrow> flow_state \<Rightarrow> bool" where
  "flow_admits tup sid netns ts f \<longleftrightarrow>
     fs_tuple_id f = tup \<and> fs_netns f = netns \<and> fs_first_ts f \<le> ts \<and> (sid = 0 \<or> fs_socket_id f = 0 \<or> fs_socket_id f = sid)"

lemma hits_single: "hits p xs = [i] \<Longrightarrow> i < length xs \<and> p (xs ! i)"
  using hits_iff [of i p xs] by simp

lemma destroyed_admits:
  assumes "flow_find_destroyed tup sid netns ts st = Some i"
  shows "i < length (fx_flows st) \<and> flow_admits tup sid netns ts (fx_flows st ! i)"
  using assms
  by (auto simp: flow_find_destroyed_def unique_loop_hits flow_admits_def split: if_splits list.splits dest!: hits_single)

lemma packet_admits:
  assumes "flow_from_packet cfg d t st = (Some i, st1)"
  shows "i < length (fx_flows st1) \<and>
     flow_admits (packet_flow_id (ns_salt (fx_native st)) (fd_pkt d)) (packet_socket_id d st) (fd_netns d) (ph_ts (fd_pkt d)) (fx_flows st1 ! i)"
proof (cases "packet_trace_terminal (Some t)")
  case False
  then show ?thesis
    using packet_attributed [OF assms] by (auto simp: attributed_def flow_admits_def)
next
  case True
  let ?tup = "packet_flow_id (ns_salt (fx_native st)) (fd_pkt d)" and ?sid = "packet_socket_id d st"
  obtain r st2 where l: "flow_lookup ?tup ?sid (fd_netns d) (ph_ts (fd_pkt d)) st = (r, st2)"
    by (cases "flow_lookup ?tup ?sid (fd_netns d) (ph_ts (fd_pkt d)) st")
  have "st1 = st2 \<and> (r = Some i \<or> flow_find_destroyed ?tup ?sid (fd_netns d) (ph_ts (fd_pkt d)) st2 = Some i)"
    using assms True l by (auto simp: flow_from_packet_def Let_def split: if_splits)
  then consider "st1 = st2" "r = Some i" | "st1 = st2" "flow_find_destroyed ?tup ?sid (fd_netns d) (ph_ts (fd_pkt d)) st2 = Some i"
    by blast
  then show ?thesis
  proof cases
    case 1
    then show ?thesis
      using flow_lookup_Some [OF l [unfolded 1(2)]] lookup_same_flows [OF l] by (auto simp: flow_admits_def lookup_match_def flow_alive_at_def)
  next
    case 2
    then show ?thesis
      using destroyed_admits [OF 2(2)] by simp
  qed
qed

text \<open>
  C17. Attribution is final and exact.  A flow keeps for good the tuple and the network name space of every packet
  that was attributed to it, and its identity for every reader of the event file; packets of different tuples or name
  spaces never share a flow.  A packet that does not end a trace makes the flow its own: after any further
  operations the flow covers the packet's time and has the packet's socket where that is known, so no later packet of
  another known socket, of either kind, is attributed to it.  A packet that ends a trace (a drop or a free) claims
  nothing: it goes to a flow that began no later and has its socket or none, and a flow without one can still be
  claimed by another socket.
\<close>

theorem flow_attribution:
  assumes "flow_from_packet cfg d t st = (Some i, st1)" and "list_all op_ok ops"
    and "flow_from_packet cfg d' t' (flow_run cfg ops st1) = (Some i, st2)"
  shows "fs_tuple_id (fx_flows st2 ! i) = packet_flow_id (ns_salt (fx_native st)) (fd_pkt d) \<and> fs_netns (fx_flows st2 ! i) = fd_netns d \<and>
     flow_ident (fx_flows st2 ! i) = flow_ident (fx_flows st1 ! i) \<and> fd_netns d' = fd_netns d \<and>
     packet_flow_id (ns_salt (fx_native (flow_run cfg ops st1))) (fd_pkt d') = packet_flow_id (ns_salt (fx_native st)) (fd_pkt d) \<and>
     (if packet_trace_terminal (Some t)
      then flow_admits (packet_flow_id (ns_salt (fx_native st)) (fd_pkt d)) (packet_socket_id d st) (fd_netns d) (ph_ts (fd_pkt d)) (fx_flows st1 ! i)
      else attributed (packet_flow_id (ns_salt (fx_native st)) (fd_pkt d)) (packet_socket_id d st) (fd_netns d)
             (ph_ts (fd_pkt d)) (fx_flows st2 ! i) \<and>
           (packet_socket_id d st = 0 \<or> packet_socket_id d' (flow_run cfg ops st1) = 0 \<or>
            packet_socket_id d' (flow_run cfg ops st1) = packet_socket_id d st))"
proof -
  note a = packet_admits [OF assms(1)] and b = packet_admits [OF assms(3)]
  have "(flow_move plain_line)\<^sup>*\<^sup>* st1 (flow_run cfg ops st1)"
    using run_moves [OF assms(2)] .
  moreover have "(flow_move plain_line)\<^sup>*\<^sup>* (flow_run cfg ops st1) st2"
    using packet_moves [of plain_line "flow_run cfg ops st1" cfg d' t'] assms(3) by simp
  ultimately have "(flow_move plain_line)\<^sup>*\<^sup>* st1 st2"
    by (rule rtranclp_trans)
  then have e: "flow_evolves (fx_flows st1 ! i) (fx_flows st2 ! i)"
    using flow_moves_evolve a by blast
  have c: "attributed (packet_flow_id (ns_salt (fx_native st)) (fd_pkt d)) (packet_socket_id d st) (fd_netns d)
      (ph_ts (fd_pkt d)) (fx_flows st2 ! i)" if "\<not> packet_trace_terminal (Some t)"
    using attributed_evolves [OF _ e] packet_attributed [OF assms(1) that] by blast
  have "fs_tuple_id (fx_flows st2 ! i) = fs_tuple_id (fx_flows st1 ! i) \<and> fs_netns (fx_flows st2 ! i) = fs_netns (fx_flows st1 ! i) \<and>
      flow_ident (fx_flows st2 ! i) = flow_ident (fx_flows st1 ! i)"
    using e by (simp add: flow_evolves_def)
  then show ?thesis
    using a b c by (auto simp: attributed_def flow_admits_def)
qed


text \<open>The only flow of a table is found again by the event that was attributed to it.\<close>

lemma attributed_found:
  assumes "fx_flows st = [f]" and "flow_ok f" and "attributed tup sid netns ts f"
  shows "flow_lookup tup sid netns ts st = (Some 0, st\<lparr>fx_ambiguous := False\<rparr>)"
proof -
  have "fs_last_ts f = 0" if "fs_last_ts f \<le> fs_end_ts f" "fs_end_ts f = 0"
    using that by simp
  then have "flow_alive_at ts f"
    using assms(2,3) by (auto simp: flow_alive_at_def attributed_def flow_ok_def)
  then have "lookup_exact tup sid netns ts f = (sid \<noteq> 0)" "sid = 0 \<Longrightarrow> lookup_candidate tup sid netns ts f"
    using assms(3) by (auto simp: lookup_exact_def lookup_candidate_def lookup_match_def attributed_def)
  then show ?thesis
    unfolding flow_lookup_hits assms(1) by (cases "sid = 0") (simp_all add: hits_def)
qed

text \<open>Without a native trace, or without arrows in it, the native state is left alone.\<close>

lemma silent_native:
  assumes "\<not> exports_native st"
  shows "fx_native (flow_link_socket cfg i ts st) = fx_native st"
    and "fx_native (flow_emit_start cfg i st) = fx_native st"
    and "fx_native (flow_touch cfg i d sid ts st) = fx_native st"
    and "fx_native (flow_open cfg i d sid ts protocol local remote st) = fx_native st"
proof -
  have e: "exports_native s = exports_native s'" if "fx_native s = fx_native s'" for s s'
    using that by (simp add: exports_native_def)
  have link: "\<not> exports_native s \<Longrightarrow> fx_native (flow_link_socket cfg i ts s) = fx_native s" for s ts
    by (simp add: flow_link_socket_def Let_def exports_native_def)
  have emit: "\<not> exports_native s \<Longrightarrow> fx_native (flow_emit_start cfg i s) = fx_native s" for s
    using link [of s] e [OF link [of s]] by (simp add: flow_emit_start_def Let_def exports_native_def)
  have assign: "fx_native (flow_assign_display_index i s) = fx_native s" for s
    by (simp add: flow_assign_display_index_def Let_def)
  show "fx_native (flow_link_socket cfg i ts st) = fx_native st" "fx_native (flow_emit_start cfg i st) = fx_native st"
      "fx_native (flow_touch cfg i d sid ts st) = fx_native st"
      "fx_native (flow_open cfg i d sid ts protocol local remote st) = fx_native st"
    using assms by (simp_all add: link emit assign flow_touch_def flow_open_def Let_def exports_native_def)
qed

lemma count_native [simp]: "fx_native (count_packet cfg i d t st) = fx_native st"
  by (simp add: count_packet_def Let_def)

lemma silent_packet:
  assumes "\<not> exports_native st" and "flow_from_packet cfg d t st = (r, st1)"
  shows "fx_native st1 = fx_native st"
proof -
  have l: "fx_native s' = fx_native st" if "flow_lookup tup sid netns ts st = (x, s')" for tup sid netns ts x s'
    using flow_lookup_frame [OF that] by auto
  have c: "fx_native s'' = fx_native s'" if "flow_create cfg tup sid netns ts s' = (x, s'')" for tup sid netns ts x s' s''
    using that by (auto simp: flow_create_def flow_add_def Let_def split: if_splits)
  have q: "fx_native (flow_touch cfg i d sid ts s) = fx_native st"
      "fx_native (flow_open cfg i d sid ts protocol local remote s) = fx_native st"
    if "fx_native s = fx_native st" for i sid ts s protocol local remote
    using assms(1) that by (simp_all add: silent_native exports_native_def)
  have "fx_native (snd (flow_from_packet cfg d t st)) = fx_native st"
    unfolding flow_from_packet_def Let_def
    by (auto simp: q l dest: l c split: prod.splits option.splits)
  then show ?thesis
    using assms(2) by simp
qed

lemma packet_once_more:
  assumes "fx_flows st = [f]" and "flow_ok f" and "flow_packet_supported (fd_pkt d) (Some t)" and "\<not> packet_trace_terminal (Some t)"
    and "attributed (packet_flow_id (ns_salt (fx_native st)) (fd_pkt d)) (packet_socket_id d st) (fd_netns d) (ph_ts (fd_pkt d)) f"
  shows "fst (flow_from_packet cfg d t st) = Some 0"
  using attributed_found [OF assms(1,2,5)] assms(3,4) by (simp add: flow_from_packet_def Let_def)

definition attribution_start :: flow_export where
  "attribution_start = flow_start ((native_ring_start 0 0)\<lparr>ns_file := None\<rparr>)"

theorem flow_attribution_witness:
  "\<exists>st1 st2. flow_from_packet lifecycle_config lifecycle_detail (lifecycle_trace ''ip_output'') attribution_start = (Some 0, st1) \<and>
     flow_from_packet lifecycle_config lifecycle_detail (lifecycle_trace ''dev_queue_xmit'') st1 = (Some 0, st2) \<and>
     attributed (packet_flow_id (ns_salt (fx_native attribution_start)) (fd_pkt lifecycle_detail)) 0 1 100 (fx_flows st2 ! 0)"
proof -
  let ?d = lifecycle_detail and ?t = "lifecycle_trace ''ip_output''" and ?t' = "lifecycle_trace ''dev_queue_xmit''"
  let ?cfg = lifecycle_config and ?st = attribution_start
  have sup: "flow_packet_supported (fd_pkt ?d) (Some ?t)" "\<not> packet_trace_terminal (Some ?t)"
      "flow_packet_supported (fd_pkt ?d) (Some ?t')" "\<not> packet_trace_terminal (Some ?t')"
    by (simp_all add: flow_packet_supported_def packet_trace_terminal_def trace_named_def lifecycle_detail_def lifecycle_trace_def)
  obtain r st1 where p: "flow_from_packet ?cfg ?d ?t ?st = (r, st1)"
    by (cases "flow_from_packet ?cfg ?d ?t ?st")
  have len: "length (fx_flows st1) = 1"
    using first_packet [OF sup(1,2), of ?st ?cfg] p by (simp add: attribution_start_def flow_start_def lifecycle_config_def)
  have r: "r = Some 0"
    using p sup(1,2) by (auto simp: flow_from_packet_def Let_def attribution_start_def flow_start_def flow_lookup_def flow_create_def
        flow_add_def lifecycle_config_def split: prod.splits)
  have a: "attributed (packet_flow_id (ns_salt (fx_native ?st)) (fd_pkt ?d)) (packet_socket_id ?d ?st) (fd_netns ?d)
      (ph_ts (fd_pkt ?d)) (fx_flows st1 ! 0)"
    using packet_attributed [OF p [unfolded r] sup(2)] by blast
  have m: "(flow_move plain_line)\<^sup>*\<^sup>* ?st st1"
    using packet_moves [of plain_line ?st ?cfg ?d ?t] p by simp
  then have ok: "list_all flow_ok (fx_flows st1)"
    using flow_moves_books [OF m] flow_start_books by (auto simp: attribution_start_def flow_books_def)
  obtain f where f: "fx_flows st1 = [f]"
    using len by (cases "fx_flows st1") auto
  have nat: "fx_native st1 = fx_native ?st"
    by (rule silent_packet [OF _ p]) (simp add: exports_native_def attribution_start_def flow_start_def)
  then have sid: "packet_socket_id ?d st1 = packet_socket_id ?d ?st"
    by (simp add: packet_socket_id_def)
  have "fst (flow_from_packet ?cfg ?d ?t' st1) = Some 0"
    using packet_once_more [OF f _ sup(3,4), of ?cfg] a ok nat sid f by simp
  then obtain st2 where q: "flow_from_packet ?cfg ?d ?t' st1 = (Some 0, st2)"
    by (cases "flow_from_packet ?cfg ?d ?t' st1") auto
  have "packet_socket_id ?d ?st = 0" "fd_netns ?d = 1" "ph_ts (fd_pkt ?d) = 100"
    by (simp_all add: packet_socket_id_def lifecycle_detail_def)
  then show ?thesis
    using flow_attribution [OF p [unfolded r], of "[]" ?d ?t' st2] sup(2) q p r by (auto simp: flow_run_def)
qed

section \<open>The effect of an event\<close>

definition event_effect :: "u64 \<Rightarrow> u64 \<Rightarrow> u32 \<Rightarrow> u64 \<Rightarrow> flow_export \<Rightarrow> flow_export \<Rightarrow> bool" where
  "event_effect tup sid netns ts st st' \<longleftrightarrow>
     fx_flows st' = fx_flows st \<or>
     (\<exists>i st1 g. flow_lookup tup sid netns ts st = (Some i, st1) \<and> fx_flows st' = (fx_flows st)[i := g] \<and>
        flow_evolves (fx_flows st ! i) g \<and> fs_active g = fs_active (fx_flows st ! i) \<and>
        fs_socket_id g = (if sid \<noteq> 0 then sid else fs_socket_id (fx_flows st ! i))) \<or>
     (\<exists>st1 g. flow_lookup tup sid netns ts st = (None, st1) \<and> \<not> fx_ambiguous st1 \<and> fx_flows st' = fx_flows st @ [g] \<and>
        new_flow g \<and> fs_tuple_id g = tup \<and> fs_netns g = netns \<and> fs_socket_id g = sid \<and> fs_first_ts g = ts)"

lemma update_exI: "xs = ys[i := y] \<Longrightarrow> P y \<Longrightarrow> \<exists>y. xs = ys[i := y] \<and> P y"
  by blast

lemma touch_effect:
  assumes "flow_lookup tup sid netns ts st = (Some i, st1)"
  shows "\<exists>g. fx_flows (flow_touch cfg i d sid ts st1) = (fx_flows st)[i := g] \<and> flow_evolves (fx_flows st ! i) g \<and>
     fs_active g = fs_active (fx_flows st ! i) \<and> fs_socket_id g = (if sid \<noteq> 0 then sid else fs_socket_id (fx_flows st ! i))"
proof -
  have s: "i < length (fx_flows st1)" "fx_flows st1 = fx_flows st"
      "sid = 0 \<or> fs_socket_id (fx_flows st ! i) = 0 \<or> fs_socket_id (fx_flows st ! i) = sid"
    using flow_lookup_Some [OF assms] lookup_same_flows [OF assms] by simp_all
  from flow_touch_effect [OF s(1), of cfg d sid ts] obtain l where
    "fx_flows (flow_touch cfg i d sid ts st1) = (fx_flows st)[i :=
     (flow_set_owner d sid (let f = fx_flows st ! i in if fs_last_ts f < ts then f\<lparr>fs_last_ts := ts\<rparr> else f))\<lparr>fs_linked_socket_id := l\<rparr>]"
    unfolding s(2) by blast
  then show ?thesis
    by (rule update_exI)
      (use s(3) in \<open>auto simp: flow_evolves_def flow_set_owner_keeps Let_def intro!: flow_ident_cong\<close>)
qed

lemma count_effect:
  assumes "i < length (fx_flows st)"
  shows "\<exists>g. fx_flows (count_packet cfg i d t st) = (fx_flows st)[i := g] \<and>
     flow_evolves (fx_flows st ! i) g \<and> fs_active g = fs_active (fx_flows st ! i) \<and>
     fs_socket_id g = fs_socket_id (fx_flows st ! i) \<and> (new_flow (fx_flows st ! i) \<longrightarrow> new_flow g)"
proof -
  define f where "f = fx_flows st ! i"
  have e: "flow_evolves f f" "flow_evolves f (f\<lparr>fs_tx_packets := n\<rparr>)" "flow_evolves f (f\<lparr>fs_rx_packets := n\<rparr>)" for n
    by (auto simp: flow_evolves_def intro!: flow_ident_cong)
  have "(fx_flows st)[i := f] = fx_flows st"
    by (simp add: f_def)
  moreover have "fx_flows (count_packet cfg i d t st) \<in>
      {fx_flows st, (fx_flows st)[i := f\<lparr>fs_tx_packets := fs_tx_packets f + 1\<rparr>],
       (fx_flows st)[i := f\<lparr>fs_rx_packets := fs_rx_packets f + 1\<rparr>]}"
    by (simp add: count_packet_def Let_def f_def)
  ultimately consider "fx_flows (count_packet cfg i d t st) = (fx_flows st)[i := f]"
    | "fx_flows (count_packet cfg i d t st) = (fx_flows st)[i := f\<lparr>fs_tx_packets := fs_tx_packets f + 1\<rparr>]"
    | "fx_flows (count_packet cfg i d t st) = (fx_flows st)[i := f\<lparr>fs_rx_packets := fs_rx_packets f + 1\<rparr>]"
    by auto
  then show ?thesis
    unfolding f_def [symmetric]
    by cases (erule update_exI, simp add: e new_flow_def)+
qed

lemma socket_effect:
  "event_effect (socket_flow_id (ns_salt (fx_native st)) (fd_ske d)) (event_socket_id d st) (fd_netns d) ts st
     (snd (flow_from_socket cfg d ts st))"
proof (cases rule: flow_from_socket_cases [where q = plain_line, of cfg d ts st])
  case (touch i st1)
  then show ?thesis
    using touch_effect [OF touch(1) [unfolded socket_lookup_def], of cfg d] unfolding event_effect_def socket_lookup_def by auto
next
  case (create st1 i st2 protocol local remote)
  then show ?thesis
    using create_open_effect [OF create(3,4) refl, of d ts local remote]
      lookup_same_flows [OF create(1) [unfolded socket_lookup_def]]
    unfolding event_effect_def socket_lookup_def by auto
qed (simp add: event_effect_def)

lemma packet_effect:
  "event_effect (packet_flow_id (ns_salt (fx_native st)) (fd_pkt d)) (packet_socket_id d st) (fd_netns d) (ph_ts (fd_pkt d)) st
     (snd (flow_from_packet cfg d t st))"
proof (cases rule: flow_from_packet_cases [where q = plain_line, of cfg d t st])
  case (touch i st1)
  note l = touch(1) [unfolded packet_lookup_def]
  obtain g where g: "fx_flows (flow_touch cfg i d (packet_socket_id d st) (ph_ts (fd_pkt d)) st1) = (fx_flows st)[i := g]"
      "flow_evolves (fx_flows st ! i) g" "fs_active g = fs_active (fx_flows st ! i)"
      "fs_socket_id g = (if packet_socket_id d st \<noteq> 0 then packet_socket_id d st else fs_socket_id (fx_flows st ! i))"
    using touch_effect [OF l, of cfg d] by blast
  have i: "i < length (fx_flows st)"
    using flow_lookup_Some [OF l] by blast
  obtain h where h: "fx_flows (snd (flow_from_packet cfg d t st)) = (fx_flows st)[i := h]"
      "flow_evolves g h" "fs_active h = fs_active g" "fs_socket_id h = fs_socket_id g"
    using count_effect [of i "flow_touch cfg i d (packet_socket_id d st) (ph_ts (fd_pkt d)) st1" cfg d t] g(1) i touch(3) by auto
  then show ?thesis
    using l g flow_evolves_trans [OF g(2) h(2)] unfolding event_effect_def by auto
next
  case (create st1 i st2 protocol local remote)
  note l = create(1) [unfolded packet_lookup_def]
  obtain g where g: "fx_flows (flow_open cfg i d (packet_socket_id d st) (ph_ts (fd_pkt d)) protocol local remote st2) = fx_flows st @ [g]"
      "i = length (fx_flows st)" "new_flow g" "fs_tuple_id g = packet_flow_id (ns_salt (fx_native st)) (fd_pkt d)"
      "fs_netns g = fd_netns d" "fs_socket_id g = packet_socket_id d st" "fs_first_ts g = ph_ts (fd_pkt d)"
    using create_open_effect [OF create(4,5) refl, of d "ph_ts (fd_pkt d)" local remote] lookup_same_flows [OF l] by auto
  obtain h where h: "fx_flows (snd (flow_from_packet cfg d t st)) = (fx_flows st @ [g])[i := h]"
      "flow_evolves g h" "fs_socket_id h = fs_socket_id g" "new_flow h"
    using count_effect [of i "flow_open cfg i d (packet_socket_id d st) (ph_ts (fd_pkt d)) protocol local remote st2" cfg d t] g create(6)
    by (auto simp del: flow_open_length)
  then have "fx_flows (snd (flow_from_packet cfg d t st)) = fx_flows st @ [h]"
    using g(2) by simp
  then show ?thesis
    using l create(2) g h unfolding event_effect_def by (auto simp: flow_evolves_def)
qed (simp add: event_effect_def)

text \<open>Everything else leaves the sockets of the flows alone.\<close>

definition same_sockets :: "flow_export \<Rightarrow> flow_export \<Rightarrow> bool" where
  "same_sockets st st' \<longleftrightarrow> length (fx_flows st') = length (fx_flows st) \<and>
     (\<forall>i < length (fx_flows st). flow_evolves (fx_flows st ! i) (fx_flows st' ! i) \<and>
        fs_socket_id (fx_flows st' ! i) = fs_socket_id (fx_flows st ! i))"

lemma same_sockets_refl: "fx_flows st' = fx_flows st \<Longrightarrow> same_sockets st st'"
  by (simp add: same_sockets_def flow_evolves_def)

lemma same_sockets_trans: "same_sockets st st' \<Longrightarrow> same_sockets st' st'' \<Longrightarrow> same_sockets st st''"
  using flow_evolves_trans by (auto simp: same_sockets_def)

lemma finish_same_sockets:
  assumes "i < length (fx_flows st)"
  shows "same_sockets st (flow_finish cfg i e reason incomplete st)"
proof -
  have "fs_socket_id (fx_flows (flow_finish cfg i e reason incomplete st) ! j) = fs_socket_id (fx_flows st ! j)"
    if "j < length (fx_flows st)" for j
    using flow_finish_effect [of cfg i e reason incomplete st] that
    by (cases "j = i") (auto simp: Let_def split: if_splits)
  then show ?thesis
    using flow_moves_evolve [OF finish_moves [OF assms, of plain_line cfg e reason incomplete]] by (simp add: same_sockets_def)
qed

lemma each_flow_same_sockets:
  assumes "\<And>i st. i < length (fx_flows st) \<Longrightarrow> same_sockets st (step i (fx_flows st ! i) st)"
  shows "same_sockets st (each_flow step st)"
proof -
  have "same_sockets st (fold (\<lambda>i st. step i (fx_flows st ! i) st) is st)"
    if "\<forall>i \<in> set is. i < length (fx_flows st)" for "is" st
    using that
  proof (induction "is" arbitrary: st)
    case (Cons i "is")
    then have "same_sockets st (step i (fx_flows st ! i) st)"
      using assms by simp
    then show ?case
      using Cons.IH [of "step i (fx_flows st ! i) st"] Cons.prems same_sockets_trans by (auto simp: same_sockets_def)
  qed (simp add: same_sockets_refl)
  then show ?thesis
    by (simp add: each_flow_def)
qed

fun flow_op_time :: "flow_op \<Rightarrow> u64 option" where
  "flow_op_time (Op_socket d ts) = Some ts"
| "flow_op_time (Op_packet d t) = Some (ph_ts (fd_pkt d))"
| "flow_op_time _ = None"

lemma step_effect:
  shows "flow_op_time op = None \<Longrightarrow> same_sockets st (flow_step cfg op st)"
    and "flow_op_time op = Some ts \<Longrightarrow> \<exists>tup sid netns. event_effect tup sid netns ts st (flow_step cfg op st)"
proof -
  assume "flow_op_time op = None"
  then show "same_sockets st (flow_step cfg op st)"
  proof (cases op)
    case (Op_account i ts n tx)
    have "same_sockets st (flow_account i ts n tx st)" if "i < length (fx_flows st)"
      using that unfolding same_sockets_def flow_account_def Let_def
      by (auto simp: flow_evolves_def nth_list_update intro!: flow_ident_cong)
    then show ?thesis
      by (simp add: Op_account same_sockets_refl)
  next
    case (Op_query d socket)
    have "fx_flows (snd (detail_flow_id cfg d socket st)) = fx_flows st"
      unfolding detail_flow_id_def Let_def by (auto split: prod.splits dest: lookup_same_flows)
    then show ?thesis
      by (simp add: Op_query same_sockets_refl)
  next
    case (Op_other ns ls)
    then show ?thesis
      by (simp add: same_sockets_refl)
  qed (simp_all add: destroy_socket_def expire_flows_def finish_flows_def each_flow_same_sockets finish_same_sockets same_sockets_refl)
next
  assume "flow_op_time op = Some ts"
  then show "\<exists>tup sid netns. event_effect tup sid netns ts st (flow_step cfg op st)"
    by (cases op) (use socket_effect [of st] packet_effect [of st] in \<open>simp_all, blast+\<close>)
qed

section \<open>Flows of one tuple\<close>

definition unique_flows :: "flow_state list \<Rightarrow> bool" where
  "unique_flows fs \<longleftrightarrow>
     (\<forall>i < length fs. \<forall>j < length fs. i \<noteq> j \<longrightarrow> fs_active (fs ! i) \<longrightarrow> fs_active (fs ! j) \<longrightarrow>
        fs_tuple_id (fs ! i) = fs_tuple_id (fs ! j) \<longrightarrow> fs_netns (fs ! i) = fs_netns (fs ! j) \<longrightarrow>
        fs_socket_id (fs ! i) \<noteq> 0 \<and> fs_socket_id (fs ! i) \<noteq> fs_socket_id (fs ! j))"

definition started_by :: "u64 \<Rightarrow> flow_state list \<Rightarrow> bool" where
  "started_by now fs \<longleftrightarrow> (\<forall>f \<in> set fs. fs_first_ts f \<le> now)"

lemma unique_same_sockets:
  "same_sockets st st' \<Longrightarrow> unique_flows (fx_flows st) \<Longrightarrow> unique_flows (fx_flows st')"
  unfolding unique_flows_def same_sockets_def flow_evolves_def by (auto 0 3)

lemma started_same_sockets: "same_sockets st st' \<Longrightarrow> started_by now (fx_flows st) \<Longrightarrow> started_by now (fx_flows st')"
  unfolding started_by_def same_sockets_def flow_evolves_def all_set_conv_all_nth by simp


text \<open>
  An event no older than the start of every flow keeps the flows apart: it finds the flow of its
  socket, gives a socket to the only flow of its tuple that has none, or opens a flow when there is none.
\<close>

lemma unique_event:
  assumes "event_effect tup sid netns ts st st'" and "unique_flows (fx_flows st)" and "started_by ts (fx_flows st)"
  shows "unique_flows (fx_flows st') \<and> started_by ts (fx_flows st')"
proof -
  have alive: "lookup_match tup netns ts f"
    if "f \<in> set (fx_flows st)" "fs_active f" "fs_tuple_id f = tup" "fs_netns f = netns" for f
    using that assms(3) by (simp add: lookup_match_def flow_alive_at_def started_by_def)
  from assms(1) consider (same) "fx_flows st' = fx_flows st"
    | (touch) i st1 g where "flow_lookup tup sid netns ts st = (Some i, st1)" "fx_flows st' = (fx_flows st)[i := g]"
        "flow_evolves (fx_flows st ! i) g" "fs_active g = fs_active (fx_flows st ! i)"
        "fs_socket_id g = (if sid \<noteq> 0 then sid else fs_socket_id (fx_flows st ! i))"
    | (new) st1 g where "flow_lookup tup sid netns ts st = (None, st1)" "\<not> fx_ambiguous st1" "fx_flows st' = fx_flows st @ [g]"
        "fs_tuple_id g = tup" "fs_netns g = netns" "fs_socket_id g = sid" "fs_first_ts g = ts"
    unfolding event_effect_def by blast
  then show ?thesis
  proof cases
    case same
    then show ?thesis
      using assms by simp
  next
    case (touch i st1 g)
    define f where "f = fx_flows st ! i"
    have i: "i < length (fx_flows st)" "fs_tuple_id f = tup" "fs_netns f = netns" "fs_first_ts f \<le> ts"
        "sid = 0 \<or> fs_socket_id f = 0 \<or> fs_socket_id f = sid"
      using flow_lookup_Some [OF touch(1)] by (simp_all add: f_def lookup_match_def flow_alive_at_def)
    have g: "fs_tuple_id g = tup" "fs_netns g = netns" "fs_first_ts g \<le> ts" "fs_active g = fs_active f"
        "fs_socket_id g = (if sid \<noteq> 0 then sid else fs_socket_id f)"
      using touch i by (simp_all add: flow_evolves_def f_def)
    have apart: "fs_socket_id h \<noteq> 0 \<and> fs_socket_id h \<noteq> fs_socket_id g \<and> fs_socket_id g \<noteq> 0"
      if "j < length (fx_flows st)" "j \<noteq> i" "h = fx_flows st ! j" "fs_active h" "fs_active f" "fs_tuple_id h = tup" "fs_netns h = netns" for j h
      using assms(2) i g that unfolding unique_flows_def f_def by (metis (no_types, lifting))
    have "unique_flows (fx_flows st')"
      unfolding unique_flows_def touch(2)
      using assms(2) apart i g unfolding unique_flows_def by (auto simp: nth_list_update f_def)
    moreover have "started_by ts (fx_flows st')"
      using assms(3) g(3) set_update_subset_insert [of "fx_flows st" i g] unfolding started_by_def touch(2) by auto
    ultimately show ?thesis ..
  next
    case (new st1 g)
    have apart: "fs_socket_id (fx_flows st ! j) \<noteq> 0 \<and> fs_socket_id (fx_flows st ! j) \<noteq> sid \<and> sid \<noteq> 0"
      if "j < length (fx_flows st)" "fs_active (fx_flows st ! j)" "fs_tuple_id (fx_flows st ! j) = tup"
        "fs_netns (fx_flows st ! j) = netns" for j
      using flow_lookup_None [OF new(1,2) nth_mem [OF that(1)]] alive [OF nth_mem [OF that(1)] that(2-4)]
      by (auto simp: lookup_exact_def lookup_candidate_def)
    have "unique_flows (fx_flows st')"
      unfolding unique_flows_def
    proof (intro allI impI)
      fix i j
      let ?f = "fx_flows st' ! i" and ?g = "fx_flows st' ! j"
      assume ij: "i < length (fx_flows st')" "j < length (fx_flows st')" "i \<noteq> j" "fs_active ?f" "fs_active ?g"
        "fs_tuple_id ?f = fs_tuple_id ?g" "fs_netns ?f = fs_netns ?g"
      then consider "i < length (fx_flows st)" "j < length (fx_flows st)" | "i < length (fx_flows st)" "?g = g"
        | "?f = g" "j < length (fx_flows st)"
        by (auto simp: new(3) less_Suc_eq)
      then show "fs_socket_id ?f \<noteq> 0 \<and> fs_socket_id ?f \<noteq> fs_socket_id ?g"
      proof cases
        case 1
        then show ?thesis
          using assms(2) ij unfolding unique_flows_def new(3) by (simp add: nth_append)
      next
        case 2
        then show ?thesis
          using apart [of i] ij(4,6,7) new(4-6) by (simp add: new(3) nth_append)
      next
        case 3
        then show ?thesis
          using apart [of j] ij(5,6,7) new(4-6) by (auto simp: new(3) nth_append)
      qed
    qed
    moreover have "started_by ts (fx_flows st')"
      using assms(3) new(7) by (simp add: started_by_def new(3))
    ultimately show ?thesis ..
  qed
qed

lemma started_by_mono: "started_by a fs \<Longrightarrow> a \<le> b \<Longrightarrow> started_by b fs"
  by (force simp: started_by_def)

lemma run_unique:
  assumes "unique_flows (fx_flows st)" and "started_by now (fx_flows st)"
    and "sorted (now # List.map_filter flow_op_time ops)"
  shows "unique_flows (fx_flows (flow_run cfg ops st)) \<and>
     started_by (last (now # List.map_filter flow_op_time ops)) (fx_flows (flow_run cfg ops st))"
  using assms
proof (induction ops arbitrary: now st)
  case Nil
  then show ?case
    by (simp add: flow_run_def List.map_filter_def)
next
  case (Cons op ops)
  have run: "flow_run cfg (op # ops) st = flow_run cfg ops (flow_step cfg op st)"
    by (simp add: flow_run_def)
  show ?case
  proof (cases "flow_op_time op")
    case None
    then have s: "same_sockets st (flow_step cfg op st)"
      by (rule step_effect)
    have "List.map_filter flow_op_time (op # ops) = List.map_filter flow_op_time ops"
      using None by (simp add: List.map_filter_def)
    then show ?thesis
      using Cons.IH [of "flow_step cfg op st" now] Cons.prems unique_same_sockets [OF s] started_same_sockets [OF s]
      unfolding run by simp
  next
    case (Some ts)
    have m: "List.map_filter flow_op_time (op # ops) = ts # List.map_filter flow_op_time ops"
      using Some by (simp add: List.map_filter_def)
    obtain tup sid netns where "event_effect tup sid netns ts st (flow_step cfg op st)"
      using step_effect(2) [OF Some] by blast
    moreover have "started_by ts (fx_flows st)"
      using Cons.prems(2,3) unfolding m by (auto intro: started_by_mono)
    ultimately have "unique_flows (fx_flows (flow_step cfg op st)) \<and> started_by ts (fx_flows (flow_step cfg op st))"
      using unique_event Cons.prems(1) by blast
    then show ?thesis
      using Cons.IH [of "flow_step cfg op st" ts] Cons.prems(3) unfolding run m by simp
  qed
qed

lemma hits_le_one:
  assumes "\<And>i j. i < length fs \<Longrightarrow> j < length fs \<Longrightarrow> p (fs ! i) \<Longrightarrow> p (fs ! j) \<Longrightarrow> i = j"
  shows "hits p fs = [] \<or> (\<exists>i. hits p fs = [i])"
proof (cases "hits p fs")
  case (Cons i "is")
  have "j = i" if "j \<in> set is" for j
    using assms [of i j] that Cons hits_iff [of i p fs] hits_iff [of j p fs] by auto
  moreover have "distinct (i # is)"
    using distinct_hits [of p fs] Cons by simp
  ultimately have "is = []"
    by (cases "is") auto
  then show ?thesis
    using Cons by simp
qed simp

text \<open>
  Events in order of time are never ambiguous for want of order: after any operations whose
  events come in the order of their time stamps, an event of a known socket that is no older finds its
  flow, or finds that there is none, unless an ended flow of the same tuple still covers its time.
\<close>

lemma flow_lookup_decided:
  assumes "sorted (List.map_filter flow_op_time ops @ [ts])" and "sid \<noteq> 0"
    and "\<forall>f \<in> set (fx_flows (flow_run cfg ops (flow_start ns))). lookup_match tup netns ts f \<longrightarrow> fs_active f"
  shows "\<not> fx_ambiguous (snd (flow_lookup tup sid netns ts (flow_run cfg ops (flow_start ns))))"
proof -
  define fs where "fs = fx_flows (flow_run cfg ops (flow_start ns))"
  have u: "unique_flows fs"
    using run_unique [of "flow_start ns" 0 ops cfg] assms(1)
    by (simp add: flow_start_def unique_flows_def started_by_def sorted_append fs_def)
  have "i = j" if "i < length fs" "j < length fs" "lookup_match tup netns ts (fs ! i)" "lookup_match tup netns ts (fs ! j)"
      "fs_socket_id (fs ! i) = fs_socket_id (fs ! j)" for i j
  proof (rule ccontr)
    assume "i \<noteq> j"
    moreover have "fs_active (fs ! i)" "fs_active (fs ! j)"
      using assms(3) that unfolding fs_def by (simp_all add: Ball_def)
    ultimately show False
      using u that unfolding unique_flows_def lookup_match_def by metis
  qed
  then have "hits (lookup_exact tup sid netns ts) fs = [] \<or> (\<exists>i. hits (lookup_exact tup sid netns ts) fs = [i])"
      "hits (lookup_candidate tup sid netns ts) fs = [] \<or> (\<exists>i. hits (lookup_candidate tup sid netns ts) fs = [i])"
    using assms(2) by (intro hits_le_one; auto simp: lookup_exact_def lookup_candidate_def)+
  then show ?thesis
    unfolding flow_lookup_hits fs_def [symmetric] by auto
qed

section \<open>A late event\<close>

lemma packet_creates:
  assumes "packet_lookup d st = (None, st1)" and "\<not> fx_ambiguous st1"
    and "flow_packet_supported (fd_pkt d) (Some t)" and "\<not> packet_trace_terminal (Some t)" and "\<And>n. fc_mem cfg n"
  shows "\<exists>g. fx_flows (snd (flow_from_packet cfg d t st)) = fx_flows st @ [g] \<and> new_flow g \<and>
     fs_tuple_id g = packet_flow_id (ns_salt (fx_native st)) (fd_pkt d) \<and> fs_netns g = fd_netns d \<and>
     fs_socket_id g = packet_socket_id d st \<and> fs_first_ts g = ph_ts (fd_pkt d)"
proof -
  obtain i st2 where c: "flow_create cfg (packet_flow_id (ns_salt (fx_native st)) (fd_pkt d)) (packet_socket_id d st) (fd_netns d)
      (ph_ts (fd_pkt d)) st1 = (Some i, st2)"
    using assms(5) by (simp add: flow_create_def flow_add_def Let_def)
  obtain source dest where "packet_addresses cfg (fd_pkt d) = (source, dest)"
    by (cases "packet_addresses cfg (fd_pkt d)")
  then have found: "fst (flow_from_packet cfg d t st) \<noteq> None"
    using c assms(1-4) by (simp add: flow_from_packet_def packet_lookup_def Let_def)
  show ?thesis
  proof (cases rule: flow_from_packet_cases [where q = plain_line, of cfg d t st])
    case (skip r st2)
    then show ?thesis
      using found assms(4) by simp
  next
    case (touch i st2)
    then show ?thesis
      using assms(1) by simp
  next
    case (create st2 i st3 protocol local remote)
    note l = create(1) [unfolded packet_lookup_def]
    let ?st4 = "flow_open cfg i d (packet_socket_id d st) (ph_ts (fd_pkt d)) protocol local remote st3"
    obtain g where g: "fx_flows ?st4 = fx_flows st @ [g]"
      "i = length (fx_flows st)" "new_flow g" "fs_tuple_id g = packet_flow_id (ns_salt (fx_native st)) (fd_pkt d)"
      "fs_netns g = fd_netns d" "fs_socket_id g = packet_socket_id d st" "fs_first_ts g = ph_ts (fd_pkt d)"
      using create_open_effect [OF create(4,5) refl, of d "ph_ts (fd_pkt d)" local remote] lookup_same_flows [OF l] by auto
    obtain h where h: "fx_flows (snd (flow_from_packet cfg d t st)) = (fx_flows st @ [g])[i := h]"
        "flow_evolves g h" "fs_socket_id h = fs_socket_id g" "new_flow h"
      using count_effect [of i ?st4 cfg d t] g create(6) by (auto simp del: flow_open_length)
    then show ?thesis
      using g by (auto simp: flow_evolves_def)
  qed
qed

lemma two_hits: "i < length xs \<Longrightarrow> j < length xs \<Longrightarrow> i \<noteq> j \<Longrightarrow> p (xs ! i) \<Longrightarrow> p (xs ! j) \<Longrightarrow> hits p xs \<noteq> [] \<and> (\<forall>k. hits p xs \<noteq> [k])"
  using hits_iff [of i p xs] hits_iff [of j p xs] by (metis empty_iff empty_set insert_iff list.simps(15))

lemma lookup_two:
  assumes "i < length (fx_flows st)" and "j < length (fx_flows st)" and "i \<noteq> j"
    and "lookup_match tup netns ts (fx_flows st ! i)" and "lookup_match tup netns ts (fx_flows st ! j)"
    and "fs_socket_id (fx_flows st ! i) = sid" and "fs_socket_id (fx_flows st ! j) = sid"
  shows "flow_lookup tup sid netns ts st = (None, st\<lparr>fx_ambiguous := True\<rparr>)"
proof (cases "sid = 0")
  case True
  then have "hits (lookup_exact tup sid netns ts) (fx_flows st) = []"
    by (simp add: hits_empty lookup_exact_def)
  moreover have "hits (lookup_candidate tup sid netns ts) (fx_flows st) \<noteq> [] \<and> (\<forall>k. hits (lookup_candidate tup sid netns ts) (fx_flows st) \<noteq> [k])"
    using assms True by (intro two_hits [of i _ j]) (simp_all add: lookup_candidate_def)
  ultimately show ?thesis
    unfolding flow_lookup_hits by (auto split: list.splits)
next
  case False
  then have "hits (lookup_exact tup sid netns ts) (fx_flows st) \<noteq> [] \<and> (\<forall>k. hits (lookup_exact tup sid netns ts) (fx_flows st) \<noteq> [k])"
    using assms by (intro two_hits [of i _ j]) (simp_all add: lookup_exact_def)
  then show ?thesis
    unfolding flow_lookup_hits by (auto split: list.splits)
qed

text \<open>
  C19. One late event blinds the exporter to a connection.  If a packet that does not end a trace is processed whose
  time stamp precedes the start of its connection's active flow, as when the buffers of two processors are read
  out of order, and no other flow takes it and there is memory, a second active flow is opened for the same tuple, name
  space and socket.  From then on, after any further operations, as long as both flows are still active (and
  for a connection of unknown socket, as long as neither was given one), every packet of the connection not before the
  start of the first flow is ambiguous: it is attributed to no flow and changes none.
\<close>

theorem flow_late_event_splits:
  assumes "k < length (fx_flows st)" and "fs_active (fx_flows st ! k)" and "tup = packet_flow_id (ns_salt (fx_native st)) (fd_pkt d)"
    and "sid = packet_socket_id d st" and "fs_tuple_id (fx_flows st ! k) = tup"
    and "fs_netns (fx_flows st ! k) = fd_netns d" and "fs_socket_id (fx_flows st ! k) = sid"
    and "ph_ts (fd_pkt d) < fs_first_ts (fx_flows st ! k)"
    and "packet_lookup d st = (None, st0)" and "\<not> fx_ambiguous st0"
    and "flow_packet_supported (fd_pkt d) (Some t)" and "\<not> packet_trace_terminal (Some t)" and "fc_mem cfg = (\<lambda>n. True)"
    and "st1 = snd (flow_from_packet cfg d t st)" and "list_all op_ok ops" and "st2 = flow_run cfg ops st1" and "n = length (fx_flows st)"
  shows "(\<exists>g. fx_flows st1 = fx_flows st @ [g] \<and> fs_active g \<and> fs_tuple_id g = tup \<and> fs_netns g = fd_netns d \<and> fs_socket_id g = sid \<and>
            fs_first_ts g = ph_ts (fd_pkt d)) \<and>
     (fs_active (fx_flows st2 ! k) \<longrightarrow> fs_active (fx_flows st2 ! n) \<longrightarrow>
      sid \<noteq> 0 \<or> fs_socket_id (fx_flows st2 ! k) = 0 \<and> fs_socket_id (fx_flows st2 ! n) = 0 \<longrightarrow>
      (\<forall>d' t'. packet_flow_id (ns_salt (fx_native st2)) (fd_pkt d') = tup \<longrightarrow> packet_socket_id d' st2 = sid \<longrightarrow> fd_netns d' = fd_netns d \<longrightarrow>
         fs_first_ts (fx_flows st ! k) \<le> ph_ts (fd_pkt d') \<longrightarrow>
         fst (flow_from_packet cfg d' t' st2) = None \<and> fx_flows (snd (flow_from_packet cfg d' t' st2)) = fx_flows st2))"
proof (intro conjI impI allI)
  obtain g where g: "fx_flows st1 = fx_flows st @ [g]" "new_flow g" "fs_tuple_id g = tup" "fs_netns g = fd_netns d"
      "fs_socket_id g = sid" "fs_first_ts g = ph_ts (fd_pkt d)"
    using packet_creates [OF assms(9-12), of cfg] assms(3,4,13,14) by auto
  show "\<exists>g. fx_flows st1 = fx_flows st @ [g] \<and> fs_active g \<and> fs_tuple_id g = tup \<and> fs_netns g = fd_netns d \<and> fs_socket_id g = sid \<and>
      fs_first_ts g = ph_ts (fd_pkt d)"
    using g by (auto simp: new_flow_def)
  have m: "(flow_move plain_line)\<^sup>*\<^sup>* st1 st2"
    using run_moves [OF assms(15)] by (simp add: assms(16))
  have kn: "k < length (fx_flows st1)" "n < length (fx_flows st1)" "k \<noteq> n" "fx_flows st1 ! k = fx_flows st ! k" "fx_flows st1 ! n = g"
    using assms(1,17) g(1) by (simp_all add: nth_append)
  have e: "k < length (fx_flows st2)" "flow_evolves (fx_flows st ! k) (fx_flows st2 ! k)"
      "n < length (fx_flows st2)" "flow_evolves g (fx_flows st2 ! n)"
    using flow_moves_evolve [OF m kn(1)] flow_moves_evolve [OF m kn(2)] kn(4,5) by simp_all
  fix d' t'
  assume act: "fs_active (fx_flows st2 ! k)" "fs_active (fx_flows st2 ! n)"
    and soc: "sid \<noteq> 0 \<or> fs_socket_id (fx_flows st2 ! k) = 0 \<and> fs_socket_id (fx_flows st2 ! n) = 0"
    and d': "packet_flow_id (ns_salt (fx_native st2)) (fd_pkt d') = tup" "packet_socket_id d' st2 = sid" "fd_netns d' = fd_netns d"
      "fs_first_ts (fx_flows st ! k) \<le> ph_ts (fd_pkt d')"
  have "fs_socket_id (fx_flows st2 ! k) = sid" "fs_socket_id (fx_flows st2 ! n) = sid"
    using e(2,4) soc assms(7) g(5) by (auto simp: flow_evolves_def)
  moreover have "lookup_match tup (fd_netns d) (ph_ts (fd_pkt d')) (fx_flows st2 ! k)" "lookup_match tup (fd_netns d) (ph_ts (fd_pkt d')) (fx_flows st2 ! n)"
    using e(2,4) act d'(4) assms(5,6,8) g(3,4,6) by (auto simp: flow_evolves_def lookup_match_def flow_alive_at_def)
  ultimately have "flow_lookup tup sid (fd_netns d) (ph_ts (fd_pkt d')) st2 = (None, st2\<lparr>fx_ambiguous := True\<rparr>)"
    using lookup_two [OF e(1,3) kn(3)] by blast
  then have "flow_from_packet cfg d' t' st2 \<in> {(None, st2), (None, st2\<lparr>fx_ambiguous := True\<rparr>)}"
    using d'(1-3) by (simp add: flow_from_packet_def Let_def)
  then show "fst (flow_from_packet cfg d' t' st2) = None" "fx_flows (snd (flow_from_packet cfg d' t' st2)) = fx_flows st2"
    by auto
qed

definition late_start :: flow_export where
  "late_start = attribution_start\<lparr>fx_flows :=
     [flow_zero\<lparr>fs_tuple_id := packet_flow_id 0 (fd_pkt lifecycle_detail), fs_netns := 1, fs_first_ts := 200, fs_last_ts := 300,
        fs_active := True\<rparr>], fx_capacity := 32\<rparr>"

definition late_detail :: flow_detail where
  "late_detail = lifecycle_detail\<lparr>fd_pkt := (fd_pkt lifecycle_detail)\<lparr>ph_ts := 250\<rparr>\<rparr>"

theorem flow_late_event_splits_witness:
  "\<exists>st1. snd (flow_from_packet lifecycle_config lifecycle_detail (lifecycle_trace ''ip_output'') late_start) = st1 \<and>
     length (fx_flows st1) = 2 \<and> fst (flow_from_packet lifecycle_config late_detail (lifecycle_trace ''ip_output'') st1) = None"
proof -
  let ?t = "lifecycle_trace ''ip_output''"
  obtain r st1 where p: "flow_from_packet lifecycle_config lifecycle_detail ?t late_start = (r, st1)"
    by (cases "flow_from_packet lifecycle_config lifecycle_detail ?t late_start")
  have salt: "ns_salt (fx_native late_start) = 0"
    by (simp add: late_start_def attribution_start_def flow_start_def native_ring_start_def)
  have "fx_native st1 = fx_native late_start"
    by (rule silent_packet [OF _ p]) (simp add: late_start_def exports_native_def attribution_start_def flow_start_def)
  then have salt1: "ns_salt (fx_native st1) = 0"
    using salt by simp
  have sid: "packet_socket_id lifecycle_detail late_start = 0" and d: "fd_netns lifecycle_detail = 1" "ph_ts (fd_pkt lifecycle_detail) = 100"
    by (simp_all add: packet_socket_id_def lifecycle_detail_def)
  have late: "packet_socket_id late_detail st1 = 0" "fd_netns late_detail = 1" "ph_ts (fd_pkt late_detail) = 250"
      "packet_flow_id 0 (fd_pkt late_detail) = packet_flow_id 0 (fd_pkt lifecycle_detail)"
    by (simp_all add: packet_socket_id_def late_detail_def lifecycle_detail_def packet_flow_id_def packet_flow_hash_def hash_endpoints_def Let_def)
  have sup: "flow_packet_supported (fd_pkt lifecycle_detail) (Some ?t)" "\<not> packet_trace_terminal (Some ?t)"
    by (simp_all add: flow_packet_supported_def packet_trace_terminal_def trace_named_def lifecycle_detail_def lifecycle_trace_def)
  have f: "fx_flows late_start = [flow_zero\<lparr>fs_tuple_id := packet_flow_id 0 (fd_pkt lifecycle_detail), fs_netns := 1,
      fs_first_ts := 200, fs_last_ts := 300, fs_active := True\<rparr>]"
    by (simp add: late_start_def)
  have l: "packet_lookup lifecycle_detail late_start = (None, late_start\<lparr>fx_ambiguous := False\<rparr>)"
    unfolding packet_lookup_def sid d flow_lookup_def Let_def f salt by (simp add: flow_alive_at_def)
  have amb: "\<not> fx_ambiguous (late_start\<lparr>fx_ambiguous := False\<rparr>)"
    by (cases late_start) simp
  have c: "(\<exists>g. fx_flows st1 = fx_flows late_start @ [g] \<and> fs_active g \<and> fs_tuple_id g = packet_flow_id 0 (fd_pkt lifecycle_detail) \<and>
        fs_netns g = fd_netns lifecycle_detail \<and> fs_socket_id g = 0 \<and> fs_first_ts g = ph_ts (fd_pkt lifecycle_detail)) \<and>
     (fs_active (fx_flows st1 ! 0) \<longrightarrow> fs_active (fx_flows st1 ! 1) \<longrightarrow>
      (0 :: u64) \<noteq> 0 \<or> fs_socket_id (fx_flows st1 ! 0) = 0 \<and> fs_socket_id (fx_flows st1 ! 1) = 0 \<longrightarrow>
      (\<forall>d' t'. packet_flow_id (ns_salt (fx_native st1)) (fd_pkt d') = packet_flow_id 0 (fd_pkt lifecycle_detail) \<longrightarrow> packet_socket_id d' st1 = 0 \<longrightarrow>
         fd_netns d' = fd_netns lifecycle_detail \<longrightarrow> fs_first_ts (fx_flows late_start ! 0) \<le> ph_ts (fd_pkt d') \<longrightarrow>
         fst (flow_from_packet lifecycle_config d' t' st1) = None \<and> fx_flows (snd (flow_from_packet lifecycle_config d' t' st1)) = fx_flows st1))"
    by (rule flow_late_event_splits [where st = late_start and k = 0 and d = lifecycle_detail and st0 = "late_start\<lparr>fx_ambiguous := False\<rparr>"
        and t = ?t and ops = "[]"]) ((rule amb | (use sup l salt sid d f p in \<open>simp add: flow_zero_def lifecycle_config_def flow_run_def\<close>))+)
  from c [THEN conjunct1] obtain g where g: "fx_flows st1 = fx_flows late_start @ [g]" "fs_active g" "fs_socket_id g = 0"
    by blast
  have "fst (flow_from_packet lifecycle_config late_detail ?t st1) = None"
    by (rule c [THEN conjunct2, rule_format, THEN conjunct1]) (use g f salt1 late d in \<open>simp_all add: flow_zero_def\<close>)
  then show ?thesis
    using p g(1) f by simp
qed

section \<open>Totals\<close>

definition flow_total :: "(flow_state \<Rightarrow> u64) \<Rightarrow> flow_export \<Rightarrow> u64" where
  "flow_total h st = sum_list (map h (fx_flows st))"

text \<open>The four counters of a flow.\<close>

definition counter :: "(flow_state \<Rightarrow> u64) \<Rightarrow> bool" where
  "counter h \<longleftrightarrow> h = fs_tx_packets \<or> h = fs_rx_packets \<or> h = fs_tx_bytes \<or> h = fs_rx_bytes"

lemma counters [simp]:
  "counter fs_tx_packets" "counter fs_rx_packets" "counter fs_tx_bytes" "counter fs_rx_bytes"
  by (simp_all add: counter_def)

lemma sum_list_update_word: "i < length xs \<Longrightarrow> sum_list (map h (xs[i := y])) = sum_list (map h xs) + (h y - h (xs ! i))"
  for h :: "'a \<Rightarrow> u64"
proof -
  assume i: "i < length xs"
  then have e: "xs[i := y] = take i xs @ y # drop (Suc i) xs"
    by (rule upd_conv_take_nth_drop)
  have "sum_list (map h xs) = sum_list (map h (take i xs @ xs ! i # drop (Suc i) xs))"
    using id_take_nth_drop [OF i] by simp
  then show ?thesis
    unfolding e by simp
qed

lemma total_touch:
  assumes "counter h" and "i < length (fx_flows st)"
  shows "flow_total h (flow_touch cfg i d sid ts st) = flow_total h st"
proof -
  have "h ((flow_set_owner d sid (let f = fx_flows st ! i in if fs_last_ts f < ts then f\<lparr>fs_last_ts := ts\<rparr> else f))\<lparr>fs_linked_socket_id := l\<rparr>)
      = h (fx_flows st ! i)" for l
    using assms(1) by (auto simp: counter_def flow_set_owner_keeps Let_def)
  then show ?thesis
    using flow_touch_effect [OF assms(2), of cfg d sid ts] assms(2) by (auto simp: flow_total_def map_update_same)
qed

lemma total_open:
  assumes "counter h" and "flow_create cfg tup sid netns ts0 st = (Some i, st2)" and "protocol = IPPROTO_TCP \<or> protocol = IPPROTO_UDP"
  shows "flow_total h (flow_open cfg i d sid ts protocol local remote st2) = flow_total h st"
  using create_open_effect [OF assms(2,3) refl, of d ts local remote] assms(1) by (auto simp: flow_total_def counter_def)

lemma total_finish: "counter h \<Longrightarrow> i < length (fx_flows st) \<Longrightarrow> flow_total h (flow_finish cfg i e reason inc st) = flow_total h st"
  using flow_finish_effect [of cfg i e reason inc st] by (auto simp: flow_total_def Let_def sum_list_update_word counter_def)

lemma total_each_flow:
  assumes "\<And>i st. i < length (fx_flows st) \<Longrightarrow> flow_total h (step i (fx_flows st ! i) st) = flow_total h st"
    and "\<And>i st. length (fx_flows (step i (fx_flows st ! i) st)) = length (fx_flows st)"
  shows "flow_total h (each_flow step st) = flow_total h st"
proof -
  have "flow_total h (fold (\<lambda>i st. step i (fx_flows st ! i) st) is st) = flow_total h st"
    if "\<forall>i \<in> set is. i < length (fx_flows st)" for "is" st
    using that by (induction "is" arbitrary: st) (simp_all add: assms)
  then show ?thesis
    by (simp add: each_flow_def)
qed

lemma total_lookup: "flow_lookup tup sid netns ts st = (r, st1) \<Longrightarrow> flow_total h st1 = flow_total h st"
  by (simp add: flow_total_def lookup_same_flows)

lemma total_same: "fx_flows st' = fx_flows st \<Longrightarrow> flow_total h st' = flow_total h st"
  by (simp add: flow_total_def)

lemma total_socket: "counter h \<Longrightarrow> flow_total h (snd (flow_from_socket cfg d ts st)) = flow_total h st"
proof (cases rule: flow_from_socket_cases [where q = plain_line, of cfg d ts st])
  case (skip st1)
  then show ?thesis
    using total_same [of st1 st h] by simp
next
  case (touch i st1)
  note l = touch(1) [unfolded socket_lookup_def]
  assume "counter h"
  then show ?thesis
    using touch(2) total_touch [of h i st1] lookup_touch_moves [OF l] total_lookup [OF l] by simp
next
  case (create st1 i st2 protocol local remote)
  note l = create(1) [unfolded socket_lookup_def]
  assume "counter h"
  then show ?thesis
    using create(5) total_open [OF _ create(3,4), of h d ts local remote] total_lookup [OF l] by simp
qed

text \<open>Whether a packet event is counted, and in which direction.\<close>

definition packet_counted :: "flow_config \<Rightarrow> u8 \<Rightarrow> flow_detail \<Rightarrow> trace_info \<Rightarrow> flow_export \<Rightarrow> bool" where
  "packet_counted cfg direction d t st \<longleftrightarrow>
     fst (flow_from_packet cfg d t st) \<noteq> None \<and> \<not> packet_trace_terminal (Some t) \<and> fd_direction d = direction \<and>
     flow_packet_anchor cfg t (ph_proto_l4 (fd_pkt d)) direction"

lemma total_count:
  assumes "i < length (fx_flows st)"
  shows "flow_total fs_tx_packets (count_packet cfg i d t st) = flow_total fs_tx_packets st +
           (if fd_direction d = PACKET_DIRECTION_TX \<and> flow_packet_anchor cfg t (ph_proto_l4 (fd_pkt d)) PACKET_DIRECTION_TX then 1 else 0)"
    and "flow_total fs_rx_packets (count_packet cfg i d t st) = flow_total fs_rx_packets st +
           (if fd_direction d = PACKET_DIRECTION_RX \<and> flow_packet_anchor cfg t (ph_proto_l4 (fd_pkt d)) PACKET_DIRECTION_RX then 1 else 0)"
    and "flow_total fs_tx_bytes (count_packet cfg i d t st) = flow_total fs_tx_bytes st"
    and "flow_total fs_rx_bytes (count_packet cfg i d t st) = flow_total fs_rx_bytes st"
  using assms by (auto simp: flow_total_def count_packet_def Let_def sum_list_update_word PACKET_DIRECTION_TX_def PACKET_DIRECTION_RX_def)

lemma total_packet:
  "flow_total fs_tx_packets (snd (flow_from_packet cfg d t st)) =
     flow_total fs_tx_packets st + (if packet_counted cfg PACKET_DIRECTION_TX d t st then 1 else 0) \<and>
   flow_total fs_rx_packets (snd (flow_from_packet cfg d t st)) =
     flow_total fs_rx_packets st + (if packet_counted cfg PACKET_DIRECTION_RX d t st then 1 else 0) \<and>
   flow_total fs_tx_bytes (snd (flow_from_packet cfg d t st)) = flow_total fs_tx_bytes st \<and>
   flow_total fs_rx_bytes (snd (flow_from_packet cfg d t st)) = flow_total fs_rx_bytes st"
proof (cases rule: flow_from_packet_cases [where q = plain_line, of cfg d t st])
  case (skip r st1)
  have "flow_total h st1 = flow_total h st" for h
    using skip(2) by (rule total_same)
  then show ?thesis
    using skip by (auto simp: packet_counted_def)
next
  case (touch i st1)
  note l = touch(1) [unfolded packet_lookup_def]
  have i: "i < length (fx_flows (flow_touch cfg i d (packet_socket_id d st) (ph_ts (fd_pkt d)) st1))"
    using lookup_touch_moves [OF l] by simp
  have "flow_total h (flow_touch cfg i d (packet_socket_id d st) (ph_ts (fd_pkt d)) st1) = flow_total h st" if "counter h" for h
    using total_touch [OF that] total_lookup [OF l] lookup_touch_moves [OF l] by simp
  then show ?thesis
    using touch(2,3) total_count [OF i, of cfg d t] by (simp add: packet_counted_def)
next
  case (create st1 i st2 protocol local remote)
  note l = create(1) [unfolded packet_lookup_def]
  have i: "i < length (fx_flows (flow_open cfg i d (packet_socket_id d st) (ph_ts (fd_pkt d)) protocol local remote st2))"
    using lookup_open_moves [OF l create(4,5)] by blast
  have "flow_total h (flow_open cfg i d (packet_socket_id d st) (ph_ts (fd_pkt d)) protocol local remote st2) = flow_total h st" if "counter h" for h
    using total_open [OF that create(4,5)] total_lookup [OF l] by simp
  then show ?thesis
    using create(3,6) total_count [OF i, of cfg d t] by (simp add: packet_counted_def)
qed

text \<open>What one operation adds to a counter, and what a run adds.\<close>

fun adds_packets :: "flow_config \<Rightarrow> u8 \<Rightarrow> flow_op \<Rightarrow> flow_export \<Rightarrow> u64" where
  "adds_packets cfg direction (Op_packet d t) st = (if packet_counted cfg direction d t st then 1 else 0)"
| "adds_packets cfg direction _ st = 0"

fun adds_bytes :: "bool \<Rightarrow> flow_op \<Rightarrow> flow_export \<Rightarrow> u64" where
  "adds_bytes tx (Op_account i ts n tx') st = (if tx' = tx \<and> i < length (fx_flows st) \<and> fs_active (fx_flows st ! i) then n else 0)"
| "adds_bytes tx _ st = 0"

fun run_sum :: "(flow_op \<Rightarrow> flow_export \<Rightarrow> u64) \<Rightarrow> flow_config \<Rightarrow> flow_op list \<Rightarrow> flow_export \<Rightarrow> u64" where
  "run_sum w cfg [] st = 0"
| "run_sum w cfg (op # ops) st = w op st + run_sum w cfg ops (flow_step cfg op st)"

lemma total_other_op:
  assumes "counter h" and "\<forall>d t. op \<noteq> Op_packet d t" and "\<forall>i ts n tx. op \<noteq> Op_account i ts n tx"
  shows "flow_total h (flow_step cfg op st) = flow_total h st"
proof (cases op)
  case (Op_query d socket)
  have "fx_flows (snd (detail_flow_id cfg d socket st)) = fx_flows st"
    unfolding detail_flow_id_def Let_def by (auto split: prod.splits dest: lookup_same_flows)
  then show ?thesis
    unfolding Op_query flow_step.simps by (rule total_same)
next
  case (Op_other ns ls)
  then show ?thesis
    by (simp add: flow_total_def)
next
  case (Op_socket d ts)
  then show ?thesis
    using assms(1) by (simp add: total_socket)
qed (use assms in \<open>auto simp: destroy_socket_def expire_flows_def finish_flows_def intro!: total_each_flow total_finish\<close>)

lemma total_step:
  "flow_total fs_tx_packets (flow_step cfg op st) = flow_total fs_tx_packets st + adds_packets cfg PACKET_DIRECTION_TX op st \<and>
   flow_total fs_rx_packets (flow_step cfg op st) = flow_total fs_rx_packets st + adds_packets cfg PACKET_DIRECTION_RX op st \<and>
   flow_total fs_tx_bytes (flow_step cfg op st) = flow_total fs_tx_bytes st + adds_bytes True op st \<and>
   flow_total fs_rx_bytes (flow_step cfg op st) = flow_total fs_rx_bytes st + adds_bytes False op st"
proof (cases op)
  case (Op_account i ts n tx)
  then show ?thesis
    by (auto simp: flow_total_def flow_account_def Let_def sum_list_update_word)
next
  case (Op_packet d t)
  then show ?thesis
    using total_packet by simp
qed (simp_all add: total_other_op del: flow_step.simps)

text \<open>
  C18. Nothing is counted twice and nothing is lost.  Over any operations the packet counters of all
  flows grow by one for each attributed packet at the anchor probe of its direction, in no matter which
  and how many probes it was seen, and the byte counters by exactly the bytes of the calls charged to
  a flow; owners, sockets, ends and expiries move no counter.
\<close>

theorem flow_totals_exact:
  "flow_total fs_tx_packets (flow_run cfg ops st) = flow_total fs_tx_packets st + run_sum (adds_packets cfg PACKET_DIRECTION_TX) cfg ops st \<and>
   flow_total fs_rx_packets (flow_run cfg ops st) = flow_total fs_rx_packets st + run_sum (adds_packets cfg PACKET_DIRECTION_RX) cfg ops st \<and>
   flow_total fs_tx_bytes (flow_run cfg ops st) = flow_total fs_tx_bytes st + run_sum (adds_bytes True) cfg ops st \<and>
   flow_total fs_rx_bytes (flow_run cfg ops st) = flow_total fs_rx_bytes st + run_sum (adds_bytes False) cfg ops st"
proof (induction ops arbitrary: st)
  case (Cons op ops)
  show ?case
    using Cons.IH [of "flow_step cfg op st"] by (simp add: flow_run_def total_step add.assoc)
qed (simp add: flow_run_def)

end
