(* ===== verification/EventNames.thy ===== *)
theory EventNames
  imports FlowTable
begin

text \<open>
  Which events the exporter shows, and under which names (\<open>trace.c\<close>): in the compact mode of the
  exporter internal stages are hidden and the others are named after what they mean.
\<close>

section \<open>Names of probes\<close>

text \<open>The options read here, and what \<open>trace_event_name\<close> reads of an event.\<close>

record name_config =
  nc_perfetto :: bool
  nc_trace_detail :: bool
  nc_trace_tags :: bool
  nc_connect_diagnostics :: bool

record name_event =
  ne_pkt :: packet_headers
  ne_ske :: packet_headers
  ne_tcp_flags :: u8

definition trace_name_matches :: "trace_info \<Rightarrow> string \<Rightarrow> bool" where
  "trace_name_matches t name \<longleftrightarrow>
     (let n = length name in
      take n (ti_name t) = cstr name \<and> (length (ti_name t) = n \<or> n < length (ti_name t) \<and> ti_name t ! n = 0x2e))"

definition trace_matches_any :: "trace_info \<Rightarrow> string list \<Rightarrow> bool" where
  "trace_matches_any t names \<longleftrightarrow> list_ex (trace_name_matches t) names"

definition compact_events :: "string list" where
  "compact_events =
     [''sk_alloc'', ''inet_sock_set_state'', ''tcp_sendmsg'', ''tcp_recvmsg'', ''tcp_close'', ''tcp_v4_destroy_sock'',
      ''udp_destroy_sock'', ''udpv6_destroy_sock'', ''skb_consume_udp'', ''skb_copy_datagram_iter'',
      ''skb_copy_and_csum_datagram_msg'', ''tcp_v4_rcv'', ''tcp_v6_rcv'', ''tcp_queue_rcv'', ''tcp_data_queue_ofo'',
      ''udp_queue_rcv_skb'', ''udpv6_queue_rcv_skb'', ''__udp_queue_rcv_skb'', ''__udp_enqueue_schedule_skb'',
      ''sock_def_readable'', ''udp_sendmsg'', ''udpv6_sendmsg'', ''udp_rcv'', ''udpv6_rcv'', ''icmp_rcv'', ''icmpv6_rcv'',
      ''udp_recvmsg'', ''udpv6_recvmsg'', ''connect_sys_enter'', ''connect_sys_exit'', ''inet_stream_connect'',
      ''connect_tcp_retransmit'', ''tcp_retransmit_skb'', ''tcp_v4_send_reset'', ''tcp_v6_send_reset'',
      ''tcp_send_active_reset'', ''tcp_ack_update_rtt'', ''kfree_skb'']"

definition tag_events :: "string list" where
  "tag_events =
     [''sk_alloc'', ''inet_sock_set_state'', ''tcp_sendmsg'', ''tcp_recvmsg'', ''tcp_close'', ''tcp_v4_destroy_sock'',
      ''udp_destroy_sock'', ''udpv6_destroy_sock'', ''udp_sendmsg'', ''udpv6_sendmsg'', ''udp_recvmsg'', ''udpv6_recvmsg'',
      ''ip_output'', ''ip6_output'', ''tcp_v4_rcv'', ''tcp_v6_rcv'', ''udp_rcv'', ''udpv6_rcv'', ''icmp_rcv'', ''icmpv6_rcv'']"

definition trace_event_visible :: "name_config \<Rightarrow> trace_info option \<Rightarrow> name_event option \<Rightarrow> bool" where
  "trace_event_visible nc trace event \<longleftrightarrow>
     (case (trace, event) of
        (Some t, Some e) \<Rightarrow>
          if \<not> nc_perfetto nc \<or> nc_trace_detail nc then True
          else if nc_trace_tags nc then trace_matches_any t tag_events
          else if trace_name_matches t ''__tcp_transmit_skb'' then nc_connect_diagnostics nc
          else if trace_matches_any t [''ip_output'', ''ip6_output'']
          then ph_proto_l4 (ne_pkt e) \<in> {IPPROTO_TCP, IPPROTO_UDP, IPPROTO_ICMP, IPPROTO_ICMPV6}
          else trace_matches_any t compact_events
      | _ \<Rightarrow> True)"

section \<open>Names of events\<close>

definition TCP_FLAGS_FIN :: u8 where "TCP_FLAGS_FIN = 1"
definition TCP_FLAGS_SYN :: u8 where "TCP_FLAGS_SYN = 2"
definition TCP_FLAGS_RST :: u8 where "TCP_FLAGS_RST = 4"
definition TCP_FLAGS_ACK :: u8 where "TCP_FLAGS_ACK = 16"

text \<open>The names that do not depend on the packet.\<close>

definition probe_names :: "(string list \<times> string) list" where
  "probe_names =
     [([''sk_alloc''], ''socket create''), ([''inet_sock_set_state''], ''TCP state change''),
      ([''udp_destroy_sock'', ''udpv6_destroy_sock''], ''UDP socket destroy''),
      ([''skb_copy_datagram_iter'', ''skb_copy_and_csum_datagram_msg''], ''socket data copy to application''),
      ([''skb_consume_udp''], ''UDP receive buffer release''), ([''tcp_close''], ''TCP socket close''),
      ([''tcp_sendmsg''], ''TCP write''), ([''tcp_recvmsg''], ''TCP read''),
      ([''tcp_queue_rcv''], ''TCP receive queue attempt''), ([''tcp_data_queue_ofo''], ''TCP out-of-order queue attempt''),
      ([''udp_queue_rcv_skb'', ''udpv6_queue_rcv_skb'', ''__udp_queue_rcv_skb'', ''__udp_enqueue_schedule_skb''],
         ''UDP receive queue attempt'')]"

fun probe_name_loop :: "trace_info \<Rightarrow> (string list \<times> string) list \<Rightarrow> string option" where
  "probe_name_loop t [] = None"
| "probe_name_loop t ((names, text) # rest) = (if trace_matches_any t names then Some text else probe_name_loop t rest)"

definition is_dns_socket :: "name_event option \<Rightarrow> bool" where
  "is_dns_socket event \<longleftrightarrow>
     (case event of None \<Rightarrow> False | Some e \<Rightarrow> ntohs (ph_sport (ne_ske e)) = 53 \<or> ntohs (ph_dport (ne_ske e)) = 53)"

definition tcp_packet_name :: "u8 \<Rightarrow> bool \<Rightarrow> string" where
  "tcp_packet_name flags tx =
     (if flags AND TCP_FLAGS_SYN \<noteq> 0
      then if flags AND TCP_FLAGS_ACK \<noteq> 0 then (if tx then ''TCP SYN-ACK send'' else ''TCP SYN-ACK receive'')
           else if tx then ''TCP SYN send'' else ''TCP SYN receive''
      else if flags AND TCP_FLAGS_RST \<noteq> 0 then (if tx then ''TCP RST send'' else ''TCP RST receive'')
      else if flags AND TCP_FLAGS_FIN \<noteq> 0 then (if tx then ''TCP FIN send'' else ''TCP FIN receive'')
      else if tx then ''TCP packet send'' else ''TCP packet receive'')"

definition packet_name :: "trace_info \<Rightarrow> name_event \<Rightarrow> string option" where
  "packet_name t e =
     (let p = ne_pkt e; proto = ph_proto_l4 p; sport = ntohs (ph_sport p); dport = ntohs (ph_dport p);
          ip_output = trace_matches_any t [''ip_output'', ''ip6_output''];
          udp_rcv = trace_matches_any t [''udp_rcv'', ''udpv6_rcv''];
          tx = (trace_name_matches t ''__tcp_transmit_skb'' \<or> ip_output \<and> proto = IPPROTO_TCP) in
      if proto = IPPROTO_ICMP \<and> (ip_output \<or> trace_name_matches t ''icmp_rcv'')
      then Some (if ip_output then ''ICMP packet send'' else ''ICMP packet receive'')
      else if proto = IPPROTO_ICMPV6 \<and> (ip_output \<or> trace_name_matches t ''icmpv6_rcv'')
      then Some (if ip_output then ''ICMPv6 packet send'' else ''ICMPv6 packet receive'')
      else if tx \<or> trace_matches_any t [''tcp_v4_rcv'', ''tcp_v6_rcv''] then Some (tcp_packet_name (ne_tcp_flags e) tx)
      else if (ip_output \<or> udp_rcv) \<and> proto = IPPROTO_UDP \<and> sport \<noteq> 53 \<and> dport \<noteq> 53
      then Some (if ip_output then ''UDP packet send'' else ''UDP packet receive'')
      else if ip_output
      then Some (if proto = IPPROTO_UDP \<and> dport = 53 then ''DNS query send'' else ''DNS response send'')
      else if udp_rcv then Some (if sport = 53 then ''DNS response receive'' else ''DNS query receive'')
      else None)"

definition trace_event_name :: "name_config \<Rightarrow> trace_info option \<Rightarrow> name_event option \<Rightarrow> bytes" where
  "trace_event_name nc trace event =
     (case trace of
        None \<Rightarrow> cstr ''unknown''
      | Some t \<Rightarrow>
          if \<not> nc_perfetto nc \<or> nc_trace_detail nc then ti_name t
          else case probe_name_loop t probe_names of
            Some text \<Rightarrow> cstr text
          | None \<Rightarrow>
              if trace_matches_any t [''udp_sendmsg'', ''udpv6_sendmsg'']
              then if is_dns_socket event then cstr ''DNS write'' else cstr ''UDP write''
              else if trace_matches_any t [''udp_recvmsg'', ''udpv6_recvmsg'']
              then if is_dns_socket event then cstr ''DNS read'' else cstr ''UDP read''
              else case event of
                None \<Rightarrow> ti_name t
              | Some e \<Rightarrow> (case packet_name t e of None \<Rightarrow> ti_name t | Some text \<Rightarrow> cstr text))"

text \<open>
  Hiding stages hides no evidence: in every mode the reads and writes, the ends of sockets and the
  receive anchors are visible, and so are the transmit anchors at the exit of the IP layer.
\<close>

definition evidence_names :: "string list" where
  "evidence_names =
     [''tcp_recvmsg'', ''udp_recvmsg'', ''udpv6_recvmsg'', ''tcp_sendmsg'', ''udp_sendmsg'', ''udpv6_sendmsg'',
      ''tcp_v4_destroy_sock'', ''udp_destroy_sock'', ''udpv6_destroy_sock'', ''tcp_v4_rcv'', ''tcp_v6_rcv'', ''udp_rcv'', ''udpv6_rcv'']"

lemma name_matches:
  "ti_name t = cstr s \<Longrightarrow> trace_name_matches t s' \<longleftrightarrow>
     take (length s') s = s' \<and> (length s = length s' \<or> length s' < length s \<and> cstr s ! length s' = 0x2e)"
  by (auto simp: trace_name_matches_def Let_def take_cstr)

lemma matches_any: "ti_name t = cstr s \<Longrightarrow> s \<in> set names \<Longrightarrow> trace_matches_any t names"
  by (auto simp: trace_matches_any_def list_ex_iff name_matches intro!: bexI [of _ s])

lemma evidence_visible:
  assumes "ti_name t = cstr s" and "s \<in> set evidence_names \<or>
      s \<in> {''ip_output'', ''ip6_output''} \<and> (ph_proto_l4 (ne_pkt e) = IPPROTO_TCP \<or> ph_proto_l4 (ne_pkt e) = IPPROTO_UDP)"
  shows "trace_event_visible nc (Some t) (Some e)"
proof (cases "s \<in> set evidence_names")
  case True
  then have "\<not> trace_name_matches t ''__tcp_transmit_skb''" "\<not> trace_matches_any t [''ip_output'', ''ip6_output'']"
    unfolding evidence_names_def trace_matches_any_def list_ex_iff name_matches [OF assms(1)] by auto
  moreover have "s \<in> set compact_events" "s \<in> set tag_events"
    using True unfolding evidence_names_def compact_events_def tag_events_def by auto
  ultimately show ?thesis
    using matches_any [OF assms(1)] by (simp add: trace_event_visible_def)
next
  case False
  then have ip: "s \<in> {''ip_output'', ''ip6_output''}" "ph_proto_l4 (ne_pkt e) = IPPROTO_TCP \<or> ph_proto_l4 (ne_pkt e) = IPPROTO_UDP"
    using assms(2) by auto
  then have "\<not> trace_name_matches t ''__tcp_transmit_skb''"
    unfolding name_matches [OF assms(1)] by auto
  moreover have "s \<in> set tag_events" "s \<in> set [''ip_output'', ''ip6_output'']"
    using ip(1) unfolding tag_events_def by auto
  ultimately show ?thesis
    using matches_any [OF assms(1)] ip(2) by (auto simp: trace_event_visible_def)
qed

end
