(* ===== verification/ProbeTypes.thy ===== *)
theory ProbeTypes
  imports Prelude
begin

text \<open>
  What the packet probes (\<open>progs/core.c\<close>, \<open>progs/network_wakeup.h\<close>) share: the bounded maps of the
  kernel, the configuration, the current task and the records of \<open>progs/shared.h\<close>.  A map is a partial
  function; the kernel decides whether an update is accepted and which other entries it evicts to
  make room, so both are inputs of every update.
\<close>

section \<open>Bounded maps\<close>

text \<open>The outcome of one call of \<open>bpf_map_update_elem\<close>: accepted or not, and the entries it evicts.\<close>

record 'k outcome =
  oc_accept :: bool
  oc_evict :: "'k list"

definition map_update :: "'k outcome \<Rightarrow> 'k \<Rightarrow> 'v \<Rightarrow> ('k \<rightharpoonup> 'v) \<Rightarrow> bool \<times> ('k \<rightharpoonup> 'v)" where
  "map_update oc k v m =
     (let m1 = (\<lambda>x. if x \<in> set (oc_evict oc) then None else m x) in
      if oc_accept oc then (True, m1(k \<mapsto> v)) else (False, m1))"

definition map_delete :: "'k \<Rightarrow> ('k \<rightharpoonup> 'v) \<Rightarrow> ('k \<rightharpoonup> 'v)" where
  "map_delete k m = m(k := None)"

text \<open>
  What happens around one use of a generation counter.  The compatibility target adds to the counter and
  reads it separately, and other processors add to it in between: \<open>go_added\<close> times after the addition,
  and \<open>go_added_again\<close> times after a second one.  \<open>go_raced\<close> is the generation that another processor stored
  for the same address after it was looked up, and \<open>go_update\<close> the outcome of the update.
\<close>

record gen_outcome =
  go_update :: "u64 outcome"
  go_added :: u32
  go_added_again :: u32
  go_raced :: "u32 option"

text \<open>
  What the probes rely on: an accepted update stores its value, and every other entry is unchanged or
  gone.  A fact about all stored values then survives an update that establishes it for the new one.
\<close>

locale lru_store =
  fixes upd :: "'h \<Rightarrow> 'k \<Rightarrow> 'v \<Rightarrow> ('k \<rightharpoonup> 'v) \<Rightarrow> bool \<times> ('k \<rightharpoonup> 'v)"
  assumes stored: "fst (upd h k v m) \<Longrightarrow> snd (upd h k v m) k = Some v"
    and others: "k' \<noteq> k \<Longrightarrow> snd (upd h k v m) k' = m k' \<or> snd (upd h k v m) k' = None"
    and rejected: "\<not> fst (upd h k v m) \<Longrightarrow> snd (upd h k v m) k = m k \<or> snd (upd h k v m) k = None"
begin

lemma stored_cases:
  assumes "snd (upd h k v m) k' = Some w"
  shows "k' = k \<and> w = v \<and> fst (upd h k v m) \<or> m k' = Some w"
  using assms stored [of h k v m] others [of k' k h v m] rejected [of h k v m]
  by (cases "k' = k"; cases "fst (upd h k v m)") auto

lemma values_kept:
  assumes "\<And>k v. m k = Some v \<Longrightarrow> P k v" and "P k v" and "snd (upd h k v m) k' = Some v'"
  shows "P k' v'"
  using stored_cases [OF assms(3)] assms(1,2) by blast

end

interpretation lru: lru_store map_update
  by unfold_locales (auto simp: map_update_def Let_def split: if_splits)

section \<open>Configuration and current task\<close>

text \<open>The fields of \<open>bpf_args_t\<close> that the modelled probes read; \<open>event_count\<close> counts emitted events.\<close>

record bpf_args =
  ba_pid :: u32
  ba_uid :: u32
  ba_uid_enabled :: bool
  ba_ready :: bool
  ba_perfetto :: bool
  ba_connect_diagnostics :: bool
  ba_wakeup_chain :: bool
  ba_rx_context :: bool
  ba_connect_nr :: u32
  ba_getsockopt_nr :: u32
  ba_syscall_nr :: "u32 list"
  ba_compat_syscall_nr :: "u32 list"
  ba_socket_filter :: bool

text \<open>
  The current task and clock as a probe sees them; \<open>pe_arrays\<close> tells whether the lookups in the
  one-element arrays (scratch space and counters) succeed.
\<close>

record probe_env =
  pe_pid_tgid :: u64
  pe_uid_gid :: u64
  pe_start_time :: u64
  pe_comm :: bytes
  pe_now :: u64
  pe_cpu :: u32
  pe_arrays :: bool

definition env_tid :: "probe_env \<Rightarrow> u32" where
  "env_tid env = ucast (pe_pid_tgid env)"

definition env_tgid :: "probe_env \<Rightarrow> u32" where
  "env_tgid env = ucast (drop_bit 32 (pe_pid_tgid env))"

definition env_uid :: "probe_env \<Rightarrow> u32" where
  "env_uid env = ucast (pe_uid_gid env)"

definition perfetto_current_matches :: "bpf_args \<Rightarrow> u32 \<Rightarrow> u32 \<Rightarrow> bool" where
  "perfetto_current_matches args tid uid \<longleftrightarrow>
     \<not> (ba_pid args \<noteq> 0 \<and> ba_pid args \<noteq> tid) \<and> (\<not> ba_uid_enabled args \<or> ba_uid args = uid)"

section \<open>Records of \<open>progs/shared.h\<close>\<close>

datatype syscall_kind =
    NETWORK_SYS_SENDTO | NETWORK_SYS_RECVFROM | NETWORK_SYS_SENDMSG | NETWORK_SYS_RECVMSG
  | NETWORK_SYS_SENDMMSG | NETWORK_SYS_RECVMMSG | NETWORK_SYS_READ | NETWORK_SYS_WRITE
  | NETWORK_SYS_READV | NETWORK_SYS_WRITEV | NETWORK_SYS_SEND | NETWORK_SYS_RECV

definition syscall_kinds :: "syscall_kind list" where
  "syscall_kinds =
     [NETWORK_SYS_SENDTO, NETWORK_SYS_RECVFROM, NETWORK_SYS_SENDMSG, NETWORK_SYS_RECVMSG, NETWORK_SYS_SENDMMSG,
      NETWORK_SYS_RECVMMSG, NETWORK_SYS_READ, NETWORK_SYS_WRITE, NETWORK_SYS_READV, NETWORK_SYS_WRITEV,
      NETWORK_SYS_SEND, NETWORK_SYS_RECV]"

text \<open>\<open>network_syscall_event_t\<close>; its \<open>meta\<close> field is always \<open>FUNC_TYPE_SYSCALL\<close>.\<close>

record syscall_event =
  se_kind :: syscall_kind
  se_syscall_nr :: u32
  se_start_ts :: u64
  se_ts :: u64
  se_socket_key :: u64
  se_requested_bytes :: u64
  se_result :: u64
  se_socket_generation :: u32
  se_tid :: u32
  se_tgid :: u32
  se_uid :: u32
  se_fd :: u32
  se_flags :: u32
  se_finished :: bool
  se_requested_valid :: bool
  se_require_socket :: bool
  se_abi :: u8
  se_requested_messages :: u32
  se_task :: bytes
  se_waking_ts :: u64
  se_wakeup_ts :: u64
  se_run_start_ts :: u64
  se_waker_start_time :: u64
  se_waker_tid :: u32
  se_waker_tgid :: u32
  se_waking_cpu :: u32
  se_run_cpu :: u32
  se_waking_preempt_count :: u32
  se_wakeup_status :: u8
  se_waking_context :: u8
  se_waker_task :: bytes

definition zero_task :: bytes where "zero_task = replicate 16 0"

text \<open>The record after \<open>memset\<close>.\<close>

definition zero_syscall_event :: syscall_event where
  "zero_syscall_event =
     \<lparr>se_kind = NETWORK_SYS_SENDTO, se_syscall_nr = 0, se_start_ts = 0, se_ts = 0, se_socket_key = 0, se_requested_bytes = 0,
      se_result = 0, se_socket_generation = 0, se_tid = 0, se_tgid = 0, se_uid = 0, se_fd = 0, se_flags = 0,
      se_finished = False, se_requested_valid = False, se_require_socket = False, se_abi = 0, se_requested_messages = 0,
      se_task = zero_task, se_waking_ts = 0, se_wakeup_ts = 0, se_run_start_ts = 0, se_waker_start_time = 0,
      se_waker_tid = 0, se_waker_tgid = 0, se_waking_cpu = 0, se_run_cpu = 0, se_waking_preempt_count = 0,
      se_wakeup_status = 0, se_waking_context = 0, se_waker_task = zero_task\<rparr>"

end
