(* ===== verification/IoExport.thy ===== *)
theory IoExport
  imports EventNames ProbeTypes
begin

text \<open>
  Reads and writes in the exporter (\<open>perfetto_export.c\<close>, \<open>pending_io_*\<close>, \<open>export_packet_io_link\<close>,
  \<open>handle_network_syscall\<close>, \<open>export_network_syscall\<close>): protocol calls are kept from their entry to
  their return in a table keyed by function and thread, system calls in a bounded table keyed by
  thread; packets bind a call to a flow, and a finished call is charged to it.
\<close>

section \<open>State\<close>

record pending_io =
  po_func :: u16
  po_tid :: u32
  po_tgid :: u32
  po_uid :: u32
  po_start_ts :: u64
  po_socket_id :: u64
  po_flow_id :: u64
  po_native_track_uuid :: u64
  po_syscall_start_ts :: u64
  po_io_id :: u64
  po_flow_ambiguous :: bool
  po_stage :: bytes
  po_owner_tid :: u32
  po_owner_tgid :: u32
  po_owner_uid :: u32
  po_cpu :: u32
  po_task :: bytes
  po_protocol :: u8
  po_tx :: bool
  po_visible :: bool
  po_active :: bool

definition io_zero :: pending_io where
  "io_zero =
     \<lparr>po_func = 0, po_tid = 0, po_tgid = 0, po_uid = 0, po_start_ts = 0, po_socket_id = 0, po_flow_id = 0,
      po_native_track_uuid = 0, po_syscall_start_ts = 0, po_io_id = 0, po_flow_ambiguous = False, po_stage = [],
      po_owner_tid = 0, po_owner_tgid = 0, po_owner_uid = 0, po_cpu = 0, po_task = [], po_protocol = 0, po_tx = False,
      po_visible = False, po_active = False\<rparr>"

record pending_call =
  pc_event :: syscall_event
  pc_flow_id :: u64
  pc_completed_ts :: u64
  pc_active :: bool

record io_config =
  ic_flow :: flow_config
  ic_names :: name_config

record io_export =
  ix_flow :: flow_export
  ix_ios :: "pending_io list"
  ix_io_capacity :: nat
  ix_calls :: "pending_call list"
  ix_lost :: u64

definition pending_sizeof :: nat where
  "pending_sizeof = 136"

definition MAX_CALLS :: nat where
  "MAX_CALLS = 4096"

definition put_io :: "nat \<Rightarrow> pending_io \<Rightarrow> io_export \<Rightarrow> io_export" where
  "put_io i p st = st\<lparr>ix_ios := (ix_ios st)[i := p]\<rparr>"

definition on_flow :: "(flow_export \<Rightarrow> flow_export) \<Rightarrow> io_export \<Rightarrow> io_export" where
  "on_flow f st = st\<lparr>ix_flow := f (ix_flow st)\<rparr>"

definition on_native :: "(native_state \<Rightarrow> native_state) \<Rightarrow> flow_export \<Rightarrow> flow_export" where
  "on_native f st = st\<lparr>fx_native := f (fx_native st)\<rparr>"

text \<open>An event with its arrows and annotations, in the order they are appended.\<close>

definition native_event ::
    "allocator \<Rightarrow> bool \<Rightarrow> u32 \<Rightarrow> u64 \<Rightarrow> bytes option \<Rightarrow> string \<Rightarrow> (u64 \<times> bool) list \<Rightarrow> annotation list \<Rightarrow> proto_buffer" where
  "native_event mem tags type uuid name category arrows notes =
     fold (add_annotation mem) notes
       (fold (\<lambda>(id, terminating). native_event_flow mem tags id terminating) arrows
         (native_event_start mem type uuid name (Some (cstr category)) proto_empty))"

text \<open>\<open>"%s%s%s"\<close> with the separator between a label and a text when there is a label.\<close>

definition after_tag :: "bytes \<Rightarrow> bytes \<Rightarrow> bytes" where
  "after_tag tag text = tag @ (if tag \<noteq> [] then middle_dot else []) @ text"

definition before_tag :: "bytes \<Rightarrow> bytes \<Rightarrow> bytes" where
  "before_tag text tag = text @ (if tag \<noteq> [] then middle_dot else []) @ tag"

section \<open>The table of protocol calls\<close>

definition pending_io_find :: "u16 \<Rightarrow> u32 \<Rightarrow> io_export \<Rightarrow> nat option" where
  "pending_io_find func tid st = find_loop (\<lambda>p. po_active p \<and> po_func p = func \<and> po_tid p = tid) 0 (ix_ios st)"

definition pending_io_find_logical :: "u32 \<Rightarrow> u64 \<Rightarrow> bool \<Rightarrow> io_export \<Rightarrow> nat option" where
  "pending_io_find_logical tid socket_id tx st =
     find_loop (\<lambda>p. po_active p \<and> po_tid p = tid \<and> po_socket_id p = socket_id \<and> po_tx p = tx) 0 (ix_ios st)"

definition pending_io_add :: "io_config \<Rightarrow> u16 \<Rightarrow> u32 \<Rightarrow> io_export \<Rightarrow> nat option \<times> io_export" where
  "pending_io_add cfg func tid st =
     (let fresh = io_zero\<lparr>po_func := func, po_tid := tid, po_active := True\<rparr> in
      case pending_io_find func tid st of
        Some i \<Rightarrow> (Some i, st)
      | None \<Rightarrow>
          (case find_loop (\<lambda>p. \<not> po_active p) 0 (ix_ios st) of
             Some i \<Rightarrow> (Some i, put_io i fresh st)
           | None \<Rightarrow>
               let count = length (ix_ios st);
                   grow = (count = ix_io_capacity st);
                   capacity = (if ix_io_capacity st \<noteq> 0 then ix_io_capacity st * 2 else 32) in
               if grow \<and> \<not> fc_mem (ic_flow cfg) (capacity * pending_sizeof) then (None, st)
               else (Some count,
                     st\<lparr>ix_io_capacity := (if grow then capacity else ix_io_capacity st), ix_ios := ix_ios st @ [fresh]\<rparr>)))"

section \<open>Starting a call\<close>

definition syscall_id :: "flow_export \<Rightarrow> pending_io \<Rightarrow> u64" where
  "syscall_id st p =
     (if po_syscall_start_ts p \<noteq> 0 then call_uuid st ''syscall-call'' (po_tgid p) (po_tid p) (po_syscall_start_ts p) else 0)"

definition io_category :: "pending_io \<Rightarrow> string" where
  "io_category p = (if po_tx p then ''anettrace.tx.write'' else ''anettrace.rx.read'')"

definition io_start_line :: "pending_io \<Rightarrow> bytes \<Rightarrow> string \<Rightarrow> u64 \<Rightarrow> json_line" where
  "io_start_line p tag protocol call_id =
     json_head (if po_tx p then ''tx_write_start'' else ''rx_read_start'') (po_start_ts p) @
     [(''stage'', JText (po_stage p)), (''socket_id'', JId (po_socket_id p)), (''flow_id'', JId (po_flow_id p)),
      (''flow_tag'', JText tag), (''protocol'', JText (cstr protocol)), (''cpu'', JInt (scast (po_cpu p))),
      (''tid'', JNum (ucast (po_tid p))), (''tgid'', JNum (ucast (po_tgid p))), (''uid'', JNum (ucast (po_uid p))),
      (''task'', JText (json_task (po_task p))), (''owner_tid'', JNum (ucast (po_owner_tid p))),
      (''owner_tgid'', JNum (ucast (po_owner_tgid p))), (''owner_uid'', JNum (ucast (po_owner_uid p))),
      (''io_id'', JId (po_io_id p)), (''call_id'', JId call_id)]"

text \<open>The bridge from the socket's track to the call.\<close>

definition io_socket_event :: "io_config \<Rightarrow> pending_io \<Rightarrow> bytes \<Rightarrow> u64 \<Rightarrow> native_state \<Rightarrow> native_state" where
  "io_socket_event cfg p tag call_id ns =
     (let mem = fc_mem (ic_flow cfg) in
      if po_socket_id p = 0 then ns
      else (case native_socket_track mem (po_socket_id p) (po_tgid p) (Some (po_task p)) ns of
              (None, ns1) \<Rightarrow> ns1
            | (Some socket, ns1) \<Rightarrow>
                native_event_write mem (po_start_ts p)
                  (native_event mem (ns_trace_tags ns1) 3 (nt_uuid (ns_tracks ns1 ! socket))
                     (Some (snprintf 96 (before_tag (cstr ''socket I/O'') tag))) ''anettrace.socket.io''
                     [(po_socket_id p, False), (po_io_id p, False)]
                     [AId ''socket_id'' (po_socket_id p), AId ''flow_id'' (po_flow_id p), AText ''flow_tag'' tag,
                      AId ''io_id'' (po_io_id p), AId ''call_id'' call_id, AText ''evidence'' (cstr ''protocol_call_socket'')])
                  ns1))"

definition io_begin_event :: "io_config \<Rightarrow> pending_io \<Rightarrow> bytes \<Rightarrow> string \<Rightarrow> u64 \<Rightarrow> native_state \<Rightarrow> native_state" where
  "io_begin_event cfg p tag protocol call_id ns =
     (let mem = fc_mem (ic_flow cfg) in
      native_event_write mem (po_start_ts p)
        (native_event mem (ns_trace_tags ns) 1 (po_native_track_uuid p) (Some (snprintf 96 (after_tag tag (po_stage p))))
           (io_category p) [(po_io_id p, False), (call_id, False)]
           [AId ''io_id'' (po_io_id p), AId ''call_id'' call_id, AId ''socket_id'' (po_socket_id p),
            AId ''flow_id'' (po_flow_id p), AText ''flow_tag'' tag, AText ''protocol'' (cstr protocol),
            AUint ''cpu'' (scast (po_cpu p)), AUint ''owner_uid'' (ucast (po_owner_uid p))])
        ns)"

definition pending_io_emit_start :: "io_config \<Rightarrow> nat \<Rightarrow> trace_info option \<Rightarrow> nat option \<Rightarrow> io_export \<Rightarrow> io_export" where
  "pending_io_emit_start cfg i trace flow st =
     (let p0 = ix_ios st ! i; fx = ix_flow st in
      if po_visible p0 then st
      else
        let call_id = syscall_id fx p0;
            p1 = (case flow of None \<Rightarrow> p0 | Some k \<Rightarrow> p0\<lparr>po_flow_id := fs_id (fx_flows fx ! k)\<rparr>);
            tag = format_known_flow_label (po_flow_id p1) 16 fx;
            protocol = (case flow of Some k \<Rightarrow> flow_protocol_name (fx_flows fx ! k)
                        | None \<Rightarrow> if po_protocol p1 = IPPROTO_TCP then ''tcp'' else ''udp'');
            stage = (if flow \<noteq> None \<and> protocol = ''udp-dns'' then (if po_tx p1 then cstr ''DNS write'' else cstr ''DNS read'')
                     else trace_event_name (ic_names cfg) trace None);
            p2 = p1\<lparr>po_stage := snprintf 32 stage\<rparr>;
            fx1 = put_json (io_start_line p2 tag protocol call_id) fx;
            fx2 = (if exports_native fx1 \<and> po_native_track_uuid p2 \<noteq> 0
                   then on_native (\<lambda>ns. io_begin_event cfg p2 tag protocol call_id (io_socket_event cfg p2 tag call_id ns)) fx1
                   else fx1) in
        put_io i (p2\<lparr>po_visible := True\<rparr>) (st\<lparr>ix_flow := fx2\<rparr>))"

section \<open>Finishing a call\<close>

definition signed_positive :: "u64 \<Rightarrow> u64" where
  "signed_positive r = (if 0 < sint r then r else 0)"

definition signed_error :: "u64 \<Rightarrow> u64" where
  "signed_error r = (if sint r < 0 then 0 - r else 0)"

definition io_association :: "pending_io \<Rightarrow> bytes" where
  "io_association p =
     (if po_flow_ambiguous p then cstr ''multiple_flows''
      else if po_flow_id p \<noteq> 0 then cstr ''associated'' else cstr ''unassociated'')"

definition io_end_line :: "pending_io \<Rightarrow> u64 \<Rightarrow> bytes \<Rightarrow> bytes \<Rightarrow> u64 \<Rightarrow> u64 \<Rightarrow> bool \<Rightarrow> json_line" where
  "io_end_line p ts stage tag call_id result incomplete =
     json_head (if po_tx p then ''tx_write_end'' else ''rx_read_end'') ts @
     [(''stage'', JText stage), (''tid'', JNum (ucast (po_tid p))), (''socket_id'', JId (po_socket_id p)),
      (''flow_id'', JId (po_flow_id p)), (''flow_tag'', JText tag), (''result'', JInt result),
      (''bytes'', JNum (signed_positive result)), (''error'', JNum (signed_error result)), (''incomplete'', JBool incomplete),
      (''io_id'', JId (po_io_id p)), (''call_id'', JId call_id), (''association'', JText (io_association p))]"

definition io_complete_line :: "pending_io \<Rightarrow> u64 \<Rightarrow> bytes \<Rightarrow> u64 \<Rightarrow> u64 \<Rightarrow> bool \<Rightarrow> json_line" where
  "io_complete_line p ts tag call_id result incomplete = json_head ''io_complete'' ts @
     [(''io_id'', JId (po_io_id p)), (''call_id'', JId call_id), (''socket_id'', JId (po_socket_id p)),
      (''flow_id'', JId (po_flow_id p)), (''flow_tag'', JText tag), (''tid'', JNum (ucast (po_tid p))),
      (''tgid'', JNum (ucast (po_tgid p))), (''direction'', JText (if po_tx p then cstr ''tx'' else cstr ''rx'')),
      (''result'', JInt result), (''bytes'', JNum (signed_positive result)), (''error'', JNum (signed_error result)),
      (''incomplete'', JBool incomplete), (''association'', JText (io_association p))]"

definition io_end_event :: "io_config \<Rightarrow> pending_io \<Rightarrow> u64 \<Rightarrow> u64 \<Rightarrow> bool \<Rightarrow> native_state \<Rightarrow> native_state" where
  "io_end_event cfg p ts result incomplete ns =
     (let mem = fc_mem (ic_flow cfg) in
      native_event_write mem ts
        (native_event mem (ns_trace_tags ns) 2 (po_native_track_uuid p) None (io_category p) []
           ([AId ''io_id'' (po_io_id p), AText ''association'' (io_association p), AId ''flow_id'' (po_flow_id p)] @
            (if incomplete then []
             else [AUint ''bytes'' (signed_positive result), AUint ''error'' (signed_error result)]) @
            [ABool ''incomplete'' incomplete]))
        ns)"

definition io_complete_event :: "io_config \<Rightarrow> pending_io \<Rightarrow> u64 \<Rightarrow> bytes \<Rightarrow> u64 \<Rightarrow> u64 \<Rightarrow> bool \<Rightarrow> native_state \<Rightarrow> native_state" where
  "io_complete_event cfg p ts tag call_id result incomplete ns =
     (let mem = fc_mem (ic_flow cfg);
          name = after_tag tag (if po_tx p then cstr ''write'' else cstr ''read'') @ cstr '' completed'' in
      native_event_write mem ts
        (native_event mem (ns_trace_tags ns) 3 (po_native_track_uuid p) (Some (snprintf 96 name)) ''anettrace.io.complete''
           [(po_io_id p, True), (call_id, False)]
           ([AId ''io_id'' (po_io_id p), AId ''call_id'' call_id, AId ''socket_id'' (po_socket_id p),
             AId ''flow_id'' (po_flow_id p), AText ''flow_tag'' tag,
             AText ''direction'' (if po_tx p then cstr ''tx'' else cstr ''rx''), AText ''association'' (io_association p),
             AUint ''tid'' (ucast (po_tid p)), AUint ''tgid'' (ucast (po_tgid p))] @
            (if incomplete then []
             else [AInt ''result'' result, AUint ''bytes'' (signed_positive result), AUint ''error'' (signed_error result)]) @
            [ABool ''incomplete'' incomplete]))
        ns)"

text \<open>The flow of a finished call is also that of the system call around it, unless it handles several messages.\<close>

definition batch_kind :: "syscall_kind \<Rightarrow> bool" where
  "batch_kind k \<longleftrightarrow> k = NETWORK_SYS_SENDMMSG \<or> k = NETWORK_SYS_RECVMMSG"

definition bind_calls :: "pending_io \<Rightarrow> u64 \<Rightarrow> pending_call list \<Rightarrow> pending_call list" where
  "bind_calls p flow_id calls =
     map (\<lambda>c. if pc_active c \<and> se_tid (pc_event c) = po_tid p \<and> se_tgid (pc_event c) = po_tgid p \<and>
                 se_start_ts (pc_event c) \<le> po_start_ts p
              then c\<lparr>pc_flow_id := (if batch_kind (se_kind (pc_event c)) then 0 else flow_id)\<rparr> else c) calls"

definition io_protocol :: "trace_info option \<Rightarrow> u8" where
  "io_protocol trace = (case trace of None \<Rightarrow> IPPROTO_UDP
     | Some t \<Rightarrow> if take 4 (ti_name t) = cstr ''tcp_'' then IPPROTO_TCP else IPPROTO_UDP)"

definition finished_flow :: "pending_io \<Rightarrow> u8 \<Rightarrow> flow_export \<Rightarrow> nat option" where
  "finished_flow p protocol fx =
     (let f0 = (if po_flow_id p \<noteq> 0 then flow_find (po_flow_id p) fx else None) in
      if f0 = None \<and> \<not> po_flow_ambiguous p \<and> protocol = IPPROTO_TCP
      then flow_find_by_socket (po_socket_id p) protocol fx else f0)"

definition pending_io_close :: "io_config \<Rightarrow> nat \<Rightarrow> u64 \<Rightarrow> u64 \<Rightarrow> bool \<Rightarrow> bytes \<Rightarrow> io_export \<Rightarrow> io_export" where
  "pending_io_close cfg i ts result incomplete stage st =
     (let p = ix_ios st ! i; fx = ix_flow st; call_id = syscall_id fx p;
          tag = format_known_flow_label (po_flow_id p) 16 fx;
          native = (exports_native fx \<and> po_native_track_uuid p \<noteq> 0);
          fx1 = put_json (io_end_line p ts stage tag call_id result incomplete) fx;
          fx2 = (if native then on_native (io_end_event cfg p ts result incomplete) fx1 else fx1);
          fx3 = put_json (io_complete_line p ts tag call_id result incomplete) fx2;
          fx4 = (if native then on_native (io_complete_event cfg p ts tag call_id result incomplete) fx3 else fx3) in
      put_io i (p\<lparr>po_active := False\<rparr>) (st\<lparr>ix_flow := fx4\<rparr>))"

definition pending_io_finish :: "io_config \<Rightarrow> nat option \<Rightarrow> u64 \<Rightarrow> u64 \<Rightarrow> bool \<Rightarrow> io_export \<Rightarrow> io_export" where
  "pending_io_finish cfg found ts result incomplete st =
     (case found of
        None \<Rightarrow> st
      | Some i \<Rightarrow>
          let p = ix_ios st ! i in
          if \<not> po_active p then st
          else
            let trace = fc_get_trace (ic_flow cfg) (po_func p);
                stage = (if po_stage p \<noteq> [] then po_stage p else trace_event_name (ic_names cfg) trace None);
                flow = finished_flow p (io_protocol trace) (ix_flow st);
                st1 = (case flow of
                         None \<Rightarrow> st
                       | Some k \<Rightarrow>
                           let flow_id = fs_id (fx_flows (ix_flow st) ! k);
                               st0 = put_io i (p\<lparr>po_flow_id := flow_id\<rparr>) (st\<lparr>ix_calls := bind_calls p flow_id (ix_calls st)\<rparr>) in
                           on_flow (flow_account k ts (signed_positive result) (po_tx p))
                             (pending_io_emit_start cfg i trace flow st0));
                st2 = (if \<not> po_visible (ix_ios st1 ! i) then pending_io_emit_start cfg i trace flow st1 else st1) in
            pending_io_close cfg i ts result incomplete stage st2)"

section \<open>The entry of a call\<close>

text \<open>The socket of a protocol call is also that of the system call around it.\<close>

definition bind_sockets :: "flow_detail \<Rightarrow> pending_call list \<Rightarrow> pending_call list" where
  "bind_sockets d calls =
     map (\<lambda>c. if \<not> pc_active c \<or> se_tid (pc_event c) \<noteq> fd_tid d \<or> se_tgid (pc_event c) \<noteq> fd_tgid d \<or>
                 ph_ts (fd_ske d) < se_start_ts (pc_event c) then c
              else c\<lparr>pc_event := (pc_event c)
                \<lparr>se_socket_key := (if fd_owner_socket_key d \<noteq> 0 then fd_owner_socket_key d else fd_key d),
                 se_socket_generation := (if fd_owner_socket_key d \<noteq> 0 then fd_owner_socket_generation d else fd_key_generation d)\<rparr>\<rparr>)
       calls"

definition fill_io :: "flow_detail \<Rightarrow> u32 \<Rightarrow> u64 \<Rightarrow> bool \<Rightarrow> flow_export \<Rightarrow> pending_io \<Rightarrow> pending_io" where
  "fill_io d cpu socket_id tx fx p =
     (let start_ts = (if fd_io_start_ts d \<noteq> 0 then fd_io_start_ts d else ph_ts (fd_ske d)) in
      p\<lparr>po_start_ts := start_ts, po_syscall_start_ts := fd_syscall_start_ts d,
        po_io_id := call_uuid fx ''io-call'' (fd_tgid d) (fd_tid d) start_ts, po_socket_id := socket_id, po_tx := tx,
        po_protocol := ph_proto_l4 (fd_ske d), po_tgid := fd_tgid d, po_uid := fd_uid d, po_cpu := cpu,
        po_owner_tid := fd_owner_tid d, po_owner_tgid := fd_owner_tgid d, po_owner_uid := fd_owner_uid d,
        po_task := strncpy 15 (fd_task d)\<rparr>)"

definition io_thread :: "io_config \<Rightarrow> nat \<Rightarrow> flow_detail \<Rightarrow> io_export \<Rightarrow> io_export" where
  "io_thread cfg i d st =
     (case native_thread_track (fc_mem (ic_flow cfg)) (fd_tgid d) (fd_tid d) (Some (strncpy 16 (fd_task d))) (fx_native (ix_flow st)) of
        (thread, ns) \<Rightarrow>
          let st1 = on_flow (on_native (\<lambda>_. ns)) st in
          case thread of
            None \<Rightarrow> st1
          | Some k \<Rightarrow> put_io i ((ix_ios st1 ! i)\<lparr>po_native_track_uuid := nt_uuid (ns_tracks ns ! k)\<rparr>) st1)"

definition pending_io_start :: "io_config \<Rightarrow> flow_detail \<Rightarrow> trace_info \<Rightarrow> u32 \<Rightarrow> io_export \<Rightarrow> io_export" where
  "pending_io_start cfg d t cpu st0 =
     (let socket_id = event_socket_id d (ix_flow st0); tx = trace_is_tx_write (Some t); ts = ph_ts (fd_ske d);
          st = st0\<lparr>ix_calls := bind_sockets d (ix_calls st0)\<rparr>;
          found = pending_io_find (fd_func d) (fd_tid d) st in
      if (case found of None \<Rightarrow> False | Some i \<Rightarrow> fd_io_start_ts d \<noteq> 0 \<and> po_start_ts (ix_ios st ! i) = fd_io_start_ts d) then st
      else
        let st1 = pending_io_finish cfg found ts 0 True st in
        if pending_io_find_logical (fd_tid d) socket_id tx st1 \<noteq> None then st1
        else (case pending_io_add cfg (fd_func d) (fd_tid d) st1 of
                (None, st2) \<Rightarrow> st2
              | (Some i, st2) \<Rightarrow>
                  let st3 = io_thread cfg i d (put_io i (fill_io d cpu socket_id tx (ix_flow st2) (ix_ios st2 ! i)) st2) in
                  if ph_proto_l4 (fd_ske d) = IPPROTO_UDP then pending_io_emit_start cfg i (Some t) None st3
                  else (case flow_from_socket (ic_flow cfg) d ts (ix_flow st3) of
                          (flow, fx) \<Rightarrow> pending_io_emit_start cfg i (Some t) flow (st3\<lparr>ix_flow := fx\<rparr>))))"

section \<open>Packets of a call\<close>

definition io_evidence :: "u8 \<Rightarrow> string" where
  "io_evidence role = (if role = 1 then ''submission_context'' else if role = 2 then ''copy_attempt'' else ''receive_release'')"

definition io_link_name :: "u8 \<Rightarrow> string" where
  "io_link_name role =
     (if role = 1 then ''packet submitted by call''
      else if role = 2 then ''packet copy to application'' else ''packet released by receive'')"

definition io_direction :: "u8 \<Rightarrow> bytes" where
  "io_direction role = (if role = 1 then cstr ''tx'' else cstr ''rx'')"

definition bind_packet :: "u64 \<Rightarrow> u64 \<Rightarrow> pending_io \<Rightarrow> pending_io" where
  "bind_packet io_id flow_id p =
     (if \<not> po_active p \<or> po_io_id p \<noteq> io_id then p
      else let ambiguous = (po_flow_ambiguous p \<or> (po_flow_id p \<noteq> 0 \<and> po_flow_id p \<noteq> flow_id)) in
        p\<lparr>po_flow_ambiguous := ambiguous, po_flow_id := (if ambiguous then 0 else flow_id)\<rparr>)"

definition packet_link_line :: "flow_detail \<Rightarrow> u64 \<Rightarrow> u64 \<Rightarrow> u64 \<Rightarrow> u64 \<Rightarrow> u64 \<Rightarrow> bytes \<Rightarrow> json_line" where
  "packet_link_line d io_id call_id pkt_id flow_id socket_id tag = json_head ''packet_io_link'' (ph_ts (fd_pkt d)) @
     [(''io_id'', JId io_id), (''call_id'', JId call_id), (''packet_id'', JId pkt_id), (''flow_id'', JId flow_id),
      (''socket_id'', JId socket_id), (''flow_tag'', JText tag), (''tid'', JNum (ucast (fd_io_tid d))),
      (''tgid'', JNum (ucast (fd_io_tgid d))), (''direction'', JText (io_direction (fd_io_role d))),
      (''offset'', JNum (ucast (fd_io_offset d))), (''copy_bytes'', JNum (ucast (fd_io_bytes d))),
      (''evidence'', JText (cstr (io_evidence (fd_io_role d))))]"

definition packet_link_event ::
    "io_config \<Rightarrow> flow_detail \<Rightarrow> u64 \<Rightarrow> u64 \<Rightarrow> u64 \<Rightarrow> u64 \<Rightarrow> u64 \<Rightarrow> bytes \<Rightarrow> native_state \<Rightarrow> native_state" where
  "packet_link_event cfg d io_id call_id pkt_id flow_id socket_id tag ns =
     (let mem = fc_mem (ic_flow cfg) in
      case native_thread_track mem (fd_io_tgid d) (fd_io_tid d) (Some (strncpy 16 (fd_task d))) ns of
        (None, ns1) \<Rightarrow> ns1
      | (Some thread, ns1) \<Rightarrow>
          native_event_write mem (ph_ts (fd_pkt d))
            (native_event mem (ns_trace_tags ns1) 3 (nt_uuid (ns_tracks ns1 ! thread))
               (Some (snprintf 128 (after_tag tag (cstr (io_link_name (fd_io_role d)))))) ''anettrace.io.link''
               [(pkt_id, False), (io_id, False), (call_id, False)]
               [AId ''packet_id'' pkt_id, AId ''io_id'' io_id, AId ''call_id'' call_id, AId ''flow_id'' flow_id,
                AId ''socket_id'' socket_id, AText ''flow_tag'' tag, AText ''direction'' (io_direction (fd_io_role d)),
                AUint ''offset'' (ucast (fd_io_offset d)), AUint ''copy_bytes'' (ucast (fd_io_bytes d)),
                AText ''evidence'' (cstr (io_evidence (fd_io_role d)))])
            ns1)"

definition export_packet_io_link :: "io_config \<Rightarrow> flow_detail \<Rightarrow> nat option \<Rightarrow> io_export \<Rightarrow> io_export" where
  "export_packet_io_link cfg d flow st =
     (if fd_io_start_ts d = 0 \<or> fd_io_role d = 0 \<or> fd_io_role d = 4 \<or> fd_io_multiple d then st
      else
        let fx = ix_flow st; salt = ns_salt (fx_native fx);
            io_id = call_uuid fx ''io-call'' (fd_io_tgid d) (fd_io_tid d) (fd_io_start_ts d);
            call_id = (if fd_syscall_start_ts d \<noteq> 0
                       then call_uuid fx ''syscall-call'' (fd_io_tgid d) (fd_io_tid d) (fd_syscall_start_ts d) else 0);
            pkt_id = packet_id salt (fd_pkt d) (fd_key d) (fd_key_generation d);
            flow_id = (case flow of None \<Rightarrow> 0 | Some k \<Rightarrow> fs_id (fx_flows fx ! k));
            socket_id = (if fd_owner_socket_key d \<noteq> 0 then packet_socket_id d fx
                         else case flow of None \<Rightarrow> 0 | Some k \<Rightarrow> fs_socket_id (fx_flows fx ! k));
            tag = format_known_flow_label flow_id 16 fx;
            st1 = (if flow = None then st else st\<lparr>ix_ios := map (bind_packet io_id flow_id) (ix_ios st)\<rparr>);
            fx1 = put_json (packet_link_line d io_id call_id pkt_id flow_id socket_id tag) fx;
            fx2 = (if exports_native fx1
                   then on_native (packet_link_event cfg d io_id call_id pkt_id flow_id socket_id tag) fx1 else fx1) in
        st1\<lparr>ix_flow := fx2\<rparr>)"

section \<open>System calls\<close>

definition syscall_names :: "syscall_kind \<Rightarrow> string" where
  "syscall_names k = (case k of
     NETWORK_SYS_SENDTO \<Rightarrow> ''sendto'' | NETWORK_SYS_RECVFROM \<Rightarrow> ''recvfrom'' | NETWORK_SYS_SENDMSG \<Rightarrow> ''sendmsg''
   | NETWORK_SYS_RECVMSG \<Rightarrow> ''recvmsg'' | NETWORK_SYS_SENDMMSG \<Rightarrow> ''sendmmsg'' | NETWORK_SYS_RECVMMSG \<Rightarrow> ''recvmmsg''
   | NETWORK_SYS_READ \<Rightarrow> ''read'' | NETWORK_SYS_WRITE \<Rightarrow> ''write'' | NETWORK_SYS_READV \<Rightarrow> ''readv''
   | NETWORK_SYS_WRITEV \<Rightarrow> ''writev'' | NETWORK_SYS_SEND \<Rightarrow> ''send'' | NETWORK_SYS_RECV \<Rightarrow> ''recv'')"

definition network_wakeup_status :: "u8 \<Rightarrow> string" where
  "network_wakeup_status s =
     (if s = 0 then ''disabled'' else if s = 2 then ''observed'' else if s = 3 then ''run_without_observed_wake'' else ''unknown'')"

definition network_waking_context :: "u8 \<Rightarrow> string" where
  "network_waking_context c =
     (if c = 1 then ''task'' else if c = 2 then ''hardirq'' else if c = 3 then ''softirq'' else if c = 4 then ''nmi'' else ''unknown'')"

definition export_syscall_wakeup :: "syscall_event \<Rightarrow> json_line" where
  "export_syscall_wakeup c =
     (if se_wakeup_status c = 0 then []
      else [(''wakeup_status'', JText (cstr (network_wakeup_status (se_wakeup_status c))))] @
        (if se_wakeup_status c \<noteq> 2 \<and> se_wakeup_status c \<noteq> 3 then []
         else [(''run_start_ts_ns'', JNum (se_run_start_ts c)), (''run_cpu'', JNum (ucast (se_run_cpu c)))] @
           (if se_wakeup_status c \<noteq> 2 then []
            else [(''waking_ts_ns'', JNum (se_waking_ts c)), (''wakeup_ts_ns'', JNum (se_wakeup_ts c)),
                  (''waking_cpu'', JNum (ucast (se_waking_cpu c))),
                  (''waking_context'', JText (cstr (network_waking_context (se_waking_context c))))] @
              (if se_waking_context c \<noteq> 0 then [(''waking_preempt_count'', JNum (ucast (se_waking_preempt_count c)))] else []) @
              (if se_waking_context c = 1
               then [(''waker_tid'', JNum (ucast (se_waker_tid c))), (''waker_tgid'', JNum (ucast (se_waker_tgid c))),
                     (''waker_task'', JText (json_task (strncpy 16 (se_waker_task c)))),
                     (''waker_start_time_ns'', JNum (se_waker_start_time c))]
               else []))))"

definition native_syscall_wakeup :: "syscall_event \<Rightarrow> annotation list" where
  "native_syscall_wakeup c =
     (if se_wakeup_status c = 0 then []
      else [AText ''wakeup_status'' (cstr (network_wakeup_status (se_wakeup_status c)))] @
        (if se_wakeup_status c \<noteq> 2 \<and> se_wakeup_status c \<noteq> 3 then []
         else [AUint ''run_start_ts_ns'' (se_run_start_ts c), AUint ''run_cpu'' (ucast (se_run_cpu c))] @
           (if se_wakeup_status c \<noteq> 2 then []
            else [AUint ''waking_ts_ns'' (se_waking_ts c), AUint ''wakeup_ts_ns'' (se_wakeup_ts c),
                  AUint ''waking_cpu'' (ucast (se_waking_cpu c)),
                  AText ''waking_context'' (cstr (network_waking_context (se_waking_context c)))] @
              (if se_waking_context c \<noteq> 0 then [AUint ''waking_preempt_count'' (ucast (se_waking_preempt_count c))] else []) @
              (if se_waking_context c = 1
               then [AUint ''waker_tid'' (ucast (se_waker_tid c)), AUint ''waker_tgid'' (ucast (se_waker_tgid c)),
                     AText ''waker_task'' (strncpy 16 (se_waker_task c)), AUint ''waker_start_time_ns'' (se_waker_start_time c)]
               else []))))"

definition call_bytes :: "syscall_event \<Rightarrow> bool \<Rightarrow> u64" where
  "call_bytes c incomplete = (if \<not> batch_kind (se_kind c) \<and> \<not> incomplete then signed_positive (se_result c) else 0)"

definition call_error :: "syscall_event \<Rightarrow> bool \<Rightarrow> u64" where
  "call_error c incomplete = (if \<not> incomplete then signed_error (se_result c) else 0)"

definition call_socket :: "syscall_event \<Rightarrow> flow_export \<Rightarrow> u64" where
  "call_socket c fx =
     (if se_socket_key c \<noteq> 0 then socket_instance_id (ns_salt (fx_native fx)) (se_socket_key c) (se_socket_generation c) else 0)"

definition call_valid :: "syscall_event \<Rightarrow> flow_export \<Rightarrow> bool" where
  "call_valid c fx \<longleftrightarrow> se_start_ts c \<le> se_ts c \<and> \<not> (se_require_socket c \<and> call_socket c fx = 0)"

text \<open>A flow is named only if it belongs to the call's socket.\<close>

definition call_flow :: "syscall_event \<Rightarrow> u64 \<Rightarrow> flow_export \<Rightarrow> nat option" where
  "call_flow c flow_id fx =
     (case flow_find_any flow_id fx of
        None \<Rightarrow> None
      | Some k \<Rightarrow> if call_socket c fx = 0 \<or> fs_socket_id (fx_flows fx ! k) \<noteq> call_socket c fx then None else Some k)"

definition result_unit :: "syscall_event \<Rightarrow> bytes" where
  "result_unit c = (if batch_kind (se_kind c) then cstr ''messages'' else cstr ''bytes'')"

definition network_syscall_line :: "syscall_event \<Rightarrow> u64 \<Rightarrow> u64 \<Rightarrow> u64 \<Rightarrow> bytes \<Rightarrow> bool \<Rightarrow> json_line" where
  "network_syscall_line c call_id socket_id flow_id label incomplete = json_head ''network_syscall'' (se_ts c) @
     [(''start_ts_ns'', JNum (se_start_ts c)), (''duration_ns'', JNum (se_ts c - se_start_ts c)),
      (''syscall'', JText (cstr (syscall_names (se_kind c)))), (''call_id'', JId call_id), (''tid'', JNum (ucast (se_tid c))),
      (''tgid'', JNum (ucast (se_tgid c))), (''uid'', JNum (ucast (se_uid c))), (''fd'', JInt (scast (se_fd c))),
      (''flags'', JNum (ucast (se_flags c))), (''requested_bytes'', JNum (se_requested_bytes c)),
      (''requested_valid'', JBool (se_requested_valid c)), (''abi'', JNum (ucast (se_abi c))),
      (''result_unit'', JText (result_unit c)), (''requested_messages'', JNum (ucast (se_requested_messages c))),
      (''result'', JInt (se_result c)), (''bytes'', JNum (call_bytes c incomplete)), (''error'', JNum (call_error c incomplete)),
      (''incomplete'', JBool incomplete), (''socket_id'', JId socket_id), (''flow_id'', JId flow_id), (''flow_tag'', JText label)] @
     export_syscall_wakeup c"

definition result_notes :: "syscall_event \<Rightarrow> bool \<Rightarrow> annotation list" where
  "result_notes c incomplete =
     (if incomplete then []
      else [AInt ''result'' (se_result c), AUint ''bytes'' (call_bytes c incomplete), AUint ''error'' (call_error c incomplete)])"

text \<open>Where the slice of a call begins: a call that began before the ring's window is clipped, an expired one is not drawn.\<close>

definition display_start :: "syscall_event \<Rightarrow> native_state \<Rightarrow> u64 option" where
  "display_start c ns =
     (let latest = (if ns_latest ns < se_ts c then se_ts c else ns_latest ns) in
      if ns_window ns \<noteq> 0 \<and> ns_window ns < latest
      then let cutoff = latest - ns_window ns in
        if se_ts c < cutoff then None
        else Some (if se_start_ts c < cutoff then cutoff else se_start_ts c)
      else Some (se_start_ts c))"

definition syscall_track :: "io_config \<Rightarrow> syscall_event \<Rightarrow> u64 \<Rightarrow> native_state \<Rightarrow> bool \<times> native_state" where
  "syscall_track cfg c uuid ns =
     (let mem = fc_mem (ic_flow cfg) in
      if native_find_track uuid ns \<noteq> None then (True, ns)
      else (case native_thread_track mem (se_tgid c) (se_tid c) (Some (strncpy 16 (se_task c))) ns of
              (None, ns1) \<Rightarrow> (False, ns1)
            | (Some thread, ns1) \<Rightarrow>
                let parent_uuid = nt_uuid (ns_tracks ns1 ! thread) in
                (case native_add_track mem uuid (push_bit 32 (ucast (se_tgid c)) OR ucast (se_tid c)) NATIVE_TRACK_SYSCALL ns1 of
                   (None, ns2) \<Rightarrow> (False, ns2)
                 | (Some i, ns2) \<Rightarrow>
                     (True, native_descriptor mem uuid (cstr ''Network syscalls'') parent_uuid NATIVE_TRACK_SYSCALL
                              (se_tgid c) (se_tid c) ns2))))"

definition syscall_begin_event :: "io_config \<Rightarrow> syscall_event \<Rightarrow> u64 \<Rightarrow> u64 \<Rightarrow> u64 \<Rightarrow> u64 \<Rightarrow> bytes \<Rightarrow> bool \<Rightarrow> u64 \<Rightarrow> bool \<Rightarrow> proto_buffer" where
  "syscall_begin_event cfg c uuid call_id socket_id flow_id label incomplete start tags =
     (let mem = fc_mem (ic_flow cfg);
          fd = print_value (JInt (scast (se_fd c)));
          name = before_tag (cstr (syscall_names (se_kind c))) label @ middle_dot @ cstr ''fd='' @ fd;
          head = native_event_start mem 1 uuid (Some (snprintf 96 name)) (Some (cstr ''anettrace.syscall'')) proto_empty;
          kinds = fold (add_annotation mem)
            ([AText ''syscall'' (cstr (syscall_names (se_kind c))), AUint ''abi'' (ucast (se_abi c)),
              AText ''result_unit'' (result_unit c)] @
             (if batch_kind (se_kind c) then [AUint ''requested_messages'' (ucast (se_requested_messages c))] else [])) head in
      fold (add_annotation mem)
        ([AId ''call_id'' call_id, AId ''socket_id'' socket_id, AId ''flow_id'' flow_id, AText ''flow_tag'' label,
          AUint ''tid'' (ucast (se_tid c)), AUint ''tgid'' (ucast (se_tgid c)), AUint ''uid'' (ucast (se_uid c)),
          AInt ''fd'' (scast (se_fd c)), AUint ''flags'' (ucast (se_flags c)), AUint ''start_ts_ns'' (se_start_ts c),
          AUint ''end_ts_ns'' (se_ts c), AUint ''duration_ns'' (se_ts c - se_start_ts c),
          ABool ''requested_valid'' (se_requested_valid c)] @
         (if se_requested_valid c then [AUint ''requested_bytes'' (se_requested_bytes c)] else []) @
         [ABool ''incomplete'' incomplete, ABool ''start_clipped'' (start \<noteq> se_start_ts c)] @
         result_notes c incomplete @ native_syscall_wakeup c)
        (native_event_flow mem tags call_id False kinds))"

definition syscall_complete_event :: "io_config \<Rightarrow> syscall_event \<Rightarrow> u64 \<Rightarrow> u64 \<Rightarrow> u64 \<Rightarrow> u64 \<Rightarrow> bytes \<Rightarrow> bool \<Rightarrow> bool \<Rightarrow> proto_buffer" where
  "syscall_complete_event cfg c uuid call_id socket_id flow_id label incomplete tags =
     native_event (fc_mem (ic_flow cfg)) tags 3 uuid
       (Some (snprintf 96 (before_tag (cstr (syscall_names (se_kind c)) @ cstr '' returned'') label))) ''anettrace.syscall.complete''
       [(call_id, True)]
       ([AText ''syscall'' (cstr (syscall_names (se_kind c))), AId ''call_id'' call_id, AId ''socket_id'' socket_id,
         AId ''flow_id'' flow_id, AText ''flow_tag'' label, AUint ''tid'' (ucast (se_tid c)), AUint ''tgid'' (ucast (se_tgid c)),
         AInt ''fd'' (scast (se_fd c)), AText ''result_unit'' (result_unit c), ABool ''incomplete'' incomplete] @
        result_notes c incomplete @ native_syscall_wakeup c)"

definition export_syscall_native ::
    "io_config \<Rightarrow> syscall_event \<Rightarrow> u64 \<Rightarrow> u64 \<Rightarrow> u64 \<Rightarrow> bytes \<Rightarrow> bool \<Rightarrow> native_state \<Rightarrow> native_state" where
  "export_syscall_native cfg c call_id socket_id flow_id label incomplete ns =
     (let mem = fc_mem (ic_flow cfg);
          uuid = native_uuid (ns_salt ns) (cstr ''syscalls'') (ucast (se_tgid c)) (ucast (se_tid c)) in
      case display_start c ns of
        None \<Rightarrow> ns
      | Some start \<Rightarrow>
          (case syscall_track cfg c uuid ns of
             (False, ns1) \<Rightarrow> ns1
           | (True, ns1) \<Rightarrow>
               let tags = ns_trace_tags ns1;
                   ns2 = native_event_write mem start
                           (syscall_begin_event cfg c uuid call_id socket_id flow_id label incomplete start tags) ns1;
                   ns3 = native_event_write mem (se_ts c)
                           (native_event mem tags 2 uuid None ''anettrace.syscall'' [] []) ns2 in
               if tags then ns3
               else native_event_write mem (se_ts c)
                      (syscall_complete_event cfg c uuid call_id socket_id flow_id label incomplete tags) ns3))"

definition export_network_syscall :: "io_config \<Rightarrow> syscall_event \<Rightarrow> u64 \<Rightarrow> bool \<Rightarrow> flow_export \<Rightarrow> flow_export" where
  "export_network_syscall cfg c flow_id incomplete fx =
     (if \<not> call_valid c fx then fx
      else
        let call_id = call_uuid fx ''syscall-call'' (se_tgid c) (se_tid c) (se_start_ts c);
            socket_id = call_socket c fx;
            flow = call_flow c flow_id fx;
            flow_id1 = (if flow = None then 0 else flow_id);
            label = (case flow of None \<Rightarrow> [] | Some k \<Rightarrow> format_flow_label (fx_flows fx ! k) 32);
            fx1 = put_json (network_syscall_line c call_id socket_id flow_id1 label incomplete) fx in
        if ns_file (fx_native fx1) = None then fx1
        else on_native (export_syscall_native cfg c call_id socket_id flow_id1 label incomplete) fx1)"

definition call_slot :: "syscall_event \<Rightarrow> io_export \<Rightarrow> nat option" where
  "call_slot c st = find_loop (\<lambda>p. se_tid (pc_event p) = se_tid c \<and> se_tgid (pc_event p) = se_tgid c) 0 (ix_calls st)"

definition put_call :: "nat \<Rightarrow> pending_call \<Rightarrow> io_export \<Rightarrow> io_export" where
  "put_call i c st = st\<lparr>ix_calls := (ix_calls st)[i := c]\<rparr>"

text \<open>The body of \<open>handle_network_syscall\<close> once the thread has its slot \<open>i\<close>.\<close>

definition slot_syscall :: "io_config \<Rightarrow> syscall_event \<Rightarrow> nat \<Rightarrow> io_export \<Rightarrow> io_export" where
  "slot_syscall cfg c i st =
     (let s = ix_calls st ! i in
      if se_finished c
      then
        let hit = (pc_active s \<and> se_start_ts (pc_event s) = se_start_ts c);
            s1 = (if hit then s\<lparr>pc_active := False\<rparr> else s);
            s2 = (if pc_completed_ts s1 < se_start_ts c then s1\<lparr>pc_completed_ts := se_start_ts c\<rparr> else s1) in
        on_flow (export_network_syscall cfg c (if hit then pc_flow_id s else 0) False) (put_call i s2 st)
      else if pc_completed_ts s < se_start_ts c
      then
        if pc_active s \<and> se_start_ts c \<le> se_start_ts (pc_event s) then st
        else
          let e1 = (pc_event s)\<lparr>se_ts := se_start_ts c\<rparr>;
              st1 = (if pc_active s
                     then on_flow (export_network_syscall cfg e1 (pc_flow_id s) True) (put_call i (s\<lparr>pc_event := e1\<rparr>) st)
                     else st) in
          put_call i (s\<lparr>pc_event := c, pc_flow_id := 0, pc_active := True\<rparr>) st1
      else st)"

definition handle_network_syscall :: "io_config \<Rightarrow> syscall_event \<Rightarrow> io_export \<Rightarrow> io_export" where
  "handle_network_syscall cfg c st =
     (case call_slot c st of
        Some i \<Rightarrow> slot_syscall cfg c i st
      | None \<Rightarrow>
          if length (ix_calls st) = MAX_CALLS
          then if se_finished c then on_flow (export_network_syscall cfg c 0 False) st
               else st\<lparr>ix_lost := ix_lost st + 1\<rparr>
          else slot_syscall cfg c (length (ix_calls st))
                 (st\<lparr>ix_calls := ix_calls st @ [\<lparr>pc_event = c, pc_flow_id = 0, pc_completed_ts = 0, pc_active = False\<rparr>]\<rparr>))"

section \<open>Operations\<close>

definition finish_ios :: "io_config \<Rightarrow> u64 \<Rightarrow> io_export \<Rightarrow> io_export" where
  "finish_ios cfg end_ts st =
     fold (\<lambda>i st. pending_io_finish cfg (Some i) end_ts 0 True st) [0..<length (ix_ios st)] st"

definition finish_calls :: "io_config \<Rightarrow> u64 \<Rightarrow> io_export \<Rightarrow> io_export" where
  "finish_calls cfg end_ts st =
     (fold (\<lambda>i st. if \<not> pc_active (ix_calls st ! i) then st
                   else let s = ix_calls st ! i; e = (pc_event s)\<lparr>se_ts := end_ts\<rparr> in
                     on_flow (export_network_syscall cfg e (pc_flow_id s) True) (put_call i (s\<lparr>pc_event := e\<rparr>) st))
        [0..<length (ix_calls st)] st)\<lparr>ix_calls := []\<rparr>"

definition io_close :: "io_config \<Rightarrow> u64 \<Rightarrow> io_export \<Rightarrow> io_export" where
  "io_close cfg end_ts st = on_flow (finish_flows (ic_flow cfg) end_ts) (finish_calls cfg end_ts (finish_ios cfg end_ts st))"

text \<open>
  The events that reach the exporter, as \<open>perfetto_export_event_now\<close> dispatches them, and its tick and
  close.  \<open>Io_flow\<close> covers the operations of the flow table alone; it includes the lines of other
  types and the native output of the exporters that are not modelled.
\<close>

datatype io_op =
    Io_call flow_detail trace_info u32
  | Io_return u16 u32 u64 u32
  | Io_packet flow_detail trace_info
  | Io_syscall syscall_event
  | Io_flow flow_op
  | Io_close u64

fun io_step :: "io_config \<Rightarrow> io_op \<Rightarrow> io_export \<Rightarrow> io_export" where
  "io_step cfg (Io_call d t cpu) st = pending_io_start cfg d t cpu st"
| "io_step cfg (Io_return func tid ts result) st = pending_io_finish cfg (pending_io_find func tid st) ts (scast result) False st"
| "io_step cfg (Io_packet d t) st =
     (case flow_from_packet (ic_flow cfg) d t (ix_flow st) of
        (flow, fx) \<Rightarrow> export_packet_io_link cfg d flow (st\<lparr>ix_flow := fx\<rparr>))"
| "io_step cfg (Io_syscall c) st = handle_network_syscall cfg c st"
| "io_step cfg (Io_flow op) st = on_flow (flow_step (ic_flow cfg) op) st"
| "io_step cfg (Io_close end_ts) st = io_close cfg end_ts st"

definition io_run :: "io_config \<Rightarrow> io_op list \<Rightarrow> io_export \<Rightarrow> io_export" where
  "io_run cfg ops st = fold (io_step cfg) ops st"

definition io_start :: "native_state \<Rightarrow> io_export" where
  "io_start ns = \<lparr>ix_flow = flow_start ns, ix_ios = [], ix_io_capacity = 0, ix_calls = [], ix_lost = 0\<rparr>"

end
