(* ===== verification/IoMoves.thy ===== *)
theory IoMoves
  imports IoExport FlowLife
begin

text \<open>
  How the exporter moves as its event file shows it: a bag of open protocol calls.  \<open>io_move\<close> has a
  silent move, the begin of a call with its start line and the end of a call with its two last lines;
  every operation of the exporter, applied to a sound table, is a sequence of such moves.
\<close>

section \<open>Calls and their lines\<close>

text \<open>A call as its lines show it: its function, thread, socket, direction and identifier.\<close>

type_synonym io_call = "u16 \<times> u32 \<times> u64 \<times> bool \<times> u64"

definition io_call :: "pending_io \<Rightarrow> io_call" where
  "io_call p = (po_func p, po_tid p, po_socket_id p, po_tx p, po_io_id p)"

fun call_tx :: "io_call \<Rightarrow> bool" where
  "call_tx (func, tid, socket_id, tx, io_id) = tx"

fun call_view :: "io_call \<Rightarrow> json_value list" where
  "call_view (func, tid, socket_id, tx, io_id) = [JId io_id, JId socket_id, JNum (ucast tid)]"

definition io_view :: "json_line \<Rightarrow> json_value list" where
  "io_view l = map (\<lambda>k. the (map_of l k)) [''io_id'', ''socket_id'', ''tid'']"

definition begins :: "io_call \<Rightarrow> json_line \<Rightarrow> bool" where
  "begins c l \<longleftrightarrow> line_kind l (if call_tx c then ''tx_write_start'' else ''rx_read_start'') \<and> io_view l = call_view c"

definition ends :: "io_call \<Rightarrow> json_line \<Rightarrow> bool" where
  "ends c l \<longleftrightarrow> line_kind l (if call_tx c then ''tx_write_end'' else ''rx_read_end'') \<and> io_view l = call_view c"

definition completes :: "io_call \<Rightarrow> json_line \<Rightarrow> bool" where
  "completes c l \<longleftrightarrow> line_kind l ''io_complete'' \<and> io_view l = call_view c"

lemma call_lines:
  "begins (io_call p) (io_start_line p tag protocol call_id)"
  "ends (io_call p) (io_end_line p ts stage tag call_id result incomplete)"
  "completes (io_call p) (io_complete_line p ts tag call_id result incomplete)"
  by (simp_all add: begins_def ends_def completes_def line_kind_def io_view_def io_call_def
    io_start_line_def io_end_line_def io_complete_line_def json_head_def)

definition quiet_line :: "json_line \<Rightarrow> bool" where
  "quiet_line l \<longleftrightarrow> plain_line l \<and> \<not> io_line l"

definition foreign_line :: "json_line \<Rightarrow> bool" where
  "foreign_line l \<longleftrightarrow> quiet_line l \<and> \<not> line_kind l ''network_syscall''"

lemma kind_unique: "line_kind l k \<Longrightarrow> line_kind l k' \<longleftrightarrow> k' = k"
  by (auto simp: line_kind_def)

lemma call_line_plain: "begins c l \<or> ends c l \<or> completes c l \<Longrightarrow> plain_line l"
  by (auto simp: begins_def ends_def completes_def plain_line_def flow_line_def kind_unique split: if_splits)

section \<open>Moves\<close>

definition open_calls :: "io_export \<Rightarrow> io_call multiset" where
  "open_calls st = mset (map io_call (filter po_active (ix_ios st)))"

fun same_slot :: "io_call \<Rightarrow> io_call \<Rightarrow> bool" where
  "same_slot (func, tid, socket_id, tx, io_id) (func', tid', socket_id', tx', io_id') \<longleftrightarrow>
     tid = tid' \<and> (func = func' \<or> socket_id = socket_id' \<and> tx = tx')"

text \<open>Lines are written and the flows stay as they are.\<close>

definition adds_lines :: "json_line list \<Rightarrow> flow_export \<Rightarrow> flow_export \<Rightarrow> bool" where
  "adds_lines new fx fx' \<longleftrightarrow> fx_flows fx' = fx_flows fx \<and> same_counts fx fx' \<and> json_adds new fx fx'"

text \<open>
  The exporter as its event file shows it: a bag of open calls.  A call begins, with its start line,
  when no open call has its slot; it ends with its two last lines; everything else writes no line of
  calls and moves the flows as before.
\<close>

inductive io_move :: "(json_line \<Rightarrow> bool) \<Rightarrow> io_export \<Rightarrow> io_export \<Rightarrow> bool" for q where
  silent: "(flow_move q)\<^sup>*\<^sup>* (ix_flow st) (ix_flow st') \<Longrightarrow> open_calls st' = open_calls st \<Longrightarrow> io_move q st st'"
| begun: "begins c l \<Longrightarrow> \<forall>d \<in># open_calls st. \<not> same_slot c d \<Longrightarrow> open_calls st' = add_mset c (open_calls st) \<Longrightarrow>
     adds_lines [l] (ix_flow st) (ix_flow st') \<Longrightarrow> io_move q st st'"
| ended: "ends c l \<Longrightarrow> completes c m \<Longrightarrow> open_calls st = add_mset c (open_calls st') \<Longrightarrow>
     adds_lines [l, m] (ix_flow st) (ix_flow st') \<Longrightarrow> io_move q st st'"

section \<open>Sound tables\<close>

text \<open>Every open call has been announced, and no two open calls share a slot.\<close>

definition io_sound :: "io_export \<Rightarrow> bool" where
  "io_sound st \<longleftrightarrow> (\<forall>p \<in> set (ix_ios st). po_active p \<longrightarrow> po_visible p) \<and>
     (\<forall>i < length (ix_ios st). \<forall>j < length (ix_ios st). i \<noteq> j \<longrightarrow> po_active (ix_ios st ! i) \<longrightarrow> po_active (ix_ios st ! j) \<longrightarrow>
        \<not> same_slot (io_call (ix_ios st ! i)) (io_call (ix_ios st ! j)))"

abbreviation io_moves :: "(json_line \<Rightarrow> bool) \<Rightarrow> io_export \<Rightarrow> io_export \<Rightarrow> bool" where
  "io_moves q st st' \<equiv> (io_move q)\<^sup>*\<^sup>* st st' \<and> io_sound st'"

lemma io_sound_cong: "ix_ios st' = ix_ios st \<Longrightarrow> io_sound st' = io_sound st"
  by (simp add: io_sound_def)

lemma open_calls_cong: "ix_ios st' = ix_ios st \<Longrightarrow> open_calls st' = open_calls st"
  by (simp add: open_calls_def)

lemma flow_io_moves:
  "ix_ios st' = ix_ios st \<Longrightarrow> (flow_move q)\<^sup>*\<^sup>* (ix_flow st) (ix_flow st') \<Longrightarrow> io_sound st \<Longrightarrow> io_moves q st st'"
  using silent [of q st st'] io_sound_cong [of st' st] open_calls_cong [of st' st] by blast

lemma open_update:
  assumes "i < length (ix_ios st)" and "ix_ios st' = (ix_ios st)[i := p]"
  shows "open_calls st' + (if po_active (ix_ios st ! i) then {#io_call (ix_ios st ! i)#} else {#}) =
         open_calls st + (if po_active p then {#io_call p#} else {#})"
  unfolding open_calls_def assms(2) by (rule mset_filter_update [OF assms(1)])

lemma find_loop_None: "find_loop p i xs = None \<longleftrightarrow> (\<forall>x \<in> set xs. \<not> p x)"
  by (induction xs arbitrary: i) auto

text \<open>An entry is changed without changing its call, or closed.\<close>

lemma io_sound_update:
  assumes "io_sound st" and "i < length (ix_ios st)" and "ix_ios st' = (ix_ios st)[i := p]"
    and "po_active p \<longrightarrow> po_active (ix_ios st ! i) \<and> po_visible p \<and> io_call p = io_call (ix_ios st ! i)"
  shows "io_sound st'"
proof -
  have "\<forall>q \<in> set (ix_ios st'). po_active q \<longrightarrow> po_visible q"
    using assms set_update_subset_insert [of "ix_ios st" i p] unfolding io_sound_def by auto
  then show ?thesis
    using assms unfolding io_sound_def by (simp add: nth_list_update)
qed

lemma in_open_calls: "d \<in># open_calls st \<longleftrightarrow> (\<exists>q \<in> set (ix_ios st). po_active q \<and> d = io_call q)"
  by (auto simp: open_calls_def)

text \<open>A new call takes a free place.\<close>

definition put_at :: "nat \<Rightarrow> 'a \<Rightarrow> 'a list \<Rightarrow> 'a list" where
  "put_at i x xs = (if i < length xs then xs[i := x] else xs @ [x])"

lemma place_places:
  assumes "i \<le> length xs"
  shows "put_at i y (put_at i x xs) = put_at i y xs" "put_at i x xs ! i = x" "i < length (put_at i x xs)"
    "(put_at i x xs)[i := y] = put_at i y xs"
  using assms by (auto simp: put_at_def nth_append)

lemma open_place:
  assumes "i \<le> length (ix_ios st)" and "i < length (ix_ios st) \<longrightarrow> \<not> po_active (ix_ios st ! i)"
    and "ix_ios st' = put_at i p (ix_ios st)" and "po_active p"
  shows "open_calls st' = add_mset (io_call p) (open_calls st)"
proof (cases "i < length (ix_ios st)")
  case True
  then show ?thesis
    using open_update [OF True, of st' p] assms by (simp add: put_at_def)
next
  case False
  then show ?thesis
    using assms by (simp add: put_at_def open_calls_def)
qed

lemma io_sound_place:
  assumes "io_sound st" and "i \<le> length (ix_ios st)" and "i < length (ix_ios st) \<longrightarrow> \<not> po_active (ix_ios st ! i)"
    and "ix_ios st' = put_at i p (ix_ios st)" and "po_visible p" and "\<forall>d \<in># open_calls st. \<not> same_slot (io_call p) d"
  shows "io_sound st'"
proof -
  have sym: "same_slot c d = same_slot d c" for c d
    by (cases c; cases d) auto
  have s: "set (ix_ios st') \<subseteq> insert p (set (ix_ios st))"
    using assms(4) by (auto simp: put_at_def dest: set_update_subset_insert [THEN subsetD])
  have n: "ix_ios st' ! j = (if j = i then p else ix_ios st ! j)" and len: "j = i \<or> j < length (ix_ios st)"
    if "j < length (ix_ios st')" for j
    using that assms(2,4) by (auto simp: put_at_def nth_append nth_list_update split: if_splits)
  have fresh: "\<not> same_slot (io_call p) (io_call (ix_ios st ! j))" if "j < length (ix_ios st)" "po_active (ix_ios st ! j)" for j
    using assms(6) in_open_calls [of "io_call (ix_ios st ! j)" st] that nth_mem by blast
  have "\<not> same_slot (io_call (ix_ios st' ! j)) (io_call (ix_ios st' ! k))"
    if "j < length (ix_ios st')" "k < length (ix_ios st')" "j \<noteq> k" "po_active (ix_ios st' ! j)" "po_active (ix_ios st' ! k)" for j k
    using that n [OF that(1)] n [OF that(2)] len [OF that(1)] len [OF that(2)] assms(1) fresh sym
    unfolding io_sound_def by (cases "j = i"; cases "k = i") auto
  then show ?thesis
    using assms(1,5) s unfolding io_sound_def by auto
qed

section \<open>Effects of the parts\<close>

lemma put_io_sel [simp]:
  "ix_ios (put_io i p st) = (ix_ios st)[i := p]" "ix_flow (put_io i p st) = ix_flow st"
  "ix_calls (put_io i p st) = ix_calls st" "ix_ios (on_flow f st) = ix_ios st" "ix_flow (on_flow f st) = f (ix_flow st)"
  "ix_calls (on_flow f st) = ix_calls st"
  by (simp_all add: put_io_def on_flow_def)

lemma on_native_sel [simp]:
  "fx_flows (on_native f fx) = fx_flows fx" "fx_json (on_native f fx) = fx_json fx" "class_count c (on_native f fx) = class_count c fx"
  "fx_tcp_count (on_native f fx) = fx_tcp_count fx" "fx_udp_count (on_native f fx) = fx_udp_count fx"
  "fx_dns_count (on_native f fx) = fx_dns_count fx"
  by (simp_all add: on_native_def)

lemma adds_put_json: "adds_lines [l] fx (put_json l fx)"
  by (simp add: adds_lines_def same_counts_iff json_adds_def)

lemma adds_native: "adds_lines ls fx fx' \<Longrightarrow> adds_lines ls fx (on_native f fx')"
  by (simp add: adds_lines_def same_counts_iff json_adds_def)

lemma adds_trans: "adds_lines ls fx fx' \<Longrightarrow> adds_lines ms fx' fx'' \<Longrightarrow> adds_lines (ls @ ms) fx fx''"
  by (auto simp: adds_lines_def same_counts_iff json_adds_def option.map_comp o_def)

lemma adds_move: "adds_lines ls fx fx' \<Longrightarrow> list_all q ls \<Longrightarrow> flow_move q fx fx'"
  unfolding adds_lines_def by (intro quiet [of fx' fx ls]) auto

lemma emit_start_visible: "po_visible (ix_ios st ! i) \<Longrightarrow> pending_io_emit_start cfg i trace flow st = st"
  by (simp add: pending_io_emit_start_def Let_def)

lemma emit_start_effect:
  assumes "\<not> po_visible (ix_ios st ! i)"
  shows "\<exists>p l. ix_ios (pending_io_emit_start cfg i trace flow st) = (ix_ios st)[i := p] \<and>
     io_call p = io_call (ix_ios st ! i) \<and> po_active p = po_active (ix_ios st ! i) \<and> po_visible p \<and>
     begins (io_call p) l \<and> adds_lines [l] (ix_flow st) (ix_flow (pending_io_emit_start cfg i trace flow st))"
proof -
  define r where "r = pending_io_emit_start cfg i trace flow st"
  define p0 where "p0 = ix_ios st ! i"
  define fx where "fx = ix_flow st"
  define p1 where "p1 = (case flow of None \<Rightarrow> p0 | Some k \<Rightarrow> p0\<lparr>po_flow_id := fs_id (fx_flows fx ! k)\<rparr>)"
  define tag where "tag = format_known_flow_label (po_flow_id p1) 16 fx"
  define protocol where "protocol = (case flow of Some k \<Rightarrow> flow_protocol_name (fx_flows fx ! k)
                        | None \<Rightarrow> if po_protocol p1 = IPPROTO_TCP then ''tcp'' else ''udp'')"
  define stage where "stage = snprintf 32
     (if flow \<noteq> None \<and> protocol = ''udp-dns'' then (if po_tx p1 then cstr ''DNS write'' else cstr ''DNS read'')
      else trace_event_name (ic_names cfg) trace None)"
  define p2 where "p2 = p1\<lparr>po_stage := stage\<rparr>"
  define fx1 where "fx1 = put_json (io_start_line p2 tag protocol (syscall_id fx p0)) fx"
  have r: "r = put_io i (p2\<lparr>po_visible := True\<rparr>) (st\<lparr>ix_flow :=
      if exports_native fx1 \<and> po_native_track_uuid p2 \<noteq> 0
      then on_native (\<lambda>ns. io_begin_event cfg p2 tag protocol (syscall_id fx p0)
             (io_socket_event cfg p2 tag (syscall_id fx p0) ns)) fx1 else fx1\<rparr>)"
    unfolding r_def pending_io_emit_start_def Let_def if_not_P [OF assms] p0_def [symmetric] fx_def [symmetric]
      p1_def [symmetric] tag_def [symmetric] protocol_def [symmetric] stage_def [symmetric] p2_def [symmetric] fx1_def [symmetric]
    using assms by (simp only: p0_def if_False)
  have c: "io_call p1 = io_call p0" "po_active p1 = po_active p0"
    by (auto simp: p1_def io_call_def split: option.split)
  have c2: "io_call p2 = io_call p0" "io_call (p2\<lparr>po_visible := True\<rparr>) = io_call p0"
    using c by (simp_all add: p2_def io_call_def)
  have "ix_ios r = (ix_ios st)[i := p2\<lparr>po_visible := True\<rparr>]"
    unfolding r by simp
  moreover have "adds_lines [io_start_line p2 tag protocol (syscall_id fx p0)] fx (ix_flow r)"
    unfolding r by (auto simp: fx1_def intro: adds_native adds_put_json)
  moreover have "begins (io_call p0) (io_start_line p2 tag protocol (syscall_id fx p0))"
    using call_lines(1) [of p2] c2 by simp
  ultimately have "ix_ios r = (ix_ios st)[i := p2\<lparr>po_visible := True\<rparr>] \<and> io_call (p2\<lparr>po_visible := True\<rparr>) = io_call p0 \<and>
      po_active (p2\<lparr>po_visible := True\<rparr>) = po_active p0 \<and> po_visible (p2\<lparr>po_visible := True\<rparr>) \<and>
      begins (io_call (p2\<lparr>po_visible := True\<rparr>)) (io_start_line p2 tag protocol (syscall_id fx p0)) \<and>
      adds_lines [io_start_line p2 tag protocol (syscall_id fx p0)] fx (ix_flow r)"
    using c c2 by (simp add: p2_def)
  then show ?thesis
    unfolding r_def p0_def fx_def by blast
qed

lemma close_effect:
  "\<exists>l m. ix_ios (pending_io_close cfg i ts result incomplete stage st) = (ix_ios st)[i := (ix_ios st ! i)\<lparr>po_active := False\<rparr>] \<and>
     ends (io_call (ix_ios st ! i)) l \<and> completes (io_call (ix_ios st ! i)) m \<and>
     adds_lines [l, m] (ix_flow st) (ix_flow (pending_io_close cfg i ts result incomplete stage st))"
proof -
  define p where "p = ix_ios st ! i"
  define r where "r = pending_io_close cfg i ts result incomplete stage st"
  define call_id where "call_id = syscall_id (ix_flow st) p"
  define tag where "tag = format_known_flow_label (po_flow_id p) 16 (ix_flow st)"
  define l where "l = io_end_line p ts stage tag call_id result incomplete"
  define m where "m = io_complete_line p ts tag call_id result incomplete"
  have "adds_lines ([l] @ [m]) (ix_flow st) (ix_flow r)"
    unfolding r_def pending_io_close_def Let_def p_def [symmetric] call_id_def [symmetric] tag_def [symmetric]
      l_def [symmetric] m_def [symmetric]
    by (rule adds_trans [where fx' = "if exports_native (ix_flow st) \<and> po_native_track_uuid p \<noteq> 0
          then on_native (io_end_event cfg p ts result incomplete) (put_json l (ix_flow st)) else put_json l (ix_flow st)"])
      (auto intro!: adds_native adds_put_json)
  moreover have "ix_ios r = (ix_ios st)[i := p\<lparr>po_active := False\<rparr>]"
    unfolding r_def pending_io_close_def Let_def p_def by simp
  moreover have "ends (io_call p) l" "completes (io_call p) m"
    unfolding l_def m_def by (rule call_lines)+
  ultimately show ?thesis
    unfolding r_def p_def by auto
qed

section \<open>Finishing\<close>

lemma finished_flow_active:
  "finished_flow p protocol fx = Some k \<Longrightarrow> k < length (fx_flows fx) \<and> fs_active (fx_flows fx ! k)"
proof -
  assume a: "finished_flow p protocol fx = Some k"
  have find: "flow_find fid fx = Some k \<Longrightarrow> k < length (fx_flows fx) \<and> fs_active (fx_flows fx ! k)" for fid
    unfolding flow_find_def by (drule find_loop_Some) simp
  have "k < length (fx_flows fx) \<and> fs_active (fx_flows fx ! k)" if "flow_find_by_socket s protocol fx = Some k" for s
  proof -
    have "hits (\<lambda>f. fs_active f \<and> fs_socket_id f = s \<and> (protocol = 0 \<or> fs_protocol f = protocol)) (fx_flows fx) = [k]"
      using that by (simp add: flow_find_by_socket_def unique_loop_hits split: if_splits list.splits)
    then show ?thesis
      using hits_iff [of k "\<lambda>f. fs_active f \<and> fs_socket_id f = s \<and> (protocol = 0 \<or> fs_protocol f = protocol)" "fx_flows fx"]
      by (simp del: hits_iff)
  qed
  with find show ?thesis
    using a by (auto simp: finished_flow_def Let_def split: if_splits)
qed

text \<open>Ending an open call is a move; every other entry stays as it is.\<close>

lemma finish_io:
  assumes "io_sound st" and "i < length (ix_ios st)"
  shows "io_moves q st (pending_io_finish cfg (Some i) ts result incomplete st) \<and>
     (\<exists>p. ix_ios (pending_io_finish cfg (Some i) ts result incomplete st) = (ix_ios st)[i := p] \<and> \<not> po_active p)"
proof (cases "po_active (ix_ios st ! i)")
  case False
  then have "pending_io_finish cfg (Some i) ts result incomplete st = st"
    by (simp add: pending_io_finish_def)
  then show ?thesis
    using assms False by (auto intro!: exI [of _ "ix_ios st ! i"])
next
  case True
  define p where "p = ix_ios st ! i"
  define r where "r = pending_io_finish cfg (Some i) ts result incomplete st"
  have vis: "po_visible p"
    using assms True nth_mem unfolding p_def io_sound_def by blast
  define st1 where "st1 = (case finished_flow p (io_protocol (fc_get_trace (ic_flow cfg) (po_func p))) (ix_flow st) of
      None \<Rightarrow> st
    | Some k \<Rightarrow> on_flow (flow_account k ts (signed_positive result) (po_tx p))
        (put_io i (p\<lparr>po_flow_id := fs_id (fx_flows (ix_flow st) ! k)\<rparr>)
          (st\<lparr>ix_calls := bind_calls p (fs_id (fx_flows (ix_flow st) ! k)) (ix_calls st)\<rparr>)))"
  obtain p' where p': "ix_ios st1 = (ix_ios st)[i := p']" "io_call p' = io_call p" "po_active p'" "po_visible p'"
  proof -
    show ?thesis
      by (rule that [of "ix_ios st1 ! i"])
        (use vis True assms(2) in \<open>auto simp: st1_def p_def io_call_def split: option.split\<close>)
  qed
  have m1: "io_moves q st st1"
  proof -
    have "(flow_move q)\<^sup>*\<^sup>* (ix_flow st) (ix_flow st1)"
      unfolding st1_def using finished_flow_active account_moves by (auto split: option.split)
    moreover have "open_calls st1 = open_calls st"
      using open_update [OF assms(2) p'(1)] p' True by (simp add: p_def)
    moreover have "io_sound st1"
      using io_sound_update [OF assms p'(1)] p' True by (simp add: p_def)
    ultimately show ?thesis
      using silent by blast
  qed
  have i1: "i < length (ix_ios st1)" "ix_ios st1 ! i = p'"
    using p'(1) assms(2) by simp_all
  obtain stage where r: "r = pending_io_close cfg i ts result incomplete stage st1"
  proof -
    have "\<exists>stage. r = pending_io_close cfg i ts result incomplete stage st1"
      using True vis i1 p'(4) unfolding r_def pending_io_finish_def
      by (auto simp: p_def [symmetric] Let_def st1_def emit_start_visible assms(2) split: option.split)
    with that show ?thesis
      by blast
  qed
  obtain l m where c: "ix_ios r = (ix_ios st1)[i := p'\<lparr>po_active := False\<rparr>]" "ends (io_call p') l" "completes (io_call p') m"
      "adds_lines [l, m] (ix_flow st1) (ix_flow r)"
    using close_effect [of cfg i ts result incomplete stage st1] unfolding r i1(2) by blast
  have "open_calls st1 = add_mset (io_call p') (open_calls r)"
    using open_update [OF i1(1) c(1)] i1(2) p'(3) by simp
  then have m2: "io_move q st1 r"
    using ended c(2-4) by blast
  have "io_sound r"
    using io_sound_update [OF _ i1(1) c(1)] m1 by simp
  moreover have "ix_ios r = (ix_ios st)[i := p'\<lparr>po_active := False\<rparr>]"
    using c(1) p'(1) by simp
  ultimately show ?thesis
    using m1 m2 unfolding r_def [symmetric] by (auto intro: rtranclp.rtrancl_into_rtrancl)
qed

section \<open>Starting\<close>

lemma quiet_moves: "ix_ios st' = ix_ios st \<Longrightarrow> ix_flow st' = ix_flow st \<Longrightarrow> io_sound st \<Longrightarrow> io_moves q st st'"
  by (rule flow_io_moves) simp_all

lemma io_add_cases [consumes 1]:
  assumes "pending_io_find func tid st = None"
  obtains (add_none) "pending_io_add cfg func tid st = (None, st)"
  | (placed) i st' where "pending_io_add cfg func tid st = (Some i, st')" "i \<le> length (ix_ios st)"
      "i < length (ix_ios st) \<longrightarrow> \<not> po_active (ix_ios st ! i)"
      "ix_ios st' = put_at i (io_zero\<lparr>po_func := func, po_tid := tid, po_active := True\<rparr>) (ix_ios st)"
      "ix_flow st' = ix_flow st"
proof (cases "find_loop (\<lambda>p. \<not> po_active p) 0 (ix_ios st)")
  case (Some i)
  then show ?thesis
    using placed [of i] find_loop_Some [OF Some] assms by (simp add: pending_io_add_def Let_def put_at_def)
next
  case None
  then have "pending_io_add cfg func tid st = (None, st) \<or>
      (\<exists>st'. pending_io_add cfg func tid st = (Some (length (ix_ios st)), st') \<and> ix_flow st' = ix_flow st \<and>
         ix_ios st' = ix_ios st @ [io_zero\<lparr>po_func := func, po_tid := tid, po_active := True\<rparr>])"
    using assms by (simp add: pending_io_add_def Let_def)
  then show ?thesis
    using add_none placed [of "length (ix_ios st)"] by (auto simp: put_at_def)
qed

lemma io_thread_effect:
  assumes "i < length (ix_ios st)"
  shows "\<exists>u ns. ix_ios (io_thread cfg i d st) = (ix_ios st)[i := (ix_ios st ! i)\<lparr>po_native_track_uuid := u\<rparr>] \<and>
     ix_flow (io_thread cfg i d st) = on_native (\<lambda>_. ns) (ix_flow st)"
proof -
  obtain t ns where t: "native_thread_track (fc_mem (ic_flow cfg)) (fd_tgid d) (fd_tid d) (Some (strncpy 16 (fd_task d)))
      (fx_native (ix_flow st)) = (t, ns)"
    by (cases "native_thread_track (fc_mem (ic_flow cfg)) (fd_tgid d) (fd_tid d) (Some (strncpy 16 (fd_task d))) (fx_native (ix_flow st))")
  have same: "(ix_ios st ! i)\<lparr>po_native_track_uuid := po_native_track_uuid (ix_ios st ! i)\<rparr> = ix_ios st ! i"
    by simp
  show ?thesis
  proof (cases t)
    case None
    then show ?thesis
      using t assms
      by (intro exI [of _ "po_native_track_uuid (ix_ios st ! i)"] exI [of _ ns]) (simp add: io_thread_def Let_def)
  next
    case (Some k)
    then show ?thesis
      using t assms by (intro exI [of _ "nt_uuid (ns_tracks ns ! k)"] exI [of _ ns]) (simp add: io_thread_def Let_def)
  qed
qed

lemma native_moves: "flow_move q fx (on_native f fx)"
  by (rule move_quiet) (simp_all add: same_counts_iff)

text \<open>The new entry is announced: a begin of its call.\<close>

lemma announce_moves:
  assumes "io_sound st" and "i \<le> length (ix_ios st)" and "i < length (ix_ios st) \<longrightarrow> \<not> po_active (ix_ios st ! i)"
    and "ix_ios st1 = put_at i p (ix_ios st)" and "po_active p" and "\<not> po_visible p"
    and "\<forall>d \<in># open_calls st. \<not> same_slot (io_call p) d" and "(flow_move q)\<^sup>*\<^sup>* (ix_flow st) (ix_flow st1)"
  shows "io_moves q st (pending_io_emit_start cfg i trace flow st1)"
proof -
  define r where "r = pending_io_emit_start cfg i trace flow st1"
  define mid where "mid = st\<lparr>ix_flow := ix_flow st1\<rparr>"
  have p: "ix_ios st1 ! i = p"
    using assms(2,4) by (simp add: place_places)
  obtain p' l where e: "ix_ios r = (ix_ios st1)[i := p']" "io_call p' = io_call p" "po_active p'" "po_visible p'"
      "begins (io_call p') l" "adds_lines [l] (ix_flow st1) (ix_flow r)"
    using emit_start_effect [of st1 i cfg trace flow] assms(5,6) unfolding p r_def by auto
  have ios: "ix_ios r = put_at i p' (ix_ios mid)"
    using e(1) assms(2,4) by (simp add: place_places mid_def)
  have o: "open_calls mid = open_calls st"
    by (rule open_calls_cong) (simp add: mid_def)
  have "io_moves q st mid"
    using flow_io_moves [of mid st q] assms(1,8) by (simp add: mid_def)
  moreover have "io_move q mid r"
  proof (rule begun [OF e(5)])
    show "open_calls r = add_mset (io_call p') (open_calls mid)"
      using open_place [of i mid r p'] assms(2,3) ios e(3) by (simp add: mid_def)
  qed (use assms(7) e o in \<open>simp_all add: mid_def\<close>)
  moreover have "io_sound r"
    using io_sound_place [of mid i r p'] calculation(1) assms(2,3,7) ios e(2,4) o by (simp add: mid_def)
  ultimately show ?thesis
    unfolding r_def [symmetric] by (auto intro: rtranclp.rtrancl_into_rtrancl)
qed

text \<open>No two open calls are found for one function and thread.\<close>

lemma find_after_finish:
  assumes "io_sound st" and "pending_io_find func tid st = Some i"
  shows "pending_io_find func tid (pending_io_finish cfg (Some i) ts result incomplete st) = None"
proof -
  have i: "i < length (ix_ios st)" "po_active (ix_ios st ! i)" "po_func (ix_ios st ! i) = func" "po_tid (ix_ios st ! i) = tid"
    using find_loop_Some [OF assms(2) [unfolded pending_io_find_def]] by simp_all
  obtain p where p: "ix_ios (pending_io_finish cfg (Some i) ts result incomplete st) = (ix_ios st)[i := p]" "\<not> po_active p"
    using finish_io [OF assms(1) i(1)] by blast
  have "\<not> (po_active q \<and> po_func q = func \<and> po_tid q = tid)" if mem: "q \<in> set ((ix_ios st)[i := p])" for q
  proof -
    obtain j where j: "j < length (ix_ios st)" "q = (ix_ios st)[i := p] ! j"
      using mem unfolding in_set_conv_nth by auto
    show ?thesis
      using assms(1) i j p(2) unfolding io_sound_def by (cases "j = i") (fastforce simp: io_call_def)+
  qed
  then show ?thesis
    unfolding pending_io_find_def find_loop_None p(1) by blast
qed

lemma io_start_moves:
  assumes "io_sound st"
  shows "io_moves q st (pending_io_start cfg d t cpu st)"
proof -
  define socket_id where "socket_id = event_socket_id d (ix_flow st)"
  define tx where "tx = trace_is_tx_write (Some t)"
  define s0 where "s0 = st\<lparr>ix_calls := bind_sockets d (ix_calls st)\<rparr>"
  define found where "found = pending_io_find (fd_func d) (fd_tid d) s0"
  have m0: "io_moves q st s0"
    using assms by (intro quiet_moves) (simp_all add: s0_def)
  define again where "again \<longleftrightarrow> (case found of None \<Rightarrow> False | Some i \<Rightarrow> fd_io_start_ts d \<noteq> 0 \<and> po_start_ts (ix_ios s0 ! i) = fd_io_start_ts d)"
  define s1 where "s1 = pending_io_finish cfg found (ph_ts (fd_ske d)) 0 True s0"
  have m1: "io_moves q st s1" and none: "pending_io_find (fd_func d) (fd_tid d) s1 = None"
  proof -
    show "io_moves q st s1"
    proof (cases found)
      case None
      then show ?thesis
        using m0 by (simp add: s1_def pending_io_finish_def)
    next
      case (Some i)
      then have "i < length (ix_ios s0)"
        using find_loop_Some unfolding found_def pending_io_find_def by fastforce
      then show ?thesis
        using m0 finish_io [of s0 i q cfg "ph_ts (fd_ske d)" 0 True] Some by (auto simp: s1_def)
    qed
    show "pending_io_find (fd_func d) (fd_tid d) s1 = None"
      using find_after_finish m0 by (cases found) (auto simp: s1_def found_def pending_io_finish_def)
  qed
  define r where "r = pending_io_start cfg d t cpu st"
  have r: "r = (if again then s0 else if pending_io_find_logical (fd_tid d) socket_id tx s1 \<noteq> None then s1
      else (case pending_io_add cfg (fd_func d) (fd_tid d) s1 of
              (None, s2) \<Rightarrow> s2
            | (Some i, s2) \<Rightarrow>
                let s3 = io_thread cfg i d (put_io i (fill_io d cpu socket_id tx (ix_flow s2) (ix_ios s2 ! i)) s2) in
                if ph_proto_l4 (fd_ske d) = IPPROTO_UDP then pending_io_emit_start cfg i (Some t) None s3
                else (case flow_from_socket (ic_flow cfg) d (ph_ts (fd_ske d)) (ix_flow s3) of
                        (flow, fx) \<Rightarrow> pending_io_emit_start cfg i (Some t) flow (s3\<lparr>ix_flow := fx\<rparr>))))"
    unfolding r_def pending_io_start_def again_def s1_def found_def s0_def socket_id_def tx_def Let_def by (rule refl)
  show ?thesis
  proof (cases "again \<or> pending_io_find_logical (fd_tid d) socket_id tx s1 \<noteq> None")
    case True
    then show ?thesis
      using m0 m1 unfolding r_def [symmetric] r by (cases again) simp_all
  next
    case False
    show ?thesis
      using none
    proof (cases rule: io_add_cases [where cfg = cfg])
      case add_none
      then show ?thesis
        using False m1 unfolding r_def [symmetric] r by simp
    next
      case (placed i s2)
      define p where "p = fill_io d cpu socket_id tx (ix_flow s2) (ix_ios s2 ! i)"
      define s3 where "s3 = io_thread cfg i d (put_io i p s2)"
      have i2: "i < length (ix_ios s2)" "ix_ios s2 ! i = io_zero\<lparr>po_func := fd_func d, po_tid := fd_tid d, po_active := True\<rparr>"
        using placed(2,4) by (simp_all add: place_places)
      obtain u ns where t: "ix_ios s3 = (ix_ios s2)[i := p, i := p\<lparr>po_native_track_uuid := u\<rparr>]"
          "ix_flow s3 = on_native (\<lambda>_. ns) (ix_flow s1)"
        using io_thread_effect [of i "put_io i p s2" cfg d] i2(1) placed(5) unfolding s3_def by auto
      define x0 where "x0 = p\<lparr>po_native_track_uuid := u\<rparr>"
      have ios: "ix_ios s3 = put_at i x0 (ix_ios s1)"
        using t(1) placed(2,4) by (simp add: x0_def place_places)
      have x0: "po_active x0" "\<not> po_visible x0" "io_call x0 = (fd_func d, fd_tid d, socket_id, tx, po_io_id x0)"
        using i2(2) by (simp_all add: x0_def p_def fill_io_def Let_def io_call_def io_zero_def)
      have "\<not> same_slot (io_call x0) c" if mem: "c \<in># open_calls s1" for c
      proof -
        obtain x where x: "x \<in> set (ix_ios s1)" "po_active x" "c = io_call x"
          using mem in_open_calls by blast
        have "\<not> (po_active x \<and> po_func x = fd_func d \<and> po_tid x = fd_tid d)"
          using none x(1) unfolding pending_io_find_def find_loop_None by blast
        moreover have "\<not> (po_active x \<and> po_tid x = fd_tid d \<and> po_socket_id x = socket_id \<and> po_tx x = tx)"
          using False x(1) unfolding pending_io_find_logical_def by (simp add: find_loop_None)
        ultimately show ?thesis
          using x(2) unfolding x0(3) x(3) io_call_def [of x] by auto
      qed
      then have ann: "io_moves q s1 (pending_io_emit_start cfg i (Some t) flow s4)"
        if "ix_ios s4 = ix_ios s3" "(flow_move q)\<^sup>*\<^sup>* (ix_flow s3) (ix_flow s4)" for flow s4
        using announce_moves [of s1 i s4 x0 q cfg "Some t" flow] m1 placed(2,3) ios x0(1,2) that t(2)
          native_moves [of q "ix_flow s1" "\<lambda>_. ns"] by (simp add: converse_rtranclp_into_rtranclp)
      have "io_moves q s1 r"
      proof (cases "ph_proto_l4 (fd_ske d) = IPPROTO_UDP")
        case True
        then have "r = pending_io_emit_start cfg i (Some t) None s3"
          using False placed(1) unfolding r p_def s3_def by simp
        then show ?thesis
          using ann [of s3 None] by simp
      next
        case neq: False
        obtain flow fx where f: "flow_from_socket (ic_flow cfg) d (ph_ts (fd_ske d)) (ix_flow s3) = (flow, fx)"
          by (cases "flow_from_socket (ic_flow cfg) d (ph_ts (fd_ske d)) (ix_flow s3)")
        then have "r = pending_io_emit_start cfg i (Some t) flow (s3\<lparr>ix_flow := fx\<rparr>)"
          using False placed(1) neq unfolding r p_def s3_def by simp
        moreover have "(flow_move q)\<^sup>*\<^sup>* (ix_flow s3) fx"
          using socket_moves [of q "ix_flow s3" "ic_flow cfg" d "ph_ts (fd_ske d)"] f by simp
        ultimately show ?thesis
          using ann [of "s3\<lparr>ix_flow := fx\<rparr>" flow] by simp
      qed
      then show ?thesis
        using m1 unfolding r_def [symmetric] by (auto intro: rtranclp_trans)
    qed
  qed
qed

section \<open>Packets and system calls\<close>

lemma other_lines_quiet:
  "foreign_line (packet_link_line d io_id call_id pkt_id flow_id socket_id tag)"
  "quiet_line (network_syscall_line c call_id socket_id flow_id label incomplete)"
  by (simp_all add: foreign_line_def quiet_line_def plain_line_def flow_line_def io_line_def line_kind_def packet_link_line_def
    network_syscall_line_def json_head_def)

lemma bind_packet_call [simp]:
  "io_call (bind_packet io_id flow_id p) = io_call p" "po_active (bind_packet io_id flow_id p) = po_active p"
  "po_visible (bind_packet io_id flow_id p) = po_visible p"
  by (simp_all add: bind_packet_def Let_def io_call_def)

lemma bind_packet_calls:
  "map io_call (filter po_active (map (bind_packet io_id flow_id) ps)) = map io_call (filter po_active ps)"
  by (induction ps) simp_all

lemma packet_link_moves:
  assumes "io_sound st" and "\<And>l. foreign_line l \<Longrightarrow> q l"
  shows "io_moves q st (export_packet_io_link cfg d flow st)"
proof (cases "fd_io_start_ts d = 0 \<or> fd_io_role d = 0 \<or> fd_io_role d = 4 \<or> fd_io_multiple d")
  case True
  then show ?thesis
    using assms(1) by (simp add: export_packet_io_link_def)
next
  case False
  define r where "r = export_packet_io_link cfg d flow st"
  define io_id where "io_id = call_uuid (ix_flow st) ''io-call'' (fd_io_tgid d) (fd_io_tid d) (fd_io_start_ts d)"
  define flow_id where "flow_id = (case flow of None \<Rightarrow> 0 | Some k \<Rightarrow> fs_id (fx_flows (ix_flow st) ! k))"
  define l where "l = packet_link_line d io_id
      (if fd_syscall_start_ts d \<noteq> 0 then call_uuid (ix_flow st) ''syscall-call'' (fd_io_tgid d) (fd_io_tid d) (fd_syscall_start_ts d) else 0)
      (packet_id (ns_salt (fx_native (ix_flow st))) (fd_pkt d) (fd_key d) (fd_key_generation d)) flow_id
      (if fd_owner_socket_key d \<noteq> 0 then packet_socket_id d (ix_flow st)
       else case flow of None \<Rightarrow> 0 | Some k \<Rightarrow> fs_socket_id (fx_flows (ix_flow st) ! k))
      (format_known_flow_label flow_id 16 (ix_flow st))"
  have l: "foreign_line l" "adds_lines [l] (ix_flow st) (ix_flow r)"
      "ix_ios r = ix_ios st \<or> ix_ios r = map (bind_packet io_id flow_id) (ix_ios st)"
    using False unfolding r_def export_packet_io_link_def Let_def io_id_def [symmetric] flow_id_def [symmetric] l_def [symmetric]
    by (auto intro: adds_native adds_put_json) (simp add: l_def other_lines_quiet)
  have "open_calls r = open_calls st"
    using l(3) bind_packet_calls unfolding open_calls_def by metis
  moreover have "io_sound r"
    using l(3) assms(1) by (auto simp: io_sound_def)
  moreover have "(flow_move q)\<^sup>*\<^sup>* (ix_flow st) (ix_flow r)"
    using adds_move [OF l(2), of q] l(1) assms(2) by simp
  ultimately show ?thesis
    unfolding r_def using silent by blast
qed

lemma export_syscall_moves: "(flow_move quiet_line)\<^sup>*\<^sup>* fx (export_network_syscall cfg c flow_id incomplete fx)"
proof (cases "call_valid c fx")
  case False
  then show ?thesis
    by (simp add: export_network_syscall_def)
next
  case True
  define l where "l = network_syscall_line c (call_uuid fx ''syscall-call'' (se_tgid c) (se_tid c) (se_start_ts c)) (call_socket c fx)
      (if call_flow c flow_id fx = None then 0 else flow_id)
      (case call_flow c flow_id fx of None \<Rightarrow> [] | Some k \<Rightarrow> format_flow_label (fx_flows fx ! k) 32) incomplete"
  have "quiet_line l"
    unfolding l_def by (rule other_lines_quiet)
  moreover have "adds_lines [l] fx (export_network_syscall cfg c flow_id incomplete fx)"
    using True unfolding export_network_syscall_def Let_def l_def [symmetric] by (auto intro: adds_native adds_put_json)
  ultimately have "flow_move quiet_line fx (export_network_syscall cfg c flow_id incomplete fx)"
    using adds_move [of "[l]" fx _ quiet_line] by simp
  then show ?thesis ..
qed

lemma put_call_sel [simp]:
  "ix_ios (put_call i c st) = ix_ios st" "ix_flow (put_call i c st) = ix_flow st" "ix_calls (put_call i c st) = (ix_calls st)[i := c]"
  by (simp_all add: put_call_def)

lemma slot_syscall_frame:
  "ix_ios (slot_syscall cfg c i st) = ix_ios st \<and> (flow_move quiet_line)\<^sup>*\<^sup>* (ix_flow st) (ix_flow (slot_syscall cfg c i st))"
  by (auto simp: slot_syscall_def Let_def intro: export_syscall_moves)

lemma syscall_frame:
  "ix_ios (handle_network_syscall cfg c st) = ix_ios st \<and>
   (flow_move quiet_line)\<^sup>*\<^sup>* (ix_flow st) (ix_flow (handle_network_syscall cfg c st))"
proof (cases "call_slot c st")
  case (Some i)
  then show ?thesis
    using slot_syscall_frame [of cfg c i st] by (simp add: handle_network_syscall_def)
next
  case None
  define st1 where "st1 = st\<lparr>ix_calls := ix_calls st @ [\<lparr>pc_event = c, pc_flow_id = 0, pc_completed_ts = 0, pc_active = False\<rparr>]\<rparr>"
  show ?thesis
    using None slot_syscall_frame [of cfg c "length (ix_calls st)" st1]
    by (simp add: handle_network_syscall_def st1_def export_syscall_moves)
qed

section \<open>The end of the capture\<close>

lemma finish_ios_moves:
  assumes "io_sound st"
  shows "io_moves q st (finish_ios cfg e st) \<and> open_calls (finish_ios cfg e st) = {#}"
proof -
  define step where "step i st = pending_io_finish cfg (Some i) e 0 True st" for i st
  have main: "io_moves q s (fold step is s) \<and> length (ix_ios (fold step is s)) = length (ix_ios s) \<and>
      (\<forall>j < length (ix_ios s). j \<in> set is \<or> \<not> po_active (ix_ios s ! j) \<longrightarrow> \<not> po_active (ix_ios (fold step is s) ! j))"
    if "io_sound s" "\<forall>i \<in> set is. i < length (ix_ios s)" for "is" s
    using that
  proof (induction "is" arbitrary: s)
    case (Cons i "is")
    obtain p where p: "io_moves q s (step i s)" "ix_ios (step i s) = (ix_ios s)[i := p]" "\<not> po_active p"
      using finish_io [of s i q cfg e 0 True] Cons.prems unfolding step_def by auto
    have "j \<in> set is \<or> \<not> po_active (ix_ios (step i s) ! j)"
      if "j < length (ix_ios s)" "j \<in> set (i # is) \<or> \<not> po_active (ix_ios s ! j)" for j
      using that p(2,3) by (cases "j = i") auto
    then show ?case
      using Cons.IH [of "step i s"] Cons.prems p by (auto intro: rtranclp_trans)
  qed simp
  define r where "r = fold step [0..<length (ix_ios st)] st"
  have r: "finish_ios cfg e st = r"
    by (simp add: finish_ios_def r_def step_def [abs_def])
  have m: "io_moves q st r" "length (ix_ios r) = length (ix_ios st)" "\<forall>j < length (ix_ios st). \<not> po_active (ix_ios r ! j)"
    using main [of st "[0..<length (ix_ios st)]"] assms unfolding r_def by simp_all
  then have "filter po_active (ix_ios r) = []"
    unfolding filter_empty_conv by (auto simp: in_set_conv_nth)
  then show ?thesis
    using m(1) unfolding r by (simp add: open_calls_def)
qed

lemma finish_calls_frame:
  "ix_ios (finish_calls cfg e st) = ix_ios st \<and> (flow_move quiet_line)\<^sup>*\<^sup>* (ix_flow st) (ix_flow (finish_calls cfg e st))"
proof -
  define step where "step i st = (if \<not> pc_active (ix_calls st ! i) then st
     else let s = ix_calls st ! i; e = (pc_event s)\<lparr>se_ts := e\<rparr> in
       on_flow (export_network_syscall cfg e (pc_flow_id s) True) (put_call i (s\<lparr>pc_event := e\<rparr>) st))" for i st
  have s: "ix_ios (step i st) = ix_ios st \<and> (flow_move quiet_line)\<^sup>*\<^sup>* (ix_flow st) (ix_flow (step i st))" for i st
    by (simp add: step_def Let_def export_syscall_moves)
  have "ix_ios (fold step is s) = ix_ios s \<and> (flow_move quiet_line)\<^sup>*\<^sup>* (ix_flow s) (ix_flow (fold step is s))" for "is" s
    using s by (induction "is" arbitrary: s) (auto intro: rtranclp_trans)
  then show ?thesis
    by (simp add: finish_calls_def step_def [abs_def])
qed

lemma finish_flows_moves: "(flow_move q)\<^sup>*\<^sup>* fx (finish_flows cfg e fx)"
  using step_moves [of q "Op_finish e" fx cfg] by simp

lemma close_moves:
  assumes "io_sound st"
  shows "io_moves quiet_line st (io_close cfg e st) \<and> open_calls (io_close cfg e st) = {#}"
proof -
  define st1 where "st1 = finish_ios cfg e st"
  note a = finish_ios_moves [OF assms, of quiet_line cfg e, folded st1_def]
  have f: "ix_ios (io_close cfg e st) = ix_ios st1" "(flow_move quiet_line)\<^sup>*\<^sup>* (ix_flow st1) (ix_flow (io_close cfg e st))"
    using finish_calls_frame [of cfg e st1] finish_flows_moves by (auto simp: io_close_def st1_def [symmetric] intro: rtranclp_trans)
  have "io_moves quiet_line st1 (io_close cfg e st)"
    using flow_io_moves [OF f] a by blast
  then show ?thesis
    using a open_calls_cong [OF f(1)] by (auto intro: rtranclp_trans)
qed

section \<open>Every operation is a sequence of moves\<close>

fun io_ok :: "io_op \<Rightarrow> bool" where
  "io_ok (Io_flow op) = op_lines foreign_line op"
| "io_ok _ = True"

lemma op_lines_mono: "op_lines p op \<Longrightarrow> (\<And>l. p l \<Longrightarrow> q l) \<Longrightarrow> op_lines q op"
  by (cases op) (auto simp: list_all_iff)

text \<open>Calls, returns, packets and the operations of the flow table write no lines of system calls.\<close>

fun no_syscall :: "io_op \<Rightarrow> bool" where
  "no_syscall (Io_syscall c) = False"
| "no_syscall (Io_close e) = False"
| "no_syscall _ = True"

lemma io_other_moves:
  assumes "io_sound st" and "io_ok op" and "no_syscall op" and "\<And>l. foreign_line l \<Longrightarrow> q l"
  shows "io_moves q st (io_step cfg op st)"
proof (cases op)
  case (Io_call d t cpu)
  then show ?thesis
    using io_start_moves [OF assms(1)] by simp
next
  case (Io_return func tid ts result)
  have "i < length (ix_ios st)" if "pending_io_find func tid st = Some i" for i
    using find_loop_Some [OF that [unfolded pending_io_find_def]] by simp
  then show ?thesis
    using finish_io [OF assms(1)] assms(1) unfolding Io_return
    by (cases "pending_io_find func tid st") (auto simp: pending_io_finish_def [where found = None])
next
  case (Io_packet d t)
  obtain flow fx where f: "flow_from_packet (ic_flow cfg) d t (ix_flow st) = (flow, fx)"
    by (cases "flow_from_packet (ic_flow cfg) d t (ix_flow st)")
  have "io_moves q st (st\<lparr>ix_flow := fx\<rparr>)"
    using packet_moves [of q "ix_flow st" "ic_flow cfg" d t] f assms(1) by (intro flow_io_moves) simp_all
  then show ?thesis
    using packet_link_moves [of "st\<lparr>ix_flow := fx\<rparr>" q cfg d flow] f assms(4) unfolding Io_packet by (auto intro: rtranclp_trans)
next
  case (Io_flow fop)
  then have "op_lines q fop"
    using assms(2,4) op_lines_mono by fastforce
  then show ?thesis
    using flow_io_moves [of "on_flow (flow_step (ic_flow cfg) fop) st" st q] step_moves [of q fop "ix_flow st" "ic_flow cfg"] assms(1) Io_flow
    by simp
qed (use assms(3) in simp_all)

lemma io_step_moves:
  assumes "io_sound st" and "io_ok op"
  shows "io_moves quiet_line st (io_step cfg op st)"
proof (cases "no_syscall op")
  case True
  then show ?thesis
    by (rule io_other_moves [OF assms]) (simp add: foreign_line_def)
next
  case False
  then consider c where "op = Io_syscall c" | e where "op = Io_close e"
    by (cases op) simp_all
  then show ?thesis
  proof cases
    case (1 c)
    then show ?thesis
      using flow_io_moves [of "handle_network_syscall cfg c st" st quiet_line] syscall_frame [of cfg c st] assms(1) by simp
  next
    case (2 e)
    then show ?thesis
      using close_moves [OF assms(1)] by simp
  qed
qed

interpretation io_system: move_system "io_move quiet_line" "io_step cfg" io_ok io_sound for cfg
  by unfold_locales (rule io_step_moves)

lemma io_start_sound: "io_sound (io_start ns)"
  by (simp add: io_sound_def io_start_def)

lemma io_run_moves:
  "list_all io_ok ops \<Longrightarrow> (io_move quiet_line)\<^sup>*\<^sup>* (io_start ns) (io_run cfg ops (io_start ns)) \<and> io_sound (io_run cfg ops (io_start ns))"
  unfolding io_run_def using io_system.steps_move [OF io_start_sound] .

text \<open>The flows keep their books while calls come and go.\<close>

lemma io_move_books: "io_move quiet_line st st' \<Longrightarrow> flow_books (ix_flow st) \<Longrightarrow> flow_books (ix_flow st')"
proof (induction rule: io_move.induct)
  case (silent st st')
  have "flow_move plain_line fx fx'" if "flow_move quiet_line fx fx'" for fx fx'
    using that by (cases rule: flow_move.cases)
      (auto intro: flow_move.intros simp: quiet_line_def list_all_iff)
  then have "(flow_move plain_line)\<^sup>*\<^sup>* (ix_flow st) (ix_flow st')"
    using silent(1) by (metis mono_rtranclp)
  then show ?case
    using flow_moves_books silent by blast
next
  case (begun c l st st')
  then show ?case
    using adds_move [of "[l]" _ _ plain_line] call_line_plain [of c l] flow_move_books by (metis list.pred_inject)
next
  case (ended c l m st st')
  then show ?case
    using adds_move [of "[l, m]" _ _ plain_line] call_line_plain [of c l] call_line_plain [of c m] flow_move_books
    by (metis list.pred_inject)
qed

end
