(* ===== verification/IoCalls.thy ===== *)
theory IoCalls
  imports IoMoves
begin

text \<open>
  The books of protocol calls: starts, ends and final reports in the event file against the calls that
  are open, kept by every move.
\<close>

section \<open>The books of calls\<close>

definition starts_of :: "bool \<Rightarrow> json_line list \<Rightarrow> json_value list multiset" where
  "starts_of tx ls = mset (map io_view (lines_of (if tx then ''tx_write_start'' else ''rx_read_start'') ls))"

definition ends_of :: "bool \<Rightarrow> json_line list \<Rightarrow> json_value list multiset" where
  "ends_of tx ls = mset (map io_view (lines_of (if tx then ''tx_write_end'' else ''rx_read_end'') ls))"

definition completes_of :: "json_line list \<Rightarrow> json_value list multiset" where
  "completes_of ls = mset (map io_view (lines_of ''io_complete'' ls))"

definition open_views :: "bool \<Rightarrow> io_export \<Rightarrow> json_value list multiset" where
  "open_views tx st = image_mset call_view (filter_mset (\<lambda>c. call_tx c = tx) (open_calls st))"

definition calls_booked :: "io_export \<Rightarrow> json_line list \<Rightarrow> bool" where
  "calls_booked st ls \<longleftrightarrow>
     (\<forall>tx. starts_of tx ls = ends_of tx ls + open_views tx st) \<and> completes_of ls = ends_of True ls + ends_of False ls"

definition io_books :: "io_export \<Rightarrow> bool" where
  "io_books st \<longleftrightarrow> (case fx_json (ix_flow st) of None \<Rightarrow> True | Some ls \<Rightarrow> calls_booked st ls)"

lemma views_append [simp]:
  "starts_of tx (ls @ ms) = starts_of tx ls + starts_of tx ms" "ends_of tx (ls @ ms) = ends_of tx ls + ends_of tx ms"
  "completes_of (ls @ ms) = completes_of ls + completes_of ms"
  by (simp_all add: starts_of_def ends_of_def completes_of_def)

lemma views_quiet:
  assumes "list_all (\<lambda>l. \<not> io_line l) ls"
  shows "starts_of tx ls = {#}" "ends_of tx ls = {#}" "completes_of ls = {#}"
  using assms
  by (auto simp: starts_of_def ends_of_def completes_of_def lines_of_def io_line_def list_all_iff filter_empty_conv)

lemma views_begun: "begins c l \<Longrightarrow> starts_of tx [l] = (if tx = call_tx c then {#call_view c#} else {#})"
    "begins c l \<Longrightarrow> ends_of tx [l] = {#}" "begins c l \<Longrightarrow> completes_of [l] = {#}"
  by (auto simp: starts_of_def ends_of_def completes_of_def lines_of_def begins_def kind_unique split: if_splits)

lemma views_ended: "ends c l \<Longrightarrow> ends_of tx [l] = (if tx = call_tx c then {#call_view c#} else {#})"
    "ends c l \<Longrightarrow> starts_of tx [l] = {#}" "ends c l \<Longrightarrow> completes_of [l] = {#}"
  by (auto simp: starts_of_def ends_of_def completes_of_def lines_of_def ends_def kind_unique split: if_splits)

lemma views_completed: "completes c l \<Longrightarrow> completes_of [l] = {#call_view c#}"
    "completes c l \<Longrightarrow> starts_of tx [l] = {#}" "completes c l \<Longrightarrow> ends_of tx [l] = {#}"
  by (auto simp: starts_of_def ends_of_def completes_of_def lines_of_def completes_def kind_unique split: if_splits)

lemma open_views_add: "open_calls st' = add_mset c (open_calls st) \<Longrightarrow>
    open_views tx st' = open_views tx st + (if tx = call_tx c then {#call_view c#} else {#})"
  by (simp add: open_views_def)

text \<open>The lines of a move are lines of flows or those of other exporters.\<close>

lemma flow_move_json:
  assumes "flow_move q fx fx'" and "\<And>l. q l \<Longrightarrow> p l" and "\<And>l. flow_line l \<Longrightarrow> p l"
  shows "\<exists>new. json_adds new fx fx' \<and> list_all p new"
  using assms
proof (induction rule: flow_move.induct)
  case (quiet st' st new)
  then show ?case
    by (auto simp: list_all_iff)
next
  case (touch i st g st')
  then show ?case
    by (intro exI [of _ "[]"]) simp
next
  case (link i st f st' ts)
  then show ?case
    by (intro exI [of _ "[link_line f ts]"]) (simp add: flow_line_def link_line_view)
next
  case (opened f st st')
  then show ?case
    by (intro exI [of _ "(if fs_socket_id f \<noteq> 0 then [link_line f (fs_first_ts f)] else []) @ [start_line f]"])
      (simp add: flow_line_def link_line_view start_line_view)
next
  case (finish i st f t e st' incomplete reason)
  then show ?case
    by (intro exI [of _ "[end_line f t reason incomplete]"]) (simp add: flow_line_def end_line_view)
qed

lemma json_adds_trans: "json_adds new fx fx1 \<Longrightarrow> json_adds new' fx1 fx2 \<Longrightarrow> json_adds (new @ new') fx fx2"
  by (simp add: json_adds_def option.map_comp o_def)

lemma flow_moves_json:
  assumes "(flow_move q)\<^sup>*\<^sup>* fx fx'" and "\<And>l. q l \<Longrightarrow> p l" and "\<And>l. flow_line l \<Longrightarrow> p l"
  shows "\<exists>new. json_adds new fx fx' \<and> list_all p new"
  using assms(1)
proof (induction rule: rtranclp_induct)
  case base
  then show ?case
    by (intro exI [of _ "[]"]) simp
next
  case (step fx1 fx2)
  then obtain new new' where "json_adds new fx fx1" "json_adds new' fx1 fx2" "list_all p (new @ new')"
    using flow_move_json [of q fx1 fx2 p, OF step(2) assms(2,3)] by auto
  then show ?case
    using json_adds_trans by blast
qed

lemma flow_line_not_io: "flow_line l \<Longrightarrow> \<not> io_line l"
  by (auto simp: flow_line_def io_line_def kind_unique)

lemma io_books_adds:
  assumes "io_books st" and "json_adds new (ix_flow st) (ix_flow st')"
    and "\<And>ls. calls_booked st ls \<Longrightarrow> calls_booked st' (ls @ new)"
  shows "io_books st'"
  using assms unfolding io_books_def json_adds_def by (cases "fx_json (ix_flow st)") auto

lemma io_move_call_books: "io_move quiet_line st st' \<Longrightarrow> io_books st \<Longrightarrow> io_books st'"
proof (induction rule: io_move.induct)
  case (silent st st')
  obtain new where n: "json_adds new (ix_flow st) (ix_flow st')" "list_all (\<lambda>l. \<not> io_line l) new"
    using flow_moves_json [OF silent(1), of "\<lambda>l. \<not> io_line l"] flow_line_not_io by (auto simp: quiet_line_def)
  show ?case
    by (rule io_books_adds [OF silent(3) n(1)])
      (use silent(2) views_quiet [OF n(2)] in \<open>simp add: calls_booked_def open_views_def\<close>)
next
  case (begun c l st st')
  have j: "json_adds [l] (ix_flow st) (ix_flow st')"
    using begun(4) by (simp add: adds_lines_def)
  show ?case
    by (rule io_books_adds [OF begun(5) j])
      (simp add: calls_booked_def views_begun [OF begun(1)] open_views_add [OF begun(3)])
next
  case (ended c l m st st')
  have j: "json_adds [l, m] (ix_flow st) (ix_flow st')"
    using ended(4) by (simp add: adds_lines_def)
  have "starts_of tx [l, m] = {#}" "ends_of tx [l, m] = (if tx = call_tx c then {#call_view c#} else {#})"
      "completes_of [l, m] = {#call_view c#}" for tx
    using views_append(1) [of tx "[l]" "[m]"] views_append(2) [of tx "[l]" "[m]"] views_append(3) [of "[l]" "[m]"]
      views_ended [OF ended(1)] views_completed [OF ended(2)] by simp_all
  then show ?case
    by (intro io_books_adds [OF ended(5) j]) (auto simp: calls_booked_def open_views_add [OF ended(3)])
qed

lemma io_run_books:
  assumes "list_all io_ok ops"
  shows "io_books (io_run cfg ops (io_start ns))" "flow_books (ix_flow (io_run cfg ops (io_start ns)))"
proof -
  note m = conjunct1 [OF io_run_moves [OF assms]]
  have "io_books (io_start ns)" "flow_books (ix_flow (io_start ns))"
    using flow_start_books by (simp_all add: io_start_def io_books_def calls_booked_def starts_of_def ends_of_def completes_of_def
      open_views_def open_calls_def lines_of_def flow_start_def)
  then show "io_books (io_run cfg ops (io_start ns))" "flow_books (ix_flow (io_run cfg ops (io_start ns)))"
    using io_system.moves_keep [where keeps = io_books, OF m io_move_call_books]
      io_system.moves_keep [where keeps = "\<lambda>st. flow_books (ix_flow st)", OF m io_move_books] by simp_all
qed

text \<open>
  C20. Every read and write is reported once from begin to end.  Whatever calls, returns, packets,
  system calls and operations on flows arrive in whatever order, each end line and each final report
  belongs to a call whose start line was written, with the same identifier, socket, thread and
  direction; the starts without an end are exactly the calls still open; two open calls of one thread
  differ in function and in socket or direction; and when the capture is closed no call is left open.
\<close>

theorem io_calls_paired:
  assumes "list_all io_ok ops" and "fx_json (ix_flow (io_run cfg ops (io_start ns))) = Some ls"
  shows "(\<forall>tx. starts_of tx ls = ends_of tx ls + open_views tx (io_run cfg ops (io_start ns))) \<and>
     completes_of ls = ends_of True ls + ends_of False ls \<and> io_sound (io_run cfg ops (io_start ns)) \<and>
     (ops \<noteq> [] \<and> (\<exists>e. last ops = Io_close e) \<longrightarrow> (\<forall>tx. starts_of tx ls = ends_of tx ls))"
proof -
  define st where "st = io_run cfg ops (io_start ns)"
  have b: "calls_booked st ls"
    using io_run_books(1) [OF assms(1), of cfg ns] assms(2) by (simp add: io_books_def st_def)
  have s: "io_sound st"
    using io_run_moves [OF assms(1)] by (simp add: st_def)
  have "open_views tx st = {#}" if "ops \<noteq> []" "last ops = Io_close e" for tx e
  proof -
    have "list_all io_ok (butlast ops)"
      using assms(1) by (auto simp: list_all_iff dest: in_set_butlastD)
    then have "io_sound (io_run cfg (butlast ops) (io_start ns))"
      using io_run_moves by blast
    moreover have "st = io_close cfg e (io_run cfg (butlast ops) (io_start ns))"
      unfolding st_def io_run_def using that by (subst append_butlast_last_id [OF that(1), symmetric]) simp
    ultimately show ?thesis
      using close_moves by (simp add: open_views_def)
  qed
  then show ?thesis
    using b s unfolding st_def [symmetric] calls_booked_def by auto
qed

lemma first_call:
  assumes "ix_ios st = []" and "\<And>n. fc_mem (ic_flow cfg) n" and "ph_proto_l4 (fd_ske d) = IPPROTO_UDP"
  shows "open_views (trace_is_tx_write (Some t)) (pending_io_start cfg d t cpu st) =
     {#[JId (call_uuid (ix_flow st) ''io-call'' (fd_tgid d) (fd_tid d)
          (if fd_io_start_ts d \<noteq> 0 then fd_io_start_ts d else ph_ts (fd_ske d))),
        JId (event_socket_id d (ix_flow st)), JNum (ucast (fd_tid d))]#}"
proof -
  define tx where "tx = trace_is_tx_write (Some t)"
  define s0 where "s0 = st\<lparr>ix_calls := bind_sockets d (ix_calls st)\<rparr>"
  define fresh where "fresh = io_zero\<lparr>po_func := fd_func d, po_tid := fd_tid d, po_active := True\<rparr>"
  obtain s2 where a: "pending_io_add cfg (fd_func d) (fd_tid d) s0 = (Some 0, s2)" "ix_ios s2 = [fresh]" "ix_flow s2 = ix_flow st"
    using assms(1,2) by (simp add: pending_io_add_def pending_io_find_def Let_def s0_def fresh_def)
  define p where "p = fill_io d cpu (event_socket_id d (ix_flow st)) tx (ix_flow s2) fresh"
  define s3 where "s3 = io_thread cfg 0 d (put_io 0 p s2)"
  have f: "pending_io_find (fd_func d) (fd_tid d) s0 = None" "pending_io_find_logical (fd_tid d) (event_socket_id d (ix_flow st)) tx s0 = None"
    using assms(1) by (simp_all add: pending_io_find_def pending_io_find_logical_def s0_def)
  have "pending_io_start cfg d t cpu st = pending_io_emit_start cfg 0 (Some t) None s3"
    using assms(3) f a
    unfolding pending_io_start_def s0_def [symmetric] tx_def [symmetric] Let_def
    by (simp add: pending_io_finish_def s3_def p_def s0_def)
  moreover obtain u where u: "ix_ios s3 = [p\<lparr>po_native_track_uuid := u\<rparr>]"
    using io_thread_effect [of 0 "put_io 0 p s2" cfg d] a(2) unfolding s3_def by auto
  moreover have "\<not> po_visible p"
    by (simp add: p_def fill_io_def Let_def fresh_def io_zero_def)
  moreover have "po_active p" "io_call (p\<lparr>po_native_track_uuid := u\<rparr>) = (fd_func d, fd_tid d, event_socket_id d (ix_flow st), tx,
      call_uuid (ix_flow st) ''io-call'' (fd_tgid d) (fd_tid d) (if fd_io_start_ts d \<noteq> 0 then fd_io_start_ts d else ph_ts (fd_ske d)))"
    by (simp_all add: p_def fill_io_def Let_def fresh_def io_zero_def io_call_def a(3))
  ultimately show ?thesis
    using emit_start_effect [of s3 0 cfg "Some t" None] unfolding tx_def [symmetric]
    by (auto simp: open_views_def open_calls_def)
qed

lemma io_run_json:
  assumes "list_all io_ok ops"
  shows "\<exists>ls. fx_json (ix_flow (io_run cfg ops (io_start ns))) = Some ls"
proof -
  have "io_move quiet_line st st' \<Longrightarrow> fx_json (ix_flow st) \<noteq> None \<Longrightarrow> fx_json (ix_flow st') \<noteq> None" for st st'
    by (induction rule: io_move.induct) (auto simp: adds_lines_def json_adds_def dest!: flow_moves_json [where p = "\<lambda>_. True"])
  then have "fx_json (ix_flow (io_run cfg ops (io_start ns))) \<noteq> None"
    using io_system.moves_keep [where keeps = "\<lambda>st. fx_json (ix_flow st) \<noteq> None", OF conjunct1 [OF io_run_moves [OF assms]]]
    by (simp add: io_start_def flow_start_def)
  then show ?thesis
    by blast
qed

definition call_config :: io_config where
  "call_config =
     \<lparr>ic_flow = lifecycle_config,
      ic_names = \<lparr>nc_perfetto = True, nc_trace_detail = False, nc_trace_tags = False, nc_connect_diagnostics = False\<rparr>\<rparr>"

definition call_op :: io_op where
  "call_op = Io_call (lifecycle_detail\<lparr>fd_ske := fd_pkt lifecycle_detail\<rparr>) (lifecycle_trace ''udp_sendmsg'') 0"

definition call_demo :: "io_op list \<Rightarrow> io_export" where
  "call_demo ops = io_run call_config ops (io_start ((native_ring_start 0 0)\<lparr>ns_file := None\<rparr>))"

theorem io_calls_paired_witness:
  "(\<exists>ls v. fx_json (ix_flow (call_demo [call_op])) = Some ls \<and> starts_of True ls = ends_of True ls + {#v#}) \<and>
   (\<exists>ls. fx_json (ix_flow (call_demo [call_op, Io_close 200])) = Some ls \<and> starts_of True ls = ends_of True ls)"
proof
  obtain ls where ls: "fx_json (ix_flow (call_demo [call_op])) = Some ls"
    using io_run_json [of "[call_op]"] by (auto simp: call_demo_def call_op_def)
  have "trace_is_tx_write (Some (lifecycle_trace ''udp_sendmsg''))"
    by (simp add: trace_is_tx_write_def trace_named_def lifecycle_trace_def)
  then have "\<exists>v. open_views True (call_demo [call_op]) = {#v#}"
    using first_call [of "io_start ((native_ring_start 0 0)\<lparr>ns_file := None\<rparr>)" call_config
        "lifecycle_detail\<lparr>fd_ske := fd_pkt lifecycle_detail\<rparr>" "lifecycle_trace ''udp_sendmsg''" 0]
    by (simp add: call_demo_def call_op_def io_run_def io_start_def call_config_def lifecycle_config_def lifecycle_detail_def)
  then show "\<exists>ls v. fx_json (ix_flow (call_demo [call_op])) = Some ls \<and> starts_of True ls = ends_of True ls + {#v#}"
    using io_calls_paired [of "[call_op]" call_config "(native_ring_start 0 0)\<lparr>ns_file := None\<rparr>" ls] ls
    by (auto simp: call_demo_def call_op_def)
  obtain ls where "fx_json (ix_flow (call_demo [call_op, Io_close 200])) = Some ls"
    using io_run_json [of "[call_op, Io_close 200]"] by (auto simp: call_demo_def call_op_def)
  then show "\<exists>ls. fx_json (ix_flow (call_demo [call_op, Io_close 200])) = Some ls \<and> starts_of True ls = ends_of True ls"
    using io_calls_paired [of "[call_op, Io_close 200]" call_config "(native_ring_start 0 0)\<lparr>ns_file := None\<rparr>" ls]
    by (auto simp: call_demo_def call_op_def)
qed

end
