(* ===== verification/SyscallReports.thy ===== *)
theory SyscallReports
  imports IoCalls
begin

text \<open>
  The reports of system calls.  The slots of the bounded table and the lines written so far satisfy an
  invariant over the events of each thread, whatever else the exporter does in between; at the end of
  the capture every call that has a slot, and every call whose return was seen, has one report; the starts of
  the threads for which no slot was left are counted.
\<close>

section \<open>Reports of system calls\<close>

text \<open>A system call is known by its thread and its start; a report of it is complete or not.\<close>

type_synonym sys_report = "json_value list \<times> json_value"

definition call_key :: "syscall_event \<Rightarrow> json_value list" where
  "call_key c = [JNum (ucast (se_tid c)), JNum (ucast (se_tgid c)), JNum (se_start_ts c)]"

definition call_thread :: "syscall_event \<Rightarrow> u32 \<times> u32" where
  "call_thread c = (se_tid c, se_tgid c)"

definition sys_view :: "json_line \<Rightarrow> sys_report" where
  "sys_view l = (map (\<lambda>k. the (map_of l k)) [''tid'', ''tgid'', ''start_ts_ns''], the (map_of l ''incomplete''))"

definition sys_reports :: "json_line list \<Rightarrow> sys_report list" where
  "sys_reports ls = map sys_view (lines_of ''network_syscall'' ls)"

lemma ucast_32_64: "(ucast a :: u64) = ucast b \<longleftrightarrow> a = b" for a b :: u32
proof
  assume "(ucast a :: u64) = ucast b"
  then have "unat a = unat b"
    using unat_ucast_32 by metis
  then show "a = b"
    by (metis word_unat_eq_iff)
qed simp

lemma call_key_iff: "call_key c = call_key d \<longleftrightarrow> call_thread c = call_thread d \<and> se_start_ts c = se_start_ts d"
  by (auto simp: call_key_def call_thread_def ucast_32_64)

lemma sys_reports_append [simp]: "sys_reports (ls @ ms) = sys_reports ls @ sys_reports ms" "sys_reports [] = []"
  by (simp_all add: sys_reports_def lines_of_def)

lemma sys_report_line: "sys_reports [network_syscall_line c call_id socket_id flow_id label incomplete] = [(call_key c, JBool incomplete)]"
  by (simp add: sys_reports_def lines_of_def line_kind_def sys_view_def call_key_def network_syscall_line_def json_head_def)

lemma sys_reports_none: "list_all (\<lambda>l. \<not> line_kind l ''network_syscall'') ls \<Longrightarrow> sys_reports ls = []"
  by (simp add: sys_reports_def lines_of_def list_all_iff filter_empty_conv)

text \<open>What is reported between two states.\<close>

definition reports :: "sys_report list \<Rightarrow> flow_export \<Rightarrow> flow_export \<Rightarrow> bool" where
  "reports rs fx fx' \<longleftrightarrow> (\<exists>new. json_adds new fx fx' \<and> sys_reports new = rs)"

lemma reports_trans: "reports rs fx fx1 \<Longrightarrow> reports qs fx1 fx2 \<Longrightarrow> reports (rs @ qs) fx fx2"
  unfolding reports_def using json_adds_trans by (metis sys_reports_append(1))

lemma reports_refl [simp]: "reports [] fx fx"
  unfolding reports_def by (intro exI [of _ "[]"]) simp

lemma export_reports:
  "reports (if call_valid c fx then [(call_key c, JBool incomplete)] else []) fx (export_network_syscall cfg c flow_id incomplete fx)"
proof (cases "call_valid c fx")
  case True
  define l where "l = network_syscall_line c (call_uuid fx ''syscall-call'' (se_tgid c) (se_tid c) (se_start_ts c)) (call_socket c fx)
      (if call_flow c flow_id fx = None then 0 else flow_id)
      (case call_flow c flow_id fx of None \<Rightarrow> [] | Some k \<Rightarrow> format_flow_label (fx_flows fx ! k) 32) incomplete"
  have "json_adds [l] fx (export_network_syscall cfg c flow_id incomplete fx)"
    using True unfolding export_network_syscall_def Let_def l_def [symmetric] by (auto simp: json_adds_def)
  then show ?thesis
    using True sys_report_line unfolding reports_def l_def by auto
qed (simp add: export_network_syscall_def)

lemma flow_moves_report:
  assumes "(flow_move foreign_line)\<^sup>*\<^sup>* fx fx'"
  shows "reports [] fx fx'"
proof -
  have "\<not> line_kind l ''network_syscall''" if "flow_line l" for l
    using that by (auto simp: flow_line_def kind_unique)
  then show ?thesis
    using flow_moves_json [OF assms, of "\<lambda>l. \<not> line_kind l ''network_syscall''"] sys_reports_none
    unfolding reports_def foreign_line_def by blast
qed

lemma io_moves_report: "(io_move foreign_line)\<^sup>*\<^sup>* st st' \<Longrightarrow> reports [] (ix_flow st) (ix_flow st')"
proof (induction rule: rtranclp_induct)
  case (step st1 st2)
  have "reports [] (ix_flow st1) (ix_flow st2)"
    using step(2)
  proof (cases rule: io_move.cases)
    case silent
    then show ?thesis
      using flow_moves_report by blast
  next
    case (begun c l)
    then show ?thesis
      unfolding reports_def adds_lines_def
      by (intro exI [of _ "[l]"]) (auto simp: begins_def kind_unique intro: sys_reports_none)
  next
    case (ended c l m)
    then show ?thesis
      unfolding reports_def adds_lines_def
      by (intro exI [of _ "[l, m]"]) (auto simp: ends_def completes_def kind_unique intro: sys_reports_none)
  qed
  then show ?case
    using step(3) reports_trans [of "[]" _ _ "[]"] by simp
qed simp

section \<open>Slots\<close>

text \<open>What protocol calls and packets leave of a slot.\<close>

definition slot_view :: "pending_call \<Rightarrow> u32 \<times> u32 \<times> u64 \<times> bool \<times> u64 \<times> bool" where
  "slot_view s = (se_tid (pc_event s), se_tgid (pc_event s), se_start_ts (pc_event s), se_require_socket (pc_event s),
     pc_completed_ts s, pc_active s)"

lemma slot_view_iff: "slot_view s = slot_view t \<longleftrightarrow>
    call_key (pc_event s) = call_key (pc_event t) \<and> se_require_socket (pc_event s) = se_require_socket (pc_event t) \<and>
    pc_completed_ts s = pc_completed_ts t \<and> pc_active s = pc_active t"
  by (auto simp: slot_view_def call_key_iff call_thread_def)

abbreviation same_slots :: "io_export \<Rightarrow> io_export \<Rightarrow> bool" where
  "same_slots st st' \<equiv> map slot_view (ix_calls st') = map slot_view (ix_calls st)"

lemma bind_views: "map slot_view (bind_calls p flow_id calls) = map slot_view calls"
    "map slot_view (bind_sockets d calls) = map slot_view calls"
  by (auto simp: bind_calls_def bind_sockets_def slot_view_def)

lemma emit_start_calls [simp]: "ix_calls (pending_io_emit_start cfg i trace flow st) = ix_calls st"
  by (simp add: pending_io_emit_start_def Let_def)

lemma finish_slots: "same_slots st (pending_io_finish cfg found ts result incomplete st)"
  by (simp add: pending_io_finish_def pending_io_close_def Let_def bind_views split: option.split)

lemma add_calls: "pending_io_add cfg func tid st = (found, st') \<Longrightarrow> ix_calls st' = ix_calls st"
  by (auto simp: pending_io_add_def Let_def split: option.splits if_splits)

lemma io_thread_calls [simp]: "ix_calls (io_thread cfg i d st) = ix_calls st"
  by (simp add: io_thread_def Let_def split: prod.split option.split)

lemma start_slots: "same_slots st (pending_io_start cfg d t cpu st)"
  unfolding pending_io_start_def Let_def
  by (auto simp: bind_views finish_slots dest!: add_calls split: option.split prod.split)

lemma link_slots: "ix_calls (export_packet_io_link cfg d flow st) = ix_calls st"
  by (simp add: export_packet_io_link_def Let_def)

lemma other_slots: "no_syscall op \<Longrightarrow> same_slots st (io_step cfg op st)"
  by (cases op) (simp_all add: start_slots finish_slots link_slots split: prod.split)

fun not_close :: "io_op \<Rightarrow> bool" where
  "not_close (Io_close e) = False"
| "not_close _ = True"

text \<open>Only the handler of system calls counts a start as lost.\<close>

lemma put_lost [simp]: "ix_lost (put_io i p st) = ix_lost st" "ix_lost (put_call i s st) = ix_lost st"
    "ix_lost (on_flow f st) = ix_lost st"
  by (simp_all add: put_io_def put_call_def on_flow_def)

lemma emit_start_lost [simp]: "ix_lost (pending_io_emit_start cfg i trace flow st) = ix_lost st"
  by (simp add: pending_io_emit_start_def Let_def)

lemma finish_lost [simp]: "ix_lost (pending_io_finish cfg found ts result incomplete st) = ix_lost st"
  by (simp add: pending_io_finish_def pending_io_close_def Let_def split: option.split)

lemma add_lost: "pending_io_add cfg func tid st = (found, st') \<Longrightarrow> ix_lost st' = ix_lost st"
  by (auto simp: pending_io_add_def Let_def split: option.splits if_splits)

lemma io_thread_lost [simp]: "ix_lost (io_thread cfg i d st) = ix_lost st"
  by (simp add: io_thread_def Let_def split: prod.split option.split)

lemma start_lost [simp]: "ix_lost (pending_io_start cfg d t cpu st) = ix_lost st"
  unfolding pending_io_start_def Let_def
  by (auto dest!: add_lost split: option.split prod.split)

lemma link_lost [simp]: "ix_lost (export_packet_io_link cfg d flow st) = ix_lost st"
  by (simp add: export_packet_io_link_def Let_def)

lemma finish_ios_lost [simp]: "ix_lost (finish_ios cfg e st) = ix_lost st"
proof -
  have "ix_lost (fold (\<lambda>i. pending_io_finish cfg (Some i) e 0 True) is s) = ix_lost s" for "is" s
    by (induction "is" arbitrary: s) simp_all
  then show ?thesis
    by (simp add: finish_ios_def)
qed

lemma other_lost: "no_syscall op \<Longrightarrow> not_close op \<Longrightarrow> ix_lost (io_step cfg op st) = ix_lost st"
  by (cases op) (simp_all split: prod.split)

lemma slot_lost [simp]: "ix_lost (slot_syscall cfg c i st) = ix_lost st"
  by (simp add: slot_syscall_def Let_def)

lemma io_other_reports:
  "io_sound st \<Longrightarrow> io_ok op \<Longrightarrow> no_syscall op \<Longrightarrow> reports [] (ix_flow st) (ix_flow (io_step cfg op st))"
  using io_other_moves [of st op foreign_line cfg] io_moves_report by blast

section \<open>Slots and reports\<close>

definition slot_thread :: "pending_call \<Rightarrow> u32 \<times> u32" where
  "slot_thread s = call_thread (pc_event s)"

definition slot_key :: "pending_call \<Rightarrow> json_value list" where
  "slot_key s = call_key (pc_event s)"

definition holds_call :: "json_value list \<Rightarrow> pending_call \<Rightarrow> bool" where
  "holds_call k s \<longleftrightarrow> pc_active s \<and> slot_key s = k"

text \<open>The start of a call comes before its return, and both before the next call of the thread.\<close>

definition call_before :: "syscall_event \<Rightarrow> syscall_event \<Rightarrow> bool" where
  "call_before c d \<longleftrightarrow> se_start_ts c < se_start_ts d \<or> se_start_ts c = se_start_ts d \<and> \<not> se_finished c \<and> se_finished d"

definition in_order :: "syscall_event list \<Rightarrow> bool" where
  "in_order es \<longleftrightarrow> sorted_wrt (\<lambda>c d. call_thread c = call_thread d \<longrightarrow> call_before c d) es"

definition returned :: "syscall_event list \<Rightarrow> json_value list \<Rightarrow> bool" where
  "returned es k \<longleftrightarrow> (\<exists>d \<in> set es. se_finished d \<and> call_key d = k)"

definition report_ok :: "syscall_event list \<Rightarrow> sys_report \<Rightarrow> bool" where
  "report_ok es r \<longleftrightarrow> snd r = JBool False \<and> returned es (fst r) \<or>
     snd r = JBool True \<and> \<not> returned es (fst r) \<and>
       (\<exists>c \<in> set es. \<exists>d \<in> set es. call_key c = fst r \<and> call_thread d = call_thread c \<and> se_start_ts c < se_start_ts d)"

definition slot_ok :: "syscall_event list \<Rightarrow> sys_report list \<Rightarrow> pending_call \<Rightarrow> bool" where
  "slot_ok es rep s \<longleftrightarrow>
     (pc_completed_ts s = 0 \<or> (\<exists>c \<in> set es. call_thread c = slot_thread s \<and> pc_completed_ts s \<le> se_start_ts c)) \<and>
     (pc_active s \<longrightarrow>
        (\<exists>c \<in> set es. call_key c = slot_key s \<and> se_require_socket c = se_require_socket (pc_event s)) \<and>
        \<not> returned es (slot_key s) \<and> slot_key s \<notin> fst ` set rep)"

definition free_key :: "syscall_event list \<Rightarrow> json_value list \<Rightarrow> bool" where
  "free_key es k \<longleftrightarrow> (\<forall>d \<in> set es. call_key d = k \<longrightarrow> \<not> se_require_socket d)"

text \<open>
  The threads that have a slot: slots are given in the order in which the threads are first seen, are
  never taken back, and there are \<open>MAX_CALLS\<close> of them.  The starts of other threads are lost.
\<close>

definition tracked_threads :: "syscall_event list \<Rightarrow> (u32 \<times> u32) list" where
  "tracked_threads es = take MAX_CALLS (rev (remdups (rev (map call_thread es))))"

definition lost_starts :: "syscall_event list \<Rightarrow> nat" where
  "lost_starts es = length (filter (\<lambda>c. \<not> se_finished c \<and> call_thread c \<notin> set (tracked_threads es)) es)"

lemma tracked_distinct [simp]: "distinct (tracked_threads es)"
  by (simp add: tracked_threads_def)

lemma tracked_snoc:
  "tracked_threads (es @ [c]) = (if call_thread c \<in> set (tracked_threads es) \<or> length (tracked_threads es) = MAX_CALLS
     then tracked_threads es else tracked_threads es @ [call_thread c])"
proof -
  define D where "D = rev (remdups (rev (map call_thread es)))"
  have t: "tracked_threads es = take MAX_CALLS D"
    by (simp add: tracked_threads_def D_def)
  have s: "tracked_threads (es @ [c]) = take MAX_CALLS (if call_thread c \<in> set D then D else D @ [call_thread c])"
    by (auto simp: tracked_threads_def D_def)
  show ?thesis
    unfolding t s by (cases "length D < MAX_CALLS") auto
qed

lemma tracked_all: "length (tracked_threads es) \<noteq> MAX_CALLS \<Longrightarrow> set (tracked_threads es) = call_thread ` set es"
proof -
  assume l: "length (tracked_threads es) \<noteq> MAX_CALLS"
  then have "tracked_threads es = rev (remdups (rev (map call_thread es)))"
    by (simp add: tracked_threads_def)
  then show ?thesis
    by simp
qed

lemma lost_snoc:
  "lost_starts (es @ [c]) = lost_starts es + (if \<not> se_finished c \<and> call_thread c \<notin> set (tracked_threads (es @ [c])) then 1 else 0)"
proof (cases "tracked_threads (es @ [c]) = tracked_threads es")
  case False
  then have "set (tracked_threads es) = call_thread ` set es" "set (tracked_threads (es @ [c])) = insert (call_thread c) (set (tracked_threads es))"
    using tracked_all [of es] tracked_snoc [of es c] by (simp_all split: if_splits)
  then show ?thesis
    by (auto simp: lost_starts_def)
qed (simp add: lost_starts_def)

definition sys_inv :: "(u32 \<times> u32) list \<Rightarrow> syscall_event list \<Rightarrow> pending_call list \<Rightarrow> sys_report list \<Rightarrow> bool" where
  "sys_inv T es calls rep \<longleftrightarrow>
     distinct T \<and> map slot_thread calls = T \<and> list_all (slot_ok es rep) calls \<and>
     distinct (map fst rep) \<and> list_all (report_ok es) rep \<and>
     (\<forall>c \<in> set es. free_key es (call_key c) \<longrightarrow> call_thread c \<in> set T \<or> returned es (call_key c) \<longrightarrow>
        call_key c \<in> fst ` set rep \<or> list_ex (holds_call (call_key c)) calls)"

lemma sys_inv_parts:
  assumes "sys_inv T es calls rep"
  shows "distinct (map slot_thread calls)" "map slot_thread calls = T" "list_all (slot_ok es rep) calls"
    "distinct (map fst rep)" "list_all (report_ok es) rep"
    "\<And>b. b \<in> set es \<Longrightarrow> free_key es (call_key b) \<Longrightarrow> call_thread b \<in> set T \<or> returned es (call_key b) \<Longrightarrow>
      call_key b \<in> fst ` set rep \<or> list_ex (holds_call (call_key b)) calls"
  using assms unfolding sys_inv_def by blast+

lemma sys_inv_threads: "sys_inv T es calls rep \<Longrightarrow> slot_thread ` set calls = set T"
  using sys_inv_parts(2) by (metis set_map)

text \<open>The state of the exporter after the events \<open>es\<close>, with the reports \<open>rep\<close> written.\<close>

definition sys_state :: "syscall_event list \<Rightarrow> io_export \<Rightarrow> sys_report list \<Rightarrow> bool" where
  "sys_state es st rep \<longleftrightarrow> sys_inv (tracked_threads es) es (ix_calls st) rep \<and> ix_lost st = of_nat (lost_starts es)"

lemma map_view:
  assumes "map slot_view xs = map slot_view ys" and "\<And>s t. slot_view s = slot_view t \<Longrightarrow> f s = f t"
  shows "map f xs = map f ys"
proof (rule nth_equalityI)
  have len: "length xs = length ys"
    using assms(1) map_eq_imp_length_eq by blast
  show "length (map f xs) = length (map f ys)"
    using len by simp
  fix i
  assume "i < length (map f xs)"
  then have i: "i < length xs" "i < length ys"
    using len by simp_all
  have "map slot_view xs ! i = map slot_view ys ! i"
    using assms(1) by (rule arg_cong)
  then have "f (xs ! i) = f (ys ! i)"
    using i by (intro assms(2)) simp
  then show "map f xs ! i = map f ys ! i"
    using i by simp
qed

lemma slot_view_fields:
  "slot_view s = slot_view t \<Longrightarrow> slot_thread s = slot_thread t \<and> slot_key s = slot_key t \<and>
     se_require_socket (pc_event s) = se_require_socket (pc_event t) \<and> pc_completed_ts s = pc_completed_ts t \<and>
     pc_active s = pc_active t"
  by (auto simp: slot_view_def slot_thread_def slot_key_def call_thread_def call_key_def)

lemma sys_inv_views: "map slot_view calls' = map slot_view calls \<Longrightarrow> sys_inv T es calls rep \<Longrightarrow> sys_inv T es calls' rep"
proof -
  assume v: "map slot_view calls' = map slot_view calls" and i: "sys_inv T es calls rep"
  have "map slot_thread calls' = map slot_thread calls"
    by (rule map_view [OF v]) (drule slot_view_fields, simp)
  moreover have "map (slot_ok es rep) calls' = map (slot_ok es rep) calls"
    by (rule map_view [OF v]) (drule slot_view_fields, simp add: slot_ok_def)
  then have "list_all (slot_ok es rep) calls' = list_all (slot_ok es rep) calls"
    by (metis list_all_length length_map nth_map)
  moreover have "list_ex (holds_call k) calls' = list_ex (holds_call k) calls" for k
  proof -
    have "map (holds_call k) calls' = map (holds_call k) calls"
      by (rule map_view [OF v]) (drule slot_view_fields, simp add: holds_call_def)
    then have "list_ex id (map (holds_call k) calls') = list_ex id (map (holds_call k) calls)"
      by simp
    then show ?thesis
      by (simp add: list_ex_iff)
  qed
  ultimately show ?thesis
    using i unfolding sys_inv_def by simp
qed

section \<open>One event\<close>

definition slot_next :: "syscall_event \<Rightarrow> pending_call \<Rightarrow> pending_call" where
  "slot_next c s =
     (if se_finished c
      then s\<lparr>pc_active := (pc_active s \<and> se_start_ts (pc_event s) \<noteq> se_start_ts c),
             pc_completed_ts := (if pc_completed_ts s < se_start_ts c then se_start_ts c else pc_completed_ts s)\<rparr>
      else if pc_completed_ts s < se_start_ts c \<and> \<not> (pc_active s \<and> se_start_ts c \<le> se_start_ts (pc_event s))
      then s\<lparr>pc_event := c, pc_flow_id := 0, pc_active := True\<rparr> else s)"

definition slot_report :: "syscall_event \<Rightarrow> pending_call \<Rightarrow> sys_report list" where
  "slot_report c s =
     (if se_finished c then [(call_key c, JBool False)]
      else if pc_completed_ts s < se_start_ts c \<and> pc_active s \<and> se_start_ts (pc_event s) < se_start_ts c
      then [(slot_key s, JBool True)] else [])"

lemma call_valid_free: "se_start_ts c \<le> se_ts c \<Longrightarrow> \<not> se_require_socket c \<Longrightarrow> call_valid c fx"
  by (simp add: call_valid_def)

lemma slot_syscall_reports:
  assumes "se_start_ts c \<le> se_ts c"
  shows "ix_calls (slot_syscall cfg c i st) = (ix_calls st)[i := slot_next c (ix_calls st ! i)] \<and>
     (\<exists>rs. reports rs (ix_flow st) (ix_flow (slot_syscall cfg c i st)) \<and>
        (rs = slot_report c (ix_calls st ! i) \<or>
         rs = [] \<and> se_require_socket (if se_finished c then c else pc_event (ix_calls st ! i))))"
proof (cases "se_finished c")
  case True
  define fid where "fid = (if pc_active (ix_calls st ! i) \<and> se_start_ts (pc_event (ix_calls st ! i)) = se_start_ts c
    then pc_flow_id (ix_calls st ! i) else 0)"
  have n: "ix_calls (slot_syscall cfg c i st) = (ix_calls st)[i := slot_next c (ix_calls st ! i)]"
    using True by (cases "ix_calls st ! i") (auto simp: slot_syscall_def slot_next_def Let_def)
  have "ix_flow (slot_syscall cfg c i st) = export_network_syscall cfg c fid False (ix_flow st)"
    using True by (simp add: slot_syscall_def Let_def fid_def)
  then show ?thesis
    using True n export_reports [of c "ix_flow st" False cfg fid] call_valid_free [OF assms, of "ix_flow st"]
    by (auto simp: slot_report_def split: if_splits)
next
  case False
  define s where "s = ix_calls st ! i"
  define e1 where "e1 = (pc_event s)\<lparr>se_ts := se_start_ts c\<rparr>"
  show ?thesis
  proof (cases "pc_completed_ts s < se_start_ts c \<and> pc_active s \<and> se_start_ts (pc_event s) < se_start_ts c")
    case True
    then have "\<not> se_start_ts c \<le> se_start_ts (pc_event s)"
      by (simp add: not_le)
    with True have f: "ix_flow (slot_syscall cfg c i st) = export_network_syscall cfg e1 (pc_flow_id s) True (ix_flow st)"
        "ix_calls (slot_syscall cfg c i st) = (ix_calls st)[i := slot_next c s]"
      using False by (simp_all add: slot_syscall_def Let_def s_def [symmetric] e1_def slot_next_def)
    have "call_key e1 = slot_key s" "call_valid e1 (ix_flow st) \<or> se_require_socket (pc_event s)"
      using True by (auto simp: e1_def call_key_def slot_key_def call_valid_def)
    then show ?thesis
      using f True False export_reports [of e1 "ix_flow st" True cfg "pc_flow_id s"]
      unfolding s_def [symmetric] by (auto simp: slot_report_def split: if_splits)
  next
    case idle: False
    then have "slot_report c s = []"
      using False by (auto simp: slot_report_def)
    moreover have "ix_flow (slot_syscall cfg c i st) = ix_flow st \<and> ix_calls (slot_syscall cfg c i st) = (ix_calls st)[i := slot_next c s]"
      using False idle by (auto simp: slot_syscall_def Let_def s_def [symmetric] slot_next_def) (auto simp: s_def)
    ultimately show ?thesis
      unfolding s_def [symmetric] by (auto intro!: exI [of _ "[]"])
  qed
qed

section \<open>One event keeps the invariant\<close>

lemma in_order_snoc:
  "in_order (es @ [c]) \<longleftrightarrow> in_order es \<and> (\<forall>b \<in> set es. call_thread b = call_thread c \<longrightarrow> call_before b c)"
  by (simp add: in_order_def sorted_wrt_append)

lemma returned_snoc: "returned (es @ [c]) k \<longleftrightarrow> returned es k \<or> se_finished c \<and> call_key c = k"
  by (auto simp: returned_def)

lemma free_key_snoc: "free_key (es @ [c]) k \<Longrightarrow> free_key es k"
  by (simp add: free_key_def)

text \<open>A return is the first of its call, and no report of the call was written before.\<close>

lemma return_fresh:
  assumes "\<forall>b \<in> set es. call_thread b = call_thread c \<longrightarrow> call_before b c" and "se_finished c"
  shows "\<not> returned es (call_key c)"
proof
  assume "returned es (call_key c)"
  then obtain d where "d \<in> set es" "se_finished d" "call_thread d = call_thread c" "se_start_ts d = se_start_ts c"
    by (auto simp: returned_def call_key_iff)
  then show False
    using assms(1) by (auto simp: call_before_def)
qed

lemma report_ok_snoc:
  assumes "report_ok es r" and "\<forall>b \<in> set es. call_thread b = call_thread c \<longrightarrow> call_before b c"
  shows "report_ok (es @ [c]) r \<and> (se_finished c \<longrightarrow> fst r \<noteq> call_key c)"
proof (cases "snd r = JBool False")
  case True
  then have "returned es (fst r)"
    using assms(1) by (simp add: report_ok_def)
  then show ?thesis
    using True return_fresh [OF assms(2)] by (auto simp: report_ok_def returned_snoc)
next
  case False
  then obtain a d where r: "snd r = JBool True" "\<not> returned es (fst r)" "a \<in> set es" "d \<in> set es" "call_key a = fst r"
      "call_thread d = call_thread a" "se_start_ts a < se_start_ts d"
    using assms(1) by (auto simp: report_ok_def)
  have "fst r \<noteq> call_key c"
  proof
    assume "fst r = call_key c"
    then have "call_thread a = call_thread c" "se_start_ts a = se_start_ts c"
      using r(5) by (simp_all add: call_key_iff)
    moreover have "se_start_ts d \<le> se_start_ts c"
      using assms(2) r(4,6) calculation(1) by (auto simp: call_before_def)
    ultimately show False
      using r(7) by simp
  qed
  then show ?thesis
    using r by (auto simp: report_ok_def returned_snoc)
qed

lemma slot_ok_snoc:
  assumes "slot_ok es rep s" and "se_finished c \<longrightarrow> pc_active s \<longrightarrow> slot_key s \<noteq> call_key c"
    and "pc_active s \<longrightarrow> slot_key s \<notin> fst ` set rs"
  shows "slot_ok (es @ [c]) (rep @ rs) s"
  using assms by (auto simp: slot_ok_def returned_snoc)

lemma same_call_before:
  assumes "a \<in> set es" and "call_thread a = call_thread c" and "\<forall>b \<in> set es. call_thread b = call_thread c \<longrightarrow> call_before b c"
    and "\<not> se_finished c"
  shows "se_start_ts a < se_start_ts c"
  using assms by (auto simp: call_before_def)

lemma active_before:
  assumes "slot_ok es rep s" and "pc_active s" and "slot_thread s = call_thread c"
    and "\<forall>b \<in> set es. call_thread b = call_thread c \<longrightarrow> call_before b c"
  shows "se_start_ts (pc_event s) \<le> se_start_ts c \<and> (\<not> se_finished c \<longrightarrow> se_start_ts (pc_event s) < se_start_ts c)"
proof -
  obtain a where "a \<in> set es" "call_key a = slot_key s"
    using assms(1,2) by (auto simp: slot_ok_def)
  then have "a \<in> set es" "call_thread a = call_thread c" "se_start_ts a = se_start_ts (pc_event s)"
    using assms(3) by (simp_all add: slot_key_def slot_thread_def call_key_iff)
  then show ?thesis
    using assms(4) by (auto simp: call_before_def)
qed

lemma completed_before:
  assumes "slot_ok es rep s" and "slot_thread s = call_thread c" and "0 < se_start_ts c"
    and "\<forall>b \<in> set es. call_thread b = call_thread c \<longrightarrow> call_before b c" and "\<not> se_finished c"
  shows "pc_completed_ts s < se_start_ts c"
proof (cases "pc_completed_ts s = 0")
  case False
  then obtain a where "a \<in> set es" "call_thread a = call_thread c" "pc_completed_ts s \<le> se_start_ts a"
    using assms(1,2) by (auto simp: slot_ok_def)
  then show ?thesis
    using same_call_before [of a es c] assms(4,5) by fastforce
qed (use assms(3) in simp)

text \<open>The reports an event adds are of the call that returns, or of the call it supersedes.\<close>

lemma slot_reports_ok:
  assumes "slot_ok es rep s" and "slot_thread s = call_thread c" and "0 < se_start_ts c"
    and "\<forall>b \<in> set es. call_thread b = call_thread c \<longrightarrow> call_before b c" and "list_all (report_ok es) rep"
    and "rs = slot_report c s \<or> rs = []" and "distinct (map fst rep)"
  shows "list_all (report_ok (es @ [c])) rs" and "distinct (map fst (rep @ rs))"
    and "\<And>r. r \<in> set rs \<Longrightarrow> \<exists>a. call_key a = fst r \<and> call_thread a = call_thread c"
proof -
  have old: "fst r \<noteq> call_key c" if "r \<in> set rep" "se_finished c" for r
    using report_ok_snoc [OF _ assms(4), of r] assms(5) that by (auto simp: list_all_iff)
  have new: "(\<exists>a. call_key a = fst r \<and> call_thread a = call_thread c) \<and> report_ok (es @ [c]) r \<and> fst r \<notin> fst ` set rep"
    if r: "r \<in> set (slot_report c s)" for r
  proof (cases "se_finished c")
    case True
    then have "r = (call_key c, JBool False)"
      using r by (simp add: slot_report_def)
    then show ?thesis
      using True old by (fastforce simp: report_ok_def returned_snoc)
  next
    case False
    then have v: "r = (slot_key s, JBool True)" "pc_active s" "se_start_ts (pc_event s) < se_start_ts c"
      using r by (auto simp: slot_report_def split: if_splits)
    then obtain a where a: "a \<in> set es" "call_key a = slot_key s" "\<not> returned es (slot_key s)" "slot_key s \<notin> fst ` set rep"
      using assms(1) by (auto simp: slot_ok_def)
    then have t: "call_thread a = call_thread c" "se_start_ts a < se_start_ts c"
      using assms(2) v(3) by (simp_all add: slot_key_def slot_thread_def call_key_iff)
    then show ?thesis
      using a v(1) False by (auto simp: report_ok_def returned_snoc)
  qed
  show "list_all (report_ok (es @ [c])) rs"
    using new assms(6) by (auto simp: list_all_iff)
  show "\<And>r. r \<in> set rs \<Longrightarrow> \<exists>a. call_key a = fst r \<and> call_thread a = call_thread c"
    using new assms(6) by auto
  have "distinct (map fst (slot_report c s))"
    by (simp add: slot_report_def)
  then show "distinct (map fst (rep @ rs))"
    using new assms(6,7) by force
qed

lemma slot_next_thread: "slot_thread s = call_thread c \<Longrightarrow> slot_thread (slot_next c s) = call_thread c"
  by (simp add: slot_next_def slot_thread_def)

lemma slot_next_ok:
  assumes "slot_ok es rep s" and "slot_thread s = call_thread c" and "0 < se_start_ts c"
    and "\<forall>b \<in> set es. call_thread b = call_thread c \<longrightarrow> call_before b c" and "list_all (report_ok es) rep"
    and "rs = slot_report c s \<or> rs = []"
  shows "slot_ok (es @ [c]) (rep @ rs) (slot_next c s)"
proof (cases "se_finished c")
  case True
  have k: "slot_key s = call_key c \<longleftrightarrow> se_start_ts (pc_event s) = se_start_ts c"
    using assms(2) by (simp add: slot_key_def slot_thread_def call_key_iff)
  show ?thesis
    using assms(1,2,6) True k
    by (auto simp: slot_ok_def slot_next_def returned_snoc slot_report_def slot_key_def slot_thread_def)
next
  case False
  have lt: "pc_completed_ts s < se_start_ts c"
    by (rule completed_before [OF assms(1-4) False])
  have act: "\<not> (pc_active s \<and> se_start_ts c \<le> se_start_ts (pc_event s))"
    using active_before [OF assms(1) _ assms(2,4)] False by auto
  have n: "slot_next c s = s\<lparr>pc_event := c, pc_flow_id := 0, pc_active := True\<rparr>"
    using False lt act by (simp add: slot_next_def)
  have "call_key c \<notin> fst ` set rep"
  proof
    assume "call_key c \<in> fst ` set rep"
    then obtain r where r: "r \<in> set rep" "fst r = call_key c"
      by auto
    then obtain a where "a \<in> set es" "call_key a = call_key c"
      using assms(5) by (fastforce simp: list_all_iff report_ok_def returned_def)
    then show False
      using same_call_before [of a es c] assms(4) False by (auto simp: call_key_iff)
  qed
  moreover have "call_key c \<notin> fst ` set rs"
    using assms(6) False by (auto simp: slot_report_def slot_key_def call_key_iff)
  moreover have "\<not> returned es (call_key c)"
    using same_call_before [of _ es c] assms(4) False by (fastforce simp: returned_def call_key_iff)
  ultimately show ?thesis
    using lt False unfolding n
    by (auto simp: slot_ok_def returned_snoc slot_key_def slot_thread_def intro!: bexI [of _ c])
qed

text \<open>What an event does not report stays in the slot.\<close>

lemma event_covered:
  assumes "slot_ok es rep s" and "slot_thread s = call_thread c" and "0 < se_start_ts c"
    and "\<forall>b \<in> set es. call_thread b = call_thread c \<longrightarrow> call_before b c"
    and "rs = slot_report c s \<or> rs = [] \<and> se_require_socket (if se_finished c then c else pc_event s)"
    and "\<not> se_require_socket c"
  shows "call_key c \<in> fst ` set rs \<or> holds_call (call_key c) (slot_next c s)"
proof (cases "se_finished c")
  case True
  then show ?thesis
    using assms(5,6) by (auto simp: slot_report_def)
next
  case False
  then show ?thesis
    using completed_before [OF assms(1-4) False] active_before [OF assms(1) _ assms(2,4)]
    by (auto simp: slot_next_def holds_call_def slot_key_def)
qed

lemma slot_covered:
  assumes "slot_ok es rep s" and "slot_thread s = call_thread c" and "0 < se_start_ts c"
    and "\<forall>b \<in> set es. call_thread b = call_thread c \<longrightarrow> call_before b c"
    and "rs = slot_report c s \<or> rs = [] \<and> se_require_socket (if se_finished c then c else pc_event s)"
    and "holds_call k s" and "free_key es k" and "k \<noteq> call_key c"
  shows "k \<in> fst ` set rs \<or> holds_call k (slot_next c s)"
proof -
  have h: "pc_active s" "slot_key s = k"
    using assms(6) by (simp_all add: holds_call_def)
  have ne: "se_start_ts (pc_event s) \<noteq> se_start_ts c"
    using assms(2,8) h(2) by (auto simp: slot_key_def slot_thread_def call_key_iff)
  show ?thesis
  proof (cases "se_finished c")
    case True
    then show ?thesis
      using h ne by (simp add: holds_call_def slot_next_def slot_key_def)
  next
    case False
    obtain a where "a \<in> set es" "call_key a = k" "se_require_socket a = se_require_socket (pc_event s)"
      using assms(1) h by (auto simp: slot_ok_def)
    then have "\<not> se_require_socket (pc_event s)"
      using assms(7) by (auto simp: free_key_def)
    then have "rs = [(slot_key s, JBool True)]"
      using assms(5) False completed_before [OF assms(1-4) False] active_before [OF assms(1) h(1) assms(2,4)] h(1)
      by (simp add: slot_report_def)
    then show ?thesis
      using h(2) by simp
  qed
qed

lemma list_ex_update:
  assumes "i < length xs" and "list_ex P xs" and "P (xs ! i) \<Longrightarrow> Q \<or> P y"
  shows "Q \<or> list_ex P (xs[i := y])"
proof -
  obtain j where j: "j < length xs" "P (xs ! j)"
    using assms(2) by (auto simp: list_ex_iff in_set_conv_nth)
  show ?thesis
  proof (cases "j = i")
    case True
    then show ?thesis
      using assms(1,3) j(2) by (auto simp: list_ex_iff set_update_memI)
  next
    case False
    then have "xs ! j \<in> set (xs[i := y])"
      using j(1) by (metis length_list_update nth_list_update_neq nth_mem)
    then show ?thesis
      using j(2) by (auto simp: list_ex_iff)
  qed
qed

lemma sys_inv_event:
  assumes "sys_inv T es calls rep" and "i < length calls" and "slot_thread (calls ! i) = call_thread c" and "0 < se_start_ts c"
    and "in_order (es @ [c])"
    and "rs = slot_report c (calls ! i) \<or> rs = [] \<and> se_require_socket (if se_finished c then c else pc_event (calls ! i))"
  shows "sys_inv T (es @ [c]) (calls[i := slot_next c (calls ! i)]) (rep @ rs)"
proof -
  define s where "s = calls ! i"
  define calls' where "calls' = calls[i := slot_next c s]"
  have ord: "\<forall>b \<in> set es. call_thread b = call_thread c \<longrightarrow> call_before b c"
    using assms(5) by (simp add: in_order_snoc)
  have inv: "distinct (map slot_thread calls)" "map slot_thread calls = T" "list_all (slot_ok es rep) calls"
      "distinct (map fst rep)" "list_all (report_ok es) rep"
      "\<And>b. b \<in> set es \<Longrightarrow> free_key es (call_key b) \<Longrightarrow> call_thread b \<in> set T \<or> returned es (call_key b) \<Longrightarrow>
        call_key b \<in> fst ` set rep \<or> list_ex (holds_call (call_key b)) calls"
    using sys_inv_parts [OF assms(1)] by blast+
  have s: "slot_ok es rep s" "slot_thread s = call_thread c"
    using inv(3) assms(2,3) by (simp_all add: s_def list_all_length)
  note rs = assms(6) [folded s_def]
  then have rs': "rs = slot_report c s \<or> rs = []"
    by blast
  note ok = slot_reports_ok [OF s assms(4) ord inv(5) rs' inv(4)] and next_ok = slot_next_ok [OF s assms(4) ord inv(5) rs']
  have threads: "map slot_thread calls' = map slot_thread calls"
    using slot_next_thread [OF s(2)] assms(2,3) by (simp add: calls'_def map_update list_update_same_conv)
  have "slot_ok (es @ [c]) (rep @ rs) (calls' ! j)" if "j < length calls" for j
  proof (cases "j = i")
    case True
    then show ?thesis
      using next_ok that by (simp add: calls'_def)
  next
    case False
    then have ne: "slot_thread (calls ! j) \<noteq> call_thread c"
      using that assms(2,3) nth_eq_iff_index_eq [OF inv(1), of j i] by auto
    have key: "slot_key (calls ! j) \<noteq> call_key a" if "call_thread a = call_thread c" for a
      using ne that by (auto simp: slot_key_def slot_thread_def call_key_iff)
    then have "slot_key (calls ! j) \<notin> fst ` set rs"
      using ok(3) by (metis imageE)
    then have "slot_ok (es @ [c]) (rep @ rs) (calls ! j)"
      using slot_ok_snoc [of es rep "calls ! j" c rs] key [of c] inv(3) that by (simp add: list_all_length)
    then show ?thesis
      using False that by (simp add: calls'_def)
  qed
  then have slots: "list_all (slot_ok (es @ [c]) (rep @ rs)) calls'"
    by (simp add: list_all_length calls'_def)
  have reps: "list_all (report_ok (es @ [c])) (rep @ rs)"
    using ok(1) inv(5) report_ok_snoc [OF _ ord] by (auto simp: list_all_iff)
  have cover: "call_key b \<in> fst ` set (rep @ rs) \<or> list_ex (holds_call (call_key b)) calls'"
    if b: "b \<in> set (es @ [c])" "free_key (es @ [c]) (call_key b)" "call_thread b \<in> set T \<or> returned (es @ [c]) (call_key b)" for b
  proof (cases "call_key b = call_key c")
    case True
    then have "\<not> se_require_socket c"
      using b(2) by (simp add: free_key_def)
    then show ?thesis
      using event_covered [OF s assms(4) ord rs] True assms(2) by (auto simp: calls'_def list_ex_iff set_update_memI)
  next
    case False
    then have b': "b \<in> set es" "free_key es (call_key b)" "call_thread b \<in> set T \<or> returned es (call_key b)"
      using b free_key_snoc by (auto simp: returned_snoc)
    show ?thesis
      using inv(6) [OF b'] list_ex_update [OF assms(2), of "holds_call (call_key b)" "call_key b \<in> fst ` set rs" "slot_next c s"]
        slot_covered [OF s assms(4) ord rs _ b'(2) False] unfolding calls'_def s_def [symmetric] by auto
  qed
  show ?thesis
    unfolding sys_inv_def s_def [symmetric] calls'_def [symmetric] threads using inv(1,2) slots ok(2) reps cover by blast
qed

section \<open>The handler\<close>

lemma call_slot_Some:
  "call_slot c st = Some i \<Longrightarrow> i < length (ix_calls st) \<and> slot_thread (ix_calls st ! i) = call_thread c"
  unfolding call_slot_def by (drule find_loop_Some) (simp add: slot_thread_def call_thread_def)

lemma call_slot_None: "call_slot c st = None \<Longrightarrow> call_thread c \<notin> set (map slot_thread (ix_calls st))"
  by (auto simp: call_slot_def find_loop_None slot_thread_def call_thread_def)

abbreviation blank_slot :: "syscall_event \<Rightarrow> pending_call" where
  "blank_slot c \<equiv> \<lparr>pc_event = c, pc_flow_id = 0, pc_completed_ts = 0, pc_active = False\<rparr>"

lemma blank_slot [simp]: "slot_thread (blank_slot c) = call_thread c" "slot_ok es rep (blank_slot c)"
    "\<not> holds_call k (blank_slot c)"
  by (simp_all add: slot_thread_def slot_ok_def holds_call_def)

lemma sys_inv_blank:
  assumes "sys_inv T es calls rep" and "call_thread c \<notin> set T" and "set T = call_thread ` set es"
  shows "sys_inv (T @ [call_thread c]) es (calls @ [blank_slot c]) rep"
  using assms by (auto simp: sys_inv_def)

text \<open>An event of a thread without a slot is reported at once when it is a return, and nothing else is done.\<close>

lemma sys_inv_full:
  assumes "sys_inv T es calls rep" and "call_thread c \<notin> set T" and "0 < se_start_ts c" and "in_order (es @ [c])"
    and "rs = slot_report c (blank_slot c) \<or> rs = [] \<and> se_require_socket c"
  shows "sys_inv T (es @ [c]) calls (rep @ rs)"
proof -
  have ord: "\<forall>b \<in> set es. call_thread b = call_thread c \<longrightarrow> call_before b c"
    using assms(4) by (simp add: in_order_snoc)
  have inv: "map slot_thread calls = T" "list_all (slot_ok es rep) calls" "distinct (map fst rep)" "list_all (report_ok es) rep"
      "\<And>b. b \<in> set es \<Longrightarrow> free_key es (call_key b) \<Longrightarrow> call_thread b \<in> set T \<or> returned es (call_key b) \<Longrightarrow>
        call_key b \<in> fst ` set rep \<or> list_ex (holds_call (call_key b)) calls"
    using sys_inv_parts [OF assms(1)] by blast+
  have rs': "rs = slot_report c (blank_slot c) \<or> rs = []"
    using assms(5) by blast
  note ok = slot_reports_ok [OF blank_slot(2) blank_slot(1) assms(3) ord inv(4) rs' inv(3)]
  have slots: "slot_ok (es @ [c]) (rep @ rs) s" if s: "s \<in> set calls" for s
  proof -
    have "slot_thread s \<noteq> call_thread c"
      using s inv(1) assms(2) by (metis image_eqI set_map)
    then have key: "slot_key s \<noteq> call_key a" if "call_thread a = call_thread c" for a
      using that by (auto simp: slot_key_def slot_thread_def call_key_iff)
    then have "slot_key s \<notin> fst ` set rs"
      using ok(3) by (metis imageE)
    then show ?thesis
      using slot_ok_snoc [of es rep s c rs] key [of c] inv(2) s by (simp add: list_all_iff)
  qed
  have reps: "list_all (report_ok (es @ [c])) (rep @ rs)"
    using ok(1) inv(4) report_ok_snoc [OF _ ord] by (auto simp: list_all_iff)
  have cover: "call_key b \<in> fst ` set (rep @ rs) \<or> list_ex (holds_call (call_key b)) calls"
    if b: "b \<in> set (es @ [c])" "free_key (es @ [c]) (call_key b)" "call_thread b \<in> set T \<or> returned (es @ [c]) (call_key b)" for b
  proof (cases "call_key b = call_key c")
    case True
    have "\<not> returned es (call_key c)"
      using return_fresh [OF ord] same_call_before [OF _ _ ord] by (fastforce simp: returned_def call_key_iff)
    then have "se_finished c"
      using b(3) True assms(2) by (auto simp: returned_snoc call_key_iff)
    moreover have "\<not> se_require_socket c"
      using b(2) True by (simp add: free_key_def)
    ultimately show ?thesis
      using assms(5) True by (simp add: slot_report_def)
  next
    case False
    then have b': "b \<in> set es" "free_key es (call_key b)" "call_thread b \<in> set T \<or> returned es (call_key b)"
      using b free_key_snoc by (auto simp: returned_snoc)
    show ?thesis
      using inv(5) [OF b'] by auto
  qed
  show ?thesis
    unfolding sys_inv_def using assms(1) slots ok(2) reps cover by (auto simp: sys_inv_def list_all_iff)
qed

lemma call_valid_needs: "se_start_ts c \<le> se_ts c \<Longrightarrow> call_valid c fx \<or> se_require_socket c"
  by (simp add: call_valid_def)

lemma handle_reports:
  assumes "sys_state es st rep" and "0 < se_start_ts c" and "se_start_ts c \<le> se_ts c" and "in_order (es @ [c])"
  shows "\<exists>rs. reports rs (ix_flow st) (ix_flow (handle_network_syscall cfg c st)) \<and>
     sys_state (es @ [c]) (handle_network_syscall cfg c st) (rep @ rs)"
proof (cases "call_slot c st")
  case (Some i)
  note inv = assms(1) [unfolded sys_state_def] and i = call_slot_Some [OF Some]
  have "call_thread c \<in> set (map slot_thread (ix_calls st))"
    using i by (metis (no_types) length_map nth_map nth_mem)
  then have "call_thread c \<in> set (tracked_threads es)"
    using sys_inv_threads [OF inv [THEN conjunct1]] by simp
  then have T: "tracked_threads (es @ [c]) = tracked_threads es" "lost_starts (es @ [c]) = lost_starts es"
    by (simp_all add: tracked_snoc lost_snoc)
  have "handle_network_syscall cfg c st = slot_syscall cfg c i st"
    using Some by (simp add: handle_network_syscall_def)
  then show ?thesis
    using slot_syscall_reports [OF assms(3), of cfg i st] sys_inv_event [OF inv [THEN conjunct1] _ _ assms(2,4), of i] i inv
    unfolding sys_state_def T by (metis slot_lost)
next
  case None
  note inv = assms(1) [unfolded sys_state_def]
  have new: "call_thread c \<notin> set (tracked_threads es)"
    using call_slot_None [OF None] sys_inv_threads [OF inv [THEN conjunct1]] by simp
  have len: "length (ix_calls st) = length (tracked_threads es)"
    using inv unfolding sys_inv_def by (metis length_map)
  show ?thesis
  proof (cases "length (tracked_threads es) = MAX_CALLS")
    case True
    define rs where "rs = (if se_finished c \<and> call_valid c (ix_flow st) then [(call_key c, JBool False)] else [])"
    have T: "tracked_threads (es @ [c]) = tracked_threads es"
      using True by (simp add: tracked_snoc)
    have h: "handle_network_syscall cfg c st = (if se_finished c then on_flow (export_network_syscall cfg c 0 False) st
        else st\<lparr>ix_lost := ix_lost st + 1\<rparr>)"
      using None True len by (simp add: handle_network_syscall_def)
    have "reports rs (ix_flow st) (ix_flow (handle_network_syscall cfg c st))"
      using export_reports [of c "ix_flow st" False cfg 0] by (cases "call_valid c (ix_flow st)") (simp_all add: h rs_def)
    moreover have "rs = slot_report c (blank_slot c) \<or> rs = [] \<and> se_require_socket c"
      using call_valid_needs [OF assms(3), of "ix_flow st"] by (auto simp: rs_def slot_report_def)
    then have "sys_inv (tracked_threads es) (es @ [c]) (ix_calls st) (rep @ rs)"
      by (rule sys_inv_full [OF inv [THEN conjunct1] new assms(2,4)])
    then have "sys_state (es @ [c]) (handle_network_syscall cfg c st) (rep @ rs)"
      using inv new unfolding sys_state_def h T by (simp add: lost_snoc T)
    ultimately show ?thesis
      by blast
  next
    case False
    define st1 where "st1 = st\<lparr>ix_calls := ix_calls st @ [blank_slot c]\<rparr>"
    define i where "i = length (ix_calls st)"
    have h: "handle_network_syscall cfg c st = slot_syscall cfg c i st1"
      using None False len by (simp add: handle_network_syscall_def st1_def i_def)
    have T: "tracked_threads (es @ [c]) = tracked_threads es @ [call_thread c]" "lost_starts (es @ [c]) = lost_starts es"
      using False new by (simp_all add: tracked_snoc lost_snoc)
    have inv1: "sys_inv (tracked_threads (es @ [c])) es (ix_calls st1) rep" "ix_lost st1 = of_nat (lost_starts (es @ [c]))"
      using sys_inv_blank [OF inv [THEN conjunct1] new tracked_all [OF False]] inv by (simp_all add: st1_def T)
    have i: "i < length (ix_calls st1)" "slot_thread (ix_calls st1 ! i) = call_thread c" "ix_flow st1 = ix_flow st"
      by (simp_all add: st1_def i_def)
    show ?thesis
      using slot_syscall_reports [OF assms(3), of cfg i st1] sys_inv_event [OF inv1(1) i(1,2) assms(2,4)] inv1(2)
      unfolding h i(3) sys_state_def by (metis slot_lost)
  qed
qed

section \<open>A run\<close>

definition sys_events :: "io_op list \<Rightarrow> syscall_event list" where
  "sys_events ops = List.map_filter (\<lambda>op. case op of Io_syscall c \<Rightarrow> Some c | _ \<Rightarrow> None) ops"

lemma sys_events_Cons: "sys_events (op # ops) = (case op of Io_syscall c \<Rightarrow> c # sys_events ops | _ \<Rightarrow> sys_events ops)"
  by (cases op) (simp_all add: sys_events_def map_filter_simps)

lemma in_order_append: "in_order (es @ fs) \<Longrightarrow> in_order es"
  by (simp add: in_order_def sorted_wrt_append)

lemma run_reports:
  assumes "io_sound st" and "list_all io_ok ops" and "list_all not_close ops"
    and "sys_state es st rep" and "in_order (es @ sys_events ops)"
    and "\<forall>c \<in> set (sys_events ops). 0 < se_start_ts c \<and> se_start_ts c \<le> se_ts c"
  shows "\<exists>rs. reports rs (ix_flow st) (ix_flow (fold (io_step cfg) ops st)) \<and>
     sys_state (es @ sys_events ops) (fold (io_step cfg) ops st) (rep @ rs)"
  using assms
proof (induction ops arbitrary: st es rep)
  case Nil
  then show ?case
    by (auto simp: sys_events_def map_filter_simps intro!: exI [of _ "[]"])
next
  case (Cons op ops)
  have sound: "io_sound (io_step cfg op st)"
    using io_step_moves [of st op cfg] Cons.prems by simp
  show ?case
  proof (cases "no_syscall op")
    case True
    then have ev: "sys_events (op # ops) = sys_events ops"
      by (cases op) (simp_all add: sys_events_Cons)
    have inv: "sys_state es (io_step cfg op st) rep"
      using sys_inv_views [OF other_slots [OF True]] other_lost [OF True] Cons.prems(3,4) by (simp add: sys_state_def)
    have "reports [] (ix_flow st) (ix_flow (io_step cfg op st))"
      using io_other_reports True Cons.prems by simp
    then show ?thesis
      using Cons.IH [OF sound _ _ inv] Cons.prems(2,3,5,6) reports_trans [of "[]"] unfolding ev by fastforce
  next
    case False
    then obtain c where c: "op = Io_syscall c"
      using Cons.prems(3) by (cases op) simp_all
    have ev: "sys_events (Io_syscall c # ops) = c # sys_events ops"
      by (simp add: sys_events_Cons)
    note prems = Cons.prems [unfolded c ev]
    obtain rs where rs: "reports rs (ix_flow st) (ix_flow (io_step cfg op st))"
        "sys_state (es @ [c]) (io_step cfg op st) (rep @ rs)"
      using handle_reports [OF prems(4), of c cfg] prems(5,6) in_order_append [of "es @ [c]" "sys_events ops"]
      unfolding c by fastforce
    obtain qs where "reports qs (ix_flow (io_step cfg op st)) (ix_flow (fold (io_step cfg) ops (io_step cfg op st)))"
        "sys_state ((es @ [c]) @ sys_events ops) (fold (io_step cfg) ops (io_step cfg op st)) ((rep @ rs) @ qs)"
      using Cons.IH [OF sound _ _ rs(2)] prems(2,3,5,6) by auto
    then show ?thesis
      using reports_trans [OF rs(1)] unfolding c ev by (intro exI [of _ "rs @ qs"]) simp
  qed
qed

section \<open>The end of the capture\<close>

lemma finish_ios_slots: "same_slots st (finish_ios cfg e st)"
proof -
  have "same_slots s (fold (\<lambda>i. pending_io_finish cfg (Some i) e 0 True) is s)" for "is" s
    by (induction "is" arbitrary: s) (simp_all add: finish_slots)
  then show ?thesis
    by (simp add: finish_ios_def)
qed

definition closed_by :: "pending_call list \<Rightarrow> u64 \<Rightarrow> sys_report list \<Rightarrow> bool" where
  "closed_by calls e rs \<longleftrightarrow> distinct (map fst rs) \<and>
     (\<forall>r \<in> set rs. snd r = JBool True \<and> (\<exists>s \<in> set calls. pc_active s \<and> fst r = slot_key s)) \<and>
     (\<forall>s \<in> set calls. pc_active s \<and> \<not> se_require_socket (pc_event s) \<and> se_start_ts (pc_event s) \<le> e \<longrightarrow> slot_key s \<in> fst ` set rs)"

lemma closed_by_snoc:
  assumes "closed_by calls e rs" and "\<And>u. u \<in> set calls \<Longrightarrow> slot_key s \<noteq> slot_key u"
    and "pc_active s \<and> qs = [(slot_key s, JBool True)] \<or>
         qs = [] \<and> \<not> (pc_active s \<and> \<not> se_require_socket (pc_event s) \<and> se_start_ts (pc_event s) \<le> e)"
  shows "closed_by (calls @ [s]) e (rs @ qs)"
proof -
  have "slot_key s \<notin> fst ` set rs"
    using assms(1,2) unfolding closed_by_def by auto
  then have "(slot_key s, b) \<notin> set rs" for b
    by force
  then show ?thesis
    using assms(1,3) unfolding closed_by_def by auto
qed

definition finish_call :: "io_config \<Rightarrow> u64 \<Rightarrow> nat \<Rightarrow> io_export \<Rightarrow> io_export" where
  "finish_call cfg e i st = (if \<not> pc_active (ix_calls st ! i) then st
     else let s = ix_calls st ! i; e = (pc_event s)\<lparr>se_ts := e\<rparr> in
       on_flow (export_network_syscall cfg e (pc_flow_id s) True) (put_call i (s\<lparr>pc_event := e\<rparr>) st))"

lemma finish_call_reports:
  assumes "i < length (ix_calls st)" and "slot_view (ix_calls st ! i) = slot_view s"
  shows "same_slots st (finish_call cfg e i st) \<and>
     (\<exists>qs. reports qs (ix_flow st) (ix_flow (finish_call cfg e i st)) \<and>
        (pc_active s \<and> qs = [(slot_key s, JBool True)] \<or>
         qs = [] \<and> \<not> (pc_active s \<and> \<not> se_require_socket (pc_event s) \<and> se_start_ts (pc_event s) \<le> e)))"
proof -
  define t where "t = ix_calls st ! i"
  note v = slot_view_fields [OF assms(2) [folded t_def]]
  define e1 where "e1 = (pc_event t)\<lparr>se_ts := e\<rparr>"
  have k: "call_key e1 = slot_key s" "se_start_ts e1 = se_start_ts (pc_event s)" "se_require_socket e1 = se_require_socket (pc_event s)"
    using v by (simp_all add: e1_def slot_key_def call_key_def)
  show ?thesis
  proof (cases "pc_active t")
    case False
    then show ?thesis
      using v by (auto simp: finish_call_def t_def [symmetric] intro!: exI [of _ "[]"])
  next
    case True
    then have st: "ix_calls (finish_call cfg e i st) = (ix_calls st)[i := t\<lparr>pc_event := e1\<rparr>]"
        "ix_flow (finish_call cfg e i st) = export_network_syscall cfg e1 (pc_flow_id t) True (ix_flow st)"
      by (simp_all add: finish_call_def t_def [symmetric] Let_def e1_def)
    have same: "same_slots st (finish_call cfg e i st)"
      unfolding st(1) using assms(1) by (simp add: map_update e1_def slot_view_def t_def list_update_same_conv)
    have "call_valid e1 (ix_flow st)" if "\<not> se_require_socket (pc_event s)" "se_start_ts (pc_event s) \<le> e"
      using that k by (intro call_valid_free) (simp_all add: e1_def)
    then show ?thesis
      using same v True export_reports [of e1 "ix_flow st" True cfg "pc_flow_id t"] unfolding st(2) k(1) by (auto split: if_splits)
  qed
qed

lemma finish_calls_reports:
  assumes "distinct (map slot_thread (ix_calls st))"
  shows "\<exists>rs. reports rs (ix_flow st) (ix_flow (finish_calls cfg e st)) \<and> closed_by (ix_calls st) e rs"
proof -
  have "same_slots st (fold (finish_call cfg e) [0..<n] st) \<and>
      (\<exists>rs. reports rs (ix_flow st) (ix_flow (fold (finish_call cfg e) [0..<n] st)) \<and> closed_by (take n (ix_calls st)) e rs)"
    if "n \<le> length (ix_calls st)" for n
    using that
  proof (induction n)
    case 0
    then show ?case
      by (auto simp: closed_by_def intro!: exI [of _ "[]"])
  next
    case (Suc n)
    define stn where "stn = fold (finish_call cfg e) [0..<n] st"
    obtain rs where rs: "same_slots st stn" "reports rs (ix_flow st) (ix_flow stn)" "closed_by (take n (ix_calls st)) e rs"
      using Suc unfolding stn_def by auto
    define s where "s = ix_calls st ! n"
    have n: "n < length (ix_calls st)" "n < length (ix_calls stn)"
      using Suc.prems rs(1) map_eq_imp_length_eq by fastforce+
    have "map slot_view (ix_calls stn) ! n = map slot_view (ix_calls st) ! n"
      using rs(1) by (rule arg_cong)
    then have "slot_view (ix_calls stn ! n) = slot_view s"
      using n by (simp add: s_def)
    then obtain qs where qs: "same_slots stn (finish_call cfg e n stn)" "reports qs (ix_flow stn) (ix_flow (finish_call cfg e n stn))"
        "pc_active s \<and> qs = [(slot_key s, JBool True)] \<or>
         qs = [] \<and> \<not> (pc_active s \<and> \<not> se_require_socket (pc_event s) \<and> se_start_ts (pc_event s) \<le> e)"
      using finish_call_reports [OF n(2)] by blast
    have "slot_key s \<noteq> slot_key u" if u: "u \<in> set (take n (ix_calls st))" for u
    proof -
      obtain j where j: "j < n" "u = ix_calls st ! j"
        using u n by (auto simp: in_set_conv_nth)
      then have "slot_thread u \<noteq> slot_thread s"
        using nth_eq_iff_index_eq [OF assms, of j n] n by (simp add: s_def)
      then show ?thesis
        by (auto simp: slot_key_def slot_thread_def call_key_iff)
    qed
    then have "closed_by (take n (ix_calls st) @ [s]) e (rs @ qs)"
      using closed_by_snoc [OF rs(3) _ qs(3)] by blast
    moreover have "fold (finish_call cfg e) [0..<Suc n] st = finish_call cfg e n stn"
      by (simp add: stn_def)
    ultimately show ?case
      using reports_trans [OF rs(2) qs(2)] qs(1) rs(1) n(1) by (auto simp: s_def take_Suc_conv_app_nth)
  qed
  from this [of "length (ix_calls st)"] show ?thesis
    by (simp add: finish_calls_def finish_call_def [abs_def])
qed

lemma close_reports:
  assumes "io_sound st" and "distinct (map slot_thread (ix_calls st))"
  shows "\<exists>rs calls. reports rs (ix_flow st) (ix_flow (io_close cfg e st)) \<and> closed_by calls e rs \<and>
     map slot_view calls = map slot_view (ix_calls st)"
proof -
  define st1 where "st1 = finish_ios cfg e st"
  have 1: "reports [] (ix_flow st) (ix_flow st1)"
    using finish_ios_moves [OF assms(1), of foreign_line cfg e] io_moves_report by (simp add: st1_def)
  have v: "map slot_view (ix_calls st1) = map slot_view (ix_calls st)"
    using finish_ios_slots by (simp add: st1_def)
  have "map slot_thread (ix_calls st1) = map slot_thread (ix_calls st)"
    by (rule map_view [OF v]) (drule slot_view_fields, simp)
  then obtain rs where 2: "reports rs (ix_flow st1) (ix_flow (finish_calls cfg e st1))" "closed_by (ix_calls st1) e rs"
    using finish_calls_reports [of st1 cfg e] assms(2) by auto
  have "reports [] (ix_flow (finish_calls cfg e st1)) (ix_flow (io_close cfg e st))"
    using flow_moves_report [OF finish_flows_moves, of "ix_flow (finish_calls cfg e st1)" "ic_flow cfg" e]
    by (simp add: io_close_def st1_def)
  then show ?thesis
    using reports_trans [OF reports_trans [OF 1 2(1)]] 2(2) v by fastforce
qed

lemma io_start_inv: "sys_state [] (io_start ns) []"
  by (simp add: sys_state_def sys_inv_def io_start_def tracked_threads_def lost_starts_def)

lemma sys_run:
  assumes "list_all io_ok ops" and "list_all not_close ops" and "in_order (sys_events ops)"
    and "\<forall>c \<in> set (sys_events ops). 0 < se_start_ts c \<and> se_start_ts c \<le> se_ts c"
  shows "\<exists>rs. reports rs (ix_flow (io_start ns)) (ix_flow (io_run cfg ops (io_start ns))) \<and>
     sys_state (sys_events ops) (io_run cfg ops (io_start ns)) rs"
  using run_reports [OF io_start_sound assms(1,2), of "[]" ns "[]" cfg] io_start_inv [of ns] assms(3,4)
  unfolding io_run_def by simp

lemma close_lost: "ix_lost (io_close cfg e st) = ix_lost st"
proof -
  have "ix_lost (fold (finish_call cfg e) is s) = ix_lost s" for "is" s
    by (induction "is" arbitrary: s) (simp_all add: finish_call_def Let_def)
  then show ?thesis
    by (simp add: io_close_def finish_calls_def finish_call_def [abs_def])
qed

text \<open>What becomes of a call: its report is complete when its return was seen.\<close>

definition outcome :: "syscall_event list \<Rightarrow> syscall_event \<Rightarrow> sys_report" where
  "outcome es c = (call_key c, JBool (\<not> returned es (call_key c)))"

lemma report_outcome: "report_ok es r \<Longrightarrow> \<exists>c \<in> set es. r = outcome es c"
  by (cases r) (auto simp: report_ok_def outcome_def returned_def)

lemma closed_outcomes:
  assumes inv: "sys_inv T es calls rep" and v: "map slot_view calls' = map slot_view calls"
    and closed: "closed_by calls' e rs" and "\<forall>c \<in> set es. se_start_ts c \<le> e"
  shows "distinct (map fst (rep @ rs))" and "set (rep @ rs) \<subseteq> outcome es ` set es"
    and "\<forall>c \<in> set es. free_key es (call_key c) \<longrightarrow> call_thread c \<in> set T \<or> returned es (call_key c) \<longrightarrow>
      outcome es c \<in> set (rep @ rs)"
proof -
  have inv': "sys_inv T es calls' rep"
    using sys_inv_views [OF v inv] .
  then have slots: "slot_ok es rep s" if "s \<in> set calls'" for s
    using that by (simp add: sys_inv_def list_all_iff)
  have new: "r \<in> outcome es ` set es \<and> fst r \<notin> fst ` set rep" if r: "r \<in> set rs" for r
  proof -
    obtain s where s: "s \<in> set calls'" "pc_active s" "r = (slot_key s, JBool True)"
      using closed r unfolding closed_by_def by (metis prod.collapse)
    then obtain c where "c \<in> set es" "call_key c = slot_key s" "\<not> returned es (slot_key s)" "slot_key s \<notin> fst ` set rep"
      using slots [of s] by (auto simp: slot_ok_def)
    then show ?thesis
      using s(3) by (auto simp: outcome_def intro!: image_eqI [of _ _ c])
  qed
  have old: "r \<in> outcome es ` set es" if "r \<in> set rep" for r
    using inv that report_outcome [of es r] unfolding sys_inv_def list_all_iff by blast
  show "distinct (map fst (rep @ rs))"
  proof -
    have "fst ` set rep \<inter> fst ` set rs = {}"
      using new by force
    then show ?thesis
      using inv closed by (simp add: sys_inv_def closed_by_def)
  qed
  show sub: "set (rep @ rs) \<subseteq> outcome es ` set es"
    using new old by auto
  have key: "call_key c \<in> fst ` set (rep @ rs)"
    if c: "c \<in> set es" "free_key es (call_key c)" "call_thread c \<in> set T \<or> returned es (call_key c)" for c
  proof (cases "call_key c \<in> fst ` set rep")
    case False
    then obtain s where s: "s \<in> set calls'" "pc_active s" "slot_key s = call_key c"
      using inv' c unfolding sys_inv_def by (auto simp: list_ex_iff holds_call_def)
    then obtain a where "a \<in> set es" "call_key a = call_key c" "se_require_socket a = se_require_socket (pc_event s)"
        "se_start_ts a = se_start_ts (pc_event s)"
      using slots [OF s(1)] by (auto simp: slot_ok_def slot_key_def call_key_iff)
    then have "\<not> se_require_socket (pc_event s)" "se_start_ts (pc_event s) \<le> e"
      using c(2) assms(4) by (auto simp: free_key_def)
    then have "slot_key s \<in> fst ` set rs"
      using closed s unfolding closed_by_def by blast
    then show ?thesis
      using s(3) by (simp add: image_Un)
  qed (simp add: image_Un)
  show "\<forall>c \<in> set es. free_key es (call_key c) \<longrightarrow> call_thread c \<in> set T \<or> returned es (call_key c) \<longrightarrow>
      outcome es c \<in> set (rep @ rs)"
  proof (intro ballI impI)
    fix c
    assume "c \<in> set es" "free_key es (call_key c)" "call_thread c \<in> set T \<or> returned es (call_key c)"
    then obtain r where r: "r \<in> set (rep @ rs)" "fst r = call_key c"
      using key by (metis imageE)
    then have "r = outcome es c"
      using sub by (auto simp: outcome_def)
    then show "outcome es c \<in> set (rep @ rs)"
      using r(1) by simp
  qed
qed

text \<open>
  C21. System calls are reported exactly once.  If the events of each thread arrive in order, then after
  the end of the capture no call has two lines, whatever protocol calls, packets and events of other
  threads came between; every line is of a call that was observed and is complete exactly when its
  return was observed.  Each observed call that needs no socket has its line when its return was
  observed, or its thread is one of the first \<open>MAX_CALLS\<close> that were seen: those have a slot for good.
  The starts of further threads, for which no slot is left, are counted as lost, each once.
\<close>

theorem syscall_reported_once:
  assumes "list_all io_ok ops" and "list_all not_close ops" and "in_order (sys_events ops)"
    and "\<forall>c \<in> set (sys_events ops). 0 < se_start_ts c \<and> se_start_ts c \<le> se_ts c \<and> se_start_ts c \<le> e"
    and "fx_json (ix_flow (io_run cfg (ops @ [Io_close e]) (io_start ns))) = Some ls"
  shows "distinct (map fst (sys_reports ls)) \<and> set (sys_reports ls) \<subseteq> outcome (sys_events ops) ` set (sys_events ops) \<and>
     (\<forall>c \<in> set (sys_events ops). free_key (sys_events ops) (call_key c) \<longrightarrow>
        call_thread c \<in> set (tracked_threads (sys_events ops)) \<or> returned (sys_events ops) (call_key c) \<longrightarrow>
        outcome (sys_events ops) c \<in> set (sys_reports ls)) \<and>
     ix_lost (io_run cfg (ops @ [Io_close e]) (io_start ns)) = of_nat (lost_starts (sys_events ops))"
proof -
  define st where "st = io_run cfg ops (io_start ns)"
  obtain rep where rep: "reports rep (ix_flow (io_start ns)) (ix_flow st)"
      "sys_inv (tracked_threads (sys_events ops)) (sys_events ops) (ix_calls st) rep" "ix_lost st = of_nat (lost_starts (sys_events ops))"
    using sys_run [OF assms(1-3), of ns cfg] assms(4) unfolding st_def sys_state_def by auto
  have "io_sound st" "distinct (map slot_thread (ix_calls st))"
    using io_run_moves [OF assms(1)] rep(2) by (simp_all add: st_def sys_inv_def)
  then obtain rs calls where rs: "reports rs (ix_flow st) (ix_flow (io_close cfg e st))" "closed_by calls e rs"
      "map slot_view calls = map slot_view (ix_calls st)"
    using close_reports by blast
  have run: "io_run cfg (ops @ [Io_close e]) (io_start ns) = io_close cfg e st"
    by (simp add: io_run_def st_def)
  then have "sys_reports ls = rep @ rs"
    using reports_trans [OF rep(1) rs(1)] assms(5) by (auto simp: reports_def json_adds_def io_start_def flow_start_def)
  then show ?thesis
    using closed_outcomes [OF rep(2) rs(3,2)] assms(4) rep(3) unfolding run close_lost by simp
qed

definition sys_event :: "u64 \<Rightarrow> u64 \<Rightarrow> bool \<Rightarrow> syscall_event" where
  "sys_event start ts fin = zero_syscall_event\<lparr>se_start_ts := start, se_ts := ts, se_finished := fin, se_tid := 7, se_tgid := 7\<rparr>"

lemma sys_event_sel [simp]:
  "se_start_ts (sys_event start ts fin) = start" "se_ts (sys_event start ts fin) = ts" "se_finished (sys_event start ts fin) = fin"
  "call_thread (sys_event start ts fin) = (7, 7)" "\<not> se_require_socket (sys_event start ts fin)"
  "call_key (sys_event start ts fin) = [JNum 7, JNum 7, JNum start]"
  by (simp_all add: sys_event_def zero_syscall_event_def call_thread_def call_key_def)

definition sys_demo :: "io_op list" where
  "sys_demo = [Io_syscall (sys_event 10 10 False), Io_syscall (sys_event 10 20 True), Io_syscall (sys_event 30 30 False)]"

lemma sys_demo_events: "sys_events sys_demo = [sys_event 10 10 False, sys_event 10 20 True, sys_event 30 30 False]"
  by (simp add: sys_demo_def sys_events_def map_filter_simps)

text \<open>A call with its return, and a call that is still blocked at the end of the capture.\<close>

theorem syscall_reported_once_witness:
  "\<exists>ls. fx_json (ix_flow (call_demo (sys_demo @ [Io_close 50]))) = Some ls \<and> distinct (map fst (sys_reports ls)) \<and>
     {([JNum 7, JNum 7, JNum 10], JBool False), ([JNum 7, JNum 7, JNum 30], JBool True)} \<subseteq> set (sys_reports ls)"
proof -
  have ok: "list_all io_ok (sys_demo @ [Io_close 50])" "list_all io_ok sys_demo" "list_all not_close sys_demo"
    by (simp_all add: sys_demo_def)
  obtain ls where ls: "fx_json (ix_flow (call_demo (sys_demo @ [Io_close 50]))) = Some ls"
    using io_run_json [OF ok(1)] by (auto simp: call_demo_def)
  have ord: "in_order (sys_events sys_demo)"
    by (simp add: sys_demo_events in_order_def call_before_def)
  have ts: "\<forall>c \<in> set (sys_events sys_demo). 0 < se_start_ts c \<and> se_start_ts c \<le> se_ts c \<and> se_start_ts c \<le> 50"
    by (simp add: sys_demo_events)
  note t = syscall_reported_once [OF ok(2,3) ord ts ls [unfolded call_demo_def]]
  have tracked: "c \<in> set (sys_events sys_demo) \<Longrightarrow> call_thread c \<in> set (tracked_threads (sys_events sys_demo))" for c
    by (auto simp: tracked_threads_def sys_demo_events MAX_CALLS_def)
  have free: "free_key (sys_events sys_demo) k" for k
    by (simp add: free_key_def sys_demo_events)
  have "outcome (sys_events sys_demo) ` set (sys_events sys_demo) \<subseteq> set (sys_reports ls)"
    by (rule image_subsetI) (rule t [THEN conjunct2, THEN conjunct2, THEN conjunct1, rule_format, OF _ free disjI1], simp_all add: tracked)
  moreover have "outcome (sys_events sys_demo) ` set (sys_events sys_demo) =
      {([JNum 7, JNum 7, JNum 10], JBool False), ([JNum 7, JNum 7, JNum 30], JBool True)}"
    by (simp add: sys_demo_events outcome_def returned_def)
  ultimately show ?thesis
    by (intro exI [of _ ls] conjI) (rule ls, rule t [THEN conjunct1], simp only:)
qed

section \<open>A late return\<close>

text \<open>
  C22. A return that is read after the next start is reported twice.  When a thread's return is
  processed after the start of its next call, as happens when the two were recorded on different
  processors, the call is written first as incomplete, with the start of the next call as its end,
  and then again as complete: two lines of one identifier that contradict each other.
\<close>

theorem late_return_reported_twice:
  assumes "call_slot b st = Some i" and "pc_active (ix_calls st ! i)" and "call_key (pc_event (ix_calls st ! i)) = call_key c"
    and "\<not> se_finished b" and "se_finished c" and "call_thread b = call_thread c" and "se_start_ts c < se_start_ts b"
    and "pc_completed_ts (ix_calls st ! i) < se_start_ts b" and "se_start_ts c \<le> se_ts c" and "se_start_ts b \<le> se_ts b"
    and "\<not> se_require_socket (pc_event (ix_calls st ! i))" and "\<not> se_require_socket c"
  shows "reports [(call_key c, JBool True), (call_key c, JBool False)] (ix_flow st)
     (ix_flow (handle_network_syscall cfg c (handle_network_syscall cfg b st)))"
proof -
  define st1 where "st1 = handle_network_syscall cfg b st"
  note i = call_slot_Some [OF assms(1)]
  have k: "se_start_ts (pc_event (ix_calls st ! i)) = se_start_ts c" "slot_key (ix_calls st ! i) = call_key c"
    using assms(3) by (simp_all add: call_key_iff slot_key_def)
  have h1: "st1 = slot_syscall cfg b i st"
    using assms(1) by (simp add: st1_def handle_network_syscall_def)
  then have 1: "reports [(call_key c, JBool True)] (ix_flow st) (ix_flow st1)"
      "ix_calls st1 = (ix_calls st)[i := slot_next b (ix_calls st ! i)]"
    using slot_syscall_reports [OF assms(10), of cfg i st] assms(2,4,7,8,11) k by (auto simp: slot_report_def)
  have n: "slot_thread (slot_next b (ix_calls st ! i)) = call_thread b"
    using i slot_next_thread by blast
  have "call_slot c st1 = call_slot b st"
  proof -
    have "map slot_thread (ix_calls st1) = map slot_thread (ix_calls st)"
      using i n by (simp add: 1(2) map_update list_update_same_conv)
    moreover have "call_slot c s = find_loop (\<lambda>th. th = call_thread c) 0 (map slot_thread (ix_calls s))" for s c
    proof -
      have fl: "find_loop p j (map f xs) = find_loop (\<lambda>x. p (f x)) j xs" for p f j and xs :: "pending_call list"
        by (induction xs arbitrary: j) simp_all
      then show ?thesis
        unfolding call_slot_def fl by (simp add: slot_thread_def call_thread_def)
    qed
    ultimately show ?thesis
      using assms(6) by simp
  qed
  then have h2: "handle_network_syscall cfg c st1 = slot_syscall cfg c i st1"
    using assms(1) by (simp add: handle_network_syscall_def)
  have "reports [(call_key c, JBool False)] (ix_flow st1) (ix_flow (handle_network_syscall cfg c st1))"
    using slot_syscall_reports [OF assms(9), of cfg i st1] assms(5,12) unfolding h2 by (auto simp: slot_report_def)
  then show ?thesis
    using reports_trans [OF 1(1)] unfolding st1_def by fastforce
qed

lemma first_slot:
  assumes "0 < se_start_ts c" and "se_start_ts c \<le> se_ts c" and "\<not> se_finished c"
  shows "ix_calls (handle_network_syscall cfg c (io_start ns)) =
     [\<lparr>pc_event = c, pc_flow_id = 0, pc_completed_ts = 0, pc_active = True\<rparr>]"
proof -
  define st where "st = (io_start ns)\<lparr>ix_calls := [\<lparr>pc_event = c, pc_flow_id = 0, pc_completed_ts = 0, pc_active = False\<rparr>]\<rparr>"
  have "handle_network_syscall cfg c (io_start ns) = slot_syscall cfg c 0 st"
    by (simp add: handle_network_syscall_def call_slot_def io_start_def MAX_CALLS_def st_def)
  then show ?thesis
    using slot_syscall_reports [OF assms(2), of cfg 0 st] assms(1,3) by (simp add: st_def slot_next_def)
qed

definition late_call_start :: io_export where
  "late_call_start = handle_network_syscall call_config (sys_event 10 10 False) (io_start (native_ring_start 0 0))"

theorem late_return_reported_twice_witness:
  "reports [([JNum 7, JNum 7, JNum 10], JBool True), ([JNum 7, JNum 7, JNum 10], JBool False)] (ix_flow late_call_start)
     (ix_flow (handle_network_syscall call_config (sys_event 10 20 True)
        (handle_network_syscall call_config (sys_event 30 30 False) late_call_start)))"
proof -
  have c: "ix_calls late_call_start = [\<lparr>pc_event = sys_event 10 10 False, pc_flow_id = 0, pc_completed_ts = 0, pc_active = True\<rparr>]"
    unfolding late_call_start_def by (rule first_slot) simp_all
  have s: "call_slot (sys_event 30 30 False) late_call_start = Some 0"
    by (simp add: call_slot_def c sys_event_def)
  show ?thesis
    using late_return_reported_twice [OF s, of "sys_event 10 20 True" call_config] by (simp add: c)
qed

end
