(* ===== verification/FdIO.thy ===== *)
theory FdIO
  imports Wire
begin

text \<open>
  File-descriptor loops of \<^verbatim>\<open>src/src/perfetto_trim.c\<close> (and the identical \<open>write_all\<close> of
  \<^verbatim>\<open>src/src/perfetto_config.c\<close>): exact reads and writes over system calls that transfer fewer
  bytes than asked, are interrupted, or fail.

  What the kernel does is part of the descriptor's state: a schedule with one entry per system
  call.  When the schedule is used up, calls transfer as much as possible.
\<close>

section \<open>Descriptors\<close>

datatype read_step = RXfer nat | RIntr | RFail errno

datatype write_step = WXfer nat | WIntr | WFail errno | WZero "errno option"

record in_fd =
  in_bytes :: bytes
  in_sched :: "read_step list"

record out_fd =
  out_bytes :: bytes
  out_sched :: "write_step list"

text \<open>
  \<open>read\<close>: \<open>RXfer k\<close> transfers at most \<open>k + 1\<close> bytes; no bytes are transferred only at the end
  of the file.  \<open>Inl e\<close> is the return value \<open>-1\<close> with \<open>errno = e\<close>.
\<close>

fun sys_read :: "in_fd \<Rightarrow> nat \<Rightarrow> (bytes result) \<times> in_fd" where
  "sys_read fd n =
     (case in_sched fd of
        [] \<Rightarrow> (Inr (take n (in_bytes fd)), fd\<lparr>in_bytes := drop n (in_bytes fd)\<rparr>)
      | RXfer k # sched \<Rightarrow>
          (Inr (take (min n (Suc k)) (in_bytes fd)),
           fd\<lparr>in_bytes := drop (min n (Suc k)) (in_bytes fd), in_sched := sched\<rparr>)
      | RIntr # sched \<Rightarrow> (Inl EINTR, fd\<lparr>in_sched := sched\<rparr>)
      | RFail e # sched \<Rightarrow> (Inl e, fd\<lparr>in_sched := sched\<rparr>))"

text \<open>
  \<open>write\<close>: the number of bytes accepted.  \<open>WZero e\<close> is a call that accepts nothing while
  \<open>errno\<close> still holds \<open>e\<close> (or 0, for \<open>None\<close>) from before; that value is the third component.
\<close>

fun sys_write :: "out_fd \<Rightarrow> bytes \<Rightarrow> (nat result) \<times> errno option \<times> out_fd" where
  "sys_write fd data =
     (case out_sched fd of
        [] \<Rightarrow> (Inr (length data), None, fd\<lparr>out_bytes := out_bytes fd @ data\<rparr>)
      | WXfer k # sched \<Rightarrow>
          (Inr (min (length data) (Suc k)), None,
           fd\<lparr>out_bytes := out_bytes fd @ take (Suc k) data, out_sched := sched\<rparr>)
      | WIntr # sched \<Rightarrow> (Inl EINTR, Some EINTR, fd\<lparr>out_sched := sched\<rparr>)
      | WFail e # sched \<Rightarrow> (Inl e, Some e, fd\<lparr>out_sched := sched\<rparr>)
      | WZero e # sched \<Rightarrow> (Inr 0, e, fd\<lparr>out_sched := sched\<rparr>))"

section \<open>Exact transfers\<close>

function read_exact :: "in_fd \<Rightarrow> nat \<Rightarrow> bytes \<Rightarrow> (bytes result) \<times> in_fd" where
  "read_exact fd n acc =
     (if n = 0 then (Inr acc, fd)
      else case sys_read fd n of
          (Inr got, fd') \<Rightarrow>
            if got \<noteq> [] then read_exact fd' (n - length got) (acc @ got)
            else (Inl EBADMSG, fd')
        | (Inl e, fd') \<Rightarrow> if e \<noteq> EINTR then (Inl e, fd') else read_exact fd' n acc)"
  by pat_completeness auto
termination
  by (relation "measure (\<lambda>(fd, n, acc). length (in_sched fd) + n)")
    (auto split: list.splits read_step.splits)

function write_exact :: "out_fd \<Rightarrow> bytes \<Rightarrow> errno option \<times> out_fd" where
  "write_exact fd data =
     (if length data = 0 then (None, fd)
      else case sys_write fd data of
          (r, errno, fd') \<Rightarrow>
            (case r of
               Inr n \<Rightarrow>
                 if n > 0 then write_exact fd' (drop n data)
                 else (Some (case errno of Some e \<Rightarrow> e | None \<Rightarrow> EIO), fd')
             | Inl e \<Rightarrow>
                 if e = EINTR then write_exact fd' data
                 else (Some (case errno of Some e \<Rightarrow> e | None \<Rightarrow> EIO), fd')))"
  by pat_completeness auto
termination
  by (relation "measure (\<lambda>(fd, data). length (out_sched fd) + length data)")
    (auto split: list.splits write_step.splits)

declare read_exact.simps [simp del] write_exact.simps [simp del]
declare sys_read.simps [simp del] sys_write.simps [simp del]

text \<open>
  The inner \<open>do \<dots> while (count < 0 && errno == EINTR)\<close> of \<open>read_varint_fd\<close>: one byte, retried
  while interrupted.  \<open>None\<close> is the end of the file.
\<close>

function read_byte :: "in_fd \<Rightarrow> (u8 option result) \<times> in_fd" where
  "read_byte fd =
     (case sys_read fd 1 of
        (Inr [], fd') \<Rightarrow> (Inr None, fd')
      | (Inr (b # _), fd') \<Rightarrow> (Inr (Some b), fd')
      | (Inl e, fd') \<Rightarrow> if e = EINTR then read_byte fd' else (Inl e, fd'))"
  by pat_completeness auto
termination
  by (relation "measure (\<lambda>fd. length (in_sched fd))")
    (auto simp: sys_read.simps split: list.splits read_step.splits)

declare read_byte.simps [simp del]

text \<open>
  \<open>read_varint_fd\<close>: \<open>Inr None\<close> is a return of 0 with \<open>*eof\<close> set.  The loop runs at most ten
  times, for \<open>shift\<close> 0, 7, \dots, 63.
\<close>

function read_varint_loop :: "nat \<Rightarrow> u64 \<Rightarrow> in_fd \<Rightarrow> (u64 option result) \<times> in_fd" where
  "read_varint_loop shift result fd =
     (if \<not> shift < 64 then (Inl EBADMSG, fd)
      else case read_byte fd of
          (Inr None, fd') \<Rightarrow>
            if shift = 0 then (Inr None, fd') else (Inl EBADMSG, fd')
        | (Inl e, fd') \<Rightarrow> (Inl e, fd')
        | (Inr (Some byte), fd') \<Rightarrow>
            if shift = 63 \<and> byte > 1 then (Inl EBADMSG, fd')
            else let result' = result OR push_bit shift (ucast (byte AND 0x7f)) in
              if byte AND 0x80 = 0 then (Inr (Some result'), fd')
              else read_varint_loop (shift + 7) result' fd')"
  by pat_completeness auto
termination
  by (relation "measure (\<lambda>(shift, result, fd). 64 - shift)") auto

declare read_varint_loop.simps [simp del]

definition read_varint_fd :: "in_fd \<Rightarrow> (u64 option result) \<times> in_fd" where
  "read_varint_fd fd = read_varint_loop 0 0 fd"

definition write_varint_fd :: "out_fd \<Rightarrow> u64 \<Rightarrow> errno option \<times> out_fd" where
  "write_varint_fd fd v = write_exact fd (encode_varint v)"

section \<open>Short and interrupted calls are invisible\<close>

definition benign_in :: "in_fd \<Rightarrow> bool" where
  "benign_in fd \<longleftrightarrow> (\<forall>s \<in> set (in_sched fd). \<forall>e. s \<noteq> RFail e)"

definition benign_out :: "out_fd \<Rightarrow> bool" where
  "benign_out fd \<longleftrightarrow> (\<forall>s \<in> set (out_sched fd). s = WIntr \<or> (\<exists>k. s = WXfer k))"

lemma sys_read_cases:
  assumes "sys_read fd n = (r, fd')"
  shows "length (in_sched fd') \<le> length (in_sched fd)
    \<and> (benign_in fd \<longrightarrow> benign_in fd')
    \<and> (case r of Inr got \<Rightarrow> in_bytes fd = got @ in_bytes fd' \<and> length got \<le> n
              \<and> (got = [] \<longrightarrow> n = 0 \<or> in_bytes fd = [])
       | Inl e \<Rightarrow> in_bytes fd' = in_bytes fd \<and> length (in_sched fd') < length (in_sched fd)
              \<and> (benign_in fd \<longrightarrow> e = EINTR))"
  using assms
  by (auto simp: sys_read.simps benign_in_def split: list.splits read_step.splits)

lemma read_exact_benign:
  assumes "benign_in fd"
  obtains fd' where "benign_in fd'"
    and "n \<le> length (in_bytes fd) \<Longrightarrow>
      read_exact fd n acc = (Inr (acc @ take n (in_bytes fd)), fd') \<and> in_bytes fd' = drop n (in_bytes fd)"
    and "length (in_bytes fd) < n \<Longrightarrow> read_exact fd n acc = (Inl EBADMSG, fd')"
proof -
  have "\<exists>fd'. benign_in fd' \<and>
     (n \<le> length (in_bytes fd) \<longrightarrow>
      read_exact fd n acc = (Inr (acc @ take n (in_bytes fd)), fd') \<and> in_bytes fd' = drop n (in_bytes fd)) \<and>
     (length (in_bytes fd) < n \<longrightarrow> read_exact fd n acc = (Inl EBADMSG, fd'))"
    using assms
  proof (induction fd n acc rule: read_exact.induct)
    case (1 fd n acc)
    obtain r fd' where rd: "sys_read fd n = (r, fd')" by force
    note facts = sys_read_cases [OF rd]
    show ?case
    proof (cases "n = 0")
      case True
      with "1.prems" show ?thesis by (auto simp: read_exact.simps [of fd])
    next
      case n: False
      show ?thesis
      proof (cases r)
        case (Inl e)
        with facts "1.prems" have e: "e = EINTR" "benign_in fd'" "in_bytes fd' = in_bytes fd" by auto
        have "read_exact fd n acc = read_exact fd' n acc"
          using rd Inl e n by (simp add: read_exact.simps [of fd])
        with "1.IH"(1) [OF n rd [symmetric] Inl] e show ?thesis by simp
      next
        case (Inr got)
        with facts "1.prems" have g: "benign_in fd'" "in_bytes fd = got @ in_bytes fd'" "length got \<le> n"
          "got = [] \<Longrightarrow> in_bytes fd = []" using n by auto
        show ?thesis
        proof (cases "got = []")
          case True
          with g n rd Inr show ?thesis by (auto simp: read_exact.simps [of fd])
        next
          case False
          have "read_exact fd n acc = read_exact fd' (n - length got) (acc @ got)"
            using rd Inr False n by (simp add: read_exact.simps [of fd])
          with "1.IH"(2) [OF n rd [symmetric] Inr] g False show ?thesis by auto
        qed
      qed
    qed
  qed
  then show ?thesis using that by auto
qed

lemma read_byte_benign:
  assumes "benign_in fd"
  obtains fd' where "benign_in fd'"
    and "in_bytes fd = [] \<Longrightarrow> read_byte fd = (Inr None, fd') \<and> in_bytes fd' = []"
    and "\<And>b bs. in_bytes fd = b # bs \<Longrightarrow> read_byte fd = (Inr (Some b), fd') \<and> in_bytes fd' = bs"
proof -
  have "\<exists>fd'. benign_in fd' \<and> (in_bytes fd = [] \<longrightarrow> read_byte fd = (Inr None, fd') \<and> in_bytes fd' = []) \<and>
      (\<forall>b bs. in_bytes fd = b # bs \<longrightarrow> read_byte fd = (Inr (Some b), fd') \<and> in_bytes fd' = bs)"
    using assms
  proof (induction fd rule: read_byte.induct)
    case (1 fd)
    obtain r fd' where rd: "sys_read fd 1 = (r, fd')" by force
    note facts = sys_read_cases [OF rd]
    show ?case
    proof (cases r)
      case (Inl e)
      with facts "1.prems" have e: "e = EINTR" "benign_in fd'" "in_bytes fd' = in_bytes fd" by auto
      have "read_byte fd = read_byte fd'" using rd Inl e by (simp add: read_byte.simps [of fd])
      with "1.IH" [OF rd [symmetric] Inl] e show ?thesis by simp
    next
      case (Inr got)
      with facts "1.prems" rd show ?thesis
        by (cases got) (auto simp: read_byte.simps [of fd])
    qed
  qed
  then show ?thesis using that by metis
qed

lemma read_varint_loop_benign:
  assumes "benign_in fd"
  shows "\<exists>fd'. benign_in fd' \<and>
    (in_bytes fd = [] \<longrightarrow> s = 0 \<longrightarrow> read_varint_loop s r fd = (Inr None, fd') \<and> in_bytes fd' = []) \<and>
    (in_bytes fd \<noteq> [] \<or> s \<noteq> 0 \<longrightarrow>
      (case decode_varint_loop s r (in_bytes fd) of
         Inl e \<Rightarrow> read_varint_loop s r fd = (Inl e, fd')
       | Inr (v, rest) \<Rightarrow> read_varint_loop s r fd = (Inr (Some v), fd') \<and> in_bytes fd' = rest))"
  using assms
proof (induction s r fd rule: read_varint_loop.induct)
  case (1 s r fd)
  obtain fd' where b: "benign_in fd'" "in_bytes fd = [] \<Longrightarrow> read_byte fd = (Inr None, fd') \<and> in_bytes fd' = []"
    "\<And>b bs. in_bytes fd = b # bs \<Longrightarrow> read_byte fd = (Inr (Some b), fd') \<and> in_bytes fd' = bs"
    using read_byte_benign [OF "1.prems"] by metis
  show ?case
  proof (cases "in_bytes fd")
    case Nil
    with b(1,2) have rb: "read_byte fd = (Inr None, fd')" "in_bytes fd' = []" by auto
    show ?thesis
      using Nil rb b(1) "1.prems"
      by (cases "s < 64"; cases "s = 0") (auto simp: read_varint_loop.simps [of _ r fd])
  next
    case (Cons x xs)
    with b have rb: "read_byte fd = (Inr (Some x), fd')" "in_bytes fd' = xs" by auto
    show ?thesis
    proof (cases "s < 64 \<and> \<not> (s = 63 \<and> x > 1) \<and> x AND 0x80 \<noteq> 0")
      case True
      let ?r = "r OR push_bit s (ucast (x AND 0x7f))"
      have "read_varint_loop s r fd = read_varint_loop (s + 7) ?r fd'"
        using True rb by (auto simp: read_varint_loop.simps [of _ r fd] Let_def)
      moreover have "decode_varint_loop s r (in_bytes fd) = decode_varint_loop (s + 7) ?r (in_bytes fd')"
        using True Cons rb by (auto simp: Let_def)
      ultimately show ?thesis
        using "1.IH" [OF _ rb(1) [symmetric] refl refl _ refl] True rb b(1) Cons
        by (auto simp del: decode_varint_loop.simps split: sum.splits)
    next
      case False
      then show ?thesis
        using rb b(1) Cons "1.prems" by (auto simp: read_varint_loop.simps [of _ r fd] Let_def)
    qed
  qed
qed

lemma read_varint_fd_benign:
  assumes "benign_in fd"
  obtains fd' where "benign_in fd'"
    and "in_bytes fd = [] \<Longrightarrow> read_varint_fd fd = (Inr None, fd') \<and> in_bytes fd' = []"
    and "\<And>v rest. decode_varint (in_bytes fd) = Inr (v, rest) \<Longrightarrow>
       read_varint_fd fd = (Inr (Some v), fd') \<and> in_bytes fd' = rest"
    and "\<And>e. in_bytes fd \<noteq> [] \<Longrightarrow> decode_varint (in_bytes fd) = Inl e \<Longrightarrow>
       read_varint_fd fd = (Inl e, fd')"
proof -
  from read_varint_loop_benign [OF assms, of 0 0] obtain fd' where f: "benign_in fd'"
    "in_bytes fd = [] \<longrightarrow> read_varint_loop 0 0 fd = (Inr None, fd') \<and> in_bytes fd' = []"
    "in_bytes fd \<noteq> [] \<longrightarrow>
      (case decode_varint_loop 0 0 (in_bytes fd) of
         Inl e \<Rightarrow> read_varint_loop 0 0 fd = (Inl e, fd')
       | Inr (v, rest) \<Rightarrow> read_varint_loop 0 0 fd = (Inr (Some v), fd') \<and> in_bytes fd' = rest)" by auto
  show ?thesis
    using f by (intro that [of fd']) (auto simp: read_varint_fd_def decode_varint_def)
qed

lemma write_exact_spec:
  "write_exact fd data = (r, fd') \<Longrightarrow>
     \<exists>k. out_bytes fd' = out_bytes fd @ take k data \<and> (r = None \<longrightarrow> out_bytes fd' = out_bytes fd @ data)
       \<and> (benign_out fd \<longrightarrow> r = None \<and> benign_out fd')"
proof (induction fd data arbitrary: r fd' rule: write_exact.induct)
  case (1 fd data)
  show ?case
  proof (cases "out_sched fd")
    case Nil
    with "1.prems" show ?thesis
      by (auto simp: write_exact.simps [of fd] sys_write.simps benign_out_def
          write_exact.simps [of _ "[]"] split: if_splits intro!: exI [of _ "length data"])
  next
    case (Cons st sched)
    show ?thesis
    proof (cases "data = []")
      case True
      with "1.prems" show ?thesis by (auto simp: write_exact.simps [of fd])
    next
      case d: False
      show ?thesis
      proof (cases st)
        case (WXfer k)
        let ?fd = "fd\<lparr>out_bytes := out_bytes fd @ take (Suc k) data, out_sched := sched\<rparr>"
        have sw: "sys_write fd data = (Inr (min (length data) (Suc k)), None, ?fd)"
          using Cons WXfer by (simp add: sys_write.simps)
        have "write_exact fd data = write_exact ?fd (drop (min (length data) (Suc k)) data)"
          using sw d by (subst write_exact.simps) simp
        moreover have "drop (min (length data) (Suc k)) data = drop (Suc k) data" by (simp add: min_def)
        ultimately have "\<exists>j. out_bytes fd' = out_bytes ?fd @ take j (drop (Suc k) data) \<and>
            (r = None \<longrightarrow> out_bytes fd' = out_bytes ?fd @ drop (Suc k) data) \<and>
            (benign_out ?fd \<longrightarrow> r = None \<and> benign_out fd')"
          using "1.IH"(2) [OF _ sw [symmetric] refl refl, of r fd'] d "1.prems" by simp
        then obtain j where "out_bytes fd' = out_bytes fd @ take (Suc k) data @ take j (drop (Suc k) data)"
            "r = None \<longrightarrow> out_bytes fd' = out_bytes fd @ take (Suc k) data @ drop (Suc k) data"
            "benign_out ?fd \<longrightarrow> r = None \<and> benign_out fd'"
          by (elim exE conjE) simp
        moreover have "take (Suc k) data @ take j (drop (Suc k) data) = take (Suc k + j) data"
          by (rule take_add [symmetric])
        ultimately show ?thesis
          using Cons WXfer by (intro exI [of _ "Suc k + j"]) (auto simp: benign_out_def)
      next
        case WIntr
        let ?fd = "fd\<lparr>out_sched := sched\<rparr>"
        have sw: "sys_write fd data = (Inl EINTR, Some EINTR, ?fd)"
          using Cons WIntr by (simp add: sys_write.simps)
        have "write_exact fd data = write_exact ?fd data" using sw d by (subst write_exact.simps) simp
        with "1.IH"(1) [OF _ sw [symmetric] refl refl refl, of r fd'] d "1.prems" Cons WIntr
        show ?thesis by (auto simp: benign_out_def)
      next
        case (WFail e)
        show ?thesis
        proof (cases "e = EINTR")
          case True
          let ?fd = "fd\<lparr>out_sched := sched\<rparr>"
          have sw: "sys_write fd data = (Inl EINTR, Some EINTR, ?fd)"
            using Cons WFail True by (simp add: sys_write.simps)
          have "write_exact fd data = write_exact ?fd data" using sw d by (subst write_exact.simps) simp
          with "1.IH"(1) [OF _ sw [symmetric] refl refl refl, of r fd'] d "1.prems" Cons WFail
          show ?thesis by (auto simp: benign_out_def)
        next
          case False
          with "1.prems" Cons WFail d show ?thesis
            by (auto simp: write_exact.simps [of fd] sys_write.simps benign_out_def intro!: exI [of _ 0])
        qed
      next
        case (WZero e)
        with "1.prems" Cons d show ?thesis
          by (auto simp: write_exact.simps [of fd] sys_write.simps benign_out_def intro!: exI [of _ 0])
      qed
    qed
  qed
qed

end
