(* ===== verification/PerfettoTrim.thy ===== *)
theory PerfettoTrim
  imports FdIO
begin

text \<open>
  The trace trimmer of \<^verbatim>\<open>src/src/perfetto_trim.c\<close>: it reads a Perfetto trace packet by packet
  and drops what lies before a cut-off time.  Packets that carry a timestamp are kept or dropped
  as a whole; packets with an ftrace bundle are kept with the old events removed from the bundle.
\<close>

definition PERFETTO_CLOCK_BOOTTIME :: u64 where "PERFETTO_CLOCK_BOOTTIME = 6"
definition PERFETTO_CLOCK_MONOTONIC :: u64 where "PERFETTO_CLOCK_MONOTONIC = 3"

section \<open>Reading messages\<close>

text \<open>\<open>message_varint\<close>: the last varint field of the number asked for; \<open>v\<close> is \<open>*value\<close>.\<close>

function message_varint_loop :: "u32 \<Rightarrow> bytes \<Rightarrow> u64 \<Rightarrow> bool \<Rightarrow> (u64 \<times> bool) result" where
  "message_varint_loop num cursor v present =
     (if cursor = [] then Inr (v, present)
      else case next_field cursor of
          Inl e \<Rightarrow> Inl e
        | Inr (field, cursor') \<Rightarrow>
            if number field = num \<and> wire field = 0
            then message_varint_loop num cursor' (val field) True
            else message_varint_loop num cursor' v present)"
  by pat_completeness auto
termination
  by (relation "measure (\<lambda>(num, cursor, v, present). length cursor)")
    (auto dest: next_field_shorter)

definition message_varint :: "wire_field \<Rightarrow> u32 \<Rightarrow> u64 \<Rightarrow> (u64 \<times> bool) result" where
  "message_varint message num v = message_varint_loop num (payload message) v False"

text \<open>\<open>event_timestamp\<close>: field 1 of an ftrace event, read by the same loop.\<close>

function event_timestamp_loop :: "bytes \<Rightarrow> u64 \<Rightarrow> bool \<Rightarrow> (u64 \<times> bool) result" where
  "event_timestamp_loop cursor timestamp present =
     (if cursor = [] then Inr (timestamp, present)
      else case next_field cursor of
          Inl e \<Rightarrow> Inl e
        | Inr (field, cursor') \<Rightarrow>
            if number field = 1 \<and> wire field = 0
            then event_timestamp_loop cursor' (val field) True
            else event_timestamp_loop cursor' timestamp present)"
  by pat_completeness auto
termination
  by (relation "measure (\<lambda>(cursor, timestamp, present). length cursor)")
    (auto dest: next_field_shorter)

definition event_timestamp :: "wire_field \<Rightarrow> u64 \<Rightarrow> (u64 \<times> bool) result" where
  "event_timestamp event timestamp = event_timestamp_loop (payload event) timestamp False"

section \<open>Default clocks of packet sequences\<close>

text \<open>
  The linked list \<open>clock_defaults\<close> of \<open>struct trim_state\<close>, first entry first.  A new entry takes
  24 bytes (\<open>sizeof (struct clock_default)\<close>).
\<close>

record trim_state =
  clock_defaults :: "(u64 \<times> u64) list"

fun clock_default_get :: "(u64 \<times> u64) list \<Rightarrow> u64 \<Rightarrow> u64 option" where
  "clock_default_get [] sequence_id = None"
| "clock_default_get ((s, c) # entries) sequence_id =
     (if s \<noteq> sequence_id then clock_default_get entries sequence_id else Some c)"

fun clock_default_replace :: "(u64 \<times> u64) list \<Rightarrow> u64 \<Rightarrow> u64 \<Rightarrow> (u64 \<times> u64) list option" where
  "clock_default_replace [] sequence_id clock_id = None"
| "clock_default_replace ((s, c) # entries) sequence_id clock_id =
     (if s = sequence_id then Some ((s, clock_id) # entries)
      else map_option ((#) (s, c)) (clock_default_replace entries sequence_id clock_id))"

definition clock_default_set :: "allocator \<Rightarrow> trim_state \<Rightarrow> u64 \<Rightarrow> u64 \<Rightarrow> trim_state result" where
  "clock_default_set mem state sequence_id clock_id =
     (case clock_default_replace (clock_defaults state) sequence_id clock_id of
        Some entries \<Rightarrow> Inr (state\<lparr>clock_defaults := entries\<rparr>)
      | None \<Rightarrow>
          if \<not> mem 24 then Inl ENOMEM
          else Inr (state\<lparr>clock_defaults := (sequence_id, clock_id) # clock_defaults state\<rparr>))"

section \<open>Trimming one packet\<close>

function trim_ftrace_loop :: "allocator \<Rightarrow> bytes \<Rightarrow> u64 \<Rightarrow> byte_buffer \<Rightarrow> byte_buffer result" where
  "trim_ftrace_loop mem cursor cutoff_ns trimmed =
     (if cursor = [] then Inr trimmed
      else case next_field cursor of
          Inl e \<Rightarrow> Inl e
        | Inr (field, cursor') \<Rightarrow>
            if number field = 4 then Inl ENOTSUP
            else if number field \<noteq> 2 \<or> wire field \<noteq> 2 then
              (case buffer_field mem trimmed field of
                 Inl e \<Rightarrow> Inl e
               | Inr trimmed' \<Rightarrow> trim_ftrace_loop mem cursor' cutoff_ns trimmed')
            else case event_timestamp field 0 of
                Inl e \<Rightarrow> Inl e
              | Inr (timestamp, present) \<Rightarrow>
                  if \<not> present \<or> timestamp \<ge> cutoff_ns then
                    (case buffer_field mem trimmed field of
                       Inl e \<Rightarrow> Inl e
                     | Inr trimmed' \<Rightarrow> trim_ftrace_loop mem cursor' cutoff_ns trimmed')
                  else trim_ftrace_loop mem cursor' cutoff_ns trimmed)"
  by pat_completeness auto
termination
  by (relation "measure (\<lambda>(mem, cursor, cutoff_ns, trimmed). length cursor)")
    (auto dest: next_field_shorter)

definition trim_ftrace_bundle :: "allocator \<Rightarrow> wire_field \<Rightarrow> u64 \<Rightarrow> byte_buffer \<Rightarrow> byte_buffer result" where
  "trim_ftrace_bundle mem bundle cutoff_ns trimmed =
     trim_ftrace_loop mem (payload bundle) cutoff_ns trimmed"

text \<open>The output parameters of \<open>packet_metadata\<close>.\<close>

record packet_meta =
  timestamp :: u64
  clock_id :: u64
  sequence_id :: u64
  default_clock_id :: u64
  has_timestamp :: bool
  has_ftrace :: bool
  has_sequence :: bool
  has_default_clock :: bool

definition packet_meta_init :: packet_meta where
  "packet_meta_init =
     \<lparr>timestamp = 0, clock_id = 0, sequence_id = 0, default_clock_id = 0,
      has_timestamp = False, has_ftrace = False, has_sequence = False, has_default_clock = False\<rparr>"

function packet_metadata :: "bytes \<Rightarrow> packet_meta \<Rightarrow> packet_meta result" where
  "packet_metadata cursor m =
     (if cursor = [] then Inr m
      else case next_field cursor of
          Inl e \<Rightarrow> Inl e
        | Inr (field, cursor') \<Rightarrow>
            if number field = 8 \<and> wire field = 0 then
              packet_metadata cursor' (m\<lparr>timestamp := val field, has_timestamp := True\<rparr>)
            else if number field = 58 \<and> wire field = 0 then
              packet_metadata cursor' (m\<lparr>clock_id := val field\<rparr>)
            else if number field = 10 \<and> wire field = 0 then
              packet_metadata cursor' (m\<lparr>sequence_id := val field, has_sequence := True\<rparr>)
            else if number field = 1 \<and> wire field = 2 then
              packet_metadata cursor' (m\<lparr>has_ftrace := True\<rparr>)
            else if number field = 59 \<and> wire field = 2 then
              (case message_varint field 58 (default_clock_id m) of
                 Inl e \<Rightarrow> Inl e
               | Inr (v, present) \<Rightarrow>
                   packet_metadata cursor' (m\<lparr>default_clock_id := v, has_default_clock := present\<rparr>))
            else if number field = 50 \<or> number field = 133 then Inl EPROTONOSUPPORT
            else packet_metadata cursor' m)"
  by pat_completeness auto
termination
  by (relation "measure (\<lambda>(cursor, m). length cursor)") (auto dest: next_field_shorter)

text \<open>
  The second pass of \<open>trim_packet\<close> copies every field, rebuilding ftrace bundles;
  \<open>copy_field\<close> is the body of its loop.
\<close>

definition copy_field :: "allocator \<Rightarrow> wire_field \<Rightarrow> u64 \<Rightarrow> byte_buffer \<Rightarrow> byte_buffer result" where
  "copy_field mem field boottime_cutoff_ns trimmed =
     (if number field = 1 \<and> wire field = 2 then
        (case trim_ftrace_bundle mem field boottime_cutoff_ns empty_buffer of
           Inl e \<Rightarrow> Inl e
         | Inr bundle \<Rightarrow>
             (case buffer_varint mem trimmed (key field) of
                Inl e \<Rightarrow> Inl e
              | Inr trimmed1 \<Rightarrow>
                  (case buffer_varint mem trimmed1 (of_nat (length (buf_data bundle))) of
                     Inl e \<Rightarrow> Inl e
                   | Inr trimmed2 \<Rightarrow> buffer_append mem trimmed2 (buf_data bundle))))
      else buffer_field mem trimmed field)"

function copy_packet_loop :: "allocator \<Rightarrow> bytes \<Rightarrow> u64 \<Rightarrow> byte_buffer \<Rightarrow> byte_buffer result" where
  "copy_packet_loop mem cursor boottime_cutoff_ns trimmed =
     (if cursor = [] then Inr trimmed
      else case next_field cursor of
          Inl e \<Rightarrow> Inl e
        | Inr (field, cursor') \<Rightarrow>
            (case copy_field mem field boottime_cutoff_ns trimmed of
               Inl e \<Rightarrow> Inl e
             | Inr trimmed' \<Rightarrow> copy_packet_loop mem cursor' boottime_cutoff_ns trimmed'))"
  by pat_completeness auto
termination
  by (relation "measure (\<lambda>(mem, cursor, cutoff, trimmed). length cursor)")
    (auto dest: next_field_shorter)

text \<open>
  \<open>trim_packet\<close>: \<open>Inr (state, None)\<close> is a return of 0 with \<open>*keep\<close> false,
  \<open>Inr (state, Some trimmed)\<close> one with \<open>*keep\<close> true.
\<close>

definition packet_before_cutoff :: "packet_meta \<Rightarrow> u64 \<Rightarrow> u64 \<Rightarrow> u64 \<Rightarrow> bool" where
  "packet_before_cutoff m clock boottime_cutoff_ns monotonic_cutoff_ns \<longleftrightarrow>
     \<not> has_ftrace m \<and> has_timestamp m \<and>
     ((clock = 0 \<or> clock = PERFETTO_CLOCK_BOOTTIME) \<and> timestamp m < boottime_cutoff_ns \<or>
      clock = PERFETTO_CLOCK_MONOTONIC \<and> timestamp m < monotonic_cutoff_ns)"

definition effective_clock :: "packet_meta \<Rightarrow> trim_state \<Rightarrow> u64" where
  "effective_clock m state =
     (if clock_id m = 0 \<and> has_sequence m then
        (case clock_default_get (clock_defaults state) (sequence_id m) of
           Some c \<Rightarrow> c
         | None \<Rightarrow> clock_id m)
      else clock_id m)"

definition trim_packet :: "allocator \<Rightarrow> bytes \<Rightarrow> u64 \<Rightarrow> u64 \<Rightarrow> trim_state \<Rightarrow>
    (trim_state \<times> byte_buffer option) result" where
  "trim_packet mem packet boottime_cutoff_ns monotonic_cutoff_ns state =
     (case packet_metadata packet packet_meta_init of
        Inl e \<Rightarrow> Inl e
      | Inr m \<Rightarrow>
          (case (if has_sequence m \<and> has_default_clock m
                 then clock_default_set mem state (sequence_id m) (default_clock_id m)
                 else Inr state) of
             Inl e \<Rightarrow> Inl e
           | Inr state' \<Rightarrow>
               if packet_before_cutoff m (effective_clock m state') boottime_cutoff_ns monotonic_cutoff_ns
               then Inr (state', None)
               else (case copy_packet_loop mem packet boottime_cutoff_ns empty_buffer of
                       Inl e \<Rightarrow> Inl e
                     | Inr trimmed \<Rightarrow> Inr (state', Some trimmed))))"

declare message_varint_loop.simps [simp del] event_timestamp_loop.simps [simp del]
  trim_ftrace_loop.simps [simp del] packet_metadata.simps [simp del] copy_packet_loop.simps [simp del]

section \<open>What a trimmed packet contains\<close>

text \<open>
  The specification works on parsed messages.  \<open>event_time f\<close> is the timestamp an ftrace event
  field carries, if any; \<open>keep_event\<close> says which fields of a bundle survive.
\<close>

definition event_time :: "wire_field \<Rightarrow> u64 option" where
  "event_time f = (case event_timestamp f 0 of Inr (t, True) \<Rightarrow> Some t | _ \<Rightarrow> None)"

definition is_event :: "wire_field \<Rightarrow> bool" where
  "is_event f \<longleftrightarrow> number f = 2 \<and> wire f = 2"

definition is_bundle :: "wire_field \<Rightarrow> bool" where
  "is_bundle f \<longleftrightarrow> number f = 1 \<and> wire f = 2"

definition keep_event :: "u64 \<Rightarrow> wire_field \<Rightarrow> bool" where
  "keep_event cutoff f \<longleftrightarrow> (is_event f \<longrightarrow> (\<forall>t. event_time f = Some t \<longrightarrow> cutoff \<le> t))"

definition trimmable_bundle :: "wire_field list \<Rightarrow> bool" where
  "trimmable_bundle fs \<longleftrightarrow>
     (\<forall>f \<in> set fs. number f \<noteq> 4 \<and> (is_event f \<longrightarrow> (\<exists>tp. event_timestamp f 0 = Inr tp)))"

definition trim_fields :: "u64 \<Rightarrow> bytes \<Rightarrow> bytes" where
  "trim_fields cutoff bs =
     (case parse_fields bs of
        Inr fs \<Rightarrow> concat (map raw (filter (keep_event cutoff) fs))
      | Inl e \<Rightarrow> [])"

lemma keep_event_code:
  "event_timestamp f 0 = Inr (t, p) \<Longrightarrow> is_event f \<Longrightarrow> keep_event cutoff f \<longleftrightarrow> \<not> p \<or> cutoff \<le> t"
  by (cases p) (auto simp: keep_event_def event_time_def)

lemma trim_ftrace_loop_sound:
  assumes "trim_ftrace_loop mem bs cutoff b = Inr b'" and "buffer_ok b"
  obtains fs where "parse_fields bs = Inr fs" and "trimmable_bundle fs"
    and "buf_data b' = buf_data b @ concat (map raw (filter (keep_event cutoff) fs))" and "buffer_ok b'"
proof -
  have "\<exists>fs. parse_fields bs = Inr fs \<and> trimmable_bundle fs \<and>
      buf_data b' = buf_data b @ concat (map raw (filter (keep_event cutoff) fs)) \<and> buffer_ok b'"
    using assms
  proof (induction mem bs cutoff b rule: trim_ftrace_loop.induct)
    case (1 mem bs cutoff b)
    show ?case
    proof (cases "bs = []")
      case True
      with "1.prems" show ?thesis by (auto simp: trim_ftrace_loop.simps trimmable_bundle_def)
    next
      case bs: False
      with "1.prems" obtain f rest where n: "next_field bs = Inr (f, rest)" and 4: "number f \<noteq> 4"
        by (auto simp: trim_ftrace_loop.simps [of mem bs] split: sum.splits prod.splits if_splits)
      have ext: "\<exists>fs. parse_fields rest = Inr fs \<and> trimmable_bundle fs \<and>
          buf_data b' = buf_data b1 @ concat (map raw (filter (keep_event cutoff) fs)) \<and> buffer_ok b' \<Longrightarrow>
          buf_data b1 = buf_data b @ (if keep_event cutoff f then raw f else []) \<Longrightarrow>
          (is_event f \<Longrightarrow> \<exists>tp. event_timestamp f 0 = Inr tp) \<Longrightarrow> ?thesis" for b1
        using bs n 4 by (auto simp: parse_fields.simps [of bs] trimmable_bundle_def)
      show ?thesis
      proof (cases "is_event f")
        case False
        with "1.prems" bs n 4 obtain b1 where b1: "buffer_field mem b f = Inr b1"
            "trim_ftrace_loop mem rest cutoff b1 = Inr b'"
          by (auto simp: trim_ftrace_loop.simps [of mem bs] is_event_def split: sum.splits if_splits)
        from buffer_append_ok [OF b1(1) [unfolded buffer_field_def] "1.prems"(2)]
        have d: "buf_data b1 = buf_data b @ raw f" "buffer_ok b1" by auto
        have k: "keep_event cutoff f" using False by (simp add: keep_event_def)
        from "1.IH"(1) [OF bs n refl 4 _ b1(1) b1(2) d(2)] False
        show ?thesis by (intro ext [of b1]) (use d k False in \<open>auto simp: is_event_def\<close>)
      next
        case True
        then have ne: "\<not> (number f \<noteq> 2 \<or> wire f \<noteq> 2)" by (simp add: is_event_def)
        from "1.prems" bs n 4 ne obtain t p where tp: "event_timestamp f 0 = Inr (t, p)"
          by (auto simp: trim_ftrace_loop.simps [of mem bs] split: sum.splits if_splits)
        show ?thesis
        proof (cases "keep_event cutoff f")
          case k: True
          then have kc: "\<not> p \<or> cutoff \<le> t" using keep_event_code [OF tp True] by simp
          with "1.prems" bs n 4 ne tp obtain b1 where b1: "buffer_field mem b f = Inr b1"
              "trim_ftrace_loop mem rest cutoff b1 = Inr b'"
            by (auto simp: trim_ftrace_loop.simps [of mem bs] split: sum.splits if_splits)
          from buffer_append_ok [OF b1(1) [unfolded buffer_field_def] "1.prems"(2)]
          have d: "buf_data b1 = buf_data b @ raw f" "buffer_ok b1" by auto
          from "1.IH"(2) [OF bs n refl 4 ne tp refl kc b1(1) b1(2) d(2)]
          show ?thesis by (intro ext [of b1]) (use d k tp in auto)
        next
          case k: False
          then have kc: "\<not> (\<not> p \<or> cutoff \<le> t)" using keep_event_code [OF tp True] by simp
          with "1.prems" bs n 4 ne tp have b1: "trim_ftrace_loop mem rest cutoff b = Inr b'"
            by (auto simp: trim_ftrace_loop.simps [of mem bs] split: sum.splits if_splits)
          from "1.IH"(3) [OF bs n refl 4 ne tp refl kc b1 "1.prems"(2)]
          show ?thesis by (intro ext [of b]) (use k tp in auto)
        qed
      qed
    qed
  qed
  then show ?thesis using that by blast
qed

definition trim_field :: "u64 \<Rightarrow> wire_field \<Rightarrow> wire_field" where
  "trim_field cutoff f =
     (if is_bundle f then delimited_field (key f) (trim_fields cutoff (payload f)) else f)"

definition trimmable_packet :: "wire_field list \<Rightarrow> bool" where
  "trimmable_packet fs \<longleftrightarrow>
     (\<forall>f \<in> set fs. is_bundle f \<longrightarrow> (\<exists>gs. parse_fields (payload f) = Inr gs \<and> trimmable_bundle gs))"

lemma buffer_append_chain:
  assumes "buffer_append mem b d1 = Inr b1" and "buffer_append mem b1 d2 = Inr b2"
    and "buffer_append mem b2 d3 = Inr b3" and "buffer_ok b"
  shows "buf_data b3 = buf_data b @ d1 @ d2 @ d3 \<and> buffer_ok b3"
  using assms buffer_append_ok by (metis append.assoc)

lemma trim_field_simps [simp]:
  "number (trim_field c f) = (if is_bundle f then ucast (drop_bit 3 (key f)) else number f)"
  "key (trim_field c f) = key f"
  by (auto simp: trim_field_def delimited_field_def)

lemma copy_field_sound:
  assumes "copy_field mem f cutoff b = Inr b'" and "buffer_ok b"
  shows "buf_data b' = buf_data b @ raw (trim_field cutoff f) \<and> buffer_ok b' \<and> trimmable_packet [f]"
proof (cases "is_bundle f")
  case False
  with assms have "buffer_append mem b (raw f) = Inr b'"
    by (auto simp: copy_field_def is_bundle_def buffer_field_def)
  from buffer_append_ok [OF this assms(2)] False
  show ?thesis by (auto simp: trim_field_def trimmable_packet_def)
next
  case True
  with assms obtain bd b1 b2
    where t: "trim_ftrace_loop mem (payload f) cutoff empty_buffer = Inr bd"
      and v1: "buffer_append mem b (encode_varint (key f)) = Inr b1"
      and v2: "buffer_append mem b1 (encode_varint (of_nat (length (buf_data bd)))) = Inr b2"
      and v3: "buffer_append mem b2 (buf_data bd) = Inr b'"
    by (auto simp: copy_field_def is_bundle_def trim_ftrace_bundle_def buffer_varint_def split: sum.splits)
  from t obtain gs where gs: "parse_fields (payload f) = Inr gs" "trimmable_bundle gs"
      "buf_data bd = concat (map raw (filter (keep_event cutoff) gs))"
    by (elim trim_ftrace_loop_sound) auto
  then have "buf_data bd = trim_fields cutoff (payload f)" by (simp add: trim_fields_def)
  with buffer_append_chain [OF v1 v2 v3 assms(2)] gs True
  show ?thesis by (auto simp: trim_field_def delimited_field_def trimmable_packet_def)
qed

lemma copy_packet_loop_sound:
  assumes "copy_packet_loop mem bs cutoff b = Inr b'" and "buffer_ok b"
  obtains fs where "parse_fields bs = Inr fs" and "trimmable_packet fs"
    and "buf_data b' = buf_data b @ concat (map raw (map (trim_field cutoff) fs))" and "buffer_ok b'"
proof -
  have "\<exists>fs. parse_fields bs = Inr fs \<and> trimmable_packet fs \<and>
      buf_data b' = buf_data b @ concat (map raw (map (trim_field cutoff) fs)) \<and> buffer_ok b'"
    using assms
  proof (induction mem bs cutoff b rule: copy_packet_loop.induct)
    case (1 mem bs cutoff b)
    show ?case
    proof (cases "bs = []")
      case True
      with "1.prems" show ?thesis by (auto simp: copy_packet_loop.simps trimmable_packet_def)
    next
      case bs: False
      with "1.prems" obtain f rest b1 where n: "next_field bs = Inr (f, rest)"
          and c: "copy_field mem f cutoff b = Inr b1" "copy_packet_loop mem rest cutoff b1 = Inr b'"
        by (auto simp: copy_packet_loop.simps [of mem bs] split: sum.splits prod.splits)
      note s = copy_field_sound [OF c(1) "1.prems"(2)]
      from "1.IH" [OF bs n refl c(1) c(2)] s obtain fs where "parse_fields rest = Inr fs"
          "trimmable_packet fs" "buffer_ok b'"
          "buf_data b' = buf_data b1 @ concat (map raw (map (trim_field cutoff) fs))" by auto
      with bs n s show ?thesis
        by (intro exI [of _ "f # fs"]) (auto simp: parse_fields.simps [of bs] trimmable_packet_def)
    qed
  qed
  then show ?thesis using that by blast
qed

lemma payload_length:
  assumes "valid_field f"
  shows "length (payload f) \<le> length (raw f) \<and> length (payload f) < 2 ^ 64"
proof -
  from assms obtain k body where "raw f = k @ body" "field_body f body" by (auto simp: valid_field_def)
  moreover have "length (payload f) < 2 ^ 64" if "unat (n :: u64) = length (payload f)" for n
    using unat_lt_64 [of n] that by simp
  ultimately show ?thesis by (auto simp: field_body_def)
qed

lemma length_trim_fields: "length (trim_fields c bs) \<le> length bs"
proof (cases "parse_fields bs")
  case (Inr fs)
  then have "bs = concat (map raw fs)" by (simp add: parse_fields_iff)
  moreover have "length (concat (map raw (filter P fs))) \<le> length (concat (map raw fs))" for P
    by (induction fs) auto
  ultimately show ?thesis using Inr by (simp add: trim_fields_def)
qed (simp add: trim_fields_def)

lemma trim_field_valid: "valid_field f \<Longrightarrow> valid_field (trim_field c f)"
proof -
  assume v: "valid_field f"
  then have "length (trim_fields c (payload f)) < 2 ^ 64"
    using payload_length [OF v] length_trim_fields [of c "payload f"] by simp
  moreover from v have "key f \<noteq> 0" "wire f = ucast (key f AND 7)" by (auto simp: valid_field_def)
  ultimately show ?thesis
    using v by (auto simp: trim_field_def is_bundle_def intro!: delimited_field_valid)
qed

lemma trim_field_class:
  assumes "valid_field f"
  shows "number (trim_field c f) = number f" and "wire (trim_field c f) = wire f"
    and "is_bundle (trim_field c f) = is_bundle f"
proof -
  from assms show "number (trim_field c f) = number f" and "wire (trim_field c f) = wire f"
    by (auto simp: valid_field_def trim_field_def delimited_field_def)
  then show "is_bundle (trim_field c f) = is_bundle f" by (simp add: is_bundle_def)
qed

lemma parse_trim_fields:
  assumes "parse_fields bs = Inr fs"
  shows "parse_fields (trim_fields c bs) = Inr (filter (keep_event c) fs)"
proof -
  have "trim_fields c bs = concat (map raw (filter (keep_event c) fs))"
    using assms by (simp add: trim_fields_def)
  then show ?thesis using assms by (auto simp: parse_fields_iff list_all_iff)
qed

lemma trim_fields_idem: "trim_fields c (trim_fields c bs) = trim_fields c bs"
proof (cases "parse_fields bs")
  case (Inr fs)
  from parse_trim_fields [OF this, of c] show ?thesis
    by (simp add: trim_fields_def [of c "trim_fields c bs"]) (simp add: trim_fields_def Inr)
qed (simp add: trim_fields_def)

lemma trim_field_idem: "valid_field f \<Longrightarrow> trim_field c (trim_field c f) = trim_field c f"
  using trim_field_class(3) [of f c]
  by (auto simp: trim_field_def delimited_field_def trim_fields_idem split: if_splits)

theorem trim_packet_fields:
  assumes "trim_packet mem packet bc mc st = Inr (st', Some out)"
  obtains fs where "parse_fields packet = Inr fs" and "trimmable_packet fs"
    and "parse_fields (buf_data out) = Inr (map (trim_field bc) fs)"
proof -
  from assms have "copy_packet_loop mem packet bc empty_buffer = Inr out"
    by (auto simp: trim_packet_def split: sum.splits if_splits)
  then obtain fs where fs: "parse_fields packet = Inr fs" "trimmable_packet fs"
      "buf_data out = concat (map raw (map (trim_field bc) fs))"
    by (elim copy_packet_loop_sound) auto
  moreover have "list_all valid_field (map (trim_field bc) fs)"
    using fs(1) trim_field_valid by (auto simp: parse_fields_iff list_all_iff)
  ultimately show ?thesis
    using that by (metis parse_fields_iff)
qed

section \<open>Trimming succeeds, and trimming twice changes nothing more\<close>

text \<open>The metadata pass as a fold over the parsed fields.\<close>

fun meta_fields :: "wire_field list \<Rightarrow> packet_meta \<Rightarrow> packet_meta result" where
  "meta_fields [] m = Inr m"
| "meta_fields (field # fs) m =
     (if number field = 8 \<and> wire field = 0 then
        meta_fields fs (m\<lparr>timestamp := val field, has_timestamp := True\<rparr>)
      else if number field = 58 \<and> wire field = 0 then meta_fields fs (m\<lparr>clock_id := val field\<rparr>)
      else if number field = 10 \<and> wire field = 0 then
        meta_fields fs (m\<lparr>sequence_id := val field, has_sequence := True\<rparr>)
      else if number field = 1 \<and> wire field = 2 then meta_fields fs (m\<lparr>has_ftrace := True\<rparr>)
      else if number field = 59 \<and> wire field = 2 then
        (case message_varint field 58 (default_clock_id m) of
           Inl e \<Rightarrow> Inl e
         | Inr (v, present) \<Rightarrow> meta_fields fs (m\<lparr>default_clock_id := v, has_default_clock := present\<rparr>))
      else if number field = 50 \<or> number field = 133 then Inl EPROTONOSUPPORT
      else meta_fields fs m)"

lemma packet_metadata_fields:
  "list_all valid_field fs \<Longrightarrow> packet_metadata (concat (map raw fs)) m = meta_fields fs m"
proof (induction fs arbitrary: m)
  case Nil
  then show ?case by (simp add: packet_metadata.simps)
next
  case (Cons f fs)
  then have "valid_field f" "raw f \<noteq> []" by (auto dest: valid_field_nonempty)
  with Cons show ?case
    by (subst packet_metadata.simps) (auto simp: next_field_raw split: sum.splits)
qed

lemma meta_fields_trim:
  "list_all valid_field fs \<Longrightarrow> meta_fields (map (trim_field c) fs) m = meta_fields fs m"
proof (induction fs arbitrary: m)
  case Nil
  then show ?case by simp
next
  case (Cons f fs)
  then have v: "valid_field f" by simp
  show ?case
  proof (cases "is_bundle f")
    case True
    with Cons show ?thesis using trim_field_class [OF v, of c] by (simp add: is_bundle_def)
  next
    case False
    with Cons show ?thesis by (auto simp: trim_field_def is_bundle_def split: sum.splits)
  qed
qed

lemma trim_ftrace_loop_total:
  assumes "\<forall>n. mem n" and "list_all valid_field fs" and "trimmable_bundle fs" and "buffer_ok b"
    and "length (buf_data b) + length (concat (map raw fs)) \<le> 2 ^ 63"
  shows "\<exists>b'. trim_ftrace_loop mem (concat (map raw fs)) cutoff b = Inr b'"
  using assms
proof (induction fs arbitrary: b)
  case Nil
  then show ?case by (simp add: trim_ftrace_loop.simps)
next
  case (Cons f fs)
  then have f: "valid_field f" "raw f \<noteq> []" "number f \<noteq> 4" "trimmable_bundle fs"
    by (auto dest: valid_field_nonempty simp: trimmable_bundle_def)
  obtain b1 where b1: "buffer_append mem b (raw f) = Inr b1"
    using buffer_append_succeeds [OF Cons.prems(4,1), of "raw f"] Cons.prems(5) by auto
  note ok = buffer_append_ok [OF b1 Cons.prems(4)]
  have r1: "\<exists>b'. trim_ftrace_loop mem (concat (map raw fs)) cutoff b1 = Inr b'"
    using Cons f ok by (intro Cons.IH) auto
  have r: "\<exists>b'. trim_ftrace_loop mem (concat (map raw fs)) cutoff b = Inr b'"
    using Cons f by (intro Cons.IH) auto
  have "is_event f \<Longrightarrow> \<exists>tp. event_timestamp f 0 = Inr tp"
    using Cons.prems(3) by (simp add: trimmable_bundle_def)
  with f b1 r1 r show ?case
    by (subst trim_ftrace_loop.simps) (auto simp: next_field_raw buffer_field_def is_event_def)
qed

lemma copy_field_total:
  assumes "\<forall>n. mem n" and "valid_field f" and "trimmable_packet [f]" and "buffer_ok b"
    and "length (buf_data b) + 21 * length (raw f) \<le> 2 ^ 63"
  shows "\<exists>b'. copy_field mem f cutoff b = Inr b' \<and>
     length (buf_data b') \<le> length (buf_data b) + 21 * length (raw f)"
proof -
  have raw: "0 < length (raw f)" using valid_field_nonempty [OF assms(2)] by simp
  show ?thesis
  proof (cases "is_bundle f")
    case False
    then have "copy_field mem f cutoff b = buffer_append mem b (raw f)"
      by (auto simp: copy_field_def is_bundle_def buffer_field_def)
    moreover obtain b' where "buffer_append mem b (raw f) = Inr b'"
      using buffer_append_succeeds [OF assms(4,1), of "raw f"] assms(5) by auto
    ultimately show ?thesis using buffer_append_ok [OF _ assms(4), of mem "raw f" b'] by auto
  next
    case True
    with assms(3) obtain gs where gs: "parse_fields (payload f) = Inr gs" "trimmable_bundle gs"
      by (auto simp: trimmable_packet_def)
    have pl: "length (payload f) \<le> length (raw f)" using payload_length [OF assms(2)] by simp
    with gs assms raw obtain bd where bd: "trim_ftrace_loop mem (payload f) cutoff empty_buffer = Inr bd"
      using trim_ftrace_loop_total [of mem gs empty_buffer cutoff] by (auto simp: parse_fields_iff)
    then have "buf_data bd = trim_fields cutoff (payload f)"
      by (elim trim_ftrace_loop_sound) (auto simp: trim_fields_def)
    then have bl: "length (buf_data bd) \<le> length (raw f)"
      using length_trim_fields [of cutoff "payload f"] pl by simp
    let ?k = "encode_varint (key f)" and ?l = "encode_varint (of_nat (length (buf_data bd)))"
    have kl: "length ?k \<le> 10" "length ?l \<le> 10" by (rule encode_varint_length_10)+
    have sz: "length (buf_data b) + 20 + length (raw f) \<le> 2 ^ 63" using raw assms(5) by linarith
    obtain b1 where b1: "buffer_append mem b ?k = Inr b1"
      by (rule buffer_append_succeeds [OF assms(4,1), of ?k]) (use kl sz in auto)
    note ok1 = buffer_append_ok [OF b1 assms(4)]
    obtain b2 where b2: "buffer_append mem b1 ?l = Inr b2"
      by (rule buffer_append_succeeds [OF _ assms(1), of b1 ?l]) (use ok1 kl sz in auto)
    note ok2 = buffer_append_ok [OF b2 ok1 [THEN conjunct2]]
    obtain b3 where b3: "buffer_append mem b2 (buf_data bd) = Inr b3"
      by (rule buffer_append_succeeds [OF _ assms(1), of b2 "buf_data bd"]) (use ok1 ok2 kl bl sz in auto)
    have "20 + length (raw f) \<le> 21 * length (raw f)" using raw by linarith
    with buffer_append_chain [OF b1 b2 b3 assms(4)] bd b1 b2 b3 kl bl True show ?thesis
      by (auto simp: copy_field_def is_bundle_def trim_ftrace_bundle_def buffer_varint_def)
  qed
qed

lemma copy_packet_loop_total:
  assumes "\<forall>n. mem n" and "list_all valid_field fs" and "trimmable_packet fs" and "buffer_ok b"
    and "length (buf_data b) + 21 * length (concat (map raw fs)) \<le> 2 ^ 63"
  shows "\<exists>b'. copy_packet_loop mem (concat (map raw fs)) cutoff b = Inr b'"
  using assms
proof (induction fs arbitrary: b)
  case Nil
  then show ?case by (simp add: copy_packet_loop.simps)
next
  case (Cons f fs)
  then have f: "valid_field f" "raw f \<noteq> []" "trimmable_packet fs" "trimmable_packet [f]"
    by (auto dest: valid_field_nonempty simp: trimmable_packet_def)
  obtain b1 where b1: "copy_field mem f cutoff b = Inr b1"
      "length (buf_data b1) \<le> length (buf_data b) + 21 * length (raw f)"
    using copy_field_total [OF Cons.prems(1) f(1,4) Cons.prems(4), of cutoff] Cons.prems(5) by auto
  have "\<exists>b'. copy_packet_loop mem (concat (map raw fs)) cutoff b1 = Inr b'"
    using Cons b1 f copy_field_sound [OF b1(1) Cons.prems(4)] by (intro Cons.IH) auto
  with f b1 show ?case by (subst copy_packet_loop.simps) (simp add: next_field_raw)
qed

lemma clock_default_get_replace:
  "clock_default_replace es s c = Some es' \<Longrightarrow>
     clock_default_get es' q = (if q = s then Some c else clock_default_get es q)"
  by (induction es arbitrary: es') (auto split: if_splits)

lemma clock_default_replace_idem:
  "clock_default_replace es s c = Some es' \<Longrightarrow> clock_default_replace es' s c = Some es'"
  by (induction es arbitrary: es') (auto split: if_splits)

lemma clock_default_get_set:
  "clock_default_set mem st s c = Inr st' \<Longrightarrow>
     clock_default_get (clock_defaults st') q = (if q = s then Some c else clock_default_get (clock_defaults st) q)"
  by (auto simp: clock_default_set_def dest: clock_default_get_replace split: option.splits if_splits)

lemma clock_default_set_idem:
  "clock_default_set mem st s c = Inr st' \<Longrightarrow> clock_default_set mem st' s c = Inr st'"
  by (auto simp: clock_default_set_def dest: clock_default_replace_idem split: option.splits if_splits)

lemma trim_packet_keeps_state:
  assumes "trim_packet mem packet bc mc st = Inr (st', Some out)" and "parse_fields packet = Inr fs"
  obtains m where "meta_fields fs packet_meta_init = Inr m"
    and "(if has_sequence m \<and> has_default_clock m
          then clock_default_set mem st (sequence_id m) (default_clock_id m) else Inr st) = Inr st'"
    and "\<not> packet_before_cutoff m (effective_clock m st') bc mc"
    and "copy_packet_loop mem packet bc empty_buffer = Inr out"
proof -
  from assms(2) have "packet_metadata packet packet_meta_init = meta_fields fs packet_meta_init"
    by (auto simp: parse_fields_iff packet_metadata_fields)
  with assms(1) obtain m where "meta_fields fs packet_meta_init = Inr m"
    by (auto simp: trim_packet_def split: sum.splits)
  with assms(1) \<open>packet_metadata packet packet_meta_init = _\<close> show ?thesis
    by (intro that [of m]) (auto simp: trim_packet_def split: sum.splits if_splits)
qed

lemma trimmable_packet_trim:
  assumes "list_all valid_field fs" and "trimmable_packet fs"
  shows "trimmable_packet (map (trim_field c) fs)"
proof -
  have "\<exists>gs. parse_fields (payload (trim_field c f)) = Inr gs \<and> trimmable_bundle gs"
    if f: "f \<in> set fs" "is_bundle f" for f
  proof -
    from f assms(2) obtain gs where "parse_fields (payload f) = Inr gs" "trimmable_bundle gs"
      by (auto simp: trimmable_packet_def)
    then show ?thesis
      using parse_trim_fields [of "payload f" gs c] f(2)
      by (auto simp: trim_field_def delimited_field_def trimmable_bundle_def)
  qed
  then show ?thesis
    using assms(1) trim_field_class(3) by (auto simp: trimmable_packet_def list_all_iff)
qed

lemma trim_packet_again:
  assumes t: "trim_packet mem packet bc mc st = Inr (st', Some out)"
    and mem: "\<forall>n. mem n" and len: "21 * length (buf_data out) \<le> 2 ^ 63"
  shows "\<exists>out'. trim_packet mem (buf_data out) bc mc st' = Inr (st', Some out') \<and> buf_data out' = buf_data out"
proof -
  from trim_packet_fields [OF t] obtain fs where fs: "parse_fields packet = Inr fs" "trimmable_packet fs"
    and out: "parse_fields (buf_data out) = Inr (map (trim_field bc) fs)" by blast
  have v: "list_all valid_field fs" "list_all valid_field (map (trim_field bc) fs)"
    and od: "buf_data out = concat (map raw (map (trim_field bc) fs))"
    using fs(1) out by (simp_all only: parse_fields_iff)
  from trim_packet_keeps_state [OF t fs(1)] obtain m where m: "meta_fields fs packet_meta_init = Inr m"
    "(if has_sequence m \<and> has_default_clock m
      then clock_default_set mem st (sequence_id m) (default_clock_id m) else Inr st) = Inr st'"
    "\<not> packet_before_cutoff m (effective_clock m st') bc mc" by blast
  have pm: "packet_metadata (buf_data out) packet_meta_init = Inr m"
    using v m(1) by (simp only: od packet_metadata_fields [OF v(2)] meta_fields_trim)
  have st: "(if has_sequence m \<and> has_default_clock m
      then clock_default_set mem st' (sequence_id m) (default_clock_id m) else Inr st') = Inr st'"
    using m(2) by (auto intro: clock_default_set_idem split: if_splits)
  obtain out' where c: "copy_packet_loop mem (buf_data out) bc empty_buffer = Inr out'"
    using copy_packet_loop_total [OF mem v(2) trimmable_packet_trim [OF v(1) fs(2)], of empty_buffer bc] len od
    by auto
  have "map (trim_field bc) (map (trim_field bc) fs) = map (trim_field bc) fs"
    using v(1) by (auto simp: list_all_iff trim_field_idem)
  with copy_packet_loop_sound [OF c] out have "buf_data out' = buf_data out"
    by (metis append_Nil buf_data_empty empty_buffer_ok od sum.inject(2))
  with pm st m(3) c show ?thesis by (auto simp: trim_packet_def)
qed

section \<open>Properties\<close>

text \<open>
  C1. A kept packet is the original packet with the same fields in the same order, except that
  each ftrace bundle keeps exactly the bundle fields that are not events older than the boottime
  cut-off; and both the packet and every trimmed bundle are again well-formed messages.
\<close>

theorem trim_packet_exact:
  assumes "trim_packet mem packet bc mc st = Inr (st', Some out)"
  shows "\<exists>fs. parse_fields packet = Inr fs \<and>
     parse_fields (buf_data out) = Inr (map (trim_field bc) fs) \<and>
     (\<forall>f \<in> set fs. is_bundle f \<longrightarrow>
        (\<exists>es. parse_fields (payload f) = Inr es \<and>
           parse_fields (payload (trim_field bc f)) =
             Inr (filter (\<lambda>e. is_event e \<longrightarrow> (\<forall>t. event_time e = Some t \<longrightarrow> bc \<le> t)) es)))"
proof -
  from trim_packet_fields [OF assms] obtain fs where fs: "parse_fields packet = Inr fs"
      "trimmable_packet fs" "parse_fields (buf_data out) = Inr (map (trim_field bc) fs)" by blast
  have "\<exists>es. parse_fields (payload f) = Inr es \<and>
      parse_fields (payload (trim_field bc f)) = Inr (filter (keep_event bc) es)"
    if f: "f \<in> set fs" "is_bundle f" for f
  proof -
    from f fs(2) obtain es where "parse_fields (payload f) = Inr es" by (auto simp: trimmable_packet_def)
    then show ?thesis
      using parse_trim_fields [of "payload f" es bc] f(2) by (auto simp: trim_field_def delimited_field_def)
  qed
  with fs show ?thesis by (auto simp: keep_event_def [abs_def])
qed

lemma trim_example:
  "trim_packet (\<lambda>_. True) [10, 8, 18, 2, 8, 5, 18, 2, 8, 9] 7 0 \<lparr>clock_defaults = []\<rparr> =
     Inr (\<lparr>clock_defaults = []\<rparr>, Some \<lparr>buf_data = [10, 4, 18, 2, 8, 9], buf_capacity = 4096\<rparr>)"
  by code_simp

theorem trim_packet_exact_witness:
  "\<exists>fs. parse_fields [10, 8, 18, 2, 8, 5, 18, 2, 8, 9] = Inr fs \<and>
     parse_fields [10, 4, 18, 2, 8, 9] = Inr (map (trim_field 7) fs)"
  using trim_packet_exact [OF trim_example] by auto

text \<open>
  Trimming is idempotent on a packet: a packet that was kept is kept again by a second run
  with the same cut-offs, byte for byte and without changing the default-clock table, whenever
  memory suffices.
\<close>

lemma trim_packet_idempotent:
  assumes "trim_packet mem packet bc mc st = Inr (st', Some out)"
    and "\<forall>n. mem n" and "21 * length (buf_data out) \<le> 2 ^ 63"
  shows "\<exists>out'. trim_packet mem (buf_data out) bc mc st' = Inr (st', Some out') \<and>
     buf_data out' = buf_data out"
  using assms by (rule trim_packet_again)

text \<open>
  Which packets are dropped: a packet whose metadata can be read is dropped exactly when it
  has no ftrace bundle, has a timestamp, and that timestamp lies before the cut-off of its clock,
  where the clock is the packet's own, else the default of its sequence (a default declared in the
  same packet included), else boottime.
\<close>

lemma trim_packet_drops_iff:
  assumes "packet_metadata packet packet_meta_init = Inr m"
    and "trim_packet mem packet bc mc st = Inr (st', keep)"
    and "clock = (if clock_id m \<noteq> 0 \<or> \<not> has_sequence m then clock_id m
      else if has_default_clock m then default_clock_id m
      else (case clock_default_get (clock_defaults st) (sequence_id m) of Some c \<Rightarrow> c | None \<Rightarrow> 0))"
  shows "keep = None \<longleftrightarrow>
     \<not> has_ftrace m \<and> has_timestamp m \<and>
     ((clock = 0 \<or> clock = 6) \<and> timestamp m < bc \<or> clock = 3 \<and> timestamp m < mc)"
proof -
  from assms(1,2) have st: "(if has_sequence m \<and> has_default_clock m
      then clock_default_set mem st (sequence_id m) (default_clock_id m) else Inr st) = Inr st'"
    by (auto simp: trim_packet_def split: sum.splits if_splits)
  have "effective_clock m st' = clock"
    using st assms(3) clock_default_get_set [of mem st "sequence_id m" "default_clock_id m" st']
    by (auto simp: effective_clock_def split: if_splits option.splits)
  moreover from assms(1,2) st have "keep = None \<longleftrightarrow> packet_before_cutoff m (effective_clock m st') bc mc"
    by (auto simp: trim_packet_def split: sum.splits if_splits)
  ultimately show ?thesis
    by (simp add: packet_before_cutoff_def PERFETTO_CLOCK_BOOTTIME_def PERFETTO_CLOCK_MONOTONIC_def)
qed

lemma trim_drop_example:
  "packet_metadata [80, 1, 64, 60] packet_meta_init =
     Inr (packet_meta_init\<lparr>timestamp := 60, has_timestamp := True, sequence_id := 1, has_sequence := True\<rparr>)"
  "trim_packet (\<lambda>_. True) [80, 1, 64, 60] 100 50 \<lparr>clock_defaults = []\<rparr> =
     Inr (\<lparr>clock_defaults = []\<rparr>, None)"
  by code_simp+

end
