(* ===== verification/TrimStream.thy ===== *)
theory TrimStream
  imports PerfettoTrim
begin

text \<open>
  The outer half of \<^verbatim>\<open>src/src/perfetto_trim.c\<close>: the packet loop between two descriptors and the
  replacement of the trace file by its trimmed copy.
\<close>

section \<open>Reading consumes input\<close>

lemma read_byte_consumes:
  "read_byte fd = (r, fd') \<Longrightarrow>
     length (in_bytes fd') \<le> length (in_bytes fd) \<and>
     (\<forall>b. r = Inr (Some b) \<longrightarrow> length (in_bytes fd') < length (in_bytes fd))"
proof (induction fd arbitrary: r fd' rule: read_byte.induct)
  case (1 fd)
  obtain q fd1 where rd: "sys_read fd 1 = (q, fd1)" by force
  note facts = sys_read_cases [OF rd]
  show ?case
  proof (cases q)
    case (Inl e)
    with facts have "in_bytes fd1 = in_bytes fd" by simp
    with "1.IH" [OF rd [symmetric] Inl] "1.prems" rd Inl show ?thesis
      by (auto simp: read_byte.simps [of fd] split: if_splits)
  next
    case (Inr got)
    with facts "1.prems" rd show ?thesis
      by (auto simp: read_byte.simps [of fd] split: list.splits)
  qed
qed

lemma read_varint_loop_consumes:
  "read_varint_loop s acc fd = (r, fd') \<Longrightarrow>
     length (in_bytes fd') \<le> length (in_bytes fd) \<and>
     (\<forall>v. r = Inr (Some v) \<longrightarrow> length (in_bytes fd') < length (in_bytes fd))"
proof (induction s acc fd arbitrary: r fd' rule: read_varint_loop.induct)
  case (1 s acc fd)
  obtain q fd1 where rb: "read_byte fd = (q, fd1)" by force
  note facts = read_byte_consumes [OF rb]
  show ?case
  proof (cases "\<exists>b. q = Inr (Some b) \<and> s < 64 \<and> \<not> (s = 63 \<and> b > 1) \<and> b AND 0x80 \<noteq> 0")
    case True
    then obtain b where b: "q = Inr (Some b)" "s < 64" "\<not> (s = 63 \<and> b > 1)" "b AND 0x80 \<noteq> 0" by blast
    then have "read_varint_loop (s + 7) (acc OR push_bit s (ucast (b AND 0x7f))) fd1 = (r, fd')"
      using "1.prems" rb by (auto simp: read_varint_loop.simps [of _ acc fd] Let_def)
    from "1.IH" [OF _ rb [symmetric] b(1) refl b(3) refl b(4) this] b(1,2) facts
    show ?thesis by fastforce
  next
    case False
    with "1.prems" rb facts show ?thesis
      by (fastforce simp: read_varint_loop.simps [of _ acc fd] Let_def
          split: if_splits sum.splits option.splits)
  qed
qed

lemma read_varint_fd_consumes:
  "read_varint_fd fd = (r, fd') \<Longrightarrow>
     length (in_bytes fd') \<le> length (in_bytes fd) \<and>
     (\<forall>v. r = Inr (Some v) \<longrightarrow> length (in_bytes fd') < length (in_bytes fd))"
  unfolding read_varint_fd_def by (rule read_varint_loop_consumes)

lemma read_exact_consumes:
  "read_exact fd n acc = (r, fd') \<Longrightarrow> length (in_bytes fd') \<le> length (in_bytes fd)"
proof (induction fd n acc arbitrary: r fd' rule: read_exact.induct)
  case (1 fd n acc)
  obtain q fd1 where rd: "sys_read fd n = (q, fd1)" by force
  note facts = sys_read_cases [OF rd]
  show ?case
  proof (cases "n = 0")
    case True
    with "1.prems" show ?thesis by (simp add: read_exact.simps)
  next
    case n: False
    show ?thesis
    proof (cases q)
      case (Inl e)
      with "1.IH"(1) [OF n rd [symmetric] Inl] "1.prems" rd n facts show ?thesis
        by (auto simp: read_exact.simps [of fd] split: if_splits)
    next
      case (Inr got)
      with "1.IH"(2) [OF n rd [symmetric] Inr] "1.prems" rd n facts show ?thesis
        by (fastforce simp: read_exact.simps [of fd] split: if_splits)
    qed
  qed
qed

section \<open>The packet loop\<close>

text \<open>The three writes of a kept packet, each only if the one before succeeded.\<close>

definition write_packet :: "out_fd \<Rightarrow> u64 \<Rightarrow> bytes \<Rightarrow> errno option \<times> out_fd" where
  "write_packet out k data =
     (case write_varint_fd out k of
        (Some e, out1) \<Rightarrow> (Some e, out1)
      | (None, out1) \<Rightarrow>
          (case write_varint_fd out1 (of_nat (length data)) of
             (Some e, out2) \<Rightarrow> (Some e, out2)
           | (None, out2) \<Rightarrow> write_exact out2 data))"

text \<open>
  The reading half of one iteration of \<open>trim_stream_packets\<close>: \<open>Inr None\<close> is the end of the
  stream.  \<open>size > SIZE_MAX\<close> cannot hold on the 64-bit targets.
\<close>

definition read_packet :: "allocator \<Rightarrow> in_fd \<Rightarrow> ((u64 \<times> bytes) option result) \<times> in_fd" where
  "read_packet mem inp =
     (case read_varint_fd inp of
        (Inl e, inp1) \<Rightarrow> (Inl e, inp1)
      | (Inr None, inp1) \<Rightarrow> (Inr None, inp1)
      | (Inr (Some k), inp1) \<Rightarrow>
          if k \<noteq> (push_bit 3 1 OR 2) then (Inl EBADMSG, inp1)
          else case read_varint_fd inp1 of
              (Inl e, inp2) \<Rightarrow> (Inl e, inp2)
            | (Inr None, inp2) \<Rightarrow> (Inl EOVERFLOW, inp2)
            | (Inr (Some n), inp2) \<Rightarrow>
                if \<not> mem (if n \<noteq> 0 then unat n else 1) then (Inl ENOMEM, inp2)
                else case read_exact inp2 (unat n) [] of
                    (Inl e, inp3) \<Rightarrow> (Inl e, inp3)
                  | (Inr packet, inp3) \<Rightarrow> (Inr (Some (k, packet)), inp3))"

lemma read_packet_consumes:
  "read_packet mem inp = (Inr (Some kp), inp') \<Longrightarrow> length (in_bytes inp') < length (in_bytes inp)"
  by (auto simp: read_packet_def split: prod.splits sum.splits option.splits if_splits
      dest!: read_varint_fd_consumes read_exact_consumes)

text \<open>
  \<open>trim_stream_packets\<close>: the result is the error code returned (\<open>None\<close> for 0) and the output
  descriptor.
\<close>

function trim_stream_packets ::
    "allocator \<Rightarrow> in_fd \<Rightarrow> out_fd \<Rightarrow> u64 \<Rightarrow> u64 \<Rightarrow> trim_state \<Rightarrow> errno option \<times> out_fd" where
  "trim_stream_packets mem inp out boottime_cutoff_ns monotonic_cutoff_ns state =
     (case read_packet mem inp of
        (Inl e, inp') \<Rightarrow> (Some e, out)
      | (Inr None, inp') \<Rightarrow> (None, out)
      | (Inr (Some (k, packet)), inp') \<Rightarrow>
          (case trim_packet mem packet boottime_cutoff_ns monotonic_cutoff_ns state of
             Inl e \<Rightarrow> (Some e, out)
           | Inr (state', keep) \<Rightarrow>
               (case (case keep of None \<Rightarrow> (None, out)
                      | Some trimmed \<Rightarrow> write_packet out k (buf_data trimmed)) of
                  (Some e, out') \<Rightarrow> (Some e, out')
                | (None, out') \<Rightarrow>
                    trim_stream_packets mem inp' out' boottime_cutoff_ns monotonic_cutoff_ns state')))"
  by pat_completeness auto
termination
  by (relation "measure (\<lambda>(mem, inp, out, bc, mc, state). length (in_bytes inp))")
    (auto dest!: read_packet_consumes [OF sym])

declare trim_stream_packets.simps [simp del]

definition perfetto_trim_stream ::
    "allocator \<Rightarrow> in_fd \<Rightarrow> out_fd \<Rightarrow> u64 \<Rightarrow> u64 \<Rightarrow> errno option \<times> out_fd" where
  "perfetto_trim_stream mem inp out boottime_cutoff_ns monotonic_cutoff_ns =
     trim_stream_packets mem inp out boottime_cutoff_ns monotonic_cutoff_ns \<lparr>clock_defaults = []\<rparr>"

section \<open>Replacing the trace file\<close>

text \<open>
  The file system is a map from path names to contents.  \<open>trim_env\<close> holds what the system calls
  of one run of \<open>perfetto_trim_file\<close> report: an error, or \<open>None\<close> for success, and the schedules of
  the two descriptors.  A failing \<open>open\<close> or \<open>rename\<close> changes nothing.
\<close>

type_synonym file_system = "string \<Rightarrow> bytes option"

record trim_env =
  snprintf_fails :: bool
  open_in_err :: "errno option"
  open_out_err :: "errno option"
  reads :: "read_step list"
  writes :: "write_step list"
  fsync_err :: "errno option"
  close_err :: "errno option"
  rename_err :: "errno option"

definition ENOENT :: errno where "ENOENT = EOther 2"
definition EEXIST :: errno where "EEXIST = EOther 17"
definition PATH_MAX :: nat where "PATH_MAX = 4096"

definition trim_temporary :: "string \<Rightarrow> string" where
  "trim_temporary path = path @ ''.trim.tmp''"

definition or_else :: "errno option \<Rightarrow> errno option \<Rightarrow> errno option" where
  "or_else err next_err = (case err of None \<Rightarrow> next_err | Some e \<Rightarrow> Some e)"

definition perfetto_trim_file ::
    "allocator \<Rightarrow> trim_env \<Rightarrow> file_system \<Rightarrow> string option \<Rightarrow> u64 \<Rightarrow> u64 \<Rightarrow> errno option \<times> file_system" where
  "perfetto_trim_file mem env fs path_opt boottime_cutoff_ns monotonic_cutoff_ns =
     (case path_opt of
        None \<Rightarrow> (Some EINVAL, fs)
      | Some path \<Rightarrow>
          let temporary = trim_temporary path in
          if snprintf_fails env then (Some EIO, fs)
          else if length temporary \<ge> PATH_MAX then (Some ENAMETOOLONG, fs)
          else case (case open_in_err env of Some e \<Rightarrow> Inl e
                     | None \<Rightarrow> (case fs path of None \<Rightarrow> Inl ENOENT | Some data \<Rightarrow> Inr data)) of
              Inl e \<Rightarrow> (Some e, fs)
            | Inr data \<Rightarrow>
                (case (case open_out_err env of Some e \<Rightarrow> Some e
                       | None \<Rightarrow> if fs temporary \<noteq> None then Some EEXIST else None) of
                   Some e \<Rightarrow> (Some e, fs(temporary := None))
                 | None \<Rightarrow>
                     let (err, out) = perfetto_trim_stream mem
                           \<lparr>in_bytes = data, in_sched = reads env\<rparr>
                           \<lparr>out_bytes = [], out_sched = writes env\<rparr>
                           boottime_cutoff_ns monotonic_cutoff_ns;
                         err = or_else err (fsync_err env);
                         err = or_else err (close_err env);
                         err = or_else err (rename_err env) in
                     if err = None then (None, (fs(temporary := None))(path \<mapsto> out_bytes out))
                     else (err, fs(temporary := None))))"

section \<open>The trimmed stream is the sequence of trimmed packets\<close>

definition packet_frame :: "bytes \<Rightarrow> bytes" where
  "packet_frame p = encode_varint 10 @ encode_varint (of_nat (length p)) @ p"

fun trim_list :: "allocator \<Rightarrow> u64 \<Rightarrow> u64 \<Rightarrow> trim_state \<Rightarrow> bytes list \<Rightarrow> bytes list result" where
  "trim_list mem bc mc st [] = Inr []"
| "trim_list mem bc mc st (p # ps) =
     (case trim_packet mem p bc mc st of
        Inl e \<Rightarrow> Inl e
      | Inr (st', None) \<Rightarrow> trim_list mem bc mc st' ps
      | Inr (st', Some b) \<Rightarrow>
          (case trim_list mem bc mc st' ps of Inl e \<Rightarrow> Inl e | Inr qs \<Rightarrow> Inr (buf_data b # qs)))"

lemma write_varint_fd_benign:
  assumes "benign_out fd"
  obtains fd' where "write_varint_fd fd v = (None, fd')" and "benign_out fd'"
    and "out_bytes fd' = out_bytes fd @ encode_varint v"
proof -
  obtain r fd' where w: "write_varint_fd fd v = (r, fd')" by force
  from write_exact_spec [OF w [unfolded write_varint_fd_def]] assms w show ?thesis
    by (intro that [of fd']) auto
qed

lemma write_packet_benign:
  assumes "benign_out fd"
  obtains fd' where "write_packet fd 10 p = (None, fd')" and "benign_out fd'"
    and "out_bytes fd' = out_bytes fd @ packet_frame p"
proof -
  obtain fd1 where 1: "write_varint_fd fd 10 = (None, fd1)" "benign_out fd1"
      "out_bytes fd1 = out_bytes fd @ encode_varint 10"
    using write_varint_fd_benign [OF assms] by metis
  obtain fd2 where 2: "write_varint_fd fd1 (of_nat (length p)) = (None, fd2)" "benign_out fd2"
      "out_bytes fd2 = out_bytes fd1 @ encode_varint (of_nat (length p))"
    using write_varint_fd_benign [OF 1(2)] by metis
  obtain r fd3 where 3: "write_exact fd2 p = (r, fd3)" by force
  from write_exact_spec [OF 3] 2(2) have "r = None" "benign_out fd3" "out_bytes fd3 = out_bytes fd2 @ p"
    by auto
  with 1 2 3 show ?thesis by (intro that [of fd3]) (auto simp: write_packet_def packet_frame_def)
qed

lemma read_packet_benign:
  assumes "benign_in inp" and "in_bytes inp = raw f @ rest" and "valid_field f" and "key f = 10"
  obtains n inp1 inp2 inp3 where "read_varint_fd inp = (Inr (Some 10), inp1)"
    and "read_varint_fd inp1 = (Inr (Some n), inp2)"
    and "read_exact inp2 (unat n) [] = (Inr (payload f), inp3)"
    and "benign_in inp3" and "in_bytes inp3 = rest"
proof -
  from assms(3,4) obtain k body where k: "raw f = k @ body" "decode_varint k = Inr (10, [])"
      "field_body f body" and w: "wire f = 2"
    by (auto simp: valid_field_def)
  then obtain l n where l: "body = l @ payload f" "decode_varint l = Inr (n, [])"
      "unat n = length (payload f)"
    by (auto simp: field_body_def)
  have dk: "decode_varint (in_bytes inp) = Inr (10, l @ payload f @ rest)"
    using decode_varint_suffix [of k "[]" 10] assms(2) k(1,2) l(1) by simp
  obtain inp1 where 1: "benign_in inp1" "read_varint_fd inp = (Inr (Some 10), inp1)"
      "in_bytes inp1 = l @ payload f @ rest"
    by (rule read_varint_fd_benign [OF assms(1)]) (use dk in auto)
  have dl: "decode_varint (in_bytes inp1) = Inr (n, payload f @ rest)"
    using decode_varint_suffix [of l "[]" n] l(2) 1(3) by simp
  obtain inp2 where 2: "benign_in inp2" "read_varint_fd inp1 = (Inr (Some n), inp2)"
      "in_bytes inp2 = payload f @ rest"
    by (rule read_varint_fd_benign [OF 1(1)]) (use dl in auto)
  obtain inp3 where "benign_in inp3" "read_exact inp2 (unat n) [] = (Inr (payload f), inp3)"
      "in_bytes inp3 = rest"
    by (rule read_exact_benign [OF 2(1), of "unat n" "[]"]) (use 2(3) l(3) in auto)
  with 1 2 show ?thesis by (intro that)
qed

lemma read_packet_ok:
  assumes "benign_in inp" and "in_bytes inp = raw f @ rest" and "valid_field f" and "key f = 10"
    and "\<forall>n. mem n"
  obtains inp' where "read_packet mem inp = (Inr (Some (10, payload f)), inp')"
    and "benign_in inp'" and "in_bytes inp' = rest"
proof -
  obtain n inp1 inp2 inp3 where r: "read_varint_fd inp = (Inr (Some 10), inp1)"
    "read_varint_fd inp1 = (Inr (Some n), inp2)" "read_exact inp2 (unat n) [] = (Inr (payload f), inp3)"
    "benign_in inp3" "in_bytes inp3 = rest"
    by (rule read_packet_benign [OF assms(1-4)])
  have "(push_bit 3 1 OR 2 :: u64) = 10" by simp
  with r(1-3) assms(5) have "read_packet mem inp = (Inr (Some (10, payload f)), inp3)"
    unfolding read_packet_def by (simp only: prod.case sum.case option.case simp_thms if_True if_False)
  then show ?thesis using r(4,5) by (rule that)
qed

lemma trim_stream_packets_list:
  assumes "benign_in inp" and "benign_out out" and "\<forall>n. mem n"
    and "in_bytes inp = concat (map raw fs)" and "list_all valid_field fs" and "\<forall>f \<in> set fs. key f = 10"
  shows "case trim_list mem bc mc st (map payload fs) of
      Inl e \<Rightarrow> fst (trim_stream_packets mem inp out bc mc st) = Some e
    | Inr qs \<Rightarrow> \<exists>out'. trim_stream_packets mem inp out bc mc st = (None, out') \<and>
        out_bytes out' = out_bytes out @ concat (map packet_frame qs)"
  using assms
proof (induction fs arbitrary: inp out st)
  case Nil
  obtain fd' where "read_varint_fd inp = (Inr None, fd')"
    by (rule read_varint_fd_benign [OF Nil.prems(1)]) (use Nil.prems(4) in auto)
  then show ?case by (simp add: trim_stream_packets.simps [of mem inp] read_packet_def)
next
  case (Cons f fs)
  obtain inp' where i: "read_packet mem inp = (Inr (Some (10, payload f)), inp')" "benign_in inp'"
      "in_bytes inp' = concat (map raw fs)"
    by (rule read_packet_ok [OF Cons.prems(1) _ _ _ Cons.prems(3), of f "concat (map raw fs)"])
      (use Cons.prems in auto)
  have IH: "case trim_list mem bc mc st' (map payload fs) of
      Inl e \<Rightarrow> fst (trim_stream_packets mem inp' o' bc mc st') = Some e
    | Inr qs \<Rightarrow> \<exists>out'. trim_stream_packets mem inp' o' bc mc st' = (None, out') \<and>
        out_bytes out' = out_bytes o' @ concat (map packet_frame qs)" if "benign_out o'" for o' st'
    using Cons.prems i that by (intro Cons.IH) auto
  show ?case
  proof (cases "trim_packet mem (payload f) bc mc st")
    case (Inl e)
    then show ?thesis using i(1) by (simp add: trim_stream_packets.simps [of mem inp])
  next
    case (Inr p)
    obtain st' b where p: "p = (st', b)" by force
    show ?thesis
    proof (cases b)
      case None
      then show ?thesis using i(1) Inr p IH [OF Cons.prems(2), of st']
        by (auto simp: trim_stream_packets.simps [of mem inp] split: sum.splits)
    next
      case (Some t)
      obtain o' where w: "write_packet out 10 (buf_data t) = (None, o')" "benign_out o'"
          "out_bytes o' = out_bytes out @ packet_frame (buf_data t)"
        using write_packet_benign [OF Cons.prems(2)] by metis
      then show ?thesis using i(1) Inr p Some IH [OF w(2), of st']
        by (auto simp: trim_stream_packets.simps [of mem inp] split: sum.splits)
    qed
  qed
qed

section \<open>The file is replaced or left alone\<close>

lemma trim_temporary_distinct: "trim_temporary path \<noteq> path"
  by (simp add: trim_temporary_def)

lemma or_else_None [simp]: "or_else a b = None \<longleftrightarrow> a = None \<and> b = None"
  by (auto simp: or_else_def split: option.splits)

lemma perfetto_trim_file_frame:
  assumes "perfetto_trim_file mem env fs (Some path) bc mc = (r, fs')"
  shows "(\<forall>q. q \<noteq> path \<longrightarrow> q \<noteq> trim_temporary path \<longrightarrow> fs' q = fs q) \<and>
    (r \<noteq> None \<longrightarrow> fs' path = fs path) \<and>
    (r = None \<longrightarrow> fs' (trim_temporary path) = None \<and> fs (trim_temporary path) = None \<and>
       (\<exists>data out. fs path = Some data \<and>
          perfetto_trim_stream mem \<lparr>in_bytes = data, in_sched = reads env\<rparr>
            \<lparr>out_bytes = [], out_sched = writes env\<rparr> bc mc = (None, out) \<and>
          fs' path = Some (out_bytes out)))"
proof -
  obtain e out where s: "perfetto_trim_stream mem
      \<lparr>in_bytes = (case fs path of Some d \<Rightarrow> d | None \<Rightarrow> []), in_sched = reads env\<rparr>
      \<lparr>out_bytes = [], out_sched = writes env\<rparr> bc mc = (e, out)" by force
  show ?thesis
  proof (cases "open_in_err env")
    case (Some x)
    with assms have "(r = Some EIO \<or> r = Some ENAMETOOLONG \<or> r = Some x) \<and> fs' = fs"
      by (simp add: perfetto_trim_file_def Let_def split: if_splits)
    then show ?thesis by auto
  next
    case in_ok: None
    show ?thesis
    proof (cases "open_out_err env")
      case (Some x)
      with assms in_ok have "r \<noteq> None \<longrightarrow> fs' = fs \<or> fs' = fs(trim_temporary path := None)"
          and "r = Some EIO \<or> r = Some ENAMETOOLONG \<or> r = Some ENOENT \<or> r = Some x"
        by (simp_all add: perfetto_trim_file_def Let_def split: if_splits option.splits)
      then show ?thesis using trim_temporary_distinct [of path] by auto
    next
      case None
      with in_ok show ?thesis
        using assms s trim_temporary_distinct [of path]
        by (cases "fs path"; cases "fs (trim_temporary path)")
          (auto simp: perfetto_trim_file_def Let_def split: if_splits)
    qed
  qed
qed

section \<open>Properties\<close>

text \<open>
  C2. Trimming a stream: however the kernel splits or interrupts the reads and writes, a
  well-formed trace is read to its end, each packet is trimmed in order with the default clocks of
  the packets before it, and the output is the concatenation of the kept packets, each with its
  tag and length; the first packet that cannot be trimmed ends the run with its error.
\<close>

theorem perfetto_trim_stream_correct:
  assumes "benign_in inp" and "benign_out out" and "\<forall>n. mem n"
    and "parse_fields (in_bytes inp) = Inr fs" and "\<forall>f \<in> set fs. key f = 10"
  shows "case trim_list mem bc mc \<lparr>clock_defaults = []\<rparr> (map payload fs) of
      Inl e \<Rightarrow> fst (perfetto_trim_stream mem inp out bc mc) = Some e
    | Inr qs \<Rightarrow> \<exists>out'. perfetto_trim_stream mem inp out bc mc = (None, out') \<and>
        out_bytes out' = out_bytes out @ concat (map packet_frame qs)"
proof -
  from assms(4) have "in_bytes inp = concat (map raw fs)" and "list_all valid_field fs"
    by (simp_all add: parse_fields_iff)
  from trim_stream_packets_list [OF assms(1-3) this assms(5)] show ?thesis
    unfolding perfetto_trim_stream_def .
qed

definition example_in :: in_fd where
  "example_in = \<lparr>in_bytes = [10, 4, 80, 1, 64, 60], in_sched = [RIntr, RXfer 0, RXfer 7, RIntr, RXfer 1]\<rparr>"

definition example_out :: out_fd where
  "example_out = \<lparr>out_bytes = [], out_sched = [WXfer 0, WIntr, WXfer 2]\<rparr>"

lemma example_fields:
  "parse_fields (in_bytes example_in) = Inr [delimited_field 10 [80, 1, 64, 60]]"
  "trim_list (\<lambda>_. True) 50 50 \<lparr>clock_defaults = []\<rparr> [[80, 1, 64, 60]] = Inr [[80, 1, 64, 60]]"
  by code_simp+

theorem perfetto_trim_stream_correct_witness:
  "\<exists>out'. perfetto_trim_stream (\<lambda>_. True) example_in example_out 50 50 = (None, out') \<and>
     out_bytes out' = packet_frame [80, 1, 64, 60]"
proof -
  have "benign_in example_in" "benign_out example_out"
    by (auto simp: benign_in_def benign_out_def example_in_def example_out_def)
  from perfetto_trim_stream_correct [OF this _ example_fields(1), where mem = "\<lambda>_. True" and bc = 50 and mc = 50]
  have "case trim_list (\<lambda>_. True) 50 50 \<lparr>clock_defaults = []\<rparr> [[80, 1, 64, 60]] of
      Inl e \<Rightarrow> fst (perfetto_trim_stream (\<lambda>_. True) example_in example_out 50 50) = Some e
    | Inr qs \<Rightarrow> \<exists>out'. perfetto_trim_stream (\<lambda>_. True) example_in example_out 50 50 = (None, out') \<and>
        out_bytes out' = out_bytes example_out @ concat (map packet_frame qs)"
    by (simp add: delimited_field_def)
  moreover have "out_bytes example_out = []" by (simp add: example_out_def)
  ultimately show ?thesis by (simp add: example_fields(2) del: trim_list.simps)
qed

text \<open>
  C3. Replacing the file: a successful run replaces the trace by the trimmed stream and leaves no
  temporary file; a failing run leaves the trace as it was; no other file is touched in either
  case.
\<close>

theorem perfetto_trim_file_atomic:
  assumes "perfetto_trim_file mem env fs (Some path) bc mc = (r, fs')"
  shows "(r = None \<longrightarrow>
       fs' (trim_temporary path) = None \<and>
       (\<exists>data out. fs path = Some data \<and>
          perfetto_trim_stream mem \<lparr>in_bytes = data, in_sched = reads env\<rparr>
            \<lparr>out_bytes = [], out_sched = writes env\<rparr> bc mc = (None, out) \<and>
          fs' path = Some (out_bytes out))) \<and>
     (r \<noteq> None \<longrightarrow> fs' path = fs path) \<and>
     (\<forall>q. q \<noteq> path \<longrightarrow> q \<noteq> trim_temporary path \<longrightarrow> fs' q = fs q)"
  using perfetto_trim_file_frame [OF assms] by blast

definition quiet_env :: trim_env where
  "quiet_env = \<lparr>snprintf_fails = False, open_in_err = None, open_out_err = None, reads = [],
     writes = [], fsync_err = None, close_err = None, rename_err = None\<rparr>"

lemma trim_file_example:
  "perfetto_trim_file (\<lambda>_. True) quiet_env [''t'' \<mapsto> [10, 4, 80, 1, 64, 60]] (Some ''t'') 100 50 =
     (None, [''t'' \<mapsto> []])"
proof -
  have "perfetto_trim_stream (\<lambda>_. True) \<lparr>in_bytes = [10, 4, 80, 1, 64, 60], in_sched = []\<rparr>
      \<lparr>out_bytes = [], out_sched = []\<rparr> 100 50 = (None, \<lparr>out_bytes = [], out_sched = []\<rparr>)"
    by code_simp
  then show ?thesis
    by (auto simp: perfetto_trim_file_def quiet_env_def trim_temporary_def PATH_MAX_def or_else_def)
qed

theorem perfetto_trim_file_atomic_witness:
  "\<exists>out. perfetto_trim_stream (\<lambda>_. True) \<lparr>in_bytes = [10, 4, 80, 1, 64, 60], in_sched = []\<rparr>
      \<lparr>out_bytes = [], out_sched = []\<rparr> 100 50 = (None, out) \<and> out_bytes out = []"
  using perfetto_trim_file_atomic [OF trim_file_example] by (auto simp: quiet_env_def)

section \<open>Observations on the code\<close>

text \<open>
  C4. A file with the temporary name that existed before the run is not used (\<open>O_EXCL\<close>), but the
  clean-up at label \<open>out\<close> removes it although this run did not create it.
\<close>

theorem trim_file_removes_foreign_temporary:
  assumes "fs path = Some data" and "fs (trim_temporary path) = Some other"
    and "open_in_err env = None" and "open_out_err env = None" and "\<not> snprintf_fails env"
    and "length path < 4086"
  shows "perfetto_trim_file mem env fs (Some path) bc mc = (Some EEXIST, fs(trim_temporary path := None))"
  using assms by (simp add: perfetto_trim_file_def trim_temporary_def PATH_MAX_def)

theorem trim_file_removes_foreign_temporary_witness:
  "perfetto_trim_file (\<lambda>_. True) quiet_env [''t'' \<mapsto> [], ''t.trim.tmp'' \<mapsto> [1, 2, 3]] (Some ''t'') 0 0 =
     (Some EEXIST, [''t'' \<mapsto> []])"
proof -
  have "trim_temporary ''t'' = ''t.trim.tmp''" by (simp add: trim_temporary_def)
  then show ?thesis
    using trim_file_removes_foreign_temporary
      [where fs = "[''t'' \<mapsto> [], ''t.trim.tmp'' \<mapsto> [1, 2, 3]]" and path = "''t''" and env = quiet_env
        and mem = "\<lambda>_. True" and bc = 0 and mc = 0]
    by (auto simp: quiet_env_def fun_eq_iff)
qed

text \<open>
  A dropped packet may have declared the default clock of its sequence.  The packets of that
  sequence that are kept then lack the declaration: here the second packet (monotonic time 60,
  monotonic cut-off 50) is kept at first, and dropped when the trimmed trace is trimmed again with
  the same cut-offs, because without the declaration its time counts as boottime.
\<close>

lemma trim_loses_default_clock:
  "trim_list (\<lambda>_. True) 100 50 \<lparr>clock_defaults = []\<rparr>
     [[80, 1, 218, 3, 3, 208, 3, 3, 64, 5], [80, 1, 64, 60]] = Inr [[80, 1, 64, 60]] \<and>
   trim_list (\<lambda>_. True) 100 50 \<lparr>clock_defaults = []\<rparr> [[80, 1, 64, 60]] = Inr []"
  by code_simp

end
