(* ===== verification/CaptureQueue.thy ===== *)
theory CaptureQueue
  imports Prelude
begin

text \<open>
  The capture queue between the perf-buffer callback and the export worker
  (\<open>capture_queue.c\<close>): a byte ring of framed records, filled by one producer and drained by one
  worker thread under a mutex and a condition variable.  The ring itself is the record
  \<^verbatim>\<open>queue\<close>; the two threads are the step relation \<^verbatim>\<open>cq_step\<close>, one rule per critical section or
  unlocked call.
\<close>

section \<open>Records and the byte ring\<close>

definition MAX_SAMPLE_BYTES :: u32 where
  "MAX_SAMPLE_BYTES = 65536"

record queue_record =
  qr_size :: u32
  qr_cpu :: u32
  qr_lost :: u64

text \<open>The object representation of \<open>struct queue_record\<close>: 4 + 4 + 8 bytes, no padding.\<close>

definition record_sizeof :: nat where
  "record_sizeof = 16"

definition record_bytes :: "queue_record \<Rightarrow> bytes" where
  "record_bytes r = le_bytes 4 (qr_size r) @ le_bytes 4 (qr_cpu r) @ le_bytes 8 (qr_lost r)"

definition bytes_record :: "bytes \<Rightarrow> queue_record" where
  "bytes_record b =
     \<lparr>qr_size = le_word (take 4 b), qr_cpu = le_word (take 4 (drop 4 b)), qr_lost = le_word (take 8 (drop 8 b))\<rparr>"

record queue =
  q_data :: "bytes option"
  q_capacity :: nat
  q_head :: nat
  q_tail :: nat
  q_used :: nat
  q_dropped :: u64
  q_kernel_lost :: u64
  q_stopping :: bool
  q_tick :: bool

text \<open>\<open>None\<close> is an access outside the allocated block (or through a null pointer).\<close>

definition queue_write :: "queue \<Rightarrow> bytes \<Rightarrow> queue option" where
  "queue_write q d =
     (case q_data q of
        None \<Rightarrow> None
      | Some buf \<Rightarrow>
          (let first = min (q_capacity q - q_head q) (length d) in
           case memcpy_to buf (q_head q) (take first d) of
             None \<Rightarrow> None
           | Some buf1 \<Rightarrow>
               (case memcpy_to buf1 0 (drop first d) of
                  None \<Rightarrow> None
                | Some buf2 \<Rightarrow>
                    Some (q\<lparr>q_data := Some buf2,
                            q_head := (q_head q + length d) mod q_capacity q,
                            q_used := q_used q + length d\<rparr>))))"

definition queue_read :: "queue \<Rightarrow> nat \<Rightarrow> (bytes \<times> queue) option" where
  "queue_read q n =
     (case q_data q of
        None \<Rightarrow> None
      | Some buf \<Rightarrow>
          (let first = min (q_capacity q - q_tail q) n in
           case (memcpy_from buf (q_tail q) first, memcpy_from buf 0 (n - first)) of
             (Some a, Some b) \<Rightarrow>
               Some (a @ b, q\<lparr>q_tail := (q_tail q + n) mod q_capacity q, q_used := q_used q - n\<rparr>)
           | _ \<Rightarrow> None))"

section \<open>What a byte ring promises\<close>

text \<open>
  The interface the framing layer relies on: a bounded queue of bytes.  \<open>rest\<close> is everything a
  transfer leaves alone.
\<close>

locale byte_ring =
  fixes wr :: "'s \<Rightarrow> bytes \<Rightarrow> 's option"
    and rd :: "'s \<Rightarrow> nat \<Rightarrow> (bytes \<times> 's) option"
    and cont :: "'s \<Rightarrow> bytes"
    and room :: "'s \<Rightarrow> nat"
    and inv :: "'s \<Rightarrow> bool"
    and rest :: "'s \<Rightarrow> 'r"
  assumes wr_law: "inv s \<Longrightarrow> length d \<le> room s \<Longrightarrow>
      \<exists>s'. wr s d = Some s' \<and> inv s' \<and> cont s' = cont s @ d \<and> room s' = room s - length d \<and> rest s' = rest s"
    and rd_law: "inv s \<Longrightarrow> n \<le> length (cont s) \<Longrightarrow>
      \<exists>s'. rd s n = Some (take n (cont s), s') \<and> inv s' \<and> cont s' = drop n (cont s) \<and>
           room s' = room s + n \<and> rest s' = rest s"
begin

lemma push_frame:
  assumes "inv s" and "length h + length d \<le> room s"
  shows "\<exists>s1 s2. wr s h = Some s1 \<and> wr s1 d = Some s2 \<and> inv s1 \<and> inv s2 \<and>
           cont s1 = cont s @ h \<and> cont s2 = cont s @ h @ d \<and>
           room s2 = room s - (length h + length d) \<and> rest s1 = rest s \<and> rest s2 = rest s"
proof -
  obtain s1 where s1: "wr s h = Some s1" "inv s1" "cont s1 = cont s @ h" "room s1 = room s - length h"
      "rest s1 = rest s"
    using wr_law [of s h] assms by auto
  moreover obtain s2 where "wr s1 d = Some s2" "inv s2" "cont s2 = cont s1 @ d"
      "room s2 = room s1 - length d" "rest s2 = rest s1"
    using wr_law [of s1 d] s1 assms by (metis add_le_imp_le_diff add.commute)
  ultimately show ?thesis
    by auto
qed

lemma pop_frame:
  assumes "inv s" and "cont s = h @ d @ suf"
  shows "\<exists>s1 s2. rd s (length h) = Some (h, s1) \<and> rd s1 (length d) = Some (d, s2) \<and> inv s1 \<and> inv s2 \<and>
           cont s1 = d @ suf \<and> cont s2 = suf \<and> room s2 = room s + (length h + length d) \<and>
           rest s1 = rest s \<and> rest s2 = rest s"
proof -
  obtain s1 where s1: "rd s (length h) = Some (h, s1)" "inv s1" "cont s1 = d @ suf"
      "room s1 = room s + length h" "rest s1 = rest s"
    using rd_law [of s "length h"] assms by auto
  moreover obtain s2 where "rd s1 (length d) = Some (d, s2)" "inv s2" "cont s2 = suf"
      "room s2 = room s1 + length d" "rest s2 = rest s1"
    using rd_law [of s1 "length d"] s1 by auto
  ultimately show ?thesis
    by auto
qed

end

text \<open>The ring of the code: \<open>used\<close> bytes starting at \<open>tail\<close>, wrapping at \<open>capacity\<close>.\<close>

definition ring_ok :: "queue \<Rightarrow> bool" where
  "ring_ok q \<longleftrightarrow>
     (case q_data q of
        None \<Rightarrow> False
      | Some buf \<Rightarrow>
          length buf = q_capacity q \<and> 0 < q_capacity q \<and> q_tail q < q_capacity q \<and>
          q_used q \<le> q_capacity q \<and> q_head q = (q_tail q + q_used q) mod q_capacity q)"

definition contents :: "queue \<Rightarrow> bytes" where
  "contents q = map (\<lambda>i. the (q_data q) ! ((q_tail q + i) mod q_capacity q)) [0..<q_used q]"

definition queue_room :: "queue \<Rightarrow> nat" where
  "queue_room q = q_capacity q - q_used q"

definition queue_rest :: "queue \<Rightarrow> nat \<times> u64 \<times> u64 \<times> bool \<times> bool" where
  "queue_rest q = (q_capacity q, q_dropped q, q_kernel_lost q, q_stopping q, q_tick q)"

lemma length_contents [simp]: "length (contents q) = q_used q"
  by (simp add: contents_def)

lemma queue_write_ok:
  assumes ok: "ring_ok q" and room: "length d \<le> queue_room q"
  shows "\<exists>q'. queue_write q d = Some q' \<and> ring_ok q' \<and> contents q' = contents q @ d \<and>
              queue_room q' = queue_room q - length d \<and> queue_rest q' = queue_rest q"
proof -
  obtain buf where buf: "q_data q = Some buf" "length buf = q_capacity q" "0 < q_capacity q"
      "q_tail q < q_capacity q" "q_used q \<le> q_capacity q"
      "q_head q = (q_tail q + q_used q) mod q_capacity q"
    using ok by (auto simp: ring_ok_def split: option.splits)
  define c h first where "c = q_capacity q" and "h = q_head q" and "first = min (c - h) (length d)"
  have h: "h < c" "length d + q_used q \<le> c"
    using buf room by (auto simp: h_def c_def queue_room_def)
  have fl: "h + first \<le> length buf" "first \<le> length d"
    using h buf by (simp_all add: first_def c_def)
  from fl obtain b1 where b1: "memcpy_to buf h (take first d) = Some b1"
    by (simp add: memcpy_to_def)
  have len1: "length b1 = c"
    using memcpy_to_nth [OF b1] buf by (simp add: c_def)
  have "length d - first \<le> length b1"
    using h len1 by linarith
  then obtain b2 where b2: "memcpy_to b1 0 (drop first d) = Some b2"
    by (simp add: memcpy_to_def)
  have len2: "length b2 = c"
    using memcpy_to_nth [OF b2] len1 by simp
  have nth: "b2 ! j = (if j < length d - first then d ! (first + j)
                        else if h \<le> j \<and> j < h + first then d ! (j - h) else buf ! j)" if "j < c" for j
    using memcpy_to_nth [OF b1] memcpy_to_nth [OF b2] that len1 fl buf(2)
    by (auto simp: c_def [symmetric] min_absorb2)
  define q' where "q' = q\<lparr>q_data := Some b2, q_head := (h + length d) mod c, q_used := q_used q + length d\<rparr>"
  have eq: "queue_write q d = Some q'"
    using b1 b2 buf by (simp add: queue_write_def q'_def first_def c_def h_def Let_def)
  have "contents q' = contents q @ d"
  proof (rule nth_equalityI)
    show "length (contents q') = length (contents q @ d)"
      by (simp add: q'_def)
    fix i assume i: "i < length (contents q')"
    then have i': "i < q_used q + length d"
      by (simp add: q'_def)
    have hh: "h = (if q_tail q + q_used q < c then q_tail q + q_used q else q_tail q + q_used q - c)"
      using buf by (simp add: h_def c_def add_mod_wrap)
    have m: "(q_tail q + i) mod c = (if q_tail q + i < c then q_tail q + i else q_tail q + i - c)"
      using buf i' h by (intro add_mod_wrap) (auto simp: c_def)
    have mc: "(q_tail q + i) mod c < c"
      using buf by (simp add: c_def)
    show "contents q' ! i = (contents q @ d) ! i"
    proof (cases "i < q_used q")
      case True
      have "b2 ! ((q_tail q + i) mod c) = buf ! ((q_tail q + i) mod c)"
        using True h buf(4,5) unfolding nth [OF mc] unfolding m
        by (auto simp: hh first_def c_def [symmetric] split: if_splits)
      with True i' show ?thesis
        by (simp add: contents_def q'_def nth_append c_def buf)
    next
      case False
      have "b2 ! ((q_tail q + i) mod c) = d ! (i - q_used q)"
        using False i' h buf(4,5) unfolding nth [OF mc] unfolding m
        by (auto simp: hh first_def c_def [symmetric] split: if_splits intro!: arg_cong [where f = "nth d"])
      with False i' show ?thesis
        by (simp add: contents_def q'_def nth_append c_def)
    qed
  qed
  moreover have "ring_ok q'"
    using buf len2 h by (simp add: ring_ok_def q'_def c_def h_def mod_add_left_eq add.assoc)
  moreover have "queue_room q' = queue_room q - length d" "queue_rest q' = queue_rest q"
    by (simp_all add: queue_room_def queue_rest_def q'_def)
  ultimately show ?thesis
    using eq by blast
qed

lemma queue_read_ok:
  assumes ok: "ring_ok q" and n: "n \<le> q_used q"
  shows "\<exists>q'. queue_read q n = Some (take n (contents q), q') \<and> ring_ok q' \<and>
              contents q' = drop n (contents q) \<and> queue_room q' = queue_room q + n \<and>
              queue_rest q' = queue_rest q"
proof -
  obtain buf where buf: "q_data q = Some buf" "length buf = q_capacity q" "0 < q_capacity q"
      "q_tail q < q_capacity q" "q_used q \<le> q_capacity q"
      "q_head q = (q_tail q + q_used q) mod q_capacity q"
    using ok by (auto simp: ring_ok_def split: option.splits)
  define c first where "c = q_capacity q" and "first = min (c - q_tail q) n"
  define q' where "q' = q\<lparr>q_tail := (q_tail q + n) mod c, q_used := q_used q - n\<rparr>"
  have "queue_read q n = Some (take first (drop (q_tail q) buf) @ take (n - first) buf, q')"
    using buf n by (auto simp: queue_read_def memcpy_from_def first_def c_def q'_def Let_def)
  moreover have "take first (drop (q_tail q) buf) @ take (n - first) buf = take n (contents q)"
  proof (rule nth_equalityI)
    show "length (take first (drop (q_tail q) buf) @ take (n - first) buf) = length (take n (contents q))"
      using buf n by (auto simp: first_def c_def)
    fix i assume i: "i < length (take first (drop (q_tail q) buf) @ take (n - first) buf)"
    then have i': "i < n"
      using buf n by (auto simp: first_def c_def)
    have m: "(q_tail q + i) mod c = (if q_tail q + i < c then q_tail q + i else q_tail q + i - c)"
      using buf i' n by (intro add_mod_wrap) (auto simp: c_def)
    show "(take first (drop (q_tail q) buf) @ take (n - first) buf) ! i = take n (contents q) ! i"
      using buf n i' m
      by (auto simp: contents_def nth_append c_def [symmetric] first_def min_def split: if_splits
               intro!: arg_cong [where f = "nth buf"])
  qed
  moreover have "contents q' = drop n (contents q)"
    using n by (auto simp: contents_def q'_def c_def drop_map mod_add_left_eq intro!: nth_equalityI)
      (simp add: add.assoc)
  moreover have "ring_ok q'"
  proof -
    have "((q_tail q + n) mod c + (q_used q - n)) mod c = (q_tail q + q_used q) mod c"
      unfolding mod_add_left_eq using n by simp
    then show ?thesis
      using buf n by (simp add: ring_ok_def q'_def c_def)
  qed
  moreover have "queue_room q' = queue_room q + n" "queue_rest q' = queue_rest q"
    using buf n by (simp_all add: queue_room_def queue_rest_def q'_def)
  ultimately show ?thesis
    by auto
qed

interpretation cq: byte_ring queue_write queue_read contents queue_room ring_ok queue_rest
  by unfold_locales (use queue_write_ok queue_read_ok in auto)

section \<open>Operations of the producer and of the worker\<close>

datatype export_call =
    ExportEvent bytes u32 u32
  | ExportLost u32 u64
  | ExportTick
  | ExportQueueLost u64

text \<open>Touching one byte of every page faults the block in before the producer runs.\<close>

definition fault_pages :: "bytes \<Rightarrow> bytes" where
  "fault_pages block = map (\<lambda>i. if i mod 4096 = 0 then 0 else block ! i) [0..<length block]"

text \<open>\<open>block\<close> is what \<open>malloc\<close> returns and \<open>create\<close> the error of \<open>pthread_create\<close>.\<close>

definition capture_queue_start :: "nat \<Rightarrow> bytes option \<Rightarrow> errno option \<Rightarrow> queue \<Rightarrow> errno option \<times> queue" where
  "capture_queue_start capacity block create q =
     (if q_data q \<noteq> None then (Some EBUSY, q)
      else if capacity < record_sizeof + 1 then (Some EINVAL, q)
      else case block of
        None \<Rightarrow> (Some ENOMEM, q)
      | Some b \<Rightarrow>
          (let q1 = q\<lparr>q_data := Some (fault_pages b), q_capacity := capacity, q_head := 0, q_tail := 0,
                      q_used := 0, q_dropped := 0, q_kernel_lost := 0, q_stopping := False, q_tick := False\<rparr> in
           case create of
             None \<Rightarrow> (None, q1)
           | Some e \<Rightarrow> (Some e, q1\<lparr>q_data := None\<rparr>)))"

text \<open>The flag of the result says whether the condition variable is signalled.\<close>

definition capture_queue_push :: "queue \<Rightarrow> bytes \<Rightarrow> queue_record \<Rightarrow> (queue \<times> bool) option" where
  "capture_queue_push q d r =
     (if MAX_SAMPLE_BYTES < qr_size r \<or> q_capacity q - q_used q < record_sizeof + unat (qr_size r)
      then Some (if qr_lost r \<noteq> 0 then q\<lparr>q_kernel_lost := q_kernel_lost q + qr_lost r\<rparr>
                 else q\<lparr>q_dropped := q_dropped q + 1\<rparr>, False)
      else let empty = (q_used q = 0) in
        case queue_write q (record_bytes r) of
          None \<Rightarrow> None
        | Some q1 \<Rightarrow>
            if qr_size r = 0 then Some (q1, empty)
            else if length d < unat (qr_size r) then None
            else case queue_write q1 (take (unat (qr_size r)) d) of
              None \<Rightarrow> None
            | Some q2 \<Rightarrow> Some (q2, empty))"

definition capture_queue_event :: "queue \<Rightarrow> bytes \<Rightarrow> u32 \<Rightarrow> u32 \<Rightarrow> (queue \<times> bool) option" where
  "capture_queue_event q d cpu size32 = capture_queue_push q d \<lparr>qr_size = size32, qr_cpu = cpu, qr_lost = 0\<rparr>"

definition capture_queue_lost :: "queue \<Rightarrow> u32 \<Rightarrow> u64 \<Rightarrow> (queue \<times> bool) option" where
  "capture_queue_lost q cpu count =
     (if count \<noteq> 0 then capture_queue_push q [] \<lparr>qr_size = 0, qr_cpu = cpu, qr_lost = count\<rparr>
      else Some (q, False))"

definition capture_queue_tick :: "queue \<Rightarrow> queue" where
  "capture_queue_tick q = q\<lparr>q_tick := True\<rparr>"

text \<open>The locked part of \<open>capture_queue_stop\<close>, and what follows once the worker is joined.\<close>

definition capture_queue_request_stop :: "queue \<Rightarrow> queue" where
  "capture_queue_request_stop q = q\<lparr>q_stopping := True\<rparr>"

definition capture_queue_release :: "queue \<Rightarrow> queue" where
  "capture_queue_release q = q\<lparr>q_data := None\<rparr>"

text \<open>
  Where the worker is: about to test the wait condition with the lock held, asleep in
  \<open>pthread_cond_wait\<close>, or in one of its unlocked calls.
\<close>

datatype worker_pc =
    Checking
  | Sleeping
  | Emitting queue_record bytes
  | Ticking bool
  | Finishing
  | Done

definition worker_check :: "queue \<Rightarrow> (queue \<times> worker_pc) option" where
  "worker_check q =
     (if q_used q = 0 \<and> \<not> q_stopping q \<and> \<not> q_tick q then Some (q, Sleeping)
      else if q_used q = 0 then Some (q\<lparr>q_tick := False\<rparr>, Ticking (q_stopping q))
      else case queue_read q record_sizeof of
        None \<Rightarrow> None
      | Some (h, q1) \<Rightarrow>
          (let r = bytes_record h in
           if qr_size r = 0 then Some (q1, Emitting r [])
           else if MAX_SAMPLE_BYTES < qr_size r then None
           else case queue_read q1 (unat (qr_size r)) of
             None \<Rightarrow> None
           | Some (d, q2) \<Rightarrow> Some (q2, Emitting r d)))"

definition emit_call :: "queue_record \<times> bytes \<Rightarrow> export_call" where
  "emit_call x =
     (case x of (r, d) \<Rightarrow>
        if qr_lost r \<noteq> 0 then ExportLost (qr_cpu r) (qr_lost r) else ExportEvent d (qr_cpu r) (qr_size r))"

definition final_calls :: "queue \<Rightarrow> export_call list" where
  "final_calls q =
     (if q_kernel_lost q \<noteq> 0 then [ExportLost (- 1) (q_kernel_lost q)] else []) @
     (if q_dropped q \<noteq> 0 then [ExportQueueLost (q_dropped q)] else [])"

text \<open>
  The two threads.  The last three fields record history only: what the producer offered, and how
  \<open>capture_queue_push\<close> decided.
\<close>

record capture_sys =
  cs_queue :: queue
  cs_pc :: worker_pc
  cs_log :: "export_call list"
  cs_offered :: "(queue_record \<times> bytes) list"
  cs_accepted :: "(queue_record \<times> bytes) list"
  cs_rejected :: "(queue_record \<times> bytes) list"

definition worker_step :: "capture_sys \<Rightarrow> capture_sys option" where
  "worker_step s =
     (case cs_pc s of
        Checking \<Rightarrow>
          (case worker_check (cs_queue s) of
             None \<Rightarrow> None
           | Some (q, pc) \<Rightarrow> Some (s\<lparr>cs_queue := q, cs_pc := pc\<rparr>))
      | Sleeping \<Rightarrow> Some (s\<lparr>cs_pc := Checking\<rparr>)
      | Emitting r d \<Rightarrow> Some (s\<lparr>cs_log := cs_log s @ [emit_call (r, d)], cs_pc := Checking\<rparr>)
      | Ticking stop \<Rightarrow>
          Some (s\<lparr>cs_log := cs_log s @ [ExportTick], cs_pc := (if stop then Finishing else Checking)\<rparr>)
      | Finishing \<Rightarrow> Some (s\<lparr>cs_log := cs_log s @ final_calls (cs_queue s), cs_pc := Done\<rparr>)
      | Done \<Rightarrow> Some s)"

definition cond_signal :: "bool \<Rightarrow> worker_pc \<Rightarrow> worker_pc" where
  "cond_signal sig pc = (if sig \<and> pc = Sleeping then Checking else pc)"

text \<open>
  The history of one call of \<open>capture_queue_push\<close>: the item was accepted exactly when the ring
  grew.
\<close>

definition producer_push :: "capture_sys \<Rightarrow> bytes \<Rightarrow> queue_record \<Rightarrow> queue \<times> bool \<Rightarrow> capture_sys" where
  "producer_push s d r res =
     (case res of (q, sig) \<Rightarrow>
        let stored = (q_used (cs_queue s) < q_used q) in
        s\<lparr>cs_queue := q, cs_pc := cond_signal sig (cs_pc s),
          cs_offered := cs_offered s @ [(r, d)],
          cs_accepted := (if stored then cs_accepted s @ [(r, d)] else cs_accepted s),
          cs_rejected := (if stored then cs_rejected s else cs_rejected s @ [(r, d)])\<rparr>)"

inductive cq_step :: "capture_sys \<Rightarrow> capture_sys \<Rightarrow> bool" where
  event: "\<not> q_stopping (cs_queue s) \<Longrightarrow> length d = unat n \<Longrightarrow>
     capture_queue_event (cs_queue s) d cpu n = Some res \<Longrightarrow>
     cq_step s (producer_push s d \<lparr>qr_size = n, qr_cpu = cpu, qr_lost = 0\<rparr> res)"
| lost: "\<not> q_stopping (cs_queue s) \<Longrightarrow> count \<noteq> 0 \<Longrightarrow>
     capture_queue_lost (cs_queue s) cpu count = Some res \<Longrightarrow>
     cq_step s (producer_push s [] \<lparr>qr_size = 0, qr_cpu = cpu, qr_lost = count\<rparr> res)"
| tick: "\<not> q_stopping (cs_queue s) \<Longrightarrow>
     cq_step s (s\<lparr>cs_queue := capture_queue_tick (cs_queue s), cs_pc := cond_signal True (cs_pc s)\<rparr>)"
| stop: "cq_step s (s\<lparr>cs_queue := capture_queue_request_stop (cs_queue s), cs_pc := cond_signal True (cs_pc s)\<rparr>)"
| worker: "worker_step s = Some s' \<Longrightarrow> cq_step s s'"

definition capture_init :: "queue \<Rightarrow> capture_sys" where
  "capture_init q = \<lparr>cs_queue = q, cs_pc = Checking, cs_log = [], cs_offered = [], cs_accepted = [], cs_rejected = []\<rparr>"

text \<open>The states reached after a successful \<open>capture_queue_start\<close>.\<close>

inductive cq_reachable :: "nat \<Rightarrow> capture_sys \<Rightarrow> bool" for capacity where
  start: "length b = capacity \<Longrightarrow>
     capture_queue_start capacity (Some b) None q = (None, q') \<Longrightarrow> cq_reachable capacity (capture_init q')"
| step: "cq_reachable capacity s \<Longrightarrow> cq_step s s' \<Longrightarrow> cq_reachable capacity s'"

section \<open>Framing\<close>

definition frame :: "queue_record \<times> bytes \<Rightarrow> bytes" where
  "frame x = record_bytes (fst x) @ snd x"

definition item_ok :: "queue_record \<times> bytes \<Rightarrow> bool" where
  "item_ok x \<longleftrightarrow> length (snd x) = unat (qr_size (fst x)) \<and> qr_size (fst x) \<le> MAX_SAMPLE_BYTES \<and>
     (qr_lost (fst x) \<noteq> 0 \<longrightarrow> qr_size (fst x) = 0)"

lemma length_record_bytes [simp]: "length (record_bytes r) = 16"
  by (simp add: record_bytes_def)

lemma record_roundtrip [simp]: "bytes_record (record_bytes r) = r"
  by (simp add: record_bytes_def bytes_record_def le_word_32 le_word_64)

lemma ring_ok_used: "ring_ok q \<Longrightarrow> q_used q \<le> q_capacity q"
  by (auto simp: ring_ok_def split: option.splits)

text \<open>A push that finds room appends one frame; one that does not only counts the loss.\<close>

lemma push_accepts:
  assumes "ring_ok q" and "length d = unat (qr_size r)" and "qr_size r \<le> MAX_SAMPLE_BYTES"
    and "record_sizeof + unat (qr_size r) \<le> queue_room q"
  shows "\<exists>q'. capture_queue_push q d r = Some (q', q_used q = 0) \<and> ring_ok q' \<and>
              contents q' = contents q @ frame (r, d) \<and> queue_rest q' = queue_rest q \<and>
              q_used q < q_used q'"
proof -
  obtain q1 q2 where q: "queue_write q (record_bytes r) = Some q1" "queue_write q1 d = Some q2"
      "ring_ok q1" "ring_ok q2" "contents q1 = contents q @ record_bytes r"
      "contents q2 = contents q @ record_bytes r @ d" "queue_rest q1 = queue_rest q" "queue_rest q2 = queue_rest q"
    using cq.push_frame [of q "record_bytes r" d] assms by (auto simp: record_sizeof_def)
  have "q_used q1 = q_used q + 16" "q_used q2 = q_used q + 16 + length d"
    using q(5,6) [THEN arg_cong [where f = length]] by simp_all
  then show ?thesis
    using assms q
    by (cases "qr_size r = 0")
       (auto simp: capture_queue_push_def Let_def frame_def queue_room_def not_less)
qed

lemma push_rejects:
  assumes "MAX_SAMPLE_BYTES < qr_size r \<or> queue_room q < record_sizeof + unat (qr_size r)"
  shows "capture_queue_push q d r =
     Some (if qr_lost r \<noteq> 0 then q\<lparr>q_kernel_lost := q_kernel_lost q + qr_lost r\<rparr>
           else q\<lparr>q_dropped := q_dropped q + 1\<rparr>, False)"
  using assms by (simp add: capture_queue_push_def queue_room_def)

lemma worker_check_pops:
  assumes "ring_ok q" and "contents q = frame (r, d) @ suf" and "item_ok (r, d)"
  shows "\<exists>q'. worker_check q = Some (q', Emitting r d) \<and> ring_ok q' \<and> contents q' = suf \<and>
              queue_rest q' = queue_rest q \<and> q_used q' < q_used q"
proof -
  obtain q1 q2 where q: "queue_read q 16 = Some (record_bytes r, q1)" "queue_read q1 (length d) = Some (d, q2)"
      "ring_ok q1" "ring_ok q2" "contents q1 = d @ suf"
      "contents q2 = suf" "queue_rest q1 = queue_rest q" "queue_rest q2 = queue_rest q"
    using cq.pop_frame [of q "record_bytes r" d suf] assms by (auto simp: frame_def)
  have u: "q_used q = 16 + length d + length suf" "q_used q1 = length d + length suf" "q_used q2 = length suf"
    using assms(2) [THEN arg_cong [where f = length]] q(5,6) [THEN arg_cong [where f = length]]
    by (simp_all add: frame_def)
  have d: "length d = unat (qr_size r)" "\<not> MAX_SAMPLE_BYTES < qr_size r"
    using assms(3) by (auto simp: item_ok_def)
  show ?thesis
  proof (cases "qr_size r = 0")
    case True
    then have "worker_check q = Some (q1, Emitting r d)" "contents q1 = suf" "q_used q1 < q_used q"
      using u d q(1,5) by (simp_all add: worker_check_def record_sizeof_def)
    with q show ?thesis
      by blast
  next
    case False
    then have "worker_check q = Some (q2, Emitting r d)" "q_used q2 < q_used q"
      using u d q(1,2) by (simp_all add: worker_check_def record_sizeof_def)
    with q show ?thesis
      by blast
  qed
qed

section \<open>The invariant of the two threads\<close>

lemma shuffles_snoc:
  "zs \<in> shuffles xs ys \<Longrightarrow> zs @ [z] \<in> shuffles (xs @ [z]) ys"
  "zs \<in> shuffles xs ys \<Longrightarrow> zs @ [z] \<in> shuffles xs (ys @ [z])"
proof -
  have l: "zs @ [z] \<in> shuffles (xs @ [z]) ys" if "zs \<in> shuffles xs ys" for xs ys zs :: "'a list"
    using that
  proof (induction xs ys arbitrary: zs rule: shuffles.induct)
    case (1 ys)
    then show ?case
      by (induction ys arbitrary: zs) auto
  next
    case (2 xs)
    then show ?case by auto
  next
    case (3 x xs y ys)
    then show ?case by auto
  qed
  show "zs \<in> shuffles xs ys \<Longrightarrow> zs @ [z] \<in> shuffles (xs @ [z]) ys"
    by (rule l)
  show "zs \<in> shuffles xs ys \<Longrightarrow> zs @ [z] \<in> shuffles xs (ys @ [z])"
    by (subst shuffles_commutes, rule l, subst shuffles_commutes)
qed

text \<open>The losses a rejected item stands for.\<close>

definition dropped_events :: "(queue_record \<times> bytes) list \<Rightarrow> nat" where
  "dropped_events xs = length (filter (\<lambda>x. qr_lost (fst x) = 0) xs)"

definition dropped_lost :: "(queue_record \<times> bytes) list \<Rightarrow> u64" where
  "dropped_lost xs = sum_list (map (\<lambda>x. qr_lost (fst x)) xs)"

definition in_flight :: "worker_pc \<Rightarrow> (queue_record \<times> bytes) list" where
  "in_flight pc = (case pc of Emitting r d \<Rightarrow> [(r, d)] | _ \<Rightarrow> [])"

definition exports :: "export_call list \<Rightarrow> export_call list" where
  "exports log = filter (\<lambda>c. c \<noteq> ExportTick) log"

lemma exports_simps [simp]:
  "exports [] = []" "exports (xs @ ys) = exports xs @ exports ys" "exports [ExportTick] = []"
  "exports [emit_call x] = [emit_call x]" "exports (final_calls q) = final_calls q"
  by (auto simp: exports_def emit_call_def final_calls_def split: prod.splits)

definition after_drain :: "worker_pc \<Rightarrow> bool" where
  "after_drain pc \<longleftrightarrow> pc = Ticking True \<or> pc = Finishing \<or> pc = Done"

text \<open>
  \<open>queued\<close> is what the ring holds.  The clauses: the ring is well formed and holds whole frames;
  what has been exported, what the worker holds and what is queued is what was accepted, in order;
  losses are counted; a sleeping worker has nothing to do; the worker leaves its loop only when the
  producer has stopped and the ring is empty.
\<close>

definition cq_inv :: "nat \<Rightarrow> capture_sys \<Rightarrow> (queue_record \<times> bytes) list \<Rightarrow> bool" where
  "cq_inv capacity s queued \<longleftrightarrow>
     (let q = cs_queue s in
      ring_ok q \<and> q_capacity q = capacity \<and> contents q = concat (map frame queued) \<and>
      list_all item_ok queued \<and>
      exports (cs_log s) @ map emit_call (in_flight (cs_pc s)) @ map emit_call queued =
        map emit_call (cs_accepted s) @ (if cs_pc s = Done then final_calls q else []) \<and>
      cs_offered s \<in> shuffles (cs_accepted s) (cs_rejected s) \<and>
      q_dropped q = of_nat (dropped_events (cs_rejected s)) \<and>
      q_kernel_lost q = dropped_lost (cs_rejected s) \<and>
      (cs_pc s = Sleeping \<longrightarrow> q_used q = 0 \<and> \<not> q_stopping q \<and> \<not> q_tick q) \<and>
      (after_drain (cs_pc s) \<longrightarrow> q_stopping q \<and> q_used q = 0))"

lemma queued_empty: "cq_inv capacity s queued \<Longrightarrow> q_used (cs_queue s) = 0 \<longleftrightarrow> queued = []"
proof -
  assume "cq_inv capacity s queued"
  then have "q_used (cs_queue s) = length (concat (map frame queued))"
    by (metis cq_inv_def length_contents)
  then show ?thesis
    by (cases queued) (auto simp: frame_def)
qed

lemma queue_rest_simps:
  "queue_rest q' = queue_rest q \<longleftrightarrow>
     q_capacity q' = q_capacity q \<and> q_dropped q' = q_dropped q \<and> q_kernel_lost q' = q_kernel_lost q \<and>
     q_stopping q' = q_stopping q \<and> q_tick q' = q_tick q"
  by (simp add: queue_rest_def)

lemma final_calls_rest: "queue_rest q' = queue_rest q \<Longrightarrow> final_calls q' = final_calls q"
  by (simp add: queue_rest_def final_calls_def)

text \<open>Changing only the counters or flags leaves the bytes alone.\<close>

lemma ring_upd [simp]:
  "ring_ok (q\<lparr>q_dropped := a\<rparr>) = ring_ok q" "contents (q\<lparr>q_dropped := a\<rparr>) = contents q"
  "ring_ok (q\<lparr>q_kernel_lost := a\<rparr>) = ring_ok q" "contents (q\<lparr>q_kernel_lost := a\<rparr>) = contents q"
  "ring_ok (q\<lparr>q_tick := b\<rparr>) = ring_ok q" "contents (q\<lparr>q_tick := b\<rparr>) = contents q"
  "ring_ok (q\<lparr>q_stopping := b\<rparr>) = ring_ok q" "contents (q\<lparr>q_stopping := b\<rparr>) = contents q"
  by (simp_all add: ring_ok_def contents_def split: option.splits)

lemma inv_push:
  assumes inv: "cq_inv capacity s queued" and run: "\<not> q_stopping (cs_queue s)"
    and d: "length d = unat (qr_size r)" "qr_lost r \<noteq> 0 \<longrightarrow> qr_size r = 0"
    and res: "capture_queue_push (cs_queue s) d r = Some res"
  shows "\<exists>queued'. cq_inv capacity (producer_push s d r res) queued'"
proof -
  let ?q = "cs_queue s"
  have nd: "\<not> after_drain (cs_pc s)" "cs_pc s \<noteq> Done"
    using inv run by (auto simp: cq_inv_def Let_def after_drain_def)
  show ?thesis
  proof (cases "MAX_SAMPLE_BYTES < qr_size r \<or> queue_room ?q < record_sizeof + unat (qr_size r)")
    case True
    have "cq_inv capacity (producer_push s d r res) queued"
      using res inv nd unfolding push_rejects [OF True]
      by (cases "qr_lost r = 0")
         (auto simp: cq_inv_def producer_push_def Let_def cond_signal_def dropped_events_def dropped_lost_def
            shuffles_snoc)
    then show ?thesis ..
  next
    case False
    then have le: "qr_size r \<le> MAX_SAMPLE_BYTES" "record_sizeof + unat (qr_size r) \<le> queue_room ?q"
      by (auto simp: not_less)
    have ok: "ring_ok ?q"
      using inv by (simp add: cq_inv_def Let_def)
    obtain q' where q': "capture_queue_push ?q d r = Some (q', q_used ?q = 0)" "ring_ok q'"
        "contents q' = contents ?q @ frame (r, d)" "queue_rest q' = queue_rest ?q" "q_used ?q < q_used q'"
      using push_accepts [OF ok d(1) le] by blast
    have p: "producer_push s d r res = s\<lparr>cs_queue := q', cs_pc := cond_signal (q_used ?q = 0) (cs_pc s),
        cs_offered := cs_offered s @ [(r, d)], cs_accepted := cs_accepted s @ [(r, d)]\<rparr>"
      using res q'(1,5) by (auto simp: producer_push_def)
    have i: "item_ok (r, d)"
      using d le by (simp add: item_ok_def)
    have pc: "cond_signal (q_used ?q = 0) (cs_pc s) \<noteq> Sleeping" "cond_signal (q_used ?q = 0) (cs_pc s) \<noteq> Done"
        "\<not> after_drain (cond_signal (q_used ?q = 0) (cs_pc s))"
        "in_flight (cond_signal (q_used ?q = 0) (cs_pc s)) = in_flight (cs_pc s)"
      using inv nd by (auto simp: cond_signal_def cq_inv_def Let_def after_drain_def in_flight_def)
    have "cq_inv capacity (producer_push s d r res) (queued @ [(r, d)])"
      using inv nd q'(2-4) i pc unfolding p
      by (simp add: cq_inv_def Let_def shuffles_snoc queue_rest_simps)
    then show ?thesis ..
  qed
qed

lemma inv_worker:
  assumes inv: "cq_inv capacity s queued"
  shows "\<exists>s' queued'. worker_step s = Some s' \<and> cq_inv capacity s' queued' \<and>
           q_stopping (cs_queue s') = q_stopping (cs_queue s) \<and>
           cs_accepted s' = cs_accepted s \<and> cs_rejected s' = cs_rejected s"
proof (cases "cs_pc s")
  case Checking
  show ?thesis
  proof (cases queued)
    case Nil
    then have "q_used (cs_queue s) = 0"
      using queued_empty [OF inv] by simp
    then have "\<exists>s'. worker_step s = Some s' \<and> cq_inv capacity s' queued \<and>
           q_stopping (cs_queue s') = q_stopping (cs_queue s) \<and>
           cs_accepted s' = cs_accepted s \<and> cs_rejected s' = cs_rejected s"
      using inv Checking
      by (auto simp: worker_step_def worker_check_def cq_inv_def Let_def in_flight_def after_drain_def)
    then show ?thesis by blast
  next
    case (Cons x xs)
    obtain r d where x: "x = (r, d)"
      by (cases x)
    have q: "ring_ok (cs_queue s)" "contents (cs_queue s) = frame (r, d) @ concat (map frame xs)" "item_ok (r, d)"
      using inv Cons x by (auto simp: cq_inv_def Let_def)
    obtain q' where q': "worker_check (cs_queue s) = Some (q', Emitting r d)" "ring_ok q'"
        "contents q' = concat (map frame xs)" "queue_rest q' = queue_rest (cs_queue s)"
      using worker_check_pops [OF q] by blast
    have "cq_inv capacity (s\<lparr>cs_queue := q', cs_pc := Emitting r d\<rparr>) xs"
      using inv Checking Cons x q'
      by (auto simp: cq_inv_def Let_def in_flight_def after_drain_def queue_rest_simps)
    then show ?thesis
      using q'(1,4) Checking by (auto simp: worker_step_def queue_rest_simps)
  qed
next
  case Finishing
  have "queued = []"
    using inv Finishing queued_empty [OF inv] by (simp add: cq_inv_def Let_def after_drain_def)
  then show ?thesis
    using inv Finishing
    by (intro exI [of _ "s\<lparr>cs_log := cs_log s @ final_calls (cs_queue s), cs_pc := Done\<rparr>"] exI [of _ queued])
       (auto simp: worker_step_def cq_inv_def Let_def in_flight_def after_drain_def)
next
  case Sleeping
  then have "cq_inv capacity (s\<lparr>cs_pc := Checking\<rparr>) queued"
    using inv by (simp add: cq_inv_def Let_def in_flight_def after_drain_def)
  with Sleeping show ?thesis
    by (force simp: worker_step_def)
next
  case (Emitting r d)
  then have "cq_inv capacity (s\<lparr>cs_log := cs_log s @ [emit_call (r, d)], cs_pc := Checking\<rparr>) queued"
    using inv by (simp add: cq_inv_def Let_def in_flight_def after_drain_def)
  with Emitting show ?thesis
    by (force simp: worker_step_def)
next
  case (Ticking stop)
  then have "cq_inv capacity (s\<lparr>cs_log := cs_log s @ [ExportTick], cs_pc := if stop then Finishing else Checking\<rparr>) queued"
    using inv by (simp add: cq_inv_def Let_def in_flight_def after_drain_def)
  with Ticking show ?thesis
    by (force simp: worker_step_def)
next
  case Done
  then have "worker_step s = Some s"
    by (simp add: worker_step_def)
  with inv show ?thesis
    by blast
qed

lemma inv_flags:
  assumes "cq_inv capacity s queued" and "q = cs_queue s\<lparr>q_tick := a\<rparr> \<or> q = cs_queue s\<lparr>q_stopping := True\<rparr>"
  shows "cq_inv capacity (s\<lparr>cs_queue := q, cs_pc := cond_signal True (cs_pc s)\<rparr>) queued"
proof -
  have "ring_ok q = ring_ok (cs_queue s)" "contents q = contents (cs_queue s)" "final_calls q = final_calls (cs_queue s)"
      "q_stopping (cs_queue s) \<longrightarrow> q_stopping q" "q_used q = q_used (cs_queue s)" "q_capacity q = q_capacity (cs_queue s)"
      "q_dropped q = q_dropped (cs_queue s)" "q_kernel_lost q = q_kernel_lost (cs_queue s)"
    using assms(2) by (auto simp: final_calls_def)
  moreover have "cond_signal True pc \<noteq> Sleeping" "(cond_signal True pc = Done) = (pc = Done)"
      "after_drain (cond_signal True pc) = after_drain pc" "in_flight (cond_signal True pc) = in_flight pc" for pc
    by (auto simp: cond_signal_def after_drain_def in_flight_def)
  ultimately show ?thesis
    using assms(1) by (simp add: cq_inv_def Let_def)
qed

lemma start_ok:
  assumes "capture_queue_start capacity (Some b) None q = (None, q')" and "length b = capacity"
  shows "cq_inv capacity (capture_init q') []"
  using assms
  by (auto simp: capture_queue_start_def Let_def cq_inv_def capture_init_def ring_ok_def contents_def
        fault_pages_def record_sizeof_def in_flight_def after_drain_def dropped_events_def dropped_lost_def
        exports_def split: if_splits)

lemma cq_step_inv:
  assumes "cq_step s s'" and "cq_inv capacity s queued"
  shows "\<exists>queued'. cq_inv capacity s' queued'"
  using assms
proof (cases rule: cq_step.cases)
  case (event d n cpu res)
  then show ?thesis
    using inv_push [OF assms(2)] by (simp add: capture_queue_event_def)
next
  case (lost count cpu res)
  then show ?thesis
    using inv_push [OF assms(2)] by (simp add: capture_queue_lost_def)
next
  case tick
  then show ?thesis
    using inv_flags [OF assms(2)] by (auto simp: capture_queue_tick_def)
next
  case stop
  then show ?thesis
    using inv_flags [OF assms(2)] by (auto simp: capture_queue_request_stop_def)
next
  case worker
  then show ?thesis
    using inv_worker [OF assms(2)] by auto
qed

lemma cq_reachable_inv: "cq_reachable capacity s \<Longrightarrow> \<exists>queued. cq_inv capacity s queued"
proof (induction rule: cq_reachable.induct)
  case (start b q q')
  then show ?case
    using start_ok by blast
next
  case (step s s')
  then show ?case
    using cq_step_inv by blast
qed

section \<open>Termination of the worker\<close>

definition worker_rank :: "capture_sys \<Rightarrow> nat" where
  "worker_rank s =
     (case cs_pc s of
        Checking \<Rightarrow> 2 * q_used (cs_queue s) + 3
      | Sleeping \<Rightarrow> 2 * q_used (cs_queue s) + 4
      | Emitting r d \<Rightarrow> 2 * q_used (cs_queue s) + 4
      | Ticking stop \<Rightarrow> if stop then 2 else 2 * q_used (cs_queue s) + 4
      | Finishing \<Rightarrow> 1
      | Done \<Rightarrow> 0)"

fun worker_run :: "nat \<Rightarrow> capture_sys \<Rightarrow> capture_sys option" where
  "worker_run 0 s = Some s"
| "worker_run (Suc n) s = (case worker_step s of None \<Rightarrow> None | Some s' \<Rightarrow> worker_run n s')"

lemma worker_rank_decreases:
  assumes inv: "cq_inv capacity s queued" and stop: "q_stopping (cs_queue s)" and pc: "cs_pc s \<noteq> Done"
    and step: "worker_step s = Some s'"
  shows "worker_rank s' < worker_rank s"
proof (cases "cs_pc s")
  case Checking
  show ?thesis
  proof (cases queued)
    case Nil
    then show ?thesis
      using queued_empty [OF inv] stop step Checking
      by (auto simp: worker_step_def worker_check_def worker_rank_def)
  next
    case (Cons x xs)
    obtain r d where x: "x = (r, d)"
      by (cases x)
    have q: "ring_ok (cs_queue s)" "contents (cs_queue s) = frame (r, d) @ concat (map frame xs)" "item_ok (r, d)"
      using inv Cons x by (auto simp: cq_inv_def Let_def)
    obtain q' where "worker_check (cs_queue s) = Some (q', Emitting r d)" "q_used q' < q_used (cs_queue s)"
      using worker_check_pops [OF q] by blast
    with step Checking show ?thesis
      by (auto simp: worker_step_def worker_rank_def)
  qed
qed (use step pc in \<open>auto simp: worker_step_def worker_rank_def split: if_splits\<close>)

lemma worker_drains:
  assumes "cq_inv capacity s queued" and "q_stopping (cs_queue s)"
  shows "\<exists>n s'. n \<le> worker_rank s \<and> worker_run n s = Some s' \<and> cs_pc s' = Done \<and> cq_inv capacity s' [] \<and>
           cs_accepted s' = cs_accepted s \<and> cs_rejected s' = cs_rejected s"
  using assms
proof (induction "worker_rank s" arbitrary: s queued rule: less_induct)
  case less
  show ?case
  proof (cases "cs_pc s = Done")
    case True
    then have "queued = []"
      using less.prems queued_empty [OF less.prems(1)] by (simp add: cq_inv_def Let_def after_drain_def)
    with True less.prems show ?thesis
      by (intro exI [of _ 0] exI [of _ s]) simp
  next
    case False
    obtain s1 queued1 where s1: "worker_step s = Some s1" "cq_inv capacity s1 queued1"
        "q_stopping (cs_queue s1)" "cs_accepted s1 = cs_accepted s" "cs_rejected s1 = cs_rejected s"
      using inv_worker [OF less.prems(1)] less.prems(2) by blast
    have lt: "worker_rank s1 < worker_rank s"
      using worker_rank_decreases [OF less.prems False s1(1)] .
    obtain n s' where n: "n \<le> worker_rank s1" "worker_run n s1 = Some s'" "cs_pc s' = Done" "cq_inv capacity s' []"
        "cs_accepted s' = cs_accepted s1" "cs_rejected s' = cs_rejected s1"
      using less.hyps [OF lt s1(2,3)] by blast
    then show ?thesis
      using s1 lt by (intro exI [of _ "Suc n"] exI [of _ s']) simp
  qed
qed

section \<open>Correctness of the capture queue\<close>

text \<open>
  C5. No loss, duplication or reordering inside the queue.  In every reachable state of the two
  threads there is a list of queued records such that the ring holds exactly their frames, and the
  calls made so far (ticks aside), the record the worker holds and the queued records together are
  the accepted records in the order the producer offered them; every offered record was either
  accepted or rejected, and the two loss counters add up the rejected ones (modulo 2^64).
\<close>

theorem capture_queue_fifo:
  assumes "cq_reachable capacity s" and "cs_pc s \<noteq> Done"
  shows "\<exists>queued.
           contents (cs_queue s) = concat (map frame queued) \<and>
           exports (cs_log s) @ map emit_call (in_flight (cs_pc s) @ queued) = map emit_call (cs_accepted s) \<and>
           cs_offered s \<in> shuffles (cs_accepted s) (cs_rejected s) \<and>
           q_dropped (cs_queue s) = of_nat (dropped_events (cs_rejected s)) \<and>
           q_kernel_lost (cs_queue s) = dropped_lost (cs_rejected s)"
  using cq_reachable_inv [OF assms(1)] assms(2) by (auto simp: cq_inv_def Let_def)

definition capture_demo_queue :: queue where
  "capture_demo_queue = snd (capture_queue_start 40 (Some (replicate 40 0)) None
     \<lparr>q_data = None, q_capacity = 0, q_head = 0, q_tail = 0, q_used = 0, q_dropped = 0, q_kernel_lost = 0,
      q_stopping = False, q_tick = False\<rparr>)"

definition capture_demo_push :: "capture_sys \<Rightarrow> bytes \<Rightarrow> capture_sys" where
  "capture_demo_push s d = (let n = of_nat (length d) in
     producer_push s d \<lparr>qr_size = n, qr_cpu = 1, qr_lost = 0\<rparr> (the (capture_queue_event (cs_queue s) d 1 n)))"

text \<open>Two events offered to a ring of 40 bytes: the first fits, the second is dropped.\<close>

definition capture_demo_sys :: capture_sys where
  "capture_demo_sys = capture_demo_push (capture_demo_push (capture_init capture_demo_queue) [1, 2, 3, 4, 5]) [6, 7, 8, 9]"

lemma capture_demo_start: "cq_reachable 40 (capture_init capture_demo_queue)"
  by (rule cq_reachable.start [of "replicate 40 0" 40
        "\<lparr>q_data = None, q_capacity = 0, q_head = 0, q_tail = 0, q_used = 0, q_dropped = 0, q_kernel_lost = 0,
         q_stopping = False, q_tick = False\<rparr>"])
     (simp_all add: capture_demo_queue_def capture_queue_start_def record_sizeof_def)

lemma capture_demo_push_reachable:
  assumes "cq_reachable capacity s" and "\<not> q_stopping (cs_queue s)" and "length d < 2 ^ 32"
    and "capture_queue_event (cs_queue s) d 1 (of_nat (length d)) \<noteq> None"
  shows "cq_reachable capacity (capture_demo_push s d)"
proof -
  have "length d = unat (of_nat (length d) :: u32)"
    using assms(3) by (simp add: unsigned_of_nat take_bit_nat_eq_self)
  then show ?thesis
    using assms cq_step.event [of s d "of_nat (length d)" 1 "the (capture_queue_event (cs_queue s) d 1 (of_nat (length d)))"]
    by (auto simp: capture_demo_push_def Let_def intro: cq_reachable.step)
qed

lemma capture_demo_reachable: "cq_reachable 40 capture_demo_sys"
  unfolding capture_demo_sys_def
  by (intro capture_demo_push_reachable capture_demo_start) (code_simp, simp, code_simp, code_simp, simp, code_simp)

theorem capture_queue_fifo_witness:
  "\<exists>queued. contents (cs_queue capture_demo_sys) = concat (map frame queued) \<and>
     exports (cs_log capture_demo_sys) @ map emit_call (in_flight (cs_pc capture_demo_sys) @ queued) =
       map emit_call (cs_accepted capture_demo_sys) \<and>
     length (cs_accepted capture_demo_sys) = 1 \<and> length (cs_rejected capture_demo_sys) = 1"
proof -
  have "cs_pc capture_demo_sys \<noteq> Done" "length (cs_accepted capture_demo_sys) = 1" "length (cs_rejected capture_demo_sys) = 1"
    by code_simp+
  then show ?thesis
    using capture_queue_fifo [OF capture_demo_reachable] by auto
qed

text \<open>
  C6. Draining.  Once the producer has asked the worker to stop, the worker running alone reaches
  its end within a bound linear in the bytes still queued, and by then it has made exactly the
  calls for the accepted records, in order, followed by the final reports of the losses that could
  not be queued.
\<close>

theorem capture_queue_drains:
  assumes "cq_reachable capacity s" and "q_stopping (cs_queue s)"
  shows "\<exists>n s'. n \<le> 2 * q_used (cs_queue s) + 4 \<and> worker_run n s = Some s' \<and> cs_pc s' = Done \<and>
           q_used (cs_queue s') = 0 \<and>
           exports (cs_log s') = map emit_call (cs_accepted s) @ final_calls (cs_queue s') \<and>
           q_dropped (cs_queue s') = of_nat (dropped_events (cs_rejected s)) \<and>
           q_kernel_lost (cs_queue s') = dropped_lost (cs_rejected s)"
proof -
  obtain queued where inv: "cq_inv capacity s queued"
    using cq_reachable_inv [OF assms(1)] ..
  obtain n s' where n: "n \<le> worker_rank s" "worker_run n s = Some s'" "cs_pc s' = Done" "cq_inv capacity s' []"
      "cs_accepted s' = cs_accepted s" "cs_rejected s' = cs_rejected s"
    using worker_drains [OF inv assms(2)] by blast
  have "worker_rank s \<le> 2 * q_used (cs_queue s) + 4"
    by (simp add: worker_rank_def split: worker_pc.splits)
  with n(1) have "n \<le> 2 * q_used (cs_queue s) + 4"
    by simp
  moreover have "q_used (cs_queue s') = 0"
    using queued_empty [OF n(4)] by simp
  ultimately show ?thesis
    using n by (auto simp: cq_inv_def Let_def in_flight_def)
qed

definition capture_demo_stopped :: capture_sys where
  "capture_demo_stopped =
     capture_demo_sys\<lparr>cs_queue := capture_queue_request_stop (cs_queue capture_demo_sys), cs_pc := cond_signal True (cs_pc capture_demo_sys)\<rparr>"

theorem capture_queue_drains_witness:
  "\<exists>n s'. worker_run n capture_demo_stopped = Some s' \<and> cs_pc s' = Done \<and>
     exports (cs_log s') = [ExportEvent [1, 2, 3, 4, 5] 1 5] @ final_calls (cs_queue s') \<and> q_dropped (cs_queue s') = 1"
proof -
  have "cq_reachable 40 capture_demo_stopped"
    unfolding capture_demo_stopped_def by (rule cq_reachable.step [OF capture_demo_reachable cq_step.stop])
  moreover have "q_stopping (cs_queue capture_demo_stopped)" "map emit_call (cs_accepted capture_demo_stopped) = [ExportEvent [1, 2, 3, 4, 5] 1 5]"
      "dropped_events (cs_rejected capture_demo_stopped) = 1"
    by code_simp+
  ultimately show ?thesis
    using capture_queue_drains [of 40 capture_demo_stopped] by auto
qed

text \<open>
  C7. No lost wake-up.  Although \<open>capture_queue_push\<close> signals only when the ring was empty, a worker
  that sleeps in \<open>pthread_cond_wait\<close> never has work: the ring is empty, no tick is pending and the
  producer has not asked it to stop.
\<close>

theorem capture_queue_no_lost_wakeup:
  assumes "cq_reachable capacity s" and "cs_pc s = Sleeping"
  shows "q_used (cs_queue s) = 0 \<and> \<not> q_tick (cs_queue s) \<and> \<not> q_stopping (cs_queue s)"
  using cq_reachable_inv [OF assms(1)] assms(2) by (auto simp: cq_inv_def Let_def)

theorem capture_queue_no_lost_wakeup_witness:
  "\<exists>s. worker_step (capture_init capture_demo_queue) = Some s \<and> cs_pc s = Sleeping \<and> q_used (cs_queue s) = 0"
proof -
  obtain s where s: "worker_step (capture_init capture_demo_queue) = Some s" "cs_pc s = Sleeping"
    by (simp add: worker_step_def worker_check_def capture_init_def capture_demo_queue_def capture_queue_start_def record_sizeof_def)
  then have "cq_reachable 40 s"
    by (intro cq_reachable.step [OF capture_demo_start] cq_step.worker)
  with s show ?thesis
    using capture_queue_no_lost_wakeup by blast
qed

text \<open>
  C8. Memory safety.  In no reachable state does the worker read outside the ring or past its
  sample buffer, and no push of a well-formed sample writes outside the ring.
\<close>

theorem capture_queue_memory_safe:
  assumes "cq_reachable capacity s"
  shows "worker_step s \<noteq> None \<and>
         (length d = unat n \<longrightarrow> capture_queue_event (cs_queue s) d cpu n \<noteq> None) \<and>
         capture_queue_lost (cs_queue s) cpu count \<noteq> None"
proof -
  obtain queued where inv: "cq_inv capacity s queued"
    using cq_reachable_inv [OF assms(1)] ..
  have ok: "ring_ok (cs_queue s)"
    using inv by (simp add: cq_inv_def Let_def)
  have push: "capture_queue_push (cs_queue s) d r \<noteq> None" if "length d = unat (qr_size r)" for d r
    using push_accepts [OF ok that] push_rejects [of r "cs_queue s" d] by (metis not_less option.distinct(1))
  have "capture_queue_event (cs_queue s) d cpu n \<noteq> None" if "length d = unat n"
    unfolding capture_queue_event_def by (rule push) (simp add: that)
  moreover have "capture_queue_lost (cs_queue s) cpu count \<noteq> None"
    using push [of "[]" "\<lparr>qr_size = 0, qr_cpu = cpu, qr_lost = count\<rparr>"]
    by (simp add: capture_queue_lost_def del: not_None_eq)
  moreover have "worker_step s \<noteq> None"
    using inv_worker [OF inv] by auto
  ultimately show ?thesis
    by blast
qed

theorem capture_queue_memory_safe_witness:
  "worker_step capture_demo_sys \<noteq> None \<and> capture_queue_event (cs_queue capture_demo_sys) [1, 2] 0 2 \<noteq> None"
  using capture_queue_memory_safe [OF capture_demo_reachable, of "[1, 2]" 2 0 0] by simp

end
