(* ===== verification/RxContext.thy ===== *)
theory RxContext
  imports Prelude
begin

text \<open>
  Quarantine of receive events whose owning socket is not known yet (\<open>rx_context.h\<close>): pending
  events are held in a list sorted by event time until direct evidence for the same packet arrives,
  their window of time passes, or memory limits evict them.
\<close>

section \<open>State\<close>

text \<open>
  The fields of \<open>detail_event_t\<close> that the code reads or writes; the remaining bytes, the extended
  event data included, are carried along.
\<close>

record detail_event =
  de_key :: u64
  de_key_generation :: u32
  de_ts :: u64
  de_owner_tid :: u32
  de_owner_tgid :: u32
  de_owner_uid :: u32
  de_owner_socket_key :: u64
  de_owner_socket_generation :: u32
  de_direction :: u8
  de_owner_valid :: u8
  de_owner_pending :: u8
  de_owner_evidence :: u8
  de_other :: bytes

definition PACKET_DIRECTION_RX :: u8 where
  "PACKET_DIRECTION_RX = 2"

text \<open>The limits (overridable macros) and the object sizes of the target.\<close>

record rx_config =
  cfg_max_events :: nat
  cfg_max_bytes :: nat
  cfg_window_ns :: u64
  cfg_owner_slots :: nat
  cfg_sizeof_pending :: nat
  cfg_sizeof_detail :: nat
  cfg_sizeof_owners :: nat

record rx_pending =
  rp_addr :: nat
  rp_cpu :: u32
  rp_size :: u32
  rp_detail :: detail_event

record rx_owner =
  ow_key :: u64
  ow_timestamp :: u64
  ow_socket_key :: u64
  ow_generation :: u32
  ow_socket_generation :: u32
  ow_tid :: u32
  ow_tgid :: u32
  ow_uid :: u32

definition zero_owner :: rx_owner where
  "zero_owner = \<lparr>ow_key = 0, ow_timestamp = 0, ow_socket_key = 0, ow_generation = 0, ow_socket_generation = 0,
     ow_tid = 0, ow_tgid = 0, ow_uid = 0\<rparr>"

text \<open>
  The list from \<open>head\<close> along \<open>next\<close>, and the address \<open>tail\<close> points to.
\<close>

record rx_context =
  rx_list :: "rx_pending list"
  rx_tail :: "nat option"
  rx_owners :: "rx_owner list"
  rx_count :: nat
  rx_bytes :: nat
  rx_watermark :: u64
  rx_replayed :: u64
  rx_expired :: u64
  rx_capacity_dropped :: u64
  rx_unresolved :: u64

type_synonym rx_emission = "detail_event \<times> u32 \<times> u32"

abbreviation rp_ts :: "rx_pending \<Rightarrow> u64" where
  "rp_ts e \<equiv> de_ts (rp_detail e)"

section \<open>Operations\<close>

definition rx_allocation :: "rx_config \<Rightarrow> u32 \<Rightarrow> nat" where
  "rx_allocation cfg n = cfg_sizeof_pending cfg + unat n - cfg_sizeof_detail cfg"

text \<open>Removal of \<open>e\<close> through the link that follows the entries \<open>front\<close>.\<close>

definition rx_context_remove ::
    "rx_config \<Rightarrow> rx_pending list \<Rightarrow> rx_pending \<Rightarrow> rx_pending list \<Rightarrow> rx_context \<Rightarrow> rx_context" where
  "rx_context_remove cfg front e back st =
     st\<lparr>rx_list := front @ back,
        rx_count := rx_count st - 1,
        rx_bytes := rx_bytes st - rx_allocation cfg (rp_size e),
        rx_tail := (if front @ back = [] then None else rx_tail st)\<rparr>"

fun rx_expire_loop :: "rx_config \<Rightarrow> rx_pending list \<Rightarrow> rx_context \<Rightarrow> rx_context" where
  "rx_expire_loop cfg [] st = st"
| "rx_expire_loop cfg (e # es) st =
     (if rp_ts e \<le> rx_watermark st \<and> cfg_window_ns cfg < rx_watermark st - rp_ts e
      then let st1 = rx_context_remove cfg [] e es st in
           rx_expire_loop cfg es (st1\<lparr>rx_expired := rx_expired st1 + 1\<rparr>)
      else st)"

definition rx_context_expire :: "rx_config \<Rightarrow> u64 \<Rightarrow> rx_context \<Rightarrow> rx_context" where
  "rx_context_expire cfg t st =
     (let st1 = (if rx_watermark st < t then st\<lparr>rx_watermark := t\<rparr> else st) in
      rx_expire_loop cfg (rx_list st1) st1)"

definition rx_context_apply :: "detail_event \<Rightarrow> rx_owner \<Rightarrow> detail_event" where
  "rx_context_apply d ow =
     d\<lparr>de_owner_pending := 0, de_owner_evidence := 2, de_owner_valid := 1,
       de_owner_socket_key := ow_socket_key ow, de_owner_socket_generation := ow_socket_generation ow,
       de_owner_tid := ow_tid ow, de_owner_tgid := ow_tgid ow, de_owner_uid := ow_uid ow\<rparr>"

definition rx_context_matches :: "rx_config \<Rightarrow> detail_event \<Rightarrow> rx_owner \<Rightarrow> bool" where
  "rx_context_matches cfg d ow \<longleftrightarrow>
     ow_key ow = de_key d \<and> ow_generation ow = de_key_generation d \<and>
     de_ts d \<le> ow_timestamp ow \<and> ow_timestamp ow - de_ts d \<le> cfg_window_ns cfg"

text \<open>The replay loop: \<open>front\<close> are the entries before the current link.\<close>

fun rx_replay :: "rx_config \<Rightarrow> rx_owner \<Rightarrow> rx_pending list \<Rightarrow> rx_pending list \<Rightarrow> rx_context \<Rightarrow> rx_context \<times> rx_emission list" where
  "rx_replay cfg ev front [] st = (st, [])"
| "rx_replay cfg ev front (e # es) st =
     (if rx_context_matches cfg (rp_detail e) ev
      then let st1 = rx_context_remove cfg front e es (st\<lparr>rx_replayed := rx_replayed st + 1\<rparr>);
               (st2, out) = rx_replay cfg ev front es st1 in
           (st2, (rx_context_apply (rp_detail e) ev, rp_cpu e, rp_size e) # out)
      else rx_replay cfg ev (front @ [e]) es (st\<lparr>rx_tail := Some (rp_addr e)\<rparr>))"

text \<open>Eviction from the head; removing from an empty list would follow a null pointer.\<close>

fun rx_evict :: "rx_config \<Rightarrow> nat \<Rightarrow> rx_pending list \<Rightarrow> rx_context \<Rightarrow> rx_context option" where
  "rx_evict cfg alloc es st =
     (if cfg_max_events cfg \<le> rx_count st \<or>
         cfg_max_bytes cfg < rx_bytes st + alloc + cfg_sizeof_owners cfg
      then case es of
             [] \<Rightarrow> None
           | e # es' \<Rightarrow>
               (let st1 = rx_context_remove cfg [] e es' st in
                rx_evict cfg alloc es' (st1\<lparr>rx_capacity_dropped := rx_capacity_dropped st1 + 1\<rparr>))
      else Some st)"

declare rx_evict.simps [simp del]

text \<open>Insertion after the last entry that is not younger; a dangling \<open>tail\<close> is \<open>None\<close>.\<close>

definition rx_insert :: "rx_pending \<Rightarrow> rx_context \<Rightarrow> rx_context option" where
  "rx_insert e st =
     (case rx_tail st of
        None \<Rightarrow> Some (st\<lparr>rx_list := [e], rx_tail := Some (rp_addr e)\<rparr>)
      | Some a \<Rightarrow>
          (case find (\<lambda>x. rp_addr x = a) (rx_list st) of
             None \<Rightarrow> None
           | Some t \<Rightarrow>
               if rp_ts t \<le> rp_ts e
               then Some (st\<lparr>rx_list := takeWhile (\<lambda>x. rp_addr x \<noteq> a) (rx_list st) @ [t, e],
                             rx_tail := Some (rp_addr e)\<rparr>)
               else Some (st\<lparr>rx_list := takeWhile (\<lambda>x. rp_ts x \<le> rp_ts e) (rx_list st) @ [e] @
                                       dropWhile (\<lambda>x. rp_ts x \<le> rp_ts e) (rx_list st)\<rparr>)))"

definition owner_slot :: "rx_config \<Rightarrow> detail_event \<Rightarrow> nat" where
  "owner_slot cfg d = unat (drop_bit 4 (de_key d) XOR ucast (de_key_generation d)) mod cfg_owner_slots cfg"

definition is_evidence :: "detail_event \<Rightarrow> bool" where
  "is_evidence d \<longleftrightarrow> de_owner_evidence d = 1 \<and> de_owner_valid d \<noteq> 0 \<and>
     de_owner_socket_key d \<noteq> 0 \<and> de_owner_socket_generation d \<noteq> 0"

definition evidence_of :: "detail_event \<Rightarrow> rx_owner" where
  "evidence_of d =
     \<lparr>ow_key = de_key d, ow_timestamp = de_ts d, ow_socket_key = de_owner_socket_key d,
      ow_generation = de_key_generation d, ow_socket_generation = de_owner_socket_generation d,
      ow_tid = de_owner_tid d, ow_tgid = de_owner_tgid d, ow_uid = de_owner_uid d\<rparr>"

definition is_rx_keyed :: "detail_event \<Rightarrow> bool" where
  "is_rx_keyed d \<longleftrightarrow> de_direction d = PACKET_DIRECTION_RX \<and> de_key d \<noteq> 0 \<and> de_key_generation d \<noteq> 0"

text \<open>An event that is not pending: keep its evidence, replay what it confirms, pass it on.\<close>

definition rx_feed_direct :: "rx_config \<Rightarrow> detail_event \<Rightarrow> u32 \<Rightarrow> u32 \<Rightarrow> rx_context \<Rightarrow> rx_context \<times> rx_emission list" where
  "rx_feed_direct cfg d cpu n st =
     (if is_evidence d
      then let ev = evidence_of d; slot = owner_slot cfg d; ow = rx_owners st ! slot;
               st1 = (if ow_key ow \<noteq> ow_key ev \<or> ow_generation ow \<noteq> ow_generation ev \<or>
                         ow_timestamp ow \<le> ow_timestamp ev
                      then st\<lparr>rx_owners := (rx_owners st)[slot := ev]\<rparr> else st);
               (st2, out) = rx_replay cfg ev [] (rx_list st1) (st1\<lparr>rx_tail := None\<rparr>) in
           (st2, out @ [(d, cpu, n)])
      else (st, [(d, cpu, n)]))"

text \<open>A pending event; \<open>mem\<close> is the result of \<open>malloc\<close>.\<close>

definition rx_feed_pending ::
    "rx_config \<Rightarrow> nat option \<Rightarrow> detail_event \<Rightarrow> u32 \<Rightarrow> u32 \<Rightarrow> rx_context \<Rightarrow> (rx_context \<times> rx_emission list) option" where
  "rx_feed_pending cfg mem d cpu n st =
     (let ow = rx_owners st ! owner_slot cfg d; alloc = rx_allocation cfg n in
      if cfg_window_ns cfg < rx_watermark st - de_ts d
      then Some (st\<lparr>rx_expired := rx_expired st + 1\<rparr>, [])
      else if cfg_max_bytes cfg < alloc + cfg_sizeof_owners cfg
      then Some (st\<lparr>rx_capacity_dropped := rx_capacity_dropped st + 1\<rparr>, [])
      else case mem of
        None \<Rightarrow> Some (st\<lparr>rx_capacity_dropped := rx_capacity_dropped st + 1\<rparr>, [])
      | Some a \<Rightarrow>
          if rx_context_matches cfg d ow
          then Some (st\<lparr>rx_replayed := rx_replayed st + 1\<rparr>, [(rx_context_apply d ow, cpu, n)])
          else case rx_evict cfg alloc (rx_list st) st of
            None \<Rightarrow> None
          | Some st1 \<Rightarrow>
              (case rx_insert \<lparr>rp_addr = a, rp_cpu = cpu, rp_size = n, rp_detail = d\<rparr> st1 of
                 None \<Rightarrow> None
               | Some st2 \<Rightarrow>
                   Some (st2\<lparr>rx_count := rx_count st2 + 1, rx_bytes := rx_bytes st2 + alloc\<rparr>, [])))"

definition rx_context_feed ::
    "rx_config \<Rightarrow> nat option \<Rightarrow> detail_event \<Rightarrow> u32 \<Rightarrow> u32 \<Rightarrow> rx_context \<Rightarrow> (rx_context \<times> rx_emission list) option" where
  "rx_context_feed cfg mem d cpu n st0 =
     (if unat n < cfg_sizeof_detail cfg then Some (st0, [])
      else let st = rx_context_expire cfg (de_ts d) st0 in
        if \<not> is_rx_keyed d
        then if de_owner_pending d \<noteq> 0 then Some (st\<lparr>rx_unresolved := rx_unresolved st + 1\<rparr>, [])
             else Some (st, [(d, cpu, n)])
        else if de_owner_pending d = 0 then Some (rx_feed_direct cfg d cpu n st)
        else rx_feed_pending cfg mem d cpu n st)"

fun rx_finish_loop :: "rx_config \<Rightarrow> rx_pending list \<Rightarrow> rx_context \<Rightarrow> rx_context" where
  "rx_finish_loop cfg [] st = st"
| "rx_finish_loop cfg (e # es) st =
     (let st1 = rx_context_remove cfg [] e es st in
      rx_finish_loop cfg es (st1\<lparr>rx_unresolved := rx_unresolved st1 + 1\<rparr>))"

definition rx_context_finish :: "rx_config \<Rightarrow> rx_context \<Rightarrow> rx_context" where
  "rx_context_finish cfg st =
     (let st1 = rx_finish_loop cfg (rx_list st) st in
      st1\<lparr>rx_owners := replicate (cfg_owner_slots cfg) zero_owner\<rparr>)"

definition rx_init :: "rx_config \<Rightarrow> rx_context" where
  "rx_init cfg = \<lparr>rx_list = [], rx_tail = None, rx_owners = replicate (cfg_owner_slots cfg) zero_owner,
     rx_count = 0, rx_bytes = 0, rx_watermark = 0, rx_replayed = 0, rx_expired = 0,
     rx_capacity_dropped = 0, rx_unresolved = 0\<rparr>"

section \<open>Shape of the list\<close>

definition tail_of :: "rx_pending list \<Rightarrow> nat option" where
  "tail_of l = (if l = [] then None else Some (rp_addr (last l)))"

definition bytes_of :: "rx_config \<Rightarrow> rx_pending list \<Rightarrow> nat" where
  "bytes_of cfg l = sum_list (map (\<lambda>e. rx_allocation cfg (rp_size e)) l)"

text \<open>The state whose list is \<open>l\<close> and whose derived fields agree with it.\<close>

definition with_list :: "rx_config \<Rightarrow> rx_pending list \<Rightarrow> rx_context \<Rightarrow> rx_context" where
  "with_list cfg l st = st\<lparr>rx_list := l, rx_tail := tail_of l, rx_count := length l, rx_bytes := bytes_of cfg l\<rparr>"

definition rx_canon :: "rx_config \<Rightarrow> rx_context \<Rightarrow> bool" where
  "rx_canon cfg st \<longleftrightarrow> rx_tail st = tail_of (rx_list st) \<and> rx_count st = length (rx_list st) \<and>
     rx_bytes st = bytes_of cfg (rx_list st)"

lemma bytes_of_simps [simp]:
  "bytes_of cfg [] = 0" "bytes_of cfg (e # l) = rx_allocation cfg (rp_size e) + bytes_of cfg l"
  "bytes_of cfg (l @ l') = bytes_of cfg l + bytes_of cfg l'"
  by (simp_all add: bytes_of_def)

lemma with_list_sel [simp]:
  "rx_list (with_list cfg l st) = l" "rx_tail (with_list cfg l st) = tail_of l"
  "rx_count (with_list cfg l st) = length l" "rx_bytes (with_list cfg l st) = bytes_of cfg l"
  "rx_owners (with_list cfg l st) = rx_owners st" "rx_watermark (with_list cfg l st) = rx_watermark st"
  "rx_replayed (with_list cfg l st) = rx_replayed st" "rx_expired (with_list cfg l st) = rx_expired st"
  "rx_capacity_dropped (with_list cfg l st) = rx_capacity_dropped st"
  "rx_unresolved (with_list cfg l st) = rx_unresolved st"
  by (simp_all add: with_list_def)

lemma canon_with_list [simp]: "rx_canon cfg (with_list cfg l st)"
  by (simp add: rx_canon_def)

lemma canon_eq: "rx_canon cfg st \<Longrightarrow> with_list cfg (rx_list st) st = st"
  by (simp add: rx_canon_def with_list_def)

lemma remove_head:
  "rx_canon cfg st \<Longrightarrow> rx_list st = e # es \<Longrightarrow> rx_context_remove cfg [] e es st = with_list cfg es st"
  by (simp add: rx_canon_def rx_context_remove_def with_list_def tail_of_def)

definition rx_stale :: "rx_config \<Rightarrow> u64 \<Rightarrow> rx_pending \<Rightarrow> bool" where
  "rx_stale cfg w e \<longleftrightarrow> rp_ts e \<le> w \<and> cfg_window_ns cfg < w - rp_ts e"

lemma expire_loop_eq:
  assumes "rx_canon cfg st"
  shows "rx_expire_loop cfg (rx_list st) st =
    with_list cfg (dropWhile (rx_stale cfg (rx_watermark st)) (rx_list st))
      (st\<lparr>rx_expired := rx_expired st + of_nat (length (takeWhile (rx_stale cfg (rx_watermark st)) (rx_list st)))\<rparr>)"
  using assms
proof (induction "rx_list st" arbitrary: st)
  case Nil
  then show ?case
    using canon_eq [of cfg st] by (simp add: Nil(1) [symmetric])
next
  case (Cons e es)
  let ?st1 = "(with_list cfg es st)\<lparr>rx_expired := rx_expired st + 1\<rparr>"
  show ?case
  proof (cases "rx_stale cfg (rx_watermark st) e")
    case True
    have c: "rx_canon cfg ?st1"
      by (simp add: rx_canon_def)
    have "rx_expire_loop cfg (rx_list st) st = rx_expire_loop cfg (rx_list ?st1) ?st1"
      using True Cons.prems Cons(2) [symmetric] remove_head [OF Cons.prems]
      by (simp add: rx_stale_def Let_def)
    also have "\<dots> = with_list cfg (dropWhile (rx_stale cfg (rx_watermark st)) es)
      (?st1\<lparr>rx_expired := rx_expired st + 1 + of_nat (length (takeWhile (rx_stale cfg (rx_watermark st)) es))\<rparr>)"
      using Cons(1) [OF _ c] by simp
    finally show ?thesis
      using True Cons(2) [symmetric] by (simp add: with_list_def algebra_simps)
  next
    case False
    then have "rx_expire_loop cfg (rx_list st) st = st"
      unfolding Cons(2) [symmetric] by (auto simp: rx_stale_def)
    with False show ?thesis
      using Cons(2) [symmetric] canon_eq [OF Cons.prems] by simp
  qed
qed

lemma replay_eq:
  assumes "rx_list st = front @ es" and "rx_tail st = tail_of front"
    and "rx_count st = length (front @ es)" and "rx_bytes st = bytes_of cfg (front @ es)"
  shows "rx_replay cfg ev front es st =
     (with_list cfg (front @ filter (\<lambda>e. \<not> rx_context_matches cfg (rp_detail e) ev) es)
        (st\<lparr>rx_replayed := rx_replayed st + of_nat (length (filter (\<lambda>e. rx_context_matches cfg (rp_detail e) ev) es))\<rparr>),
      map (\<lambda>e. (rx_context_apply (rp_detail e) ev, rp_cpu e, rp_size e))
        (filter (\<lambda>e. rx_context_matches cfg (rp_detail e) ev) es))"
  using assms
proof (induction cfg ev front es st rule: rx_replay.induct)
  case (1 cfg ev front st)
  then show ?case
    by (simp add: with_list_def)
next
  case (2 cfg ev front e es st)
  show ?case
  proof (cases "rx_context_matches cfg (rp_detail e) ev")
    case True
    then show ?thesis
      using "2.IH"(1) [OF True refl] "2.prems"
      by (auto simp: rx_context_remove_def tail_of_def with_list_def algebra_simps)
  next
    case False
    then show ?thesis
      using "2.IH"(2) [OF False] "2.prems"
      by (auto simp: tail_of_def with_list_def)
  qed
qed

definition over_limit :: "rx_config \<Rightarrow> nat \<Rightarrow> rx_pending list \<Rightarrow> bool" where
  "over_limit cfg alloc l \<longleftrightarrow>
     cfg_max_events cfg \<le> length l \<or> cfg_max_bytes cfg < bytes_of cfg l + alloc + cfg_sizeof_owners cfg"

text \<open>Eviction removes the oldest entries, and no more of them than the limits require.\<close>

lemma evict_eq:
  assumes "rx_canon cfg st" and "\<not> over_limit cfg alloc []"
  shows "\<exists>k \<le> length (rx_list st).
     rx_evict cfg alloc (rx_list st) st =
       Some (with_list cfg (drop k (rx_list st)) (st\<lparr>rx_capacity_dropped := rx_capacity_dropped st + of_nat k\<rparr>)) \<and>
     \<not> over_limit cfg alloc (drop k (rx_list st)) \<and> (\<forall>j<k. over_limit cfg alloc (drop j (rx_list st)))"
  using assms
proof (induction "rx_list st" arbitrary: st)
  case Nil
  then show ?case
    using canon_eq [of cfg st]
    by (auto simp: rx_evict.simps [of _ _ "[]"] over_limit_def rx_canon_def)
next
  case (Cons e es)
  let ?st1 = "(with_list cfg es st)\<lparr>rx_capacity_dropped := rx_capacity_dropped st + 1\<rparr>"
  have ol: "over_limit cfg alloc (rx_list st) \<longleftrightarrow>
      cfg_max_events cfg \<le> rx_count st \<or> cfg_max_bytes cfg < rx_bytes st + alloc + cfg_sizeof_owners cfg"
    using Cons.prems by (simp add: over_limit_def rx_canon_def)
  show ?case
  proof (cases "over_limit cfg alloc (rx_list st)")
    case True
    have c: "rx_canon cfg ?st1"
      by (simp add: rx_canon_def)
    obtain k where k: "k \<le> length es"
        "rx_evict cfg alloc es ?st1 =
           Some (with_list cfg (drop k es) (?st1\<lparr>rx_capacity_dropped := rx_capacity_dropped st + 1 + of_nat k\<rparr>))"
        "\<not> over_limit cfg alloc (drop k es)" "\<forall>j<k. over_limit cfg alloc (drop j es)"
      using Cons(1) [OF _ c Cons.prems(2)] by auto
    have "rx_evict cfg alloc (rx_list st) st = rx_evict cfg alloc es ?st1"
      using True ol Cons(2) [symmetric] remove_head [OF Cons.prems(1)]
      by (subst rx_evict.simps) (simp add: Let_def)
    with k True show ?thesis
      using Cons(2) [symmetric]
      by (intro exI [of _ "Suc k"]) (auto simp: with_list_def algebra_simps less_Suc_eq_0_disj)
  next
    case False
    then show ?thesis
      using ol canon_eq [OF Cons.prems(1)] by (intro exI [of _ 0]) (subst rx_evict.simps, auto)
  qed
qed

text \<open>Insertion keeps the list sorted by event time; equal times stay in arrival order.\<close>

lemma find_last:
  assumes "l \<noteq> []" and "distinct (map rp_addr l)"
  shows "find (\<lambda>x. rp_addr x = rp_addr (last l)) l = Some (last l)"
    and "takeWhile (\<lambda>x. rp_addr x \<noteq> rp_addr (last l)) l = butlast l"
proof -
  obtain b x where l: "l = b @ [x]"
    using assms(1) by (cases l rule: rev_cases) auto
  have "\<forall>y\<in>set b. rp_addr y \<noteq> rp_addr x"
    using assms(2) by (auto simp: l) (metis image_eqI)
  then show "find (\<lambda>x. rp_addr x = rp_addr (last l)) l = Some (last l)"
      and "takeWhile (\<lambda>x. rp_addr x \<noteq> rp_addr (last l)) l = butlast l"
    by (simp_all add: l find_dropWhile dropWhile_append2 takeWhile_append2)
qed

lemma sorted_below_last: "sorted (map f l) \<Longrightarrow> x \<in> set l \<Longrightarrow> f x \<le> f (last l)" for f :: "'a \<Rightarrow> 'b::linorder"
  by (induction l) auto

lemma insert_eq:
  assumes "rx_tail st = tail_of (rx_list st)" and "distinct (map rp_addr (rx_list st))"
    and "sorted (map rp_ts (rx_list st))"
  shows "\<exists>st'. rx_insert e st = Some st' \<and>
     st' = st\<lparr>rx_list := takeWhile (\<lambda>x. rp_ts x \<le> rp_ts e) (rx_list st) @ [e] @
                            dropWhile (\<lambda>x. rp_ts x \<le> rp_ts e) (rx_list st),
              rx_tail := tail_of (takeWhile (\<lambda>x. rp_ts x \<le> rp_ts e) (rx_list st) @ [e] @
                            dropWhile (\<lambda>x. rp_ts x \<le> rp_ts e) (rx_list st))\<rparr>"
proof (cases "rx_list st = []")
  case True
  then show ?thesis
    using assms(1) by (simp add: rx_insert_def tail_of_def)
next
  case False
  note f = find_last [OF False assms(2)]
  show ?thesis
  proof (cases "rp_ts (last (rx_list st)) \<le> rp_ts e")
    case True
    then have all: "\<forall>x\<in>set (rx_list st). rp_ts x \<le> rp_ts e"
      using sorted_below_last [OF assms(3)] order_trans by blast
    have tw: "takeWhile (\<lambda>x. rp_ts x \<le> rp_ts e) (rx_list st) = rx_list st"
        "dropWhile (\<lambda>x. rp_ts x \<le> rp_ts e) (rx_list st) = []"
      using all by (simp_all add: takeWhile_eq_all_conv dropWhile_eq_Nil_conv)
    have "butlast (rx_list st) @ [last (rx_list st), e] = rx_list st @ [e]"
      using False by (metis append.assoc append_Cons append_Nil append_butlast_last_id)
    then show ?thesis
      unfolding tw using True False assms(1) f by (simp add: rx_insert_def tail_of_def)
  next
    case nle: False
    then have "dropWhile (\<lambda>x. rp_ts x \<le> rp_ts e) (rx_list st) \<noteq> []"
      using False by (auto simp: dropWhile_eq_Nil_conv)
    moreover from this have "last (dropWhile (\<lambda>x. rp_ts x \<le> rp_ts e) (rx_list st)) = last (rx_list st)"
      by (metis last_appendR takeWhile_dropWhile_id)
    ultimately show ?thesis
      using nle False assms(1) f by (auto simp: rx_insert_def tail_of_def)
  qed
qed

lemma finish_loop_eq:
  assumes "rx_canon cfg st"
  shows "rx_finish_loop cfg (rx_list st) st =
    with_list cfg [] (st\<lparr>rx_unresolved := rx_unresolved st + of_nat (length (rx_list st))\<rparr>)"
  using assms
proof (induction "rx_list st" arbitrary: st)
  case Nil
  then show ?case
    using canon_eq [of cfg st] by (simp add: Nil(1) [symmetric])
next
  case (Cons e es)
  let ?st1 = "(with_list cfg es st)\<lparr>rx_unresolved := rx_unresolved st + 1\<rparr>"
  have "rx_canon cfg ?st1"
    by (simp add: rx_canon_def)
  then have "rx_finish_loop cfg es ?st1 = with_list cfg [] (?st1\<lparr>rx_unresolved := rx_unresolved st + 1 + of_nat (length es)\<rparr>)"
    using Cons(1) [of ?st1] by simp
  then show ?case
    using remove_head [OF Cons.prems] Cons(2) [symmetric] by (simp add: with_list_def algebra_simps)
qed

section \<open>The invariant\<close>

definition cfg_ok :: "rx_config \<Rightarrow> bool" where
  "cfg_ok cfg \<longleftrightarrow> 0 < cfg_max_events cfg \<and> 0 < cfg_owner_slots cfg \<and>
     cfg_sizeof_owners cfg \<le> cfg_max_bytes cfg \<and> cfg_sizeof_detail cfg \<le> cfg_sizeof_pending cfg"

text \<open>What every held entry satisfies when the watermark is \<open>w\<close>.\<close>

definition held_ok :: "rx_config \<Rightarrow> u64 \<Rightarrow> rx_pending \<Rightarrow> bool" where
  "held_ok cfg w e \<longleftrightarrow> is_rx_keyed (rp_detail e) \<and> de_owner_pending (rp_detail e) \<noteq> 0 \<and>
     rp_ts e \<le> w \<and> w - rp_ts e \<le> cfg_window_ns cfg"

definition rx_ok :: "rx_config \<Rightarrow> rx_context \<Rightarrow> bool" where
  "rx_ok cfg st \<longleftrightarrow>
     rx_canon cfg st \<and> sorted (map rp_ts (rx_list st)) \<and> distinct (map rp_addr (rx_list st)) \<and>
     length (rx_list st) \<le> cfg_max_events cfg \<and>
     bytes_of cfg (rx_list st) + cfg_sizeof_owners cfg \<le> cfg_max_bytes cfg \<and>
     (\<forall>e \<in> set (rx_list st). held_ok cfg (rx_watermark st) e) \<and>
     length (rx_owners st) = cfg_owner_slots cfg"

text \<open>Every pending event that entered is counted once, wherever it ended.\<close>

definition rx_total :: "rx_context \<Rightarrow> u64" where
  "rx_total st = rx_replayed st + rx_expired st + rx_capacity_dropped st + rx_unresolved st + of_nat (length (rx_list st))"

lemma length_while_split: "of_nat (length (takeWhile P l)) + of_nat (length (dropWhile P l)) = (of_nat (length l) :: u64)"
  by (metis length_append of_nat_add takeWhile_dropWhile_id)

lemma not_stale_tail:
  assumes "sorted (map rp_ts l)" and "\<forall>e\<in>set l. rp_ts e \<le> w" and "e \<in> set (dropWhile (rx_stale cfg w) l)"
  shows "w - rp_ts e \<le> cfg_window_ns cfg"
  using assms
proof (induction l)
  case Nil
  then show ?case by simp
next
  case (Cons a l)
  show ?case
  proof (cases "rx_stale cfg w a")
    case True
    with Cons show ?thesis by auto
  next
    case False
    then have "w - rp_ts a \<le> cfg_window_ns cfg" "rp_ts a \<le> w"
      using Cons.prems by (auto simp: rx_stale_def)
    moreover have "rp_ts a \<le> rp_ts e" "rp_ts e \<le> w"
      using Cons.prems False by auto
    ultimately show ?thesis
      using word_diff_mono [of "rp_ts a" "rp_ts e" w] by simp
  qed
qed

lemma bytes_of_dropWhile: "bytes_of cfg (dropWhile P l) \<le> bytes_of cfg l"
  by (induction l) auto

lemma bytes_of_drop: "bytes_of cfg (drop k l) \<le> bytes_of cfg l"
  by (metis append_take_drop_id bytes_of_simps(3) le_add2)

lemma bytes_of_filter: "bytes_of cfg (filter P l) \<le> bytes_of cfg l"
  by (induction l) auto

lemma expire_ok:
  assumes ok: "rx_ok cfg st"
  shows "let st' = rx_context_expire cfg t st in
     rx_ok cfg st' \<and> rx_total st' = rx_total st \<and> set (rx_list st') \<subseteq> set (rx_list st) \<and>
     rx_owners st' = rx_owners st \<and> rx_watermark st' = max (rx_watermark st) t \<and>
     rx_list st' = dropWhile (rx_stale cfg (max (rx_watermark st) t)) (rx_list st)"
proof -
  define w where "w = max (rx_watermark st) t"
  define st1 where "st1 = st\<lparr>rx_watermark := w\<rparr>"
  have s1: "rx_context_expire cfg t st = rx_expire_loop cfg (rx_list st1) st1"
    by (simp add: rx_context_expire_def st1_def w_def max_def Let_def)
  have eq: "rx_context_expire cfg t st = with_list cfg (dropWhile (rx_stale cfg w) (rx_list st))
      (st1\<lparr>rx_expired := rx_expired st + of_nat (length (takeWhile (rx_stale cfg w) (rx_list st)))\<rparr>)"
    unfolding s1 using expire_loop_eq [of cfg st1] ok by (simp add: rx_ok_def rx_canon_def st1_def)
  have le: "\<forall>e\<in>set (rx_list st). rp_ts e \<le> w"
    using ok by (auto simp: rx_ok_def held_ok_def w_def max_def)
  have so: "sorted (map rp_ts (dropWhile (rx_stale cfg w) (rx_list st)))"
    using ok by (simp add: rx_ok_def sorted_wrt_map sorted_wrt_dropWhile)
  have di: "distinct (map rp_addr (dropWhile (rx_stale cfg w) (rx_list st)))"
    using ok by (metis distinct_append map_append rx_ok_def takeWhile_dropWhile_id)
  have "rx_ok cfg (rx_context_expire cfg t st)"
    unfolding eq
    using ok le so di length_dropWhile_le [of "rx_stale cfg w" "rx_list st"] bytes_of_dropWhile [of cfg "rx_stale cfg w" "rx_list st"]
      not_stale_tail [of "rx_list st" w _ cfg]
    by (auto simp: rx_ok_def rx_canon_def st1_def held_ok_def dest: set_dropWhileD)
  moreover have "rx_total (rx_context_expire cfg t st) = rx_total st"
    unfolding eq using length_while_split [of "rx_stale cfg w" "rx_list st"]
    by (simp add: rx_total_def st1_def algebra_simps)
  ultimately show ?thesis
    by (auto simp: eq Let_def st1_def w_def dest: set_dropWhileD)
qed

lemma filter_split_64:
  "of_nat (length (filter P l)) + of_nat (length (filter (\<lambda>x. \<not> P x) l)) = (of_nat (length l) :: u64)"
  by (metis of_nat_add sum_length_filter_compl)

definition stored_evidence :: "rx_config \<Rightarrow> detail_event \<Rightarrow> rx_context \<Rightarrow> rx_context" where
  "stored_evidence cfg d st =
     (let ow = rx_owners st ! owner_slot cfg d; ev = evidence_of d in
      if ow_key ow \<noteq> ow_key ev \<or> ow_generation ow \<noteq> ow_generation ev \<or> ow_timestamp ow \<le> ow_timestamp ev
      then st\<lparr>rx_owners := (rx_owners st)[owner_slot cfg d := ev]\<rparr> else st)"

lemma feed_direct_eq:
  assumes "rx_canon cfg st"
  shows "rx_feed_direct cfg d cpu n st =
     (if is_evidence d
      then let ms = filter (\<lambda>e. rx_context_matches cfg (rp_detail e) (evidence_of d)) (rx_list st);
               ks = filter (\<lambda>e. \<not> rx_context_matches cfg (rp_detail e) (evidence_of d)) (rx_list st) in
        (with_list cfg ks ((stored_evidence cfg d st)\<lparr>rx_replayed := rx_replayed st + of_nat (length ms)\<rparr>),
         map (\<lambda>e. (rx_context_apply (rp_detail e) (evidence_of d), rp_cpu e, rp_size e)) ms @ [(d, cpu, n)])
      else (st, [(d, cpu, n)]))"
proof -
  define st1 where "st1 = (stored_evidence cfg d st)\<lparr>rx_tail := None\<rparr>"
  have "rx_list st1 = [] @ rx_list st" "rx_tail st1 = tail_of []" "rx_count st1 = length ([] @ rx_list st)"
      "rx_bytes st1 = bytes_of cfg ([] @ rx_list st)" "rx_replayed st1 = rx_replayed st"
    using assms by (auto simp: st1_def stored_evidence_def Let_def rx_canon_def tail_of_def)
  note r = replay_eq [OF this(1-4), of "evidence_of d", unfolded this(5)]
  show ?thesis
  proof (cases "is_evidence d")
    case True
    then have "rx_feed_direct cfg d cpu n st =
        (case rx_replay cfg (evidence_of d) [] (rx_list st) st1 of (st2, out) \<Rightarrow> (st2, out @ [(d, cpu, n)]))"
      by (auto simp: rx_feed_direct_def st1_def stored_evidence_def Let_def)
    with True show ?thesis
      unfolding r by (simp add: Let_def with_list_def st1_def)
  next
    case False
    then show ?thesis by (simp add: rx_feed_direct_def)
  qed
qed

section \<open>One event\<close>

definition rx_pending_fed :: "rx_config \<Rightarrow> detail_event \<Rightarrow> u32 \<Rightarrow> bool" where
  "rx_pending_fed cfg d n \<longleftrightarrow> cfg_sizeof_detail cfg \<le> unat n \<and> de_owner_pending d \<noteq> 0"

definition rx_passed :: "rx_config \<Rightarrow> detail_event \<Rightarrow> u32 \<Rightarrow> bool" where
  "rx_passed cfg d n \<longleftrightarrow> cfg_sizeof_detail cfg \<le> unat n \<and> de_owner_pending d = 0"

definition rx_evidence_fed :: "rx_config \<Rightarrow> detail_event \<Rightarrow> u32 \<Rightarrow> bool" where
  "rx_evidence_fed cfg d n \<longleftrightarrow> rx_passed cfg d n \<and> is_rx_keyed d \<and> is_evidence d"

abbreviation held_event :: "rx_pending \<Rightarrow> rx_emission" where
  "held_event e \<equiv> (rp_detail e, rp_cpu e, rp_size e)"

text \<open>
  What one step may do, given the events \<open>P\<close> that were fed as pending and the owners \<open>E\<close> proved by
  evidence: the held entries and stored owners come from there, and each replayed event is one of
  \<open>P\<close> completed by a matching owner of \<open>E\<close>.
\<close>

definition rx_known :: "rx_emission set \<Rightarrow> rx_owner set \<Rightarrow> rx_context \<Rightarrow> bool" where
  "rx_known P E st \<longleftrightarrow> held_event ` set (rx_list st) \<subseteq> P \<and> set (rx_owners st) \<subseteq> insert zero_owner E"

definition rx_attributed :: "rx_config \<Rightarrow> rx_emission set \<Rightarrow> rx_owner set \<Rightarrow> rx_emission \<Rightarrow> bool" where
  "rx_attributed cfg P E x \<longleftrightarrow>
     (\<exists>d0 ow. (d0, snd x) \<in> P \<and> ow \<in> E \<and> rx_context_matches cfg d0 ow \<and> fst x = rx_context_apply d0 ow)"

definition rx_step_ok ::
    "rx_config \<Rightarrow> rx_emission set \<Rightarrow> rx_owner set \<Rightarrow> nat \<Rightarrow> rx_emission list \<Rightarrow> rx_context \<Rightarrow> rx_context \<times> rx_emission list \<Rightarrow> bool" where
  "rx_step_ok cfg P E k pass st r \<longleftrightarrow>
     rx_ok cfg (fst r) \<and> rx_total (fst r) = rx_total st + of_nat k \<and> rx_known P E (fst r) \<and>
     (\<exists>replays. snd r = replays @ pass \<and> (\<forall>x \<in> set replays. rx_attributed cfg P E x))"

lemma owner_slot_less: "cfg_ok cfg \<Longrightarrow> owner_slot cfg d < cfg_owner_slots cfg"
  by (simp add: owner_slot_def cfg_ok_def)

lemma feed_direct_ok:
  assumes ok: "rx_ok cfg st" and cfg: "cfg_ok cfg" and known: "rx_known P E st"
    and ev: "is_evidence d \<Longrightarrow> evidence_of d \<in> E"
  shows "rx_step_ok cfg P E 0 [(d, cpu, n)] st (rx_feed_direct cfg d cpu n st)"
proof (cases "is_evidence d")
  case True
  define m where "m = (\<lambda>e :: rx_pending. rx_context_matches cfg (rp_detail e) (evidence_of d))"
  define st1 where "st1 = with_list cfg (filter (\<lambda>e. \<not> m e) (rx_list st))
      ((stored_evidence cfg d st)\<lparr>rx_replayed := rx_replayed st + of_nat (length (filter m (rx_list st)))\<rparr>)"
  have eq: "rx_feed_direct cfg d cpu n st = (st1,
      map (\<lambda>e. (rx_context_apply (rp_detail e) (evidence_of d), rp_cpu e, rp_size e)) (filter m (rx_list st)) @ [(d, cpu, n)])"
    using feed_direct_eq [of cfg st d cpu n] ok True by (simp add: rx_ok_def st1_def m_def Let_def)
  have se: "length (rx_owners (stored_evidence cfg d st)) = length (rx_owners st)"
      "rx_watermark (stored_evidence cfg d st) = rx_watermark st"
      "rx_expired (stored_evidence cfg d st) = rx_expired st"
      "rx_capacity_dropped (stored_evidence cfg d st) = rx_capacity_dropped st"
      "rx_unresolved (stored_evidence cfg d st) = rx_unresolved st"
      "set (rx_owners (stored_evidence cfg d st)) \<subseteq> insert (evidence_of d) (set (rx_owners st))"
    by (auto simp: stored_evidence_def Let_def dest!: set_update_subset_insert [THEN subsetD])
  have "rx_ok cfg st1"
    using ok se(1,2) bytes_of_filter [of cfg "\<lambda>e. \<not> m e" "rx_list st"]
    by (auto simp: rx_ok_def st1_def rx_canon_def distinct_map_filter sorted_wrt_map sorted_wrt_filter
          intro: le_trans [OF length_filter_le])
  moreover have "rx_total st1 = rx_total st"
    using se filter_split_64 [of m "rx_list st"] by (simp add: rx_total_def st1_def algebra_simps)
  moreover have "rx_known P E st1"
    using known se(6) ev [OF True] by (auto simp: rx_known_def st1_def)
  moreover have "rx_attributed cfg P E (rx_context_apply (rp_detail e) (evidence_of d), rp_cpu e, rp_size e)"
    if "e \<in> set (filter m (rx_list st))" for e
    using that known ev [OF True] unfolding rx_attributed_def m_def
    by (intro exI [of _ "rp_detail e"] exI [of _ "evidence_of d"]) (auto simp: rx_known_def)
  ultimately show ?thesis
    unfolding eq rx_step_ok_def by auto
next
  case False
  then show ?thesis
    using ok known by (simp add: rx_feed_direct_def rx_step_ok_def)
qed

text \<open>Storing one more entry after eviction.\<close>

lemma store_ok:
  assumes ok: "rx_ok cfg st" and nov: "\<not> over_limit cfg (rx_allocation cfg (rp_size e)) (rx_list st)"
    and fresh: "rp_addr e \<notin> rp_addr ` set (rx_list st)" and held: "held_ok cfg (rx_watermark st) e"
    and known: "rx_known P E st" "held_event e \<in> P"
  shows "\<exists>st1. rx_insert e st = Some st1 \<and>
     rx_step_ok cfg P E 1 [] st
       (st1\<lparr>rx_count := rx_count st1 + 1, rx_bytes := rx_bytes st1 + rx_allocation cfg (rp_size e)\<rparr>, [])"
proof -
  define tw dw where "tw = takeWhile (\<lambda>x. rp_ts x \<le> rp_ts e) (rx_list st)"
    and "dw = dropWhile (\<lambda>x. rp_ts x \<le> rp_ts e) (rx_list st)"
  have l: "rx_list st = tw @ dw"
    by (simp add: tw_def dw_def)
  have ins: "rx_insert e st = Some (st\<lparr>rx_list := tw @ [e] @ dw, rx_tail := tail_of (tw @ [e] @ dw)\<rparr>)"
    using insert_eq [of st e] ok by (simp add: rx_ok_def rx_canon_def tw_def dw_def)
  have "\<forall>x\<in>set tw. rp_ts x \<le> rp_ts e"
    by (auto simp: tw_def dest: set_takeWhileD)
  moreover have sorted: "sorted (map rp_ts (tw @ dw))"
    using ok by (simp add: rx_ok_def l [symmetric])
  moreover have "\<forall>x\<in>set dw. rp_ts e \<le> rp_ts x"
  proof (cases dw)
    case (Cons y ys)
    then have "\<not> rp_ts y \<le> rp_ts e"
      using hd_dropWhile [of "\<lambda>x. rp_ts x \<le> rp_ts e" "rx_list st"] by (simp add: dw_def)
    with sorted Cons show ?thesis
      by (auto simp: sorted_append)
  qed simp
  ultimately have so: "sorted (map rp_ts (tw @ [e] @ dw))"
    by (auto simp: sorted_append)
  define st2 where "st2 = with_list cfg (tw @ [e] @ dw) st"
  have st2: "st\<lparr>rx_list := tw @ [e] @ dw, rx_tail := tail_of (tw @ [e] @ dw), rx_count := rx_count st + 1,
      rx_bytes := rx_bytes st + rx_allocation cfg (rp_size e)\<rparr> = st2"
    using ok by (simp add: st2_def with_list_def rx_ok_def rx_canon_def l)
  have "rx_ok cfg st2"
    using ok so fresh held nov by (auto simp: st2_def rx_ok_def rx_canon_def l over_limit_def)
  moreover have "rx_total st2 = rx_total st + 1"
    by (simp add: rx_total_def st2_def l algebra_simps)
  moreover have "rx_known P E st2"
    using known by (auto simp: rx_known_def st2_def l)
  ultimately show ?thesis
    using ins st2 by (simp add: rx_step_ok_def)
qed

lemma evict_ok:
  assumes ok: "rx_ok cfg st" and "\<not> over_limit cfg alloc []"
  shows "\<exists>st1. rx_evict cfg alloc (rx_list st) st = Some st1 \<and> rx_ok cfg st1 \<and> rx_total st1 = rx_total st \<and>
     \<not> over_limit cfg alloc (rx_list st1) \<and> set (rx_list st1) \<subseteq> set (rx_list st) \<and>
     rx_owners st1 = rx_owners st \<and> rx_watermark st1 = rx_watermark st"
proof -
  obtain k where k: "k \<le> length (rx_list st)"
     "rx_evict cfg alloc (rx_list st) st =
       Some (with_list cfg (drop k (rx_list st)) (st\<lparr>rx_capacity_dropped := rx_capacity_dropped st + of_nat k\<rparr>))"
     "\<not> over_limit cfg alloc (drop k (rx_list st))"
    using evict_eq [OF _ assms(2), of st] ok unfolding rx_ok_def by blast
  let ?st1 = "with_list cfg (drop k (rx_list st)) (st\<lparr>rx_capacity_dropped := rx_capacity_dropped st + of_nat k\<rparr>)"
  have "rx_ok cfg ?st1"
    using ok bytes_of_drop [of cfg k "rx_list st"]
    by (auto simp: rx_ok_def rx_canon_def drop_map [symmetric] sorted_wrt_drop dest: in_set_dropD)
  moreover have "(of_nat k :: u64) + of_nat (length (rx_list st) - k) = of_nat (length (rx_list st))"
    using k(1) by (simp add: of_nat_diff)
  then have "rx_total ?st1 = rx_total st"
    by (simp add: rx_total_def algebra_simps)
  ultimately show ?thesis
    using k by (auto dest: in_set_dropD)
qed

lemma feed_pending_ok:
  assumes ok: "rx_ok cfg st" and cfg: "cfg_ok cfg" and known: "rx_known P E st"
    and d: "is_rx_keyed d" "de_owner_pending d \<noteq> 0" "de_ts d \<le> rx_watermark st" "(d, cpu, n) \<in> P"
    and fresh: "\<forall>a. mem = Some a \<longrightarrow> a \<notin> rp_addr ` set (rx_list st)"
  shows "\<exists>r. rx_feed_pending cfg mem d cpu n st = Some r \<and> rx_step_ok cfg P E 1 [] st r"
proof -
  define ow where "ow = rx_owners st ! owner_slot cfg d"
  have cnt: "rx_step_ok cfg P E 1 [] st (st', [])"
    if "st' = st\<lparr>rx_expired := rx_expired st + 1\<rparr> \<or> st' = st\<lparr>rx_capacity_dropped := rx_capacity_dropped st + 1\<rparr>" for st'
    using that ok known by (auto simp: rx_step_ok_def rx_ok_def rx_canon_def rx_total_def rx_known_def)
  consider "cfg_window_ns cfg < rx_watermark st - de_ts d \<or> cfg_max_bytes cfg < rx_allocation cfg n + cfg_sizeof_owners cfg \<or> mem = None"
    | (hit) a where "\<not> cfg_window_ns cfg < rx_watermark st - de_ts d"
        "\<not> cfg_max_bytes cfg < rx_allocation cfg n + cfg_sizeof_owners cfg" "mem = Some a" "rx_context_matches cfg d ow"
    | (store) a where "\<not> cfg_window_ns cfg < rx_watermark st - de_ts d"
        "\<not> cfg_max_bytes cfg < rx_allocation cfg n + cfg_sizeof_owners cfg" "mem = Some a" "\<not> rx_context_matches cfg d ow"
    by (cases mem) blast+
  then show ?thesis
  proof cases
    case 1
    then show ?thesis
      using cnt by (auto simp: rx_feed_pending_def Let_def)
  next
    case hit
    have "ow \<in> set (rx_owners st)"
      using ok owner_slot_less [OF cfg, of d] by (simp add: ow_def rx_ok_def)
    moreover have "ow_key ow \<noteq> 0"
      using hit(4) d(1) by (simp add: rx_context_matches_def is_rx_keyed_def)
    ultimately have "ow \<in> E"
      using known by (auto simp: rx_known_def zero_owner_def)
    then have "rx_attributed cfg P E (rx_context_apply d ow, cpu, n)"
      using hit(4) d(4) by (auto simp: rx_attributed_def)
    then have "rx_step_ok cfg P E 1 [] st (st\<lparr>rx_replayed := rx_replayed st + 1\<rparr>, [(rx_context_apply d ow, cpu, n)])"
      using ok known by (auto simp: rx_step_ok_def rx_ok_def rx_canon_def rx_total_def rx_known_def)
    with hit show ?thesis
      by (simp add: rx_feed_pending_def Let_def ow_def)
  next
    case store
    let ?e = "\<lparr>rp_addr = a, rp_cpu = cpu, rp_size = n, rp_detail = d\<rparr>"
    have "\<not> over_limit cfg (rx_allocation cfg n) []"
      using store(2) cfg by (simp add: over_limit_def cfg_ok_def)
    then obtain st1 where st1: "rx_evict cfg (rx_allocation cfg n) (rx_list st) st = Some st1" "rx_ok cfg st1"
        "rx_total st1 = rx_total st" "\<not> over_limit cfg (rx_allocation cfg n) (rx_list st1)"
        "set (rx_list st1) \<subseteq> set (rx_list st)" "rx_owners st1 = rx_owners st" "rx_watermark st1 = rx_watermark st"
      using evict_ok [OF ok] by blast
    have "held_ok cfg (rx_watermark st1) ?e"
      using d store(1) st1(7) by (simp add: held_ok_def not_less)
    moreover have "rx_known P E st1"
      using known st1(5,6) by (auto simp: rx_known_def)
    moreover have "rp_addr ?e \<notin> rp_addr ` set (rx_list st1)"
      using fresh store(3) st1(5) by auto
    ultimately obtain st2 where "rx_insert ?e st1 = Some st2"
        "rx_step_ok cfg P E 1 [] st1
          (st2\<lparr>rx_count := rx_count st2 + 1, rx_bytes := rx_bytes st2 + rx_allocation cfg n\<rparr>, [])"
      using store_ok [of cfg st1 ?e P E] st1(2,4) d(4) by auto
    then show ?thesis
      using store st1(1,3) by (simp add: rx_feed_pending_def Let_def ow_def rx_step_ok_def)
  qed
qed

lemma feed_ok:
  assumes ok: "rx_ok cfg st" and cfg: "cfg_ok cfg" and known: "rx_known P E st"
    and P: "rx_pending_fed cfg d n \<Longrightarrow> is_rx_keyed d \<Longrightarrow> (d, cpu, n) \<in> P"
    and E: "rx_evidence_fed cfg d n \<Longrightarrow> evidence_of d \<in> E"
    and fresh: "\<forall>a. mem = Some a \<longrightarrow> a \<notin> rp_addr ` set (rx_list st)"
  shows "\<exists>r. rx_context_feed cfg mem d cpu n st = Some r \<and>
     rx_step_ok cfg P E (if rx_pending_fed cfg d n then 1 else 0)
       (if rx_passed cfg d n then [(d, cpu, n)] else []) st r"
proof (cases "unat n < cfg_sizeof_detail cfg")
  case True
  then show ?thesis
    using ok known by (simp add: rx_context_feed_def rx_step_ok_def rx_pending_fed_def rx_passed_def)
next
  case False
  define st1 where "st1 = rx_context_expire cfg (de_ts d) st"
  have st1: "rx_ok cfg st1" "rx_total st1 = rx_total st" "set (rx_list st1) \<subseteq> set (rx_list st)"
      "rx_owners st1 = rx_owners st" "de_ts d \<le> rx_watermark st1"
    using expire_ok [OF ok, of "de_ts d"] by (auto simp: Let_def st1_def)
  have known1: "rx_known P E st1"
    using known st1 by (auto simp: rx_known_def)
  have fresh1: "\<forall>a. mem = Some a \<longrightarrow> a \<notin> rp_addr ` set (rx_list st1)"
    using fresh st1(3) by auto
  have tot: "rx_step_ok cfg P E k pass st r" if "rx_step_ok cfg P E k pass st1 r" for k pass r
    using that st1(2) by (simp add: rx_step_ok_def)
  show ?thesis
  proof (cases "is_rx_keyed d")
    case k: True
    show ?thesis
    proof (cases "de_owner_pending d = 0")
      case True
      then have "rx_context_feed cfg mem d cpu n st = Some (rx_feed_direct cfg d cpu n st1)"
        using False k by (simp add: rx_context_feed_def st1_def Let_def)
      moreover have "rx_step_ok cfg P E 0 [(d, cpu, n)] st (rx_feed_direct cfg d cpu n st1)"
        using feed_direct_ok [OF st1(1) cfg known1] E False k True
        by (intro tot) (simp add: rx_evidence_fed_def rx_passed_def)
      ultimately show ?thesis
        using False True by (simp add: rx_pending_fed_def rx_passed_def)
    next
      case p: False
      then have "rx_context_feed cfg mem d cpu n st = rx_feed_pending cfg mem d cpu n st1"
        using False k by (simp add: rx_context_feed_def st1_def Let_def)
      then show ?thesis
        using feed_pending_ok [OF st1(1) cfg known1 k p st1(5) _ fresh1, of cpu n] tot P False k p
        by (auto simp: rx_pending_fed_def rx_passed_def)
    qed
  next
    case nk: False
    have "rx_step_ok cfg P E 1 [] st (st1\<lparr>rx_unresolved := rx_unresolved st1 + 1\<rparr>, [])"
      using st1(1) known1
      by (intro tot) (auto simp: rx_step_ok_def rx_ok_def rx_canon_def rx_total_def rx_known_def)
    moreover have "rx_step_ok cfg P E 0 [(d, cpu, n)] st (st1, [(d, cpu, n)])"
      using st1(1) known1 by (intro tot) (simp add: rx_step_ok_def)
    ultimately show ?thesis
      using False nk by (simp add: rx_context_feed_def st1_def Let_def rx_pending_fed_def rx_passed_def)
  qed
qed

section \<open>Sequences of calls\<close>

text \<open>The exporter's calls: an event with the result of \<open>malloc\<close>, a tick, the end of the capture.\<close>

datatype rx_op =
    Feed "nat option" detail_event u32 u32
  | Expire u64
  | Finish

fun rx_op_step :: "rx_config \<Rightarrow> rx_op \<Rightarrow> rx_context \<Rightarrow> (rx_context \<times> rx_emission list) option" where
  "rx_op_step cfg (Feed mem d cpu n) st = rx_context_feed cfg mem d cpu n st"
| "rx_op_step cfg (Expire t) st = Some (rx_context_expire cfg t st, [])"
| "rx_op_step cfg Finish st = Some (rx_context_finish cfg st, [])"

fun rx_run :: "rx_config \<Rightarrow> rx_op list \<Rightarrow> rx_context \<Rightarrow> (rx_context \<times> rx_emission list list) option" where
  "rx_run cfg [] st = Some (st, [])"
| "rx_run cfg (x # xs) st =
     (case rx_op_step cfg x st of
        None \<Rightarrow> None
      | Some (st1, out) \<Rightarrow>
          (case rx_run cfg xs st1 of
             None \<Rightarrow> None
           | Some (st2, outs) \<Rightarrow> Some (st2, out # outs)))"

text \<open>\<open>malloc\<close> returns no address that is in use.\<close>

fun op_fresh :: "rx_op \<Rightarrow> rx_context \<Rightarrow> bool" where
  "op_fresh (Feed (Some a) d cpu n) st = (a \<notin> rp_addr ` set (rx_list st))"
| "op_fresh _ st = True"

fun mallocs_fresh :: "rx_config \<Rightarrow> rx_op list \<Rightarrow> rx_context \<Rightarrow> bool" where
  "mallocs_fresh cfg [] st = True"
| "mallocs_fresh cfg (x # xs) st =
     (op_fresh x st \<and> (case rx_op_step cfg x st of None \<Rightarrow> True | Some (st1, out) \<Rightarrow> mallocs_fresh cfg xs st1))"

fun op_pending :: "rx_config \<Rightarrow> rx_op \<Rightarrow> nat" where
  "op_pending cfg (Feed mem d cpu n) = (if rx_pending_fed cfg d n then 1 else 0)"
| "op_pending cfg _ = 0"

fun op_pass :: "rx_config \<Rightarrow> rx_op \<Rightarrow> rx_emission list" where
  "op_pass cfg (Feed mem d cpu n) = (if rx_passed cfg d n then [(d, cpu, n)] else [])"
| "op_pass cfg _ = []"

definition fed_pending :: "rx_config \<Rightarrow> rx_op list \<Rightarrow> rx_emission set" where
  "fed_pending cfg xs = {(d, cpu, n). \<exists>mem. Feed mem d cpu n \<in> set xs \<and> rx_pending_fed cfg d n}"

definition fed_evidence :: "rx_config \<Rightarrow> rx_op list \<Rightarrow> rx_owner set" where
  "fed_evidence cfg xs = {evidence_of d | d. \<exists>mem cpu n. Feed mem d cpu n \<in> set xs \<and> rx_evidence_fed cfg d n}"

lemma known_mono: "rx_known P E st \<Longrightarrow> P \<subseteq> P' \<Longrightarrow> E \<subseteq> E' \<Longrightarrow> rx_known P' E' st"
  by (auto simp: rx_known_def)

lemma op_step_ok:
  assumes ok: "rx_ok cfg st" and cfg: "cfg_ok cfg" and known: "rx_known P E st"
    and P: "fed_pending cfg [x] \<subseteq> P" and E: "fed_evidence cfg [x] \<subseteq> E" and fresh: "op_fresh x st"
  shows "\<exists>r. rx_op_step cfg x st = Some r \<and> rx_step_ok cfg P E (op_pending cfg x) (op_pass cfg x) st r"
proof (cases x)
  case (Feed mem d cpu n)
  have "\<forall>a. mem = Some a \<longrightarrow> a \<notin> rp_addr ` set (rx_list st)"
    using fresh Feed by auto
  moreover have "(d, cpu, n) \<in> P" if "rx_pending_fed cfg d n"
    using P that Feed by (auto simp: fed_pending_def)
  moreover have "evidence_of d \<in> E" if "rx_evidence_fed cfg d n"
    using E that Feed by (auto simp: fed_evidence_def)
  ultimately show ?thesis
    using feed_ok [OF ok cfg known] Feed by simp
next
  case (Expire t)
  then show ?thesis
    using expire_ok [OF ok, of t] known
    by (auto simp: Let_def rx_step_ok_def rx_known_def image_subset_iff dest!: set_dropWhileD)
next
  case Finish
  let ?st1 = "(with_list cfg [] (st\<lparr>rx_unresolved := rx_unresolved st + of_nat (length (rx_list st))\<rparr>))
      \<lparr>rx_owners := replicate (cfg_owner_slots cfg) zero_owner\<rparr>"
  have "rx_context_finish cfg st = ?st1"
    using finish_loop_eq [of cfg st] ok by (simp add: rx_context_finish_def rx_ok_def Let_def)
  moreover have "rx_step_ok cfg P E 0 [] st (?st1, [])"
    using cfg by (auto simp: rx_step_ok_def rx_ok_def rx_canon_def cfg_ok_def rx_total_def rx_known_def set_replicate_conv_if)
  ultimately show ?thesis
    using Finish by simp
qed

lemma run_ok:
  assumes "rx_ok cfg st" and cfg: "cfg_ok cfg" and "rx_known (fed_pending cfg h) (fed_evidence cfg h) st"
    and "mallocs_fresh cfg xs st"
  shows "\<exists>st' outs. rx_run cfg xs st = Some (st', outs) \<and> length outs = length xs \<and> rx_ok cfg st' \<and>
     rx_total st' = rx_total st + of_nat (sum_list (map (op_pending cfg) xs)) \<and>
     (\<forall>i < length xs. \<exists>replays. outs ! i = replays @ op_pass cfg (xs ! i) \<and>
        (\<forall>x \<in> set replays. rx_attributed cfg (fed_pending cfg (h @ take (Suc i) xs)) (fed_evidence cfg (h @ take (Suc i) xs)) x))"
  using assms(1,3,4)
proof (induction xs arbitrary: st h)
  case Nil
  then show ?case by simp
next
  case (Cons x xs)
  let ?P = "fed_pending cfg (h @ [x])" and ?E = "fed_evidence cfg (h @ [x])"
  have sub: "fed_pending cfg h \<subseteq> ?P" "fed_evidence cfg h \<subseteq> ?E" "fed_pending cfg [x] \<subseteq> ?P" "fed_evidence cfg [x] \<subseteq> ?E"
    by (auto simp: fed_pending_def fed_evidence_def)
  obtain st1 out where s1: "rx_op_step cfg x st = Some (st1, out)"
      "rx_step_ok cfg ?P ?E (op_pending cfg x) (op_pass cfg x) st (st1, out)"
    using op_step_ok [OF Cons.prems(1) cfg known_mono [OF Cons.prems(2) sub(1,2)] sub(3,4)] Cons.prems(3)
    by auto
  have ok1: "rx_ok cfg st1" "rx_total st1 = rx_total st + of_nat (op_pending cfg x)" "rx_known ?P ?E st1"
      and out: "\<exists>replays. out = replays @ op_pass cfg x \<and> (\<forall>x \<in> set replays. rx_attributed cfg ?P ?E x)"
    using s1(2) by (auto simp: rx_step_ok_def)
  have fr: "mallocs_fresh cfg xs st1"
    using Cons.prems(3) s1(1) by simp
  obtain st' outs where r: "rx_run cfg xs st1 = Some (st', outs)" "length outs = length xs" "rx_ok cfg st'"
      "rx_total st' = rx_total st1 + of_nat (sum_list (map (op_pending cfg) xs))"
      and outs: "\<And>i. i < length xs \<Longrightarrow> \<exists>replays. outs ! i = replays @ op_pass cfg (xs ! i) \<and>
        (\<forall>y \<in> set replays. rx_attributed cfg (fed_pending cfg ((h @ [x]) @ take (Suc i) xs)) (fed_evidence cfg ((h @ [x]) @ take (Suc i) xs)) y)"
    using Cons.IH [OF ok1(1,3) fr] by blast
  have "\<exists>replays. (out # outs) ! i = replays @ op_pass cfg ((x # xs) ! i) \<and>
        (\<forall>y \<in> set replays. rx_attributed cfg (fed_pending cfg (h @ take (Suc i) (x # xs))) (fed_evidence cfg (h @ take (Suc i) (x # xs))) y)"
    if "i < length (x # xs)" for i
    using out outs [of "i - 1"] that by (cases i) auto
  then show ?case
    using s1(1) r ok1(2) by (intro exI [of _ st'] exI [of _ "out # outs"]) (simp add: algebra_simps)
qed

lemma init_ok: "cfg_ok cfg \<Longrightarrow> rx_ok cfg (rx_init cfg) \<and> rx_total (rx_init cfg) = 0 \<and> rx_known P E (rx_init cfg)"
  by (auto simp: rx_ok_def rx_init_def rx_canon_def tail_of_def cfg_ok_def rx_total_def rx_known_def)

section \<open>Correctness of the quarantine\<close>

definition rx_demo_cfg :: rx_config where
  "rx_demo_cfg = \<lparr>cfg_max_events = 2, cfg_max_bytes = 1000, cfg_window_ns = 100, cfg_owner_slots = 4,
     cfg_sizeof_pending = 40, cfg_sizeof_detail = 20, cfg_sizeof_owners = 200\<rparr>"

definition rx_demo_detail :: "u64 \<Rightarrow> u64 \<Rightarrow> u8 \<Rightarrow> detail_event" where
  "rx_demo_detail key t pending = \<lparr>de_key = key, de_key_generation = 1, de_ts = t, de_owner_tid = 7, de_owner_tgid = 7,
     de_owner_uid = 1000, de_owner_socket_key = 64, de_owner_socket_generation = 3, de_direction = 2,
     de_owner_valid = 1, de_owner_pending = pending, de_owner_evidence = 1, de_other = []\<rparr>"

text \<open>
  Four pending events, one of them evicted, then the evidence that confirms the packet with key 32,
  and the end of the capture.
\<close>

definition rx_demo_ops :: "rx_op list" where
  "rx_demo_ops = [Feed (Some 1) (rx_demo_detail 16 10 1) 0 24, Feed (Some 2) (rx_demo_detail 32 30 1) 0 24,
     Feed (Some 3) (rx_demo_detail 32 20 1) 1 24, Feed None (rx_demo_detail 32 25 1) 1 24,
     Feed None (rx_demo_detail 32 40 0) 1 24, Expire 60, Finish]"

lemma rx_demo_cfg_ok: "cfg_ok rx_demo_cfg"
  by code_simp

lemma rx_demo_fresh: "mallocs_fresh rx_demo_cfg rx_demo_ops (rx_init rx_demo_cfg)"
  by code_simp

text \<open>
  C10. The quarantine is memory safe and bounded.  Whatever sequence of events, ticks and shutdowns
  is fed to it, it never follows a null or dangling pointer; at the end its list is sorted by event
  time, holds at most the configured number of entries and bytes, its count, byte count and tail
  pointer agree with the list, and every held entry lies within the time window of the watermark.
\<close>

theorem rx_context_safe:
  assumes "cfg_ok cfg" and "mallocs_fresh cfg xs (rx_init cfg)"
  shows "\<exists>st outs. rx_run cfg xs (rx_init cfg) = Some (st, outs) \<and>
     sorted (map rp_ts (rx_list st)) \<and>
     rx_count st = length (rx_list st) \<and> rx_count st \<le> cfg_max_events cfg \<and>
     rx_bytes st = (\<Sum>e\<leftarrow>rx_list st. rx_allocation cfg (rp_size e)) \<and>
     rx_bytes st + cfg_sizeof_owners cfg \<le> cfg_max_bytes cfg \<and>
     rx_tail st = tail_of (rx_list st) \<and>
     (\<forall>e \<in> set (rx_list st). rx_watermark st - rp_ts e \<le> cfg_window_ns cfg \<and> rp_ts e \<le> rx_watermark st)"
proof -
  obtain st outs where "rx_run cfg xs (rx_init cfg) = Some (st, outs)" "rx_ok cfg st"
    using run_ok [of cfg "rx_init cfg" "[]" xs] init_ok [OF assms(1)] assms by blast
  then show ?thesis
    by (auto simp: rx_ok_def rx_canon_def bytes_of_def held_ok_def)
qed

theorem rx_context_safe_witness:
  "cfg_ok rx_demo_cfg \<and> (\<exists>st outs. rx_run rx_demo_cfg rx_demo_ops (rx_init rx_demo_cfg) = Some (st, outs) \<and>
     rx_count st = length (rx_list st) \<and> rx_count st \<le> 2)"
  using rx_context_safe [OF rx_demo_cfg_ok rx_demo_fresh] rx_demo_cfg_ok by (auto simp: rx_demo_cfg_def)

text \<open>
  C11. No pending event is lost track of: the number of pending events fed is the number replayed,
  expired, dropped for capacity and unresolved, plus those still held (counters are 64-bit, so the
  equation is between words).
\<close>

theorem rx_context_conservation:
  assumes "cfg_ok cfg" and "mallocs_fresh cfg xs (rx_init cfg)" and "rx_run cfg xs (rx_init cfg) = Some (st, outs)"
  shows "rx_replayed st + rx_expired st + rx_capacity_dropped st + rx_unresolved st + of_nat (rx_count st) =
         of_nat (sum_list (map (op_pending cfg) xs))"
proof -
  have "rx_ok cfg st \<and> rx_total st = of_nat (sum_list (map (op_pending cfg) xs))"
    using run_ok [of cfg "rx_init cfg" "[]" xs] init_ok [OF assms(1)] assms by auto
  then show ?thesis
    by (simp add: rx_total_def rx_ok_def rx_canon_def)
qed

definition rx_demo_result :: "rx_context \<times> rx_emission list list" where
  "rx_demo_result = the (rx_run rx_demo_cfg rx_demo_ops (rx_init rx_demo_cfg))"

lemma rx_demo_run: "rx_run rx_demo_cfg rx_demo_ops (rx_init rx_demo_cfg) = Some (fst rx_demo_result, snd rx_demo_result)"
proof -
  have "rx_run rx_demo_cfg rx_demo_ops (rx_init rx_demo_cfg) \<noteq> None"
    by code_simp
  then show ?thesis
    by (simp add: rx_demo_result_def)
qed

theorem rx_context_conservation_witness:
  "rx_replayed (fst rx_demo_result) = 2 \<and> rx_capacity_dropped (fst rx_demo_result) = 2 \<and> rx_unresolved (fst rx_demo_result) = 0 \<and>
   rx_replayed (fst rx_demo_result) + rx_expired (fst rx_demo_result) + rx_capacity_dropped (fst rx_demo_result) +
     rx_unresolved (fst rx_demo_result) + of_nat (rx_count (fst rx_demo_result)) = 4"
proof -
  have "sum_list (map (op_pending rx_demo_cfg) rx_demo_ops) = 4" "rx_replayed (fst rx_demo_result) = 2"
      "rx_capacity_dropped (fst rx_demo_result) = 2" "rx_unresolved (fst rx_demo_result) = 0"
    by code_simp+
  then show ?thesis
    using rx_context_conservation [OF rx_demo_cfg_ok rx_demo_fresh rx_demo_run] by simp
qed

text \<open>
  C9. No misattribution.  Every call emits first replayed events and then the fed event itself,
  unchanged, exactly when that event is not pending.  Each replayed event is an event fed as
  pending, completed with the owner that some direct evidence fed so far proved for the same packet
  key and generation, at a time not before the event and within the window.
\<close>

theorem rx_context_attribution:
  assumes "cfg_ok cfg" and "mallocs_fresh cfg xs (rx_init cfg)"
    and "rx_run cfg xs (rx_init cfg) = Some (st, outs)" and "i < length xs"
  shows "\<exists>replays. outs ! i = replays @ op_pass cfg (xs ! i) \<and>
     (\<forall>(d, cpu, n) \<in> set replays. \<exists>d0 ev mem mem' cpu' n'.
        Feed mem d0 cpu n \<in> set (take (Suc i) xs) \<and> rx_pending_fed cfg d0 n \<and>
        Feed mem' ev cpu' n' \<in> set (take (Suc i) xs) \<and> rx_evidence_fed cfg ev n' \<and>
        de_key ev = de_key d0 \<and> de_key_generation ev = de_key_generation d0 \<and>
        de_ts d0 \<le> de_ts ev \<and> de_ts ev - de_ts d0 \<le> cfg_window_ns cfg \<and>
        d = rx_context_apply d0 (evidence_of ev))"
proof -
  obtain replays where r: "outs ! i = replays @ op_pass cfg (xs ! i)"
      "\<forall>x \<in> set replays. rx_attributed cfg (fed_pending cfg (take (Suc i) xs)) (fed_evidence cfg (take (Suc i) xs)) x"
    using run_ok [of cfg "rx_init cfg" "[]" xs] init_ok [OF assms(1)] assms by fastforce
  then show ?thesis
    by (intro exI [of _ replays])
       (fastforce simp: rx_attributed_def fed_pending_def fed_evidence_def rx_context_matches_def evidence_of_def)
qed

theorem rx_context_attribution_witness:
  "length (snd rx_demo_result ! 4) = 3 \<and>
   (\<exists>replays. snd rx_demo_result ! 4 = replays @ [(rx_demo_detail 32 40 0, 1, 24)] \<and>
     (\<forall>(d, cpu, n) \<in> set replays. de_owner_pending d = 0 \<and> de_owner_evidence d = 2))"
proof -
  have "4 < length rx_demo_ops" "op_pass rx_demo_cfg (rx_demo_ops ! 4) = [(rx_demo_detail 32 40 0, 1, 24)]"
      "length (snd rx_demo_result ! 4) = 3"
    by code_simp+
  moreover obtain replays where "snd rx_demo_result ! 4 = replays @ op_pass rx_demo_cfg (rx_demo_ops ! 4)"
      "\<forall>(d, cpu, n) \<in> set replays. \<exists>d0 ev. d = rx_context_apply d0 (evidence_of ev)"
    using rx_context_attribution [OF rx_demo_cfg_ok rx_demo_fresh rx_demo_run, of 4] calculation(1)
    by (fastforce simp: split_beta)
  ultimately show ?thesis
    by (intro conjI exI [of _ replays]) (auto simp: rx_context_apply_def)
qed

end
