(* ===== verification/TrafficHistory.thy ===== *)
theory TrafficHistory
  imports Complex_Main Interfaces
begin

text \<open>
  The per-flow history of the traffic view (\<open>traffic_history.c\<close>): an open-addressing hash index
  over an append-only array of records, a ring of sixty frames shared by all records, and the
  folding of kernel counters, which restart with every generation of a flow, into cumulative totals.
\<close>

section \<open>State\<close>

definition TRAFFIC_HISTORY_SAMPLES :: nat where
  "TRAFFIC_HISTORY_SAMPLES = 60"

definition TRAFFIC_HISTORY_KEY_BYTES :: nat where
  "TRAFFIC_HISTORY_KEY_BYTES = 128"

text \<open>
  A display row.  The \<open>double\<close> fields are their exact rational values before rounding, and the
  pointer to the row's history record is the record's position.
\<close>

record traffic_row =
  row_pid :: u32
  row_tid :: u32
  row_flow_count :: u32
  row_comm :: string
  row_protocol :: string
  row_local :: string
  row_remote :: string
  row_last_seen :: string
  row_rx_bytes :: u64
  row_tx_bytes :: u64
  row_rx_delta :: u64
  row_tx_delta :: u64
  row_first_seen_ns :: u64
  row_last_seen_ns :: u64
  row_record :: "nat option"
  row_rx_rate :: rat
  row_tx_rate :: rat
  row_idle_seconds :: rat
  row_sample_valid :: bool
  row_archived :: bool

definition zero_row :: traffic_row where
  "zero_row = \<lparr>row_pid = 0, row_tid = 0, row_flow_count = 0, row_comm = [], row_protocol = [], row_local = [],
     row_remote = [], row_last_seen = [], row_rx_bytes = 0, row_tx_bytes = 0, row_rx_delta = 0, row_tx_delta = 0,
     row_first_seen_ns = 0, row_last_seen_ns = 0, row_record = None, row_rx_rate = 0, row_tx_rate = 0,
     row_idle_seconds = 0, row_sample_valid = False, row_archived = False\<rparr>"

record history_sample =
  hs_rx_bytes :: u64
  hs_tx_bytes :: u64
  hs_available :: bool

definition zero_sample :: history_sample where
  "zero_sample = \<lparr>hs_rx_bytes = 0, hs_tx_bytes = 0, hs_available = False\<rparr>"

record history_frame =
  hf_sequence :: u64
  hf_elapsed_ns :: u64
  hf_timestamp :: string

definition zero_frame :: history_frame where
  "zero_frame = \<lparr>hf_sequence = 0, hf_elapsed_ns = 0, hf_timestamp = []\<rparr>"

record history_record =
  hr_key :: bytes
  hr_row :: traffic_row
  hr_samples :: "history_sample list"
  hr_born_sequence :: u64
  hr_rx_base :: u64
  hr_tx_base :: u64
  hr_rx_counter :: u64
  hr_tx_counter :: u64
  hr_generation :: u64

definition zero_record :: history_record where
  "zero_record = \<lparr>hr_key = replicate TRAFFIC_HISTORY_KEY_BYTES 0, hr_row = zero_row,
     hr_samples = replicate TRAFFIC_HISTORY_SAMPLES zero_sample, hr_born_sequence = 0, hr_rx_base = 0, hr_tx_base = 0,
     hr_rx_counter = 0, hr_tx_counter = 0, hr_generation = 0\<rparr>"

record traffic_history =
  th_records :: "history_record list"
  th_index :: "nat list"
  th_count :: nat
  th_capacity :: nat
  th_key_size :: nat
  th_index_size :: nat
  th_sequence :: u64
  th_frames :: "history_frame list"
  th_full :: bool

definition zero_history :: traffic_history where
  "zero_history = \<lparr>th_records = [], th_index = [], th_count = 0, th_capacity = 0, th_key_size = 0, th_index_size = 0,
     th_sequence = 0, th_frames = replicate TRAFFIC_HISTORY_SAMPLES zero_frame, th_full = False\<rparr>"

section \<open>Operations\<close>

function index_size_loop :: "nat \<Rightarrow> nat \<Rightarrow> nat" where
  "index_size_loop capacity n = (if 0 < n \<and> n < capacity * 2 then index_size_loop capacity (n * 2) else n)"
  by auto
termination
  by (relation "measure (\<lambda>(capacity, n). capacity * 2 - n)") auto

declare index_size_loop.simps [simp del]

text \<open>\<open>calloc_ok\<close> says which of the two allocations succeed.\<close>

definition traffic_history_open :: "bool \<times> bool \<Rightarrow> nat \<Rightarrow> nat \<Rightarrow> traffic_history \<Rightarrow> bool \<times> traffic_history" where
  "traffic_history_open calloc_ok capacity key_size h =
     (if capacity = 0 \<or> 16384 < capacity \<or> key_size = 0 \<or> TRAFFIC_HISTORY_KEY_BYTES < key_size then (False, h)
      else let n = index_size_loop capacity 1 in
        if \<not> fst calloc_ok \<or> \<not> snd calloc_ok then (False, zero_history)
        else (True, h\<lparr>th_index_size := n, th_records := replicate capacity zero_record,
                      th_index := replicate n 0, th_capacity := capacity, th_key_size := key_size\<rparr>))"

definition traffic_history_close :: "traffic_history \<Rightarrow> traffic_history" where
  "traffic_history_close h = zero_history"

definition age_record :: "u64 \<Rightarrow> nat \<Rightarrow> history_record \<Rightarrow> history_record" where
  "age_record now slot r =
     r\<lparr>hr_samples := (hr_samples r)[slot := zero_sample],
       hr_row := (hr_row r)\<lparr>row_rx_rate := 0, row_tx_rate := 0, row_archived := True,
          row_idle_seconds := (if row_last_seen_ns (hr_row r) < now
                               then of_nat (unat (now - row_last_seen_ns (hr_row r))) / 1000000000 else 0)\<rparr>\<rparr>"

text \<open>The frame's timestamp field has 20 bytes, the terminator included.\<close>

definition traffic_history_begin :: "string \<Rightarrow> u64 \<Rightarrow> u64 \<Rightarrow> traffic_history \<Rightarrow> traffic_history" where
  "traffic_history_begin timestamp now elapsed h =
     (let slot = unat (th_sequence h) mod TRAFFIC_HISTORY_SAMPLES; sq = th_sequence h + 1 in
      h\<lparr>th_sequence := sq,
        th_frames := (th_frames h)[slot := \<lparr>hf_sequence = sq, hf_elapsed_ns = elapsed, hf_timestamp = take 19 timestamp\<rparr>],
        th_records := map (age_record now slot) (take (th_count h) (th_records h)) @ drop (th_count h) (th_records h)\<rparr>)"

definition fnv_step :: "u64 \<Rightarrow> u8 \<Rightarrow> u64" where
  "fnv_step hash b = (hash XOR ucast b) * 1099511628211"

definition history_hash :: "nat \<Rightarrow> bytes \<Rightarrow> u64" where
  "history_hash key_size key = foldl fnv_step 14695981039346656037 (take key_size key)"

definition slot_mask :: "traffic_history \<Rightarrow> u64 \<Rightarrow> u64" where
  "slot_mask h w = w AND (of_nat (th_index_size h) - 1)"

text \<open>
  The probe loop: the slot where it stops, and the position of the matching record, if any.  It has
  no bound of its own; \<open>None\<close> is a loop that never ends.
\<close>

partial_function (option) history_probe :: "traffic_history \<Rightarrow> bytes \<Rightarrow> u64 \<Rightarrow> (nat \<times> nat option) option" where
  "history_probe h key slot =
     (let e = th_index h ! unat slot in
      if e = 0 then Some (unat slot, None)
      else if take (th_key_size h) (hr_key (th_records h ! (e - 1))) = take (th_key_size h) key
      then Some (unat slot, Some (e - 1))
      else history_probe h key (slot_mask h (slot + 1)))"

declare history_probe.simps [code]

text \<open>The part after label \<open>found\<close>; \<open>self\<close> is the position of the record.\<close>

definition found_record :: "nat \<Rightarrow> nat \<Rightarrow> traffic_row \<Rightarrow> history_record \<Rightarrow> history_record" where
  "found_record self sample row r0 =
     (if hr_generation r0 \<noteq> 0 \<and> row_first_seen_ns row < hr_generation r0
      then r0\<lparr>hr_row := (hr_row r0)\<lparr>row_archived := False, row_sample_valid := False\<rparr>\<rparr>
      else
        let r = (if hr_generation r0 \<noteq> 0 \<and> hr_generation r0 \<noteq> row_first_seen_ns row
                 then r0\<lparr>hr_rx_base := row_rx_bytes (hr_row r0), hr_tx_base := row_tx_bytes (hr_row r0),
                         hr_rx_counter := 0, hr_tx_counter := 0\<rparr> else r0);
            valid = (row_sample_valid row \<and>
                     \<not> (row_rx_bytes row < hr_rx_counter r \<or> row_tx_bytes row < hr_tx_counter r));
            rx = (if hr_rx_counter r < row_rx_bytes row then row_rx_bytes row else hr_rx_counter r);
            tx = (if hr_tx_counter r < row_tx_bytes row then row_tx_bytes row else hr_tx_counter r) in
        r\<lparr>hr_rx_counter := rx, hr_tx_counter := tx, hr_generation := row_first_seen_ns row,
          hr_row := row\<lparr>row_rx_bytes := hr_rx_base r + rx, row_tx_bytes := hr_tx_base r + tx,
                        row_record := Some self, row_archived := False, row_sample_valid := valid\<rparr>,
          hr_samples := (hr_samples r)[sample := \<lparr>hs_rx_bytes = row_rx_delta row, hs_tx_bytes = row_tx_delta row,
                                                 hs_available = valid\<rparr>]\<rparr>)"

definition history_sample_slot :: "traffic_history \<Rightarrow> nat" where
  "history_sample_slot h = unat (th_sequence h - 1) mod TRAFFIC_HISTORY_SAMPLES"

text \<open>\<open>memcpy\<close> of the key into the zeroed key array of a fresh record.\<close>

definition new_record :: "traffic_history \<Rightarrow> bytes \<Rightarrow> history_record \<Rightarrow> history_record" where
  "new_record h key r =
     r\<lparr>hr_key := take (th_key_size h) key @ drop (th_key_size h) (hr_key r), hr_born_sequence := th_sequence h\<rparr>"

text \<open>The result is the position of the record, or no record when the history is full.\<close>

definition traffic_history_update :: "traffic_history \<Rightarrow> bytes \<Rightarrow> traffic_row \<Rightarrow> (traffic_history \<times> nat option) option" where
  "traffic_history_update h key row =
     (case history_probe h key (slot_mask h (history_hash (th_key_size h) key)) of
        None \<Rightarrow> None
      | Some (slot, Some r) \<Rightarrow>
          Some (h\<lparr>th_records := (th_records h)[r := found_record r (history_sample_slot h) row (th_records h ! r)]\<rparr>, Some r)
      | Some (slot, None) \<Rightarrow>
          if th_count h = th_capacity h then Some (h\<lparr>th_full := True\<rparr>, None)
          else let r = th_count h; rec = new_record h key (th_records h ! r) in
            Some (h\<lparr>th_count := th_count h + 1,
                    th_index := (th_index h)[slot := th_count h + 1],
                    th_records := (th_records h)[r := found_record r (history_sample_slot h) row rec]\<rparr>, Some r))"

section \<open>The hash index\<close>

definition home :: "traffic_history \<Rightarrow> bytes \<Rightarrow> nat" where
  "home h key = unat (slot_mask h (history_hash (th_key_size h) key))"

definition slot_at :: "traffic_history \<Rightarrow> bytes \<Rightarrow> nat \<Rightarrow> nat" where
  "slot_at h key j = (home h key + j) mod th_index_size h"

text \<open>The key of a record as far as it is compared.\<close>

definition rec_key :: "traffic_history \<Rightarrow> nat \<Rightarrow> bytes" where
  "rec_key h r = take (th_key_size h) (hr_key (th_records h ! r))"

text \<open>
  The index: its size is a power of two at least twice the capacity; its entries are distinct
  record positions plus one; every record is found from its home slot along occupied slots.
\<close>

definition index_ok :: "traffic_history \<Rightarrow> bool" where
  "index_ok h \<longleftrightarrow>
     length (th_index h) = th_index_size h \<and>
     (\<forall>s < th_index_size h. th_index h ! s \<le> th_count h) \<and>
     (\<forall>s < th_index_size h. \<forall>t < th_index_size h. th_index h ! s = th_index h ! t \<longrightarrow> th_index h ! s \<noteq> 0 \<longrightarrow> s = t) \<and>
     (\<forall>r < th_count h. \<exists>j < th_index_size h. th_index h ! slot_at h (rec_key h r) j = r + 1 \<and>
        (\<forall>i < j. th_index h ! slot_at h (rec_key h r) i \<noteq> 0))"

definition size_ok :: "traffic_history \<Rightarrow> bool" where
  "size_ok h \<longleftrightarrow>
     (\<exists>k < 64. th_index_size h = 2 ^ k) \<and> 2 * th_capacity h \<le> th_index_size h \<and> 0 < th_capacity h \<and>
     th_count h \<le> th_capacity h \<and> length (th_records h) = th_capacity h \<and>
     0 < th_key_size h \<and> th_key_size h \<le> TRAFFIC_HISTORY_KEY_BYTES"

definition records_ok :: "traffic_history \<Rightarrow> bool" where
  "records_ok h \<longleftrightarrow>
     (\<forall>r < th_capacity h. length (hr_key (th_records h ! r)) = TRAFFIC_HISTORY_KEY_BYTES \<and>
        length (hr_samples (th_records h ! r)) = TRAFFIC_HISTORY_SAMPLES) \<and>
     (\<forall>r < th_capacity h. th_count h \<le> r \<longrightarrow> th_records h ! r = zero_record) \<and>
     (\<forall>r < th_count h. \<forall>r' < th_count h. rec_key h r = rec_key h r' \<longrightarrow> r = r')"

definition history_ok :: "traffic_history \<Rightarrow> bool" where
  "history_ok h \<longleftrightarrow> size_ok h \<and> index_ok h \<and> records_ok h"

lemma slot_mask_mod:
  assumes "th_index_size h = 2 ^ k" and "k < 64"
  shows "unat (slot_mask h w) = unat w mod th_index_size h"
proof -
  have "(of_nat (2 ^ k) :: u64) - 1 = mask k"
    by (simp add: mask_eq_exp_minus_1)
  then have "slot_mask h w = take_bit k w"
    by (simp add: slot_mask_def assms(1) take_bit_eq_mask)
  moreover have "unat (take_bit k w) = take_bit k (unat w)"
    by (simp add: unsigned_take_bit_eq)
  ultimately show ?thesis
    using assms by (simp add: take_bit_eq_mod)
qed

lemma home_less: "size_ok h \<Longrightarrow> home h key < th_index_size h"
  using slot_mask_mod unfolding size_ok_def home_def by auto

lemma index_size_bounds: "size_ok h \<Longrightarrow> 0 < th_index_size h \<and> th_index_size h \<le> 2 ^ 63"
proof -
  assume "size_ok h"
  then obtain k where k: "k < 64" "th_index_size h = 2 ^ k"
    by (auto simp: size_ok_def)
  then have "(2::nat) ^ k \<le> 2 ^ 63"
    by (intro power_increasing) auto
  with k show ?thesis
    by simp
qed

lemma slot_at_less: "size_ok h \<Longrightarrow> slot_at h key j < th_index_size h"
  using index_size_bounds [of h] by (simp add: slot_at_def)

lemma slot_at_inj:
  assumes "size_ok h" and "i < th_index_size h" "j < th_index_size h" and "slot_at h key i = slot_at h key j"
  shows "i = j"
proof -
  have "home h key < th_index_size h"
    using home_less assms(1) .
  then have "(home h key + i) mod th_index_size h = (if home h key + i < th_index_size h then home h key + i else home h key + i - th_index_size h)"
      "(home h key + j) mod th_index_size h = (if home h key + j < th_index_size h then home h key + j else home h key + j - th_index_size h)"
    using assms(2,3) by (simp_all add: add_mod_wrap)
  then show ?thesis
    using assms \<open>home h key < th_index_size h\<close> by (auto simp: slot_at_def split: if_splits)
qed

lemma slot_at_surj:
  assumes "size_ok h" and "s < th_index_size h"
  shows "\<exists>j < th_index_size h. slot_at h key j = s"
proof -
  have "home h key < th_index_size h"
    using home_less assms(1) .
  show ?thesis
  proof (cases "home h key \<le> s")
    case True
    then show ?thesis
      using assms by (intro exI [of _ "s - home h key"]) (simp add: slot_at_def)
  next
    case False
    then show ?thesis
      using assms \<open>home h key < th_index_size h\<close>
      by (intro exI [of _ "s + th_index_size h - home h key"]) (simp add: slot_at_def)
  qed
qed

text \<open>At most half of the slots are taken, so every probe meets an empty one.\<close>

lemma empty_slot:
  assumes "size_ok h" and "index_ok h"
  shows "\<exists>j < th_index_size h. th_index h ! slot_at h key j = 0"
proof -
  let ?occ = "{s. s < th_index_size h \<and> th_index h ! s \<noteq> 0}"
  have "inj_on (\<lambda>s. th_index h ! s) ?occ"
    using assms(2) by (auto simp: inj_on_def index_ok_def)
  moreover have "(\<lambda>s. th_index h ! s) ` ?occ \<subseteq> {1..th_count h}"
    using assms(2) by (auto simp: index_ok_def Suc_le_eq)
  ultimately have "card ?occ \<le> th_count h"
    using card_inj_on_le [of "\<lambda>s. th_index h ! s" ?occ "{1..th_count h}"] by simp
  also have "\<dots> < th_index_size h"
    using assms(1) by (auto simp: size_ok_def)
  finally have "card ?occ \<noteq> card {..<th_index_size h}"
    by simp
  then have "?occ \<noteq> {..<th_index_size h}"
    by metis
  then have "\<exists>s < th_index_size h. th_index h ! s = 0"
    by (auto simp: lessThan_def)
  then obtain s where "s < th_index_size h" "th_index h ! s = 0"
    by blast
  then show ?thesis
    using slot_at_surj [OF assms(1), of s key] by auto
qed

text \<open>The loop walks from the home slot to the first slot that is empty or holds the key.\<close>

definition probe_stops :: "traffic_history \<Rightarrow> bytes \<Rightarrow> nat \<Rightarrow> bool" where
  "probe_stops h key s \<longleftrightarrow> th_index h ! s = 0 \<or> rec_key h (th_index h ! s - 1) = take (th_key_size h) key"

lemma next_slot:
  assumes "size_ok h" and "unat w = slot_at h key j"
  shows "unat (slot_mask h (w + 1)) = slot_at h key (Suc j)"
proof -
  obtain k where k: "th_index_size h = 2 ^ k" "k < 64"
    using assms(1) by (auto simp: size_ok_def)
  have "unat w < 2 ^ 63"
    using assms slot_at_less [OF assms(1), of key j] index_size_bounds [OF assms(1)] by simp
  then have "unat (w + 1) = unat w + 1"
    by (simp add: unat_word_ariths)
  then show ?thesis
    using slot_mask_mod [OF k, of "w + 1"] assms(2) by (simp add: slot_at_def mod_Suc_eq)
qed

lemma probe_walk:
  assumes size: "size_ok h" and d: "probe_stops h key (slot_at h key d)" and low: "\<forall>i<d. \<not> probe_stops h key (slot_at h key i)"
    and "j \<le> d" and "unat w = slot_at h key j"
  shows "history_probe h key w =
    Some (slot_at h key d, if th_index h ! slot_at h key d = 0 then None else Some (th_index h ! slot_at h key d - 1))"
  using assms(4,5)
proof (induction "d - j" arbitrary: j w)
  case 0
  then have "unat w = slot_at h key d"
    by simp
  then show ?case
    using d by (subst history_probe.simps) (auto simp: Let_def probe_stops_def rec_key_def)
next
  case (Suc x)
  then have "\<not> probe_stops h key (slot_at h key j)"
    using low by simp
  then have "history_probe h key w = history_probe h key (slot_mask h (w + 1))"
    using Suc.prems(2) by (subst history_probe.simps) (auto simp: Let_def probe_stops_def rec_key_def)
  then show ?case
    using Suc.hyps(1) [of "Suc j" "slot_mask h (w + 1)"] Suc.hyps(2) next_slot [OF size Suc.prems(2)] by simp
qed

text \<open>Lookup and refinement: the finite map from keys to record positions.\<close>

definition position :: "traffic_history \<Rightarrow> bytes \<Rightarrow> nat option" where
  "position h key = find (\<lambda>r. rec_key h r = take (th_key_size h) key) [0..<th_count h]"

lemma position_Some:
  assumes "records_ok h"
  shows "position h key = Some r \<longleftrightarrow> r < th_count h \<and> rec_key h r = take (th_key_size h) key"
proof
  assume "position h key = Some r"
  then show "r < th_count h \<and> rec_key h r = take (th_key_size h) key"
    by (auto simp: position_def find_Some_iff)
next
  assume r: "r < th_count h \<and> rec_key h r = take (th_key_size h) key"
  then have "position h key \<noteq> None"
    by (auto simp: position_def find_None_iff)
  then obtain r' where r': "position h key = Some r'"
    by blast
  then have "r' < th_count h" "rec_key h r' = rec_key h r"
    using r by (auto simp: position_def find_Some_iff)
  then show "position h key = Some r"
    using r r' assms by (auto simp: records_ok_def)
qed

lemma position_None: "position h key = None \<longleftrightarrow> (\<forall>r < th_count h. rec_key h r \<noteq> take (th_key_size h) key)"
  by (auto simp: position_def find_None_iff)

lemma home_take: "home h (take (th_key_size h) key) = home h key"
  by (simp add: home_def history_hash_def)

lemma slot_at_take: "slot_at h (take (th_key_size h) key) j = slot_at h key j"
  by (simp add: slot_at_def home_take)

text \<open>The probe always ends, and finds the record of the key exactly when there is one.\<close>

lemma probe_result:
  assumes ok: "history_ok h"
  shows "\<exists>d < th_index_size h.
    history_probe h key (slot_mask h (history_hash (th_key_size h) key)) = Some (slot_at h key d, position h key) \<and>
    (\<forall>i<d. th_index h ! slot_at h key i \<noteq> 0) \<and>
    (position h key = None \<longrightarrow> th_index h ! slot_at h key d = 0)"
proof -
  have size: "size_ok h" and index: "index_ok h" and recs: "records_ok h"
    using ok by (auto simp: history_ok_def)
  define d where "d = (LEAST j. probe_stops h key (slot_at h key j))"
  obtain e where e: "e < th_index_size h" "th_index h ! slot_at h key e = 0"
    using empty_slot [OF size index] by blast
  then have pe: "probe_stops h key (slot_at h key e)"
    by (simp add: probe_stops_def)
  have pd: "probe_stops h key (slot_at h key d)"
    unfolding d_def by (rule LeastI [of _ e]) (rule pe)
  have low: "\<forall>i<d. \<not> probe_stops h key (slot_at h key i)"
    unfolding d_def using not_less_Least by blast
  have "d \<le> e"
    unfolding d_def by (rule Least_le) (rule pe)
  then have dn: "d < th_index_size h"
    using e by simp
  have w: "unat (slot_mask h (history_hash (th_key_size h) key)) = slot_at h key 0"
    using home_less [OF size, of key] by (simp add: slot_at_def home_def)
  note walk = probe_walk [OF size pd low _ w]
  let ?s = "slot_at h key d"
  have pos: "position h key = (if th_index h ! ?s = 0 then None else Some (th_index h ! ?s - 1))"
  proof (cases "th_index h ! ?s = 0")
    case True
    have "rec_key h r \<noteq> take (th_key_size h) key" if r: "r < th_count h" for r
    proof
      assume eq: "rec_key h r = take (th_key_size h) key"
      obtain j where j: "j < th_index_size h" "th_index h ! slot_at h key j = r + 1"
          "\<forall>i < j. th_index h ! slot_at h key i \<noteq> 0"
        using index r unfolding index_ok_def by (metis eq slot_at_take)
      have "probe_stops h key (slot_at h key j)"
        using j(2) eq by (simp add: probe_stops_def)
      then have "d \<le> j"
        using low by (meson not_less)
      with j True show False
        by (metis add_is_0 le_neq_implies_less one_neq_zero)
    qed
    then show ?thesis
      using True by (simp add: position_None)
  next
    case False
    have "th_index h ! ?s \<le> th_count h"
      using index slot_at_less [OF size] by (simp add: index_ok_def)
    then have "position h key = Some (th_index h ! ?s - 1)"
      using False pd by (subst position_Some [OF recs]) (auto simp: probe_stops_def)
    with False show ?thesis
      by simp
  qed
  show ?thesis
    using walk dn low pos by (intro exI [of _ d]) (auto simp: probe_stops_def)
qed

section \<open>Updates keep the history well formed\<close>

lemma found_record_frame [simp]:
  "hr_key (found_record self sample row r) = hr_key r"
  "hr_born_sequence (found_record self sample row r) = hr_born_sequence r"
  "length (hr_samples (found_record self sample row r)) = length (hr_samples r)"
  by (simp_all add: found_record_def Let_def)

text \<open>Changing records without touching their keys keeps the index.\<close>

lemma slot_at_cong:
  "th_index_size h' = th_index_size h \<Longrightarrow> th_key_size h' = th_key_size h \<Longrightarrow> slot_at h' = slot_at h"
  by (simp add: slot_at_def [abs_def] home_def slot_mask_def)

lemma history_ok_records:
  assumes ok: "history_ok h" and recs: "length recs = length (th_records h)"
    and upd: "\<And>r. r < th_capacity h \<Longrightarrow> hr_key (recs ! r) = hr_key (th_records h ! r) \<and>
          length (hr_samples (recs ! r)) = length (hr_samples (th_records h ! r)) \<and>
          (th_count h \<le> r \<longrightarrow> recs ! r = th_records h ! r)"
    and h': "h' = h\<lparr>th_records := recs, th_sequence := sq, th_frames := fr\<rparr>"
  shows "history_ok h' \<and> position h' = position h"
proof -
  have cap: "th_count h \<le> th_capacity h"
    using ok by (simp add: history_ok_def size_ok_def)
  have k: "rec_key h' r = rec_key h r" if "r < th_count h" for r
    using upd [of r] that cap by (simp add: rec_key_def h')
  have "size_ok h'"
    using ok recs by (auto simp: history_ok_def size_ok_def h')
  moreover have "records_ok h'"
    using ok upd k cap by (auto simp: history_ok_def records_ok_def h')
  moreover have "index_ok h'"
    using ok k slot_at_cong [of h' h] by (simp add: history_ok_def index_ok_def h')
  moreover have "position h' = position h"
  proof
    show "position h' key = position h key" for key
      using k unfolding position_def h' by (intro find_cong) auto
  qed
  ultimately show ?thesis
    by (simp add: history_ok_def)
qed

lemma new_record_key:
  assumes "length key = th_key_size h" and "th_key_size h \<le> TRAFFIC_HISTORY_KEY_BYTES"
    and "length (hr_key r) = TRAFFIC_HISTORY_KEY_BYTES"
  shows "take (th_key_size h) (hr_key (new_record h key r)) = key"
    and "length (hr_key (new_record h key r)) = TRAFFIC_HISTORY_KEY_BYTES"
    and "hr_samples (new_record h key r) = hr_samples r"
  using assms by (auto simp: new_record_def)

text \<open>Adding the record of a new key at the slot where its probe ended.\<close>

lemma history_ok_insert:
  assumes ok: "history_ok h" and key: "length key = th_key_size h" and room: "th_count h < th_capacity h"
    and new: "position h key = None" and d: "d < th_index_size h" "th_index h ! slot_at h key d = 0"
      "\<forall>i<d. th_index h ! slot_at h key i \<noteq> 0"
    and h': "h' = h\<lparr>th_count := th_count h + 1, th_index := (th_index h)[slot_at h key d := th_count h + 1],
        th_records := (th_records h)[th_count h := found_record (th_count h) sm row (new_record h key (th_records h ! th_count h))]\<rparr>"
  shows "history_ok h' \<and>
         (\<forall>key'. length key' = th_key_size h \<longrightarrow> position h' key' = ((position h)(key \<mapsto> th_count h)) key')"
proof -
  have size: "size_ok h" and index: "index_ok h" and recs: "records_ok h"
    using ok by (auto simp: history_ok_def)
  have len: "length (th_records h) = th_capacity h" "length (th_index h) = th_index_size h"
    using size index by (auto simp: size_ok_def index_ok_def)
  have lk: "length (hr_key (th_records h ! th_count h)) = TRAFFIC_HISTORY_KEY_BYTES" "th_key_size h \<le> TRAFFIC_HISTORY_KEY_BYTES"
    using recs room size by (auto simp: records_ok_def size_ok_def)
  have nk: "rec_key h' (th_count h) = key"
    using new_record_key(1) [OF key lk(2,1)] room len by (simp add: rec_key_def h')
  have k: "rec_key h' r = rec_key h r" if "r < th_count h" for r
    using that by (simp add: rec_key_def h')
  have ne: "rec_key h r \<noteq> key" if "r < th_count h" for r
    using new that key by (auto simp: position_None)
  have hc: "th_count h' = Suc (th_count h)" "th_key_size h' = th_key_size h"
    by (simp_all add: h')
  have sa: "slot_at h' = slot_at h"
    by (rule slot_at_cong) (simp_all add: h')
  have size': "size_ok h'"
    using size room by (auto simp: size_ok_def h')
  have recs': "records_ok h'"
    unfolding records_ok_def
  proof (intro conjI allI impI)
    fix r assume "r < th_capacity h'"
    then show "length (hr_key (th_records h' ! r)) = TRAFFIC_HISTORY_KEY_BYTES"
        "length (hr_samples (th_records h' ! r)) = TRAFFIC_HISTORY_SAMPLES"
      using recs len room new_record_key [of key h "th_records h ! th_count h"] key size
      by (auto simp: records_ok_def h' nth_list_update size_ok_def)
  next
    fix r assume "r < th_capacity h'" "th_count h' \<le> r"
    then show "th_records h' ! r = zero_record"
      using recs by (simp add: records_ok_def h')
  next
    fix r r' assume rr: "r < th_count h'" "r' < th_count h'" "rec_key h' r = rec_key h' r'"
    have inj: "\<forall>r < th_count h. \<forall>r' < th_count h. rec_key h r = rec_key h r' \<longrightarrow> r = r'"
      using recs by (simp add: records_ok_def)
    show "r = r'"
      using rr nk k ne [of r] ne [of r'] inj unfolding hc(1) by (cases "r = th_count h"; cases "r' = th_count h") auto
  qed
  have s: "slot_at h key d < th_index_size h"
    using slot_at_less [OF size] .
  have nz: "th_index h' ! t \<noteq> 0" if "th_index h ! t \<noteq> 0" "t < th_index_size h" for t
    using that len by (cases "t = slot_at h key d") (simp_all add: h')
  have "index_ok h'"
    unfolding index_ok_def
  proof (intro conjI allI impI)
    show "length (th_index h') = th_index_size h'"
      using len by (simp add: h')
    show "th_index h' ! t \<le> th_count h'" if "t < th_index_size h'" for t
      using that index len s by (auto simp: h' index_ok_def nth_list_update intro: le_SucI)
  next
    fix t u assume tu: "t < th_index_size h'" "u < th_index_size h'" "th_index h' ! t = th_index h' ! u" "th_index h' ! t \<noteq> 0"
    have "th_index h ! v \<noteq> Suc (th_count h)" if "v < th_index_size h" for v
      using index that by (metis Suc_n_not_le_n index_ok_def)
    then show "t = u"
      using tu index len s by (auto simp: h' index_ok_def nth_list_update split: if_splits)
  next
    fix r assume r: "r < th_count h'"
    show "\<exists>j < th_index_size h'. th_index h' ! slot_at h' (rec_key h' r) j = r + 1 \<and>
        (\<forall>i < j. th_index h' ! slot_at h' (rec_key h' r) i \<noteq> 0)"
    proof (cases "r = th_count h")
      case True
      then show ?thesis
        using d s len nk nz slot_at_less [OF size] unfolding sa
        by (intro exI [of _ d]) (auto simp: h')
    next
      case False
      then have r': "r < th_count h"
        using r by (simp add: h')
      obtain j where j: "j < th_index_size h" "th_index h ! slot_at h (rec_key h r) j = r + 1"
          "\<forall>i < j. th_index h ! slot_at h (rec_key h r) i \<noteq> 0"
        using index r' unfolding index_ok_def by blast
      have "slot_at h (rec_key h r) j \<noteq> slot_at h key d"
        using j(2) d(2) by auto
      then show ?thesis
        using j nz slot_at_less [OF size] unfolding sa k [OF r']
        by (intro exI [of _ j]) (auto simp: h')
    qed
  qed
  moreover have "position h' key' = ((position h)(key \<mapsto> th_count h)) key'" if len': "length key' = th_key_size h" for key'
  proof (cases "key' = key")
    case True
    have "position h' key = Some (th_count h)"
      using nk key by (simp add: position_Some [OF recs'] hc)
    with True show ?thesis
      by simp
  next
    case False
    have "position h' key' = Some r \<longleftrightarrow> position h key' = Some r" for r
      unfolding position_Some [OF recs'] position_Some [OF recs]
      using nk k False len' by (auto simp: hc less_Suc_eq)
    with False show ?thesis
      by (metis fun_upd_other not_None_eq)
  qed
  ultimately show ?thesis
    using size' recs' by (simp add: history_ok_def)
qed

text \<open>One update, by its three outcomes.\<close>

lemma update_cases:
  assumes ok: "history_ok h" and key: "length key = th_key_size h"
  obtains
    (found) r h' where "position h key = Some r" "r < th_count h"
      "traffic_history_update h key row = Some (h', Some r)"
      "h' = h\<lparr>th_records := (th_records h)[r := found_record r (history_sample_slot h) row (th_records h ! r)]\<rparr>"
      "history_ok h'" "position h' = position h"
  | (full) "position h key = None" "th_count h = th_capacity h"
      "traffic_history_update h key row = Some (h\<lparr>th_full := True\<rparr>, None)" "history_ok (h\<lparr>th_full := True\<rparr>)"
  | (added) slot h' where "position h key = None" "th_count h < th_capacity h"
      "traffic_history_update h key row = Some (h', Some (th_count h))"
      "h' = h\<lparr>th_count := th_count h + 1, th_index := (th_index h)[slot := th_count h + 1],
         th_records := (th_records h)[th_count h := found_record (th_count h) (history_sample_slot h) row
                                        (new_record h key zero_record)]\<rparr>"
      "history_ok h'"
      "\<forall>key'. length key' = th_key_size h \<longrightarrow> position h' key' = ((position h)(key \<mapsto> th_count h)) key'"
proof -
  have size: "size_ok h" and recs: "records_ok h"
    using ok by (auto simp: history_ok_def)
  have len: "length (th_records h) = th_capacity h"
    using size by (simp add: size_ok_def)
  obtain d where d: "d < th_index_size h"
      "history_probe h key (slot_mask h (history_hash (th_key_size h) key)) = Some (slot_at h key d, position h key)"
      "\<forall>i<d. th_index h ! slot_at h key i \<noteq> 0" "position h key = None \<longrightarrow> th_index h ! slot_at h key d = 0"
    using probe_result [OF ok] by blast
  show thesis
  proof (cases "position h key")
    case (Some r)
    let ?recs = "(th_records h)[r := found_record r (history_sample_slot h) row (th_records h ! r)]"
    have r: "r < th_count h"
      using Some position_Some [OF recs] by blast
    then have rc: "r < th_capacity h"
      using size by (simp add: size_ok_def)
    have "history_ok (h\<lparr>th_records := ?recs\<rparr>) \<and> position (h\<lparr>th_records := ?recs\<rparr>) = position h"
      by (rule history_ok_records [OF ok, where recs = ?recs and sq = "th_sequence h" and fr = "th_frames h"])
         (use r rc len in \<open>auto simp: nth_list_update\<close>)
    with r Some d(2) show ?thesis
      by (intro found [of r "h\<lparr>th_records := ?recs\<rparr>"]) (auto simp: traffic_history_update_def)
  next
    case None
    show ?thesis
    proof (cases "th_count h = th_capacity h")
      case True
      have "history_ok (h\<lparr>th_full := True\<rparr>)"
        using ok slot_at_cong [of "h\<lparr>th_full := True\<rparr>" h]
        by (simp add: history_ok_def size_ok_def records_ok_def index_ok_def rec_key_def [abs_def])
      with None True d(2) show ?thesis
        by (intro full) (auto simp: traffic_history_update_def)
    next
      case False
      then have room: "th_count h < th_capacity h"
        using size by (simp add: size_ok_def)
      then have z: "th_records h ! th_count h = zero_record"
        using recs by (simp add: records_ok_def)
      note ins = history_ok_insert [OF ok key room None d(1) d(4) [rule_format, OF None] d(3) refl, unfolded z]
      show ?thesis
        using None room d(2) z ins by (intro added) (auto simp: traffic_history_update_def Let_def)
    qed
  qed
qed

section \<open>Cumulative totals\<close>

text \<open>
  What a record keeps of the counters of one direction: the total of finished generations, the
  counter of the current one, and the total shown.
\<close>

type_synonym totals = "u64 \<times> (u64 \<times> u64 \<times> u64) \<times> (u64 \<times> u64 \<times> u64)"

definition totals_of :: "history_record \<Rightarrow> totals" where
  "totals_of r = (hr_generation r, (hr_rx_base r, hr_rx_counter r, row_rx_bytes (hr_row r)),
                                  (hr_tx_base r, hr_tx_counter r, row_tx_bytes (hr_row r)))"

definition direction_step :: "u64 \<Rightarrow> u64 \<Rightarrow> u64 \<Rightarrow> u64 \<times> u64 \<times> u64 \<Rightarrow> u64 \<times> u64 \<times> u64" where
  "direction_step gen g x d =
     (case d of (base, counter, shown) \<Rightarrow>
        let b = (if gen \<noteq> 0 \<and> gen \<noteq> g then shown else base);
            c = (if gen \<noteq> 0 \<and> gen \<noteq> g then 0 else counter) in
        (b, max c x, b + max c x))"

definition totals_step :: "traffic_row \<Rightarrow> totals \<Rightarrow> totals" where
  "totals_step row t =
     (case t of (gen, rx, tx) \<Rightarrow>
        if gen \<noteq> 0 \<and> row_first_seen_ns row < gen then t
        else (row_first_seen_ns row, direction_step gen (row_first_seen_ns row) (row_rx_bytes row) rx,
                                      direction_step gen (row_first_seen_ns row) (row_tx_bytes row) tx))"

lemma max_if: "(if c < x then x else c) = max c x" for c x :: u64
  by (auto simp: max_def)

lemma totals_found: "totals_of (found_record self sample row r) = totals_step row (totals_of r)"
  unfolding found_record_def max_if
  by (simp add: totals_of_def totals_step_def direction_step_def Let_def)

definition zero_totals :: totals where
  "zero_totals = (0, (0, 0, 0), (0, 0, 0))"

lemma totals_new [simp]: "totals_of (new_record h key zero_record) = zero_totals"
  by (simp add: totals_of_def new_record_def zero_record_def zero_row_def zero_totals_def)

text \<open>The history as a finite map from keys to totals.\<close>

definition history_view :: "traffic_history \<Rightarrow> bytes \<Rightarrow> totals option" where
  "history_view h key =
     (if length key = th_key_size h then map_option (\<lambda>r. totals_of (th_records h ! r)) (position h key) else None)"

definition update_state :: "bytes \<Rightarrow> traffic_row \<Rightarrow> traffic_history \<Rightarrow> traffic_history" where
  "update_state key row h = (case traffic_history_update h key row of None \<Rightarrow> h | Some (h', res) \<Rightarrow> h')"

definition begin_state :: "string \<times> u64 \<times> u64 \<Rightarrow> traffic_history \<Rightarrow> traffic_history" where
  "begin_state x h = (case x of (timestamp, now, elapsed) \<Rightarrow> traffic_history_begin timestamp now elapsed h)"

definition totals_app :: "bytes \<Rightarrow> traffic_row \<Rightarrow> totals option \<Rightarrow> totals" where
  "totals_app key row old = totals_step row (case old of None \<Rightarrow> zero_totals | Some t \<Rightarrow> t)"

lemma history_view_dom:
  assumes "history_ok h"
  shows "dom (history_view h) = rec_key h ` {..<th_count h}" and "card (dom (history_view h)) = th_count h"
proof -
  have recs: "records_ok h" and size: "size_ok h"
    using assms by (auto simp: history_ok_def)
  have len: "length (rec_key h r) = th_key_size h" if "r < th_count h" for r
    using recs size that by (auto simp: rec_key_def records_ok_def size_ok_def)
  show d: "dom (history_view h) = rec_key h ` {..<th_count h}"
  proof (intro set_eqI iffI)
    fix key assume "key \<in> dom (history_view h)"
    then obtain r where "length key = th_key_size h" "position h key = Some r"
      by (auto simp: history_view_def dom_def split: if_splits)
    then show "key \<in> rec_key h ` {..<th_count h}"
      by (auto simp: position_Some [OF recs])
  next
    fix key assume "key \<in> rec_key h ` {..<th_count h}"
    then obtain r where r: "r < th_count h" "key = rec_key h r"
      by auto
    then have "position h key = Some r"
      using len by (simp add: position_Some [OF recs])
    then show "key \<in> dom (history_view h)"
      using len r by (simp add: history_view_def domIff)
  qed
  have "inj_on (rec_key h) {..<th_count h}"
    using recs by (auto simp: inj_on_def records_ok_def)
  then show "card (dom (history_view h)) = th_count h"
    by (simp add: d card_image)
qed

lemma begin_ok:
  assumes ok: "history_ok h"
  shows "history_ok (begin_state x h)" "history_view (begin_state x h) = history_view h"
    "th_key_size (begin_state x h) = th_key_size h" "th_capacity (begin_state x h) = th_capacity h"
proof -
  obtain timestamp now elapsed where x: "x = (timestamp, now, elapsed)"
    by (cases x)
  define slot where "slot = unat (th_sequence h) mod TRAFFIC_HISTORY_SAMPLES"
  define recs where "recs = map (age_record now slot) (take (th_count h) (th_records h)) @ drop (th_count h) (th_records h)"
  have cap: "th_count h \<le> length (th_records h)" "length (th_records h) = th_capacity h"
    using ok by (auto simp: history_ok_def size_ok_def)
  have nth: "recs ! r = (if r < th_count h then age_record now slot (th_records h ! r) else th_records h ! r)"
    if "r < th_capacity h" for r
    using that cap by (simp add: recs_def nth_append min_def)
  have b: "begin_state x h = h\<lparr>th_records := recs, th_sequence := th_sequence h + 1,
      th_frames := (th_frames h)[slot := \<lparr>hf_sequence = th_sequence h + 1, hf_elapsed_ns = elapsed, hf_timestamp = take 19 timestamp\<rparr>]\<rparr>"
    by (simp add: begin_state_def x traffic_history_begin_def Let_def slot_def recs_def)
  have r: "history_ok (begin_state x h) \<and> position (begin_state x h) = position h"
    by (rule history_ok_records [OF ok _ _ b])
       (use cap nth in \<open>auto simp: age_record_def recs_def min_def\<close>)
  then show "history_ok (begin_state x h)"
    by blast
  show ks: "th_key_size (begin_state x h) = th_key_size h" "th_capacity (begin_state x h) = th_capacity h"
    by (simp_all add: b)
  show "history_view (begin_state x h) = history_view h"
  proof
    fix key
    have "totals_of (recs ! i) = totals_of (th_records h ! i)" if "position h key = Some i" for i
    proof -
      have "i < th_count h"
        using that ok by (simp add: position_Some history_ok_def)
      then show ?thesis
        using nth [of i] cap by (simp add: age_record_def totals_of_def)
    qed
    then show "history_view (begin_state x h) key = history_view h key"
      using r by (cases "position h key") (simp_all add: history_view_def ks, simp_all add: b)
  qed
qed

lemma update_view:
  assumes ok: "history_ok h" and key: "length key = th_key_size h"
  shows "history_ok (update_state key row h)" "th_key_size (update_state key row h) = th_key_size h"
    "th_capacity (update_state key row h) = th_capacity h"
    "history_view (update_state key row h) =
       (if key \<notin> dom (history_view h) \<and> th_capacity h \<le> card (dom (history_view h)) then history_view h
        else (history_view h)(key \<mapsto> totals_app key row (history_view h key)))"
proof -
  have recs: "records_ok h" and size: "size_ok h"
    using ok by (auto simp: history_ok_def)
  have len: "length (th_records h) = th_capacity h" "th_count h \<le> th_capacity h"
    using size by (auto simp: size_ok_def)
  have dom: "key \<in> dom (history_view h) \<longleftrightarrow> position h key \<noteq> None"
    using key by (simp add: history_view_def domIff)
  have "history_ok (update_state key row h) \<and> th_key_size (update_state key row h) = th_key_size h \<and>
    th_capacity (update_state key row h) = th_capacity h \<and>
    history_view (update_state key row h) =
       (if key \<notin> dom (history_view h) \<and> th_capacity h \<le> card (dom (history_view h)) then history_view h
        else (history_view h)(key \<mapsto> totals_app key row (history_view h key)))"
    using ok key
  proof (cases rule: update_cases [where row = row])
    case (found r h')
    have "history_view h' key' = ((history_view h)(key \<mapsto> totals_app key row (history_view h key))) key'" for key'
    proof (cases "key' = key")
      case True
      then show ?thesis
        using found len key by (simp add: history_view_def totals_app_def totals_found)
    next
      case False
      have "position h key' \<noteq> Some r" if "length key' = th_key_size h"
        using found(1) False that key recs by (auto simp: position_Some)
      then show ?thesis
        using found False by (cases "position h key'") (auto simp: history_view_def)
    qed
    with found dom show ?thesis
      by (auto simp: update_state_def)
  next
    case full
    have "history_view (h\<lparr>th_full := True\<rparr>) = history_view h"
      by (rule ext) (simp add: history_view_def position_def rec_key_def)
    with full dom show ?thesis
      by (simp add: update_state_def history_view_dom(2) [OF ok])
  next
    case (added slot h')
    have "history_view h' key' = ((history_view h)(key \<mapsto> totals_app key row (history_view h key))) key'" for key'
    proof (cases "key' = key")
      case True
      then show ?thesis
        using added len key by (simp add: history_view_def totals_app_def totals_found)
    next
      case False
      have "i < th_count h" if "position h key' = Some i" for i
        using that recs by (simp add: position_Some)
      then show ?thesis
        using added False by (cases "position h key'") (auto simp: history_view_def)
    qed
    with added dom show ?thesis
      by (auto simp: update_state_def history_view_dom(2) [OF ok])
  qed
  then show "history_ok (update_state key row h)" "th_key_size (update_state key row h) = th_key_size h"
    "th_capacity (update_state key row h) = th_capacity h"
    "history_view (update_state key row h) =
       (if key \<notin> dom (history_view h) \<and> th_capacity h \<le> card (dom (history_view h)) then history_view h
        else (history_view h)(key \<mapsto> totals_app key row (history_view h key)))"
    by blast+
qed

definition history_key_ok :: "traffic_history \<Rightarrow> bytes \<Rightarrow> bool" where
  "history_key_ok h key \<longleftrightarrow> length key = th_key_size h"

interpretation history: keyed_store history_ok history_key_ok history_view th_capacity begin_state update_state totals_app
proof
  show "finite (dom (history_view h))" if "history_ok h" for h
    using history_view_dom(1) [OF that] by simp
  show "history_ok (begin_state a h) \<and> th_capacity (begin_state a h) = th_capacity h \<and>
      history_key_ok (begin_state a h) = history_key_ok h \<and> history_view (begin_state a h) = history_view h"
    if "history_ok h" for a h
    using begin_ok [OF that] by (simp add: history_key_ok_def [abs_def])
  show "history_ok (update_state k i h) \<and> th_capacity (update_state k i h) = th_capacity h \<and>
      history_key_ok (update_state k i h) = history_key_ok h" if "history_ok h" "history_key_ok h k" for h k i
    using update_view [OF that(1)] that(2) by (simp add: history_key_ok_def [abs_def])
  show "history_view (update_state k i h) =
      (if k \<notin> dom (history_view h) \<and> th_capacity h \<le> card (dom (history_view h)) then history_view h
       else (history_view h)(k \<mapsto> totals_app k i (history_view h k)))" if "history_ok h" "history_key_ok h k" for h k i
    using update_view(4) [OF that(1)] that(2) by (simp add: history_key_ok_def)
qed

section \<open>What the totals mean\<close>

text \<open>
  The rows that count: those whose generation is not older than any seen before.  The total is the
  sum, over the generations that counted, of the largest counter seen in each.
\<close>

fun counted :: "traffic_row list \<Rightarrow> traffic_row list \<Rightarrow> traffic_row list" where
  "counted seen [] = []"
| "counted seen (x # xs) =
     (if \<forall>y \<in> set seen. row_first_seen_ns y \<le> row_first_seen_ns x then x # counted (seen @ [x]) xs
      else counted (seen @ [x]) xs)"

definition current_max :: "(traffic_row \<Rightarrow> u64) \<Rightarrow> u64 \<Rightarrow> traffic_row list \<Rightarrow> u64" where
  "current_max f g rows = Max (f ` {x \<in> set rows. row_first_seen_ns x = g})"

definition generation_total :: "(traffic_row \<Rightarrow> u64) \<Rightarrow> traffic_row list \<Rightarrow> u64" where
  "generation_total f rows = (\<Sum>g \<in> row_first_seen_ns ` set rows. current_max f g rows)"

definition older_total :: "(traffic_row \<Rightarrow> u64) \<Rightarrow> u64 \<Rightarrow> traffic_row list \<Rightarrow> u64" where
  "older_total f g rows = (\<Sum>g' \<in> row_first_seen_ns ` set rows - {g}. current_max f g' rows)"

text \<open>The newest generation so far is that of a row that counted.\<close>

definition newest :: "traffic_row list \<Rightarrow> u64" where
  "newest rows = Max (row_first_seen_ns ` set rows)"

definition newest0 :: "traffic_row list \<Rightarrow> u64" where
  "newest0 xs = (if xs = [] then 0 else newest xs)"

lemma counted_snoc:
  "counted seen (xs @ [x]) = counted seen xs @
     (if \<forall>y \<in> set (seen @ xs). row_first_seen_ns y \<le> row_first_seen_ns x then [x] else [])"
  by (induction seen xs rule: counted.induct) auto

lemma counted_subset: "set (counted seen xs) \<subseteq> set xs"
  by (induction seen xs rule: counted.induct) auto

lemma newest_snoc: "xs \<noteq> [] \<Longrightarrow> newest (xs @ [x]) = max (newest xs) (row_first_seen_ns x)"
  by (simp add: newest_def max.commute)

lemma newest_ge_iff: "xs \<noteq> [] \<Longrightarrow> (\<forall>y \<in> set xs. row_first_seen_ns y \<le> g) \<longleftrightarrow> newest xs \<le> g"
  by (simp add: newest_def)

lemma newest_counted: "xs \<noteq> [] \<Longrightarrow> newest xs \<in> row_first_seen_ns ` set (counted [] xs)"
proof (induction xs rule: rev_induct)
  case Nil
  then show ?case by simp
next
  case (snoc x xs)
  show ?case
  proof (cases "xs = []")
    case True
    then show ?thesis by (simp add: newest_def)
  next
    case False
    then show ?thesis
      using snoc.IH newest_ge_iff [OF False, of "row_first_seen_ns x"]
      by (auto simp: newest_snoc counted_snoc max_def)
  qed
qed

lemma total_split:
  "g \<in> row_first_seen_ns ` set rows \<Longrightarrow> generation_total f rows = older_total f g rows + current_max f g rows"
  unfolding generation_total_def older_total_def
  by (subst sum.remove [of _ g]) (auto simp: add.commute)

lemma current_max_snoc:
  "current_max f g (rows @ [x]) =
     (if row_first_seen_ns x = g
      then if \<exists>y \<in> set rows. row_first_seen_ns y = g then max (current_max f g rows) (f x) else f x
      else current_max f g rows)"
proof (cases "row_first_seen_ns x = g")
  case True
  have s: "{y \<in> set (rows @ [x]). row_first_seen_ns y = g} = insert x {y \<in> set rows. row_first_seen_ns y = g}"
    using True by auto
  show ?thesis
  proof (cases "\<exists>y \<in> set rows. row_first_seen_ns y = g")
    case ex: True
    then have "f ` {y \<in> set rows. row_first_seen_ns y = g} \<noteq> {}"
      by auto
    then show ?thesis
      using True ex unfolding current_max_def s image_insert by (simp add: max.commute)
  next
    case False
    then have e: "{y \<in> set rows. row_first_seen_ns y = g} = {}"
      by blast
    have "current_max f g (rows @ [x]) = f x"
      unfolding current_max_def s e by simp
    with True False show ?thesis
      by auto
  qed
next
  case False
  then have "{y \<in> set (rows @ [x]). row_first_seen_ns y = g} = {y \<in> set rows. row_first_seen_ns y = g}"
    by auto
  with False show ?thesis
    by (simp add: current_max_def)
qed

definition direction_of :: "(traffic_row \<Rightarrow> u64) \<Rightarrow> traffic_row list \<Rightarrow> u64 \<times> u64 \<times> u64" where
  "direction_of f xs =
     (let c = counted [] xs; g = newest xs in
      if xs = [] then (0, 0, 0) else (older_total f g c, current_max f g c, generation_total f c))"

lemma direction_snoc:
  assumes ge: "newest0 xs \<le> row_first_seen_ns x" and nz: "\<forall>y \<in> set xs. row_first_seen_ns y \<noteq> 0"
  shows "direction_of f (xs @ [x]) = direction_step (newest0 xs) (row_first_seen_ns x) (f x) (direction_of f xs)"
proof (cases "xs = []")
  case True
  then show ?thesis
    using current_max_snoc [of f "row_first_seen_ns x" "[]" x]
    by (simp add: direction_of_def direction_step_def newest0_def newest_def older_total_def generation_total_def Let_def)
next
  case False
  let ?g = "row_first_seen_ns x" and ?c = "counted [] xs"
  have g: "newest (xs @ [x]) = ?g" "newest xs \<le> ?g"
    using ge False by (simp_all add: newest_snoc newest0_def max_def)
  have c: "counted [] (xs @ [x]) = ?c @ [x]"
    using newest_ge_iff [OF False] g(2) by (simp add: counted_snoc)
  have n: "newest xs \<in> row_first_seen_ns ` set ?c"
    using newest_counted [OF False] .
  then have n0: "newest xs \<noteq> 0"
    using nz counted_subset [of "[]" xs] by auto
  have le: "row_first_seen_ns y \<le> newest xs" if "y \<in> set ?c" for y
    using that counted_subset [of "[]" xs] unfolding newest_def by (intro Max_ge) auto
  have t: "generation_total f (?c @ [x]) = older_total f ?g (?c @ [x]) + current_max f ?g (?c @ [x])"
    by (rule total_split) simp
  show ?thesis
  proof (cases "newest xs = ?g")
    case True
    have "older_total f ?g (?c @ [x]) = older_total f ?g ?c"
      unfolding older_total_def by (intro sum.cong) (auto simp: current_max_snoc)
    moreover have "current_max f ?g (?c @ [x]) = max (current_max f ?g ?c) (f x)"
      using n True by (auto simp: current_max_snoc)
    ultimately show ?thesis
      using False True c g t by (simp add: direction_of_def direction_step_def newest0_def Let_def)
  next
    case new: False
    have nx: "?g \<notin> row_first_seen_ns ` set ?c"
      using le new g(2) by force
    have "older_total f ?g (?c @ [x]) = (\<Sum>g' \<in> row_first_seen_ns ` set ?c. current_max f g' (?c @ [x]))"
      unfolding older_total_def using nx by (intro sum.cong) auto
    also have "\<dots> = generation_total f ?c"
      unfolding generation_total_def using nx by (intro sum.cong) (auto simp: current_max_snoc)
    finally have "older_total f ?g (?c @ [x]) = generation_total f ?c" .
    moreover have "\<not> (\<exists>y \<in> set ?c. row_first_seen_ns y = ?g)"
      using nx by (metis imageI)
    then have "current_max f ?g (?c @ [x]) = f x"
      by (simp add: current_max_snoc)
    ultimately show ?thesis
      using False new n0 c g t by (simp add: direction_of_def direction_step_def newest0_def Let_def)
  qed
qed

lemma direction_late:
  assumes "row_first_seen_ns x < newest0 xs"
  shows "direction_of f (xs @ [x]) = direction_of f xs \<and> newest (xs @ [x]) = newest xs \<and> xs \<noteq> []"
proof -
  have ne: "xs \<noteq> []"
    using assms by (auto simp: newest0_def)
  then have "\<not> newest xs \<le> row_first_seen_ns x"
    using assms by (simp add: newest0_def)
  moreover from this have "counted [] (xs @ [x]) = counted [] xs"
    using newest_ge_iff [OF ne, of "row_first_seen_ns x"] by (simp add: counted_snoc)
  ultimately show ?thesis
    using ne by (simp add: newest_snoc direction_of_def Let_def)
qed

lemma totals_fold:
  assumes "\<forall>x \<in> set xs. row_first_seen_ns x \<noteq> 0"
  shows "fold (\<lambda>row r. Some (totals_app k row r)) xs None =
    (if xs = [] then None else Some (newest xs, direction_of row_rx_bytes xs, direction_of row_tx_bytes xs))"
  using assms
proof (induction xs rule: rev_induct)
  case Nil
  then show ?case by simp
next
  case (snoc x xs)
  let ?t = "(newest0 xs, direction_of row_rx_bytes xs, direction_of row_tx_bytes xs)"
  have old: "(case fold (\<lambda>row r. Some (totals_app k row r)) xs None of None \<Rightarrow> zero_totals | Some t \<Rightarrow> t) = ?t"
    using snoc by (simp add: zero_totals_def newest0_def direction_of_def)
  have nz: "\<forall>y \<in> set xs. row_first_seen_ns y \<noteq> 0"
    using snoc.prems by simp
  have "totals_step x ?t = (newest (xs @ [x]), direction_of row_rx_bytes (xs @ [x]), direction_of row_tx_bytes (xs @ [x]))"
  proof (cases "row_first_seen_ns x < newest0 xs")
    case True
    moreover from True have "newest0 xs \<noteq> 0"
      by auto
    ultimately show ?thesis
      using direction_late [OF True] by (simp add: totals_step_def newest0_def)
  next
    case False
    then have ge: "newest0 xs \<le> row_first_seen_ns x"
      by simp
    have "newest (xs @ [x]) = row_first_seen_ns x"
      using ge by (cases "xs = []") (simp_all add: newest0_def newest_snoc max_def, simp add: newest_def)
    with False show ?thesis
      by (simp add: totals_step_def direction_snoc [OF ge nz])
  qed
  then have "totals_app k x (fold (\<lambda>row r. Some (totals_app k row r)) xs None) =
      (newest (xs @ [x]), direction_of row_rx_bytes (xs @ [x]), direction_of row_tx_bytes (xs @ [x]))"
    unfolding totals_app_def [of k x] old .
  then show ?case
    by simp
qed

section \<open>Opening\<close>

lemma index_size_loop_pow:
  "\<exists>m \<ge> k. index_size_loop capacity (2 ^ k) = 2 ^ m \<and> capacity * 2 \<le> 2 ^ m \<and> (m = k \<or> (2::nat) ^ m < capacity * 4)"
proof (induction "capacity * 2 - 2 ^ k" arbitrary: k rule: less_induct)
  case less
  show ?case
  proof (cases "(2::nat) ^ k < capacity * 2")
    case True
    have "capacity * 2 - 2 ^ Suc k < capacity * 2 - 2 ^ k"
      using True by (intro diff_less_mono2) auto
    then obtain m where m: "m \<ge> Suc k" "index_size_loop capacity (2 ^ Suc k) = 2 ^ m" "capacity * 2 \<le> 2 ^ m"
        "m = Suc k \<or> (2::nat) ^ m < capacity * 4"
      using less [of "Suc k"] by blast
    then have "(2::nat) ^ m < capacity * 4"
      using True by auto
    with m True show ?thesis
      by (intro exI [of _ m]) (auto simp: index_size_loop.simps [of capacity "2 ^ k"] mult.commute)
  next
    case False
    then show ?thesis
      by (intro exI [of _ k]) (auto simp: index_size_loop.simps [of capacity "2 ^ k"])
  qed
qed

lemma open_ok:
  assumes "traffic_history_open (True, True) capacity key_size zero_history = (True, h)"
  shows "history_ok h \<and> th_capacity h = capacity \<and> th_key_size h = key_size \<and> th_count h = 0"
proof -
  obtain m where m: "index_size_loop capacity 1 = 2 ^ m" "capacity * 2 \<le> 2 ^ m" "m = 0 \<or> (2::nat) ^ m < capacity * 4"
    using index_size_loop_pow [of 0 capacity] by auto
  have a: "0 < capacity" "capacity \<le> 16384" "0 < key_size" "key_size \<le> TRAFFIC_HISTORY_KEY_BYTES"
      "h = zero_history\<lparr>th_index_size := 2 ^ m, th_records := replicate capacity zero_record,
             th_index := replicate (2 ^ m) 0, th_capacity := capacity, th_key_size := key_size\<rparr>"
    using assms m(1) by (auto simp: traffic_history_open_def Let_def split: if_splits)
  have "m < 64"
  proof (rule ccontr)
    assume "\<not> m < 64"
    then have "(2::nat) ^ 64 \<le> 2 ^ m"
      by (intro power_increasing) auto
    with m(3) a(2) \<open>\<not> m < 64\<close> show False
      by simp
  qed
  then show ?thesis
    using a m(2) by (auto simp: history_ok_def size_ok_def index_ok_def records_ok_def zero_history_def zero_record_def)
qed

section \<open>Correctness of the history\<close>

text \<open>A run: at every sampling instant one frame is begun and then the sampled rows are applied.\<close>

type_synonym history_op = "(string \<times> u64 \<times> u64) + (bytes \<times> traffic_row)"

definition history_run :: "history_op list \<Rightarrow> traffic_history \<Rightarrow> traffic_history" where
  "history_run = fold (case_sum begin_state (case_prod update_state))"

definition rows_of :: "bytes \<Rightarrow> history_op list \<Rightarrow> traffic_row list" where
  "rows_of key xs = [row. Inr (k, row) \<leftarrow> xs, k = key]"

definition keys_of :: "history_op list \<Rightarrow> bytes set" where
  "keys_of xs = fst ` (Inr -` set xs)"

lemma run_keys: "\<forall>k \<in> keys_of xs. length k = th_key_size h \<Longrightarrow> \<forall>(k, i) \<in> Inr -` set xs. history_key_ok h k"
  by (auto simp: keys_of_def history_key_ok_def vimage_def)

lemma history_run_ok:
  assumes "traffic_history_open (True, True) capacity key_size zero_history = (True, h0)"
    and "\<forall>k \<in> keys_of xs. length k = key_size"
  shows "history_ok (history_run xs h0) \<and> th_key_size (history_run xs h0) = key_size \<and> th_capacity (history_run xs h0) = capacity"
proof -
  note o = open_ok [OF assms(1)]
  have keys: "\<forall>k \<in> keys_of xs. length k = th_key_size h0"
    using o assms(2) by simp
  have "th_key_size (history_run xs h) = th_key_size h"
    if "history_ok h" "\<forall>k \<in> keys_of xs. length k = th_key_size h" for h
    using that
  proof (induction xs arbitrary: h)
    case Nil
    then show ?case by (simp add: history_run_def)
  next
    case (Cons x xs)
    have sub: "keys_of xs \<subseteq> keys_of (x # xs)"
      by (auto simp: keys_of_def)
    show ?case
    proof (cases x)
      case (Inl a)
      then show ?thesis
        using Cons.IH [of "begin_state a h"] begin_ok [OF Cons.prems(1), of a] Cons.prems(2) sub
        by (auto simp: history_run_def)
    next
      case (Inr p)
      obtain k row where p: "p = (k, row)"
        by (cases p)
      have "k \<in> keys_of (x # xs)"
        unfolding keys_of_def using Inr p by (auto intro!: image_eqI [of _ _ "(k, row)"])
      then have "length k = th_key_size h"
        using Cons.prems(2) by blast
      then show ?thesis
        using Cons.IH [of "update_state k row h"] update_view [OF Cons.prems(1), of k row] Cons.prems(2) sub Inr p
        by (auto simp: history_run_def)
    qed
  qed
  then show ?thesis
    using history.run_keeps [OF _ run_keys [OF keys]] o keys by (auto simp: history_run_def)
qed

text \<open>
  The hash index works: in every state reached by a run, the unbounded probe loop of an update
  ends; the update returns the record of its key, adding one if there is room and returning no
  record only for a new key when the history is full; and every record that was found at some
  position before is found at the same position afterwards.
\<close>

lemma traffic_history_update_correct:
  assumes "traffic_history_open (True, True) capacity key_size zero_history = (True, h0)"
    and "\<forall>k \<in> keys_of xs. length k = key_size" and "length key = key_size"
  shows "\<exists>h' res. traffic_history_update (history_run xs h0) key row = Some (h', res) \<and>
     (res = None \<longleftrightarrow> position (history_run xs h0) key = None \<and> th_count (history_run xs h0) = capacity) \<and>
     (\<forall>r. res = Some r \<longrightarrow> r < th_count h' \<and> take key_size (hr_key (th_records h' ! r)) = key) \<and>
     (\<forall>key' r. length key' = key_size \<longrightarrow> position (history_run xs h0) key' = Some r \<longrightarrow> position h' key' = Some r)"
proof -
  let ?h = "history_run xs h0"
  have ok: "history_ok ?h" and ks: "th_key_size ?h = key_size" "th_capacity ?h = capacity"
    using history_run_ok [OF assms(1,2)] by auto
  have key: "length key = th_key_size ?h"
    using assms(3) ks by simp
  have recs: "records_ok h" if "history_ok h" for h
    using that by (simp add: history_ok_def)
  show ?thesis
    using ok key
  proof (cases rule: update_cases [where row = row])
    case (found r h')
    have k': "th_key_size h' = key_size"
      using found(4) ks by simp
    have "position h' key = Some r"
      using found by simp
    then have "r < th_count h' \<and> take key_size (hr_key (th_records h' ! r)) = key"
      using position_Some [OF recs [OF found(5)], of key r] k' assms(3) by (simp add: rec_key_def)
    with found(1,3,6) show ?thesis
      by auto
  next
    case full
    have "position (?h\<lparr>th_full := True\<rparr>) = position ?h"
      by (rule ext) (simp add: position_def rec_key_def)
    with full ks show ?thesis
      by auto
  next
    case (added slot h')
    have k': "th_key_size h' = key_size"
      using added(4) ks by simp
    have "position h' key = Some (th_count ?h)"
      using added(6) key by simp
    then have "th_count ?h < th_count h' \<and> take key_size (hr_key (th_records h' ! th_count ?h)) = key"
      using position_Some [OF recs [OF added(5)], of key "th_count ?h"] k' assms(3) by (simp add: rec_key_def)
    moreover have "position h' key' = Some r" if "length key' = key_size" "position ?h key' = Some r" for key' r
      using added(1,6) ks that by auto
    ultimately show ?thesis
      using added(1,2,3) ks by auto
  qed
qed

lemma rows_of_keys: "rows_of key xs \<noteq> [] \<Longrightarrow> key \<in> keys_of xs"
proof (induction xs)
  case (Cons x xs)
  then show ?case
    by (cases x) (auto simp: rows_of_def keys_of_def vimage_def image_def split: if_splits)
qed (simp add: rows_of_def)

text \<open>
  C12. The totals shown are right, however many keys there are.  After any run a key that was sampled has a record,
  unless there are as many records as there may be.  The record shows, in each direction, the sum over the
  generations of that key of the largest counter seen in the generation (modulo 2^64), over the rows that count: those
  that came while no newer generation of the key had been seen.  Late rows of an older generation add nothing, and rows
  of other keys and the frames in between do not matter.  (A generation is the time its entry was made, which is
  never zero.)
\<close>

theorem traffic_history_totals:
  assumes "traffic_history_open (True, True) capacity key_size zero_history = (True, h0)"
    and "\<forall>k \<in> keys_of xs. length k = key_size"
    and "rows_of key xs \<noteq> []" and "\<forall>row \<in> set (rows_of key xs). row_first_seen_ns row \<noteq> 0"
  shows "(case position (history_run xs h0) key of
       None \<Rightarrow> th_count (history_run xs h0) = capacity
     | Some r \<Rightarrow>
         row_rx_bytes (hr_row (th_records (history_run xs h0) ! r)) = generation_total row_rx_bytes (counted [] (rows_of key xs)) \<and>
         row_tx_bytes (hr_row (th_records (history_run xs h0) ! r)) = generation_total row_tx_bytes (counted [] (rows_of key xs)))"
proof -
  note o = open_ok [OF assms(1)] and r = history_run_ok [OF assms(1,2)]
  have keys: "\<forall>k \<in> keys_of xs. length k = th_key_size h0"
    using o assms(2) by simp
  have len: "length key = key_size"
    using assms(2) rows_of_keys [OF assms(3)] by blast
  have v0: "history_view h0 = (\<lambda>_. None)"
    using history_view_dom(1) [of h0] o by (metis dom_eq_empty_conv image_empty lessThan_0)
  have "th_count (history_run xs h0) \<le> capacity"
    using r by (auto simp: history_ok_def size_ok_def)
  then have "history_view (history_run xs h0) key =
      fold (\<lambda>row r. Some (totals_app key row r)) (rows_of key xs) (history_view h0 key) \<or>
      history_view (history_run xs h0) key = None \<and> th_count (history_run xs h0) = capacity"
    using history.run_view_any [of h0 xs key, OF _ run_keys [OF keys], folded history_run_def rows_of_def] o history_view_dom(2) r by auto
  then have "history_view (history_run xs h0) key =
      Some (newest (rows_of key xs), direction_of row_rx_bytes (rows_of key xs), direction_of row_tx_bytes (rows_of key xs)) \<or>
      history_view (history_run xs h0) key = None \<and> th_count (history_run xs h0) = capacity"
    using totals_fold [OF assms(4)] assms(3) v0 by simp
  then show ?thesis
    using assms(3) len r by (auto simp: history_view_def totals_of_def direction_of_def Let_def split: if_splits option.splits)
qed

definition frames_in :: "history_op list \<Rightarrow> nat" where
  "frames_in xs = length [a. Inl a \<leftarrow> xs]"

lemma update_frame:
  "th_frames (update_state key row h) = th_frames h \<and> th_sequence (update_state key row h) = th_sequence h"
  by (auto simp: update_state_def traffic_history_update_def Let_def split: option.splits)

lemma begin_frame:
  "th_sequence (begin_state (timestamp, now, elapsed) h) = th_sequence h + 1 \<and>
   th_frames (begin_state (timestamp, now, elapsed) h) =
     (th_frames h)[unat (th_sequence h) mod TRAFFIC_HISTORY_SAMPLES :=
        \<lparr>hf_sequence = th_sequence h + 1, hf_elapsed_ns = elapsed, hf_timestamp = take 19 timestamp\<rparr>]"
  by (simp add: begin_state_def traffic_history_begin_def Let_def)

lemma ring_slots_differ: "s < n \<Longrightarrow> n < s + k \<Longrightarrow> s mod k \<noteq> n mod k" for s n k :: nat
  by (metis add_diff_cancel_left' dvd_imp_le less_imp_add_positive mod_eq_dvd_iff_nat nat_add_left_cancel_less not_less
      order_less_imp_le)

lemma run_frames:
  assumes "length (th_frames h0) = TRAFFIC_HISTORY_SAMPLES" and "th_sequence h0 = 0"
  shows "frames_in xs < 2 ^ 64 \<Longrightarrow> th_sequence (history_run xs h0) = of_nat (frames_in xs) \<and>
     length (th_frames (history_run xs h0)) = TRAFFIC_HISTORY_SAMPLES \<and>
     (\<forall>s < frames_in xs. frames_in xs \<le> s + TRAFFIC_HISTORY_SAMPLES \<longrightarrow>
        hf_sequence (th_frames (history_run xs h0) ! (s mod TRAFFIC_HISTORY_SAMPLES)) = of_nat (Suc s))"
proof (induction xs rule: rev_induct)
  case Nil
  then show ?case
    using assms by (simp add: history_run_def frames_in_def)
next
  case (snoc x xs)
  let ?h = "history_run xs h0"
  show ?case
  proof (cases x)
    case (Inl a)
    obtain timestamp now elapsed where a: "a = (timestamp, now, elapsed)"
      by (cases a)
    have n: "frames_in (xs @ [x]) = Suc (frames_in xs)"
      using Inl by (simp add: frames_in_def)
    have IH: "th_sequence ?h = of_nat (frames_in xs)" "length (th_frames ?h) = TRAFFIC_HISTORY_SAMPLES"
        "\<forall>s < frames_in xs. frames_in xs \<le> s + TRAFFIC_HISTORY_SAMPLES \<longrightarrow>
           hf_sequence (th_frames ?h ! (s mod TRAFFIC_HISTORY_SAMPLES)) = of_nat (Suc s)"
      using snoc n by auto
    have u: "unat (th_sequence ?h) = frames_in xs"
      using IH(1) snoc.prems n by (simp add: unat_of_nat_64)
    have run: "history_run (xs @ [x]) h0 = begin_state (timestamp, now, elapsed) ?h"
      using Inl a by (simp add: history_run_def)
    have "hf_sequence (th_frames (history_run (xs @ [x]) h0) ! (s mod TRAFFIC_HISTORY_SAMPLES)) = of_nat (Suc s)"
      if s: "s < Suc (frames_in xs)" "Suc (frames_in xs) \<le> s + TRAFFIC_HISTORY_SAMPLES" for s
    proof (cases "s = frames_in xs")
      case True
      then show ?thesis
        using IH(1,2) begin_frame [of timestamp now elapsed ?h] run u
        by (simp add: TRAFFIC_HISTORY_SAMPLES_def add.commute)
    next
      case False
      then have "s mod TRAFFIC_HISTORY_SAMPLES \<noteq> frames_in xs mod TRAFFIC_HISTORY_SAMPLES"
        using s ring_slots_differ [of s "frames_in xs" TRAFFIC_HISTORY_SAMPLES] by simp
      then show ?thesis
        using IH(3) s False begin_frame [of timestamp now elapsed ?h] run u by simp
    qed
    then show ?thesis
      using n IH(1,2) begin_frame [of timestamp now elapsed ?h] run by (simp add: add.commute)
  next
    case (Inr p)
    then have "frames_in (xs @ [x]) = frames_in xs" "history_run (xs @ [x]) h0 = update_state (fst p) (snd p) ?h"
      by (simp_all add: frames_in_def history_run_def split_beta)
    then show ?thesis
      using snoc update_frame [of "fst p" "snd p" ?h] by simp
  qed
qed

text \<open>
  The frame and sample rings.  After a run with \<open>n\<close> frames, each of the last sixty frames is
  found in its own slot; a new frame marks the sample of that slot unavailable in every record, and
  an update after it writes the row's deltas into that slot of its record and into no other.
\<close>

lemma traffic_history_rings:
  assumes "traffic_history_open (True, True) capacity key_size zero_history = (True, h0)"
    and "frames_in xs < 2 ^ 64"
  shows "(\<forall>s < frames_in xs. frames_in xs \<le> s + TRAFFIC_HISTORY_SAMPLES \<longrightarrow>
            hf_sequence (th_frames (history_run xs h0) ! (s mod TRAFFIC_HISTORY_SAMPLES)) = of_nat (Suc s)) \<and>
         (let h = history_run xs h0; slot = frames_in xs mod TRAFFIC_HISTORY_SAMPLES;
              h1 = traffic_history_begin timestamp now elapsed h in
          (\<forall>r < th_count h. r < length (th_records h) \<longrightarrow>
             hr_samples (th_records h1 ! r) = (hr_samples (th_records h ! r))[slot := zero_sample]) \<and>
          history_sample_slot h1 = slot \<and>
          (\<forall>row rec i. i \<noteq> slot \<longrightarrow>
             hr_samples (found_record r (history_sample_slot h1) row rec) ! i = hr_samples rec ! i))"
proof -
  have h0: "length (th_frames h0) = TRAFFIC_HISTORY_SAMPLES" "th_sequence h0 = 0"
    using assms(1) by (auto simp: traffic_history_open_def zero_history_def Let_def split: if_splits)
  have u: "unat (th_sequence (history_run xs h0)) = frames_in xs"
    using run_frames [OF h0 assms(2)] assms(2) by (simp add: unat_of_nat_64)
  then have "history_sample_slot (traffic_history_begin timestamp now elapsed (history_run xs h0)) =
      frames_in xs mod TRAFFIC_HISTORY_SAMPLES"
    by (simp add: history_sample_slot_def traffic_history_begin_def Let_def)
  then show ?thesis
    using run_frames [OF h0 assms(2)] u
    by (auto simp: Let_def traffic_history_begin_def nth_append age_record_def found_record_def)
qed

section \<open>Witnesses\<close>

definition history_demo_row :: "u64 \<Rightarrow> u64 \<Rightarrow> traffic_row" where
  "history_demo_row g rx = zero_row\<lparr>row_first_seen_ns := g, row_rx_bytes := rx, row_sample_valid := True\<rparr>"

definition history_demo_ops :: "history_op list" where
  "history_demo_ops = [Inl (''t0'', 10, 10), Inr ([1, 2], history_demo_row 5 100), Inr ([3, 4], history_demo_row 5 7),
               Inl (''t1'', 20, 10), Inr ([1, 2], history_demo_row 5 150),
               Inl (''t2'', 30, 10), Inr ([1, 2], history_demo_row 9 20), Inr ([1, 2], history_demo_row 5 160)]"

definition history_demo :: traffic_history where
  "history_demo = snd (traffic_history_open (True, True) 2 2 zero_history)"

lemma history_demo_open: "traffic_history_open (True, True) 2 2 zero_history = (True, history_demo)"
proof -
  have "fst (traffic_history_open (True, True) 2 2 zero_history)"
    by code_simp
  then show ?thesis
    by (simp add: history_demo_def prod_eq_iff)
qed

lemma history_demo_keys: "keys_of history_demo_ops = {[1, 2], [3, 4]}"
  by (auto simp: keys_of_def history_demo_ops_def vimage_def image_def)

lemma history_demo_rows: "rows_of [1, 2] history_demo_ops = [history_demo_row 5 100, history_demo_row 5 150, history_demo_row 9 20, history_demo_row 5 160]"
  by (simp add: rows_of_def history_demo_ops_def)

theorem traffic_history_totals_witness:
  "\<exists>r. position (history_run history_demo_ops history_demo) [1, 2] = Some r \<and>
     row_rx_bytes (hr_row (th_records (history_run history_demo_ops history_demo) ! r)) = 170"
proof -
  have "generation_total row_rx_bytes (counted [] (rows_of [1, 2] history_demo_ops)) = 170"
  proof -
    have c: "counted [] (rows_of [1, 2] history_demo_ops) = [history_demo_row 5 100, history_demo_row 5 150, history_demo_row 9 20]"
      by (simp add: history_demo_rows history_demo_row_def)
    have m: "current_max row_rx_bytes 5 [history_demo_row 5 100, history_demo_row 5 150, history_demo_row 9 20] = 150"
        "current_max row_rx_bytes 9 [history_demo_row 5 100, history_demo_row 5 150, history_demo_row 9 20] = 20"
      by code_simp+
    show ?thesis
      unfolding generation_total_def c using m by (simp add: history_demo_row_def)
  qed
  moreover have "position (history_run history_demo_ops history_demo) [1, 2] = Some 0"
    by code_simp
  ultimately show ?thesis
    using traffic_history_totals [OF history_demo_open, of history_demo_ops "[1, 2]"] history_demo_keys history_demo_rows
    by (auto simp: history_demo_row_def)
qed

end
