(* ===== verification/TrafficBpf.thy ===== *)
theory TrafficBpf
  imports Prelude "HOL-Library.AList"
begin

text \<open>
  The kernel side of the traffic view (\<open>progs/traffic.c\<close>): probes at the entry and the return of the
  socket calls, which carry the flow of a call in a map keyed by thread and operation, and account
  the bytes of every successful call to the session, the process and the flow.  Maps are association
  lists; each probe runs as one step.  Reads of kernel memory and the map helpers of the kernel are
  inputs.
\<close>

section \<open>Data\<close>

definition TRAFFIC_ENDPOINT_UNKNOWN :: u8 where "TRAFFIC_ENDPOINT_UNKNOWN = 1"

datatype traffic_operation =
    TRAFFIC_OP_TCP_TX | TRAFFIC_OP_TCP_RX | TRAFFIC_OP_UDP4_TX | TRAFFIC_OP_UDP4_RX
  | TRAFFIC_OP_UDP6_TX | TRAFFIC_OP_UDP6_RX

definition IPPROTO_TCP :: u8 where "IPPROTO_TCP = 6"
definition IPPROTO_UDP :: u8 where "IPPROTO_UDP = 17"
definition AF_INET :: u16 where "AF_INET = 2"
definition AF_INET6 :: u16 where "AF_INET6 = 10"

text \<open>An address is the sixteen bytes of the union.\<close>

record flow_key =
  fk_tgid :: u32
  fk_tid :: u32
  fk_family :: u16
  fk_lport :: u16
  fk_rport :: u16
  fk_protocol :: u8
  fk_flags :: u8
  fk_laddr :: bytes
  fk_raddr :: bytes
  fk_comm :: bytes
  fk_process_start_ns :: u64

definition zero_addr :: bytes where "zero_addr = replicate 16 0"

definition zero_flow :: flow_key where
  "zero_flow = \<lparr>fk_tgid = 0, fk_tid = 0, fk_family = 0, fk_lport = 0, fk_rport = 0, fk_protocol = 0, fk_flags = 0,
     fk_laddr = zero_addr, fk_raddr = zero_addr, fk_comm = replicate 16 0, fk_process_start_ns = 0\<rparr>"

definition set_v4 :: "u32 \<Rightarrow> bytes \<Rightarrow> bytes" where
  "set_v4 v a = le_bytes 4 v @ drop 4 a"

record flow_value =
  fv_tx_bytes :: u64
  fv_rx_bytes :: u64
  fv_last_seen_ns :: u64
  fv_first_seen_ns :: u64

record process_key =
  pk_start_time_ns :: u64
  pk_tgid :: u32

record process_value =
  pv_counters :: flow_value
  pv_comm :: bytes

record inflight_key =
  ik_pid_tgid :: u64
  ik_operation :: traffic_operation

record inflight_value =
  iv_flow :: flow_key
  iv_sk :: u64

record traffic_config =
  tc_tid :: u32
  tc_uid :: u32
  tc_protocol :: u8
  tc_uid_enabled :: bool

record traffic_stats =
  st_inflight_drop :: u64
  st_flow_drop :: u64
  st_udp_endpoint_miss :: u64
  st_process_drop :: u64
  st_process_id_miss :: u64

record traffic_maps =
  tm_inflight :: "(inflight_key \<times> inflight_value) list"
  tm_flows :: "(flow_key \<times> flow_value) list"
  tm_totals :: flow_value
  tm_processes :: "(process_key \<times> process_value) list"
  tm_stats :: traffic_stats

definition zero_value :: flow_value where
  "zero_value = \<lparr>fv_tx_bytes = 0, fv_rx_bytes = 0, fv_last_seen_ns = 0, fv_first_seen_ns = 0\<rparr>"

definition zero_maps :: traffic_maps where
  "zero_maps = \<lparr>tm_inflight = [], tm_flows = [], tm_totals = zero_value, tm_processes = [],
     tm_stats = \<lparr>st_inflight_drop = 0, st_flow_drop = 0, st_udp_endpoint_miss = 0, st_process_drop = 0, st_process_id_miss = 0\<rparr>\<rparr>"

section \<open>Inputs from the kernel\<close>

text \<open>The current task: a failed read is \<open>None\<close>, a null leader pointer is \<open>Some 0\<close>.\<close>

record task_env =
  te_pid_tgid :: u64
  te_uid_gid :: u64
  te_comm :: bytes
  te_has_group_leader :: bool
  te_has_start_time :: bool
  te_has_comm :: bool
  te_leader :: "u64 option"
  te_leader_start_time :: "u64 option"
  te_leader_comm :: "bytes option"
  te_ktime_ns :: u64

text \<open>A socket; \<open>BPF_CORE_READ\<close> of an unreadable field yields zero.\<close>

record sock_view =
  sv_addr :: u64
  sv_family :: u16
  sv_num :: u16
  sv_inet_sport :: u16
  sv_dport :: u16
  sv_rcv_saddr :: u32
  sv_daddr :: u32
  sv_v6_rcv_saddr :: bytes
  sv_v6_daddr :: bytes

text \<open>
  \<open>bpf_map_update_elem\<close> of the three maps that can refuse an entry: the in-flight hash with
  \<open>BPF_ANY\<close>, the process hash and the LRU flow hash with \<open>BPF_NOEXIST\<close>.  \<open>None\<close> is an error.
\<close>

record map_helpers =
  mh_inflight :: "(inflight_key \<times> inflight_value) list \<Rightarrow> inflight_key \<Rightarrow> inflight_value \<Rightarrow>
                    (inflight_key \<times> inflight_value) list option"
  mh_processes :: "(process_key \<times> process_value) list \<Rightarrow> process_key \<Rightarrow> process_value \<Rightarrow>
                    (process_key \<times> process_value) list option"
  mh_flows :: "(flow_key \<times> flow_value) list \<Rightarrow> flow_key \<Rightarrow> flow_value \<Rightarrow> (flow_key \<times> flow_value) list option"

definition bpf_ntohs :: "u16 \<Rightarrow> u16" where
  "bpf_ntohs w = push_bit 8 w OR drop_bit 8 w"

section \<open>Helpers\<close>

definition traffic_process_start :: "task_env \<Rightarrow> u64" where
  "traffic_process_start e =
     (if \<not> te_has_group_leader e \<or> \<not> te_has_start_time e then 0
      else case te_leader e of
        None \<Rightarrow> 0
      | Some l \<Rightarrow> if l = 0 then 0 else case te_leader_start_time e of None \<Rightarrow> 0 | Some t \<Rightarrow> t)"

text \<open>The result is the filled key, or \<open>None\<close> for the negative return.\<close>

definition traffic_fill_key :: "traffic_config \<Rightarrow> task_env \<Rightarrow> sock_view \<Rightarrow> u8 \<Rightarrow> u16 \<Rightarrow> flow_key \<Rightarrow> flow_key option" where
  "traffic_fill_key cfg e sk protocol expected_family key0 =
     (if sv_addr sk = 0 then None
      else if tc_protocol cfg \<noteq> 0 \<and> tc_protocol cfg \<noteq> protocol then None
      else if tc_tid cfg \<noteq> 0 \<and> tc_tid cfg \<noteq> ucast (te_pid_tgid e) then None
      else if tc_uid_enabled cfg \<and> tc_uid cfg \<noteq> ucast (te_uid_gid e) then None
      else
        let key1 = key0\<lparr>fk_tgid := ucast (drop_bit 32 (te_pid_tgid e)), fk_tid := ucast (te_pid_tgid e),
                        fk_protocol := protocol, fk_family := sv_family sk\<rparr> in
        if expected_family \<noteq> 0 \<and> fk_family key1 \<noteq> expected_family then None
        else
          let key2 = key1\<lparr>fk_process_start_ns := traffic_process_start e, fk_comm := te_comm e\<rparr> in
          if protocol = IPPROTO_UDP then Some (key2\<lparr>fk_flags := TRAFFIC_ENDPOINT_UNKNOWN\<rparr>)
          else
            let key3 = key2\<lparr>fk_lport := (if sv_num sk = 0 then bpf_ntohs (sv_inet_sport sk) else sv_num sk),
                            fk_rport := bpf_ntohs (sv_dport sk)\<rparr> in
            if fk_family key3 = AF_INET
            then Some (key3\<lparr>fk_laddr := set_v4 (sv_rcv_saddr sk) (fk_laddr key3),
                            fk_raddr := set_v4 (sv_daddr sk) (fk_raddr key3)\<rparr>)
            else if fk_family key3 = AF_INET6
            then Some (key3\<lparr>fk_laddr := sv_v6_rcv_saddr sk, fk_raddr := sv_v6_daddr sk\<rparr>)
            else None)"

definition traffic_enter ::
    "map_helpers \<Rightarrow> traffic_config \<Rightarrow> task_env \<Rightarrow> sock_view \<Rightarrow> u8 \<Rightarrow> u16 \<Rightarrow> traffic_operation \<Rightarrow> traffic_maps \<Rightarrow> traffic_maps" where
  "traffic_enter mh cfg e sk protocol expected_family op m =
     (case traffic_fill_key cfg e sk protocol expected_family zero_flow of
        None \<Rightarrow> m
      | Some flow \<Rightarrow>
          (case mh_inflight mh (tm_inflight m) \<lparr>ik_pid_tgid = te_pid_tgid e, ik_operation = op\<rparr>
                  \<lparr>iv_flow = flow, iv_sk = sv_addr sk\<rparr> of
             None \<Rightarrow> m\<lparr>tm_stats := (tm_stats m)\<lparr>st_inflight_drop := st_inflight_drop (tm_stats m) + 1\<rparr>\<rparr>
           | Some i \<Rightarrow> m\<lparr>tm_inflight := i\<rparr>))"

text \<open>The key of the stored in-flight flow that belongs to this datagram, if there is one.\<close>

definition traffic_udp_flow :: "traffic_config \<Rightarrow> task_env \<Rightarrow> sock_view \<Rightarrow> bool \<Rightarrow> traffic_maps \<Rightarrow> (inflight_key \<times> flow_key) option" where
  "traffic_udp_flow cfg e sk tx m =
     (if sv_addr sk = 0 then None
      else if tc_tid cfg \<noteq> 0 \<and> tc_tid cfg \<noteq> ucast (te_pid_tgid e) then None
      else if tc_uid_enabled cfg \<and> tc_uid cfg \<noteq> ucast (te_uid_gid e) then None
      else
        let op = (if sv_family sk = AF_INET then Some (if tx then TRAFFIC_OP_UDP4_TX else TRAFFIC_OP_UDP4_RX)
                  else if sv_family sk = AF_INET6 then Some (if tx then TRAFFIC_OP_UDP6_TX else TRAFFIC_OP_UDP6_RX)
                  else None) in
        case op of
          None \<Rightarrow> None
        | Some op \<Rightarrow>
            let key = \<lparr>ik_pid_tgid = te_pid_tgid e, ik_operation = op\<rparr> in
            case map_of (tm_inflight m) key of
              None \<Rightarrow> None
            | Some v \<Rightarrow> if iv_sk v \<noteq> sv_addr sk then None else Some (key, iv_flow v))"

text \<open>\<open>*stored = flow\<close>: the assignment through the pointer into the in-flight map.\<close>

definition store_flow :: "inflight_key \<Rightarrow> flow_key \<Rightarrow> traffic_maps \<Rightarrow> traffic_maps" where
  "store_flow key flow m =
     (case map_of (tm_inflight m) key of
        None \<Rightarrow> m
      | Some v \<Rightarrow> m\<lparr>tm_inflight := AList.update key (v\<lparr>iv_flow := flow\<rparr>) (tm_inflight m)\<rparr>)"

text \<open>Reads from the route or from the received packet; \<open>None\<close> is a failed read.\<close>

record route4_view =
  r4_saddr :: "u32 option"
  r4_daddr :: "u32 option"
  r4_ports :: "(u16 \<times> u16) option"

record route6_view =
  r6_saddr :: "bytes option"
  r6_daddr :: "bytes option"
  r6_ports :: "(u16 \<times> u16) option"

definition traffic_udp4_endpoints ::
    "traffic_config \<Rightarrow> task_env \<Rightarrow> sock_view \<Rightarrow> route4_view \<Rightarrow> traffic_maps \<Rightarrow> traffic_maps" where
  "traffic_udp4_endpoints cfg e sk route m =
     (case traffic_udp_flow cfg e sk True m of
        None \<Rightarrow> m
      | Some (key, flow) \<Rightarrow>
          (case (r4_saddr route, r4_daddr route, r4_ports route) of
             (Some s, Some d, Some (dest, source)) \<Rightarrow>
               store_flow key (flow\<lparr>fk_laddr := set_v4 s zero_addr, fk_raddr := set_v4 d zero_addr, fk_family := AF_INET,
                  fk_lport := bpf_ntohs source, fk_rport := bpf_ntohs dest, fk_flags := 0\<rparr>) m
           | _ \<Rightarrow> m))"

definition traffic_udp6_endpoints ::
    "traffic_config \<Rightarrow> task_env \<Rightarrow> sock_view \<Rightarrow> route6_view \<Rightarrow> traffic_maps \<Rightarrow> traffic_maps" where
  "traffic_udp6_endpoints cfg e sk route m =
     (case traffic_udp_flow cfg e sk True m of
        None \<Rightarrow> m
      | Some (key, flow) \<Rightarrow>
          (case (r6_saddr route, r6_daddr route, r6_ports route) of
             (Some s, Some d, Some (dest, source)) \<Rightarrow>
               store_flow key (flow\<lparr>fk_laddr := s, fk_raddr := d, fk_family := AF_INET6,
                  fk_lport := bpf_ntohs source, fk_rport := bpf_ntohs dest, fk_flags := 0\<rparr>) m
           | _ \<Rightarrow> m))"

record skb_view =
  skb_offsets_readable :: bool
  skb_version :: "u8 option"
  skb_udp_ports :: "(u16 \<times> u16) option"
  skb_ip4 :: "(u32 \<times> u32) option"
  skb_ip6 :: "(bytes \<times> bytes) option"

text \<open>\<open>skb_udp_ports\<close> is source and destination; the addresses are source and destination too.\<close>

definition traffic_udp_receive_endpoints ::
    "traffic_config \<Rightarrow> task_env \<Rightarrow> sock_view \<Rightarrow> skb_view \<Rightarrow> traffic_maps \<Rightarrow> traffic_maps" where
  "traffic_udp_receive_endpoints cfg e sk skb m =
     (case traffic_udp_flow cfg e sk False m of
        None \<Rightarrow> m
      | Some (key, flow) \<Rightarrow>
          if \<not> skb_offsets_readable skb then m
          else case (skb_version skb, skb_udp_ports skb) of
            (Some version, Some (source, dest)) \<Rightarrow>
              let addrs = (if drop_bit 4 version = 4
                    then (case skb_ip4 skb of
                            None \<Rightarrow> None
                          | Some (saddr, daddr) \<Rightarrow>
                              Some (flow\<lparr>fk_family := AF_INET, fk_laddr := set_v4 daddr zero_addr,
                                         fk_raddr := set_v4 saddr zero_addr\<rparr>))
                    else if drop_bit 4 version = 6
                    then (case skb_ip6 skb of
                            None \<Rightarrow> None
                          | Some (saddr, daddr) \<Rightarrow> Some (flow\<lparr>fk_family := AF_INET6, fk_laddr := daddr, fk_raddr := saddr\<rparr>))
                    else None) in
              (case addrs of
                 None \<Rightarrow> m
               | Some f \<Rightarrow> store_flow key (f\<lparr>fk_lport := bpf_ntohs dest, fk_rport := bpf_ntohs source, fk_flags := 0\<rparr>) m)
          | _ \<Rightarrow> m)"

section \<open>Accounting\<close>

definition traffic_counter_add :: "u64 \<Rightarrow> bool \<Rightarrow> u64 \<Rightarrow> flow_value \<Rightarrow> flow_value" where
  "traffic_counter_add n tx now v =
     (if tx then v\<lparr>fv_tx_bytes := fv_tx_bytes v + n\<rparr> else v\<lparr>fv_rx_bytes := fv_rx_bytes v + n\<rparr>)\<lparr>fv_last_seen_ns := now\<rparr>"

definition leader_comm :: "task_env \<Rightarrow> flow_key \<Rightarrow> bytes" where
  "leader_comm e flow =
     (if \<not> te_has_group_leader e \<or> \<not> te_has_comm e then fk_comm flow
      else case te_leader e of
        None \<Rightarrow> fk_comm flow
      | Some l \<Rightarrow> if l = 0 then fk_comm flow else case te_leader_comm e of None \<Rightarrow> fk_comm flow | Some c \<Rightarrow> c)"

definition process_key_of :: "flow_key \<Rightarrow> process_key" where
  "process_key_of flow = \<lparr>pk_start_time_ns = fk_process_start_ns flow, pk_tgid = fk_tgid flow\<rparr>"

definition traffic_account_process ::
    "map_helpers \<Rightarrow> task_env \<Rightarrow> flow_key \<Rightarrow> u64 \<Rightarrow> bool \<Rightarrow> u64 \<Rightarrow> traffic_maps \<Rightarrow> traffic_maps" where
  "traffic_account_process mh e flow n tx now m =
     (let key = process_key_of flow;
          zero = \<lparr>pv_counters = zero_value\<lparr>fv_first_seen_ns := now\<rparr>, pv_comm = leader_comm e flow\<rparr> in
      if pk_start_time_ns key = 0
      then m\<lparr>tm_stats := (tm_stats m)\<lparr>st_process_id_miss := st_process_id_miss (tm_stats m) + 1\<rparr>\<rparr>
      else
        let ps = (case map_of (tm_processes m) key of
                    Some v \<Rightarrow> tm_processes m
                  | None \<Rightarrow> (case mh_processes mh (tm_processes m) key zero of
                               None \<Rightarrow> tm_processes m | Some ps \<Rightarrow> ps)) in
        case map_of ps key of
          None \<Rightarrow> m\<lparr>tm_processes := ps,
                    tm_stats := (tm_stats m)\<lparr>st_process_drop := st_process_drop (tm_stats m) + 1\<rparr>\<rparr>
        | Some v \<Rightarrow>
            m\<lparr>tm_processes := AList.update key (v\<lparr>pv_counters := traffic_counter_add n tx now (pv_counters v)\<rparr>) ps\<rparr>)"

definition traffic_account_flow :: "map_helpers \<Rightarrow> flow_key \<Rightarrow> u64 \<Rightarrow> bool \<Rightarrow> u64 \<Rightarrow> traffic_maps \<Rightarrow> traffic_maps" where
  "traffic_account_flow mh flow n tx now m =
     (let zero = zero_value\<lparr>fv_first_seen_ns := now\<rparr>;
          fs = (case map_of (tm_flows m) flow of
                  Some v \<Rightarrow> tm_flows m
                | None \<Rightarrow> (case mh_flows mh (tm_flows m) flow zero of None \<Rightarrow> tm_flows m | Some fs \<Rightarrow> fs)) in
      case map_of fs flow of
        None \<Rightarrow> m\<lparr>tm_flows := fs, tm_stats := (tm_stats m)\<lparr>st_flow_drop := st_flow_drop (tm_stats m) + 1\<rparr>\<rparr>
      | Some v \<Rightarrow> m\<lparr>tm_flows := AList.update flow (traffic_counter_add n tx now v) fs\<rparr>)"

definition traffic_account :: "map_helpers \<Rightarrow> task_env \<Rightarrow> flow_key \<Rightarrow> u64 \<Rightarrow> bool \<Rightarrow> traffic_maps \<Rightarrow> traffic_maps" where
  "traffic_account mh e flow n tx m =
     (let now = te_ktime_ns e;
          m1 = m\<lparr>tm_totals := traffic_counter_add n tx now (tm_totals m)\<rparr>;
          m2 = traffic_account_process mh e flow n tx now m1 in
      traffic_account_flow mh flow n tx now m2)"

text \<open>
  The return probe.  The second result records what was accounted.
\<close>

record accounting =
  ac_flow :: flow_key
  ac_bytes :: u64
  ac_tx :: bool

definition traffic_exit ::
    "map_helpers \<Rightarrow> task_env \<Rightarrow> u64 \<Rightarrow> traffic_operation \<Rightarrow> bool \<Rightarrow> traffic_maps \<Rightarrow> traffic_maps \<times> accounting list" where
  "traffic_exit mh e rc op tx m =
     (let key = \<lparr>ik_pid_tgid = te_pid_tgid e, ik_operation = op\<rparr>; n = (ucast rc :: 32 word) in
      case map_of (tm_inflight m) key of
        None \<Rightarrow> (m, [])
      | Some v \<Rightarrow>
          let m1 = m\<lparr>tm_inflight := AList.delete key (tm_inflight m)\<rparr> in
          if 0 < sint n
          then let m2 = (if fk_flags (iv_flow v) AND TRAFFIC_ENDPOINT_UNKNOWN \<noteq> 0
                         then m1\<lparr>tm_stats := (tm_stats m1)\<lparr>st_udp_endpoint_miss := st_udp_endpoint_miss (tm_stats m1) + 1\<rparr>\<rparr>
                         else m1) in
               (traffic_account mh e (iv_flow v) (scast n) tx m2,
                [\<lparr>ac_flow = iv_flow v, ac_bytes = scast n, ac_tx = tx\<rparr>])
          else (m1, []))"

section \<open>The probes\<close>

definition traffic_tcp_send_entry where
  "traffic_tcp_send_entry mh cfg e sk = traffic_enter mh cfg e sk IPPROTO_TCP 0 TRAFFIC_OP_TCP_TX"
definition traffic_tcp_send_exit where
  "traffic_tcp_send_exit mh e rc = traffic_exit mh e rc TRAFFIC_OP_TCP_TX True"
definition traffic_tcp_recv_entry where
  "traffic_tcp_recv_entry mh cfg e sk = traffic_enter mh cfg e sk IPPROTO_TCP 0 TRAFFIC_OP_TCP_RX"
definition traffic_tcp_recv_exit where
  "traffic_tcp_recv_exit mh e rc = traffic_exit mh e rc TRAFFIC_OP_TCP_RX False"
definition traffic_udp4_send_entry where
  "traffic_udp4_send_entry mh cfg e sk = traffic_enter mh cfg e sk IPPROTO_UDP AF_INET TRAFFIC_OP_UDP4_TX"
definition traffic_udp4_send_exit where
  "traffic_udp4_send_exit mh e rc = traffic_exit mh e rc TRAFFIC_OP_UDP4_TX True"
definition traffic_udp4_recv_entry where
  "traffic_udp4_recv_entry mh cfg e sk = traffic_enter mh cfg e sk IPPROTO_UDP AF_INET TRAFFIC_OP_UDP4_RX"
definition traffic_udp4_recv_exit where
  "traffic_udp4_recv_exit mh e rc = traffic_exit mh e rc TRAFFIC_OP_UDP4_RX False"
definition traffic_udp6_send_entry where
  "traffic_udp6_send_entry mh cfg e sk = traffic_enter mh cfg e sk IPPROTO_UDP AF_INET6 TRAFFIC_OP_UDP6_TX"
definition traffic_udp6_send_exit where
  "traffic_udp6_send_exit mh e rc = traffic_exit mh e rc TRAFFIC_OP_UDP6_TX True"
definition traffic_udp6_recv_entry where
  "traffic_udp6_recv_entry mh cfg e sk = traffic_enter mh cfg e sk IPPROTO_UDP AF_INET6 TRAFFIC_OP_UDP6_RX"
definition traffic_udp6_recv_exit where
  "traffic_udp6_recv_exit mh e rc = traffic_exit mh e rc TRAFFIC_OP_UDP6_RX False"

section \<open>Sequences of probes\<close>

datatype probe =
    Entry traffic_operation sock_view
  | Return traffic_operation u64
  | SendEndpoints4 sock_view route4_view
  | SendEndpoints6 sock_view route6_view
  | ReceiveEndpoints sock_view skb_view

definition entry_probe :: "map_helpers \<Rightarrow> traffic_config \<Rightarrow> task_env \<Rightarrow> traffic_operation \<Rightarrow> sock_view \<Rightarrow> traffic_maps \<Rightarrow> traffic_maps" where
  "entry_probe mh cfg e op sk =
     (case op of
        TRAFFIC_OP_TCP_TX \<Rightarrow> traffic_tcp_send_entry mh cfg e sk
      | TRAFFIC_OP_TCP_RX \<Rightarrow> traffic_tcp_recv_entry mh cfg e sk
      | TRAFFIC_OP_UDP4_TX \<Rightarrow> traffic_udp4_send_entry mh cfg e sk
      | TRAFFIC_OP_UDP4_RX \<Rightarrow> traffic_udp4_recv_entry mh cfg e sk
      | TRAFFIC_OP_UDP6_TX \<Rightarrow> traffic_udp6_send_entry mh cfg e sk
      | TRAFFIC_OP_UDP6_RX \<Rightarrow> traffic_udp6_recv_entry mh cfg e sk)"

definition return_probe :: "map_helpers \<Rightarrow> task_env \<Rightarrow> traffic_operation \<Rightarrow> u64 \<Rightarrow> traffic_maps \<Rightarrow> traffic_maps \<times> accounting list" where
  "return_probe mh e op rc =
     (case op of
        TRAFFIC_OP_TCP_TX \<Rightarrow> traffic_tcp_send_exit mh e rc
      | TRAFFIC_OP_TCP_RX \<Rightarrow> traffic_tcp_recv_exit mh e rc
      | TRAFFIC_OP_UDP4_TX \<Rightarrow> traffic_udp4_send_exit mh e rc
      | TRAFFIC_OP_UDP4_RX \<Rightarrow> traffic_udp4_recv_exit mh e rc
      | TRAFFIC_OP_UDP6_TX \<Rightarrow> traffic_udp6_send_exit mh e rc
      | TRAFFIC_OP_UDP6_RX \<Rightarrow> traffic_udp6_recv_exit mh e rc)"

definition op_tx :: "traffic_operation \<Rightarrow> bool" where
  "op_tx op \<longleftrightarrow> op = TRAFFIC_OP_TCP_TX \<or> op = TRAFFIC_OP_UDP4_TX \<or> op = TRAFFIC_OP_UDP6_TX"

definition op_protocol :: "traffic_operation \<Rightarrow> u8" where
  "op_protocol op = (if op = TRAFFIC_OP_TCP_TX \<or> op = TRAFFIC_OP_TCP_RX then IPPROTO_TCP else IPPROTO_UDP)"

definition op_family :: "traffic_operation \<Rightarrow> u16" where
  "op_family op = (if op = TRAFFIC_OP_TCP_TX \<or> op = TRAFFIC_OP_TCP_RX then 0
     else if op = TRAFFIC_OP_UDP4_TX \<or> op = TRAFFIC_OP_UDP4_RX then AF_INET else AF_INET6)"

lemmas probe_defs = traffic_tcp_send_entry_def traffic_tcp_recv_entry_def traffic_udp4_send_entry_def
  traffic_udp4_recv_entry_def traffic_udp6_send_entry_def traffic_udp6_recv_entry_def
  traffic_tcp_send_exit_def traffic_tcp_recv_exit_def traffic_udp4_send_exit_def
  traffic_udp4_recv_exit_def traffic_udp6_send_exit_def traffic_udp6_recv_exit_def

lemma entry_probe_eq: "entry_probe mh cfg e op sk = traffic_enter mh cfg e sk (op_protocol op) (op_family op) op"
  by (cases op) (simp_all add: entry_probe_def probe_defs op_protocol_def op_family_def)

lemma return_probe_eq: "return_probe mh e op rc = traffic_exit mh e rc op (op_tx op)"
  by (cases op) (simp_all add: return_probe_def probe_defs op_tx_def)

definition probe_step :: "map_helpers \<Rightarrow> traffic_config \<Rightarrow> task_env \<times> probe \<Rightarrow> traffic_maps \<Rightarrow> traffic_maps \<times> accounting list" where
  "probe_step mh cfg x m =
     (case x of (e, p) \<Rightarrow>
        case p of
          Entry op sk \<Rightarrow> (entry_probe mh cfg e op sk m, [])
        | Return op rc \<Rightarrow> return_probe mh e op rc m
        | SendEndpoints4 sk route \<Rightarrow> (traffic_udp4_endpoints cfg e sk route m, [])
        | SendEndpoints6 sk route \<Rightarrow> (traffic_udp6_endpoints cfg e sk route m, [])
        | ReceiveEndpoints sk skb \<Rightarrow> (traffic_udp_receive_endpoints cfg e sk skb m, []))"

fun probe_run :: "map_helpers \<Rightarrow> traffic_config \<Rightarrow> (task_env \<times> probe) list \<Rightarrow> traffic_maps \<Rightarrow> traffic_maps \<times> accounting list" where
  "probe_run mh cfg [] m = (m, [])"
| "probe_run mh cfg (x # xs) m =
     (let (m1, a1) = probe_step mh cfg x m; (m2, a2) = probe_run mh cfg xs m1 in (m2, a1 @ a2))"

lemma probe_run_invariant:
  assumes step: "\<And>x m m' log a. P m log \<Longrightarrow> x \<in> set xs \<Longrightarrow> probe_step mh cfg x m = (m', a) \<Longrightarrow> P m' (log @ a)"
    and "P m log"
  shows "P (fst (probe_run mh cfg xs m)) (log @ snd (probe_run mh cfg xs m))"
  using assms
proof (induction xs arbitrary: m log)
  case Nil
  then show ?case by simp
next
  case (Cons x xs)
  obtain m1 a1 where s: "probe_step mh cfg x m = (m1, a1)"
    by (cases "probe_step mh cfg x m")
  have "P m1 (log @ a1)"
    by (rule Cons.prems(1) [OF Cons.prems(2) _ s]) simp
  then have "P (fst (probe_run mh cfg xs m1)) ((log @ a1) @ snd (probe_run mh cfg xs m1))"
    by (rule Cons.IH [rotated]) (rule Cons.prems(1) [OF _ list.set_intros(2)])
  then show ?case
    by (simp add: s split_beta Let_def)
qed

text \<open>What the kernel documents of the helpers: a successful update stores the value; a plain hash
  keeps the other entries, an LRU hash keeps or evicts them; \<open>BPF_NOEXIST\<close> refuses a present key.\<close>

definition helpers_ok :: "map_helpers \<Rightarrow> bool" where
  "helpers_ok mh \<longleftrightarrow>
     (\<forall>m k v m'. mh_inflight mh m k v = Some m' \<longrightarrow> map_of m' = (map_of m)(k \<mapsto> v)) \<and>
     (\<forall>m k v m'. mh_processes mh m k v = Some m' \<longrightarrow> map_of m k = None \<and> map_of m' = (map_of m)(k \<mapsto> v)) \<and>
     (\<forall>m k v m'. mh_flows mh m k v = Some m' \<longrightarrow> map_of m k = None \<and> map_of m' k = Some v \<and>
        (\<forall>k'. k' \<noteq> k \<longrightarrow> map_of m' k' = None \<or> map_of m' k' = map_of m k'))"

section \<open>Which maps a probe changes\<close>

lemma account_flow_frame [simp]:
  "tm_totals (traffic_account_flow mh flow n tx now m) = tm_totals m"
  "tm_processes (traffic_account_flow mh flow n tx now m) = tm_processes m"
  "tm_inflight (traffic_account_flow mh flow n tx now m) = tm_inflight m"
  "st_process_drop (tm_stats (traffic_account_flow mh flow n tx now m)) = st_process_drop (tm_stats m)"
  by (simp_all add: traffic_account_flow_def Let_def split: option.splits)

lemma account_process_frame [simp]:
  "tm_totals (traffic_account_process mh e flow n tx now m) = tm_totals m"
  "tm_flows (traffic_account_process mh e flow n tx now m) = tm_flows m"
  "tm_inflight (traffic_account_process mh e flow n tx now m) = tm_inflight m"
  by (simp_all add: traffic_account_process_def Let_def split: option.splits)

lemma enter_frame [simp]:
  "tm_totals (traffic_enter mh cfg e sk p f op m) = tm_totals m"
  "tm_processes (traffic_enter mh cfg e sk p f op m) = tm_processes m"
  "tm_flows (traffic_enter mh cfg e sk p f op m) = tm_flows m"
  "st_process_drop (tm_stats (traffic_enter mh cfg e sk p f op m)) = st_process_drop (tm_stats m)"
  by (simp_all add: traffic_enter_def split: option.splits)

lemma store_flow_frame [simp]:
  "tm_totals (store_flow key flow m) = tm_totals m"
  "tm_processes (store_flow key flow m) = tm_processes m"
  "tm_flows (store_flow key flow m) = tm_flows m"
  "tm_stats (store_flow key flow m) = tm_stats m"
  by (simp_all add: store_flow_def split: option.splits)

text \<open>The endpoint probes either do nothing or rewrite one in-flight flow, keeping its identity.\<close>

definition same_owner :: "flow_key \<Rightarrow> flow_key \<Rightarrow> bool" where
  "same_owner f g \<longleftrightarrow> fk_tgid f = fk_tgid g \<and> fk_tid f = fk_tid g \<and> fk_protocol f = fk_protocol g \<and>
     fk_process_start_ns f = fk_process_start_ns g \<and> fk_comm f = fk_comm g"

lemma udp_flow_Some:
  "traffic_udp_flow cfg e sk tx m = Some (key, flow) \<Longrightarrow>
     \<exists>v. map_of (tm_inflight m) key = Some v \<and> iv_flow v = flow \<and> iv_sk v = sv_addr sk \<and> ik_pid_tgid key = te_pid_tgid e"
  by (auto simp: traffic_udp_flow_def Let_def split: if_splits option.splits)

definition endpoint_effect :: "task_env \<Rightarrow> sock_view \<Rightarrow> traffic_maps \<Rightarrow> traffic_maps \<Rightarrow> bool" where
  "endpoint_effect e sk m m' \<longleftrightarrow> m' = m \<or>
     (\<exists>key v flow'. m' = store_flow key flow' m \<and> map_of (tm_inflight m) key = Some v \<and> iv_sk v = sv_addr sk \<and>
        ik_pid_tgid key = te_pid_tgid e \<and> same_owner flow' (iv_flow v) \<and> fk_flags flow' = 0)"

lemma endpoint_effectI:
  assumes "traffic_udp_flow cfg e sk tx m = Some (key, flow)" and "same_owner flow' flow" and "fk_flags flow' = 0"
  shows "endpoint_effect e sk m (store_flow key flow' m)"
  using udp_flow_Some [OF assms(1)] assms(2,3) by (auto simp: endpoint_effect_def)

lemma endpoint_effect_refl [simp]: "endpoint_effect e sk m m"
  by (simp add: endpoint_effect_def)

lemma endpoints_step:
  "endpoint_effect e sk m (traffic_udp4_endpoints cfg e sk route4 m)"
  "endpoint_effect e sk m (traffic_udp6_endpoints cfg e sk route6 m)"
  "endpoint_effect e sk m (traffic_udp_receive_endpoints cfg e sk skb m)"
  by (auto simp: traffic_udp4_endpoints_def traffic_udp6_endpoints_def traffic_udp_receive_endpoints_def Let_def
        same_owner_def split: option.split if_split intro!: endpoint_effectI)

text \<open>Hence every probe that is not a return probe accounts nothing and keeps the counters.\<close>

lemma quiet_step:
  assumes "probe_step mh cfg (e, p) m = (m', a)" and "\<forall>op rc. p \<noteq> Return op rc"
  shows "a = [] \<and> tm_totals m' = tm_totals m \<and> tm_processes m' = tm_processes m \<and>
         st_process_drop (tm_stats m') = st_process_drop (tm_stats m)"
proof -
  have "tm_totals m2 = tm_totals m1 \<and> tm_processes m2 = tm_processes m1 \<and> tm_stats m2 = tm_stats m1"
    if "endpoint_effect e sk m1 m2" for sk m1 m2
    using that by (auto simp: endpoint_effect_def)
  from this [OF endpoints_step(1)] this [OF endpoints_step(2)] this [OF endpoints_step(3)] show ?thesis
    using assms by (cases p) (auto simp: probe_step_def entry_probe_eq)
qed

section \<open>Session totals\<close>

definition log_sum :: "bool \<Rightarrow> (flow_key \<Rightarrow> bool) \<Rightarrow> accounting list \<Rightarrow> u64" where
  "log_sum tx P log = sum_list (map ac_bytes (filter (\<lambda>a. ac_tx a = tx \<and> P (ac_flow a)) log))"

lemma log_sum_simps [simp]:
  "log_sum tx P [] = 0" "log_sum tx P (xs @ ys) = log_sum tx P xs + log_sum tx P ys"
  "log_sum tx P [a] = (if ac_tx a = tx \<and> P (ac_flow a) then ac_bytes a else 0)"
  by (simp_all add: log_sum_def)

definition value_dir :: "bool \<Rightarrow> flow_value \<Rightarrow> u64" where
  "value_dir tx v = (if tx then fv_tx_bytes v else fv_rx_bytes v)"

lemma value_dir_add [simp]:
  "value_dir d (traffic_counter_add n tx now v) = value_dir d v + (if tx = d then n else 0)"
  by (auto simp: value_dir_def traffic_counter_add_def)

lemma value_dir_zero [simp]: "value_dir d (zero_value\<lparr>fv_first_seen_ns := now\<rparr>) = 0" "value_dir d zero_value = 0"
  by (simp_all add: value_dir_def zero_value_def)

text \<open>A return probe: nothing, or one call accounted.\<close>

lemma exit_cases:
  assumes "traffic_exit mh e rc op tx m = (m', a)"
  obtains (idle) "a = []" "tm_totals m' = tm_totals m" "tm_processes m' = tm_processes m" "tm_stats m' = tm_stats m"
      "tm_inflight m' = tm_inflight m \<or> tm_inflight m' = AList.delete \<lparr>ik_pid_tgid = te_pid_tgid e, ik_operation = op\<rparr> (tm_inflight m)"
      "map_of (tm_inflight m') \<lparr>ik_pid_tgid = te_pid_tgid e, ik_operation = op\<rparr> = None"
  | (counts) v n m2 where "map_of (tm_inflight m) \<lparr>ik_pid_tgid = te_pid_tgid e, ik_operation = op\<rparr> = Some v"
      "a = [\<lparr>ac_flow = iv_flow v, ac_bytes = n, ac_tx = tx\<rparr>]" "n = scast (ucast rc :: 32 word)" "0 < sint (ucast rc :: 32 word)"
      "m' = traffic_account mh e (iv_flow v) n tx m2" "tm_totals m2 = tm_totals m" "tm_processes m2 = tm_processes m"
      "st_process_drop (tm_stats m2) = st_process_drop (tm_stats m)"
      "tm_inflight m2 = AList.delete \<lparr>ik_pid_tgid = te_pid_tgid e, ik_operation = op\<rparr> (tm_inflight m)"
  using assms
  by (auto simp: traffic_exit_def Let_def delete_conv' split: option.splits if_splits)

text \<open>
  C13. The session totals are exact: after any sequence of probes, whatever the map helpers do, the
  total of each direction is the sum of the bytes of the accounted calls of that direction (modulo
  2^64); evictions and failed insertions in the other maps never lose them.
\<close>

theorem traffic_totals_exact:
  "value_dir tx (tm_totals (fst (probe_run mh cfg xs zero_maps))) =
   log_sum tx (\<lambda>_. True) (snd (probe_run mh cfg xs zero_maps))"
proof -
  have "value_dir tx (tm_totals m') = log_sum tx (\<lambda>_. True) (log @ a)"
    if inv: "value_dir tx (tm_totals m) = log_sum tx (\<lambda>_. True) log" and s: "probe_step mh cfg x m = (m', a)" for x m m' log a
  proof (cases "\<exists>e op rc. x = (e, Return op rc)")
    case True
    then obtain e op rc where x: "x = (e, Return op rc)"
      by blast
    then have "traffic_exit mh e rc op (op_tx op) m = (m', a)"
      using s by (simp add: probe_step_def return_probe_eq)
    then show ?thesis
      using inv by (cases rule: exit_cases) (auto simp: traffic_account_def Let_def)
  next
    case False
    then show ?thesis
      using inv quiet_step [of mh cfg "fst x" "snd x" m m' a] s by (cases x) auto
  qed
  then show ?thesis
    using probe_run_invariant [of "\<lambda>m log. value_dir tx (tm_totals m) = log_sum tx (\<lambda>_. True) log" xs mh cfg zero_maps "[]"]
    by (simp add: zero_maps_def)
qed

section \<open>Process totals\<close>

definition proc_dir :: "bool \<Rightarrow> process_key \<Rightarrow> traffic_maps \<Rightarrow> u64" where
  "proc_dir tx k m = (case map_of (tm_processes m) k of None \<Rightarrow> 0 | Some v \<Rightarrow> value_dir tx (pv_counters v))"

text \<open>Accounting to a process: the bytes reach the process, or exactly one loss is counted.\<close>

lemma account_process_dir:
  assumes mh: "helpers_ok mh" and m': "m' = traffic_account_process mh e flow n tx now m"
  shows "(st_process_drop (tm_stats m') = st_process_drop (tm_stats m) \<and>
          (\<forall>k d. pk_start_time_ns k \<noteq> 0 \<longrightarrow>
             proc_dir d k m' = proc_dir d k m + (if process_key_of flow = k \<and> tx = d then n else 0))) \<or>
         st_process_drop (tm_stats m') = st_process_drop (tm_stats m) + 1"
proof (cases "fk_process_start_ns flow = 0")
  case True
  then have "m' = m\<lparr>tm_stats := (tm_stats m)\<lparr>st_process_id_miss := st_process_id_miss (tm_stats m) + 1\<rparr>\<rparr>"
    by (simp add: m' traffic_account_process_def process_key_of_def)
  moreover have "process_key_of flow \<noteq> k" if "pk_start_time_ns k \<noteq> 0" for k
    using that True by (auto simp: process_key_of_def)
  ultimately show ?thesis
    by (simp add: proc_dir_def)
next
  case False
  let ?k = "process_key_of flow"
  define zero where "zero = \<lparr>pv_counters = zero_value\<lparr>fv_first_seen_ns := now\<rparr>, pv_comm = leader_comm e flow\<rparr>"
  define ps where "ps = (case map_of (tm_processes m) ?k of Some v \<Rightarrow> tm_processes m
      | None \<Rightarrow> (case mh_processes mh (tm_processes m) ?k zero of None \<Rightarrow> tm_processes m | Some ps \<Rightarrow> ps))"
  have eq: "m' = (case map_of ps ?k of
      None \<Rightarrow> m\<lparr>tm_processes := ps, tm_stats := (tm_stats m)\<lparr>st_process_drop := st_process_drop (tm_stats m) + 1\<rparr>\<rparr>
    | Some v \<Rightarrow> m\<lparr>tm_processes := AList.update ?k (v\<lparr>pv_counters := traffic_counter_add n tx now (pv_counters v)\<rparr>) ps\<rparr>)"
  proof -
    have "pk_start_time_ns ?k \<noteq> 0"
      using False by (simp add: process_key_of_def)
    then show ?thesis
      unfolding m' traffic_account_process_def Let_def ps_def zero_def by simp
  qed
  have ps: "map_of ps = map_of (tm_processes m) \<or> map_of (tm_processes m) ?k = None \<and> map_of ps = (map_of (tm_processes m))(?k \<mapsto> zero)"
    using mh by (auto simp: ps_def helpers_ok_def split: option.splits)
  show ?thesis
  proof (cases "map_of ps ?k")
    case None
    then show ?thesis by (simp add: eq)
  next
    case (Some v)
    have "proc_dir d k m' = proc_dir d k m + (if ?k = k \<and> tx = d then n else 0)" for d k
      using ps Some by (auto simp: eq proc_dir_def update_conv' zero_def)
    with Some show ?thesis
      by (simp add: eq)
  qed
qed

definition process_inv :: "traffic_maps \<Rightarrow> accounting list \<Rightarrow> bool" where
  "process_inv m log \<longleftrightarrow>
     (\<exists>d \<le> length log. st_process_drop (tm_stats m) = of_nat d \<and>
        (d = 0 \<longrightarrow> (\<forall>k tx. pk_start_time_ns k \<noteq> 0 \<longrightarrow> proc_dir tx k m = log_sum tx (\<lambda>f. process_key_of f = k) log)))"

lemma process_inv_step:
  assumes mh: "helpers_ok mh" and inv: "process_inv m log" and s: "probe_step mh cfg x m = (m', a)"
  shows "process_inv m' (log @ a)"
proof (cases "\<exists>e op rc. x = (e, Return op rc)")
  case True
  then obtain e op rc where x: "x = (e, Return op rc)"
    by blast
  obtain d where d: "d \<le> length log" "st_process_drop (tm_stats m) = of_nat d"
      "d = 0 \<longrightarrow> (\<forall>k tx. pk_start_time_ns k \<noteq> 0 \<longrightarrow> proc_dir tx k m = log_sum tx (\<lambda>f. process_key_of f = k) log)"
    using inv by (auto simp: process_inv_def)
  have "traffic_exit mh e rc op (op_tx op) m = (m', a)"
    using s x by (simp add: probe_step_def return_probe_eq)
  then show ?thesis
  proof (cases rule: exit_cases)
    case idle
    then show ?thesis
      using d by (auto simp: process_inv_def proc_dir_def)
  next
    case (counts v n m2)
    define m3 where "m3 = m2\<lparr>tm_totals := traffic_counter_add n (op_tx op) (te_ktime_ns e) (tm_totals m2)\<rparr>"
    define m4 where "m4 = traffic_account_process mh e (iv_flow v) n (op_tx op) (te_ktime_ns e) m3"
    have m': "st_process_drop (tm_stats m') = st_process_drop (tm_stats m4)" "proc_dir tx k m' = proc_dir tx k m4" for tx k
      by (simp_all add: counts(5) traffic_account_def Let_def m3_def m4_def proc_dir_def)
    have m3: "st_process_drop (tm_stats m3) = of_nat d" "proc_dir tx k m3 = proc_dir tx k m" for tx k
      using counts(7,8) d(2) by (simp_all add: m3_def proc_dir_def)
    from account_process_dir [OF mh m4_def] show ?thesis
    proof (elim disjE)
      assume p: "st_process_drop (tm_stats m4) = st_process_drop (tm_stats m3) \<and>
          (\<forall>k d. pk_start_time_ns k \<noteq> 0 \<longrightarrow>
             proc_dir d k m4 = proc_dir d k m3 + (if process_key_of (iv_flow v) = k \<and> op_tx op = d then n else 0))"
      then show ?thesis
        unfolding process_inv_def using d m' m3 counts(2) by (intro exI [of _ d]) auto
    next
      assume "st_process_drop (tm_stats m4) = st_process_drop (tm_stats m3) + 1"
      then show ?thesis
        unfolding process_inv_def using d m' m3 counts(2) by (intro exI [of _ "Suc d"]) (auto simp: add.commute)
    qed
  qed
next
  case False
  then show ?thesis
    using inv quiet_step [of mh cfg "fst x" "snd x" m m' a] s by (cases x) (auto simp: process_inv_def proc_dir_def)
qed

text \<open>
  Process counters are exact as long as no process loss is reported: if the kernel helpers behave
  as documented and the process-drop statistic is still zero, the counters of every process with a
  known start time are, in each direction, the sum of the bytes of the accounted calls of that
  process.
\<close>

lemma traffic_process_exact:
  assumes "helpers_ok mh" and "probe_run mh cfg xs zero_maps = (m, log)"
    and "st_process_drop (tm_stats m) = 0" and "length log < 2 ^ 64" and "pk_start_time_ns k \<noteq> 0"
  shows "proc_dir tx k m = log_sum tx (\<lambda>f. process_key_of f = k) log"
proof -
  have "process_inv zero_maps []"
    by (auto simp: process_inv_def zero_maps_def proc_dir_def)
  then have "process_inv m log"
    using probe_run_invariant [of process_inv xs mh cfg zero_maps "[]"] process_inv_step [OF assms(1)] assms(2)
    by (metis append_Nil fst_conv snd_conv)
  then obtain d where d: "d \<le> length log" "(of_nat d :: u64) = 0"
      "d = 0 \<longrightarrow> (\<forall>k tx. pk_start_time_ns k \<noteq> 0 \<longrightarrow> proc_dir tx k m = log_sum tx (\<lambda>f. process_key_of f = k) log)"
    using assms(3) by (auto simp: process_inv_def)
  have "d = 0"
    using d(1,2) assms(4) unat_of_nat_64 [of d] by simp
  with d(3) assms(5) show ?thesis
    by simp
qed

section \<open>Which calls are accounted\<close>

definition flow_matches :: "traffic_config \<Rightarrow> flow_key \<Rightarrow> bool" where
  "flow_matches cfg f \<longleftrightarrow> (tc_protocol cfg = 0 \<or> fk_protocol f = tc_protocol cfg) \<and> (tc_tid cfg = 0 \<or> fk_tid f = tc_tid cfg)"

definition inflight_entry :: "traffic_config \<Rightarrow> inflight_key \<Rightarrow> flow_key \<Rightarrow> bool" where
  "inflight_entry cfg k f \<longleftrightarrow>
     fk_tid f = ucast (ik_pid_tgid k) \<and> fk_tgid f = ucast (drop_bit 32 (ik_pid_tgid k)) \<and>
     fk_protocol f = op_protocol (ik_operation k) \<and> flow_matches cfg f"

definition inflight_inv :: "traffic_config \<Rightarrow> traffic_maps \<Rightarrow> bool" where
  "inflight_inv cfg m \<longleftrightarrow> (\<forall>k v. map_of (tm_inflight m) k = Some v \<longrightarrow> inflight_entry cfg k (iv_flow v))"

lemma same_owner_entry: "same_owner f g \<Longrightarrow> inflight_entry cfg k f = inflight_entry cfg k g"
  by (simp add: same_owner_def inflight_entry_def flow_matches_def)

lemma fill_key_Some:
  assumes "traffic_fill_key cfg e sk protocol fam key0 = Some flow"
  shows "fk_tid flow = ucast (te_pid_tgid e)" "fk_tgid flow = ucast (drop_bit 32 (te_pid_tgid e))"
    "fk_protocol flow = protocol" "flow_matches cfg flow"
    "fam \<noteq> 0 \<Longrightarrow> fk_family flow = fam" "tc_uid_enabled cfg \<Longrightarrow> tc_uid cfg = ucast (te_uid_gid e)" "sv_addr sk \<noteq> 0"
  using assms by (auto simp: traffic_fill_key_def Let_def flow_matches_def split: if_splits)

lemma inflight_inv_step:
  assumes mh: "helpers_ok mh" and inv: "inflight_inv cfg m" and s: "probe_step mh cfg x m = (m', a)"
  shows "inflight_inv cfg m'"
proof -
  obtain e p where x: "x = (e, p)"
    by (cases x)
  have endp: "inflight_inv cfg m'" if ef: "endpoint_effect e sk m m'" for sk
    using ef unfolding endpoint_effect_def
  proof (elim disjE exE conjE)
    fix key v flow'
    assume "m' = store_flow key flow' m" "map_of (tm_inflight m) key = Some v" "same_owner flow' (iv_flow v)"
    then show ?thesis
      using inv by (auto simp: inflight_inv_def store_flow_def update_conv' same_owner_entry)
  qed (use inv in simp)
  show ?thesis
  proof (cases p)
    case (Entry op sk)
    have m': "m' = traffic_enter mh cfg e sk (op_protocol op) (op_family op) op m"
      using s x Entry by (simp add: probe_step_def entry_probe_eq)
    show ?thesis
    proof (cases "traffic_fill_key cfg e sk (op_protocol op) (op_family op) zero_flow")
      case None
      then show ?thesis
        using inv m' by (simp add: traffic_enter_def)
    next
      case (Some flow)
      then show ?thesis
        using inv m' mh fill_key_Some(1-4) [OF Some]
        by (auto simp: traffic_enter_def inflight_inv_def inflight_entry_def helpers_ok_def split: option.splits)
    qed
  next
    case (Return op rc)
    then have "traffic_exit mh e rc op (op_tx op) m = (m', a)"
      using s x by (simp add: probe_step_def return_probe_eq)
    then show ?thesis
      using inv
      by (cases rule: exit_cases)
         (auto simp: inflight_inv_def delete_conv' traffic_account_def Let_def split: if_splits)
  next
    case (SendEndpoints4 sk route)
    then show ?thesis
      using endp [of sk] endpoints_step(1) [of e sk m cfg route] s x by (auto simp: probe_step_def)
  next
    case (SendEndpoints6 sk route)
    then show ?thesis
      using endp [of sk] endpoints_step(2) [of e sk m cfg route] s x by (auto simp: probe_step_def)
  next
    case (ReceiveEndpoints sk skb)
    then show ?thesis
      using endp [of sk] endpoints_step(3) [of e sk m cfg skb] s x by (auto simp: probe_step_def)
  qed
qed

lemma run_inflight_inv:
  assumes "helpers_ok mh"
  shows "inflight_inv cfg (fst (probe_run mh cfg xs zero_maps))"
proof -
  have "inflight_inv cfg zero_maps"
    by (simp add: inflight_inv_def zero_maps_def)
  then show ?thesis
    using probe_run_invariant [of "\<lambda>m log. inflight_inv cfg m" xs mh cfg zero_maps "[]"] inflight_inv_step [OF assms]
    by blast
qed

text \<open>
  No call is accounted to the wrong thread or past the filters.  Whenever a return probe of a
  thread and operation accounts a call, the call succeeded, its flow carries that thread's and
  process's numbers and the operation's protocol, and it passes the configured protocol and thread
  filters; the bytes are the positive 32-bit return value.
\<close>

lemma traffic_exit_attribution:
  assumes "helpers_ok mh" and "m = fst (probe_run mh cfg xs zero_maps)"
    and "snd (probe_step mh cfg (e, Return op rc) m) = [x]"
  shows "fk_tid (ac_flow x) = ucast (te_pid_tgid e) \<and> fk_tgid (ac_flow x) = ucast (drop_bit 32 (te_pid_tgid e)) \<and>
         fk_protocol (ac_flow x) = op_protocol op \<and> flow_matches cfg (ac_flow x) \<and> ac_tx x = op_tx op \<and>
         0 < sint (ucast rc :: 32 word) \<and> unat (ac_bytes x) = nat (sint (ucast rc :: 32 word))"
proof -
  obtain m' where "traffic_exit mh e rc op (op_tx op) m = (m', [x])"
    using assms(3) by (cases "probe_step mh cfg (e, Return op rc) m") (simp add: probe_step_def return_probe_eq)
  then show ?thesis
  proof (cases rule: exit_cases)
    case (counts v n m2)
    let ?w = "ucast rc :: 32 word"
    have "unat n = nat (sint ?w)"
      using uint_scast_pos [of ?w] counts(4) by (simp add: counts(3) unat_eq_nat_uint del: of_int_sint)
    with counts show ?thesis
      using run_inflight_inv [OF assms(1), of cfg xs] assms(2)
      by (auto simp: inflight_inv_def inflight_entry_def)
  qed auto
qed

lemma inflight_absent_step:
  assumes mh: "helpers_ok mh" and none: "map_of (tm_inflight m) \<lparr>ik_pid_tgid = pid, ik_operation = op\<rparr> = None"
    and s: "probe_step mh cfg (e, p) m = (m', a)" and ne: "\<forall>sk. \<not> (te_pid_tgid e = pid \<and> p = Entry op sk)"
  shows "map_of (tm_inflight m') \<lparr>ik_pid_tgid = pid, ik_operation = op\<rparr> = None"
proof -
  let ?k = "\<lparr>ik_pid_tgid = pid, ik_operation = op\<rparr>"
  have endp: "map_of (tm_inflight m') ?k = None" if "endpoint_effect e sk m m'" for sk
    using that none by (auto simp: endpoint_effect_def store_flow_def update_conv' split: if_splits)
  show ?thesis
  proof (cases p)
    case (Entry op' sk)
    then show ?thesis
      using s none mh ne
      by (auto simp: probe_step_def entry_probe_eq traffic_enter_def helpers_ok_def split: option.splits)
  next
    case (Return op' rc)
    then have "traffic_exit mh e rc op' (op_tx op') m = (m', a)"
      using s by (simp add: probe_step_def return_probe_eq)
    then show ?thesis
      using none
      by (cases rule: exit_cases) (auto simp: delete_conv' traffic_account_def Let_def)
  next
    case (SendEndpoints4 sk route)
    then show ?thesis
      using endp [of sk] endpoints_step(1) [of e sk m cfg route] s by (auto simp: probe_step_def)
  next
    case (SendEndpoints6 sk route)
    then show ?thesis
      using endp [of sk] endpoints_step(2) [of e sk m cfg route] s by (auto simp: probe_step_def)
  next
    case (ReceiveEndpoints sk skb)
    then show ?thesis
      using endp [of sk] endpoints_step(3) [of e sk m cfg skb] s by (auto simp: probe_step_def)
  qed
qed

text \<open>
  Every call is accounted at most once: after a return probe of a thread and operation, another
  return probe of the same thread and operation accounts nothing, whatever other probes run in
  between, unless an entry probe of that thread and operation runs first.
\<close>

lemma traffic_exit_once:
  assumes "helpers_ok mh" and "\<forall>(e', p) \<in> set xs. \<forall>sk. \<not> (te_pid_tgid e' = te_pid_tgid e \<and> p = Entry op sk)"
    and "m1 = fst (probe_step mh cfg (e, Return op rc) m)" and "te_pid_tgid e2 = te_pid_tgid e"
  shows "snd (probe_step mh cfg (e2, Return op rc2) (fst (probe_run mh cfg xs m1))) = []"
proof -
  let ?k = "\<lparr>ik_pid_tgid = te_pid_tgid e, ik_operation = op\<rparr>"
  have "traffic_exit mh e rc op (op_tx op) m = (m1, snd (probe_step mh cfg (e, Return op rc) m))"
    by (simp add: assms(3) probe_step_def return_probe_eq)
  then have "map_of (tm_inflight m1) ?k = None"
    by (cases rule: exit_cases) (auto simp: delete_conv' traffic_account_def Let_def)
  then have "map_of (tm_inflight (fst (probe_run mh cfg xs m1))) ?k = None"
    using assms(2)
  proof (induction xs arbitrary: m1)
    case Nil
    then show ?case by simp
  next
    case (Cons x xs)
    have "map_of (tm_inflight (fst (probe_step mh cfg x m1))) ?k = None"
      using inflight_absent_step [OF assms(1) Cons.prems(1), of cfg "fst x" "snd x"] Cons.prems(2)
      by (cases x) (auto simp: prod_eq_iff)
    then show ?case
      using Cons.IH [of "fst (probe_step mh cfg x m1)"] Cons.prems(2) by (simp add: split_beta Let_def)
  qed
  then show ?thesis
    using assms(4) by (simp add: probe_step_def return_probe_eq traffic_exit_def)
qed

section \<open>Witnesses\<close>

text \<open>Map helpers of the documented kind: hashes of bounded size, and an LRU that forgets its oldest entry.\<close>

definition demo_helpers :: map_helpers where
  "demo_helpers = \<lparr>
     mh_inflight = (\<lambda>m k v. if map_of m k = None \<and> 4 \<le> length m then None else Some (AList.update k v m)),
     mh_processes = (\<lambda>m k v. if map_of m k \<noteq> None \<or> 4 \<le> length m then None else Some (AList.update k v m)),
     mh_flows = (\<lambda>m k v. if map_of m k \<noteq> None then None else Some ((k, v) # take 3 m))\<rparr>"

lemma map_of_take: "map_of (take n xs) k = None \<or> map_of (take n xs) k = map_of xs k"
proof (cases "map_of (take n xs) k")
  case (Some v)
  have "map_of xs = map_of (drop n xs) ++ map_of (take n xs)"
    by (metis append_take_drop_id map_of_append)
  then show ?thesis
    using Some by (simp add: map_add_def)
qed simp

lemma demo_helpers_ok: "helpers_ok demo_helpers"
  by (auto simp: helpers_ok_def demo_helpers_def update_conv' split: if_splits) (metis map_of_take)

definition traffic_demo_env :: "u64 \<Rightarrow> task_env" where
  "traffic_demo_env pid = \<lparr>te_pid_tgid = pid, te_uid_gid = 1000, te_comm = replicate 16 0, te_has_group_leader = True,
     te_has_start_time = True, te_has_comm = True, te_leader = Some 1, te_leader_start_time = Some 77,
     te_leader_comm = Some (replicate 16 0), te_ktime_ns = 500\<rparr>"

definition traffic_demo_sock :: sock_view where
  "traffic_demo_sock = \<lparr>sv_addr = 4096, sv_family = 2, sv_num = 80, sv_inet_sport = 0, sv_dport = 0, sv_rcv_saddr = 1,
     sv_daddr = 2, sv_v6_rcv_saddr = zero_addr, sv_v6_daddr = zero_addr\<rparr>"

definition traffic_demo_config :: traffic_config where
  "traffic_demo_config = \<lparr>tc_tid = 0, tc_uid = 1000, tc_protocol = 6, tc_uid_enabled = True\<rparr>"

text \<open>One TCP send of 300 bytes and one that fails with a negative result.\<close>

definition traffic_demo_probes :: "(task_env \<times> probe) list" where
  "traffic_demo_probes =
     [(traffic_demo_env 42, Entry TRAFFIC_OP_TCP_TX traffic_demo_sock), (traffic_demo_env 42, Return TRAFFIC_OP_TCP_TX 300),
      (traffic_demo_env 42, Entry TRAFFIC_OP_TCP_TX traffic_demo_sock), (traffic_demo_env 42, Return TRAFFIC_OP_TCP_TX 0xFFFFFFF5)]"

definition traffic_demo_run :: "traffic_maps \<times> accounting list" where
  "traffic_demo_run = probe_run demo_helpers traffic_demo_config traffic_demo_probes zero_maps"

end
