(* ===== verification/NetworkWakeup.thy ===== *)
theory NetworkWakeup
  imports ProbeTypes
begin

text \<open>
  Scheduler evidence for network calls (\<open>progs/network_wakeup.h\<close>): who woke the thread that enters a
  call, and since when it runs.  The scheduler tracepoints maintain one record per thread; the
  snapshot at a call reports it.  Each probe is one step on the map of records; the read of the
  preemption counter, which depends on the architecture and the kernel, is an input.
\<close>

section \<open>State\<close>

record wakeup_state =
  ws_task_start_time :: u64
  ws_tgid :: u32
  ws_waking_ts :: u64
  ws_wakeup_ts :: u64
  ws_run_start_ts :: u64
  ws_waker_start_time :: u64
  ws_waker_tid :: u32
  ws_waker_tgid :: u32
  ws_waking_cpu :: u32
  ws_run_cpu :: u32
  ws_waking_preempt_count :: u32
  ws_waking_context :: u8
  ws_waker_task :: bytes

type_synonym wakeup_map = "u32 \<rightharpoonup> wakeup_state"

definition fresh_wakeup :: "u64 \<Rightarrow> u32 \<Rightarrow> wakeup_state" where
  "fresh_wakeup birth tgid =
     \<lparr>ws_task_start_time = birth, ws_tgid = tgid, ws_waking_ts = 0, ws_wakeup_ts = 0, ws_run_start_ts = 0,
      ws_waker_start_time = 0, ws_waker_tid = 0, ws_waker_tgid = 0, ws_waking_cpu = 0, ws_run_cpu = 0,
      ws_waking_preempt_count = 0, ws_waking_context = 0, ws_waker_task = zero_task\<rparr>"

text \<open>
  \<open>pr_count\<close> is the preemption counter, \<open>None\<close> where the kernel has no known way to read it or the
  read fails; \<open>pr_rt\<close> is the counter of real-time kernels: \<open>None\<close> without the field, \<open>Some None\<close> for a
  failed read.
\<close>

record preempt_env =
  pr_version :: u32
  pr_count :: "u32 option"
  pr_rt :: "u32 option option"

section \<open>Operations\<close>

text \<open>The result and the value of \<open>*raw_count\<close> afterwards.\<close>

definition network_wakeup_context :: "preempt_env \<Rightarrow> u32 \<Rightarrow> u8 \<times> u32" where
  "network_wakeup_context pr raw =
     (if 7 * 65536 \<le> pr_version pr then (0, raw)
      else case pr_count pr of
        None \<Rightarrow> (0, raw)
      | Some count \<Rightarrow>
          if count AND 0x7f000000 \<noteq> 0 then (0, raw)
          else case (case pr_rt pr of None \<Rightarrow> Some count | Some rt \<Rightarrow> rt) of
            None \<Rightarrow> (0, raw)
          | Some softirq_count \<Rightarrow>
              if count AND 0x00f00000 \<noteq> 0 then (4, count)
              else if count AND 0x000f0000 \<noteq> 0 then (2, count)
              else if softirq_count AND 0x00000100 \<noteq> 0 then (3, count)
              else (1, count))"

text \<open>The first component tells whether the record of the current thread is in the map afterwards.\<close>

definition network_wakeup_current ::
    "bpf_args \<Rightarrow> probe_env \<Rightarrow> u32 outcome \<Rightarrow> wakeup_map \<Rightarrow> wakeup_state option \<times> wakeup_map" where
  "network_wakeup_current args env oc m =
     (let tid = env_tid env; tgid = env_tgid env; birth = pe_start_time env in
      if \<not> perfetto_current_matches args tid (env_uid env) then (None, m)
      else if tid = 0 \<or> birth = 0 then (None, m)
      else let st = m tid in
        if st = None \<or> ws_task_start_time (the st) \<noteq> birth \<or> ws_tgid (the st) \<noteq> tgid
        then (case map_update oc tid (fresh_wakeup birth tgid) m of
                (False, m1) \<Rightarrow> (None, m1)
              | (True, m1) \<Rightarrow> (m1 tid, m1))
        else (st, m))"

definition network_wakeup_clear :: "wakeup_state \<Rightarrow> wakeup_state" where
  "network_wakeup_clear s =
     s\<lparr>ws_waking_ts := 0, ws_wakeup_ts := 0, ws_run_start_ts := 0, ws_waker_start_time := 0, ws_waker_tid := 0,
       ws_waker_tgid := 0, ws_waking_cpu := 0, ws_run_cpu := 0, ws_waking_context := 0, ws_waking_preempt_count := 0,
       ws_waker_task := zero_task\<rparr>"

definition wakeup_enabled :: "bpf_args \<Rightarrow> bool" where
  "wakeup_enabled args \<longleftrightarrow> ba_ready args \<and> ba_perfetto args \<and> ba_wakeup_chain args"

definition network_sched_waking :: "bpf_args \<Rightarrow> u32 \<Rightarrow> preempt_env \<Rightarrow> probe_env \<Rightarrow> wakeup_map \<Rightarrow> wakeup_map" where
  "network_sched_waking args target pr env m =
     (if \<not> wakeup_enabled args then m
      else case m target of
        None \<Rightarrow> m
      | Some s0 \<Rightarrow>
          let s1 = network_wakeup_clear s0;
              (context, raw) = network_wakeup_context pr (ws_waking_preempt_count s1);
              s2 = s1\<lparr>ws_waking_ts := pe_now env, ws_waking_cpu := pe_cpu env, ws_waking_context := context,
                      ws_waking_preempt_count := raw\<rparr>;
              s3 = (if context = 1
                    then if env_tid env \<noteq> 0 \<and> pe_start_time env \<noteq> 0
                      then s2\<lparr>ws_waking_context := 1, ws_waker_tid := env_tid env, ws_waker_tgid := env_tgid env,
                              ws_waker_start_time := pe_start_time env, ws_waker_task := pe_comm env\<rparr>
                      else s2\<lparr>ws_waking_context := 0, ws_waking_preempt_count := 0\<rparr>
                    else s2) in
          m(target \<mapsto> s3))"

definition network_sched_wakeup :: "bpf_args \<Rightarrow> u32 \<Rightarrow> probe_env \<Rightarrow> wakeup_map \<Rightarrow> wakeup_map" where
  "network_sched_wakeup args target env m =
     (if \<not> wakeup_enabled args then m
      else case m target of
        None \<Rightarrow> m
      | Some s \<Rightarrow>
          if ws_waking_ts s \<noteq> 0 \<and> ws_run_start_ts s = 0 then m(target \<mapsto> s\<lparr>ws_wakeup_ts := pe_now env\<rparr>) else m)"

definition network_sched_switch ::
    "bpf_args \<Rightarrow> u32 \<Rightarrow> u32 \<Rightarrow> probe_env \<Rightarrow> u32 outcome \<Rightarrow> wakeup_map \<Rightarrow> wakeup_map" where
  "network_sched_switch args prev next env oc m =
     (if \<not> wakeup_enabled args then m
      else let m1 =
             (if prev = env_tid env
              then (case network_wakeup_current args env oc m of
                      (None, m1) \<Rightarrow> m1
                    | (Some s, m1) \<Rightarrow> m1(env_tid env \<mapsto> network_wakeup_clear s))
              else m) in
        case m1 next of
          None \<Rightarrow> m1
        | Some s \<Rightarrow> m1(next \<mapsto> s\<lparr>ws_run_start_ts := pe_now env, ws_run_cpu := pe_cpu env\<rparr>))"

definition network_wakeup_snapshot ::
    "bpf_args \<Rightarrow> probe_env \<Rightarrow> u32 outcome \<Rightarrow> syscall_event \<Rightarrow> wakeup_map \<Rightarrow> syscall_event \<times> wakeup_map" where
  "network_wakeup_snapshot args env oc ev m =
     (if \<not> wakeup_enabled args then (ev, m)
      else let ev1 = ev\<lparr>se_wakeup_status := 1\<rparr> in
        case network_wakeup_current args env oc m of
          (None, m1) \<Rightarrow> (ev1, m1)
        | (Some s, m1) \<Rightarrow>
            if ws_run_start_ts s = 0 \<or> se_start_ts ev1 < ws_run_start_ts s then (ev1, m1)
            else let ev2 = ev1\<lparr>se_wakeup_status := 3, se_run_start_ts := ws_run_start_ts s, se_run_cpu := ws_run_cpu s\<rparr> in
              if ws_waking_ts s = 0 \<or> ws_wakeup_ts s < ws_waking_ts s \<or> ws_run_start_ts s < ws_wakeup_ts s then (ev2, m1)
              else (ev2\<lparr>se_wakeup_status := 2, se_waking_ts := ws_waking_ts s, se_wakeup_ts := ws_wakeup_ts s,
                        se_waker_start_time := ws_waker_start_time s, se_waker_tid := ws_waker_tid s,
                        se_waker_tgid := ws_waker_tgid s, se_waking_cpu := ws_waking_cpu s,
                        se_waking_context := ws_waking_context s, se_waking_preempt_count := ws_waking_preempt_count s,
                        se_waker_task := ws_waker_task s\<rparr>, m1))"

section \<open>Runs\<close>

datatype wakeup_event =
    Waking u32 preempt_env probe_env
  | Wakeup u32 probe_env
  | Switch u32 u32 probe_env "u32 outcome"
  | Snapshot probe_env "u32 outcome" syscall_event

fun wakeup_step :: "bpf_args \<Rightarrow> wakeup_event \<Rightarrow> wakeup_map \<Rightarrow> wakeup_map" where
  "wakeup_step args (Waking t pr env) m = network_sched_waking args t pr env m"
| "wakeup_step args (Wakeup t env) m = network_sched_wakeup args t env m"
| "wakeup_step args (Switch p n env oc) m = network_sched_switch args p n env oc m"
| "wakeup_step args (Snapshot env oc ev) m = snd (network_wakeup_snapshot args env oc ev m)"

definition wakeup_run :: "bpf_args \<Rightarrow> wakeup_event list \<Rightarrow> wakeup_map" where
  "wakeup_run args es = fold (wakeup_step args) es Map.empty"

section \<open>Evidence in the history\<close>

definition in_task_context :: "preempt_env \<Rightarrow> bool" where
  "in_task_context pr \<longleftrightarrow> pr_version pr < 7 * 65536 \<and>
     (\<exists>count. pr_count pr = Some count \<and> count AND 0x7f000000 = 0 \<and> count AND 0x00f00000 = 0 \<and> count AND 0x000f0000 = 0 \<and>
        (case pr_rt pr of None \<Rightarrow> count AND 0x100 = 0 | Some rt \<Rightarrow> (\<exists>v. rt = Some v \<and> v AND 0x100 = 0)))"

text \<open>\<open>W\<close> is the wake-up of \<open>tid\<close> whose waker the record reports.\<close>

definition waking_of :: "u32 \<Rightarrow> wakeup_state \<Rightarrow> wakeup_event \<Rightarrow> bool" where
  "waking_of tid s W \<longleftrightarrow>
     (\<exists>pr env. W = Waking tid pr env \<and> pe_now env = ws_waking_ts s \<and> pe_cpu env = ws_waking_cpu s \<and>
        (if ws_waking_context s = 1
         then in_task_context pr \<and> env_tid env \<noteq> 0 \<and> pe_start_time env \<noteq> 0 \<and> ws_waker_tid s = env_tid env \<and>
              ws_waker_tgid s = env_tgid env \<and> ws_waker_start_time s = pe_start_time env \<and> ws_waker_task s = pe_comm env
         else ws_waker_tid s = 0 \<and> ws_waker_tgid s = 0 \<and> ws_waker_start_time s = 0 \<and> ws_waker_task s = zero_task))"

definition wakeup_of :: "u32 \<Rightarrow> wakeup_state \<Rightarrow> wakeup_event \<Rightarrow> bool" where
  "wakeup_of tid s K \<longleftrightarrow> (\<exists>env. K = Wakeup tid env \<and> pe_now env = ws_wakeup_ts s)"

definition run_of :: "u32 \<Rightarrow> wakeup_state \<Rightarrow> wakeup_event \<Rightarrow> bool" where
  "run_of tid s R \<longleftrightarrow> (\<exists>prev env oc. R = Switch prev tid env oc \<and> pe_now env = ws_run_start_ts s \<and> pe_cpu env = ws_run_cpu s)"

text \<open>The thread was woken again, or the observed task stopped running.\<close>

fun ends_segment :: "bpf_args \<Rightarrow> u32 \<Rightarrow> u64 \<Rightarrow> u32 \<Rightarrow> wakeup_event \<Rightarrow> bool" where
  "ends_segment args tid birth tgid (Waking t pr env) = (t = tid)"
| "ends_segment args tid birth tgid (Switch prev nxt env oc) =
     (prev = tid \<and> env_tid env = tid \<and> pe_start_time env = birth \<and> env_tgid env = tgid \<and>
      perfetto_current_matches args tid (env_uid env))"
| "ends_segment args tid birth tgid _ = False"

fun switches_to :: "u32 \<Rightarrow> wakeup_event \<Rightarrow> bool" where
  "switches_to tid (Switch prev nxt env oc) = (nxt = tid)"
| "switches_to tid _ = False"

definition quiet :: "bpf_args \<Rightarrow> u32 \<Rightarrow> wakeup_state \<Rightarrow> wakeup_event list \<Rightarrow> bool" where
  "quiet args tid s es \<longleftrightarrow> list_all (\<lambda>e. \<not> ends_segment args tid (ws_task_start_time s) (ws_tgid s) e) es"

definition has_waking :: "bpf_args \<Rightarrow> u32 \<Rightarrow> wakeup_state \<Rightarrow> wakeup_event list \<Rightarrow> bool" where
  "has_waking args tid s h \<longleftrightarrow> (\<exists>a W b. h = a @ W # b \<and> waking_of tid s W \<and> quiet args tid s b)"

definition has_wakeup :: "bpf_args \<Rightarrow> u32 \<Rightarrow> wakeup_state \<Rightarrow> wakeup_event list \<Rightarrow> bool" where
  "has_wakeup args tid s h \<longleftrightarrow>
     (\<exists>a W b K c. h = a @ W # b @ K # c \<and> waking_of tid s W \<and> wakeup_of tid s K \<and> quiet args tid s (b @ K # c))"

definition has_run :: "bpf_args \<Rightarrow> u32 \<Rightarrow> wakeup_state \<Rightarrow> wakeup_event list \<Rightarrow> bool" where
  "has_run args tid s h \<longleftrightarrow>
     (\<exists>a R d. h = a @ R # d \<and> run_of tid s R \<and> quiet args tid s d \<and> list_all (\<lambda>e. \<not> switches_to tid e) d)"

definition has_chain :: "bpf_args \<Rightarrow> u32 \<Rightarrow> wakeup_state \<Rightarrow> wakeup_event list \<Rightarrow> bool" where
  "has_chain args tid s h \<longleftrightarrow>
     (\<exists>a W b K c R d. h = a @ W # b @ K # c @ R # d \<and> waking_of tid s W \<and> wakeup_of tid s K \<and> run_of tid s R \<and>
        quiet args tid s (b @ K # c @ R # d) \<and> list_all (\<lambda>e. \<not> switches_to tid e) d)"

definition evidence :: "bpf_args \<Rightarrow> u32 \<Rightarrow> wakeup_state \<Rightarrow> wakeup_event list \<Rightarrow> bool" where
  "evidence args tid s h \<longleftrightarrow>
     (ws_waking_ts s \<noteq> 0 \<longrightarrow> has_waking args tid s h) \<and> (ws_wakeup_ts s \<noteq> 0 \<longrightarrow> has_wakeup args tid s h) \<and>
     (ws_run_start_ts s \<noteq> 0 \<longrightarrow> has_run args tid s h \<and> (ws_wakeup_ts s \<noteq> 0 \<longrightarrow> has_chain args tid s h))"

lemma evidence_fresh [simp]: "evidence args tid (fresh_wakeup birth tgid) h"
  by (simp add: evidence_def fresh_wakeup_def)

lemma evidence_clear [simp]: "evidence args tid (network_wakeup_clear s) h"
  by (simp add: evidence_def network_wakeup_clear_def)

lemma clear_sel: "ws_waking_ts (network_wakeup_clear s) = 0" "ws_wakeup_ts (network_wakeup_clear s) = 0"
  by (simp_all add: network_wakeup_clear_def)

text \<open>An event that neither ends the segment nor runs the thread keeps the evidence.\<close>

lemma evidence_keep:
  assumes "evidence args tid s h" and "\<not> ends_segment args tid (ws_task_start_time s) (ws_tgid s) e"
    and "\<not> switches_to tid e"
  shows "evidence args tid s (h @ [e])"
proof -
  have q: "quiet args tid s (es @ [e]) = quiet args tid s es" for es
    using assms(2) by (simp add: quiet_def)
  have l: "list_all (\<lambda>e. \<not> switches_to tid e) (es @ [e]) = list_all (\<lambda>e. \<not> switches_to tid e) es" for es
    using assms(3) by simp
  have "has_waking args tid s (h @ [e])" if "has_waking args tid s h"
    using that q unfolding has_waking_def by (metis append.assoc append_Cons)
  moreover have "has_wakeup args tid s (h @ [e])" if "has_wakeup args tid s h"
    using that q unfolding has_wakeup_def by (metis append.assoc append_Cons)
  moreover have "has_run args tid s (h @ [e])" if "has_run args tid s h"
    using that q l unfolding has_run_def by (metis append.assoc append_Cons)
  moreover have "has_chain args tid s (h @ [e])" if "has_chain args tid s h"
    using that q l unfolding has_chain_def by (metis append.assoc append_Cons)
  ultimately show ?thesis
    using assms(1) unfolding evidence_def by blast
qed

lemma evidence_run:
  assumes "evidence args tid s h" and "\<not> ends_segment args tid (ws_task_start_time s) (ws_tgid s) (Switch prev tid env oc)"
  shows "evidence args tid (s\<lparr>ws_run_start_ts := pe_now env, ws_run_cpu := pe_cpu env\<rparr>) (h @ [Switch prev tid env oc])"
proof -
  let ?s = "s\<lparr>ws_run_start_ts := pe_now env, ws_run_cpu := pe_cpu env\<rparr>"
  let ?e = "Switch prev tid env oc"
  have q: "quiet args tid ?s (es @ [?e]) = quiet args tid s es" for es
    using assms(2) by (simp add: quiet_def)
  have w: "waking_of tid ?s = waking_of tid s" "wakeup_of tid ?s = wakeup_of tid s"
    by (simp_all add: fun_eq_iff waking_of_def wakeup_of_def)
  have r: "run_of tid ?s ?e" "quiet args tid ?s []"
    by (simp_all add: run_of_def quiet_def)
  have "has_waking args tid ?s (h @ [?e])" if "has_waking args tid s h"
    using that q unfolding has_waking_def w by (metis append.assoc append_Cons)
  moreover have "has_wakeup args tid ?s (h @ [?e])" if "has_wakeup args tid s h"
    using that q unfolding has_wakeup_def w by (metis append.assoc append_Cons)
  moreover have "has_chain args tid ?s (h @ [?e])" if hw: "has_wakeup args tid s h"
  proof -
    obtain a W b K c where h: "h = a @ W # b @ K # c" "waking_of tid s W" "wakeup_of tid s K" "quiet args tid s (b @ K # c)"
      using hw unfolding has_wakeup_def by blast
    then have "quiet args tid ?s (b @ K # c @ [?e])"
      using q [of "b @ K # c"] by simp
    then show ?thesis
      using h(1-3) r(1) unfolding has_chain_def w
      by (intro exI [of _ a] exI [of _ W] exI [of _ b] exI [of _ K] exI [of _ c] exI [of _ ?e] exI [of _ "[]"]) simp
  qed
  moreover have "has_run args tid ?s (h @ [?e])"
    unfolding has_run_def by (intro exI [of _ h] exI [of _ ?e] exI [of _ "[]"]) (use r in simp)
  ultimately show ?thesis
    using assms(1) unfolding evidence_def by simp
qed

lemma context_task: "fst (network_wakeup_context pr raw) = 1 \<longleftrightarrow> in_task_context pr"
  by (auto simp: network_wakeup_context_def in_task_context_def not_le split: option.splits)

lemma evidence_first_run:
  assumes "ws_waking_ts s = 0" "ws_wakeup_ts s = 0"
  shows "evidence args tid (s\<lparr>ws_run_start_ts := pe_now env, ws_run_cpu := pe_cpu env\<rparr>) (h @ [Switch prev tid env oc])"
proof -
  have "has_run args tid (s\<lparr>ws_run_start_ts := pe_now env, ws_run_cpu := pe_cpu env\<rparr>) (h @ [Switch prev tid env oc])"
    unfolding has_run_def
    by (intro exI [of _ h] exI [of _ "Switch prev tid env oc"] exI [of _ "[]"]) (simp add: run_of_def quiet_def)
  then show ?thesis
    using assms by (simp add: evidence_def)
qed

lemma evidence_wakeup:
  assumes "evidence args tid s h" and "ws_waking_ts s \<noteq> 0" and "ws_run_start_ts s = 0"
  shows "evidence args tid (s\<lparr>ws_wakeup_ts := pe_now env\<rparr>) (h @ [Wakeup tid env])"
proof -
  let ?s = "s\<lparr>ws_wakeup_ts := pe_now env\<rparr>"
  let ?e = "Wakeup tid env"
  obtain a W b where h: "h = a @ W # b" "waking_of tid s W" "quiet args tid s b"
    using assms(1,2) unfolding evidence_def has_waking_def by blast
  have "waking_of tid ?s = waking_of tid s"
    by (simp add: fun_eq_iff waking_of_def)
  then have w: "waking_of tid ?s W" "quiet args tid ?s (b @ [?e])" "wakeup_of tid ?s ?e"
    using h by (simp_all add: quiet_def wakeup_of_def)
  have "has_waking args tid ?s (h @ [?e])"
    unfolding has_waking_def using h w by (intro exI [of _ a] exI [of _ W] exI [of _ "b @ [?e]"]) simp
  moreover have "has_wakeup args tid ?s (h @ [?e])"
    unfolding has_wakeup_def using h w
    by (intro exI [of _ a] exI [of _ W] exI [of _ b] exI [of _ ?e] exI [of _ "[]"]) simp
  ultimately show ?thesis
    using assms(3) by (simp add: evidence_def)
qed

definition wakeup_inv :: "bpf_args \<Rightarrow> wakeup_event list \<Rightarrow> wakeup_map \<Rightarrow> bool" where
  "wakeup_inv args h m \<longleftrightarrow>
     (\<forall>tid s. m tid = Some s \<longrightarrow> tid \<noteq> 0 \<and> ws_task_start_time s \<noteq> 0 \<and> evidence args tid s h)"

lemma current_values:
  assumes "network_wakeup_current args env oc m = (r, m1)" and "m1 tid = Some s"
  shows "m tid = Some s \<or> tid = env_tid env \<and> tid \<noteq> 0 \<and> pe_start_time env \<noteq> 0 \<and> s = fresh_wakeup (pe_start_time env) (env_tgid env)"
  using assms lru.stored_cases [of oc "env_tid env" "fresh_wakeup (pe_start_time env) (env_tgid env)" m tid s]
  by (auto simp: network_wakeup_current_def Let_def split: if_splits prod.splits bool.splits)

lemma current_result:
  assumes "network_wakeup_current args env oc m = (Some s, m1)"
  shows "m1 (env_tid env) = Some s" "ws_task_start_time s = pe_start_time env" "ws_tgid s = env_tgid env"
    "env_tid env \<noteq> 0" "pe_start_time env \<noteq> 0" "perfetto_current_matches args (env_tid env) (env_uid env)"
proof -
  have *: "m1 (env_tid env) = Some s \<and> ws_task_start_time s = pe_start_time env \<and> ws_tgid s = env_tgid env \<and>
    env_tid env \<noteq> 0 \<and> pe_start_time env \<noteq> 0 \<and> perfetto_current_matches args (env_tid env) (env_uid env)"
    using assms lru.stored [of oc "env_tid env" "fresh_wakeup (pe_start_time env) (env_tgid env)" m]
    by (auto simp: network_wakeup_current_def Let_def fresh_wakeup_def split: if_splits prod.splits bool.splits)
  then show "m1 (env_tid env) = Some s" "ws_task_start_time s = pe_start_time env" "ws_tgid s = env_tgid env"
    "env_tid env \<noteq> 0" "pe_start_time env \<noteq> 0" "perfetto_current_matches args (env_tid env) (env_uid env)"
    by auto
qed

lemma current_missing:
  assumes "network_wakeup_current args env oc m = (None, m1)" and "m1 (env_tid env) = Some s"
    and "env_tid env \<noteq> 0" "pe_start_time env \<noteq> 0" "perfetto_current_matches args (env_tid env) (env_uid env)"
  shows "ws_task_start_time s \<noteq> pe_start_time env \<or> ws_tgid s \<noteq> env_tgid env"
  using assms lru.rejected [of oc "env_tid env" "fresh_wakeup (pe_start_time env) (env_tgid env)" m]
    lru.stored [of oc "env_tid env" "fresh_wakeup (pe_start_time env) (env_tgid env)" m]
  by (auto simp: network_wakeup_current_def Let_def split: if_splits prod.splits bool.splits) (metis option.sel)+

lemma inv_waking:
  assumes "wakeup_inv args h m" and "wakeup_enabled args"
  shows "wakeup_inv args (h @ [Waking t pr env]) (network_sched_waking args t pr env m)"
proof -
  let ?e = "Waking t pr env"
  have keep: "evidence args tid s (h @ [?e])" if "m tid = Some s" "tid \<noteq> t" for tid s
    using assms(1) that by (intro evidence_keep) (auto simp: wakeup_inv_def)
  show ?thesis
  proof (cases "m t")
    case None
    then show ?thesis
      using assms keep by (auto simp: network_sched_waking_def wakeup_inv_def) (metis option.simps(3))
  next
    case (Some s0)
    define s3 where "s3 = the (network_sched_waking args t pr env m t)"
    have m': "network_sched_waking args t pr env m = m(t \<mapsto> s3)"
      using Some assms(2) by (simp add: network_sched_waking_def Let_def s3_def split: prod.splits)
    have s3: "ws_task_start_time s3 = ws_task_start_time s0" "ws_wakeup_ts s3 = 0" "ws_run_start_ts s3 = 0" "waking_of t s3 ?e"
      using Some assms(2) context_task [of pr 0]
      by (auto simp: s3_def network_sched_waking_def Let_def network_wakeup_clear_def waking_of_def split: prod.splits)
    have "has_waking args t s3 (h @ [?e])"
      unfolding has_waking_def by (intro exI [of _ h] exI [of _ ?e] exI [of _ "[]"]) (use s3 in \<open>simp add: quiet_def\<close>)
    then have "evidence args t s3 (h @ [?e])"
      using s3 by (simp add: evidence_def)
    then show ?thesis
      using assms(1) keep Some s3(1) unfolding m' wakeup_inv_def by auto
  qed
qed

lemma inv_wakeup:
  assumes "wakeup_inv args h m" and "wakeup_enabled args"
  shows "wakeup_inv args (h @ [Wakeup t env]) (network_sched_wakeup args t env m)"
proof -
  have keep: "evidence args tid s (h @ [Wakeup t env])" if "m tid = Some s" for tid s
    using assms(1) that by (intro evidence_keep) (auto simp: wakeup_inv_def)
  have "evidence args t (s\<lparr>ws_wakeup_ts := pe_now env\<rparr>) (h @ [Wakeup t env])"
    if "m t = Some s" "ws_waking_ts s \<noteq> 0" "ws_run_start_ts s = 0" for s
    using assms(1) that by (intro evidence_wakeup) (auto simp: wakeup_inv_def)
  then show ?thesis
    using assms keep by (auto simp: network_sched_wakeup_def wakeup_inv_def split: option.splits)
qed

lemma inv_snapshot:
  assumes "wakeup_inv args h m" and "wakeup_enabled args"
  shows "wakeup_inv args (h @ [Snapshot env oc ev]) (snd (network_wakeup_snapshot args env oc ev m))"
proof -
  obtain r m1 where cur: "network_wakeup_current args env oc m = (r, m1)"
    by fastforce
  have "snd (network_wakeup_snapshot args env oc ev m) = m1"
    using cur assms(2) by (auto simp: network_wakeup_snapshot_def Let_def split: option.splits)
  moreover have "tid \<noteq> 0 \<and> ws_task_start_time s \<noteq> 0 \<and> evidence args tid s (h @ [Snapshot env oc ev])" if "m1 tid = Some s" for tid s
    using current_values [OF cur that] assms(1) evidence_keep [of args tid s h "Snapshot env oc ev"]
    by (auto simp: wakeup_inv_def) (auto simp: fresh_wakeup_def)
  ultimately show ?thesis
    by (simp add: wakeup_inv_def)
qed

lemma inv_switch:
  assumes inv: "wakeup_inv args h m" and "wakeup_enabled args"
  shows "wakeup_inv args (h @ [Switch prev nxt env oc]) (network_sched_switch args prev nxt env oc m)"
proof -
  let ?e = "Switch prev nxt env oc"
  define m1 where "m1 =
     (if prev = env_tid env
      then (case network_wakeup_current args env oc m of
              (None, m1) \<Rightarrow> m1
            | (Some s, m1) \<Rightarrow> m1(env_tid env \<mapsto> network_wakeup_clear s))
      else m)"
  have m1: "tid \<noteq> 0 \<and> ws_task_start_time s \<noteq> 0 \<and> evidence args tid s h \<and>
      (ends_segment args tid (ws_task_start_time s) (ws_tgid s) ?e \<longrightarrow> s = network_wakeup_clear s)" if s: "m1 tid = Some s" for tid s
  proof (cases "prev = env_tid env")
    case False
    then show ?thesis
      using inv s by (auto simp: m1_def wakeup_inv_def)
  next
    case True
    obtain r mm where cur: "network_wakeup_current args env oc m = (r, mm)"
      by fastforce
    have mm: "t \<noteq> 0 \<and> ws_task_start_time v \<noteq> 0 \<and> evidence args t v h" if "mm t = Some v" for t v
      using current_values [OF cur that] inv by (auto simp: wakeup_inv_def) (auto simp: fresh_wakeup_def)
    show ?thesis
    proof (cases r)
      case None
      then have "mm tid = Some s"
        using s True cur by (simp add: m1_def)
      then show ?thesis
        using mm [of tid s] current_missing [of args env oc m mm s] cur None by auto
    next
      case (Some v)
      then have eq: "m1 = mm(env_tid env \<mapsto> network_wakeup_clear v)"
        using True cur by (simp add: m1_def)
      have v: "mm (env_tid env) = Some v"
        using current_result(1) cur Some by simp
      show ?thesis
      proof (cases "tid = env_tid env")
        case True
        then have "s = network_wakeup_clear v"
          using s eq by simp
        then show ?thesis
          using mm [OF v] True by (simp add: network_wakeup_clear_def evidence_def)
      next
        case False
        then show ?thesis
          using mm [of tid s] s eq by auto
      qed
    qed
  qed
  have sw: "network_sched_switch args prev nxt env oc m =
     (case m1 nxt of None \<Rightarrow> m1 | Some s \<Rightarrow> m1(nxt \<mapsto> s\<lparr>ws_run_start_ts := pe_now env, ws_run_cpu := pe_cpu env\<rparr>))"
    using assms(2) unfolding network_sched_switch_def Let_def m1_def [symmetric] by simp
  have keep: "evidence args tid s (h @ [?e])" if s: "m1 tid = Some s" "tid \<noteq> nxt" for tid s
    using m1 [OF s(1)] s(2) evidence_keep [of args tid s h ?e] evidence_clear [of args tid s "h @ [?e]"] by fastforce
  have run: "evidence args nxt (s\<lparr>ws_run_start_ts := pe_now env, ws_run_cpu := pe_cpu env\<rparr>) (h @ [?e])" if s: "m1 nxt = Some s" for s
  proof (cases "ends_segment args nxt (ws_task_start_time s) (ws_tgid s) ?e")
    case True
    then have "s = network_wakeup_clear s"
      using m1 [OF s] by blast
    then have "ws_waking_ts s = 0 \<and> ws_wakeup_ts s = 0"
      using clear_sel [of s] by metis
    then show ?thesis
      by (simp add: evidence_first_run)
  next
    case False
    then show ?thesis
      using m1 [OF s] by (intro evidence_run) auto
  qed
  show ?thesis
    using m1 keep run unfolding sw wakeup_inv_def by (auto split: option.splits) (metis option.simps(3))
qed

lemma wakeup_run_inv: "wakeup_enabled args \<Longrightarrow> wakeup_inv args h (wakeup_run args h)"
proof (induction h rule: rev_induct)
  case Nil
  then show ?case
    by (simp add: wakeup_inv_def wakeup_run_def)
next
  case (snoc e h)
  have "wakeup_run args (h @ [e]) = wakeup_step args e (wakeup_run args h)"
    by (simp add: wakeup_run_def)
  then show ?case
    using snoc inv_waking inv_wakeup inv_switch inv_snapshot by (cases e) auto
qed

lemma snapshot_observed:
  assumes "wakeup_enabled args" and "network_wakeup_current args env oc m = (Some s, m1)"
    and "network_wakeup_snapshot args env oc ev m = (ev', m')" and "se_wakeup_status ev' = 2"
  shows "ws_run_start_ts s \<noteq> 0 \<and> ws_waking_ts s \<noteq> 0 \<and> ws_run_start_ts s \<le> se_start_ts ev \<and>
    ws_waking_ts s \<le> ws_wakeup_ts s \<and> ws_wakeup_ts s \<le> ws_run_start_ts s \<and>
    ev' = ev\<lparr>se_wakeup_status := 2, se_run_start_ts := ws_run_start_ts s, se_run_cpu := ws_run_cpu s,
         se_waking_ts := ws_waking_ts s, se_wakeup_ts := ws_wakeup_ts s,
         se_waker_start_time := ws_waker_start_time s, se_waker_tid := ws_waker_tid s,
         se_waker_tgid := ws_waker_tgid s, se_waking_cpu := ws_waking_cpu s,
         se_waking_context := ws_waking_context s, se_waking_preempt_count := ws_waking_preempt_count s,
         se_waker_task := ws_waker_task s\<rparr>"
proof (cases "ws_run_start_ts s = 0 \<or> se_start_ts ev < ws_run_start_ts s")
  case True
  then have "se_wakeup_status ev' = 1"
    using assms(1-3) by (auto simp: network_wakeup_snapshot_def Let_def)
  then show ?thesis
    using assms(4) by simp
next
  case running: False
  show ?thesis
  proof (cases "ws_waking_ts s = 0 \<or> ws_wakeup_ts s < ws_waking_ts s \<or> ws_run_start_ts s < ws_wakeup_ts s")
    case True
    then have "se_wakeup_status ev' = 3"
      using assms(1-3) running by (auto simp: network_wakeup_snapshot_def Let_def)
    then show ?thesis
      using assms(4) by simp
  next
    case False
    have "network_wakeup_snapshot args env oc ev m =
        (ev\<lparr>se_wakeup_status := 2, se_run_start_ts := ws_run_start_ts s, se_run_cpu := ws_run_cpu s,
         se_waking_ts := ws_waking_ts s, se_wakeup_ts := ws_wakeup_ts s,
         se_waker_start_time := ws_waker_start_time s, se_waker_tid := ws_waker_tid s,
         se_waker_tgid := ws_waker_tgid s, se_waking_cpu := ws_waking_cpu s,
         se_waking_context := ws_waking_context s, se_waking_preempt_count := ws_waking_preempt_count s,
         se_waker_task := ws_waker_task s\<rparr>, m1)"
      using assms(1,2) running False by (simp add: network_wakeup_snapshot_def Let_def)
    then show ?thesis
      using assms(3) running False by (simp add: not_less)
  qed
qed

lemma snapshot_unseen:
  assumes "network_wakeup_current args env oc m = (None, m1)" and "se_wakeup_status ev = 0"
  shows "se_wakeup_status (fst (network_wakeup_snapshot args env oc ev m)) \<noteq> 2"
  using assms by (simp add: network_wakeup_snapshot_def)

text \<open>
  C23. A reported wake-up really happened, to this task, and was not interrupted.  After any
  sequence of probes, when the snapshot of a call reports the status observed, the history contains,
  in this order, the wake-up request, the wake-up and the switch to the calling thread with the
  reported times and processors, ordered and not after the call; since the request the thread was not
  woken again and the task was not seen to stop, and since the switch it was not switched to again.
  A waker is reported exactly when the preemption counter proves that the request ran in task
  context, and it is then the task that was current at the request.
\<close>

theorem network_wakeup_evidence:
  assumes "network_wakeup_snapshot args env oc ev (wakeup_run args h) = (ev', m')"
    and "se_wakeup_status ev = 0" and "se_wakeup_status ev' = 2"
  shows "\<exists>a pr w b k c prev r roc d.
     h = a @ Waking (env_tid env) pr w # b @ Wakeup (env_tid env) k # c @ Switch prev (env_tid env) r roc # d \<and>
     pe_now w = se_waking_ts ev' \<and> pe_now k = se_wakeup_ts ev' \<and> pe_now r = se_run_start_ts ev' \<and>
     pe_cpu w = se_waking_cpu ev' \<and> pe_cpu r = se_run_cpu ev' \<and>
     se_waking_ts ev' \<le> se_wakeup_ts ev' \<and> se_wakeup_ts ev' \<le> se_run_start_ts ev' \<and> se_run_start_ts ev' \<le> se_start_ts ev' \<and>
     list_all (\<lambda>e. \<not> ends_segment args (env_tid env) (pe_start_time env) (env_tgid env) e)
       (b @ Wakeup (env_tid env) k # c @ Switch prev (env_tid env) r roc # d) \<and>
     list_all (\<lambda>e. \<not> switches_to (env_tid env) e) d \<and>
     (if se_waking_context ev' = 1
      then in_task_context pr \<and> se_waker_tid ev' = env_tid w \<and> se_waker_tgid ev' = env_tgid w \<and>
           se_waker_start_time ev' = pe_start_time w \<and> se_waker_task ev' = pe_comm w \<and> env_tid w \<noteq> 0
      else se_waker_tid ev' = 0 \<and> se_waker_tgid ev' = 0 \<and> se_waker_start_time ev' = 0)"
proof -
  have en: "wakeup_enabled args"
    using assms by (auto simp: network_wakeup_snapshot_def split: if_splits)
  obtain r m1 where cur: "network_wakeup_current args env oc (wakeup_run args h) = (r, m1)"
    by fastforce
  have "r \<noteq> None"
    using snapshot_unseen [of args env oc "wakeup_run args h" m1 ev] cur assms by auto
  then obtain s where s1: "r = Some s"
    by blast
  note s = s1 snapshot_observed [OF en cur [unfolded s1] assms(1,3)]
  have id: "m1 (env_tid env) = Some s" "ws_task_start_time s = pe_start_time env" "ws_tgid s = env_tgid env"
    using current_result [of args env oc "wakeup_run args h" s m1] cur s(1) by auto
  have "ws_wakeup_ts s \<noteq> 0"
    using s(2) by auto
  moreover have "evidence args (env_tid env) s h"
    using current_values [OF cur id(1)] wakeup_run_inv [OF en, of h] by (auto simp: wakeup_inv_def)
  ultimately have "has_chain args (env_tid env) s h"
    using s(2) by (simp add: evidence_def)
  then obtain a W b K c R d where ch: "h = a @ W # b @ K # c @ R # d" "waking_of (env_tid env) s W" "wakeup_of (env_tid env) s K"
      "run_of (env_tid env) s R" "quiet args (env_tid env) s (b @ K # c @ R # d)" "list_all (\<lambda>e. \<not> switches_to (env_tid env) e) d"
    unfolding has_chain_def by blast
  obtain pr w where w: "W = Waking (env_tid env) pr w" "pe_now w = ws_waking_ts s" "pe_cpu w = ws_waking_cpu s"
      "if ws_waking_context s = 1
       then in_task_context pr \<and> env_tid w \<noteq> 0 \<and> pe_start_time w \<noteq> 0 \<and> ws_waker_tid s = env_tid w \<and>
            ws_waker_tgid s = env_tgid w \<and> ws_waker_start_time s = pe_start_time w \<and> ws_waker_task s = pe_comm w
       else ws_waker_tid s = 0 \<and> ws_waker_tgid s = 0 \<and> ws_waker_start_time s = 0 \<and> ws_waker_task s = zero_task"
    using ch(2) unfolding waking_of_def by blast
  obtain k where k: "K = Wakeup (env_tid env) k" "pe_now k = ws_wakeup_ts s"
    using ch(3) unfolding wakeup_of_def by blast
  obtain prev rr roc where rr: "R = Switch prev (env_tid env) rr roc" "pe_now rr = ws_run_start_ts s" "pe_cpu rr = ws_run_cpu s"
    using ch(4) unfolding run_of_def by blast
  have f: "se_waking_ts ev' = ws_waking_ts s" "se_wakeup_ts ev' = ws_wakeup_ts s" "se_run_start_ts ev' = ws_run_start_ts s"
      "se_waking_cpu ev' = ws_waking_cpu s" "se_run_cpu ev' = ws_run_cpu s" "se_start_ts ev' = se_start_ts ev"
      "se_waking_context ev' = ws_waking_context s" "se_waker_tid ev' = ws_waker_tid s" "se_waker_tgid ev' = ws_waker_tgid s"
      "se_waker_start_time ev' = ws_waker_start_time s" "se_waker_task ev' = ws_waker_task s"
    using s(2) by simp_all
  have le: "ws_waking_ts s \<le> ws_wakeup_ts s" "ws_wakeup_ts s \<le> ws_run_start_ts s" "ws_run_start_ts s \<le> se_start_ts ev"
    using s(2) by blast+
  show ?thesis
    using ch(1,5,6) w k rr le unfolding quiet_def id(2,3) f
    by (intro exI [of _ a] exI [of _ pr] exI [of _ w] exI [of _ b] exI [of _ k] exI [of _ c] exI [of _ prev] exI [of _ rr]
        exI [of _ roc] exI [of _ d]) simp
qed

definition wakeup_demo_args :: bpf_args where
  "wakeup_demo_args = \<lparr>ba_pid = 0, ba_uid = 0, ba_uid_enabled = False, ba_ready = True, ba_perfetto = True,
     ba_connect_diagnostics = False, ba_wakeup_chain = True, ba_rx_context = True, ba_connect_nr = 42, ba_getsockopt_nr = 55, ba_syscall_nr = [],
     ba_compat_syscall_nr = [], ba_socket_filter = False\<rparr>"

definition wakeup_demo_env :: "u64 \<Rightarrow> u64 \<Rightarrow> u64 \<Rightarrow> probe_env" where
  "wakeup_demo_env task birth now = \<lparr>pe_pid_tgid = task, pe_uid_gid = 0, pe_start_time = birth, pe_comm = [], pe_now = now, pe_cpu = 1, pe_arrays = True\<rparr>"

definition wakeup_demo_oc :: "u32 outcome" where
  "wakeup_demo_oc = \<lparr>oc_accept = True, oc_evict = []\<rparr>"

definition wakeup_demo_history :: "wakeup_event list" where
  "wakeup_demo_history =
     [Switch 7 9 (wakeup_demo_env 7 100 1000) wakeup_demo_oc,
      Waking 7 \<lparr>pr_version = 0x60000, pr_count = Some 1, pr_rt = None\<rparr> (wakeup_demo_env 9 200 2000),
      Wakeup 7 (wakeup_demo_env 0 1 2500),
      Switch 9 7 (wakeup_demo_env 9 200 3000) wakeup_demo_oc]"

theorem network_wakeup_evidence_witness:
  "\<exists>a pr w b k c prev r roc d.
     wakeup_demo_history = a @ Waking 7 pr w # b @ Wakeup 7 k # c @ Switch prev 7 r roc # d \<and>
     pe_now w = 2000 \<and> pe_now k = 2500 \<and> pe_now r = 3000 \<and> in_task_context pr \<and> env_tid w = 9"
proof -
  let ?env = "wakeup_demo_env 7 100 4000"
  let ?ev = "zero_syscall_event\<lparr>se_start_ts := 4000\<rparr>"
  let ?r = "network_wakeup_snapshot wakeup_demo_args ?env wakeup_demo_oc ?ev (wakeup_run wakeup_demo_args wakeup_demo_history)"
  have v: "se_wakeup_status ?ev = 0" "se_wakeup_status (fst ?r) = 2" "env_tid ?env = 7" "se_waking_ts (fst ?r) = 2000"
      "se_wakeup_ts (fst ?r) = 2500" "se_run_start_ts (fst ?r) = 3000" "se_waking_context (fst ?r) = 1" "se_waker_tid (fst ?r) = 9"
    by code_simp+
  have r: "?r = (fst ?r, snd ?r)"
    by simp
  show ?thesis
    using network_wakeup_evidence [OF r v(1,2)] unfolding v by fastforce
qed

end
