(* ===== verification/PacketIdentity.thy ===== *)
theory PacketIdentity
  imports NetworkWakeup
begin

text \<open>
  Identities in the packet probes (\<open>progs/core.c\<close>): generations that tell reused socket and packet
  addresses apart, the protocol call a thread is in, and the submission a packet came from.
\<close>

section \<open>State\<close>

text \<open>The functions the probes tell apart; \<open>INDEX_other n\<close> is any other one.\<close>

datatype probe_func =
    INDEX_tcp_sendmsg | INDEX_tcp_recvmsg | INDEX_udp_sendmsg | INDEX_udpv6_sendmsg | INDEX_udp_recvmsg
  | INDEX_udpv6_recvmsg | INDEX_skb_copy_datagram_iter | INDEX_skb_copy_and_csum_datagram_msg | INDEX_skb_consume_udp
  | INDEX_tcp_skb_entail | INDEX_skb_entail | INDEX_udp_send_skb | INDEX_udp_v6_send_skb | INDEX_xfrm_policy_check
  | INDEX_other nat

record perfetto_owner =
  ow_socket_key :: u64
  ow_tid :: u32
  ow_tgid :: u32
  ow_uid :: u32
  ow_generation :: u32
  ow_dns :: bool

record perfetto_flow_key =
  pf_saddr :: bytes
  pf_daddr :: bytes
  pf_sport :: u16
  pf_dport :: u16
  pf_proto_l3 :: u16
  pf_proto_l4 :: u8
  pf_netns :: u32

record perfetto_flow_owner =
  fo_owner :: perfetto_owner
  fo_direction :: u8

record packet_instance =
  pi_head :: u64
  pi_generation :: u32
  pi_released :: bool
  pi_io_multiple :: bool
  pi_io_start_ts :: u64
  pi_syscall_start_ts :: u64
  pi_io_task :: u64
  pi_io_socket_key :: u64
  pi_io_generation :: u32

record perfetto_io =
  io_start_ts :: u64
  io_syscall_start_ts :: u64
  io_socket_key :: u64
  io_generation :: u32
  io_depth :: u32
  io_func :: probe_func
  io_tx :: bool

text \<open>The maps and counters; \<open>ps_log\<close> is the sequence of system-call events handed to the perf buffer.\<close>

record probe_state =
  ps_syscalls :: "u64 \<rightharpoonup> syscall_event"
  ps_io :: "u64 \<rightharpoonup> perfetto_io"
  ps_packets :: "u64 \<rightharpoonup> packet_instance"
  ps_packet_counter :: u32
  ps_generation :: "u64 \<rightharpoonup> u32"
  ps_generation_counter :: u32
  ps_owner :: "u64 \<rightharpoonup> perfetto_owner"
  ps_flow :: "perfetto_flow_key \<rightharpoonup> perfetto_flow_owner"
  ps_wakeups :: wakeup_map
  ps_event_count :: u64
  ps_log :: "syscall_event list"

definition probe_start :: probe_state where
  "probe_start = \<lparr>ps_syscalls = Map.empty, ps_io = Map.empty, ps_packets = Map.empty, ps_packet_counter = 0,
     ps_generation = Map.empty, ps_generation_counter = 0, ps_owner = Map.empty, ps_flow = Map.empty,
     ps_wakeups = Map.empty, ps_event_count = 0, ps_log = []\<rparr>"

text \<open>The fields of \<open>detail_event_t\<close> that the identity and owner code reads or writes.\<close>

record probe_detail =
  pd_key_generation :: u32
  pd_ts :: u64
  pd_netns :: u32
  pd_proto_l4 :: u8
  pd_owner_tid :: u32
  pd_owner_tgid :: u32
  pd_owner_uid :: u32
  pd_owner_socket_key :: u64
  pd_owner_socket_generation :: u32
  pd_direction :: u8
  pd_owner_valid :: bool
  pd_owner_pending :: bool
  pd_owner_evidence :: u8
  pd_io_start_ts :: u64
  pd_syscall_start_ts :: u64
  pd_io_tid :: u32
  pd_io_tgid :: u32
  pd_io_role :: u8
  pd_io_multiple :: bool

definition PACKET_DIRECTION_UNKNOWN :: u8 where "PACKET_DIRECTION_UNKNOWN = 0"
definition PACKET_DIRECTION_TX :: u8 where "PACKET_DIRECTION_TX = 1"
definition PACKET_DIRECTION_RX :: u8 where "PACKET_DIRECTION_RX = 2"
definition FUNC_STATUS_FREE :: u8 where "FUNC_STATUS_FREE = 1"
definition FUNC_STATUS_RX :: u8 where "FUNC_STATUS_RX = 4"
definition FUNC_STATUS_RET :: u8 where "FUNC_STATUS_RET = 32"
definition FUNC_STATUS_CFREE :: u8 where "FUNC_STATUS_CFREE = 64"
definition FUNC_STATUS_TX :: u8 where "FUNC_STATUS_TX = 128"

definition func_is_free :: "u8 \<Rightarrow> bool" where
  "func_is_free status \<longleftrightarrow> status AND (FUNC_STATUS_FREE OR FUNC_STATUS_CFREE) \<noteq> 0"

definition perfetto_status_direction :: "u8 \<Rightarrow> u8" where
  "perfetto_status_direction status =
     (if status AND FUNC_STATUS_RX \<noteq> 0 then PACKET_DIRECTION_RX
      else if status AND FUNC_STATUS_TX \<noteq> 0 then PACKET_DIRECTION_TX
      else PACKET_DIRECTION_UNKNOWN)"

definition perfetto_socket_io :: "probe_func \<Rightarrow> bool" where
  "perfetto_socket_io f \<longleftrightarrow>
     f \<in> {INDEX_tcp_sendmsg, INDEX_tcp_recvmsg, INDEX_udp_sendmsg, INDEX_udpv6_sendmsg, INDEX_udp_recvmsg, INDEX_udpv6_recvmsg}"

definition perfetto_rx_copy :: "probe_func \<Rightarrow> bool" where
  "perfetto_rx_copy f \<longleftrightarrow> f = INDEX_skb_copy_datagram_iter \<or> f = INDEX_skb_copy_and_csum_datagram_msg"

definition PROTO_TCP :: u8 where "PROTO_TCP = 6"
definition PROTO_UDP :: u8 where "PROTO_UDP = 17"

definition transport_supported :: "u8 \<Rightarrow> bool" where
  "transport_supported proto_l4 \<longleftrightarrow> proto_l4 = PROTO_TCP \<or> proto_l4 = PROTO_UDP"

section \<open>Generations\<close>

text \<open>
  The counter is added to and then read; a zero is skipped.  A generation that is not made for a new socket
  is stored only where there is none, so one that another processor stored meanwhile is kept and returned.
\<close>

definition perfetto_socket_generation ::
    "bool \<Rightarrow> gen_outcome \<Rightarrow> u64 \<Rightarrow> bool \<Rightarrow> probe_state \<Rightarrow> u32 \<times> probe_state" where
  "perfetto_socket_generation arrays oc sk created st =
     (if sk = 0 then (0, st)
      else let stored = ps_generation st sk in
        if stored \<noteq> None \<and> \<not> created then (the stored, st)
        else if \<not> arrays then (1, st)
        else let c1 = ps_generation_counter st + 1 + go_added oc;
                 c2 = (if c1 = 0 then c1 + 1 + go_added_again oc else c1);
                 m0 = (case go_raced oc of None \<Rightarrow> ps_generation st | Some r \<Rightarrow> (ps_generation st)(sk \<mapsto> r));
                 m = (if created \<or> m0 sk = None then snd (map_update (go_update oc) sk c2 m0) else m0);
                 st1 = st\<lparr>ps_generation_counter := c2, ps_generation := m\<rparr> in
             (case m sk of Some g \<Rightarrow> (g, st1) | None \<Rightarrow> (c2, st1)))"

text \<open>
  The generation of a packet buffer, as the separate accesses that other processors can come between: the
  look-up at \<open>key\<close> (\<open>head\<close> is the field of the packet buffer there), the addition, the update with the
  counter that was read, and the second look-up with its effect (\<open>refs\<close> is the reference count of the buffer).
\<close>

definition packet_stale :: "u64 \<Rightarrow> u64 \<Rightarrow> bool \<Rightarrow> probe_state \<Rightarrow> bool" where
  "packet_stale head key release st =
     (case ps_packets st key of None \<Rightarrow> True | Some p \<Rightarrow> pi_head p \<noteq> head \<or> (pi_released p \<and> \<not> release))"

definition packet_counter_add :: "u32 \<Rightarrow> probe_state \<Rightarrow> probe_state" where
  "packet_counter_add n st = st\<lparr>ps_packet_counter := ps_packet_counter st + n\<rparr>"

definition fresh_packet :: "u64 \<Rightarrow> u32 \<Rightarrow> packet_instance" where
  "fresh_packet head generation =
     \<lparr>pi_head = head, pi_generation = generation, pi_released = False, pi_io_multiple = False, pi_io_start_ts = 0,
      pi_syscall_start_ts = 0, pi_io_task = 0, pi_io_socket_key = 0, pi_io_generation = 0\<rparr>"

definition packet_store :: "u64 outcome \<Rightarrow> u64 \<Rightarrow> u64 \<Rightarrow> u32 \<Rightarrow> probe_state \<Rightarrow> probe_state" where
  "packet_store oc head key generation st =
     st\<lparr>ps_packets := snd (map_update oc key (fresh_packet head generation) (ps_packets st))\<rparr>"

definition packet_finish :: "u32 \<Rightarrow> u64 \<Rightarrow> bool \<Rightarrow> bool \<Rightarrow> probe_state \<Rightarrow> u32 \<times> probe_state" where
  "packet_finish refs key release udp_consume st =
     (case ps_packets st key of
        None \<Rightarrow> (0, st)
      | Some p \<Rightarrow>
          (pi_generation p,
           if release \<or> (udp_consume \<and> refs = 1) then st\<lparr>ps_packets := (ps_packets st)(key \<mapsto> p\<lparr>pi_released := True\<rparr>)\<rparr>
           else st))"

text \<open>One call, between whose addition and read other processors add \<open>go_added\<close> to the counter.\<close>

definition perfetto_packet_generation ::
    "bool \<Rightarrow> gen_outcome \<Rightarrow> u64 \<Rightarrow> u32 \<Rightarrow> u64 \<Rightarrow> bool \<Rightarrow> bool \<Rightarrow> probe_state \<Rightarrow> u32 \<times> probe_state" where
  "perfetto_packet_generation arrays oc head refs key release udp_consume st =
     packet_finish refs key release udp_consume
       (if packet_stale head key release st \<and> arrays
        then let st1 = packet_counter_add (go_added oc) (packet_counter_add 1 st) in
          packet_store (go_update oc) head key (ps_packet_counter st1) st1
        else st)"

section \<open>Protocol calls\<close>

definition perfetto_io_syscall_boundary :: "u64 \<Rightarrow> probe_state \<Rightarrow> probe_state" where
  "perfetto_io_syscall_boundary task st = st\<lparr>ps_io := map_delete task (ps_io st)\<rparr>"

definition perfetto_io_exit :: "u64 \<Rightarrow> probe_func \<Rightarrow> probe_state \<Rightarrow> probe_state" where
  "perfetto_io_exit task func st =
     (if \<not> perfetto_socket_io func then st
      else case ps_io st task of
        None \<Rightarrow> st
      | Some io \<Rightarrow>
          if 1 < io_depth io then st\<lparr>ps_io := (ps_io st)(task \<mapsto> io\<lparr>io_depth := io_depth io - 1\<rparr>)\<rparr>
          else st\<lparr>ps_io := map_delete task (ps_io st)\<rparr>)"

definition perfetto_io_enter ::
    "bool \<Rightarrow> gen_outcome \<Rightarrow> u64 outcome \<Rightarrow> u64 \<Rightarrow> u64 \<Rightarrow> u64 \<Rightarrow> probe_func \<Rightarrow> u8 \<Rightarrow> probe_state \<Rightarrow> probe_state" where
  "perfetto_io_enter arrays ocg oci task sk_key ts func func_status st =
     (let syscall_start = (case ps_syscalls st task of Some call \<Rightarrow> se_start_ts call | None \<Rightarrow> 0);
          tx = (func_status AND FUNC_STATUS_TX \<noteq> 0);
          fresh_io = (case perfetto_socket_generation arrays ocg sk_key False st of
             (g, st1) \<Rightarrow>
               st1\<lparr>ps_io := snd (map_update oci task
                     \<lparr>io_start_ts = ts, io_syscall_start_ts = syscall_start, io_socket_key = sk_key, io_generation = g,
                      io_depth = 1, io_func = func, io_tx = tx\<rparr> (ps_io st1))\<rparr>) in
      case ps_io st task of
        Some io \<Rightarrow>
          if io_socket_key io = sk_key \<and> io_syscall_start_ts io = syscall_start \<and> io_tx io = tx
          then st\<lparr>ps_io := (ps_io st)(task \<mapsto> io\<lparr>io_depth := io_depth io + 1\<rparr>)\<rparr>
          else fresh_io
      | None \<Rightarrow> fresh_io)"

definition perfetto_packet_remember_submission :: "perfetto_io \<Rightarrow> u64 \<Rightarrow> packet_instance \<Rightarrow> packet_instance" where
  "perfetto_packet_remember_submission io task p =
     (if pi_io_start_ts p \<noteq> 0 \<and>
         (pi_io_start_ts p \<noteq> io_start_ts io \<or> pi_io_task p \<noteq> task \<or> pi_io_socket_key p \<noteq> io_socket_key io \<or>
          pi_io_generation p \<noteq> io_generation io)
      then p\<lparr>pi_io_multiple := True\<rparr>
      else p\<lparr>pi_io_start_ts := io_start_ts io, pi_syscall_start_ts := io_syscall_start_ts io, pi_io_task := task,
             pi_io_socket_key := io_socket_key io, pi_io_generation := io_generation io\<rparr>)"

definition perfetto_packet_apply_submission :: "packet_instance \<Rightarrow> probe_detail \<Rightarrow> probe_detail" where
  "perfetto_packet_apply_submission p d =
     (if pi_io_multiple p
      then d\<lparr>pd_io_multiple := True, pd_io_start_ts := 0, pd_syscall_start_ts := 0, pd_io_tid := 0, pd_io_tgid := 0, pd_io_role := 0\<rparr>
      else if pi_io_start_ts p = 0 then d
      else let d1 = (if pd_io_start_ts d \<noteq> pi_io_start_ts p \<or> pd_io_tid d \<noteq> ucast (pi_io_task p) \<or>
                        ucast (pd_io_tgid d) \<noteq> drop_bit 32 (pi_io_task p)
                     then d\<lparr>pd_io_role := 4\<rparr> else d) in
        d1\<lparr>pd_io_start_ts := pi_io_start_ts p, pd_syscall_start_ts := pi_syscall_start_ts p,
           pd_io_tid := ucast (pi_io_task p), pd_io_tgid := ucast (drop_bit 32 (pi_io_task p))\<rparr>)"

text \<open>The guard on configuration and probe kind, then the call of the current thread and the packet instance.\<close>

definition perfetto_record_submission ::
    "bpf_args \<Rightarrow> bool \<Rightarrow> gen_outcome \<Rightarrow> u64 \<Rightarrow> u32 \<Rightarrow> u64 \<Rightarrow> bool \<Rightarrow> u64 \<Rightarrow> u64 \<Rightarrow> probe_func \<Rightarrow> probe_state \<Rightarrow> probe_state" where
  "perfetto_record_submission args arrays oc head refs task is_return skb sk func st =
     (if \<not> ba_ready args \<or> \<not> ba_perfetto args \<or> is_return \<or> skb = 0 then st
      else if func \<notin> {INDEX_tcp_skb_entail, INDEX_skb_entail, INDEX_udp_send_skb, INDEX_udp_v6_send_skb} then st
      else case ps_io st task of
        None \<Rightarrow> st
      | Some io \<Rightarrow>
          if \<not> io_tx io \<or> (sk \<noteq> 0 \<and> io_socket_key io \<noteq> sk) then st
          else case perfetto_packet_generation arrays oc head refs skb False False st of
            (g, st1) \<Rightarrow>
              if g = 0 then st1
              else case ps_packets st1 skb of
                None \<Rightarrow> st1
              | Some p \<Rightarrow> st1\<lparr>ps_packets := (ps_packets st1)(skb \<mapsto> perfetto_packet_remember_submission io task p)\<rparr>)"

text \<open>The call of the current thread, as far as it explains this event.\<close>

definition record_call :: "u64 \<Rightarrow> u64 \<Rightarrow> u64 \<Rightarrow> probe_func \<Rightarrow> perfetto_io \<Rightarrow> probe_detail \<Rightarrow> probe_detail" where
  "record_call task sk_key skb_key func io d =
     (let copy = perfetto_rx_copy func;
          release = (func = INDEX_skb_consume_udp \<and> \<not> io_tx io \<and> io_socket_key io = sk_key);
          tx = (io_tx io \<and> pd_direction d = PACKET_DIRECTION_TX \<and> pd_owner_socket_key d = io_socket_key io) in
      if skb_key = 0 \<or> copy \<or> release \<or> tx
      then d\<lparr>pd_io_start_ts := io_start_ts io, pd_syscall_start_ts := io_syscall_start_ts io, pd_io_tid := ucast task,
             pd_io_tgid := ucast (drop_bit 32 task),
             pd_io_role := (if skb_key \<noteq> 0 then if copy then 2 else if release then 3 else 1 else 0)\<rparr>
      else d)"

text \<open>A sent packet carries the submission stored for its instance, if the socket agrees.\<close>

definition apply_stored :: "packet_instance option \<Rightarrow> probe_detail \<Rightarrow> probe_detail" where
  "apply_stored packet d =
     (if pd_direction d = PACKET_DIRECTION_TX
      then (case packet of
              Some p \<Rightarrow>
                if pi_generation p = pd_key_generation d \<and>
                   (pd_owner_socket_key d = 0 \<or>
                    (pi_io_socket_key p = pd_owner_socket_key d \<and> pi_io_generation p = pd_owner_socket_generation d))
                then perfetto_packet_apply_submission p d else d
            | None \<Rightarrow> d)
      else d)"

definition perfetto_record_identity ::
    "bool \<Rightarrow> gen_outcome \<Rightarrow> u64 outcome \<Rightarrow> gen_outcome \<Rightarrow> u64 \<Rightarrow> u32 \<Rightarrow> u64 \<Rightarrow> u64 \<Rightarrow> u64 \<Rightarrow> probe_func \<Rightarrow> u8 \<Rightarrow> bool \<Rightarrow>
     probe_detail \<Rightarrow> probe_state \<Rightarrow> probe_detail \<times> probe_state" where
  "perfetto_record_identity arrays ocg oci ocp head refs task sk_key skb_key func func_status is_return d st =
     (if skb_key \<noteq> 0 \<and> \<not> transport_supported (pd_proto_l4 d)
      then (case perfetto_packet_generation arrays ocp head refs skb_key (func_is_free func_status) False st of
              (g, st1) \<Rightarrow> (d\<lparr>pd_key_generation := g\<rparr>, st1))
      else let st1 = (if perfetto_socket_io func \<and> \<not> is_return
                      then perfetto_io_enter arrays ocg oci task sk_key (pd_ts d) func func_status st else st);
               d1 = (case ps_io st1 task of Some io \<Rightarrow> record_call task sk_key skb_key func io d | None \<Rightarrow> d);
               (d2, st2) =
                 (if skb_key \<noteq> 0
                  then (case perfetto_packet_generation arrays ocp head refs skb_key (func_is_free func_status)
                               (func = INDEX_skb_consume_udp) st1 of
                          (g, st2) \<Rightarrow> (apply_stored (ps_packets st2 skb_key) (d1\<lparr>pd_key_generation := g\<rparr>), st2))
                  else (d1, st1)) in
           (d2, if is_return then perfetto_io_exit task func st2 else st2))"

section \<open>Generations tell instances apart\<close>

text \<open>
  The processors run \<open>perfetto_packet_generation\<close> side by side, each access a step of its own.  Between the
  steps of one, \<open>gs_cpu\<close> holds what it works on and how far it is: it will add, has added, has read the
  counter, or has written the map (with the outcome, which is bad also when there was no counter).  The
  history is kept beside the state: \<open>gs_log\<close> is what was returned, and a call remembers how long the log was when
  it began; \<open>gs_shared\<close> are the addresses that two processors were ever at work on at the same time.
\<close>

record packet_obs =
  ob_arrays :: bool
  ob_outcome :: "u64 outcome"
  ob_head :: u64
  ob_refs :: u32
  ob_key :: u64
  ob_release :: bool
  ob_consume :: bool

datatype gen_pc = Adding | Added | Counted u32 | Written bool

record gen_return =
  gr_obs :: packet_obs
  gr_before :: nat
  gr_new :: bool
  gr_ok :: bool
  gr_packet :: "packet_instance option"
  gr_generation :: u32

record gen_sys =
  gs_probe :: probe_state
  gs_cpu :: "nat \<Rightarrow> (packet_obs \<times> nat \<times> gen_pc) option"
  gs_log :: "gen_return list"
  gs_shared :: "u64 set"

definition gen_start :: gen_sys where
  "gen_start = \<lparr>gs_probe = probe_start, gs_cpu = Map.empty, gs_log = [], gs_shared = {}\<rparr>"

text \<open>The address at which a processor begins is shared if another one is at work on it.\<close>

definition gen_enter :: "u64 \<Rightarrow> gen_sys \<Rightarrow> gen_sys" where
  "gen_enter key s =
     (if \<exists>c ob b pc. gs_cpu s c = Some (ob, b, pc) \<and> ob_key ob = key then s\<lparr>gs_shared := insert key (gs_shared s)\<rparr> else s)"

text \<open>The end of a call: its result is logged.\<close>

definition gen_end :: "nat \<Rightarrow> packet_obs \<Rightarrow> nat \<Rightarrow> bool \<Rightarrow> bool \<Rightarrow> gen_sys \<Rightarrow> gen_sys" where
  "gen_end c ob before new ok s =
     (case packet_finish (ob_refs ob) (ob_key ob) (ob_release ob) (ob_consume ob) (gs_probe s) of
        (g, st) \<Rightarrow> s\<lparr>gs_probe := st, gs_cpu := (gs_cpu s)(c := None),
          gs_log := gs_log s @ [\<lparr>gr_obs = ob, gr_before = before, gr_new = new, gr_ok = ok,
             gr_packet = ps_packets (gs_probe s) (ob_key ob), gr_generation = g\<rparr>]\<rparr>)"

definition gen_goto :: "nat \<Rightarrow> packet_obs \<Rightarrow> nat \<Rightarrow> gen_pc \<Rightarrow> probe_state \<Rightarrow> gen_sys \<Rightarrow> gen_sys" where
  "gen_goto c ob before pc st s = s\<lparr>gs_probe := st, gs_cpu := (gs_cpu s)(c \<mapsto> (ob, before, pc))\<rparr>"

inductive gen_step :: "gen_sys \<Rightarrow> gen_sys \<Rightarrow> bool" where
  hit: "gs_cpu s c = None \<Longrightarrow> \<not> packet_stale (ob_head ob) (ob_key ob) (ob_release ob) (gs_probe s) \<Longrightarrow>
    gen_step s (gen_end c ob (length (gs_log s)) False True (gen_enter (ob_key ob) s))"
| miss: "gs_cpu s c = None \<Longrightarrow> packet_stale (ob_head ob) (ob_key ob) (ob_release ob) (gs_probe s) \<Longrightarrow>
    gen_step s (gen_goto c ob (length (gs_log s)) (if ob_arrays ob then Adding else Written False) (gs_probe s) (gen_enter (ob_key ob) s))"
| add: "gs_cpu s c = Some (ob, b, Adding) \<Longrightarrow> gen_step s (gen_goto c ob b Added (packet_counter_add 1 (gs_probe s)) s)"
| count: "gs_cpu s c = Some (ob, b, Added) \<Longrightarrow>
    gen_step s (gen_goto c ob b (Counted (ps_packet_counter (gs_probe s))) (gs_probe s) s)"
| store: "gs_cpu s c = Some (ob, b, Counted g) \<Longrightarrow>
    gen_step s (gen_goto c ob b (Written (oc_accept (ob_outcome ob))) (packet_store (ob_outcome ob) (ob_head ob) (ob_key ob) g (gs_probe s)) s)"
| finish: "gs_cpu s c = Some (ob, b, Written ok) \<Longrightarrow> gen_step s (gen_end c ob b True ok s)"

text \<open>The states reached in a number of steps.\<close>

inductive gen_reach :: "nat \<Rightarrow> gen_sys \<Rightarrow> bool" where
  start: "gen_reach 0 gen_start"
| step: "gen_reach n s \<Longrightarrow> gen_step s t \<Longrightarrow> gen_reach (Suc n) t"

text \<open>A processor that is never interrupted does what the function does in one piece.\<close>

definition gen_call :: "nat \<Rightarrow> packet_obs \<Rightarrow> gen_sys \<Rightarrow> gen_sys" where
  "gen_call c ob s =
     (let n = length (gs_log s); st = packet_counter_add 1 (gs_probe s) in
      gen_end c ob n True (oc_accept (ob_outcome ob))
        (gen_goto c ob n (Written (oc_accept (ob_outcome ob)))
           (packet_store (ob_outcome ob) (ob_head ob) (ob_key ob) (ps_packet_counter st) st) (gen_enter (ob_key ob) s)))"

lemma goto_goto [simp]: "gen_goto c ob b pc st (gen_goto c ob' b' pc' st' s) = gen_goto c ob b pc st s"
  by (simp add: gen_goto_def)

lemma goto_sel:
  "gs_cpu (gen_goto c ob b pc st s) c = Some (ob, b, pc)" "gs_probe (gen_goto c ob b pc st s) = st"
  by (simp_all add: gen_goto_def)

lemma reach_call:
  assumes "gen_reach n s" and "gs_cpu s c = None" and "packet_stale (ob_head ob) (ob_key ob) (ob_release ob) (gs_probe s)" and "ob_arrays ob"
  shows "gen_reach (n + 5) (gen_call c ob s)"
proof -
  let ?n = "length (gs_log s)" and ?e = "gen_enter (ob_key ob) s" and ?a = "packet_counter_add 1 (gs_probe s)"
  let ?w = "packet_store (ob_outcome ob) (ob_head ob) (ob_key ob) (ps_packet_counter ?a) ?a"
  have "gen_step s (gen_goto c ob ?n Adding (gs_probe s) ?e)"
    using gen_step.miss [of s c ob] assms(2-4) by simp
  moreover have "gen_step (gen_goto c ob ?n Adding (gs_probe s) ?e) (gen_goto c ob ?n Added ?a ?e)"
    using gen_step.add [OF goto_sel(1), of c ob ?n "gs_probe s" ?e] by (simp add: goto_sel)
  moreover have "gen_step (gen_goto c ob ?n Added ?a ?e) (gen_goto c ob ?n (Counted (ps_packet_counter ?a)) ?a ?e)"
    using gen_step.count [OF goto_sel(1), of c ob ?n ?a ?e] by (simp add: goto_sel)
  moreover have "gen_step (gen_goto c ob ?n (Counted (ps_packet_counter ?a)) ?a ?e) (gen_goto c ob ?n (Written (oc_accept (ob_outcome ob))) ?w ?e)"
    using gen_step.store [OF goto_sel(1), of c ob ?n "ps_packet_counter ?a" ?a ?e] by (simp add: goto_sel)
  moreover have "gen_step (gen_goto c ob ?n (Written (oc_accept (ob_outcome ob))) ?w ?e) (gen_call c ob s)"
    using gen_step.finish [OF goto_sel(1), of c ob ?n "oc_accept (ob_outcome ob)" ?w ?e] by (simp add: gen_call_def Let_def)
  ultimately have "gen_reach (Suc (Suc (Suc (Suc (Suc n))))) (gen_call c ob s)"
    using assms(1) by (meson gen_reach.step)
  then show ?thesis
    by (simp add: numeral_eq_Suc)
qed

lemma gen_call_result:
  assumes "go_added oc = 0" and "ob_outcome ob = go_update oc" and "packet_stale (ob_head ob) (ob_key ob) (ob_release ob) (gs_probe s)"
    and "ob_arrays ob"
  shows "(gr_generation (last (gs_log (gen_call c ob s))), gs_probe (gen_call c ob s)) =
     perfetto_packet_generation (ob_arrays ob) oc (ob_head ob) (ob_refs ob) (ob_key ob) (ob_release ob) (ob_consume ob) (gs_probe s)"
  using assms
  by (simp add: gen_call_def gen_end_def goto_sel perfetto_packet_generation_def packet_counter_add_def Let_def split: prod.splits)

lemma hit_result:
  assumes "\<not> packet_stale (ob_head ob) (ob_key ob) (ob_release ob) (gs_probe s)"
  shows "(gr_generation (last (gs_log (gen_end c ob b new ok s))), gs_probe (gen_end c ob b new ok s)) =
     perfetto_packet_generation (ob_arrays ob) oc (ob_head ob) (ob_refs ob) (ob_key ob) (ob_release ob) (ob_consume ob) (gs_probe s)"
  using assms by (simp add: gen_end_def perfetto_packet_generation_def split: prod.splits)

section \<open>What the processors keep\<close>

text \<open>The observation ends its instance: a release, or the last reference consumed.\<close>

definition ends_instance :: "packet_obs \<Rightarrow> bool" where
  "ends_instance ob \<longleftrightarrow> ob_release ob \<or> (ob_consume ob \<and> ob_refs ob = 1)"

text \<open>The generations returned before the call of a processor began.\<close>

definition above :: "gen_sys \<Rightarrow> nat \<Rightarrow> u32 \<Rightarrow> bool" where
  "above s b g \<longleftrightarrow> (\<forall>q \<in> set (take b (gs_log s)). gr_generation q < g)"

text \<open>The counter bounds every generation there is.\<close>

definition gen_bounded :: "nat \<Rightarrow> gen_sys \<Rightarrow> bool" where
  "gen_bounded n s \<longleftrightarrow> unat (ps_packet_counter (gs_probe s)) \<le> n \<and>
     (\<forall>k p. ps_packets (gs_probe s) k = Some p \<longrightarrow> pi_generation p \<le> ps_packet_counter (gs_probe s)) \<and>
     (\<forall>q \<in> set (gs_log s). gr_generation q \<le> ps_packet_counter (gs_probe s) \<and> gr_before q \<le> length (gs_log s)) \<and>
     (\<forall>c ob b pc. gs_cpu s c = Some (ob, b, pc) \<longrightarrow> b \<le> length (gs_log s) \<and>
        (pc = Added \<longrightarrow> above s b (ps_packet_counter (gs_probe s))) \<and>
        (\<forall>g. pc = Counted g \<longrightarrow> above s b g \<and> g \<le> ps_packet_counter (gs_probe s)))"

text \<open>At an address that was never shared, one processor works at a time and finds what it wrote.\<close>

definition gen_private :: "gen_sys \<Rightarrow> bool" where
  "gen_private s \<longleftrightarrow>
     (\<forall>c d ob ob' b b' pc pc'. gs_cpu s c = Some (ob, b, pc) \<longrightarrow> gs_cpu s d = Some (ob', b', pc') \<longrightarrow> ob_key ob = ob_key ob' \<longrightarrow>
        ob_key ob \<notin> gs_shared s \<longrightarrow> c = d) \<and>
     (\<forall>c ob b pc. gs_cpu s c = Some (ob, b, pc) \<longrightarrow> ob_key ob \<notin> gs_shared s \<longrightarrow>
        (\<forall>q \<in> set (drop b (gs_log s)). ob_key (gr_obs q) \<noteq> ob_key ob)) \<and>
     (\<forall>c ob b. gs_cpu s c = Some (ob, b, Written True) \<longrightarrow> ob_key ob \<notin> gs_shared s \<longrightarrow>
        (\<forall>p. ps_packets (gs_probe s) (ob_key ob) = Some p \<longrightarrow> p = fresh_packet (ob_head ob) (pi_generation p) \<and> above s b (pi_generation p))) \<and>
     (\<forall>q \<in> set (gs_log s). ends_instance (gr_obs q) \<longrightarrow> gr_packet q \<noteq> None \<longrightarrow> ob_key (gr_obs q) \<notin> gs_shared s \<longrightarrow>
        (\<forall>p. ps_packets (gs_probe s) (ob_key (gr_obs q)) = Some p \<longrightarrow> pi_generation p = gr_generation q \<longrightarrow> pi_released p))"

text \<open>What was returned for such an address.\<close>

definition return_ok :: "gen_sys \<Rightarrow> gen_return \<Rightarrow> bool" where
  "return_ok s r \<longleftrightarrow>
     (\<forall>p. gr_packet r = Some p \<longrightarrow> gr_generation r = pi_generation p) \<and> (gr_packet r = None \<longrightarrow> gr_generation r = 0) \<and>
     (gr_ok r \<longrightarrow> ob_key (gr_obs r) \<notin> gs_shared s \<longrightarrow> (\<forall>p. gr_packet r = Some p \<longrightarrow>
        pi_head p = ob_head (gr_obs r) \<and>
        (gr_new r \<longrightarrow> p = fresh_packet (ob_head (gr_obs r)) (gr_generation r) \<and> above s (gr_before r) (gr_generation r)) \<and>
        (\<not> ob_release (gr_obs r) \<longrightarrow> (\<forall>q \<in> set (take (gr_before r) (gs_log s)). ends_instance (gr_obs q) \<longrightarrow> gr_packet q \<noteq> None \<longrightarrow>
           ob_key (gr_obs q) = ob_key (gr_obs r) \<longrightarrow> gr_generation q \<noteq> gr_generation r))))"

definition gen_inv :: "nat \<Rightarrow> gen_sys \<Rightarrow> bool" where
  "gen_inv n s \<longleftrightarrow> gen_bounded n s \<and> gen_private s \<and> (\<forall>r \<in> set (gs_log s). return_ok s r)"

lemma unat_plus_one_32: "unat w < 2 ^ 32 - 1 \<Longrightarrow> unat (w + 1) = Suc (unat w)" for w :: u32
  by (simp add: unat_word_ariths)

lemma gen_enter_frame [simp]:
  "gs_probe (gen_enter k s) = gs_probe s" "gs_cpu (gen_enter k s) = gs_cpu s" "gs_log (gen_enter k s) = gs_log s"
  "gs_shared s \<subseteq> gs_shared (gen_enter k s)" "above (gen_enter k s) = above s"
  by (auto simp: gen_enter_def above_def [abs_def])

lemma gen_private_dest:
  assumes "gen_private s"
  shows "\<And>c d ob ob' b b' pc pc'. gs_cpu s c = Some (ob, b, pc) \<Longrightarrow> gs_cpu s d = Some (ob', b', pc') \<Longrightarrow> ob_key ob = ob_key ob' \<Longrightarrow>
        ob_key ob \<notin> gs_shared s \<Longrightarrow> c = d"
    and "\<And>c ob b pc q. gs_cpu s c = Some (ob, b, pc) \<Longrightarrow> ob_key ob \<notin> gs_shared s \<Longrightarrow> q \<in> set (drop b (gs_log s)) \<Longrightarrow> ob_key (gr_obs q) \<noteq> ob_key ob"
    and "\<And>c ob b p. gs_cpu s c = Some (ob, b, Written True) \<Longrightarrow> ob_key ob \<notin> gs_shared s \<Longrightarrow> ps_packets (gs_probe s) (ob_key ob) = Some p \<Longrightarrow>
        p = fresh_packet (ob_head ob) (pi_generation p) \<and> above s b (pi_generation p)"
    and "\<And>q p. q \<in> set (gs_log s) \<Longrightarrow> ends_instance (gr_obs q) \<Longrightarrow> gr_packet q \<noteq> None \<Longrightarrow> ob_key (gr_obs q) \<notin> gs_shared s \<Longrightarrow>
        ps_packets (gs_probe s) (ob_key (gr_obs q)) = Some p \<Longrightarrow> pi_generation p = gr_generation q \<Longrightarrow> pi_released p"
  using assms unfolding gen_private_def by blast+

lemma gen_privateI:
  assumes "\<And>c d ob ob' b b' pc pc'. gs_cpu s c = Some (ob, b, pc) \<Longrightarrow> gs_cpu s d = Some (ob', b', pc') \<Longrightarrow> ob_key ob = ob_key ob' \<Longrightarrow>
        ob_key ob \<notin> gs_shared s \<Longrightarrow> c = d"
    and "\<And>c ob b pc q. gs_cpu s c = Some (ob, b, pc) \<Longrightarrow> ob_key ob \<notin> gs_shared s \<Longrightarrow> q \<in> set (drop b (gs_log s)) \<Longrightarrow> ob_key (gr_obs q) \<noteq> ob_key ob"
    and "\<And>c ob b p. gs_cpu s c = Some (ob, b, Written True) \<Longrightarrow> ob_key ob \<notin> gs_shared s \<Longrightarrow> ps_packets (gs_probe s) (ob_key ob) = Some p \<Longrightarrow>
        p = fresh_packet (ob_head ob) (pi_generation p) \<and> above s b (pi_generation p)"
    and "\<And>q p. q \<in> set (gs_log s) \<Longrightarrow> ends_instance (gr_obs q) \<Longrightarrow> gr_packet q \<noteq> None \<Longrightarrow> ob_key (gr_obs q) \<notin> gs_shared s \<Longrightarrow>
        ps_packets (gs_probe s) (ob_key (gr_obs q)) = Some p \<Longrightarrow> pi_generation p = gr_generation q \<Longrightarrow> pi_released p"
  shows "gen_private s"
  unfolding gen_private_def using assms(1) assms(2) assms(3) assms(4) by (intro conjI allI ballI impI) blast+

lemma gen_inv_enter: "gen_inv n s \<Longrightarrow> gen_inv n (gen_enter k s)"
proof -
  assume i: "gen_inv n s"
  have sub: "x \<in> gs_shared s \<Longrightarrow> x \<in> gs_shared (gen_enter k s)" for x
    using gen_enter_frame(4) by blast
  have "gen_bounded n (gen_enter k s)"
    using i by (simp add: gen_inv_def gen_bounded_def)
  moreover have "gen_private (gen_enter k s)"
  proof (rule gen_privateI, unfold gen_enter_frame)
    note g = gen_private_dest [of s]
    have p: "gen_private s"
      using i by (simp add: gen_inv_def)
    show "c = d" if "gs_cpu s c = Some (ob, b, pc)" "gs_cpu s d = Some (ob', b', pc')" "ob_key ob = ob_key ob'"
        "ob_key ob \<notin> gs_shared (gen_enter k s)" for c d ob ob' b b' pc pc'
      using g(1) [OF p that(1,2,3)] that(4) sub by blast
    show "ob_key (gr_obs q) \<noteq> ob_key ob" if "gs_cpu s c = Some (ob, b, pc)" "ob_key ob \<notin> gs_shared (gen_enter k s)"
        "q \<in> set (drop b (gs_log s))" for c ob b pc q
      using g(2) [OF p that(1) _ that(3)] that(2) sub by blast
    show "v = fresh_packet (ob_head ob) (pi_generation v) \<and> above s b (pi_generation v)"
      if "gs_cpu s c = Some (ob, b, Written True)" "ob_key ob \<notin> gs_shared (gen_enter k s)" "ps_packets (gs_probe s) (ob_key ob) = Some v" for c ob b v
      using g(3) [OF p that(1) _ that(3)] that(2) sub by blast
    show "pi_released v" if "q \<in> set (gs_log s)" "ends_instance (gr_obs q)" "gr_packet q \<noteq> None" "ob_key (gr_obs q) \<notin> gs_shared (gen_enter k s)"
        "ps_packets (gs_probe s) (ob_key (gr_obs q)) = Some v" "pi_generation v = gr_generation q" for q v
      using g(4) [OF p that(1,2,3) _ that(5,6)] that(4) sub by blast
  qed
  moreover have "return_ok (gen_enter k s) r" if "return_ok s r" for r
    using that sub unfolding return_ok_def gen_enter_frame by meson
  ultimately show ?thesis
    using i by (simp add: gen_inv_def)
qed

text \<open>After entering, no other processor is at work on the address unless it is shared.\<close>

lemma gen_enter_shared: "gs_cpu s d = Some (ob, b, pc) \<Longrightarrow> ob_key ob = k \<Longrightarrow> k \<in> gs_shared (gen_enter k s)"
  by (auto simp: gen_enter_def)

lemma goto_frame [simp]:
  "gs_probe (gen_goto c ob b pc st s) = st" "gs_cpu (gen_goto c ob b pc st s) = (gs_cpu s)(c \<mapsto> (ob, b, pc))"
  "gs_log (gen_goto c ob b pc st s) = gs_log s" "gs_shared (gen_goto c ob b pc st s) = gs_shared s"
  "above (gen_goto c ob b pc st s) = above s"
  by (simp_all add: gen_goto_def above_def [abs_def])

lemma goto_return [simp]: "return_ok (gen_goto c ob b pc st s) = return_ok s"
  by (simp add: return_ok_def [abs_def])

text \<open>A step that only moves one processor on.\<close>

lemma goto_private:
  assumes "gen_private s" and "ps_packets st = ps_packets (gs_probe s)" and "pc \<noteq> Written True"
    and "(\<exists>pc'. gs_cpu s c = Some (ob, b, pc')) \<or> (b = length (gs_log s) \<and>
      (\<forall>d ob' b' pc'. gs_cpu s d = Some (ob', b', pc') \<longrightarrow> ob_key ob' = ob_key ob \<longrightarrow> ob_key ob \<in> gs_shared s))"
  shows "gen_private (gen_goto c ob b pc st s)"
proof -
  note g = gen_private_dest [OF assms(1)]
  have one: "d = e" if "((gs_cpu s)(c \<mapsto> (ob, b, pc))) d = Some (ob1, b1, pc1)" "((gs_cpu s)(c \<mapsto> (ob, b, pc))) e = Some (ob2, b2, pc2)"
      "ob_key ob1 = ob_key ob2" "ob_key ob1 \<notin> gs_shared s" for d e ob1 ob2 b1 b2 pc1 pc2
    using that assms(4) g(1) by (fastforce split: if_splits)
  have late: "ob_key (gr_obs q) \<noteq> ob_key ob1" if "((gs_cpu s)(c \<mapsto> (ob, b, pc))) d = Some (ob1, b1, pc1)" "ob_key ob1 \<notin> gs_shared s"
      "q \<in> set (drop b1 (gs_log s))" for d ob1 b1 pc1 q
    using that assms(4) g(2) by (fastforce split: if_splits)
  have wrote: "p = fresh_packet (ob_head ob1) (pi_generation p) \<and> above s b1 (pi_generation p)"
    if "((gs_cpu s)(c \<mapsto> (ob, b, pc))) d = Some (ob1, b1, Written True)" "ob_key ob1 \<notin> gs_shared s"
      "ps_packets st (ob_key ob1) = Some p" for d ob1 b1 p
    using that assms(2,3) g(3) by (auto split: if_splits)
  show ?thesis
    by (rule gen_privateI, unfold goto_frame) (rule one late wrote g(4); (assumption | simp add: assms(2)))+
qed

lemma store_private:
  assumes "gen_private s" and "gen_bounded n s" and "gs_cpu s c = Some (ob, b, Counted g)"
  shows "gen_private (gen_goto c ob b (Written (oc_accept (ob_outcome ob)))
     (packet_store (ob_outcome ob) (ob_head ob) (ob_key ob) g (gs_probe s)) s)"
proof -
  note p = gen_private_dest [OF assms(1)]
  let ?m = "ps_packets (gs_probe s)"
  define m where "m = snd (map_update (ob_outcome ob) (ob_key ob) (fresh_packet (ob_head ob) g) ?m)"
  have other: "?m k = Some v" if "m k = Some v" "k \<noteq> ob_key ob" for k v
    using that by (auto simp: m_def dest: lru.stored_cases)
  have own: "(oc_accept (ob_outcome ob) \<longrightarrow> v = fresh_packet (ob_head ob) g) \<and> (v = fresh_packet (ob_head ob) g \<or> ?m (ob_key ob) = Some v)"
    if "m (ob_key ob) = Some v" for v
    using that by (auto simp: m_def map_update_def Let_def split: if_splits)
  have g: "above s b g"
    using assms(2,3) unfolding gen_bounded_def by blast
  have same: "d = c" if "gs_cpu s d = Some (ob1, b1, pc1)" "ob_key ob1 = ob_key ob" "ob_key ob \<notin> gs_shared s" for d ob1 b1 pc1
    using p(1) [OF that(1) assms(3) that(2)] that by simp
  have one: "d = e" if "((gs_cpu s)(c \<mapsto> (ob, b, pc))) d = Some (ob1, b1, pc1)" "((gs_cpu s)(c \<mapsto> (ob, b, pc))) e = Some (ob2, b2, pc2)"
      "ob_key ob1 = ob_key ob2" "ob_key ob1 \<notin> gs_shared s" for d e ob1 ob2 b1 b2 pc pc1 pc2
    using that assms(3) p(1) by (fastforce split: if_splits)
  have late: "ob_key (gr_obs q) \<noteq> ob_key ob1" if "((gs_cpu s)(c \<mapsto> (ob, b, pc))) d = Some (ob1, b1, pc1)" "ob_key ob1 \<notin> gs_shared s"
      "q \<in> set (drop b1 (gs_log s))" for d ob1 b1 pc pc1 q
    using that assms(3) p(2) by (fastforce split: if_splits)
  have wrote: "v = fresh_packet (ob_head ob1) (pi_generation v) \<and> above s b1 (pi_generation v)"
    if "((gs_cpu s)(c \<mapsto> (ob, b, Written (oc_accept (ob_outcome ob))))) d = Some (ob1, b1, Written True)" "ob_key ob1 \<notin> gs_shared s"
      "m (ob_key ob1) = Some v" for d ob1 b1 v
  proof (cases "d = c")
    case True
    then show ?thesis
      using that own g by (auto simp: fresh_packet_def)
  next
    case False
    then have "ob_key ob1 \<noteq> ob_key ob"
      using same that(1,2) by auto
    then show ?thesis
      using p(3) [of d ob1 b1 v] False that other by simp
  qed
  have rel: "pi_released v" if q: "q \<in> set (gs_log s)" "ends_instance (gr_obs q)" "gr_packet q \<noteq> None" "ob_key (gr_obs q) \<notin> gs_shared s"
      "m (ob_key (gr_obs q)) = Some v" "pi_generation v = gr_generation q" for q v
  proof (cases "ob_key (gr_obs q) = ob_key ob \<and> v = fresh_packet (ob_head ob) g")
    case True
    then have "q \<notin> set (drop b (gs_log s))"
      using p(2) [OF assms(3)] q(4) by metis
    then have "q \<in> set (take b (gs_log s))"
      using q(1) by (metis Un_iff append_take_drop_id set_append)
    then show ?thesis
      using g True q(6) by (auto simp: above_def fresh_packet_def)
  next
    case False
    then have "?m (ob_key (gr_obs q)) = Some v"
      using q(5) other own by metis
    then show ?thesis
      using p(4) q by blast
  qed
  have ps: "ps_packets (packet_store (ob_outcome ob) (ob_head ob) (ob_key ob) g (gs_probe s)) = m"
    by (simp add: packet_store_def m_def)
  show ?thesis
    by (rule gen_privateI, unfold goto_frame ps) (rule one late wrote rel; assumption)+
qed

text \<open>The end of a call.\<close>

definition logged :: "packet_obs \<Rightarrow> nat \<Rightarrow> bool \<Rightarrow> bool \<Rightarrow> gen_sys \<Rightarrow> gen_return" where
  "logged ob b new ok s = \<lparr>gr_obs = ob, gr_before = b, gr_new = new, gr_ok = ok, gr_packet = ps_packets (gs_probe s) (ob_key ob),
     gr_generation = (case ps_packets (gs_probe s) (ob_key ob) of None \<Rightarrow> 0 | Some p \<Rightarrow> pi_generation p)\<rparr>"

lemma end_frame:
  "gs_cpu (gen_end c ob b new ok s) = (gs_cpu s)(c := None)" "gs_shared (gen_end c ob b new ok s) = gs_shared s"
  "gs_log (gen_end c ob b new ok s) = gs_log s @ [logged ob b new ok s]"
  "ps_packet_counter (gs_probe (gen_end c ob b new ok s)) = ps_packet_counter (gs_probe s)"
  "ps_packets (gs_probe (gen_end c ob b new ok s)) =
     (if ends_instance ob then (ps_packets (gs_probe s))(ob_key ob := map_option (\<lambda>p. p\<lparr>pi_released := True\<rparr>) (ps_packets (gs_probe s) (ob_key ob)))
      else ps_packets (gs_probe s))"
  by (auto simp: gen_end_def packet_finish_def logged_def ends_instance_def fun_upd_idem split: option.splits)

lemma above_log: "b \<le> length (gs_log s) \<Longrightarrow> gs_log t = gs_log s @ xs \<Longrightarrow> above t b = above s b"
  by (rule ext) (simp add: above_def)

lemma above_end [simp]: "b' \<le> length (gs_log s) \<Longrightarrow> above (gen_end c ob b new ok s) b' = above s b'"
  by (rule above_log [OF _ end_frame(3)])

lemma end_private:
  assumes "gen_private s" and "gen_bounded n s"
    and alone: "\<And>d ob' b' pc'. gs_cpu s d = Some (ob', b', pc') \<Longrightarrow> d \<noteq> c \<Longrightarrow> ob_key ob' = ob_key ob \<Longrightarrow> ob_key ob \<in> gs_shared s"
  shows "gen_private (gen_end c ob b new ok s)"
proof -
  note p = gen_private_dest [OF assms(1)]
  let ?t = "gen_end c ob b new ok s"
  have cpu: "gs_cpu s d = Some x \<and> d \<noteq> c" if "gs_cpu ?t d = Some x" for d x
    using that by (simp add: end_frame split: if_splits)
  have len: "b' \<le> length (gs_log s)" if "gs_cpu s d = Some (ob', b', pc')" for d ob' b' pc'
    using assms(2) that unfolding gen_bounded_def by blast
  have pk: "ps_packets (gs_probe s) k = Some v \<or> (k = ob_key ob \<and> ends_instance ob \<and> pi_released v \<and>
      (\<exists>u. ps_packets (gs_probe s) k = Some u \<and> pi_generation u = pi_generation v))"
    if "ps_packets (gs_probe ?t) k = Some v" for k v
    using that by (auto simp: end_frame split: if_splits)
  show ?thesis
  proof (rule gen_privateI)
    show "d = e" if "gs_cpu ?t d = Some (ob1, b1, pc1)" "gs_cpu ?t e = Some (ob2, b2, pc2)" "ob_key ob1 = ob_key ob2"
        "ob_key ob1 \<notin> gs_shared ?t" for d e ob1 ob2 b1 b2 pc1 pc2
      using p(1) [OF cpu [OF that(1), THEN conjunct1] cpu [OF that(2), THEN conjunct1] that(3)] that(4) by (simp add: end_frame)
  next
    fix d ob1 b1 pc1 q
    assume a: "gs_cpu ?t d = Some (ob1, b1, pc1)" "ob_key ob1 \<notin> gs_shared ?t" "q \<in> set (drop b1 (gs_log ?t))"
    note d = cpu [OF a(1)]
    have "q \<in> set (drop b1 (gs_log s)) \<or> q = logged ob b new ok s"
      using a(3) len [OF d [THEN conjunct1]] by (auto simp: end_frame)
    then show "ob_key (gr_obs q) \<noteq> ob_key ob1"
    proof
      assume "q \<in> set (drop b1 (gs_log s))"
      then show ?thesis
        using p(2) [OF d [THEN conjunct1]] a(2) by (simp add: end_frame)
    next
      assume "q = logged ob b new ok s"
      then show ?thesis
        using alone [OF d [THEN conjunct1] d [THEN conjunct2]] a(2) by (auto simp: logged_def end_frame)
    qed
  next
    fix d ob1 b1 v
    assume a: "gs_cpu ?t d = Some (ob1, b1, Written True)" "ob_key ob1 \<notin> gs_shared ?t" "ps_packets (gs_probe ?t) (ob_key ob1) = Some v"
    note d = cpu [OF a(1)]
    have "ob_key ob1 \<noteq> ob_key ob"
      using alone [OF d [THEN conjunct1] d [THEN conjunct2]] a(2) by (auto simp: end_frame)
    then have "ps_packets (gs_probe s) (ob_key ob1) = Some v"
      using pk [OF a(3)] by auto
    then show "v = fresh_packet (ob_head ob1) (pi_generation v) \<and> above ?t b1 (pi_generation v)"
      using p(3) [OF d [THEN conjunct1]] a(2) len [OF d [THEN conjunct1]] by (simp add: end_frame(2))
  next
    fix q v
    assume a: "q \<in> set (gs_log ?t)" "ends_instance (gr_obs q)" "gr_packet q \<noteq> None" "ob_key (gr_obs q) \<notin> gs_shared ?t"
      "ps_packets (gs_probe ?t) (ob_key (gr_obs q)) = Some v" "pi_generation v = gr_generation q"
    consider "pi_released v" | "ps_packets (gs_probe s) (ob_key (gr_obs q)) = Some v" "q \<in> set (gs_log s)"
      | "q = logged ob b new ok s"
      using pk [OF a(5)] a(1) by (auto simp: end_frame)
    then show "pi_released v"
    proof cases
      case 2
      then show ?thesis
        using p(4) [OF 2(2) a(2,3) _ 2(1) a(6)] a(4) by (simp add: end_frame)
    next
      case 3
      then show ?thesis
        using a(2,5) by (auto simp: logged_def end_frame split: if_splits)
    qed
  qed
qed

lemma end_bounded:
  assumes "gen_bounded n s" and "b \<le> length (gs_log s)"
  shows "gen_bounded n (gen_end c ob b new ok s)"
proof -
  have "pi_generation v \<le> ps_packet_counter (gs_probe s)" if "ps_packets (gs_probe (gen_end c ob b new ok s)) k = Some v" for k v
    using that assms(1) by (auto simp: end_frame gen_bounded_def split: if_splits)
  moreover have "gr_generation (logged ob b new ok s) \<le> ps_packet_counter (gs_probe s)"
    using assms(1) by (auto simp: logged_def gen_bounded_def split: option.splits)
  moreover have "gr_before (logged ob b new ok s) \<le> Suc (length (gs_log s))"
    using assms(2) by (simp add: logged_def)
  moreover have "b' \<le> length (gs_log s)" if "gs_cpu s d = Some (ob', b', pc')" for d ob' b' pc'
    using assms(1) that unfolding gen_bounded_def by blast
  ultimately show ?thesis
    using assms(1) unfolding gen_bounded_def end_frame(1,3,4) by (auto intro: le_SucI split: if_splits)
qed

lemma old_return:
  assumes "return_ok s r" and "gr_before r \<le> length (gs_log s)"
  shows "return_ok (gen_end c ob b new ok s) r"
proof -
  have t: "take (gr_before r) (gs_log (gen_end c ob b new ok s)) = take (gr_before r) (gs_log s)"
    using assms(2) by (simp add: end_frame)
  show ?thesis
    using assms(1) unfolding return_ok_def above_def t end_frame(2) .
qed

lemma end_inv:
  assumes i: "gen_inv n s" and "b \<le> length (gs_log s)" and "return_ok (gen_end c ob b new ok s) (logged ob b new ok s)"
    and alone: "\<And>d ob' b' pc'. gs_cpu s d = Some (ob', b', pc') \<Longrightarrow> d \<noteq> c \<Longrightarrow> ob_key ob' = ob_key ob \<Longrightarrow> ob_key ob \<in> gs_shared s"
  shows "gen_inv n (gen_end c ob b new ok s)"
proof -
  have s: "gen_bounded n s" "gen_private s" "\<And>r. r \<in> set (gs_log s) \<Longrightarrow> return_ok s r \<and> gr_before r \<le> length (gs_log s)"
    using i by (auto simp: gen_inv_def gen_bounded_def)
  have "return_ok (gen_end c ob b new ok s) r" if "r \<in> set (gs_log (gen_end c ob b new ok s))" for r
    using that assms(3) old_return s(3) by (auto simp: end_frame)
  then show ?thesis
    using end_bounded [OF s(1) assms(2)] end_private [OF s(2,1) alone] by (simp add: gen_inv_def)
qed

section \<open>Every step keeps it\<close>

lemma hit_inv:
  assumes i: "gen_inv n s" and "gs_cpu s c = None" and hit: "\<not> packet_stale (ob_head ob) (ob_key ob) (ob_release ob) (gs_probe s)"
  shows "gen_inv n (gen_end c ob (length (gs_log s)) False True (gen_enter (ob_key ob) s))"
proof -
  let ?e = "gen_enter (ob_key ob) s"
  let ?t = "gen_end c ob (length (gs_log s)) False True ?e"
  have e: "gen_inv n ?e"
    using gen_inv_enter [OF i] .
  obtain p where p: "ps_packets (gs_probe s) (ob_key ob) = Some p" "pi_head p = ob_head ob" "pi_released p \<longrightarrow> ob_release ob"
    using hit by (auto simp: packet_stale_def split: option.splits)
  have "gr_generation q \<noteq> pi_generation p"
    if "\<not> ob_release ob" "q \<in> set (gs_log s)" "ends_instance (gr_obs q)" "gr_packet q \<noteq> None" "ob_key (gr_obs q) = ob_key ob"
      "ob_key ob \<notin> gs_shared ?e" for q
    using gen_private_dest(4) [of ?e q p] e p that by (auto simp: gen_inv_def)
  then have "return_ok ?t (logged ob (length (gs_log s)) False True ?e)"
    using p by (auto simp: return_ok_def logged_def end_frame)
  moreover have "ob_key ob \<in> gs_shared ?e" if "gs_cpu ?e d = Some (ob', b', pc')" "ob_key ob' = ob_key ob" for d ob' b' pc'
    using gen_enter_shared [of s d ob' b' pc'] that by simp
  ultimately show ?thesis
    using end_inv [OF e] by simp
qed

lemma finish_inv:
  assumes i: "gen_inv n s" and c: "gs_cpu s c = Some (ob, b, Written ok)"
  shows "gen_inv n (gen_end c ob b True ok s)"
proof -
  let ?t = "gen_end c ob b True ok s"
  have b: "b \<le> length (gs_log s)"
    using i c unfolding gen_inv_def gen_bounded_def by blast
  have p: "gen_private s"
    using i by (simp add: gen_inv_def)
  have w: "v = fresh_packet (ob_head ob) (pi_generation v) \<and> above s b (pi_generation v)"
    if "ok" "ob_key ob \<notin> gs_shared s" "ps_packets (gs_probe s) (ob_key ob) = Some v" for v
    using gen_private_dest(3) [OF p _ that(2,3)] c that(1) by simp
  have head: "pi_head v = ob_head ob" if "v = fresh_packet (ob_head ob) (pi_generation v)" for v
    by (subst that) (simp add: fresh_packet_def)
  define r where "r = logged ob b True ok s"
  have r: "gr_obs r = ob" "gr_before r = b" "gr_ok r = ok" "gr_packet r = ps_packets (gs_probe s) (ob_key ob)"
      "gr_generation r = (case ps_packets (gs_probe s) (ob_key ob) of None \<Rightarrow> 0 | Some p \<Rightarrow> pi_generation p)"
    by (simp_all add: r_def logged_def)
  have "return_ok ?t r"
  proof (cases "ps_packets (gs_probe s) (ob_key ob)")
    case None
    then show ?thesis
      by (simp add: return_ok_def r)
  next
    case (Some v)
    then have g: "gr_generation r = pi_generation v"
      by (simp add: r)
    have "pi_head v = ob_head ob \<and> v = fresh_packet (ob_head ob) (pi_generation v) \<and> above ?t b (pi_generation v) \<and>
        (\<forall>q \<in> set (take b (gs_log ?t)). gr_generation q \<noteq> pi_generation v)"
      if "ok" "ob_key ob \<notin> gs_shared s"
    proof -
      have "above s b (pi_generation v)"
        using w [OF that Some] by (rule conjunct2)
      moreover have "\<forall>q \<in> set (take b (gs_log ?t)). gr_generation q \<noteq> pi_generation v"
        using calculation b by (auto simp: above_def end_frame)
      moreover have "v = fresh_packet (ob_head ob) (pi_generation v)"
        using w [OF that Some] by (rule conjunct1)
      ultimately show ?thesis
        using head above_end [OF b] by metis
    qed
    then show ?thesis
      unfolding return_ok_def r(1-4) Some g end_frame(2) option.inject by blast
  qed
  then have "return_ok ?t (logged ob b True ok s)"
    by (simp only: r_def)
  moreover have "ob_key ob \<in> gs_shared s" if "gs_cpu s d = Some (ob', b', pc')" "d \<noteq> c" "ob_key ob' = ob_key ob" for d ob' b' pc'
    using gen_private_dest(1) [OF p that(1) c that(3)] that(2,3) by auto
  ultimately show ?thesis
    using end_inv [OF i b] by blast
qed

lemma goto_inv:
  assumes i: "gen_inv n s" and "ps_packets st = ps_packets (gs_probe s)" and "ps_packet_counter (gs_probe s) \<le> ps_packet_counter st"
    and "unat (ps_packet_counter st) \<le> m" and "pc \<noteq> Written True" and b: "b \<le> length (gs_log s)"
    and "pc = Added \<longrightarrow> above s b (ps_packet_counter st)" and "\<And>g. pc = Counted g \<Longrightarrow> above s b g \<and> g \<le> ps_packet_counter st"
    and "(\<exists>pc'. gs_cpu s c = Some (ob, b, pc')) \<or> (b = length (gs_log s) \<and>
      (\<forall>d ob' b' pc'. gs_cpu s d = Some (ob', b', pc') \<longrightarrow> ob_key ob' = ob_key ob \<longrightarrow> ob_key ob \<in> gs_shared s))"
  shows "gen_inv m (gen_goto c ob b pc st s)"
proof -
  have s: "gen_bounded n s" "gen_private s" "\<forall>r \<in> set (gs_log s). return_ok s r"
    using i by (auto simp: gen_inv_def)
  have le: "x \<le> ps_packet_counter (gs_probe s) \<Longrightarrow> x \<le> ps_packet_counter st" for x
    using assms(3) by (rule order_trans [rotated])
  have up: "above s b' (ps_packet_counter (gs_probe s)) \<Longrightarrow> above s b' (ps_packet_counter st)" for b'
    using assms(3) by (auto simp: above_def intro: less_le_trans)
  have "gen_bounded m (gen_goto c ob b pc st s)"
    using s(1) assms(2,4-8) unfolding gen_bounded_def goto_frame by (auto intro: le up split: if_splits)
  then show ?thesis
    using goto_private [OF s(2) assms(2,5,9)] s(3) by (simp add: gen_inv_def)
qed

lemma store_inv:
  assumes i: "gen_inv n s" and c: "gs_cpu s c = Some (ob, b, Counted g)"
  shows "gen_inv n (gen_goto c ob b (Written (oc_accept (ob_outcome ob))) (packet_store (ob_outcome ob) (ob_head ob) (ob_key ob) g (gs_probe s)) s)"
proof -
  have s: "gen_bounded n s" "gen_private s" "\<forall>r \<in> set (gs_log s). return_ok s r"
    using i by (auto simp: gen_inv_def)
  let ?st = "packet_store (ob_outcome ob) (ob_head ob) (ob_key ob) g (gs_probe s)"
  have g: "g \<le> ps_packet_counter (gs_probe s)" "b \<le> length (gs_log s)"
    using s(1) c unfolding gen_bounded_def by blast+
  have "pi_generation v \<le> ps_packet_counter (gs_probe s)" if "ps_packets ?st k = Some v" for k v
    using that s(1) g by (auto simp: packet_store_def gen_bounded_def fresh_packet_def dest!: lru.stored_cases)
  moreover have "ps_packet_counter ?st = ps_packet_counter (gs_probe s)"
    by (simp add: packet_store_def)
  ultimately have "gen_bounded n (gen_goto c ob b (Written (oc_accept (ob_outcome ob))) ?st s)"
    using s(1) g unfolding gen_bounded_def goto_frame by (auto split: if_splits)
  then show ?thesis
    using store_private [OF s(2,1) c] s(3) by (simp add: gen_inv_def)
qed

lemma step_inv:
  assumes "gen_step s t" and i: "gen_inv n s" and n: "n < 2 ^ 32 - 1"
  shows "gen_inv (Suc n) t"
proof -
  have mono: "gen_inv n u \<Longrightarrow> gen_inv (Suc n) u" for u
    by (auto simp: gen_inv_def gen_bounded_def)
  have bd: "unat (ps_packet_counter (gs_probe s)) \<le> n"
    and cb: "\<And>c ob b pc. gs_cpu s c = Some (ob, b, pc) \<Longrightarrow> b \<le> length (gs_log s) \<and>
        (pc = Added \<longrightarrow> above s b (ps_packet_counter (gs_probe s)))"
    and lb: "\<And>q. q \<in> set (gs_log s) \<Longrightarrow> gr_generation q \<le> ps_packet_counter (gs_probe s)"
    using i by (auto simp: gen_inv_def gen_bounded_def)
  from assms(1) show ?thesis
  proof cases
    case (hit c ob)
    then show ?thesis
      using mono [OF hit_inv [OF i hit(2,3)]] by simp
  next
    case (miss c ob)
    have e: "gen_inv n (gen_enter (ob_key ob) s)"
      using gen_inv_enter [OF i] .
    show ?thesis
      unfolding miss(1) by (rule goto_inv [OF e]) (use bd gen_enter_shared in \<open>auto split: if_splits\<close>)
  next
    case (add c ob b)
    have c: "unat (ps_packet_counter (gs_probe s) + 1) = Suc (unat (ps_packet_counter (gs_probe s)))"
      using bd n by (intro unat_plus_one_32) simp
    have lt: "ps_packet_counter (gs_probe s) < ps_packet_counter (gs_probe s) + 1"
      using c by (simp add: word_less_nat_alt)
    then have "above s b (ps_packet_counter (gs_probe s) + 1)"
      using lb set_take_subset unfolding above_def by (metis le_less_trans subsetD)
    then show ?thesis
      unfolding add(1) using cb [OF add(2)] add(2) lt c bd by (intro goto_inv [OF i]) (auto simp: packet_counter_add_def)
  next
    case (count c ob b)
    then show ?thesis
      unfolding count(1) using cb [OF count(2)] bd by (intro goto_inv [OF i]) auto
  next
    case (store c ob b g)
    then show ?thesis
      using mono [OF store_inv [OF i store(2)]] by simp
  next
    case (finish c ob b ok)
    then show ?thesis
      using mono [OF finish_inv [OF i finish(2)]] by simp
  qed
qed

lemma reach_inv: "gen_reach n s \<Longrightarrow> n < 2 ^ 32 \<Longrightarrow> gen_inv n s"
proof (induction rule: gen_reach.induct)
  case start
  then show ?case
    by (simp add: gen_inv_def gen_bounded_def gen_private_def gen_start_def probe_start_def)
next
  case (step n s t)
  then show ?case
    by (intro step_inv [OF step.hyps(2)]) auto
qed


definition observe_demo :: "u64 \<Rightarrow> bool \<Rightarrow> packet_obs" where
  "observe_demo head release = \<lparr>ob_arrays = True, ob_outcome = \<lparr>oc_accept = True, oc_evict = []\<rparr>, ob_head = head, ob_refs = 2,
     ob_key = 16, ob_release = release, ob_consume = False\<rparr>"

text \<open>A packet is observed and released, and its address is used again with the same buffer.\<close>

definition gen_demo1 :: gen_sys where "gen_demo1 = gen_call 0 (observe_demo 5 False) gen_start"
definition gen_demo2 :: gen_sys where "gen_demo2 = gen_end 1 (observe_demo 5 True) 1 False True (gen_enter 16 gen_demo1)"
definition gen_demo3 :: gen_sys where "gen_demo3 = gen_call 0 (observe_demo 5 False) gen_demo2"

definition demo_return :: "bool \<Rightarrow> nat \<Rightarrow> bool \<Rightarrow> u32 \<Rightarrow> gen_return" where
  "demo_return release before new g = \<lparr>gr_obs = observe_demo 5 release, gr_before = before, gr_new = new, gr_ok = True,
     gr_packet = Some (fresh_packet 5 g), gr_generation = g\<rparr>"

lemma gen_demo1: "gen_demo1 = \<lparr>gs_probe = probe_start\<lparr>ps_packet_counter := 1, ps_packets := [16 \<mapsto> fresh_packet 5 1]\<rparr>,
   gs_cpu = Map.empty, gs_log = [demo_return False 0 True 1], gs_shared = {}\<rparr>"
  by (simp add: gen_demo1_def gen_call_def gen_end_def gen_goto_def gen_enter_def gen_start_def observe_demo_def packet_finish_def
      packet_store_def packet_counter_add_def map_update_def demo_return_def Let_def) (simp add: probe_start_def fresh_packet_def)

lemma gen_demo2: "gen_demo2 = \<lparr>gs_probe = probe_start\<lparr>ps_packet_counter := 1, ps_packets := [16 \<mapsto> (fresh_packet 5 1)\<lparr>pi_released := True\<rparr>]\<rparr>,
   gs_cpu = Map.empty, gs_log = [demo_return False 0 True 1, demo_return True 1 False 1], gs_shared = {}\<rparr>"
  by (simp add: gen_demo2_def gen_demo1 gen_end_def gen_enter_def observe_demo_def packet_finish_def demo_return_def)
    (simp add: fresh_packet_def)

lemma gen_demo3: "gen_demo3 = \<lparr>gs_probe = probe_start\<lparr>ps_packet_counter := 2, ps_packets := [16 \<mapsto> fresh_packet 5 2]\<rparr>,
   gs_cpu = Map.empty, gs_log = [demo_return False 0 True 1, demo_return True 1 False 1, demo_return False 2 True 2], gs_shared = {}\<rparr>"
  by (simp add: gen_demo3_def gen_demo2 gen_call_def gen_end_def gen_goto_def gen_enter_def observe_demo_def packet_finish_def
      packet_store_def packet_counter_add_def map_update_def demo_return_def Let_def) (simp add: fresh_packet_def)

lemma gen_demo_reach: "gen_reach 11 gen_demo3"
proof -
  have new: "packet_stale 5 16 False probe_start" "packet_stale 5 16 False (gs_probe gen_demo2)"
      "\<not> packet_stale 5 16 True (gs_probe gen_demo1)"
    by (simp_all add: packet_stale_def probe_start_def gen_demo1 gen_demo2 fresh_packet_def)
  have ob: "ob_head (observe_demo 5 r) = 5" "ob_key (observe_demo 5 r) = 16" "ob_release (observe_demo 5 r) = r" "ob_arrays (observe_demo 5 r)" for r
    by (simp_all add: observe_demo_def)
  have "gen_reach (0 + 5) gen_demo1"
    unfolding gen_demo1_def by (rule reach_call [OF gen_reach.start]) (use new ob in \<open>simp_all add: gen_start_def\<close>)
  moreover have "gen_step gen_demo1 gen_demo2"
    using gen_step.hit [of gen_demo1 1 "observe_demo 5 True"] new ob by (simp add: gen_demo2_def gen_demo1)
  ultimately have "gen_reach (Suc (0 + 5)) gen_demo2"
    by (rule gen_reach.step)
  then have "gen_reach (Suc (0 + 5) + 5) gen_demo3"
    unfolding gen_demo3_def by (rule reach_call) (use new ob in \<open>simp_all add: gen_demo2\<close>)
  then show ?thesis
    by (simp add: eval_nat_numeral)
qed


end
