(* ===== verification/NetworkSyscall.thy ===== *)
theory NetworkSyscall
  imports PacketIdentity
begin

text \<open>
  Network system calls (\<open>progs/core.c\<close>): the call is classified at entry, recorded per thread, bound
  to the socket by the protocol functions it reaches, and completed at exit.  Numbers and arguments
  are the raw registers; reads of user memory are an input.
\<close>

section \<open>Classification\<close>

datatype arch = X86 | ARM64 | LOONGARCH

definition network_task_abi :: "arch \<Rightarrow> u64 \<Rightarrow> u64 \<Rightarrow> u8" where
  "network_task_abi arch thread_flags nr =
     (case arch of
        ARM64 \<Rightarrow> if bit thread_flags 22 then 1 else 0
      | X86 \<Rightarrow> if nr AND 0x40000000 \<noteq> 0 then 2 else if bit thread_flags 29 then 1 else 0
      | LOONGARCH \<Rightarrow> 0)"

text \<open>The system calls of the x32 ABI, by number.\<close>

definition x32_kinds :: "(u64 \<times> syscall_kind) list" where
  "x32_kinds =
     [(0, NETWORK_SYS_READ), (1, NETWORK_SYS_WRITE), (44, NETWORK_SYS_SENDTO), (515, NETWORK_SYS_READV),
      (516, NETWORK_SYS_WRITEV), (517, NETWORK_SYS_RECVFROM), (518, NETWORK_SYS_SENDMSG), (519, NETWORK_SYS_RECVMSG),
      (537, NETWORK_SYS_RECVMMSG), (538, NETWORK_SYS_SENDMMSG)]"

definition network_call_kind :: "bpf_args \<Rightarrow> arch \<Rightarrow> u64 \<Rightarrow> u8 \<Rightarrow> syscall_kind option" where
  "network_call_kind args arch nr abi =
     (if arch = X86 \<and> abi = 2 then map_of x32_kinds (nr AND NOT 0x40000000)
      else if abi = 1 \<and> nr = 417 then Some NETWORK_SYS_RECVMMSG
      else if sint nr < 0 then None
      else map_option snd
        (find (\<lambda>(n, k). n = ucast nr) (zip (if abi = 1 then ba_compat_syscall_nr args else ba_syscall_nr args) syscall_kinds)))"

text \<open>The calls multiplexed by \<open>socketcall\<close> on 32-bit x86.\<close>

definition socketcall_kinds :: "(u64 \<times> syscall_kind) list" where
  "socketcall_kinds =
     [(9, NETWORK_SYS_SEND), (10, NETWORK_SYS_RECV), (11, NETWORK_SYS_SENDTO), (12, NETWORK_SYS_RECVFROM),
      (16, NETWORK_SYS_SENDMSG), (17, NETWORK_SYS_RECVMSG), (19, NETWORK_SYS_RECVMMSG), (20, NETWORK_SYS_SENDMMSG)]"

definition msg_kind :: "syscall_kind \<Rightarrow> bool" where
  "msg_kind k \<longleftrightarrow> k = NETWORK_SYS_SENDMSG \<or> k = NETWORK_SYS_RECVMSG"

text \<open>
  Kind, descriptor, third and fourth argument.  \<open>user p n\<close> reads \<open>n\<close> bytes of user memory at \<open>p\<close>;
  \<open>None\<close> ends the probe.
\<close>

definition decode_call ::
    "bpf_args \<Rightarrow> arch \<Rightarrow> (u64 \<Rightarrow> nat \<Rightarrow> bytes option) \<Rightarrow> u64 \<Rightarrow> u8 \<Rightarrow> u64 list \<Rightarrow> (syscall_kind \<times> u64 \<times> u64 \<times> u64) option" where
  "decode_call args arch user nr abi regs =
     (if arch = X86 \<and> abi = 1 \<and> nr = 102
      then (case map_of socketcall_kinds (regs ! 0) of
              None \<Rightarrow> None
            | Some kind \<Rightarrow>
                let base = ucast (ucast (regs ! 1) :: u32) :: u64 in
                (case user base 12 of
                   None \<Rightarrow> None
                 | Some w \<Rightarrow>
                     let fd = le_word (take 4 w); arg2 = le_word (take 4 (drop 8 w)) in
                     if msg_kind kind then Some (kind, fd, arg2, 0)
                     else (case user (base + 12) 4 of
                             None \<Rightarrow> None
                           | Some w3 \<Rightarrow> Some (kind, fd, arg2, le_word w3))))
      else map_option (\<lambda>kind. (kind, regs ! 0, regs ! 2, regs ! 3)) (network_call_kind args arch nr abi))"

section \<open>Entry, binding, exit\<close>

definition fill_arguments :: "syscall_kind \<Rightarrow> u8 \<Rightarrow> u64 \<Rightarrow> u64 \<Rightarrow> syscall_event \<Rightarrow> syscall_event" where
  "fill_arguments kind abi arg2 arg3 ev =
     (if kind = NETWORK_SYS_SENDMMSG \<or> kind = NETWORK_SYS_RECVMMSG
      then ev\<lparr>se_requested_messages := ucast arg2, se_flags := ucast arg3\<rparr>
      else if msg_kind kind then ev\<lparr>se_flags := ucast arg2\<rparr>
      else if kind \<noteq> NETWORK_SYS_READV \<and> kind \<noteq> NETWORK_SYS_WRITEV
      then let e1 = ev\<lparr>se_requested_bytes := (if abi = 1 then ucast (ucast arg2 :: u32) else arg2), se_requested_valid := True\<rparr> in
        if kind \<noteq> NETWORK_SYS_READ \<and> kind \<noteq> NETWORK_SYS_WRITE then e1\<lparr>se_flags := ucast arg3\<rparr> else e1
      else ev)"

definition file_kind :: "syscall_kind \<Rightarrow> bool" where
  "file_kind k \<longleftrightarrow> k \<in> {NETWORK_SYS_READ, NETWORK_SYS_WRITE, NETWORK_SYS_READV, NETWORK_SYS_WRITEV}"

definition network_sys_enter ::
    "bpf_args \<Rightarrow> arch \<Rightarrow> (u64 \<Rightarrow> nat \<Rightarrow> bytes option) \<Rightarrow> u64 \<Rightarrow> probe_env \<Rightarrow> u32 outcome \<Rightarrow> u64 outcome \<Rightarrow>
     u64 \<Rightarrow> u64 list \<Rightarrow> probe_state \<Rightarrow> probe_state" where
  "network_sys_enter args arch user thread_flags env ocw oc nr regs st =
     (let task = pe_pid_tgid env; abi = network_task_abi arch thread_flags nr in
      if \<not> ba_ready args \<or> \<not> ba_perfetto args \<or> \<not> perfetto_current_matches args (env_tid env) (env_uid env) then st
      else let st1 = perfetto_io_syscall_boundary task st;
               st2 = st1\<lparr>ps_syscalls := map_delete task (ps_syscalls st1)\<rparr> in
        case decode_call args arch user nr abi regs of
          None \<Rightarrow> st2
        | Some (kind, fd, arg2, arg3) \<Rightarrow>
            if \<not> pe_arrays env then st2
            else let e0 = zero_syscall_event\<lparr>se_kind := kind, se_syscall_nr := ucast nr, se_start_ts := pe_now env, se_ts := pe_now env\<rparr> in
              case network_wakeup_snapshot args env ocw e0 (ps_wakeups st2) of
                (e1, wm) \<Rightarrow>
                  let st3 = st2\<lparr>ps_wakeups := wm\<rparr>;
                      e2 = e1\<lparr>se_tid := env_tid env, se_tgid := env_tgid env, se_uid := env_uid env, se_fd := ucast fd,
                              se_abi := abi, se_require_socket := (ba_socket_filter args \<or> file_kind kind)\<rparr>;
                      e3 = (fill_arguments kind abi arg2 arg3 e2)\<lparr>se_task := pe_comm env\<rparr> in
                  (case map_update oc task e3 (ps_syscalls st3) of
                     (False, m) \<Rightarrow> st3\<lparr>ps_syscalls := m\<rparr>
                   | (True, m) \<Rightarrow> st3\<lparr>ps_syscalls := m, ps_log := ps_log st3 @ [e3], ps_event_count := ps_event_count st3 + 1\<rparr>))"

definition network_syscall_bind ::
    "bool \<Rightarrow> gen_outcome \<Rightarrow> u64 \<Rightarrow> bool \<Rightarrow> u64 \<Rightarrow> probe_func \<Rightarrow> u64 \<Rightarrow> probe_state \<Rightarrow> probe_state" where
  "network_syscall_bind arrays ocg task is_return sk func requested_bytes st =
     (if is_return \<or> sk = 0 \<or> \<not> perfetto_socket_io func then st
      else case ps_syscalls st task of
        None \<Rightarrow> st
      | Some ev \<Rightarrow>
          (case perfetto_socket_generation arrays ocg sk False st of
             (g, st1) \<Rightarrow>
               let e1 = ev\<lparr>se_socket_key := sk, se_socket_generation := g\<rparr>;
                   e2 = (if se_kind ev \<noteq> NETWORK_SYS_SENDMMSG \<and> se_kind ev \<noteq> NETWORK_SYS_RECVMMSG
                         then e1\<lparr>se_requested_bytes := requested_bytes, se_requested_valid := True\<rparr> else e1) in
               st1\<lparr>ps_syscalls := (ps_syscalls st1)(task \<mapsto> e2)\<rparr>))"

definition network_sys_exit :: "bpf_args \<Rightarrow> probe_env \<Rightarrow> u64 \<Rightarrow> u64 \<Rightarrow> probe_state \<Rightarrow> probe_state" where
  "network_sys_exit args env nr ret st =
     (let task = pe_pid_tgid env in
      if \<not> ba_ready args \<or> \<not> ba_perfetto args then st
      else let st1 = perfetto_io_syscall_boundary task st in
        case ps_syscalls st1 task of
          None \<Rightarrow> st1
        | Some ev \<Rightarrow>
            let st2 =
              (if ucast (se_syscall_nr ev) = nr
               then let e1 = ev\<lparr>se_ts := pe_now env,
                               se_result := (if se_abi ev \<noteq> 0 then scast (ucast ret :: u32) else ret), se_finished := True\<rparr> in
                 st1\<lparr>ps_syscalls := (ps_syscalls st1)(task \<mapsto> e1), ps_log := ps_log st1 @ [e1],
                     ps_event_count := ps_event_count st1 + 1\<rparr>
               else st1) in
            st2\<lparr>ps_syscalls := map_delete task (ps_syscalls st2)\<rparr>)"

section \<open>Runs\<close>

datatype syscall_op =
    Sys_enter arch "u64 \<Rightarrow> nat \<Rightarrow> bytes option" u64 probe_env "u32 outcome" "u64 outcome" u64 "u64 list"
  | Sys_exit probe_env u64 u64
  | Sys_bind bool gen_outcome u64 bool u64 probe_func u64
  | Sys_identity bool gen_outcome "u64 outcome" gen_outcome u64 u32 u64 u64 u64 probe_func u8 bool probe_detail
  | Sys_submission bool gen_outcome u64 u32 u64 bool u64 u64 probe_func

fun syscall_step :: "bpf_args \<Rightarrow> syscall_op \<Rightarrow> probe_state \<Rightarrow> probe_state" where
  "syscall_step args (Sys_enter arch user fl env ocw oc nr regs) st = network_sys_enter args arch user fl env ocw oc nr regs st"
| "syscall_step args (Sys_exit env nr ret) st = network_sys_exit args env nr ret st"
| "syscall_step args (Sys_bind arrays ocg task isr sk func bytes) st = network_syscall_bind arrays ocg task isr sk func bytes st"
| "syscall_step args (Sys_identity arrays ocg oci ocp head refs task sk skb func status isr d) st =
     snd (perfetto_record_identity arrays ocg oci ocp head refs task sk skb func status isr d st)"
| "syscall_step args (Sys_submission arrays oc head refs task isr skb sk func) st =
     perfetto_record_submission args arrays oc head refs task isr skb sk func st"

definition syscall_run :: "bpf_args \<Rightarrow> syscall_op list \<Rightarrow> probe_state" where
  "syscall_run args ops = fold (syscall_step args) ops probe_start"

section \<open>Pairing\<close>

text \<open>What entry fixes and nothing later changes.\<close>

definition call_core :: "syscall_event \<Rightarrow> syscall_event" where
  "call_core e = e\<lparr>se_ts := 0, se_result := 0, se_finished := False, se_socket_key := 0, se_socket_generation := 0,
     se_requested_bytes := 0, se_requested_valid := False\<rparr>"

definition thread_of :: "u64 \<Rightarrow> u32 \<times> u32" where
  "thread_of task = (ucast task, ucast (drop_bit 32 task))"

definition event_thread :: "syscall_event \<Rightarrow> u32 \<times> u32" where
  "event_thread e = (se_tid e, se_tgid e)"

definition thread_log :: "u32 \<times> u32 \<Rightarrow> syscall_event list \<Rightarrow> syscall_event list" where
  "thread_log t l = filter (\<lambda>e. event_thread e = t) l"

definition finishes_match :: "syscall_event list \<Rightarrow> bool" where
  "finishes_match l \<longleftrightarrow>
     (\<forall>i < length l. se_finished (l ! i) \<longrightarrow>
        0 < i \<and> \<not> se_finished (l ! (i - 1)) \<and> call_core (l ! (i - 1)) = call_core (l ! i))"

lemma finishes_match_snoc:
  "finishes_match (l @ [e]) \<longleftrightarrow>
     finishes_match l \<and> (se_finished e \<longrightarrow> l \<noteq> [] \<and> \<not> se_finished (last l) \<and> call_core (last l) = call_core e)"
proof
  assume a: "finishes_match (l @ [e])"
  have "finishes_match l"
    unfolding finishes_match_def
  proof (intro allI impI)
    fix i assume "i < length l" "se_finished (l ! i)"
    then show "0 < i \<and> \<not> se_finished (l ! (i - 1)) \<and> call_core (l ! (i - 1)) = call_core (l ! i)"
      using a [unfolded finishes_match_def, rule_format, of i] by (auto simp: nth_append split: if_splits)
  qed
  moreover have "l \<noteq> [] \<and> \<not> se_finished (last l) \<and> call_core (last l) = call_core e" if "se_finished e"
    using a [unfolded finishes_match_def, rule_format, of "length l"] that by (auto simp: nth_append last_conv_nth)
  ultimately show "finishes_match l \<and> (se_finished e \<longrightarrow> l \<noteq> [] \<and> \<not> se_finished (last l) \<and> call_core (last l) = call_core e)"
    by blast
next
  assume b: "finishes_match l \<and> (se_finished e \<longrightarrow> l \<noteq> [] \<and> \<not> se_finished (last l) \<and> call_core (last l) = call_core e)"
  show "finishes_match (l @ [e])"
    unfolding finishes_match_def
  proof (intro allI impI)
    fix i assume i: "i < length (l @ [e])" "se_finished ((l @ [e]) ! i)"
    show "0 < i \<and> \<not> se_finished ((l @ [e]) ! (i - 1)) \<and> call_core ((l @ [e]) ! (i - 1)) = call_core ((l @ [e]) ! i)"
    proof (cases "i < length l")
      case True
      then show ?thesis
        using i b [unfolded finishes_match_def] by (auto simp: nth_append)
    next
      case False
      then have "i = length l"
        using i by simp
      then show ?thesis
        using i b by (auto simp: nth_append last_conv_nth)
    qed
  qed
qed

lemma thread_of_inj: "thread_of a = thread_of b \<longleftrightarrow> a = b"
proof
  assume e: "thread_of a = thread_of b"
  have lo: "(ucast a :: u32) = ucast b" and hi: "(ucast (drop_bit 32 a) :: u32) = ucast (drop_bit 32 b)"
    using e by (simp_all add: thread_of_def)
  show "a = b"
  proof (rule bit_eqI)
    fix n assume "possible_bit TYPE(u64) n"
    then have n: "n < 64"
      by simp
    show "bit a n = bit b n"
    proof (cases "n < 32")
      case True
      then show ?thesis
        using arg_cong [OF lo, of "\<lambda>w. bit w n"] by (simp add: bit_simps)
    next
      case False
      then obtain k where k: "n = 32 + k"
        using nat_le_iff_add not_less by blast
      then show ?thesis
        using n arg_cong [OF hi, of "\<lambda>w. bit w k"] by (simp add: bit_simps)
    qed
  qed
qed simp

text \<open>A pending call is the last event of its thread, and the active protocol call belongs to it.\<close>

definition pending_ok :: "probe_state \<Rightarrow> u64 \<Rightarrow> syscall_event \<Rightarrow> bool" where
  "pending_ok st k ev \<longleftrightarrow>
     event_thread ev = thread_of k \<and> \<not> se_finished ev \<and> thread_log (thread_of k) (ps_log st) \<noteq> [] \<and>
     \<not> se_finished (last (thread_log (thread_of k) (ps_log st))) \<and>
     call_core (last (thread_log (thread_of k) (ps_log st))) = call_core ev"

definition syscall_inv :: "probe_state \<Rightarrow> bool" where
  [inv_defs]: "syscall_inv st \<longleftrightarrow>
     (\<forall>t. finishes_match (thread_log t (ps_log st))) \<and>
     (\<forall>k ev. ps_syscalls st k = Some ev \<longrightarrow> pending_ok st k ev) \<and>
     (\<forall>k io ev. ps_io st k = Some io \<longrightarrow> ps_syscalls st k = Some ev \<longrightarrow> io_syscall_start_ts io = se_start_ts ev) \<and>
     ps_event_count st = of_nat (length (ps_log st))"

lemma inv_match: "syscall_inv st \<Longrightarrow> finishes_match (thread_log t (ps_log st))"
  unfolding syscall_inv_def by blast

text \<open>Steps that only touch other maps.\<close>

lemma generation_frame:
  "ps_syscalls (snd (perfetto_socket_generation a oc sk c st)) = ps_syscalls st"
  "ps_io (snd (perfetto_socket_generation a oc sk c st)) = ps_io st"
  "ps_log (snd (perfetto_socket_generation a oc sk c st)) = ps_log st"
  "ps_event_count (snd (perfetto_socket_generation a oc sk c st)) = ps_event_count st"
  by (auto simp: perfetto_socket_generation_def Let_def split: option.splits)

lemma packet_generation_frame:
  "ps_syscalls (snd (perfetto_packet_generation a oc h r k rel u st)) = ps_syscalls st"
  "ps_io (snd (perfetto_packet_generation a oc h r k rel u st)) = ps_io st"
  "ps_log (snd (perfetto_packet_generation a oc h r k rel u st)) = ps_log st"
  "ps_event_count (snd (perfetto_packet_generation a oc h r k rel u st)) = ps_event_count st"
  by (auto simp: perfetto_packet_generation_def packet_finish_def packet_store_def packet_counter_add_def Let_def split: option.splits)

lemma syscall_inv_frame:
  assumes "syscall_inv st" and "ps_syscalls st' = ps_syscalls st" "ps_log st' = ps_log st" "ps_event_count st' = ps_event_count st"
    and "\<And>k io. ps_io st' k = Some io \<Longrightarrow> (\<exists>io0. ps_io st k = Some io0 \<and> io_syscall_start_ts io = io_syscall_start_ts io0) \<or>
       (\<forall>ev. ps_syscalls st k = Some ev \<longrightarrow> io_syscall_start_ts io = se_start_ts ev)"
  shows "syscall_inv st'"
proof -
  have "pending_ok st' k ev = pending_ok st k ev" for k ev
    by (simp add: pending_ok_def assms(3))
  moreover have "io_syscall_start_ts io = se_start_ts ev" if "ps_io st' k = Some io" "ps_syscalls st k = Some ev" for k io ev
    using assms(1) assms(5) [OF that(1)] that(2) unfolding syscall_inv_def by auto
  ultimately show ?thesis
    using assms(1) unfolding syscall_inv_def assms(2-4) by blast
qed

lemma io_exit_inv: "syscall_inv st \<Longrightarrow> syscall_inv (perfetto_io_exit task func st)"
  by (erule syscall_inv_frame)
    (auto simp: perfetto_io_exit_def map_delete_def split: option.splits if_splits)

lemma io_enter_inv:
  assumes "syscall_inv st"
  shows "syscall_inv (perfetto_io_enter arrays ocg oci task sk ts func status st)"
proof -
  define st' where "st' = perfetto_io_enter arrays ocg oci task sk ts func status st"
  obtain g st1 where g: "perfetto_socket_generation arrays ocg sk False st = (g, st1)"
    by fastforce
  have st1: "ps_syscalls st1 = ps_syscalls st" "ps_io st1 = ps_io st" "ps_log st1 = ps_log st" "ps_event_count st1 = ps_event_count st"
    using generation_frame [of arrays ocg sk False st] g by simp_all
  have f: "ps_syscalls st' = ps_syscalls st" "ps_log st' = ps_log st" "ps_event_count st' = ps_event_count st"
    using st1 g by (simp_all add: st'_def perfetto_io_enter_def Let_def split: option.splits)
  have "(\<exists>io0. ps_io st k = Some io0 \<and> io_syscall_start_ts io = io_syscall_start_ts io0) \<or>
       (\<forall>ev. ps_syscalls st k = Some ev \<longrightarrow> io_syscall_start_ts io = se_start_ts ev)" if "ps_io st' k = Some io" for k io
    using that g st1
    by (auto simp: st'_def perfetto_io_enter_def Let_def split: option.splits if_splits dest!: lru.stored_cases)
  then show ?thesis
    using syscall_inv_frame [OF assms f] by (simp add: st'_def)
qed

lemma packet_steps_inv:
  "syscall_inv st \<Longrightarrow> syscall_inv (snd (perfetto_packet_generation a oc h r k rel u st))"
  by (erule syscall_inv_frame) (auto simp: packet_generation_frame)

lemma submission_inv:
  assumes "syscall_inv st"
  shows "syscall_inv (perfetto_record_submission args arrays oc head refs task isr skb sk func st)"
proof -
  obtain g st1 where g: "perfetto_packet_generation arrays oc head refs skb False False st = (g, st1)"
    by fastforce
  have st1: "ps_syscalls st1 = ps_syscalls st" "ps_io st1 = ps_io st" "ps_log st1 = ps_log st" "ps_event_count st1 = ps_event_count st"
    using packet_generation_frame [of arrays oc head refs skb False False st] g by simp_all
  show ?thesis
    by (rule syscall_inv_frame [OF assms])
      (use g st1 in \<open>auto simp: perfetto_record_submission_def split: option.splits if_splits\<close>)
qed

lemma identity_inv:
  assumes "syscall_inv st"
  shows "syscall_inv (snd (perfetto_record_identity arrays ocg oci ocp head refs task sk skb func status isr d st))"
proof (cases "skb \<noteq> 0 \<and> \<not> transport_supported (pd_proto_l4 d)")
  case True
  then show ?thesis
    using packet_steps_inv [OF assms] by (auto simp: perfetto_record_identity_def split: prod.splits) (metis snd_conv)
next
  case False
  define st1 where "st1 = (if perfetto_socket_io func \<and> \<not> isr
     then perfetto_io_enter arrays ocg oci task sk (pd_ts d) func status st else st)"
  define st2 where "st2 = (if skb \<noteq> 0
     then snd (perfetto_packet_generation arrays ocp head refs skb (func_is_free status) (func = INDEX_skb_consume_udp) st1) else st1)"
  have "snd (perfetto_record_identity arrays ocg oci ocp head refs task sk skb func status isr d st) =
      (if isr then perfetto_io_exit task func st2 else st2)"
    using False unfolding perfetto_record_identity_def st2_def Let_def st1_def [symmetric] by (auto split: prod.splits)
  moreover have "syscall_inv st1"
    using assms io_enter_inv by (simp add: st1_def)
  then have "syscall_inv st2"
    using packet_steps_inv by (simp add: st2_def)
  ultimately show ?thesis
    using io_exit_inv by simp
qed

lemma thread_log_snoc: "thread_log t (l @ [e]) = (if event_thread e = t then thread_log t l @ [e] else thread_log t l)"
  by (simp add: thread_log_def)

text \<open>An event appended for a thread with no pending call left: the log stays paired.\<close>

lemma pending_other:
  "pending_ok st k ev \<Longrightarrow> event_thread e \<noteq> thread_of k \<Longrightarrow> ps_log st' = ps_log st @ [e] \<Longrightarrow> pending_ok st' k ev"
  by (simp add: pending_ok_def thread_log_snoc)

lemma fill_arguments_sel:
  "se_tid (fill_arguments k abi a2 a3 e) = se_tid e" "se_tgid (fill_arguments k abi a2 a3 e) = se_tgid e"
  "se_finished (fill_arguments k abi a2 a3 e) = se_finished e" "se_start_ts (fill_arguments k abi a2 a3 e) = se_start_ts e"
  by (simp_all add: fill_arguments_def Let_def)

lemma snapshot_sel:
  assumes "network_wakeup_snapshot args env ocw e m = (e', m')"
  shows "se_finished e' = se_finished e" "se_start_ts e' = se_start_ts e"
  using assms by (auto simp: network_wakeup_snapshot_def Let_def split: if_splits option.splits prod.splits)

lemma enter_inv:
  assumes inv: "syscall_inv st"
  shows "syscall_inv (network_sys_enter args arch user fl env ocw oc nr regs st)"
proof -
  define task where "task = pe_pid_tgid env"
  define st2 where "st2 = (perfetto_io_syscall_boundary task st)\<lparr>ps_syscalls := map_delete task (ps_syscalls st)\<rparr>"
  have st2: "ps_log st2 = ps_log st" "ps_event_count st2 = ps_event_count st" "ps_io st2 task = None" "ps_syscalls st2 task = None"
      "\<And>k. k \<noteq> task \<Longrightarrow> ps_io st2 k = ps_io st k \<and> ps_syscalls st2 k = ps_syscalls st k"
    by (simp_all add: st2_def perfetto_io_syscall_boundary_def map_delete_def)
  have gone: "syscall_inv (st2\<lparr>ps_wakeups := wm, ps_syscalls := m\<rparr>)"
    if "\<And>k ev. m k = Some ev \<Longrightarrow> k \<noteq> task \<and> ps_syscalls st k = Some ev" for wm m
  proof -
    have "pending_ok (st2\<lparr>ps_wakeups := wm, ps_syscalls := m\<rparr>) k ev" if "m k = Some ev" for k ev
      using inv \<open>\<And>k ev. m k = Some ev \<Longrightarrow> k \<noteq> task \<and> ps_syscalls st k = Some ev\<close> [OF that]
      by (auto simp: syscall_inv_def pending_ok_def st2)
    moreover have "io_syscall_start_ts io = se_start_ts ev" if "ps_io st2 k = Some io" "m k = Some ev" for k io ev
      using inv that(1) \<open>\<And>k ev. m k = Some ev \<Longrightarrow> k \<noteq> task \<and> ps_syscalls st k = Some ev\<close> [OF that(2)] st2(5) [of k]
      by (auto simp: syscall_inv_def)
    ultimately show ?thesis
      using inv by (simp add: syscall_inv_def st2(1,2))
  qed
  have new: "syscall_inv (st2\<lparr>ps_wakeups := wm, ps_syscalls := m, ps_log := ps_log st2 @ [e], ps_event_count := ps_event_count st2 + 1\<rparr>)"
    if m: "\<And>k ev. m k = Some ev \<Longrightarrow> k = task \<and> ev = e \<or> k \<noteq> task \<and> ps_syscalls st k = Some ev"
      and e: "event_thread e = thread_of task" "\<not> se_finished e" for wm m e
  proof -
    let ?st' = "st2\<lparr>ps_wakeups := wm, ps_syscalls := m, ps_log := ps_log st2 @ [e], ps_event_count := ps_event_count st2 + 1\<rparr>"
    have "finishes_match (thread_log t (ps_log ?st'))" for t
      using inv_match [OF inv, of t] e by (simp add: thread_log_snoc finishes_match_snoc st2)
    moreover have "pending_ok ?st' k ev" if "m k = Some ev" for k ev
    proof (cases "k = task")
      case True
      then have "ev = e"
        using m [OF that] by blast
      then show ?thesis
        using True e by (simp add: pending_ok_def thread_log_snoc)
    next
      case False
      then have "pending_ok st k ev"
        using m [OF that] inv by (auto simp: syscall_inv_def)
      moreover have "event_thread e \<noteq> thread_of k"
        using False e(1) thread_of_inj [of task k] by auto
      ultimately show ?thesis
        by (rule pending_other) (simp add: st2(1))
    qed
    moreover have "io_syscall_start_ts io = se_start_ts ev" if "ps_io st2 k = Some io" "m k = Some ev" for k io ev
      using inv that(1) m [OF that(2)] st2(3) st2(5) [of k] by (auto simp: syscall_inv_def)
    ultimately show ?thesis
      using inv by (simp add: syscall_inv_def st2(1,2))
  qed
  have old: "k \<noteq> task \<and> ps_syscalls st k = Some ev" if "ps_syscalls st2 k = Some ev" for k ev
    using that st2(4,5) by (metis option.distinct(1))
  have st2': "(perfetto_io_syscall_boundary task st)
      \<lparr>ps_syscalls := map_delete task (ps_syscalls (perfetto_io_syscall_boundary task st))\<rparr> = st2"
    by (simp add: st2_def perfetto_io_syscall_boundary_def)
  show ?thesis
  proof (cases "decode_call args arch user nr (network_task_abi arch fl nr) regs")
    case None
    then show ?thesis
      using inv gone [of "ps_syscalls st2" "ps_wakeups st2"] old
      unfolding network_sys_enter_def Let_def task_def [symmetric] st2' by simp
  next
    case (Some call)
    obtain kind fd arg2 arg3 where call: "call = (kind, fd, arg2, arg3)"
      by (cases call)
    define e0 where "e0 = zero_syscall_event\<lparr>se_kind := kind, se_syscall_nr := ucast nr, se_start_ts := pe_now env, se_ts := pe_now env\<rparr>"
    obtain e1 wm where snap: "network_wakeup_snapshot args env ocw e0 (ps_wakeups st2) = (e1, wm)"
      by fastforce
    define abi where "abi = network_task_abi arch fl nr"
    define e3 where "e3 = (fill_arguments kind abi arg2 arg3
      (e1\<lparr>se_tid := env_tid env, se_tgid := env_tgid env, se_uid := env_uid env, se_fd := ucast fd,
          se_abi := abi, se_require_socket := (ba_socket_filter args \<or> file_kind kind)\<rparr>))\<lparr>se_task := pe_comm env\<rparr>"
    obtain b m where upd: "map_update oc task e3 (ps_syscalls st2) = (b, m)"
      by fastforce
    have e3: "event_thread e3 = thread_of task" "\<not> se_finished e3"
      using snapshot_sel(1) [OF snap]
      by (simp_all add: e3_def event_thread_def thread_of_def fill_arguments_sel env_tid_def env_tgid_def task_def e0_def
          zero_syscall_event_def)
    have vals: "k = task \<and> ev = e3 \<or> k \<noteq> task \<and> ps_syscalls st k = Some ev" if "m k = Some ev" for k ev
      using lru.stored_cases [of oc task e3 "ps_syscalls st2" k ev] old upd that by auto
    have vals': "k \<noteq> task \<and> ps_syscalls st k = Some ev" if "m k = Some ev" "\<not> b" for k ev
      using lru.stored_cases [of oc task e3 "ps_syscalls st2" k ev] old upd that by auto
    have "network_sys_enter args arch user fl env ocw oc nr regs st =
       (if \<not> ba_ready args \<or> \<not> ba_perfetto args \<or> \<not> perfetto_current_matches args (env_tid env) (env_uid env) then st
        else if \<not> pe_arrays env then st2
        else if b then st2\<lparr>ps_wakeups := wm, ps_syscalls := m, ps_log := ps_log st2 @ [e3], ps_event_count := ps_event_count st2 + 1\<rparr>
        else st2\<lparr>ps_wakeups := wm, ps_syscalls := m\<rparr>)"
      using Some call snap [unfolded e0_def] upd [unfolded e3_def]
      unfolding network_sys_enter_def Let_def task_def [symmetric] st2' abi_def [symmetric] e3_def
      by (cases b) simp_all
    then show ?thesis
      using inv gone [of "ps_syscalls st2" "ps_wakeups st2"] old new [of m e3 wm] vals e3 gone [of m wm] vals' by simp
  qed
qed

lemma bind_inv:
  assumes inv: "syscall_inv st"
  shows "syscall_inv (network_syscall_bind arrays ocg task isr sk func bytes st)"
proof (cases "isr \<or> sk = 0 \<or> \<not> perfetto_socket_io func \<or> ps_syscalls st task = None")
  case True
  then show ?thesis
    using inv by (auto simp: network_syscall_bind_def)
next
  case False
  then obtain ev where ev: "ps_syscalls st task = Some ev"
    by auto
  obtain g st1 where g: "perfetto_socket_generation arrays ocg sk False st = (g, st1)"
    by fastforce
  have st1: "ps_syscalls st1 = ps_syscalls st" "ps_io st1 = ps_io st" "ps_log st1 = ps_log st" "ps_event_count st1 = ps_event_count st"
    using generation_frame [of arrays ocg sk False st] g by simp_all
  define e2 where "e2 = (let e1 = ev\<lparr>se_socket_key := sk, se_socket_generation := g\<rparr> in
     if se_kind ev \<noteq> NETWORK_SYS_SENDMMSG \<and> se_kind ev \<noteq> NETWORK_SYS_RECVMMSG
     then e1\<lparr>se_requested_bytes := bytes, se_requested_valid := True\<rparr> else e1)"
  have e2: "call_core e2 = call_core ev" "event_thread e2 = event_thread ev" "se_finished e2 = se_finished ev" "se_start_ts e2 = se_start_ts ev"
    by (simp_all add: e2_def Let_def call_core_def event_thread_def)
  have eq: "network_syscall_bind arrays ocg task isr sk func bytes st = st1\<lparr>ps_syscalls := (ps_syscalls st)(task \<mapsto> e2)\<rparr>"
    using False ev g st1 by (simp add: network_syscall_bind_def e2_def Let_def)
  have "pending_ok (st1\<lparr>ps_syscalls := (ps_syscalls st)(task \<mapsto> e2)\<rparr>) k v" if "((ps_syscalls st)(task \<mapsto> e2)) k = Some v" for k v
    using inv that ev e2 by (auto simp: syscall_inv_def pending_ok_def st1 split: if_splits)
  moreover have "io_syscall_start_ts io = se_start_ts v" if "ps_io st k = Some io" "((ps_syscalls st)(task \<mapsto> e2)) k = Some v" for k io v
    using inv that ev e2 by (auto simp: syscall_inv_def split: if_splits)
  ultimately show ?thesis
    using inv unfolding eq by (simp add: syscall_inv_def st1)
qed

lemma exit_inv:
  assumes inv: "syscall_inv st"
  shows "syscall_inv (network_sys_exit args env nr ret st)"
proof -
  define task where "task = pe_pid_tgid env"
  define st1 where "st1 = perfetto_io_syscall_boundary task st"
  have st1: "ps_log st1 = ps_log st" "ps_event_count st1 = ps_event_count st" "ps_syscalls st1 = ps_syscalls st"
      "\<And>k io. ps_io st1 k = Some io \<Longrightarrow> ps_io st k = Some io"
    by (simp_all add: st1_def perfetto_io_syscall_boundary_def map_delete_def split: if_splits)
  have inv1: "syscall_inv st1"
    by (rule syscall_inv_frame [OF inv]) (use st1 in auto)
  show ?thesis
  proof (cases "\<not> ba_ready args \<or> \<not> ba_perfetto args \<or> ps_syscalls st task = None")
    case True
    then show ?thesis
      using inv inv1 st1(3) by (auto simp: network_sys_exit_def task_def [symmetric] st1_def [symmetric] Let_def)
  next
    case False
    then obtain ev where ev: "ps_syscalls st task = Some ev"
      by auto
    define e1 where "e1 = ev\<lparr>se_ts := pe_now env,
      se_result := (if se_abi ev \<noteq> 0 then scast (ucast ret :: u32) else ret), se_finished := True\<rparr>"
    have p: "pending_ok st task ev"
      using inv ev by (simp add: syscall_inv_def)
    have e1: "event_thread e1 = thread_of task" "call_core e1 = call_core ev"
      using p by (simp_all add: e1_def event_thread_def pending_ok_def call_core_def)
    have eq: "network_sys_exit args env nr ret st =
        (if ucast (se_syscall_nr ev) = nr
         then st1\<lparr>ps_syscalls := map_delete task (ps_syscalls st), ps_log := ps_log st @ [e1], ps_event_count := ps_event_count st + 1\<rparr>
         else st1\<lparr>ps_syscalls := map_delete task (ps_syscalls st)\<rparr>)"
      using False ev st1
      by (simp add: network_sys_exit_def task_def [symmetric] st1_def [symmetric] Let_def e1_def map_delete_def)
    have keep: "pending_ok st' k v" if "map_delete task (ps_syscalls st) k = Some v" "ps_log st' = ps_log st \<or> ps_log st' = ps_log st @ [e1]" for st' k v
    proof -
      have k: "k \<noteq> task" "pending_ok st k v"
        using that(1) inv by (auto simp: map_delete_def syscall_inv_def split: if_splits)
      show ?thesis
        using that(2) k e1(1) pending_other [of st k v e1 st'] by (auto simp: pending_ok_def thread_of_inj)
    qed
    have io: "io_syscall_start_ts io = se_start_ts v" if "ps_io st1 k = Some io" "map_delete task (ps_syscalls st) k = Some v" for k io v
      using that inv st1(4) [OF that(1)] by (auto simp: map_delete_def syscall_inv_def split: if_splits)
    have "finishes_match (thread_log t (ps_log st @ [e1]))" for t
      using inv_match [OF inv, of t] p e1 by (auto simp: thread_log_snoc finishes_match_snoc pending_ok_def)
    then show ?thesis
      unfolding eq using inv io keep by (simp add: syscall_inv_def st1)
  qed
qed

lemma syscall_run_inv: "syscall_inv (syscall_run args ops)"
proof (induction ops rule: rev_induct)
  case Nil
  then show ?case
    by (simp add: syscall_run_def syscall_inv_def probe_start_def thread_log_def finishes_match_def)
next
  case (snoc op ops)
  have "syscall_run args (ops @ [op]) = syscall_step args op (syscall_run args ops)"
    by (simp add: syscall_run_def)
  then show ?case
    using snoc enter_inv exit_inv bind_inv identity_inv submission_inv by (cases op) simp_all
qed

text \<open>
  C24. System calls are reported in pairs.  After any sequence of probes, whatever the kernel does
  with map updates and evictions, each completed call in the event stream is directly preceded, among
  the events of its thread, by the start of the same call: same kind, number, start time, thread,
  descriptor, flags and scheduler evidence, so a call is completed at most once and never with
  another call's data.  A protocol call that is active in a thread with a pending system call is
  attributed to exactly that call, and the event counter counts the events.
\<close>

theorem network_syscall_paired:
  "finishes_match (thread_log t (ps_log (syscall_run args ops))) \<and>
   (ps_io (syscall_run args ops) k = Some io \<and> ps_syscalls (syscall_run args ops) k = Some ev \<longrightarrow>
      io_syscall_start_ts io = se_start_ts ev \<and> event_thread ev = thread_of k) \<and>
   ps_event_count (syscall_run args ops) = of_nat (length (ps_log (syscall_run args ops)))"
  using syscall_run_inv [of args ops] unfolding syscall_inv_def pending_ok_def by blast

definition syscall_demo_args :: bpf_args where
  "syscall_demo_args = wakeup_demo_args\<lparr>ba_syscall_nr := [44, 45, 46, 47, 307, 299, 0, 1, 19, 20, 0xffffffff, 0xffffffff]\<rparr>"

definition syscall_demo_env :: "u64 \<Rightarrow> probe_env" where
  "syscall_demo_env now = wakeup_demo_env 0x500000007 100 now"

definition syscall_demo_oc :: "u64 outcome" where
  "syscall_demo_oc = \<lparr>oc_accept = True, oc_evict = []\<rparr>"

definition syscall_demo_gen :: gen_outcome where
  "syscall_demo_gen = \<lparr>go_update = syscall_demo_oc, go_added = 0, go_added_again = 0, go_raced = None\<rparr>"

definition syscall_demo_detail :: probe_detail where
  "syscall_demo_detail = \<lparr>pd_key_generation = 0, pd_ts = 1100, pd_netns = 0, pd_proto_l4 = 6, pd_owner_tid = 0, pd_owner_tgid = 0,
     pd_owner_uid = 0, pd_owner_socket_key = 0, pd_owner_socket_generation = 0, pd_direction = 1, pd_owner_valid = False,
     pd_owner_pending = False, pd_owner_evidence = 0, pd_io_start_ts = 0, pd_syscall_start_ts = 0, pd_io_tid = 0, pd_io_tgid = 0,
     pd_io_role = 0, pd_io_multiple = False\<rparr>"

definition syscall_demo :: "syscall_op list" where
  "syscall_demo =
     [Sys_enter X86 (\<lambda>_ _. None) 0 (syscall_demo_env 900) wakeup_demo_oc syscall_demo_oc 44 [3, 0, 10, 0],
      Sys_exit (syscall_demo_env 950) 44 10,
      Sys_enter X86 (\<lambda>_ _. None) 0 (syscall_demo_env 1000) wakeup_demo_oc syscall_demo_oc 44 [3, 0, 20, 0],
      Sys_bind True syscall_demo_gen 0x500000007 False 0x900 INDEX_tcp_sendmsg 20,
      Sys_identity True syscall_demo_gen syscall_demo_oc syscall_demo_gen 0 0 0x500000007 0x900 0 INDEX_tcp_sendmsg 128 False syscall_demo_detail]"

theorem network_syscall_paired_witness:
  "io_syscall_start_ts (the (ps_io (syscall_run syscall_demo_args syscall_demo) 0x500000007)) = 1000 \<and>
   map se_finished (thread_log (7, 5) (ps_log (syscall_run syscall_demo_args syscall_demo))) = [False, True, False]"
proof -
  have i: "ps_io (syscall_run syscall_demo_args syscall_demo) 0x500000007 =
      Some (the (ps_io (syscall_run syscall_demo_args syscall_demo) 0x500000007))"
    by code_simp
  have s: "ps_syscalls (syscall_run syscall_demo_args syscall_demo) 0x500000007 =
      Some (the (ps_syscalls (syscall_run syscall_demo_args syscall_demo) 0x500000007))"
    by code_simp
  have t: "se_start_ts (the (ps_syscalls (syscall_run syscall_demo_args syscall_demo) 0x500000007)) = 1000"
    by code_simp
  have l: "map se_finished (thread_log (7, 5) (ps_log (syscall_run syscall_demo_args syscall_demo))) = [False, True, False]"
    by code_simp
  show ?thesis
    using network_syscall_paired [of "(7, 5)" syscall_demo_args syscall_demo] i s t l by metis
qed

end
