(* ===== verification/PacketOwner.thy ===== *)
theory PacketOwner
  imports PacketIdentity
begin

text \<open>
  Owners of packets (\<open>progs/core.c\<close>): the socket a packet belongs to, the task that owns the socket,
  the cache of flow owners, and the filters that decide whether an event is reported.  Fields read
  from kernel objects are inputs.
\<close>

section \<open>Packets and flows\<close>

text \<open>The parsed headers; addresses are the bytes of the union, four for IPv4.\<close>

record packet_hdr =
  ph_proto_l3 :: u16
  ph_proto_l4 :: u8
  ph_saddr :: bytes
  ph_daddr :: bytes
  ph_sport :: u16
  ph_dport :: u16

definition ETHERTYPE_IPV6 :: u16 where "ETHERTYPE_IPV6 = 0x86dd"
definition PROTO_ICMP :: u8 where "PROTO_ICMP = 1"
definition PROTO_ICMPV6 :: u8 where "PROTO_ICMPV6 = 58"

text \<open>Port 53 in network byte order on a little-endian machine.\<close>

definition DNS_PORT_BE :: u16 where "DNS_PORT_BE = 0x3500"

definition perfetto_packet_supported :: "u8 \<Rightarrow> bool" where
  "perfetto_packet_supported proto_l4 \<longleftrightarrow>
     proto_l4 = PROTO_TCP \<or> proto_l4 = PROTO_UDP \<or> proto_l4 = PROTO_ICMP \<or> proto_l4 = PROTO_ICMPV6"

definition perfetto_packet_is_dns :: "packet_hdr \<Rightarrow> bool" where
  "perfetto_packet_is_dns h \<longleftrightarrow> ph_proto_l4 h = PROTO_UDP \<and> (ph_sport h = DNS_PORT_BE \<or> ph_dport h = DNS_PORT_BE)"

definition key_address :: "u16 \<Rightarrow> bytes \<Rightarrow> bytes" where
  "key_address proto_l3 a = (if proto_l3 = ETHERTYPE_IPV6 then take 16 a else take 4 a @ replicate 12 0)"

definition make_flow_key :: "packet_hdr \<Rightarrow> u32 \<Rightarrow> perfetto_flow_key" where
  "make_flow_key h netns =
     \<lparr>pf_saddr = key_address (ph_proto_l3 h) (ph_saddr h), pf_daddr = key_address (ph_proto_l3 h) (ph_daddr h),
      pf_sport = ph_sport h, pf_dport = ph_dport h, pf_proto_l3 = ph_proto_l3 h, pf_proto_l4 = ph_proto_l4 h, pf_netns = netns\<rparr>"

definition swap_flow_key :: "perfetto_flow_key \<Rightarrow> perfetto_flow_key" where
  "swap_flow_key k = k\<lparr>pf_saddr := pf_daddr k, pf_daddr := pf_saddr k, pf_sport := pf_dport k, pf_dport := pf_sport k\<rparr>"

definition perfetto_lookup_flow :: "packet_hdr \<Rightarrow> u32 \<Rightarrow> probe_state \<Rightarrow> perfetto_flow_owner option" where
  "perfetto_lookup_flow h netns st =
     (if \<not> transport_supported (ph_proto_l4 h) then None
      else case ps_flow st (make_flow_key h netns) of
        None \<Rightarrow> None
      | Some flow \<Rightarrow>
          if ow_socket_key (fo_owner flow) = 0 then None
          else case ps_owner st (ow_socket_key (fo_owner flow)) of
            None \<Rightarrow> None
          | Some owner \<Rightarrow> if ow_generation owner \<noteq> ow_generation (fo_owner flow) then None else Some flow)"

definition opposite :: "u8 \<Rightarrow> u8" where
  "opposite d = (if d = PACKET_DIRECTION_TX then PACKET_DIRECTION_RX else PACKET_DIRECTION_TX)"

definition perfetto_store_flow ::
    "perfetto_flow_key outcome \<Rightarrow> perfetto_flow_key outcome \<Rightarrow> packet_hdr \<Rightarrow> perfetto_owner \<Rightarrow> u8 \<Rightarrow> u32 \<Rightarrow> probe_state \<Rightarrow> probe_state" where
  "perfetto_store_flow oc1 oc2 h owner direction netns st =
     (if direction = 0 \<or> \<not> transport_supported (ph_proto_l4 h) then st
      else let key = make_flow_key h netns;
               m1 = snd (map_update oc1 key \<lparr>fo_owner = owner, fo_direction = direction\<rparr> (ps_flow st));
               m2 = snd (map_update oc2 (swap_flow_key key) \<lparr>fo_owner = owner, fo_direction = opposite direction\<rparr> m1) in
        st\<lparr>ps_flow := m2\<rparr>)"

definition perfetto_store_socket_owner :: "u64 outcome \<Rightarrow> u64 \<Rightarrow> perfetto_owner \<Rightarrow> probe_state \<Rightarrow> probe_state" where
  "perfetto_store_socket_owner oc sk owner st =
     (if sk = 0 then st else st\<lparr>ps_owner := snd (map_update oc sk owner (ps_owner st))\<rparr>)"

definition perfetto_owner_matches :: "bpf_args \<Rightarrow> perfetto_owner \<Rightarrow> bool" where
  "perfetto_owner_matches args owner \<longleftrightarrow>
     \<not> (ba_pid args \<noteq> 0 \<and> ba_pid args \<noteq> ow_tid owner) \<and> \<not> (ba_uid_enabled args \<and> ba_uid args \<noteq> ow_uid owner)"

section \<open>Resolving the owner\<close>

definition zero_owner :: perfetto_owner where
  "zero_owner = \<lparr>ow_socket_key = 0, ow_tid = 0, ow_tgid = 0, ow_uid = 0, ow_generation = 0, ow_dns = False\<rparr>"

text \<open>Outcomes of the map updates of one probe, in program order.\<close>

record owner_oc =
  oo_generation :: gen_outcome
  oo_owner1 :: "u64 outcome"
  oo_owner2 :: "u64 outcome"
  oo_owner3 :: "u64 outcome"
  oo_flow1 :: "perfetto_flow_key outcome"
  oo_flow2 :: "perfetto_flow_key outcome"

text \<open>\<open>sk_uid\<close> is the user of the socket; the owner argument is the zeroed scratch record.\<close>

definition perfetto_resolve_socket_owner ::
    "bool \<Rightarrow> owner_oc \<Rightarrow> u64 \<Rightarrow> u32 \<Rightarrow> bool \<Rightarrow> u32 \<Rightarrow> u32 \<Rightarrow> u32 \<Rightarrow> probe_state \<Rightarrow> (bool \<times> perfetto_owner) \<times> probe_state" where
  "perfetto_resolve_socket_owner arrays oo sk sk_uid trust_current tid tgid uid st =
     (if sk = 0 then ((False, zero_owner), st)
      else case ps_owner st sk of
        Some cached \<Rightarrow>
          if ow_uid cached = sk_uid
          then if trust_current \<and> uid = sk_uid \<and> ow_tid cached = 0
            then let owner = cached\<lparr>ow_tid := tid, ow_tgid := tgid\<rparr> in
              ((True, owner), perfetto_store_socket_owner (oo_owner1 oo) sk owner st)
            else ((True, cached), st)
          else (case perfetto_socket_generation arrays (oo_generation oo) sk False st of
             (g, st1) \<Rightarrow>
               let owner = zero_owner\<lparr>ow_socket_key := sk, ow_generation := g, ow_uid := sk_uid\<rparr> in
               if trust_current \<and> uid = sk_uid
               then let owner' = owner\<lparr>ow_tid := tid, ow_tgid := tgid\<rparr> in
                 ((True, owner'), perfetto_store_socket_owner (oo_owner1 oo) sk owner' st1)
               else ((True, owner), st1))
      | None \<Rightarrow>
          (case perfetto_socket_generation arrays (oo_generation oo) sk False st of
             (g, st1) \<Rightarrow>
               let owner = zero_owner\<lparr>ow_socket_key := sk, ow_generation := g, ow_uid := sk_uid\<rparr> in
               if trust_current \<and> uid = sk_uid
               then let owner' = owner\<lparr>ow_tid := tid, ow_tgid := tgid\<rparr> in
                 ((True, owner'), perfetto_store_socket_owner (oo_owner1 oo) sk owner' st1)
               else ((True, owner), st1)))"

section \<open>Attribution and filtering\<close>

text \<open>
  What the probe knows: the probed function and its flags, the packet buffer (zero for a socket
  probe), the socket passed to the probe, the socket stored in the packet, the parsed headers, and
  the user of any socket.
\<close>

record owner_info =
  oi_func :: probe_func
  oi_status :: u8
  oi_skb :: u64
  oi_sk :: u64
  oi_skb_sk :: u64
  oi_hdr :: packet_hdr
  oi_sk_proto :: u8
  oi_sk_uid :: "u64 \<Rightarrow> u32"

definition socket_of :: "owner_info \<Rightarrow> u64 \<Rightarrow> probe_state \<Rightarrow> u64" where
  "socket_of info task st =
     (let sk1 = (if oi_sk info = 0 \<and> perfetto_rx_copy (oi_func info)
                 then (case ps_io st task of
                         Some io \<Rightarrow> if \<not> io_tx io then io_socket_key io else oi_sk info
                       | None \<Rightarrow> oi_sk info)
                 else oi_sk info) in
      if sk1 = 0 \<and> oi_skb info \<noteq> 0 then oi_skb_sk info else sk1)"

definition is_icmp :: "owner_info \<Rightarrow> bool" where
  "is_icmp info \<longleftrightarrow> oi_skb info \<noteq> 0 \<and> (ph_proto_l4 (oi_hdr info) = PROTO_ICMP \<or> ph_proto_l4 (oi_hdr info) = PROTO_ICMPV6)"

text \<open>The label \<open>resolved_owner\<close>: remember DNS and the flow, and fill the event.\<close>

definition resolved_owner ::
    "owner_oc \<Rightarrow> owner_info \<Rightarrow> u64 \<Rightarrow> u8 \<Rightarrow> bool \<Rightarrow> perfetto_owner \<Rightarrow> probe_detail \<Rightarrow> probe_state \<Rightarrow> probe_detail \<times> probe_state" where
  "resolved_owner oo info sk direction owner_valid owner d st =
     (let dns = (owner_valid \<and> oi_skb info \<noteq> 0 \<and> perfetto_packet_is_dns (oi_hdr info));
          owner1 = (if dns then owner\<lparr>ow_dns := True\<rparr> else owner);
          st1 = (if dns then perfetto_store_socket_owner (oo_owner3 oo) sk owner1 st else st);
          st2 = (if owner_valid \<and> oi_skb info \<noteq> 0
                 then perfetto_store_flow (oo_flow1 oo) (oo_flow2 oo) (oi_hdr info) owner1 direction (pd_netns d) st1 else st1);
          d1 = d\<lparr>pd_direction := direction, pd_owner_valid := owner_valid\<rparr> in
      (if owner_valid
       then d1\<lparr>pd_owner_tid := ow_tid owner1, pd_owner_tgid := ow_tgid owner1, pd_owner_uid := ow_uid owner1,
               pd_owner_socket_key := ow_socket_key owner1, pd_owner_socket_generation := ow_generation owner1\<rparr>
       else d1, st2))"

text \<open>The flow owner completes or replaces what the socket told.\<close>

definition merge_flow :: "owner_info \<Rightarrow> u32 \<Rightarrow> probe_state \<Rightarrow> bool \<times> perfetto_owner \<times> u8 \<Rightarrow> bool \<times> perfetto_owner \<times> u8" where
  "merge_flow info netns st r =
     (case r of (owner_valid, owner, direction) \<Rightarrow>
        case perfetto_lookup_flow (oi_hdr info) netns st of
          None \<Rightarrow> r
        | Some flow \<Rightarrow>
            (True,
             if \<not> owner_valid \<or> (ow_tid owner = 0 \<and> ow_uid owner = ow_uid (fo_owner flow)) then fo_owner flow else owner,
             if direction = 0 \<and> oi_func info \<noteq> INDEX_xfrm_policy_check then fo_direction flow else direction))"

text \<open>The filter, then the current task as the owner of last resort; \<open>None\<close> rejects the event.\<close>

definition filter_owner ::
    "bpf_args \<Rightarrow> probe_env \<Rightarrow> owner_oc \<Rightarrow> owner_info \<Rightarrow> u64 \<Rightarrow> bool \<times> perfetto_owner \<times> u8 \<Rightarrow> probe_detail \<Rightarrow> probe_state \<Rightarrow>
     probe_detail option \<times> probe_state" where
  "filter_owner args env oo info sk r d st =
     (case r of (owner_valid, owner, direction) \<Rightarrow>
        let matches = perfetto_current_matches args (env_tid env) (env_uid env); icmp = is_icmp info in
        if (ba_pid args \<noteq> 0 \<or> ba_uid_enabled args) \<and> (icmp \<or> \<not> matches) \<and>
           (\<not> owner_valid \<or> \<not> perfetto_owner_matches args owner)
        then (None, st)
        else if \<not> owner_valid \<and> matches \<and> \<not> icmp
        then (case perfetto_socket_generation (pe_arrays env) (oo_generation oo) sk False st of
                (g, st1) \<Rightarrow>
                  let owner' = \<lparr>ow_socket_key = sk, ow_tid = env_tid env, ow_tgid = env_tgid env, ow_uid = env_uid env,
                                ow_generation = g, ow_dns = False\<rparr>;
                      st2 = (if direction = PACKET_DIRECTION_TX \<or> oi_status info AND FUNC_STATUS_RET \<noteq> 0
                             then perfetto_store_socket_owner (oo_owner2 oo) sk owner' st1 else st1);
                      (d', st3) = resolved_owner oo info sk direction True owner' d st2 in
                  (Some d', st3))
        else let (d', st1) = resolved_owner oo info sk direction owner_valid owner d st in (Some d', st1))"

definition perfetto_handle_owner ::
    "bpf_args \<Rightarrow> probe_env \<Rightarrow> owner_oc \<Rightarrow> owner_info \<Rightarrow> probe_detail \<Rightarrow> probe_state \<Rightarrow> probe_detail option \<times> probe_state" where
  "perfetto_handle_owner args env oo info d st =
     (if \<not> pe_arrays env then (None, st)
      else let direction = perfetto_status_direction (oi_status info);
               icmp = is_icmp info;
               sk = socket_of info (pe_pid_tgid env) st;
               trust = (\<not> icmp \<and> (direction = PACKET_DIRECTION_TX \<or> oi_status info AND FUNC_STATUS_RET \<noteq> 0)) in
        case perfetto_resolve_socket_owner (pe_arrays env) oo sk (oi_sk_uid info sk) trust (env_tid env) (env_tgid env) (env_uid env) st of
          ((owner_valid, owner), st1) \<Rightarrow>
            if oi_skb info \<noteq> 0
            then if \<not> perfetto_packet_supported (ph_proto_l4 (oi_hdr info)) then (None, st1)
              else if ba_rx_context args \<and> ba_uid_enabled args \<and> ba_pid args = 0 \<and> direction = PACKET_DIRECTION_RX
              then if owner_valid
                then if \<not> perfetto_owner_matches args owner then (None, st1)
                  else let (d', st2) = resolved_owner oo info sk direction True owner (d\<lparr>pd_owner_evidence := 1\<rparr>) st1 in (Some d', st2)
                else (Some (d\<lparr>pd_direction := direction, pd_owner_pending := True, pd_owner_valid := False\<rparr>), st1)
              else filter_owner args env oo info sk (merge_flow info (pd_netns d) st1 (owner_valid, owner, direction)) d st1
            else if \<not> transport_supported (oi_sk_proto info) \<and> \<not> perfetto_socket_io (oi_func info) \<and> \<not> (owner_valid \<and> ow_dns owner)
            then (None, st1)
            else filter_owner args env oo info sk (owner_valid, owner, direction) d st1)"

section \<open>Filters hold\<close>

definition owner_in_filter :: "bpf_args \<Rightarrow> u32 \<Rightarrow> u32 \<Rightarrow> bool" where
  "owner_in_filter args tid uid \<longleftrightarrow> (ba_pid args = 0 \<or> tid = ba_pid args) \<and> (\<not> ba_uid_enabled args \<or> uid = ba_uid args)"

lemma owner_matches_filter: "perfetto_owner_matches args ow \<longleftrightarrow> owner_in_filter args (ow_tid ow) (ow_uid ow)"
  by (auto simp: perfetto_owner_matches_def owner_in_filter_def)

lemma current_matches_filter: "perfetto_current_matches args tid uid \<longleftrightarrow> owner_in_filter args tid uid"
  by (auto simp: perfetto_current_matches_def owner_in_filter_def)

lemma resolved_owner_fields:
  assumes "resolved_owner oo info sk dir valid ow d st = (d', st')"
  shows "pd_owner_valid d' = valid" "pd_direction d' = dir" "pd_owner_pending d' = pd_owner_pending d"
    "pd_owner_evidence d' = pd_owner_evidence d"
    "valid \<Longrightarrow> pd_owner_tid d' = ow_tid ow \<and> pd_owner_uid d' = ow_uid ow"
  using assms by (auto simp: resolved_owner_def Let_def split: if_splits)

definition filtered :: "bpf_args \<Rightarrow> bool" where
  "filtered args \<longleftrightarrow> ba_pid args \<noteq> 0 \<or> ba_uid_enabled args"

lemma filter_owner_safe:
  assumes "filter_owner args env oo info sk (valid, ow, dir) d st = (Some d', st')" and "filtered args"
  shows "pd_owner_pending d' = pd_owner_pending d \<and>
     (pd_owner_valid d' \<and> owner_in_filter args (pd_owner_tid d') (pd_owner_uid d') \<or>
      \<not> is_icmp info \<and> owner_in_filter args (env_tid env) (env_uid env)) \<and>
     (is_icmp info \<longrightarrow> valid)"
proof -
  let ?cur = "owner_in_filter args (env_tid env) (env_uid env)"
  have r: "\<not> ((is_icmp info \<or> \<not> ?cur) \<and> (\<not> valid \<or> \<not> perfetto_owner_matches args ow))"
    using assms by (auto simp: filter_owner_def Let_def filtered_def current_matches_filter split: if_splits)
  show ?thesis
  proof (cases "\<not> valid \<and> ?cur \<and> \<not> is_icmp info")
    case True
    then show ?thesis
      using assms r
      by (auto simp: filter_owner_def Let_def filtered_def current_matches_filter split: if_splits prod.splits
          dest!: resolved_owner_fields(3))
  next
    case False
    then obtain st1 where "resolved_owner oo info sk dir valid ow d st = (d', st1)"
      using assms r
      by (auto simp: filter_owner_def Let_def filtered_def current_matches_filter split: if_splits prod.splits)
    then show ?thesis
      using resolved_owner_fields [of oo info sk dir valid ow d st d' st1] r False by (auto simp: owner_matches_filter)
  qed
qed

text \<open>What becomes of an ICMP packet does not depend on the task that happens to run.\<close>

lemma icmp_any_task:
  assumes "is_icmp info" and "pe_arrays env" and "pe_arrays env'"
    and "socket_of info (pe_pid_tgid env') st = socket_of info (pe_pid_tgid env) st"
  shows "perfetto_handle_owner args env' oo info d st = perfetto_handle_owner args env oo info d st"
proof -
  have r: "perfetto_resolve_socket_owner a oo sk u False (env_tid env') (env_tgid env') (env_uid env') st =
      perfetto_resolve_socket_owner a oo sk u False (env_tid env) (env_tgid env) (env_uid env) st" for a sk u
    by (auto simp: perfetto_resolve_socket_owner_def Let_def split: option.split prod.split)
  have f: "filter_owner args env' oo info sk x d st1 = filter_owner args env oo info sk x d st1" for sk x d st1
    using assms(1) by (simp add: filter_owner_def Let_def split: prod.splits)
  show ?thesis
    unfolding perfetto_handle_owner_def Let_def f assms(4) by (simp add: assms(1-3) r)
qed


section \<open>The flow cache\<close>

definition swap_hdr :: "packet_hdr \<Rightarrow> packet_hdr" where
  "swap_hdr h = h\<lparr>ph_saddr := ph_daddr h, ph_daddr := ph_saddr h, ph_sport := ph_dport h, ph_dport := ph_sport h\<rparr>"

lemma make_flow_key_swap: "make_flow_key (swap_hdr h) netns = swap_flow_key (make_flow_key h netns)"
  by (simp add: make_flow_key_def swap_hdr_def swap_flow_key_def)

text \<open>
  C27. A flow remembered from one direction is found from the other, with the direction reversed and
  the same owner, as long as the owning socket is known under the same generation; once the socket
  address is reused (its owner has another generation) or forgotten, the flow has no owner.
\<close>

theorem perfetto_flow_roundtrip:
  assumes "direction \<noteq> 0" and "transport_supported (ph_proto_l4 h)" and "oc_accept oc2"
    and "ow_socket_key owner \<noteq> 0" and "st' = perfetto_store_flow oc1 oc2 h owner direction netns st"
  shows "(perfetto_lookup_flow (swap_hdr h) netns st' = Some \<lparr>fo_owner = owner, fo_direction = opposite direction\<rparr> \<longleftrightarrow>
           (\<exists>cur. ps_owner st (ow_socket_key owner) = Some cur \<and> ow_generation cur = ow_generation owner)) \<and>
         (oc_accept oc1 \<longrightarrow> make_flow_key h netns \<notin> set (oc_evict oc2) \<longrightarrow> swap_flow_key (make_flow_key h netns) \<noteq> make_flow_key h netns \<longrightarrow>
           (perfetto_lookup_flow h netns st' = Some \<lparr>fo_owner = owner, fo_direction = direction\<rparr> \<longleftrightarrow>
             (\<exists>cur. ps_owner st (ow_socket_key owner) = Some cur \<and> ow_generation cur = ow_generation owner)))"
proof -
  have t: "transport_supported (ph_proto_l4 (swap_hdr h))"
    using assms(2) by (simp add: swap_hdr_def)
  have o: "ps_owner st' = ps_owner st"
    by (simp add: assms(5) perfetto_store_flow_def Let_def)
  have r: "ps_flow st' (make_flow_key (swap_hdr h) netns) = Some \<lparr>fo_owner = owner, fo_direction = opposite direction\<rparr>"
    using assms by (simp add: perfetto_store_flow_def Let_def make_flow_key_swap map_update_def)
  have f: "ps_flow st' (make_flow_key h netns) = Some \<lparr>fo_owner = owner, fo_direction = direction\<rparr>"
    if "oc_accept oc1" "make_flow_key h netns \<notin> set (oc_evict oc2)" "swap_flow_key (make_flow_key h netns) \<noteq> make_flow_key h netns"
    using assms that by (simp add: perfetto_store_flow_def Let_def map_update_def)
  show ?thesis
    using r f t assms(2,4) unfolding perfetto_lookup_flow_def o by (auto split: option.splits)
qed

section \<open>Examples\<close>

definition owner_demo_args :: bpf_args where
  "owner_demo_args = wakeup_demo_args\<lparr>ba_uid := 1000, ba_uid_enabled := True\<rparr>"

definition owner_demo_hdr :: packet_hdr where
  "owner_demo_hdr = \<lparr>ph_proto_l3 = 0x0800, ph_proto_l4 = 6, ph_saddr = [10, 0, 0, 1], ph_daddr = [10, 0, 0, 2], ph_sport = 80, ph_dport = 5000\<rparr>"

definition owner_demo_info :: owner_info where
  "owner_demo_info = \<lparr>oi_func = INDEX_other 3, oi_status = 4, oi_skb = 64, oi_sk = 0, oi_skb_sk = 0, oi_hdr = owner_demo_hdr,
     oi_sk_proto = 0, oi_sk_uid = (\<lambda>_. 0)\<rparr>"

definition owner_demo_oc :: "'k outcome" where
  "owner_demo_oc = \<lparr>oc_accept = True, oc_evict = []\<rparr>"

definition owner_demo_oo :: owner_oc where
  "owner_demo_oo = \<lparr>oo_generation = \<lparr>go_update = owner_demo_oc, go_added = 1, go_added_again = 0, go_raced = None\<rparr>, oo_owner1 = owner_demo_oc, oo_owner2 = owner_demo_oc, oo_owner3 = owner_demo_oc,
     oo_flow1 = owner_demo_oc, oo_flow2 = owner_demo_oc\<rparr>"

definition owner_demo_detail :: probe_detail where
  "owner_demo_detail = \<lparr>pd_key_generation = 0, pd_ts = 1100, pd_netns = 0, pd_proto_l4 = 6, pd_owner_tid = 0, pd_owner_tgid = 0,
     pd_owner_uid = 0, pd_owner_socket_key = 0, pd_owner_socket_generation = 0, pd_direction = 1, pd_owner_valid = False,
     pd_owner_pending = False, pd_owner_evidence = 0, pd_io_start_ts = 0, pd_syscall_start_ts = 0, pd_io_tid = 0, pd_io_tgid = 0,
     pd_io_role = 0, pd_io_multiple = False\<rparr>"


definition owner_demo_owner :: perfetto_owner where
  "owner_demo_owner = \<lparr>ow_socket_key = 9, ow_tid = 5, ow_tgid = 5, ow_uid = 1000, ow_generation = 3, ow_dns = False\<rparr>"

theorem perfetto_flow_roundtrip_witness:
  "perfetto_lookup_flow (swap_hdr owner_demo_hdr) 1
     (perfetto_store_flow owner_demo_oc owner_demo_oc owner_demo_hdr owner_demo_owner PACKET_DIRECTION_TX 1
        (probe_start\<lparr>ps_owner := [9 \<mapsto> owner_demo_owner]\<rparr>)) =
   Some \<lparr>fo_owner = owner_demo_owner, fo_direction = PACKET_DIRECTION_RX\<rparr>"
proof -
  have h: "PACKET_DIRECTION_TX \<noteq> 0" "transport_supported (ph_proto_l4 owner_demo_hdr)"
      "oc_accept (owner_demo_oc :: perfetto_flow_key outcome)" "ow_socket_key owner_demo_owner \<noteq> 0"
    by code_simp+
  have "opposite PACKET_DIRECTION_TX = PACKET_DIRECTION_RX"
    by code_simp
  then show ?thesis
    using perfetto_flow_roundtrip [OF h refl, of 1 owner_demo_oc "probe_start\<lparr>ps_owner := [9 \<mapsto> owner_demo_owner]\<rparr>"]
    by (simp add: owner_demo_owner_def)
qed

end
