(* ===== verification/PerfettoConfig.thy ===== *)
theory PerfettoConfig
  imports FdIO NativeExport
begin

text \<open>
  Custom trace configurations (\<open>perfetto_config.c\<close>): the text of the user is read with limits, copied
  without its top-level \<open>duration_ms\<close> fields, and completed with the duration of the session.  The
  scanner follows the text format: strings, comments and nesting.  Characters are bytes, classified
  as in the C locale.
\<close>

section \<open>Characters\<close>

definition c_isspace :: "u8 \<Rightarrow> bool" where "c_isspace c \<longleftrightarrow> c = 32 \<or> 9 \<le> c \<and> c \<le> 13"
definition c_isdigit :: "u8 \<Rightarrow> bool" where "c_isdigit c \<longleftrightarrow> 48 \<le> c \<and> c \<le> 57"
definition c_isalpha :: "u8 \<Rightarrow> bool" where "c_isalpha c \<longleftrightarrow> 65 \<le> c \<and> c \<le> 90 \<or> 97 \<le> c \<and> c \<le> 122"
definition c_isxdigit :: "u8 \<Rightarrow> bool" where "c_isxdigit c \<longleftrightarrow> c_isdigit c \<or> 65 \<le> c \<and> c \<le> 70 \<or> 97 \<le> c \<and> c \<le> 102"
definition c_isblank :: "u8 \<Rightarrow> bool" where "c_isblank c \<longleftrightarrow> c = 32 \<or> c = 9 \<or> c = 13"

definition identifier_start :: "u8 \<Rightarrow> bool" where
  "identifier_start c \<longleftrightarrow> c_isalpha c \<or> c = 95"

definition identifier_character :: "u8 \<Rightarrow> bool" where
  "identifier_character c \<longleftrightarrow> c_isalpha c \<or> c_isdigit c \<or> c = 95"

definition duration_ms :: bytes where
  "duration_ms = cstr ''duration_ms''"

section \<open>Operations\<close>

definition MAX_CUSTOM_CONFIG_BYTES :: int where
  "MAX_CUSTOM_CONFIG_BYTES = 4194304"

definition write_all :: "out_fd \<Rightarrow> bytes \<Rightarrow> errno option \<times> out_fd" where
  "write_all fd data = write_exact fd data"

text \<open>What the file system answers; \<open>cf_size\<close> is \<open>st_size\<close>.\<close>

record config_file =
  cf_open_err :: "errno option"
  cf_stat_err :: "errno option"
  cf_regular :: bool
  cf_size :: int
  cf_fd :: in_fd

function read_config_loop :: "in_fd \<Rightarrow> nat \<Rightarrow> bytes \<Rightarrow> bytes result" where
  "read_config_loop fd n acc =
     (if n = 0 then Inr acc
      else case sys_read fd n of
          (Inr got, fd') \<Rightarrow> if got \<noteq> [] then read_config_loop fd' (n - length got) (acc @ got) else Inl EIO
        | (Inl e, fd') \<Rightarrow> if e = EINTR then read_config_loop fd' n acc else Inl e)"
  by pat_completeness auto
termination
  by (relation "measure (\<lambda>(fd, n, acc). length (in_sched fd) + n)")
    (auto simp: sys_read.simps split: list.splits read_step.splits)

declare read_config_loop.simps [simp del]

definition read_config :: "allocator \<Rightarrow> config_file \<Rightarrow> bytes result" where
  "read_config mem f =
     (case cf_open_err f of
        Some e \<Rightarrow> Inl e
      | None \<Rightarrow>
          (case cf_stat_err f of
             Some e \<Rightarrow> Inl e
           | None \<Rightarrow>
               if \<not> cf_regular f then Inl EINVAL
               else if cf_size f \<le> 0 then Inl ENODATA
               else if MAX_CUSTOM_CONFIG_BYTES < cf_size f then Inl EFBIG
               else if \<not> mem (nat (cf_size f) + 1) then Inl ENOMEM
               else read_config_loop (cf_fd f) (nat (cf_size f)) []))"

text \<open>The loops \<open>while (cursor < size && \<dots>) cursor++\<close>.\<close>

function skip_while :: "(u8 \<Rightarrow> bool) \<Rightarrow> bytes \<Rightarrow> nat \<Rightarrow> nat" where
  "skip_while P buf cursor =
     (if cursor < length buf \<and> P (buf ! cursor) then skip_while P buf (cursor + 1) else cursor)"
  by pat_completeness auto
termination
  by (relation "measure (\<lambda>(P, buf, cursor). length buf - cursor)") auto

declare skip_while.simps [simp del]

definition duration_field_end :: "bytes \<Rightarrow> nat \<Rightarrow> nat" where
  "duration_field_end buf start =
     (let c1 = skip_while c_isspace buf (start + length duration_ms) in
      if length buf \<le> c1 \<or> buf ! c1 \<noteq> 58 then 0
      else let c2 = skip_while c_isspace buf (c1 + 1);
               c3 = (if c2 < length buf \<and> (buf ! c2 = 43 \<or> buf ! c2 = 45) then c2 + 1 else c2);
               hex = (c3 + 1 < length buf \<and> buf ! c3 = 48 \<and> (buf ! (c3 + 1) = 120 \<or> buf ! (c3 + 1) = 88));
               c4 = (if hex then c3 + 2 else c3);
               c5 = skip_while (if hex then c_isxdigit else c_isdigit) buf c4 in
        if c4 = c5 \<or> (c5 < length buf \<and> identifier_character (buf ! c5)) then 0
        else let c6 = skip_while c_isblank buf c5;
                 c7 = (if c6 < length buf \<and> (buf ! c6 = 59 \<or> buf ! c6 = 44) then c6 + 1 else c6) in
          skip_while c_isblank buf c7)"

datatype scan_state = SCAN_NORMAL | SCAN_STRING | SCAN_LINE_COMMENT | SCAN_BLOCK_COMMENT

lemma skip_while_ge: "cursor \<le> skip_while P buf cursor"
  by (induction P buf cursor rule: skip_while.induct) (subst skip_while.simps, auto)

lemma duration_field_end_gt:
  assumes "duration_field_end buf start \<noteq> 0"
  shows "start < duration_field_end buf start"
proof -
  define c1 where "c1 = skip_while c_isspace buf (start + length duration_ms)"
  define c2 where "c2 = skip_while c_isspace buf (c1 + 1)"
  define c3 where "c3 = (if c2 < length buf \<and> (buf ! c2 = 43 \<or> buf ! c2 = 45) then c2 + 1 else c2)"
  define hex where "hex = (c3 + 1 < length buf \<and> buf ! c3 = 48 \<and> (buf ! (c3 + 1) = 120 \<or> buf ! (c3 + 1) = 88))"
  define c4 where "c4 = (if hex then c3 + 2 else c3)"
  define c5 where "c5 = skip_while (if hex then c_isxdigit else c_isdigit) buf c4"
  define c6 where "c6 = skip_while c_isblank buf c5"
  define c7 where "c7 = (if c6 < length buf \<and> (buf ! c6 = 59 \<or> buf ! c6 = 44) then c6 + 1 else c6)"
  have "duration_field_end buf start =
     (if length buf \<le> c1 \<or> buf ! c1 \<noteq> 58 then 0
      else if c4 = c5 \<or> (c5 < length buf \<and> identifier_character (buf ! c5)) then 0
      else skip_while c_isblank buf c7)"
    unfolding duration_field_end_def Let_def c1_def c2_def c3_def hex_def c4_def c5_def c6_def c7_def ..
  then have "duration_field_end buf start = skip_while c_isblank buf c7"
    using assms by presburger
  moreover have "start \<le> c1" "c1 + 1 \<le> c2" "c2 \<le> c3" "c3 \<le> c4" "c4 \<le> c5" "c5 \<le> c6" "c6 \<le> c7" "c7 \<le> skip_while c_isblank buf c7"
    using skip_while_ge [of "start + length duration_ms" c_isspace buf] skip_while_ge [of "c1 + 1" c_isspace buf]
      skip_while_ge [of c4 _ buf] skip_while_ge [of c5 _ buf] skip_while_ge [of c7 _ buf]
    by (simp_all add: c1_def c2_def c3_def c4_def c5_def c6_def c7_def)
  ultimately show ?thesis
    by linarith
qed

lemma skip_while_decreases: "index < length buf \<Longrightarrow> length buf - skip_while P buf (Suc index) < length buf - index"
  using skip_while_ge [of "Suc index" P buf] by simp

lemma duration_field_decreases:
  "index < length buf \<Longrightarrow> 0 < duration_field_end buf index \<Longrightarrow> length buf - duration_field_end buf index < length buf - index"
  using duration_field_end_gt [of buf index] by simp

function scan_loop ::
    "bytes \<Rightarrow> scan_state \<Rightarrow> u8 \<Rightarrow> nat \<Rightarrow> nat \<Rightarrow> u32 \<Rightarrow> bool \<Rightarrow> out_fd \<Rightarrow> errno option \<times> out_fd" where
  "scan_loop buf state quote cursor index depth escaped fd =
     (if \<not> index < length buf then write_all fd (drop cursor buf)
      else let character = buf ! index in
        case state of
          SCAN_STRING \<Rightarrow>
            if escaped then scan_loop buf SCAN_STRING quote cursor (index + 1) depth False fd
            else if character = 92 then scan_loop buf SCAN_STRING quote cursor (index + 1) depth True fd
            else if character = quote then scan_loop buf SCAN_NORMAL quote cursor (index + 1) depth False fd
            else scan_loop buf SCAN_STRING quote cursor (index + 1) depth False fd
        | SCAN_LINE_COMMENT \<Rightarrow>
            scan_loop buf (if character = 10 then SCAN_NORMAL else SCAN_LINE_COMMENT) quote cursor (index + 1) depth escaped fd
        | SCAN_BLOCK_COMMENT \<Rightarrow>
            if character = 42 \<and> index + 1 < length buf \<and> buf ! (index + 1) = 47
            then scan_loop buf SCAN_NORMAL quote cursor (index + 2) depth escaped fd
            else scan_loop buf SCAN_BLOCK_COMMENT quote cursor (index + 1) depth escaped fd
        | SCAN_NORMAL \<Rightarrow>
            if character = 34 \<or> character = 39
            then scan_loop buf SCAN_STRING character cursor (index + 1) depth escaped fd
            else if character = 35 then scan_loop buf SCAN_LINE_COMMENT quote cursor (index + 1) depth escaped fd
            else if character = 47 \<and> index + 1 < length buf \<and> buf ! (index + 1) = 47
            then scan_loop buf SCAN_LINE_COMMENT quote cursor (index + 2) depth escaped fd
            else if character = 47 \<and> index + 1 < length buf \<and> buf ! (index + 1) = 42
            then scan_loop buf SCAN_BLOCK_COMMENT quote cursor (index + 2) depth escaped fd
            else if character = 123 \<or> character = 60 then scan_loop buf SCAN_NORMAL quote cursor (index + 1) (depth + 1) escaped fd
            else if character = 125 \<or> character = 62
            then scan_loop buf SCAN_NORMAL quote cursor (index + 1) (if depth \<noteq> 0 then depth - 1 else depth) escaped fd
            else if depth = 0 \<and> identifier_start character
            then let identifier_end = skip_while identifier_character buf (index + 1) in
              if identifier_end - index = length duration_ms \<and> take (length duration_ms) (drop index buf) = duration_ms \<and>
                 duration_field_end buf index \<noteq> 0
              then (case write_all fd (take (index - cursor) (drop cursor buf)) of
                      (Some e, fd1) \<Rightarrow> (Some e, fd1)
                    | (None, fd1) \<Rightarrow>
                        scan_loop buf SCAN_NORMAL quote (duration_field_end buf index) (duration_field_end buf index) depth escaped fd1)
              else scan_loop buf SCAN_NORMAL quote cursor identifier_end depth escaped fd
            else scan_loop buf SCAN_NORMAL quote cursor (index + 1) depth escaped fd)"
  by pat_completeness auto
termination
  by (relation "measure (\<lambda>(buf, state, quote, cursor, index, depth, escaped, fd). length buf - index)")
    (auto intro: skip_while_decreases duration_field_decreases)

declare scan_loop.simps [simp del]

definition write_without_top_level_duration :: "out_fd \<Rightarrow> bytes \<Rightarrow> errno option \<times> out_fd" where
  "write_without_top_level_duration fd buf = scan_loop buf SCAN_NORMAL 0 0 0 0 False fd"

text \<open>\<open>snprintf\<close> into 64 bytes; the line is at most 35 characters long.\<close>

definition duration_line :: "u32 \<Rightarrow> bytes" where
  "duration_line duration_s = cstr ''duration_ms: '' @ decimal_loop ((ucast duration_s + 1) * 1000) [] @ [10]"

definition perfetto_config_write_custom ::
    "allocator \<Rightarrow> out_fd option \<Rightarrow> config_file option \<Rightarrow> u32 \<Rightarrow> bool \<Rightarrow> errno option \<times> out_fd option" where
  "perfetto_config_write_custom mem fd_opt file_opt duration_s ring_buffer =
     (case (fd_opt, file_opt) of
        (Some fd, Some f) \<Rightarrow>
          if duration_s = 0 then (Some EINVAL, fd_opt)
          else (case read_config mem f of
            Inl e \<Rightarrow> (Some e, fd_opt)
          | Inr buf \<Rightarrow>
              if buf = [] then (Some ENODATA, fd_opt)
              else (case write_without_top_level_duration fd buf of
                 (err, fd1) \<Rightarrow>
                   if err \<noteq> None \<or> ring_buffer then (err, Some fd1)
                   else (case (if last buf \<noteq> 10 then write_all fd1 [10] else (None, fd1)) of
                      (Some e, fd2) \<Rightarrow> (Some e, Some fd2)
                    | (None, fd2) \<Rightarrow>
                        if 64 \<le> length (duration_line duration_s) then (Some EOVERFLOW, Some fd2)
                        else (case write_all fd2 (duration_line duration_s) of (err, fd3) \<Rightarrow> (err, Some fd3)))))
      | _ \<Rightarrow> (Some EINVAL, fd_opt))"

section \<open>Reference: removing the fields\<close>

text \<open>Lengths of the rest of a string, a line comment and a block comment.\<close>

fun string_len :: "u8 \<Rightarrow> bool \<Rightarrow> bytes \<Rightarrow> nat" where
  "string_len q escaped [] = 0"
| "string_len q escaped (c # cs) =
     (if escaped then 1 + string_len q False cs
      else if c = 92 then 1 + string_len q True cs
      else if c = q then 1 else 1 + string_len q False cs)"

fun line_len :: "bytes \<Rightarrow> nat" where
  "line_len [] = 0"
| "line_len (c # cs) = (if c = 10 then 1 else 1 + line_len cs)"

fun block_len :: "bytes \<Rightarrow> nat" where
  "block_len [] = 0"
| "block_len [c] = 1"
| "block_len (c # d # cs) = (if c = 42 \<and> d = 47 then 2 else 1 + block_len (d # cs))"

text \<open>What follows a complete field whose name has been read; \<open>None\<close> when it is not a number field.\<close>

definition field_rest :: "bytes \<Rightarrow> bytes option" where
  "field_rest xs =
     (let a = dropWhile c_isspace xs in
      if a = [] \<or> hd a \<noteq> 58 then None
      else let b = dropWhile c_isspace (tl a);
               c = (if b \<noteq> [] \<and> (hd b = 43 \<or> hd b = 45) then tl b else b);
               hex = (1 < length c \<and> c ! 0 = 48 \<and> (c ! 1 = 120 \<or> c ! 1 = 88));
               d = (if hex then drop 2 c else c);
               P = (if hex then c_isxdigit else c_isdigit);
               e = dropWhile P d in
        if takeWhile P d = [] \<or> (e \<noteq> [] \<and> identifier_character (hd e)) then None
        else let f = dropWhile c_isblank e;
                 g = (if f \<noteq> [] \<and> (hd f = 59 \<or> hd f = 44) then tl f else f) in
          Some (dropWhile c_isblank g))"

lemma skip_while_len: "skip_while P buf i = i + length (takeWhile P (drop i buf))"
proof (induction P buf i rule: skip_while.induct)
  case (1 P buf i)
  show ?case
  proof (cases "i < length buf \<and> P (buf ! i)")
    case True
    then have "drop i buf = buf ! i # drop (i + 1) buf"
      by (simp add: Cons_nth_drop_Suc)
    then show ?thesis
      using 1 True by (simp add: skip_while.simps [of P buf i])
  next
    case False
    then have "takeWhile P (drop i buf) = []"
      by (cases "i < length buf") (simp_all add: Cons_nth_drop_Suc [symmetric])
    moreover have "skip_while P buf i = i"
      using False by (subst skip_while.simps) (simp only: if_False)
    ultimately show ?thesis
      by simp
  qed
qed

lemma drop_skip_while [simp]: "drop (skip_while P buf i) buf = dropWhile P (drop i buf)"
  by (simp add: skip_while_len dropWhile_eq_drop add.commute)

lemma skip_while_le: "i \<le> length buf \<Longrightarrow> skip_while P buf i \<le> length buf"
  using length_takeWhile_le [of P "drop i buf"] by (simp add: skip_while_len)

lemma field_end_rest:
  assumes "start + length duration_ms \<le> length buf"
  shows "(if duration_field_end buf start = 0 then field_rest (drop (start + length duration_ms) buf) = None
     else field_rest (drop (start + length duration_ms) buf) = Some (drop (duration_field_end buf start) buf) \<and>
       duration_field_end buf start \<le> length buf)"
proof -
  define c1 where "c1 = skip_while c_isspace buf (start + length duration_ms)"
  define c2 where "c2 = skip_while c_isspace buf (c1 + 1)"
  define c3 where "c3 = (if c2 < length buf \<and> (buf ! c2 = 43 \<or> buf ! c2 = 45) then c2 + 1 else c2)"
  define hex where "hex = (c3 + 1 < length buf \<and> buf ! c3 = 48 \<and> (buf ! (c3 + 1) = 120 \<or> buf ! (c3 + 1) = 88))"
  define c4 where "c4 = (if hex then c3 + 2 else c3)"
  define c5 where "c5 = skip_while (if hex then c_isxdigit else c_isdigit) buf c4"
  define c6 where "c6 = skip_while c_isblank buf c5"
  define c7 where "c7 = (if c6 < length buf \<and> (buf ! c6 = 59 \<or> buf ! c6 = 44) then c6 + 1 else c6)"
  have dfe: "duration_field_end buf start =
     (if length buf \<le> c1 \<or> buf ! c1 \<noteq> 58 then 0
      else if c4 = c5 \<or> (c5 < length buf \<and> identifier_character (buf ! c5)) then 0
      else skip_while c_isblank buf c7)"
    unfolding duration_field_end_def Let_def c1_def c2_def c3_def hex_def c4_def c5_def c6_def c7_def ..
  define a where "a = dropWhile c_isspace (drop (start + length duration_ms) buf)"
  define b where "b = dropWhile c_isspace (tl a)"
  define c where "c = (if b \<noteq> [] \<and> (hd b = 43 \<or> hd b = 45) then tl b else b)"
  define hex' where "hex' = (1 < length c \<and> c ! 0 = 48 \<and> (c ! 1 = 120 \<or> c ! 1 = 88))"
  define d where "d = (if hex' then drop 2 c else c)"
  define P where "P = (if hex' then c_isxdigit else c_isdigit)"
  define e where "e = dropWhile P d"
  define f where "f = dropWhile c_isblank e"
  define g where "g = (if f \<noteq> [] \<and> (hd f = 59 \<or> hd f = 44) then tl f else f)"
  have fr: "field_rest (drop (start + length duration_ms) buf) =
     (if a = [] \<or> hd a \<noteq> 58 then None
      else if takeWhile P d = [] \<or> (e \<noteq> [] \<and> identifier_character (hd e)) then None else Some (dropWhile c_isblank g))"
    unfolding field_rest_def Let_def a_def b_def c_def hex'_def d_def P_def e_def f_def g_def ..
  have le: "c1 \<le> length buf"
    using skip_while_le [OF assms] by (simp add: c1_def)
  have da: "a = drop c1 buf"
    by (simp add: a_def c1_def)
  have ha: "a = [] \<or> hd a \<noteq> 58 \<longleftrightarrow> length buf \<le> c1 \<or> buf ! c1 \<noteq> 58"
    by (cases "c1 < length buf") (simp_all add: da hd_drop_conv_nth)
  show ?thesis
  proof (cases "a = [] \<or> hd a \<noteq> 58")
    case True
    then show ?thesis
      using ha fr dfe by simp
  next
    case False
    then have c1: "c1 < length buf"
      using ha by simp
    have c2: "c2 \<le> length buf" "b = drop c2 buf"
      using c1 skip_while_le [of "c1 + 1" buf c_isspace] by (simp_all add: c2_def b_def da drop_Suc tl_drop)
    have c3: "c3 \<le> length buf" "c = drop c3 buf"
      using c2 by (cases "c2 < length buf"; auto simp: c3_def c_def hd_drop_conv_nth drop_Suc tl_drop)+
    have h: "hex' = hex"
      using c3 by (auto simp: hex'_def hex_def)
    have c4: "c4 \<le> length buf" "d = drop c4 buf"
      using c3 h by (auto simp: c4_def d_def hex_def)
    have c5: "c5 \<le> length buf" "e = drop c5 buf" "takeWhile P d = [] \<longleftrightarrow> c4 = c5"
    proof -
      show "c5 \<le> length buf" "e = drop c5 buf"
        using c4 h skip_while_le [OF c4(1)] by (simp_all add: c5_def e_def P_def)
      show "takeWhile P d = [] \<longleftrightarrow> c4 = c5"
        using c4 h by (auto simp: c5_def P_def skip_while_len)
    qed
    have c6: "c6 \<le> length buf" "f = drop c6 buf"
      using c5 skip_while_le [OF c5(1)] by (simp_all add: c6_def f_def)
    have c7: "c7 \<le> length buf" "g = drop c7 buf"
      using c6 by (cases "c6 < length buf"; auto simp: c7_def g_def hd_drop_conv_nth drop_Suc tl_drop)+
    have i: "e \<noteq> [] \<and> identifier_character (hd e) \<longleftrightarrow> c5 < length buf \<and> identifier_character (buf ! c5)"
      using c5 by (cases "c5 < length buf") (simp_all add: hd_drop_conv_nth)
    have pos: "c7 \<le> skip_while c_isblank buf c7" "c6 \<le> c7" "c5 \<le> c6" "c4 \<le> c5" "c3 \<le> c4" "c2 \<le> c3" "c1 + 1 \<le> c2"
      using skip_while_ge by (simp_all add: c7_def c6_def c5_def c4_def c3_def c2_def)
    show ?thesis
      using False ha fr dfe i c5(3) c7 skip_while_le [OF c7(1)] pos by auto
  qed
qed


lemma field_rest_length:
  assumes "field_rest xs = Some r"
  shows "length r \<le> length xs"
proof -
  define a where "a = dropWhile c_isspace xs"
  define b where "b = dropWhile c_isspace (tl a)"
  define c where "c = (if b \<noteq> [] \<and> (hd b = 43 \<or> hd b = 45) then tl b else b)"
  define hex where "hex = (1 < length c \<and> c ! 0 = 48 \<and> (c ! 1 = 120 \<or> c ! 1 = 88))"
  define d where "d = (if hex then drop 2 c else c)"
  define P where "P = (if hex then c_isxdigit else c_isdigit)"
  define e where "e = dropWhile P d"
  define f where "f = dropWhile c_isblank e"
  define g where "g = (if f \<noteq> [] \<and> (hd f = 59 \<or> hd f = 44) then tl f else f)"
  have "field_rest xs =
     (if a = [] \<or> hd a \<noteq> 58 then None
      else if takeWhile P d = [] \<or> (e \<noteq> [] \<and> identifier_character (hd e)) then None else Some (dropWhile c_isblank g))"
    unfolding field_rest_def Let_def a_def b_def c_def hex_def d_def P_def e_def f_def g_def ..
  then have "r = dropWhile c_isblank g"
    using assms by (simp split: if_splits)
  moreover have "length a \<le> length xs" "length b \<le> length (tl a)" "length e \<le> length d" "length f \<le> length e"
      "length (dropWhile c_isblank g) \<le> length g"
    unfolding a_def b_def e_def f_def by (rule length_dropWhile_le)+
  moreover have "length c \<le> length b" "length g \<le> length f"
    unfolding c_def g_def by simp_all
  moreover have "length d \<le> length c"
    unfolding d_def by simp
  ultimately show ?thesis
    by simp
qed

text \<open>The text without its top-level duration fields, by recursion on the tokens.\<close>

function strip_duration :: "nat \<Rightarrow> bytes \<Rightarrow> bytes" where
  "strip_duration d [] = []"
| "strip_duration d (c # cs) =
     (if c = 34 \<or> c = 39
      then let n = string_len c False cs in c # take n cs @ strip_duration d (drop n cs)
      else if c = 35
      then let n = line_len cs in c # take n cs @ strip_duration d (drop n cs)
      else if c = 47 \<and> cs \<noteq> [] \<and> hd cs = 47
      then let n = line_len (tl cs) in c # hd cs # take n (tl cs) @ strip_duration d (drop n (tl cs))
      else if c = 47 \<and> cs \<noteq> [] \<and> hd cs = 42
      then let n = block_len (tl cs) in c # hd cs # take n (tl cs) @ strip_duration d (drop n (tl cs))
      else if c = 123 \<or> c = 60 then c # strip_duration (d + 1) cs
      else if c = 125 \<or> c = 62 then c # strip_duration (d - 1) cs
      else if d = 0 \<and> identifier_start c
      then let name = c # takeWhile identifier_character cs; rest = dropWhile identifier_character cs in
        (if name = duration_ms
         then (case field_rest rest of
                 Some r \<Rightarrow> strip_duration d r
               | None \<Rightarrow> name @ strip_duration d rest)
         else name @ strip_duration d rest)
      else c # strip_duration d cs)"
  by pat_completeness auto
termination
  by (relation "measure (\<lambda>(d, cs). length cs)")
    (auto simp: less_Suc_eq_le length_dropWhile_le intro: le_trans [OF field_rest_length] le_trans [OF diff_le_self])

declare strip_duration.simps(2) [simp del]

text \<open>What is left to write from a state of the scanner.\<close>

fun strip_from :: "scan_state \<Rightarrow> u8 \<Rightarrow> bool \<Rightarrow> nat \<Rightarrow> bytes \<Rightarrow> bytes" where
  "strip_from SCAN_NORMAL q escaped d xs = strip_duration d xs"
| "strip_from SCAN_STRING q escaped d xs =
     (let n = string_len q escaped xs in take n xs @ strip_duration d (drop n xs))"
| "strip_from SCAN_LINE_COMMENT q escaped d xs = (let n = line_len xs in take n xs @ strip_duration d (drop n xs))"
| "strip_from SCAN_BLOCK_COMMENT q escaped d xs = (let n = block_len xs in take n xs @ strip_duration d (drop n xs))"

definition scan_ok :: "errno option \<times> out_fd \<Rightarrow> out_fd \<Rightarrow> bytes \<Rightarrow> bool" where
  "scan_ok r fd full \<longleftrightarrow>
     (\<exists>u v. full = u @ v \<and> out_bytes (snd r) = out_bytes fd @ u) \<and> (fst r = None \<longrightarrow> out_bytes (snd r) = out_bytes fd @ full) \<and>
     (benign_out fd \<longrightarrow> fst r = None \<and> benign_out (snd r))"

lemma write_all_ok: "scan_ok (write_all fd data) fd data"
proof -
  obtain r fd' where r: "write_exact fd data = (r, fd')"
    by fastforce
  obtain k where k: "out_bytes fd' = out_bytes fd @ take k data" "r = None \<longrightarrow> out_bytes fd' = out_bytes fd @ data"
      "benign_out fd \<longrightarrow> r = None \<and> benign_out fd'"
    using write_exact_spec [OF r] by blast
  have "\<exists>u v. data = u @ v \<and> out_bytes fd' = out_bytes fd @ u"
    using k(1) by (intro exI [of _ "take k data"] exI [of _ "drop k data"]) simp
  then show ?thesis
    using k r by (simp add: scan_ok_def write_all_def)
qed

lemma scan_ok_chain:
  assumes "scan_ok (None, fd1) fd a" and "scan_ok r fd1 b"
  shows "scan_ok r fd (a @ b)"
proof -
  have o: "out_bytes fd1 = out_bytes fd @ a" "benign_out fd \<longrightarrow> benign_out fd1"
    using assms(1) unfolding scan_ok_def fst_conv snd_conv by blast+
  obtain u v where u: "b = u @ v" "out_bytes (snd r) = out_bytes fd1 @ u"
    using assms(2) unfolding scan_ok_def by blast
  have "\<exists>u v. a @ b = u @ v \<and> out_bytes (snd r) = out_bytes fd @ u"
    using u o by (intro exI [of _ "a @ u"] exI [of _ v]) simp
  then show ?thesis
    using assms(2) o unfolding scan_ok_def by simp
qed

lemma scan_ok_stop: "scan_ok (Some e, fd1) fd a \<Longrightarrow> scan_ok (Some e, fd1) fd (a @ b)"
  unfolding scan_ok_def by auto

lemma scan_ok_seq:
  assumes "scan_ok a fd u" and "fst a = None \<Longrightarrow> scan_ok b (snd a) v"
  shows "scan_ok (if fst a \<noteq> None then a else b) fd (u @ v)"
proof (cases "fst a")
  case None
  then have "scan_ok (None, snd a) fd u"
    using assms(1) by (metis prod.collapse)
  then show ?thesis
    using None assms(2) scan_ok_chain by simp
next
  case (Some e)
  then have "a = (Some e, snd a)"
    by (simp add: prod_eq_iff)
  then show ?thesis
    using Some assms(1) scan_ok_stop by (metis option.distinct(1))
qed

text \<open>One step of the scanner in its normal state, against one token of the reference.\<close>

lemma strip_from_step:
  assumes "xs = c # cs"
  shows "strip_from SCAN_STRING q e d xs =
      (if e then c # strip_from SCAN_STRING q False d cs
       else if c = 92 then c # strip_from SCAN_STRING q True d cs
       else if c = q then c # strip_from SCAN_NORMAL q False d cs
       else c # strip_from SCAN_STRING q False d cs)"
    and "strip_from SCAN_LINE_COMMENT q e d xs =
      c # strip_from (if c = 10 then SCAN_NORMAL else SCAN_LINE_COMMENT) q e d cs"
    and "strip_from SCAN_BLOCK_COMMENT q e d xs =
      (if c = 42 \<and> cs \<noteq> [] \<and> hd cs = 47 then c # hd cs # strip_from SCAN_NORMAL q e d (tl cs)
       else c # strip_from SCAN_BLOCK_COMMENT q e d cs)"
  using assms by (auto simp: Let_def numeral_2_eq_2 neq_Nil_conv) (cases cs; simp)+

lemma scan_loop_ok:
  assumes "cursor \<le> index" "index \<le> length buf" "length buf < 2 ^ 32" "unat depth \<le> index" "state \<noteq> SCAN_STRING \<longrightarrow> \<not> escaped"
  shows "scan_ok (scan_loop buf state quote cursor index depth escaped fd) fd
     (take (index - cursor) (drop cursor buf) @ strip_from state quote escaped (unat depth) (drop index buf))"
  using assms
proof (induction "length buf - index" arbitrary: state quote cursor index depth escaped fd rule: less_induct)
  case less
  let ?seg = "\<lambda>i. take (i - cursor) (drop cursor buf)"
  show ?case
  proof (cases "index < length buf")
    case False
    then have "index = length buf"
      using less.prems by simp
    moreover have "scan_loop buf state quote cursor index depth escaped fd = write_all fd (drop cursor buf)"
      using False by (subst scan_loop.simps) (simp only: not_False_eq_True if_True)
    ultimately show ?thesis
      using write_all_ok [of fd "drop cursor buf"] less.prems by (cases state) (simp_all add: Let_def)
  next
    case True
    define c where "c = buf ! index"
    define cs where "cs = drop (Suc index) buf"
    have xs: "drop index buf = c # cs"
      using True by (simp add: c_def cs_def Cons_nth_drop_Suc)
    have seg: "?seg (index + n) = ?seg index @ take n (drop index buf)" for n
    proof -
      have a: "index + n - cursor = (index - cursor) + n"
        using less.prems(1) by simp
      show ?thesis
        unfolding a take_add drop_drop using less.prems(1) by simp
    qed
    have go: "scan_ok (scan_loop buf state quote cursor index depth escaped fd) fd (?seg index @ full)"
      if "scan_loop buf state quote cursor index depth escaped fd = scan_loop buf s' q' cursor (index + n) d' e' fd"
        and "0 < n" "index + n \<le> length buf" "unat d' \<le> index + n" "s' \<noteq> SCAN_STRING \<longrightarrow> \<not> e'"
        and "full = take n (drop index buf) @ strip_from s' q' e' (unat d') (drop (index + n) buf)"
      for s' q' n d' e' full
      using less.hyps [of "index + n" cursor d' s' e' q' fd] that less.prems(1,3) True by (simp add: seg)
    have nx1: "index + 1 < length buf \<Longrightarrow> buf ! (index + 1) = hd cs"
      by (simp add: cs_def hd_drop_conv_nth)
    have nx: "index + 1 < length buf \<longleftrightarrow> cs \<noteq> []" "index + 1 < length buf \<Longrightarrow> buf ! (index + 1) = hd cs"
        "drop (index + 1) buf = cs" "drop (index + 2) buf = tl cs" "index + 1 \<le> length buf"
      using True nx1 by (auto simp: cs_def drop_Suc tl_drop)
    have tk: "take 1 (drop index buf) = [c]" "cs \<noteq> [] \<Longrightarrow> take 2 (drop index buf) = [c, hd cs]"
      by (simp_all add: xs numeral_2_eq_2 neq_Nil_conv) (auto simp: neq_Nil_conv)
    note u = scan_loop.simps [of buf state quote cursor index depth escaped fd]
    show ?thesis
    proof (cases state)
      case SCAN_STRING
      note su = u [unfolded SCAN_STRING scan_state.case Let_def c_def [symmetric]]
      define s' where "s' = (if \<not> escaped \<and> c \<noteq> 92 \<and> c = quote then SCAN_NORMAL else SCAN_STRING)"
      define e' where "e' = (\<not> escaped \<and> c = 92)"
      have eq: "scan_loop buf state quote cursor index depth escaped fd = scan_loop buf s' quote cursor (index + 1) depth e' fd"
        unfolding SCAN_STRING su using True by (auto simp: s'_def e'_def)
      have "strip_from state quote escaped (unat depth) (drop index buf) = c # strip_from s' quote e' (unat depth) cs"
        unfolding SCAN_STRING strip_from_step(1) [OF xs] by (simp add: s'_def e'_def)
      then show ?thesis
        by (intro go [OF eq]) (use nx tk less.prems(4) in \<open>auto simp: s'_def e'_def\<close>)
    next
      case SCAN_LINE_COMMENT
      note su = u [unfolded SCAN_LINE_COMMENT scan_state.case Let_def c_def [symmetric]]
      have eq: "scan_loop buf state quote cursor index depth escaped fd =
          scan_loop buf (if c = 10 then SCAN_NORMAL else SCAN_LINE_COMMENT) quote cursor (index + 1) depth escaped fd"
        unfolding SCAN_LINE_COMMENT su using True by auto
      have "strip_from state quote escaped (unat depth) (drop index buf) =
          c # strip_from (if c = 10 then SCAN_NORMAL else SCAN_LINE_COMMENT) quote escaped (unat depth) cs"
        unfolding SCAN_LINE_COMMENT strip_from_step(2) [OF xs] ..
      then show ?thesis
        by (intro go [OF eq]) (use nx tk less.prems(4,5) SCAN_LINE_COMMENT in auto)
    next
      case SCAN_BLOCK_COMMENT
      note su = u [unfolded SCAN_BLOCK_COMMENT scan_state.case Let_def c_def [symmetric]]
      show ?thesis
      proof (cases "c = 42 \<and> cs \<noteq> [] \<and> hd cs = 47")
        case ends: True
        then have i: "index + 1 < length buf" "buf ! (index + 1) = 47"
          using nx by auto
        have eq: "scan_loop buf state quote cursor index depth escaped fd = scan_loop buf SCAN_NORMAL quote cursor (index + 2) depth escaped fd"
          unfolding SCAN_BLOCK_COMMENT su using True ends i by auto
        have "strip_from state quote escaped (unat depth) (drop index buf) = c # hd cs # strip_from SCAN_NORMAL quote escaped (unat depth) (tl cs)"
          unfolding SCAN_BLOCK_COMMENT strip_from_step(3) [OF xs] using ends by simp
        then show ?thesis
          by (intro go [OF eq]) (use nx tk i ends less.prems(4,5) SCAN_BLOCK_COMMENT in auto)
      next
        case inside: False
        have eq: "scan_loop buf state quote cursor index depth escaped fd =
            scan_loop buf SCAN_BLOCK_COMMENT quote cursor (index + 1) depth escaped fd"
          unfolding SCAN_BLOCK_COMMENT su using True inside nx by auto
        have "strip_from state quote escaped (unat depth) (drop index buf) = c # strip_from SCAN_BLOCK_COMMENT quote escaped (unat depth) cs"
          unfolding SCAN_BLOCK_COMMENT strip_from_step(3) [OF xs] using inside by auto
        then show ?thesis
          by (intro go [OF eq]) (use nx tk less.prems(4,5) SCAN_BLOCK_COMMENT in auto)
      qed
    next
      case SCAN_NORMAL
      have esc: "\<not> escaped"
        using less.prems(5) SCAN_NORMAL by simp
      have sf: "strip_from state quote escaped (unat depth) (drop index buf) = strip_duration (unat depth) (c # cs)"
        by (simp add: SCAN_NORMAL xs)
      note nu = u [unfolded SCAN_NORMAL scan_state.case Let_def c_def [symmetric]]
      have n47: "identifier_start c \<longrightarrow> c \<noteq> 47"
        by (auto simp: identifier_start_def c_isalpha_def)
      consider (quotes) "c = 34 \<or> c = 39" | (hash) "c = 35"
        | (line) "c = 47" "cs \<noteq> []" "hd cs = 47" | (block) "c = 47" "cs \<noteq> []" "hd cs = 42"
        | (opens) "c = 123 \<or> c = 60" | (closes) "c = 125 \<or> c = 62"
        | (name) "unat depth = 0" "identifier_start c" "c \<noteq> 47"
        | (plain) "c \<noteq> 34" "c \<noteq> 39" "c \<noteq> 35" "c = 47 \<longrightarrow> cs \<noteq> [] \<longrightarrow> hd cs \<noteq> 47 \<and> hd cs \<noteq> 42" "c \<noteq> 123" "c \<noteq> 60" "c \<noteq> 125" "c \<noteq> 62"
            "\<not> (unat depth = 0 \<and> identifier_start c)"
        using n47 by argo
      then show ?thesis
      proof cases
        case quotes
        have eq: "scan_loop buf state quote cursor index depth escaped fd = scan_loop buf SCAN_STRING c cursor (index + 1) depth escaped fd"
          unfolding SCAN_NORMAL nu using True quotes by auto
        have "strip_duration (unat depth) (c # cs) = c # strip_from SCAN_STRING c False (unat depth) cs"
          using quotes by (auto simp add: strip_duration.simps(2) Let_def)
        then show ?thesis
          unfolding sf using esc by (intro go [OF eq]) (use nx tk less.prems(4) in auto)
      next
        case hash
        have eq: "scan_loop buf state quote cursor index depth escaped fd = scan_loop buf SCAN_LINE_COMMENT quote cursor (index + 1) depth escaped fd"
          unfolding SCAN_NORMAL nu using True hash by auto
        have "strip_duration (unat depth) (c # cs) = c # strip_from SCAN_LINE_COMMENT quote False (unat depth) cs"
          using hash by (simp add: strip_duration.simps(2) Let_def)
        then show ?thesis
          unfolding sf using esc by (intro go [OF eq]) (use nx tk less.prems(4) in auto)
      next
        case line
        have eq: "scan_loop buf state quote cursor index depth escaped fd = scan_loop buf SCAN_LINE_COMMENT quote cursor (index + 2) depth escaped fd"
          unfolding SCAN_NORMAL nu using True line nx by auto
        have "strip_duration (unat depth) (c # cs) = c # hd cs # strip_from SCAN_LINE_COMMENT quote False (unat depth) (tl cs)"
          using line by (simp add: strip_duration.simps(2) Let_def)
        then show ?thesis
          unfolding sf using esc by (intro go [OF eq]) (use nx tk line less.prems(4) in auto)
      next
        case block
        have eq: "scan_loop buf state quote cursor index depth escaped fd = scan_loop buf SCAN_BLOCK_COMMENT quote cursor (index + 2) depth escaped fd"
          unfolding SCAN_NORMAL nu using True block nx by auto
        have "strip_duration (unat depth) (c # cs) = c # hd cs # strip_from SCAN_BLOCK_COMMENT quote False (unat depth) (tl cs)"
          using block by (simp add: strip_duration.simps(2) Let_def)
        then show ?thesis
          unfolding sf using esc by (intro go [OF eq]) (use nx tk block less.prems(4) in auto)
      next
        case opens
        have d: "unat (depth + 1) = unat depth + 1"
          using less.prems(2,3,4) True by (simp add: unat_word_ariths)
        have eq: "scan_loop buf state quote cursor index depth escaped fd = scan_loop buf SCAN_NORMAL quote cursor (index + 1) (depth + 1) escaped fd"
          unfolding SCAN_NORMAL nu using True opens by auto
        have "strip_duration (unat depth) (c # cs) = c # strip_duration (unat depth + 1) cs"
          using opens by (auto simp add: strip_duration.simps(2) Let_def)
        then show ?thesis
          unfolding sf using esc by (intro go [OF eq]) (use nx tk d less.prems(4) in auto)
      next
        case closes
        let ?d = "if depth \<noteq> 0 then depth - 1 else depth"
        have d: "unat ?d = unat depth - 1"
          using unat_eq_zero [of depth] by (auto simp: unat_sub_if' word_le_nat_alt Suc_le_eq)
        have eq: "scan_loop buf state quote cursor index depth escaped fd = scan_loop buf SCAN_NORMAL quote cursor (index + 1) ?d escaped fd"
          unfolding SCAN_NORMAL nu using True closes by auto
        have "strip_duration (unat depth) (c # cs) = c # strip_duration (unat depth - 1) cs"
          using closes by (auto simp add: strip_duration.simps(2) Let_def)
        then show ?thesis
          unfolding sf using esc by (intro go [OF eq]) (use nx tk d less.prems(4) in auto)
      next
        case plain
        have eq: "scan_loop buf state quote cursor index depth escaped fd = scan_loop buf SCAN_NORMAL quote cursor (index + 1) depth escaped fd"
          unfolding SCAN_NORMAL nu using True plain nx by (auto simp: unat_eq_zero)
        have "strip_duration (unat depth) (c # cs) = c # strip_duration (unat depth) cs"
          using plain by (auto simp: strip_duration.simps(2) Let_def)
        then show ?thesis
          unfolding sf using esc by (intro go [OF eq]) (use nx tk less.prems(4) in auto)
      next
        case name
        define nm where "nm = c # takeWhile identifier_character cs"
        define rest where "rest = dropWhile identifier_character cs"
        define ie where "ie = skip_while identifier_character buf (index + 1)"
        have ie: "ie = index + length nm"
          by (simp add: ie_def nm_def cs_def skip_while_len)
        have nmr: "drop index buf = nm @ rest"
          by (simp add: xs nm_def rest_def)
        have rest: "drop ie buf = rest" "take (length nm) (drop index buf) = nm"
          using nmr by (simp_all add: ie add.commute [of index] drop_drop [symmetric])
        have iele: "ie \<le> length buf"
          using True skip_while_le [of "index + 1" buf] by (simp add: ie_def)
        have cond: "ie - index = length duration_ms \<and> take (length duration_ms) (drop index buf) = duration_ms \<longleftrightarrow> nm = duration_ms"
          using rest(2) by (auto simp: ie)
        have dep: "depth = 0"
          using name(1) by (simp add: unat_eq_zero)
        have tests: "\<not> (c = 34 \<or> c = 39)" "c \<noteq> 35" "\<not> (c = 123 \<or> c = 60)" "\<not> (c = 125 \<or> c = 62)"
          using name(2) by (auto simp: identifier_start_def c_isalpha_def)
        have eq: "scan_loop buf state quote cursor index depth escaped fd =
            (if nm = duration_ms \<and> duration_field_end buf index \<noteq> 0
             then (case write_all fd (?seg index) of
                     (Some e, fd1) \<Rightarrow> (Some e, fd1)
                   | (None, fd1) \<Rightarrow>
                       scan_loop buf SCAN_NORMAL quote (duration_field_end buf index) (duration_field_end buf index) depth escaped fd1)
             else scan_loop buf SCAN_NORMAL quote cursor ie depth escaped fd)"
          unfolding SCAN_NORMAL nu ie_def [symmetric] using True name tests dep by (simp add: cond [symmetric])
        have st: "strip_duration (unat depth) (c # cs) =
            (if nm = duration_ms then (case field_rest rest of Some r \<Rightarrow> strip_duration 0 r | None \<Rightarrow> nm @ strip_duration 0 rest)
             else nm @ strip_duration 0 rest)"
          using name tests unfolding strip_duration.simps(2) by (simp add: Let_def nm_def rest_def cong: option.case_cong)
        show ?thesis
        proof (cases "nm = duration_ms \<and> duration_field_end buf index \<noteq> 0")
          case hit: True
          let ?e = "duration_field_end buf index"
          have fr: "field_rest rest = Some (drop ?e buf)" "?e \<le> length buf"
            using field_end_rest [of index buf] hit iele rest(1) by (simp_all add: ie split: if_splits)
          have spec: "strip_from state quote escaped (unat depth) (drop index buf) = strip_duration 0 (drop ?e buf)"
            unfolding sf st using hit fr by simp
          obtain r fd1 where w: "write_all fd (?seg index) = (r, fd1)"
            by fastforce
          show ?thesis
          proof (cases r)
            case None
            have "scan_ok (scan_loop buf SCAN_NORMAL quote ?e ?e depth escaped fd1) fd1 (strip_duration 0 (drop ?e buf))"
              using less.hyps [of ?e ?e depth SCAN_NORMAL escaped quote fd1] hit fr(2) esc dep less.prems(3)
                duration_field_end_gt [of buf index] True by simp
            then show ?thesis
              unfolding spec eq using hit w None write_all_ok [of fd "?seg index"] scan_ok_chain by simp
          next
            case (Some e)
            then show ?thesis
              unfolding spec eq using hit w write_all_ok [of fd "?seg index"] scan_ok_stop by simp
          qed
        next
          case miss: False
          have "field_rest rest = None" if "nm = duration_ms"
            using field_end_rest [of index buf] miss that iele rest(1) by (simp add: ie split: if_splits)
          then have "strip_duration (unat depth) (c # cs) = nm @ strip_duration (unat depth) rest"
            unfolding st using name(1) by simp
          moreover have "scan_loop buf state quote cursor index depth escaped fd = scan_loop buf SCAN_NORMAL quote cursor (index + length nm) depth escaped fd"
            unfolding eq ie [symmetric] by (simp only: miss if_False)
          then have "scan_ok (scan_loop buf state quote cursor index depth escaped fd) fd
              (?seg index @ nm @ strip_duration (unat depth) rest)"
            by (rule go) (use rest iele esc less.prems(4) in \<open>simp_all add: ie, simp add: nm_def\<close>)
          ultimately show ?thesis
            unfolding sf by simp
        qed
      qed
    qed
  qed
qed

section \<open>The written configuration\<close>

lemma read_config_loop_spec:
  "benign_in fd \<Longrightarrow> read_config_loop fd n acc =
     (if n \<le> length (in_bytes fd) then Inr (acc @ take n (in_bytes fd)) else Inl EIO)"
proof (induction fd n acc rule: read_config_loop.induct)
  case (1 fd n acc)
  obtain r fd' where rd: "sys_read fd n = (r, fd')"
    by force
  note facts = sys_read_cases [OF rd]
  show ?case
  proof (cases "n = 0")
    case True
    then show ?thesis
      by (simp add: read_config_loop.simps)
  next
    case n: False
    note u = read_config_loop.simps [of fd n acc]
    show ?thesis
    proof (cases r)
      case (Inl e)
      then have e: "e = EINTR" "benign_in fd'" "in_bytes fd' = in_bytes fd"
        using facts "1.prems" by auto
      then show ?thesis
        using "1.IH"(1) [OF n rd [symmetric] Inl] Inl rd n u by simp
    next
      case (Inr got)
      then have g: "benign_in fd'" "in_bytes fd = got @ in_bytes fd'" "length got \<le> n"
          "got = [] \<longrightarrow> in_bytes fd = []"
        using facts "1.prems" n by auto
      show ?thesis
      proof (cases "got = []")
        case True
        then show ?thesis
          using g Inr rd n u by simp
      next
        case False
        then show ?thesis
          using "1.IH"(2) [OF n rd [symmetric] Inr] g Inr rd n u by auto
      qed
    qed
  qed
qed

lemma duration_line_fits:
  "length (duration_line d) < 64" "digits_value (decimal_loop ((ucast d + 1) * 1000) []) = (unat d + 1) * 1000"
proof -
  let ?v = "(ucast d + 1) * 1000 :: u64"
  have d: "unat d < 2 ^ 32"
    using unsigned_less [of d] by simp
  then have u: "unat (ucast d :: u64) = unat d"
    by (simp add: unsigned_ucast_eq take_bit_nat_eq_self)
  then have v: "unat ?v = (unat d + 1) * 1000"
    using d by (simp add: unat_word_ariths)
  have "unat ?v < 10 ^ Suc 19"
    using d v by simp
  then have "length (decimal_loop ?v []) \<le> Suc 19"
    using decimal_loop_digits [of ?v] by blast
  then show "length (duration_line d) < 64"
    by (simp add: duration_line_def cstr_def)
  show "digits_value (decimal_loop ?v []) = (unat d + 1) * 1000"
    using decimal_loop_digits [of ?v] v by simp
qed

lemma strip_written:
  assumes "length buf < 2 ^ 32"
  shows "scan_ok (write_without_top_level_duration fd buf) fd (strip_duration 0 buf)"
  using scan_loop_ok [of 0 0 buf 0 SCAN_NORMAL False 0 fd] assms
  by (simp add: write_without_top_level_duration_def)

lemma custom_written:
  assumes "read_config mem f = Inr buf" and "buf \<noteq> []" and "length buf < 2 ^ 32" and "duration_s \<noteq> 0"
    and full: "full = strip_duration 0 buf @
          (if ring_buffer then [] else (if last buf \<noteq> 10 then [10] else []) @ duration_line duration_s)"
  shows "\<exists>res. perfetto_config_write_custom mem (Some fd) (Some f) duration_s ring_buffer = (fst res, Some (snd res)) \<and> scan_ok res fd full"
proof -
  define w where "w = write_without_top_level_duration fd buf"
  define nl where "nl = (if last buf \<noteq> 10 then write_all (snd w) [10] else (None, snd w))"
  define res where "res = (if fst w \<noteq> None \<or> ring_buffer then w
     else if fst nl \<noteq> None then nl else write_all (snd nl) (duration_line duration_s))"
  have run: "perfetto_config_write_custom mem (Some fd) (Some f) duration_s ring_buffer = (fst res, Some (snd res))"
    using assms(1,2,4) duration_line_fits(1) [of duration_s]
    unfolding perfetto_config_write_custom_def res_def nl_def w_def
    by (auto split: prod.splits option.splits if_splits)
  have w: "scan_ok w fd (strip_duration 0 buf)"
    unfolding w_def by (rule strip_written [OF assms(3)])
  have nl: "scan_ok nl (snd w) (if last buf \<noteq> 10 then [10] else [])"
    unfolding nl_def using write_all_ok by (auto simp: scan_ok_def)
  have line: "scan_ok res (snd w) ((if last buf \<noteq> 10 then [10] else []) @ duration_line duration_s)"
    if "fst w = None" "\<not> ring_buffer"
    using that scan_ok_seq [OF nl write_all_ok [of "snd nl" "duration_line duration_s"]] by (simp add: res_def)
  have "scan_ok res fd full"
  proof (cases "ring_buffer")
    case True
    then show ?thesis
      using w by (simp add: res_def full)
  next
    case False
    have "scan_ok (if fst w \<noteq> None then w else res) fd full"
      unfolding full using scan_ok_seq [OF w line] False by (cases "fst w") auto
    then show ?thesis
      using False by (simp add: res_def split: if_splits)
  qed
  then show ?thesis
    using run by blast
qed

text \<open>
  C28. A custom configuration reaches the tracing service without its top-level duration and with the
  duration of the session.  For a regular file of at most 4 MiB whose reads are only short or
  interrupted, the bytes added to the output are a prefix of the reference text: the file with each
  top-level \<open>duration_ms\<close> number field removed (strings, comments and nested messages untouched),
  and, unless a ring buffer is used, a newline when the file does not end in one, and one line whose
  number is a thousand times the duration plus one second.  The reference text is written completely
  when success is reported, success is reported when the writes are only short or interrupted, and a
  file that shrank below its recorded size is \<open>EIO\<close> with nothing written.
\<close>

theorem perfetto_config_strips_duration:
  assumes "cf_open_err f = None" "cf_stat_err f = None" "cf_regular f" "benign_in (cf_fd f)"
    and "0 < cf_size f" "cf_size f \<le> 4194304" "mem (nat (cf_size f) + 1)" "duration_s \<noteq> 0"
    and "buf = take (nat (cf_size f)) (in_bytes (cf_fd f))"
    and "full = strip_duration 0 buf @
          (if ring_buffer then [] else (if last buf \<noteq> 10 then [10] else []) @ duration_line duration_s)"
    and "perfetto_config_write_custom mem (Some fd) (Some f) duration_s ring_buffer = (err, out)"
  shows "(length (in_bytes (cf_fd f)) < nat (cf_size f) \<longrightarrow> err = Some EIO \<and> out = Some fd) \<and>
    (nat (cf_size f) \<le> length (in_bytes (cf_fd f)) \<longrightarrow>
       (\<exists>fd' u v. out = Some fd' \<and> full = u @ v \<and> out_bytes fd' = out_bytes fd @ u \<and>
          (err = None \<longrightarrow> v = []) \<and> (benign_out fd \<longrightarrow> err = None))) \<and>
    duration_line duration_s =
      cstr ''duration_ms: '' @ decimal_loop ((ucast duration_s + 1) * 1000) [] @ [10] \<and>
    digits_value (decimal_loop ((ucast duration_s + 1) * 1000) []) = (unat duration_s + 1) * 1000"
proof (intro conjI impI)
  have rc: "read_config mem f = (if nat (cf_size f) \<le> length (in_bytes (cf_fd f)) then Inr buf else Inl EIO)"
    using assms(1-7,9) by (simp add: read_config_def MAX_CUSTOM_CONFIG_BYTES_def read_config_loop_spec)
  {
    assume "length (in_bytes (cf_fd f)) < nat (cf_size f)"
    then show "err = Some EIO" "out = Some fd"
      using assms(8,11) rc by (auto simp: perfetto_config_write_custom_def)
  }
  assume sz: "nat (cf_size f) \<le> length (in_bytes (cf_fd f))"
  then have len: "buf \<noteq> []" "length buf < 2 ^ 32"
    using assms(5,6,9) by auto
  have "read_config mem f = Inr buf"
    using rc sz by simp
  from custom_written [OF this len assms(8,10), of fd] obtain res where
      "(err, out) = (fst res, Some (snd res))" "scan_ok res fd full"
    using assms(11) by auto
  then show "\<exists>fd' u v. out = Some fd' \<and> full = u @ v \<and> out_bytes fd' = out_bytes fd @ u \<and>
          (err = None \<longrightarrow> v = []) \<and> (benign_out fd \<longrightarrow> err = None)"
    unfolding scan_ok_def by auto
next
  show "duration_line duration_s = cstr ''duration_ms: '' @ decimal_loop ((ucast duration_s + 1) * 1000) [] @ [10]"
    by (rule duration_line_def)
  show "digits_value (decimal_loop ((ucast duration_s + 1) * 1000) []) = (unat duration_s + 1) * 1000"
    by (rule duration_line_fits(2))
qed

definition config_demo_file :: config_file where
  "config_demo_file = \<lparr>cf_open_err = None, cf_stat_err = None, cf_regular = True, cf_size = 29,
     cf_fd = \<lparr>in_bytes = cstr ''a{duration_ms:1}duration_ms:5'', in_sched = [RIntr, RXfer 3]\<rparr>\<rparr>"

theorem perfetto_config_strips_duration_witness:
  "perfetto_config_write_custom (\<lambda>_. True) (Some \<lparr>out_bytes = [], out_sched = [WXfer 2]\<rparr>) (Some config_demo_file) 9 False =
     (None, Some \<lparr>out_bytes = cstr ''a{duration_ms:1}'' @ [10] @ cstr ''duration_ms: 10000'' @ [10], out_sched = []\<rparr>) \<and>
   (\<exists>fd' u v. Some \<lparr>out_bytes = cstr ''a{duration_ms:1}'' @ [10] @ cstr ''duration_ms: 10000'' @ [10], out_sched = []\<rparr> = Some fd' \<and>
      strip_duration 0 (cstr ''a{duration_ms:1}duration_ms:5'') @ [10] @ duration_line 9 = u @ v \<and>
      out_bytes fd' = [] @ u \<and> v = [])"
proof -
  have run: "perfetto_config_write_custom (\<lambda>_. True) (Some \<lparr>out_bytes = [], out_sched = [WXfer 2]\<rparr>) (Some config_demo_file) 9 False =
     (None, Some \<lparr>out_bytes = cstr ''a{duration_ms:1}'' @ [10] @ cstr ''duration_ms: 10000'' @ [10], out_sched = []\<rparr>)"
  proof -
    have "read_config (\<lambda>_. True) config_demo_file = Inr (cstr ''a{duration_ms:1}duration_ms:5'')"
      by code_simp
    moreover have "write_without_top_level_duration \<lparr>out_bytes = [], out_sched = [WXfer 2]\<rparr>
        (cstr ''a{duration_ms:1}duration_ms:5'') = (None, \<lparr>out_bytes = cstr ''a{duration_ms:1}'', out_sched = []\<rparr>)"
      by code_simp
    moreover have "duration_line 9 = cstr ''duration_ms: 10000'' @ [10]"
      by (simp add: duration_line_def decimal_loop.simps cstr_def)
    ultimately show ?thesis
      by (simp add: perfetto_config_write_custom_def write_all_def write_exact.simps sys_write.simps cstr_def)
  qed
  have pre: "cf_open_err config_demo_file = None" "cf_stat_err config_demo_file = None" "cf_regular config_demo_file"
      "benign_in (cf_fd config_demo_file)" "0 < cf_size config_demo_file" "cf_size config_demo_file \<le> 4194304"
      "nat (cf_size config_demo_file) \<le> length (in_bytes (cf_fd config_demo_file))"
    by (simp_all add: config_demo_file_def benign_in_def cstr_def)
  have buf: "cstr ''a{duration_ms:1}duration_ms:5'' = take (nat (cf_size config_demo_file)) (in_bytes (cf_fd config_demo_file))"
    by code_simp
  have nl: "last (cstr ''a{duration_ms:1}duration_ms:5'') \<noteq> 10"
    by code_simp
  have full: "strip_duration 0 (cstr ''a{duration_ms:1}duration_ms:5'') @ [10] @ duration_line 9 =
     strip_duration 0 (cstr ''a{duration_ms:1}duration_ms:5'') @
       (if False then [] else (if last (cstr ''a{duration_ms:1}duration_ms:5'') \<noteq> 10 then [10] else []) @ duration_line 9)"
    by (simp only: nl if_True if_False not_False_eq_True)
  show ?thesis
    using perfetto_config_strips_duration [of config_demo_file "\<lambda>_. True", OF pre(1-6) TrueI _ buf full run] pre(7) run
    by simp
qed

end
