(* ===== verification/TraceCapture.thy ===== *)
theory TraceCapture
  imports TrimStream PerfettoConfig
begin

text \<open>
  The second half of a capture session (\<open>trace_capture.c\<close>): the system tracing process is stopped
  and reaped, its trace is trimmed or copied, the trace of this program is appended, and the
  combined file is put in place or everything is retained.

  The process and the clocks are known only by the answers of the system calls; each loop gets the
  list of answers it will see.  Printed messages are not modelled, apart from the choice they
  depend on.  The signals sent to the process are recorded in the state.
\<close>

section \<open>State\<close>

definition ECHILD :: errno where "ECHILD = EOther 10"
definition ETIMEDOUT :: errno where "ETIMEDOUT = EOther 110"

datatype wait_status = Exited nat | Signaled nat

datatype wait_answer = Reaped wait_status | Running | WaitFails errno

datatype sig = SIGTERM | SIGKILL

record timespec =
  tv_sec :: int
  tv_nsec :: int

record capture_state =
  cs_output :: string
  cs_system_trace :: string
  cs_network_trace :: string
  cs_config :: string
  cs_window_s :: u32
  cs_stop_boottime_ns :: u64
  cs_stop_monotonic_ns :: u64
  cs_ring_buffer :: bool
  cs_stop_requested :: bool
  cs_started :: bool
  cs_system_only :: bool
  cs_child_reaped :: bool
  cs_child_status :: wait_status
  cs_config_created :: bool
  cs_system_created :: bool
  cs_signals :: "sig list"

definition PERFETTO_STOP_TIMEOUT_MS :: u64 where "PERFETTO_STOP_TIMEOUT_MS = 30000"
definition PERFETTO_STOP_IDLE_MS :: u64 where "PERFETTO_STOP_IDLE_MS = 3000"

section \<open>Waiting for the process\<close>

text \<open>
  Polling with \<open>WNOHANG\<close> every 50 ms.  Past the end of the list the process is still running.
\<close>

function wait_child_loop :: "nat \<Rightarrow> nat \<Rightarrow> wait_answer list \<Rightarrow> wait_status result" where
  "wait_child_loop timeout_ms waited answers =
     (if \<not> waited \<le> timeout_ms then Inl ETIMEDOUT
      else case answers of
          Reaped status # _ \<Rightarrow> Inr status
        | WaitFails e # rest \<Rightarrow> if e = EINTR then wait_child_loop timeout_ms waited rest else Inl e
        | Running # rest \<Rightarrow>
            if waited = timeout_ms then Inl ETIMEDOUT else wait_child_loop timeout_ms (waited + 50) rest
        | [] \<Rightarrow> if waited = timeout_ms then Inl ETIMEDOUT else wait_child_loop timeout_ms (waited + 50) [])"
  by pat_completeness auto
termination
  by (relation "measure (\<lambda>(timeout, waited, answers). (timeout + 1 - waited) + length answers)") auto

declare wait_child_loop.simps [simp del]

definition wait_child :: "nat \<Rightarrow> wait_answer list \<Rightarrow> wait_status result" where
  "wait_child timeout_ms answers = wait_child_loop timeout_ms 0 answers"

text \<open>
  One round of \<open>wait_perfetto_stop\<close>: the answers of \<open>waitpid\<close>, \<open>clock_gettime\<close> and \<open>stat\<close>, of
  which the later ones may not be asked for.
\<close>

record stop_round =
  sr_wait :: wait_answer
  sr_clock :: "timespec result"
  sr_size :: "int result"

definition clock_ms :: "timespec \<Rightarrow> u64" where
  "clock_ms t = word_of_int (tv_sec t) * 1000 + word_of_int (tv_nsec t div 1000000)"

definition clock_ns :: "timespec \<Rightarrow> u64" where
  "clock_ns t = word_of_int (tv_sec t) * 1000000000 + word_of_int (tv_nsec t)"

text \<open>
  The result is the status or the error, and \<open>*stalled\<close>; \<open>None\<close> when the loop goes on after the
  last round of the list.
\<close>

fun stop_loop :: "u64 \<Rightarrow> u64 \<Rightarrow> int \<Rightarrow> stop_round list \<Rightarrow> (wait_status result \<times> bool) option" where
  "stop_loop start_ms last_growth_ms last_size [] = None"
| "stop_loop start_ms last_growth_ms last_size (r # rs) =
     (case sr_wait r of
        Reaped status \<Rightarrow> Some (Inr status, False)
      | WaitFails e \<Rightarrow> if e = EINTR then stop_loop start_ms last_growth_ms last_size rs else Some (Inl e, False)
      | Running \<Rightarrow>
          (case sr_clock r of
             Inl e \<Rightarrow> Some (Inl e, False)
           | Inr clock \<Rightarrow>
               (case sr_size r of
                  Inl e \<Rightarrow> Some (Inl e, False)
                | Inr sz \<Rightarrow>
                    let now_ms = clock_ms clock;
                        growth_ms = (if last_size < sz then now_ms else last_growth_ms);
                        elapsed_ms = now_ms - start_ms;
                        idle_ms = now_ms - growth_ms in
                    if PERFETTO_STOP_TIMEOUT_MS \<le> elapsed_ms \<and> PERFETTO_STOP_IDLE_MS \<le> idle_ms
                    then Some (Inl ETIMEDOUT, True)
                    else stop_loop start_ms growth_ms sz rs)))"

definition wait_perfetto_stop :: "timespec result \<Rightarrow> stop_round list \<Rightarrow> (wait_status result \<times> bool) option" where
  "wait_perfetto_stop clock rounds =
     (case clock of
        Inl e \<Rightarrow> Some (Inl e, False)
      | Inr t \<Rightarrow> stop_loop (clock_ms t) (clock_ms t) (- 1) rounds)"

text \<open>What the system answers while a session is finished.\<close>

record finish_env =
  fe_wait :: "wait_answer list"
  fe_stop_boottime :: "timespec result"
  fe_stop_monotonic :: "timespec result"
  fe_stop_clock :: "timespec result"
  fe_rounds :: "stop_round list"
  fe_reap :: "wait_answer list"
  fe_cut_boottime :: "timespec result"
  fe_cut_monotonic :: "timespec result"
  fe_stat_system_err :: "errno option"
  fe_stat_network_err :: "errno option"
  fe_stat_combined_err :: "errno option"
  fe_open_combined_err :: "errno option"
  fe_open_system_err :: "errno option"
  fe_open_network_err :: "errno option"
  fe_system_reads :: "read_step list"
  fe_network_reads :: "read_step list"
  fe_writes :: "write_step list"
  fe_fsync_err :: "errno option"
  fe_close_err :: "errno option"
  fe_rename_err :: "errno option"

definition send_signal :: "sig \<Rightarrow> capture_state \<Rightarrow> capture_state" where
  "send_signal s c = c\<lparr>cs_signals := cs_signals c @ [s]\<rparr>"

definition trace_capture_stop :: "finish_env \<Rightarrow> capture_state \<Rightarrow> capture_state" where
  "trace_capture_stop env c =
     (if \<not> cs_started c \<or> cs_stop_requested c then c
      else let c1 = (if cs_ring_buffer c
                     then (case (fe_stop_boottime env, fe_stop_monotonic env) of
                             (Inr boottime, Inr monotonic) \<Rightarrow>
                               c\<lparr>cs_stop_boottime_ns := clock_ns boottime, cs_stop_monotonic_ns := clock_ns monotonic\<rparr>
                           | _ \<Rightarrow> c)
                     else c) in
        (send_signal SIGTERM c1)\<lparr>cs_stop_requested := True\<rparr>)"

fun exited :: "wait_status \<Rightarrow> bool" where
  "exited (Exited n) = True"
| "exited (Signaled n) = False"

definition reaped_as :: "wait_status \<Rightarrow> capture_state \<Rightarrow> capture_state" where
  "reaped_as status c = c\<lparr>cs_child_reaped := True, cs_child_status := status\<rparr>"

definition stop_perfetto :: "finish_env \<Rightarrow> capture_state \<Rightarrow> (wait_status result \<times> capture_state) option" where
  "stop_perfetto env c =
     (let c1 = trace_capture_stop env c in
      case wait_perfetto_stop (fe_stop_clock env) (fe_rounds env) of
        None \<Rightarrow> None
      | Some (Inr status, stalled) \<Rightarrow> Some (Inr status, reaped_as status c1)
      | Some (Inl err, stalled) \<Rightarrow>
          if stalled
          then let c2 = send_signal SIGKILL c1 in
            (case wait_child 2000 (fe_reap env) of
               Inr status \<Rightarrow> Some (if exited status then Inr status else Inl err, reaped_as status c2)
             | Inl _ \<Rightarrow> Some (Inl err, c2))
          else Some (Inl err, c1))"

section \<open>Files\<close>

definition stat_nonempty :: "errno option \<Rightarrow> bytes option \<Rightarrow> errno option" where
  "stat_nonempty stat_err contents =
     (case stat_err of
        Some e \<Rightarrow> Some e
      | None \<Rightarrow> (case contents of None \<Rightarrow> Some ENOENT | Some data \<Rightarrow> if data = [] then Some ENODATA else None))"

definition file_nonempty :: "errno option \<Rightarrow> file_system \<Rightarrow> string \<Rightarrow> errno option" where
  "file_nonempty stat_err fs path = stat_nonempty stat_err (fs path)"

definition open_read :: "errno option \<Rightarrow> file_system \<Rightarrow> string \<Rightarrow> bytes result" where
  "open_read open_err fs path =
     (case open_err of Some e \<Rightarrow> Inl e | None \<Rightarrow> (case fs path of None \<Rightarrow> Inl ENOENT | Some data \<Rightarrow> Inr data))"

function copy_loop :: "out_fd \<Rightarrow> in_fd \<Rightarrow> errno option \<times> out_fd" where
  "copy_loop out inp =
     (case sys_read inp 65536 of
        (Inr got, inp') \<Rightarrow>
          if got \<noteq> []
          then (case write_all out got of (Some e, out') \<Rightarrow> (Some e, out') | (None, out') \<Rightarrow> copy_loop out' inp')
          else (None, out)
      | (Inl e, inp') \<Rightarrow> if e = EINTR then copy_loop out inp' else (Some e, out))"
  by pat_completeness auto
termination
  by (relation "measure (\<lambda>(out, inp). length (in_sched inp) + length (in_bytes inp))")
    (auto simp: sys_read.simps split: list.splits read_step.splits)

declare copy_loop.simps [simp del]

definition copy_file :: "errno option \<Rightarrow> read_step list \<Rightarrow> file_system \<Rightarrow> out_fd \<Rightarrow> string \<Rightarrow> errno option \<times> out_fd" where
  "copy_file open_err sched fs out path =
     (case open_read open_err fs path of
        Inl e \<Rightarrow> (Some e, out)
      | Inr data \<Rightarrow> copy_loop out \<lparr>in_bytes = data, in_sched = sched\<rparr>)"

definition temporary_path :: "file_system \<Rightarrow> string \<Rightarrow> string \<Rightarrow> string result" where
  "temporary_path fs output suffix =
     (let dest = output @ ''.'' @ suffix @ ''.tmp'' in
      if PATH_MAX \<le> length dest then Inl ENAMETOOLONG
      else if fs dest \<noteq> None then Inl EEXIST
      else Inr dest)"

text \<open>
  \<open>merge_traces\<close>: the staging file exists, empty, while the traces are opened; \<open>rename\<close> is the last
  step and replaces nothing, since the output was checked to be absent.
\<close>

definition write_combined ::
    "allocator \<Rightarrow> finish_env \<Rightarrow> file_system \<Rightarrow> capture_state \<Rightarrow> u64 \<Rightarrow> u64 \<Rightarrow> errno option \<times> out_fd" where
  "write_combined mem env fs c boottime_cutoff_ns monotonic_cutoff_ns =
     (let out = \<lparr>out_bytes = [], out_sched = fe_writes env\<rparr>;
          (err, out1) =
            (if cs_ring_buffer c
             then (case open_read (fe_open_system_err env) fs (cs_system_trace c) of
                     Inl e \<Rightarrow> (Some e, out)
                   | Inr data \<Rightarrow>
                       perfetto_trim_stream mem \<lparr>in_bytes = data, in_sched = fe_system_reads env\<rparr> out
                         boottime_cutoff_ns monotonic_cutoff_ns)
             else copy_file (fe_open_system_err env) (fe_system_reads env) fs out (cs_system_trace c));
          err1 = or_else err (stat_nonempty (fe_stat_combined_err env) (Some (out_bytes out1))) in
      if err1 = None \<and> \<not> cs_system_only c
      then copy_file (fe_open_network_err env) (fe_network_reads env) fs out1 (cs_network_trace c)
      else (err1, out1))"

definition merge_traces ::
    "allocator \<Rightarrow> finish_env \<Rightarrow> file_system \<Rightarrow> capture_state \<Rightarrow> u64 \<Rightarrow> u64 \<Rightarrow> errno option \<times> file_system" where
  "merge_traces mem env fs c boottime_cutoff_ns monotonic_cutoff_ns =
     (case temporary_path fs (cs_output c) ''combined'' of
        Inl e \<Rightarrow> (Some e, fs)
      | Inr temporary \<Rightarrow>
          (case fe_open_combined_err env of
             Some e \<Rightarrow> (Some e, fs)
           | None \<Rightarrow>
               let (err, out) = write_combined mem env (fs(temporary \<mapsto> [])) c boottime_cutoff_ns monotonic_cutoff_ns;
                   err = or_else err (fe_fsync_err env);
                   err = or_else err (fe_close_err env);
                   err = or_else err (if fs (cs_output c) \<noteq> None then Some EEXIST else None);
                   err = or_else err (fe_rename_err env) in
               if err = None then (None, (fs(temporary := None))(cs_output c \<mapsto> out_bytes out))
               else (err, fs(temporary := None))))"

definition cleanup_trace_file :: "string \<Rightarrow> bool \<Rightarrow> file_system \<Rightarrow> file_system" where
  "cleanup_trace_file path failed fs = (if path = [] \<or> failed then fs else fs(path := None))"

definition cleanup_temporary :: "capture_state \<Rightarrow> bool \<Rightarrow> file_system \<Rightarrow> file_system" where
  "cleanup_temporary c failed fs =
     (let fs1 = (if cs_system_created c then cleanup_trace_file (cs_system_trace c) failed fs else fs);
          fs2 = (if cs_network_trace c \<noteq> [] then cleanup_trace_file (cs_network_trace c) failed fs1 else fs1) in
      if cs_config_created c then fs2(cs_config c := None) else fs2)"

section \<open>Finishing\<close>

text \<open>The two cutoffs: the stop times, or the current ones when they are unknown, less the window.\<close>

definition window_start :: "u64 \<Rightarrow> u64 \<Rightarrow> u64" where
  "window_start stop_ns window_ns = (if window_ns < stop_ns then stop_ns - window_ns else 0)"

definition ring_cutoffs :: "finish_env \<Rightarrow> capture_state \<Rightarrow> (u64 \<times> u64) result" where
  "ring_cutoffs env c =
     (if \<not> cs_ring_buffer c then Inr (0, 0)
      else let window_ns = ucast (cs_window_s c) * 1000000000 in
        (case (if cs_stop_boottime_ns c = 0 \<or> cs_stop_monotonic_ns c = 0
               then (case fe_cut_boottime env of
                       Inl e \<Rightarrow> Inl e
                     | Inr boottime \<Rightarrow>
                         (case fe_cut_monotonic env of
                            Inl e \<Rightarrow> Inl e
                          | Inr monotonic \<Rightarrow> Inr (clock_ns boottime, clock_ns monotonic)))
               else Inr (cs_stop_boottime_ns c, cs_stop_monotonic_ns c)) of
           Inl e \<Rightarrow> Inl e
         | Inr (boottime, monotonic) \<Rightarrow> Inr (window_start boottime window_ns, window_start monotonic window_ns)))"

definition finish_wait :: "finish_env \<Rightarrow> capture_state \<Rightarrow> (wait_status result \<times> capture_state) option" where
  "finish_wait env c =
     (if cs_child_reaped c then Some (Inr (cs_child_status c), c)
      else case (if cs_stop_requested c then Inl ETIMEDOUT else wait_child 250 (fe_wait env)) of
          Inr status \<Rightarrow> Some (Inr status, c)
        | Inl e \<Rightarrow> if e = ETIMEDOUT then stop_perfetto env c else Some (Inl e, c))"

definition finish_merge :: "allocator \<Rightarrow> finish_env \<Rightarrow> file_system \<Rightarrow> capture_state \<Rightarrow> wait_status \<Rightarrow> errno option \<times> file_system" where
  "finish_merge mem env fs c status =
     (if status \<noteq> Exited 0 then (Some ECHILD, fs)
      else case ring_cutoffs env c of
          Inl e \<Rightarrow> (Some e, fs)
        | Inr (boottime_cutoff_ns, monotonic_cutoff_ns) \<Rightarrow>
            (case file_nonempty (fe_stat_system_err env) fs (cs_system_trace c) of
               Some e \<Rightarrow> (Some e, fs)
             | None \<Rightarrow>
                 (case (if cs_system_only c then None else file_nonempty (fe_stat_network_err env) fs (cs_network_trace c)) of
                    Some e \<Rightarrow> (Some e, fs)
                  | None \<Rightarrow> merge_traces mem env fs c boottime_cutoff_ns monotonic_cutoff_ns)))"

text \<open>
  The result: the error, the state and the files.  \<open>fs\<close> is the file system once the process has
  been waited for; nothing is changed before.  \<open>None\<close>: still waiting for the process.
\<close>

definition trace_capture_finish ::
    "allocator \<Rightarrow> finish_env \<Rightarrow> file_system \<Rightarrow> capture_state \<Rightarrow> (errno option \<times> capture_state \<times> file_system) option" where
  "trace_capture_finish mem env fs c =
     (if \<not> cs_started c then Some (Some EINVAL, c, fs)
      else case finish_wait env c of
          None \<Rightarrow> None
        | Some (r, c1) \<Rightarrow>
            let c2 = c1\<lparr>cs_started := False\<rparr>;
                (err, fs1) = (case r of Inl e \<Rightarrow> (Some e, fs) | Inr status \<Rightarrow> finish_merge mem env fs c2 status) in
            Some (err, c2, cleanup_temporary c2 (err \<noteq> None) fs1))"

definition trace_capture_abort :: "finish_env \<Rightarrow> file_system \<Rightarrow> capture_state \<Rightarrow> (capture_state \<times> file_system) option" where
  "trace_capture_abort env fs c =
     (case (if cs_started c \<and> \<not> cs_child_reaped c
            then (case stop_perfetto env c of None \<Rightarrow> None | Some (_, c1) \<Rightarrow> Some (c1\<lparr>cs_started := False\<rparr>))
            else Some c) of
        None \<Rightarrow> None
      | Some c1 \<Rightarrow> Some (c1, cleanup_temporary c1 True fs))"

section \<open>Copies\<close>

lemma copy_loop_ok:
  "copy_loop out inp = (r, out') \<Longrightarrow>
     (\<exists>u v. in_bytes inp = u @ v \<and> out_bytes out' = out_bytes out @ u) \<and>
     (r = None \<longrightarrow> out_bytes out' = out_bytes out @ in_bytes inp) \<and>
     (benign_in inp \<and> benign_out out \<longrightarrow> r = None \<and> benign_out out')"
proof (induction out inp arbitrary: r out' rule: copy_loop.induct)
  case (1 out inp)
  obtain q inp1 where rd: "sys_read inp 65536 = (q, inp1)"
    by force
  note facts = sys_read_cases [OF rd]
  note u = copy_loop.simps [of out inp]
  show ?case
  proof (cases q)
    case (Inl e)
    show ?thesis
    proof (cases "e = EINTR")
      case True
      then have "copy_loop out inp1 = (r, out')"
        using "1.prems" u rd Inl by simp
      then show ?thesis
        using "1.IH"(1) [OF rd [symmetric] Inl True] facts Inl by auto
    next
      case False
      then show ?thesis
        using "1.prems" u rd Inl facts by auto
    qed
  next
    case (Inr got)
    then have g: "in_bytes inp = got @ in_bytes inp1" "got = [] \<longrightarrow> in_bytes inp = []" "benign_in inp \<longrightarrow> benign_in inp1"
      using facts by auto
    show ?thesis
    proof (cases "got = []")
      case True
      then show ?thesis
        using "1.prems" u rd Inr g by auto
    next
      case False
      obtain w out1 where w: "write_all out got = (w, out1)"
        by force
      have ok: "(\<exists>u v. got = u @ v \<and> out_bytes out1 = out_bytes out @ u)" "w = None \<longrightarrow> out_bytes out1 = out_bytes out @ got"
          "benign_out out \<longrightarrow> w = None \<and> benign_out out1"
        using write_all_ok [of out got] w by (simp_all add: scan_ok_def)
      show ?thesis
      proof (cases w)
        case None
        then have "copy_loop out1 inp1 = (r, out')"
          using "1.prems" u rd Inr False w by simp
        then have ih: "(\<exists>u v. in_bytes inp1 = u @ v \<and> out_bytes out' = out_bytes out1 @ u) \<and>
            (r = None \<longrightarrow> out_bytes out' = out_bytes out1 @ in_bytes inp1) \<and>
            (benign_in inp1 \<and> benign_out out1 \<longrightarrow> r = None \<and> benign_out out')"
          using "1.IH"(2) [OF rd [symmetric] Inr False w [symmetric] None] by blast
        then obtain a b where ab: "in_bytes inp1 = a @ b" "out_bytes out' = out_bytes out1 @ a"
          by blast
        have "\<exists>u v. in_bytes inp = u @ v \<and> out_bytes out' = out_bytes out @ u"
          using ab ok(2) None g(1) by (intro exI [of _ "got @ a"] exI [of _ b]) simp
        then show ?thesis
          using ih ok g None by auto
      next
        case (Some e)
        then show ?thesis
          using "1.prems" u rd Inr False w ok g by auto
      qed
    qed
  qed
qed

lemma copy_file_ok:
  assumes "copy_file open_err sched fs out path = (r, out')"
  shows "r = None \<longrightarrow> (\<exists>data. fs path = Some data \<and> out_bytes out' = out_bytes out @ data)"
  using assms copy_loop_ok [of out] by (fastforce simp: copy_file_def open_read_def split: option.splits sum.splits)

section \<open>Files at the end of a session\<close>

text \<open>The paths of a session do not collide; \<open>network_trace\<close> is empty for system-only captures.\<close>

definition session_paths :: "capture_state \<Rightarrow> bool" where
  "session_paths c \<longleftrightarrow>
     distinct [[], cs_output c, cs_output c @ ''.combined.tmp'', cs_system_trace c, cs_config c] \<and>
     (if cs_system_only c then cs_network_trace c = []
      else cs_network_trace c \<noteq> [] \<and>
        cs_network_trace c \<notin> {cs_output c, cs_output c @ ''.combined.tmp'', cs_system_trace c, cs_config c})"

text \<open>The bytes of a finished trace: the kept part of the system trace and the network trace.\<close>

definition combined_bytes :: "allocator \<Rightarrow> finish_env \<Rightarrow> file_system \<Rightarrow> capture_state \<Rightarrow> u64 \<times> u64 \<Rightarrow> bytes \<Rightarrow> bytes \<Rightarrow> bool" where
  "combined_bytes mem env fs c cutoffs part net \<longleftrightarrow>
     part \<noteq> [] \<and>
     (\<exists>data. fs (cs_system_trace c) = Some data \<and>
        (if cs_ring_buffer c
         then \<exists>out. perfetto_trim_stream mem \<lparr>in_bytes = data, in_sched = fe_system_reads env\<rparr>
                \<lparr>out_bytes = [], out_sched = fe_writes env\<rparr> (fst cutoffs) (snd cutoffs) = (None, out) \<and> part = out_bytes out
         else part = data)) \<and>
     (if cs_system_only c then net = [] else fs (cs_network_trace c) = Some net)"

lemma or_else_None_iff: "or_else a b = None \<longleftrightarrow> a = None \<and> b = None"
  by (cases a) (simp_all add: or_else_def)

lemma write_combined_ok:
  assumes "write_combined mem env fs c bc mc = (None, out)"
  shows "\<exists>part net. combined_bytes mem env fs c (bc, mc) part net \<and> out_bytes out = part @ net"
proof -
  define out0 where "out0 = \<lparr>out_bytes = [], out_sched = fe_writes env\<rparr>"
  define first where "first =
     (if cs_ring_buffer c
      then (case open_read (fe_open_system_err env) fs (cs_system_trace c) of
              Inl e \<Rightarrow> (Some e, out0)
            | Inr data \<Rightarrow> perfetto_trim_stream mem \<lparr>in_bytes = data, in_sched = fe_system_reads env\<rparr> out0 bc mc)
      else copy_file (fe_open_system_err env) (fe_system_reads env) fs out0 (cs_system_trace c))"
  define err1 where "err1 = or_else (fst first) (stat_nonempty (fe_stat_combined_err env) (Some (out_bytes (snd first))))"
  have w: "write_combined mem env fs c bc mc =
      (if err1 = None \<and> \<not> cs_system_only c
       then copy_file (fe_open_network_err env) (fe_network_reads env) fs (snd first) (cs_network_trace c)
       else (err1, snd first))"
    unfolding write_combined_def Let_def out0_def [symmetric] first_def [symmetric] err1_def by (simp add: split_beta)
  have e1: "err1 = None"
    using assms w by (auto split: if_splits)
  then have f: "fst first = None" "out_bytes (snd first) \<noteq> []"
    by (auto simp: err1_def or_else_None_iff stat_nonempty_def split: option.splits)
  have sys: "\<exists>data. fs (cs_system_trace c) = Some data \<and>
      (if cs_ring_buffer c then \<exists>out. perfetto_trim_stream mem \<lparr>in_bytes = data, in_sched = fe_system_reads env\<rparr> out0 bc mc = (None, out) \<and>
           out_bytes (snd first) = out_bytes out
       else out_bytes (snd first) = data)"
  proof (cases "cs_ring_buffer c")
    case True
    then show ?thesis
      using f(1) by (cases "open_read (fe_open_system_err env) fs (cs_system_trace c)")
        (auto simp: first_def open_read_def prod_eq_iff split: option.splits)
  next
    case False
    then have "copy_file (fe_open_system_err env) (fe_system_reads env) fs out0 (cs_system_trace c) = (None, snd first)"
      using f(1) by (simp add: first_def prod_eq_iff)
    then show ?thesis
      using copy_file_ok [of _ _ fs out0] False by (fastforce simp: out0_def)
  qed
  show ?thesis
  proof (cases "cs_system_only c")
    case True
    then have "out = snd first"
      using assms w e1 by simp
    then show ?thesis
      using sys f(2) True unfolding combined_bytes_def out0_def fst_conv snd_conv
      by (intro exI [of _ "out_bytes (snd first)"] exI [of _ "[]"]) simp
  next
    case False
    then have "copy_file (fe_open_network_err env) (fe_network_reads env) fs (snd first) (cs_network_trace c) = (None, out)"
      using assms w e1 by simp
    then obtain net where "fs (cs_network_trace c) = Some net" "out_bytes out = out_bytes (snd first) @ net"
      using copy_file_ok by blast
    then show ?thesis
      using sys f(2) False unfolding combined_bytes_def out0_def fst_conv snd_conv
      by (intro exI [of _ "out_bytes (snd first)"] exI [of _ net]) simp
  qed
qed

lemma merge_traces_ok:
  assumes "merge_traces mem env fs c bc mc = (err, fs')" and "session_paths c"
  shows "(err = None \<longrightarrow> fs (cs_output c) = None \<and>
       (\<exists>part net. combined_bytes mem env fs c (bc, mc) part net \<and> fs' = fs(cs_output c \<mapsto> part @ net))) \<and>
     (err \<noteq> None \<longrightarrow> fs' = fs)"
proof (cases "temporary_path fs (cs_output c) ''combined''")
  case (Inl e)
  then show ?thesis
    using assms by (auto simp: merge_traces_def)
next
  case (Inr tmp)
  then have tmp: "tmp = cs_output c @ ''.combined.tmp''" "fs tmp = None"
    by (auto simp: temporary_path_def Let_def split: if_splits)
  have same: "fs(tmp := None) = fs"
    using tmp(2) by auto
  obtain e out where w: "write_combined mem env (fs(tmp \<mapsto> [])) c bc mc = (e, out)"
    by force
  define err1 where "err1 = or_else (or_else (or_else (or_else e (fe_fsync_err env)) (fe_close_err env))
      (if fs (cs_output c) \<noteq> None then Some EEXIST else None)) (fe_rename_err env)"
  show ?thesis
  proof (cases "fe_open_combined_err env")
    case (Some x)
    then show ?thesis
      using assms Inr by (auto simp: merge_traces_def)
  next
    case None
    have m: "merge_traces mem env fs c bc mc =
        (if err1 = None then (None, fs(cs_output c \<mapsto> out_bytes out)) else (err1, fs))"
      unfolding merge_traces_def Inr None sum.case option.case w Let_def prod.case err1_def [symmetric] same ..
    have neq: "tmp \<noteq> cs_system_trace c" "\<not> cs_system_only c \<longrightarrow> tmp \<noteq> cs_network_trace c"
      using assms(2) tmp(1) by (auto simp: session_paths_def split: if_splits)
    show ?thesis
    proof (cases "err1 = None")
      case True
      then have "e = None" and out: "fs (cs_output c) = None"
        by (auto simp: err1_def or_else_None_iff split: if_splits)
      then obtain part net where "combined_bytes mem env (fs(tmp \<mapsto> [])) c (bc, mc) part net" "out_bytes out = part @ net"
        using write_combined_ok w by blast
      moreover from this(1) have "combined_bytes mem env fs c (bc, mc) part net"
        using neq by (cases "cs_system_only c") (simp_all add: combined_bytes_def)
      ultimately show ?thesis
        using assms(1) m True out by auto
    next
      case False
      then show ?thesis
        using assms(1) m by auto
    qed
  qed
qed

lemma finish_merge_ok:
  assumes "finish_merge mem env fs c status = (err, fs')" and "session_paths c"
  shows "(err = None \<longrightarrow> status = Exited 0 \<and> fs (cs_output c) = None \<and>
       (\<exists>cutoffs part net. ring_cutoffs env c = Inr cutoffs \<and> combined_bytes mem env fs c cutoffs part net \<and>
          fs' = fs(cs_output c \<mapsto> part @ net))) \<and>
     (err \<noteq> None \<longrightarrow> fs' = fs)"
proof (cases "err = None \<or> (\<exists>bc mc. ring_cutoffs env c = Inr (bc, mc) \<and> merge_traces mem env fs c bc mc = (err, fs'))")
  case True
  then obtain bc mc where "ring_cutoffs env c = Inr (bc, mc)" "merge_traces mem env fs c bc mc = (err, fs')"
      "err = None \<longrightarrow> status = Exited 0"
    using assms(1) by (auto simp: finish_merge_def split: if_splits sum.splits option.splits prod.splits)
  then show ?thesis
    using merge_traces_ok [OF _ assms(2)] by blast
next
  case False
  then show ?thesis
    using assms(1) by (auto simp: finish_merge_def split: if_splits sum.splits option.splits prod.splits)
qed

lemma stop_frame:
  "stop_perfetto env c = Some (r, c') \<Longrightarrow> cs_output c' = cs_output c \<and> cs_system_trace c' = cs_system_trace c \<and>
     cs_network_trace c' = cs_network_trace c \<and> cs_config c' = cs_config c \<and> cs_system_only c' = cs_system_only c \<and>
     cs_ring_buffer c' = cs_ring_buffer c \<and> cs_window_s c' = cs_window_s c"
  by (auto simp: stop_perfetto_def trace_capture_stop_def send_signal_def reaped_as_def Let_def
      split: option.splits prod.splits sum.splits if_splits)

lemma finish_wait_frame:
  "finish_wait env c = Some (r, c') \<Longrightarrow> cs_output c' = cs_output c \<and> cs_system_trace c' = cs_system_trace c \<and>
     cs_network_trace c' = cs_network_trace c \<and> cs_config c' = cs_config c \<and> cs_system_only c' = cs_system_only c \<and>
     cs_ring_buffer c' = cs_ring_buffer c \<and> cs_window_s c' = cs_window_s c"
  using stop_frame by (auto simp: finish_wait_def split: if_splits sum.splits)

lemma cleanup_failed:
  "cleanup_temporary c True fs = (if cs_config_created c then fs(cs_config c := None) else fs)"
  by (simp add: cleanup_temporary_def cleanup_trace_file_def Let_def)

lemma cleanup_other:
  "p \<notin> {cs_system_trace c, cs_network_trace c, cs_config c} \<Longrightarrow> cleanup_temporary c failed fs p = fs p"
  by (simp add: cleanup_temporary_def cleanup_trace_file_def Let_def)

lemma abort_keeps:
  assumes "trace_capture_abort env fs c = Some (c', fs')"
  shows "\<not> (cs_started c' \<and> \<not> cs_child_reaped c') \<and> (\<forall>p. p \<noteq> cs_config c \<longrightarrow> fs' p = fs p)"
proof (cases "cs_started c \<and> \<not> cs_child_reaped c")
  case True
  then obtain r c1 where s: "stop_perfetto env c = Some (r, c1)" "c' = c1\<lparr>cs_started := False\<rparr>"
      "fs' = cleanup_temporary (c1\<lparr>cs_started := False\<rparr>) True fs"
    using assms by (auto simp: trace_capture_abort_def split: option.splits)
  then show ?thesis
    using stop_frame [OF s(1)] by (simp add: cleanup_failed)
next
  case False
  then have "c' = c" "fs' = cleanup_temporary c True fs"
    using assms False by (auto simp: trace_capture_abort_def)
  then show ?thesis
    using False by (auto simp: cleanup_failed)
qed

lemma finish_ok:
  assumes "trace_capture_finish mem env fs c = Some (err, c', fs')" and "session_paths c" and "cs_started c"
  shows "(err = None \<longrightarrow> fs (cs_output c) = None \<and>
       (\<exists>c1 cutoffs part net. finish_wait env c = Some (Inr (Exited 0), c1) \<and> ring_cutoffs env c1 = Inr cutoffs \<and>
          combined_bytes mem env fs c cutoffs part net \<and> fs' (cs_output c) = Some (part @ net))) \<and>
     (err \<noteq> None \<longrightarrow> fs' (cs_output c) = fs (cs_output c) \<and> fs' (cs_system_trace c) = fs (cs_system_trace c) \<and>
        fs' (cs_network_trace c) = fs (cs_network_trace c)) \<and>
     (\<forall>p. p \<notin> {cs_output c, cs_system_trace c, cs_network_trace c, cs_config c} \<longrightarrow> fs' p = fs p) \<and>
     \<not> cs_started c' \<and>
     (\<forall>c'' fs''. trace_capture_abort env fs c = Some (c'', fs'') \<longrightarrow>
        \<not> (cs_started c'' \<and> \<not> cs_child_reaped c'') \<and> (\<forall>p. p \<noteq> cs_config c \<longrightarrow> fs'' p = fs p))"
proof -
  obtain r c1 where w: "finish_wait env c = Some (r, c1)"
    using assms(1,3) by (auto simp: trace_capture_finish_def split: option.splits)
  note frame = finish_wait_frame [OF w]
  define c2 where "c2 = c1\<lparr>cs_started := False\<rparr>"
  obtain e fs1 where m: "(case r of Inl e \<Rightarrow> (Some e, fs) | Inr status \<Rightarrow> finish_merge mem env fs c2 status) = (e, fs1)"
    by force
  have "trace_capture_finish mem env fs c = Some (e, c2, cleanup_temporary c2 (e \<noteq> None) fs1)"
    unfolding trace_capture_finish_def w option.case prod.case Let_def c2_def [symmetric] m using assms(3) by simp
  then have run: "err = e" "c' = c2" "fs' = cleanup_temporary c2 (err \<noteq> None) fs1"
    using assms(1) by simp_all
  have same: "cs_output c2 = cs_output c" "cs_system_trace c2 = cs_system_trace c" "cs_network_trace c2 = cs_network_trace c"
      "cs_config c2 = cs_config c" "cs_system_only c2 = cs_system_only c" "cs_ring_buffer c2 = cs_ring_buffer c"
      "ring_cutoffs env c2 = ring_cutoffs env c1"
    using frame by (simp_all add: c2_def ring_cutoffs_def)
  have paths: "session_paths c2"
    using assms(2) unfolding session_paths_def same .
  have comb: "combined_bytes mem env fs c2 = combined_bytes mem env fs c"
    unfolding combined_bytes_def same ..
  have neq: "cs_output c \<notin> {cs_system_trace c, cs_network_trace c, cs_config c}"
    "cs_config c \<notin> {cs_output c, cs_system_trace c}" "cs_config c \<noteq> cs_network_trace c"
    using assms(2) by (auto simp: session_paths_def split: if_splits)
  have abort: "\<forall>c'' fs''. trace_capture_abort env fs c = Some (c'', fs'') \<longrightarrow>
        \<not> (cs_started c'' \<and> \<not> cs_child_reaped c'') \<and> (\<forall>p. p \<noteq> cs_config c \<longrightarrow> fs'' p = fs p)"
    using abort_keeps by blast
  show ?thesis
  proof (cases "err = None")
    case True
    then obtain status where st: "r = Inr status" "finish_merge mem env fs c2 status = (None, fs1)"
      using m run(1) by (auto split: sum.splits)
    then obtain cutoffs part net where fin: "status = Exited 0" "fs (cs_output c) = None" "ring_cutoffs env c1 = Inr cutoffs"
        "combined_bytes mem env fs c cutoffs part net" "fs1 = fs(cs_output c \<mapsto> part @ net)"
      using finish_merge_ok [OF st(2) paths] same comb by auto
    then have "fs' (cs_output c) = Some (part @ net)" "\<forall>p. p \<notin> {cs_output c, cs_system_trace c, cs_network_trace c, cs_config c} \<longrightarrow> fs' p = fs p"
      using run(3) neq(1) same cleanup_other [of _ c2] by auto
    moreover have "\<exists>c1 cutoffs part net. finish_wait env c = Some (Inr (Exited 0), c1) \<and> ring_cutoffs env c1 = Inr cutoffs \<and>
          combined_bytes mem env fs c cutoffs part net \<and> fs' (cs_output c) = Some (part @ net)"
      using calculation(1) w st(1) fin by blast
    ultimately show ?thesis
      using True fin(2) run(2) abort by (simp add: c2_def)
  next
    case False
    then have "fs1 = fs"
      using m run(1) finish_merge_ok [OF _ paths] by (auto split: sum.splits)
    then have "fs' = (if cs_config_created c2 then fs(cs_config c := None) else fs)"
      using run(3) False cleanup_failed [of c2] same by simp
    then show ?thesis
      using False neq run(2) abort by (auto simp: c2_def)
  qed
qed

text \<open>
  C29. Finishing a session never loses data.  On success the process had exited with status 0, the
  output did not exist and now is the non-empty kept part of the system trace (trimmed at the
  cutoffs when the ring buffer is used, a copy otherwise) followed by the network trace.  On every
  error the output is as before and both original traces are still there, unchanged.  In either case
  no file other than the output, the two traces and the configuration changes, so no staging file is
  left behind.  Aborting a session retains both traces as well.
\<close>

theorem trace_capture_finish_keeps_data:
  assumes "trace_capture_finish mem env fs c = Some (err, c', fs')" and "session_paths c" and "cs_started c"
  shows "(err = None \<longrightarrow> fs (cs_output c) = None \<and>
       (\<exists>c1 cutoffs part net. finish_wait env c = Some (Inr (Exited 0), c1) \<and> ring_cutoffs env c1 = Inr cutoffs \<and>
          combined_bytes mem env fs c cutoffs part net \<and> fs' (cs_output c) = Some (part @ net))) \<and>
     (err \<noteq> None \<longrightarrow> fs' (cs_output c) = fs (cs_output c) \<and> fs' (cs_system_trace c) = fs (cs_system_trace c) \<and>
        fs' (cs_network_trace c) = fs (cs_network_trace c)) \<and>
     (\<forall>p. p \<notin> {cs_output c, cs_system_trace c, cs_network_trace c, cs_config c} \<longrightarrow> fs' p = fs p) \<and>
     \<not> cs_started c' \<and>
     (\<forall>c'' fs''. trace_capture_abort env fs c = Some (c'', fs'') \<longrightarrow>
        \<not> (cs_started c'' \<and> \<not> cs_child_reaped c'') \<and> (\<forall>p. p \<noteq> cs_config c \<longrightarrow> fs'' p = fs p))"
  by (rule finish_ok [OF assms])

section \<open>Waiting for the process to stop\<close>

definition observed :: "stop_round \<Rightarrow> timespec \<Rightarrow> int \<Rightarrow> bool" where
  "observed r t sz \<longleftrightarrow> sr_wait r = Running \<and> sr_clock r = Inr t \<and> sr_size r = Inr sz"

text \<open>The sizes seen in a list of rounds, and a list in which none exceeds the one before.\<close>

definition seen_sizes :: "stop_round list \<Rightarrow> int list" where
  "seen_sizes rs = concat (map (\<lambda>r. if sr_wait r = Running then (case sr_size r of Inr sz \<Rightarrow> [sz] | Inl _ \<Rightarrow> []) else []) rs)"

fun no_growth :: "int \<Rightarrow> int list \<Rightarrow> bool" where
  "no_growth sz [] = True"
| "no_growth sz (x # xs) \<longleftrightarrow> x \<le> sz \<and> no_growth x xs"

text \<open>A round that neither ends the loop nor is interrupted.\<close>

lemma stop_loop_observed:
  assumes "observed r t x"
  shows "stop_loop start g sz (r # rs) =
     (if 30000 \<le> clock_ms t - start \<and> 3000 \<le> clock_ms t - (if sz < x then clock_ms t else g)
      then Some (Inl ETIMEDOUT, True)
      else stop_loop start (if sz < x then clock_ms t else g) x rs)"
  using assms by (simp add: observed_def Let_def PERFETTO_STOP_TIMEOUT_MS_def PERFETTO_STOP_IDLE_MS_def)

lemma stop_loop_other:
  assumes "\<nexists>t x. observed r t x" and "stop_loop start g sz (r # rs) = Some (Inl e, True)"
  shows "stop_loop start g sz rs = Some (Inl e, True)" "seen_sizes (r # ys) = seen_sizes ys"
  using assms by (auto simp: observed_def seen_sizes_def split: wait_answer.splits sum.splits if_splits)

lemma stop_loop_stalled:
  "stop_loop start g sz rs = Some (Inl e, True) \<Longrightarrow>
     (\<exists>mid r post t x. rs = mid @ r # post \<and> observed r t x \<and> 30000 \<le> clock_ms t - start \<and>
        ((3000 \<le> clock_ms t - g \<and> no_growth sz (seen_sizes (mid @ [r]))) \<or>
         (\<exists>pre b mid' tb xb. mid = pre @ b # mid' \<and> observed b tb xb \<and> 3000 \<le> clock_ms t - clock_ms tb \<and>
            no_growth xb (seen_sizes (mid' @ [r])))))"
proof (induction rs arbitrary: g sz)
  case Nil
  then show ?case
    by simp
next
  case (Cons r rs)
  show ?case
  proof (cases "\<exists>t x. observed r t x")
    case True
    then obtain t x where o: "observed r t x"
      by blast
    have sr: "seen_sizes (r # ys) = x # seen_sizes ys" for ys
      using o by (simp add: seen_sizes_def observed_def)
    have s1: "seen_sizes [r] = [x]"
      using sr [of "[]"] by (simp add: seen_sizes_def)
    let ?g = "if sz < x then clock_ms t else g"
    show ?thesis
    proof (cases "30000 \<le> clock_ms t - start \<and> 3000 \<le> clock_ms t - ?g")
      case True
      then have "\<not> sz < x"
        by auto
      then show ?thesis
        using True o s1 by (intro exI [of _ "[]"] exI [of _ r] exI [of _ rs] exI [of _ t] exI [of _ x]) auto
    next
      case False
      then have "stop_loop start ?g x rs = Some (Inl e, True)"
        using Cons.prems stop_loop_observed [OF o, of start g sz rs] by (simp only: if_False)
      from Cons.IH [OF this] obtain mid r' post t' x' where ih: "rs = mid @ r' # post" "observed r' t' x'"
          "30000 \<le> clock_ms t' - start"
          "(3000 \<le> clock_ms t' - ?g \<and> no_growth x (seen_sizes (mid @ [r']))) \<or>
           (\<exists>pre b mid' tb xb. mid = pre @ b # mid' \<and> observed b tb xb \<and> 3000 \<le> clock_ms t' - clock_ms tb \<and>
              no_growth xb (seen_sizes (mid' @ [r'])))"
        by blast
      show ?thesis
      proof (rule exI [of _ "r # mid"], rule exI [of _ r'], rule exI [of _ post], rule exI [of _ t'], rule exI [of _ x'], intro conjI)
        show "r # rs = (r # mid) @ r' # post" "observed r' t' x'" "30000 \<le> clock_ms t' - start"
          using ih by simp_all
        show "(3000 \<le> clock_ms t' - g \<and> no_growth sz (seen_sizes ((r # mid) @ [r']))) \<or>
           (\<exists>pre b mid' tb xb. r # mid = pre @ b # mid' \<and> observed b tb xb \<and> 3000 \<le> clock_ms t' - clock_ms tb \<and>
              no_growth xb (seen_sizes (mid' @ [r'])))"
          using ih(4)
        proof
          assume a: "3000 \<le> clock_ms t' - ?g \<and> no_growth x (seen_sizes (mid @ [r']))"
          show ?thesis
          proof (cases "sz < x")
            case True
            then show ?thesis
              using a o by (intro disjI2 exI [of _ "[]"] exI [of _ r] exI [of _ mid] exI [of _ t] exI [of _ x]) simp
          next
            case False
            then show ?thesis
              using a by (simp add: sr)
          qed
        next
          assume "\<exists>pre b mid' tb xb. mid = pre @ b # mid' \<and> observed b tb xb \<and> 3000 \<le> clock_ms t' - clock_ms tb \<and>
              no_growth xb (seen_sizes (mid' @ [r']))"
          then show ?thesis
            by (metis append_Cons)
        qed
      qed
    qed
  next
    case False
    note o = stop_loop_other [OF False Cons.prems]
    from Cons.IH [OF o(1)] obtain mid r' post t' x' where ih: "rs = mid @ r' # post" "observed r' t' x'"
        "30000 \<le> clock_ms t' - start"
        "(3000 \<le> clock_ms t' - g \<and> no_growth sz (seen_sizes (mid @ [r']))) \<or>
         (\<exists>pre b mid' tb xb. mid = pre @ b # mid' \<and> observed b tb xb \<and> 3000 \<le> clock_ms t' - clock_ms tb \<and>
            no_growth xb (seen_sizes (mid' @ [r'])))"
      by blast
    have "(3000 \<le> clock_ms t' - g \<and> no_growth sz (seen_sizes ((r # mid) @ [r']))) \<or>
         (\<exists>pre b mid' tb xb. r # mid = pre @ b # mid' \<and> observed b tb xb \<and> 3000 \<le> clock_ms t' - clock_ms tb \<and>
            no_growth xb (seen_sizes (mid' @ [r'])))"
      using ih(4) o(2) by (metis append_Cons)
    moreover have "r # rs = (r # mid) @ r' # post"
      using ih(1) by simp
    ultimately show ?thesis
      using ih(2,3) by blast
  qed
qed

text \<open>Rounds that keep the process running, at times at least 100 ms apart.\<close>

definition paced :: "timespec \<Rightarrow> stop_round list \<Rightarrow> (nat \<Rightarrow> nat) \<Rightarrow> (nat \<Rightarrow> int) \<Rightarrow> bool" where
  "paced t0 rs time_ms sz \<longleftrightarrow>
     clock_ms t0 = of_nat (time_ms 0) \<and>
     (\<forall>i < length rs. time_ms i + (if i = 0 then 0 else 100) \<le> time_ms (Suc i) \<and> time_ms (Suc i) < 2 ^ 64 \<and>
        (\<exists>t. observed (rs ! i) t (sz i) \<and> clock_ms t = of_nat (time_ms (Suc i))))"

lemma paced_times:
  assumes "paced t0 rs time_ms sz" and "i \<le> j" and "j < length rs"
  shows "time_ms (Suc i) + 100 * (j - i) \<le> time_ms (Suc j)"
  using assms(2,3)
proof (induction j)
  case (Suc j)
  show ?case
  proof (cases "i = Suc j")
    case False
    then have "time_ms (Suc i) + 100 * (j - i) \<le> time_ms (Suc j)" "Suc j - i = Suc (j - i)"
      using Suc by simp_all
    moreover have "time_ms (Suc j) + 100 \<le> time_ms (Suc (Suc j))"
      using assms(1) Suc.prems(2) by (force simp: paced_def)
    ultimately show ?thesis
      by simp
  qed simp
qed simp

lemma paced_start:
  assumes "paced t0 rs time_ms sz" and "j < length rs"
  shows "time_ms 0 + 100 * j \<le> time_ms (Suc j)"
  using paced_times [OF assms(1) _ assms(2), of 0] assms by (force simp: paced_def)

lemma word_minus_of_nat:
  assumes "a \<le> b" and "b < 2 ^ 64" and "k \<le> b - a" and "k < 2 ^ 64"
  shows "(of_nat k :: u64) \<le> of_nat b - of_nat a"
proof -
  have "(of_nat b - of_nat a :: u64) = of_nat (b - a)"
    using assms(1) by (simp add: of_nat_diff)
  moreover have "unat (of_nat (b - a) :: u64) = b - a" "unat (of_nat k :: u64) = k"
    using assms by (simp_all add: unat_of_nat_64 del: of_nat_diff)
  ultimately show ?thesis
    using assms(3) by (simp only: word_le_nat_alt)
qed

text \<open>Before round \<open>k\<close> the last growth lies at or before the time of round \<open>k - 1\<close>.\<close>

lemma stop_loop_reach:
  assumes "paced t0 rs time_ms sz" and "stop_loop (clock_ms t0) (clock_ms t0) (- 1) rs = None" and "k < length rs"
  shows "\<exists>g. g \<le> time_ms (Suc k) \<and> stop_loop (clock_ms t0) (of_nat g) (sz k) (drop (Suc k) rs) = None"
  using assms(3)
proof (induction k)
  case 0
  obtain t where t: "observed (rs ! 0) t (sz 0)" "clock_ms t = of_nat (time_ms 1)" "time_ms 0 \<le> time_ms 1"
    using assms(1) 0 by (fastforce simp: paced_def)
  have d: "rs = rs ! 0 # drop 1 rs"
    using 0 by (cases rs) simp_all
  have n: "stop_loop (clock_ms t0) (clock_ms t0) (- 1) (rs ! 0 # drop 1 rs) = None"
    using assms(2) d by simp
  have "stop_loop (clock_ms t0) (if - 1 < sz 0 then clock_ms t else clock_ms t0) (sz 0) (drop 1 rs) = None"
    using n unfolding stop_loop_observed [OF t(1)] by (simp split: if_splits)
  moreover have "clock_ms t0 = of_nat (time_ms 0)"
    using assms(1) by (simp add: paced_def)
  ultimately show ?case
    using t(2,3) by (cases "- 1 < sz 0") auto
next
  case (Suc k)
  then obtain g where g: "g \<le> time_ms (Suc k)" "stop_loop (clock_ms t0) (of_nat g) (sz k) (drop (Suc k) rs) = None"
    by auto
  obtain t where t: "observed (rs ! Suc k) t (sz (Suc k))" "clock_ms t = of_nat (time_ms (Suc (Suc k)))"
    using assms(1) Suc.prems by (fastforce simp: paced_def)
  have le: "time_ms (Suc k) \<le> time_ms (Suc (Suc k))"
    using paced_times [OF assms(1), of k "Suc k"] Suc.prems by simp
  have "drop (Suc k) rs = rs ! Suc k # drop (Suc (Suc k)) rs"
    using Suc.prems by (simp add: Cons_nth_drop_Suc)
  then have "stop_loop (clock_ms t0) (if sz k < sz (Suc k) then clock_ms t else of_nat g) (sz (Suc k)) (drop (Suc (Suc k)) rs) = None"
    using g(2) stop_loop_observed [OF t(1)] by (simp split: if_splits)
  then show ?case
    using t(2) g(1) le by (cases "sz k < sz (Suc k)") (auto intro: le_trans)
qed

lemma stop_loop_idle:
  assumes "paced t0 rs time_ms sz" and "n \<le> k" and "k < length rs" and "\<forall>i. n \<le> i \<and> Suc i < length rs \<longrightarrow> sz (Suc i) \<le> sz i"
    and "stop_loop (clock_ms t0) (of_nat g) (sz n) (drop (Suc n) rs) = None"
  shows "stop_loop (clock_ms t0) (of_nat g) (sz k) (drop (Suc k) rs) = None"
  using assms(2,3)
proof (induction k)
  case 0
  then show ?case
    using assms(5) by simp
next
  case (Suc k)
  show ?case
  proof (cases "n = Suc k")
    case True
    then show ?thesis
      using assms(5) by simp
  next
    case False
    then have ih: "stop_loop (clock_ms t0) (of_nat g) (sz k) (drop (Suc k) rs) = None" "n \<le> k"
      using Suc by simp_all
    obtain t where t: "observed (rs ! Suc k) t (sz (Suc k))"
      using assms(1) Suc.prems by (fastforce simp: paced_def)
    have "drop (Suc k) rs = rs ! Suc k # drop (Suc (Suc k)) rs" "\<not> sz k < sz (Suc k)"
      using Suc.prems ih(2) assms(4) by (simp_all add: Cons_nth_drop_Suc not_less)
    then show ?thesis
      using ih(1) stop_loop_observed [OF t] by (simp split: if_splits)
  qed
qed

lemma stop_loop_ends:
  assumes "paced t0 rs time_ms sz" and "n + 301 \<le> length rs" and "\<forall>i. n \<le> i \<and> Suc i < length rs \<longrightarrow> sz (Suc i) \<le> sz i"
  shows "stop_loop (clock_ms t0) (clock_ms t0) (- 1) rs \<noteq> None"
proof
  assume none: "stop_loop (clock_ms t0) (clock_ms t0) (- 1) rs = None"
  obtain k where k: "n \<le> k" "Suc k < length rs" "300 \<le> Suc k" "Suc k - n = 300"
    using assms(2) by (intro that [of "n + 299"]) simp_all
  obtain g where g: "g \<le> time_ms (Suc n)" "stop_loop (clock_ms t0) (of_nat g) (sz n) (drop (Suc n) rs) = None"
    using stop_loop_reach [OF assms(1) none, of n] assms(2) by auto
  have "stop_loop (clock_ms t0) (of_nat g) (sz k) (drop (Suc k) rs) = None"
    using stop_loop_idle [OF assms(1) _ _ assms(3) g(2), of k] k by simp
  moreover obtain t where t: "observed (rs ! Suc k) t (sz (Suc k))" "clock_ms t = of_nat (time_ms (Suc (Suc k)))"
      "time_ms (Suc (Suc k)) < 2 ^ 64"
    using assms(1) [unfolded paced_def, THEN conjunct2, rule_format, of "Suc k"] k by auto
  moreover have "drop (Suc k) rs = rs ! Suc k # drop (Suc (Suc k)) rs" "\<not> sz k < sz (Suc k)"
    using assms(3) k by (simp_all add: Cons_nth_drop_Suc not_less)
  moreover have "30000 \<le> clock_ms t - clock_ms t0"
    using word_minus_of_nat [of "time_ms 0" "time_ms (Suc (Suc k))" 30000] paced_start [OF assms(1), of "Suc k"] assms(1) k t(2,3)
    by (simp add: paced_def)
  moreover have "3000 \<le> clock_ms t - of_nat g"
    using word_minus_of_nat [of g "time_ms (Suc (Suc k))" 3000] paced_times [OF assms(1), of n "Suc k"] k g(1) t(2,3)
    by simp
  ultimately show False
    using stop_loop_observed [OF t(1)] by simp
qed

lemma no_growth_last: "no_growth sz (xs @ [x]) \<Longrightarrow> x \<le> sz"
  by (induction xs arbitrary: sz) (auto intro: order_trans)

text \<open>
  Stopping is patient and ends.  \<open>SIGKILL\<close> is sent only when at least thirty seconds have
  passed since the wait began and the trace has not grown over observations that span three seconds.
  Conversely the wait ends: when the process keeps running, rounds are at least 100 ms apart and the
  trace does not grow after round \<open>n\<close>, it is over within \<open>n + 301\<close> rounds, with \<open>SIGKILL\<close> sent or
  the process reaped.
\<close>

lemma perfetto_stop_patience:
  assumes "\<forall>r t x. r \<in> set (fe_rounds env) \<and> observed r t x \<longrightarrow> 0 \<le> x"
  shows "(SIGKILL \<notin> set (cs_signals c) \<and> stop_perfetto env c = Some (res, c') \<and> SIGKILL \<in> set (cs_signals c') \<longrightarrow>
       (\<exists>t0 pre b mid r post t tb x xb. fe_stop_clock env = Inr t0 \<and> fe_rounds env = pre @ b # mid @ r # post \<and>
          observed b tb xb \<and> observed r t x \<and> 30000 \<le> clock_ms t - clock_ms t0 \<and>
          3000 \<le> clock_ms t - clock_ms tb \<and> no_growth xb (seen_sizes (mid @ [r])))) \<and>
     (fe_stop_clock env = Inr t0 \<and> paced t0 (fe_rounds env) time_ms sz \<and> n + 301 \<le> length (fe_rounds env) \<and>
        (\<forall>i. n \<le> i \<and> Suc i < length (fe_rounds env) \<longrightarrow> sz (Suc i) \<le> sz i) \<longrightarrow>
       (\<exists>res c'. stop_perfetto env c = Some (res, c')))"
proof (intro conjI impI)
  assume a: "SIGKILL \<notin> set (cs_signals c) \<and> stop_perfetto env c = Some (res, c') \<and> SIGKILL \<in> set (cs_signals c')"
  have "SIGKILL \<notin> set (cs_signals (trace_capture_stop env c))"
    using a by (auto simp: trace_capture_stop_def send_signal_def Let_def split: sum.splits)
  then obtain e where w: "wait_perfetto_stop (fe_stop_clock env) (fe_rounds env) = Some (Inl e, True)"
    using a by (auto simp: stop_perfetto_def reaped_as_def Let_def split: option.splits prod.splits sum.splits if_splits)
  then obtain t0 where t0: "fe_stop_clock env = Inr t0" "stop_loop (clock_ms t0) (clock_ms t0) (- 1) (fe_rounds env) = Some (Inl e, True)"
    by (auto simp: wait_perfetto_stop_def split: sum.splits)
  from stop_loop_stalled [OF t0(2)] obtain mid r post t x where st: "fe_rounds env = mid @ r # post" "observed r t x"
      "30000 \<le> clock_ms t - clock_ms t0"
      "no_growth (- 1) (seen_sizes (mid @ [r])) \<or>
       (\<exists>pre b mid' tb xb. mid = pre @ b # mid' \<and> observed b tb xb \<and> 3000 \<le> clock_ms t - clock_ms tb \<and>
          no_growth xb (seen_sizes (mid' @ [r])))"
    by blast
  have "\<not> no_growth (- 1) (seen_sizes (mid @ [r]))"
  proof -
    have "seen_sizes (mid @ [r]) = seen_sizes mid @ [x]"
      using st(2) by (simp add: seen_sizes_def observed_def)
    moreover have "0 \<le> x"
      using assms [rule_format, of r t x] st(1,2) by simp
    ultimately show ?thesis
      using no_growth_last [of "- 1" "seen_sizes mid" x] by auto
  qed
  then show "\<exists>t0 pre b mid r post t tb x xb. fe_stop_clock env = Inr t0 \<and> fe_rounds env = pre @ b # mid @ r # post \<and>
      observed b tb xb \<and> observed r t x \<and> 30000 \<le> clock_ms t - clock_ms t0 \<and>
      3000 \<le> clock_ms t - clock_ms tb \<and> no_growth xb (seen_sizes (mid @ [r]))"
    using st t0(1) by (metis append.assoc append_Cons)
next
  assume "fe_stop_clock env = Inr t0 \<and> paced t0 (fe_rounds env) time_ms sz \<and> n + 301 \<le> length (fe_rounds env) \<and>
      (\<forall>i. n \<le> i \<and> Suc i < length (fe_rounds env) \<longrightarrow> sz (Suc i) \<le> sz i)"
  then have "wait_perfetto_stop (fe_stop_clock env) (fe_rounds env) \<noteq> None"
    using stop_loop_ends [of t0 "fe_rounds env" time_ms sz n] by (simp add: wait_perfetto_stop_def)
  then show "\<exists>res c'. stop_perfetto env c = Some (res, c')"
    by (auto simp: stop_perfetto_def Let_def split: option.splits sum.splits)
qed

definition capture_demo_state :: capture_state where
  "capture_demo_state = \<lparr>cs_output = ''o'', cs_system_trace = ''o.system.tmp'', cs_network_trace = ''o.anettrace.tmp'',
     cs_config = ''o.config.tmp'', cs_window_s = 10, cs_stop_boottime_ns = 0, cs_stop_monotonic_ns = 0,
     cs_ring_buffer = False, cs_stop_requested = False, cs_started = True, cs_system_only = False,
     cs_child_reaped = False, cs_child_status = Exited 0, cs_config_created = True, cs_system_created = True, cs_signals = []\<rparr>"

definition capture_demo_env :: "stop_round list \<Rightarrow> finish_env" where
  "capture_demo_env rounds = \<lparr>fe_wait = [WaitFails EINTR, Running, Reaped (Exited 0)], fe_stop_boottime = Inl EIO, fe_stop_monotonic = Inl EIO,
     fe_stop_clock = Inr \<lparr>tv_sec = 0, tv_nsec = 0\<rparr>, fe_rounds = rounds, fe_reap = [], fe_cut_boottime = Inl EIO, fe_cut_monotonic = Inl EIO,
     fe_stat_system_err = None, fe_stat_network_err = None, fe_stat_combined_err = None, fe_open_combined_err = None,
     fe_open_system_err = None, fe_open_network_err = None, fe_system_reads = [RXfer 0], fe_network_reads = [RIntr], fe_writes = [WIntr],
     fe_fsync_err = None, fe_close_err = None, fe_rename_err = None\<rparr>"

definition capture_demo_fs :: file_system where
  "capture_demo_fs = [''o.system.tmp'' \<mapsto> [10, 1, 7], ''o.anettrace.tmp'' \<mapsto> [10, 0], ''o.config.tmp'' \<mapsto> [32]]"

definition capture_demo_done :: capture_state where
  "capture_demo_done = capture_demo_state\<lparr>cs_started := False\<rparr>"

lemma capture_demo_runs:
  "trace_capture_finish (\<lambda>_. True) (capture_demo_env []) capture_demo_fs capture_demo_state =
     Some (None, capture_demo_done, [''o'' \<mapsto> [10, 1, 7, 10, 0]])"
  "session_paths capture_demo_state"
  by (auto simp: capture_demo_state_def capture_demo_env_def capture_demo_fs_def capture_demo_done_def trace_capture_finish_def
      finish_wait_def wait_child_def wait_child_loop.simps finish_merge_def ring_cutoffs_def file_nonempty_def stat_nonempty_def
      merge_traces_def temporary_path_def PATH_MAX_def write_combined_def copy_file_def open_read_def copy_loop.simps
      sys_read.simps sys_write.simps write_all_def write_exact.simps or_else_def cleanup_temporary_def cleanup_trace_file_def Let_def
      session_paths_def fun_eq_iff)

theorem trace_capture_finish_keeps_data_witness:
  "\<exists>part net. capture_demo_fs ''o'' = None \<and>
     combined_bytes (\<lambda>_. True) (capture_demo_env []) capture_demo_fs capture_demo_state (0, 0) part net \<and>
     Some [10, 1, 7, 10, 0] = Some (part @ net)"
proof -
  have c: "cs_output capture_demo_state = ''o''" "cs_started capture_demo_state" "\<not> cs_ring_buffer capture_demo_state"
    by (simp_all add: capture_demo_state_def)
  have w: "finish_wait (capture_demo_env []) capture_demo_state = Some (Inr (Exited 0), capture_demo_state)"
    by (simp add: capture_demo_state_def capture_demo_env_def finish_wait_def wait_child_def wait_child_loop.simps)
  have "ring_cutoffs (capture_demo_env []) capture_demo_state = Inr (0, 0)"
    using c(3) by (simp add: ring_cutoffs_def)
  then show ?thesis
    using trace_capture_finish_keeps_data [OF capture_demo_runs c(2)] c(1) w by auto
qed

definition stop_demo_round :: "nat \<Rightarrow> stop_round" where
  "stop_demo_round i = \<lparr>sr_wait = Running,
     sr_clock = Inr \<lparr>tv_sec = int (i div 10), tv_nsec = int (i mod 10) * 100000000\<rparr>, sr_size = Inr 5\<rparr>"

lemma stop_demo_observed: "observed (stop_demo_round i) t x \<longleftrightarrow> t = \<lparr>tv_sec = int (i div 10), tv_nsec = int (i mod 10) * 100000000\<rparr> \<and> x = 5"
  by (auto simp: observed_def stop_demo_round_def)

lemma stop_demo_clock: "clock_ms \<lparr>tv_sec = int (i div 10), tv_nsec = int (i mod 10) * 100000000\<rparr> = of_nat (100 * i)"
proof -
  have "int (i mod 10) * 100000000 div 1000000 = int (i mod 10) * 100"
    by (simp add: zdiv_int [symmetric])
  then have "clock_ms \<lparr>tv_sec = int (i div 10), tv_nsec = int (i mod 10) * 100000000\<rparr> = of_nat (i div 10 * 1000 + i mod 10 * 100)"
    by (simp add: clock_ms_def)
  moreover have "i div 10 * 1000 + i mod 10 * 100 = 100 * i"
    using div_mult_mod_eq [of i 10] by linarith
  ultimately show ?thesis
    by (simp only:)
qed

end
