(* ===== verification/CaptureStart.thy ===== *)
theory CaptureStart
  imports TraceCapture
begin

text \<open>
  The first half of a capture session (\<open>trace_capture.c\<close>): paths, the configuration of the system
  tracing process, its start and the wait until it is ready.  The host build is modelled; the Android
  build differs in the directories of two temporary files and in passing paths instead of open
  descriptors.  The program that is executed is known by the answers of the system calls.
\<close>

section \<open>Paths\<close>

definition EPROTO :: errno where "EPROTO = EOther 71"

text \<open>What the system answers while a session is started.\<close>

record help_round =
  hr_clock :: "timespec result"
  hr_poll :: "int result"
  hr_readable :: bool
  hr_read :: "bytes result"

record start_env =
  se_timestamp :: "string option"
  se_requested_is_dir :: bool
  se_help_pipe_err :: "errno option"
  se_help_fork_err :: "errno option"
  se_help_clock :: "timespec result"
  se_help_rounds :: "help_round list"
  se_help_wait :: "wait_answer list"
  se_open_config_err :: "errno option"
  se_config_writes :: "write_step list"
  se_close_config_err :: "errno option"
  se_reopen_config_err :: "errno option"
  se_open_system_err :: "errno option"
  se_ready_pipe_err :: "errno option"
  se_fork_err :: "errno option"
  se_ready_poll :: "int result"
  se_ready_readable :: bool
  se_ready_read :: "bytes result"
  se_launch_wait :: "wait_answer list"
  se_last_wait :: wait_answer

definition make_default_name :: "start_env \<Rightarrow> string option \<Rightarrow> string result" where
  "make_default_name env directory =
     (case se_timestamp env of
        None \<Rightarrow> Inl EIO
      | Some stamp \<Rightarrow>
          let path = (case directory of Some d \<Rightarrow> d | None \<Rightarrow> ''.'') @ ''/anettrace-'' @ stamp @ ''.pftrace'' in
          if PATH_MAX \<le> length path then Inl ENAMETOOLONG else Inr path)"

definition resolve_output :: "start_env \<Rightarrow> string option \<Rightarrow> string result" where
  "resolve_output env requested =
     (case requested of
        None \<Rightarrow> make_default_name env None
      | Some path \<Rightarrow>
          if se_requested_is_dir env then make_default_name env (Some path)
          else if PATH_MAX \<le> length path then Inl ENAMETOOLONG
          else Inr path)"

text \<open>What \<open>temporary_path\<close> leaves in the destination, truncated or cleared on an error.\<close>

definition temporary_dest :: "file_system \<Rightarrow> string \<Rightarrow> string \<Rightarrow> string" where
  "temporary_dest fs output suffix =
     (let dest = output @ ''.'' @ suffix @ ''.tmp'' in
      if PATH_MAX \<le> length dest then take (PATH_MAX - 1) dest
      else if fs dest \<noteq> None then [] else dest)"

definition system_temporary_paths :: "file_system \<Rightarrow> capture_state \<Rightarrow> errno option \<times> capture_state" where
  "system_temporary_paths fs c =
     (let c1 = c\<lparr>cs_system_trace := temporary_dest fs (cs_output c) ''system''\<rparr> in
      case temporary_path fs (cs_output c) ''system'' of
        Inl e \<Rightarrow> (Some e, c1)
      | Inr _ \<Rightarrow>
          let c2 = c1\<lparr>cs_config := temporary_dest fs (cs_output c) ''config''\<rparr> in
          (case temporary_path fs (cs_output c) ''config'' of Inl e \<Rightarrow> (Some e, c2) | Inr _ \<Rightarrow> (None, c2)))"

section \<open>The configuration\<close>

definition config_lines :: "string list \<Rightarrow> bytes" where
  "config_lines ls = concat (map (\<lambda>l. cstr l @ [10]) ls)"

definition sched_perfetto_config :: "bytes \<Rightarrow> bytes \<Rightarrow> bytes \<Rightarrow> bytes" where
  \<open>sched_perfetto_config compact_sched line flush_line =
     config_lines
       [''buffers: { size_kb: 32768 fill_policy: RING_BUFFER }'',
        ''data_sources: { config { name: "linux.ftrace" target_buffer: 0 ftrace_config {'',
        ''ftrace_events: "sched/sched_switch"'',
        ''ftrace_events: "sched/sched_waking"'',
        ''ftrace_events: "sched/sched_wakeup"'',
        ''ftrace_events: "sched/sched_process_exec"'',
        ''ftrace_events: "sched/sched_process_exit"'',
        ''ftrace_events: "power/suspend_resume"''] @
     compact_sched @
     config_lines
       [''} } }'',
        ''data_sources: { config { name: "linux.process_stats" target_buffer: 0 process_stats_config { scan_all_processes_on_start: true proc_stats_poll_ms: 1000 } } }''] @
     line @
     flush_line\<close>

definition full_perfetto_config :: "bytes \<Rightarrow> bytes \<Rightarrow> bytes \<Rightarrow> bytes" where
  \<open>full_perfetto_config compact_sched line flush_line =
     config_lines
       [''buffers: { size_kb: 200600 fill_policy: RING_BUFFER }'',
        ''buffers: { size_kb: 2048 fill_policy: RING_BUFFER }'',
        ''buffers: { size_kb: 10240 fill_policy: RING_BUFFER }'',
        ''data_sources: { config { name: "android.gpu.memory" } }'',
        ''data_sources: { config { name: "linux.process_stats" target_buffer: 1 process_stats_config { scan_all_processes_on_start: true proc_stats_poll_ms: 60000 } } }'',
        ''data_sources: { config { name: "linux.ftrace" target_buffer: 0 ftrace_config {'',
        ''symbolize_ksyms: true'',
        ''atrace_categories: "aidl"'',
        ''atrace_categories: "am"'',
        ''atrace_categories: "audio"'',
        ''atrace_categories: "binder_driver"'',
        ''atrace_categories: "binder_lock"'',
        ''atrace_categories: "camera"'',
        ''atrace_categories: "dalvik"'',
        ''atrace_categories: "disk"'',
        ''atrace_categories: "freq"'',
        ''atrace_categories: "gfx"'',
        ''atrace_categories: "hal"'',
        ''atrace_categories: "idle"'',
        ''atrace_categories: "input"'',
        ''atrace_categories: "memreclaim"'',
        ''atrace_categories: "network"'',
        ''atrace_categories: "nnapi"'',
        ''atrace_categories: "pdx"'',
        ''atrace_categories: "pm"'',
        ''atrace_categories: "power"'',
        ''atrace_categories: "res"'',
        ''atrace_categories: "rro"'',
        ''atrace_categories: "rs"'',
        ''atrace_categories: "sched"'',
        ''atrace_categories: "sm"'',
        ''atrace_categories: "ss"'',
        ''atrace_categories: "sync"'',
        ''atrace_categories: "thermal"'',
        ''atrace_categories: "vibrator"'',
        ''atrace_categories: "video"'',
        ''atrace_categories: "view"'',
        ''atrace_categories: "webview"'',
        ''atrace_categories: "wm"'',
        ''atrace_categories: "ftrace_print"'',
        ''atrace_apps: "*"'',
        ''ftrace_events: "sched/sched_switch"'',
        ''ftrace_events: "power/suspend_resume"'',
        ''ftrace_events: "sched/sched_wakeup"'',
        ''ftrace_events: "sched/sched_wakeup_new"'',
        ''ftrace_events: "sched/sched_waking"'',
        ''ftrace_events: "power/cpu_frequency"'',
        ''ftrace_events: "power/cpu_frequency_limits"'',
        ''ftrace_events: "power/cpu_idle"'',
        ''ftrace_events: "power/gpu_frequency"'',
        ''ftrace_events: "sched/sched_process_exit"'',
        ''ftrace_events: "sched/sched_process_free"'',
        ''ftrace_events: "task/task_newtask"'',
        ''ftrace_events: "task/task_rename"'',
        ''ftrace_events: "ftrace/print"''] @
     compact_sched @
     config_lines
       [''buffer_size_kb: 24576'',
        ''drain_period_ms: 1000'',
        ''} } }'',
        ''data_sources: { config { name: "linux.sys_stats" target_buffer: 1 sys_stats_config {'',
        ''meminfo_period_ms: 1000'',
        ''meminfo_counters: MEMINFO_MEM_TOTAL'',
        ''meminfo_counters: MEMINFO_MEM_FREE'',
        ''meminfo_counters: MEMINFO_MEM_AVAILABLE'',
        ''meminfo_counters: MEMINFO_BUFFERS'',
        ''meminfo_counters: MEMINFO_CACHED'',
        ''meminfo_counters: MEMINFO_SWAP_CACHED'',
        ''meminfo_counters: MEMINFO_ACTIVE'',
        ''meminfo_counters: MEMINFO_INACTIVE'',
        ''meminfo_counters: MEMINFO_ACTIVE_ANON'',
        ''meminfo_counters: MEMINFO_INACTIVE_ANON'',
        ''meminfo_counters: MEMINFO_ACTIVE_FILE'',
        ''meminfo_counters: MEMINFO_INACTIVE_FILE'',
        ''meminfo_counters: MEMINFO_UNEVICTABLE'',
        ''meminfo_counters: MEMINFO_SWAP_TOTAL'',
        ''meminfo_counters: MEMINFO_SWAP_FREE'',
        ''meminfo_counters: MEMINFO_DIRTY'',
        ''meminfo_counters: MEMINFO_WRITEBACK'',
        ''meminfo_counters: MEMINFO_ANON_PAGES'',
        ''meminfo_counters: MEMINFO_MAPPED'',
        ''meminfo_counters: MEMINFO_SHMEM'',
        ''stat_period_ms: 1000'',
        ''stat_counters: STAT_CPU_TIMES'',
        ''stat_counters: STAT_FORK_COUNT'',
        ''} } }'',
        ''data_sources: { config { name: "android.surfaceflinger.frametimeline" target_buffer: 2 } }'',
        ''data_sources: { config { name: "linux.system_info" } }'',
        ''data_sources: { config { name: "android.statsd" target_buffer: 1 statsd_tracing_config {'',
        ''raw_push_atom_id: 29'',
        ''raw_push_atom_id: 100002'',
        ''raw_push_atom_id: 100009'',
        ''raw_push_atom_id: 42'',
        ''raw_push_atom_id: 169'',
        ''raw_push_atom_id: 475'',
        ''raw_push_atom_id: 476'',
        ''raw_push_atom_id: 477'',
        ''raw_push_atom_id: 100034'',
        ''raw_push_atom_id: 100075'',
        ''raw_push_atom_id: 100092'',
        ''raw_push_atom_id: 100043'',
        ''raw_push_atom_id: 100076'',
        ''raw_push_atom_id: 100195'',
        ''} } }''] @
     line @
     flush_line @
     config_lines
       [''incremental_state_config { clear_period_ms: 5000 }'']\<close>

definition write_config ::
    "allocator \<Rightarrow> start_env \<Rightarrow> u32 \<Rightarrow> string option \<Rightarrow> config_file option \<Rightarrow> bool \<Rightarrow> file_system \<Rightarrow> capture_state \<Rightarrow>
       errno option \<times> capture_state \<times> file_system" where
  "write_config mem env duration_s profile custom_config ring_buffer fs c =
     (case (case se_open_config_err env of
              Some e \<Rightarrow> Some e
            | None \<Rightarrow> if fs (cs_config c) \<noteq> None then Some EEXIST else None) of
        Some e \<Rightarrow> (Some e, c, fs)
      | None \<Rightarrow>
          let fd = \<lparr>out_bytes = [], out_sched = se_config_writes env\<rparr>;
              flush_line = (if ring_buffer then [] else config_lines [''flush_period_ms: 30000'']);
              compact_sched = (if ring_buffer then config_lines [''compact_sched { enabled: false }'']
                               else config_lines [''compact_sched { enabled: true }'']);
              line = (if ring_buffer then [] else take 63 (duration_line duration_s));
              config_text = (if profile = Some ''full'' then full_perfetto_config else sched_perfetto_config)
                 compact_sched line flush_line;
              (err, fd') =
                (case custom_config of
                   Some f \<Rightarrow>
                     (case perfetto_config_write_custom mem (Some fd) (Some f) duration_s ring_buffer of
                        (e, Some fd1) \<Rightarrow> (e, fd1)
                      | (e, None) \<Rightarrow> (e, fd))
                 | None \<Rightarrow> if 16384 \<le> length config_text then (Some EOVERFLOW, fd) else write_all fd config_text) in
          (or_else err (se_close_config_err env), c\<lparr>cs_config_created := True\<rparr>, fs(cs_config c \<mapsto> out_bytes fd')))"

section \<open>The tracing process\<close>

text \<open>
  Reading the output of \<open>perfetto --help\<close> into 16384 bytes within three seconds; \<open>None\<close> when the
  loop goes on after the last round.  \<open>c_div\<close> truncates like the division of C, for a positive divisor.
  The child that prints the text is killed and reaped when the loop fails.
\<close>

definition c_div :: "int \<Rightarrow> int \<Rightarrow> int" where
  "c_div a b = (if a < 0 then - (- a div b) else a div b)"

fun help_loop :: "timespec \<Rightarrow> bytes \<Rightarrow> help_round list \<Rightarrow> bytes result option" where
  "help_loop start help [] = None"
| "help_loop start help (r # rs) =
     (case hr_clock r of
        Inl e \<Rightarrow> Some (Inl e)
      | Inr now \<Rightarrow>
          if 3000 - (tv_sec now - tv_sec start) * 1000 - c_div (tv_nsec now - tv_nsec start) 1000000 \<le> 0 then Some (Inl ETIMEDOUT)
          else (case hr_poll r of
            Inl e \<Rightarrow> Some (Inl e)
          | Inr ready \<Rightarrow>
              if ready = 0 then Some (Inl ETIMEDOUT)
              else if \<not> hr_readable r then Some (Inl EIO)
              else (case hr_read r of
                Inl e \<Rightarrow> Some (Inl e)
              | Inr available \<Rightarrow>
                  let got = take (16383 - length help) available; help' = help @ got in
                  if got = [] then Some (Inr help)
                  else if length help' = 16383 then Some (Inl EOVERFLOW)
                  else help_loop start help' rs)))"

fun contains_text :: "bytes \<Rightarrow> bytes \<Rightarrow> bool" where
  "contains_text needle [] \<longleftrightarrow> needle = []"
| "contains_text needle (x # xs) \<longleftrightarrow> take (length needle) (x # xs) = needle \<or> contains_text needle xs"

text \<open>The text up to the first null byte, which is all that \<open>strstr\<close> sees.\<close>

definition c_text :: "bytes \<Rightarrow> bytes" where
  "c_text xs = takeWhile (\<lambda>b. b \<noteq> 0) xs"

definition perfetto_supports_notify :: "start_env \<Rightarrow> bool result option" where
  "perfetto_supports_notify env =
     (case se_help_pipe_err env of
        Some e \<Rightarrow> Some (Inl e)
      | None \<Rightarrow>
          (case se_help_fork_err env of
             Some e \<Rightarrow> Some (Inl e)
           | None \<Rightarrow>
               (case (case se_help_clock env of Inl e \<Rightarrow> Some (Inl e) | Inr start \<Rightarrow> help_loop start [] (se_help_rounds env)) of
                  None \<Rightarrow> None
                | Some (Inl e) \<Rightarrow> Some (Inl e)
                | Some (Inr help) \<Rightarrow>
                    (case wait_child 250 (se_help_wait env) of
                       Inl e \<Rightarrow> Some (Inl e)
                     | Inr status \<Rightarrow>
                         if status \<noteq> Exited 0 \<and> status \<noteq> Exited 1 then Some (Inl ECHILD)
                         else let has = (\<lambda>s. contains_text (cstr s) (c_text help)) in
                           if \<not> has ''--txt'' \<or> (\<not> has ''--config'' \<and> \<not> has ''-c'') \<or> (\<not> has ''--out'' \<and> \<not> has ''-o'')
                           then Some (Inl EPROTO)
                           else Some (Inr (has ''--notify-fd''))))))"

definition wait_perfetto_ready :: "start_env \<Rightarrow> errno option" where
  "wait_perfetto_ready env =
     (case se_ready_poll env of
        Inl e \<Rightarrow> Some e
      | Inr ready \<Rightarrow>
          if ready = 0 then Some ETIMEDOUT
          else if \<not> se_ready_readable env then Some EIO
          else (case se_ready_read env of
                  Inl e \<Rightarrow> Some e
                | Inr [] \<Rightarrow> Some ECHILD
                | Inr (status # _) \<Rightarrow> if status = 0 then None else Some EIO))"

text \<open>The waits after the launch: the state may record that the process is gone.\<close>

definition wait_launched :: "start_env \<Rightarrow> bool \<Rightarrow> capture_state \<Rightarrow> errno option \<times> capture_state" where
  "wait_launched env notify_ready c =
     (case (if notify_ready then (wait_perfetto_ready env, c)
            else (case wait_child 200 (se_launch_wait env) of
                    Inr _ \<Rightarrow> (Some ECHILD, c\<lparr>cs_started := False\<rparr>)
                  | Inl e \<Rightarrow> if e = ETIMEDOUT then (None, c) else (Some e, c))) of
        (Some e, c1) \<Rightarrow> (Some e, c1)
      | (None, c1) \<Rightarrow>
          (case se_last_wait env of
             Reaped _ \<Rightarrow> (Some ECHILD, c1\<lparr>cs_started := False\<rparr>)
           | WaitFails e \<Rightarrow> (Some e, c1)
           | Running \<Rightarrow> (None, c1)))"

definition launch :: "start_env \<Rightarrow> bool \<Rightarrow> bool \<Rightarrow> file_system \<Rightarrow> capture_state \<Rightarrow> errno option \<times> capture_state \<times> file_system" where
  "launch env notify_ready system_only fs c =
     (case (if \<not> system_only then (None, c, fs)
            else case or_else (se_reopen_config_err env)
                   (or_else (se_open_system_err env) (if fs (cs_system_trace c) \<noteq> None then Some EEXIST else None)) of
                Some e \<Rightarrow> (Some e, c, fs)
              | None \<Rightarrow> (None, c\<lparr>cs_system_created := True\<rparr>, fs(cs_system_trace c \<mapsto> []))) of
        (Some e, c1, fs1) \<Rightarrow> (Some e, c1, fs1)
      | (None, c1, fs1) \<Rightarrow>
          (case or_else (if notify_ready then se_ready_pipe_err env else None) (se_fork_err env) of
             Some e \<Rightarrow> (Some e, c1, fs1)
           | None \<Rightarrow>
               (case wait_launched env notify_ready (c1\<lparr>cs_system_created := True, cs_started := True\<rparr>) of
                  (err, c2) \<Rightarrow> (err, c2, fs1))))"

definition capture_zero :: capture_state where
  "capture_zero = \<lparr>cs_output = [], cs_system_trace = [], cs_network_trace = [], cs_config = [], cs_window_s = 0,
     cs_stop_boottime_ns = 0, cs_stop_monotonic_ns = 0, cs_ring_buffer = False, cs_stop_requested = False, cs_started = False,
     cs_system_only = False, cs_child_reaped = False, cs_child_status = Exited 0, cs_config_created = False,
     cs_system_created = False, cs_signals = []\<rparr>"

text \<open>The part of \<open>trace_capture_start\<close> whose errors go to \<open>fail\<close>: first the paths.\<close>

definition start_paths :: "start_env \<Rightarrow> string option \<Rightarrow> bool \<Rightarrow> file_system \<Rightarrow> errno option \<times> capture_state" where
  "start_paths env output system_only fs =
     (let c = capture_zero\<lparr>cs_system_only := system_only\<rparr> in
      case resolve_output env output of
        Inl e \<Rightarrow> (Some e, c)
      | Inr path \<Rightarrow>
          let c1 = c\<lparr>cs_output := path\<rparr> in
          if fs path \<noteq> None then (Some EEXIST, c1)
          else if system_only then system_temporary_paths fs c1
          else let c2 = c1\<lparr>cs_network_trace := temporary_dest fs path ''anettrace''\<rparr> in
            (case temporary_path fs path ''anettrace'' of
               Inl e \<Rightarrow> (Some e, c2)
             | Inr _ \<Rightarrow> system_temporary_paths fs c2))"

text \<open>\<open>None\<close> while the help text is awaited.\<close>

definition start_session ::
    "allocator \<Rightarrow> start_env \<Rightarrow> string option \<Rightarrow> u32 \<Rightarrow> string option \<Rightarrow> config_file option \<Rightarrow> bool \<Rightarrow> bool \<Rightarrow> file_system \<Rightarrow>
       (errno option \<times> capture_state \<times> file_system) option" where
  "start_session mem env output duration_s profile perfetto_config ring_buffer system_only fs =
     (case start_paths env output system_only fs of
        (Some e, c) \<Rightarrow> Some (Some e, c, fs)
      | (None, c) \<Rightarrow>
          (case perfetto_supports_notify env of
             None \<Rightarrow> None
           | Some (Inl e) \<Rightarrow> Some (Some e, c, fs)
           | Some (Inr notify_ready) \<Rightarrow>
               let c1 = c\<lparr>cs_ring_buffer := ring_buffer, cs_window_s := duration_s\<rparr> in
               (case write_config mem env (duration_s + 30) profile perfetto_config ring_buffer fs c1 of
                  (Some e, c2, fs2) \<Rightarrow> Some (Some e, c2, fs2)
                | (None, c2, fs2) \<Rightarrow> Some (launch env notify_ready system_only fs2 c2))))"

definition trace_capture_start ::
    "allocator \<Rightarrow> start_env \<Rightarrow> finish_env \<Rightarrow> string option \<Rightarrow> u32 \<Rightarrow> string option \<Rightarrow> config_file option \<Rightarrow> bool \<Rightarrow> bool \<Rightarrow>
       file_system \<Rightarrow> (errno option \<times> capture_state \<times> file_system) option" where
  "trace_capture_start mem env fenv output duration_s profile perfetto_config ring_buffer system_only fs =
     (let c = capture_zero\<lparr>cs_system_only := system_only\<rparr> in
      if duration_s = 0 \<or> (profile = None \<and> perfetto_config = None) then Some (Some EINVAL, c, fs)
      else if 0xFFFFFFFF - 30 < duration_s then Some (Some EOVERFLOW, c, fs)
      else if perfetto_config = None \<and> profile \<noteq> Some ''full'' \<and> profile \<noteq> Some ''sched'' then Some (Some EINVAL, c, fs)
      else (case start_session mem env output duration_s profile perfetto_config ring_buffer system_only fs of
              None \<Rightarrow> None
            | Some (None, c1, fs1) \<Rightarrow> Some (None, c1, fs1)
            | Some (Some e, c1, fs1) \<Rightarrow>
                (case trace_capture_abort fenv fs1 c1 of None \<Rightarrow> None | Some (c2, fs2) \<Rightarrow> Some (Some e, c2, fs2))))"

definition trace_capture_network_path :: "capture_state \<Rightarrow> string option" where
  "trace_capture_network_path c = (if cs_network_trace c \<noteq> [] then Some (cs_network_trace c) else None)"

section \<open>What a start leaves behind\<close>

text \<open>The configuration of a built-in profile.\<close>

definition builtin_config :: "string option \<Rightarrow> u32 \<Rightarrow> bool \<Rightarrow> bytes" where
  "builtin_config profile duration_s ring_buffer =
     (if profile = Some ''full'' then full_perfetto_config else sched_perfetto_config)
       (config_lines [if ring_buffer then ''compact_sched { enabled: false }'' else ''compact_sched { enabled: true }''])
       (if ring_buffer then [] else duration_line duration_s)
       (if ring_buffer then [] else config_lines [''flush_period_ms: 30000''])"

fun text_size :: "string \<Rightarrow> int \<Rightarrow> int" where
  "text_size [] n = n"
| "text_size (c # cs) n = text_size cs (n + 1)"

lemma text_size_length: "text_size l n = int (length l) + n"
  by (induction l arbitrary: n) simp_all

fun lines_size :: "string list \<Rightarrow> int \<Rightarrow> int" where
  "lines_size [] n = n"
| "lines_size (l # ls) n = lines_size ls (text_size l (n + 1))"

lemma lines_size_length: "lines_size ls n = int (length (config_lines ls)) + n"
  by (induction ls arbitrary: n) (simp_all add: config_lines_def cstr_def text_size_length)

lemma length_config_lines: "int (length (config_lines ls)) = lines_size ls 0"
  by (simp add: lines_size_length)

lemma template_length:
  "length (full_perfetto_config a b c) < 4000 + length a + length b + length c"
  "length (sched_perfetto_config a b c) < 4000 + length a + length b + length c"
proof -
  have "int (length (full_perfetto_config a b c)) < 4000 + int (length a) + int (length b) + int (length c)"
    unfolding full_perfetto_config_def length_append of_nat_add length_config_lines by simp
  then show "length (full_perfetto_config a b c) < 4000 + length a + length b + length c"
    by linarith
  have "int (length (sched_perfetto_config a b c)) < 4000 + int (length a) + int (length b) + int (length c)"
    unfolding sched_perfetto_config_def length_append of_nat_add length_config_lines by simp
  then show "length (sched_perfetto_config a b c) < 4000 + length a + length b + length c"
    by linarith
qed

lemma builtin_config_fits: "length (builtin_config profile duration_s ring_buffer) < 16384"
proof -
  let ?a = "config_lines [if ring_buffer then ''compact_sched { enabled: false }'' else ''compact_sched { enabled: true }'']"
  let ?b = "if ring_buffer then [] else duration_line duration_s"
  let ?c = "if ring_buffer then [] else config_lines [''flush_period_ms: 30000'']"
  have "int (length ?a) < 100" "int (length (config_lines [''flush_period_ms: 30000''])) < 100"
    unfolding length_config_lines by simp_all
  then have "length ?a < 100" "length ?c < 100"
    by simp_all
  moreover have "length ?b < 64"
    using duration_line_fits(1) by simp
  ultimately have "4000 + length ?a + length ?b + length ?c < 16384"
    by simp
  then show ?thesis
    using template_length [of ?a ?b ?c] unfolding builtin_config_def by (auto simp del: length_append)
qed

lemma write_config_ok:
  assumes "write_config mem env duration_s profile custom ring_buffer fs c = (err, c', fs')"
  shows "(err \<noteq> None \<and> c' = c \<and> fs' = fs) \<or>
     (fs (cs_config c) = None \<and> c' = c\<lparr>cs_config_created := True\<rparr> \<and>
      (\<exists>buf. fs' = fs(cs_config c \<mapsto> buf) \<and> (err = None \<and> custom = None \<longrightarrow> buf = builtin_config profile duration_s ring_buffer)) \<and>
      (custom = None \<and> benign_out \<lparr>out_bytes = [], out_sched = se_config_writes env\<rparr> \<and> se_close_config_err env = None \<longrightarrow> err = None))"
proof (cases "(case se_open_config_err env of Some e \<Rightarrow> Some e | None \<Rightarrow> if fs (cs_config c) \<noteq> None then Some EEXIST else None)")
  case (Some e)
  then show ?thesis
    using assms unfolding write_config_def Some by auto
next
  case None
  define fd where "fd = \<lparr>out_bytes = [], out_sched = se_config_writes env\<rparr>"
  have tk: "take 63 (duration_line duration_s) = duration_line duration_s"
    using duration_line_fits(1) [of duration_s] by simp
  have b: "(if profile = Some ''full'' then full_perfetto_config else sched_perfetto_config)
       (if ring_buffer then config_lines [''compact_sched { enabled: false }'']
        else config_lines [''compact_sched { enabled: true }''])
       (if ring_buffer then [] else take 63 (duration_line duration_s))
       (if ring_buffer then [] else config_lines [''flush_period_ms: 30000'']) = builtin_config profile duration_s ring_buffer"
    unfolding builtin_config_def tk by (cases ring_buffer) simp_all
  define r where "r = (case custom of
       Some f \<Rightarrow> (case perfetto_config_write_custom mem (Some fd) (Some f) duration_s ring_buffer of
                    (e, Some fd1) \<Rightarrow> (e, fd1) | (e, None) \<Rightarrow> (e, fd))
     | None \<Rightarrow> if 16384 \<le> length (builtin_config profile duration_s ring_buffer) then (Some EOVERFLOW, fd)
               else write_all fd (builtin_config profile duration_s ring_buffer))"
  have w: "write_config mem env duration_s profile custom ring_buffer fs c =
      (or_else (fst r) (se_close_config_err env), c\<lparr>cs_config_created := True\<rparr>, fs(cs_config c \<mapsto> out_bytes (snd r)))"
    unfolding write_config_def None option.case Let_def b fd_def [symmetric] r_def [symmetric] by (simp add: split_beta)
  have res: "err = or_else (fst r) (se_close_config_err env)" "c' = c\<lparr>cs_config_created := True\<rparr>"
      "fs' = fs(cs_config c \<mapsto> out_bytes (snd r))"
    using assms unfolding w by simp_all
  have "out_bytes (snd r) = builtin_config profile duration_s ring_buffer" if "err = None" "custom = None"
    using that res(1) write_all_ok [of fd "builtin_config profile duration_s ring_buffer"]
      builtin_config_fits [of profile duration_s ring_buffer]
    by (simp add: r_def scan_ok_def fd_def or_else_None_iff)
  moreover have "fs (cs_config c) = None"
    using None by (simp split: option.splits if_splits)
  moreover have "err = None" if "custom = None" "benign_out fd" "se_close_config_err env = None"
    using that res(1) write_all_ok [of fd "builtin_config profile duration_s ring_buffer"]
      builtin_config_fits [of profile duration_s ring_buffer]
    by (simp add: r_def scan_ok_def or_else_None_iff)
  ultimately have "fs (cs_config c) = None \<and> c' = c\<lparr>cs_config_created := True\<rparr> \<and>
      (\<exists>buf. fs' = fs(cs_config c \<mapsto> buf) \<and> (err = None \<and> custom = None \<longrightarrow> buf = builtin_config profile duration_s ring_buffer)) \<and>
      (custom = None \<and> benign_out \<lparr>out_bytes = [], out_sched = se_config_writes env\<rparr> \<and> se_close_config_err env = None \<longrightarrow> err = None)"
    unfolding fd_def [symmetric] using res(2,3) by (intro conjI exI [of _ "out_bytes (snd r)"]) simp_all
  then show ?thesis ..
qed

definition same_session :: "capture_state \<Rightarrow> capture_state \<Rightarrow> bool" where
  "same_session a b \<longleftrightarrow> cs_output b = cs_output a \<and> cs_system_trace b = cs_system_trace a \<and> cs_network_trace b = cs_network_trace a \<and>
     cs_config b = cs_config a \<and> cs_config_created b = cs_config_created a \<and> cs_system_only b = cs_system_only a \<and>
     cs_ring_buffer b = cs_ring_buffer a \<and> cs_window_s b = cs_window_s a \<and> cs_child_reaped b = cs_child_reaped a \<and>
     cs_signals b = cs_signals a"

lemma wait_launched_ok:
  assumes "wait_launched env n c = (err, c')"
  shows "same_session c c'" "err = None \<longrightarrow> cs_started c' = cs_started c"
  using assms by (auto simp: wait_launched_def same_session_def split: if_splits sum.splits prod.splits option.splits wait_answer.splits)

lemma launch_ok:
  assumes "launch env n only fs c = (err, c', fs')"
  shows "same_session c c' \<and> (err = None \<longrightarrow> cs_started c') \<and>
     (fs' = fs \<or> (only \<and> fs (cs_system_trace c) = None \<and> fs' = fs(cs_system_trace c \<mapsto> []))) \<and>
     (err = None \<and> \<not> only \<longrightarrow> fs' = fs)"
proof -
  define first where "first = (if \<not> only then (None, c, fs)
            else case or_else (se_reopen_config_err env)
                   (or_else (se_open_system_err env) (if fs (cs_system_trace c) \<noteq> None then Some EEXIST else None)) of
                Some e \<Rightarrow> (Some e, c, fs)
              | None \<Rightarrow> (None, c\<lparr>cs_system_created := True\<rparr>, fs(cs_system_trace c \<mapsto> [])))"
  obtain e c1 fs1 where f: "first = (e, c1, fs1)"
    by (cases first) auto
  have s: "same_session c c1" "fs1 = fs \<or> (only \<and> fs (cs_system_trace c) = None \<and> fs1 = fs(cs_system_trace c \<mapsto> []))"
      "\<not> only \<longrightarrow> fs1 = fs"
    using f by (auto simp: first_def same_session_def or_else_None_iff split: if_splits option.splits)
  have l: "launch env n only fs c = (case e of Some e \<Rightarrow> (Some e, c1, fs1)
      | None \<Rightarrow> (case or_else (if n then se_ready_pipe_err env else None) (se_fork_err env) of
             Some e \<Rightarrow> (Some e, c1, fs1)
           | None \<Rightarrow> (case wait_launched env n (c1\<lparr>cs_system_created := True, cs_started := True\<rparr>) of
                  (err, c2) \<Rightarrow> (err, c2, fs1))))"
    unfolding launch_def first_def [symmetric] f by (simp split: option.splits)
  obtain err2 c2 where w: "wait_launched env n (c1\<lparr>cs_system_created := True, cs_started := True\<rparr>) = (err2, c2)"
    by force
  have "same_session c c2" "err2 = None \<longrightarrow> cs_started c2"
    using wait_launched_ok [OF w] s(1) by (auto simp: same_session_def)
  then show ?thesis
    using assms l w s by (auto split: option.splits)
qed

lemma temporary_path_Inr:
  "temporary_path fs output suffix = Inr x \<Longrightarrow> x = output @ ''.'' @ suffix @ ''.tmp'' \<and> fs x = None \<and> temporary_dest fs output suffix = x"
  by (auto simp: temporary_path_def temporary_dest_def Let_def split: if_splits)

lemma system_paths_ok:
  assumes "system_temporary_paths fs c = (err, c')"
  shows "\<exists>s k. c' = c\<lparr>cs_system_trace := s, cs_config := k\<rparr> \<and>
     (err = None \<longrightarrow> s = cs_output c @ ''.system.tmp'' \<and> k = cs_output c @ ''.config.tmp'')"
proof (cases "temporary_path fs (cs_output c) ''system''")
  case (Inl e)
  then show ?thesis
    using assms by (intro exI [of _ "temporary_dest fs (cs_output c) ''system''"] exI [of _ "cs_config c"])
      (auto simp: system_temporary_paths_def Let_def)
next
  case s: (Inr x)
  then show ?thesis
    using assms temporary_path_Inr [OF s] temporary_path_Inr [of fs "cs_output c" "''config''"]
    by (intro exI [of _ "temporary_dest fs (cs_output c) ''system''"] exI [of _ "temporary_dest fs (cs_output c) ''config''"])
      (auto simp: system_temporary_paths_def Let_def split: sum.splits)
qed

text \<open>Every exit of \<open>start_session\<close>.\<close>

definition started_ok ::
    "string option \<Rightarrow> config_file option \<Rightarrow> u32 \<Rightarrow> bool \<Rightarrow> bool \<Rightarrow> file_system \<Rightarrow> capture_state \<Rightarrow> file_system \<Rightarrow> bool" where
  "started_ok profile custom duration_s ring_buffer system_only fs c fs' \<longleftrightarrow>
     cs_started c \<and> cs_config_created c \<and> cs_ring_buffer c = ring_buffer \<and> cs_window_s c = duration_s \<and>
     fs (cs_output c) = None \<and> cs_system_trace c = cs_output c @ ''.system.tmp'' \<and> cs_config c = cs_output c @ ''.config.tmp'' \<and>
     cs_network_trace c = (if system_only then [] else cs_output c @ ''.anettrace.tmp'') \<and>
     (custom = None \<longrightarrow> fs' (cs_config c) = Some (builtin_config profile (duration_s + 30) ring_buffer))"

definition start_frame :: "bool \<Rightarrow> file_system \<Rightarrow> capture_state \<Rightarrow> file_system \<Rightarrow> bool" where
  "start_frame system_only fs c fs' \<longleftrightarrow>
     cs_system_only c = system_only \<and> \<not> cs_child_reaped c \<and> cs_signals c = [] \<and>
     (cs_config_created c \<longrightarrow> fs (cs_config c) = None) \<and>
     (\<forall>p. \<not> (cs_config_created c \<and> p = cs_config c) \<and> \<not> (system_only \<and> p = cs_system_trace c) \<longrightarrow> fs' p = fs p)"

lemma start_launch_ok:
  assumes "write_config mem env (duration_s + 30) profile custom ring_buffer fs c = (None, c5, fs5)"
    and "launch env n system_only fs5 c5 = (err, c', fs')"
    and c: "cs_system_only c = system_only" "\<not> cs_child_reaped c" "cs_signals c = []" "cs_ring_buffer c = ring_buffer"
      "cs_window_s c = duration_s" "fs (cs_output c) = None" "cs_system_trace c = cs_output c @ ''.system.tmp''"
      "cs_config c = cs_output c @ ''.config.tmp''"
      "cs_network_trace c = (if system_only then [] else cs_output c @ ''.anettrace.tmp'')"
  shows "start_frame system_only fs c' fs' \<and> (err = None \<longrightarrow> started_ok profile custom duration_s ring_buffer system_only fs c' fs')"
proof -
  obtain buf where w: "fs (cs_config c) = None" "c5 = c\<lparr>cs_config_created := True\<rparr>" "fs5 = fs(cs_config c \<mapsto> buf)"
      "custom = None \<longrightarrow> buf = builtin_config profile (duration_s + 30) ring_buffer"
    using write_config_ok [OF assms(1)] by auto
  note l = launch_ok [OF assms(2)]
  have "cs_config c \<noteq> cs_system_trace c"
    using c by simp
  moreover have "fs' = fs5 \<or> (system_only \<and> fs' = fs5(cs_system_trace c \<mapsto> []))"
    using l w(2) by auto
  ultimately have "start_frame system_only fs c' fs'" "fs' (cs_config c) = Some buf"
    using l w(1,2,3) c by (auto simp: start_frame_def same_session_def)
  then show ?thesis
    using l w c by (auto simp: started_ok_def same_session_def)
qed

lemma start_paths_ok:
  assumes "start_paths env output system_only fs = (err, c)"
  shows "\<exists>path net s k. c = capture_zero\<lparr>cs_system_only := system_only, cs_output := path, cs_network_trace := net, cs_system_trace := s, cs_config := k\<rparr> \<and>
     (err = None \<longrightarrow> resolve_output env output = Inr path \<and> fs path = None \<and> s = path @ ''.system.tmp'' \<and> k = path @ ''.config.tmp'' \<and>
        net = (if system_only then [] else path @ ''.anettrace.tmp''))"
proof -
  have ok: ?thesis if h: "system_temporary_paths fs d = (err, c)" "resolve_output env output = Inr path" "fs path = None"
      "d = capture_zero\<lparr>cs_system_only := system_only, cs_output := path, cs_network_trace := net, cs_system_trace := [], cs_config := []\<rparr>"
      "net = (if system_only then [] else path @ ''.anettrace.tmp'')" for d path net
  proof -
    obtain s k where "c = d\<lparr>cs_system_trace := s, cs_config := k\<rparr>"
        "err = None \<longrightarrow> s = cs_output d @ ''.system.tmp'' \<and> k = cs_output d @ ''.config.tmp''"
      using system_paths_ok [OF h(1)] by blast
    then show ?thesis
      using h(2,3,5) by (intro exI [of _ path] exI [of _ net] exI [of _ s] exI [of _ k]) (simp add: h(4))
  qed
  show ?thesis
  proof (cases "\<exists>path. resolve_output env output = Inr path \<and> fs path = None \<and>
      (system_only \<or> (\<exists>x. temporary_path fs path ''anettrace'' = Inr x))")
    case True
    then obtain path where p: "resolve_output env output = Inr path" "fs path = None"
        "system_only \<or> (\<exists>x. temporary_path fs path ''anettrace'' = Inr x)"
      by blast
    define net where "net = (if system_only then [] else path @ ''.anettrace.tmp'')"
    define d where "d = capture_zero\<lparr>cs_system_only := system_only, cs_output := path, cs_network_trace := net, cs_system_trace := [], cs_config := []\<rparr>"
    have "start_paths env output system_only fs = system_temporary_paths fs d"
    proof (cases system_only)
      case True
      then have "d = capture_zero\<lparr>cs_system_only := system_only, cs_output := path\<rparr>"
        by (simp add: d_def net_def capture_zero_def)
      then show ?thesis
        using True p(1,2) by (simp add: start_paths_def Let_def)
    next
      case False
      then obtain x where x: "temporary_path fs path ''anettrace'' = Inr x"
        using p(3) by blast
      have "d = capture_zero\<lparr>cs_system_only := system_only, cs_output := path, cs_network_trace := temporary_dest fs path ''anettrace''\<rparr>"
        using False temporary_path_Inr [OF x] by (simp add: d_def net_def capture_zero_def)
      then show ?thesis
        using False p(1,2) x by (simp add: start_paths_def Let_def)
    qed
    then have "system_temporary_paths fs d = (err, c)"
      using assms by simp
    then show ?thesis
      using ok p(1,2) d_def net_def by blast
  next
    case False
    then have "err \<noteq> None" "\<exists>path net. c = capture_zero\<lparr>cs_system_only := system_only, cs_output := path, cs_network_trace := net\<rparr>"
      using assms by (auto simp: start_paths_def Let_def capture_zero_def split: sum.splits if_splits)
    then obtain path net where "err \<noteq> None" "c = capture_zero\<lparr>cs_system_only := system_only, cs_output := path, cs_network_trace := net\<rparr>"
      by blast
    then show ?thesis
      by (intro exI [of _ path] exI [of _ net] exI [of _ "[]"]) (simp add: capture_zero_def)
  qed
qed

lemma start_session_ok:
  assumes "start_session mem env output duration_s profile custom ring_buffer system_only fs = Some (err, c', fs')"
  shows "start_frame system_only fs c' fs' \<and> (err = None \<longrightarrow> started_ok profile custom duration_s ring_buffer system_only fs c' fs' \<and>
      resolve_output env output = Inr (cs_output c'))"
proof -
  obtain e c where sp: "start_paths env output system_only fs = (e, c)"
    by force
  obtain path net s k where c: "c = capture_zero\<lparr>cs_system_only := system_only, cs_output := path, cs_network_trace := net, cs_system_trace := s, cs_config := k\<rparr>"
      "e = None \<longrightarrow> resolve_output env output = Inr path \<and> fs path = None \<and> s = path @ ''.system.tmp'' \<and> k = path @ ''.config.tmp'' \<and>
        net = (if system_only then [] else path @ ''.anettrace.tmp'')"
    using start_paths_ok [OF sp] by blast
  define c1 where "c1 = c\<lparr>cs_ring_buffer := ring_buffer, cs_window_s := duration_s\<rparr>"
  have run: "start_session mem env output duration_s profile custom ring_buffer system_only fs =
     (case e of
        Some e \<Rightarrow> Some (Some e, c, fs)
      | None \<Rightarrow>
          (case perfetto_supports_notify env of
             None \<Rightarrow> None
           | Some (Inl e) \<Rightarrow> Some (Some e, c, fs)
           | Some (Inr n) \<Rightarrow>
               (case write_config mem env (duration_s + 30) profile custom ring_buffer fs c1 of
                  (Some e, c2, fs2) \<Rightarrow> Some (Some e, c2, fs2)
                | (None, c2, fs2) \<Rightarrow> Some (launch env n system_only fs2 c2))))"
    unfolding start_session_def sp Let_def c1_def by (cases e) simp_all
  have z: "cs_system_only c = system_only" "\<not> cs_child_reaped c" "cs_signals c = []" "\<not> cs_config_created c"
    by (simp_all add: c(1) capture_zero_def)
  have early: "start_frame system_only fs c fs" if "c' = c" "fs' = fs"
    using z by (simp add: start_frame_def)
  show ?thesis
  proof (cases "e = None \<and> (\<exists>n. perfetto_supports_notify env = Some (Inr n))")
    case False
    then have "c' = c" "fs' = fs" "err \<noteq> None"
      using assms run by (auto split: option.splits sum.splits)
    then show ?thesis
      using early by auto
  next
    case True
    then obtain n where n: "e = None" "perfetto_supports_notify env = Some (Inr n)"
      by blast
    obtain we c2 fs2 where w: "write_config mem env (duration_s + 30) profile custom ring_buffer fs c1 = (we, c2, fs2)"
      by (cases "write_config mem env (duration_s + 30) profile custom ring_buffer fs c1") auto
    show ?thesis
    proof (cases we)
      case None
      then have l: "launch env n system_only fs2 c2 = (err, c', fs')"
        using assms run n w by simp
      have "start_frame system_only fs c' fs' \<and> (err = None \<longrightarrow> started_ok profile custom duration_s ring_buffer system_only fs c' fs')"
        by (rule start_launch_ok [OF w [unfolded None] l]) (use c n(1) in \<open>simp_all add: c1_def capture_zero_def\<close>)
      moreover have "cs_output c2 = cs_output c1"
        using write_config_ok [OF w] by (elim disjE conjE) simp_all
      then have "cs_output c' = path"
        using launch_ok [OF l] c(1) by (simp add: same_session_def c1_def)
      ultimately show ?thesis
        using c(2) n(1) by simp
    next
      case (Some e2)
      then have "err = Some e2" "c' = c2" "fs' = fs2"
        using assms run n w by simp_all
      moreover have "start_frame system_only fs c2 fs2"
        using write_config_ok [OF w] z by (elim disjE conjE exE) (simp_all add: start_frame_def c1_def)
      ultimately show ?thesis
        by simp
    qed
  qed
qed

lemma stop_created:
  "stop_perfetto env c = Some (r, c') \<Longrightarrow> cs_config_created c' = cs_config_created c"
  by (auto simp: stop_perfetto_def trace_capture_stop_def send_signal_def reaped_as_def Let_def
      split: option.splits prod.splits sum.splits if_splits)

lemma abort_files:
  assumes "trace_capture_abort env fs c = Some (c', fs')"
  shows "fs' = (if cs_config_created c then fs(cs_config c := None) else fs) \<and> cs_system_trace c' = cs_system_trace c \<and>
     cs_config c' = cs_config c"
proof (cases "cs_started c \<and> \<not> cs_child_reaped c")
  case True
  then obtain r c1 where s: "stop_perfetto env c = Some (r, c1)" "c' = c1\<lparr>cs_started := False\<rparr>"
      "fs' = cleanup_temporary (c1\<lparr>cs_started := False\<rparr>) True fs"
    using assms by (auto simp: trace_capture_abort_def split: option.splits)
  then show ?thesis
    using stop_frame [OF s(1)] stop_created [OF s(1)] by (simp add: cleanup_failed)
next
  case False
  then have "c' = c" "fs' = cleanup_temporary c True fs"
    using assms by (auto simp: trace_capture_abort_def)
  then show ?thesis
    by (simp add: cleanup_failed)
qed

lemma resolved_nonempty: "resolve_output env output = Inr path \<Longrightarrow> output \<noteq> Some [] \<Longrightarrow> path \<noteq> []"
  by (auto simp: resolve_output_def make_default_name_def Let_def split: option.splits if_splits)

lemma started_paths:
  assumes "started_ok profile custom duration_s ring_buffer system_only fs c fs'" and "cs_output c \<noteq> []" and "cs_system_only c = system_only"
  shows "session_paths c"
  using assms by (auto simp: started_ok_def session_paths_def)

section \<open>The process\<close>

text \<open>
  Whether a start comes to launch the process: \<open>Some n\<close> when every step up to the fork succeeds, with
  \<open>n\<close> for a process that reports when it is ready.
\<close>

definition process_launched ::
    "allocator \<Rightarrow> start_env \<Rightarrow> string option \<Rightarrow> u32 \<Rightarrow> string option \<Rightarrow> config_file option \<Rightarrow> bool \<Rightarrow> bool \<Rightarrow> file_system \<Rightarrow> bool option" where
  "process_launched mem env output duration_s profile custom ring_buffer system_only fs =
     (if duration_s = 0 \<or> (profile = None \<and> custom = None) \<or> 0xFFFFFFFF - 30 < duration_s \<or>
         (custom = None \<and> profile \<noteq> Some ''full'' \<and> profile \<noteq> Some ''sched'') then None
      else case (start_paths env output system_only fs, perfetto_supports_notify env) of
        ((None, c), Some (Inr n)) \<Rightarrow>
          (case write_config mem env (duration_s + 30) profile custom ring_buffer fs
                  (c\<lparr>cs_ring_buffer := ring_buffer, cs_window_s := duration_s\<rparr>) of
             (None, c2, fs2) \<Rightarrow>
               if (\<not> system_only \<or> se_reopen_config_err env = None \<and> se_open_system_err env = None \<and> fs2 (cs_system_trace c2) = None) \<and>
                  (\<not> n \<or> se_ready_pipe_err env = None) \<and> se_fork_err env = None
               then Some n else None
           | _ \<Rightarrow> None)
      | _ \<Rightarrow> None)"

text \<open>Whether one of the waits after the launch reports that the process has ended.\<close>

fun reaped :: "wait_answer \<Rightarrow> bool" where
  "reaped (Reaped status) = True"
| "reaped _ = False"

definition seen_ended :: "start_env \<Rightarrow> bool \<Rightarrow> bool" where
  "seen_ended env n =
     (if n then wait_perfetto_ready env = None \<and> reaped (se_last_wait env)
      else case wait_child 200 (se_launch_wait env) of Inr _ \<Rightarrow> True | Inl e \<Rightarrow> e = ETIMEDOUT \<and> reaped (se_last_wait env))"

text \<open>
  A process that was told to stop: it was sent \<open>SIGTERM\<close>, and its exit was collected, or the system
  did not let its exit be confirmed; a process whose trace stopped growing was also killed, and not
  even then seen to end within two seconds.
\<close>

definition told_to_stop :: "finish_env \<Rightarrow> capture_state \<Rightarrow> bool" where
  "told_to_stop env c \<longleftrightarrow>
     (\<exists>later. cs_signals c = SIGTERM # later) \<and>
     (cs_child_reaped c \<or>
      (\<exists>e. wait_perfetto_stop (fe_stop_clock env) (fe_rounds env) = Some (Inl e, False)) \<or>
      (\<exists>e e'. wait_perfetto_stop (fe_stop_clock env) (fe_rounds env) = Some (Inl e, True) \<and>
         cs_signals c = [SIGTERM, SIGKILL] \<and> wait_child 2000 (fe_reap env) = Inl e'))"

definition unstopped :: "capture_state \<Rightarrow> bool" where
  "unstopped c \<longleftrightarrow> cs_signals c = [] \<and> \<not> cs_stop_requested c \<and> \<not> cs_child_reaped c"

lemma wait_launched_process:
  assumes "wait_launched env n c = (err, c')" and "cs_started c"
  shows "cs_started c' = (\<not> seen_ended env n)" and "unstopped c \<longrightarrow> unstopped c'" and "err = None \<longrightarrow> se_last_wait env = Running"
  using assms by (auto simp: wait_launched_def seen_ended_def unstopped_def
      split: if_splits sum.splits prod.splits option.splits wait_answer.splits)

lemma Some_sym: "Some x = v \<Longrightarrow> \<exists>y. v = Some y"
  by auto

lemma launch_process:
  assumes "launch env n only fs c = (err, c', fs')" and "\<not> cs_started c" and "unstopped c"
    and p: "p = ((\<not> only \<or> se_reopen_config_err env = None \<and> se_open_system_err env = None \<and> fs (cs_system_trace c) = None) \<and>
      (\<not> n \<or> se_ready_pipe_err env = None) \<and> se_fork_err env = None)"
  shows "cs_started c' = (p \<and> \<not> seen_ended env n) \<and> unstopped c' \<and> (err = None \<longrightarrow> p \<and> se_last_wait env = Running)"
proof (cases p)
  case True
  define c1 where "c1 = c\<lparr>cs_system_created := True, cs_started := True\<rparr>"
  obtain err2 c2 where w: "wait_launched env n c1 = (err2, c2)"
    by force
  have "unstopped c1"
    using assms(3) by (simp add: unstopped_def c1_def)
  moreover have "c' = c2" "err = err2"
    using assms(1) True w unfolding launch_def p c1_def by (auto simp: or_else_None_iff or_else_def split: if_splits)
  ultimately show ?thesis
    using wait_launched_process [OF w] True by (simp add: c1_def)
next
  case False
  have "err \<noteq> None \<and> (c' = c \<or> c' = c\<lparr>cs_system_created := True\<rparr>)"
    using assms(1) False unfolding launch_def p by (auto simp: or_else_def intro: Some_sym split: if_splits option.splits prod.splits)
  then show ?thesis
    using assms(2,3) False by (auto simp: unstopped_def)
qed

lemma start_session_process:
  assumes "start_session mem env output duration_s profile custom ring_buffer system_only fs = Some (err, c', fs')"
    and "\<not> (duration_s = 0 \<or> (profile = None \<and> custom = None) \<or> 0xFFFFFFFF - 30 < duration_s \<or>
      (custom = None \<and> profile \<noteq> Some ''full'' \<and> profile \<noteq> Some ''sched''))"
  shows "unstopped c' \<and>
     (case process_launched mem env output duration_s profile custom ring_buffer system_only fs of
        None \<Rightarrow> \<not> cs_started c' \<and> err \<noteq> None
      | Some n \<Rightarrow> cs_started c' = (\<not> seen_ended env n) \<and> (err = None \<longrightarrow> se_last_wait env = Running))"
proof -
  obtain e c where sp: "start_paths env output system_only fs = (e, c)"
    by force
  have c: "\<not> cs_started c" "unstopped c"
    using start_paths_ok [OF sp] by (auto simp: capture_zero_def unstopped_def)
  show ?thesis
  proof (cases "e = None \<and> (\<exists>n. perfetto_supports_notify env = Some (Inr n))")
    case False
    have pn: "(case (start_paths env output system_only fs, perfetto_supports_notify env) of ((None, c), Some (Inr n)) \<Rightarrow> f c n | _ \<Rightarrow> None) = None" for f
      using False unfolding sp by (auto split: option.split sum.split)
    have "process_launched mem env output duration_s profile custom ring_buffer system_only fs = None"
      unfolding process_launched_def if_not_P [OF assms(2)] by (rule pn)
    moreover have "perfetto_supports_notify env = None \<or> (\<exists>x. perfetto_supports_notify env = Some (Inl x))" if "e = None"
      using that False by (metis option.exhaust sumE)
    then have "c' = c \<and> err \<noteq> None"
      using assms(1) unfolding start_session_def sp by (cases e) auto
    ultimately have "c' = c" "err \<noteq> None" "process_launched mem env output duration_s profile custom ring_buffer system_only fs = None"
      by simp_all
    then show ?thesis
      using c by simp
  next
    case True
    then obtain n where n: "e = None" "perfetto_supports_notify env = Some (Inr n)"
      by blast
    define c1 where "c1 = c\<lparr>cs_ring_buffer := ring_buffer, cs_window_s := duration_s\<rparr>"
    obtain we c2 fs2 where w: "write_config mem env (duration_s + 30) profile custom ring_buffer fs c1 = (we, c2, fs2)"
      by (cases "write_config mem env (duration_s + 30) profile custom ring_buffer fs c1") auto
    have "c2 = c1 \<or> c2 = c1\<lparr>cs_config_created := True\<rparr>"
      using write_config_ok [OF w] by blast
    then have c2: "\<not> cs_started c2" "unstopped c2"
      using c by (auto simp: c1_def unstopped_def)
    show ?thesis
    proof (cases we)
      case None
      have l: "launch env n system_only fs2 c2 = (err, c', fs')"
        using assms(1) n w None unfolding start_session_def sp c1_def by simp
      have "process_launched mem env output duration_s profile custom ring_buffer system_only fs =
          (if (\<not> system_only \<or> se_reopen_config_err env = None \<and> se_open_system_err env = None \<and> fs2 (cs_system_trace c2) = None) \<and>
              (\<not> n \<or> se_ready_pipe_err env = None) \<and> se_fork_err env = None then Some n else None)"
        using n w None unfolding process_launched_def sp if_not_P [OF assms(2)] c1_def by simp
      then show ?thesis
        using launch_process [OF l c2 refl] by auto
    next
      case (Some x)
      then have "c' = c2" "err \<noteq> None" "process_launched mem env output duration_s profile custom ring_buffer system_only fs = None"
        using assms(1) n w unfolding start_session_def process_launched_def sp if_not_P [OF assms(2)] c1_def by auto
      then show ?thesis
        using c2 by simp
    qed
  qed
qed

lemma stop_tells:
  assumes "stop_perfetto env c = Some (r, c')" and "cs_started c" and "unstopped c"
  shows "told_to_stop env c'"
proof -
  have "cs_signals (trace_capture_stop env c) = [SIGTERM]"
    using assms(2,3) by (auto simp: trace_capture_stop_def unstopped_def send_signal_def Let_def split: sum.splits)
  then show ?thesis
    using assms(1) by (auto simp: stop_perfetto_def told_to_stop_def reaped_as_def send_signal_def Let_def
        split: option.splits prod.splits sum.splits if_splits)
qed

lemma abort_tells:
  assumes "trace_capture_abort env fs c = Some (c', fs')" and "unstopped c"
  shows "if cs_started c then told_to_stop env c' else cs_signals c' = []"
proof (cases "cs_started c")
  case True
  then obtain r c1 where s: "stop_perfetto env c = Some (r, c1)" "c' = c1\<lparr>cs_started := False\<rparr>"
    using assms by (auto simp: trace_capture_abort_def unstopped_def split: option.splits)
  then show ?thesis
    using True stop_tells [OF s(1) True assms(2)] by (simp add: told_to_stop_def)
qed (use assms in \<open>simp add: trace_capture_abort_def unstopped_def\<close>)


definition start_demo_env :: start_env where
  "start_demo_env = \<lparr>se_timestamp = Some ''20250101-000000'', se_requested_is_dir = False, se_help_pipe_err = None, se_help_fork_err = None,
     se_help_clock = Inr \<lparr>tv_sec = 5, tv_nsec = 0\<rparr>,
     se_help_rounds = [\<lparr>hr_clock = Inr \<lparr>tv_sec = 5, tv_nsec = 1000\<rparr>, hr_poll = Inr 1, hr_readable = True, hr_read = Inr (cstr ''--txt -c -o'')\<rparr>,
       \<lparr>hr_clock = Inr \<lparr>tv_sec = 6, tv_nsec = 0\<rparr>, hr_poll = Inr 1, hr_readable = True, hr_read = Inr []\<rparr>],
     se_help_wait = [Reaped (Exited 1)], se_open_config_err = None, se_config_writes = [], se_close_config_err = None,
     se_reopen_config_err = None, se_open_system_err = None, se_ready_pipe_err = None, se_fork_err = None,
     se_ready_poll = Inr 0, se_ready_readable = False, se_ready_read = Inr [], se_launch_wait = [], se_last_wait = Running\<rparr>"

definition start_demo_state :: capture_state where
  "start_demo_state = capture_zero\<lparr>cs_output := ''o'', cs_network_trace := ''o.anettrace.tmp'', cs_system_trace := ''o.system.tmp'',
     cs_config := ''o.config.tmp'', cs_ring_buffer := True, cs_window_s := 10, cs_config_created := True, cs_system_created := True, cs_started := True\<rparr>"

lemma start_demo_runs:
  "\<exists>fs'. trace_capture_start (\<lambda>_. True) start_demo_env (capture_demo_env []) (Some ''o'') 10 (Some ''sched'') None True False Map.empty =
     Some (None, start_demo_state, fs')"
proof -
  have paths: "start_paths start_demo_env (Some ''o'') False Map.empty =
      (None, capture_zero\<lparr>cs_output := ''o'', cs_network_trace := ''o.anettrace.tmp'', cs_system_trace := ''o.system.tmp'', cs_config := ''o.config.tmp''\<rparr>)"
    by (simp add: start_paths_def start_demo_env_def resolve_output_def temporary_dest_def temporary_path_def PATH_MAX_def
        system_temporary_paths_def capture_zero_def)
  have notify: "perfetto_supports_notify start_demo_env = Some (Inr False)"
    by (simp add: perfetto_supports_notify_def start_demo_env_def c_div_def cstr_def wait_child_def wait_child_loop.simps c_text_def Let_def)
  define c1 where "c1 = capture_zero\<lparr>cs_output := ''o'', cs_network_trace := ''o.anettrace.tmp'', cs_system_trace := ''o.system.tmp'',
      cs_config := ''o.config.tmp'', cs_ring_buffer := True, cs_window_s := 10\<rparr>"
  obtain we c2 fs2 where w: "write_config (\<lambda>_. True) start_demo_env (10 + 30) (Some ''sched'') None True Map.empty c1 = (we, c2, fs2)"
    by (metis prod_cases3)
  have "fst (write_config (\<lambda>_. True) start_demo_env (10 + 30) (Some ''sched'') None True Map.empty c1) \<noteq> None \<Longrightarrow> c2 \<noteq> c1"
    unfolding w using w by (auto simp: write_config_def start_demo_env_def Let_def split_beta c1_def capture_zero_def)
  then have c2: "we = None" "c2 = c1\<lparr>cs_config_created := True\<rparr>"
    using write_config_ok [OF w] w by (auto simp: start_demo_env_def benign_out_def)
  have "launch start_demo_env False False fs2 (c1\<lparr>cs_config_created := True\<rparr>) = (None, start_demo_state, fs2)"
    by (simp add: launch_def start_demo_env_def or_else_def wait_launched_def wait_child_def wait_child_loop.simps
        c1_def start_demo_state_def capture_zero_def)
  then have "start_session (\<lambda>_. True) start_demo_env (Some ''o'') 10 (Some ''sched'') None True False Map.empty = Some (None, start_demo_state, fs2)"
    unfolding start_session_def paths notify using w c2 by (simp add: c1_def)
  then show ?thesis
    by (simp add: trace_capture_start_def)
qed


end
