(* ===== verification/AnalysisCtx.thy ===== *)
theory AnalysisCtx
  imports Prelude
begin

text \<open>
  Packet contexts (\<open>analysis.c\<close>, \<open>analysis.h\<close> and the return matching of \<open>trace_probe.c\<close>): the events
  of one packet and its clones are gathered in a context, which is printed and freed when every
  packet was freed and every awaited return was seen.  Contexts, packets (\<open>fake_analy_ctx_t\<close>) and
  entries are heap objects with reference counts; an access to a freed object or to an unlinked hash
  node sets \<open>as_bad\<close>.  The modes with contexts are modelled (timeline and diagnosis, with kernel
  probes); message texts are not.
\<close>

section \<open>Rules, traces, events\<close>

datatype rule_level = RULE_INFO | RULE_WARN | RULE_ERROR

datatype rule_type =
    RULE_RETURN_EQ int | RULE_RETURN_NE int | RULE_RETURN_LT int | RULE_RETURN_GT int
  | RULE_RETURN_RANGE int int | RULE_RETURN_ANY

record rule =
  rl_level :: rule_level
  rl_type :: rule_type

datatype analyzer = AN_drop | AN_free | AN_clone | AN_ret | AN_iptable | AN_nf | AN_qdisc | AN_rtt | AN_reset | AN_default

record trace =
  tr_analyzer :: "analyzer option"
  tr_is_ret :: bool
  tr_cfree :: bool
  tr_rules :: "rule list"

text \<open>The masks of the analyzers, for the context modes: which of them also accept tiny events.\<close>

fun analyzer_tiny :: "analyzer \<Rightarrow> bool" where
  "analyzer_tiny AN_drop = True"
| "analyzer_tiny AN_free = True"
| "analyzer_tiny AN_clone = True"
| "analyzer_tiny AN_ret = True"
| "analyzer_tiny AN_reset = True"
| "analyzer_tiny _ = False"

record analy_event =
  ev_tiny :: bool
  ev_func :: nat
  ev_key :: u64
  ev_ts :: u64
  ev_tid :: u32

record ret_event =
  re_func :: nat
  re_tid :: u32
  re_ts :: u64
  re_val :: u64

text \<open>
  A queued record.  A return event has 24 bytes; \<open>DRet r beyond\<close> carries the eight bytes that follow it
  in memory, which is where the time of the other events is.
\<close>

datatype data_list = DEvent analy_event | DRet ret_event u64

record analy_cfg =
  ac_trace :: "nat \<Rightarrow> trace option"
  ac_diag :: bool
  ac_noclone :: bool
  ac_quiet :: bool
  ac_latency_show :: bool
  ac_min_latency :: u32
  ac_skip_last :: bool
  ac_mem :: "nat \<Rightarrow> bool"

section \<open>Heap\<close>

record analy_ctx =
  ax_entries :: "nat list"
  ax_fakes :: "nat list"
  ax_refs :: u16
  ax_error :: bool
  ax_warn :: bool

record fake_ctx =
  fk_ctx :: nat
  fk_key :: u64
  fk_refs :: u16

record analy_entry =
  en_event :: analy_event
  en_ctx :: nat
  en_fake :: nat
  en_rule :: "rule option"
  en_priv :: u64
  en_returned :: bool
  en_onlist :: bool

text \<open>\<open>as_out\<close>: the contexts that were freed, with the events of their entries and whether they were printed.\<close>

record analy_state =
  as_ctxs :: "nat \<Rightarrow> analy_ctx option"
  as_fakes :: "nat \<Rightarrow> fake_ctx option"
  as_entries :: "nat \<Rightarrow> analy_entry option"
  as_hash :: "nat \<Rightarrow> nat list"
  as_ret :: "nat \<Rightarrow> nat list"
  as_next :: nat
  as_count :: u32
  as_async :: "data_list list"
  as_out :: "(bool \<times> analy_event list) list"
  as_bad :: bool

definition analy_init :: analy_state where
  "analy_init = \<lparr>as_ctxs = \<lambda>_. None, as_fakes = \<lambda>_. None, as_entries = \<lambda>_. None, as_hash = \<lambda>_. [], as_ret = \<lambda>_. [],
     as_next = 0, as_count = 0, as_async = [], as_out = [], as_bad = False\<rparr>"

definition upd_ctx :: "nat \<Rightarrow> (analy_ctx \<Rightarrow> analy_ctx) \<Rightarrow> analy_state \<Rightarrow> analy_state" where
  "upd_ctx c f st = (case as_ctxs st c of None \<Rightarrow> st\<lparr>as_bad := True\<rparr> | Some ax \<Rightarrow> st\<lparr>as_ctxs := (as_ctxs st)(c \<mapsto> f ax)\<rparr>)"

definition upd_fake :: "nat \<Rightarrow> (fake_ctx \<Rightarrow> fake_ctx) \<Rightarrow> analy_state \<Rightarrow> analy_state" where
  "upd_fake p f st = (case as_fakes st p of None \<Rightarrow> st\<lparr>as_bad := True\<rparr> | Some fk \<Rightarrow> st\<lparr>as_fakes := (as_fakes st)(p \<mapsto> f fk)\<rparr>)"

definition upd_entry :: "nat \<Rightarrow> (analy_entry \<Rightarrow> analy_entry) \<Rightarrow> analy_state \<Rightarrow> analy_state" where
  "upd_entry e f st = (case as_entries st e of None \<Rightarrow> st\<lparr>as_bad := True\<rparr> | Some en \<Rightarrow> st\<lparr>as_entries := (as_entries st)(e \<mapsto> f en)\<rparr>)"

text \<open>Addresses are never reused, so a stale pointer is recognised; \<open>ac_mem\<close> says which requests succeed.\<close>

definition CTX_HASH_LENGTH :: nat where "CTX_HASH_LENGTH = 1024"
definition MAX_CPU_COUNT :: nat where "MAX_CPU_COUNT = 1024"

definition get_ctx_hash_head :: "u64 \<Rightarrow> nat" where
  "get_ctx_hash_head key = unat (drop_bit 8 key) mod CTX_HASH_LENGTH"

definition entry_head :: "u32 \<Rightarrow> nat" where
  "entry_head tid = unat tid mod MAX_CPU_COUNT"

section \<open>References\<close>

definition get_analy_ctx :: "nat \<Rightarrow> analy_state \<Rightarrow> analy_state" where
  "get_analy_ctx c st = upd_ctx c (\<lambda>ax. ax\<lparr>ax_refs := ax_refs ax + 1\<rparr>) st"

definition put_analy_ctx :: "nat \<Rightarrow> analy_state \<Rightarrow> analy_state" where
  "put_analy_ctx c st = upd_ctx c (\<lambda>ax. ax\<lparr>ax_refs := ax_refs ax - 1\<rparr>) st"

definition get_fake_analy_ctx :: "nat \<Rightarrow> analy_state \<Rightarrow> analy_state" where
  "get_fake_analy_ctx p st =
     (case as_fakes st p of
        None \<Rightarrow> st\<lparr>as_bad := True\<rparr>
      | Some fk \<Rightarrow>
          upd_fake p (\<lambda>fk. fk\<lparr>fk_refs := fk_refs fk + 1\<rparr>) (if fk_refs fk = 0 then get_analy_ctx (fk_ctx fk) st else st))"

definition put_fake_analy_ctx :: "nat \<Rightarrow> analy_state \<Rightarrow> analy_state" where
  "put_fake_analy_ctx p st =
     (case as_fakes st p of
        None \<Rightarrow> st\<lparr>as_bad := True\<rparr>
      | Some fk \<Rightarrow>
          let st1 = upd_fake p (\<lambda>fk. fk\<lparr>fk_refs := fk_refs fk - 1\<rparr>) st in
          if fk_refs fk - 1 \<le> 0 then put_analy_ctx (fk_ctx fk) st1 else st1)"

section \<open>Packets\<close>

text \<open>A bucket is searched from its head; every node visited is read.\<close>

fun find_in_bucket :: "analy_state \<Rightarrow> u64 \<Rightarrow> nat list \<Rightarrow> nat option \<times> bool" where
  "find_in_bucket st key [] = (None, True)"
| "find_in_bucket st key (p # ps) =
     (case as_fakes st p of
        None \<Rightarrow> (None, False)
      | Some fk \<Rightarrow> if fk_key fk = key then (Some p, True) else find_in_bucket st key ps)"

definition analy_fake_ctx_find :: "u64 \<Rightarrow> analy_state \<Rightarrow> nat option \<times> analy_state" where
  "analy_fake_ctx_find key st =
     (case find_in_bucket st key (as_hash st (get_ctx_hash_head key)) of
        (r, ok) \<Rightarrow> (r, if ok then st else st\<lparr>as_bad := True\<rparr>))"

definition analy_fake_ctx_add :: "nat \<Rightarrow> u64 \<Rightarrow> analy_state \<Rightarrow> analy_state" where
  "analy_fake_ctx_add p key st =
     (let b = get_ctx_hash_head key in st\<lparr>as_hash := (as_hash st)(b := p # as_hash st b)\<rparr>)"

definition hash_del :: "nat \<Rightarrow> analy_state \<Rightarrow> analy_state" where
  "hash_del p st =
     (case as_fakes st p of
        None \<Rightarrow> st\<lparr>as_bad := True\<rparr>
      | Some fk \<Rightarrow>
          let b = get_ctx_hash_head (fk_key fk) in
          if p \<in> set (as_hash st b) then st\<lparr>as_hash := (as_hash st)(b := remove1 p (as_hash st b))\<rparr>
          else st\<lparr>as_bad := True\<rparr>)"

definition analy_fake_ctx_alloc :: "analy_cfg \<Rightarrow> u64 \<Rightarrow> nat \<Rightarrow> analy_state \<Rightarrow> nat option \<times> analy_state" where
  "analy_fake_ctx_alloc cfg key c st =
     (let p = as_next st; st1 = st\<lparr>as_next := p + 1\<rparr> in
      if \<not> ac_mem cfg p then (None, st1)
      else let st2 = st1\<lparr>as_fakes := (as_fakes st1)(p \<mapsto> \<lparr>fk_ctx = c, fk_key = key, fk_refs = 0\<rparr>)\<rparr>;
               st3 = upd_ctx c (\<lambda>ax. ax\<lparr>ax_fakes := ax_fakes ax @ [p]\<rparr>) st2;
               st4 = analy_fake_ctx_add p key st3 in
        (Some p, get_fake_analy_ctx p st4))"

definition analy_fake_ctx_fetch :: "analy_cfg \<Rightarrow> u64 \<Rightarrow> analy_state \<Rightarrow> nat option \<times> analy_state" where
  "analy_fake_ctx_fetch cfg key st =
     (case analy_fake_ctx_find key st of
        (Some p, st1) \<Rightarrow> (Some p, st1)
      | (None, st1) \<Rightarrow>
          let c = as_next st1; st2 = st1\<lparr>as_next := c + 1\<rparr> in
          if \<not> ac_mem cfg c then (None, st2)
          else let st3 = st2\<lparr>as_ctxs := (as_ctxs st2)(c \<mapsto> \<lparr>ax_entries = [], ax_fakes = [], ax_refs = 0, ax_error = False, ax_warn = False\<rparr>)\<rparr> in
            (case analy_fake_ctx_alloc cfg key c st3 of
               (None, st4) \<Rightarrow> (None, st4\<lparr>as_ctxs := (as_ctxs st4)(c := None)\<rparr>)
             | (Some p, st4) \<Rightarrow> (Some p, st4\<lparr>as_count := as_count st4 + 1\<rparr>)))"

section \<open>Rules\<close>

text \<open>The first rule that is hit is attached; its level marks the context.\<close>

definition mark_level :: "rule_level \<Rightarrow> nat \<Rightarrow> analy_state \<Rightarrow> analy_state" where
  "mark_level l c st =
     (case l of
        RULE_INFO \<Rightarrow> st
      | RULE_WARN \<Rightarrow> upd_ctx c (\<lambda>ax. ax\<lparr>ax_warn := True\<rparr>) st
      | RULE_ERROR \<Rightarrow> upd_ctx c (\<lambda>ax. ax\<lparr>ax_error := True\<rparr>) st)"

definition rule_hit :: "rule_type \<Rightarrow> int \<Rightarrow> bool" where
  "rule_hit t ret =
     (case t of
        RULE_RETURN_ANY \<Rightarrow> True
      | RULE_RETURN_EQ x \<Rightarrow> x = ret
      | RULE_RETURN_RANGE lo hi \<Rightarrow> lo < ret \<and> ret < hi
      | RULE_RETURN_LT x \<Rightarrow> x < ret
      | RULE_RETURN_GT x \<Rightarrow> x > ret
      | RULE_RETURN_NE x \<Rightarrow> x \<noteq> ret)"

definition attach_rule :: "rule option \<Rightarrow> nat \<Rightarrow> analy_state \<Rightarrow> analy_state" where
  "attach_rule r e st =
     (case r of
        None \<Rightarrow> st
      | Some rule \<Rightarrow>
          let st1 = upd_entry e (\<lambda>en. en\<lparr>en_rule := Some rule\<rparr>) st in
          (case as_entries st e of None \<Rightarrow> st1 | Some en \<Rightarrow> mark_level (rl_level rule) (en_ctx en) st1))"

definition rule_run_ret :: "nat \<Rightarrow> trace \<Rightarrow> int \<Rightarrow> analy_state \<Rightarrow> analy_state" where
  "rule_run_ret e t ret st = attach_rule (find (\<lambda>r. rule_hit (rl_type r) ret) (tr_rules t)) e st"

definition rule_run_any :: "nat \<Rightarrow> trace \<Rightarrow> analy_state \<Rightarrow> analy_state" where
  "rule_run_any e t st = attach_rule (find (\<lambda>r. rl_type r = RULE_RETURN_ANY) (tr_rules t)) e st"

section \<open>Analyzers\<close>

definition probe_analy_entry :: "trace \<Rightarrow> nat \<Rightarrow> analy_entry \<Rightarrow> analy_state \<Rightarrow> analy_state" where
  "probe_analy_entry t e en st =
     (if \<not> tr_is_ret t then st
      else let b = entry_head (ev_tid (en_event en));
               st1 = st\<lparr>as_ret := (as_ret st)(b := e # as_ret st b)\<rparr>;
               st2 = get_fake_analy_ctx (en_fake en) st1 in
        upd_entry e (\<lambda>en. en\<lparr>en_onlist := True\<rparr>) st2)"

text \<open>The newest entry of the function and thread, on the list of the thread.\<close>

fun find_waiting :: "analy_state \<Rightarrow> nat \<Rightarrow> u32 \<Rightarrow> nat list \<Rightarrow> nat option \<times> bool" where
  "find_waiting st func tid [] = (None, True)"
| "find_waiting st func tid (e # es) =
     (case as_entries st e of
        None \<Rightarrow> (None, False)
      | Some en \<Rightarrow>
          if ev_func (en_event en) = func \<and> ev_tid (en_event en) = tid then (Some e, True) else find_waiting st func tid es)"

definition probe_analy_exit :: "ret_event \<Rightarrow> analy_state \<Rightarrow> nat option \<times> analy_state" where
  "probe_analy_exit r st =
     (let b = entry_head (re_tid r) in
      case find_waiting st (re_func r) (re_tid r) (as_ret st b) of
        (None, ok) \<Rightarrow> (None, if ok then st else st\<lparr>as_bad := True\<rparr>)
      | (Some e, ok) \<Rightarrow>
          (case as_entries st e of
             None \<Rightarrow> (None, st\<lparr>as_bad := True\<rparr>)
           | Some en \<Rightarrow>
               let st1 = upd_entry e (\<lambda>en. en\<lparr>en_returned := True, en_priv := re_val r\<rparr>) st;
                   st2 = st1\<lparr>as_ret := (as_ret st1)(b := remove1 e (as_ret st1 b))\<rparr>;
                   st3 = put_fake_analy_ctx (en_fake en) st2 in
               (Some e, upd_entry e (\<lambda>en. en\<lparr>en_onlist := False\<rparr>) st3)))"

definition release_packet :: "nat \<Rightarrow> analy_state \<Rightarrow> analy_state" where
  "release_packet p st = hash_del p (put_fake_analy_ctx p st)"

text \<open>The entry half of the analyzer of a trace; a tiny event needs the mask of tiny events.\<close>

definition run_entry :: "trace \<Rightarrow> nat \<Rightarrow> analy_entry \<Rightarrow> analy_state \<Rightarrow> analy_state" where
  "run_entry t e en st =
     (case tr_analyzer t of
        None \<Rightarrow> st
      | Some a \<Rightarrow>
          if ev_tiny (en_event en) \<and> \<not> analyzer_tiny a then st
          else (case a of
            AN_free \<Rightarrow> rule_run_any e t (release_packet (en_fake en) st)
          | AN_drop \<Rightarrow>
              let st1 = release_packet (en_fake en) st in
              if ev_tiny (en_event en) then st1 else rule_run_any e t st1
          | AN_reset \<Rightarrow> if ev_tiny (en_event en) then st else rule_run_any e t st
          | AN_default \<Rightarrow> rule_run_any e t st
          | _ \<Rightarrow> st))"

text \<open>The exit half, with the entry found.\<close>

definition run_exit :: "analy_cfg \<Rightarrow> trace \<Rightarrow> ret_event \<Rightarrow> nat \<Rightarrow> analy_entry \<Rightarrow> analy_state \<Rightarrow> analy_state" where
  "run_exit cfg t r e en st =
     (case tr_analyzer t of
        None \<Rightarrow> st
      | Some a \<Rightarrow>
          (case a of
             AN_clone \<Rightarrow>
               if ac_noclone cfg \<or> re_val r = 0 then st
               else let st1 = snd (analy_fake_ctx_alloc cfg (re_val r) (en_ctx en) st) in
                 if ac_diag cfg then rule_run_ret e t 0 st1 else st1
           | AN_ret \<Rightarrow> rule_run_ret e t (sint (ucast (re_val r) :: u32)) st
           | AN_nf \<Rightarrow> rule_run_ret e t (sint (ucast (re_val r) :: u32)) st
           | AN_iptable \<Rightarrow> rule_run_ret e t (sint (ucast (re_val r) :: u32)) st
           | AN_qdisc \<Rightarrow> rule_run_ret e t (sint (ucast (re_val r) :: u32)) st
           | AN_rtt \<Rightarrow> rule_run_ret e t (sint (ucast (re_val r) :: u32)) st
           | _ \<Rightarrow> st))"

section \<open>Freeing and printing a context\<close>

definition analy_entry_free :: "nat \<Rightarrow> analy_state \<Rightarrow> analy_state" where
  "analy_entry_free e st =
     (case as_entries st e of
        None \<Rightarrow> st\<lparr>as_bad := True\<rparr>
      | Some en \<Rightarrow>
          let b = entry_head (ev_tid (en_event en));
              st1 = (if en_onlist en then st\<lparr>as_ret := (as_ret st)(b := remove1 e (as_ret st b))\<rparr> else st) in
          st1\<lparr>as_entries := (as_entries st1)(e := None)\<rparr>)"

definition analy_fake_free :: "nat \<Rightarrow> analy_state \<Rightarrow> analy_state" where
  "analy_fake_free p st =
     (case as_fakes st p of None \<Rightarrow> st\<lparr>as_bad := True\<rparr> | Some fk \<Rightarrow> st\<lparr>as_fakes := (as_fakes st)(p := None)\<rparr>)"

definition analy_ctx_free :: "nat \<Rightarrow> analy_ctx \<Rightarrow> analy_state \<Rightarrow> analy_state" where
  "analy_ctx_free c ax st =
     (let st1 = fold analy_fake_free (ax_fakes ax) st; st2 = fold analy_entry_free (ax_entries ax) st1 in
      st2\<lparr>as_count := as_count st2 - 1, as_ctxs := (as_ctxs st2)(c := None)\<rparr>)"

text \<open>\<open>get_lifetime_us\<close>; an empty list of entries has no first and last entry to read.\<close>

definition entry_ts :: "analy_state \<Rightarrow> nat \<Rightarrow> u64" where
  "entry_ts st e = (case as_entries st e of None \<Rightarrow> 0 | Some en \<Rightarrow> ev_ts (en_event en))"

definition get_lifetime_us :: "analy_cfg \<Rightarrow> analy_ctx \<Rightarrow> analy_state \<Rightarrow> u32" where
  "get_lifetime_us cfg ax st =
     (let es = ax_entries ax; first = hd es; final = last es;
          cfree = (case as_entries st final of
                     None \<Rightarrow> False
                   | Some en \<Rightarrow> (case ac_trace cfg (ev_func (en_event en)) of None \<Rightarrow> False | Some t \<Rightarrow> tr_cfree t)) in
      if ac_skip_last cfg \<and> \<not> cfree
      then (if first = final then 0 else ucast ((entry_ts st (last (butlast es)) - entry_ts st first) div 1000))
      else if first = final then 0 else ucast ((entry_ts st final - entry_ts st first) div 1000))"

definition entry_events :: "analy_state \<Rightarrow> nat list \<Rightarrow> analy_event list" where
  "entry_events st es = map (\<lambda>e. en_event (the (as_entries st e))) es"

definition analy_ctx_output :: "analy_cfg \<Rightarrow> nat \<Rightarrow> analy_state \<Rightarrow> analy_state" where
  "analy_ctx_output cfg c st =
     (case as_ctxs st c of
        None \<Rightarrow> st\<lparr>as_bad := True\<rparr>
      | Some ax \<Rightarrow>
          let quiet = (ac_diag cfg \<and> ac_quiet cfg \<and> \<not> ax_error ax \<and> \<not> ax_warn ax);
              wild = (\<not> quiet \<and> ac_latency_show cfg \<and> ax_entries ax = []);
              short = (ac_latency_show cfg \<and> get_lifetime_us cfg ax st < ac_min_latency cfg);
              st1 = st\<lparr>as_bad := as_bad st \<or> wild, as_out := as_out st @ [(\<not> quiet \<and> \<not> short, entry_events st (ax_entries ax))]\<rparr> in
          analy_ctx_free c ax st1)"

definition check_pending :: "analy_cfg \<Rightarrow> nat \<Rightarrow> analy_state \<Rightarrow> analy_state" where
  "check_pending cfg c st =
     (case as_ctxs st c of
        None \<Rightarrow> st\<lparr>as_bad := True\<rparr>
      | Some ax \<Rightarrow> if ax_refs ax \<le> 0 then analy_ctx_output cfg c st else st)"

section \<open>Events\<close>

definition ctx_handle_ret :: "analy_cfg \<Rightarrow> ret_event \<Rightarrow> analy_state \<Rightarrow> nat option \<times> analy_state" where
  "ctx_handle_ret cfg r st =
     (case probe_analy_exit r st of
        (None, st1) \<Rightarrow> (None, st1)
      | (Some e, st1) \<Rightarrow>
          (case as_entries st1 e of
             None \<Rightarrow> (None, st1\<lparr>as_bad := True\<rparr>)
           | Some en \<Rightarrow>
               (case ac_trace cfg (re_func r) of
                  None \<Rightarrow> (Some (en_ctx en), st1\<lparr>as_bad := True\<rparr>)
                | Some t \<Rightarrow> (Some (en_ctx en), run_exit cfg t r e en st1))))"

definition handle_event :: "analy_cfg \<Rightarrow> analy_event \<Rightarrow> analy_state \<Rightarrow> analy_state" where
  "handle_event cfg ev st =
     (let e = as_next st; st1 = st\<lparr>as_next := e + 1\<rparr> in
      if \<not> ac_mem cfg e then st1
      else case analy_fake_ctx_fetch cfg (ev_key ev) st1 of
          (None, st2) \<Rightarrow> st2
        | (Some p, st2) \<Rightarrow>
            (case as_fakes st2 p of
               None \<Rightarrow> st2\<lparr>as_bad := True\<rparr>
             | Some fk \<Rightarrow>
                 (case ac_trace cfg (ev_func ev) of
                    None \<Rightarrow> check_pending cfg (fk_ctx fk) (put_fake_analy_ctx p st2)
                  | Some t \<Rightarrow>
                      let en = \<lparr>en_event = ev, en_ctx = fk_ctx fk, en_fake = p, en_rule = None, en_priv = 0,
                                 en_returned = False, en_onlist = False\<rparr>;
                          st3 = st2\<lparr>as_entries := (as_entries st2)(e \<mapsto> en)\<rparr>;
                          st4 = probe_analy_entry t e en st3;
                          st5 = run_entry t e en st4;
                          st6 = (if tr_cfree t then release_packet p st5 else st5);
                          st7 = upd_ctx (fk_ctx fk) (\<lambda>ax. ax\<lparr>ax_entries := ax_entries ax @ [e]\<rparr>) st6 in
                      check_pending cfg (fk_ctx fk) st7)))"

definition ctx_async_poll_cb :: "analy_cfg \<Rightarrow> data_list \<Rightarrow> analy_state \<Rightarrow> analy_state" where
  "ctx_async_poll_cb cfg d st =
     (case d of
        DRet r beyond \<Rightarrow>
          (case ctx_handle_ret cfg r st of
             (None, st1) \<Rightarrow> st1
           | (Some c, st1) \<Rightarrow> check_pending cfg c st1)
      | DEvent ev \<Rightarrow> handle_event cfg ev st)"

section \<open>The queue\<close>

text \<open>\<open>((event_t *)data)->pkt.ts\<close>, at offset 24 of every record.\<close>

fun record_ts :: "data_list \<Rightarrow> u64" where
  "record_ts (DEvent ev) = ev_ts ev"
| "record_ts (DRet r beyond) = beyond"

text \<open>Insertion after the last record with a smaller time, searched from the end.\<close>

definition analy_dlist_add :: "data_list \<Rightarrow> data_list list \<Rightarrow> data_list list" where
  "analy_dlist_add d ds =
     (let tl_part = takeWhile (\<lambda>x. \<not> record_ts x < record_ts d) (rev ds) in
      take (length ds - length tl_part) ds @ d # drop (length ds - length tl_part) ds)"

definition do_async_poll :: "data_list \<Rightarrow> analy_state \<Rightarrow> analy_state" where
  "do_async_poll d st = st\<lparr>as_async := analy_dlist_add d (as_async st)\<rparr>"

text \<open>One round of the thread: the list is taken, then handled in order.\<close>

definition async_poll_round :: "analy_cfg \<Rightarrow> analy_state \<Rightarrow> analy_state" where
  "async_poll_round cfg st = fold (ctx_async_poll_cb cfg) (as_async st) (st\<lparr>as_async := []\<rparr>)"

end
