(* ===== verification/AnalysisRefs.thy ===== *)
theory AnalysisRefs
  imports AnalysisCtx
begin

text \<open>
  The reference counts of the packet contexts: the invariant between contexts, packets, entries, the hash
  table and the lists of awaited returns, and that every operation of \<open>analysis.c\<close> on one context keeps it.
\<close>

section \<open>Invariant\<close>

definition waiting :: "analy_state \<Rightarrow> nat \<Rightarrow> nat set" where
  "waiting st p = {e. \<exists>en. as_entries st e = Some en \<and> en_onlist en \<and> en_fake en = p}"

definition hashed :: "analy_state \<Rightarrow> nat \<Rightarrow> bool" where
  "hashed st p \<longleftrightarrow> (\<exists>fk. as_fakes st p = Some fk \<and> p \<in> set (as_hash st (get_ctx_hash_head (fk_key fk))))"

definition refs_of :: "analy_state \<Rightarrow> nat \<Rightarrow> u16" where
  "refs_of st p = (case as_fakes st p of None \<Rightarrow> 0 | Some fk \<Rightarrow> fk_refs fk)"

definition ids_ok :: "analy_state \<Rightarrow> bool" where
  "ids_ok st \<longleftrightarrow> (\<forall>i. as_ctxs st i \<noteq> None \<or> as_fakes st i \<noteq> None \<or> as_entries st i \<noteq> None \<longrightarrow> i < as_next st)"

definition hash_ok :: "analy_state \<Rightarrow> bool" where
  "hash_ok st \<longleftrightarrow> (\<forall>b. distinct (as_hash st b) \<and>
     (\<forall>p \<in> set (as_hash st b). \<exists>fk. as_fakes st p = Some fk \<and> get_ctx_hash_head (fk_key fk) = b))"

definition ret_ok :: "analy_state \<Rightarrow> bool" where
  "ret_ok st \<longleftrightarrow>
     (\<forall>b. distinct (as_ret st b) \<and>
        (\<forall>e \<in> set (as_ret st b). \<exists>en. as_entries st e = Some en \<and> en_onlist en \<and> entry_head (ev_tid (en_event en)) = b)) \<and>
     (\<forall>e en. as_entries st e = Some en \<and> en_onlist en \<longrightarrow> e \<in> set (as_ret st (entry_head (ev_tid (en_event en)))))"

definition refs_ok :: "analy_state \<Rightarrow> bool" where
  "refs_ok st \<longleftrightarrow>
     (\<forall>p fk. as_fakes st p = Some fk \<longrightarrow> unat (fk_refs fk) = of_bool (hashed st p) + card (waiting st p)) \<and>
     (\<forall>c ax. as_ctxs st c = Some ax \<longrightarrow> unat (ax_refs ax) = length (filter (\<lambda>p. refs_of st p \<noteq> 0) (ax_fakes ax)))"

definition links_ok :: "analy_state \<Rightarrow> bool" where
  "links_ok st \<longleftrightarrow>
     (\<forall>p fk. as_fakes st p = Some fk \<longrightarrow> (\<exists>ax. as_ctxs st (fk_ctx fk) = Some ax \<and> p \<in> set (ax_fakes ax))) \<and>
     (\<forall>c ax. as_ctxs st c = Some ax \<longrightarrow> distinct (ax_fakes ax) \<and> (\<forall>p \<in> set (ax_fakes ax). \<exists>fk. as_fakes st p = Some fk \<and> fk_ctx fk = c))"

definition entries_ok :: "nat option \<Rightarrow> analy_state \<Rightarrow> bool" where
  "entries_ok cur st \<longleftrightarrow>
     (\<forall>c ax. as_ctxs st c = Some ax \<longrightarrow> distinct (ax_entries ax) \<and>
        (\<forall>e \<in> set (ax_entries ax). cur \<noteq> Some e \<and> (\<exists>en. as_entries st e = Some en \<and> en_ctx en = c))) \<and>
     (\<forall>e en. as_entries st e = Some en \<longrightarrow> (\<exists>fk. as_fakes st (en_fake en) = Some fk \<and> fk_ctx fk = en_ctx en) \<and>
        (cur \<noteq> Some e \<longrightarrow> (\<exists>ax. as_ctxs st (en_ctx en) = Some ax \<and> e \<in> set (ax_entries ax))))"

definition acore :: "nat option \<Rightarrow> analy_state \<Rightarrow> bool" where
  "acore cur st \<longleftrightarrow> \<not> as_bad st \<and> ids_ok st \<and> hash_ok st \<and> ret_ok st \<and> refs_ok st \<and> links_ok st \<and> entries_ok cur st"

text \<open>No counter of 16 bits is about to wrap: the premise under which the counts are exact.\<close>

definition fits :: "analy_state \<Rightarrow> bool" where
  "fits st \<longleftrightarrow> list_all (\<lambda>i.
     (case as_fakes st i of None \<Rightarrow> True | Some fk \<Rightarrow> fk_refs fk < 65535) \<and>
     (case as_ctxs st i of None \<Rightarrow> True | Some ax \<Rightarrow> int (length (ax_fakes ax)) < 65535)) [0..<as_next st]"

lemma fitsD:
  assumes "fits st" and "ids_ok st"
  shows "as_fakes st p = Some fk \<Longrightarrow> unat (fk_refs fk) < 65535" and "as_ctxs st c = Some ax \<Longrightarrow> length (ax_fakes ax) < 65535"
proof -
  have in_range: "i < as_next st" if "as_ctxs st i \<noteq> None \<or> as_fakes st i \<noteq> None" for i
    using assms(2) that unfolding ids_ok_def by blast
  show "unat (fk_refs fk) < 65535" if "as_fakes st p = Some fk"
  proof -
    have "fk_refs fk < 65535"
      using assms(1) that in_range [of p] by (auto simp: fits_def list_all_iff dest!: bspec [of _ _ p])
    then show ?thesis
      by (simp add: word_less_nat_alt)
  qed
  show "length (ax_fakes ax) < 65535" if "as_ctxs st c = Some ax"
    using assms(1) that in_range [of c] by (auto simp: fits_def list_all_iff dest!: bspec [of _ _ c])
qed

lemma finite_entries: "ids_ok st \<Longrightarrow> finite {e. \<exists>en. as_entries st e = Some en}"
  by (rule finite_subset [of _ "{..< as_next st}"]) (auto simp: ids_ok_def)

lemma finite_waiting: "ids_ok st \<Longrightarrow> finite (waiting st p)"
  by (rule finite_subset [OF _ finite_entries]) (auto simp: waiting_def)

lemma links_fakeD: "links_ok st \<Longrightarrow> as_fakes st p = Some fk \<Longrightarrow> as_ctxs st (fk_ctx fk) = Some ax \<Longrightarrow> p \<in> set (ax_fakes ax)"
  unfolding links_ok_def by fastforce

lemma links_fakeE:
  assumes "links_ok st" "as_fakes st p = Some fk"
  obtains ax where "as_ctxs st (fk_ctx fk) = Some ax" "p \<in> set (ax_fakes ax)"
  using assms unfolding links_ok_def by blast

lemma links_ctxD: "links_ok st \<Longrightarrow> as_ctxs st c = Some ax \<Longrightarrow> p \<in> set (ax_fakes ax) \<Longrightarrow> as_fakes st p = Some fk \<Longrightarrow> fk_ctx fk = c"
  unfolding links_ok_def by fastforce

lemma links_distinct: "links_ok st \<Longrightarrow> as_ctxs st c = Some ax \<Longrightarrow> distinct (ax_fakes ax)"
  unfolding links_ok_def by blast

text \<open>One reference of one packet changes.\<close>

lemma filter_length_step:
  assumes "distinct xs" and "p \<in> set xs" and "\<And>q. q \<in> set xs \<Longrightarrow> q \<noteq> p \<Longrightarrow> Q q = P q"
  shows "length (filter Q xs) + of_bool (P p) = length (filter P xs) + of_bool (Q p)"
  using assms
proof (induction xs)
  case (Cons x xs)
  show ?case
  proof (cases "x = p")
    case True
    then have "filter Q xs = filter P xs"
      using Cons.prems by (intro filter_cong) auto
    then show ?thesis
      using True by simp
  next
    case False
    then show ?thesis
      using Cons by auto
  qed
qed simp

lemma refs_step:
  assumes ok: "refs_ok st" "links_ok st" and p: "as_fakes st p = Some fk" "as_ctxs st (fk_ctx fk) = Some ax"
    and fakes: "as_fakes st' = (as_fakes st)(p \<mapsto> fk\<lparr>fk_refs := r\<rparr>)"
    and ctxs: "as_ctxs st' = (as_ctxs st)(fk_ctx fk \<mapsto> ax\<lparr>ax_refs := R\<rparr>)"
    and r: "unat r = of_bool (hashed st' p) + card (waiting st' p)"
    and R: "unat R + of_bool (fk_refs fk \<noteq> 0) = unat (ax_refs ax) + of_bool (r \<noteq> 0)"
    and other: "\<And>q. q \<noteq> p \<Longrightarrow> hashed st' q = hashed st q \<and> waiting st' q = waiting st q"
  shows "refs_ok st'" "links_ok st'"
proof -
  have mem: "p \<in> set (ax_fakes ax)" "distinct (ax_fakes ax)"
    using links_fakeD [OF ok(2) p] links_distinct [OF ok(2) p(2)] by simp_all
  have ro: "refs_of st' q = (if q = p then r else refs_of st q)" for q
    using fakes by (simp add: refs_of_def)
  have "length (filter (\<lambda>q. refs_of st' q \<noteq> 0) (ax_fakes ax)) + of_bool (refs_of st p \<noteq> 0) =
      length (filter (\<lambda>q. refs_of st q \<noteq> 0) (ax_fakes ax)) + of_bool (refs_of st' p \<noteq> 0)"
    by (rule filter_length_step [OF mem(2,1)]) (simp add: ro)
  moreover have "refs_of st p = fk_refs fk" "refs_of st' p = r"
    using p(1) by (simp_all add: refs_of_def [of st] ro)
  moreover have "unat (ax_refs ax) = length (filter (\<lambda>q. refs_of st q \<noteq> 0) (ax_fakes ax))"
    using ok(1) p(2) by (simp add: refs_ok_def)
  ultimately have c1: "unat R = length (filter (\<lambda>q. refs_of st' q \<noteq> 0) (ax_fakes ax))"
    using R by simp
  have c2: "unat (ax_refs ay) = length (filter (\<lambda>q. refs_of st' q \<noteq> 0) (ax_fakes ay))" if "as_ctxs st c = Some ay" "c \<noteq> fk_ctx fk" for c ay
  proof -
    have "p \<notin> set (ax_fakes ay)"
      using links_ctxD [OF ok(2) that(1) _ p(1)] that(2) by blast
    then have "filter (\<lambda>q. refs_of st' q \<noteq> 0) (ax_fakes ay) = filter (\<lambda>q. refs_of st q \<noteq> 0) (ax_fakes ay)"
      by (intro filter_cong) (auto simp: ro)
    then show ?thesis
      using ok(1) that(1) by (simp add: refs_ok_def)
  qed
  have f: "unat (fk_refs gk) = of_bool (hashed st' q) + card (waiting st' q)" if "as_fakes st' q = Some gk" for q gk
  proof (cases "q = p")
    case True
    then show ?thesis
      using that fakes r by auto
  next
    case False
    then show ?thesis
      using that fakes ok(1) other [of q] by (simp add: refs_ok_def)
  qed
  show "refs_ok st'"
    using f c1 c2 ctxs by (auto simp: refs_ok_def)
  have "\<exists>az. as_ctxs st' (fk_ctx gk) = Some az \<and> q \<in> set (ax_fakes az)" if h: "as_fakes st' q = Some gk" for q gk
  proof -
    obtain hk where hk: "as_fakes st q = Some hk" "fk_ctx hk = fk_ctx gk"
      using h fakes p(1) by (cases "q = p") auto
    then show ?thesis
      using links_fakeE [OF ok(2) hk(1)] ctxs p(2) by (cases "fk_ctx gk = fk_ctx fk") auto
  qed
  moreover have "distinct (ax_fakes az) \<and> (\<forall>q \<in> set (ax_fakes az). \<exists>gk. as_fakes st' q = Some gk \<and> fk_ctx gk = c)"
    if h: "as_ctxs st' c = Some az" for c az
  proof -
    obtain ay where ay: "as_ctxs st c = Some ay" "ax_fakes az = ax_fakes ay"
      using h ctxs p(2) by (cases "c = fk_ctx fk") auto
    then have "distinct (ax_fakes ay)" "\<forall>q \<in> set (ax_fakes ay). \<exists>gk. as_fakes st q = Some gk \<and> fk_ctx gk = c"
      using ok(2) by (auto simp: links_ok_def)
    moreover have "as_fakes st q = Some gk \<Longrightarrow> \<exists>hk. as_fakes st' q = Some hk \<and> fk_ctx hk = fk_ctx gk" for q gk
      using fakes p(1) by (cases "q = p") auto
    ultimately show ?thesis
      using ay(2) by fastforce
  qed
  ultimately show "links_ok st'"
    by (simp add: links_ok_def)
qed

text \<open>States with the same objects, up to counters, flags and list membership.\<close>

definition same_shape :: "analy_state \<Rightarrow> analy_state \<Rightarrow> bool" where
  "same_shape st st' \<longleftrightarrow> as_next st' = as_next st \<and>
     (\<forall>c. map_option (\<lambda>ax. (ax_entries ax, ax_fakes ax)) (as_ctxs st' c) = map_option (\<lambda>ax. (ax_entries ax, ax_fakes ax)) (as_ctxs st c)) \<and>
     (\<forall>p. map_option (\<lambda>fk. (fk_ctx fk, fk_key fk)) (as_fakes st' p) = map_option (\<lambda>fk. (fk_ctx fk, fk_key fk)) (as_fakes st p)) \<and>
     (\<forall>e. map_option (\<lambda>en. (en_event en, en_ctx en, en_fake en)) (as_entries st' e) =
          map_option (\<lambda>en. (en_event en, en_ctx en, en_fake en)) (as_entries st e)) \<and>
     as_async st' = as_async st \<and> as_out st' = as_out st"

lemma shape_refl [simp]: "same_shape st st"
  by (simp add: same_shape_def)

lemma shape_trans: "same_shape a b \<Longrightarrow> same_shape b c \<Longrightarrow> same_shape a c"
  by (simp add: same_shape_def)

lemma map_option_eqD:
  assumes "map_option f a = map_option f b" and "b = Some x"
  shows "\<exists>y. a = Some y \<and> f y = f x"
  using assms by (cases a) auto

lemma shape_ctxs: "same_shape st st' \<Longrightarrow>
    map_option (\<lambda>ax. (ax_entries ax, ax_fakes ax)) (as_ctxs st' c) = map_option (\<lambda>ax. (ax_entries ax, ax_fakes ax)) (as_ctxs st c)"
  unfolding same_shape_def by blast

lemma shape_fakes: "same_shape st st' \<Longrightarrow>
    map_option (\<lambda>fk. (fk_ctx fk, fk_key fk)) (as_fakes st' p) = map_option (\<lambda>fk. (fk_ctx fk, fk_key fk)) (as_fakes st p)"
  unfolding same_shape_def by blast

lemma shape_ents: "same_shape st st' \<Longrightarrow>
    map_option (\<lambda>en. (en_event en, en_ctx en, en_fake en)) (as_entries st' e) = map_option (\<lambda>en. (en_event en, en_ctx en, en_fake en)) (as_entries st e)"
  unfolding same_shape_def by blast

lemma shape_ctx: "same_shape st st' \<Longrightarrow> as_ctxs st c = Some ax \<Longrightarrow> \<exists>ay. as_ctxs st' c = Some ay \<and> ax_entries ay = ax_entries ax \<and> ax_fakes ay = ax_fakes ax"
  using map_option_eqD [OF shape_ctxs] by fastforce

lemma shape_ctx': "same_shape st st' \<Longrightarrow> as_ctxs st' c = Some ax \<Longrightarrow> \<exists>ay. as_ctxs st c = Some ay \<and> ax_entries ay = ax_entries ax \<and> ax_fakes ay = ax_fakes ax"
  using map_option_eqD [OF shape_ctxs [symmetric]] by fastforce

lemma shape_fake: "same_shape st st' \<Longrightarrow> as_fakes st p = Some fk \<Longrightarrow> \<exists>gk. as_fakes st' p = Some gk \<and> fk_ctx gk = fk_ctx fk \<and> fk_key gk = fk_key fk"
  using map_option_eqD [OF shape_fakes] by fastforce

lemma shape_fake': "same_shape st st' \<Longrightarrow> as_fakes st' p = Some fk \<Longrightarrow> \<exists>gk. as_fakes st p = Some gk \<and> fk_ctx gk = fk_ctx fk \<and> fk_key gk = fk_key fk"
  using map_option_eqD [OF shape_fakes [symmetric]] by fastforce

lemma shape_entry: "same_shape st st' \<Longrightarrow> as_entries st e = Some en \<Longrightarrow>
    \<exists>em. as_entries st' e = Some em \<and> en_event em = en_event en \<and> en_ctx em = en_ctx en \<and> en_fake em = en_fake en"
  using map_option_eqD [OF shape_ents] by fastforce

lemma shape_entry': "same_shape st st' \<Longrightarrow> as_entries st' e = Some en \<Longrightarrow>
    \<exists>em. as_entries st e = Some em \<and> en_event em = en_event en \<and> en_ctx em = en_ctx en \<and> en_fake em = en_fake en"
  using map_option_eqD [OF shape_ents [symmetric]] by fastforce

lemma shape_ids:
  assumes s: "same_shape st st'" and "ids_ok st"
  shows "ids_ok st'"
  unfolding ids_ok_def
proof (intro allI impI)
  fix i
  assume "as_ctxs st' i \<noteq> None \<or> as_fakes st' i \<noteq> None \<or> as_entries st' i \<noteq> None"
  then have "as_ctxs st i \<noteq> None \<or> as_fakes st i \<noteq> None \<or> as_entries st i \<noteq> None"
    using shape_ctx' [OF s, of i] shape_fake' [OF s, of i] shape_entry' [OF s, of i] by auto
  moreover have "as_next st' = as_next st"
    using s by (simp add: same_shape_def)
  ultimately show "i < as_next st'"
    using assms(2) unfolding ids_ok_def by metis
qed

lemma shape_links:
  assumes s: "same_shape st st'" and ok: "links_ok st"
  shows "links_ok st'"
proof -
  have "\<exists>ax. as_ctxs st' (fk_ctx fk) = Some ax \<and> p \<in> set (ax_fakes ax)" if h: "as_fakes st' p = Some fk" for p fk
    using shape_fake' [OF s h] links_fakeE [OF ok] shape_ctx [OF s] by metis
  moreover have "distinct (ax_fakes ax) \<and> (\<forall>p \<in> set (ax_fakes ax). \<exists>fk. as_fakes st' p = Some fk \<and> fk_ctx fk = c)"
    if "as_ctxs st' c = Some ax" for c ax
    using shape_ctx' [OF s that] ok shape_fake [OF s] unfolding links_ok_def by metis
  ultimately show ?thesis
    by (simp add: links_ok_def)
qed

lemma shape_entries:
  assumes s: "same_shape st st'" and ok: "entries_ok cur st"
  shows "entries_ok cur st'"
proof -
  have "distinct (ax_entries ax) \<and> (\<forall>e \<in> set (ax_entries ax). cur \<noteq> Some e \<and> (\<exists>en. as_entries st' e = Some en \<and> en_ctx en = c))"
    if "as_ctxs st' c = Some ax" for c ax
    using shape_ctx' [OF s that] ok shape_entry [OF s] unfolding entries_ok_def by metis
  moreover have "(\<exists>fk. as_fakes st' (en_fake en) = Some fk \<and> fk_ctx fk = en_ctx en) \<and>
        (cur \<noteq> Some e \<longrightarrow> (\<exists>ax. as_ctxs st' (en_ctx en) = Some ax \<and> e \<in> set (ax_entries ax)))" if h: "as_entries st' e = Some en" for e en
  proof -
    obtain em where em: "as_entries st e = Some em" "en_ctx em = en_ctx en" "en_fake em = en_fake en"
      using shape_entry' [OF s h] by blast
    then have "\<exists>fk. as_fakes st (en_fake en) = Some fk \<and> fk_ctx fk = en_ctx en"
        "cur \<noteq> Some e \<longrightarrow> (\<exists>ax. as_ctxs st (en_ctx en) = Some ax \<and> e \<in> set (ax_entries ax))"
      using ok unfolding entries_ok_def by metis+
    then show ?thesis
      using shape_fake [OF s] shape_ctx [OF s] by metis
  qed
  ultimately show ?thesis
    by (simp add: entries_ok_def)
qed

lemmas shape_keeps = shape_ids shape_links shape_entries

section \<open>Releasing a packet\<close>

text \<open>What dropping a reference does to the counters, and taking one.\<close>

lemma put_fake_effect:
  assumes "as_fakes st p = Some fk" and "as_ctxs st (fk_ctx fk) = Some ax" and "fk_refs fk \<noteq> 0"
  shows "\<exists>R. put_fake_analy_ctx p st = st\<lparr>as_fakes := (as_fakes st)(p \<mapsto> fk\<lparr>fk_refs := fk_refs fk - 1\<rparr>),
       as_ctxs := (as_ctxs st)(fk_ctx fk \<mapsto> ax\<lparr>ax_refs := R\<rparr>)\<rparr> \<and>
     (ax_refs ax \<noteq> 0 \<longrightarrow> unat R + of_bool (fk_refs fk \<noteq> 0) = unat (ax_refs ax) + of_bool (fk_refs fk - 1 \<noteq> 0))"
proof (cases "fk_refs fk - 1 = 0")
  case True
  then have "put_fake_analy_ctx p st = st\<lparr>as_fakes := (as_fakes st)(p \<mapsto> fk\<lparr>fk_refs := fk_refs fk - 1\<rparr>),
       as_ctxs := (as_ctxs st)(fk_ctx fk \<mapsto> ax\<lparr>ax_refs := ax_refs ax - 1\<rparr>)\<rparr>"
    using assms(1,2) by (simp add: put_fake_analy_ctx_def upd_fake_def put_analy_ctx_def upd_ctx_def Let_def)
  moreover have "unat (ax_refs ax - 1) + 1 = unat (ax_refs ax)" if "ax_refs ax \<noteq> 0"
    using that unat_gt_0 [of "ax_refs ax"] by (simp add: unat_sub_if' word_le_nat_alt Suc_le_eq)
  ultimately show ?thesis
    using True assms(3) by (intro exI [of _ "ax_refs ax - 1"]) simp
next
  case False
  then have "put_fake_analy_ctx p st = st\<lparr>as_fakes := (as_fakes st)(p \<mapsto> fk\<lparr>fk_refs := fk_refs fk - 1\<rparr>),
       as_ctxs := (as_ctxs st)(fk_ctx fk \<mapsto> ax\<lparr>ax_refs := ax_refs ax\<rparr>)\<rparr>"
    using assms(1,2) by (simp add: put_fake_analy_ctx_def upd_fake_def Let_def fun_upd_idem)
  then show ?thesis
    using False assms(3) by (intro exI [of _ "ax_refs ax"]) simp
qed

lemma refs_positive:
  assumes "acore cur st" and "as_fakes st p = Some fk" and "as_ctxs st (fk_ctx fk) = Some ax" and "fk_refs fk \<noteq> 0"
  shows "ax_refs ax \<noteq> 0"
proof -
  have "p \<in> set (ax_fakes ax)"
    using links_fakeD [OF _ assms(2,3)] assms(1) by (simp add: acore_def)
  then have "filter (\<lambda>q. refs_of st q \<noteq> 0) (ax_fakes ax) \<noteq> []"
    using assms(2,4) by (auto simp: filter_empty_conv refs_of_def intro!: bexI [of _ p])
  moreover have "unat (ax_refs ax) = length (filter (\<lambda>q. refs_of st q \<noteq> 0) (ax_fakes ax))"
    using assms(1,3) by (simp add: acore_def refs_ok_def)
  ultimately show ?thesis
    by auto
qed

lemma unat_minus_one_16: "(r :: u16) \<noteq> 0 \<Longrightarrow> unat (r - 1) = unat r - 1"
  using unat_gt_0 [of r] by (simp add: unat_sub_if' word_le_nat_alt Suc_le_eq)

lemma hashed_refs:
  assumes "acore cur st" and "as_fakes st p = Some fk" and "hashed st p"
  shows "fk_refs fk \<noteq> 0"
  using assms unfolding acore_def refs_ok_def by fastforce

lemma release_ok:
  assumes "acore cur st" and "hashed st p"
  shows "acore cur (release_packet p st) \<and> same_shape st (release_packet p st)"
proof -
  obtain fk where fk: "as_fakes st p = Some fk" "p \<in> set (as_hash st (get_ctx_hash_head (fk_key fk)))"
    using assms(2) by (auto simp: hashed_def)
  have ok: "ids_ok st" "hash_ok st" "ret_ok st" "refs_ok st" "links_ok st" "entries_ok cur st" "\<not> as_bad st"
    using assms(1) by (simp_all add: acore_def)
  obtain ax where ax: "as_ctxs st (fk_ctx fk) = Some ax"
    using links_fakeE [OF ok(5) fk(1)] by blast
  have r: "fk_refs fk \<noteq> 0" "ax_refs ax \<noteq> 0"
    using hashed_refs [OF assms(1) fk(1) assms(2)] refs_positive [OF assms(1) fk(1) ax] by simp_all
  define b where "b = get_ctx_hash_head (fk_key fk)"
  obtain R where put: "put_fake_analy_ctx p st = st\<lparr>as_fakes := (as_fakes st)(p \<mapsto> fk\<lparr>fk_refs := fk_refs fk - 1\<rparr>),
       as_ctxs := (as_ctxs st)(fk_ctx fk \<mapsto> ax\<lparr>ax_refs := R\<rparr>)\<rparr>"
     and R: "unat R + of_bool (fk_refs fk \<noteq> 0) = unat (ax_refs ax) + of_bool (fk_refs fk - 1 \<noteq> 0)"
    using put_fake_effect [OF fk(1) ax r(1)] r(2) by blast
  define st' where "st' = release_packet p st"
  have st': "st' = st\<lparr>as_fakes := (as_fakes st)(p \<mapsto> fk\<lparr>fk_refs := fk_refs fk - 1\<rparr>),
       as_ctxs := (as_ctxs st)(fk_ctx fk \<mapsto> ax\<lparr>ax_refs := R\<rparr>), as_hash := (as_hash st)(b := remove1 p (as_hash st b))\<rparr>"
    using fk(2) by (simp add: st'_def release_packet_def put hash_del_def b_def Let_def)
  have shape: "same_shape st st'"
    using fk(1) ax by (auto simp: st' same_shape_def)
  have dist: "distinct (as_hash st b)"
    using ok(2) by (simp add: hash_ok_def)
  have keys: "map_option fk_key (as_fakes st' q) = map_option fk_key (as_fakes st q)" for q
    using fk(1) by (simp add: st')
  have h: "hashed st' q = (q \<noteq> p \<and> hashed st q)" for q
  proof (cases "q = p")
    case True
    then show ?thesis
      using dist by (simp add: hashed_def st' b_def [symmetric])
  next
    case False
    have "q \<in> set (as_hash st' d) \<longleftrightarrow> q \<in> set (as_hash st d)" for d
      using False dist by (auto simp: st')
    then show ?thesis
      using False by (simp add: hashed_def st')
  qed
  have w: "waiting st' = waiting st"
    by (simp add: waiting_def st' fun_eq_iff)
  have "unat (fk_refs fk) = Suc (card (waiting st p))"
    using ok(4) fk(1) assms(2) by (simp add: refs_ok_def)
  then have "unat (fk_refs fk - 1) = of_bool (hashed st' p) + card (waiting st' p)"
    using r(1) by (simp add: unat_minus_one_16 h w)
  then have "refs_ok st'"
    using refs_step(1) [OF ok(4,5) fk(1) ax _ _ _ R, of st'] h w by (simp add: st')
  moreover have "hash_ok st'"
    unfolding hash_ok_def
  proof (intro allI conjI ballI)
    fix d
    show "distinct (as_hash st' d)"
      using ok(2) by (simp add: st' hash_ok_def)
    fix q
    assume "q \<in> set (as_hash st' d)"
    then have "q \<in> set (as_hash st d)"
      using notin_set_remove1 by (fastforce simp: st' split: if_splits)
    then show "\<exists>gk. as_fakes st' q = Some gk \<and> get_ctx_hash_head (fk_key gk) = d"
      using ok(2) shape_fake [OF shape] unfolding hash_ok_def by metis
  qed
  moreover have "ret_ok st'" "\<not> as_bad st'"
    using ok(3,7) by (simp_all add: st' ret_ok_def)
  ultimately show ?thesis
    using shape shape_keeps [OF shape] ok by (simp add: acore_def st'_def [symmetric])
qed

text \<open>An operation on one context: the other contexts are as they were.\<close>

definition within :: "nat \<Rightarrow> analy_state \<Rightarrow> analy_state \<Rightarrow> bool" where
  "within c st st' \<longleftrightarrow> same_shape st st' \<and> (\<forall>d. d \<noteq> c \<longrightarrow> as_ctxs st' d = as_ctxs st d)"

lemma within_refl [simp]: "within c st st"
  by (simp add: within_def)

lemma within_trans [trans]: "within c st st1 \<Longrightarrow> within c st1 st2 \<Longrightarrow> within c st st2"
  unfolding within_def using shape_trans by metis

text \<open>Flags of contexts, rules and results of entries do not matter for the counters.\<close>

lemma acore_cong:
  assumes ok: "acore cur st" and s: "same_shape st st'"
    and same: "as_hash st' = as_hash st" "as_ret st' = as_ret st" "as_bad st' = as_bad st" "as_fakes st' = as_fakes st"
    and refs: "\<And>c. map_option ax_refs (as_ctxs st' c) = map_option ax_refs (as_ctxs st c)"
    and onlist: "\<And>e. map_option en_onlist (as_entries st' e) = map_option en_onlist (as_entries st e)"
  shows "acore cur st'"
proof -
  have ents: "map_option (\<lambda>en. (en_onlist en, en_fake en, en_event en)) (as_entries st' e) =
      map_option (\<lambda>en. (en_onlist en, en_fake en, en_event en)) (as_entries st e)" for e
    using onlist [of e] shape_ents [OF s, of e] by (cases "as_entries st e"; cases "as_entries st' e") auto
  have w: "waiting st' p = waiting st p" for p
    using map_option_eqD [OF ents] map_option_eqD [OF ents [symmetric]] unfolding waiting_def by fastforce
  have h: "hashed st' p = hashed st p" "refs_of st' p = refs_of st p" for p
    using same by (simp_all add: hashed_def refs_of_def)
  have "unat (ax_refs ax) = length (filter (\<lambda>p. refs_of st' p \<noteq> 0) (ax_fakes ax))" if h': "as_ctxs st' c = Some ax" for c ax
  proof -
    obtain ay where ay: "as_ctxs st c = Some ay" "ax_fakes ay = ax_fakes ax"
      using shape_ctx' [OF s h'] by blast
    then show ?thesis
      using ok h' refs [of c] by (simp add: acore_def refs_ok_def h)
  qed
  moreover have "unat (fk_refs fk) = of_bool (hashed st' p) + card (waiting st' p)" if "as_fakes st' p = Some fk" for p fk
    using that ok by (simp add: acore_def refs_ok_def h w same)
  ultimately have "refs_ok st'"
    by (simp add: refs_ok_def)
  moreover have "hash_ok st'"
    using ok by (simp add: acore_def hash_ok_def same)
  moreover have "ret_ok st'"
    unfolding ret_ok_def
  proof (intro conjI allI ballI impI)
    fix b
    show "distinct (as_ret st' b)"
      using ok by (simp add: acore_def ret_ok_def same)
    fix e
    assume "e \<in> set (as_ret st' b)"
    then obtain en where "as_entries st e = Some en" "en_onlist en" "entry_head (ev_tid (en_event en)) = b"
      using ok unfolding acore_def ret_ok_def same by blast
    then show "\<exists>en. as_entries st' e = Some en \<and> en_onlist en \<and> entry_head (ev_tid (en_event en)) = b"
      using map_option_eqD [OF ents] by fastforce
  next
    fix e en
    assume a: "as_entries st' e = Some en \<and> en_onlist en"
    then obtain em where "as_entries st e = Some em" "en_onlist em" "en_event em = en_event en"
      using map_option_eqD [OF ents [symmetric], of e en] by auto
    then show "e \<in> set (as_ret st' (entry_head (ev_tid (en_event en))))"
      using ok unfolding acore_def ret_ok_def same by metis
  qed
  ultimately show ?thesis
    using ok shape_keeps [OF s] same by (simp add: acore_def)
qed

section \<open>Rules\<close>

lemma attach_rule_ok:
  assumes ok: "acore cur st" and e: "as_entries st e = Some en" and c: "as_ctxs st (en_ctx en) = Some ax"
  shows "acore cur (attach_rule r e st) \<and> within (en_ctx en) st (attach_rule r e st) \<and>
     as_hash (attach_rule r e st) = as_hash st \<and> as_fakes (attach_rule r e st) = as_fakes st"
proof (cases r)
  case (Some rule)
  define ay where "ay = (case rl_level rule of RULE_INFO \<Rightarrow> ax | RULE_WARN \<Rightarrow> ax\<lparr>ax_warn := True\<rparr> | RULE_ERROR \<Rightarrow> ax\<lparr>ax_error := True\<rparr>)"
  define st' where "st' = attach_rule r e st"
  have eff: "st' = st\<lparr>as_entries := (as_entries st)(e \<mapsto> en\<lparr>en_rule := Some rule\<rparr>), as_ctxs := (as_ctxs st)(en_ctx en \<mapsto> ay)\<rparr>"
    using e c Some by (cases "rl_level rule")
      (simp_all add: st'_def attach_rule_def upd_entry_def mark_level_def upd_ctx_def ay_def fun_upd_idem)
  have ay: "ax_entries ay = ax_entries ax" "ax_fakes ay = ax_fakes ax" "ax_refs ay = ax_refs ax"
    by (cases "rl_level rule"; simp add: ay_def)+
  have s: "same_shape st st'"
    using e c by (simp add: eff same_shape_def ay)
  have "acore cur st'"
    by (rule acore_cong [OF ok s]) (use e c in \<open>auto simp: eff ay\<close>)
  then show ?thesis
    using s by (simp add: within_def st'_def [symmetric]) (simp add: eff)
qed (simp add: attach_rule_def ok)

section \<open>Taking a reference\<close>

lemma unat_plus_one_16: "unat (r :: u16) < 65535 \<Longrightarrow> unat (r + 1) = unat r + 1"
  by (simp add: unat_word_ariths)

lemma get_fake_effect:
  assumes "as_fakes st p = Some fk" and "as_ctxs st (fk_ctx fk) = Some ax"
    and "unat (fk_refs fk) < 65535" and "unat (ax_refs ax) < 65535"
  shows "\<exists>R. get_fake_analy_ctx p st = st\<lparr>as_fakes := (as_fakes st)(p \<mapsto> fk\<lparr>fk_refs := fk_refs fk + 1\<rparr>),
       as_ctxs := (as_ctxs st)(fk_ctx fk \<mapsto> ax\<lparr>ax_refs := R\<rparr>)\<rparr> \<and>
     unat R + of_bool (fk_refs fk \<noteq> 0) = unat (ax_refs ax) + of_bool (fk_refs fk + 1 \<noteq> 0)"
proof -
  have nz: "fk_refs fk + 1 \<noteq> 0"
    using unat_plus_one_16 [OF assms(3)] by (metis add_is_0 one_neq_zero unat_0)
  show ?thesis
  proof (cases "fk_refs fk = 0")
    case True
    then have "get_fake_analy_ctx p st = st\<lparr>as_fakes := (as_fakes st)(p \<mapsto> fk\<lparr>fk_refs := fk_refs fk + 1\<rparr>),
       as_ctxs := (as_ctxs st)(fk_ctx fk \<mapsto> ax\<lparr>ax_refs := ax_refs ax + 1\<rparr>)\<rparr>"
      using assms(1,2) by (simp add: get_fake_analy_ctx_def upd_fake_def get_analy_ctx_def upd_ctx_def)
    then show ?thesis
      using True nz unat_plus_one_16 [OF assms(4)] by (intro exI [of _ "ax_refs ax + 1"]) simp
  next
    case False
    then have "get_fake_analy_ctx p st = st\<lparr>as_fakes := (as_fakes st)(p \<mapsto> fk\<lparr>fk_refs := fk_refs fk + 1\<rparr>),
       as_ctxs := (as_ctxs st)(fk_ctx fk \<mapsto> ax\<lparr>ax_refs := ax_refs ax\<rparr>)\<rparr>"
      using assms(1,2) by (simp add: get_fake_analy_ctx_def upd_fake_def fun_upd_idem)
    then show ?thesis
      using False nz by (intro exI [of _ "ax_refs ax"]) simp
  qed
qed

lemma ctx_refs_bound:
  assumes "acore cur st" and "as_ctxs st c = Some ax" and "length (ax_fakes ax) < n"
  shows "unat (ax_refs ax) < n"
proof -
  have "unat (ax_refs ax) = length (filter (\<lambda>q. refs_of st q \<noteq> 0) (ax_fakes ax))"
    using assms(1,2) by (simp add: acore_def refs_ok_def)
  then show ?thesis
    using assms(3) by (simp add: le_less_trans [OF length_filter_le])
qed

lemma put_fake_others: "as_fakes st p = Some fk \<Longrightarrow> d \<noteq> fk_ctx fk \<Longrightarrow> as_ctxs (put_fake_analy_ctx p st) d = as_ctxs st d"
  by (simp add: put_fake_analy_ctx_def upd_fake_def put_analy_ctx_def upd_ctx_def Let_def split: option.split)

lemma hash_del_ctxs: "as_ctxs (hash_del p st) = as_ctxs st"
  by (simp add: hash_del_def Let_def split: option.split)

lemma release_within:
  assumes "acore cur st" and "hashed st p" and "as_fakes st p = Some fk"
  shows "acore cur (release_packet p st) \<and> within (fk_ctx fk) st (release_packet p st)"
  using release_ok [OF assms(1,2)] put_fake_others [OF assms(3)] by (simp add: within_def release_packet_def hash_del_ctxs)

section \<open>Awaiting a return\<close>

text \<open>One entry is put on, or taken from, the list of its thread.\<close>

lemma wait_step:
  assumes ok: "acore cur st" and e: "as_entries st e = Some en"
    and fk: "as_fakes st (en_fake en) = Some fk" and ax: "as_ctxs st (fk_ctx fk) = Some ax"
    and fakes: "as_fakes st' = (as_fakes st)(en_fake en \<mapsto> fk\<lparr>fk_refs := r\<rparr>)"
    and ctxs: "as_ctxs st' = (as_ctxs st)(fk_ctx fk \<mapsto> ax\<lparr>ax_refs := R\<rparr>)"
    and ents: "as_entries st' = (as_entries st)(e \<mapsto> en')" "en_event en' = en_event en" "en_ctx en' = en_ctx en" "en_fake en' = en_fake en"
    and hash: "as_hash st' = as_hash st" and same: "as_next st' = as_next st" "as_bad st' = as_bad st" "as_async st' = as_async st" "as_out st' = as_out st"
    and ret: "ret_ok st'"
    and r: "unat r + of_bool (en_onlist en) = unat (fk_refs fk) + of_bool (en_onlist en')"
    and R: "unat R + of_bool (fk_refs fk \<noteq> 0) = unat (ax_refs ax) + of_bool (r \<noteq> 0)"
  shows "acore cur st' \<and> within (fk_ctx fk) st st'"
proof -
  have okc: "ids_ok st" "hash_ok st" "refs_ok st" "links_ok st" "\<not> as_bad st"
    using ok by (simp_all add: acore_def)
  have s: "same_shape st st'"
    using e fk ax by (simp add: same_shape_def fakes ctxs ents same)
  have h: "hashed st' q = hashed st q" for q
    using fk by (simp add: hashed_def fakes hash)
  have other: "waiting st' q = waiting st q" if "q \<noteq> en_fake en" for q
    using that e ents(4) by (auto simp: waiting_def ents(1))
  have w: "waiting st' (en_fake en) = (if en_onlist en' then insert e (waiting st (en_fake en) - {e}) else waiting st (en_fake en) - {e})"
    using e ents(4) by (auto simp: waiting_def ents(1))
  have mem: "e \<in> waiting st (en_fake en) \<longleftrightarrow> en_onlist en"
    using e by (simp add: waiting_def)
  have fin: "finite (waiting st (en_fake en))"
    by (rule finite_waiting [OF okc(1)])
  have "card (waiting st' (en_fake en)) + of_bool (en_onlist en) = card (waiting st (en_fake en)) + of_bool (en_onlist en')"
    using mem fin card_gt_0_iff [of "waiting st (en_fake en)"] by (cases "en_onlist en'"; cases "en_onlist en") (auto simp: w insert_absorb)
  moreover have "unat (fk_refs fk) = of_bool (hashed st (en_fake en)) + card (waiting st (en_fake en))"
    using okc(3) fk by (simp add: refs_ok_def)
  ultimately have "unat r = of_bool (hashed st' (en_fake en)) + card (waiting st' (en_fake en))"
    using r h by simp
  then have "refs_ok st'"
    by (rule refs_step(1) [OF okc(3,4) fk ax fakes ctxs _ R]) (use h other in simp)
  moreover have "hash_ok st'"
    unfolding hash_ok_def
  proof (intro allI conjI ballI)
    fix b
    show "distinct (as_hash st' b)"
      using okc(2) by (simp add: hash_ok_def hash)
    fix q
    assume "q \<in> set (as_hash st' b)"
    then show "\<exists>gk. as_fakes st' q = Some gk \<and> get_ctx_hash_head (fk_key gk) = b"
      using okc(2) shape_fake [OF s] unfolding hash_ok_def hash by metis
  qed
  ultimately have "acore cur st'"
    using ok ret same shape_keeps [OF s] by (simp add: acore_def)
  then show ?thesis
    using s ctxs by (simp add: within_def)
qed

lemma probe_entry_ok:
  assumes ok: "acore cur st" and e: "as_entries st e = Some en" "\<not> en_onlist en"
    and fk: "as_fakes st (en_fake en) = Some fk" and b: "unat (fk_refs fk) < 65535"
    and ax: "as_ctxs st (fk_ctx fk) = Some ax" "length (ax_fakes ax) < 65535"
  shows "acore cur (probe_analy_entry t e en st) \<and> within (fk_ctx fk) st (probe_analy_entry t e en st) \<and>
     as_hash (probe_analy_entry t e en st) = as_hash st"
proof (cases "tr_is_ret t")
  case True
  define bk where "bk = entry_head (ev_tid (en_event en))"
  define st1 where "st1 = st\<lparr>as_ret := (as_ret st)(bk := e # as_ret st bk)\<rparr>"
  define st' where "st' = probe_analy_entry t e en st"
  have "unat (ax_refs ax) < 65535"
    by (rule ctx_refs_bound [OF ok ax])
  then obtain R where get: "get_fake_analy_ctx (en_fake en) st1 = st1\<lparr>as_fakes := (as_fakes st)(en_fake en \<mapsto> fk\<lparr>fk_refs := fk_refs fk + 1\<rparr>),
       as_ctxs := (as_ctxs st)(fk_ctx fk \<mapsto> ax\<lparr>ax_refs := R\<rparr>)\<rparr>"
    and R: "unat R + of_bool (fk_refs fk \<noteq> 0) = unat (ax_refs ax) + of_bool (fk_refs fk + 1 \<noteq> 0)"
    using get_fake_effect [of st1 "en_fake en" fk ax] fk ax(1) b by (auto simp: st1_def)
  have st': "st' = st\<lparr>as_ret := (as_ret st)(bk := e # as_ret st bk), as_fakes := (as_fakes st)(en_fake en \<mapsto> fk\<lparr>fk_refs := fk_refs fk + 1\<rparr>),
       as_ctxs := (as_ctxs st)(fk_ctx fk \<mapsto> ax\<lparr>ax_refs := R\<rparr>), as_entries := (as_entries st)(e \<mapsto> en\<lparr>en_onlist := True\<rparr>)\<rparr>"
    unfolding st'_def probe_analy_entry_def Let_def bk_def [symmetric] st1_def [symmetric] get
    using True e(1) by (simp add: upd_entry_def st1_def)
  have r: "ret_ok st"
    using ok by (simp add: acore_def)
  have new: "e \<notin> set (as_ret st d)" for d
    using r e unfolding ret_ok_def by fastforce
  have "ret_ok st'"
    using r new e(1) unfolding ret_ok_def by (auto simp: st' bk_def) metis
  then have "acore cur st' \<and> within (fk_ctx fk) st st'"
    using wait_step [OF ok e(1) fk ax(1), of st' "fk_refs fk + 1" R "en\<lparr>en_onlist := True\<rparr>"] R e(2) unat_plus_one_16 [OF b]
    by (simp add: st')
  moreover have "as_hash st' = as_hash st"
    by (simp add: st')
  ultimately show ?thesis
    by (simp add: st'_def)
qed (simp add: probe_analy_entry_def ok)

lemma find_waiting_sound:
  "list_all (\<lambda>e. as_entries st e \<noteq> None) es \<Longrightarrow> find_waiting st func tid es = (r, ok) \<Longrightarrow>
     ok \<and> (\<forall>e. r = Some e \<longrightarrow> e \<in> set es \<and> (\<exists>en. as_entries st e = Some en \<and> ev_func (en_event en) = func \<and> ev_tid (en_event en) = tid))"
proof (induction es)
  case (Cons e es)
  then show ?case
    by (auto split: if_splits option.splits)
qed auto

lemma probe_exit_ok:
  assumes ok: "acore cur st" and run: "probe_analy_exit x st = (r, st')"
  shows "acore cur st' \<and>
     (case r of
        None \<Rightarrow> st' = st
      | Some e \<Rightarrow> \<exists>en en'. as_entries st e = Some en \<and> as_entries st' e = Some en' \<and> en_ctx en' = en_ctx en \<and>
          ev_func (en_event en) = re_func x \<and> within (en_ctx en) st st' \<and> as_hash st' = as_hash st)"
proof -
  define bk where "bk = entry_head (re_tid x)"
  obtain w fine where w: "find_waiting st (re_func x) (re_tid x) (as_ret st bk) = (w, fine)"
    by fastforce
  have ret: "ret_ok st"
    using ok by (simp add: acore_def)
  then have "list_all (\<lambda>e. as_entries st e \<noteq> None) (as_ret st bk)"
    unfolding ret_ok_def list_all_iff by fastforce
  note found = find_waiting_sound [OF this w]
  show ?thesis
  proof (cases w)
    case None
    then show ?thesis
      using run found ok by (auto simp: probe_analy_exit_def w bk_def [symmetric])
  next
    case (Some e)
    then obtain en where en: "as_entries st e = Some en" "ev_func (en_event en) = re_func x" "ev_tid (en_event en) = re_tid x"
      and e: "e \<in> set (as_ret st bk)"
      using found by blast
    then have on: "en_onlist en"
      using ret unfolding ret_ok_def by fastforce
    obtain fk where fk: "as_fakes st (en_fake en) = Some fk" "fk_ctx fk = en_ctx en"
      using ok en(1) unfolding acore_def entries_ok_def by blast
    obtain ax where ax: "as_ctxs st (fk_ctx fk) = Some ax"
      using links_fakeE [OF _ fk(1)] ok unfolding acore_def by metis
    have "e \<in> waiting st (en_fake en)"
      using en on by (simp add: waiting_def)
    then have "card (waiting st (en_fake en)) \<noteq> 0"
      using finite_waiting ok by (auto simp: acore_def)
    moreover have "unat (fk_refs fk) = of_bool (hashed st (en_fake en)) + card (waiting st (en_fake en))"
      using ok fk(1) by (simp add: acore_def refs_ok_def)
    ultimately have rf: "fk_refs fk \<noteq> 0"
      by auto
    define en' where "en' = en\<lparr>en_returned := True, en_priv := re_val x, en_onlist := False\<rparr>"
    define st2 where "st2 = st\<lparr>as_entries := (as_entries st)(e \<mapsto> en\<lparr>en_returned := True, en_priv := re_val x\<rparr>),
       as_ret := (as_ret st)(bk := remove1 e (as_ret st bk))\<rparr>"
    obtain R where put: "put_fake_analy_ctx (en_fake en) st2 = st2\<lparr>as_fakes := (as_fakes st)(en_fake en \<mapsto> fk\<lparr>fk_refs := fk_refs fk - 1\<rparr>),
       as_ctxs := (as_ctxs st)(fk_ctx fk \<mapsto> ax\<lparr>ax_refs := R\<rparr>)\<rparr>"
      and R: "unat R + of_bool (fk_refs fk \<noteq> 0) = unat (ax_refs ax) + of_bool (fk_refs fk - 1 \<noteq> 0)"
      using put_fake_effect [of st2 "en_fake en" fk ax] fk ax rf refs_positive [OF ok fk(1) ax rf] by (auto simp: st2_def)
    have st': "st' = st\<lparr>as_entries := (as_entries st)(e \<mapsto> en'), as_ret := (as_ret st)(bk := remove1 e (as_ret st bk)),
       as_fakes := (as_fakes st)(en_fake en \<mapsto> fk\<lparr>fk_refs := fk_refs fk - 1\<rparr>),
       as_ctxs := (as_ctxs st)(fk_ctx fk \<mapsto> ax\<lparr>ax_refs := R\<rparr>)\<rparr>" and r: "r = Some e"
      using run put en(1) Some
      by (auto simp: probe_analy_exit_def w bk_def [symmetric] Let_def upd_entry_def st2_def en'_def)
    have "distinct (as_ret st bk)"
      using ret by (simp add: ret_ok_def)
    moreover have only: "e \<notin> set (as_ret st d)" if "d \<noteq> bk" for d
      using that ret en unfolding ret_ok_def bk_def by fastforce
    ultimately have "ret_ok st'"
      using ret en unfolding ret_ok_def by (auto simp: st' en'_def)
    then have "acore cur st' \<and> within (fk_ctx fk) st st'"
      using wait_step [OF ok en(1) fk(1) ax, of st' "fk_refs fk - 1" R en'] R on unat_minus_one_16 [OF rf] rf unat_gt_0 [of "fk_refs fk"]
      by (simp add: st' en'_def)
    then show ?thesis
      using en fk(2) by (simp add: r) (simp add: st' en'_def)
  qed
qed

lemma within_entry: "within c st st' \<Longrightarrow> as_entries st e = Some en \<Longrightarrow>
    \<exists>em. as_entries st' e = Some em \<and> en_event em = en_event en \<and> en_ctx em = en_ctx en \<and> en_fake em = en_fake en"
  unfolding within_def by (blast dest: shape_entry)

lemma within_ctx: "within c st st' \<Longrightarrow> as_ctxs st d = Some ax \<Longrightarrow> \<exists>ay. as_ctxs st' d = Some ay \<and> ax_entries ay = ax_entries ax \<and> ax_fakes ay = ax_fakes ax"
  unfolding within_def by (blast dest: shape_ctx)

lemma within_fake: "within c st st' \<Longrightarrow> as_fakes st p = Some fk \<Longrightarrow> \<exists>gk. as_fakes st' p = Some gk \<and> fk_ctx gk = fk_ctx fk \<and> fk_key gk = fk_key fk"
  unfolding within_def by (blast dest: shape_fake)

lemma hashed_within: "within c st st' \<Longrightarrow> as_hash st' = as_hash st \<Longrightarrow> hashed st p \<Longrightarrow> hashed st' p"
  unfolding hashed_def by (metis within_fake)

text \<open>A rule on the current entry, after the packet was perhaps released.\<close>

lemma rule_after:
  assumes ok: "acore cur st'" and w: "within c st st'" and e: "as_entries st e = Some en" "en_ctx en = c" and ax: "as_ctxs st c = Some ax"
  shows "acore cur (attach_rule r e st') \<and> within c st (attach_rule r e st') \<and> as_hash (attach_rule r e st') = as_hash st'"
proof -
  obtain em ay where "as_entries st' e = Some em" "en_ctx em = c" "as_ctxs st' c = Some ay"
    using within_entry [OF w e(1)] within_ctx [OF w ax] e(2) by blast
  then show ?thesis
    using attach_rule_ok [OF ok, of e em ay r] within_trans [OF w] by blast
qed

lemma run_entry_ok:
  assumes ok: "acore cur st" and e: "as_entries st e = Some em" "en_ctx em = c" and ax: "as_ctxs st c = Some ax"
    and fk: "as_fakes st (en_fake en) = Some fk" "fk_ctx fk = c" and h: "hashed st (en_fake en)"
  shows "acore cur (run_entry t e en st) \<and> within c st (run_entry t e en st) \<and>
     (tr_analyzer t \<noteq> Some AN_free \<and> tr_analyzer t \<noteq> Some AN_drop \<longrightarrow> hashed (run_entry t e en st) (en_fake en))"
proof -
  define st1 where "st1 = release_packet (en_fake en) st"
  have rel: "acore cur st1" "within c st st1"
    using release_within [OF ok h fk(1)] fk(2) by (simp_all add: st1_def)
  note rule1 = rule_after [OF rel e ax]
  note rule0 = rule_after [OF ok within_refl e ax]
  have keep: "hashed (attach_rule r e st) (en_fake en)" for r
    using hashed_within [of c st _ "en_fake en"] rule0 [of r] h by blast
  show ?thesis
  proof (cases "tr_analyzer t")
    case None
    then show ?thesis
      by (simp add: run_entry_def ok h)
  next
    case (Some a)
    then show ?thesis
      using ok h rel rule1 rule0 keep
      by (cases a) (simp_all add: run_entry_def rule_run_any_def st1_def [symmetric] Let_def)
  qed
qed

section \<open>New packets\<close>

lemma fresh_none:
  assumes "ids_ok st" and "as_next st \<le> i"
  shows "as_ctxs st i = None" "as_fakes st i = None" "as_entries st i = None"
proof -
  have "\<not> (as_ctxs st i \<noteq> None \<or> as_fakes st i \<noteq> None \<or> as_entries st i \<noteq> None)"
    using assms unfolding ids_ok_def by (meson leD)
  then show "as_ctxs st i = None" "as_fakes st i = None" "as_entries st i = None"
    by simp_all
qed

lemma acore_next:
  assumes "acore cur st" and "as_next st \<le> n"
  shows "acore cur (st\<lparr>as_next := n\<rparr>)"
proof -
  have "waiting (st\<lparr>as_next := n\<rparr>) p = waiting st p" "hashed (st\<lparr>as_next := n\<rparr>) p = hashed st p" "refs_of (st\<lparr>as_next := n\<rparr>) p = refs_of st p" for p
    by (simp_all add: waiting_def hashed_def refs_of_def)
  moreover have "ids_ok (st\<lparr>as_next := n\<rparr>)"
    using assms unfolding acore_def ids_ok_def by (auto intro: less_le_trans)
  ultimately show ?thesis
    using assms(1) by (simp add: acore_def hash_ok_def ret_ok_def refs_ok_def links_ok_def entries_ok_def)
qed

lemma entries_memD:
  "entries_ok cur st \<Longrightarrow> as_entries st e = Some en \<Longrightarrow> as_ctxs st (en_ctx en) = Some ax \<Longrightarrow> cur \<noteq> Some e \<Longrightarrow> e \<in> set (ax_entries ax)"
  unfolding entries_ok_def by fastforce

definition with_packet :: "u64 \<Rightarrow> nat \<Rightarrow> analy_ctx \<Rightarrow> analy_state \<Rightarrow> analy_state" where
  "with_packet key c ax st = st\<lparr>as_next := as_next st + 1, as_fakes := (as_fakes st)(as_next st \<mapsto> \<lparr>fk_ctx = c, fk_key = key, fk_refs = 1\<rparr>),
     as_ctxs := (as_ctxs st)(c \<mapsto> ax\<lparr>ax_fakes := ax_fakes ax @ [as_next st], ax_refs := ax_refs ax + 1\<rparr>),
     as_hash := (as_hash st)(get_ctx_hash_head key := as_next st # as_hash st (get_ctx_hash_head key))\<rparr>"

lemma alloc_effect:
  assumes "as_ctxs st c = Some ax"
  shows "analy_fake_ctx_alloc cfg key c st =
     (if ac_mem cfg (as_next st) then (Some (as_next st), with_packet key c ax st) else (None, st\<lparr>as_next := as_next st + 1\<rparr>))"
  using assms
  by (simp add: analy_fake_ctx_alloc_def Let_def upd_ctx_def analy_fake_ctx_add_def get_fake_analy_ctx_def upd_fake_def get_analy_ctx_def with_packet_def)

lemma with_packet_ok:
  assumes ok: "acore cur st" and ax: "as_ctxs st c = Some ax" "length (ax_fakes ax) < 65535"
  shows "acore cur (with_packet key c ax st)"
proof -
  define p where "p = as_next st"
  define st' where "st' = with_packet key c ax st"
  define b where "b = get_ctx_hash_head key"
  have st': "st' = st\<lparr>as_next := p + 1, as_fakes := (as_fakes st)(p \<mapsto> \<lparr>fk_ctx = c, fk_key = key, fk_refs = 1\<rparr>),
     as_ctxs := (as_ctxs st)(c \<mapsto> ax\<lparr>ax_fakes := ax_fakes ax @ [p], ax_refs := ax_refs ax + 1\<rparr>),
     as_hash := (as_hash st)(b := p # as_hash st b)\<rparr>"
    by (simp add: st'_def with_packet_def p_def b_def)
  have okc: "ids_ok st" "hash_ok st" "ret_ok st" "refs_ok st" "links_ok st" "entries_ok cur st" "\<not> as_bad st"
    using ok by (simp_all add: acore_def)
  have fresh: "as_ctxs st p = None" "as_fakes st p = None" "as_entries st p = None"
    using fresh_none [OF okc(1)] by (simp_all add: p_def)
  have ids: "ids_ok st'"
    using okc(1) ax(1) unfolding ids_ok_def by (auto simp: st' p_def less_Suc_eq)
  have notin: "p \<notin> set (as_hash st d)" for d
    using okc(2) fresh(2) unfolding hash_ok_def by fastforce
  have hash: "hash_ok st'"
    using okc(2) notin fresh(2) unfolding hash_ok_def by (auto simp: st' b_def)
  have h: "hashed st' q = (q = p \<or> hashed st q)" for q
    using fresh(2) by (auto simp: hashed_def st' b_def)
  have old: "p \<noteq> en_fake en" if "as_entries st e = Some en" for e en
    using okc(6) that fresh(2) unfolding entries_ok_def by fastforce
  have w: "waiting st' q = waiting st q" for q
    by (simp add: waiting_def st')
  have w0: "waiting st p = {}"
    using old by (auto simp: waiting_def)
  have ro: "refs_of st' q = (if q = p then 1 else refs_of st q)" for q
    by (simp add: refs_of_def st')
  have own: "p \<notin> set (ax_fakes ay)" if "as_ctxs st d = Some ay" for d ay
    using okc(5) that fresh(2) unfolding links_ok_def by fastforce
  have same: "filter (\<lambda>q. refs_of st' q \<noteq> 0) (ax_fakes ay) = filter (\<lambda>q. refs_of st q \<noteq> 0) (ax_fakes ay)" if "as_ctxs st d = Some ay" for d ay
    using own [OF that] by (intro filter_cong) (auto simp: ro)
  have "unat (ax_refs ax + 1) = unat (ax_refs ax) + 1"
    by (rule unat_plus_one_16 [OF ctx_refs_bound [OF ok ax]])
  moreover have "as_fakes st' = (as_fakes st)(p \<mapsto> \<lparr>fk_ctx = c, fk_key = key, fk_refs = 1\<rparr>)"
      "as_ctxs st' = (as_ctxs st)(c \<mapsto> ax\<lparr>ax_fakes := ax_fakes ax @ [p], ax_refs := ax_refs ax + 1\<rparr>)"
    by (simp_all add: st')
  moreover have "refs_of st' p = 1"
    by (simp add: ro)
  ultimately have "refs_ok st'"
    using okc(4) ax(1) same unfolding refs_ok_def by (auto simp: h w w0)
  moreover have "q \<in> set (ax_fakes ax)" if "as_fakes st q = Some fk" "fk_ctx fk = c" for q fk
    using links_fakeD [OF okc(5) that(1), of ax] ax(1) that(2) by simp
  then have "links_ok st'"
    using okc(5) ax(1) own fresh(1,2) unfolding links_ok_def by (auto simp: st')
  moreover have "e \<in> set (ax_entries ax)" if "as_entries st e = Some en" "cur \<noteq> Some e" "en_ctx en = c" for e en
    using entries_memD [OF okc(6) that(1), of ax] ax(1) that by simp
  then have "entries_ok cur st'"
    using okc(6) ax(1) old unfolding entries_ok_def by (auto simp: st')
  moreover have "ret_ok st'"
    using okc(3) by (simp add: ret_ok_def st')
  ultimately show ?thesis
    using ids hash okc(7) by (simp add: acore_def st'_def [symmetric]) (simp add: st')
qed

lemma find_in_bucket_sound:
  "list_all (\<lambda>p. as_fakes st p \<noteq> None) ps \<Longrightarrow> find_in_bucket st key ps = (r, ok) \<Longrightarrow>
     ok \<and> (\<forall>p. r = Some p \<longrightarrow> p \<in> set ps \<and> (\<exists>fk. as_fakes st p = Some fk \<and> fk_key fk = key))"
proof (induction ps)
  case (Cons p ps)
  then show ?case
    by (auto split: if_splits option.splits)
qed auto

lemma find_ok:
  assumes "acore cur st"
  shows "\<exists>r. analy_fake_ctx_find key st = (r, st) \<and> (\<forall>p. r = Some p \<longrightarrow> hashed st p)"
proof -
  obtain r good where r: "find_in_bucket st key (as_hash st (get_ctx_hash_head key)) = (r, good)"
    by fastforce
  have "list_all (\<lambda>p. as_fakes st p \<noteq> None) (as_hash st (get_ctx_hash_head key))"
    using assms unfolding acore_def hash_ok_def list_all_iff by fastforce
  note found = find_in_bucket_sound [OF this r]
  then have "analy_fake_ctx_find key st = (r, st)"
    by (simp add: analy_fake_ctx_find_def r)
  moreover have "r = Some p \<Longrightarrow> hashed st p" for p
    using found by (auto simp: hashed_def)
  ultimately show ?thesis
    by blast
qed

text \<open>An empty context beside the others.\<close>

definition with_ctx :: "analy_state \<Rightarrow> analy_state" where
  "with_ctx st = st\<lparr>as_next := as_next st + 1,
     as_ctxs := (as_ctxs st)(as_next st \<mapsto> \<lparr>ax_entries = [], ax_fakes = [], ax_refs = 0, ax_error = False, ax_warn = False\<rparr>)\<rparr>"

lemma with_ctx_ok:
  assumes ok: "acore cur st"
  shows "acore cur (with_ctx st)"
proof -
  have okc: "ids_ok st" "refs_ok st" "links_ok st" "entries_ok cur st"
    using ok by (simp_all add: acore_def)
  have fresh: "as_ctxs st (as_next st) = None"
    using fresh_none [OF okc(1)] by simp
  have same: "waiting (with_ctx st) p = waiting st p" "hashed (with_ctx st) p = hashed st p" "refs_of (with_ctx st) p = refs_of st p" for p
    by (simp_all add: waiting_def hashed_def refs_of_def with_ctx_def)
  have keep: "as_ctxs st c = Some ax \<Longrightarrow> as_ctxs (with_ctx st) c = Some ax" for c ax
    using fresh by (auto simp: with_ctx_def)
  have bwd: "as_ctxs (with_ctx st) c = Some ax \<Longrightarrow> as_ctxs st c = Some ax \<or> ax = \<lparr>ax_entries = [], ax_fakes = [], ax_refs = 0, ax_error = False, ax_warn = False\<rparr>" for c ax
    by (auto simp: with_ctx_def split: if_splits)
  have objs: "as_fakes (with_ctx st) = as_fakes st" "as_entries (with_ctx st) = as_entries st"
    by (simp_all add: with_ctx_def)
  have "refs_ok (with_ctx st)"
    using okc(2) unfolding refs_ok_def same objs by (auto dest!: bwd)
  moreover have "links_ok (with_ctx st)"
    using okc(3) keep unfolding links_ok_def objs by (fastforce dest!: bwd)
  moreover have "entries_ok cur (with_ctx st)"
    using okc(4) keep unfolding entries_ok_def objs by (fastforce dest!: bwd)
  moreover have "ids_ok (with_ctx st)"
    using okc(1) unfolding ids_ok_def by (auto simp: with_ctx_def less_Suc_eq)
  ultimately show ?thesis
    using ok by (simp add: acore_def hash_ok_def ret_ok_def) (simp add: with_ctx_def)
qed

lemma drop_new_ctx:
  assumes "as_ctxs st (as_next st) = None"
  shows "(with_ctx st)\<lparr>as_next := n, as_ctxs := (as_ctxs (with_ctx st))(as_next st := None)\<rparr> = st\<lparr>as_next := n\<rparr>"
  using assms by (simp add: with_ctx_def fun_upd_idem)

text \<open>What a fetch does: it finds a packet, or makes a context with one packet, or fails and changes nothing but the allocator.\<close>

lemma fetch_cases:
  assumes ok: "acore cur st"
  obtains (found) p where "analy_fake_ctx_fetch cfg key st = (Some p, st)" "hashed st p"
  | (none) n where "analy_fake_ctx_fetch cfg key st = (None, st\<lparr>as_next := n\<rparr>)" "as_next st \<le> n" "\<not> ac_mem cfg (as_next st) \<or> \<not> ac_mem cfg (as_next st + 1)"
  | (made) ax where "as_ctxs (with_ctx st) (as_next st) = Some ax" "ax_fakes ax = []" "ax_entries ax = []"
      "analy_fake_ctx_fetch cfg key st =
         (Some (as_next st + 1), (with_packet key (as_next st) ax (with_ctx st))\<lparr>as_count := as_count st + 1\<rparr>)"
proof -
  obtain r where r: "analy_fake_ctx_find key st = (r, st)" "\<forall>p. r = Some p \<longrightarrow> hashed st p"
    using find_ok [OF ok] by blast
  show ?thesis
  proof (cases r)
    case (Some p)
    then show ?thesis
      using found r by (simp add: analy_fake_ctx_fetch_def)
  next
    case None
    define ax where "ax = \<lparr>ax_entries = [], ax_fakes = [], ax_refs = 0 :: u16, ax_error = False, ax_warn = False\<rparr>"
    have ax: "as_ctxs (with_ctx st) (as_next st) = Some ax"
      by (simp add: with_ctx_def ax_def)
    have wc: "st\<lparr>as_next := as_next st + 1, as_ctxs := (as_ctxs st)(as_next st \<mapsto> ax)\<rparr> = with_ctx st"
      by (simp add: with_ctx_def ax_def)
    have fresh: "as_ctxs st (as_next st) = None"
      using fresh_none ok by (simp add: acore_def)
    note alloc = alloc_effect [OF ax, of cfg key]
    show ?thesis
    proof (cases "ac_mem cfg (as_next st)")
      case False
      then show ?thesis
        using none [of "as_next st + 1"] None r by (simp add: analy_fake_ctx_fetch_def Let_def)
    next
      case True
      then have run: "analy_fake_ctx_fetch cfg key st =
          (case analy_fake_ctx_alloc cfg key (as_next st) (with_ctx st) of
             (None, st4) \<Rightarrow> (None, st4\<lparr>as_ctxs := (as_ctxs st4)(as_next st := None)\<rparr>)
           | (Some p, st4) \<Rightarrow> (Some p, st4\<lparr>as_count := as_count st4 + 1\<rparr>))"
        using None r wc by (simp add: analy_fake_ctx_fetch_def Let_def ax_def)
      show ?thesis
      proof (cases "ac_mem cfg (as_next st + 1)")
        case m: True
        then show ?thesis
          using made [of ax] ax run alloc by (simp add: ax_def with_ctx_def with_packet_def)
      next
        case m: False
        then show ?thesis
          using none [of "as_next st + 2"] run alloc drop_new_ctx [OF fresh, of "as_next st + 2"]
          by (simp add: with_ctx_def)
      qed
    qed
  qed
qed

lemma acore_count [simp]: "acore cur (st\<lparr>as_count := n\<rparr>) = acore cur st"
  by (simp add: acore_def ids_ok_def hash_ok_def ret_ok_def refs_ok_def links_ok_def entries_ok_def waiting_def hashed_def refs_of_def)

lemma hashed_count [simp]: "hashed (st\<lparr>as_count := n\<rparr>) p = hashed st p"
  by (simp add: hashed_def)

lemma with_packet_hashed: "hashed (with_packet key c ax st) (as_next st)"
  by (simp add: hashed_def with_packet_def)

lemma made_ok:
  assumes ok: "acore cur st" and ax: "as_ctxs (with_ctx st) (as_next st) = Some ax" "ax_fakes ax = []"
  shows "acore cur (with_packet key (as_next st) ax (with_ctx st))" "hashed (with_packet key (as_next st) ax (with_ctx st)) (as_next st + 1)"
  using with_packet_ok [OF with_ctx_ok [OF ok] ax(1), of key] ax(2) with_packet_hashed [of key "as_next st" ax "with_ctx st"]
  by (simp_all add: with_ctx_def)

section \<open>The current entry\<close>

lemma entries_memE:
  assumes "entries_ok cur st" "as_entries st e = Some en" "cur \<noteq> Some e"
  obtains ax where "as_ctxs st (en_ctx en) = Some ax" "e \<in> set (ax_entries ax)"
  using assms unfolding entries_ok_def by blast

lemma place_ok:
  assumes ok: "acore None st" and e: "e < as_next st" "as_entries st e = None" and en: "\<not> en_onlist en"
    and fk: "as_fakes st (en_fake en) = Some fk" "fk_ctx fk = en_ctx en"
  shows "acore (Some e) (st\<lparr>as_entries := (as_entries st)(e \<mapsto> en)\<rparr>)"
proof -
  define st' where "st' = st\<lparr>as_entries := (as_entries st)(e \<mapsto> en)\<rparr>"
  have okc: "ids_ok st" "hash_ok st" "ret_ok st" "refs_ok st" "links_ok st" "entries_ok None st" "\<not> as_bad st"
    using ok by (simp_all add: acore_def)
  have "waiting st' p = waiting st p" "hashed st' p = hashed st p" "refs_of st' p = refs_of st p" for p
    using e(2) en by (auto simp: waiting_def hashed_def refs_of_def st'_def)
  moreover have "as_fakes st' = as_fakes st" "as_ctxs st' = as_ctxs st"
    by (simp_all add: st'_def)
  ultimately have "refs_ok st'" "links_ok st'"
    using okc(4,5) by (simp_all add: refs_ok_def links_ok_def)
  moreover have "ids_ok st'" "hash_ok st'" "\<not> as_bad st'"
    using okc(1,2,7) e(1) by (simp_all add: st'_def ids_ok_def hash_ok_def)
  moreover have "e \<notin> set (as_ret st b)" for b
    using okc(3) e(2) unfolding ret_ok_def by fastforce
  then have "ret_ok st'"
    using okc(3) en e(2) unfolding ret_ok_def by (auto simp: st'_def)
  moreover have "e \<notin> set (ax_entries ax)" if "as_ctxs st c = Some ax" for c ax
    using okc(6) that e(2) unfolding entries_ok_def by fastforce
  then have "entries_ok (Some e) st'"
    using okc(6) fk unfolding entries_ok_def by (auto simp: st'_def)
  ultimately show ?thesis
    by (simp add: acore_def st'_def [symmetric])
qed

lemma append_ok:
  assumes ok: "acore (Some e) st" and en: "as_entries st e = Some en" "en_ctx en = c" and ax: "as_ctxs st c = Some ax"
  shows "acore None (st\<lparr>as_ctxs := (as_ctxs st)(c \<mapsto> ax\<lparr>ax_entries := ax_entries ax @ [e]\<rparr>)\<rparr>)"
proof -
  define st' where "st' = st\<lparr>as_ctxs := (as_ctxs st)(c \<mapsto> ax\<lparr>ax_entries := ax_entries ax @ [e]\<rparr>)\<rparr>"
  have okc: "ids_ok st" "hash_ok st" "ret_ok st" "refs_ok st" "links_ok st" "entries_ok (Some e) st" "\<not> as_bad st"
    using ok by (simp_all add: acore_def)
  have "waiting st' p = waiting st p" "hashed st' p = hashed st p" "refs_of st' p = refs_of st p" for p
    by (simp_all add: waiting_def hashed_def refs_of_def st'_def)
  moreover have "as_fakes st' = as_fakes st" "as_ctxs st' = (as_ctxs st)(c \<mapsto> ax\<lparr>ax_entries := ax_entries ax @ [e]\<rparr>)"
    by (simp_all add: st'_def)
  ultimately have "refs_ok st'"
    using okc(4) ax by (auto simp: refs_ok_def)
  moreover have "p \<in> set (ax_fakes ax)" if "as_fakes st p = Some fk" "fk_ctx fk = c" for p fk
    using links_fakeD [OF okc(5) that(1), of ax] ax that(2) by simp
  then have "links_ok st'"
    using okc(5) ax unfolding links_ok_def by (auto simp: st'_def)
  moreover have "ids_ok st'" "hash_ok st'" "\<not> as_bad st'" "ret_ok st'"
    using okc ax by (auto simp add: st'_def ids_ok_def hash_ok_def ret_ok_def)
  moreover have "entries_ok None st'"
    unfolding entries_ok_def
  proof (intro conjI allI impI ballI)
    fix d ay f
    assume ay: "as_ctxs st' d = Some ay"
    then show "distinct (ax_entries ay)"
      using okc(6) ax unfolding entries_ok_def by (fastforce simp: st'_def split: if_splits)
    assume f: "f \<in> set (ax_entries ay)"
    then show "\<exists>en. as_entries st' f = Some en \<and> en_ctx en = d"
      using okc(6) ay ax en unfolding entries_ok_def by (fastforce simp: st'_def split: if_splits)
    show "None \<noteq> Some f"
      by simp
  next
    fix f em
    assume em: "as_entries st' f = Some em"
    then show "\<exists>fk. as_fakes st' (en_fake em) = Some fk \<and> fk_ctx fk = en_ctx em"
      using okc(6) unfolding entries_ok_def by (simp add: st'_def)
    show "\<exists>ay. as_ctxs st' (en_ctx em) = Some ay \<and> f \<in> set (ax_entries ay)"
    proof (cases "f = e")
      case True
      then show ?thesis
        using em en by (simp add: st'_def)
    next
      case False
      then obtain ay where "as_ctxs st (en_ctx em) = Some ay" "f \<in> set (ax_entries ay)"
        using entries_memE [OF okc(6), of f em] em by (auto simp: st'_def)
      then show ?thesis
        using ax by (auto simp: st'_def)
    qed
  qed
  ultimately show ?thesis
    by (simp add: acore_def st'_def [symmetric])
qed

section \<open>The end of a context\<close>


lemma free_fakes:
  assumes "distinct ps" and "\<And>p. p \<in> set ps \<Longrightarrow> as_fakes st p \<noteq> None"
  shows "fold analy_fake_free ps st = st\<lparr>as_fakes := \<lambda>p. if p \<in> set ps then None else as_fakes st p\<rparr>"
  using assms
proof (induction ps arbitrary: st)
  case (Cons q ps)
  obtain fk where fk: "as_fakes st q = Some fk"
    using Cons.prems(2) [of q] by auto
  define st1 where "st1 = st\<lparr>as_fakes := (as_fakes st)(q := None)\<rparr>"
  have "fold analy_fake_free ps st1 = st1\<lparr>as_fakes := \<lambda>p. if p \<in> set ps then None else as_fakes st1 p\<rparr>"
    using Cons by (intro Cons.IH) (auto simp: st1_def)
  moreover have "(\<lambda>p. if p \<in> set ps then None else as_fakes st1 p) = (\<lambda>p. if p \<in> set (q # ps) then None else as_fakes st p)"
    by (auto simp: st1_def)
  moreover have "analy_fake_free q st = st1"
    using fk by (simp add: analy_fake_free_def st1_def)
  ultimately show ?case
    by (simp add: st1_def)
qed simp

lemma free_entries:
  assumes "distinct es" and "\<And>e. e \<in> set es \<Longrightarrow> \<exists>en. as_entries st e = Some en \<and> \<not> en_onlist en"
  shows "fold analy_entry_free es st = st\<lparr>as_entries := \<lambda>e. if e \<in> set es then None else as_entries st e\<rparr>"
  using assms
proof (induction es arbitrary: st)
  case (Cons f es)
  obtain en where en: "as_entries st f = Some en" "\<not> en_onlist en"
    using Cons.prems(2) [of f] by auto
  define st1 where "st1 = st\<lparr>as_entries := (as_entries st)(f := None)\<rparr>"
  have "fold analy_entry_free es st1 = st1\<lparr>as_entries := \<lambda>e. if e \<in> set es then None else as_entries st1 e\<rparr>"
    using Cons by (intro Cons.IH) (auto simp: st1_def)
  moreover have "(\<lambda>e. if e \<in> set es then None else as_entries st1 e) = (\<lambda>e. if e \<in> set (f # es) then None else as_entries st e)"
    by (auto simp: st1_def)
  moreover have "analy_entry_free f st = st1"
    using en by (simp add: analy_entry_free_def st1_def)
  ultimately show ?case
    by (simp add: st1_def)
qed simp

text \<open>A context without references: its packets are in no bucket, and no entry of it awaits a return.\<close>

lemma unreferenced:
  assumes ok: "acore cur st" and ax: "as_ctxs st c = Some ax" "ax_refs ax = 0"
  shows "p \<in> set (ax_fakes ax) \<Longrightarrow> \<exists>fk. as_fakes st p = Some fk \<and> \<not> hashed st p"
    and "as_entries st e = Some en \<Longrightarrow> en_ctx en = c \<Longrightarrow> \<not> en_onlist en"
proof -
  have okc: "ids_ok st" "refs_ok st" "links_ok st" "entries_ok cur st"
    using ok by (simp_all add: acore_def)
  have "length (filter (\<lambda>p. refs_of st p \<noteq> 0) (ax_fakes ax)) = unat (ax_refs ax)"
    using okc(2) ax(1) by (simp add: refs_ok_def)
  then have none: "filter (\<lambda>p. refs_of st p \<noteq> 0) (ax_fakes ax) = []"
    using ax(2) by simp
  have zero: "\<exists>fk. as_fakes st p = Some fk \<and> \<not> hashed st p \<and> waiting st p = {}" if p: "p \<in> set (ax_fakes ax)" for p
  proof -
    obtain fk where fk: "as_fakes st p = Some fk"
      using okc(3) ax(1) p unfolding links_ok_def by blast
    then have "fk_refs fk = 0"
      using none p by (auto simp: filter_empty_conv refs_of_def)
    moreover have "unat (fk_refs fk) = of_bool (hashed st p) + card (waiting st p)"
      using okc(2) fk by (simp add: refs_ok_def)
    ultimately have "of_bool (hashed st p) + card (waiting st p) = 0"
      by simp
    then show ?thesis
      using fk finite_waiting [OF okc(1), of p] by simp
  qed
  show "\<exists>fk. as_fakes st p = Some fk \<and> \<not> hashed st p" if "p \<in> set (ax_fakes ax)"
    using zero [OF that] by blast
  show "\<not> en_onlist en" if e: "as_entries st e = Some en" "en_ctx en = c"
  proof -
    obtain fk where fk: "as_fakes st (en_fake en) = Some fk" "fk_ctx fk = c"
      using okc(4) e unfolding entries_ok_def by blast
    then have "en_fake en \<in> set (ax_fakes ax)"
      using links_fakeD [OF okc(3) fk(1), of ax] ax(1) by simp
    then show ?thesis
      using zero [of "en_fake en"] e by (auto simp: waiting_def)
  qed
qed

definition without_ctx :: "nat \<Rightarrow> analy_ctx \<Rightarrow> analy_state \<Rightarrow> analy_state" where
  "without_ctx c ax st = st\<lparr>as_fakes := \<lambda>p. if p \<in> set (ax_fakes ax) then None else as_fakes st p,
     as_entries := \<lambda>e. if e \<in> set (ax_entries ax) then None else as_entries st e,
     as_ctxs := (as_ctxs st)(c := None)\<rparr>"

lemma free_effect:
  assumes ok: "acore None st" and ax: "as_ctxs st c = Some ax" "ax_refs ax = 0"
  shows "analy_ctx_free c ax st = (without_ctx c ax st)\<lparr>as_count := as_count st - 1\<rparr>"
proof -
  have d: "distinct (ax_fakes ax)" "distinct (ax_entries ax)"
    using ok ax(1) by (auto simp: acore_def links_ok_def entries_ok_def)
  have "fold analy_fake_free (ax_fakes ax) st = st\<lparr>as_fakes := \<lambda>p. if p \<in> set (ax_fakes ax) then None else as_fakes st p\<rparr>" (is "_ = ?st1")
    using unreferenced(1) [OF ok ax] by (intro free_fakes [OF d(1)]) auto
  moreover have "\<exists>en. as_entries st e = Some en \<and> \<not> en_onlist en" if e: "e \<in> set (ax_entries ax)" for e
  proof -
    obtain en where "as_entries st e = Some en" "en_ctx en = c"
      using ok ax(1) e unfolding acore_def entries_ok_def by blast
    then show ?thesis
      using unreferenced(2) [OF ok ax] by blast
  qed
  then have "fold analy_entry_free (ax_entries ax) ?st1 = ?st1\<lparr>as_entries := \<lambda>e. if e \<in> set (ax_entries ax) then None else as_entries st e\<rparr>"
    by (subst free_entries [OF d(2)]) (simp_all cong: if_cong)
  ultimately show ?thesis
    by (simp add: analy_ctx_free_def without_ctx_def)
qed

lemma without_ctx_ok:
  assumes ok: "acore None st" and ax: "as_ctxs st c = Some ax" "ax_refs ax = 0"
  shows "acore None (without_ctx c ax st)"
proof -
  define st' where "st' = without_ctx c ax st"
  have okc: "ids_ok st" "hash_ok st" "ret_ok st" "refs_ok st" "links_ok st" "entries_ok None st" "\<not> as_bad st"
    using ok by (simp_all add: acore_def)
  have objs: "as_fakes st' p = (if p \<in> set (ax_fakes ax) then None else as_fakes st p)"
      "as_entries st' p = (if p \<in> set (ax_entries ax) then None else as_entries st p)"
      "as_ctxs st' = (as_ctxs st)(c := None)" "as_hash st' = as_hash st" "as_ret st' = as_ret st" "as_next st' = as_next st" "as_bad st' = as_bad st" for p
    by (simp_all add: st'_def without_ctx_def)
  have own: "p \<in> set (ax_fakes ax) \<longleftrightarrow> fk_ctx fk = c" if fk: "as_fakes st p = Some fk" for p fk
    using links_fakeD [OF okc(5) fk] links_ctxD [OF okc(5) ax(1) _ fk] ax(1) by blast
  have owne: "e \<in> set (ax_entries ax) \<longleftrightarrow> en_ctx en = c" if en: "as_entries st e = Some en" for e en
    using okc(6) ax(1) en entries_memD [OF okc(6) en, of ax] unfolding entries_ok_def by fastforce
  have unh: "p \<notin> set (as_hash st b)" if p: "p \<in> set (ax_fakes ax)" for p b
    using unreferenced(1) [OF ok ax p] okc(2) unfolding hash_ok_def hashed_def by fastforce
  have unw: "e \<notin> set (as_ret st b)" if e: "e \<in> set (ax_entries ax)" for e b
    using unreferenced(2) [OF ok ax] owne okc(3) e unfolding ret_ok_def by fastforce
  have keepf: "as_fakes st' p = Some fk \<longleftrightarrow> as_fakes st p = Some fk \<and> fk_ctx fk \<noteq> c" for p fk
    using own by (auto simp: objs)
  have keepe: "as_entries st' e = Some en \<longleftrightarrow> as_entries st e = Some en \<and> en_ctx en \<noteq> c" for e en
    using owne by (auto simp: objs)
  have keepc: "as_ctxs st' d = Some ay \<longleftrightarrow> as_ctxs st d = Some ay \<and> d \<noteq> c" for d ay
    by (auto simp: objs)
  have ctxof: "en_ctx en = fk_ctx fk" if "as_entries st e = Some en" "as_fakes st (en_fake en) = Some fk" for e en fk
    using okc(6) that unfolding entries_ok_def by fastforce
  have w: "waiting st' p = waiting st p" if fk: "as_fakes st p = Some fk" "fk_ctx fk \<noteq> c" for p fk
    using ctxof fk by (auto simp: waiting_def keepe)
  have h: "hashed st' p = hashed st p" if "as_fakes st p = Some fk" "fk_ctx fk \<noteq> c" for p fk
    using that by (auto simp: hashed_def keepf objs(4))
  have "filter (\<lambda>p. refs_of st' p \<noteq> 0) (ax_fakes ay) = filter (\<lambda>p. refs_of st p \<noteq> 0) (ax_fakes ay)"
    if ay: "as_ctxs st d = Some ay" "d \<noteq> c" for d ay
  proof (intro filter_cong refl)
    fix p
    assume "p \<in> set (ax_fakes ay)"
    then obtain fk where "as_fakes st p = Some fk" "fk_ctx fk = d"
      using okc(5) ay(1) unfolding links_ok_def by blast
    then show "(refs_of st' p \<noteq> 0) = (refs_of st p \<noteq> 0)"
      using ay(2) own by (simp add: refs_of_def objs)
  qed
  then have "refs_ok st'"
    using okc(4) unfolding refs_ok_def by (auto simp: keepf keepc w h)
  moreover have "links_ok st'"
    using okc(5) unfolding links_ok_def keepf keepc by blast
  moreover have "entries_ok None st'"
    unfolding entries_ok_def
  proof (intro conjI allI impI ballI)
    fix d ay f
    assume ay: "as_ctxs st' d = Some ay"
    then show "distinct (ax_entries ay)"
      using okc(6) unfolding entries_ok_def keepc by blast
    assume "f \<in> set (ax_entries ay)"
    then show "\<exists>en. as_entries st' f = Some en \<and> en_ctx en = d" "None \<noteq> Some f"
      using okc(6) ay unfolding entries_ok_def keepc keepe by blast+
  next
    fix f en
    assume en: "as_entries st' f = Some en"
    then obtain fk where fk: "as_fakes st (en_fake en) = Some fk" "fk_ctx fk = en_ctx en"
      using okc(6) unfolding entries_ok_def keepe by blast
    then show "\<exists>fk. as_fakes st' (en_fake en) = Some fk \<and> fk_ctx fk = en_ctx en"
      using en by (simp add: keepe keepf)
    show "\<exists>ay. as_ctxs st' (en_ctx en) = Some ay \<and> f \<in> set (ax_entries ay)"
      using okc(6) en unfolding entries_ok_def keepe keepc by blast
  qed
  moreover have "\<exists>fk. as_fakes st' p = Some fk \<and> get_ctx_hash_head (fk_key fk) = b" if p: "p \<in> set (as_hash st b)" for p b
  proof -
    obtain fk where fk: "as_fakes st p = Some fk" "get_ctx_hash_head (fk_key fk) = b"
      using okc(2) p unfolding hash_ok_def by blast
    then show ?thesis
      using own unh p by (simp add: keepf) blast
  qed
  then have "hash_ok st'"
    using okc(2) by (simp add: hash_ok_def objs(4))
  moreover have "\<exists>en. as_entries st' f = Some en \<and> en_onlist en \<and> entry_head (ev_tid (en_event en)) = b" if f: "f \<in> set (as_ret st b)" for f b
  proof -
    obtain en where en: "as_entries st f = Some en" "en_onlist en" "entry_head (ev_tid (en_event en)) = b"
      using okc(3) f unfolding ret_ok_def by blast
    then show ?thesis
      using owne unw f by (simp add: keepe) blast
  qed
  then have "ret_ok st'"
    using okc(3) unfolding ret_ok_def keepe objs(5) by auto
  moreover have "ids_ok st'"
    using okc(1) unfolding ids_ok_def by (auto simp: objs split: if_splits)
  ultimately show ?thesis
    using okc(7) objs(7) by (simp add: acore_def st'_def [symmetric])
qed

end
