(* ===== verification/AnalysisFlow.thy ===== *)
theory AnalysisFlow
  imports AnalysisRefs "HOL-Library.Multiset"
begin

text \<open>
  The flow of events through the packet contexts: what \<open>ctx_async_poll_cb\<close> does with one record, the
  interleaving of the reader with the polling thread, and the properties of every reachable state.
\<close>

section \<open>Events are kept\<close>

text \<open>The events in the entries of the live contexts, and those of the finished ones.\<close>

definition held :: "analy_state \<Rightarrow> analy_event multiset" where
  "held st = image_mset (\<lambda>e. en_event (the (as_entries st e))) (mset_set (dom (as_entries st)))"

definition shown :: "analy_state \<Rightarrow> analy_event multiset" where
  "shown st = mset (concat (map snd (as_out st)))"

definition live_except :: "nat \<Rightarrow> analy_state \<Rightarrow> bool" where
  "live_except c st \<longleftrightarrow> (\<forall>d ax. d \<noteq> c \<and> as_ctxs st d = Some ax \<longrightarrow> ax_refs ax \<noteq> 0 \<and> ax_entries ax \<noteq> [])"

definition live :: "analy_state \<Rightarrow> bool" where
  "live st \<longleftrightarrow> (\<forall>d ax. as_ctxs st d = Some ax \<longrightarrow> ax_refs ax \<noteq> 0 \<and> ax_entries ax \<noteq> [])"

lemma live_weaken: "live st \<Longrightarrow> live_except c st"
  unfolding live_def live_except_def by blast

lemma live_close: "live_except c st \<Longrightarrow> (\<And>ax. as_ctxs st c = Some ax \<Longrightarrow> ax_refs ax \<noteq> 0 \<and> ax_entries ax \<noteq> []) \<Longrightarrow> live st"
  unfolding live_def live_except_def by metis

text \<open>An operation on context \<open>c\<close> that keeps its entries; it may add packets.\<close>

definition inside :: "nat \<Rightarrow> analy_state \<Rightarrow> analy_state \<Rightarrow> bool" where
  "inside c st st' \<longleftrightarrow> (\<forall>d. d \<noteq> c \<longrightarrow> as_ctxs st' d = as_ctxs st d) \<and>
     map_option ax_entries (as_ctxs st' c) = map_option ax_entries (as_ctxs st c) \<and>
     (\<forall>e. map_option (\<lambda>en. (en_event en, en_ctx en)) (as_entries st' e) = map_option (\<lambda>en. (en_event en, en_ctx en)) (as_entries st e)) \<and>
     as_async st' = as_async st \<and> as_out st' = as_out st"

lemma inside_refl [simp]: "inside c st st"
  by (simp add: inside_def)

lemma inside_trans: "inside c st st1 \<Longrightarrow> inside c st1 st2 \<Longrightarrow> inside c st st2"
  by (simp add: inside_def)

lemma within_inside:
  assumes "within c st st'"
  shows "inside c st st'"
proof -
  have s: "same_shape st st'"
    using assms by (simp add: within_def)
  have "map_option ax_entries (as_ctxs st' c) = map_option ax_entries (as_ctxs st c)"
    using shape_ctxs [OF s, of c] by (cases "as_ctxs st c"; cases "as_ctxs st' c") auto
  moreover have "map_option (\<lambda>en. (en_event en, en_ctx en)) (as_entries st' e) = map_option (\<lambda>en. (en_event en, en_ctx en)) (as_entries st e)" for e
    using shape_ents [OF s, of e] by (cases "as_entries st e"; cases "as_entries st' e") auto
  ultimately show ?thesis
    using assms s by (simp add: inside_def within_def same_shape_def)
qed

lemma inside_ctx: "inside c st st' \<Longrightarrow> as_ctxs st c = Some ax \<Longrightarrow> \<exists>ay. as_ctxs st' c = Some ay \<and> ax_entries ay = ax_entries ax"
  unfolding inside_def by (cases "as_ctxs st' c") auto

lemma inside_entry: "inside c st st' \<Longrightarrow> as_entries st e = Some en \<Longrightarrow> \<exists>em. as_entries st' e = Some em \<and> en_event em = en_event en \<and> en_ctx em = en_ctx en"
  using map_option_eqD [of "\<lambda>en. (en_event en, en_ctx en)" "as_entries st' e" "as_entries st e" en] by (simp add: inside_def)

lemma inside_dom:
  assumes "inside c st st'"
  shows "dom (as_entries st') = dom (as_entries st)"
proof -
  have "map_option (\<lambda>en. (en_event en, en_ctx en)) (as_entries st' e) = map_option (\<lambda>en. (en_event en, en_ctx en)) (as_entries st e)" for e
    using assms unfolding inside_def by blast
  from arg_cong [OF this, of "\<lambda>x. x = None"] have "(as_entries st' e = None) = (as_entries st e = None)" for e
    by simp
  then show ?thesis
    by (auto simp: dom_def)
qed

lemma inside_held:
  assumes "inside c st st'"
  shows "held st' = held st"
  unfolding held_def inside_dom [OF assms]
proof (rule image_mset_cong)
  fix e
  assume "e \<in># mset_set (dom (as_entries st))"
  then obtain en where "as_entries st e = Some en"
    using mset_set.infinite by (cases "finite (dom (as_entries st))") auto
  then show "en_event (the (as_entries st' e)) = en_event (the (as_entries st e))"
    using inside_entry [OF assms] by fastforce
qed

lemma inside_shown: "inside c st st' \<Longrightarrow> shown st' = shown st"
  by (simp add: inside_def shown_def)

lemma inside_live: "inside c st st' \<Longrightarrow> live_except c st \<Longrightarrow> live_except c st'"
  unfolding inside_def live_except_def by metis

lemma acore_out [simp]: "acore cur (st\<lparr>as_bad := as_bad st, as_out := os\<rparr>) = acore cur st"
  by (simp add: acore_def ids_ok_def hash_ok_def ret_ok_def refs_ok_def links_ok_def entries_ok_def waiting_def hashed_def refs_of_def)

lemma entries_finite: "acore cur st \<Longrightarrow> finite (dom (as_entries st))"
  using finite_entries [of st] by (simp add: acore_def dom_def)

lemma held_without:
  assumes ok: "acore None st" and ax: "as_ctxs st c = Some ax"
  shows "held (without_ctx c ax st) + mset (entry_events st (ax_entries ax)) = held st"
proof -
  let ?E = "set (ax_entries ax)" and ?f = "\<lambda>e. en_event (the (as_entries st e))"
  have d: "distinct (ax_entries ax)" and sub: "?E \<subseteq> dom (as_entries st)"
    using ok ax unfolding acore_def entries_ok_def by fastforce+
  have dm: "dom (as_entries (without_ctx c ax st)) = dom (as_entries st) - ?E"
    by (auto simp: without_ctx_def dom_def split: if_splits)
  have "held (without_ctx c ax st) = image_mset ?f (mset_set (dom (as_entries st) - ?E))"
    unfolding held_def dm by (rule image_mset_cong) (use entries_finite [OF ok] in \<open>auto simp: without_ctx_def\<close>)
  moreover have "mset (entry_events st (ax_entries ax)) = image_mset ?f (mset_set ?E)"
    using d by (simp add: entry_events_def mset_set_set)
  moreover have "mset_set (dom (as_entries st)) = mset_set (dom (as_entries st) - ?E) + mset_set ?E"
    using mset_set_Union [of "dom (as_entries st) - ?E" ?E] entries_finite [OF ok] sub by (simp add: Un_absorb2 Diff_Int_distrib2 inf.absorb1 inf.commute)
  ultimately show ?thesis
    by (simp add: held_def)
qed

lemma check_pending_ok:
  assumes ok: "acore None st" and lv: "live_except c st" and ax: "as_ctxs st c = Some ax" "ax_entries ax \<noteq> []"
  shows "acore None (check_pending cfg c st) \<and> live (check_pending cfg c st) \<and> as_async (check_pending cfg c st) = as_async st \<and>
     held (check_pending cfg c st) + shown (check_pending cfg c st) = held st + shown st"
proof (cases "ax_refs ax = 0")
  case False
  then show ?thesis
    using ok live_close [OF lv] ax by (simp add: check_pending_def)
next
  case True
  obtain sh where sh: "analy_ctx_output cfg c st = analy_ctx_free c ax (st\<lparr>as_bad := as_bad st, as_out := as_out st @ [(sh, entry_events st (ax_entries ax))]\<rparr>)"
    using ax by (simp add: analy_ctx_output_def Let_def)
  define st1 where "st1 = st\<lparr>as_bad := as_bad st, as_out := as_out st @ [(sh, entry_events st (ax_entries ax))]\<rparr>"
  have ok1: "acore None st1" and ax1: "as_ctxs st1 c = Some ax"
    using ok ax by (simp_all only: st1_def acore_out simp_thms) simp
  define st' where "st' = check_pending cfg c st"
  have st': "st' = (without_ctx c ax st1)\<lparr>as_count := as_count st1 - 1\<rparr>"
    using ax True free_effect [OF ok1 ax1 True] by (simp add: st'_def check_pending_def sh st1_def)
  have "acore None st'"
    using without_ctx_ok [OF ok1 ax1 True] by (simp add: st')
  moreover have "live st'"
    using lv unfolding live_def live_except_def by (simp add: st' without_ctx_def st1_def)
  moreover have "held st' + mset (entry_events st1 (ax_entries ax)) = held st1"
    using held_without [OF ok1 ax1] by (simp add: st' held_def)
  moreover have "shown st' = shown st + mset (entry_events st (ax_entries ax))" "held st1 = held st" "entry_events st1 (ax_entries ax) = entry_events st (ax_entries ax)"
      "as_async st' = as_async st"
    by (simp_all add: st' without_ctx_def st1_def shown_def held_def entry_events_def)
  ultimately show ?thesis
    by (simp add: st'_def [symmetric] ac_simps)
qed

section \<open>One record\<close>

lemma with_packet_inside:
  assumes "as_ctxs st c = Some ax"
  shows "inside c st (with_packet key c ax st)"
  using assms by (simp add: inside_def with_packet_def)

lemma next_inside [simp]: "inside c st (st\<lparr>as_next := n\<rparr>)"
  by (simp add: inside_def)

lemma rule_inside:
  assumes ok: "acore cur st" and e: "as_entries st e = Some en" and ax: "as_ctxs st (en_ctx en) = Some ax"
  shows "acore cur (attach_rule r e st) \<and> inside (en_ctx en) st (attach_rule r e st)"
  using attach_rule_ok [OF ok e ax] within_inside by blast

text \<open>The exit half of an analyzer; a clone may add a packet to the context.\<close>

lemma run_exit_ok:
  assumes ok: "acore cur st" and e: "as_entries st e = Some en" and ax: "as_ctxs st (en_ctx en) = Some ax" "length (ax_fakes ax) < 65535"
  shows "acore cur (run_exit cfg t r e en st) \<and> inside (en_ctx en) st (run_exit cfg t r e en st)"
proof -
  define st1 where "st1 = snd (analy_fake_ctx_alloc cfg (re_val r) (en_ctx en) st)"
  have st1: "acore cur st1" "inside (en_ctx en) st st1"
    using with_packet_ok [OF ok ax] with_packet_inside [OF ax(1)] acore_next [OF ok]
    by (auto simp: st1_def alloc_effect [OF ax(1)])
  obtain em ay where em: "as_entries st1 e = Some em" "en_ctx em = en_ctx en" "as_ctxs st1 (en_ctx en) = Some ay"
    using inside_entry [OF st1(2) e] inside_ctx [OF st1(2) ax(1)] by blast
  have rule0: "acore cur (attach_rule x e st) \<and> inside (en_ctx en) st (attach_rule x e st)" for x
    by (rule rule_inside [OF ok e ax(1)])
  have rule1: "acore cur (attach_rule x e st1) \<and> inside (en_ctx en) st (attach_rule x e st1)" for x
    using rule_inside [OF st1(1) em(1), of ay x] em inside_trans [OF st1(2)] by simp
  show ?thesis
  proof (cases "tr_analyzer t")
    case None
    then show ?thesis
      by (simp add: run_exit_def ok)
  next
    case (Some a)
    then show ?thesis
      using ok st1 rule0 rule1 by (cases a) (simp_all add: run_exit_def rule_run_ret_def st1_def [symmetric] Let_def)
  qed
qed

lemma handle_ret_ok:
  assumes ok: "acore None st" and lv: "live st" and fit: "fits st" and known: "ac_trace cfg (re_func r) \<noteq> None"
  shows "case ctx_handle_ret cfg r st of
      (None, st') \<Rightarrow> st' = st
    | (Some c, st') \<Rightarrow> acore None st' \<and> inside c st st' \<and> (\<exists>ax. as_ctxs st' c = Some ax \<and> ax_entries ax \<noteq> [])"
proof -
  obtain x st1 where x: "probe_analy_exit r st = (x, st1)"
    by fastforce
  note exit = probe_exit_ok [OF ok x]
  show ?thesis
  proof (cases x)
    case None
    then show ?thesis
      using exit by (simp add: ctx_handle_ret_def x)
  next
    case (Some e)
    then obtain en en' where en: "as_entries st e = Some en" "as_entries st1 e = Some en'" "en_ctx en' = en_ctx en"
        "within (en_ctx en) st st1" and ok1: "acore None st1"
      using exit by auto
    obtain t where t: "ac_trace cfg (re_func r) = Some t"
      using known by blast
    have okc: "ids_ok st" "entries_ok None st"
      using ok by (simp_all add: acore_def)
    obtain ax where ax: "as_ctxs st (en_ctx en) = Some ax" "e \<in> set (ax_entries ax)"
      using entries_memE [OF okc(2) en(1)] by blast
    then obtain ay where ay: "as_ctxs st1 (en_ctx en) = Some ay" "ax_entries ay = ax_entries ax" "ax_fakes ay = ax_fakes ax"
      using within_ctx [OF en(4)] by blast
    have "length (ax_fakes ay) < 65535"
      using fitsD(2) [OF fit okc(1) ax(1)] ay(3) by simp
    then have run: "acore None (run_exit cfg t r e en' st1)" "inside (en_ctx en) st1 (run_exit cfg t r e en' st1)"
      using run_exit_ok [OF ok1 en(2), of ay cfg t r] ay(1) en(3) by simp_all
    then have "inside (en_ctx en) st (run_exit cfg t r e en' st1)"
      using inside_trans [OF within_inside [OF en(4)]] by blast
    moreover have "ax_entries ax \<noteq> []"
      using ax(2) by auto
    ultimately show ?thesis
      using run inside_ctx [OF _ ax(1)] en(2,3) Some t by (fastforce simp: ctx_handle_ret_def x)
  qed
qed

text \<open>The part of an event after its packet was found or made.\<close>

definition event_tail :: "analy_cfg \<Rightarrow> trace \<Rightarrow> nat \<Rightarrow> analy_entry \<Rightarrow> analy_state \<Rightarrow> analy_state" where
  "event_tail cfg t e en st =
     (let st3 = st\<lparr>as_entries := (as_entries st)(e \<mapsto> en)\<rparr>;
          st4 = probe_analy_entry t e en st3;
          st5 = run_entry t e en st4;
          st6 = (if tr_cfree t then release_packet (en_fake en) st5 else st5);
          st7 = upd_ctx (en_ctx en) (\<lambda>ax. ax\<lparr>ax_entries := ax_entries ax @ [e]\<rparr>) st6 in
      check_pending cfg (en_ctx en) st7)"

definition wf_trace :: "trace \<Rightarrow> bool" where
  "wf_trace t \<longleftrightarrow> \<not> (tr_cfree t \<and> (tr_analyzer t = Some AN_free \<or> tr_analyzer t = Some AN_drop))"

lemma held_place:
  assumes "finite (dom (as_entries st))" and "as_entries st e = None"
  shows "held (st\<lparr>as_entries := (as_entries st)(e \<mapsto> en)\<rparr>) = held st + {#en_event en#}"
proof -
  have "e \<notin> dom (as_entries st)"
    using assms(2) by auto
  then have "image_mset (\<lambda>f. en_event (the (((as_entries st)(e \<mapsto> en)) f))) (mset_set (dom (as_entries st))) = held st"
    unfolding held_def by (intro image_mset_cong) (use assms(1) in auto)
  then show ?thesis
    using assms(1) \<open>e \<notin> dom (as_entries st)\<close> by (simp add: held_def)
qed

lemma event_tail_ok:
  assumes ok: "acore None st" and lv: "live_except (en_ctx en) st" and wf: "wf_trace t"
    and e: "e < as_next st" "as_entries st e = None" and en: "\<not> en_onlist en"
    and p: "hashed st (en_fake en)" "as_fakes st (en_fake en) = Some fk" "fk_ctx fk = en_ctx en" "unat (fk_refs fk) < 65535"
    and ax: "as_ctxs st (en_ctx en) = Some ax" "length (ax_fakes ax) < 65535"
  shows "acore None (event_tail cfg t e en st) \<and> live (event_tail cfg t e en st) \<and> as_async (event_tail cfg t e en st) = as_async st \<and>
     held (event_tail cfg t e en st) + shown (event_tail cfg t e en st) = held st + shown st + {#en_event en#}"
proof -
  define c where "c = en_ctx en"
  define st3 where "st3 = st\<lparr>as_entries := (as_entries st)(e \<mapsto> en)\<rparr>"
  define st4 where "st4 = probe_analy_entry t e en st3"
  define st5 where "st5 = run_entry t e en st4"
  define st6 where "st6 = (if tr_cfree t then release_packet (en_fake en) st5 else st5)"
  have ok3: "acore (Some e) st3"
    unfolding st3_def by (rule place_ok [OF ok e en p(2,3)])
  have ok4: "acore (Some e) st4" "within c st3 st4" "as_hash st4 = as_hash st3"
    using probe_entry_ok [OF ok3, of e en fk ax t] en p(2,3,4) ax by (simp_all add: st4_def st3_def c_def)
  have "hashed st3 (en_fake en)"
    using p(1) by (simp add: st3_def hashed_def)
  then have h4: "hashed st4 (en_fake en)"
    using hashed_within [OF ok4(2,3)] by blast
  have ent4: "\<exists>em. as_entries st4 e = Some em \<and> en_ctx em = c"
    using within_entry [OF ok4(2), of e en] by (auto simp: st3_def c_def)
  have ctx4: "\<exists>ay. as_ctxs st4 c = Some ay"
    using within_ctx [OF ok4(2), of c ax] ax(1) by (auto simp: st3_def c_def)
  have fk4: "\<exists>gk. as_fakes st4 (en_fake en) = Some gk \<and> fk_ctx gk = c"
    using within_fake [OF ok4(2), of "en_fake en" fk] p(2,3) by (auto simp: st3_def c_def)
  have ok5: "acore (Some e) st5" "within c st4 st5"
      "tr_analyzer t \<noteq> Some AN_free \<and> tr_analyzer t \<noteq> Some AN_drop \<longrightarrow> hashed st5 (en_fake en)"
    using run_entry_ok [OF ok4(1) _ _ _ _ _ h4, of e _ c _ _ t] ent4 ctx4 fk4 unfolding st5_def by blast+
  have "\<exists>gk. as_fakes st5 (en_fake en) = Some gk \<and> fk_ctx gk = c"
    using fk4 within_fake [OF ok5(2)] by fastforce
  then have ok6: "acore (Some e) st6" "within c st5 st6"
    using ok5 wf release_within [OF ok5(1), of "en_fake en"] by (auto simp: st6_def wf_trace_def)
  have w: "within c st3 st6"
    using ok4(2) ok5(2) ok6(2) within_trans by blast
  obtain em ay where em: "as_entries st6 e = Some em" "en_ctx em = c" "as_ctxs st6 c = Some ay"
    using within_entry [OF w, of e en] within_ctx [OF w, of c ax] ax(1) by (auto simp: st3_def c_def)
  define st7 where "st7 = st6\<lparr>as_ctxs := (as_ctxs st6)(c \<mapsto> ay\<lparr>ax_entries := ax_entries ay @ [e]\<rparr>)\<rparr>"
  have tail: "event_tail cfg t e en st = check_pending cfg c st7"
    unfolding event_tail_def Let_def st3_def [symmetric] c_def [symmetric] st4_def [symmetric] st5_def [symmetric] st6_def [symmetric]
    using em(3) by (simp add: upd_ctx_def st7_def)
  have ok7: "acore None st7"
    unfolding st7_def by (rule append_ok [OF ok6(1) em])
  have "live_except c st3"
    using lv by (simp add: live_except_def st3_def c_def)
  then have "live_except c st6"
    by (rule inside_live [OF within_inside [OF w]])
  then have "live_except c st7"
    unfolding live_except_def by (simp add: st7_def)
  moreover have "held st7 = held st6" "shown st7 = shown st6" "as_async st7 = as_async st6"
    by (simp_all add: st7_def held_def shown_def)
  moreover have "held st6 = held st3" "shown st6 = shown st3" "as_async st6 = as_async st3"
    using inside_held [OF within_inside [OF w]] inside_shown [OF within_inside [OF w]] within_inside [OF w] by (simp_all add: inside_def)
  moreover have "held st3 = held st + {#en_event en#}" "shown st3 = shown st" "as_async st3 = as_async st"
    using held_place [OF entries_finite [OF ok] e(2)] by (simp_all add: st3_def shown_def)
  ultimately show ?thesis
    using check_pending_ok [OF ok7, of c "ay\<lparr>ax_entries := ax_entries ay @ [e]\<rparr>" cfg] by (simp add: tail st7_def)
qed

lemma handle_event_split:
  "handle_event cfg ev st =
     (let e = as_next st; st1 = st\<lparr>as_next := e + 1\<rparr> in
      if \<not> ac_mem cfg e then st1
      else case analy_fake_ctx_fetch cfg (ev_key ev) st1 of
          (None, st2) \<Rightarrow> st2
        | (Some p, st2) \<Rightarrow>
            (case as_fakes st2 p of
               None \<Rightarrow> st2\<lparr>as_bad := True\<rparr>
             | Some fk \<Rightarrow>
                 (case ac_trace cfg (ev_func ev) of
                    None \<Rightarrow> check_pending cfg (fk_ctx fk) (put_fake_analy_ctx p st2)
                  | Some t \<Rightarrow>
                      event_tail cfg t e \<lparr>en_event = ev, en_ctx = fk_ctx fk, en_fake = p, en_rule = None, en_priv = 0,
                                 en_returned = False, en_onlist = False\<rparr> st2)))"
  by (simp add: handle_event_def event_tail_def Let_def split: option.split prod.split)

text \<open>A record was handled: the invariants hold, and at most the event itself was lost, for want of memory.\<close>

definition handled :: "analy_cfg \<Rightarrow> analy_event multiset \<Rightarrow> analy_state \<Rightarrow> analy_state \<Rightarrow> bool" where
  "handled cfg evs st st' \<longleftrightarrow> acore None st' \<and> live st' \<and> as_async st' = as_async st \<and>
     (\<exists>lost. lost \<subseteq># evs \<and> held st' + shown st' + lost = held st + shown st + evs \<and> ((\<forall>i. ac_mem cfg i) \<longrightarrow> lost = {#}))"

lemma handled_next:
  assumes "acore None st" "live st" "as_next st \<le> n" "\<not> (\<forall>i. ac_mem cfg i)"
  shows "handled cfg evs st (st\<lparr>as_next := n\<rparr>)"
proof -
  have "live (st\<lparr>as_next := n\<rparr>)" "held (st\<lparr>as_next := n\<rparr>) = held st" "shown (st\<lparr>as_next := n\<rparr>) = shown st"
    using assms(2) by (simp_all add: live_def held_def shown_def)
  then show ?thesis
    using acore_next [OF assms(1,3)] assms(4) by (auto simp: handled_def intro!: exI [of _ evs])
qed

lemma handle_event_ok:
  assumes ok: "acore None st" and lv: "live st" and fit: "fits st"
    and t: "ac_trace cfg (ev_func ev) = Some t" and wf: "wf_trace t"
  shows "handled cfg {#ev#} st (handle_event cfg ev st)"
proof (cases "ac_mem cfg (as_next st)")
  case False
  then show ?thesis
    using handled_next [OF ok lv, of "as_next st + 1"] by (auto simp: handle_event_def Let_def)
next
  case mem: True
  define e where "e = as_next st"
  define st1 where "st1 = st\<lparr>as_next := e + 1\<rparr>"
  define en where "en = (\<lambda>p c. \<lparr>en_event = ev, en_ctx = c, en_fake = p, en_rule = None, en_priv = 0 :: u64, en_returned = False, en_onlist = False\<rparr>)"
  have ids: "ids_ok st"
    using ok by (simp add: acore_def)
  have ok1: "acore None st1"
    using acore_next [OF ok, of "e + 1"] by (simp add: st1_def e_def)
  have lv1: "live st1" "held st1 = held st" "shown st1 = shown st" "as_async st1 = as_async st" "as_entries st1 = as_entries st"
    using lv by (simp_all add: st1_def live_def held_def shown_def)
  have e0: "as_entries st1 e = None"
    using fresh_none(3) [OF ids, of e] by (simp add: st1_def e_def)
  have run: "handle_event cfg ev st = (case analy_fake_ctx_fetch cfg (ev_key ev) st1 of
          (None, st2) \<Rightarrow> st2
        | (Some p, st2) \<Rightarrow>
            (case as_fakes st2 p of None \<Rightarrow> st2\<lparr>as_bad := True\<rparr> | Some fk \<Rightarrow> event_tail cfg t e (en p (fk_ctx fk)) st2))"
    unfolding handle_event_split Let_def e_def [symmetric] st1_def [symmetric] en_def using mem t by (simp add: e_def [symmetric] split: option.split prod.split)
  have tail: "handled cfg {#ev#} st (event_tail cfg t e (en p (fk_ctx fk)) st2)"
    if h: "acore None st2" "live_except (fk_ctx fk) st2" "e < as_next st2" "as_entries st2 = as_entries st" "as_async st2 = as_async st" "as_out st2 = as_out st"
      "hashed st2 p" "as_fakes st2 p = Some fk" "unat (fk_refs fk) < 65535" "as_ctxs st2 (fk_ctx fk) = Some ax" "length (ax_fakes ax) < 65535"
    for st2 p fk ax
  proof -
    have "held st2 = held st" "shown st2 = shown st" "as_entries st2 e = None"
      using h(4,6) e0 lv1(5) by (simp_all add: held_def shown_def)
    then show ?thesis
      using event_tail_ok [of st2 "en p (fk_ctx fk)" t e fk ax cfg] h wf by (simp add: en_def handled_def)
  qed
  show ?thesis
    using ok1
  proof (cases rule: fetch_cases [of None st1 cfg "ev_key ev"])
    case (found p)
    then obtain fk where fk: "as_fakes st1 p = Some fk"
      by (auto simp: hashed_def)
    obtain ax where ax: "as_ctxs st1 (fk_ctx fk) = Some ax"
      using links_fakeE [OF _ fk] ok1 unfolding acore_def by metis
    have "unat (fk_refs fk) < 65535" "length (ax_fakes ax) < 65535"
      using fitsD [OF fit ids] fk ax by (simp_all add: st1_def)
    then show ?thesis
      using tail [OF ok1 live_weaken [OF lv1(1)] _ _ _ _ found(2) fk _ ax] found(1) fk lv1 by (simp add: run) (simp add: st1_def)
  next
    case (none n)
    then show ?thesis
      using handled_next [OF ok lv, of n cfg "{#ev#}"] by (auto simp: run st1_def e_def)
  next
    case (made ax)
    define c where "c = as_next st1"
    define st2 where "st2 = (with_packet (ev_key ev) c ax (with_ctx st1))\<lparr>as_count := as_count st1 + 1\<rparr>"
    have ok2: "acore None st2" "hashed st2 (c + 1)"
      using made_ok [OF ok1 made(1,2), of "ev_key ev"] by (simp_all add: st2_def c_def)
    have fields: "as_fakes st2 (c + 1) = Some \<lparr>fk_ctx = c, fk_key = ev_key ev, fk_refs = 1\<rparr>"
        "as_ctxs st2 = (as_ctxs (with_ctx st1))(c \<mapsto> ax\<lparr>ax_fakes := ax_fakes ax @ [c + 1], ax_refs := ax_refs ax + 1\<rparr>)"
        "as_entries st2 = as_entries st" "as_async st2 = as_async st" "as_out st2 = as_out st" "e < as_next st2"
      by (simp_all add: st2_def with_packet_def with_ctx_def c_def st1_def)
    have "live_except c st2"
      using live_weaken [OF lv1(1), of c] by (simp add: live_except_def fields(2) with_ctx_def c_def)
    then show ?thesis
      using tail [OF ok2(1) _ fields(6,3,4,5) ok2(2) fields(1), of "ax\<lparr>ax_fakes := ax_fakes ax @ [c + 1], ax_refs := ax_refs ax + 1\<rparr>"]
        made(2,4) fields(1,2) by (simp add: run st2_def [symmetric] c_def [symmetric])
  qed
qed

definition known :: "analy_cfg \<Rightarrow> data_list \<Rightarrow> bool" where
  "known cfg d = (case d of
     DEvent ev \<Rightarrow> (case ac_trace cfg (ev_func ev) of None \<Rightarrow> False | Some t \<Rightarrow> wf_trace t)
   | DRet r beyond \<Rightarrow> ac_trace cfg (re_func r) \<noteq> None)"

fun event_of :: "data_list \<Rightarrow> analy_event multiset" where
  "event_of (DEvent ev) = {#ev#}"
| "event_of (DRet r beyond) = {#}"

lemma callback_ok:
  assumes ok: "acore None st" and lv: "live st" and fit: "fits st" and known: "known cfg d"
  shows "handled cfg (event_of d) st (ctx_async_poll_cb cfg d st)"
proof (cases d)
  case (DEvent ev)
  then obtain t where "ac_trace cfg (ev_func ev) = Some t" "wf_trace t"
    using known by (auto simp: known_def split: option.splits)
  then show ?thesis
    using handle_event_ok [OF ok lv fit] DEvent by (simp add: ctx_async_poll_cb_def)
next
  case (DRet r beyond)
  then have ret: "case ctx_handle_ret cfg r st of
      (None, st') \<Rightarrow> st' = st
    | (Some c, st') \<Rightarrow> acore None st' \<and> inside c st st' \<and> (\<exists>ax. as_ctxs st' c = Some ax \<and> ax_entries ax \<noteq> [])"
    using handle_ret_ok [OF ok lv fit] known by (auto simp: known_def)
  obtain x st' where x: "ctx_handle_ret cfg r st = (x, st')"
    by fastforce
  show ?thesis
  proof (cases x)
    case None
    then show ?thesis
      using ret ok lv DRet x by (simp add: ctx_async_poll_cb_def handled_def)
  next
    case (Some c)
    then obtain ax where h: "acore None st'" "inside c st st'" "as_ctxs st' c = Some ax" "ax_entries ax \<noteq> []"
      using ret x by auto
    have "held st' = held st" "shown st' = shown st" "as_async st' = as_async st"
      using inside_held [OF h(2)] inside_shown [OF h(2)] h(2) by (simp_all add: inside_def)
    moreover have "live_except c st'"
      by (rule inside_live [OF h(2) live_weaken [OF lv]])
    ultimately show ?thesis
      using check_pending_ok [OF h(1) _ h(3,4), of cfg] x Some DRet by (simp add: ctx_async_poll_cb_def handled_def)
  qed
qed

section \<open>The threads\<close>

text \<open>
  The reader queues records while the polling thread takes the queue and handles what it took, record
  by record.  \<open>arrived\<close> are the records so far, \<open>todo\<close> is the list the thread has taken.  A step handles a
  record only when no counter can wrap.
\<close>

inductive analy_reach :: "analy_cfg \<Rightarrow> data_list list \<Rightarrow> data_list list \<Rightarrow> analy_state \<Rightarrow> bool" for cfg where
  start: "analy_reach cfg [] [] analy_init"
| arrive: "analy_reach cfg arrived todo st \<Longrightarrow> analy_reach cfg (arrived @ [d]) todo (do_async_poll d st)"
| splice: "analy_reach cfg arrived [] st \<Longrightarrow> analy_reach cfg arrived (as_async st) (st\<lparr>as_async := []\<rparr>)"
| handle: "analy_reach cfg arrived (d # todo) st \<Longrightarrow> fits st \<Longrightarrow> analy_reach cfg arrived todo (ctx_async_poll_cb cfg d st)"

definition events_of :: "data_list list \<Rightarrow> analy_event multiset" where
  "events_of ds = sum_list (map event_of ds)"

lemma events_of_mset: "mset ds = mset ds' \<Longrightarrow> events_of ds = events_of ds'"
  unfolding events_of_def sum_mset_sum_list [symmetric] mset_map by simp

lemma mset_dlist_add: "mset (analy_dlist_add d ds) = {#d#} + mset ds"
proof -
  have "mset (take n ds) + mset (drop n ds) = mset ds" for n
    by (metis append_take_drop_id mset_append)
  then show ?thesis
    by (simp add: analy_dlist_add_def Let_def)
qed

lemma acore_async [simp]: "acore cur (st\<lparr>as_async := q\<rparr>) = acore cur st"
  by (simp add: acore_def ids_ok_def hash_ok_def ret_ok_def refs_ok_def links_ok_def entries_ok_def waiting_def hashed_def refs_of_def)

lemma async_fields [simp]: "live (st\<lparr>as_async := q\<rparr>) = live st" "held (st\<lparr>as_async := q\<rparr>) = held st" "shown (st\<lparr>as_async := q\<rparr>) = shown st"
  by (simp_all add: live_def held_def shown_def)

lemma analy_init_ok: "acore None analy_init" "live analy_init" "held analy_init = {#}" "shown analy_init = {#}"
  by (simp_all add: analy_init_def acore_def ids_ok_def hash_ok_def ret_ok_def refs_ok_def links_ok_def entries_ok_def live_def held_def shown_def)

lemma reach_ok:
  assumes "analy_reach cfg arrived todo st" and "\<forall>d \<in> set arrived. known cfg d"
  shows "acore None st \<and> live st \<and> set todo \<subseteq> set arrived \<and> set (as_async st) \<subseteq> set arrived \<and>
     (\<exists>lost. held st + shown st + events_of todo + events_of (as_async st) + lost = events_of arrived \<and>
        ((\<forall>i. ac_mem cfg i) \<longrightarrow> lost = {#}))"
  using assms
proof (induction rule: analy_reach.induct)
  case start
  then show ?case
    using analy_init_ok by (simp add: events_of_def analy_init_def)
next
  case (arrive arrived todo st d)
  have "events_of (analy_dlist_add d (as_async st)) = event_of d + events_of (as_async st)"
    using events_of_mset [of "analy_dlist_add d (as_async st)" "d # as_async st"] by (simp add: mset_dlist_add events_of_def)
  moreover have "set (analy_dlist_add d (as_async st)) = insert d (set (as_async st))"
    using arg_cong [OF mset_dlist_add [of d "as_async st"], of set_mset] by simp
  moreover obtain lost where "held st + shown st + events_of todo + events_of (as_async st) + lost = events_of arrived" "(\<forall>i. ac_mem cfg i) \<longrightarrow> lost = {#}"
    using arrive by auto
  ultimately show ?case
    using arrive by (auto simp: do_async_poll_def events_of_def ac_simps intro!: exI [of _ lost])
next
  case (splice arrived st)
  then show ?case
    by (auto simp: events_of_def)
next
  case (handle arrived d todo st)
  then have "handled cfg (event_of d) st (ctx_async_poll_cb cfg d st)"
    using callback_ok by auto
  then obtain lost where l: "acore None (ctx_async_poll_cb cfg d st)" "live (ctx_async_poll_cb cfg d st)" "as_async (ctx_async_poll_cb cfg d st) = as_async st"
      "held (ctx_async_poll_cb cfg d st) + shown (ctx_async_poll_cb cfg d st) + lost = held st + shown st + event_of d" "(\<forall>i. ac_mem cfg i) \<longrightarrow> lost = {#}"
    by (auto simp: handled_def)
  obtain gone where g: "held st + shown st + events_of (d # todo) + events_of (as_async st) + gone = events_of arrived" "(\<forall>i. ac_mem cfg i) \<longrightarrow> gone = {#}"
    using handle by auto
  have "held (ctx_async_poll_cb cfg d st) + shown (ctx_async_poll_cb cfg d st) + events_of todo + events_of (as_async st) + (lost + gone) = events_of arrived"
    using l(4) g(1) by (simp add: events_of_def ac_simps) (metis add.assoc add.commute)
  then show ?case
    using handle l g(2) by (auto intro!: exI [of _ "lost + gone"])
qed

text \<open>A live context has a packet that is still in the table or whose return is awaited.\<close>

lemma live_awaits:
  assumes ok: "acore cur st" and lv: "live st" and ax: "as_ctxs st c = Some ax"
  shows "\<exists>p \<in> set (ax_fakes ax). hashed st p \<or> waiting st p \<noteq> {}"
proof -
  have "ax_refs ax \<noteq> 0"
    using lv ax by (simp add: live_def)
  then have "filter (\<lambda>p. refs_of st p \<noteq> 0) (ax_fakes ax) \<noteq> []"
    using ok ax by (auto simp: acore_def refs_ok_def unat_eq_0 dest!: spec [of _ c])
  then obtain p where p: "p \<in> set (ax_fakes ax)" "refs_of st p \<noteq> 0"
    by (auto simp: filter_empty_conv)
  then obtain fk where fk: "as_fakes st p = Some fk" "fk_refs fk \<noteq> 0"
    by (auto simp: refs_of_def split: option.splits)
  then have "of_bool (hashed st p) + card (waiting st p) \<noteq> 0"
    using ok unfolding acore_def refs_ok_def by (metis unat_eq_zero)
  then show ?thesis
    using p(1) by (cases "hashed st p") (auto intro!: bexI [of _ p])
qed

section \<open>Properties\<close>

definition an_demo_cfg :: analy_cfg where
  "an_demo_cfg = \<lparr>ac_trace = (\<lambda>f. if f = 1 then Some \<lparr>tr_analyzer = Some AN_ret, tr_is_ret = True, tr_cfree = False, tr_rules = [\<lparr>rl_level = RULE_WARN, rl_type = RULE_RETURN_LT 0\<rparr>]\<rparr>
       else if f = 2 then Some \<lparr>tr_analyzer = Some AN_free, tr_is_ret = False, tr_cfree = False, tr_rules = []\<rparr> else None),
     ac_diag = False, ac_noclone = False, ac_quiet = False, ac_latency_show = False, ac_min_latency = 0, ac_skip_last = False, ac_mem = (\<lambda>_. True)\<rparr>"

definition an_demo_event :: analy_event where
  "an_demo_event = \<lparr>ev_tiny = False, ev_func = 1, ev_key = 0x1200, ev_ts = 5, ev_tid = 7\<rparr>"

definition an_demo_free :: analy_event where
  "an_demo_free = \<lparr>ev_tiny = False, ev_func = 2, ev_key = 0x1200, ev_ts = 9, ev_tid = 7\<rparr>"

definition an_demo_ret :: ret_event where
  "an_demo_ret = \<lparr>re_func = 1, re_tid = 7, re_ts = 8, re_val = 3\<rparr>"

definition an_demo_arrived :: "data_list list" where
  "an_demo_arrived = [DEvent an_demo_event, DRet an_demo_ret 6, DEvent an_demo_free]"

definition an_demo_queued :: analy_state where
  "an_demo_queued = do_async_poll (DEvent an_demo_free) (do_async_poll (DRet an_demo_ret 6) (do_async_poll (DEvent an_demo_event) analy_init))"

definition an_demo_mid :: analy_state where
  "an_demo_mid = ctx_async_poll_cb an_demo_cfg (DEvent an_demo_event) (an_demo_queued\<lparr>as_async := []\<rparr>)"

definition an_demo_end :: analy_state where
  "an_demo_end = ctx_async_poll_cb an_demo_cfg (DEvent an_demo_free) (ctx_async_poll_cb an_demo_cfg (DRet an_demo_ret 6) an_demo_mid)"

lemma an_demo_queue: "as_async an_demo_queued = an_demo_arrived"
  by code_simp

lemma an_demo_known: "\<forall>d \<in> set an_demo_arrived. known an_demo_cfg d"
  by code_simp

lemma an_demo_fits: "fits (an_demo_queued\<lparr>as_async := []\<rparr>)" "fits an_demo_mid"
    "fits (ctx_async_poll_cb an_demo_cfg (DRet an_demo_ret 6) an_demo_mid)"
  by code_simp+

lemma an_demo_reach:
  "analy_reach an_demo_cfg an_demo_arrived [DRet an_demo_ret 6, DEvent an_demo_free] an_demo_mid"
  "analy_reach an_demo_cfg an_demo_arrived [] an_demo_end"
proof -
  have "analy_reach an_demo_cfg ((([] @ [DEvent an_demo_event]) @ [DRet an_demo_ret 6]) @ [DEvent an_demo_free]) [] an_demo_queued"
    unfolding an_demo_queued_def by (intro analy_reach.start analy_reach.arrive)
  then have "analy_reach an_demo_cfg an_demo_arrived an_demo_arrived (an_demo_queued\<lparr>as_async := []\<rparr>)"
    using analy_reach.splice [of an_demo_cfg an_demo_arrived an_demo_queued] an_demo_queue by (simp add: an_demo_arrived_def)
  then show mid: "analy_reach an_demo_cfg an_demo_arrived [DRet an_demo_ret 6, DEvent an_demo_free] an_demo_mid"
    unfolding an_demo_mid_def using analy_reach.handle an_demo_fits(1) by (fastforce simp: an_demo_arrived_def)
  show "analy_reach an_demo_cfg an_demo_arrived [] an_demo_end"
    unfolding an_demo_end_def by (intro analy_reach.handle [OF _ an_demo_fits(3)] analy_reach.handle [OF mid an_demo_fits(2)])
qed

text \<open>
  C32. Nothing freed is used and nothing lingers, as long as every record that arrives is of a function the tool
  knows, and no function that is marked as a custom end of a packet has the analyzer free or drop.  Then in every
  state the reader and the polling thread can reach, no freed context, packet or entry and no unlinked hash
  node was ever used, and each context that is still there has an entry, and a packet that was not freed yet
  or whose return is awaited: a context is printed and freed with the record that takes its last reference.
  The premise is needed: an event of an unknown function and such a custom end lead to the use of freed
  memory (\<open>unknown_trace_dangles\<close> and \<open>custom_free_twice\<close> below).
\<close>

theorem analysis_contexts_safe:
  assumes "analy_reach cfg arrived todo st" and "\<forall>d \<in> set arrived. known cfg d"
  shows "\<not> as_bad st \<and> (\<forall>c ax. as_ctxs st c = Some ax \<longrightarrow>
     ax_entries ax \<noteq> [] \<and> (\<exists>p \<in> set (ax_fakes ax). hashed st p \<or> waiting st p \<noteq> {}))"
proof -
  have ok: "acore None st" "live st"
    using reach_ok [OF assms] by blast+
  then show ?thesis
    using live_awaits [OF ok] by (auto simp: acore_def live_def)
qed

text \<open>
  Witness: the first of three records was handled; its packet is in the table and its return is awaited.
\<close>

theorem analysis_contexts_safe_witness:
  "\<not> as_bad an_demo_mid \<and> (\<exists>ax. as_ctxs an_demo_mid 1 = Some ax \<and> ax_entries ax \<noteq> [] \<and>
     (\<exists>p. p \<in> set (ax_fakes ax) \<and> (hashed an_demo_mid p \<or> waiting an_demo_mid p \<noteq> {})))"
proof -
  have "as_ctxs an_demo_mid 1 \<noteq> None"
    by code_simp
  then show ?thesis
    using analysis_contexts_safe [OF an_demo_reach(1) an_demo_known] by blast
qed

text \<open>
  C33. No event is lost or printed twice, while memory lasts and under the premise of the property before: every
  record is of a function the tool knows (an event of an unknown one is dropped), and no custom end of a
  packet has the analyzer free or drop.  Then the events that arrived are exactly those of the finished contexts,
  those held by the live contexts, those the polling thread still has to handle and those in the queue.
\<close>

theorem analysis_events_conserved:
  assumes "analy_reach cfg arrived todo st" and "\<forall>d \<in> set arrived. known cfg d" and "\<forall>i. ac_mem cfg i"
  shows "events_of arrived = shown st + held st + events_of todo + events_of (as_async st)"
  using reach_ok [OF assms(1,2)] assms(3) by (auto simp: ac_simps)

theorem analysis_events_conserved_witness:
  "{#an_demo_event, an_demo_free#} = shown an_demo_end + held an_demo_end \<and> as_out an_demo_end = [(True, [an_demo_event, an_demo_free])]"
proof -
  have "as_out an_demo_end = [(True, [an_demo_event, an_demo_free])]" "as_async an_demo_end = []"
    by code_simp+
  moreover have "\<forall>i. ac_mem an_demo_cfg i"
    by (simp add: an_demo_cfg_def)
  moreover have "events_of an_demo_arrived = {#an_demo_event, an_demo_free#}"
    by (simp add: events_of_def an_demo_arrived_def)
  ultimately show ?thesis
    using analysis_events_conserved [OF an_demo_reach(2) an_demo_known] by (simp add: events_of_def)
qed

section \<open>Order of the queue\<close>

lemma sorted_le_last: "sorted (map f xs) \<Longrightarrow> x \<in> set xs \<Longrightarrow> f x \<le> f (last xs)"
  by (induction xs) auto

lemma analy_dlist_sorted:
  assumes "sorted (map record_ts ds)"
  shows "sorted (map record_ts (analy_dlist_add d ds))"
proof -
  define k where "k = length ds - length (takeWhile (\<lambda>x. \<not> record_ts x < record_ts d) (rev ds))"
  have tw: "takeWhile (\<lambda>x. \<not> record_ts x < record_ts d) (rev ds) = rev (drop k ds)"
  proof -
    have "takeWhile (\<lambda>x. \<not> record_ts x < record_ts d) (rev ds) = take (length (takeWhile (\<lambda>x. \<not> record_ts x < record_ts d) (rev ds))) (rev ds)"
      by (metis takeWhile_eq_take)
    then show ?thesis
      by (simp add: k_def take_rev)
  qed
  have hi: "record_ts d \<le> record_ts x" if "x \<in> set (drop k ds)" for x
    using that tw set_takeWhileD by (metis leI set_rev)
  have dw: "dropWhile (\<lambda>x. \<not> record_ts x < record_ts d) (rev ds) = rev (take k ds)"
    by (metis append_take_drop_id rev_append same_append_eq takeWhile_dropWhile_id tw)
  have srt: "sorted (map record_ts (take k ds))" "sorted (map record_ts (drop k ds))"
    using assms by (simp_all add: sorted_wrt_take sorted_wrt_drop flip: take_map drop_map)
  have lo: "record_ts x \<le> record_ts d" if x: "x \<in> set (take k ds)" for x
  proof -
    have ne: "take k ds \<noteq> []"
      using x by (metis list.set(1) empty_iff)
    have "record_ts (last (take k ds)) < record_ts d"
      using hd_dropWhile [of "\<lambda>x. \<not> record_ts x < record_ts d" "rev ds"] dw ne by (metis hd_rev rev_is_Nil_conv)
    moreover have "record_ts x \<le> record_ts (last (take k ds))"
      by (rule sorted_le_last [OF srt(1) x])
    ultimately show ?thesis
      by simp
  qed
  have "analy_dlist_add d ds = take k ds @ d # drop k ds"
    by (simp add: analy_dlist_add_def Let_def k_def)
  moreover have "record_ts x \<le> record_ts y" if "x \<in> set (take k ds)" "y \<in> set (drop k ds)" for x y
    using lo [OF that(1)] hi [OF that(2)] by simp
  ultimately show ?thesis
    using srt hi lo by (auto simp: sorted_append)
qed

text \<open>
  The time of a return event is read behind its end.  With an old value there the return is queued before
  the entry it belongs to, is not matched, and the context waits for ever.
\<close>

lemma return_before_entry:
  "as_async (do_async_poll (DRet an_demo_ret 0) (do_async_poll (DEvent an_demo_event) analy_init)) = [DRet an_demo_ret 0, DEvent an_demo_event]"
  "re_ts an_demo_ret > ev_ts an_demo_event"
  by code_simp+

text \<open>
  An event of an unknown function drops the reference of its packet but leaves it in the hash table: the
  next event of the packet reads freed memory.
\<close>

definition an_unknown_event :: analy_event where
  "an_unknown_event = an_demo_event\<lparr>ev_func := 9\<rparr>"

lemma unknown_trace_dangles:
  "as_bad (handle_event an_demo_cfg an_unknown_event (handle_event an_demo_cfg an_unknown_event analy_init))"
  by code_simp

text \<open>A function that is marked as the end of a packet and has the analyzer \<open>free\<close> releases the packet twice.\<close>

definition an_cfree_cfg :: analy_cfg where
  "an_cfree_cfg = an_demo_cfg\<lparr>ac_trace := \<lambda>_. Some \<lparr>tr_analyzer = Some AN_free, tr_is_ret = False, tr_cfree = True, tr_rules = []\<rparr>\<rparr>"

lemma custom_free_twice: "as_bad (handle_event an_cfree_cfg an_demo_free analy_init)"
  by code_simp

end
