(* ===== verification/TrafficDisplay.thy ===== *)
theory TrafficDisplay
  imports TrafficHistory
begin

text \<open>
  The terminal view of the traffic monitor (\<open>traffic_display.c\<close>): the line writer, the rows of processes
  and threads, the history of one row, the frame with its footer, and the keys.  The frame is the list of the
  lines written; the escape sequences around a line are constants and left out.  Text is bytes; the
  Chinese labels are given by their code points.  Values of type \<open>double\<close> are rationals, and \<open>pf\<close>, an argument
  of every function that prints one, is the \<open>%.*f\<close> conversion of the C library.
\<close>

section \<open>Text\<close>

definition ascii :: "string \<Rightarrow> bytes" where
  "ascii s = map of_char s"

definition utf8 :: "int \<Rightarrow> bytes" where
  "utf8 cp = [of_int (0xe0 + cp div 4096), of_int (0x80 + cp div 64 mod 64), of_int (0x80 + cp mod 64)]"

definition cjk :: "int list \<Rightarrow> bytes" where
  "cjk cps = concat (map utf8 cps)"

text \<open>The conversions of the C library that the format strings use.\<close>

fun dec :: "nat \<Rightarrow> bytes" where
  "dec n = (if n < 10 then [of_nat (48 + n)] else dec (n div 10) @ [of_nat (48 + n mod 10)])"

declare dec.simps [simp del]

definition pad_right :: "nat \<Rightarrow> bytes \<Rightarrow> bytes" where
  "pad_right w s = s @ replicate (w - length s) 32"

definition pad_left :: "nat \<Rightarrow> bytes \<Rightarrow> bytes" where
  "pad_left w s = replicate (w - length s) 32 @ s"

text \<open>Unsigned subtraction of \<open>w\<close> bits.\<close>

definition usub :: "nat \<Rightarrow> nat \<Rightarrow> nat \<Rightarrow> nat" where
  "usub w a b = (if b \<le> a then a - b else 2 ^ w + a - b)"

type_synonym print_float = "nat \<Rightarrow> rat \<Rightarrow> bytes"

definition traffic_bytes_per_second :: "u64 \<Rightarrow> u64 \<Rightarrow> rat" where
  "traffic_bytes_per_second delta elapsed_ns =
     (if elapsed_ns \<noteq> 0 then of_nat (unat delta) * 1000000000 / of_nat (unat elapsed_ns) else 0)"

definition byte_units :: "bytes list" where
  "byte_units = map ascii [''B'', ''KiB'', ''MiB'', ''GiB'', ''TiB'', ''PiB'', ''EiB'']"

text \<open>Division by 1024 is exact in binary floating point.\<close>

function scale_bytes :: "rat \<Rightarrow> nat \<Rightarrow> rat \<times> nat" where
  "scale_bytes b u = (if 1024 \<le> b \<and> u + 1 < length byte_units then scale_bytes (b / 1024) (u + 1) else (b, u))"
  by auto
termination
  by (relation "measure (\<lambda>(b, u). length byte_units - u)") auto

declare scale_bytes.simps [simp del]

definition traffic_format_bytes :: "print_float \<Rightarrow> rat \<Rightarrow> bool \<Rightarrow> bytes" where
  "traffic_format_bytes pf b rate =
     (let (v, u) = scale_bytes (if b < 0 then 0 else b) 0;
          precision = (if u = 0 then 0 else if v < 10 then 2 else if v < 100 then 1 else 0) in
      take 31 (pf precision v @ ascii '' '' @ byte_units ! u @ (if rate then ascii ''/s'' else [])))"

section \<open>Lines\<close>

text \<open>\<open>(bytes, cells)\<close> of the first character: a CJK ideograph of three bytes takes two cells.\<close>

definition traffic_character_cells :: "bytes \<Rightarrow> nat \<times> nat" where
  "traffic_character_cells t =
     (case t of
        c # c1 # c2 # _ \<Rightarrow>
          if 0xe4 \<le> c \<and> c \<le> 0xe9 \<and> c1 AND 0xc0 = 0x80 \<and> c2 AND 0xc0 = 0x80
          then let codepoint = push_bit 12 (ucast (c AND 0x0f) :: u32) OR push_bit 6 (ucast (c1 AND 0x3f)) OR ucast (c2 AND 0x3f) in
            if 0x4e00 \<le> codepoint \<and> codepoint \<le> 0x9fff then (3, 2) else (1, 1)
          else (1, 1)
      | _ \<Rightarrow> (1, 1))"

lemma cells_cases: "traffic_character_cells t = (1, 1) \<or> traffic_character_cells t = (3, 2) \<and> 3 \<le> length t"
  by (auto simp: traffic_character_cells_def Let_def split: list.split)

lemma cells_drop: "(b, k) = traffic_character_cells t \<Longrightarrow> 0 < b"
  using cells_cases [of t] by auto

function traffic_field_width :: "bytes \<Rightarrow> nat \<Rightarrow> nat" where
  "traffic_field_width comm width =
     (if comm = [] then width
      else case traffic_character_cells comm of (b, cells) \<Rightarrow> traffic_field_width (drop b comm) (width + b - cells))"
  by auto
termination
  by (relation "measure (\<lambda>(comm, width). length comm)") (auto dest: cells_drop)

declare traffic_field_width.simps [simp del]

datatype color = COLOR_TITLE | COLOR_RX | COLOR_TX | COLOR_MUTED

record traffic_frame =
  fr_width :: nat
  fr_limit :: nat
  fr_used :: nat
  fr_out :: "(color option \<times> bytes) list"

text \<open>The copy of one line: \<open>clean\<close>, the columns so far, and where the text fits with and without an ellipsis.\<close>

function clean_loop :: "nat \<Rightarrow> bytes \<Rightarrow> bytes \<Rightarrow> nat \<Rightarrow> nat \<Rightarrow> nat \<Rightarrow> bytes \<times> nat \<times> nat \<times> nat" where
  "clean_loop available t clean columns fit ellipsis =
     (if t = [] then (clean, columns, fit, ellipsis)
      else case traffic_character_cells t of (b, cells) \<Rightarrow>
        let c = hd t; printable = (cells = 2 \<or> 32 \<le> c \<and> c \<le> 126);
            clean1 = clean @ (if printable then take b t else [63]);
            columns1 = columns + cells in
        clean_loop available (drop b t) clean1 columns1
          (if columns1 \<le> available then length clean1 else fit)
          (if columns1 + 3 \<le> available then length clean1 else ellipsis))"
  by auto
termination
  by (relation "measure (\<lambda>(available, t, clean, columns, fit, ellipsis). length t)") (auto dest: cells_drop)

declare clean_loop.simps [simp del]

definition clean_line :: "nat \<Rightarrow> bytes \<Rightarrow> bytes" where
  "clean_line width t =
     (let available = (if width \<noteq> 0 then usub 32 width 1 else 0);
          (clean, columns, fit, ellipsis) = clean_loop available t [] 0 0 0 in
      if available < columns
      then if 3 \<le> available then take ellipsis clean @ [46, 46, 46] else take fit clean
      else clean)"

definition traffic_line :: "color option \<Rightarrow> bytes \<Rightarrow> traffic_frame \<Rightarrow> traffic_frame" where
  "traffic_line color formatted frame =
     (if fr_limit frame \<le> fr_used frame then frame
      else frame\<lparr>fr_out := fr_out frame @ [(color, clean_line (fr_width frame) (take 1023 formatted))], fr_used := fr_used frame + 1\<rparr>)"

section \<open>Rows\<close>

definition traffic_endpoint_lines :: "bytes \<Rightarrow> nat \<Rightarrow> nat" where
  "traffic_endpoint_lines endpoint width =
     (let len = length endpoint; chunk = usub 32 width 8 in
      if len \<noteq> 0 then (len + chunk - 1) div chunk else 1)"

function render_endpoint_loop :: "nat \<Rightarrow> bytes \<Rightarrow> bytes \<Rightarrow> bool \<Rightarrow> traffic_frame \<Rightarrow> traffic_frame" where
  "render_endpoint_loop chunk label rest first frame =
     (let frame1 = traffic_line (Some COLOR_MUTED) (pad_right 7 (if first then label else []) @ take chunk rest) frame;
          rest1 = drop (if length rest < chunk then length rest else chunk) rest in
      if rest1 \<noteq> [] \<and> chunk \<noteq> 0 then render_endpoint_loop chunk label rest1 False frame1 else frame1)"
  by auto
termination
  by (relation "measure (\<lambda>(chunk, label, rest, first, frame). length rest)") (auto split: if_splits)

declare render_endpoint_loop.simps [simp del]

definition traffic_render_endpoint :: "bytes \<Rightarrow> bytes \<Rightarrow> traffic_frame \<Rightarrow> traffic_frame" where
  "traffic_render_endpoint label endpoint frame =
     render_endpoint_loop (usub 32 (fr_width frame) 8) label endpoint True frame"

definition traffic_row_lines :: "traffic_row \<Rightarrow> bool \<Rightarrow> bool \<Rightarrow> bool \<Rightarrow> nat \<Rightarrow> nat" where
  "traffic_row_lines row flows wide spacing width =
     (let lines = (if wide then 1 else 3);
          lines1 = (if flows then (if wide then 1 else 4) + traffic_endpoint_lines (ascii (row_local row)) width +
                                  traffic_endpoint_lines (ascii (row_remote row)) width
                    else lines);
          lines2 = (if \<not> wide \<and> width < 40 then lines1 + 2 else lines1) in
      lines2 + of_bool spacing + 1)"

definition row_status :: "print_float \<Rightarrow> traffic_row \<Rightarrow> bytes" where
  "row_status pf row =
     (if row_archived row then cjk [0x65e7, 0x8bb0, 0x5f55]
      else if \<not> row_sample_valid row then cjk [0x91c7, 0x6837, 0x7f3a, 0x5931]
      else if row_rx_rate row = 0 \<and> row_tx_rate row = 0
      then take 39 ((cjk [0x7a7a, 0x95f2] @ ascii '' '') @ pf 0 (row_idle_seconds row) @ ascii ''s'')
      else cjk [0x6d3b, 0x8dc3])"

definition row_rate :: "print_float \<Rightarrow> traffic_row \<Rightarrow> rat \<Rightarrow> bytes" where
  "row_rate pf row rate =
     (if row_archived row \<or> \<not> row_sample_valid row then cjk [0x672a, 0x77e5] else traffic_format_bytes pf rate True)"

definition unat_rat :: "u64 \<Rightarrow> rat" where
  "unat_rat x = of_nat (unat x)"

definition traffic_render_row :: "print_float \<Rightarrow> traffic_row \<Rightarrow> bool \<Rightarrow> bool \<Rightarrow> bool \<Rightarrow> traffic_frame \<Rightarrow> traffic_frame" where
  "traffic_render_row pf row flows wide spacing frame0 =
     (let rx = row_rate pf row (row_rx_rate row); tx = row_rate pf row (row_tx_rate row);
          rx_total = traffic_format_bytes pf (unat_rat (row_rx_bytes row)) False;
          tx_total = traffic_format_bytes pf (unat_rat (row_tx_bytes row)) False;
          status = row_status pf row; comm = ascii (row_comm row);
          sp = ascii '' '';
          endpoints = (\<lambda>f. traffic_render_endpoint (ascii ''Remote'') (ascii (row_remote row))
                             (traffic_render_endpoint (ascii ''Local'') (ascii (row_local row)) f));
          name = pad_right (traffic_field_width comm 16) (take 16 comm);
          rates = pad_left (traffic_field_width rx 12) rx @ sp @ pad_left (traffic_field_width tx 12) tx;
          totals = pad_left 11 rx_total @ sp @ pad_left 11 tx_total;
          frame1 =
            (if wide then
               if flows then
                 endpoints (traffic_line None
                   (pad_right 7 (dec (unat (row_tid row))) @ sp @ name @ sp @ pad_right 7 (dec (unat (row_pid row))) @ sp @
                    pad_right 3 (take 3 (ascii (row_protocol row))) @ sp @ rates @ sp @ totals) frame0)
               else
                 traffic_line None (pad_right 7 (dec (unat (row_pid row))) @ sp @ name @ sp @ rates @ sp @ totals @ sp @ status) frame0
             else
               let f1 = (if flows then
                           endpoints (traffic_line (Some COLOR_MUTED)
                             (ascii ''PID '' @ dec (unat (row_pid row)) @ sp @ take 7 (ascii (row_protocol row)) @ ascii '' | '' @ status)
                             (traffic_line None (ascii ''TID '' @ dec (unat (row_tid row)) @ sp @ take 16 comm) frame0))
                         else traffic_line None (dec (unat (row_pid row)) @ sp @ take 16 comm @ ascii '' | '' @ status) frame0) in
               if fr_width f1 < 40 then
                 traffic_line None ((cjk [0x7d2f, 0x8ba1, 0x53d1, 0x9001] @ ascii ''  '') @ tx_total)
                   (traffic_line None ((cjk [0x7d2f, 0x8ba1, 0x63a5, 0x6536] @ ascii ''  '') @ rx_total)
                     (traffic_line (Some COLOR_TX) ((cjk [0x53d1, 0x9001, 0x901f, 0x7387] @ ascii ''  '') @ tx)
                       (traffic_line (Some COLOR_RX) ((cjk [0x63a5, 0x6536, 0x901f, 0x7387] @ ascii ''  '') @ rx) f1)))
               else
                 traffic_line (Some COLOR_TX) (ascii ''TX '' @ pad_right 12 tx @ (ascii '' | '' @ cjk [0x7d2f, 0x8ba1, 0x53d1, 0x9001] @ ascii '' '') @ tx_total)
                   (traffic_line (Some COLOR_RX) (ascii ''RX '' @ pad_right 12 rx @ (ascii '' | '' @ cjk [0x7d2f, 0x8ba1, 0x63a5, 0x6536] @ ascii '' '') @ rx_total) f1));
          frame2 = traffic_line (Some COLOR_MUTED)
            ((cjk [0x6700, 0x8fd1] @ ascii '' '') @ ascii (row_last_seen row) @ (if wide \<and> flows then ascii '' | '' else []) @
             (if wide \<and> flows then status else [])) frame1 in
      if spacing then traffic_line None [] frame2 else frame2)"

definition traffic_warning_lines :: "bytes option \<Rightarrow> nat \<Rightarrow> nat" where
  "traffic_warning_lines warning width =
     (let len = (case warning of None \<Rightarrow> 0 | Some w \<Rightarrow> length w) in
      if len = 0 \<or> width < 2 then 0
      else let count = (len + width - 2) div (width - 1) in if 3 < count then 3 else count)"

section \<open>Snapshot and view\<close>

record display_snapshot =
  sn_rows :: "traffic_row list"
  sn_rx_bytes :: u64
  sn_tx_bytes :: u64
  sn_rx_rate :: rat
  sn_tx_rate :: rat
  sn_elapsed_seconds :: rat
  sn_interval_seconds :: u32
  sn_timestamp :: bytes
  sn_protocol :: "bytes option"
  sn_filter :: "bytes option"
  sn_warning :: "bytes option"
  sn_history :: "traffic_history option"
  sn_flows :: bool

record traffic_display =
  td_active :: bool
  td_input_saved :: bool
  td_first_row :: nat
  td_history_scroll :: nat
  td_history_record :: "nat option"

text \<open>
  Keys.  A pointer to a record of the history is its position.
\<close>

fun read_key_loop :: "nat \<Rightarrow> u8 option list \<Rightarrow> u8 \<times> u8 option list" where
  "read_key_loop 0 input = (0, input)"
| "read_key_loop (Suc n) [] = (0, [])"
| "read_key_loop (Suc n) (None # input) = (0, input)"
| "read_key_loop (Suc n) (Some key # input) =
     (if key \<in> set (ascii ''pfhjkq'') then (key, input) else read_key_loop n input)"

text \<open>\<open>input\<close>: the answers of \<open>read\<close>, \<open>None\<close> when it does not return one byte.\<close>

definition traffic_display_read_key :: "traffic_display \<Rightarrow> u8 option list \<Rightarrow> u8 \<times> u8 option list" where
  "traffic_display_read_key d input =
     (if \<not> td_active d \<or> \<not> td_input_saved d then (0, input) else read_key_loop 64 input)"

definition key_of :: "char \<Rightarrow> u8" where
  "key_of c = of_char c"

definition traffic_display_key :: "traffic_display \<Rightarrow> display_snapshot \<Rightarrow> u8 \<Rightarrow> bool \<times> traffic_display \<times> display_snapshot" where
  "traffic_display_key d sn key =
     (if key = key_of CHR ''p'' \<or> key = key_of CHR ''f''
      then (True, d\<lparr>td_first_row := 0, td_history_scroll := 0, td_history_record := None\<rparr>, sn\<lparr>sn_flows := (key = key_of CHR ''f'')\<rparr>)
      else if key = key_of CHR ''h''
      then (True,
            (if td_history_record d \<noteq> None then d\<lparr>td_history_record := None\<rparr>
             else if td_first_row d < length (sn_rows sn) then d\<lparr>td_history_record := row_record (sn_rows sn ! td_first_row d)\<rparr>
             else d)\<lparr>td_history_scroll := 0\<rparr>, sn)
      else if key = key_of CHR ''j'' \<or> key = key_of CHR ''k''
      then (True,
            (if td_history_record d \<noteq> None then
               if key = key_of CHR ''k'' \<and> td_history_scroll d + 1 < TRAFFIC_HISTORY_SAMPLES
               then d\<lparr>td_history_scroll := td_history_scroll d + 1\<rparr>
               else if key = key_of CHR ''j'' \<and> td_history_scroll d \<noteq> 0
               then d\<lparr>td_history_scroll := td_history_scroll d - 1\<rparr> else d
             else if key = key_of CHR ''j'' \<and> td_first_row d + 1 < length (sn_rows sn)
             then d\<lparr>td_first_row := td_first_row d + 1\<rparr>
             else if key = key_of CHR ''k'' \<and> td_first_row d \<noteq> 0
             then d\<lparr>td_first_row := td_first_row d - 1\<rparr> else d), sn)
      else (False, d, sn))"

section \<open>The history of a row\<close>

text \<open>One sample, of the slot of its sequence number.\<close>

definition render_sample :: "print_float \<Rightarrow> nat \<Rightarrow> history_frame \<Rightarrow> history_sample \<Rightarrow> traffic_frame \<Rightarrow> traffic_frame" where
  "render_sample pf per_sample t s frame =
     (let rx = traffic_format_bytes pf (unat_rat (hs_rx_bytes s)) False; tx = traffic_format_bytes pf (unat_rat (hs_tx_bytes s)) False;
          rx_rate = traffic_format_bytes pf (traffic_bytes_per_second (hs_rx_bytes s) (hf_elapsed_ns t)) True;
          tx_rate = traffic_format_bytes pf (traffic_bytes_per_second (hs_tx_bytes s) (hf_elapsed_ns t)) True;
          head_text = ascii (hf_timestamp t) @ ascii '' | '' @ pf 2 (unat_rat (hf_elapsed_ns t) / 1000000000) @ ascii ''s'';
          avail = (\<lambda>x. if hs_available s then x else cjk [0x672a, 0x77e5]) in
      if per_sample = 1
      then traffic_line None (head_text @ ascii '' | RX '' @ avail rx @ ascii '' / '' @ avail rx_rate @ ascii '' | TX '' @
             avail tx @ ascii '' / '' @ avail tx_rate) frame
      else let f1 = traffic_line (Some COLOR_MUTED) head_text frame in
        if \<not> hs_available s
        then traffic_line None [] (traffic_line (Some COLOR_MUTED) (cjk [0x672c, 0x5468, 0x671f, 0x6570, 0x636e, 0x7f3a, 0x5931]) f1)
        else traffic_line (Some COLOR_TX) (ascii ''TX '' @ tx @ ascii '' | '' @ tx_rate)
               (traffic_line (Some COLOR_RX) (ascii ''RX '' @ rx @ ascii '' | '' @ rx_rate) f1))"

definition oldest_sequence :: "traffic_history \<Rightarrow> history_record \<Rightarrow> nat" where
  "oldest_sequence h r =
     (let oldest = (if TRAFFIC_HISTORY_SAMPLES \<le> unat (th_sequence h) then unat (th_sequence h) - TRAFFIC_HISTORY_SAMPLES + 1 else 1) in
      if oldest < unat (hr_born_sequence r) then unat (hr_born_sequence r) else oldest)"

text \<open>The loop from \<open>start\<close> to \<open>end\<close>.\<close>

definition render_samples :: "print_float \<Rightarrow> nat \<Rightarrow> traffic_history \<Rightarrow> history_record \<Rightarrow> nat \<Rightarrow> nat \<Rightarrow> traffic_frame \<Rightarrow> traffic_frame" where
  "render_samples pf per_sample h r start final frame =
     fold (\<lambda>q. let slot = (q - 1) mod TRAFFIC_HISTORY_SAMPLES in render_sample pf per_sample (th_frames h ! slot) (hr_samples r ! slot))
       [start..<final + 1] frame"

definition traffic_render_history ::
    "print_float \<Rightarrow> (nat \<Rightarrow> history_record) \<Rightarrow> nat \<Rightarrow> display_snapshot \<Rightarrow> traffic_display \<Rightarrow> traffic_frame \<Rightarrow> traffic_frame \<times> traffic_display" where
  "traffic_render_history pf deref p sn d frame =
     (let r = deref p; footer = (if fr_width frame < 40 then 3 else 2);
          detail = traffic_row_lines (hr_row r) (sn_flows sn) False False (fr_width frame);
          per_sample = (if 110 \<le> fr_width frame then 1 else 3);
          small = traffic_line (Some COLOR_MUTED) ((ascii ''h '' @ cjk [0x8fd4, 0x56de] @ ascii '' | q '' @ cjk [0x9000, 0x51fa])) (traffic_line (Some COLOR_MUTED) (cjk [0x8bf7, 0x653e, 0x5927, 0x7ec8, 0x7aef, 0x67e5, 0x770b, 0x5386, 0x53f2]) frame) in
      case sn_history sn of
        None \<Rightarrow> (small, d)
      | Some h \<Rightarrow>
          if th_sequence h = 0 \<or> fr_limit frame < fr_used frame + detail + 2 + footer then (small, d)
          else
            let f1 = traffic_render_row pf (hr_row r) (sn_flows sn) False False frame;
                f2 = traffic_line (Some COLOR_TITLE) ((cjk [0x5386, 0x53f2] @ ascii '': '' @ cjk [0x6700, 0x8fd1] @ ascii '' 60 '' @ cjk [0x6b21, 0x91c7, 0x6837])) f1;
                f3 = traffic_line (Some COLOR_MUTED) ((cjk [0x6536, 0x53d1, 0x91cf] @ ascii '' / '' @ cjk [0x901f, 0x7387] @ ascii '' | '' @ cjk [0x91c7, 0x6837, 0x7ed3, 0x675f, 0x65f6, 0x95f4])) f2;
                oldest = oldest_sequence h r;
                count = usub 64 (unat (th_sequence h)) oldest + 1;
                scroll = (if count \<le> td_history_scroll d then count - 1 else td_history_scroll d);
                final = usub 64 (unat (th_sequence h)) scroll;
                shown0 = usub 32 (usub 32 (fr_limit f3) (fr_used f3)) footer div per_sample;
                shown = (if usub 64 final oldest + 1 < shown0 then usub 64 final oldest + 1 else shown0);
                start = final - shown + 1;
                f4 = render_samples pf per_sample h r start final f3;
                f5 = traffic_line (Some COLOR_MUTED) ((cjk [0x5386, 0x53f2] @ ascii '' '') @ dec (if shown \<noteq> 0 then start - oldest + 1 else 0) @ ascii ''-'' @
                       dec (if shown \<noteq> 0 then final - oldest + 1 else 0) @ ascii ''/'' @ dec count) f4;
                f6 = (if fr_width frame < 40
                      then traffic_line (Some COLOR_MUTED) ((ascii ''h '' @ cjk [0x8fd4, 0x56de] @ ascii '' | q '' @ cjk [0x9000, 0x51fa])) (traffic_line (Some COLOR_MUTED) ((ascii ''k '' @ cjk [0x66f4, 0x65e9] @ ascii '' | j '' @ cjk [0x8f83, 0x65b0])) f5)
                      else traffic_line (Some COLOR_MUTED) ((ascii ''k '' @ cjk [0x66f4, 0x65e9] @ ascii '' | j '' @ cjk [0x8f83, 0x65b0] @ ascii '' | h '' @ cjk [0x8fd4, 0x56de] @ ascii '' | q '' @ cjk [0x9000, 0x51fa])) f5) in
            (f6, d\<lparr>td_history_scroll := scroll\<rparr>))"

section \<open>The frame\<close>

text \<open>\<open>window\<close>: rows and columns of \<open>TIOCGWINSZ\<close>, \<open>None\<close> when it fails.\<close>

definition initial_frame :: "(u16 \<times> u16) option \<Rightarrow> traffic_frame" where
  "initial_frame window =
     (let (rows, cols) = (case window of None \<Rightarrow> (0, 0) | Some w \<Rightarrow> w) in
      \<lparr>fr_width = (if cols \<noteq> 0 then unat cols else 80), fr_limit = (if rows \<noteq> 0 then unat rows - 1 else 23), fr_used = 0, fr_out = []\<rparr>)"

definition footer_lines :: "traffic_display \<Rightarrow> nat \<Rightarrow> nat" where
  "footer_lines d width =
     (if width < 44 then 2 else 1) + (if width < 64 then 2 else 1) + (if td_input_saved d \<and> width < 64 then 2 else 1)"

definition render_head :: "print_float \<Rightarrow> display_snapshot \<Rightarrow> traffic_frame \<Rightarrow> traffic_frame" where
  "render_head pf sn frame =
     traffic_line (Some COLOR_MUTED) ((cjk [0x65f6, 0x95f4] @ ascii '' '') @ sn_timestamp sn)
       (traffic_line (Some COLOR_MUTED)
          ((case sn_filter sn of None \<Rightarrow> ascii ''All processes'' | Some f \<Rightarrow> f) @ ascii '' | every '' @
            dec (unat (sn_interval_seconds sn)) @ ascii ''s'')
          (traffic_line (Some COLOR_TITLE)
             ((if sn_flows sn then ascii ''THREAD VIEW'' else ascii ''PROCESS VIEW'') @ ascii ''  '' @
               (case sn_protocol sn of None \<Rightarrow> ascii ''TCP/UDP'' | Some p \<Rightarrow> p) @ ascii ''  '' @ pf 0 (sn_elapsed_seconds sn) @ ascii ''s'')
             frame))"

definition render_summary :: "print_float \<Rightarrow> display_snapshot \<Rightarrow> traffic_frame \<Rightarrow> traffic_frame" where
  "render_summary pf sn frame =
     (let rx = traffic_format_bytes pf (sn_rx_rate sn) True; tx = traffic_format_bytes pf (sn_tx_rate sn) True;
          rx_total = traffic_format_bytes pf (unat_rat (sn_rx_bytes sn)) False; tx_total = traffic_format_bytes pf (unat_rat (sn_tx_bytes sn)) False in
      traffic_line None ((cjk [0x7d2f, 0x8ba1, 0x53d1, 0x9001] @ ascii ''  '') @ tx_total)
        (traffic_line None ((cjk [0x7d2f, 0x8ba1, 0x63a5, 0x6536] @ ascii ''  '') @ rx_total)
          (traffic_line (Some COLOR_MUTED) (cjk [0x672c, 0x6b21, 0x7d2f, 0x8ba1])
            (traffic_line (Some COLOR_TX) (ascii ''TX  '' @ tx)
              (traffic_line (Some COLOR_RX) (ascii ''RX  '' @ rx)
                (traffic_line (Some COLOR_TITLE) (cjk [0x5f53, 0x524d, 0x901f, 0x7387]) frame))))))"

definition column_titles :: "bool \<Rightarrow> bool \<Rightarrow> bytes" where
  "column_titles wide flows =
     (if wide \<and> flows
      then pad_right 7 (ascii ''TID'') @ ascii '' '' @ pad_right 16 (ascii ''THREAD'') @ ascii '' '' @ pad_right 7 (ascii ''PID'') @ ascii '' '' @
           pad_right 3 (ascii ''P'') @ (ascii ''     '' @ cjk [0x63a5, 0x6536, 0x901f, 0x7387] @ ascii ''     '' @ cjk [0x53d1, 0x9001, 0x901f, 0x7387] @ ascii ''    '' @ cjk [0x7d2f, 0x8ba1, 0x63a5, 0x6536] @ ascii ''    '' @ cjk [0x7d2f, 0x8ba1, 0x53d1, 0x9001])
      else if wide
      then pad_right 7 (ascii ''PID'') @ ascii '' '' @ pad_right 16 (ascii ''COMMAND'') @ (ascii ''     '' @ cjk [0x63a5, 0x6536, 0x901f, 0x7387] @ ascii ''     '' @ cjk [0x53d1, 0x9001, 0x901f, 0x7387] @ ascii ''    '' @ cjk [0x7d2f, 0x8ba1, 0x63a5, 0x6536] @ ascii ''    '' @ cjk [0x7d2f, 0x8ba1, 0x53d1, 0x9001] @ ascii '' '') @ cjk [0x72b6, 0x6001]
      else (cjk [0x660e, 0x7ec6] @ ascii '': '' @ cjk [0x5f53, 0x524d, 0x901f, 0x7387] @ ascii '' | '' @ cjk [0x7d2f, 0x8ba1, 0x91cf]))"

text \<open>The rows that fit, from the first one shown.\<close>

fun render_rows :: "print_float \<Rightarrow> bool \<Rightarrow> bool \<Rightarrow> bool \<Rightarrow> traffic_row list \<Rightarrow> nat \<Rightarrow> nat \<Rightarrow> traffic_frame \<Rightarrow> nat \<times> nat \<times> traffic_frame" where
  "render_rows pf flows wide spacing [] available shown frame = (available, shown, frame)"
| "render_rows pf flows wide spacing (row # rows) available shown frame =
     (let lines = traffic_row_lines row flows wide spacing (fr_width frame) in
      if available < lines then (available, shown, frame)
      else render_rows pf flows wide spacing rows (available - lines) (shown + 1) (traffic_render_row pf row flows wide spacing frame))"

definition render_counts :: "nat \<Rightarrow> nat \<Rightarrow> nat \<Rightarrow> traffic_frame \<Rightarrow> traffic_frame" where
  "render_counts first shown n_rows frame =
     (let low = dec (if shown \<noteq> 0 then first + 1 else 0); high = dec (if shown \<noteq> 0 then first + shown else 0);
          span_text = (cjk [0x8bb0, 0x5f55] @ ascii '' '') @ low @ ascii ''-'' @ high @ ascii ''/'' @ dec n_rows;
          hidden = (cjk [0x672a, 0x663e, 0x793a] @ ascii '' '') @ dec (usub 64 n_rows shown) @ (ascii '' '' @ cjk [0x6761]) in
      if fr_width frame < 44
      then traffic_line (Some COLOR_MUTED) hidden (traffic_line (Some COLOR_MUTED) span_text frame)
      else traffic_line (Some COLOR_MUTED) (span_text @ ascii '' | '' @ hidden) frame)"

definition render_warning :: "bytes option \<Rightarrow> nat \<Rightarrow> traffic_frame \<Rightarrow> traffic_frame" where
  "render_warning warning n frame =
     (case warning of
        None \<Rightarrow> frame
      | Some w \<Rightarrow>
          fold (\<lambda>i f. let suffix = drop (i * (fr_width frame - 1)) w in
             traffic_line (Some COLOR_MUTED) (if i + 1 = n then suffix else take (fr_width frame - 1) suffix) f) [0..<n] frame)"

definition render_controls :: "traffic_display \<Rightarrow> traffic_frame \<Rightarrow> traffic_frame" where
  "render_controls d frame =
     (let f1 = (if fr_width frame < 64
                then traffic_line (Some COLOR_MUTED) ((cjk [0x542b] @ ascii '' TLS '' @ cjk [0x5f00, 0x9500, 0x53ca] @ ascii '' PEEK '' @ cjk [0x8bfb, 0x53d6])) (traffic_line (Some COLOR_MUTED) ((cjk [0x7edf, 0x8ba1] @ ascii '': Socket '' @ cjk [0x6536, 0x53d1, 0x5b57, 0x8282])) frame)
                else traffic_line (Some COLOR_MUTED) ((cjk [0x7edf, 0x8ba1] @ ascii '': Socket '' @ cjk [0x6536, 0x53d1, 0x5b57, 0x8282] @ ascii ''; '' @ cjk [0x542b] @ ascii '' TLS '' @ cjk [0x5f00, 0x9500, 0x53ca] @ ascii '' PEEK '' @ cjk [0x8bfb, 0x53d6])) frame) in
      if td_input_saved d \<and> fr_width frame < 64
      then traffic_line (Some COLOR_MUTED) ((ascii ''j/k '' @ cjk [0x6eda, 0x52a8] @ ascii '' | q '' @ cjk [0x9000, 0x51fa])) (traffic_line (Some COLOR_MUTED) ((ascii ''p '' @ cjk [0x8fdb, 0x7a0b] @ ascii '' | f '' @ cjk [0x7ebf, 0x7a0b] @ ascii '' | h '' @ cjk [0x5386, 0x53f2])) f1)
      else traffic_line (Some COLOR_MUTED)
             (if td_input_saved d then (ascii ''p '' @ cjk [0x8fdb, 0x7a0b] @ ascii '' | f '' @ cjk [0x7ebf, 0x7a0b] @ ascii '' | h '' @ cjk [0x5386, 0x53f2] @ ascii '' | j/k '' @ cjk [0x6eda, 0x52a8] @ ascii '' | q '' @ cjk [0x9000, 0x51fa]) else (ascii ''Ctrl-C '' @ cjk [0x505c, 0x6b62])) f1)"

definition render_body :: "print_float \<Rightarrow> display_snapshot \<Rightarrow> traffic_display \<Rightarrow> bool \<Rightarrow> bool \<Rightarrow> traffic_frame \<Rightarrow> traffic_frame \<times> traffic_display" where
  "render_body pf sn d wide spacing f2 =
     (let n_rows = length (sn_rows sn); footer = footer_lines d (fr_width f2);
          room = usub 32 (usub 32 (fr_limit f2) (fr_used f2)) footer;
          warning0 = traffic_warning_lines (sn_warning sn) (fr_width f2);
          warning = (if room < warning0 then room else warning0);
          available = (if fr_used f2 + warning + footer < fr_limit f2 then fr_limit f2 - fr_used f2 - warning - footer else 0);
          first = (if n_rows = 0 then 0 else if n_rows \<le> td_first_row d then n_rows - 1 else td_first_row d);
          (available1, shown, f3) = render_rows pf (sn_flows sn) wide spacing (drop first (sn_rows sn)) available 0 f2;
          f4 = (if n_rows = 0 \<and> available1 \<noteq> 0 then traffic_line (Some COLOR_MUTED) ((cjk [0x7b49, 0x5f85] @ ascii '' Socket '' @ cjk [0x6536, 0x53d1] @ ascii ''...'')) f3 else f3);
          f5 = render_counts first shown n_rows f4;
          f6 = render_warning (sn_warning sn) warning f5 in
      (render_controls d f6, d\<lparr>td_first_row := first\<rparr>))"

definition render_details :: "print_float \<Rightarrow> display_snapshot \<Rightarrow> traffic_display \<Rightarrow> traffic_frame \<Rightarrow> traffic_frame \<times> traffic_display" where
  "render_details pf sn d frame =
     (let f1 = render_summary pf sn frame;
          wide = ((if sn_flows sn then 110 else 100) \<le> fr_width f1); spacing = (\<not> wide \<and> 30 \<le> fr_limit f1);
          f2 = traffic_line (Some COLOR_MUTED) (column_titles wide (sn_flows sn)) f1 in
      render_body pf sn d wide spacing f2)"

definition traffic_display_render ::
    "print_float \<Rightarrow> (u16 \<times> u16) option \<Rightarrow> (nat \<Rightarrow> history_record) \<Rightarrow> display_snapshot option \<Rightarrow> traffic_display \<Rightarrow> traffic_frame option \<times> traffic_display" where
  "traffic_display_render pf window deref snapshot d =
     (case snapshot of
        None \<Rightarrow> (None, d)
      | Some sn \<Rightarrow>
          if \<not> td_active d then (None, d)
          else
            let f0 = initial_frame window; f1 = traffic_line (Some COLOR_TITLE) (ascii ''ANETTRACE / TRAFFIC LAB'') f0 in
            if fr_width f1 < 32 \<or> fr_limit f1 < 12 + footer_lines d (fr_width f1)
            then (Some (traffic_line (Some COLOR_MUTED) (if td_input_saved d then (ascii ''q '' @ cjk [0x9000, 0x51fa]) else (ascii ''Ctrl-C '' @ cjk [0x505c, 0x6b62]))
                          (traffic_line (Some COLOR_MUTED) (cjk [0x8bf7, 0x653e, 0x5927, 0x7ec8, 0x7aef]) f1)), d)
            else
              let f2 = render_head pf sn f1 in
              (case td_history_record d of
                 Some p \<Rightarrow> (case traffic_render_history pf deref p sn d f2 of (f, d1) \<Rightarrow> (Some f, d1))
               | None \<Rightarrow> (case render_details pf sn d f2 of (f, d1) \<Rightarrow> (Some f, d1))))"

section \<open>Opening and closing\<close>

record display_env =
  de_stdout_tty :: bool
  de_term :: "string option"
  de_stdin_tty :: bool
  de_tcgetattr_ok :: bool
  de_tcsetattr_ok :: bool

definition traffic_display_open :: "display_env \<Rightarrow> traffic_display \<Rightarrow> bool \<times> traffic_display" where
  "traffic_display_open env d =
     (if td_active d then (True, d)
      else if \<not> de_stdout_tty env \<or> de_term env = None \<or> de_term env = Some [] \<or> de_term env = Some ''dumb'' then (False, d)
      else (True, (if de_stdin_tty env \<and> de_tcgetattr_ok env then d\<lparr>td_input_saved := de_tcsetattr_ok env\<rparr> else d)\<lparr>td_active := True\<rparr>))"

text \<open>Whether the terminal settings are restored, the screen is left, and the new state.\<close>

definition traffic_display_close :: "traffic_display \<Rightarrow> bool \<times> bool \<times> traffic_display" where
  "traffic_display_close d = (td_input_saved d, td_active d, d\<lparr>td_input_saved := False, td_active := False\<rparr>)"

end
