(* ===== verification/DisplayPage.thy ===== *)
theory DisplayPage
  imports TrafficDisplay
begin

text \<open>
  What the terminal view shows: a line as whole visible characters inside the width, a frame as the page of
  its parts, rows and endpoints in full, and the samples of a record from the slots of their periods.
\<close>

section \<open>What a line shows\<close>

text \<open>A character as it is shown: its bytes and its cells.\<close>

type_synonym glyph = "bytes \<times> nat"

definition visible :: "glyph \<Rightarrow> bool" where
  "visible g \<longleftrightarrow> (\<exists>c. g = ([c], 1) \<and> 32 \<le> c \<and> c \<le> 126) \<or> (\<exists>a b c. g = ([a, b, c], 2) \<and> traffic_character_cells [a, b, c] = (3, 2))"

function glyphs :: "bytes \<Rightarrow> glyph list" where
  "glyphs t =
     (if t = [] then []
      else case traffic_character_cells t of (b, cells) \<Rightarrow>
        ((if cells = 2 \<or> 32 \<le> hd t \<and> hd t \<le> 126 then take b t else [63]), cells) # glyphs (drop b t))"
  by auto
termination
  by (relation "measure length") (auto dest: cells_drop)

declare glyphs.simps [simp del]

definition cells_of :: "glyph list \<Rightarrow> nat" where
  "cells_of gs = sum_list (map snd gs)"

definition glyph_text :: "glyph list \<Rightarrow> bytes" where
  "glyph_text gs = concat (map fst gs)"

lemma cells_of_simps [simp]: "cells_of [] = 0" "cells_of (g # gs) = snd g + cells_of gs" "cells_of (gs @ hs) = cells_of gs + cells_of hs"
  by (simp_all add: cells_of_def)

lemma glyph_text_simps [simp]: "glyph_text [] = []" "glyph_text (g # gs) = fst g @ glyph_text gs" "glyph_text (gs @ hs) = glyph_text gs @ glyph_text hs"
  by (simp_all add: glyph_text_def)

lemma glyphs_Nil [simp]: "glyphs [] = []"
  by (simp add: glyphs.simps)

lemma cells_three: "traffic_character_cells t = (3, 2) \<Longrightarrow> \<exists>a b c r. t = a # b # c # r \<and> traffic_character_cells [a, b, c] = (3, 2)"
  by (auto simp: traffic_character_cells_def Let_def split: list.splits if_splits)

lemma glyphs_cons:
  assumes "t \<noteq> []"
  obtains (one) c r where "t = c # r" "traffic_character_cells t = (1, 1)" "glyphs t = ([if 32 \<le> c \<and> c \<le> 126 then c else 63], 1) # glyphs r"
  | (three) a b c r where "t = a # b # c # r" "traffic_character_cells t = (3, 2)" "glyphs t = ([a, b, c], 2) # glyphs r" "traffic_character_cells [a, b, c] = (3, 2)"
proof -
  show ?thesis
    using cells_cases [of t]
  proof
    assume h: "traffic_character_cells t = (1, 1)"
    obtain c r where t: "t = c # r"
      using assms by (cases t) auto
    then have "glyphs t = ([if 32 \<le> c \<and> c \<le> 126 then c else 63], 1) # glyphs r"
      using h glyphs.simps [of t] by simp
    then show ?thesis
      using one t h by blast
  next
    assume h: "traffic_character_cells t = (3, 2) \<and> 3 \<le> length t"
    obtain a b c r where t: "t = a # b # c # r" "traffic_character_cells [a, b, c] = (3, 2)"
      using cells_three h by blast
    then have "glyphs t = ([a, b, c], 2) # glyphs r"
      using h glyphs.simps [of t] by (simp add: eval_nat_numeral)
    then show ?thesis
      using three t h by blast
  qed
qed

lemma glyphs_visible: "g \<in> set (glyphs t) \<Longrightarrow> visible g"
proof (induction t rule: length_induct)
  case (1 t)
  show ?case
  proof (cases "t = []")
    case False
    then show ?thesis
    proof (cases rule: glyphs_cons)
      case (one c r)
      then have "g \<in> set (glyphs r) \<Longrightarrow> visible g"
        using 1(1) [rule_format, of r] by simp
      moreover have "visible ([if 32 \<le> c \<and> c \<le> 126 then c else 63], 1)"
        by (simp add: visible_def)
      ultimately show ?thesis
        using 1 one by auto
    next
      case (three a b c r)
      then have "g \<in> set (glyphs r) \<Longrightarrow> visible g"
        using 1(1) [rule_format, of r] by simp
      moreover have "visible ([a, b, c], 2)"
        using three by (simp add: visible_def)
      ultimately show ?thesis
        using 1 three by auto
    qed
  qed (use 1 in simp)
qed

lemma glyphs_length: "length (glyph_text (glyphs t)) = length t"
proof (induction t rule: length_induct)
  case (1 t)
  show ?case
  proof (cases "t = []")
    case False
    then show ?thesis
      by (cases rule: glyphs_cons) (use 1 in auto)
  qed simp
qed

lemma visible_cells: "visible g \<Longrightarrow> 0 < snd g \<and> snd g \<le> length (fst g) \<and> length (fst g) \<le> 2 * snd g"
  by (auto simp: visible_def)

lemma text_cells_le: "\<forall>g \<in> set gs. visible g \<Longrightarrow> cells_of gs \<le> length (glyph_text gs)"
proof (induction gs)
  case (Cons g gs)
  then have "visible g" "cells_of gs \<le> length (glyph_text gs)"
    by simp_all
  then show ?case
    using visible_cells [of g] by simp
qed simp

text \<open>The longest start of a text that leaves \<open>k\<close> cells of the line.\<close>

fun fitting :: "nat \<Rightarrow> nat \<Rightarrow> glyph list \<Rightarrow> glyph list" where
  "fitting k n [] = []"
| "fitting k n (g # gs) = (if snd g + k \<le> n then g # fitting k (n - snd g) gs else [])"

lemma fitting_prefix: "\<exists>r. gs = fitting k n gs @ r"
  by (induction gs arbitrary: n) auto

lemma fitting_cells: "k \<le> n \<Longrightarrow> cells_of (fitting k n gs) + k \<le> n"
  by (induction gs arbitrary: n) (auto, (metis Nat.le_diff_conv2 add.assoc add.commute add_leD1 le_diff_conv2)+)

lemma fitting_short: "n < k \<Longrightarrow> fitting k n gs = []"
  by (cases gs) auto

lemma fitting_all: "cells_of gs + k \<le> n \<Longrightarrow> fitting k n gs = gs"
  by (induction gs arbitrary: n) auto

lemma fitting_done: "\<forall>g \<in> set gs. visible g \<Longrightarrow> n = 0 \<or> n < k \<Longrightarrow> fitting k n gs = []"
  using visible_cells by (cases gs) fastforce+

lemma fitting_step:
  assumes "\<forall>h \<in> set (g # gs). visible h"
  shows "fitting k (n - c) (g # gs) = (if c + snd g + k \<le> n then g # fitting k (n - (c + snd g)) gs else [])"
    and "\<not> c + snd g + k \<le> n \<Longrightarrow> fitting k (n - (c + snd g)) gs = []"
proof -
  have "0 < snd g"
    using assms visible_cells [of g] by simp
  then show "fitting k (n - c) (g # gs) = (if c + snd g + k \<le> n then g # fitting k (n - (c + snd g)) gs else [])"
    by auto
  show "fitting k (n - (c + snd g)) gs = []" if "\<not> c + snd g + k \<le> n"
    using assms that by (intro fitting_done) auto
qed

lemma clean_loop_step:
  assumes "t \<noteq> []" and "traffic_character_cells t = (b, cells)" and "clean1 = clean @ (if cells = 2 \<or> 32 \<le> hd t \<and> hd t \<le> 126 then take b t else [63])"
  shows "clean_loop av t clean col fit ell =
    clean_loop av (drop b t) clean1 (col + cells) (if col + cells \<le> av then length clean1 else fit) (if col + cells + 3 \<le> av then length clean1 else ell)"
  using assms by (subst clean_loop.simps) (simp add: Let_def)

text \<open>One character of the loop, in terms of the characters of the text.\<close>

lemma clean_loop_glyph:
  assumes "glyphs t = g # gs" and "t \<noteq> []"
  shows "\<exists>r. length r < length t \<and> glyphs r = gs \<and>
    (\<forall>clean col fit ell. clean_loop av t clean col fit ell =
      clean_loop av r (clean @ fst g) (col + snd g) (if col + snd g \<le> av then length (clean @ fst g) else fit) (if col + snd g + 3 \<le> av then length (clean @ fst g) else ell))"
  using assms(2)
proof (cases rule: glyphs_cons)
  case (one c r)
  then show ?thesis
    using assms clean_loop_step [OF assms(2) one(2)] by (intro exI [of _ r]) auto
next
  case (three a b c r)
  then show ?thesis
    using assms clean_loop_step [OF assms(2) three(2)] by (intro exI [of _ r]) (auto simp: eval_nat_numeral)
qed

lemma clean_loop_eq:
  "clean_loop av t clean col fit ell =
     (clean @ glyph_text (glyphs t), col + cells_of (glyphs t),
      if fitting 0 (av - col) (glyphs t) = [] then fit else length clean + length (glyph_text (fitting 0 (av - col) (glyphs t))),
      if fitting 3 (av - col) (glyphs t) = [] then ell else length clean + length (glyph_text (fitting 3 (av - col) (glyphs t))))"
proof (induction "glyphs t" arbitrary: t clean col fit ell)
  case Nil
  then have "t = []"
    by (metis glyphs_length glyph_text_simps(1) length_0_conv)
  then show ?case
    by (simp add: clean_loop.simps)
next
  case (Cons g gs)
  then have "t \<noteq> []"
    by auto
  then obtain r where r: "glyphs r = gs" "\<And>clean col fit ell. clean_loop av t clean col fit ell =
      clean_loop av r (clean @ fst g) (col + snd g) (if col + snd g \<le> av then length (clean @ fst g) else fit) (if col + snd g + 3 \<le> av then length (clean @ fst g) else ell)"
    using clean_loop_glyph [of t g gs av] Cons(2) by metis
  have v: "\<forall>h \<in> set (g # gs). visible h"
    using glyphs_visible [of _ t] Cons(2) by auto
  note ih = Cons(1) [OF r(1) [symmetric]]
  have f0: "fitting 0 (av - col) (g # gs) = (if col + snd g \<le> av then g # fitting 0 (av - (col + snd g)) gs else [])"
      "\<not> col + snd g \<le> av \<Longrightarrow> fitting 0 (av - (col + snd g)) gs = []"
    using fitting_step(1) [OF v, of 0 av col] fitting_step(2) [OF v, where k = 0 and n = av and c = col] by simp_all
  have f3: "fitting 3 (av - col) (g # gs) = (if col + snd g + 3 \<le> av then g # fitting 3 (av - (col + snd g)) gs else [])"
      "\<not> col + snd g + 3 \<le> av \<Longrightarrow> fitting 3 (av - (col + snd g)) gs = []"
    using fitting_step(1) [OF v, of 3 av col] fitting_step(2) [OF v, where k = 3 and n = av and c = col] by simp_all
  show ?case
    unfolding r(2) ih r(1) Cons(2) [symmetric] f0(1) f3(1) using f0(2) f3(2) by simp
qed

lemma take_glyphs: "take (length (glyph_text (fitting k n gs))) (glyph_text gs) = glyph_text (fitting k n gs)"
proof -
  obtain r where "gs = fitting k n gs @ r"
    using fitting_prefix by blast
  then have "glyph_text gs = glyph_text (fitting k n gs) @ glyph_text r"
    by (metis glyph_text_simps(3))
  then show ?thesis
    by simp
qed

text \<open>A line that is too long is cut behind a whole character and ends in an ellipsis if there is room for one.\<close>

definition shown_glyphs :: "nat \<Rightarrow> bytes \<Rightarrow> glyph list" where
  "shown_glyphs width t =
     (let gs = glyphs t; n = width - 1 in
      if cells_of gs \<le> n then gs
      else if 3 \<le> n then fitting 3 n gs @ [([46], 1), ([46], 1), ([46], 1)] else fitting 0 n gs)"

lemma clean_line_eq: "clean_line width t = glyph_text (shown_glyphs width t)"
proof -
  have av: "(if width \<noteq> 0 then usub 32 width 1 else 0) = width - 1"
    by (simp add: usub_def)
  show ?thesis
    unfolding clean_line_def av Let_def clean_loop_eq shown_glyphs_def
    using take_glyphs [of 3 "width - 1" "glyphs t"] take_glyphs [of 0 "width - 1" "glyphs t"] by auto
qed

lemma shown_cells: "cells_of (shown_glyphs width t) \<le> width - 1"
  using fitting_cells [of 3 "width - 1" "glyphs t"] fitting_cells [of 0 "width - 1" "glyphs t"] by (auto simp: shown_glyphs_def Let_def)

lemma shown_visible: "g \<in> set (shown_glyphs width t) \<Longrightarrow> visible g"
proof -
  have "set (fitting k n gs) \<subseteq> set gs" for k n and gs :: "glyph list"
    using fitting_prefix [of gs k n] by (metis set_append sup.cobounded1)
  moreover have "visible ([46], 1)"
    by (simp add: visible_def)
  ultimately show "g \<in> set (shown_glyphs width t) \<Longrightarrow> visible g"
    using glyphs_visible [of g t] by (auto simp: shown_glyphs_def Let_def split: if_splits)
qed

lemma shown_length: "length (glyph_text (shown_glyphs width t)) \<le> length t"
proof -
  have pre: "length (glyph_text (fitting k n (glyphs t))) \<le> length t" for k n
    using fitting_prefix [of "glyphs t" k n] glyphs_length [of t] by (metis glyph_text_simps(3) le_add1 length_append)
  have "length (glyph_text (fitting 3 (width - 1) (glyphs t))) + 3 \<le> length t" if h: "width - 1 < cells_of (glyphs t)" "3 \<le> width - 1"
  proof -
    obtain r where r: "glyphs t = fitting 3 (width - 1) (glyphs t) @ r"
      using fitting_prefix by blast
    have "3 < cells_of r"
      using h r fitting_cells [OF h(2), of "glyphs t"] by (metis add_le_cancel_left cells_of_simps(3) leD le_trans linorder_not_less)
    moreover have "cells_of r \<le> length (glyph_text r)"
      using glyphs_visible r by (intro text_cells_le) (metis UnCI set_append)
    moreover have "length t = length (glyph_text (fitting 3 (width - 1) (glyphs t))) + length (glyph_text r)"
      using glyphs_length [of t] r by (metis glyph_text_simps(3) length_append)
    ultimately show ?thesis
      by simp
  qed
  then show ?thesis
    using pre glyphs_length [of t] by (auto simp: shown_glyphs_def Let_def)
qed

section \<open>A frame as a page of lines\<close>

text \<open>
  The reference for the renderer: the lines of each part as a list, written one after the other.
\<close>

type_synonym page = "(color option \<times> bytes) list"

definition emit :: "page \<Rightarrow> traffic_frame \<Rightarrow> traffic_frame" where
  "emit ls f = fold (\<lambda>(c, t). traffic_line c t) ls f"

lemma emit_simps [simp]: "emit [] f = f" "emit (l # ls) f = emit ls (traffic_line (fst l) (snd l) f)" "emit (ks @ ls) f = emit ls (emit ks f)"
  by (simp_all add: emit_def split_beta)

lemma line_emit: "traffic_line c t f = emit [(c, t)] f"
  by simp

lemma line_frame [simp]: "fr_width (traffic_line c t f) = fr_width f" "fr_limit (traffic_line c t f) = fr_limit f"
  by (simp_all add: traffic_line_def)

lemma emit_frame [simp]: "fr_width (emit ls f) = fr_width f" "fr_limit (emit ls f) = fr_limit f"
  by (induction ls arbitrary: f) auto

definition shown_line :: "nat \<Rightarrow> color option \<times> bytes \<Rightarrow> color option \<times> bytes" where
  "shown_line width l = (fst l, clean_line width (take 1023 (snd l)))"

text \<open>Lines beyond the limit are dropped; a page that fits is shown completely.\<close>

lemma emit_out:
  assumes "fr_used f = length (fr_out f)"
  shows "fr_out (emit ls f) = fr_out f @ map (shown_line (fr_width f)) (take (fr_limit f - fr_used f) ls) \<and>
    fr_used (emit ls f) = length (fr_out (emit ls f))"
  using assms
proof (induction ls arbitrary: f)
  case (Cons l ls)
  have "fr_used (traffic_line (fst l) (snd l) f) = length (fr_out (traffic_line (fst l) (snd l) f))"
    using Cons.prems by (simp add: traffic_line_def)
  note ih = Cons.IH [OF this]
  show ?case
  proof (cases "fr_used f < fr_limit f")
    case True
    then obtain k where k: "fr_limit f - fr_used f = Suc k" "fr_limit f - Suc (fr_used f) = k"
      by (metis Suc_diff_Suc)
    then show ?thesis
      using ih True by (simp add: traffic_line_def shown_line_def)
  qed (use ih in \<open>simp add: traffic_line_def\<close>)
qed simp

lemma emit_fits:
  assumes "fr_used f = length (fr_out f)" and "fr_used f + length ls \<le> fr_limit f"
  shows "fr_out (emit ls f) = fr_out f @ map (shown_line (fr_width f)) ls" and "fr_used (emit ls f) = fr_used f + length ls"
  using emit_out [OF assms(1), of ls] assms by auto

text \<open>Endpoints.\<close>

function pieces :: "nat \<Rightarrow> bytes \<Rightarrow> bytes list" where
  "pieces chunk s = (if length s \<le> chunk \<or> chunk = 0 then [take chunk s] else take chunk s # pieces chunk (drop chunk s))"
  by auto
termination
  by (relation "measure (\<lambda>(chunk, s). length s)") auto

declare pieces.simps [simp del]

fun label_pieces :: "bytes \<Rightarrow> bytes list \<Rightarrow> page" where
  "label_pieces label [] = []"
| "label_pieces label (p # ps) = (Some COLOR_MUTED, pad_right 7 label @ p) # map (\<lambda>q. (Some COLOR_MUTED, pad_right 7 [] @ q)) ps"

definition endpoint_page :: "nat \<Rightarrow> bytes \<Rightarrow> bytes \<Rightarrow> page" where
  "endpoint_page width label endpoint = label_pieces label (pieces (width - 8) endpoint)"

lemma endpoint_loop_emit:
  "render_endpoint_loop chunk label rest first f =
     (if first then emit (label_pieces label (pieces chunk rest)) f
      else emit (map (\<lambda>q. (Some COLOR_MUTED, pad_right 7 [] @ q)) (pieces chunk rest)) f)"
proof (induction "length rest" arbitrary: rest first f rule: less_induct)
  case less
  show ?case
  proof (cases "length rest \<le> chunk \<or> chunk = 0")
    case True
    then show ?thesis
      by (subst render_endpoint_loop.simps, subst (1 2) pieces.simps) auto
  next
    case False
    then have "render_endpoint_loop chunk label rest first f =
        render_endpoint_loop chunk label (drop chunk rest) False
          (traffic_line (Some COLOR_MUTED) (pad_right 7 (if first then label else []) @ take chunk rest) f)"
      by (subst render_endpoint_loop.simps) (simp add: Let_def)
    also have "\<dots> = emit (map (\<lambda>q. (Some COLOR_MUTED, pad_right 7 [] @ q)) (pieces chunk (drop chunk rest)))
          (traffic_line (Some COLOR_MUTED) (pad_right 7 (if first then label else []) @ take chunk rest) f)"
      by (subst less) (use False in auto)
    also have "pieces chunk rest = take chunk rest # pieces chunk (drop chunk rest)"
      using False by (subst pieces.simps) simp
    then have "emit (map (\<lambda>q. (Some COLOR_MUTED, pad_right 7 [] @ q)) (pieces chunk (drop chunk rest)))
          (traffic_line (Some COLOR_MUTED) (pad_right 7 (if first then label else []) @ take chunk rest) f) =
        (if first then emit (label_pieces label (pieces chunk rest)) f
         else emit (map (\<lambda>q. (Some COLOR_MUTED, pad_right 7 [] @ q)) (pieces chunk rest)) f)"
      by simp
    finally show ?thesis .
  qed
qed

lemma endpoint_emit: "8 \<le> fr_width f \<Longrightarrow> traffic_render_endpoint label endpoint f = emit (endpoint_page (fr_width f) label endpoint) f"
  by (simp add: traffic_render_endpoint_def endpoint_loop_emit endpoint_page_def usub_def)

lemma pieces_length: "0 < chunk \<Longrightarrow> length (pieces chunk s) = (if s = [] then 1 else (length s + chunk - 1) div chunk)"
proof (induction "length s" arbitrary: s rule: less_induct)
  case less
  show ?case
  proof (cases "length s \<le> chunk")
    case True
    have "(length s + chunk - 1) div chunk = 1" if "s \<noteq> []"
    proof -
      have "length s + chunk - 1 = chunk + (length s - 1)" "length s - 1 < chunk"
        using that True less.prems by (cases s; simp)+
      then show ?thesis
        using less.prems by (simp only: div_add_self1) simp
    qed
    then show ?thesis
      using True by (simp add: pieces.simps)
  next
    case False
    then have "length (pieces chunk s) = 1 + length (pieces chunk (drop chunk s))"
      using less.prems by (subst pieces.simps) simp
    also have "\<dots> = 1 + (length s - chunk + chunk - 1) div chunk"
      using False less by simp
    also have "\<dots> = (length s + chunk - 1) div chunk"
    proof -
      have "length s + chunk - 1 = (length s - chunk + chunk - 1) + chunk"
        using False by simp
      then show ?thesis
        using less.prems by (metis add.commute div_add_self2 less_numeral_extra(3))
    qed
    finally show ?thesis
      using False by auto
  qed
qed

lemma endpoint_page_length: "32 \<le> width \<Longrightarrow> length (endpoint_page width label endpoint) = traffic_endpoint_lines endpoint width"
proof -
  assume w: "32 \<le> width"
  have "length (label_pieces label ps) = length ps" for ps
    by (cases ps) auto
  then show ?thesis
    using w pieces_length [of "width - 8" endpoint] by (simp add: endpoint_page_def traffic_endpoint_lines_def usub_def Let_def)
qed

lemma pieces_concat: "0 < chunk \<Longrightarrow> concat (pieces chunk s) = s"
proof (induction "length s" arbitrary: s rule: less_induct)
  case less
  then show ?case
    by (subst pieces.simps) auto
qed

lemma pieces_short: "p \<in> set (pieces chunk s) \<Longrightarrow> length p \<le> chunk"
proof (induction "length s" arbitrary: s rule: less_induct)
  case less
  show ?case
  proof (cases "length s \<le> chunk \<or> chunk = 0")
    case True
    then show ?thesis
      using less.prems by (auto simp: pieces.simps)
  next
    case False
    then have "p = take chunk s \<or> p \<in> set (pieces chunk (drop chunk s))"
      using less.prems by (subst (asm) pieces.simps) simp
    then show ?thesis
      using less.hyps [of "drop chunk s"] False by auto
  qed
qed

text \<open>The lines of a row.\<close>

definition row_page :: "print_float \<Rightarrow> nat \<Rightarrow> traffic_row \<Rightarrow> bool \<Rightarrow> bool \<Rightarrow> bool \<Rightarrow> page" where
  "row_page pf width row flows wide spacing =
     (let rx = row_rate pf row (row_rx_rate row); tx = row_rate pf row (row_tx_rate row);
          rx_total = traffic_format_bytes pf (unat_rat (row_rx_bytes row)) False;
          tx_total = traffic_format_bytes pf (unat_rat (row_tx_bytes row)) False;
          status = row_status pf row; comm = ascii (row_comm row); pid = dec (unat (row_pid row)); tid = dec (unat (row_tid row));
          sp = ascii '' ''; bar = ascii '' | '';
          name = pad_right (traffic_field_width comm 16) (take 16 comm);
          rates = pad_left (traffic_field_width rx 12) rx @ sp @ pad_left (traffic_field_width tx 12) tx;
          totals = pad_left 11 rx_total @ sp @ pad_left 11 tx_total;
          endpoints = endpoint_page width (ascii ''Local'') (ascii (row_local row)) @ endpoint_page width (ascii ''Remote'') (ascii (row_remote row)) in
      (if wide \<and> flows
       then (None, pad_right 7 tid @ sp @ name @ sp @ pad_right 7 pid @ sp @ pad_right 3 (take 3 (ascii (row_protocol row))) @ sp @ rates @ sp @ totals) # endpoints
       else if wide then [(None, pad_right 7 pid @ sp @ name @ sp @ rates @ sp @ totals @ sp @ status)]
       else
         (if flows
          then [(None, ascii ''TID '' @ tid @ sp @ take 16 comm),
                (Some COLOR_MUTED, ascii ''PID '' @ pid @ sp @ take 7 (ascii (row_protocol row)) @ bar @ status)] @ endpoints
          else [(None, pid @ sp @ take 16 comm @ bar @ status)]) @
         (if width < 40
          then [(Some COLOR_RX, (cjk [0x63a5, 0x6536, 0x901f, 0x7387] @ ascii ''  '') @ rx), (Some COLOR_TX, (cjk [0x53d1, 0x9001, 0x901f, 0x7387] @ ascii ''  '') @ tx),
                (None, (cjk [0x7d2f, 0x8ba1, 0x63a5, 0x6536] @ ascii ''  '') @ rx_total), (None, (cjk [0x7d2f, 0x8ba1, 0x53d1, 0x9001] @ ascii ''  '') @ tx_total)]
          else [(Some COLOR_RX, ascii ''RX '' @ pad_right 12 rx @ (ascii '' | '' @ cjk [0x7d2f, 0x8ba1, 0x63a5, 0x6536] @ ascii '' '') @ rx_total),
                (Some COLOR_TX, ascii ''TX '' @ pad_right 12 tx @ (ascii '' | '' @ cjk [0x7d2f, 0x8ba1, 0x53d1, 0x9001] @ ascii '' '') @ tx_total)])) @
      [(Some COLOR_MUTED, (cjk [0x6700, 0x8fd1] @ ascii '' '') @ ascii (row_last_seen row) @ (if wide \<and> flows then bar @ status else []))] @
      (if spacing then [(None, [])] else []))"

lemma row_emit:
  assumes "8 \<le> fr_width f"
  shows "traffic_render_row pf row flows wide spacing f = emit (row_page pf (fr_width f) row flows wide spacing) f"
  using assms
  by (cases wide; cases flows; cases spacing; cases "fr_width f < 40") (simp_all add: traffic_render_row_def row_page_def Let_def endpoint_emit)

text \<open>The number of lines that was reserved for a row is the number it takes.\<close>

lemma row_page_length:
  assumes "32 \<le> width"
  shows "length (row_page pf width row flows wide spacing) = traffic_row_lines row flows wide spacing width"
  using assms by (simp add: row_page_def traffic_row_lines_def Let_def endpoint_page_length)

section \<open>The details page\<close>

definition head_page :: "print_float \<Rightarrow> display_snapshot \<Rightarrow> page" where
  "head_page pf sn =
     [(Some COLOR_TITLE, (if sn_flows sn then ascii ''THREAD VIEW'' else ascii ''PROCESS VIEW'') @ ascii ''  '' @
         (case sn_protocol sn of None \<Rightarrow> ascii ''TCP/UDP'' | Some p \<Rightarrow> p) @ ascii ''  '' @ pf 0 (sn_elapsed_seconds sn) @ ascii ''s''),
      (Some COLOR_MUTED, (case sn_filter sn of None \<Rightarrow> ascii ''All processes'' | Some f \<Rightarrow> f) @ ascii '' | every '' @ dec (unat (sn_interval_seconds sn)) @ ascii ''s''),
      (Some COLOR_MUTED, (cjk [0x65f6, 0x95f4] @ ascii '' '') @ sn_timestamp sn)]"

definition summary_page :: "print_float \<Rightarrow> display_snapshot \<Rightarrow> page" where
  "summary_page pf sn =
     [(Some COLOR_TITLE, cjk [0x5f53, 0x524d, 0x901f, 0x7387]), (Some COLOR_RX, ascii ''RX  '' @ traffic_format_bytes pf (sn_rx_rate sn) True),
      (Some COLOR_TX, ascii ''TX  '' @ traffic_format_bytes pf (sn_tx_rate sn) True), (Some COLOR_MUTED, cjk [0x672c, 0x6b21, 0x7d2f, 0x8ba1]),
      (None, (cjk [0x7d2f, 0x8ba1, 0x63a5, 0x6536] @ ascii ''  '') @ traffic_format_bytes pf (unat_rat (sn_rx_bytes sn)) False),
      (None, (cjk [0x7d2f, 0x8ba1, 0x53d1, 0x9001] @ ascii ''  '') @ traffic_format_bytes pf (unat_rat (sn_tx_bytes sn)) False)]"

definition counts_page :: "nat \<Rightarrow> nat \<Rightarrow> nat \<Rightarrow> nat \<Rightarrow> page" where
  "counts_page width first shown n_rows =
     (let span_text = (cjk [0x8bb0, 0x5f55] @ ascii '' '') @ dec (if shown \<noteq> 0 then first + 1 else 0) @ ascii ''-'' @ dec (if shown \<noteq> 0 then first + shown else 0) @ ascii ''/'' @ dec n_rows;
          hidden = (cjk [0x672a, 0x663e, 0x793a] @ ascii '' '') @ dec (n_rows - shown) @ (ascii '' '' @ cjk [0x6761]) in
      if width < 44 then [(Some COLOR_MUTED, span_text), (Some COLOR_MUTED, hidden)]
      else [(Some COLOR_MUTED, span_text @ ascii '' | '' @ hidden)])"

definition warning_page :: "nat \<Rightarrow> bytes option \<Rightarrow> nat \<Rightarrow> page" where
  "warning_page width warning n =
     (case warning of None \<Rightarrow> [] | Some w \<Rightarrow>
        map (\<lambda>i. (Some COLOR_MUTED, if i + 1 = n then drop (i * (width - 1)) w else take (width - 1) (drop (i * (width - 1)) w))) [0..<n])"

definition controls_page :: "traffic_display \<Rightarrow> nat \<Rightarrow> page" where
  "controls_page d width =
     (if width < 64 then [(Some COLOR_MUTED, (cjk [0x7edf, 0x8ba1] @ ascii '': Socket '' @ cjk [0x6536, 0x53d1, 0x5b57, 0x8282])), (Some COLOR_MUTED, (cjk [0x542b] @ ascii '' TLS '' @ cjk [0x5f00, 0x9500, 0x53ca] @ ascii '' PEEK '' @ cjk [0x8bfb, 0x53d6]))]
      else [(Some COLOR_MUTED, (cjk [0x7edf, 0x8ba1] @ ascii '': Socket '' @ cjk [0x6536, 0x53d1, 0x5b57, 0x8282] @ ascii ''; '' @ cjk [0x542b] @ ascii '' TLS '' @ cjk [0x5f00, 0x9500, 0x53ca] @ ascii '' PEEK '' @ cjk [0x8bfb, 0x53d6]))]) @
     (if td_input_saved d \<and> width < 64 then [(Some COLOR_MUTED, (ascii ''p '' @ cjk [0x8fdb, 0x7a0b] @ ascii '' | f '' @ cjk [0x7ebf, 0x7a0b] @ ascii '' | h '' @ cjk [0x5386, 0x53f2])), (Some COLOR_MUTED, (ascii ''j/k '' @ cjk [0x6eda, 0x52a8] @ ascii '' | q '' @ cjk [0x9000, 0x51fa]))]
      else [(Some COLOR_MUTED, if td_input_saved d then (ascii ''p '' @ cjk [0x8fdb, 0x7a0b] @ ascii '' | f '' @ cjk [0x7ebf, 0x7a0b] @ ascii '' | h '' @ cjk [0x5386, 0x53f2] @ ascii '' | j/k '' @ cjk [0x6eda, 0x52a8] @ ascii '' | q '' @ cjk [0x9000, 0x51fa]) else (ascii ''Ctrl-C '' @ cjk [0x505c, 0x6b62]))])"

lemma head_emit: "render_head pf sn f = emit (head_page pf sn) f"
  by (simp add: render_head_def head_page_def)

lemma summary_emit: "render_summary pf sn f = emit (summary_page pf sn) f"
  by (simp add: render_summary_def summary_page_def Let_def)

lemma counts_emit: "shown \<le> n_rows \<Longrightarrow> render_counts first shown n_rows f = emit (counts_page (fr_width f) first shown n_rows) f"
  by (simp add: render_counts_def counts_page_def Let_def usub_def)

lemma controls_emit: "render_controls d f = emit (controls_page d (fr_width f)) f"
  by (simp add: render_controls_def controls_page_def Let_def)

lemma fold_emit: "fold (\<lambda>i. traffic_line (g i) (h i)) is f = emit (map (\<lambda>i. (g i, h i)) is) f"
  by (induction "is" arbitrary: f) auto

lemma warning_emit: "render_warning warning n f = emit (warning_page (fr_width f) warning n) f"
  by (simp add: render_warning_def warning_page_def Let_def fold_emit cong: if_cong split: option.split)

lemma footer_length: "length (counts_page width first shown n_rows) + length (controls_page d width) = footer_lines d width"
  by (simp add: counts_page_def controls_page_def footer_lines_def Let_def)

lemma warning_length: "warning \<noteq> None \<Longrightarrow> length (warning_page width warning n) = n"
  by (auto simp: warning_page_def)

text \<open>The rows that are shown: as many from the first one as fit.\<close>

definition rows_lines :: "nat \<Rightarrow> bool \<Rightarrow> bool \<Rightarrow> bool \<Rightarrow> traffic_row list \<Rightarrow> nat" where
  "rows_lines width flows wide spacing rows = sum_list (map (\<lambda>row. traffic_row_lines row flows wide spacing width) rows)"

lemma rows_emit:
  assumes "32 \<le> fr_width f"
  shows "\<exists>k \<le> length rows. render_rows pf flows wide spacing rows available shown f =
      (available - rows_lines (fr_width f) flows wide spacing (take k rows), shown + k,
       emit (concat (map (\<lambda>row. row_page pf (fr_width f) row flows wide spacing) (take k rows))) f) \<and>
    rows_lines (fr_width f) flows wide spacing (take k rows) \<le> available \<and>
    (k < length rows \<longrightarrow> available < rows_lines (fr_width f) flows wide spacing (take (Suc k) rows))"
  using assms
proof (induction rows arbitrary: available shown f)
  case Nil
  then show ?case
    by (simp add: rows_lines_def)
next
  case (Cons row rows)
  define n where "n = traffic_row_lines row flows wide spacing (fr_width f)"
  show ?case
  proof (cases "available < n")
    case True
    then show ?thesis
      by (intro exI [of _ 0]) (simp add: rows_lines_def n_def)
  next
    case False
    define f1 where "f1 = emit (row_page pf (fr_width f) row flows wide spacing) f"
    have w: "fr_width f1 = fr_width f"
      by (simp add: f1_def)
    obtain k where k: "k \<le> length rows" "render_rows pf flows wide spacing rows (available - n) (shown + 1) f1 =
      (available - n - rows_lines (fr_width f) flows wide spacing (take k rows), shown + 1 + k,
       emit (concat (map (\<lambda>row. row_page pf (fr_width f) row flows wide spacing) (take k rows))) f1)"
      "rows_lines (fr_width f) flows wide spacing (take k rows) \<le> available - n"
      "k < length rows \<longrightarrow> available - n < rows_lines (fr_width f) flows wide spacing (take (Suc k) rows)"
      using Cons.IH [of f1 "available - n" "shown + 1"] Cons.prems unfolding w by blast
    have "render_rows pf flows wide spacing (row # rows) available shown f = render_rows pf flows wide spacing rows (available - n) (shown + 1) f1"
      using False Cons.prems by (simp add: row_emit f1_def n_def)
    then show ?thesis
      using k False by (intro exI [of _ "Suc k"]) (auto simp: rows_lines_def n_def f1_def)
  qed
qed

text \<open>The greatest number of rows whose lines fit in the room; it is the number that is shown.\<close>

definition rows_fit :: "nat \<Rightarrow> bool \<Rightarrow> bool \<Rightarrow> bool \<Rightarrow> nat \<Rightarrow> traffic_row list \<Rightarrow> nat" where
  "rows_fit width flows wide spacing room rows =
     length (takeWhile (\<lambda>k. rows_lines width flows wide spacing (take (Suc k) rows) \<le> room) [0..<length rows])"

lemma rows_lines_mono: "j \<le> k \<Longrightarrow> rows_lines width flows wide spacing (take j rows) \<le> rows_lines width flows wide spacing (take k rows)"
proof -
  assume "j \<le> k"
  then have "take k rows = take j rows @ take (k - j) (drop j rows)"
    by (metis le_add_diff_inverse take_add)
  then show ?thesis
    by (simp add: rows_lines_def)
qed

lemma rows_fit_eq:
  assumes "k \<le> length rows" and "rows_lines width flows wide spacing (take k rows) \<le> room"
    and "k < length rows \<longrightarrow> room < rows_lines width flows wide spacing (take (Suc k) rows)"
  shows "rows_fit width flows wide spacing room rows = k"
proof -
  let ?p = "\<lambda>j. rows_lines width flows wide spacing (take (Suc j) rows) \<le> room"
  have split: "[0..<length rows] = [0..<k] @ [k..<length rows]"
    using assms(1) upt_add_eq_append [of 0 k "length rows - k"] by simp
  have all: "?p j" if "j \<in> set [0..<k]" for j
    using that rows_lines_mono [of "Suc j" k width flows wide spacing rows] assms(2) by simp
  have "takeWhile ?p [k..<length rows] = []"
    using assms(3) by (cases "k < length rows") (simp_all add: upt_conv_Cons)
  then show ?thesis
    using takeWhile_append2 [of "[0..<k]" ?p "[k..<length rows]"] all by (simp add: rows_fit_def split)
qed

lemma rows_fit_greatest:
  assumes "rows_fit width flows wide spacing room rows < k" and "k \<le> length rows"
  shows "room < rows_lines width flows wide spacing (take k rows)"
proof -
  let ?p = "\<lambda>j. rows_lines width flows wide spacing (take (Suc j) rows) \<le> room"
  let ?n = "rows_fit width flows wide spacing room rows"
  have "?n < length [0..<length rows]"
    using assms by simp
  then have "\<not> ?p ([0..<length rows] ! ?n)"
    unfolding rows_fit_def by (rule nth_length_takeWhile)
  then have "room < rows_lines width flows wide spacing (take (Suc ?n) rows)"
    using assms by simp
  then show ?thesis
    using rows_lines_mono [of "Suc ?n" k width flows wide spacing rows] assms(1) by simp
qed

definition waiting_page :: "display_snapshot \<Rightarrow> nat \<Rightarrow> page" where
  "waiting_page sn available = (if sn_rows sn = [] \<and> available \<noteq> 0 then [(Some COLOR_MUTED, (cjk [0x7b49, 0x5f85] @ ascii '' Socket '' @ cjk [0x6536, 0x53d1] @ ascii ''...''))] else [])"

definition clamp_row :: "display_snapshot \<Rightarrow> traffic_display \<Rightarrow> nat" where
  "clamp_row sn d = min (td_first_row d) (length (sn_rows sn) - 1)"

definition body_page :: "print_float \<Rightarrow> display_snapshot \<Rightarrow> traffic_display \<Rightarrow> bool \<Rightarrow> bool \<Rightarrow> nat \<Rightarrow> nat \<Rightarrow> nat \<Rightarrow> nat \<Rightarrow> page" where
  "body_page pf sn d wide spacing width available shown warning =
     concat (map (\<lambda>row. row_page pf width row (sn_flows sn) wide spacing) (take shown (drop (clamp_row sn d) (sn_rows sn)))) @
     waiting_page sn available @
     counts_page width (clamp_row sn d) shown (length (sn_rows sn)) @ warning_page width (sn_warning sn) warning @ controls_page d width"

lemma concat_row_lines:
  assumes "32 \<le> width"
  shows "length (concat (map (\<lambda>row. row_page pf width row flows wide spacing) rows)) = rows_lines width flows wide spacing rows"
  by (induction rows) (simp_all add: rows_lines_def row_page_length [OF assms])

lemma warning_page_length:
  "length (warning_page width warning (if room < traffic_warning_lines warning w then room else traffic_warning_lines warning w)) =
     (if room < traffic_warning_lines warning w then room else traffic_warning_lines warning w)"
  by (cases warning) (simp_all add: warning_page_def traffic_warning_lines_def)

lemma emit_used: "fr_used f + length ls \<le> fr_limit f \<Longrightarrow> fr_used (emit ls f) = fr_used f + length ls"
  by (induction ls arbitrary: f) (auto simp: traffic_line_def)

lemma clamp_row_eq:
  "(if length (sn_rows sn) = 0 then 0 else if length (sn_rows sn) \<le> td_first_row d then length (sn_rows sn) - 1 else td_first_row d) = clamp_row sn d"
  by (auto simp: clamp_row_def min_def)

lemma body_emit:
  assumes w: "32 \<le> fr_width f" and limit: "fr_used f + footer_lines d (fr_width f) < fr_limit f"
    and rest: "rest = drop (clamp_row sn d) (sn_rows sn)"
    and wn: "n = min (fr_limit f - fr_used f - footer_lines d (fr_width f)) (traffic_warning_lines (sn_warning sn) (fr_width f))"
    and rm: "space = fr_limit f - fr_used f - footer_lines d (fr_width f) - n"
    and sh: "shown = rows_fit (fr_width f) (sn_flows sn) wide spacing space rest"
    and lf: "unused = space - rows_lines (fr_width f) (sn_flows sn) wide spacing (take shown rest)"
  shows "render_body pf sn d wide spacing f = (emit (body_page pf sn d wide spacing (fr_width f) unused shown n) f, d\<lparr>td_first_row := clamp_row sn d\<rparr>) \<and>
     fr_used f + length (body_page pf sn d wide spacing (fr_width f) unused shown n) \<le> fr_limit f \<and> shown \<le> length rest"
proof -
  define W where "W = fr_width f"
  define footer where "footer = footer_lines d W"
  define rows where "rows = drop (clamp_row sn d) (sn_rows sn)"
  define room where "room = fr_limit f - fr_used f - footer"
  define warning where "warning = (if room < traffic_warning_lines (sn_warning sn) W then room else traffic_warning_lines (sn_warning sn) W)"
  define available where "available = fr_limit f - fr_used f - warning - footer"
  let ?lines = "rows_lines W (sn_flows sn) wide spacing"
  have lim: "fr_used f + footer < fr_limit f"
    using limit by (simp add: footer_def W_def)
  obtain k where k: "k \<le> length rows" "render_rows pf (sn_flows sn) wide spacing rows available 0 f =
      (available - ?lines (take k rows), 0 + k, emit (concat (map (\<lambda>row. row_page pf W row (sn_flows sn) wide spacing) (take k rows))) f)"
      "?lines (take k rows) \<le> available" "k < length rows \<longrightarrow> available < ?lines (take (Suc k) rows)"
    using rows_emit [OF w, of rows pf "sn_flows sn" wide spacing available 0] unfolding W_def by blast
  define left where "left = available - ?lines (take k rows)"
  have run: "render_body pf sn d wide spacing f = (emit (body_page pf sn d wide spacing W left k warning) f, d\<lparr>td_first_row := clamp_row sn d\<rparr>)"
  proof -
    have sub: "usub 32 (usub 32 (fr_limit f) (fr_used f)) footer = room"
      using lim by (simp add: usub_def room_def)
    have av: "(if fr_used f + warning + footer < fr_limit f then fr_limit f - fr_used f - warning - footer else 0) = available"
      by (simp add: available_def)
    have "k \<le> length (sn_rows sn)"
      using k(1) by (simp add: rows_def)
    then show ?thesis
      unfolding render_body_def Let_def clamp_row_eq W_def [symmetric] footer_def [symmetric] sub warning_def [symmetric] av
        rows_def [symmetric] k(2) left_def [symmetric] prod.case
      by (simp add: counts_emit warning_emit controls_emit body_page_def waiting_page_def rows_def W_def)
  qed
  have wl: "length (warning_page W (sn_warning sn) warning) = warning"
    unfolding warning_def by (rule warning_page_length)
  have "length (waiting_page sn left) \<le> left"
    by (simp add: waiting_page_def)
  moreover have "length (body_page pf sn d wide spacing W left k warning) = ?lines (take k rows) + length (waiting_page sn left) + footer + warning"
    using concat_row_lines [of W pf "sn_flows sn" wide spacing "take k rows"] w footer_length [of W "clamp_row sn d" k "length (sn_rows sn)" d] wl
    by (simp add: body_page_def rows_def footer_def W_def)
  moreover have "warning \<le> room"
    by (simp add: warning_def)
  ultimately have "fr_used f + length (body_page pf sn d wide spacing W left k warning) \<le> fr_limit f"
    using k(3) lim unfolding left_def available_def room_def by linarith
  moreover have "n = warning" "space = available" "rest = rows"
    using rest by (simp_all add: wn rm warning_def available_def room_def footer_def W_def rows_def add.commute add.left_commute)
  moreover have "shown = k" "unused = left"
    using rows_fit_eq [OF k(1,3,4)] calculation by (simp_all add: sh lf left_def W_def)
  ultimately show ?thesis
    using run k(1) unfolding W_def by simp
qed

section \<open>Complete lines\<close>

definition whole :: "nat \<Rightarrow> bytes \<Rightarrow> bool" where
  "whole n t \<longleftrightarrow> cells_of (glyphs t) \<le> n \<and> glyph_text (glyphs t) = t \<and> int (length t) \<le> 1023"

lemma whole_line: "whole n t \<Longrightarrow> n < width \<Longrightarrow> clean_line width (take 1023 t) = t"
  by (auto simp: whole_def clean_line_eq shown_glyphs_def Let_def)

lemma controls_whole:
  "whole 31 ((cjk [0x7edf, 0x8ba1] @ ascii '': Socket '' @ cjk [0x6536, 0x53d1, 0x5b57, 0x8282]))" "whole 31 ((cjk [0x542b] @ ascii '' TLS '' @ cjk [0x5f00, 0x9500, 0x53ca] @ ascii '' PEEK '' @ cjk [0x8bfb, 0x53d6]))" "whole 63 ((cjk [0x7edf, 0x8ba1] @ ascii '': Socket '' @ cjk [0x6536, 0x53d1, 0x5b57, 0x8282] @ ascii ''; '' @ cjk [0x542b] @ ascii '' TLS '' @ cjk [0x5f00, 0x9500, 0x53ca] @ ascii '' PEEK '' @ cjk [0x8bfb, 0x53d6]))"
  "whole 31 ((ascii ''p '' @ cjk [0x8fdb, 0x7a0b] @ ascii '' | f '' @ cjk [0x7ebf, 0x7a0b] @ ascii '' | h '' @ cjk [0x5386, 0x53f2]))" "whole 31 ((ascii ''j/k '' @ cjk [0x6eda, 0x52a8] @ ascii '' | q '' @ cjk [0x9000, 0x51fa]))" "whole 63 ((ascii ''p '' @ cjk [0x8fdb, 0x7a0b] @ ascii '' | f '' @ cjk [0x7ebf, 0x7a0b] @ ascii '' | h '' @ cjk [0x5386, 0x53f2] @ ascii '' | j/k '' @ cjk [0x6eda, 0x52a8] @ ascii '' | q '' @ cjk [0x9000, 0x51fa]))" "whole 31 ((ascii ''Ctrl-C '' @ cjk [0x505c, 0x6b62]))"
  by code_simp+

lemma controls_exact:
  assumes "32 \<le> width"
  shows "map (shown_line width) (controls_page d width) = controls_page d width"
proof -
  have narrow: "clean_line width (take 1023 t) = t" if "whole 31 t" for t
    using whole_line [OF that] assms by simp
  have broad: "clean_line width (take 1023 t) = t" if "whole 63 t" "64 \<le> width" for t
    using whole_line [OF that(1)] that(2) by simp
  show ?thesis
    using narrow [OF controls_whole(1)] narrow [OF controls_whole(2)] broad [OF controls_whole(3)] narrow [OF controls_whole(4)]
      narrow [OF controls_whole(5)] broad [OF controls_whole(6)] narrow [OF controls_whole(7)]
    by (simp add: controls_page_def shown_line_def not_less)
qed

text \<open>An endpoint of printable characters is shown in full, in lines of the width of the terminal.\<close>

lemma ascii_glyphs:
  assumes "\<forall>c \<in> set t. 32 \<le> c \<and> c \<le> 126"
  shows "glyphs t = map (\<lambda>c. ([c], 1)) t"
  using assms
proof (induction t)
  case (Cons c t)
  have "\<not> 0xe4 \<le> c"
    using Cons.prems by (auto simp: word_le_nat_alt)
  then have "traffic_character_cells (c # t) = (1, 1)"
    by (simp add: traffic_character_cells_def split: list.split)
  then show ?case
    using Cons by (simp add: glyphs.simps [of "c # t"])
qed simp

lemma ascii_line:
  assumes "\<forall>c \<in> set t. 32 \<le> c \<and> c \<le> 126" and "length t < width" and "length t \<le> 1023"
  shows "clean_line width (take 1023 t) = t"
proof -
  have "cells_of (glyphs t) = length t" "glyph_text (glyphs t) = t"
    unfolding ascii_glyphs [OF assms(1)] by (simp_all add: cells_of_def glyph_text_def comp_def sum_list_triv)
  then show ?thesis
    using assms by (auto simp: clean_line_eq shown_glyphs_def Let_def)
qed

lemma endpoint_line:
  assumes "\<forall>c \<in> set endpoint. 32 \<le> c \<and> c \<le> 126" "\<forall>c \<in> set label. 32 \<le> c \<and> c \<le> 126" "length label \<le> 7"
    and "32 \<le> width" "length endpoint \<le> 1000" and p: "p \<in> set (pieces (width - 8) endpoint)"
  shows "clean_line width (take 1023 (pad_right 7 label @ p)) = pad_right 7 label @ p"
proof (rule ascii_line)
  have sub: "set p \<subseteq> set endpoint" "length p \<le> length endpoint"
    using pieces_concat [of "width - 8" endpoint] assms(4) p split_list [OF p] by fastforce+
  show "\<forall>c \<in> set (pad_right 7 label @ p). 32 \<le> c \<and> c \<le> 126"
    using assms(1,2) sub(1) by (auto simp: pad_right_def)
  show "length (pad_right 7 label @ p) < width" "length (pad_right 7 label @ p) \<le> 1023"
    using pieces_short [OF p] assms(3,4,5) sub(2) by (simp_all add: pad_right_def)
qed

lemma endpoint_shown:
  assumes e: "\<forall>c \<in> set endpoint. 32 \<le> c \<and> c \<le> 126" and l: "\<forall>c \<in> set label. 32 \<le> c \<and> c \<le> 126" "length label \<le> 7"
    and w: "32 \<le> width" "length endpoint \<le> 1000"
  shows "concat (map (drop 7 \<circ> snd \<circ> shown_line width) (endpoint_page width label endpoint)) = endpoint"
proof -
  have line: "drop 7 (snd (shown_line width (c, pad_right 7 lb @ p))) = p"
    if "\<forall>c \<in> set lb. 32 \<le> c \<and> c \<le> 126" "length lb \<le> 7" "p \<in> set (pieces (width - 8) endpoint)" for c lb p
    using endpoint_line [OF e that(1,2) w that(3)] that(2) by (simp add: shown_line_def pad_right_def)
  obtain p ps where ps: "pieces (width - 8) endpoint = p # ps"
    using pieces.simps [of "width - 8" endpoint] by (metis (full_types))
  have "map (drop 7 \<circ> snd \<circ> shown_line width) (endpoint_page width label endpoint) = p # ps"
    using line [of label p] line [of "[]"] l unfolding endpoint_page_def ps by (simp add: map_idI)
  then show ?thesis
    using pieces_concat [of "width - 8" endpoint] w(1) ps by simp
qed

definition title_page :: page where
  "title_page = [(Some COLOR_TITLE, ascii ''ANETTRACE / TRAFFIC LAB'')]"

definition details_head :: "print_float \<Rightarrow> display_snapshot \<Rightarrow> bool \<Rightarrow> page" where
  "details_head pf sn wide = title_page @ head_page pf sn @ summary_page pf sn @ [(Some COLOR_MUTED, column_titles wide (sn_flows sn))]"

definition frame_wide :: "display_snapshot \<Rightarrow> nat \<Rightarrow> bool" where
  "frame_wide sn width \<longleftrightarrow> (if sn_flows sn then 110 else 100) \<le> width"

lemma initial_out [simp]: "fr_used (initial_frame window) = 0" "fr_out (initial_frame window) = []"
  by (simp_all add: initial_frame_def split: prod.split option.split)

lemma start_frame:
  assumes "4 \<le> fr_limit (initial_frame window)"
  shows "render_head pf sn (traffic_line (Some COLOR_TITLE) (ascii ''ANETTRACE / TRAFFIC LAB'') (initial_frame window)) = emit (title_page @ head_page pf sn) (initial_frame window)"
    and "fr_used (emit (title_page @ head_page pf sn) (initial_frame window)) = 4"
  using emit_used [of "initial_frame window" "title_page @ head_page pf sn"] assms
  by (simp_all add: head_emit title_page_def head_page_def)

lemma render_cases:
  assumes "td_active d" and "32 \<le> fr_width (initial_frame window)" and "12 + footer_lines d (fr_width (initial_frame window)) \<le> fr_limit (initial_frame window)"
  shows "traffic_display_render pf window deref (Some sn) d =
    (let f = emit (title_page @ head_page pf sn) (initial_frame window) in
     case td_history_record d of
       Some p \<Rightarrow> (case traffic_render_history pf deref p sn d f of (f, d1) \<Rightarrow> (Some f, d1))
     | None \<Rightarrow> (case render_details pf sn d f of (f, d1) \<Rightarrow> (Some f, d1)))"
  using assms start_frame(1) [of window pf sn] by (simp add: traffic_display_render_def Let_def)

section \<open>The samples of a record\<close>

definition sample_page :: "print_float \<Rightarrow> nat \<Rightarrow> history_frame \<Rightarrow> history_sample \<Rightarrow> page" where
  "sample_page pf per_sample t s =
     (let rx = traffic_format_bytes pf (unat_rat (hs_rx_bytes s)) False; tx = traffic_format_bytes pf (unat_rat (hs_tx_bytes s)) False;
          rx_rate = traffic_format_bytes pf (traffic_bytes_per_second (hs_rx_bytes s) (hf_elapsed_ns t)) True;
          tx_rate = traffic_format_bytes pf (traffic_bytes_per_second (hs_tx_bytes s) (hf_elapsed_ns t)) True;
          head_text = ascii (hf_timestamp t) @ ascii '' | '' @ pf 2 (unat_rat (hf_elapsed_ns t) / 1000000000) @ ascii ''s'';
          avail = (\<lambda>x. if hs_available s then x else cjk [0x672a, 0x77e5]) in
      if per_sample = 1
      then [(None, head_text @ ascii '' | RX '' @ avail rx @ ascii '' / '' @ avail rx_rate @ ascii '' | TX '' @ avail tx @ ascii '' / '' @ avail tx_rate)]
      else (Some COLOR_MUTED, head_text) #
        (if hs_available s
         then [(Some COLOR_RX, ascii ''RX '' @ rx @ ascii '' | '' @ rx_rate), (Some COLOR_TX, ascii ''TX '' @ tx @ ascii '' | '' @ tx_rate)]
         else [(Some COLOR_MUTED, cjk [0x672c, 0x5468, 0x671f, 0x6570, 0x636e, 0x7f3a, 0x5931]), (None, [])]))"

lemma sample_emit: "render_sample pf per_sample t s f = emit (sample_page pf per_sample t s) f"
  by (simp add: render_sample_def sample_page_def Let_def)

lemma sample_page_length: "per_sample = 1 \<or> per_sample = 3 \<Longrightarrow> length (sample_page pf per_sample t s) = per_sample"
  by (auto simp: sample_page_def Let_def)

definition slot_page :: "print_float \<Rightarrow> nat \<Rightarrow> traffic_history \<Rightarrow> history_record \<Rightarrow> nat \<Rightarrow> page" where
  "slot_page pf per_sample h r q =
     sample_page pf per_sample (th_frames h ! ((q - 1) mod TRAFFIC_HISTORY_SAMPLES)) (hr_samples r ! ((q - 1) mod TRAFFIC_HISTORY_SAMPLES))"

lemma samples_emit: "render_samples pf per_sample h r start final f = emit (concat (map (slot_page pf per_sample h r) [start..<final + 1])) f"
proof -
  have "fold (\<lambda>q. let slot = (q - 1) mod TRAFFIC_HISTORY_SAMPLES in render_sample pf per_sample (th_frames h ! slot) (hr_samples r ! slot)) qs f =
      emit (concat (map (slot_page pf per_sample h r) qs)) f" for qs
    by (induction qs arbitrary: f) (simp_all add: sample_emit slot_page_def Let_def)
  then show ?thesis
    by (simp add: render_samples_def)
qed

lemma slots_length:
  "per_sample = 1 \<or> per_sample = 3 \<Longrightarrow> length (concat (map (slot_page pf per_sample h r) qs)) = per_sample * length qs"
  by (induction qs) (auto simp: slot_page_def sample_page_length)

definition history_titles :: page where
  "history_titles = [(Some COLOR_TITLE, (cjk [0x5386, 0x53f2] @ ascii '': '' @ cjk [0x6700, 0x8fd1] @ ascii '' 60 '' @ cjk [0x6b21, 0x91c7, 0x6837])), (Some COLOR_MUTED, (cjk [0x6536, 0x53d1, 0x91cf] @ ascii '' / '' @ cjk [0x901f, 0x7387] @ ascii '' | '' @ cjk [0x91c7, 0x6837, 0x7ed3, 0x675f, 0x65f6, 0x95f4]))]"

definition history_controls :: "nat \<Rightarrow> page" where
  "history_controls width =
     (if width < 40 then [(Some COLOR_MUTED, (ascii ''k '' @ cjk [0x66f4, 0x65e9] @ ascii '' | j '' @ cjk [0x8f83, 0x65b0])), (Some COLOR_MUTED, (ascii ''h '' @ cjk [0x8fd4, 0x56de] @ ascii '' | q '' @ cjk [0x9000, 0x51fa]))]
      else [(Some COLOR_MUTED, (ascii ''k '' @ cjk [0x66f4, 0x65e9] @ ascii '' | j '' @ cjk [0x8f83, 0x65b0] @ ascii '' | h '' @ cjk [0x8fd4, 0x56de] @ ascii '' | q '' @ cjk [0x9000, 0x51fa]))])"

definition history_counts :: "nat \<Rightarrow> nat \<Rightarrow> nat \<Rightarrow> nat \<Rightarrow> nat \<Rightarrow> page" where
  "history_counts oldest start final shown count =
     [(Some COLOR_MUTED, (cjk [0x5386, 0x53f2] @ ascii '' '') @ dec (if shown \<noteq> 0 then start - oldest + 1 else 0) @ ascii ''-'' @
         dec (if shown \<noteq> 0 then final - oldest + 1 else 0) @ ascii ''/'' @ dec count)]"

definition history_page :: "print_float \<Rightarrow> display_snapshot \<Rightarrow> nat \<Rightarrow> traffic_history \<Rightarrow> history_record \<Rightarrow> nat \<Rightarrow> nat \<Rightarrow> page" where
  "history_page pf sn width h r start final =
     row_page pf width (hr_row r) (sn_flows sn) False False @ history_titles @
     concat (map (slot_page pf (if 110 \<le> width then 1 else 3) h r) [start..<final + 1]) @
     history_counts (oldest_sequence h r) start final (final + 1 - start) (unat (th_sequence h) + 1 - oldest_sequence h r) @ history_controls width"

lemma history_emit:
  assumes h: "sn_history sn = Some h" "th_sequence h \<noteq> 0" "hr_born_sequence (deref p) \<le> th_sequence h" and w: "32 \<le> fr_width f"
    and limit: "fr_used f + traffic_row_lines (hr_row (deref p)) (sn_flows sn) False False (fr_width f) + 2 + (if fr_width f < 40 then 3 else 2) \<le> fr_limit f"
  shows "\<exists>start. let oldest = oldest_sequence h (deref p); scroll = min (td_history_scroll d) (unat (th_sequence h) - oldest); final = unat (th_sequence h) - scroll in
     traffic_render_history pf deref p sn d f = (emit (history_page pf sn (fr_width f) h (deref p) start final) f, d\<lparr>td_history_scroll := scroll\<rparr>) \<and>
     fr_used f + length (history_page pf sn (fr_width f) h (deref p) start final) \<le> fr_limit f \<and>
     1 \<le> oldest \<and> oldest \<le> start \<and> start \<le> final + 1 \<and> final \<le> unat (th_sequence h) \<and>
     (oldest < start \<longrightarrow> fr_limit f < fr_used f + length (history_page pf sn (fr_width f) h (deref p) start final) + (if 110 \<le> fr_width f then 1 else 3))"
proof -
  define r where "r = deref p"
  define n where "n = unat (th_sequence h)"
  define oldest where "oldest = oldest_sequence h r"
  define scroll where "scroll = min (td_history_scroll d) (n - oldest)"
  define final where "final = n - scroll"
  define W where "W = fr_width f"
  define per where "per = (if 110 \<le> W then 1 else 3 :: nat)"
  define footer where "footer = (if W < 40 then 3 else 2 :: nat)"
  define head where "head = row_page pf W (hr_row r) (sn_flows sn) False False @ history_titles"
  define f3 where "f3 = emit head f"
  define shown where "shown = min ((fr_limit f - fr_used f - length head - footer) div per) (final - oldest + 1)"
  define start where "start = final - shown + 1"
  have n: "0 < n" "unat (hr_born_sequence r) \<le> n"
    using h(2,3) by (simp_all add: n_def r_def unat_gt_0 word_le_nat_alt)
  have o: "1 \<le> oldest" "oldest \<le> n"
    using n by (auto simp: oldest_def oldest_sequence_def n_def [symmetric] Let_def TRAFFIC_HISTORY_SAMPLES_def)
  have hl: "length head = traffic_row_lines (hr_row r) (sn_flows sn) False False W + 2"
    using w by (simp add: head_def history_titles_def row_page_length W_def)
  have lim: "fr_used f + length head + footer \<le> fr_limit f"
    using limit by (simp add: hl footer_def W_def r_def)
  have used3: "fr_used f3 = fr_used f + length head" "fr_limit f3 = fr_limit f" "fr_width f3 = W"
    using emit_used [of f head] lim by (simp_all add: f3_def W_def)
  have count: "usub 64 n oldest + 1 = n + 1 - oldest"
    using o by (simp add: usub_def)
  have fin: "oldest \<le> final" "final \<le> n"
    using o by (auto simp: final_def scroll_def)
  have sc: "(if n + 1 - oldest \<le> td_history_scroll d then n + 1 - oldest - 1 else td_history_scroll d) = scroll"
    using o by (auto simp: scroll_def min_def)
  have us: "usub 64 n scroll = final" "usub 64 final oldest = final - oldest"
      "usub 32 (usub 32 (fr_limit f3) (fr_used f3)) footer = fr_limit f - fr_used f - length head - footer"
    using fin lim by (auto simp: usub_def final_def used3 scroll_def)
  have sh: "(if final - oldest + 1 < x then final - oldest + 1 else x) = min x (final - oldest + 1)" for x
    by (simp add: min_def)
  have s1: "shown \<le> final - oldest + 1"
    by (simp add: shown_def)
  then have shown_le: "shown \<le> final - oldest + 1" "final + 1 - start = shown" "oldest \<le> start" "start \<le> final + 1"
    using fin o unfolding start_def by linarith+
  have run: "traffic_render_history pf deref p sn d f =
      (emit (history_counts oldest start final shown (n + 1 - oldest) @ history_controls W)
         (emit (concat (map (slot_page pf per h r) [start..<final + 1])) f3), d\<lparr>td_history_scroll := scroll\<rparr>)"
  proof -
    have f3': "traffic_line (Some COLOR_MUTED) ((cjk [0x6536, 0x53d1, 0x91cf] @ ascii '' / '' @ cjk [0x901f, 0x7387] @ ascii '' | '' @ cjk [0x91c7, 0x6837, 0x7ed3, 0x675f, 0x65f6, 0x95f4]))
        (traffic_line (Some COLOR_TITLE) ((cjk [0x5386, 0x53f2] @ ascii '': '' @ cjk [0x6700, 0x8fd1] @ ascii '' 60 '' @ cjk [0x6b21, 0x91c7, 0x6837])) (traffic_render_row pf (hr_row r) (sn_flows sn) False False f)) = f3"
      using w by (simp add: f3_def head_def history_titles_def row_emit W_def)
    have big: "\<not> fr_limit f < fr_used f + traffic_row_lines (hr_row r) (sn_flows sn) False False W + 2 + footer"
      using lim hl by simp
    show ?thesis
      unfolding traffic_render_history_def Let_def r_def [symmetric] h(1) option.case W_def [symmetric] footer_def [symmetric] per_def [symmetric]
        f3' n_def [symmetric] oldest_def [symmetric] count sc us sh shown_def [symmetric] start_def [symmetric] samples_emit
      using big h(2) by (simp add: history_counts_def history_controls_def)
  qed
  have page: "history_page pf sn W h r start final =
      head @ concat (map (slot_page pf per h r) [start..<final + 1]) @ history_counts oldest start final shown (n + 1 - oldest) @ history_controls W"
    by (simp add: history_page_def head_def per_def shown_le(2) [symmetric] n_def oldest_def)
  have "length (history_counts oldest start final shown (n + 1 - oldest) @ history_controls W) = footer"
    by (simp add: history_counts_def history_controls_def footer_def)
  moreover have "length (concat (map (slot_page pf per h r) [start..<final + 1])) = per * shown"
    by (subst slots_length) (simp_all only: length_upt shown_le(2) per_def split: if_split, simp)
  ultimately have len: "length (history_page pf sn W h r start final) = length head + per * shown + footer"
    by (simp add: page)
  have "per * shown \<le> fr_limit f - fr_used f - length head - footer"
    by (simp add: shown_def) (metis div_times_less_eq_dividend le_trans min.cobounded1 mult.commute mult_le_mono2)
  then have fits: "fr_used f + length (history_page pf sn W h r start final) \<le> fr_limit f"
    using len lim by simp
  have full: "fr_limit f < fr_used f + length (history_page pf sn W h r start final) + per" if "oldest < start"
  proof -
    have "shown = (fr_limit f - fr_used f - length head - footer) div per"
      using that fin o by (auto simp: start_def shown_def min_def split: if_splits)
    moreover have "0 < per"
      by (simp add: per_def)
    ultimately have "fr_limit f - fr_used f - length head - footer < per * shown + per"
      using dividend_less_times_div [of per "fr_limit f - fr_used f - length head - footer"] by simp
    then show ?thesis
      using len lim by simp
  qed
  have "traffic_render_history pf deref p sn d f = (emit (history_page pf sn W h r start final) f, d\<lparr>td_history_scroll := scroll\<rparr>)"
    by (simp add: run page f3_def)
  then show ?thesis
    using fits full o fin shown_le unfolding Let_def r_def [symmetric] n_def [symmetric] oldest_def [symmetric] scroll_def [symmetric] final_def [symmetric] W_def [symmetric] per_def [symmetric]
    by blast
qed

section \<open>Records and frames\<close>

lemma born_update:
  assumes "\<forall>rec \<in> set (th_records h). hr_born_sequence rec \<le> th_sequence h"
  shows "\<forall>rec \<in> set (th_records (update_state key row h)). hr_born_sequence rec \<le> th_sequence h"
proof -
  have found: "hr_born_sequence (found_record self sample row r) = hr_born_sequence r" for self sample r
    by (simp add: found_record_def Let_def)
  have upd: "\<forall>rec \<in> set ((th_records h)[r := found_record self sample row x]). hr_born_sequence rec \<le> th_sequence h"
    if "r < length (th_records h) \<longrightarrow> hr_born_sequence x \<le> th_sequence h" for r self sample x
  proof (cases "r < length (th_records h)")
    case True
    then show ?thesis
      using assms that found set_update_subset_insert by fastforce
  qed (use assms in \<open>simp add: not_less list_update_beyond\<close>)
  have old: "hr_born_sequence rec \<le> th_sequence h" if "rec \<in> set ((th_records h)[r := found_record r s row (th_records h ! r)])" for rec r s
    using upd [of r "th_records h ! r" r s] that assms by auto
  have fresh: "hr_born_sequence rec \<le> th_sequence h"
    if "rec \<in> set ((th_records h)[r := found_record r s row (x\<lparr>hr_key := k, hr_born_sequence := th_sequence h\<rparr>)])" for rec r s x k
    using upd [of r "x\<lparr>hr_key := k, hr_born_sequence := th_sequence h\<rparr>" r s] that by simp
  show ?thesis
    using assms
    by (auto dest!: old fresh simp: update_state_def traffic_history_update_def Let_def new_record_def split: option.splits)
qed

lemma born_run:
  assumes "traffic_history_open (True, True) capacity key_size zero_history = (True, h0)" and "frames_in xs < 2 ^ 64"
  shows "\<forall>rec \<in> set (th_records (history_run xs h0)). hr_born_sequence rec \<le> th_sequence (history_run xs h0)"
  using assms(2)
proof (induction xs rule: rev_induct)
  case Nil
  then show ?case
    using assms(1) by (auto simp: history_run_def traffic_history_open_def zero_record_def Let_def split: if_splits)
next
  case (snoc x xs)
  let ?h = "history_run xs h0"
  have h0: "length (th_frames h0) = TRAFFIC_HISTORY_SAMPLES" "th_sequence h0 = 0"
    using assms(1) by (auto simp: traffic_history_open_def zero_history_def Let_def split: if_splits)
  show ?case
  proof (cases x)
    case (Inl a)
    obtain timestamp now elapsed where a: "a = (timestamp, now, elapsed)"
      by (cases a)
    have n: "Suc (frames_in xs) < 2 ^ 64"
      using snoc.prems Inl by (simp add: frames_in_def)
    then have "th_sequence ?h = of_nat (frames_in xs)"
      using run_frames [OF h0, of xs] by simp
    then have le: "th_sequence ?h \<le> th_sequence ?h + 1"
      using n by (simp add: word_le_nat_alt unat_of_nat_64 unat_word_ariths)
    have "hr_born_sequence rec \<le> th_sequence ?h" if "rec \<in> set (th_records ?h)" for rec
      using snoc that Inl by (simp add: frames_in_def)
    then have "hr_born_sequence rec \<le> th_sequence ?h + 1" if "rec \<in> set (th_records ?h)" for rec
      using that le order_trans by blast
    then show ?thesis
      using Inl a by (auto simp: history_run_def begin_state_def traffic_history_begin_def Let_def age_record_def dest!: in_set_takeD in_set_dropD)
  next
    case (Inr p)
    then have "history_run (xs @ [x]) h0 = update_state (fst p) (snd p) ?h" "frames_in (xs @ [x]) = frames_in xs"
      by (simp_all add: history_run_def frames_in_def split_beta)
    then show ?thesis
      using snoc born_update [of ?h "fst p" "snd p"] update_frame [of "fst p" "snd p" ?h] by simp
  qed
qed

section \<open>Properties\<close>

text \<open>
  C35. A line never overruns its 1024-byte buffers or the terminal: what is written is at most 1023 bytes
  of whole visible characters - printable ASCII or CJK ideographs of two cells, so no control byte of a
  process name or an address reaches the terminal - and takes at most the width less one cells.  A text
  that fits is written unabridged, with other bytes replaced by question marks.
\<close>

theorem traffic_line_bounded:
  assumes "fr_used f < fr_limit f"
  shows "\<exists>gs. fr_out (traffic_line c t f) = fr_out f @ [(c, glyph_text gs)] \<and> list_all visible gs \<and> cells_of gs \<le> fr_width f - 1 \<and>
     length (glyph_text gs) \<le> 1023 \<and> (cells_of (glyphs (take 1023 t)) \<le> fr_width f - 1 \<longrightarrow> gs = glyphs (take 1023 t))"
proof (intro exI [of _ "shown_glyphs (fr_width f) (take 1023 t)"] conjI)
  let ?gs = "shown_glyphs (fr_width f) (take 1023 t)"
  show "fr_out (traffic_line c t f) = fr_out f @ [(c, glyph_text ?gs)]"
    using assms by (simp add: traffic_line_def clean_line_eq)
  show "list_all visible ?gs"
    using shown_visible by (auto simp: list_all_iff)
  show "cells_of ?gs \<le> fr_width f - 1"
    by (rule shown_cells)
  show "length (glyph_text ?gs) \<le> 1023"
    using shown_length [of "fr_width f" "take 1023 t"] by simp
  show "cells_of (glyphs (take 1023 t)) \<le> fr_width f - 1 \<longrightarrow> ?gs = glyphs (take 1023 t)"
    by (simp add: shown_glyphs_def Let_def)
qed

definition td_demo_frame :: traffic_frame where
  "td_demo_frame = \<lparr>fr_width = 8, fr_limit = 2, fr_used = 0, fr_out = []\<rparr>"

theorem traffic_line_bounded_witness:
  "\<exists>gs. fr_out (traffic_line None (27 # ascii ''[2Jprocess'') td_demo_frame) = [(None, glyph_text gs)] \<and> list_all visible gs \<and> cells_of gs \<le> 7"
proof -
  have "fr_used td_demo_frame < fr_limit td_demo_frame" "fr_out td_demo_frame = []" "fr_width td_demo_frame - 1 = 7"
    by (simp_all add: td_demo_frame_def)
  then show ?thesis
    using traffic_line_bounded [of td_demo_frame None "27 # ascii ''[2Jprocess''"] by auto
qed

text \<open>
  Endpoints are shown in full: whatever the width of the terminal, from 32 columns, the lines of an
  endpoint of printable characters, without their seven-column label, add up to the endpoint, and there
  are exactly as many as were reserved for it.
\<close>

lemma traffic_endpoint_complete:
  assumes "32 \<le> fr_width f" and "fr_used f = length (fr_out f)" and "fr_used f + traffic_endpoint_lines endpoint (fr_width f) \<le> fr_limit f"
    and "\<forall>c \<in> set endpoint. 32 \<le> c \<and> c \<le> 126" and "\<forall>c \<in> set label. 32 \<le> c \<and> c \<le> 126" and "length label \<le> 7" and "length endpoint \<le> 63"
  shows "\<exists>ls. fr_out (traffic_render_endpoint label endpoint f) = fr_out f @ ls \<and> length ls = traffic_endpoint_lines endpoint (fr_width f) \<and>
     concat (map (drop 7 \<circ> snd) ls) = endpoint"
proof -
  let ?p = "endpoint_page (fr_width f) label endpoint"
  have len: "length ?p = traffic_endpoint_lines endpoint (fr_width f)"
    by (rule endpoint_page_length [OF assms(1)])
  have "fr_out (traffic_render_endpoint label endpoint f) = fr_out f @ map (shown_line (fr_width f)) ?p"
    using emit_fits(1) [OF assms(2), of ?p] assms(1,3) by (simp add: endpoint_emit len)
  moreover have "concat (map (drop 7 \<circ> snd) (map (shown_line (fr_width f)) ?p)) = endpoint"
    using endpoint_shown [OF assms(4,5,6,1)] assms(7) by (simp add: comp_assoc)
  ultimately show ?thesis
    using len by auto
qed

lemma warning_at_most: "traffic_warning_lines w n \<le> 3"
  by (auto simp: traffic_warning_lines_def Let_def)

text \<open>
  C34. The frame of the details view is one complete page, equal to the declarative page of its parts: the
  head, the rows, the counts, the warning, and the controls, with nothing dropped at the bottom and the
  controls unabridged.  The sizes of the parts are fixed: the warning has its lines, at most three, as far as
  there is room above the counts and the controls; the rows, each with all its lines, are those from the first one on
  that fit in all the rest of the room, so that one more would not fit; and the first row is kept inside the list.
\<close>

theorem traffic_frame_complete:
  assumes "td_active d" and "td_history_record d = None" and "32 \<le> fr_width (initial_frame window)"
    and "12 + footer_lines d (fr_width (initial_frame window)) \<le> fr_limit (initial_frame window)"
  shows "\<exists>f. let w = fr_width (initial_frame window); limit = fr_limit (initial_frame window); wide = frame_wide sn w; spacing = (\<not> wide \<and> 30 \<le> limit);
       rest = drop (clamp_row sn d) (sn_rows sn); footer = footer_lines d w;
       warning = min (limit - 11 - footer) (traffic_warning_lines (sn_warning sn) w); room = limit - 11 - footer - warning;
       shown = rows_fit w (sn_flows sn) wide spacing room rest; unused = room - rows_lines w (sn_flows sn) wide spacing (take shown rest);
       page = details_head pf sn wide @ body_page pf sn d wide spacing w unused shown warning in
     traffic_display_render pf window deref (Some sn) d = (Some f, d\<lparr>td_first_row := clamp_row sn d\<rparr>) \<and>
     fr_out f = map (shown_line w) page \<and> length page \<le> limit \<and> map (shown_line w) (controls_page d w) = controls_page d w \<and>
     warning \<le> 3 \<and> shown \<le> length rest \<and> (\<forall>k. shown < k \<and> k \<le> length rest \<longrightarrow> room < rows_lines w (sn_flows sn) wide spacing (take k rest))"
proof -
  define i where "i = initial_frame window"
  define w where "w = fr_width i"
  define wide where "wide = frame_wide sn w"
  define spacing where "spacing = (\<not> wide \<and> 30 \<le> fr_limit i)"
  define f2 where "f2 = emit (details_head pf sn wide) i"
  have eleven: "length (details_head pf sn wide) = 11"
    by (simp add: details_head_def title_page_def head_page_def summary_page_def)
  have i: "fr_used i = 0" "fr_out i = []" "32 \<le> w" "12 + footer_lines d w \<le> fr_limit i"
    using assms by (simp_all add: i_def w_def)
  have f2: "fr_width f2 = w" "fr_limit f2 = fr_limit i" "fr_used f2 = 11"
    using emit_used [of i "details_head pf sn wide"] i eleven by (simp_all add: f2_def w_def)
  have "render_details pf sn d (emit (title_page @ head_page pf sn) i) = render_body pf sn d wide spacing f2"
    by (simp add: render_details_def summary_emit f2_def details_head_def wide_def spacing_def frame_wide_def w_def Let_def)
  then have run: "traffic_display_render pf window deref (Some sn) d = (case render_body pf sn d wide spacing f2 of (f, d1) \<Rightarrow> (Some f, d1))"
    using render_cases [OF assms(1,3,4), of pf deref sn] assms(2) by (simp add: i_def Let_def)
  define rest where "rest = drop (clamp_row sn d) (sn_rows sn)"
  define footer where "footer = footer_lines d w"
  define warning where "warning = min (fr_limit i - 11 - footer) (traffic_warning_lines (sn_warning sn) w)"
  define room where "room = fr_limit i - 11 - footer - warning"
  define shown where "shown = rows_fit w (sn_flows sn) wide spacing room rest"
  define unused where "unused = room - rows_lines w (sn_flows sn) wide spacing (take shown rest)"
  have pre: "32 \<le> fr_width f2" "fr_used f2 + footer_lines d (fr_width f2) < fr_limit f2"
    using i f2 by simp_all
  have parts: "warning = min (fr_limit f2 - fr_used f2 - footer_lines d (fr_width f2)) (traffic_warning_lines (sn_warning sn) (fr_width f2))"
      "room = fr_limit f2 - fr_used f2 - footer_lines d (fr_width f2) - warning"
      "shown = rows_fit (fr_width f2) (sn_flows sn) wide spacing room rest"
      "unused = room - rows_lines (fr_width f2) (sn_flows sn) wide spacing (take shown rest)"
    by (simp_all only: f2 warning_def room_def shown_def unused_def footer_def)
  have b: "render_body pf sn d wide spacing f2 = (emit (body_page pf sn d wide spacing w unused shown warning) f2, d\<lparr>td_first_row := clamp_row sn d\<rparr>)"
    "fr_used f2 + length (body_page pf sn d wide spacing w unused shown warning) \<le> fr_limit f2" "shown \<le> length rest"
    using body_emit [OF pre rest_def parts, of pf, unfolded f2(1)] by auto
  let ?page = "details_head pf sn wide @ body_page pf sn d wide spacing w unused shown warning"
  have fits: "length ?page \<le> fr_limit i"
    using b(2) f2 eleven by simp
  have "fr_out (emit ?page i) = map (shown_line w) ?page"
    using emit_fits(1) [of i ?page] i fits by (simp add: w_def)
  moreover have "traffic_display_render pf window deref (Some sn) d = (Some (emit ?page i), d\<lparr>td_first_row := clamp_row sn d\<rparr>)"
    using run b(1) by (simp add: f2_def)
  moreover have "warning \<le> 3"
    using warning_at_most [of "sn_warning sn" w] by (simp add: warning_def)
  moreover have "\<forall>k. shown < k \<and> k \<le> length rest \<longrightarrow> room < rows_lines w (sn_flows sn) wide spacing (take k rest)"
    using rows_fit_greatest unfolding shown_def by blast
  ultimately show ?thesis
    using fits b(3) controls_exact [OF i(3), of d]
    unfolding Let_def i_def [symmetric] w_def [symmetric] wide_def [symmetric] spacing_def [symmetric] rest_def [symmetric] footer_def [symmetric]
      warning_def [symmetric] room_def [symmetric] shown_def [symmetric] unused_def [symmetric] by blast
qed

definition td_demo :: "nat option \<Rightarrow> traffic_display" where
  "td_demo r = \<lparr>td_active = True, td_input_saved = True, td_first_row = 7, td_history_scroll = 1, td_history_record = r\<rparr>"

definition td_demo_snapshot :: "traffic_history option \<Rightarrow> display_snapshot" where
  "td_demo_snapshot h = \<lparr>sn_rows = [zero_row, zero_row], sn_rx_bytes = 0, sn_tx_bytes = 0, sn_rx_rate = 0, sn_tx_rate = 0, sn_elapsed_seconds = 0,
     sn_interval_seconds = 1, sn_timestamp = [], sn_protocol = None, sn_filter = None, sn_warning = None, sn_history = h, sn_flows = True\<rparr>"

lemma td_demo_frame_size: "fr_width (initial_frame (Some (40, 50))) = 50" "fr_limit (initial_frame (Some (40, 50))) = 39" "footer_lines (td_demo r) 50 = 5"
  by (simp_all add: initial_frame_def footer_lines_def td_demo_def)

theorem traffic_frame_complete_witness:
  "\<exists>f d. traffic_display_render (\<lambda>_ _. []) (Some (40, 50)) (\<lambda>_. zero_record) (Some (td_demo_snapshot None)) (td_demo None) = (Some f, d) \<and>
     td_first_row d = 1 \<and> fr_out f \<noteq> [] \<and> length (fr_out f) \<le> 39"
proof -
  have "td_active (td_demo None)" "td_history_record (td_demo None) = None" "clamp_row (td_demo_snapshot None) (td_demo None) = 1"
    by (simp_all add: td_demo_def clamp_row_def td_demo_snapshot_def)
  then show ?thesis
    using traffic_frame_complete [of "td_demo None" "Some (40, 50)" "td_demo_snapshot None" "\<lambda>_ _. []" "\<lambda>_. zero_record"]
    unfolding Let_def by (auto simp: td_demo_frame_size details_head_def title_page_def)
qed

text \<open>
  The history of a row is exact and complete.  After any run of frames and updates, the view of a record
  shows its row, then for an uninterrupted range of sample periods - ending at the newest one less the
  scroll position, and not reaching before the record was made or beyond the last sixty periods - the frame
  and the sample of each period, taken from the slot of that period, and the controls; nothing is dropped
  at the bottom, and the range only stops short of the oldest period when the terminal is full.
\<close>

lemma traffic_history_view:
  assumes "traffic_history_open (True, True) capacity key_size zero_history = (True, h0)" and "frames_in xs < 2 ^ 64" and "0 < frames_in xs"
    and "h = history_run xs h0" and "p < length (th_records h)" and "r = th_records h ! p" and "sn_history sn = Some h"
    and "td_active d" and "td_history_record d = Some p" and "i = initial_frame window" and "w = fr_width i" and "32 \<le> w" and "12 + footer_lines d w \<le> fr_limit i"
    and "4 + traffic_row_lines (hr_row r) (sn_flows sn) False False w + 2 + (if w < 40 then 3 else 2) \<le> fr_limit i"
  shows "\<exists>f d1 start. let oldest = oldest_sequence h r; final = frames_in xs - min (td_history_scroll d) (frames_in xs - oldest);
       page = title_page @ head_page pf sn @ history_page pf sn w h r start final in
     traffic_display_render pf window (\<lambda>p. th_records h ! p) (Some sn) d = (Some f, d1) \<and>
     fr_out f = map (shown_line w) page \<and> length page \<le> fr_limit i \<and>
     unat (hr_born_sequence r) \<le> oldest \<and> oldest \<le> start \<and> start \<le> final + 1 \<and> final \<le> frames_in xs \<and>
     (\<forall>q. start \<le> q \<and> q \<le> final \<longrightarrow> hf_sequence (th_frames h ! ((q - 1) mod TRAFFIC_HISTORY_SAMPLES)) = of_nat q) \<and>
     (oldest < start \<longrightarrow> fr_limit i < length page + (if 110 \<le> w then 1 else 3))"
proof -
  define n where "n = frames_in xs"
  define oldest where "oldest = oldest_sequence h r"
  define scroll where "scroll = min (td_history_scroll d) (n - oldest)"
  define final where "final = n - scroll"
  define f where "f = emit (title_page @ head_page pf sn) i"
  have h0: "length (th_frames h0) = TRAFFIC_HISTORY_SAMPLES" "th_sequence h0 = 0"
    using assms(1) by (auto simp: traffic_history_open_def zero_history_def Let_def split: if_splits)
  note fr = run_frames [OF h0 assms(2), folded assms(4)]
  have n1: "unat (th_sequence h) = n"
    using fr assms(2) by (simp add: n_def unat_of_nat_64)
  then have n: "unat (th_sequence h) = n" "th_sequence h \<noteq> 0"
    using assms(3) by (auto simp: n_def)
  have born: "hr_born_sequence r \<le> th_sequence h"
    using born_run [OF assms(1,2)] assms(4,5,6) by simp
  have f: "fr_used f = 4" "fr_width f = w" "fr_limit f = fr_limit i"
    using start_frame(2) [of window pf sn] assms(10,11,13) by (simp_all add: f_def)
  have lim: "fr_used f + traffic_row_lines (hr_row (th_records h ! p)) (sn_flows sn) False False (fr_width f) + 2 + (if fr_width f < 40 then 3 else 2) \<le> fr_limit f"
    using assms(6,14) f by simp
  obtain start where s: "traffic_render_history pf (\<lambda>p. th_records h ! p) p sn d f = (emit (history_page pf sn w h r start final) f, d\<lparr>td_history_scroll := scroll\<rparr>)"
      "fr_used f + length (history_page pf sn w h r start final) \<le> fr_limit f" "1 \<le> oldest" "oldest \<le> start" "start \<le> final + 1" "final \<le> n"
      "oldest < start \<longrightarrow> fr_limit f < fr_used f + length (history_page pf sn w h r start final) + (if 110 \<le> w then 1 else 3)"
    using history_emit [where deref = "\<lambda>p. th_records h ! p" and p = p and f = f and d = d and pf = pf, OF assms(7) n(2) born [unfolded assms(6)] assms(12) [folded f(2)] lim]
    unfolding Let_def assms(6) [symmetric] n(1) oldest_def [symmetric] scroll_def [symmetric] final_def [symmetric] f(2) by (elim exE conjE) (rule that)
  let ?page = "title_page @ head_page pf sn @ history_page pf sn w h r start final"
  have four: "length (title_page @ head_page pf sn) = 4"
    by (simp add: title_page_def head_page_def)
  have page: "length ?page = 4 + length (history_page pf sn w h r start final)"
    using four by simp
  then have fits: "length ?page \<le> fr_limit i"
    using s(2) f by simp
  have out: "fr_out (emit ?page i) = map (shown_line w) ?page"
    using emit_fits(1) [of i ?page] fits assms(10,11) by simp
  have run: "traffic_display_render pf window (\<lambda>p. th_records h ! p) (Some sn) d = (Some (emit ?page i), d\<lparr>td_history_scroll := scroll\<rparr>)"
    using render_cases [OF assms(8) assms(12) [unfolded assms(11,10)] assms(13) [unfolded assms(11,10)], of pf "\<lambda>p. th_records h ! p" sn] s(1)
    by (simp add: assms(9) assms(10) [symmetric] f_def Let_def)
  have old: "n < oldest + TRAFFIC_HISTORY_SAMPLES" "unat (hr_born_sequence r) \<le> oldest"
    by (auto simp: oldest_def oldest_sequence_def n(1) Let_def TRAFFIC_HISTORY_SAMPLES_def)
  have slots: "hf_sequence (th_frames h ! ((q - 1) mod TRAFFIC_HISTORY_SAMPLES)) = of_nat q" if q: "start \<le> q" "q \<le> final" for q
  proof -
    have "q - 1 < frames_in xs" "frames_in xs \<le> q - 1 + TRAFFIC_HISTORY_SAMPLES" "Suc (q - 1) = q"
      using q s(3,4,6) old(1) by (simp_all add: n_def)
    then show ?thesis
      using fr by metis
  qed
  have all: "\<forall>q. start \<le> q \<and> q \<le> final \<longrightarrow> hf_sequence (th_frames h ! ((q - 1) mod TRAFFIC_HISTORY_SAMPLES)) = of_nat q"
    using slots by blast
  have full: "oldest < start \<longrightarrow> fr_limit i < length ?page + (if 110 \<le> w then 1 else 3)"
    unfolding page using s(7) f by simp
  show ?thesis
    using run out fits old(2) s(4,5,6) all full unfolding Let_def n_def [symmetric] oldest_def [symmetric] scroll_def [symmetric] final_def [symmetric]
    by blast
qed

section \<open>Keys\<close>

text \<open>
  The state of the view stays inside the data: the scroll position below sixty, and a record that is shown
  is one of a row.
\<close>

lemma display_key_scroll:
  assumes "td_history_scroll d < TRAFFIC_HISTORY_SAMPLES" and "traffic_display_key d sn key = (b, d1, sn1)"
  shows "td_history_scroll d1 < TRAFFIC_HISTORY_SAMPLES"
  using assms by (auto simp: traffic_display_key_def TRAFFIC_HISTORY_SAMPLES_def split: if_splits)

lemma display_key_record:
  assumes "traffic_display_key d sn key = (b, d1, sn1)" and "td_history_record d1 = Some p"
  shows "td_history_record d = Some p \<or> (\<exists>row \<in> set (sn_rows sn). row_record row = Some p)"
  using assms by (auto simp: traffic_display_key_def split: if_splits)

end
