(* ===== verification/TrafficSession.thy ===== *)
theory TrafficSession
  imports TrafficBpf TrafficDisplay
begin

text \<open>
  The user-space half of the traffic monitor (\<open>traffic.c\<close>): reading the BPF maps, one row per key, the
  bytes of a sample period, the history and the view, the plain report, and the report schedule.
  The answers of the maps, the clock and libbpf are arguments; \<open>qsort\<close> is an argument too, and
  the statements hold for every function that sorts.
\<close>

section \<open>Rows\<close>

definition TRAFFIC_MAX_FLOWS :: nat where "TRAFFIC_MAX_FLOWS = 16384"
definition TRAFFIC_MAX_PROCESSES :: nat where "TRAFFIC_MAX_PROCESSES = 4096"
definition TRAFFIC_STALE_NS :: u64 where "TRAFFIC_STALE_NS = 300000000000"

type_synonym flow_row = "flow_key \<times> flow_value"
type_synonym process_row = "process_key \<times> process_value"

fun memcmp :: "bytes \<Rightarrow> bytes \<Rightarrow> int" where
  "memcmp (x # xs) (y # ys) = (if x < y then -1 else if y < x then 1 else memcmp xs ys)"
| "memcmp _ _ = 0"

text \<open>The object representation of the keys: 72 and 16 bytes, no padding but the named one, which is zero.\<close>

definition flow_key_bytes :: "flow_key \<Rightarrow> bytes" where
  "flow_key_bytes k = le_bytes 4 (fk_tgid k) @ le_bytes 4 (fk_tid k) @ le_bytes 2 (fk_family k) @ le_bytes 2 (fk_lport k) @ le_bytes 2 (fk_rport k) @
     [fk_protocol k, fk_flags k] @ fk_laddr k @ fk_raddr k @ fk_comm k @ le_bytes 8 (fk_process_start_ns k)"

definition process_key_bytes :: "process_key \<Rightarrow> bytes" where
  "process_key_bytes k = le_bytes 8 (pk_start_time_ns k) @ le_bytes 4 (pk_tgid k) @ [0, 0, 0, 0]"

definition traffic_row_compare :: "flow_row \<Rightarrow> flow_row \<Rightarrow> int" where
  "traffic_row_compare a b =
     (let total_a = fv_tx_bytes (snd a) + fv_rx_bytes (snd a); total_b = fv_tx_bytes (snd b) + fv_rx_bytes (snd b) in
      if total_a < total_b then 1 else if total_b < total_a then -1 else 0)"

definition traffic_flow_key_compare :: "flow_row \<Rightarrow> flow_row \<Rightarrow> int" where
  "traffic_flow_key_compare a b = memcmp (flow_key_bytes (fst a)) (flow_key_bytes (fst b))"

definition traffic_process_key_compare :: "process_row \<Rightarrow> process_row \<Rightarrow> int" where
  "traffic_process_key_compare a b = memcmp (process_key_bytes (fst a)) (process_key_bytes (fst b))"

definition traffic_display_row_compare :: "traffic_row \<Rightarrow> traffic_row \<Rightarrow> int" where
  "traffic_display_row_compare a b =
     (let rate_a = row_rx_rate a + row_tx_rate a; rate_b = row_rx_rate b + row_tx_rate b in
      if rate_a \<noteq> rate_b then (if rate_a < rate_b then 1 else -1)
      else if row_idle_seconds a \<noteq> row_idle_seconds b then (if row_idle_seconds a > row_idle_seconds b then 1 else -1)
      else if row_pid a \<noteq> row_pid b then (if row_pid a > row_pid b then 1 else -1)
      else of_bool (row_tid a > row_tid b) - of_bool (row_tid a < row_tid b))"

text \<open>
  The loop over the sorted rows, which keeps one row per key in place: \<open>acc\<close> are the rows kept, the last one
  first.
\<close>

definition unique_step :: "('r \<Rightarrow> 'r \<Rightarrow> int) \<Rightarrow> ('r \<Rightarrow> 'r \<Rightarrow> bool) \<Rightarrow> 'r \<Rightarrow> 'r list \<Rightarrow> 'r list" where
  "unique_step compare newer r acc =
     (case acc of
        [] \<Rightarrow> [r]
      | old # rest \<Rightarrow> if compare old r = 0 then (if newer r old then r # rest else acc) else r # acc)"

definition flow_newer :: "flow_row \<Rightarrow> flow_row \<Rightarrow> bool" where
  "flow_newer r old \<longleftrightarrow> fv_first_seen_ns (snd r) > fv_first_seen_ns (snd old) \<or>
     fv_first_seen_ns (snd r) = fv_first_seen_ns (snd old) \<and> fv_last_seen_ns (snd r) \<ge> fv_last_seen_ns (snd old)"

definition process_newer :: "process_row \<Rightarrow> process_row \<Rightarrow> bool" where
  "process_newer r old \<longleftrightarrow> fv_last_seen_ns (pv_counters (snd r)) \<ge> fv_last_seen_ns (pv_counters (snd old))"

type_synonym 'r sorter = "('r \<Rightarrow> 'r \<Rightarrow> int) \<Rightarrow> 'r list \<Rightarrow> 'r list"

definition traffic_unique_flows :: "flow_row sorter \<Rightarrow> flow_row list \<Rightarrow> flow_row list" where
  "traffic_unique_flows qsort rows = rev (fold (unique_step traffic_flow_key_compare flow_newer) (qsort traffic_flow_key_compare rows) [])"

definition traffic_unique_processes :: "process_row sorter \<Rightarrow> process_row list \<Rightarrow> process_row list" where
  "traffic_unique_processes qsort rows = rev (fold (unique_step traffic_process_key_compare process_newer) (qsort traffic_process_key_compare rows) [])"

section \<open>Reading a map\<close>

text \<open>
  One round of the walk: what \<open>bpf_map_get_next_key\<close> answers for the current key, and what the lookup of
  the current key finds.
\<close>

datatype 'k next_key = NextKey 'k | NextNone | NextError

type_synonym ('k, 'v) map_walk = "'k next_key \<times> (nat \<Rightarrow> 'k next_key \<times> 'v option)"

function collect_loop :: "nat \<Rightarrow> (nat \<Rightarrow> 'k next_key \<times> 'v option) \<Rightarrow> nat \<Rightarrow> 'k \<Rightarrow> ('k \<times> 'v) list \<Rightarrow> bool \<Rightarrow> ('k \<times> 'v) list \<times> bool" where
  "collect_loop capacity answers attempts key rows incomplete =
     (if \<not> attempts < capacity * 2 then (rows, True)
      else let (next, found) = answers attempts;
               (rows1, incomplete1) = (case found of None \<Rightarrow> (rows, True) | Some v \<Rightarrow> (rows @ [(key, v)], incomplete)) in
        case next of
          NextNone \<Rightarrow> (rows1, incomplete1)
        | NextError \<Rightarrow> (rows1, True)
        | NextKey k \<Rightarrow>
            if length rows1 = capacity then (rows1, True) else collect_loop capacity answers (attempts + 1) k rows1 incomplete1)"
  by pat_completeness auto
termination
  by (relation "measure (\<lambda>(capacity, answers, attempts, key, rows, incomplete). capacity * 2 - attempts)") auto

declare collect_loop.simps [simp del]

definition collect_sample :: "nat \<Rightarrow> ('k, 'v) map_walk \<Rightarrow> bool \<Rightarrow> ('k \<times> 'v) list \<times> bool" where
  "collect_sample capacity walk incomplete =
     (case fst walk of
        NextKey k \<Rightarrow> collect_loop capacity (snd walk) 0 k [] incomplete
      | NextNone \<Rightarrow> ([], incomplete)
      | NextError \<Rightarrow> ([], True))"

definition traffic_collect_flow_sample :: "flow_row sorter \<Rightarrow> (flow_key, flow_value) map_walk \<Rightarrow> bool \<Rightarrow> flow_row list \<times> bool" where
  "traffic_collect_flow_sample qsort walk incomplete =
     (case collect_sample TRAFFIC_MAX_FLOWS walk incomplete of (rows, inc) \<Rightarrow> (traffic_unique_flows qsort rows, inc))"

definition traffic_collect_process_sample :: "process_row sorter \<Rightarrow> (process_key, process_value) map_walk \<Rightarrow> bool \<Rightarrow> process_row list \<times> bool" where
  "traffic_collect_process_sample qsort walk incomplete =
     (case collect_sample TRAFFIC_MAX_PROCESSES walk incomplete of (rows, inc) \<Rightarrow> (traffic_unique_processes qsort rows, inc))"

text \<open>
  The walk of the plain report: rows of the period, and the keys of stale flows, which are deleted.
\<close>

function collect_rows_loop ::
    "u64 \<Rightarrow> u64 \<Rightarrow> nat \<Rightarrow> (nat \<Rightarrow> flow_key next_key \<times> flow_value option) \<Rightarrow> nat \<Rightarrow> flow_key \<Rightarrow> flow_row list \<Rightarrow> flow_key list \<Rightarrow> flow_row list \<times> flow_key list \<times> bool" where
  "collect_rows_loop since_ns now_ns capacity answers attempts key rows deleted =
     (if \<not> attempts < TRAFFIC_MAX_FLOWS * 2 then (rows, deleted, True)
      else let (next, found) = answers attempts;
               (rows1, deleted1) =
                 (case found of
                    None \<Rightarrow> (rows, deleted)
                  | Some v \<Rightarrow>
                      if fv_last_seen_ns v < now_ns \<and> TRAFFIC_STALE_NS < now_ns - fv_last_seen_ns v then (rows, deleted @ [key])
                      else if since_ns < fv_last_seen_ns v \<and> length rows < capacity then (rows @ [(key, v)], deleted)
                      else (rows, deleted)) in
        case next of
          NextKey k \<Rightarrow> collect_rows_loop since_ns now_ns capacity answers (attempts + 1) k rows1 deleted1
        | _ \<Rightarrow> (rows1, deleted1, False))"
  by pat_completeness auto
termination
  by (relation "measure (\<lambda>(since_ns, now_ns, capacity, answers, attempts, key, rows, deleted). TRAFFIC_MAX_FLOWS * 2 - attempts)") auto

declare collect_rows_loop.simps [simp del]

definition traffic_collect_rows :: "(flow_key, flow_value) map_walk \<Rightarrow> nat \<Rightarrow> u64 \<Rightarrow> u64 \<Rightarrow> flow_row list \<times> flow_key list \<times> bool" where
  "traffic_collect_rows walk capacity since_ns now_ns =
     (case fst walk of
        NextKey k \<Rightarrow> collect_rows_loop since_ns now_ns capacity (snd walk) 0 k [] []
      | _ \<Rightarrow> ([], [], False))"

section \<open>A sample\<close>

definition traffic_sample_deltas :: "flow_value \<Rightarrow> flow_value option \<Rightarrow> u64 \<Rightarrow> u64 \<times> u64 \<times> bool" where
  "traffic_sample_deltas v previous since_ns =
     (let fresh = (if fv_first_seen_ns v \<noteq> 0 \<and> fv_first_seen_ns v \<ge> since_ns then (fv_rx_bytes v, fv_tx_bytes v, False) else (0, 0, True)) in
      case previous of
        None \<Rightarrow> fresh
      | Some p \<Rightarrow>
          if fv_first_seen_ns v = fv_first_seen_ns p
          then if fv_rx_bytes v < fv_rx_bytes p \<or> fv_tx_bytes v < fv_tx_bytes p then (0, 0, True)
               else (fv_rx_bytes v - fv_rx_bytes p, fv_tx_bytes v - fv_tx_bytes p, False)
          else fresh)"

text \<open>\<open>bsearch\<close> as the C library implements it, on the half-open range from \<open>lo\<close> to \<open>hi\<close>.\<close>

function bsearch_loop :: "('r \<Rightarrow> int) \<Rightarrow> 'r list \<Rightarrow> nat \<Rightarrow> nat \<Rightarrow> nat option" where
  "bsearch_loop compare rows lo hi =
     (if lo < hi
      then let idx = (lo + hi) div 2; c = compare (rows ! idx) in
        if c < 0 then bsearch_loop compare rows lo idx
        else if 0 < c then bsearch_loop compare rows (idx + 1) hi
        else Some idx
      else None)"
  by auto
termination
  by (relation "measure (\<lambda>(compare, rows, lo, hi). hi - lo)") auto

declare bsearch_loop.simps [simp del]

definition bsearch :: "('r \<Rightarrow> int) \<Rightarrow> 'r list \<Rightarrow> nat option" where
  "bsearch compare rows = bsearch_loop compare rows 0 (length rows)"

definition traffic_protocol_name :: "u8 \<Rightarrow> string" where
  "traffic_protocol_name protocol = (if protocol = IPPROTO_TCP then ''TCP'' else if protocol = IPPROTO_UDP then ''UDP'' else ''?'')"

text \<open>
  \<open>tf_ntop4\<close>, \<open>tf_ntop6\<close>: \<open>inet_ntop\<close>; \<open>tf_date\<close>, \<open>tf_stamp\<close>: the text of \<open>ts_print_ts\<close> as a date and in the
  time mode of the options; \<open>tf_float\<close>: the digits of a \<open>double\<close>.
\<close>

record traffic_text =
  tf_ntop4 :: "bytes \<Rightarrow> string"
  tf_ntop6 :: "bytes \<Rightarrow> string"
  tf_date :: "u64 \<Rightarrow> string"
  tf_stamp :: "u64 \<Rightarrow> string"
  tf_float :: print_float

definition chars :: "bytes \<Rightarrow> string" where
  "chars bs = map (\<lambda>b. char_of (unat b)) bs"

definition traffic_format_endpoint :: "traffic_text \<Rightarrow> flow_key \<Rightarrow> bool \<Rightarrow> nat \<Rightarrow> string" where
  "traffic_format_endpoint tf k local endpoint_size =
     (let addr = (if local then fk_laddr k else fk_raddr k); port = chars (dec (unat (if local then fk_lport k else fk_rport k))) in
      take (endpoint_size - 1)
        (if fk_flags k AND TRAFFIC_ENDPOINT_UNKNOWN \<noteq> 0 then ''?''
         else if fk_family k = AF_INET then tf_ntop4 tf (take 4 addr) @ '':'' @ port
         else if fk_family k = AF_INET6 then ''['' @ tf_ntop6 tf addr @ '']:'' @ port
         else ''?:'' @ port))"

definition traffic_format_timestamp :: "traffic_text \<Rightarrow> u64 \<Rightarrow> string" where
  "traffic_format_timestamp tf now_ns =
     (let t = tf_date tf now_ns in
      if 21 \<le> length t \<and> t ! 0 = CHR ''['' \<and> t ! 5 = CHR ''-'' then take 19 (tl t) else chars (cjk [0x672a, 0x77e5]))"

text \<open>A C string field ends at its first zero byte.\<close>

definition cfield :: "nat \<Rightarrow> bytes \<Rightarrow> string" where
  "cfield n b = chars (takeWhile (\<lambda>c. c \<noteq> 0) (take n b))"

definition traffic_display_counters :: "traffic_text \<Rightarrow> traffic_row \<Rightarrow> flow_value \<Rightarrow> flow_value option \<Rightarrow> u64 \<Rightarrow> u64 \<Rightarrow> traffic_row \<times> bool" where
  "traffic_display_counters tf row v previous since_ns now_ns =
     (case traffic_sample_deltas v previous since_ns of (rx, tx, gap) \<Rightarrow>
        (row\<lparr>row_sample_valid := \<not> gap, row_rx_delta := rx, row_tx_delta := tx, row_first_seen_ns := fv_first_seen_ns v,
             row_last_seen_ns := fv_last_seen_ns v, row_rx_bytes := fv_rx_bytes v, row_tx_bytes := fv_tx_bytes v,
             row_rx_rate := traffic_bytes_per_second rx (now_ns - since_ns), row_tx_rate := traffic_bytes_per_second tx (now_ns - since_ns),
             row_idle_seconds := (if fv_last_seen_ns v < now_ns then of_nat (unat (now_ns - fv_last_seen_ns v)) / 1000000000 else 0),
             row_last_seen := traffic_format_timestamp tf (fv_last_seen_ns v)\<rparr>, gap))"

section \<open>The plain report\<close>

definition pad_right :: "nat \<Rightarrow> string \<Rightarrow> string" where
  "pad_right n t = t @ replicate (n - length t) CHR '' ''"

definition pad_left :: "nat \<Rightarrow> string \<Rightarrow> string" where
  "pad_left n t = replicate (n - length t) CHR '' '' @ t"

definition udec :: "nat \<Rightarrow> string" where
  "udec n = chars (dec n)"

text \<open>Columns of a line, separated by one blank.\<close>

definition columns :: "string list \<Rightarrow> string" where
  "columns cs = concat (map (\<lambda>c. c @ '' '') (butlast cs)) @ last cs"

definition traffic_print_row :: "traffic_text \<Rightarrow> flow_row \<Rightarrow> nat \<Rightarrow> nat \<Rightarrow> string" where
  "traffic_print_row tf r local_width remote_width =
     (let k = fst r; kb = (\<lambda>v. pad_left 10 (chars (tf_float tf 2 (unat_rat v / 1024)))) in
      columns [pad_right 7 (udec (unat (fk_tgid k))), pad_right 7 (udec (unat (fk_tid k))), pad_right 16 (cfield 16 (fk_comm k)),
        pad_right 3 (traffic_protocol_name (fk_protocol k)), pad_right 2 (udec (if fk_family k = AF_INET6 then 6 else 4)),
        pad_right local_width (traffic_format_endpoint tf k True 54), pad_right remote_width (traffic_format_endpoint tf k False 54),
        kb (fv_tx_bytes (snd r)), kb (fv_rx_bytes (snd r))])"

definition endpoint_width :: "traffic_text \<Rightarrow> bool \<Rightarrow> flow_row list \<Rightarrow> nat" where
  "endpoint_width tf local rows =
     fold (\<lambda>r w. let width = length (traffic_format_endpoint tf (fst r) local 54) in if w < width then width else w) rows 10"

definition shown_protocol :: "u8 \<Rightarrow> string" where
  "shown_protocol l4_proto = (if l4_proto \<noteq> 0 then traffic_protocol_name l4_proto else ''TCP/UDP'')"

text \<open>The lines of the report and the flows that were deleted.\<close>

definition traffic_print_snapshot ::
    "traffic_text \<Rightarrow> flow_row sorter \<Rightarrow> u8 \<Rightarrow> (flow_key, flow_value) map_walk \<Rightarrow> u64 \<Rightarrow> u64 \<Rightarrow> string list \<times> flow_key list" where
  "traffic_print_snapshot tf qsort l4_proto walk since_ns now_ns =
     (let (rows0, deleted, incomplete) = traffic_collect_rows walk TRAFFIC_MAX_FLOWS since_ns now_ns;
          rows = qsort traffic_row_compare rows0; lw = endpoint_width tf True rows; rw = endpoint_width tf False rows in
      ([[], tf_stamp tf now_ns @ ''Traffic '' @ shown_protocol l4_proto @ '' (cumulative application payload per flow)'',
        columns [pad_right 7 ''PID'', pad_right 7 ''TID'', pad_right 16 ''COMM'', pad_right 3 ''P'', pad_right 2 ''AF'', pad_right lw ''LADDR:PORT'',
          pad_right rw ''RADDR:PORT'', pad_left 10 ''APP_TX_KB'', pad_left 10 ''APP_RX_KB'']] @
       map (\<lambda>r. traffic_print_row tf r lw rw) rows @ (if rows = [] then [''(no traffic in this interval)''] else []), deleted))"

text \<open>The counters that changed, with their growth, and the new baseline.\<close>

definition traffic_report_drops :: "u64 option list \<Rightarrow> u64 list \<Rightarrow> (nat \<times> u64) list \<times> u64 list" where
  "traffic_report_drops stats previous =
     (let pairs = zip stats previous in
      (concat (map (\<lambda>i. case pairs ! i of (Some c, p) \<Rightarrow> if c = p then [] else [(i, c - p)] | (None, p) \<Rightarrow> []) [0..<length pairs]),
       map (\<lambda>(answer, p). case answer of Some c \<Rightarrow> c | None \<Rightarrow> p) pairs))"

section \<open>Session\<close>

text \<open>
  \<open>ts_interval\<close>, \<open>ts_count\<close>, \<open>ts_l4_proto\<close>: the options read through \<open>args\<close>.  The array \<open>warning\<close> is reached through
  \<open>sn_warning\<close> of the snapshot, which points to it.  \<open>ts_rows\<close>, \<open>ts_arrays\<close>: the row array and the six arrays of the view are allocated.
\<close>

record traffic_session =
  ts_interval :: u32
  ts_count :: u32
  ts_l4_proto :: u8
  ts_skel :: bool
  ts_rows :: bool
  ts_arrays :: bool
  ts_previous_rows :: "flow_row list"
  ts_previous_process_rows :: "process_row list"
  ts_flow_rows :: "traffic_row list"
  ts_process_rows :: "traffic_row list"
  ts_display :: traffic_display
  ts_snapshot :: display_snapshot
  ts_flow_history :: traffic_history
  ts_process_history :: traffic_history
  ts_previous_totals :: flow_value
  ts_start_ns :: u64
  ts_totals_sample_ns :: u64
  ts_previous_drops :: "u64 list"
  ts_last_report_ns :: u64
  ts_next_report_ns :: u64
  ts_reports :: u32
  ts_active :: bool
  ts_limit_reached :: bool

text \<open>What the kernel answers to one sample.\<close>

record sample_env =
  se_totals :: "flow_value option"
  se_flows :: "(flow_key, flow_value) map_walk"
  se_processes :: "(process_key, process_value) map_walk"
  se_stats :: "u64 option list"
  se_text :: traffic_text
  se_sort_flows :: "flow_row sorter"
  se_sort_processes :: "process_row sorter"
  se_sort_rows :: "traffic_row sorter"
  se_window :: "(u16 \<times> u16) option"

datatype traffic_output = Frame traffic_frame | Report "string list" | Deleted "flow_key list" | Warnings "(nat \<times> u64) list"

text \<open>The history that is shown; a record pointer of the view is a position in it.\<close>

definition shown_history :: "traffic_session \<Rightarrow> traffic_history" where
  "shown_history s = (if sn_flows (ts_snapshot s) then ts_flow_history s else ts_process_history s)"

definition traffic_render_cached :: "print_float \<Rightarrow> (u16 \<times> u16) option \<Rightarrow> traffic_session \<Rightarrow> traffic_output list \<times> traffic_session" where
  "traffic_render_cached pf window s =
     (let sn = (ts_snapshot s)\<lparr>sn_rows := (if sn_flows (ts_snapshot s) then ts_flow_rows s else ts_process_rows s),
                               sn_history := Some (shown_history s)\<rparr> in
      case traffic_display_render pf window (\<lambda>p. th_records (shown_history s) ! p) (Some sn) (ts_display s) of (frame, d) \<Rightarrow>
        ((case frame of None \<Rightarrow> [] | Some f \<Rightarrow> [Frame f]), s\<lparr>ts_snapshot := sn, ts_display := d\<rparr>))"

definition stat_labels :: "bytes list" where
  "stat_labels = map ascii [''inflight lost (total incomplete)'', ''flow detail lost'', ''UDP endpoints unknown'',
     ''process samples lost'', ''process identity missing'']"

text \<open>\<open>snprintf\<close> at the end of a buffer of 384 bytes; \<open>used\<close> counts the bytes that were asked for.\<close>

definition warning_add :: "bytes \<Rightarrow> bytes \<times> nat \<Rightarrow> bytes \<times> nat" where
  "warning_add t w =
     (if snd w < 384 then let piece = (if snd w \<noteq> 0 then ascii ''; '' else []) @ t in (fst w @ take (383 - length (fst w)) piece, snd w + length piece)
      else w)"

fun warning_stats :: "(u64 option \<times> bytes) list \<Rightarrow> bytes \<times> nat \<Rightarrow> bool \<Rightarrow> (bytes \<times> nat) \<times> bool" where
  "warning_stats [] w read_error = (w, read_error)"
| "warning_stats ((None, label) # rest) w read_error = warning_stats rest w True"
| "warning_stats ((Some n, label) # rest) w read_error =
     warning_stats rest (if n \<noteq> 0 then warning_add (dec (unat n) @ ascii '' '' @ label) w else w) read_error"

definition traffic_sample_warning :: "u64 option list \<Rightarrow> bool \<Rightarrow> bool \<Rightarrow> bytes" where
  "traffic_sample_warning stats read_error sample_gap =
     (let (w1, read_error1) = warning_stats (zip stats stat_labels) ([], 0) read_error;
          w2 = (if read_error1 then warning_add (ascii ''map read incomplete'') w1 else w1);
          w3 = (if sample_gap then warning_add (ascii ''sample gap: affected rates unavailable'') w2 else w2) in
      fst w3)"

definition full_warning :: "bool \<Rightarrow> bytes \<Rightarrow> bytes" where
  "full_warning full w =
     (if full then w @ take (383 - length w) ((if w \<noteq> [] then ascii ''; '' else []) @ ascii ''retained record limit reached; new records not retained'') else w)"

text \<open>The rows of the flows and of the processes of one sample, and whether a counter had a gap.\<close>

definition flow_display :: "traffic_text \<Rightarrow> flow_row list \<Rightarrow> u64 \<Rightarrow> u64 \<Rightarrow> flow_row \<Rightarrow> traffic_row \<times> bool" where
  "flow_display tf previous since_ns now_ns current =
     (let k = fst current;
          prev = map_option (\<lambda>i. snd (previous ! i)) (bsearch (traffic_flow_key_compare current) previous) in
      traffic_display_counters tf
        (zero_row\<lparr>row_pid := fk_tgid k, row_tid := fk_tid k, row_comm := cfield 16 (fk_comm k), row_protocol := traffic_protocol_name (fk_protocol k),
                  row_local := traffic_format_endpoint tf k True 64, row_remote := traffic_format_endpoint tf k False 64\<rparr>)
        (snd current) prev since_ns now_ns)"

definition process_display :: "traffic_text \<Rightarrow> process_row list \<Rightarrow> u64 \<Rightarrow> u64 \<Rightarrow> u32 \<Rightarrow> process_row \<Rightarrow> traffic_row \<times> bool" where
  "process_display tf previous since_ns now_ns flow_count current =
     (let prev = map_option (\<lambda>i. pv_counters (snd (previous ! i))) (bsearch (traffic_process_key_compare current) previous) in
      traffic_display_counters tf
        (zero_row\<lparr>row_pid := pk_tgid (fst current), row_flow_count := flow_count, row_comm := cfield 16 (pv_comm (snd current))\<rparr>)
        (pv_counters (snd current)) prev since_ns now_ns)"

definition process_flow_count :: "flow_row list \<Rightarrow> process_row list \<Rightarrow> nat \<Rightarrow> u32" where
  "process_flow_count flows processes i =
     of_nat (length (filter (\<lambda>f. fv_last_seen_ns (snd f) \<noteq> 0 \<and>
        bsearch (\<lambda>r. memcmp (process_key_bytes \<lparr>pk_start_time_ns = fk_process_start_ns (fst f), pk_tgid = fk_tgid (fst f)\<rparr>) (process_key_bytes (fst r))) processes = Some i) flows))"

text \<open>Each row that was ever seen goes into the history; an update that does not end is \<open>None\<close>.\<close>

definition keep_row :: "bytes \<times> traffic_row \<Rightarrow> traffic_history option \<Rightarrow> traffic_history option" where
  "keep_row kr h = (case h of None \<Rightarrow> None | Some h \<Rightarrow> map_option fst (traffic_history_update h (fst kr) (snd kr)))"

definition sample_totals :: "flow_value option \<Rightarrow> u64 \<Rightarrow> traffic_session \<Rightarrow> bool \<times> bool \<times> traffic_session" where
  "sample_totals answer now_ns s =
     (let sn0 = (ts_snapshot s)\<lparr>sn_rx_rate := 0, sn_tx_rate := 0\<rparr>; p = ts_previous_totals s in
      case answer of
        None \<Rightarrow> (True, False, s\<lparr>ts_snapshot := sn0\<rparr>)
      | Some t \<Rightarrow>
          let gap = (fv_rx_bytes t < fv_rx_bytes p \<or> fv_tx_bytes t < fv_tx_bytes p);
              sn1 = sn0\<lparr>sn_rx_bytes := fv_rx_bytes t, sn_tx_bytes := fv_tx_bytes t\<rparr>;
              sn2 = (if gap then sn1
                     else sn1\<lparr>sn_rx_rate := traffic_bytes_per_second (fv_rx_bytes t - fv_rx_bytes p) (now_ns - ts_totals_sample_ns s),
                              sn_tx_rate := traffic_bytes_per_second (fv_tx_bytes t - fv_tx_bytes p) (now_ns - ts_totals_sample_ns s)\<rparr>) in
          (False, gap, s\<lparr>ts_snapshot := sn2, ts_previous_totals := t, ts_totals_sample_ns := now_ns\<rparr>))"

text \<open>The period begins: the time of the header and the new frame of both histories.\<close>

definition sample_begin :: "traffic_text \<Rightarrow> u64 \<Rightarrow> traffic_session \<Rightarrow> traffic_session" where
  "sample_begin tf now_ns s =
     (let stamp = traffic_format_timestamp tf now_ns; elapsed = now_ns - ts_last_report_ns s in
      s\<lparr>ts_snapshot := (ts_snapshot s)\<lparr>sn_timestamp := ascii stamp\<rparr>,
        ts_flow_history := traffic_history_begin stamp now_ns elapsed (ts_flow_history s),
        ts_process_history := traffic_history_begin stamp now_ns elapsed (ts_process_history s)\<rparr>)"

text \<open>The rows with their history keys; the second loop has the flow counts of the first.\<close>

definition flows_shown :: "traffic_text \<Rightarrow> u64 \<Rightarrow> traffic_session \<Rightarrow> flow_row list \<Rightarrow> (bytes \<times> traffic_row \<times> bool) list" where
  "flows_shown tf now_ns s flows =
     map (\<lambda>r. (flow_key_bytes (fst r), flow_display tf (ts_previous_rows s) (ts_last_report_ns s) now_ns r))
       (filter (\<lambda>r. fv_last_seen_ns (snd r) \<noteq> 0) flows)"

definition processes_shown ::
    "traffic_text \<Rightarrow> u64 \<Rightarrow> traffic_session \<Rightarrow> flow_row list \<Rightarrow> process_row list \<Rightarrow> (bytes \<times> traffic_row \<times> bool) list" where
  "processes_shown tf now_ns s flows processes =
     map (\<lambda>i. (process_key_bytes (fst (processes ! i)),
            process_display tf (ts_previous_process_rows s) (ts_last_report_ns s) now_ns (process_flow_count flows processes i) (processes ! i)))
       (filter (\<lambda>i. fv_last_seen_ns (pv_counters (snd (processes ! i))) \<noteq> 0) [0..<length processes])"

definition keep_rows :: "(bytes \<times> traffic_row \<times> bool) list \<Rightarrow> traffic_history \<Rightarrow> traffic_history option" where
  "keep_rows shown h = fold keep_row (map (\<lambda>x. (fst x, fst (snd x))) shown) (Some h)"

text \<open>The end of the sample: the rows of the view, the warning, and the new baseline.\<close>

definition view_rows :: "traffic_row sorter \<Rightarrow> traffic_history \<Rightarrow> traffic_row list" where
  "view_rows qsort h = qsort traffic_display_row_compare (map hr_row (take (th_count h) (th_records h)))"

definition sample_end ::
    "sample_env \<Rightarrow> u64 \<Rightarrow> flow_row list \<Rightarrow> process_row list \<Rightarrow> bool \<Rightarrow> bool \<Rightarrow> traffic_history \<Rightarrow> traffic_history \<Rightarrow> traffic_session \<Rightarrow> traffic_session" where
  "sample_end env now_ns flows processes read_error gap fh ph s =
     s\<lparr>ts_flow_history := fh, ts_process_history := ph,
       ts_flow_rows := view_rows (se_sort_rows env) fh, ts_process_rows := view_rows (se_sort_rows env) ph,
       ts_snapshot := (ts_snapshot s)\<lparr>sn_elapsed_seconds := of_nat (unat (now_ns - ts_start_ns s)) / 1000000000,
         sn_warning := Some (full_warning (th_full fh \<or> th_full ph) (traffic_sample_warning (se_stats env) read_error gap))\<rparr>,
       ts_previous_rows := flows, ts_previous_process_rows := processes\<rparr>"

text \<open>The whole sample; \<open>None\<close> only if a history update does not end.\<close>

definition traffic_sample_display :: "sample_env \<Rightarrow> u64 \<Rightarrow> traffic_session \<Rightarrow> (traffic_output list \<times> traffic_session) option" where
  "traffic_sample_display env now_ns s0 =
     (let tf = se_text env;
          (read_error, total_gap, s) = sample_totals (se_totals env) now_ns (sample_begin tf now_ns s0);
          (flows, read_error1) = traffic_collect_flow_sample (se_sort_flows env) (se_flows env) read_error;
          (processes, read_error2) = traffic_collect_process_sample (se_sort_processes env) (se_processes env) read_error1;
          flow_shown = flows_shown tf now_ns s flows; process_shown = processes_shown tf now_ns s flows processes;
          gap = (total_gap \<or> list_ex (\<lambda>x. snd (snd x)) flow_shown \<or> list_ex (\<lambda>x. snd (snd x)) process_shown) in
      case keep_rows flow_shown (ts_flow_history s) of
        None \<Rightarrow> None
      | Some fh \<Rightarrow>
          (case keep_rows process_shown (ts_process_history s) of
             None \<Rightarrow> None
           | Some ph \<Rightarrow>
               Some (traffic_render_cached (tf_float tf) (se_window env) (sample_end env now_ns flows processes read_error2 gap fh ph s))))"

text \<open>The plain report of one period.\<close>

definition traffic_plain_report :: "sample_env \<Rightarrow> u64 \<Rightarrow> traffic_session \<Rightarrow> traffic_output list \<times> traffic_session" where
  "traffic_plain_report env now_ns s =
     (let (lines, deleted) = traffic_print_snapshot (se_text env) (se_sort_flows env) (ts_l4_proto s) (se_flows env) (ts_last_report_ns s) now_ns;
          (warnings, drops) = traffic_report_drops (se_stats env) (ts_previous_drops s) in
      ([Report lines, Deleted deleted, Warnings warnings], s\<lparr>ts_previous_drops := drops\<rparr>))"

text \<open>\<open>now_ns\<close> is the answer of the clock, 0 when it fails.\<close>

definition report_done :: "u64 \<Rightarrow> bool \<Rightarrow> traffic_session \<Rightarrow> traffic_session" where
  "report_done now_ns force s =
     (let reports = (if force then ts_reports s else ts_reports s + 1) in
      s\<lparr>ts_last_report_ns := now_ns, ts_next_report_ns := now_ns + ucast (ts_interval s) * 1000000000, ts_reports := reports,
        ts_limit_reached := (ts_count s \<noteq> 0 \<and> reports \<ge> ts_count s)\<rparr>)"

definition traffic_tick :: "sample_env \<Rightarrow> u64 \<Rightarrow> bool \<Rightarrow> traffic_session \<Rightarrow> (bool \<times> traffic_output list \<times> traffic_session) option" where
  "traffic_tick env now_ns force s =
     (if \<not> ts_active s \<or> ts_limit_reached s then Some (ts_limit_reached s, [], s)
      else if now_ns = 0 \<or> now_ns < ts_last_report_ns s then Some (False, [], s)
      else if \<not> force \<and> now_ns < ts_next_report_ns s then Some (False, [], s)
      else case (if td_active (ts_display s) then traffic_sample_display env now_ns s else Some (traffic_plain_report env now_ns s)) of
          None \<Rightarrow> None
        | Some (out, s1) \<Rightarrow> Some (ts_limit_reached (report_done now_ns force s1), out, report_done now_ns force s1))"

definition traffic_poll :: "sample_env \<Rightarrow> u8 option list \<Rightarrow> u64 \<Rightarrow> traffic_session \<Rightarrow> (bool \<times> traffic_output list \<times> traffic_session) option" where
  "traffic_poll env input now_ns s =
     (let key = fst (traffic_display_read_key (ts_display s) input) in
      if key = key_of CHR ''q'' then Some (True, [], s)
      else case traffic_display_key (ts_display s) (ts_snapshot s) key of (redraw, d, sn) \<Rightarrow>
        let s1 = s\<lparr>ts_display := d, ts_snapshot := sn\<rparr>;
            (out, s2) = (if redraw then traffic_render_cached (tf_float (se_text env)) (se_window env) s1 else ([], s1)) in
        map_option (\<lambda>(finished, out', s3). (finished, out @ out', s3)) (traffic_tick env now_ns False s2))"

end
