(* ===== verification/TrafficSample.thy ===== *)
theory TrafficSample
  imports TrafficSession "HOL-Library.Multiset"
begin

text \<open>
  What one sample of the traffic monitor reads: one row per key, the newest; the search among the previous
  rows; and the bytes of the periods, which add up to the counters.
\<close>

section \<open>Comparing keys\<close>

lemma memcmp_swap: "memcmp b a = - memcmp a b"
  by (induction a b rule: memcmp.induct) auto

lemma memcmp_eq: "length a = length b \<Longrightarrow> memcmp a b = 0 \<longleftrightarrow> a = b"
  by (induction a b rule: memcmp.induct) auto

lemma memcmp_trans: "length a = length b \<Longrightarrow> length b = length c \<Longrightarrow> memcmp a b \<le> 0 \<Longrightarrow> memcmp b c \<le> 0 \<Longrightarrow> memcmp a c \<le> 0"
proof (induction a b arbitrary: c rule: memcmp.induct)
  case (1 x xs y ys)
  then obtain z zs where c: "c = z # zs"
    by (cases c) auto
  show ?case
    using 1 by (auto simp: c split: if_splits)
qed auto

section \<open>Sorted rows, one per key\<close>

text \<open>
  What the deduplication and the search need of the rows: a comparison that orders valid rows by key, and a
  total order of age.  \<open>sorts\<close> is what the C library promises of \<open>qsort\<close>.
\<close>

definition sorts :: "'r sorter \<Rightarrow> bool" where
  "sorts qsort \<longleftrightarrow> (\<forall>cmp rows. mset (qsort cmp rows) = mset rows \<and>
     ((\<forall>a \<in> set rows. \<forall>b \<in> set rows. cmp b a = - cmp a b) \<and> (\<forall>a \<in> set rows. \<forall>b \<in> set rows. \<forall>c \<in> set rows. cmp a b \<le> 0 \<longrightarrow> cmp b c \<le> 0 \<longrightarrow> cmp a c \<le> 0) \<longrightarrow>
       sorted_wrt (\<lambda>a b. cmp a b \<le> 0) (qsort cmp rows)))"

locale keyed_rows =
  fixes cmp :: "'r \<Rightarrow> 'r \<Rightarrow> int" and newer :: "'r \<Rightarrow> 'r \<Rightarrow> bool" and key :: "'r \<Rightarrow> 'k" and valid :: "'r \<Rightarrow> bool"
  assumes cmp_swap: "cmp b a = - cmp a b"
    and cmp_eq: "valid a \<Longrightarrow> valid b \<Longrightarrow> cmp a b = 0 \<longleftrightarrow> key a = key b"
    and cmp_trans: "valid a \<Longrightarrow> valid b \<Longrightarrow> valid c \<Longrightarrow> cmp a b \<le> 0 \<Longrightarrow> cmp b c \<le> 0 \<Longrightarrow> cmp a c \<le> 0"
    and newer_refl: "newer a a"
    and newer_trans: "newer a b \<Longrightarrow> newer b c \<Longrightarrow> newer a c"
    and newer_total: "newer a b \<or> newer b a"
begin

lemma cmp_less_trans:
  assumes "valid a" "valid b" "valid c" "cmp a b < 0" "cmp b c \<le> 0"
  shows "cmp a c < 0"
proof -
  have "cmp a c \<le> 0"
    using cmp_trans [of a b c] assms by simp
  moreover have "cmp a c \<noteq> 0"
  proof
    assume "cmp a c = 0"
    then have "key a = key c"
      using cmp_eq assms by blast
    then have "cmp c a \<le> 0"
      using cmp_eq [of c a] assms by simp
    then have "cmp b a \<le> 0"
      using cmp_trans [of b c a] assms by simp
    then show False
      using cmp_swap [of b a] assms(4) by simp
  qed
  ultimately show ?thesis
    by simp
qed

text \<open>The rows kept so far: strictly ordered, one per key, the newest of it.\<close>

definition kept :: "'r list \<Rightarrow> 'r list \<Rightarrow> bool" where
  "kept ps acc \<longleftrightarrow> sorted_wrt (\<lambda>b a. cmp a b < 0) acc \<and> set acc \<subseteq> set ps \<and> key ` set acc = key ` set ps \<and>
     (\<forall>out \<in> set acc. \<forall>r \<in> set ps. key r = key out \<longrightarrow> newer out r)"

lemma unique_step_kept:
  assumes ps: "kept ps acc" and v: "\<forall>r \<in> set (ps @ [x]). valid r" and srt: "\<forall>r \<in> set ps. cmp r x \<le> 0"
  shows "kept (ps @ [x]) (unique_step cmp newer x acc)"
proof (cases acc)
  case Nil
  then have "ps = []"
    using ps by (auto simp: kept_def)
  then show ?thesis
    using Nil newer_refl by (auto simp: kept_def unique_step_def)
next
  case (Cons old rest)
  have k: "sorted_wrt (\<lambda>b a. cmp a b < 0) acc" "set acc \<subseteq> set ps" "key ` set acc = key ` set ps" "\<forall>out \<in> set acc. \<forall>r \<in> set ps. key r = key out \<longrightarrow> newer out r"
    using ps by (simp_all add: kept_def)
  have vo: "valid old" "valid x" "cmp old x \<le> 0"
    using v k(2) srt Cons by auto
  have rest: "cmp r old < 0" "valid r" if "r \<in> set rest" for r
    using k(1,2) that v Cons by auto
  have rx: "cmp r x < 0" if "r \<in> set rest" for r
    using cmp_less_trans [of r old x] rest [OF that] vo by simp
  have notkey: "key r \<noteq> key x" if "cmp r x < 0" "valid r" for r
    using cmp_eq [of r x] that vo by auto
  have rk: "key r \<noteq> key x" if "r \<in> set rest" for r
    using notkey rx [OF that] rest [OF that] by blast
  show ?thesis
  proof (cases "cmp old x = 0")
    case same: True
    then have ke: "key old = key x"
      using cmp_eq vo by blast
    show ?thesis
    proof (cases "newer x old")
      case True
      then have step: "unique_step cmp newer x acc = x # rest"
        using same Cons by (simp add: unique_step_def)
      have "newer x r" if "r \<in> set ps" "key r = key x" for r
        using newer_trans [OF True] k(4) that ke Cons by auto
      then show ?thesis
        unfolding kept_def step using k rx rk rk [symmetric] newer_refl ke Cons by auto
    next
      case False
      then have step: "unique_step cmp newer x acc = acc"
        using same Cons by (simp add: unique_step_def)
      have "newer old x"
        using False newer_total by blast
      then show ?thesis
        unfolding kept_def step using k ke rk rk [symmetric] Cons by auto
    qed
  next
    case False
    then have lt: "cmp old x < 0"
      using vo by simp
    have step: "unique_step cmp newer x acc = x # acc"
      using False Cons by (simp add: unique_step_def)
    have lts: "cmp r x < 0" "valid r" if "r \<in> set acc" for r
      using that rx lt rest vo Cons by auto
    have "key r \<noteq> key x" if "r \<in> set ps" for r
    proof -
      have "key r \<in> key ` set acc"
        unfolding k(3) using that by (rule imageI)
      then obtain a where "key r = key a" "a \<in> set acc"
        by (rule imageE)
      then show ?thesis
        using notkey [OF lts] by simp
    qed
    then show ?thesis
      unfolding kept_def step using k lts notkey notkey [symmetric] newer_refl by auto
  qed
qed

lemma unique_kept:
  assumes "\<forall>r \<in> set rows. valid r" and "sorted_wrt (\<lambda>a b. cmp a b \<le> 0) rows"
  shows "kept rows (fold (unique_step cmp newer) rows [])"
  using assms
proof (induction rows rule: rev_induct)
  case Nil
  then show ?case
    by (simp add: kept_def)
next
  case (snoc x ps)
  then show ?case
    using unique_step_kept [of ps "fold (unique_step cmp newer) ps []" x] by (auto simp: sorted_wrt_append)
qed

lemma unique_sorted:
  assumes q: "sorts qsort" and v: "\<forall>r \<in> set rows. valid r"
  defines "out \<equiv> rev (fold (unique_step cmp newer) (qsort cmp rows) [])"
  shows "sorted_wrt (\<lambda>a b. cmp a b < 0) out" and "set out \<subseteq> set rows" and "key ` set out = key ` set rows"
    and "\<forall>o' \<in> set out. \<forall>r \<in> set rows. key r = key o' \<longrightarrow> newer o' r"
proof -
  have m: "mset (qsort cmp rows) = mset rows"
    using q by (simp add: sorts_def)
  then have s: "set (qsort cmp rows) = set rows"
    by (metis set_mset_mset)
  have "sorted_wrt (\<lambda>a b. cmp a b \<le> 0) (qsort cmp rows)"
    using q v cmp_swap cmp_trans unfolding sorts_def by blast
  then have k: "kept rows (fold (unique_step cmp newer) (qsort cmp rows) [])"
    using unique_kept [of "qsort cmp rows"] v by (simp add: s kept_def)
  then show "sorted_wrt (\<lambda>a b. cmp a b < 0) out" "set out \<subseteq> set rows" "key ` set out = key ` set rows"
      "\<forall>o' \<in> set out. \<forall>r \<in> set rows. key r = key o' \<longrightarrow> newer o' r"
    by (simp_all add: out_def kept_def sorted_wrt_rev)
qed

text \<open>The binary search finds the row of a key exactly when there is one.\<close>

lemma bsearch_loop_correct:
  assumes srt: "sorted_wrt (\<lambda>a b. cmp a b < 0) rows" and v: "\<forall>r \<in> set rows. valid r" "valid x" and hi: "hi \<le> length rows"
    and inside: "\<forall>i < length rows. key (rows ! i) = key x \<longrightarrow> lo \<le> i \<and> i < hi"
  shows "(case bsearch_loop (cmp x) rows lo hi of Some i \<Rightarrow> i < length rows \<and> key (rows ! i) = key x | None \<Rightarrow> \<forall>r \<in> set rows. key r \<noteq> key x)"
  using hi inside
proof (induction "hi - lo" arbitrary: lo hi rule: less_induct)
  case less
  show ?case
  proof (cases "lo < hi")
    case False
    then have "bsearch_loop (cmp x) rows lo hi = None"
      by (simp add: bsearch_loop.simps)
    then show ?thesis
      using False less.prems by (fastforce simp: in_set_conv_nth)
  next
    case True
    define i where "i = (lo + hi) div 2"
    have i: "lo \<le> i" "i < hi" "i < length rows"
      using True less.prems(1) by (auto simp: i_def)
    have vi: "valid (rows ! i)"
      using v i(3) by simp
    have lower: "cmp (rows ! j) (rows ! i) < 0" if "j < i" for j
      using srt that i(3) by (simp add: sorted_wrt_iff_nth_less)
    have upper: "cmp (rows ! i) (rows ! j) < 0" if "i < j" "j < length rows" for j
      using srt that by (simp add: sorted_wrt_iff_nth_less)
    consider "cmp x (rows ! i) < 0" | "0 < cmp x (rows ! i)" | "cmp x (rows ! i) = 0"
      by linarith
    then show ?thesis
    proof cases
      case 1
      have "j < i" if "j < length rows" "key (rows ! j) = key x" for j
      proof (rule ccontr)
        assume "\<not> j < i"
        then have "i = j \<or> cmp (rows ! i) (rows ! j) < 0"
          using upper [of j] that(1) by (cases "i = j") simp_all
        moreover have "valid (rows ! j)"
          using v(1) that(1) by simp
        ultimately have "cmp x (rows ! j) < 0"
          using 1 cmp_less_trans [OF v(2) vi, of "rows ! j"] by fastforce
        then show False
          using cmp_eq [of x "rows ! j"] that v by auto
      qed
      then have "case bsearch_loop (cmp x) rows lo i of Some i \<Rightarrow> i < length rows \<and> key (rows ! i) = key x | None \<Rightarrow> \<forall>r \<in> set rows. key r \<noteq> key x"
        using less i by (intro less.hyps) auto
      then show ?thesis
        using True 1 by (simp add: bsearch_loop.simps [of "cmp x" rows lo hi] i_def Let_def)
    next
      case 2
      have sw: "cmp (rows ! i) x < 0"
        using 2 cmp_swap [of "rows ! i" x] by simp
      have "i < j" if "j < length rows" "key (rows ! j) = key x" for j
      proof (rule ccontr)
        assume "\<not> i < j"
        then have "i = j \<or> cmp (rows ! j) (rows ! i) < 0"
          using lower [of j] by (cases "i = j") simp_all
        moreover have "valid (rows ! j)"
          using v(1) that(1) by simp
        ultimately have "cmp (rows ! j) x < 0"
          using sw cmp_less_trans [OF _ vi v(2), of "rows ! j"] by fastforce
        then show False
          using cmp_eq [of "rows ! j" x] that v by auto
      qed
      then have in2: "\<forall>j < length rows. key (rows ! j) = key x \<longrightarrow> i + 1 \<le> j \<and> j < hi"
        using less.prems(2) by (metis Suc_eq_plus1 Suc_leI)
      have "hi - (i + 1) < hi - lo"
        using i by simp
      from less.hyps [OF this less.prems(1) in2]
      have "case bsearch_loop (cmp x) rows (i + 1) hi of Some i \<Rightarrow> i < length rows \<and> key (rows ! i) = key x | None \<Rightarrow> \<forall>r \<in> set rows. key r \<noteq> key x" .
      then show ?thesis
        using True 2 by (simp add: bsearch_loop.simps [of "cmp x" rows lo hi] i_def Let_def)
    next
      case 3
      then have "bsearch_loop (cmp x) rows lo hi = Some i" "key (rows ! i) = key x"
        using True cmp_eq [of x "rows ! i"] v vi by (simp_all add: bsearch_loop.simps [of "cmp x" rows lo hi] i_def Let_def)
      then show ?thesis
        using i by simp
    qed
  qed
qed

lemma bsearch_correct:
  assumes "sorted_wrt (\<lambda>a b. cmp a b < 0) rows" "\<forall>r \<in> set rows. valid r" "valid x"
  shows "(case bsearch (cmp x) rows of Some i \<Rightarrow> i < length rows \<and> key (rows ! i) = key x | None \<Rightarrow> \<forall>r \<in> set rows. key r \<noteq> key x)"
  unfolding bsearch_def by (rule bsearch_loop_correct [OF assms]) auto

text \<open>With one row per key, the search is the lookup of the key.\<close>

lemma sorted_distinct_keys:
  assumes "sorted_wrt (\<lambda>a b. cmp a b < 0) rows" "\<forall>r \<in> set rows. valid r"
  shows "distinct (map key rows)"
  using assms
proof (induction rows)
  case (Cons r rows)
  have "key r \<noteq> key s" if "s \<in> set rows" for s
    using Cons.prems that cmp_eq [of r s] by auto
  then show ?case
    using Cons by auto
qed simp

end

section \<open>The keys of the maps\<close>

text \<open>The byte arrays of a key have their length.\<close>

definition flow_key_ok :: "flow_key \<Rightarrow> bool" where
  "flow_key_ok k \<longleftrightarrow> length (fk_laddr k) = 16 \<and> length (fk_raddr k) = 16 \<and> length (fk_comm k) = 16"

lemma flow_key_bytes_length: "flow_key_ok k \<Longrightarrow> length (flow_key_bytes k) = 72"
  by (simp add: flow_key_ok_def flow_key_bytes_def)

lemma process_key_bytes_length: "length (process_key_bytes k) = 16"
  by (simp add: process_key_bytes_def)

lemma le_bytes_inject: "8 * n = LENGTH('a) \<Longrightarrow> le_bytes n v = le_bytes n w \<longleftrightarrow> v = w" for v w :: "'a::len word"
  by (metis le_word_le_bytes take_bit_word_eq_self order_refl)

lemma flow_key_bytes_inject: "flow_key_ok k \<Longrightarrow> flow_key_ok l \<Longrightarrow> flow_key_bytes k = flow_key_bytes l \<longleftrightarrow> k = l"
  by (cases k, cases l) (auto simp: flow_key_ok_def flow_key_bytes_def le_bytes_inject)

lemma process_key_bytes_inject: "process_key_bytes k = process_key_bytes l \<longleftrightarrow> k = l"
  by (cases k, cases l) (auto simp: process_key_bytes_def le_bytes_inject)

interpretation flow_rows: keyed_rows traffic_flow_key_compare flow_newer fst "\<lambda>r. flow_key_ok (fst r)"
proof
  fix a b c :: flow_row
  show "traffic_flow_key_compare b a = - traffic_flow_key_compare a b"
    by (simp add: traffic_flow_key_compare_def memcmp_swap [of "flow_key_bytes (fst b)"])
  show "traffic_flow_key_compare a b = 0 \<longleftrightarrow> fst a = fst b" if "flow_key_ok (fst a)" "flow_key_ok (fst b)"
    using that by (simp add: traffic_flow_key_compare_def memcmp_eq flow_key_bytes_length flow_key_bytes_inject)
  show "traffic_flow_key_compare a c \<le> 0" if "flow_key_ok (fst a)" "flow_key_ok (fst b)" "flow_key_ok (fst c)"
      "traffic_flow_key_compare a b \<le> 0" "traffic_flow_key_compare b c \<le> 0"
    using that memcmp_trans unfolding traffic_flow_key_compare_def by (metis flow_key_bytes_length)
qed (auto simp: flow_newer_def)

interpretation process_rows: keyed_rows traffic_process_key_compare process_newer fst "\<lambda>r. True"
proof
  fix a b c :: process_row
  show "traffic_process_key_compare b a = - traffic_process_key_compare a b"
    by (simp add: traffic_process_key_compare_def memcmp_swap [of "process_key_bytes (fst b)"])
  show "traffic_process_key_compare a b = 0 \<longleftrightarrow> fst a = fst b"
    by (simp add: traffic_process_key_compare_def memcmp_eq process_key_bytes_length process_key_bytes_inject)
  show "traffic_process_key_compare a c \<le> 0" if "traffic_process_key_compare a b \<le> 0" "traffic_process_key_compare b c \<le> 0"
    using that memcmp_trans unfolding traffic_process_key_compare_def by (metis process_key_bytes_length)
qed (auto simp: process_newer_def)

section \<open>The walk over a map\<close>

text \<open>The keys that a walk visits, and what it found until round \<open>n\<close>.\<close>

fun visit :: "('k, 'v) map_walk \<Rightarrow> nat \<Rightarrow> 'k option" where
  "visit walk 0 = (case fst walk of NextKey k \<Rightarrow> Some k | _ \<Rightarrow> None)"
| "visit walk (Suc i) = (if visit walk i = None then None else case fst (snd walk i) of NextKey k \<Rightarrow> Some k | _ \<Rightarrow> None)"

definition found_until :: "('k, 'v) map_walk \<Rightarrow> nat \<Rightarrow> ('k \<times> 'v) list" where
  "found_until walk n = concat (map (\<lambda>i. case (visit walk i, snd (snd walk i)) of (Some k, Some v) \<Rightarrow> [(k, v)] | _ \<Rightarrow> []) [0..<n])"

text \<open>The walk visited every key it was told of, found each, and was told that there are no more.\<close>

definition walk_complete :: "('k, 'v) map_walk \<Rightarrow> nat \<Rightarrow> bool" where
  "walk_complete walk n \<longleftrightarrow> (\<forall>i < n. visit walk i \<noteq> None \<and> snd (snd walk i) \<noteq> None) \<and>
     (case n of 0 \<Rightarrow> fst walk = NextNone | Suc m \<Rightarrow> fst (snd walk m) = NextNone)"

lemma found_until_Suc:
  "found_until walk (Suc n) = found_until walk n @ (case (visit walk n, snd (snd walk n)) of (Some k, Some v) \<Rightarrow> [(k, v)] | _ \<Rightarrow> [])"
  by (simp add: found_until_def)

lemma collect_loop_spec:
  assumes "visit walk n = Some key" and "rows = found_until walk n" and "length rows < capacity"
    and "\<not> incomplete \<Longrightarrow> \<forall>i < n. visit walk i \<noteq> None \<and> snd (snd walk i) \<noteq> None"
  shows "\<exists>m. fst (collect_loop capacity (snd walk) n key rows incomplete) = found_until walk m \<and> length (found_until walk m) \<le> capacity \<and>
     (\<not> snd (collect_loop capacity (snd walk) n key rows incomplete) \<longrightarrow> walk_complete walk m)"
  using assms
proof (induction "capacity * 2 - n" arbitrary: n key rows incomplete rule: less_induct)
  case less
  let ?loop = "collect_loop capacity (snd walk)"
  obtain next_answer found where a: "snd walk n = (next_answer, found)"
    by (cases "snd walk n")
  show ?case
  proof (cases "n < capacity * 2")
    case False
    then show ?thesis
      using less.prems by (subst (1 2) collect_loop.simps) (intro exI [of _ n], simp)
  next
    case True
    define rows1 where "rows1 = (case found of None \<Rightarrow> rows | Some v \<Rightarrow> rows @ [(key, v)])"
    define inc1 where "inc1 = (incomplete \<or> found = None)"
    have rows1: "rows1 = found_until walk (Suc n)" "length rows1 \<le> capacity"
      using less.prems a by (auto simp: rows1_def found_until_Suc split: option.splits)
    have all: "\<forall>i < Suc n. visit walk i \<noteq> None \<and> snd (snd walk i) \<noteq> None" if "\<not> inc1"
      using that less.prems a by (auto simp: inc1_def less_Suc_eq)
    have step: "?loop n key rows incomplete = (case next_answer of NextNone \<Rightarrow> (rows1, inc1) | NextError \<Rightarrow> (rows1, True)
        | NextKey k \<Rightarrow> if length rows1 = capacity then (rows1, True) else ?loop (n + 1) k rows1 inc1)"
      using True a by (subst collect_loop.simps) (auto simp: rows1_def inc1_def split: option.splits next_key.splits)
    show ?thesis
    proof (cases next_answer)
      case (NextKey k)
      show ?thesis
      proof (cases "length rows1 = capacity")
        case True
        then show ?thesis
          using rows1 NextKey by (intro exI [of _ "Suc n"]) (simp add: step)
      next
        case False
        have "visit walk (Suc n) = Some k"
          using less.prems(1) a NextKey by simp
        then show ?thesis
          using less.hyps [of "Suc n" k rows1 inc1] True rows1 all False NextKey by (simp add: step)
      qed
    next
      case NextNone
      then show ?thesis
        using rows1 all a by (intro exI [of _ "Suc n"]) (simp add: step walk_complete_def)
    next
      case NextError
      then show ?thesis
        using rows1 by (intro exI [of _ "Suc n"]) (simp add: step)
    qed
  qed
qed

lemma collect_sample_spec:
  assumes "0 < capacity"
  shows "\<exists>m. fst (collect_sample capacity walk incomplete) = found_until walk m \<and> length (found_until walk m) \<le> capacity \<and>
     (\<not> snd (collect_sample capacity walk incomplete) \<longrightarrow> walk_complete walk m)"
proof (cases "fst walk")
  case (NextKey k)
  then show ?thesis
    using collect_loop_spec [of walk 0 k "[]" capacity incomplete] assms by (simp add: collect_sample_def found_until_def)
next
  case NextNone
  then show ?thesis
    by (intro exI [of _ 0]) (simp add: collect_sample_def found_until_def walk_complete_def)
next
  case NextError
  then show ?thesis
    by (intro exI [of _ 0]) (simp add: collect_sample_def found_until_def)
qed


section \<open>One sample\<close>

text \<open>With one row per key, the search finds the value of the key.\<close>

context keyed_rows
begin

lemma bsearch_lookup:
  assumes srt: "sorted_wrt (\<lambda>a b. cmp a b < 0) rows" and v: "\<forall>r \<in> set rows. valid r" "valid x"
  shows "map_option (\<lambda>i. rows ! i) (bsearch (cmp x) rows) = map_of (map (\<lambda>r. (key r, r)) rows) (key x)"
proof (cases "bsearch (cmp x) rows")
  case None
  then have "\<forall>r \<in> set rows. key r \<noteq> key x"
    using bsearch_correct [OF srt v] by simp
  then have "map_of (map (\<lambda>r. (key r, r)) rows) (key x) = None"
    by (auto simp: map_of_eq_None_iff)
  with None show ?thesis
    by simp
next
  case (Some i)
  then have i: "i < length rows" "key (rows ! i) = key x"
    using bsearch_correct [OF srt v] by auto
  moreover have "distinct (map fst (map (\<lambda>r. (key r, r)) rows))"
    using sorted_distinct_keys [OF srt v(1)] by (simp add: comp_def)
  ultimately have "map_of (map (\<lambda>r. (key r, r)) rows) (key x) = Some (rows ! i)"
    by (intro map_of_is_SomeI) (auto intro!: image_eqI [of _ _ "rows ! i"])
  with Some show ?thesis
    by simp
qed

end

lemma map_of_pairs: "map_of (map (\<lambda>r. (fst r, r)) rows) k = map_option (\<lambda>v. (k, v)) (map_of rows k)"
  by (induction rows) auto

lemma flow_lookup:
  assumes "sorted_wrt (\<lambda>a b. traffic_flow_key_compare a b < 0) rows" and "\<forall>r \<in> set rows. flow_key_ok (fst r)" and "flow_key_ok (fst x)"
  shows "map_option (\<lambda>i. snd (rows ! i)) (bsearch (traffic_flow_key_compare x) rows) = map_of rows (fst x)"
proof -
  have "map_option snd (map_option (\<lambda>i. rows ! i) (bsearch (traffic_flow_key_compare x) rows)) = map_option snd (map_option (\<lambda>v. (fst x, v)) (map_of rows (fst x)))"
    using flow_rows.bsearch_lookup [OF assms] by (simp add: map_of_pairs)
  then show ?thesis
    by (simp add: option.map_comp comp_def option.map_ident)
qed

text \<open>The keys that a walk returns come from the map.\<close>

definition walk_keys_ok :: "(flow_key, 'v) map_walk \<Rightarrow> bool" where
  "walk_keys_ok walk \<longleftrightarrow> (\<forall>i k. visit walk i = Some k \<longrightarrow> flow_key_ok k)"

lemma found_until_keys: "walk_keys_ok walk \<Longrightarrow> r \<in> set (found_until walk n) \<Longrightarrow> flow_key_ok (fst r)"
  by (induction n) (auto simp: found_until_Suc walk_keys_ok_def found_until_def split: option.splits)

lemma flow_sample_rows:
  assumes q: "sorts qsort" and k: "walk_keys_ok walk" and s: "traffic_collect_flow_sample qsort walk incomplete = (rows, inc)"
  shows "sorted_wrt (\<lambda>a b. traffic_flow_key_compare a b < 0) rows" and "\<forall>r \<in> set rows. flow_key_ok (fst r)"
    and "\<exists>n. set rows \<subseteq> set (found_until walk n) \<and> fst ` set rows = fst ` set (found_until walk n) \<and> length (found_until walk n) \<le> TRAFFIC_MAX_FLOWS \<and>
       (\<forall>r \<in> set rows. \<forall>r' \<in> set (found_until walk n). fst r' = fst r \<longrightarrow> flow_newer r r') \<and> (\<not> inc \<longrightarrow> walk_complete walk n)"
proof -
  obtain n where n: "fst (collect_sample TRAFFIC_MAX_FLOWS walk incomplete) = found_until walk n" "length (found_until walk n) \<le> TRAFFIC_MAX_FLOWS"
      "\<not> snd (collect_sample TRAFFIC_MAX_FLOWS walk incomplete) \<longrightarrow> walk_complete walk n"
    using collect_sample_spec [of TRAFFIC_MAX_FLOWS walk incomplete] by (auto simp: TRAFFIC_MAX_FLOWS_def)
  have rows: "rows = traffic_unique_flows qsort (found_until walk n)" "inc = snd (collect_sample TRAFFIC_MAX_FLOWS walk incomplete)"
    using s n(1) by (auto simp: traffic_collect_flow_sample_def split: prod.splits)
  note u = flow_rows.unique_sorted [OF q, of "found_until walk n", folded traffic_unique_flows_def, folded rows(1)]
  have v: "\<forall>r \<in> set (found_until walk n). flow_key_ok (fst r)"
    using found_until_keys [OF k] by blast
  show "sorted_wrt (\<lambda>a b. traffic_flow_key_compare a b < 0) rows" "\<forall>r \<in> set rows. flow_key_ok (fst r)"
    using u(1,2) [OF v] v by auto
  show "\<exists>n. set rows \<subseteq> set (found_until walk n) \<and> fst ` set rows = fst ` set (found_until walk n) \<and> length (found_until walk n) \<le> TRAFFIC_MAX_FLOWS \<and>
       (\<forall>r \<in> set rows. \<forall>r' \<in> set (found_until walk n). fst r' = fst r \<longrightarrow> flow_newer r r') \<and> (\<not> inc \<longrightarrow> walk_complete walk n)"
    using u [OF v] n rows by blast
qed

lemma unique_step_length: "length (unique_step cmp newer r acc) \<le> Suc (length acc)"
  by (auto simp: unique_step_def split: list.splits)

lemma unique_length: "length (fold (unique_step cmp newer) rows acc) \<le> length rows + length acc"
proof (induction rows arbitrary: acc)
  case (Cons r rows)
  show ?case
    using Cons [of "unique_step cmp newer r acc"] unique_step_length [of cmp newer r acc] by simp
qed simp

lemma sorts_length: "sorts qsort \<Longrightarrow> length (qsort cmp rows) = length rows"
  unfolding sorts_def by (metis size_mset)

lemma flow_sample_length:
  assumes "sorts qsort"
  shows "length (fst (traffic_collect_flow_sample qsort walk incomplete)) \<le> TRAFFIC_MAX_FLOWS"
proof -
  obtain n where n: "fst (collect_sample TRAFFIC_MAX_FLOWS walk incomplete) = found_until walk n" "length (found_until walk n) \<le> TRAFFIC_MAX_FLOWS"
    using collect_sample_spec [of TRAFFIC_MAX_FLOWS walk incomplete] by (auto simp: TRAFFIC_MAX_FLOWS_def)
  then show ?thesis
    using unique_length [of traffic_flow_key_compare flow_newer "qsort traffic_flow_key_compare (found_until walk n)" "[]"] sorts_length [OF assms]
    by (auto simp: traffic_collect_flow_sample_def traffic_unique_flows_def split: prod.splits)
qed

lemma process_sample_length:
  assumes "sorts qsort"
  shows "length (fst (traffic_collect_process_sample qsort walk incomplete)) \<le> TRAFFIC_MAX_PROCESSES"
proof -
  obtain n where n: "fst (collect_sample TRAFFIC_MAX_PROCESSES walk incomplete) = found_until walk n" "length (found_until walk n) \<le> TRAFFIC_MAX_PROCESSES"
    using collect_sample_spec [of TRAFFIC_MAX_PROCESSES walk incomplete] by (auto simp: TRAFFIC_MAX_PROCESSES_def)
  then show ?thesis
    using unique_length [of traffic_process_key_compare process_newer "qsort traffic_process_key_compare (found_until walk n)" "[]"] sorts_length [OF assms]
    by (auto simp: traffic_collect_process_sample_def traffic_unique_processes_def split: prod.splits)
qed

text \<open>
  C36. One row per flow.  Whatever the map does during the walk, the sample has at most 16384 rows, each
  read from the map; every flow that was found has exactly one row, no older than any other reading of
  it; the binary search among them is the lookup of a key; and when the sample is not marked
  incomplete, the walk saw the whole map: each key it was told of was read, and it ended because there was no
  further key.
\<close>

theorem traffic_sample_rows:
  assumes "sorts qsort" and "walk_keys_ok walk" and "traffic_collect_flow_sample qsort walk False = (rows, incomplete)"
  shows "\<exists>n. length rows \<le> TRAFFIC_MAX_FLOWS \<and> distinct (map fst rows) \<and> set rows \<subseteq> set (found_until walk n) \<and>
      fst ` set rows = fst ` set (found_until walk n) \<and>
      (\<forall>r \<in> set rows. \<forall>r' \<in> set (found_until walk n). fst r' = fst r \<longrightarrow> flow_newer r r') \<and>
      (\<forall>k v. flow_key_ok k \<longrightarrow> map_option (\<lambda>i. snd (rows ! i)) (bsearch (traffic_flow_key_compare (k, v)) rows) = map_of rows k) \<and>
      (\<not> incomplete \<longrightarrow> walk_complete walk n)"
proof -
  note s = flow_sample_rows [OF assms]
  have "length rows \<le> TRAFFIC_MAX_FLOWS" "distinct (map fst rows)"
    using flow_sample_length [OF assms(1), of walk False] assms(3) flow_rows.sorted_distinct_keys [OF s(1,2)] by auto
  moreover have "map_option (\<lambda>i. snd (rows ! i)) (bsearch (traffic_flow_key_compare (k, v)) rows) = map_of rows k" if "flow_key_ok k" for k v
    using flow_lookup [OF s(1,2), of "(k, v)"] that by simp
  ultimately show ?thesis
    using s(3) by blast
qed

section \<open>The bytes of the periods\<close>

lemma collect_loop_rows: "fst (collect_loop capacity answers n key rows inc) = fst (collect_loop capacity answers n key rows inc')"
proof (induction "capacity * 2 - n" arbitrary: n key rows inc inc' rule: less_induct)
  case less
  obtain next_answer found where a: "answers n = (next_answer, found)"
    by (cases "answers n")
  show ?case
  proof (cases "n < capacity * 2")
    case True
    have "fst (collect_loop capacity answers (n + 1) k rows1 i) = fst (collect_loop capacity answers (n + 1) k rows1 i')" for k rows1 i i'
      using less [of "n + 1"] True by simp
    then show ?thesis
      using True a by (subst (1 2) collect_loop.simps) (simp split: option.splits next_key.splits)
  qed (simp add: collect_loop.simps)
qed

lemma collect_sample_rows: "fst (collect_sample capacity walk inc) = fst (collect_sample capacity walk inc')"
  using collect_loop_rows by (auto simp: collect_sample_def split: next_key.splits)

lemma flow_sample_incomplete:
  "fst (traffic_collect_flow_sample qsort walk inc) = fst (traffic_collect_flow_sample qsort walk False)"
  using collect_sample_rows [of TRAFFIC_MAX_FLOWS walk inc False]
  by (auto simp: traffic_collect_flow_sample_def split: prod.splits)

lemma render_cached_frame [simp]:
  "ts_previous_rows (snd (traffic_render_cached pf w s)) = ts_previous_rows s"
  "ts_previous_process_rows (snd (traffic_render_cached pf w s)) = ts_previous_process_rows s"
  "ts_flow_rows (snd (traffic_render_cached pf w s)) = ts_flow_rows s"
  "ts_process_rows (snd (traffic_render_cached pf w s)) = ts_process_rows s"
  "ts_flow_history (snd (traffic_render_cached pf w s)) = ts_flow_history s"
  "ts_process_history (snd (traffic_render_cached pf w s)) = ts_process_history s"
  "ts_last_report_ns (snd (traffic_render_cached pf w s)) = ts_last_report_ns s"
  "ts_next_report_ns (snd (traffic_render_cached pf w s)) = ts_next_report_ns s"
  "ts_interval (snd (traffic_render_cached pf w s)) = ts_interval s"
  "ts_count (snd (traffic_render_cached pf w s)) = ts_count s"
  "ts_reports (snd (traffic_render_cached pf w s)) = ts_reports s"
  "ts_active (snd (traffic_render_cached pf w s)) = ts_active s"
  "ts_limit_reached (snd (traffic_render_cached pf w s)) = ts_limit_reached s"
  "ts_arrays (snd (traffic_render_cached pf w s)) = ts_arrays s"
  "ts_rows (snd (traffic_render_cached pf w s)) = ts_rows s"
  "ts_skel (snd (traffic_render_cached pf w s)) = ts_skel s"
  by (auto simp: traffic_render_cached_def Let_def split: prod.splits)

lemma render_body_display: "\<exists>x. snd (render_body pf sn d wide spacing f) = d\<lparr>td_first_row := x\<rparr>"
  unfolding render_body_def Let_def case_prod_beta snd_conv by blast

lemma render_history_display: "\<exists>x. snd (traffic_render_history pf deref p sn d f) = d\<lparr>td_history_scroll := x\<rparr>"
proof -
  have self: "\<exists>x. d = d\<lparr>td_history_scroll := x\<rparr>"
    by (rule exI [of _ "td_history_scroll d"]) simp
  show ?thesis
    by (cases "sn_history sn") (simp_all add: traffic_render_history_def Let_def self, blast)
qed

text \<open>Drawing changes only the two scroll positions.\<close>

definition same_view :: "traffic_display \<Rightarrow> traffic_display \<Rightarrow> bool" where
  "same_view d d' \<longleftrightarrow> td_active d' = td_active d \<and> td_input_saved d' = td_input_saved d \<and> td_history_record d' = td_history_record d"

lemma same_view_refl [simp]: "same_view d d"
  by (simp add: same_view_def)

lemma render_body_view: "same_view d (snd (render_body pf sn d wide spacing f))"
proof -
  obtain x where "snd (render_body pf sn d wide spacing f) = d\<lparr>td_first_row := x\<rparr>"
    using render_body_display by blast
  then show ?thesis
    by (simp add: same_view_def)
qed

lemma render_display: "same_view d (snd (traffic_display_render pf w deref sn d))"
proof -
  have h: "same_view d (snd (traffic_render_history pf deref p sn' d f))" for p sn' f
    using render_history_display [of pf deref p sn' d f] by (auto simp: same_view_def)
  have b: "same_view d (snd (render_details pf sn' d f))" for sn' f
    unfolding render_details_def Let_def by (rule render_body_view)
  show ?thesis
  proof (cases sn)
    case (Some sn')
    show ?thesis
      unfolding traffic_display_render_def Some Let_def option.case case_prod_beta
      by (cases "td_history_record d") (simp_all add: h b)
  qed (simp add: traffic_display_render_def)
qed

definition sampled :: "sample_env \<Rightarrow> u64 \<Rightarrow> traffic_session \<Rightarrow> traffic_session" where
  "sampled env now s = snd (snd (sample_totals (se_totals env) now (sample_begin (se_text env) now s)))"

lemma sampled_frame [simp]:
  "ts_previous_rows (sampled env now s) = ts_previous_rows s"
  "ts_previous_process_rows (sampled env now s) = ts_previous_process_rows s"
  "ts_last_report_ns (sampled env now s) = ts_last_report_ns s"
  "ts_next_report_ns (sampled env now s) = ts_next_report_ns s"
  "ts_interval (sampled env now s) = ts_interval s"
  "ts_count (sampled env now s) = ts_count s"
  "ts_reports (sampled env now s) = ts_reports s"
  "ts_active (sampled env now s) = ts_active s"
  "ts_limit_reached (sampled env now s) = ts_limit_reached s"
  "ts_arrays (sampled env now s) = ts_arrays s"
  "ts_rows (sampled env now s) = ts_rows s"
  "ts_skel (sampled env now s) = ts_skel s"
  "ts_display (sampled env now s) = ts_display s"
  "sn_flows (ts_snapshot (sampled env now s)) = sn_flows (ts_snapshot s)"
  "ts_flow_history (sampled env now s) = traffic_history_begin (traffic_format_timestamp (se_text env) now) now (now - ts_last_report_ns s) (ts_flow_history s)"
  "ts_process_history (sampled env now s) = traffic_history_begin (traffic_format_timestamp (se_text env) now) now (now - ts_last_report_ns s) (ts_process_history s)"
  by (auto simp: sampled_def sample_totals_def sample_begin_def Let_def split: option.splits)

text \<open>The parts of a sample: its rows do not depend on what was read before them.\<close>

definition sample_flows :: "sample_env \<Rightarrow> flow_row list" where
  "sample_flows env = fst (traffic_collect_flow_sample (se_sort_flows env) (se_flows env) False)"

definition sample_processes :: "sample_env \<Rightarrow> process_row list" where
  "sample_processes env = fst (traffic_collect_process_sample (se_sort_processes env) (se_processes env) False)"

lemma process_sample_incomplete:
  "fst (traffic_collect_process_sample qsort walk inc) = fst (traffic_collect_process_sample qsort walk False)"
  using collect_sample_rows [of TRAFFIC_MAX_PROCESSES walk inc False]
  by (auto simp: traffic_collect_process_sample_def split: prod.splits)

lemma sample_display_parts:
  obtains re gap where "traffic_sample_display env now s =
     (case keep_rows (flows_shown (se_text env) now s (sample_flows env)) (ts_flow_history (sampled env now s)) of
        None \<Rightarrow> None
      | Some fh \<Rightarrow>
          (case keep_rows (processes_shown (se_text env) now s (sample_flows env) (sample_processes env)) (ts_process_history (sampled env now s)) of
             None \<Rightarrow> None
           | Some ph \<Rightarrow> Some (traffic_render_cached (tf_float (se_text env)) (se_window env)
               (sample_end env now (sample_flows env) (sample_processes env) re gap fh ph (sampled env now s)))))"
proof -
  obtain re tg s2 where t: "sample_totals (se_totals env) now (sample_begin (se_text env) now s) = (re, tg, s2)"
    by (cases "sample_totals (se_totals env) now (sample_begin (se_text env) now s)")
  then have s2: "s2 = sampled env now s"
    by (simp add: sampled_def)
  obtain flows re1 where f: "traffic_collect_flow_sample (se_sort_flows env) (se_flows env) re = (flows, re1)"
    by (cases "traffic_collect_flow_sample (se_sort_flows env) (se_flows env) re")
  then have flows: "flows = sample_flows env"
    using flow_sample_incomplete [of "se_sort_flows env" "se_flows env" re] by (simp add: sample_flows_def)
  obtain processes re2 where p: "traffic_collect_process_sample (se_sort_processes env) (se_processes env) re1 = (processes, re2)"
    by (cases "traffic_collect_process_sample (se_sort_processes env) (se_processes env) re1")
  then have processes: "processes = sample_processes env"
    using process_sample_incomplete [of "se_sort_processes env" "se_processes env" re1] by (simp add: sample_processes_def)
  have shown: "flows_shown (se_text env) now (sampled env now s) = flows_shown (se_text env) now s"
      "processes_shown (se_text env) now (sampled env now s) = processes_shown (se_text env) now s"
    by (intro ext, simp add: flows_shown_def processes_shown_def)+
  show ?thesis
    by (rule that) (unfold traffic_sample_display_def Let_def t f p prod.case s2 flows processes shown, rule refl)
qed

lemma sample_display_session:
  assumes "traffic_sample_display env now s = Some (out, s')"
  shows "ts_previous_rows s' = sample_flows env \<and> ts_interval s' = ts_interval s \<and> ts_count s' = ts_count s \<and> ts_reports s' = ts_reports s \<and>
     ts_active s' = ts_active s \<and> ts_limit_reached s' = ts_limit_reached s \<and> td_active (ts_display s') = td_active (ts_display s)"
proof -
  obtain re gap where p: "traffic_sample_display env now s =
     (case keep_rows (flows_shown (se_text env) now s (sample_flows env)) (ts_flow_history (sampled env now s)) of
        None \<Rightarrow> None
      | Some fh \<Rightarrow>
          (case keep_rows (processes_shown (se_text env) now s (sample_flows env) (sample_processes env)) (ts_process_history (sampled env now s)) of
             None \<Rightarrow> None
           | Some ph \<Rightarrow> Some (traffic_render_cached (tf_float (se_text env)) (se_window env)
               (sample_end env now (sample_flows env) (sample_processes env) re gap fh ph (sampled env now s)))))"
    by (rule sample_display_parts)
  then obtain fh ph where e: "(out, s') = traffic_render_cached (tf_float (se_text env)) (se_window env)
               (sample_end env now (sample_flows env) (sample_processes env) re gap fh ph (sampled env now s))"
    using assms by (auto split: option.splits)
  have "td_active (ts_display (snd (traffic_render_cached pf w u))) = td_active (ts_display u)" for pf w u
    using render_display by (auto simp: traffic_render_cached_def Let_def same_view_def case_prod_beta)
  then show ?thesis
    using arg_cong [OF e, of snd] by (simp add: sample_end_def)
qed

text \<open>
  What the ticks of an interactive session show for a flow: for each tick that reports, the start of its period,
  the value that was sampled, and the bytes of the period with whether a rate is unavailable.
\<close>

definition tick_due :: "u64 \<Rightarrow> bool \<Rightarrow> traffic_session \<Rightarrow> bool" where
  "tick_due now force s \<longleftrightarrow> ts_active s \<and> \<not> ts_limit_reached s \<and> now \<noteq> 0 \<and> ts_last_report_ns s \<le> now \<and> (force \<or> ts_next_report_ns s \<le> now)"

type_synonym period = "u64 \<times> flow_value option \<times> u64 \<times> u64 \<times> bool"

definition shown_period :: "flow_key \<Rightarrow> sample_env \<Rightarrow> u64 \<Rightarrow> traffic_session \<Rightarrow> period" where
  "shown_period k env now s =
     (ts_last_report_ns s, map_of (sample_flows env) k,
      (case map_of (sample_flows env) k of
         None \<Rightarrow> (0, 0, False)
       | Some v \<Rightarrow>
           (case flow_display (se_text env) (ts_previous_rows s) (ts_last_report_ns s) now (k, v) of (row, gap) \<Rightarrow>
              (row_rx_delta row, row_tx_delta row, gap))))"

fun shown_periods :: "flow_key \<Rightarrow> (sample_env \<times> u64 \<times> bool) list \<Rightarrow> traffic_session \<Rightarrow> period list option" where
  "shown_periods k [] s = Some []"
| "shown_periods k ((env, now, force) # ticks) s =
     (case traffic_tick env now force s of
        None \<Rightarrow> None
      | Some (finished, out, s1) \<Rightarrow>
          map_option (\<lambda>ps. if tick_due now force s then shown_period k env now s # ps else ps) (shown_periods k ticks s1))"

text \<open>Each period is measured against the value of the period before.\<close>

definition period_ok :: "flow_value option \<Rightarrow> period \<Rightarrow> bool" where
  "period_ok previous p \<longleftrightarrow>
     (case p of (since, found, shown) \<Rightarrow> shown = (case found of None \<Rightarrow> (0, 0, False) | Some v \<Rightarrow> traffic_sample_deltas v previous since))"

fun period_chain :: "flow_value option \<Rightarrow> period list \<Rightarrow> bool" where
  "period_chain previous [] = True"
| "period_chain previous (p # ps) = (period_ok previous p \<and> period_chain (fst (snd p)) ps)"

definition baseline_ok :: "traffic_session \<Rightarrow> bool" where
  "baseline_ok s \<longleftrightarrow> sorted_wrt (\<lambda>a b. traffic_flow_key_compare a b < 0) (ts_previous_rows s) \<and> (\<forall>r \<in> set (ts_previous_rows s). flow_key_ok (fst r))"

definition sample_env_ok :: "sample_env \<Rightarrow> bool" where
  "sample_env_ok env \<longleftrightarrow> sorts (se_sort_flows env) \<and> walk_keys_ok (se_flows env)"

lemma shown_period_ok:
  assumes "baseline_ok s" and "flow_key_ok k"
  shows "period_ok (map_of (ts_previous_rows s) k) (shown_period k env now s)"
proof -
  have "map_option (\<lambda>i. snd (ts_previous_rows s ! i)) (bsearch (traffic_flow_key_compare (k, v)) (ts_previous_rows s)) = map_of (ts_previous_rows s) k" for v
    using flow_lookup [of "ts_previous_rows s" "(k, v)"] assms by (simp add: baseline_ok_def)
  then show ?thesis
    by (auto simp: period_ok_def shown_period_def flow_display_def traffic_display_counters_def Let_def split: option.splits prod.splits)
qed

lemma tick_not_due: "\<not> tick_due now force s \<Longrightarrow> traffic_tick env now force s = Some (ts_limit_reached s, [], s)"
  by (auto simp: tick_due_def traffic_tick_def)

lemma tick_due_sample:
  assumes "tick_due now force s" and "td_active (ts_display s)" and "traffic_tick env now force s = Some (finished, out, s1)"
  shows "ts_previous_rows s1 = sample_flows env \<and> ts_last_report_ns s1 = now \<and> td_active (ts_display s1)"
proof -
  obtain s2 where "traffic_sample_display env now s = Some (out, s2)" "s1 = report_done now force s2"
    using assms by (auto simp: tick_due_def traffic_tick_def split: option.splits if_splits)
  then show ?thesis
    using sample_display_session assms(2) by (simp add: report_done_def Let_def)
qed

lemma sample_baseline:
  assumes "sample_env_ok env" and "ts_previous_rows s = sample_flows env"
  shows "baseline_ok s"
  using flow_sample_rows(1,2) [of "se_sort_flows env" "se_flows env" False] assms
  by (auto simp: baseline_ok_def sample_env_ok_def sample_flows_def prod_eq_iff)

lemma shown_periods_chain:
  assumes "shown_periods k ticks s = Some ps" and "baseline_ok s" and "td_active (ts_display s)" and "flow_key_ok k"
    and "\<forall>(env, now, force) \<in> set ticks. sample_env_ok env"
  shows "period_chain (map_of (ts_previous_rows s) k) ps"
  using assms
proof (induction ticks arbitrary: s ps)
  case (Cons t ticks)
  obtain env now force where t: "t = (env, now, force)"
    by (cases t)
  obtain finished out s1 ps1 where step: "traffic_tick env now force s = Some (finished, out, s1)" "shown_periods k ticks s1 = Some ps1"
      "ps = (if tick_due now force s then shown_period k env now s # ps1 else ps1)"
    using Cons.prems(1) by (auto simp: t split: option.splits)
  show ?case
  proof (cases "tick_due now force s")
    case True
    then have s1: "ts_previous_rows s1 = sample_flows env" "td_active (ts_display s1)"
      using tick_due_sample step(1) Cons.prems(3) by auto
    have "sample_env_ok env"
      using Cons.prems(5) by (simp add: t)
    then have "period_chain (map_of (sample_flows env) k) ps1"
      using Cons.IH [OF step(2)] sample_baseline [of env s1] s1 Cons.prems(4,5) by simp
    then show ?thesis
      using True step(3) shown_period_ok [OF Cons.prems(2,4)] by (simp add: shown_period_def)
  next
    case False
    then have "s1 = s"
      using tick_not_due [OF False, of env] step(1) by simp
    then show ?thesis
      using Cons.IH [OF step(2)] Cons.prems False step(3) by simp
  qed
qed simp

definition period_rx :: "period \<Rightarrow> u64" where "period_rx p = fst (snd (snd p))"
definition period_tx :: "period \<Rightarrow> u64" where "period_tx p = fst (snd (snd (snd p)))"
definition period_gap :: "period \<Rightarrow> bool" where "period_gap p = snd (snd (snd (snd p)))"

text \<open>
  When the bytes of a period can be told: the flow is not in the map, or its counters are those of the sample
  before and did not shrink, or it was created in the period.
\<close>

definition grows :: "flow_value \<Rightarrow> flow_value \<Rightarrow> bool" where
  "grows v w \<longleftrightarrow> fv_first_seen_ns w = fv_first_seen_ns v \<and> fv_rx_bytes v \<le> fv_rx_bytes w \<and> fv_tx_bytes v \<le> fv_tx_bytes w"

definition same_generation :: "flow_value option \<Rightarrow> flow_value \<Rightarrow> bool" where
  "same_generation previous v \<longleftrightarrow> (\<exists>u. previous = Some u \<and> fv_first_seen_ns v = fv_first_seen_ns u)"

definition period_told :: "flow_value option \<Rightarrow> period \<Rightarrow> bool" where
  "period_told previous p \<longleftrightarrow>
     (case fst (snd p) of
        None \<Rightarrow> True
      | Some v \<Rightarrow> (\<exists>u. previous = Some u \<and> grows u v) \<or>
          \<not> same_generation previous v \<and> fv_first_seen_ns v \<noteq> 0 \<and> fst p \<le> fv_first_seen_ns v)"

text \<open>The value of the flow before a period, and what its counters held already.\<close>

definition value_before :: "flow_value option \<Rightarrow> period list \<Rightarrow> flow_value option" where
  "value_before baseline before = (if before = [] then baseline else fst (snd (last before)))"

definition held :: "(flow_value \<Rightarrow> u64) \<Rightarrow> flow_value option \<Rightarrow> flow_value \<Rightarrow> nat" where
  "held f previous v = (if same_generation previous v then unat (f (the previous)) else 0)"

lemma unat_diff_add: "a \<le> b \<Longrightarrow> unat (b - a) + unat a = unat b" for a b :: u64
  by (simp add: unat_sub word_le_nat_alt)

lemma period_gap_told:
  assumes "period_ok previous p"
  shows "period_gap p = (\<not> period_told previous p)" and "fst (snd p) = None \<or> period_gap p \<Longrightarrow> period_rx p = 0 \<and> period_tx p = 0"
  using assms by (cases p, auto simp: period_ok_def period_told_def period_gap_def period_rx_def period_tx_def traffic_sample_deltas_def
      grows_def same_generation_def Let_def not_less not_le split: option.splits if_splits)+

lemma period_exact:
  assumes "period_ok previous p" and "fst (snd p) = Some v" and "\<not> period_gap p"
  shows "unat (period_rx p) + held fv_rx_bytes previous v = unat (fv_rx_bytes v) \<and>
     unat (period_tx p) + held fv_tx_bytes previous v = unat (fv_tx_bytes v)"
proof -
  obtain since rx tx where p: "p = (since, Some v, rx, tx, False)"
    using assms(2,3) by (cases p) (auto simp: period_gap_def)
  then have d: "traffic_sample_deltas v previous since = (rx, tx, False)"
    using assms(1) by (simp add: period_ok_def)
  show ?thesis
  proof (cases "same_generation previous v")
    case True
    then obtain u where u: "previous = Some u" "fv_first_seen_ns v = fv_first_seen_ns u"
      by (auto simp: same_generation_def)
    then have "fv_rx_bytes u \<le> fv_rx_bytes v" "fv_tx_bytes u \<le> fv_tx_bytes v" "rx = fv_rx_bytes v - fv_rx_bytes u"
        "tx = fv_tx_bytes v - fv_tx_bytes u"
      using d by (auto simp: traffic_sample_deltas_def Let_def not_less split: if_splits)
    then show ?thesis
      using True u(1) unat_diff_add by (simp add: p period_rx_def period_tx_def held_def)
  next
    case False
    then have "rx = fv_rx_bytes v" "tx = fv_tx_bytes v"
      using d by (auto simp: traffic_sample_deltas_def same_generation_def Let_def split: if_splits option.splits)
    then show ?thesis
      using False by (simp add: p period_rx_def period_tx_def held_def)
  qed
qed

lemma chain_at: "period_chain baseline (before @ p # after) \<Longrightarrow> period_ok (value_before baseline before) p"
  by (induction before arbitrary: baseline) (auto simp: value_before_def)

lemma chain_from: "period_chain baseline (before @ after) \<Longrightarrow> period_chain (value_before baseline before) after"
  by (induction before arbitrary: baseline) (auto simp: value_before_def)

text \<open>A stretch of periods in which the flow keeps its generation and nothing is marked.\<close>

lemma chain_stretch:
  assumes "period_chain previous (p # during @ after)" and "fst (snd p) = Some v"
    and "\<forall>q \<in> set during. \<exists>w. fst (snd q) = Some w \<and> fv_first_seen_ns w = fv_first_seen_ns v"
    and "\<forall>q \<in> set (p # during). \<not> period_gap q" and "fst (snd (last (p # during))) = Some w"
  shows "sum_list (map (\<lambda>q. unat (period_rx q)) (p # during)) + held fv_rx_bytes previous v = unat (fv_rx_bytes w) \<and>
     sum_list (map (\<lambda>q. unat (period_tx q)) (p # during)) + held fv_tx_bytes previous v = unat (fv_tx_bytes w)"
  using assms
proof (induction during arbitrary: previous p v)
  case Nil
  then show ?case
    using period_exact [of previous p v] by simp
next
  case (Cons q during)
  obtain x where x: "fst (snd q) = Some x" "fv_first_seen_ns x = fv_first_seen_ns v"
    using Cons.prems(3) by auto
  have "period_chain (Some v) (q # during @ after)"
    using Cons.prems(1,2) by simp
  then have "sum_list (map (\<lambda>q. unat (period_rx q)) (q # during)) + held fv_rx_bytes (Some v) x = unat (fv_rx_bytes w) \<and>
     sum_list (map (\<lambda>q. unat (period_tx q)) (q # during)) + held fv_tx_bytes (Some v) x = unat (fv_tx_bytes w)"
    using Cons.IH [of "Some v" q x] Cons.prems(3-5) x by simp
  moreover have "held fv_rx_bytes (Some v) x = unat (fv_rx_bytes v)" "held fv_tx_bytes (Some v) x = unat (fv_tx_bytes v)"
    using x(2) by (simp_all add: held_def same_generation_def)
  ultimately show ?case
    using period_exact [of previous p v] Cons.prems(1,2,4) by simp
qed

section \<open>Examples\<close>

text \<open>A sorting function.\<close>

fun place :: "('r \<Rightarrow> 'r \<Rightarrow> int) \<Rightarrow> 'r \<Rightarrow> 'r list \<Rightarrow> 'r list" where
  "place cmp x [] = [x]"
| "place cmp x (y # ys) = (if cmp x y \<le> 0 then x # y # ys else y # place cmp x ys)"

definition insertion_sort :: "'r sorter" where
  "insertion_sort cmp rows = foldr (place cmp) rows []"

lemma place_mset: "mset (place cmp x ys) = add_mset x (mset ys)"
  by (induction ys) auto

lemma place_set: "set (place cmp x ys) = insert x (set ys)"
  by (metis place_mset set_mset_add_mset_insert set_mset_mset)

lemma insertion_sort_mset: "mset (insertion_sort cmp rows) = mset rows"
  by (induction rows) (simp_all add: insertion_sort_def place_mset)

lemma place_sorted:
  assumes "sorted_wrt (\<lambda>a b. cmp a b \<le> 0) ys" and "insert x (set ys) \<subseteq> S"
    and swap: "\<And>a b. a \<in> S \<Longrightarrow> b \<in> S \<Longrightarrow> cmp b a = - cmp a b"
    and trans: "\<And>a b c. a \<in> S \<Longrightarrow> b \<in> S \<Longrightarrow> c \<in> S \<Longrightarrow> cmp a b \<le> 0 \<Longrightarrow> cmp b c \<le> 0 \<Longrightarrow> cmp a c \<le> 0"
  shows "sorted_wrt (\<lambda>a b. cmp a b \<le> (0::int)) (place cmp x ys)"
  using assms(1,2)
proof (induction ys)
  case (Cons y ys)
  have S: "x \<in> S" "y \<in> S" "set ys \<subseteq> S"
    using Cons.prems(2) by auto
  have IH: "sorted_wrt (\<lambda>a b. cmp a b \<le> 0) (place cmp x ys)"
    using Cons by simp
  show ?case
  proof (cases "cmp x y \<le> 0")
    case True
    have "cmp x z \<le> 0" if "z \<in> set ys" for z
      using trans [OF S(1,2), of z] True that S(3) Cons.prems(1) by auto
    then show ?thesis
      using True Cons.prems(1) by simp
  next
    case False
    then have "cmp y x \<le> 0"
      using swap [OF S(1,2)] by simp
    then show ?thesis
      using False IH Cons.prems(1) by (simp add: place_set)
  qed
qed simp

lemma insertion_sort_sorted:
  assumes "set rows \<subseteq> S" and "\<And>a b. a \<in> S \<Longrightarrow> b \<in> S \<Longrightarrow> cmp b a = - cmp a b"
    and "\<And>a b c. a \<in> S \<Longrightarrow> b \<in> S \<Longrightarrow> c \<in> S \<Longrightarrow> cmp a b \<le> 0 \<Longrightarrow> cmp b c \<le> 0 \<Longrightarrow> cmp a c \<le> 0"
  shows "sorted_wrt (\<lambda>a b. cmp a b \<le> 0) (insertion_sort cmp rows)"
  using assms(1)
proof (induction rows)
  case (Cons x rows)
  have "set (insertion_sort cmp rows) = set rows"
    using insertion_sort_mset [of cmp rows] by (metis set_mset_mset)
  then have "sorted_wrt (\<lambda>a b. cmp a b \<le> 0) (place cmp x (insertion_sort cmp rows))"
    using Cons by (intro place_sorted [OF _ _ assms(2,3)]) auto
  then show ?case
    by (simp add: insertion_sort_def)
qed (simp add: insertion_sort_def)

lemma insertion_sort_sorts: "sorts insertion_sort"
  unfolding sorts_def
proof (intro allI conjI impI insertion_sort_mset)
  fix cmp :: "'a \<Rightarrow> 'a \<Rightarrow> int" and rows
  assume "(\<forall>a \<in> set rows. \<forall>b \<in> set rows. cmp b a = - cmp a b) \<and>
    (\<forall>a \<in> set rows. \<forall>b \<in> set rows. \<forall>c \<in> set rows. cmp a b \<le> 0 \<longrightarrow> cmp b c \<le> 0 \<longrightarrow> cmp a c \<le> 0)"
  then show "sorted_wrt (\<lambda>a b. cmp a b \<le> 0) (insertion_sort cmp rows)"
    by (intro insertion_sort_sorted [of rows "set rows"]) blast+
qed

text \<open>A map with one flow, read twice because it was updated during the walk.\<close>

definition demo_flow_key :: flow_key where
  "demo_flow_key = zero_flow\<lparr>fk_tgid := 7, fk_tid := 7, fk_family := AF_INET, fk_protocol := IPPROTO_TCP\<rparr>"

definition demo_flow_value :: "u64 \<Rightarrow> u64 \<Rightarrow> flow_value" where
  "demo_flow_value bytes seen = \<lparr>fv_tx_bytes = 0, fv_rx_bytes = bytes, fv_last_seen_ns = seen, fv_first_seen_ns = 20\<rparr>"

definition demo_walk :: "(flow_key, flow_value) map_walk" where
  "demo_walk = (NextKey demo_flow_key, \<lambda>i. if i = 0 then (NextKey demo_flow_key, Some (demo_flow_value 5 30)) else (NextNone, Some (demo_flow_value 9 31)))"

lemma demo_walk_ok: "walk_keys_ok demo_walk"
proof -
  have "flow_key_ok demo_flow_key"
    by (simp add: flow_key_ok_def demo_flow_key_def zero_flow_def zero_addr_def)
  moreover have "visit demo_walk i = Some k \<Longrightarrow> k = demo_flow_key" for i k
    by (induction i) (auto simp: demo_walk_def split: if_splits)
  ultimately show ?thesis
    by (auto simp: walk_keys_ok_def)
qed

lemma demo_walk_sample: "traffic_collect_flow_sample insertion_sort demo_walk False = ([(demo_flow_key, demo_flow_value 9 31)], False)"
proof -
  have "collect_sample TRAFFIC_MAX_FLOWS demo_walk False = ([(demo_flow_key, demo_flow_value 5 30), (demo_flow_key, demo_flow_value 9 31)], False)"
    by (simp add: collect_sample_def demo_walk_def collect_loop.simps TRAFFIC_MAX_FLOWS_def)
  moreover have "memcmp (flow_key_bytes demo_flow_key) (flow_key_bytes demo_flow_key) = 0"
    by (simp add: memcmp_eq)
  ultimately show ?thesis
    by (simp add: traffic_collect_flow_sample_def traffic_unique_flows_def insertion_sort_def traffic_flow_key_compare_def unique_step_def flow_newer_def
        demo_flow_value_def)
qed

theorem traffic_sample_rows_witness:
  "\<exists>n. set [(demo_flow_key, demo_flow_value 9 31)] \<subseteq> set (found_until demo_walk n) \<and> walk_complete demo_walk n"
  using traffic_sample_rows [OF insertion_sort_sorts demo_walk_ok demo_walk_sample] by auto

end
