(* ===== verification/TrafficStart.thy ===== *)
theory TrafficStart
  imports TrafficSample
begin

text \<open>
  The life of a traffic session (\<open>traffic.c\<close>): options, buffers, skeleton, probes, the loop, and the release of
  everything.  The answers of allocation, libbpf, the clock and the terminal are arguments.
\<close>

section \<open>Probes\<close>

text \<open>
  A link is the number of the attachment, whether it is a return probe, and its kernel function; \<open>fails n\<close>: the
  \<open>n\<close>th attachment fails.  The state is the number of attempts, the links that are open in the kernel, oldest first, and
  the array \<open>links\<close> of the session.
\<close>

type_synonym link = "nat \<times> bool \<times> string"

definition TRAFFIC_MAX_LINKS :: nat where "TRAFFIC_MAX_LINKS = 15"

record attach_state =
  at_calls :: nat
  at_open :: "link list"
  at_links :: "link list"

definition attach_kprobe :: "(nat \<Rightarrow> bool) \<Rightarrow> bool \<Rightarrow> string \<Rightarrow> attach_state \<Rightarrow> link option \<times> attach_state" where
  "attach_kprobe fails retprobe target st =
     (let n = at_calls st; st1 = st\<lparr>at_calls := n + 1\<rparr> in
      if fails n then (None, st1) else (Some (n, retprobe, target), st1\<lparr>at_open := at_open st @ [(n, retprobe, target)]\<rparr>))"

definition link_destroy :: "link \<Rightarrow> attach_state \<Rightarrow> attach_state" where
  "link_destroy l st = st\<lparr>at_open := remove1 l (at_open st)\<rparr>"

definition add_link :: "link \<Rightarrow> attach_state \<Rightarrow> attach_state" where
  "add_link l st = st\<lparr>at_links := at_links st @ [l]\<rparr>"

definition traffic_attach_pair :: "(nat \<Rightarrow> bool) \<Rightarrow> string \<Rightarrow> attach_state \<Rightarrow> bool \<times> attach_state" where
  "traffic_attach_pair fails target st =
     (case attach_kprobe fails True target st of
        (None, st1) \<Rightarrow> (False, st1)
      | (Some exit_link, st1) \<Rightarrow>
          (case attach_kprobe fails False target st1 of
             (None, st2) \<Rightarrow> (False, link_destroy exit_link st2)
           | (Some entry_link, st2) \<Rightarrow> (True, add_link entry_link (add_link exit_link st2))))"

definition traffic_attach_endpoint :: "(nat \<Rightarrow> bool) \<Rightarrow> string \<Rightarrow> attach_state \<Rightarrow> bool \<times> attach_state" where
  "traffic_attach_endpoint fails target st =
     (case attach_kprobe fails False target st of (None, st1) \<Rightarrow> (False, st1) | (Some l, st1) \<Rightarrow> (True, add_link l st1))"

definition attach_tcp :: "(nat \<Rightarrow> bool) \<Rightarrow> attach_state \<Rightarrow> bool \<times> attach_state" where
  "attach_tcp fails st =
     (let (tcp_tx, st1) = traffic_attach_pair fails ''tcp_sendmsg'' st; (tcp_rx, st2) = traffic_attach_pair fails ''tcp_recvmsg'' st1 in
      (tcp_tx \<and> tcp_rx, st2))"

definition attach_endpoints :: "(nat \<Rightarrow> bool) \<Rightarrow> bool \<Rightarrow> attach_state \<Rightarrow> bool \<times> attach_state" where
  "attach_endpoints fails udp6_tx st =
     (let (e4, st5) = traffic_attach_endpoint fails ''udp_send_skb'' st in
      if \<not> e4 then (False, st5)
      else let (e6, st6) = (if udp6_tx then traffic_attach_endpoint fails ''udp_v6_send_skb'' st5 else (True, st5)) in
        if \<not> e6 then (False, st6) else traffic_attach_endpoint fails ''skb_consume_udp'' st6)"

definition attach_udp :: "(nat \<Rightarrow> bool) \<Rightarrow> attach_state \<Rightarrow> bool \<times> attach_state" where
  "attach_udp fails st =
     (let (udp4_tx, st1) = traffic_attach_pair fails ''udp_sendmsg'' st; (udp4_rx, st2) = traffic_attach_pair fails ''udp_recvmsg'' st1;
          (udp6_tx, st3) = traffic_attach_pair fails ''udpv6_sendmsg'' st2; (udp6_rx, st4) = traffic_attach_pair fails ''udpv6_recvmsg'' st3 in
      if \<not> (udp4_tx \<or> udp6_tx) \<or> \<not> (udp4_rx \<or> udp6_rx) then (False, st4)
      else attach_endpoints fails udp6_tx st4)"

definition traffic_attach_probes :: "(nat \<Rightarrow> bool) \<Rightarrow> u8 \<Rightarrow> attach_state \<Rightarrow> bool \<times> attach_state" where
  "traffic_attach_probes fails protocol st =
     (let (tcp, st1) = (if protocol = 0 \<or> protocol = IPPROTO_TCP then attach_tcp fails st else (True, st)) in
      if \<not> tcp then (False, st1)
      else if protocol = 0 \<or> protocol = IPPROTO_UDP then attach_udp fails st1 else (True, st1))"

text \<open>Ending a session destroys the links of the array.\<close>

definition traffic_release_links :: "attach_state \<Rightarrow> attach_state" where
  "traffic_release_links st = (fold link_destroy (at_links st) st)\<lparr>at_links := []\<rparr>"

section \<open>Starting\<close>

text \<open>The options that the session reads; a string option is whether it is set.\<close>

record traffic_opts =
  to_interval :: u32
  to_count :: u32
  to_ui :: bool
  to_netns_current :: bool
  to_min_latency :: u32
  to_pkt_len :: bool
  to_tcp_flags :: bool
  to_basic :: bool
  to_intel :: bool
  to_drop :: bool
  to_sock :: bool
  to_monitor :: bool
  to_rtt :: bool
  to_rtt_detail :: bool
  to_latency :: bool
  to_traces :: bool
  to_capture_trace :: bool
  to_traces_stack :: bool
  to_pid :: u32
  to_uid :: u32
  to_uid_enabled :: bool
  to_netns :: u32
  to_l3_proto :: u16
  to_l4_proto :: u8
  to_sport :: u16
  to_dport :: u16
  to_port :: u16

definition traffic_validate_options :: "traffic_opts \<Rightarrow> bool" where
  "traffic_validate_options args \<longleftrightarrow>
     \<not> (to_interval args < 1 \<or> 3600 < to_interval args) \<and>
     \<not> (to_l3_proto args \<noteq> 0 \<or> (to_l4_proto args \<noteq> 0 \<and> to_l4_proto args \<noteq> IPPROTO_TCP \<and> to_l4_proto args \<noteq> IPPROTO_UDP)) \<and>
     \<not> (to_sport args \<noteq> 0 \<or> to_dport args \<noteq> 0 \<or> to_port args \<noteq> 0 \<or> to_netns args \<noteq> 0 \<or> to_netns_current args \<or> to_min_latency args \<noteq> 0 \<or> to_pkt_len args \<or>
        to_tcp_flags args) \<and>
     \<not> (to_basic args \<or> to_intel args \<or> to_drop args \<or> to_sock args \<or> to_monitor args \<or> to_rtt args \<or> to_rtt_detail args \<or> to_latency args \<or>
        (to_traces args \<and> \<not> to_capture_trace args) \<or> to_traces_stack args)"

text \<open>The read-only data of the BPF programs.\<close>

definition start_config :: "traffic_opts \<Rightarrow> traffic_config" where
  "start_config args = \<lparr>tc_tid = to_pid args, tc_uid = to_uid args, tc_protocol = to_l4_proto args, tc_uid_enabled = to_uid_enabled args\<rparr>"

text \<open>
  What the system answers: the allocation of the rows, of the six arrays of the view and of the two histories, opening
  and loading the skeleton, the clock before the probes and for the first header, and the attachments.
\<close>

record start_env =
  su_rows :: bool
  su_arrays :: "bool list"
  su_flow_history :: "bool \<times> bool"
  su_process_history :: "bool \<times> bool"
  su_open :: bool
  su_load :: bool
  su_clock :: u64
  su_clock_view :: u64
  su_fails :: "nat \<Rightarrow> bool"
  su_display :: display_env
  su_text :: traffic_text
  su_window :: "(u16 \<times> u16) option"

definition zero_snapshot :: display_snapshot where
  "zero_snapshot = \<lparr>sn_rows = [], sn_rx_bytes = 0, sn_tx_bytes = 0, sn_rx_rate = 0, sn_tx_rate = 0, sn_elapsed_seconds = 0, sn_interval_seconds = 0,
     sn_timestamp = [], sn_protocol = None, sn_filter = None, sn_warning = None, sn_history = None, sn_flows = False\<rparr>"

definition zero_display :: traffic_display where
  "zero_display = \<lparr>td_active = False, td_input_saved = False, td_first_row = 0, td_history_scroll = 0, td_history_record = None\<rparr>"

definition zero_flow_value :: flow_value where
  "zero_flow_value = \<lparr>fv_tx_bytes = 0, fv_rx_bytes = 0, fv_last_seen_ns = 0, fv_first_seen_ns = 0\<rparr>"

definition zero_session :: traffic_session where
  "zero_session = \<lparr>ts_interval = 0, ts_count = 0, ts_l4_proto = 0, ts_skel = False, ts_rows = False, ts_arrays = False, ts_previous_rows = [],
     ts_previous_process_rows = [], ts_flow_rows = [], ts_process_rows = [], ts_display = zero_display, ts_snapshot = zero_snapshot,
     ts_flow_history = zero_history, ts_process_history = zero_history, ts_previous_totals = zero_flow_value, ts_start_ns = 0,
     ts_totals_sample_ns = 0, ts_previous_drops = replicate 5 0, ts_last_report_ns = 0, ts_next_report_ns = 0, ts_reports = 0, ts_active = False,
     ts_limit_reached = False\<rparr>"

text \<open>Whether the terminal settings were restored and the screen was left, and what remains.\<close>

definition traffic_release :: "traffic_session \<Rightarrow> attach_state \<Rightarrow> (bool \<times> bool) \<times> traffic_session \<times> attach_state" where
  "traffic_release s st = (case traffic_display_close (ts_display s) of (restored, left, d) \<Rightarrow> ((restored, left), zero_session, traffic_release_links st))"

definition start_buffers :: "start_env \<Rightarrow> traffic_opts \<Rightarrow> traffic_session \<Rightarrow> bool \<times> traffic_session" where
  "start_buffers env args s =
     (let s1 = s\<lparr>ts_interval := to_interval args, ts_count := to_count args, ts_l4_proto := to_l4_proto args, ts_rows := su_rows env\<rparr> in
      if \<not> su_rows env then (False, s1)
      else if \<not> (to_ui args \<and> de_stdout_tty (su_display env)) then (True, s1)
      else if \<not> list_all id (su_arrays env) then (False, s1)
      else case traffic_history_open (su_flow_history env) TRAFFIC_MAX_FLOWS 72 (ts_flow_history s1) of (flow_ok, fh) \<Rightarrow>
        if \<not> flow_ok then (False, s1\<lparr>ts_arrays := True, ts_flow_history := fh\<rparr>)
        else case traffic_history_open (su_process_history env) TRAFFIC_MAX_PROCESSES 16 (ts_process_history s1) of (process_ok, ph) \<Rightarrow>
          (process_ok, s1\<lparr>ts_arrays := True, ts_flow_history := fh, ts_process_history := ph\<rparr>))"

definition start_load :: "start_env \<Rightarrow> traffic_session \<Rightarrow> bool \<times> traffic_session" where
  "start_load env s =
     (if \<not> su_open env then (False, s)
      else if \<not> su_load env then (False, s\<lparr>ts_skel := True\<rparr>)
      else if su_clock env = 0 then (False, s\<lparr>ts_skel := True, ts_start_ns := 0, ts_last_report_ns := 0\<rparr>)
      else (True, s\<lparr>ts_skel := True, ts_start_ns := su_clock env, ts_last_report_ns := su_clock env, ts_totals_sample_ns := su_clock env\<rparr>))"

definition filter_text :: "traffic_opts \<Rightarrow> string" where
  "filter_text args =
     take 63
       (if to_pid args \<noteq> 0 \<and> to_uid_enabled args then ''TID '' @ udec (unat (to_pid args)) @ '' / UID '' @ udec (unat (to_uid args))
        else if to_pid args \<noteq> 0 then ''TID '' @ udec (unat (to_pid args))
        else if to_uid_enabled args then ''UID '' @ udec (unat (to_uid args))
        else ''all processes'')"

text \<open>The session before its first frame.\<close>

definition start_session :: "start_env \<Rightarrow> traffic_opts \<Rightarrow> traffic_session \<Rightarrow> traffic_session" where
  "start_session env args s =
     s\<lparr>ts_next_report_ns := ts_last_report_ns s + ucast (to_interval args) * 1000000000, ts_active := True,
       ts_snapshot := (ts_snapshot s)\<lparr>sn_protocol := Some (ascii (shown_protocol (to_l4_proto args))), sn_filter := Some (ascii (filter_text args)),
         sn_warning := Some [], sn_interval_seconds := to_interval args,
         sn_timestamp := ascii (traffic_format_timestamp (su_text env) (su_clock_view env)), sn_flows := True\<rparr>\<rparr>"

definition start_view :: "start_env \<Rightarrow> traffic_opts \<Rightarrow> traffic_session \<Rightarrow> traffic_output list \<times> traffic_session" where
  "start_view env args s =
     (let s1 = start_session env args s in
      if \<not> to_ui args then ([], s1)
      else case traffic_display_open (su_display env) (ts_display s) of (opened, d) \<Rightarrow>
        if opened then traffic_render_cached (tf_float (su_text env)) (su_window env) (s1\<lparr>ts_display := d\<rparr>) else ([], s1\<lparr>ts_display := d\<rparr>))"

definition traffic_start ::
    "start_env \<Rightarrow> traffic_opts \<Rightarrow> traffic_session \<Rightarrow> attach_state \<Rightarrow> bool \<times> traffic_output list \<times> traffic_session \<times> attach_state" where
  "traffic_start env args s st =
     (if ts_active s \<or> \<not> traffic_validate_options args then (False, [], s, st)
      else case start_buffers env args s of (buffers, s1) \<Rightarrow>
        if \<not> buffers then (False, [], snd (traffic_release s1 st))
        else case start_load env s1 of (loaded, s2) \<Rightarrow>
          if \<not> loaded then (False, [], snd (traffic_release s2 st))
          else case traffic_attach_probes (su_fails env) (to_l4_proto args) st of (attached, st1) \<Rightarrow>
            if \<not> attached then (False, [], snd (traffic_release s2 st1))
            else case start_view env args s2 of (out, s3) \<Rightarrow> (True, out, s3, st1))"

section \<open>Running and stopping\<close>

definition traffic_stop ::
    "sample_env \<Rightarrow> u64 \<Rightarrow> bool \<Rightarrow> traffic_session \<Rightarrow> attach_state \<Rightarrow> (traffic_output list \<times> traffic_session \<times> attach_state) option" where
  "traffic_stop env now_ns final_report s st =
     (if \<not> ts_active s then Some ([], s, st)
      else case (if final_report then traffic_tick env now_ns True s else Some (False, [], s)) of
          None \<Rightarrow> None
        | Some (finished, out, s1) \<Rightarrow> Some (out, snd (traffic_release s1 st)))"

text \<open>
  One round of the loop: whether the exit flag is set at its beginning and after the sleep, and what the poll
  meets.  A list that ends leaves the loop running.
\<close>

record run_round =
  rr_exit_first :: bool
  rr_exit_slept :: bool
  rr_env :: sample_env
  rr_input :: "u8 option list"
  rr_now :: u64

fun run_loop :: "run_round list \<Rightarrow> traffic_session \<Rightarrow> (bool \<times> traffic_output list \<times> traffic_session) option" where
  "run_loop [] s = Some (False, [], s)"
| "run_loop (r # rounds) s =
     (if rr_exit_first r \<or> rr_exit_slept r then Some (True, [], s)
      else case traffic_poll (rr_env r) (rr_input r) (rr_now r) s of
          None \<Rightarrow> None
        | Some (finished, out, s1) \<Rightarrow>
            if finished then Some (True, out, s1)
            else map_option (\<lambda>(ended, out', s2). (ended, out @ out', s2)) (run_loop rounds s1))"

text \<open>The result of the loop that ended, with the final report and the release; \<open>None\<close> while it runs.\<close>

definition traffic_run ::
    "start_env \<Rightarrow> traffic_opts \<Rightarrow> run_round list \<Rightarrow> sample_env \<Rightarrow> u64 \<Rightarrow> traffic_session \<Rightarrow> attach_state \<Rightarrow>
      (int \<times> traffic_output list \<times> traffic_session \<times> attach_state) option" where
  "traffic_run env args rounds final now_ns s st =
     (case traffic_start env args s st of
        (False, out, s1, st1) \<Rightarrow> Some (-1, out, s1, st1)
      | (True, out, s1, st1) \<Rightarrow>
          (case run_loop rounds s1 of
             Some (True, out1, s2) \<Rightarrow> map_option (\<lambda>(out2, s3, st3). (0, out @ out1 @ out2, s3, st3)) (traffic_stop final now_ns True s2 st1)
           | _ \<Rightarrow> None))"

section \<open>Links\<close>

text \<open>From one state of the probes to another, the links \<open>new\<close> were opened and recorded.\<close>

definition linked :: "link list \<Rightarrow> attach_state \<Rightarrow> attach_state \<Rightarrow> bool" where
  "linked new st st' \<longleftrightarrow> at_open st' = at_open st @ new \<and> at_links st' = at_links st @ new \<and> at_calls st \<le> at_calls st' \<and>
     (\<forall>l \<in> set new. at_calls st \<le> fst l \<and> fst l < at_calls st') \<and> distinct new"

definition fresh_links :: "attach_state \<Rightarrow> bool" where
  "fresh_links st \<longleftrightarrow> (\<forall>l \<in> set (at_open st). fst l < at_calls st)"

lemma linked_refl [simp]: "linked [] st st"
  by (simp add: linked_def)

lemma linked_trans:
  assumes "linked xs a b" and "linked ys b c"
  shows "linked (xs @ ys) a c"
proof -
  have "x \<noteq> y" if "x \<in> set xs" "y \<in> set ys" for x y
    using assms that unfolding linked_def by (metis not_less)
  then have "set xs \<inter> set ys = {}"
    by blast
  moreover have "\<forall>l \<in> set (xs @ ys). at_calls a \<le> fst l \<and> fst l < at_calls c"
    using assms unfolding linked_def by (auto intro: le_trans less_le_trans)
  ultimately show ?thesis
    using assms by (simp add: linked_def)
qed

lemma linked_fresh: "linked new st st' \<Longrightarrow> fresh_links st \<Longrightarrow> fresh_links st'"
  unfolding linked_def fresh_links_def by (auto intro: less_le_trans)

text \<open>The probes of a pair are attached both or not at all.\<close>

lemma attach_pair_linked:
  assumes "fresh_links st" and "traffic_attach_pair fails target st = (ok, st')"
  obtains new where "linked new st st'" "map snd new = (if ok then [(True, target), (False, target)] else [])"
proof -
  have "\<exists>new. linked new st st' \<and> map snd new = (if ok then [(True, target), (False, target)] else [])"
  proof (cases "fails (at_calls st)")
    case True
    then have "linked [] st st' \<and> \<not> ok"
      using assms by (auto simp: traffic_attach_pair_def attach_kprobe_def Let_def linked_def)
    then show ?thesis
      by auto
  next
    case first: False
    let ?l = "(at_calls st, True, target)"
    show ?thesis
    proof (cases "fails (at_calls st + 1)")
      case True
      have "remove1 ?l (at_open st @ [?l]) = at_open st"
        using assms(1) by (auto simp: fresh_links_def remove1_append)
      then have "linked [] st st' \<and> \<not> ok"
        using first True assms(2) by (auto simp: traffic_attach_pair_def attach_kprobe_def link_destroy_def Let_def linked_def)
      then show ?thesis
        by auto
    next
      case False
      then have "linked [?l, (at_calls st + 1, False, target)] st st' \<and> ok"
        using first assms(2) by (auto simp: traffic_attach_pair_def attach_kprobe_def add_link_def Let_def linked_def)
      then show ?thesis
        by (intro exI [of _ "[?l, (at_calls st + 1, False, target)]"]) simp
    qed
  qed
  then show ?thesis
    using that by blast
qed

lemma attach_endpoint_linked:
  assumes "traffic_attach_endpoint fails target st = (ok, st')"
  obtains new where "linked new st st'" "map snd new = (if ok then [(False, target)] else [])"
proof (cases "fails (at_calls st)")
  case True
  then have "linked [] st st' \<and> \<not> ok"
    using assms by (auto simp: traffic_attach_endpoint_def attach_kprobe_def Let_def linked_def)
  then show ?thesis
    using that [of "[]"] by auto
next
  case False
  then have "linked [(at_calls st, False, target)] st st' \<and> ok"
    using assms by (auto simp: traffic_attach_endpoint_def attach_kprobe_def add_link_def Let_def linked_def)
  then show ?thesis
    using that [of "[(at_calls st, False, target)]"] by auto
qed

text \<open>The probes of a function, and what a working session needs.\<close>

definition pair_if :: "bool \<Rightarrow> string \<Rightarrow> (bool \<times> string) list" where
  "pair_if b target = (if b then [(True, target), (False, target)] else [])"

definition udp_probes :: "bool \<Rightarrow> bool \<Rightarrow> bool \<Rightarrow> bool \<Rightarrow> (bool \<times> string) list" where
  "udp_probes tx4 rx4 tx6 rx6 = pair_if tx4 ''udp_sendmsg'' @ pair_if rx4 ''udp_recvmsg'' @ pair_if tx6 ''udpv6_sendmsg'' @ pair_if rx6 ''udpv6_recvmsg''"

definition udp_endpoints :: "bool \<Rightarrow> (bool \<times> string) list" where
  "udp_endpoints tx6 = [(False, ''udp_send_skb'')] @ (if tx6 then [(False, ''udp_v6_send_skb'')] else []) @ [(False, ''skb_consume_udp'')]"

lemma attach_tcp_linked:
  assumes "fresh_links st" and "attach_tcp fails st = (ok, st')"
  obtains new tx rx where "linked new st st'" "map snd new = pair_if tx ''tcp_sendmsg'' @ pair_if rx ''tcp_recvmsg''" "ok = (tx \<and> rx)"
proof -
  obtain tx st1 where p1: "traffic_attach_pair fails ''tcp_sendmsg'' st = (tx, st1)"
    by (cases "traffic_attach_pair fails ''tcp_sendmsg'' st")
  obtain rx st2 where p2: "traffic_attach_pair fails ''tcp_recvmsg'' st1 = (rx, st2)"
    by (cases "traffic_attach_pair fails ''tcp_recvmsg'' st1")
  obtain n1 where n1: "linked n1 st st1" "map snd n1 = pair_if tx ''tcp_sendmsg''"
    using attach_pair_linked [OF assms(1) p1] by (auto simp: pair_if_def)
  obtain n2 where n2: "linked n2 st1 st2" "map snd n2 = pair_if rx ''tcp_recvmsg''"
    using attach_pair_linked [OF linked_fresh [OF n1(1) assms(1)] p2] by (auto simp: pair_if_def)
  have "ok = (tx \<and> rx)" "st' = st2"
    using assms(2) p1 p2 by (auto simp: attach_tcp_def)
  then show ?thesis
    using that [of "n1 @ n2" tx rx] linked_trans [OF n1(1) n2(1)] n1 n2 by simp
qed

lemma attach_udp_pairs:
  assumes "fresh_links st"
    and "traffic_attach_pair fails ''udp_sendmsg'' st = (tx4, st1)" "traffic_attach_pair fails ''udp_recvmsg'' st1 = (rx4, st2)"
    and "traffic_attach_pair fails ''udpv6_sendmsg'' st2 = (tx6, st3)" "traffic_attach_pair fails ''udpv6_recvmsg'' st3 = (rx6, st4)"
  obtains new where "linked new st st4" "map snd new = udp_probes tx4 rx4 tx6 rx6"
proof -
  obtain n1 where n1: "linked n1 st st1" "map snd n1 = pair_if tx4 ''udp_sendmsg''"
    using attach_pair_linked [OF assms(1,2)] by (auto simp: pair_if_def)
  obtain n2 where n2: "linked n2 st1 st2" "map snd n2 = pair_if rx4 ''udp_recvmsg''"
    using attach_pair_linked [OF linked_fresh [OF n1(1) assms(1)] assms(3)] by (auto simp: pair_if_def)
  note l2 = linked_trans [OF n1(1) n2(1)]
  obtain n3 where n3: "linked n3 st2 st3" "map snd n3 = pair_if tx6 ''udpv6_sendmsg''"
    using attach_pair_linked [OF linked_fresh [OF l2 assms(1)] assms(4)] by (auto simp: pair_if_def)
  note l3 = linked_trans [OF l2 n3(1)]
  obtain n4 where n4: "linked n4 st3 st4" "map snd n4 = pair_if rx6 ''udpv6_recvmsg''"
    using attach_pair_linked [OF linked_fresh [OF l3 assms(1)] assms(5)] by (auto simp: pair_if_def)
  show ?thesis
    using that [OF linked_trans [OF l3 n4(1)]] n1 n2 n3 n4 by (simp add: udp_probes_def)
qed

lemma attach_endpoints_linked:
  assumes "attach_endpoints fails tx6 st = (ok, st')"
  obtains new ends where "linked new st st'" "map snd new = ends" "length ends \<le> 3" "\<forall>e \<in> set ends. \<not> fst e" "ok \<Longrightarrow> ends = udp_endpoints tx6"
proof -
  obtain e4 st5 where p4: "traffic_attach_endpoint fails ''udp_send_skb'' st = (e4, st5)"
    by (cases "traffic_attach_endpoint fails ''udp_send_skb'' st")
  obtain n4 where n4: "linked n4 st st5" "map snd n4 = (if e4 then [(False, ''udp_send_skb'')] else [])"
    using attach_endpoint_linked [OF p4] by auto
  obtain e6 st6 where p6: "(if tx6 then traffic_attach_endpoint fails ''udp_v6_send_skb'' st5 else (True, st5)) = (e6, st6)"
    by (cases "if tx6 then traffic_attach_endpoint fails ''udp_v6_send_skb'' st5 else (True, st5)")
  obtain n6 where n6: "linked n6 st5 st6" "map snd n6 = (if tx6 \<and> e6 then [(False, ''udp_v6_send_skb'')] else [])"
  proof (cases tx6)
    case True
    then show ?thesis
      using that attach_endpoint_linked [of fails "''udp_v6_send_skb''" st5 e6 st6] p6 by auto
  next
    case False
    then show ?thesis
      using that [of "[]"] p6 by simp
  qed
  obtain er st7 where p7: "traffic_attach_endpoint fails ''skb_consume_udp'' st6 = (er, st7)"
    by (cases "traffic_attach_endpoint fails ''skb_consume_udp'' st6")
  obtain n7 where n7: "linked n7 st6 st7" "map snd n7 = (if er then [(False, ''skb_consume_udp'')] else [])"
    using attach_endpoint_linked [OF p7] by auto
  note l6 = linked_trans [OF n4(1) n6(1)]
  note l7 = linked_trans [OF l6 n7(1)]
  consider "\<not> e4" | "e4" "\<not> e6" | "e4" "e6"
    by blast
  then show ?thesis
  proof cases
    case 1
    then have "ok = False" "st' = st5"
      using assms p4 by (simp_all add: attach_endpoints_def)
    then show ?thesis
      using that [of n4 "map snd n4"] n4 by simp
  next
    case 2
    then have "ok = False" "st' = st6"
      using assms p4 p6 by (simp_all add: attach_endpoints_def)
    then show ?thesis
      using that [of "n4 @ n6" "map snd (n4 @ n6)"] l6 n4(2) n6(2) 2 by auto
  next
    case 3
    then have r: "ok = er" "st' = st7"
      using assms p4 p6 p7 by (simp_all add: attach_endpoints_def)
    have "tx6 \<longrightarrow> map snd (n4 @ n6 @ n7) = [(False, ''udp_send_skb''), (False, ''udp_v6_send_skb'')] @ (if er then [(False, ''skb_consume_udp'')] else [])"
      "\<not> tx6 \<longrightarrow> map snd (n4 @ n6 @ n7) = [(False, ''udp_send_skb'')] @ (if er then [(False, ''skb_consume_udp'')] else [])"
      using 3 n4(2) n6(2) n7(2) by auto
    then show ?thesis
      using that [of "n4 @ n6 @ n7" "map snd (n4 @ n6 @ n7)"] l7 r by (cases tx6) (auto simp: udp_endpoints_def)
  qed
qed

lemma attach_udp_linked:
  assumes "fresh_links st" and "attach_udp fails st = (ok, st')"
  obtains new tx4 rx4 tx6 rx6 ends where "linked new st st'" "map snd new = udp_probes tx4 rx4 tx6 rx6 @ ends" "length ends \<le> 3"
    "\<forall>e \<in> set ends. \<not> fst e" "ok \<Longrightarrow> (tx4 \<or> tx6) \<and> (rx4 \<or> rx6) \<and> ends = udp_endpoints tx6"
proof -
  obtain tx4 st1 where p1: "traffic_attach_pair fails ''udp_sendmsg'' st = (tx4, st1)"
    by (cases "traffic_attach_pair fails ''udp_sendmsg'' st")
  obtain rx4 st2 where p2: "traffic_attach_pair fails ''udp_recvmsg'' st1 = (rx4, st2)"
    by (cases "traffic_attach_pair fails ''udp_recvmsg'' st1")
  obtain tx6 st3 where p3: "traffic_attach_pair fails ''udpv6_sendmsg'' st2 = (tx6, st3)"
    by (cases "traffic_attach_pair fails ''udpv6_sendmsg'' st2")
  obtain rx6 st4 where p4: "traffic_attach_pair fails ''udpv6_recvmsg'' st3 = (rx6, st4)"
    by (cases "traffic_attach_pair fails ''udpv6_recvmsg'' st3")
  obtain new where new: "linked new st st4" "map snd new = udp_probes tx4 rx4 tx6 rx6"
    using attach_udp_pairs [OF assms(1) p1 p2 p3 p4] .
  have r: "(ok, st') = (if \<not> (tx4 \<or> tx6) \<or> \<not> (rx4 \<or> rx6) then (False, st4) else attach_endpoints fails tx6 st4)"
    using assms(2) p1 p2 p3 p4 by (auto simp: attach_udp_def)
  show ?thesis
  proof (cases "(tx4 \<or> tx6) \<and> (rx4 \<or> rx6)")
    case False
    then have "ok = False" "st' = st4"
      using r by auto
    then show ?thesis
      using that [of new tx4 rx4 tx6 rx6 "[]"] new by simp
  next
    case True
    then have e: "attach_endpoints fails tx6 st4 = (ok, st')"
      using r by auto
    show ?thesis
      by (rule attach_endpoints_linked [OF e])
        (rule that [of "new @ _" tx4 rx4 tx6 rx6], use linked_trans new True in auto)
  qed
qed

definition no_links :: attach_state where
  "no_links = \<lparr>at_calls = 0, at_open = [], at_links = []\<rparr>"

definition has_pair :: "(bool \<times> string) list \<Rightarrow> string \<Rightarrow> bool" where
  "has_pair P target \<longleftrightarrow> (True, target) \<in> set P \<and> (False, target) \<in> set P"

text \<open>The probes a protocol needs, and that no return probe is without its entry probe.\<close>

definition probes_cover :: "u8 \<Rightarrow> (bool \<times> string) list \<Rightarrow> bool" where
  "probes_cover protocol P \<longleftrightarrow>
     (protocol = 0 \<or> protocol = IPPROTO_TCP \<longrightarrow> has_pair P ''tcp_sendmsg'' \<and> has_pair P ''tcp_recvmsg'') \<and>
     (protocol = 0 \<or> protocol = IPPROTO_UDP \<longrightarrow>
        (has_pair P ''udp_sendmsg'' \<or> has_pair P ''udpv6_sendmsg'') \<and> (has_pair P ''udp_recvmsg'' \<or> has_pair P ''udpv6_recvmsg'') \<and>
        (False, ''udp_send_skb'') \<in> set P \<and> (has_pair P ''udpv6_sendmsg'' \<longrightarrow> (False, ''udp_v6_send_skb'') \<in> set P) \<and>
        (False, ''skb_consume_udp'') \<in> set P)"

definition probes_paired :: "(bool \<times> string) list \<Rightarrow> bool" where
  "probes_paired P \<longleftrightarrow> (\<forall>t. (True, t) \<in> set P \<longrightarrow> (False, t) \<in> set P)"

lemma pair_if_length: "length (pair_if b t) \<le> 2"
  by (simp add: pair_if_def)

lemma probes_paired_append: "probes_paired P \<Longrightarrow> probes_paired Q \<Longrightarrow> probes_paired (P @ Q)"
  by (auto simp: probes_paired_def)

lemma pair_if_paired: "probes_paired (pair_if b t)"
  by (auto simp: probes_paired_def pair_if_def)

lemma attach_probes_linked:
  assumes "fresh_links st" and "traffic_attach_probes fails protocol st = (ok, st')"
  obtains new where "linked new st st'" "length new \<le> TRAFFIC_MAX_LINKS" "probes_paired (map snd new)" "ok \<Longrightarrow> probes_cover protocol (map snd new)"
proof -
  let ?tcp = "protocol = 0 \<or> protocol = IPPROTO_TCP" and ?udp = "protocol = 0 \<or> protocol = IPPROTO_UDP"
  obtain tcp st1 where p1: "(if ?tcp then attach_tcp fails st else (True, st)) = (tcp, st1)"
    by (cases "if ?tcp then attach_tcp fails st else (True, st)")
  obtain n1 tx rx where n1: "linked n1 st st1" "map snd n1 = pair_if tx ''tcp_sendmsg'' @ pair_if rx ''tcp_recvmsg''" "?tcp \<Longrightarrow> tcp = (tx \<and> rx)"
  proof (cases ?tcp)
    case True
    then show ?thesis
      using that attach_tcp_linked [OF assms(1), of fails tcp st1] p1 by auto
  next
    case False
    then show ?thesis
      using that [of "[]" False False] p1 by (simp add: pair_if_def)
  qed
  have len1: "length n1 \<le> 4"
    using arg_cong [OF n1(2), of length] pair_if_length [of tx "''tcp_sendmsg''"] pair_if_length [of rx "''tcp_recvmsg''"] by simp
  show ?thesis
  proof (cases "tcp \<and> ?udp")
    case False
    then have r: "st' = st1" "ok \<longrightarrow> tcp \<and> \<not> ?udp"
      using assms(2) p1 by (auto simp: traffic_attach_probes_def split: if_splits)
    have "probes_cover protocol (map snd n1)" if ok
      using that r(2) n1(2,3) by (auto simp: probes_cover_def has_pair_def pair_if_def)
    moreover have "probes_paired (map snd n1)"
      unfolding n1(2) by (intro probes_paired_append pair_if_paired)
    ultimately show ?thesis
      using that [of n1] n1(1) len1 r(1) by (simp add: TRAFFIC_MAX_LINKS_def)
  next
    case True
    then have p2: "attach_udp fails st1 = (ok, st')"
      using assms(2) p1 by (auto simp: traffic_attach_probes_def)
    obtain n2 tx4 rx4 tx6 rx6 ends where n2: "linked n2 st1 st'" "map snd n2 = udp_probes tx4 rx4 tx6 rx6 @ ends" "length ends \<le> 3"
        "\<forall>e \<in> set ends. \<not> fst e" "ok \<Longrightarrow> (tx4 \<or> tx6) \<and> (rx4 \<or> rx6) \<and> ends = udp_endpoints tx6"
      using attach_udp_linked [OF linked_fresh [OF n1(1) assms(1)] p2] by metis
    have "length (udp_probes tx4 rx4 tx6 rx6) \<le> 8"
      by (simp add: udp_probes_def pair_if_def)
    then have "length (n1 @ n2) \<le> TRAFFIC_MAX_LINKS"
      using len1 n2(3) arg_cong [OF n2(2), of length] by (simp add: TRAFFIC_MAX_LINKS_def)
    moreover have "probes_paired (map snd (n1 @ n2))"
      unfolding map_append n1(2) n2(2) udp_probes_def
      by (intro probes_paired_append pair_if_paired) (use n2(4) in \<open>auto simp: probes_paired_def\<close>)
    moreover have "probes_cover protocol (map snd (n1 @ n2))" if ok
    proof -
      note u = n2(5) [OF that]
      have "has_pair (map snd n2) ''udp_sendmsg'' = tx4" "has_pair (map snd n2) ''udp_recvmsg'' = rx4" "has_pair (map snd n2) ''udpv6_sendmsg'' = tx6"
          "has_pair (map snd n2) ''udpv6_recvmsg'' = rx6"
        unfolding n2(2) using u by (auto simp: has_pair_def udp_probes_def udp_endpoints_def pair_if_def)
      moreover have "has_pair (map snd n1 @ map snd n2) t = has_pair (map snd n2) t" if "t \<noteq> ''tcp_sendmsg''" "t \<noteq> ''tcp_recvmsg''" for t
      proof -
        have "(x, t) \<notin> set (map snd n1)" for x
          unfolding n1(2) using that by (simp add: pair_if_def)
        then show ?thesis
          by (simp only: has_pair_def set_append Un_iff simp_thms)
      qed
      moreover have "set (udp_endpoints tx6) \<subseteq> set (map snd n2)"
        unfolding n2(2) using u by simp
      moreover have "has_pair (map snd n1 @ map snd n2) ''tcp_sendmsg'' \<and> has_pair (map snd n1 @ map snd n2) ''tcp_recvmsg''" if ?tcp
        unfolding n1(2) using n1(3) True that by (simp add: has_pair_def pair_if_def)
      ultimately show ?thesis
        using u by (auto simp: probes_cover_def udp_endpoints_def)
    qed
    ultimately show ?thesis
      using that [of "n1 @ n2"] linked_trans [OF n1(1) n2(1)] by blast
  qed
qed

lemma release_links:
  assumes "at_links st = at_open st"
  shows "at_open (traffic_release_links st) = [] \<and> at_links (traffic_release_links st) = []"
proof -
  have "at_open (fold link_destroy ls u) = fold remove1 ls (at_open u)" for ls u
    by (induction ls arbitrary: u) (simp_all add: link_destroy_def)
  moreover have "fold remove1 ls ls = []" for ls :: "link list"
    by (induction ls) simp_all
  ultimately show ?thesis
    using assms by (simp add: traffic_release_links_def)
qed

lemma render_cached_active [simp]: "td_active (ts_display (snd (traffic_render_cached pf w s))) = td_active (ts_display s)"
  using render_display by (auto simp: traffic_render_cached_def Let_def same_view_def case_prod_beta)

lemma start_view_active: "start_view env args s = (out, s') \<Longrightarrow> ts_active s'"
  by (auto simp: start_view_def start_session_def Let_def split: prod.splits if_splits dest!: arg_cong [where f = snd])

lemma release_session [simp]: "snd (traffic_release s st) = (zero_session, traffic_release_links st)"
  by (simp add: traffic_release_def traffic_display_close_def)

lemma start_parts:
  assumes "traffic_start env args zero_session no_links = (ok, out, s, st)"
  obtains new a st1 where "linked new no_links st1" "length new \<le> TRAFFIC_MAX_LINKS" "probes_paired (map snd new)"
    "ok \<Longrightarrow> ts_active s \<and> st = st1 \<and> probes_cover (to_l4_proto args) (map snd new) \<and> su_clock env \<noteq> 0"
    "\<not> ok \<Longrightarrow> s = zero_session \<and> (st = no_links \<or> st = traffic_release_links no_links \<or> st = traffic_release_links st1)"
proof -
  have z: "\<not> ts_active zero_session" "fresh_links no_links"
    by (simp_all add: zero_session_def fresh_links_def no_links_def)
  obtain b s1 where b: "start_buffers env args zero_session = (b, s1)"
    by (rule prod.exhaust)
  obtain l s2 where l: "start_load env s1 = (l, s2)"
    by (rule prod.exhaust)
  obtain a st1 where a: "traffic_attach_probes (su_fails env) (to_l4_proto args) no_links = (a, st1)"
    by (rule prod.exhaust)
  obtain out3 s3 where v: "start_view env args s2 = (out3, s3)"
    by (rule prod.exhaust)
  obtain new where new: "linked new no_links st1" "length new \<le> TRAFFIC_MAX_LINKS" "probes_paired (map snd new)"
      "a \<Longrightarrow> probes_cover (to_l4_proto args) (map snd new)"
    using attach_probes_linked [OF z(2) a] by metis
  have clock: "l \<Longrightarrow> su_clock env \<noteq> 0"
    using l by (auto simp: start_load_def split: if_splits)
  show ?thesis
  proof (cases "traffic_validate_options args \<and> b \<and> l \<and> a")
    case True
    then have "ok" "s = s3" "st = st1"
      using assms z(1) b l a v by (simp_all add: traffic_start_def)
    then show ?thesis
      using that [OF new(1,2,3)] start_view_active [OF v] new(4) clock True by simp
  next
    case False
    then have "\<not> ok" "s = zero_session" "st = no_links \<or> st = traffic_release_links no_links \<or> st = traffic_release_links st1"
      using assms z(1) b l a v by (auto simp: traffic_start_def split: if_splits)
    then show ?thesis
      using that [OF new(1,2,3)] by simp
  qed
qed

lemma start_clock: "traffic_start env args zero_session no_links = (True, out, s, st) \<Longrightarrow> su_clock env \<noteq> 0"
  using start_parts [of env args True out s st] by metis

lemma attach_start:
  assumes "traffic_start env args zero_session no_links = (ok, out, s, st)"
  shows "if ok then at_open (traffic_release_links st) = [] \<and> at_links (traffic_release_links st) = []
    else s = zero_session \<and> at_open st = [] \<and> at_links st = []"
proof -
  obtain new st1 where "linked new no_links st1" "ok \<Longrightarrow> st = st1"
    "\<not> ok \<Longrightarrow> s = zero_session \<and> (st = no_links \<or> st = traffic_release_links no_links \<or> st = traffic_release_links st1)"
    using start_parts [OF assms] by metis
  then show ?thesis
    using release_links [of st1] release_links [of no_links] by (auto simp: linked_def no_links_def)
qed

end
