(* ===== verification/TrafficRun.thy ===== *)
theory TrafficRun
  imports TrafficStart
begin

text \<open>
  What holds of traffic sessions (\<open>traffic.c\<close>): the state is sound after every poll, a run with a count ends, the probes are
  complete and released, and the bytes shown add up.
\<close>

section \<open>The state of a session\<close>

text \<open>A history of the view: each record points to itself, so a row shown leads to its record.\<close>

definition view_history :: "nat \<Rightarrow> nat \<Rightarrow> traffic_history \<Rightarrow> bool" where
  "view_history capacity key_size h \<longleftrightarrow> history_ok h \<and> th_capacity h = capacity \<and> th_key_size h = key_size \<and>
     (\<forall>r < th_count h. row_record (hr_row (th_records h ! r)) = Some r)"

lemma view_history_count: "view_history c k h \<Longrightarrow> th_count h \<le> c \<and> length (th_records h) = c"
  by (auto simp: view_history_def history_ok_def size_ok_def)

lemma keep_row_ok:
  assumes "view_history c k h" and "length (fst kr) = k"
  obtains h' where "keep_row kr (Some h) = Some h'" "view_history c k h'" "th_count h \<le> th_count h'"
proof -
  have ok: "history_ok h" "length (fst kr) = th_key_size h"
    using assms by (auto simp: view_history_def)
  have self: "\<forall>r < th_count h. row_record (hr_row (th_records h ! r)) = Some r" and len: "th_count h \<le> length (th_records h)"
    using assms(1) view_history_count [OF assms(1)] by (auto simp: view_history_def)
  show ?thesis
    using ok
  proof (cases rule: update_cases [where row = "snd kr"])
    case (found r h')
    have "row_record (hr_row (found_record r sl row (th_records h ! r))) = Some r" for sl row
      using self found(2) by (simp add: found_record_def Let_def)
    then have "\<forall>q < th_count h'. row_record (hr_row (th_records h' ! q)) = Some q"
      using self found(2,4) len by (auto simp: nth_list_update)
    then show ?thesis
      using that [of h'] found assms(1) by (simp add: keep_row_def view_history_def)
  next
    case full
    then show ?thesis
      using that [of "h\<lparr>th_full := True\<rparr>"] assms(1) by (simp add: keep_row_def view_history_def)
  next
    case (added slot h')
    have "row_record (hr_row (found_record r sl row (new_record h key zero_record))) = Some r" for r sl row key
      by (simp add: found_record_def new_record_def zero_record_def Let_def)
    moreover have "th_count h < length (th_records h)"
      using added(2) ok(1) by (simp add: history_ok_def size_ok_def)
    ultimately have "\<forall>q < th_count h'. row_record (hr_row (th_records h' ! q)) = Some q"
      using self added(4) by (auto simp: nth_list_update less_Suc_eq)
    then show ?thesis
      using that [of h'] added assms(1) by (simp add: keep_row_def view_history_def)
  qed
qed

lemma keep_rows_ok:
  assumes "view_history c k h" and "\<forall>x \<in> set shown. length (fst x) = k"
  shows "\<exists>h'. keep_rows shown h = Some h' \<and> view_history c k h' \<and> th_count h \<le> th_count h'"
  using assms
proof (induction shown arbitrary: h)
  case (Cons x shown)
  obtain h1 where h1: "keep_row (fst x, fst (snd x)) (Some h) = Some h1" "view_history c k h1" "th_count h \<le> th_count h1"
    using keep_row_ok [of c k h "(fst x, fst (snd x))"] Cons.prems by auto
  then show ?case
    using Cons.IH [of h1] Cons.prems(2) by (auto simp: keep_rows_def)
qed (simp add: keep_rows_def)

lemma begin_view_history:
  assumes "view_history c k h"
  shows "view_history c k (traffic_history_begin stamp now elapsed h) \<and> th_count (traffic_history_begin stamp now elapsed h) = th_count h"
proof -
  note b = begin_ok [of h "(stamp, now, elapsed)"]
  have "history_ok h"
    using assms by (simp add: view_history_def)
  note b = b [OF this]
  have e: "begin_state (stamp, now, elapsed) h = traffic_history_begin stamp now elapsed h"
    by (simp add: begin_state_def)
  have "row_record (hr_row (th_records (traffic_history_begin stamp now elapsed h) ! r)) = Some r" if "r < th_count h" for r
    using that assms view_history_count [OF assms] by (simp add: traffic_history_begin_def Let_def nth_append age_record_def view_history_def)
  then show ?thesis
    using b assms unfolding e view_history_def by (simp add: traffic_history_begin_def Let_def)
qed

text \<open>Rows of a view that lead to records of the history.\<close>

definition rows_in :: "traffic_history \<Rightarrow> traffic_row list \<Rightarrow> bool" where
  "rows_in h rows \<longleftrightarrow> length rows \<le> th_count h \<and> (\<forall>row \<in> set rows. \<exists>r < th_count h. row_record row = Some r)"

lemma view_rows_in:
  assumes "sorts qsort" and "view_history c k h"
  shows "rows_in h (view_rows qsort h)"
proof -
  let ?rows = "map hr_row (take (th_count h) (th_records h))"
  have "mset (view_rows qsort h) = mset ?rows"
    using assms(1) by (simp add: sorts_def view_rows_def)
  then have "set (view_rows qsort h) = set ?rows" "length (view_rows qsort h) = length ?rows"
    by (metis set_mset_mset) (metis \<open>mset (view_rows qsort h) = mset ?rows\<close> size_mset)
  moreover have "\<exists>r < th_count h. row_record row = Some r" if "row \<in> set ?rows" for row
    using that assms(2) view_history_count [OF assms(2)] by (fastforce simp: view_history_def in_set_conv_nth)
  ultimately show ?thesis
    by (simp add: rows_in_def)
qed

lemma warning_add_length: "length (fst w) \<le> 383 \<Longrightarrow> length (fst (warning_add t w)) \<le> 383"
  by (auto simp: warning_add_def Let_def)

lemma warning_stats_length: "length (fst w) \<le> 383 \<Longrightarrow> length (fst (fst (warning_stats xs w e))) \<le> 383"
  by (induction xs w e rule: warning_stats.induct) (simp_all add: warning_add_length)

lemma sample_warning_length: "length (full_warning full (traffic_sample_warning stats e g)) \<le> 383"
proof -
  have "length (traffic_sample_warning stats e g) \<le> 383"
    using warning_stats_length [of "([], 0)" "zip stats stat_labels" e]
    by (auto simp: traffic_sample_warning_def Let_def warning_add_length split: prod.splits)
  then show ?thesis
    by (auto simp: full_warning_def)
qed

text \<open>The part of the state that the view relies on, and the whole invariant.\<close>

definition view_ok :: "traffic_session \<Rightarrow> bool" where
  "view_ok s \<longleftrightarrow> ts_arrays s \<and> view_history TRAFFIC_MAX_FLOWS 72 (ts_flow_history s) \<and> view_history TRAFFIC_MAX_PROCESSES 16 (ts_process_history s) \<and>
     rows_in (ts_flow_history s) (ts_flow_rows s) \<and> rows_in (ts_process_history s) (ts_process_rows s) \<and>
     (\<forall>p. td_history_record (ts_display s) = Some p \<longrightarrow> p < th_count (shown_history s))"

definition schedule_ok :: "traffic_session \<Rightarrow> bool" where
  "schedule_ok s \<longleftrightarrow> ts_active s \<and> ts_rows s \<and> ts_skel s \<and> 1 \<le> ts_interval s \<and> ts_interval s \<le> 3600 \<and>
     (ts_limit_reached s \<longleftrightarrow> ts_count s \<noteq> 0 \<and> ts_count s \<le> ts_reports s) \<and> (ts_count s \<noteq> 0 \<longrightarrow> ts_reports s \<le> ts_count s)"

definition warning_ok :: "traffic_session \<Rightarrow> bool" where
  "warning_ok s \<longleftrightarrow> (\<exists>w. sn_warning (ts_snapshot s) = Some w \<and> length w \<le> 383)"

definition session_ok :: "traffic_session \<Rightarrow> bool" where
  "session_ok s \<longleftrightarrow> schedule_ok s \<and> warning_ok s \<and> baseline_ok s \<and> length (ts_previous_rows s) \<le> TRAFFIC_MAX_FLOWS \<and>
     length (ts_previous_process_rows s) \<le> TRAFFIC_MAX_PROCESSES \<and>
     (td_active (ts_display s) \<longrightarrow> view_ok s \<and> sn_rows (ts_snapshot s) = (if sn_flows (ts_snapshot s) then ts_flow_rows s else ts_process_rows s))"

text \<open>What drawing, sampling and reporting need and keep.\<close>

definition session_base :: "traffic_session \<Rightarrow> bool" where
  "session_base s \<longleftrightarrow> schedule_ok s \<and> warning_ok s \<and> baseline_ok s \<and> length (ts_previous_rows s) \<le> TRAFFIC_MAX_FLOWS \<and>
     length (ts_previous_process_rows s) \<le> TRAFFIC_MAX_PROCESSES \<and> (td_active (ts_display s) \<longrightarrow> view_ok s)"

definition env_ok :: "sample_env \<Rightarrow> bool" where
  "env_ok env \<longleftrightarrow> sample_env_ok env \<and> sorts (se_sort_processes env) \<and> sorts (se_sort_rows env)"

lemma render_cached_ok:
  assumes "session_base s"
  shows "session_ok (snd (traffic_render_cached pf w s))"
proof -
  let ?s = "snd (traffic_render_cached pf w s)"
  obtain frame d where r: "traffic_display_render pf w (\<lambda>p. th_records (shown_history s) ! p)
      (Some ((ts_snapshot s)\<lparr>sn_rows := (if sn_flows (ts_snapshot s) then ts_flow_rows s else ts_process_rows s), sn_history := Some (shown_history s)\<rparr>))
      (ts_display s) = (frame, d)"
    by (rule prod.exhaust)
  then have d: "same_view (ts_display s) d"
    using render_display by (metis snd_conv)
  have s': "?s = s\<lparr>ts_snapshot := (ts_snapshot s)\<lparr>sn_rows := (if sn_flows (ts_snapshot s) then ts_flow_rows s else ts_process_rows s),
      sn_history := Some (shown_history s)\<rparr>, ts_display := d\<rparr>"
    unfolding traffic_render_cached_def Let_def r by simp
  have "schedule_ok ?s = schedule_ok s" "warning_ok ?s = warning_ok s" "baseline_ok ?s = baseline_ok s" "view_ok ?s = view_ok s"
    unfolding s' schedule_ok_def warning_ok_def baseline_ok_def view_ok_def shown_history_def using d by (simp_all add: same_view_def)
  moreover have "td_active (ts_display ?s) = td_active (ts_display s)" "ts_previous_rows ?s = ts_previous_rows s"
      "ts_previous_process_rows ?s = ts_previous_process_rows s"
      "sn_rows (ts_snapshot ?s) = (if sn_flows (ts_snapshot ?s) then ts_flow_rows ?s else ts_process_rows ?s)"
    unfolding s' using d by (simp_all add: same_view_def)
  ultimately show ?thesis
    using assms unfolding session_ok_def session_base_def by presburger
qed

lemma flow_display_key: "\<forall>x \<in> set (flows_shown tf now s flows). \<exists>r \<in> set flows. fst x = flow_key_bytes (fst r)"
  by (force simp: flows_shown_def)

lemma process_display_key: "\<forall>x \<in> set (processes_shown tf now s flows processes). length (fst x) = 16"
  by (auto simp: processes_shown_def process_key_bytes_length)

lemma sample_display_ok:
  assumes s: "session_ok s" "td_active (ts_display s)" and env: "env_ok env"
  obtains out s' where "traffic_sample_display env now s = Some (out, s')" "session_ok s'" "ts_interval s' = ts_interval s" "ts_count s' = ts_count s"
    "ts_reports s' = ts_reports s"
proof -
  let ?t = "sampled env now s"
  have v: "view_ok s"
    using s by (simp add: session_ok_def)
  have se: "sorts (se_sort_flows env)" "walk_keys_ok (se_flows env)" "sorts (se_sort_processes env)" "sorts (se_sort_rows env)"
    using env by (auto simp: env_ok_def sample_env_ok_def)
  have keys: "\<forall>r \<in> set (sample_flows env). flow_key_ok (fst r)"
    using flow_sample_rows(2) [OF se(1,2), of False] by (auto simp: sample_flows_def prod_eq_iff)
  have fh0: "view_history TRAFFIC_MAX_FLOWS 72 (ts_flow_history ?t)" "th_count (ts_flow_history ?t) = th_count (ts_flow_history s)"
    and ph0: "view_history TRAFFIC_MAX_PROCESSES 16 (ts_process_history ?t)" "th_count (ts_process_history ?t) = th_count (ts_process_history s)"
    using v begin_view_history by (auto simp: view_ok_def)
  have "\<forall>x \<in> set (flows_shown (se_text env) now s (sample_flows env)). length (fst x) = 72"
    using flow_display_key keys flow_key_bytes_length by metis
  then obtain fh where fh: "keep_rows (flows_shown (se_text env) now s (sample_flows env)) (ts_flow_history ?t) = Some fh"
      "view_history TRAFFIC_MAX_FLOWS 72 fh" "th_count (ts_flow_history s) \<le> th_count fh"
    using keep_rows_ok [OF fh0(1)] fh0(2) by metis
  obtain ph where ph: "keep_rows (processes_shown (se_text env) now s (sample_flows env) (sample_processes env)) (ts_process_history ?t) = Some ph"
      "view_history TRAFFIC_MAX_PROCESSES 16 ph" "th_count (ts_process_history s) \<le> th_count ph"
    using keep_rows_ok [OF ph0(1) process_display_key] ph0(2) by metis
  obtain re gap where p: "traffic_sample_display env now s =
     (case keep_rows (flows_shown (se_text env) now s (sample_flows env)) (ts_flow_history (sampled env now s)) of
        None \<Rightarrow> None
      | Some fh \<Rightarrow>
          (case keep_rows (processes_shown (se_text env) now s (sample_flows env) (sample_processes env)) (ts_process_history (sampled env now s)) of
             None \<Rightarrow> None
           | Some ph \<Rightarrow> Some (traffic_render_cached (tf_float (se_text env)) (se_window env)
               (sample_end env now (sample_flows env) (sample_processes env) re gap fh ph (sampled env now s)))))"
    by (rule sample_display_parts)
  define u where "u = sample_end env now (sample_flows env) (sample_processes env) re gap fh ph ?t"
  have r: "traffic_sample_display env now s = Some (traffic_render_cached (tf_float (se_text env)) (se_window env) u)"
    unfolding p fh(1) ph(1) option.case u_def ..
  have "view_ok u"
    using v fh(2,3) ph(2,3) view_rows_in [OF se(4) fh(2)] view_rows_in [OF se(4) ph(2)]
    by (auto simp: u_def sample_end_def view_ok_def shown_history_def split: if_splits intro: less_le_trans)
  moreover have "schedule_ok u"
    using s(1) by (simp add: u_def sample_end_def session_ok_def schedule_ok_def)
  moreover have "warning_ok u"
    using sample_warning_length by (simp add: u_def sample_end_def warning_ok_def)
  moreover have "baseline_ok u"
    using sample_baseline [of env u] env by (simp add: u_def sample_end_def env_ok_def)
  moreover have "length (ts_previous_rows u) \<le> TRAFFIC_MAX_FLOWS" "length (ts_previous_process_rows u) \<le> TRAFFIC_MAX_PROCESSES"
    using flow_sample_length [OF se(1)] process_sample_length [OF se(3)] by (simp_all add: u_def sample_end_def sample_flows_def sample_processes_def)
  ultimately have "session_base u"
    by (simp add: session_base_def)
  moreover have "ts_interval u = ts_interval s" "ts_count u = ts_count s" "ts_reports u = ts_reports s"
    by (simp_all add: u_def sample_end_def)
  moreover obtain out s' where e: "traffic_render_cached (tf_float (se_text env)) (se_window env) u = (out, s')"
    by (rule prod.exhaust)
  ultimately have "session_ok s'" "ts_interval s' = ts_interval s" "ts_count s' = ts_count s" "ts_reports s' = ts_reports s"
    using render_cached_ok [of u "tf_float (se_text env)" "se_window env"] render_cached_frame(9,10,11) [of "tf_float (se_text env)" "se_window env" u]
    unfolding e snd_conv by simp_all
  then show ?thesis
    by (rule that [OF r [unfolded e]])
qed

lemma report_done_frame [simp]:
  "ts_active (report_done now force s) = ts_active s" "ts_interval (report_done now force s) = ts_interval s"
  "ts_count (report_done now force s) = ts_count s" "ts_reports (report_done now force s) = (if force then ts_reports s else ts_reports s + 1)"
  "ts_last_report_ns (report_done now force s) = now" "ts_next_report_ns (report_done now force s) = now + ucast (ts_interval s) * 1000000000"
  "ts_display (report_done now force s) = ts_display s"
  by (simp_all add: report_done_def Let_def)

lemma report_done_ok:
  assumes "session_ok s" and "\<not> ts_limit_reached s"
  shows "session_ok (report_done now force s)"
proof -
  have "schedule_ok (report_done now force s)"
  proof -
    have b: "ts_reports s < ts_count s" if "ts_count s \<noteq> 0"
      using assms that by (auto simp: session_ok_def schedule_ok_def not_le)
    have "ts_reports s + 1 \<le> ts_count s" if "ts_count s \<noteq> 0"
      using inc_le [OF b [OF that]] .
    then show ?thesis
      using assms b by (auto simp: session_ok_def schedule_ok_def report_done_def Let_def)
  qed
  moreover have "warning_ok (report_done now force s) = warning_ok s" "baseline_ok (report_done now force s) = baseline_ok s"
      "view_ok (report_done now force s) = view_ok s" "ts_previous_rows (report_done now force s) = ts_previous_rows s"
      "ts_previous_process_rows (report_done now force s) = ts_previous_process_rows s" "ts_snapshot (report_done now force s) = ts_snapshot s"
      "ts_flow_rows (report_done now force s) = ts_flow_rows s" "ts_process_rows (report_done now force s) = ts_process_rows s"
    by (simp_all add: warning_ok_def baseline_ok_def view_ok_def shown_history_def report_done_def Let_def)
  ultimately show ?thesis
    using assms(1) unfolding session_ok_def by simp
qed

lemma plain_report_ok:
  assumes "session_ok s" and "\<not> td_active (ts_display s)"
  shows "session_ok (snd (traffic_plain_report env now s)) \<and> ts_limit_reached (snd (traffic_plain_report env now s)) = ts_limit_reached s \<and>
    ts_interval (snd (traffic_plain_report env now s)) = ts_interval s \<and> ts_count (snd (traffic_plain_report env now s)) = ts_count s \<and>
    ts_reports (snd (traffic_plain_report env now s)) = ts_reports s"
proof -
  obtain drops where "snd (traffic_plain_report env now s) = s\<lparr>ts_previous_drops := drops\<rparr>"
    unfolding traffic_plain_report_def Let_def case_prod_beta snd_conv by blast
  then show ?thesis
    using assms by (simp add: session_ok_def warning_ok_def baseline_ok_def schedule_ok_def)
qed

text \<open>A tick always ends, and reports exactly when it is due.\<close>

lemma tick_ok:
  assumes s: "session_ok s" and env: "env_ok env"
  obtains out s' where "traffic_tick env now force s = Some (ts_limit_reached s', out, s')" "session_ok s'"
    "ts_interval s' = ts_interval s" "ts_count s' = ts_count s"
    "tick_due now force s \<Longrightarrow> ts_last_report_ns s' = now \<and> ts_next_report_ns s' = now + ucast (ts_interval s) * 1000000000 \<and>
       ts_reports s' = (if force then ts_reports s else ts_reports s + 1)"
    "\<not> tick_due now force s \<Longrightarrow> s' = s \<and> out = []"
proof (cases "tick_due now force s")
  case False
  then show ?thesis
    using that [of s "[]"] tick_not_due [OF False] s by simp
next
  case True
  have lim: "\<not> ts_limit_reached s"
    using True by (simp add: tick_due_def)
  obtain out s1 where r: "(if td_active (ts_display s) then traffic_sample_display env now s else Some (traffic_plain_report env now s)) = Some (out, s1)"
      and s1: "session_ok s1" "ts_interval s1 = ts_interval s" "ts_count s1 = ts_count s" "ts_reports s1 = ts_reports s"
  proof (cases "td_active (ts_display s)")
    case True
    then show ?thesis
      using that sample_display_ok [OF s True env] by metis
  next
    case False
    then show ?thesis
      using that [of "fst (traffic_plain_report env now s)" "snd (traffic_plain_report env now s)"] plain_report_ok [OF s False] by simp
  qed
  have "\<not> ts_limit_reached s1"
    using s1 s lim by (simp add: session_ok_def schedule_ok_def)
  then have "session_ok (report_done now force s1)"
    using report_done_ok s1(1) by blast
  moreover have "traffic_tick env now force s = Some (ts_limit_reached (report_done now force s1), out, report_done now force s1)"
    using True unfolding traffic_tick_def r by (auto simp: tick_due_def not_less)
  ultimately show ?thesis
    using that [of "report_done now force s1" out] s1 True by simp
qed

section \<open>Polling\<close>

lemma display_key_cases:
  assumes "traffic_display_key d sn key = (redraw, d', sn')"
  shows "td_active d' = td_active d" and "sn' = sn \<or> sn' = sn\<lparr>sn_flows := (key = key_of CHR ''f'')\<rparr> \<and> td_history_record d' = None"
    and "td_history_record d' = None \<or> td_history_record d' = td_history_record d \<or>
       td_first_row d < length (sn_rows sn) \<and> td_history_record d' = row_record (sn_rows sn ! td_first_row d)"
    and "\<not> redraw \<Longrightarrow> d' = d \<and> sn' = sn" and "key = 0 \<Longrightarrow> \<not> redraw"
proof -
  have z: "key_of CHR ''p'' \<noteq> 0" "key_of CHR ''f'' \<noteq> 0" "key_of CHR ''h'' \<noteq> 0" "key_of CHR ''j'' \<noteq> 0" "key_of CHR ''k'' \<noteq> 0"
    by code_simp+
  show "td_active d' = td_active d" "sn' = sn \<or> sn' = sn\<lparr>sn_flows := (key = key_of CHR ''f'')\<rparr> \<and> td_history_record d' = None"
      "td_history_record d' = None \<or> td_history_record d' = td_history_record d \<or>
       td_first_row d < length (sn_rows sn) \<and> td_history_record d' = row_record (sn_rows sn ! td_first_row d)"
      "\<not> redraw \<Longrightarrow> d' = d \<and> sn' = sn"
    using assms by (auto simp: traffic_display_key_def split: if_splits)
  show "key = 0 \<Longrightarrow> \<not> redraw"
    using assms z by (auto simp: traffic_display_key_def split: if_splits)
qed

lemma key_base:
  assumes s: "session_ok s" "td_active (ts_display s)" and k: "traffic_display_key (ts_display s) (ts_snapshot s) key = (redraw, d, sn)"
  shows "session_base (s\<lparr>ts_display := d, ts_snapshot := sn\<rparr>)"
proof -
  note c = display_key_cases [OF k]
  let ?s = "s\<lparr>ts_display := d, ts_snapshot := sn\<rparr>"
  have v: "view_ok s" "sn_rows (ts_snapshot s) = (if sn_flows (ts_snapshot s) then ts_flow_rows s else ts_process_rows s)"
    using s by (auto simp: session_ok_def)
  have rows: "\<exists>r < th_count (shown_history s). row_record (sn_rows (ts_snapshot s) ! i) = Some r" if "i < length (sn_rows (ts_snapshot s))" for i
    using v that by (auto simp: view_ok_def rows_in_def shown_history_def split: if_splits dest: nth_mem)
  have "p < th_count (shown_history ?s)" if "td_history_record d = Some p" for p
  proof -
    have "sn = ts_snapshot s"
      using c(2) that by auto
    then have "shown_history ?s = shown_history s"
      by (simp add: shown_history_def)
    moreover have "td_history_record (ts_display s) = Some p \<longrightarrow> p < th_count (shown_history s)"
      using v(1) by (simp add: view_ok_def)
    ultimately show ?thesis
      using c(3) that rows by fastforce
  qed
  then have "view_ok ?s"
    using v(1) by (simp add: view_ok_def)
  moreover have "warning_ok ?s"
    using s(1) c(2) by (auto simp: session_ok_def warning_ok_def)
  moreover have "schedule_ok ?s" "baseline_ok ?s" "length (ts_previous_rows s) \<le> TRAFFIC_MAX_FLOWS" "length (ts_previous_process_rows s) \<le> TRAFFIC_MAX_PROCESSES"
    using s(1) by (simp_all add: session_ok_def schedule_ok_def baseline_ok_def)
  ultimately show ?thesis
    by (simp add: session_base_def)
qed

text \<open>A poll that does not quit is a tick, as far as the schedule is concerned.\<close>

definition same_schedule :: "traffic_session \<Rightarrow> traffic_session \<Rightarrow> bool" where
  "same_schedule s s' \<longleftrightarrow> ts_interval s' = ts_interval s \<and> ts_count s' = ts_count s \<and> ts_reports s' = ts_reports s \<and> ts_active s' = ts_active s \<and>
     ts_limit_reached s' = ts_limit_reached s \<and> ts_last_report_ns s' = ts_last_report_ns s \<and> ts_next_report_ns s' = ts_next_report_ns s"

definition quits :: "traffic_session \<Rightarrow> u8 option list \<Rightarrow> bool" where
  "quits s input \<longleftrightarrow> fst (traffic_display_read_key (ts_display s) input) = key_of CHR ''q''"

lemma poll_tick:
  assumes s: "session_ok s" and nq: "\<not> quits s input"
  obtains out s2 where "traffic_poll env input now s = map_option (\<lambda>(finished, out', s3). (finished, out @ out', s3)) (traffic_tick env now False s2)"
    "session_ok s2" "same_schedule s s2"
proof -
  define key where "key = fst (traffic_display_read_key (ts_display s) input)"
  obtain redraw d sn where k: "traffic_display_key (ts_display s) (ts_snapshot s) key = (redraw, d, sn)"
    by (rule prod_cases3)
  note c = display_key_cases [OF k]
  have nqk: "key \<noteq> key_of CHR ''q''"
    using nq by (simp add: quits_def key_def)
  show ?thesis
  proof (cases redraw)
    case False
    then have "d = ts_display s" "sn = ts_snapshot s"
      using c(4) by auto
    then have "traffic_poll env input now s = map_option (\<lambda>(finished, out', s3). (finished, [] @ out', s3)) (traffic_tick env now False s)"
      using nqk k False unfolding traffic_poll_def key_def [symmetric] Let_def by simp
    then show ?thesis
      using that [of "[]" s] s by (simp add: same_schedule_def)
  next
    case True
    have "td_active (ts_display s)"
    proof (rule ccontr)
      assume "\<not> td_active (ts_display s)"
      then have "key = 0"
        by (simp add: key_def traffic_display_read_key_def)
      then show False
        using True c(5) by simp
    qed
    then have b: "session_base (s\<lparr>ts_display := d, ts_snapshot := sn\<rparr>)"
      using key_base [OF s _ k] by blast
    obtain out s2 where e: "traffic_render_cached (tf_float (se_text env)) (se_window env) (s\<lparr>ts_display := d, ts_snapshot := sn\<rparr>) = (out, s2)"
      by (rule prod.exhaust)
    have "session_ok s2" "same_schedule s s2"
      using render_cached_ok [OF b, of "tf_float (se_text env)" "se_window env"]
        render_cached_frame [of "tf_float (se_text env)" "se_window env" "s\<lparr>ts_display := d, ts_snapshot := sn\<rparr>"]
      unfolding e snd_conv by (simp_all add: same_schedule_def)
    moreover have "traffic_poll env input now s = map_option (\<lambda>(finished, out', s3). (finished, out @ out', s3)) (traffic_tick env now False s2)"
      using nqk k True e unfolding traffic_poll_def key_def [symmetric] Let_def by simp
    ultimately show ?thesis
      using that by blast
  qed
qed

lemma poll_ok:
  assumes s: "session_ok s" and env: "env_ok env" and nq: "\<not> quits s input"
  obtains out s' where "traffic_poll env input now s = Some (ts_limit_reached s', out, s')" "session_ok s'" "ts_interval s' = ts_interval s" "ts_count s' = ts_count s"
    "tick_due now False s \<Longrightarrow> ts_last_report_ns s' = now \<and> ts_next_report_ns s' = now + ucast (ts_interval s) * 1000000000 \<and> ts_reports s' = ts_reports s + 1"
    "\<not> tick_due now False s \<Longrightarrow> same_schedule s s'"
proof -
  obtain out s2 where p: "traffic_poll env input now s = map_option (\<lambda>(finished, out', s3). (finished, out @ out', s3)) (traffic_tick env now False s2)"
      and s2: "session_ok s2" "same_schedule s s2"
    using poll_tick [OF s nq] .
  obtain out' s3 where t: "traffic_tick env now False s2 = Some (ts_limit_reached s3, out', s3)" "session_ok s3" "ts_interval s3 = ts_interval s2" "ts_count s3 = ts_count s2"
      "tick_due now False s2 \<Longrightarrow> ts_last_report_ns s3 = now \<and> ts_next_report_ns s3 = now + ucast (ts_interval s2) * 1000000000 \<and>
         ts_reports s3 = (if False then ts_reports s2 else ts_reports s2 + 1)"
      "\<not> tick_due now False s2 \<Longrightarrow> s3 = s2 \<and> out' = []"
    using tick_ok [OF s2(1) env, of now False] by blast
  have due: "tick_due now False s2 = tick_due now False s"
    using s2(2) by (simp add: tick_due_def same_schedule_def)
  show ?thesis
    using that [of s3 "out @ out'"] p t due s2(2) by (auto simp: same_schedule_def)
qed

lemma poll_quit: "quits s input \<Longrightarrow> traffic_poll env input now s = Some (True, [], s)"
  by (simp add: traffic_poll_def quits_def)

lemma start_buffers_ok:
  assumes "start_buffers env args zero_session = (True, s1)"
  shows "s1 = zero_session\<lparr>ts_interval := to_interval args, ts_count := to_count args, ts_l4_proto := to_l4_proto args, ts_rows := True\<rparr> \<and>
      \<not> (to_ui args \<and> de_stdout_tty (su_display env)) \<or>
    (\<exists>fh ph. s1 = zero_session\<lparr>ts_interval := to_interval args, ts_count := to_count args, ts_l4_proto := to_l4_proto args, ts_rows := True,
        ts_arrays := True, ts_flow_history := fh, ts_process_history := ph\<rparr> \<and>
      view_history TRAFFIC_MAX_FLOWS 72 fh \<and> th_count fh = 0 \<and> view_history TRAFFIC_MAX_PROCESSES 16 ph \<and> th_count ph = 0)"
proof -
  have o: "view_history c k h \<and> th_count h = 0" if "traffic_history_open alloc c k zero_history = (True, h)" for alloc c k h
  proof -
    have "alloc = (True, True)"
      using that by (cases alloc) (auto simp: traffic_history_open_def Let_def split: if_splits)
    then show ?thesis
      using that open_ok [of c k h] by (simp add: view_history_def)
  qed
  have z: "ts_flow_history zero_session = zero_history" "ts_process_history zero_session = zero_history"
    by (simp_all add: zero_session_def)
  show ?thesis
  proof (cases "to_ui args \<and> de_stdout_tty (su_display env)")
    case False
    then show ?thesis
      using assms by (auto simp: start_buffers_def Let_def split: if_splits)
  next
    case True
    then obtain fh ph where "traffic_history_open (su_flow_history env) TRAFFIC_MAX_FLOWS 72 zero_history = (True, fh)"
        "traffic_history_open (su_process_history env) TRAFFIC_MAX_PROCESSES 16 zero_history = (True, ph)"
        "s1 = zero_session\<lparr>ts_interval := to_interval args, ts_count := to_count args, ts_l4_proto := to_l4_proto args, ts_rows := True,
          ts_arrays := True, ts_flow_history := fh, ts_process_history := ph\<rparr>"
      using assms by (auto simp: start_buffers_def Let_def z split: if_splits prod.splits)
    then show ?thesis
      using o by blast
  qed
qed

lemma session_start_ok:
  assumes "traffic_start env args zero_session no_links = (True, out, s, st)"
  shows "session_ok s \<and> ts_interval s = to_interval args \<and> ts_count s = to_count args \<and> ts_reports s = 0 \<and> \<not> ts_limit_reached s \<and>
    ts_last_report_ns s = su_clock env \<and> ts_next_report_ns s = su_clock env + ucast (to_interval args) * 1000000000"
proof -
  have rel: "snd (traffic_release u w) = (zero_session, traffic_release_links w)" for u w
    by (simp add: traffic_release_def traffic_display_close_def)
  obtain s1 s2 where valid: "traffic_validate_options args" and b: "start_buffers env args zero_session = (True, s1)" and l: "start_load env s1 = (True, s2)"
      and v: "start_view env args s2 = (out, s)"
    using assms by (auto simp: traffic_start_def rel split: if_splits prod.splits)
  have s2: "s2 = s1\<lparr>ts_skel := True, ts_start_ns := su_clock env, ts_last_report_ns := su_clock env, ts_totals_sample_ns := su_clock env\<rparr>"
    using l by (auto simp: start_load_def split: if_splits)
  let ?t = "start_session env args s2"
  have i: "1 \<le> to_interval args" "to_interval args \<le> 3600"
    using valid unfolding traffic_validate_options_def by (simp_all only: de_Morgan_disj not_less)
  note bo = start_buffers_ok [OF b]
  have t: "schedule_ok ?t" "warning_ok ?t" "baseline_ok ?t" "ts_previous_rows ?t = []" "ts_previous_process_rows ?t = []" "ts_display ?t = zero_display"
      "ts_interval ?t = to_interval args" "ts_count ?t = to_count args" "ts_reports ?t = 0" "\<not> ts_limit_reached ?t" "ts_last_report_ns ?t = su_clock env"
      "ts_next_report_ns ?t = su_clock env + ucast (to_interval args) * 1000000000" "ts_flow_rows ?t = []" "ts_process_rows ?t = []" "ts_display s2 = zero_display"
    using bo i unfolding s2 start_session_def schedule_ok_def warning_ok_def baseline_ok_def by (auto simp: zero_session_def)
  have view: "view_ok (?t\<lparr>ts_display := d\<rparr>)" if "to_ui args" "de_stdout_tty (su_display env)" "td_history_record d = None" for d
    using bo that t unfolding s2 start_session_def view_ok_def by (auto simp: rows_in_def)
  have base: "session_base (?t\<lparr>ts_display := d\<rparr>)" if "td_active d \<longrightarrow> view_ok (?t\<lparr>ts_display := d\<rparr>)" for d
    using t that by (simp add: session_base_def schedule_ok_def warning_ok_def baseline_ok_def)
  obtain opened d where o: "traffic_display_open (su_display env) zero_display = (opened, d)"
    by (rule prod.exhaust)
  have od: "opened = td_active d" "opened \<longrightarrow> de_stdout_tty (su_display env)" "td_history_record d = None"
    using o by (auto simp: traffic_display_open_def zero_display_def split: if_splits)
  consider "\<not> to_ui args" "s = ?t" | "to_ui args" "\<not> opened" "s = ?t\<lparr>ts_display := d\<rparr>"
    | "to_ui args" "opened" "(out, s) = traffic_render_cached (tf_float (su_text env)) (su_window env) (?t\<lparr>ts_display := d\<rparr>)"
    using v o unfolding start_view_def Let_def t(15) by (auto split: if_splits)
  then show ?thesis
  proof cases
    case 1
    then show ?thesis
      using t by (simp add: session_ok_def zero_display_def)
  next
    case 2
    then show ?thesis
      using t od by (simp add: session_ok_def schedule_ok_def warning_ok_def baseline_ok_def)
  next
    case 3
    have "session_ok (snd (traffic_render_cached (tf_float (su_text env)) (su_window env) (?t\<lparr>ts_display := d\<rparr>)))"
      using base view od 3 by (intro render_cached_ok) simp
    then show ?thesis
      using t arg_cong [OF 3(3), of snd] by simp
  qed
qed

section \<open>Probes of a session\<close>

text \<open>
  C37. Probes.  When a session starts, the links it opened are the distinct links of its array, at most the
  15 it has room for; each direction of each traced protocol has its pair of probes, a return probe is never left
  without its entry probe, and the UDP endpoint probes are in place.  When the start fails, and when a started
  session is stopped, no link stays open and the session is empty again.
\<close>

theorem traffic_start_probes:
  assumes "traffic_start env args zero_session no_links = (ok, out, s, st)"
  shows "if ok then ts_active s \<and> at_links st = at_open st \<and> distinct (at_open st) \<and> length (at_links st) \<le> TRAFFIC_MAX_LINKS \<and>
           probes_cover (to_l4_proto args) (map snd (at_open st)) \<and> probes_paired (map snd (at_open st)) \<and>
           (\<forall>final now report out' s' st'. traffic_stop final now report s st = Some (out', s', st') \<longrightarrow>
              s' = zero_session \<and> at_open st' = [] \<and> at_links st' = [])
         else s = zero_session \<and> at_open st = [] \<and> at_links st = []"
proof (cases ok)
  case True
  obtain new where new: "linked new no_links st" "length new \<le> TRAFFIC_MAX_LINKS" "probes_paired (map snd new)" "ts_active s"
      "probes_cover (to_l4_proto args) (map snd new)"
    using start_parts [OF assms] True by metis
  have "s' = zero_session \<and> at_open st' = [] \<and> at_links st' = []" if "traffic_stop final now report s st = Some (out', s', st')" for final now report out' s' st'
    using that new(4) attach_start [OF assms] True by (auto simp: traffic_stop_def split: option.splits if_splits)
  then show ?thesis
    using new True by (simp add: linked_def no_links_def)
next
  case False
  then show ?thesis
    using attach_start [OF assms] by simp
qed

section \<open>The run\<close>

lemma run_loop_ok:
  assumes "session_ok s" and "\<forall>r \<in> set rounds. env_ok (rr_env r)"
  shows "\<exists>ended out s'. run_loop rounds s = Some (ended, out, s') \<and> session_ok s'"
  using assms
proof (induction rounds arbitrary: s)
  case Nil
  then show ?case
    by (intro exI [of _ False] exI [of _ "[]"] exI [of _ s]) simp
next
  case (Cons r rounds)
  have env: "env_ok (rr_env r)"
    using Cons.prems(2) by simp
  consider "rr_exit_first r \<or> rr_exit_slept r" | "\<not> (rr_exit_first r \<or> rr_exit_slept r)" "quits s (rr_input r)"
    | "\<not> (rr_exit_first r \<or> rr_exit_slept r)" "\<not> quits s (rr_input r)"
    by blast
  then show ?case
  proof cases
    case 3
    obtain out s1 where p: "traffic_poll (rr_env r) (rr_input r) (rr_now r) s = Some (ts_limit_reached s1, out, s1)" "session_ok s1"
      using poll_ok [OF Cons.prems(1) env 3(2)] by blast
    then show ?thesis
      using 3 Cons.IH [of s1] Cons.prems(2) by (cases "ts_limit_reached s1") auto
  qed (use Cons.prems in \<open>auto simp: poll_quit\<close>)
qed

lemma stop_ok:
  assumes "session_ok s" and "env_ok env"
  shows "\<exists>out. traffic_stop env now report s st = Some (out, zero_session, traffic_release_links st)"
proof -
  have a: "ts_active s"
    using assms(1) by (simp add: session_ok_def schedule_ok_def)
  have rel: "snd (traffic_release u w) = (zero_session, traffic_release_links w)" for u w
    by (simp add: traffic_release_def traffic_display_close_def)
  obtain out s' where "traffic_tick env now True s = Some (ts_limit_reached s', out, s')"
    using tick_ok [OF assms, of now True] by blast
  then show ?thesis
    using a by (cases report) (simp_all add: traffic_stop_def rel)
qed

text \<open>
  C38. Every reachable state of a session is sound and every operation ends.  After a successful start, whatever keys
  arrive and whatever the maps, the clock and the terminal answer, the loop returns (the probing of
  the history ends each time); the arrays of the view are allocated before they are used, the rows fit in them, each row shown leads to
  a record of its history, the record on the screen is one of the history on the screen, the baseline is sorted for
  the binary search, the warning fits its buffer, and the reports never exceed the requested count; then stopping
  returns too.
\<close>

theorem traffic_session_safe:
  assumes "traffic_start env args zero_session no_links = (True, out, s, st)" and "\<forall>r \<in> set rounds. env_ok (rr_env r)" and "env_ok final"
  shows "\<exists>ended out' s' out''. run_loop rounds s = Some (ended, out', s') \<and> session_ok s' \<and>
    traffic_stop final now report s' st = Some (out'', zero_session, traffic_release_links st)"
  using run_loop_ok [of s rounds] session_start_ok [OF assms(1)] assms(2,3) stop_ok by metis

text \<open>A clock that is read at least every \<open>g\<close> nanoseconds, and does not wrap around.\<close>

definition interval_ns :: "u32 \<Rightarrow> nat" where
  "interval_ns interval = unat interval * 1000000000"

fun steady :: "nat \<Rightarrow> nat \<Rightarrow> nat \<Rightarrow> run_round list \<Rightarrow> bool" where
  "steady i g c [] = True"
| "steady i g c (r # rounds) = (c \<le> unat (rr_now r) \<and> unat (rr_now r) \<le> c + g \<and> unat (rr_now r) + i < 2 ^ 64 \<and> steady i g (unat (rr_now r)) rounds)"

definition last_clock :: "nat \<Rightarrow> run_round list \<Rightarrow> nat" where
  "last_clock c rounds = last (c # map (\<lambda>r. unat (rr_now r)) rounds)"

lemma interval_word:
  assumes "interval \<le> 3600"
  shows "unat (ucast interval * 1000000000 :: u64) = interval_ns interval"
proof -
  have "unat interval \<le> 3600"
    using assms by (simp add: word_le_nat_alt)
  moreover have "unat (ucast interval :: u64) = unat interval"
    using unsigned_less [of interval, where ?'a = nat] by (simp add: unsigned_ucast_eq take_bit_nat_eq_self)
  ultimately show ?thesis
    by (simp add: interval_ns_def unat_word_ariths)
qed

lemma next_report_word:
  fixes now :: u64
  assumes "interval \<le> 3600" and "unat now + interval_ns interval < 2 ^ 64"
  shows "unat (now + ucast interval * 1000000000) = unat now + interval_ns interval"
proof -
  have "unat (now + ucast interval * 1000000000) = (unat now + unat (ucast interval * 1000000000 :: u64)) mod 2 ^ 64"
    by (simp only: unat_word_ariths(1)) simp
  then show ?thesis
    using interval_word [OF assms(1)] assms(2) by simp
qed

lemma run_loop_ends:
  assumes "session_ok s" and "\<forall>r \<in> set rounds. env_ok (rr_env r)" and "steady i g c rounds" and "i = interval_ns (ts_interval s)"
    and "ts_count s \<noteq> 0" and "0 < c" and "unat (ts_last_report_ns s) \<le> c" and "c < unat (ts_next_report_ns s)"
    and "unat (ts_next_report_ns s) \<le> start + i + unat (ts_reports s) * (i + g)" and "ts_reports s < ts_count s"
    and "start + unat (ts_count s) * (i + g) \<le> last_clock c rounds"
  shows "\<exists>out s'. run_loop rounds s = Some (True, out, s') \<and> session_ok s'"
  using assms
proof (induction rounds arbitrary: s c)
  case Nil
  have "unat (ts_reports s) + 1 \<le> unat (ts_count s)"
    using Nil.prems(10) by (simp add: word_less_nat_alt)
  then have "(unat (ts_reports s) + 1) * (i + g) \<le> unat (ts_count s) * (i + g)"
    by (rule mult_le_mono1)
  then have "unat (ts_reports s) * (i + g) + i + g \<le> unat (ts_count s) * (i + g)"
    by simp
  moreover have "start + unat (ts_count s) * (i + g) \<le> c"
    using Nil.prems(11) by (simp add: last_clock_def)
  ultimately have False
    using Nil.prems(8,9) by linarith
  then show ?case ..
next
  case (Cons r rounds)
  let ?now = "rr_now r"
  have env: "env_ok (rr_env r)" and clock: "c \<le> unat ?now" "unat ?now \<le> c + g" "unat ?now + i < 2 ^ 64" "steady i g (unat ?now) rounds"
    using Cons.prems(2,3) by auto
  have lc: "start + unat (ts_count s) * (i + g) \<le> last_clock (unat ?now) rounds"
    using Cons.prems(11) by (cases rounds) (simp_all add: last_clock_def)
  have sched: "ts_interval s \<le> 3600" "1 \<le> ts_interval s" "ts_active s" "\<not> ts_limit_reached s"
    using Cons.prems(1,10) by (auto simp: session_ok_def schedule_ok_def not_le)
  have ipos: "0 < i"
    using sched(2) Cons.prems(4) by (simp add: interval_ns_def word_le_nat_alt)
  consider "rr_exit_first r \<or> rr_exit_slept r" | "\<not> (rr_exit_first r \<or> rr_exit_slept r)" "quits s (rr_input r)"
    | "\<not> (rr_exit_first r \<or> rr_exit_slept r)" "\<not> quits s (rr_input r)"
    by blast
  then show ?case
  proof cases
    case 3
    obtain out s1 where p: "traffic_poll (rr_env r) (rr_input r) ?now s = Some (ts_limit_reached s1, out, s1)" "session_ok s1" "ts_interval s1 = ts_interval s"
        "ts_count s1 = ts_count s"
        "tick_due ?now False s \<Longrightarrow> ts_last_report_ns s1 = ?now \<and> ts_next_report_ns s1 = ?now + ucast (ts_interval s) * 1000000000 \<and> ts_reports s1 = ts_reports s + 1"
        "\<not> tick_due ?now False s \<Longrightarrow> same_schedule s s1"
      using poll_ok [OF Cons.prems(1) env 3(2)] by blast
    have now: "?now \<noteq> 0" "ts_last_report_ns s \<le> ?now"
      using Cons.prems(6,7) clock(1) by (auto simp: word_le_nat_alt)
    show ?thesis
    proof (cases "ts_limit_reached s1")
      case True
      then show ?thesis
        using 3 p(1,2) by auto
    next
      case False
      then have rep: "ts_reports s1 < ts_count s1"
        using p(2,4) Cons.prems(5) by (auto simp: session_ok_def schedule_ok_def)
      have "unat (ts_last_report_ns s1) \<le> unat ?now \<and> unat ?now < unat (ts_next_report_ns s1) \<and>
        unat (ts_next_report_ns s1) \<le> start + i + unat (ts_reports s1) * (i + g)"
      proof (cases "tick_due ?now False s")
        case True
        have "unat (ts_reports s + 1) = unat (ts_reports s) + 1"
          using Cons.prems(10) unsigned_less [of "ts_count s", where ?'a = nat] by (simp add: unat_word_ariths word_less_nat_alt)
        moreover have "unat (ts_next_report_ns s1) = unat ?now + i"
          using p(5) [OF True] next_report_word [OF sched(1)] clock(3) Cons.prems(4) by simp
        ultimately show ?thesis
          using p(5) [OF True] Cons.prems(8,9) clock(2) ipos by (simp add: algebra_simps)
      next
        case False
        then have "?now < ts_next_report_ns s"
          using sched now by (simp add: tick_due_def not_le)
        then show ?thesis
          using p(6) [OF False] Cons.prems(7,9) clock(1) by (simp add: same_schedule_def word_less_nat_alt)
      qed
      then have "\<exists>out s'. run_loop rounds s1 = Some (True, out, s') \<and> session_ok s'"
        using p(2,3,4) Cons.prems(2,4,5,6) clock lc rep by (intro Cons.IH [of s1 "unat ?now"]) auto
      then show ?thesis
        using 3 p(1) False by auto
    qed
  qed (use Cons.prems in \<open>auto simp: poll_quit\<close>)
qed

text \<open>
  C39. A run with a count ends.  If the loop is polled at least every \<open>g\<close> nanoseconds by a clock that does not wrap
  around, then the run returns at the latest when the clock has advanced by the count times the interval plus
  \<open>g\<close>, whatever else happens; it leaves no link open and an empty session.
\<close>

theorem traffic_run_ends:
  assumes "to_count args \<noteq> 0" and "\<forall>r \<in> set rounds. env_ok (rr_env r)" and "env_ok final"
    and "unat (su_clock env) + interval_ns (to_interval args) < 2 ^ 64"
    and "steady (interval_ns (to_interval args)) g (unat (su_clock env)) rounds"
    and "unat (su_clock env) + unat (to_count args) * (interval_ns (to_interval args) + g) \<le> last_clock (unat (su_clock env)) rounds"
  shows "\<exists>code out st. traffic_run env args rounds final now zero_session no_links = Some (code, out, zero_session, st) \<and> at_open st = [] \<and> at_links st = []"
proof -
  obtain ok out s st where st: "traffic_start env args zero_session no_links = (ok, out, s, st)"
    by (rule prod_cases4)
  note pr = attach_start [OF st]
  show ?thesis
  proof (cases ok)
    case False
    then show ?thesis
      using pr st by (simp add: traffic_run_def)
  next
    case True
    then have st': "traffic_start env args zero_session no_links = (True, out, s, st)"
      using st by simp
    note so = session_start_ok [OF st']
    have iv: "to_interval args \<le> 3600" "1 \<le> to_interval args"
      using so by (auto simp: session_ok_def schedule_ok_def)
    have nx: "unat (ts_next_report_ns s) = unat (su_clock env) + interval_ns (to_interval args)"
      using so next_report_word [OF iv(1) assms(4)] by simp
    have "0 < interval_ns (to_interval args)"
      using iv(2) by (simp add: interval_ns_def word_le_nat_alt)
    moreover have "su_clock env \<noteq> 0"
      using start_clock [OF st'] .
    ultimately have "\<exists>out s'. run_loop rounds s = Some (True, out, s') \<and> session_ok s'"
      using so assms nx by (intro run_loop_ends [of s rounds "interval_ns (to_interval args)" g "unat (su_clock env)" "unat (su_clock env)"])
        (auto simp: word_less_nat_alt unat_gt_0)
    then obtain out' s' where r: "run_loop rounds s = Some (True, out', s')" "session_ok s'"
      by blast
    obtain out'' where "traffic_stop final now True s' st = Some (out'', zero_session, traffic_release_links st)"
      using stop_ok [OF r(2) assms(3)] by blast
    then show ?thesis
      using r st True pr by (simp add: traffic_run_def)
  qed
qed

section \<open>Conservation of bytes\<close>


section \<open>Example runs\<close>

definition demo_text :: traffic_text where
  "demo_text = \<lparr>tf_ntop4 = (\<lambda>_. ''10.0.0.1''), tf_ntop6 = (\<lambda>_. ''::1''), tf_date = (\<lambda>_. ''[2026-01-02 03:04:05.000000] ''), tf_stamp = (\<lambda>_. ''[1.0] ''),
     tf_float = (\<lambda>_ _. [48])\<rparr>"

definition demo_env :: "u64 \<Rightarrow> sample_env" where
  "demo_env n = \<lparr>se_totals = None, se_flows = (NextKey demo_flow_key, \<lambda>_. (NextNone, Some (demo_flow_value n 30))), se_processes = (NextNone, \<lambda>_. (NextNone, None)),
     se_stats = replicate 5 (Some 0), se_text = demo_text, se_sort_flows = insertion_sort, se_sort_processes = insertion_sort, se_sort_rows = insertion_sort,
     se_window = None\<rparr>"

lemma demo_key_ok: "flow_key_ok demo_flow_key"
  by (simp add: flow_key_ok_def demo_flow_key_def zero_flow_def zero_addr_def)

lemma demo_env_ok: "env_ok (demo_env n)"
proof -
  have "visit (se_flows (demo_env n)) i = Some k \<Longrightarrow> k = demo_flow_key" for i k
    by (cases i) (auto simp: demo_env_def split: if_splits)
  then have "walk_keys_ok (se_flows (demo_env n))"
    using demo_key_ok by (auto simp: walk_keys_ok_def)
  then show ?thesis
    by (simp add: env_ok_def sample_env_ok_def insertion_sort_sorts demo_env_def)
qed

lemma demo_env_flows: "sample_flows (demo_env n) = [(demo_flow_key, demo_flow_value n 30)]"
  by (simp add: sample_flows_def demo_env_def traffic_collect_flow_sample_def collect_sample_def collect_loop.simps TRAFFIC_MAX_FLOWS_def
      traffic_unique_flows_def insertion_sort_def unique_step_def)

definition demo_opts :: traffic_opts where
  "demo_opts = \<lparr>to_interval = 1, to_count = 1, to_ui = False, to_netns_current = False, to_min_latency = 0, to_pkt_len = False, to_tcp_flags = False,
     to_basic = False, to_intel = False, to_drop = False, to_sock = False, to_monitor = False, to_rtt = False, to_rtt_detail = False, to_latency = False,
     to_traces = False, to_capture_trace = False, to_traces_stack = False, to_pid = 0, to_uid = 0, to_uid_enabled = False, to_netns = 0, to_l3_proto = 0,
     to_l4_proto = 0, to_sport = 0, to_dport = 0, to_port = 0\<rparr>"

text \<open>All answers are good, but IPv6 cannot be probed.\<close>

definition demo_start :: start_env where
  "demo_start = \<lparr>su_rows = True, su_arrays = [], su_flow_history = (True, True), su_process_history = (True, True), su_open = True, su_load = True, su_clock = 1,
     su_clock_view = 1, su_fails = (\<lambda>n. n = 8 \<or> n = 9),
     su_display = \<lparr>de_stdout_tty = False, de_term = None, de_stdin_tty = False, de_tcgetattr_ok = False, de_tcsetattr_ok = False\<rparr>, su_text = demo_text,
     su_window = None\<rparr>"

definition demo_round :: "u64 \<Rightarrow> run_round" where
  "demo_round now = \<lparr>rr_exit_first = False, rr_exit_slept = False, rr_env = demo_env 5, rr_input = [], rr_now = now\<rparr>"

lemma demo_started: "fst (traffic_start demo_start demo_opts zero_session no_links)"
  by code_simp

definition demo_started_state :: "traffic_output list \<times> traffic_session \<times> attach_state" where
  "demo_started_state = snd (traffic_start demo_start demo_opts zero_session no_links)"

lemma demo_start_result:
  "traffic_start demo_start demo_opts zero_session no_links =
     (True, fst demo_started_state, fst (snd demo_started_state), snd (snd demo_started_state))"
  using demo_started by (simp add: demo_started_state_def prod_eq_iff)

theorem traffic_start_probes_witness:
  "length (at_links (snd (snd demo_started_state))) \<le> TRAFFIC_MAX_LINKS \<and> probes_cover 0 (map snd (at_open (snd (snd demo_started_state))))"
proof -
  have "to_l4_proto demo_opts = 0"
    by (simp add: demo_opts_def)
  then show ?thesis
    using traffic_start_probes [OF demo_start_result] by metis
qed

theorem traffic_session_safe_witness:
  "\<exists>ended out' s'. run_loop [demo_round 2000000001] (fst (snd demo_started_state)) = Some (ended, out', s') \<and> session_ok s'"
  using traffic_session_safe [OF demo_start_result, of "[demo_round 2000000001]" "demo_env 5" 5 True] demo_env_ok by (auto simp: demo_round_def)

theorem traffic_run_ends_witness:
  "\<exists>code out st. traffic_run demo_start demo_opts [demo_round 2000000001, demo_round 4000000001] (demo_env 5) 5 zero_session no_links =
     Some (code, out, zero_session, st) \<and> at_open st = []"
proof -
  have "\<forall>r \<in> set [demo_round 2000000001, demo_round 4000000001]. env_ok (rr_env r)"
    using demo_env_ok by (simp add: demo_round_def)
  moreover have "steady (interval_ns (to_interval demo_opts)) 2000000000 (unat (su_clock demo_start)) [demo_round 2000000001, demo_round 4000000001]"
    by (simp add: demo_round_def demo_start_def demo_opts_def interval_ns_def)
  moreover have "unat (su_clock demo_start) + unat (to_count demo_opts) * (interval_ns (to_interval demo_opts) + 2000000000)
      \<le> last_clock (unat (su_clock demo_start)) [demo_round 2000000001, demo_round 4000000001]"
    by (simp add: last_clock_def demo_round_def demo_start_def demo_opts_def interval_ns_def)
  ultimately show ?thesis
    using traffic_run_ends [of demo_opts "[demo_round 2000000001, demo_round 4000000001]" "demo_env 5" demo_start 2000000000 5] demo_env_ok
    by (auto simp: demo_start_def demo_opts_def interval_ns_def)
qed

text \<open>An interactive session in which a flow appears and grows.\<close>

definition demo_session :: traffic_session where
  "demo_session = zero_session\<lparr>ts_interval := 1, ts_skel := True, ts_rows := True, ts_arrays := True,
     ts_flow_history := snd (traffic_history_open (True, True) TRAFFIC_MAX_FLOWS 72 zero_history),
     ts_process_history := snd (traffic_history_open (True, True) TRAFFIC_MAX_PROCESSES 16 zero_history),
     ts_display := zero_display\<lparr>td_active := True\<rparr>, ts_snapshot := zero_snapshot\<lparr>sn_warning := Some [], sn_flows := True\<rparr>,
     ts_last_report_ns := 10, ts_active := True\<rparr>"

lemma demo_session_ok: "session_ok demo_session"
proof -
  have o: "view_history c k (snd (traffic_history_open (True, True) c k zero_history)) \<and> th_count (snd (traffic_history_open (True, True) c k zero_history)) = 0"
    if "0 < c" "c \<le> 16384" "0 < k" "k \<le> 128" for c k
  proof -
    have "fst (traffic_history_open (True, True) c k zero_history)"
      using that by (simp add: traffic_history_open_def TRAFFIC_HISTORY_KEY_BYTES_def Let_def)
    then have "traffic_history_open (True, True) c k zero_history = (True, snd (traffic_history_open (True, True) c k zero_history))"
      by (simp add: prod_eq_iff)
    from open_ok [OF this] show ?thesis
      by (simp add: view_history_def)
  qed
  have "view_ok demo_session"
    using o [of TRAFFIC_MAX_FLOWS 72] o [of TRAFFIC_MAX_PROCESSES 16] unfolding view_ok_def demo_session_def
    by (simp add: TRAFFIC_MAX_FLOWS_def TRAFFIC_MAX_PROCESSES_def rows_in_def zero_session_def zero_display_def)
  then show ?thesis
    unfolding session_ok_def schedule_ok_def warning_ok_def baseline_ok_def
    by (simp add: demo_session_def zero_session_def zero_snapshot_def)
qed

lemma demo_periods:
  obtains q1 q2 where "shown_periods demo_flow_key [(demo_env 5, 30, True), (demo_env 9, 40, True)] demo_session = Some [q1, q2]"
    "fst q1 = 10" "fst (snd q1) = Some (demo_flow_value 5 30)" "fst (snd q2) = Some (demo_flow_value 9 30)"
proof -
  have d1: "tick_due 30 True demo_session"
    by (simp add: tick_due_def demo_session_def zero_session_def)
  obtain out1 s1 where t1: "traffic_tick (demo_env 5) 30 True demo_session = Some (ts_limit_reached s1, out1, s1)" "session_ok s1" "ts_count s1 = ts_count demo_session"
      "ts_last_report_ns s1 = 30"
    using tick_ok [OF demo_session_ok demo_env_ok [of 5], of 30 True] d1 by metis
  have d2: "tick_due 40 True s1"
    using t1 by (simp add: tick_due_def session_ok_def schedule_ok_def demo_session_def zero_session_def)
  obtain out2 s2 where t2: "traffic_tick (demo_env 9) 40 True s1 = Some (ts_limit_reached s2, out2, s2)"
    using tick_ok [OF t1(2) demo_env_ok [of 9], of 40 True] by metis
  show ?thesis
    by (rule that [of "shown_period demo_flow_key (demo_env 5) 30 demo_session" "shown_period demo_flow_key (demo_env 9) 40 s1"])
      (simp_all add: t1 t2 d1 d2 shown_period_def demo_env_flows, simp add: demo_session_def)
qed


end
