(* ===== verification/Spec2Isabelle.thy ===== *)
theory Spec2Isabelle
  imports FlowAttribution SyscallReports TrimStream CaptureQueue RxContext TrafficHistory TrafficBpf NativeTracks NetworkSyscall PacketOwner PerfettoConfig CaptureStart AnalysisFlow DisplayPage TrafficRun
begin

text \<open>
  \<^bold>\<open>Anettrace\<close> records what the network stack of a Linux or Android device does with packets, sockets and
  system calls, beside an ordinary Perfetto system trace, and shows live traffic per process and thread.
  This development models its own C code: the BPF programs that observe, the user-space half that
  queues, orders, attributes, exports and merges the evidence, and the traffic monitor.

  \<^bold>\<open>The parts and how they interact.\<close>  BPF programs (\<^verbatim>\<open>src/src/progs\<close>) run at kernel functions and fill maps
  and a perf buffer.  The perf-buffer callback pushes each record into the capture queue; a worker
  takes it out and hands it to the exporter, which first holds receive events without an owner in
  quarantine, then writes Perfetto packets, in ring mode only those of the last seconds.  A
  capture session starts the system tracer with a configuration, stops it, trims its trace to the same window and
  appends the network trace.  The timeline modes group packet events into contexts instead.  The traffic
  monitor reads the BPF counters, keeps a history per flow and draws it.

  \<^bold>\<open>Theories.\<close>  State is a \<open>record\<close> per C structure, an operation a function with the name of the C
  function, errors are values of \<^typ>\<open>errno\<close>, integers are words of their width; lengths and positions in
  memory are \<^typ>\<open>nat\<close>.  System calls, allocation, clocks, kernel memory and map helpers are arguments: their
  answers are given, so every theorem holds for all of them.

  \<^item> \<^verbatim>\<open>Prelude\<close>: integer types, error codes, shared lemmas.  \<^verbatim>\<open>Interfaces\<close>: the locales of stores, with their
    interpretations in the theories that provide them.
  \<^item> \<^verbatim>\<open>Wire\<close>, \<^verbatim>\<open>FdIO\<close>, \<^verbatim>\<open>PerfettoTrim\<close>, \<^verbatim>\<open>TrimStream\<close> model \<^verbatim>\<open>perfetto_trim.c\<close>: varints and fields, short and
    interrupted reads and writes, the trimming of one packet, the stream, and the replacement of the file.
    Shown: fields are read exactly and never past the end, varints round-trip, a kept packet keeps its
    fields and exactly its events inside the window, the loop over system calls refines packet-wise trimming, and
    a failed run leaves the trace alone.
  \<^item> \<^verbatim>\<open>PerfettoConfig\<close> models \<^verbatim>\<open>perfetto_config.c\<close>: the scanner that removes top-level durations equals its
    reference definition.  \<^verbatim>\<open>CaptureStart\<close> and \<^verbatim>\<open>TraceCapture\<close> model \<^verbatim>\<open>trace_capture.c\<close>: start, stop, merge and clean-up never lose
    or mix data.
  \<^item> \<^verbatim>\<open>CaptureQueue\<close> models \<^verbatim>\<open>capture_queue.c\<close> as a step relation of producer and worker over the critical
    sections: order, memory safety, no lost wake-up, and termination after the stop request.
  \<^item> \<^verbatim>\<open>RxContext\<close> models \<^verbatim>\<open>rx_context.h\<close>, the quarantine of receive events, with its list and tail pointer: an event is
    only completed from direct evidence of the same packet, every event is accounted for once, no pointer dangles.
  \<^item> \<^verbatim>\<open>ProtoWriter\<close>, \<^verbatim>\<open>ExportIdentity\<close>, \<^verbatim>\<open>NativeExport\<close>, \<^verbatim>\<open>NativeTracks\<close> model the writing half of \<^verbatim>\<open>perfetto_export.c\<close>: the buffer, identifiers
    and escaping, packets and the ring window, and the track table.  \<^verbatim>\<open>FlowTable\<close> and \<^verbatim>\<open>IoExport\<close> model the
    flows, protocol calls, packet links and system calls in it, line by line of the event file, a pointer into
    a table being an index; \<^verbatim>\<open>EventNames\<close> models the names and the visibility of events (\<^verbatim>\<open>trace.c\<close>).
    \<^verbatim>\<open>FlowMoves\<close> and \<^verbatim>\<open>IoMoves\<close> show that every operation is a sequence of a few moves of the tables
    together with the event file, as interpretations of the locale \<open>move_system\<close>; what a move keeps, every run keeps.  From
    this \<^verbatim>\<open>FlowLife\<close> derives the life of each flow, \<^verbatim>\<open>FlowAttribution\<close> which flow an event belongs to and what the
    totals add up to, \<^verbatim>\<open>IoCalls\<close> that each read and write is reported from begin to end, and \<^verbatim>\<open>SyscallReports\<close> that
    each system call has one report when events come in order, the starts of threads beyond the table being counted
    as lost, and two when a return comes late.
  \<^item> \<^verbatim>\<open>ProbeTypes\<close>, \<^verbatim>\<open>PacketIdentity\<close>, \<^verbatim>\<open>PacketOwner\<close>, \<^verbatim>\<open>NetworkSyscall\<close> model \<^verbatim>\<open>progs/core.c\<close>: generations of reused addresses, as separate accesses
    of several processors that add to one counter, owners
    and filters, and the pairing of system calls.  \<^verbatim>\<open>NetworkWakeup\<close> models \<^verbatim>\<open>progs/network_wakeup.h\<close>: a reported
    wake-up happened, in this order, uninterrupted.
  \<^item> \<^verbatim>\<open>AnalysisCtx\<close>, \<^verbatim>\<open>AnalysisRefs\<close>, \<^verbatim>\<open>AnalysisFlow\<close> model \<^verbatim>\<open>analysis.c\<close>, \<^verbatim>\<open>analysis.h\<close> and the return matching of \<^verbatim>\<open>trace_probe.c\<close>: a heap of
    contexts, packets and entries with 16-bit reference counts, the hash table, the lists of awaited
    returns, and the two threads as a step relation.  Shown, for records of known functions and without a custom end of a
    packet that also has the analyzer free or drop: no freed object is used, no context lingers, no event
    is lost.  Three ways in which the code breaks its own counts are exhibited by evaluation.
  \<^item> \<^verbatim>\<open>TrafficBpf\<close> models \<^verbatim>\<open>progs/traffic.c\<close>: what is accounted, to whom, and once.  \<^verbatim>\<open>TrafficHistory\<close> models
    \<^verbatim>\<open>traffic_history.c\<close>: the hash index and the totals over generations.  \<^verbatim>\<open>TrafficSession\<close>, \<^verbatim>\<open>TrafficSample\<close>,
    \<^verbatim>\<open>TrafficStart\<close> and \<^verbatim>\<open>TrafficRun\<close> model \<^verbatim>\<open>traffic.c\<close>: a sample has one row per flow and the bytes of the periods add up,
    a session stays well-formed through every poll, its probes are complete and released, and a run with a count ends. \<^verbatim>\<open>TrafficDisplay\<close> and \<^verbatim>\<open>DisplayPage\<close>
    model \<^verbatim>\<open>traffic_display.c\<close>: the renderer equals a declarative page, lines stay inside their buffers and the
    terminal, and nothing is dropped.
  \<^item> This theory composes them: a finished ring-buffer session is one packet stream.

  \<^bold>\<open>Bounds and fuel.\<close>  Loops over data are total functions with a measure.  Loops over system calls consume a list of answers and
  end when it does, so the statements quantify over all answers.  The probe loop of the hash index has no
  bound in the code; it is a partial function, and its termination is a theorem.  The packet contexts assume
  that no 16-bit counter is at its maximum when a record is handled (\<open>fits\<close>, a premise of the step).
  The renderer needs 32 columns, which it checks itself.

  \<^bold>\<open>Not modelled.\<close>  Floating point: rates are rationals and their printing is an argument.  The exporter's lines and events of
  connects, socket states, packets and receive hand-offs, its packet overview, clock snapshots and the dispatch of raw records:
  beside the flows and calls they are operations that write any other lines and any native trace.  The connection diagnosis of \<^verbatim>\<open>core.c\<close>, packet parsing from
  kernel memory (\<^verbatim>\<open>skb_parse.h\<close>), probe selection over generated tables (\<^verbatim>\<open>trace.c\<close>), option parsing around \<open>getopt\<close>, text output, and
  wrappers of \<^verbatim>\<open>/proc\<close>; Python tools, tests and generated headers.  Concurrency is modelled where the code has
  threads or interleaved probes; one probe is one atomic step on its maps, but
  the accesses that make a generation are steps of their own.
\<close>

section \<open>The combined trace\<close>

lemma native_frame_packet: "native_frame b = packet_frame (pb_data b)"
proof -
  have "proto_key 1 2 = 10"
    by code_simp
  then show ?thesis
    by (simp add: native_frame_def packet_frame_def field_bytes_def)
qed

text \<open>The packets of the native writer that reach the file, untimed ones first.\<close>

definition native_kept :: "u64 \<Rightarrow> (proto_buffer \<times> u64) list \<Rightarrow> bytes list" where
  "native_kept cutoff ops = [pb_data b. (b, ts) \<leftarrow> ops, ts = 0] @ [pb_data b. (b, ts) \<leftarrow> ops, ts \<noteq> 0 \<and> cutoff \<le> ts]"

lemma native_kept_bytes:
  "concat (untimed ops) @ concat (map snd (in_window cutoff (timed ops))) = concat (map packet_frame (native_kept cutoff ops))"
proof -
  have "concat (untimed ops) = concat (map packet_frame [pb_data b. (b, ts) \<leftarrow> ops, ts = 0])"
    by (induction ops) (auto simp: untimed_def native_frame_packet)
  moreover have "concat (map snd (in_window cutoff (timed ops))) = concat (map packet_frame [pb_data b. (b, ts) \<leftarrow> ops, ts \<noteq> 0 \<and> cutoff \<le> ts])"
    by (induction ops) (auto simp: timed_def in_window_def native_frame_packet)
  ultimately show ?thesis
    by (simp add: native_kept_def)
qed

text \<open>
  C31. The whole ring-buffer session: when a session with a ring buffer is finished successfully, the
  system trace is a stream of packets, the system calls only shorten or interrupt transfers, and the
  network trace is the file of the native writer, which neither failed nor truncated its ring, then
  the output is one stream of packets: the packets of the system trace, trimmed in order at the two
  cutoffs, followed by the native packets without timestamp and those inside the native window.
\<close>

theorem combined_trace_packets:
  assumes "trace_capture_finish mem env fs c = Some (None, c', fs')" and "session_paths c" and "cs_started c"
    and "cs_ring_buffer c" and "\<not> cs_system_only c"
    and "fs (cs_system_trace c) = Some data" and "parse_fields data = Inr ps" and "\<forall>f \<in> set ps. key f = 10"
    and "benign_in \<lparr>in_bytes = data, in_sched = fe_system_reads env\<rparr>" and "benign_out \<lparr>out_bytes = [], out_sched = fe_writes env\<rparr>"
    and "\<forall>n. mem n"
    and "window \<noteq> 0" and "st = native_run nmem ops (native_ring_start limit window)" and "\<not> ns_failed (native_finish st)"
    and "\<not> ns_truncated st" and "fs (cs_network_trace c) = ns_file (native_finish st)"
  shows "\<exists>c1 bc mc qs. finish_wait env c = Some (Inr (Exited 0), c1) \<and> ring_cutoffs env c1 = Inr (bc, mc) \<and>
      trim_list mem bc mc \<lparr>clock_defaults = []\<rparr> (map payload ps) = Inr qs \<and>
      fs' (cs_output c) = Some (concat (map packet_frame (qs @ native_kept (native_ring_cutoff st) ops)))"
proof -
  obtain c1 bc mc part net where fin: "finish_wait env c = Some (Inr (Exited 0), c1)" "ring_cutoffs env c1 = Inr (bc, mc)"
      "combined_bytes mem env fs c (bc, mc) part net" "fs' (cs_output c) = Some (part @ net)"
    using finish_ok [OF assms(1-3)] by auto
  have net: "net = concat (map packet_frame (native_kept (native_ring_cutoff st) ops))"
    using fin(3) assms(5,14-16) native_ring_file [OF assms(12,13)] by (simp add: combined_bytes_def native_kept_bytes)
  obtain out where out: "perfetto_trim_stream mem \<lparr>in_bytes = data, in_sched = fe_system_reads env\<rparr>
      \<lparr>out_bytes = [], out_sched = fe_writes env\<rparr> bc mc = (None, out)" "part = out_bytes out"
    using fin(3) assms(4,6) by (auto simp: combined_bytes_def)
  have "data = concat (map raw ps)" "list_all valid_field ps"
    using assms(7) by (simp_all add: parse_fields_iff)
  then have "case trim_list mem bc mc \<lparr>clock_defaults = []\<rparr> (map payload ps) of
      Inl e \<Rightarrow> fst (trim_stream_packets mem \<lparr>in_bytes = data, in_sched = fe_system_reads env\<rparr>
        \<lparr>out_bytes = [], out_sched = fe_writes env\<rparr> bc mc \<lparr>clock_defaults = []\<rparr>) = Some e
    | Inr qs \<Rightarrow> \<exists>out'. trim_stream_packets mem \<lparr>in_bytes = data, in_sched = fe_system_reads env\<rparr>
        \<lparr>out_bytes = [], out_sched = fe_writes env\<rparr> bc mc \<lparr>clock_defaults = []\<rparr> = (None, out') \<and>
        out_bytes out' = out_bytes \<lparr>out_bytes = [], out_sched = fe_writes env\<rparr> @ concat (map packet_frame qs)"
    by (intro trim_stream_packets_list [OF assms(9-11)] assms(8)) simp_all
  then obtain qs where "trim_list mem bc mc \<lparr>clock_defaults = []\<rparr> (map payload ps) = Inr qs" "part = concat (map packet_frame qs)"
    using out by (auto simp: perfetto_trim_stream_def split: sum.splits)
  then show ?thesis
    using fin net by auto
qed

definition combined_demo_state :: capture_state where
  "combined_demo_state = capture_demo_state\<lparr>cs_ring_buffer := True, cs_child_reaped := True\<rparr>"

definition combined_demo_env :: finish_env where
  "combined_demo_env = (capture_demo_env [])\<lparr>fe_cut_boottime := Inr \<lparr>tv_sec = 20, tv_nsec = 0\<rparr>,
     fe_cut_monotonic := Inr \<lparr>tv_sec = 20, tv_nsec = 0\<rparr>\<rparr>"

definition combined_demo_native :: native_state where
  "combined_demo_native = native_run (\<lambda>_. True) [(native_demo_packet 1, 0)] (native_ring_start 1000 5)"

definition combined_demo_fs :: file_system where
  "combined_demo_fs = [''o.system.tmp'' \<mapsto> [10, 2, 26, 0], ''o.anettrace.tmp'' \<mapsto> [10, 1, 1], ''o.config.tmp'' \<mapsto> [32]]"

lemma combined_demo_native_file:
  "ns_file (native_finish combined_demo_native) = Some [10, 1, 1]" "\<not> ns_failed (native_finish combined_demo_native)"
  "\<not> ns_truncated combined_demo_native"
  by (simp_all add: combined_demo_native_def native_run_def native_ring_start_def native_write_packet_at_def
        native_demo_trace native_packet_queue_append_def link_at_tail_def native_queue_empty_def native_ring_evict_def
        native_ring_cutoff_def NATIVE_RING_MAX_BYTES_def native_finish_def native_ring_prune_all_def
        native_packet_queue_write_def native_fwrite_def size_max_def packet_sizeof_def Let_def)

lemma combined_demo_trim:
  "perfetto_trim_stream (\<lambda>_. True) \<lparr>in_bytes = [10, 2, 26, 0], in_sched = [RXfer 0]\<rparr> \<lparr>out_bytes = [], out_sched = [WIntr]\<rparr>
     10000000000 10000000000 = (None, \<lparr>out_bytes = [10, 2, 26, 0], out_sched = []\<rparr>)"
  by code_simp

lemma combined_demo_runs:
  "\<exists>c' fs'. trace_capture_finish (\<lambda>_. True) combined_demo_env combined_demo_fs combined_demo_state = Some (None, c', fs')"
  using combined_demo_trim
  by (simp add: combined_demo_state_def combined_demo_env_def combined_demo_fs_def capture_demo_state_def capture_demo_env_def
      trace_capture_finish_def finish_wait_def finish_merge_def ring_cutoffs_def window_start_def clock_ns_def
      file_nonempty_def stat_nonempty_def merge_traces_def temporary_path_def PATH_MAX_def write_combined_def copy_file_def
      open_read_def copy_loop.simps sys_read.simps sys_write.simps write_all_def write_exact.simps or_else_def Let_def)

theorem combined_trace_packets_witness:
  "\<exists>fs' qs. trim_list (\<lambda>_. True) 10000000000 10000000000 \<lparr>clock_defaults = []\<rparr> [[26, 0]] = Inr qs \<and>
     fs' ''o'' = Some (concat (map packet_frame (qs @ [[1]])))"
proof -
  obtain c' fs' where run: "trace_capture_finish (\<lambda>_. True) combined_demo_env combined_demo_fs combined_demo_state = Some (None, c', fs')"
    using combined_demo_runs by blast
  have state: "session_paths combined_demo_state" "cs_started combined_demo_state" "cs_ring_buffer combined_demo_state"
      "\<not> cs_system_only combined_demo_state"
    using capture_demo_runs(2) by (simp_all add: combined_demo_state_def capture_demo_state_def session_paths_def)
  have sys: "combined_demo_fs (cs_system_trace combined_demo_state) = Some [10, 2, 26, 0]"
      "parse_fields [10, 2, 26, 0] = Inr [delimited_field 10 [26, 0]]" "\<forall>f \<in> set [delimited_field 10 [26, 0]]. key f = 10"
    by (simp add: combined_demo_fs_def combined_demo_state_def capture_demo_state_def, code_simp, simp add: delimited_field_def)
  have io: "benign_in \<lparr>in_bytes = [10, 2, 26, 0], in_sched = fe_system_reads combined_demo_env\<rparr>"
      "benign_out \<lparr>out_bytes = [], out_sched = fe_writes combined_demo_env\<rparr>" "\<forall>n :: nat. (\<lambda>_. True) n"
    by (simp_all add: benign_in_def benign_out_def combined_demo_env_def capture_demo_env_def)
  have net: "combined_demo_fs (cs_network_trace combined_demo_state) = ns_file (native_finish combined_demo_native)"
    by (simp add: combined_demo_native_file combined_demo_fs_def combined_demo_state_def capture_demo_state_def)
  have cut: "finish_wait combined_demo_env combined_demo_state = Some (Inr (Exited 0), combined_demo_state)"
      "ring_cutoffs combined_demo_env combined_demo_state = Inr (10000000000, 10000000000)"
    by (simp_all add: finish_wait_def ring_cutoffs_def window_start_def clock_ns_def combined_demo_state_def combined_demo_env_def
        capture_demo_state_def)
  have "native_kept x [(native_demo_packet 1, 0)] = [[1]]" for x
    by (simp add: native_kept_def native_demo_packet_def)
  then show ?thesis
    using combined_trace_packets [OF run state sys io _ combined_demo_native_def combined_demo_native_file(2,3) net] cut
    by (auto simp: delimited_field_def combined_demo_state_def capture_demo_state_def)
qed

end
